(* ===== verification/Prelude.thy ===== *)
theory Prelude
  imports Main "HOL-Library.Word"
begin

unbundle bit_operations_syntax

text \<open>
  Shared vocabulary of the development: the machine types of the C sources, the C-level helpers on
  byte arrays (a memory block is a list of bytes, a pointer into it an offset), and the generic
  facts on lists and words that the component theories use through the collections below.
\<close>

named_theorems c_simps \<open>unfolding rules for the small C helpers\<close>
named_theorems mem_simps \<open>reading and writing memory blocks\<close>

type_synonym byte = "8 word"
type_synonym u8 = "8 word"
type_synonym u16 = "16 word"
type_synonym u32 = "32 word"
type_synonym u64 = "64 word"

text \<open>The limits of the C types (LP64, as on the arm64 and x86-64 targets of the build).\<close>

definition INT_MAX :: int where
  [c_simps]: "INT_MAX = 2147483647"

definition UINT16_MAX :: int where
  [c_simps]: "UINT16_MAX = 65535"

subsection \<open>Memory blocks\<close>

text \<open>The \<open>n\<close> bytes at offset \<open>off\<close> of a block.\<close>

definition mem_read :: "byte list \<Rightarrow> nat \<Rightarrow> nat \<Rightarrow> byte list" where
  "mem_read m off n = take n (drop off m)"

text \<open>\<open>memcpy(m + off, d, length d)\<close>.\<close>

definition mem_write :: "byte list \<Rightarrow> nat \<Rightarrow> byte list \<Rightarrow> byte list" where
  "mem_write m off d = take off m @ d @ drop (off + length d) m"

lemma length_mem_write [mem_simps, simp]:
  "off + length d \<le> length m \<Longrightarrow> length (mem_write m off d) = length m"
  by (simp add: mem_write_def)

lemma length_mem_read [mem_simps]:
  "off + n \<le> length m \<Longrightarrow> length (mem_read m off n) = n"
  by (simp add: mem_read_def)

lemma mem_write_empty [mem_simps, simp]: "mem_write m off [] = m"
  by (simp add: mem_write_def)

lemma mem_read_0 [mem_simps, simp]: "mem_read m off 0 = []"
  by (simp add: mem_read_def)

lemma nth_mem_write:
  assumes "off + length d \<le> length m" "i < length m"
  shows "mem_write m off d ! i = (if off \<le> i \<and> i < off + length d then d ! (i - off) else m ! i)"
  using assms by (auto simp: mem_write_def nth_append min_def)

lemma mem_read_nth: "i < n \<Longrightarrow> off + n \<le> length m \<Longrightarrow> mem_read m off n ! i = m ! (off + i)"
  by (simp add: mem_read_def)

lemma mem_read_write_same [mem_simps]:
  "off + length d \<le> length m \<Longrightarrow> n = length d \<Longrightarrow> mem_read (mem_write m off d) off n = d"
  by (simp add: mem_read_def mem_write_def)

lemma mem_read_write_before [mem_simps]:
  assumes "off + length d \<le> length m" "a + n \<le> off"
  shows "mem_read (mem_write m off d) a n = mem_read m a n"
  using assms by (intro nth_equalityI) (auto simp: mem_read_nth nth_mem_write length_mem_read)

lemma mem_read_write_after [mem_simps]:
  assumes "off + length d \<le> length m" "off + length d \<le> a"
  shows "mem_read (mem_write m off d) a n = mem_read m a n"
  using assms by (simp add: mem_read_def mem_write_def)

lemma mem_read_write_disjoint:
  assumes "off + length d \<le> length m" "a + n \<le> off \<or> off + length d \<le> a"
  shows "mem_read (mem_write m off d) a n = mem_read m a n"
  using assms mem_read_write_before mem_read_write_after by blast

lemma mem_read_all [mem_simps]: "n = length m \<Longrightarrow> mem_read m 0 n = m"
  by (simp add: mem_read_def)

lemma mem_read_append: "mem_read m off (a + b) = mem_read m off a @ mem_read m (off + a) b"
  by (simp add: mem_read_def take_add ac_simps)

lemma mem_read_take: "mem_read m off n = take n (mem_read m off k)" if "n \<le> k"
  using that by (simp add: mem_read_def min_absorb1)

lemma mem_read_read:
  "a + n \<le> k \<Longrightarrow> mem_read (mem_read m off k) a n = mem_read m (off + a) n"
  by (simp add: mem_read_def drop_take min_absorb1 ac_simps)

lemma mem_write_join:
  "d + length a + length b \<le> length m \<Longrightarrow>
   mem_write (mem_write m (d + length a) b) d a = mem_write m d (a @ b)"
  by (rule nth_equalityI) (auto simp: nth_mem_write nth_append)

lemma mem_write_append:
  "off + length a + length b \<le> length m \<Longrightarrow>
   mem_write (mem_write m off a) (off + length a) b = mem_write m off (a @ b)"
  by (rule nth_equalityI) (auto simp: nth_mem_write nth_append)

lemma mem_write_full [mem_simps, simp]: "length d = length m \<Longrightarrow> mem_write m 0 d = d"
  by (simp add: mem_write_def)

subsection \<open>Small helpers of misc\<close>

text \<open>\<open>B_COMPARE\<close> of misc/compare.h.\<close>

definition B_COMPARE :: "'a::linorder \<Rightarrow> 'a \<Rightarrow> int" where
  "B_COMPARE a b = (if a > b then 1 else 0) - (if a < b then 1 else 0)"

lemma B_COMPARE_0 [simp]: "B_COMPARE a b = 0 \<longleftrightarrow> a = b"
  by (auto simp: B_COMPARE_def)

lemma B_COMPARE_neg: "B_COMPARE b a = - B_COMPARE a b"
  by (auto simp: B_COMPARE_def)

lemma B_COMPARE_less: "B_COMPARE a b < 0 \<longleftrightarrow> a < b"
  by (auto simp: B_COMPARE_def)

lemma B_COMPARE_greater: "B_COMPARE a b > 0 \<longleftrightarrow> a > b"
  by (auto simp: B_COMPARE_def)

text \<open>\<open>bmin_int\<close> of misc/minmax.h.\<close>

definition bmin_int :: "int \<Rightarrow> int \<Rightarrow> int" where
  "bmin_int a b = (if a < b then a else b)"

lemma bmin_int_min [simp]: "bmin_int a b = min a b"
  by (simp add: bmin_int_def min_def)

text \<open>\<open>bdivide_up\<close> of misc/balign.h, on sizes that fit \<open>size_t\<close>.\<close>

definition bdivide_up :: "nat \<Rightarrow> nat \<Rightarrow> nat" where
  "bdivide_up a b = (let r = a mod b in if r > 0 then a div b + 1 else a div b)"

lemma bdivide_up_4: "bdivide_up a 4 = (a + 3) div 4"
  by (simp add: bdivide_up_def Let_def; presburger)

lemma bdivide_up_4_ge: "a \<le> 4 * bdivide_up a 4"
  by (simp add: bdivide_up_4; presburger)

lemma bdivide_up_4_le: "a \<le> 4 * b \<Longrightarrow> bdivide_up a 4 \<le> b"
  by (simp add: bdivide_up_4; presburger)

lemma bdivide_up_4_mono: "a \<le> c \<Longrightarrow> bdivide_up a 4 \<le> bdivide_up c 4"
  by (simp add: bdivide_up_4 div_le_mono)

lemma bdivide_up_0 [simp]: "bdivide_up 0 b = 0"
  by (simp add: bdivide_up_def)

end
