(* ===== verification/ByteOrder.thy ===== *)
theory ByteOrder
  imports Prelude
begin

text \<open>
  misc/read_write_int.h and misc/byteorder.h. A pointer to \<open>n\<close> bytes is a list whose first
  \<open>n\<close> elements are read; a writer returns the bytes it stores. The host is little-endian
  (\<open>BADVPN_LITTLE_ENDIAN\<close> in Android.mk), so copying an integer object with \<open>memcpy\<close> stores its
  \<open>badvpn_write_le\<close> bytes.
\<close>

subsection \<open>misc/read\_write\_int.h\<close>

definition badvpn_read_le8 :: "byte list \<Rightarrow> u8" where
  "badvpn_read_le8 p =
     push_bit 0 (ucast (p ! 0))"

definition badvpn_read_le16 :: "byte list \<Rightarrow> u16" where
  "badvpn_read_le16 p =
     push_bit 8 (ucast (p ! 1)) OR
     push_bit 0 (ucast (p ! 0))"

definition badvpn_read_le32 :: "byte list \<Rightarrow> u32" where
  "badvpn_read_le32 p =
     push_bit 24 (ucast (p ! 3)) OR
     push_bit 16 (ucast (p ! 2)) OR
     push_bit 8 (ucast (p ! 1)) OR
     push_bit 0 (ucast (p ! 0))"

definition badvpn_read_le64 :: "byte list \<Rightarrow> u64" where
  "badvpn_read_le64 p =
     push_bit 56 (ucast (p ! 7)) OR
     push_bit 48 (ucast (p ! 6)) OR
     push_bit 40 (ucast (p ! 5)) OR
     push_bit 32 (ucast (p ! 4)) OR
     push_bit 24 (ucast (p ! 3)) OR
     push_bit 16 (ucast (p ! 2)) OR
     push_bit 8 (ucast (p ! 1)) OR
     push_bit 0 (ucast (p ! 0))"

definition badvpn_read_be8 :: "byte list \<Rightarrow> u8" where
  "badvpn_read_be8 p =
     push_bit 0 (ucast (p ! 0))"

definition badvpn_read_be16 :: "byte list \<Rightarrow> u16" where
  "badvpn_read_be16 p =
     push_bit 8 (ucast (p ! 0)) OR
     push_bit 0 (ucast (p ! 1))"

definition badvpn_read_be32 :: "byte list \<Rightarrow> u32" where
  "badvpn_read_be32 p =
     push_bit 24 (ucast (p ! 0)) OR
     push_bit 16 (ucast (p ! 1)) OR
     push_bit 8 (ucast (p ! 2)) OR
     push_bit 0 (ucast (p ! 3))"

definition badvpn_read_be64 :: "byte list \<Rightarrow> u64" where
  "badvpn_read_be64 p =
     push_bit 56 (ucast (p ! 0)) OR
     push_bit 48 (ucast (p ! 1)) OR
     push_bit 40 (ucast (p ! 2)) OR
     push_bit 32 (ucast (p ! 3)) OR
     push_bit 24 (ucast (p ! 4)) OR
     push_bit 16 (ucast (p ! 5)) OR
     push_bit 8 (ucast (p ! 6)) OR
     push_bit 0 (ucast (p ! 7))"

definition badvpn_write_le8 :: "u8 \<Rightarrow> byte list" where
  "badvpn_write_le8 x =
     [ucast (drop_bit 0 x)]"

definition badvpn_write_le16 :: "u16 \<Rightarrow> byte list" where
  "badvpn_write_le16 x =
     [ucast (drop_bit 0 x), ucast (drop_bit 8 x)]"

definition badvpn_write_le32 :: "u32 \<Rightarrow> byte list" where
  "badvpn_write_le32 x =
     [ucast (drop_bit 0 x), ucast (drop_bit 8 x), ucast (drop_bit 16 x), ucast (drop_bit 24 x)]"

definition badvpn_write_le64 :: "u64 \<Rightarrow> byte list" where
  "badvpn_write_le64 x =
     [ucast (drop_bit 0 x), ucast (drop_bit 8 x), ucast (drop_bit 16 x), ucast (drop_bit 24 x), ucast (drop_bit 32 x), ucast (drop_bit 40 x), ucast (drop_bit 48 x), ucast (drop_bit 56 x)]"

definition badvpn_write_be8 :: "u8 \<Rightarrow> byte list" where
  "badvpn_write_be8 x =
     [ucast (drop_bit 0 x)]"

definition badvpn_write_be16 :: "u16 \<Rightarrow> byte list" where
  "badvpn_write_be16 x =
     [ucast (drop_bit 8 x), ucast (drop_bit 0 x)]"

definition badvpn_write_be32 :: "u32 \<Rightarrow> byte list" where
  "badvpn_write_be32 x =
     [ucast (drop_bit 24 x), ucast (drop_bit 16 x), ucast (drop_bit 8 x), ucast (drop_bit 0 x)]"

definition badvpn_write_be64 :: "u64 \<Rightarrow> byte list" where
  "badvpn_write_be64 x =
     [ucast (drop_bit 56 x), ucast (drop_bit 48 x), ucast (drop_bit 40 x), ucast (drop_bit 32 x), ucast (drop_bit 24 x), ucast (drop_bit 16 x), ucast (drop_bit 8 x), ucast (drop_bit 0 x)]"

lemmas rw_int_defs =
  badvpn_read_le8_def badvpn_read_le16_def badvpn_read_le32_def badvpn_read_le64_def
  badvpn_read_be8_def badvpn_read_be16_def badvpn_read_be32_def badvpn_read_be64_def
  badvpn_write_le8_def badvpn_write_le16_def badvpn_write_le32_def badvpn_write_le64_def
  badvpn_write_be8_def badvpn_write_be16_def badvpn_write_be32_def badvpn_write_be64_def

lemma length_write_le8 [simp]: "length (badvpn_write_le8 x) = 1"
  by (simp add: badvpn_write_le8_def)

lemma length_write_le16 [simp]: "length (badvpn_write_le16 x) = 2"
  by (simp add: badvpn_write_le16_def)

lemma length_write_le32 [simp]: "length (badvpn_write_le32 x) = 4"
  by (simp add: badvpn_write_le32_def)

lemma length_write_le64 [simp]: "length (badvpn_write_le64 x) = 8"
  by (simp add: badvpn_write_le64_def)

lemma length_write_be8 [simp]: "length (badvpn_write_be8 x) = 1"
  by (simp add: badvpn_write_be8_def)

lemma length_write_be16 [simp]: "length (badvpn_write_be16 x) = 2"
  by (simp add: badvpn_write_be16_def)

lemma length_write_be32 [simp]: "length (badvpn_write_be32 x) = 4"
  by (simp add: badvpn_write_be32_def)

lemma length_write_be64 [simp]: "length (badvpn_write_be64 x) = 8"
  by (simp add: badvpn_write_be64_def)

lemma read_write_le8 [simp]: "badvpn_read_le8 (badvpn_write_le8 x @ r) = x"
  by (rule bit_word_eqI) (auto simp: rw_int_defs bit_simps)

lemma read_write_be8 [simp]: "badvpn_read_be8 (badvpn_write_be8 x @ r) = x"
  by (rule bit_word_eqI) (auto simp: rw_int_defs bit_simps)

lemma read_write_le16 [simp]: "badvpn_read_le16 (badvpn_write_le16 x @ r) = x"
  by (rule bit_word_eqI) (auto simp: rw_int_defs bit_simps)

lemma read_write_be16 [simp]: "badvpn_read_be16 (badvpn_write_be16 x @ r) = x"
  by (rule bit_word_eqI) (auto simp: rw_int_defs bit_simps)

lemma read_write_le32 [simp]: "badvpn_read_le32 (badvpn_write_le32 x @ r) = x"
proof (rule bit_word_eqI)
  fix n assume "n < LENGTH(32)"
  then consider "0 \<le> n" "n < 8" | "8 \<le> n" "n < 16" | "16 \<le> n" "n < 24" | "24 \<le> n" "n < 32"
    by fastforce
  then show "bit (badvpn_read_le32 (badvpn_write_le32 x @ r)) n = bit x n"
    by cases (simp_all add: badvpn_read_le32_def badvpn_write_le32_def bit_simps less_diff_conv2)
qed

lemma read_write_be32 [simp]: "badvpn_read_be32 (badvpn_write_be32 x @ r) = x"
proof (rule bit_word_eqI)
  fix n assume "n < LENGTH(32)"
  then consider "0 \<le> n" "n < 8" | "8 \<le> n" "n < 16" | "16 \<le> n" "n < 24" | "24 \<le> n" "n < 32"
    by fastforce
  then show "bit (badvpn_read_be32 (badvpn_write_be32 x @ r)) n = bit x n"
    by cases (simp_all add: badvpn_read_be32_def badvpn_write_be32_def bit_simps less_diff_conv2)
qed

lemma read_write_le64 [simp]: "badvpn_read_le64 (badvpn_write_le64 x @ r) = x"
proof (rule bit_word_eqI)
  fix n assume "n < LENGTH(64)"
  then consider "0 \<le> n" "n < 8" | "8 \<le> n" "n < 16" | "16 \<le> n" "n < 24" | "24 \<le> n" "n < 32" | "32 \<le> n" "n < 40" | "40 \<le> n" "n < 48" | "48 \<le> n" "n < 56" | "56 \<le> n" "n < 64"
    by fastforce
  then show "bit (badvpn_read_le64 (badvpn_write_le64 x @ r)) n = bit x n"
    by cases (simp_all add: badvpn_read_le64_def badvpn_write_le64_def bit_simps less_diff_conv2)
qed

lemma read_write_be64 [simp]: "badvpn_read_be64 (badvpn_write_be64 x @ r) = x"
proof (rule bit_word_eqI)
  fix n assume "n < LENGTH(64)"
  then consider "0 \<le> n" "n < 8" | "8 \<le> n" "n < 16" | "16 \<le> n" "n < 24" | "24 \<le> n" "n < 32" | "32 \<le> n" "n < 40" | "40 \<le> n" "n < 48" | "48 \<le> n" "n < 56" | "56 \<le> n" "n < 64"
    by fastforce
  then show "bit (badvpn_read_be64 (badvpn_write_be64 x @ r)) n = bit x n"
    by cases (simp_all add: badvpn_read_be64_def badvpn_write_be64_def bit_simps less_diff_conv2)
qed

lemma write_read_le16: "badvpn_write_le16 (badvpn_read_le16 (a # b # r)) = [a, b]"
  by (auto simp: rw_int_defs intro!: bit_word_eqI) (auto simp: bit_simps dest: bit_imp_le_length)

lemma write_read_be16: "badvpn_write_be16 (badvpn_read_be16 (a # b # r)) = [a, b]"
  by (auto simp: rw_int_defs intro!: bit_word_eqI) (auto simp: bit_simps dest: bit_imp_le_length)

lemma write_read_le32: "badvpn_write_le32 (badvpn_read_le32 (a # b # c # d # r)) = [a, b, c, d]"
  by (auto simp: rw_int_defs intro!: bit_word_eqI) (auto simp: bit_simps dest: bit_imp_le_length)

lemma unat_byte_lt: "unat (a :: byte) < 256"
  using unsigned_less [of a] by simp

lemma unat_u16_lt: "unat (a :: u16) < 65536"
  using unsigned_less [of a] by simp

lemma unat_u32_lt: "unat (a :: u32) < 4294967296"
  using unsigned_less [of a] by simp

lemma unat_ucast_8_16: "unat (ucast (a :: byte) :: u16) = unat a"
  using unat_byte_lt [of a] by (simp add: unsigned_ucast_eq take_bit_nat_eq_self)

lemma unat_ucast_16_32 [simp]: "unat (ucast (a :: u16) :: u32) = unat a"
  using unat_u16_lt [of a] by (simp add: unsigned_ucast_eq take_bit_nat_eq_self)

lemma unat_read_be16: "unat (badvpn_read_be16 p) = 256 * unat (p ! 0) + unat (p ! 1)"
proof -
  have "badvpn_read_be16 p = word_cat (p ! 0) (p ! 1)"
    by (rule bit_word_eqI) (auto simp: badvpn_read_be16_def bit_simps dest: bit_imp_le_length)
  then have "badvpn_read_be16 p = push_bit 8 (ucast (p ! 0)) + ucast (p ! 1)"
    by (simp add: word_cat_eq)
  moreover have "push_bit 8 (ucast (p ! 0)) = (256 :: u16) * ucast (p ! 0)"
    by (simp add: push_bit_eq_mult)
  ultimately show ?thesis
    using unat_byte_lt [of "p ! 0"] unat_byte_lt [of "p ! 1"]
    by (simp add: unat_word_ariths unat_ucast_8_16)
qed

text \<open>The writers are left folded; their bytes are reached through the facts above.\<close>

subsection \<open>misc/byteorder.h\<close>

text \<open>
  \<open>badvpn_reverse16\<close> and its siblings store the bytes of the object in the opposite order: the byte
  at address \<open>i\<close> of the result is the byte at address \<open>n - 1 - i\<close> of the argument.
\<close>

definition badvpn_reverse16 :: "u16 \<Rightarrow> u16" where
  "badvpn_reverse16 x = badvpn_read_le16 (rev (badvpn_write_le16 x))"

definition badvpn_reverse32 :: "u32 \<Rightarrow> u32" where
  "badvpn_reverse32 x = badvpn_read_le32 (rev (badvpn_write_le32 x))"

definition badvpn_reverse64 :: "u64 \<Rightarrow> u64" where
  "badvpn_reverse64 x = badvpn_read_le64 (rev (badvpn_write_le64 x))"

definition hton8 :: "u8 \<Rightarrow> u8" where "hton8 x = x"

definition htol8 :: "u8 \<Rightarrow> u8" where "htol8 x = x"

definition hton16 :: "u16 \<Rightarrow> u16" where "hton16 x = badvpn_reverse16 x"

definition hton32 :: "u32 \<Rightarrow> u32" where "hton32 x = badvpn_reverse32 x"

definition hton64 :: "u64 \<Rightarrow> u64" where "hton64 x = badvpn_reverse64 x"

definition htol16 :: "u16 \<Rightarrow> u16" where "htol16 x = x"

definition htol32 :: "u32 \<Rightarrow> u32" where "htol32 x = x"

definition htol64 :: "u64 \<Rightarrow> u64" where "htol64 x = x"

definition ntoh8 :: "u8 \<Rightarrow> u8" where "ntoh8 x = hton8 x"

definition ntoh16 :: "u16 \<Rightarrow> u16" where "ntoh16 x = hton16 x"

definition ntoh32 :: "u32 \<Rightarrow> u32" where "ntoh32 x = hton32 x"

definition ntoh64 :: "u64 \<Rightarrow> u64" where "ntoh64 x = hton64 x"

definition ltoh8 :: "u8 \<Rightarrow> u8" where "ltoh8 x = htol8 x"

definition ltoh16 :: "u16 \<Rightarrow> u16" where "ltoh16 x = htol16 x"

definition ltoh32 :: "u32 \<Rightarrow> u32" where "ltoh32 x = htol32 x"

definition ltoh64 :: "u64 \<Rightarrow> u64" where "ltoh64 x = htol64 x"

lemmas byteorder_id [simp] =
  hton8_def htol8_def htol16_def htol32_def htol64_def ntoh8_def
  ltoh8_def ltoh16_def ltoh32_def ltoh64_def

text \<open>The object representation of \<open>hton16 x\<close> is \<open>x\<close> in network order.\<close>

lemma write_le16_hton16 [simp]: "badvpn_write_le16 (hton16 x) = badvpn_write_be16 x"
proof -
  obtain a b where ab: "badvpn_write_be16 x = [a, b]"
    by (simp add: badvpn_write_be16_def)
  then have "rev (badvpn_write_le16 x) = [a, b]"
    by (simp add: badvpn_write_be16_def badvpn_write_le16_def)
  then show ?thesis
    using write_read_le16 [of a b "[]"] ab by (simp add: hton16_def badvpn_reverse16_def)
qed

lemma write_le32_hton32 [simp]: "badvpn_write_le32 (hton32 x) = badvpn_write_be32 x"
proof -
  obtain a b c d where ab: "badvpn_write_be32 x = [a, b, c, d]"
    by (simp add: badvpn_write_be32_def)
  then have "rev (badvpn_write_le32 x) = [a, b, c, d]"
    by (simp add: badvpn_write_be32_def badvpn_write_le32_def)
  then show ?thesis
    using write_read_le32 [of a b c d "[]"] ab by (simp add: hton32_def badvpn_reverse32_def)
qed

lemma read_write_le16' [simp]: "badvpn_read_le16 (badvpn_write_le16 x) = x"
  using read_write_le16 [of x "[]"] by simp

lemma read_write_le32' [simp]: "badvpn_read_le32 (badvpn_write_le32 x) = x"
  using read_write_le32 [of x "[]"] by simp

lemma read_write_be16' [simp]: "badvpn_read_be16 (badvpn_write_be16 x) = x"
  using read_write_be16 [of x "[]"] by simp

lemma write_be16_rev: "badvpn_write_be16 x = rev (badvpn_write_le16 x)"
  by (simp add: badvpn_write_be16_def badvpn_write_le16_def)

lemma write_be32_rev: "badvpn_write_be32 x = rev (badvpn_write_le32 x)"
  by (simp add: badvpn_write_be32_def badvpn_write_le32_def)

text \<open>Swapping twice is the identity, so \<open>ntoh\<close> undoes \<open>hton\<close>.\<close>

lemma hton16_hton16 [simp]: "hton16 (hton16 x) = x"
proof -
  have "hton16 (hton16 x) = badvpn_read_le16 (rev (badvpn_write_le16 (hton16 x)))"
    by (simp add: hton16_def badvpn_reverse16_def)
  also have "\<dots> = x" by (simp add: write_be16_rev del: rev_rev_ident) simp
  finally show ?thesis .
qed

lemma hton32_hton32 [simp]: "hton32 (hton32 x) = x"
proof -
  have "hton32 (hton32 x) = badvpn_read_le32 (rev (badvpn_write_le32 (hton32 x)))"
    by (simp add: hton32_def badvpn_reverse32_def)
  also have "\<dots> = x" by (simp add: write_be32_rev del: rev_rev_ident) simp
  finally show ?thesis .
qed

lemma ntoh16_hton16 [simp]: "ntoh16 (hton16 x) = x"
  by (simp add: ntoh16_def)

lemma ntoh32_hton32 [simp]: "ntoh32 (hton32 x) = x"
  by (simp add: ntoh32_def)

lemma hton16_ntoh16 [simp]: "hton16 (ntoh16 x) = x"
  by (simp add: ntoh16_def)

lemma hton16_eq_iff [simp]: "hton16 x = hton16 y \<longleftrightarrow> x = y"
  by (metis hton16_hton16)

lemma ntoh16_eq_iff [simp]: "ntoh16 x = ntoh16 y \<longleftrightarrow> x = y"
  by (simp add: ntoh16_def)

lemma ntoh32_eq_iff [simp]: "ntoh32 x = ntoh32 y \<longleftrightarrow> x = y"
  by (metis hton32_hton32 ntoh32_def)

lemma read_be16_write_le16: "badvpn_read_be16 (badvpn_write_le16 x @ r) = ntoh16 x"
proof -
  have "badvpn_write_le16 x = badvpn_write_be16 (ntoh16 x)"
    by (metis hton16_hton16 ntoh16_def write_le16_hton16)
  then show ?thesis by simp
qed

lemma hton16_0 [simp]: "hton16 0 = 0"
  by (simp add: hton16_def badvpn_reverse16_def badvpn_write_le16_def badvpn_read_le16_def)

lemma hton16_max [simp]: "hton16 0xFFFF = 0xFFFF"
  by (rule bit_word_eqI) (auto simp: hton16_def badvpn_reverse16_def rw_int_defs bit_simps)

end
