(* ===== verification/Checksum.thy ===== *)
theory Checksum
  imports ByteOrder
begin

text \<open>
  The Internet checksum loops shared by misc/ipv4\_proto.h, misc/udp\_proto.h and
  tun2socks/tun2socks.c: the accumulation of big-endian 16-bit words in a \<open>uint32_t\<close> and the folding
  of the carries. The abstract side is RFC 1071: the one's complement sum of a byte string, with
  \<open>rfc1071_ok\<close> the test a receiver makes.
\<close>

subsection \<open>The accumulation loop\<close>

text \<open>\<open>for (i = 0; i < n; i++) t += badvpn_read_be16(p + 2 * i);\<close>\<close>

fun be16_sum :: "u32 \<Rightarrow> byte list \<Rightarrow> nat \<Rightarrow> u32" where
  "be16_sum t p 0 = t"
| "be16_sum t p (Suc n) = be16_sum (t + ucast (badvpn_read_be16 p)) (drop 2 p) n"

text \<open>The RFC 1071 sum of a byte string; an odd last byte is padded with a zero byte.\<close>

fun words_sum :: "byte list \<Rightarrow> nat" where
  "words_sum [] = 0"
| "words_sum [a] = 256 * unat a"
| "words_sum (a # b # r) = 256 * unat a + unat b + words_sum r"

lemma words_sum_append:
  "even (length xs) \<Longrightarrow> words_sum (xs @ ys) = words_sum xs + words_sum ys"
  by (induction xs rule: words_sum.induct) auto

lemma words_sum_le: "words_sum xs \<le> 65535 * ((length xs + 1) div 2)"
proof (induction xs rule: words_sum.induct)
  case (2 a)
  then show ?case using unat_byte_lt [of a] by simp
next
  case (3 a b r)
  then show ?case using unat_byte_lt [of a] unat_byte_lt [of b] by simp
qed simp

lemma words_sum_be16:
  "words_sum (badvpn_write_be16 x @ r) = unat x + words_sum r"
proof -
  obtain a b where ab: "badvpn_write_be16 x = [a, b]" by (simp add: badvpn_write_be16_def)
  have "unat x = unat (badvpn_read_be16 [a, b])" using ab read_write_be16' [of x] by simp
  then show ?thesis using ab by (simp add: unat_read_be16)
qed

lemma words_sum_le16:
  "words_sum (badvpn_write_le16 x @ r) = unat (ntoh16 x) + words_sum r"
proof -
  have "badvpn_write_le16 x = badvpn_write_be16 (ntoh16 x)"
    by (metis hton16_hton16 ntoh16_def write_le16_hton16)
  then show ?thesis by (simp add: words_sum_be16)
qed

lemma words_sum_be16' [simp]: "words_sum (badvpn_write_be16 x) = unat x"
  using words_sum_be16 [of x "[]"] by simp

lemma words_sum_le16' [simp]: "words_sum (badvpn_write_le16 x) = unat (ntoh16 x)"
  using words_sum_le16 [of x "[]"] by simp

lemma unat_be16_sum:
  "2 * n \<le> length p \<Longrightarrow> unat (be16_sum t p n) = (unat t + words_sum (take (2 * n) p)) mod 2 ^ 32"
proof (induction n arbitrary: t p)
  case 0
  then show ?case using unat_u32_lt [of t] by simp
next
  case (Suc n)
  then obtain a b r where p: "p = a # b # r"
    by (cases p; cases "tl p") auto
  have "unat (be16_sum t p (Suc n)) =
      (unat (t + ucast (badvpn_read_be16 p)) + words_sum (take (2 * n) r)) mod 2 ^ 32"
    using Suc p by simp
  also have "unat (t + ucast (badvpn_read_be16 p) :: u32) =
      (unat t + (256 * unat a + unat b)) mod 2 ^ 32"
    by (simp add: unat_word_ariths unat_read_be16 p)
  also have "((unat t + (256 * unat a + unat b)) mod 2 ^ 32 + words_sum (take (2 * n) r)) mod 2 ^ 32 =
      (unat t + (256 * unat a + unat b) + words_sum (take (2 * n) r)) mod 2 ^ 32"
    by (rule mod_add_left_eq)
  finally show ?case using p by (simp add: ac_simps)
qed

subsection \<open>The folding loop\<close>

lemma unat_fold_step:
  "unat ((t AND 0xFFFF) + drop_bit 16 t :: u32) = unat t mod 65536 + unat t div 65536"
proof -
  have "t AND 0xFFFF = take_bit 16 t"
    by (simp add: take_bit_eq_mask mask_numeral)
  then have a: "unat (t AND 0xFFFF) = unat t mod 65536"
    by (simp add: take_bit_eq_mod unat_mod)
  have b: "unat (drop_bit 16 t) = unat t div 65536"
    by (simp add: unat_div drop_bit_eq_div)
  have "unat t div 65536 < 65536" "unat t mod 65536 < 65536"
    using unat_u32_lt [of t] by (simp_all add: less_mult_imp_div_less)
  then have "unat t mod 65536 + unat t div 65536 < 4294967296" by linarith
  then show ?thesis by (simp add: unat_word_ariths a b)
qed

lemma drop_bit16_nonzero: "drop_bit 16 (t :: u32) \<noteq> 0 \<longleftrightarrow> 65536 \<le> unat t"
proof -
  have "drop_bit 16 t \<noteq> 0 \<longleftrightarrow> unat (drop_bit 16 t) \<noteq> 0"
    by (simp add: unat_eq_0)
  also have "\<dots> \<longleftrightarrow> unat t div 65536 \<noteq> 0"
    by (simp add: unat_div drop_bit_eq_div)
  finally show ?thesis by (simp add: div_eq_0_iff not_less)
qed

text \<open>\<open>while (t >> 16) t = (t & 0xFFFF) + (t >> 16);\<close>\<close>

function checksum_fold :: "u32 \<Rightarrow> u32" where
  "checksum_fold t =
     (if drop_bit 16 t \<noteq> 0 then checksum_fold ((t AND 0xFFFF) + drop_bit 16 t) else t)"
  by pat_completeness auto
termination
proof (relation "measure unat")
  fix t :: u32
  assume "drop_bit 16 t \<noteq> 0"
  then have "65536 \<le> unat t" by (simp add: drop_bit16_nonzero)
  then have "1 \<le> unat t div 65536" by (simp add: Suc_le_eq div_greater_zero_iff)
  moreover have "unat t = 65536 * (unat t div 65536) + unat t mod 65536" by simp
  ultimately have "unat t mod 65536 + unat t div 65536 < unat t" by linarith
  then show "((t AND 0xFFFF) + drop_bit 16 t, t) \<in> measure unat"
    by (simp add: unat_fold_step)
qed simp

declare checksum_fold.simps [simp del]

text \<open>The value the loop computes: the representative of \<open>t\<close> modulo 65535 in \<open>1..65535\<close>, or 0.\<close>

definition ones_fold :: "nat \<Rightarrow> nat" where
  "ones_fold t = (if t = 0 then 0 else if t mod 65535 = 0 then 65535 else t mod 65535)"

lemma ones_fold_small: "t < 65536 \<Longrightarrow> ones_fold t = t"
proof -
  assume "t < 65536"
  then consider "t = 65535" | "t < 65535" by linarith
  then show ?thesis by cases (auto simp: ones_fold_def)
qed

lemma ones_fold_step: "ones_fold (t mod 65536 + t div 65536) = ones_fold t"
proof -
  let ?q = "t div 65536" and ?r = "t mod 65536"
  have t: "t = 65536 * ?q + ?r" by simp
  then have "t = 65535 * ?q + (?r + ?q)" by linarith
  then have "t mod 65535 = (?r + ?q) mod 65535"
    by (metis mod_mult_self4)
  moreover have "t = 0 \<longleftrightarrow> ?r + ?q = 0" using t by linarith
  ultimately show ?thesis by (auto simp: ones_fold_def)
qed

lemma ones_fold_le: "ones_fold t \<le> 65535"
  by (simp add: ones_fold_def less_imp_le_nat)

lemma ones_fold_pos: "0 < t \<Longrightarrow> 0 < ones_fold t"
  by (simp add: ones_fold_def)

lemma unat_checksum_fold: "unat (checksum_fold t) = ones_fold (unat t)"
proof (induction t rule: checksum_fold.induct)
  case (1 t)
  show ?case
  proof (cases "drop_bit 16 t \<noteq> 0")
    case True
    then have "unat (checksum_fold t) = ones_fold (unat ((t AND 0xFFFF) + drop_bit 16 t))"
      using 1 by (simp add: checksum_fold.simps [of t])
    then show ?thesis by (simp only: unat_fold_step ones_fold_step)
  next
    case False
    then show ?thesis
      using drop_bit16_nonzero [of t] by (simp add: checksum_fold.simps [of t] ones_fold_small)
  qed
qed

subsection \<open>The checksum field and the receiver's test\<close>

definition rfc1071_ok :: "byte list \<Rightarrow> bool" where
  "rfc1071_ok bs \<longleftrightarrow> ones_fold (words_sum bs) = 65535"

lemma ones_fold_complement: "ones_fold (s + (65535 - ones_fold s)) = 65535"
proof (cases "s = 0")
  case True
  then show ?thesis by (simp add: ones_fold_def)
next
  case False
  let ?f = "ones_fold s"
  have f: "0 < ?f" "?f \<le> 65535" using False by (simp_all add: ones_fold_pos ones_fold_le)
  have "s mod 65535 = ?f mod 65535" using False by (simp add: ones_fold_def)
  then have "(s + (65535 - ?f)) mod 65535 = (?f + (65535 - ?f)) mod 65535"
    by (metis mod_add_left_eq)
  also have "\<dots> = 0" using f by simp
  finally have "(s + (65535 - ?f)) mod 65535 = 0" .
  then show ?thesis using False by (simp add: ones_fold_def [of "s + _"])
qed

text \<open>\<open>(uint16_t)~t\<close> after the fold.\<close>

lemma unat_complement16:
  assumes "unat (f :: u32) \<le> 65535"
  shows "unat (ucast (NOT f) :: u16) = 65535 - unat f"
proof -
  have "NOT f = - 1 - f" by (simp add: not_eq_complement)
  then have nf: "unat (NOT f) = 4294967295 - unat f"
    by (simp add: unat_sub word_n1_ge unsigned_minus_1_eq_mask mask_numeral)
  have "unat (ucast (NOT f) :: u16) = unat (NOT f) mod 65536"
    by (simp add: unsigned_ucast_eq take_bit_eq_mod)
  also have "\<dots> = (4294967295 - unat f) mod 65536" by (simp add: nf)
  also have "4294967295 - unat f = 65536 * 65535 + (65535 - unat f)" using assms by simp
  also have "\<dots> mod 65536 = 65535 - unat f" by (subst mod_mult_self4) simp
  finally show ?thesis .
qed

lemma ucast_complement_fold:
  "unat (ucast (NOT (checksum_fold t)) :: u16) = 65535 - ones_fold (unat t)"
  using ones_fold_le by (subst unat_complement16) (simp_all add: unat_checksum_fold)

end
