(* ===== verification/IpProto.thy ===== *)
theory IpProto
  imports Checksum
begin

text \<open>
  misc/ipv4\_proto.h, misc/ipv6\_proto.h and misc/udp\_proto.h: the packed header structures with
  their object representation, the header checks and the checksums. A pointer result of a check is
  an offset into the packet. The lemmas relate the checksums to RFC 1071 (\<open>rfc1071_ok\<close>) and bound
  what a successful check returns.
\<close>

subsection \<open>Header structures\<close>

text \<open>Multi-byte fields hold the object as the C code sees it, in network order.\<close>

record ipv4_header =
  version4_ihl4 :: u8
  ds :: u8
  total_length :: u16
  identification :: u16
  flags3_fragmentoffset13 :: u16
  ttl :: u8
  protocol :: u8
  ip_checksum :: u16
  source_address :: u32
  destination_address :: u32

record ipv6_header =
  version4_tc4 :: u8
  tc4_fl4 :: u8
  fl :: u16
  payload_length :: u16
  next_header :: u8
  hop_limit :: u8
  source_address6 :: "byte list"
  destination_address6 :: "byte list"

record udp_header =
  source_port :: u16
  dest_port :: u16
  udp_length :: u16
  udp_check_field :: u16

abbreviation (input) sizeof_ipv4_header :: nat where "sizeof_ipv4_header \<equiv> 20"
abbreviation (input) sizeof_ipv6_header :: nat where "sizeof_ipv6_header \<equiv> 40"
abbreviation (input) sizeof_udp_header :: nat where "sizeof_udp_header \<equiv> 8"

definition IPV4_PROTOCOL_UDP :: u8 where [simp]: "IPV4_PROTOCOL_UDP = 17"
definition IPV6_NEXT_UDP :: u8 where [simp]: "IPV6_NEXT_UDP = 17"

text \<open>\<open>memcpy(&header, p, sizeof(header))\<close> and \<open>memcpy(p, &header, sizeof(header))\<close>.\<close>

definition ipv4_header_load :: "byte list \<Rightarrow> ipv4_header" where
  "ipv4_header_load p =
     \<lparr>version4_ihl4 = p ! 0, ds = p ! 1, total_length = badvpn_read_le16 (drop 2 p),
      identification = badvpn_read_le16 (drop 4 p),
      flags3_fragmentoffset13 = badvpn_read_le16 (drop 6 p), ttl = p ! 8, protocol = p ! 9,
      ip_checksum = badvpn_read_le16 (drop 10 p), source_address = badvpn_read_le32 (drop 12 p),
      destination_address = badvpn_read_le32 (drop 16 p)\<rparr>"

definition ipv4_header_bytes :: "ipv4_header \<Rightarrow> byte list" where
  "ipv4_header_bytes h =
     [version4_ihl4 h, ds h] @ badvpn_write_le16 (total_length h)
     @ badvpn_write_le16 (identification h) @ badvpn_write_le16 (flags3_fragmentoffset13 h)
     @ [ttl h, protocol h] @ badvpn_write_le16 (ip_checksum h)
     @ badvpn_write_le32 (source_address h) @ badvpn_write_le32 (destination_address h)"

definition ipv6_header_load :: "byte list \<Rightarrow> ipv6_header" where
  "ipv6_header_load p =
     \<lparr>version4_tc4 = p ! 0, tc4_fl4 = p ! 1, fl = badvpn_read_le16 (drop 2 p),
      payload_length = badvpn_read_le16 (drop 4 p), next_header = p ! 6, hop_limit = p ! 7,
      source_address6 = mem_read p 8 16, destination_address6 = mem_read p 24 16\<rparr>"

definition ipv6_header_bytes :: "ipv6_header \<Rightarrow> byte list" where
  "ipv6_header_bytes h =
     [version4_tc4 h, tc4_fl4 h] @ badvpn_write_le16 (fl h) @ badvpn_write_le16 (payload_length h)
     @ [next_header h, hop_limit h] @ source_address6 h @ destination_address6 h"

definition udp_header_load :: "byte list \<Rightarrow> udp_header" where
  "udp_header_load p =
     \<lparr>source_port = badvpn_read_le16 p, dest_port = badvpn_read_le16 (drop 2 p),
      udp_length = badvpn_read_le16 (drop 4 p), udp_check_field = badvpn_read_le16 (drop 6 p)\<rparr>"

definition udp_header_bytes :: "udp_header \<Rightarrow> byte list" where
  "udp_header_bytes h =
     badvpn_write_le16 (source_port h) @ badvpn_write_le16 (dest_port h)
     @ badvpn_write_le16 (udp_length h) @ badvpn_write_le16 (udp_check_field h)"

lemma length_ipv4_header_bytes [simp]: "length (ipv4_header_bytes h) = 20"
  by (simp add: ipv4_header_bytes_def)

lemma length_udp_header_bytes [simp]: "length (udp_header_bytes h) = 8"
  by (simp add: udp_header_bytes_def)

lemma length_ipv6_header_bytes [simp]:
  "length (source_address6 h) = 16 \<Longrightarrow> length (destination_address6 h) = 16 \<Longrightarrow>
   length (ipv6_header_bytes h) = 40"
  by (simp add: ipv6_header_bytes_def)

lemma drop_write16 [simp]: "2 \<le> n \<Longrightarrow> drop n (badvpn_write_le16 x @ r) = drop (n - 2) r"
  by simp

lemma ipv4_header_load_bytes [simp]: "ipv4_header_load (ipv4_header_bytes h @ r) = h"
  by (simp add: ipv4_header_load_def ipv4_header_bytes_def nth_append)

lemma ipv6_header_load_bytes [simp]:
  "length (source_address6 h) = 16 \<Longrightarrow> length (destination_address6 h) = 16 \<Longrightarrow>
   ipv6_header_load (ipv6_header_bytes h @ r) = h"
  by (simp add: ipv6_header_load_def ipv6_header_bytes_def nth_append mem_read_def)

lemma udp_header_load_bytes [simp]: "udp_header_load (udp_header_bytes h @ r) = h"
  by (simp add: udp_header_load_def udp_header_bytes_def)

subsection \<open>IPv4\<close>

definition IPV4_GET_VERSION :: "ipv4_header \<Rightarrow> nat" where
  "IPV4_GET_VERSION h = unat (drop_bit 4 (version4_ihl4 h AND 0xF0))"

definition IPV4_GET_IHL :: "ipv4_header \<Rightarrow> nat" where
  "IPV4_GET_IHL h = unat (version4_ihl4 h AND 0x0F)"

definition IPV4_MAKE_VERSION_IHL :: "nat \<Rightarrow> u8" where
  "IPV4_MAKE_VERSION_IHL sz = of_nat (sz div 4 + 64)"

lemma IPV4_GET_IHL_lt: "IPV4_GET_IHL h < 16"
proof -
  have "version4_ihl4 h AND 0x0F = take_bit 4 (version4_ihl4 h)"
    by (simp add: take_bit_eq_mask mask_numeral)
  then show ?thesis
    by (simp add: IPV4_GET_IHL_def take_bit_eq_mod unat_mod)
qed

text \<open>\<open>extra_len\<close> is the length of \<open>extra\<close>, the option bytes.\<close>

definition ipv4_checksum :: "ipv4_header \<Rightarrow> byte list \<Rightarrow> u16" where
  "ipv4_checksum header extra =
     (let t = be16_sum 0 (ipv4_header_bytes header) (sizeof_ipv4_header div 2);
          t = be16_sum t extra (length extra div 2)
      in hton16 (ucast (NOT (checksum_fold t))))"

definition ipv4_check :: "byte list \<Rightarrow> (ipv4_header \<times> nat \<times> nat) option" where
  "ipv4_check data =
     (let data_len = length data in
      if data_len < sizeof_ipv4_header then None
      else let out_header = ipv4_header_load data in
      if IPV4_GET_VERSION out_header \<noteq> 4 then None
      else let header_len = IPV4_GET_IHL out_header * 4 in
      if header_len < sizeof_ipv4_header then None
      else if header_len > data_len then None
      else let total_len = unat (ntoh16 (total_length out_header)) in
      if total_len < header_len then None
      else if total_len > data_len then None
      else let checksum_in_packet = ip_checksum out_header;
               checksum_computed = ipv4_checksum (out_header\<lparr>ip_checksum := hton16 0\<rparr>)
                 (mem_read data sizeof_ipv4_header (header_len - sizeof_ipv4_header)) in
      if checksum_in_packet \<noteq> checksum_computed then None
      else Some (out_header, header_len, total_len - header_len))"

lemma words_sum_ipv4_header:
  "words_sum (ipv4_header_bytes (h\<lparr>ip_checksum := c\<rparr>) @ r) =
   words_sum (ipv4_header_bytes (h\<lparr>ip_checksum := 0\<rparr>) @ r) + unat (ntoh16 c)"
  by (simp add: ipv4_header_bytes_def words_sum_append words_sum_le16 ntoh16_def)

lemma unat_ipv4_checksum:
  assumes "even (length extra)" "length extra \<le> 60"
  shows "unat (ntoh16 (ipv4_checksum h extra)) =
         65535 - ones_fold (words_sum (ipv4_header_bytes h @ extra))"
proof -
  let ?s = "words_sum (ipv4_header_bytes h)" and ?e = "words_sum extra"
  have "?s \<le> 65535 * 10" using words_sum_le [of "ipv4_header_bytes h"] by simp
  moreover have "?e \<le> 65535 * 30"
    using words_sum_le [of extra] assms by (elim order_trans) simp
  ultimately have "?s + ?e < 4294967296" by linarith
  moreover have "take (2 * (length extra div 2)) extra = extra" using assms by simp
  ultimately have "unat (be16_sum (be16_sum 0 (ipv4_header_bytes h) 10) extra (length extra div 2)) =
      ?s + ?e"
    by (simp add: unat_be16_sum)
  then show ?thesis
    by (simp add: ipv4_checksum_def Let_def ucast_complement_fold words_sum_append)
qed

lemma ipv4_checksum_rfc1071:
  assumes "even (length extra)" "length extra \<le> 60"
  shows "rfc1071_ok (ipv4_header_bytes
           (h\<lparr>ip_checksum := ipv4_checksum (h\<lparr>ip_checksum := 0\<rparr>) extra\<rparr>) @ extra)"
  unfolding rfc1071_ok_def
  by (subst words_sum_ipv4_header) (simp add: unat_ipv4_checksum [OF assms] ones_fold_complement)

text \<open>A header that passes the receiver's test has the checksum the code computes, or its
  negative zero.\<close>

lemma ipv4_check_Some:
  assumes "ipv4_check data = Some (h, off, len)"
  shows "h = ipv4_header_load data" "20 \<le> off" "off \<le> 60" "off + len \<le> length data"
    "off + len = unat (ntoh16 (total_length h))" "off = IPV4_GET_IHL h * 4"
  using assms IPV4_GET_IHL_lt [of "ipv4_header_load data"]
  by (auto simp: ipv4_check_def Let_def split: if_splits)

lemma IPV4_MAKE_VERSION_IHL_20:
  assumes "version4_ihl4 h = IPV4_MAKE_VERSION_IHL 20"
  shows "IPV4_GET_VERSION h = 4" "IPV4_GET_IHL h = 5"
  using assms by (simp_all add: IPV4_GET_VERSION_def IPV4_GET_IHL_def IPV4_MAKE_VERSION_IHL_def)

lemma ipv4_check_built:
  assumes "IPV4_GET_VERSION h = 4" "IPV4_GET_IHL h = 5"
    and "unat (ntoh16 (total_length h)) = 20 + length payload"
    and "ip_checksum h = ipv4_checksum (h\<lparr>ip_checksum := 0\<rparr>) []"
  shows "ipv4_check (ipv4_header_bytes h @ payload) = Some (h, 20, length payload)"
  using assms by (simp add: ipv4_check_def)

lemma ipv4_check_too_short:
  assumes "length data < unat (ntoh16 (total_length (ipv4_header_load data)))"
  shows "ipv4_check data = None"
  using assms by (simp add: ipv4_check_def Let_def)

subsection \<open>IPv6\<close>

definition ipv6_check :: "byte list \<Rightarrow> (ipv6_header \<times> nat \<times> nat) option" where
  "ipv6_check data =
     (let data_len = length data in
      if data_len < sizeof_ipv6_header then None
      else let out_header = ipv6_header_load data in
      if drop_bit 4 (ntoh8 (version4_tc4 out_header)) \<noteq> 6 then None
      else let payload_len = unat (ntoh16 (payload_length out_header)) in
      if payload_len > data_len - sizeof_ipv6_header then None
      else Some (out_header, sizeof_ipv6_header, payload_len))"

lemma ipv6_check_Some:
  assumes "ipv6_check data = Some (h, off, len)"
  shows "h = ipv6_header_load data" "off = 40" "off + len \<le> length data"
    "len = unat (ntoh16 (payload_length h))"
  using assms by (auto simp: ipv6_check_def Let_def split: if_splits)

subsection \<open>UDP\<close>

definition udp_check :: "byte list \<Rightarrow> (udp_header \<times> nat \<times> nat) option" where
  "udp_check data =
     (let data_len = length data in
      if data_len < sizeof_udp_header then None
      else let out_header = udp_header_load data;
               data_len = data_len - sizeof_udp_header;
               udp_len = unat (ntoh16 (udp_length out_header)) in
      if udp_len < sizeof_udp_header then None
      else if udp_len > sizeof_udp_header + data_len then None
      else Some (out_header, sizeof_udp_header, udp_len - sizeof_udp_header))"

lemma udp_check_Some:
  assumes "udp_check data = Some (h, off, len)"
  shows "h = udp_header_load data" "off = 8" "off + len \<le> length data"
    "off + len = unat (ntoh16 (udp_length h))"
  using assms by (auto simp: udp_check_def Let_def split: if_splits)

definition udp_checksum_summer :: "byte list \<Rightarrow> nat \<Rightarrow> u32" where
  "udp_checksum_summer data len = be16_sum 0 data (len div 2)"

text \<open>The payload loop of both checksum functions, with the padded last byte.\<close>

definition udp_payload_sum :: "u32 \<Rightarrow> byte list \<Rightarrow> u32" where
  "udp_payload_sum t payload =
     (let payload_len = length payload in
      if payload_len mod 2 = 0 then t + udp_checksum_summer payload payload_len
      else let t = t + udp_checksum_summer payload (payload_len - 1);
               x = hton16 (push_bit 8 (ucast (payload ! (payload_len - 1))))
           in t + udp_checksum_summer (badvpn_write_le16 x) 2)"

definition udp_checksum_finish :: "u32 \<Rightarrow> u16" where
  "udp_checksum_finish t =
     (let t = checksum_fold t; t = (if t = 0 then 0xFFFF else t) in hton16 (ucast (NOT t)))"

text \<open>\<open>payload_len\<close> is the length of \<open>payload\<close>.\<close>

definition udp_checksum :: "udp_header \<Rightarrow> byte list \<Rightarrow> u32 \<Rightarrow> u32 \<Rightarrow> u16" where
  "udp_checksum header payload source_addr dest_addr =
     (let t = 0;
          t = t + udp_checksum_summer (badvpn_write_le32 source_addr) 4;
          t = t + udp_checksum_summer (badvpn_write_le32 dest_addr) 4;
          x = hton16 (ucast IPV4_PROTOCOL_UDP);
          t = t + udp_checksum_summer (badvpn_write_le16 x) 2;
          x = hton16 (of_nat (sizeof_udp_header + length payload));
          t = t + udp_checksum_summer (badvpn_write_le16 x) 2;
          t = t + udp_checksum_summer (udp_header_bytes header) sizeof_udp_header
      in udp_checksum_finish (udp_payload_sum t payload))"

definition udp_ip6_checksum :: "udp_header \<Rightarrow> byte list \<Rightarrow> byte list \<Rightarrow> byte list \<Rightarrow> u16" where
  "udp_ip6_checksum header payload source_addr dest_addr =
     (let t = 0;
          t = t + udp_checksum_summer source_addr 16;
          t = t + udp_checksum_summer dest_addr 16;
          x = hton32 (of_nat (sizeof_udp_header + length payload));
          t = t + udp_checksum_summer (badvpn_write_le32 x) 4;
          x = hton32 (ucast IPV6_NEXT_UDP);
          t = t + udp_checksum_summer (badvpn_write_le32 x) 4;
          t = t + udp_checksum_summer (udp_header_bytes header) sizeof_udp_header
      in udp_checksum_finish (udp_payload_sum t payload))"

text \<open>The pseudo headers of RFC 768 and RFC 8200.\<close>

definition pseudo_header :: "u32 \<Rightarrow> u32 \<Rightarrow> nat \<Rightarrow> byte list" where
  "pseudo_header source_addr dest_addr len =
     badvpn_write_le32 source_addr @ badvpn_write_le32 dest_addr
     @ badvpn_write_be16 17 @ badvpn_write_be16 (of_nat len)"

definition pseudo_header6 :: "byte list \<Rightarrow> byte list \<Rightarrow> nat \<Rightarrow> byte list" where
  "pseudo_header6 source_addr dest_addr len =
     source_addr @ dest_addr @ badvpn_write_be32 (of_nat len) @ badvpn_write_be32 17"

lemma length_pseudo_header [simp]: "length (pseudo_header s d n) = 12"
  by (simp add: pseudo_header_def)

lemma length_pseudo_header6 [simp]:
  "length s = 16 \<Longrightarrow> length d = 16 \<Longrightarrow> length (pseudo_header6 s d n) = 40"
  by (simp add: pseudo_header6_def)

lemma unat_summer:
  "even (length p) \<Longrightarrow> length p \<le> 65536 \<Longrightarrow> n = length p \<Longrightarrow>
   unat (udp_checksum_summer p n) = words_sum p"
proof -
  assume p: "even (length p)" "length p \<le> 65536" and n: "n = length p"
  have "words_sum p \<le> 65535 * 32768"
    using words_sum_le [of p] p by (elim order_trans) simp
  then have "words_sum p < 4294967296" by linarith
  then show ?thesis using p n by (simp add: udp_checksum_summer_def unat_be16_sum)
qed

lemma unat_payload_sum:
  assumes "length p < 65536" "unat t + words_sum p < 4294967296"
  shows "unat (udp_payload_sum t p) = unat t + words_sum p"
proof (cases "even (length p)")
  case True
  then show ?thesis
    using assms by (simp add: udp_payload_sum_def Let_def unat_word_ariths unat_summer)
next
  case False
  then obtain q a where p: "p = q @ [a]" "even (length q)"
    by (cases p rule: rev_cases) auto
  have ws: "words_sum p = words_sum q + 256 * unat a"
    using p by (simp add: words_sum_append)
  have "words_sum q = unat (udp_checksum_summer p (length q))"
    using p assms by (simp add: udp_checksum_summer_def unat_be16_sum)
      (metis add_lessD1 add.commute assms(2) mod_less ws)
  moreover have "unat (push_bit 8 (ucast a) :: u16) = 256 * unat a"
    using unat_byte_lt [of a]
    by (simp add: push_bit_eq_mult unat_word_ariths unat_ucast_8_16)
  moreover have "length p mod 2 \<noteq> 0" using False by (simp add: odd_iff_mod_2_eq_one)
  ultimately show ?thesis
    using p assms ws
    by (simp add: udp_payload_sum_def Let_def unat_word_ariths unat_summer nth_append)
qed

lemma unat_checksum_finish:
  assumes "0 < unat t"
  shows "unat (ntoh16 (udp_checksum_finish t)) = 65535 - ones_fold (unat t)"
proof -
  have "0 < unat (checksum_fold t)" using assms by (simp add: unat_checksum_fold ones_fold_pos)
  then have "checksum_fold t \<noteq> 0" by auto
  then show ?thesis by (simp add: udp_checksum_finish_def ucast_complement_fold)
qed

lemma words_sum_udp_header:
  "words_sum (udp_header_bytes (h\<lparr>udp_check_field := c\<rparr>) @ r) =
   words_sum (udp_header_bytes (h\<lparr>udp_check_field := 0\<rparr>) @ r) + unat (ntoh16 c)"
  by (simp add: udp_header_bytes_def words_sum_append words_sum_le16 ntoh16_def)

lemma unat_udp_checksum:
  assumes "length payload \<le> 65527"
  shows "unat (ntoh16 (udp_checksum h payload s d)) = 65535 -
    ones_fold (words_sum (pseudo_header s d (8 + length payload) @ udp_header_bytes h @ payload))"
    (is "_ = 65535 - ones_fold ?ws")
proof -
  have b: "words_sum (badvpn_write_le32 s) \<le> 131070" "words_sum (badvpn_write_le32 d) \<le> 131070"
    "words_sum (udp_header_bytes h) \<le> 262140"
    using words_sum_le [of "badvpn_write_le32 s"] words_sum_le [of "badvpn_write_le32 d"]
      words_sum_le [of "udp_header_bytes h"] by simp_all
  have pl: "words_sum payload \<le> 65535 * 32764"
    using words_sum_le [of payload] assms by (elim order_trans) simp
  have len: "unat (of_nat (8 + length payload) :: u16) = 8 + length payload"
    using assms by (simp add: unat_of_nat del: of_nat_add)
  have ws: "?ws = words_sum (badvpn_write_le32 s) + words_sum (badvpn_write_le32 d) + 17
      + (8 + length payload) + words_sum (udp_header_bytes h) + words_sum payload"
    using len by (simp add: pseudo_header_def words_sum_append words_sum_be16 del: of_nat_add)
  let ?t = "0 + udp_checksum_summer (badvpn_write_le32 s) 4 + udp_checksum_summer (badvpn_write_le32 d) 4
      + udp_checksum_summer (badvpn_write_le16 (hton16 (ucast IPV4_PROTOCOL_UDP))) 2
      + udp_checksum_summer (badvpn_write_le16 (hton16 (of_nat (8 + length payload)))) 2
      + udp_checksum_summer (udp_header_bytes h) 8"
  have t: "unat ?t = words_sum (badvpn_write_le32 s) + words_sum (badvpn_write_le32 d) + 17
      + (8 + length payload) + words_sum (udp_header_bytes h)"
    using b assms len by (simp add: unat_word_ariths unat_summer del: of_nat_add)
  have "unat ?t + words_sum payload < 4294967296"
    unfolding t using b pl assms by linarith
  then have "unat (udp_payload_sum ?t payload) = unat ?t + words_sum payload"
    using assms by (intro unat_payload_sum) simp_all
  then have "unat (udp_payload_sum ?t payload) = ?ws"
    unfolding t ws by linarith
  moreover have "0 < ?ws" by (simp add: ws)
  ultimately have "unat (ntoh16 (udp_checksum_finish (udp_payload_sum ?t payload))) = 65535 - ones_fold ?ws"
    by (subst unat_checksum_finish) simp_all
  then show ?thesis by (simp add: udp_checksum_def Let_def)
qed

lemma unat_udp_ip6_checksum:
  assumes "length payload \<le> 65527" "length s = 16" "length d = 16"
  shows "unat (ntoh16 (udp_ip6_checksum h payload s d)) = 65535 -
    ones_fold (words_sum (pseudo_header6 s d (8 + length payload) @ udp_header_bytes h @ payload))"
    (is "_ = 65535 - ones_fold ?ws")
proof -
  let ?n = "badvpn_write_be32 (of_nat (8 + length payload))"
  have b: "words_sum s \<le> 524280" "words_sum d \<le> 524280" "words_sum ?n \<le> 131070"
    "words_sum (udp_header_bytes h) \<le> 262140"
    using words_sum_le [of s] words_sum_le [of d] words_sum_le [of ?n]
      words_sum_le [of "udp_header_bytes h"] assms by simp_all
  have pl: "words_sum payload \<le> 65535 * 32764"
    using words_sum_le [of payload] assms by (elim order_trans) simp
  have p17: "words_sum (badvpn_write_be32 17) = 17"
    by (simp add: badvpn_write_be32_def drop_bit_eq_div)
  have ws: "?ws = words_sum s + words_sum d + words_sum ?n + 17
      + words_sum (udp_header_bytes h) + words_sum payload"
    using p17 assms by (simp add: pseudo_header6_def words_sum_append del: of_nat_add)
  let ?t = "0 + udp_checksum_summer s 16 + udp_checksum_summer d 16
      + udp_checksum_summer (badvpn_write_le32 (hton32 (of_nat (8 + length payload)))) 4
      + udp_checksum_summer (badvpn_write_le32 (hton32 (ucast IPV6_NEXT_UDP))) 4
      + udp_checksum_summer (udp_header_bytes h) 8"
  have t: "unat ?t = words_sum s + words_sum d + words_sum ?n + 17
      + words_sum (udp_header_bytes h)"
    using b assms p17 by (simp add: unat_word_ariths unat_summer del: of_nat_add)
  have "unat ?t + words_sum payload < 4294967296"
    unfolding t using b pl assms by linarith
  then have "unat (udp_payload_sum ?t payload) = unat ?t + words_sum payload"
    using assms by (intro unat_payload_sum) simp_all
  then have "unat (udp_payload_sum ?t payload) = ?ws"
    unfolding t ws by linarith
  moreover have "0 < ?ws" by (simp add: ws)
  ultimately have "unat (ntoh16 (udp_checksum_finish (udp_payload_sum ?t payload))) = 65535 - ones_fold ?ws"
    by (subst unat_checksum_finish) simp_all
  then show ?thesis by (simp add: udp_ip6_checksum_def Let_def)
qed

text \<open>A header or datagram whose checksum field holds what the code computes passes the receiver's test.\<close>

lemma ipv4_header_rfc1071:
  assumes "ip_checksum h = ipv4_checksum (h\<lparr>ip_checksum := 0\<rparr>) []"
  shows "rfc1071_ok (ipv4_header_bytes h)"
proof -
  have "h = h\<lparr>ip_checksum := ipv4_checksum (h\<lparr>ip_checksum := 0\<rparr>) []\<rparr>"
    using assms by simp
  moreover have "rfc1071_ok (ipv4_header_bytes
      (h\<lparr>ip_checksum := ipv4_checksum (h\<lparr>ip_checksum := 0\<rparr>) []\<rparr>) @ [])"
    by (rule ipv4_checksum_rfc1071) simp_all
  ultimately show ?thesis by simp
qed

lemma udp_datagram_sum:
  "words_sum (pseudo_header s d n @ udp_header_bytes u @ p) =
   words_sum (pseudo_header s d n @ udp_header_bytes (u\<lparr>udp_check_field := 0\<rparr>) @ p)
   + unat (ntoh16 (udp_check_field u))"
  using words_sum_udp_header [where h = u and c = "udp_check_field u" and r = p]
  by (simp add: words_sum_append)

lemma udp_datagram_rfc1071:
  assumes "length p \<le> 65527"
    and "udp_check_field u = udp_checksum (u\<lparr>udp_check_field := 0\<rparr>) p s d"
  shows "rfc1071_ok (pseudo_header s d (8 + length p) @ udp_header_bytes u @ p)"
  by (simp only: rfc1071_ok_def udp_datagram_sum [of s d _ u] assms(2) unat_udp_checksum [OF assms(1)]
      ones_fold_complement)

lemma udp_checksum_not_ffff:
  assumes "length p \<le> 65527"
  shows "udp_checksum u p s d \<noteq> 0xFFFF"
proof
  let ?ws = "words_sum (pseudo_header s d (8 + length p) @ udp_header_bytes u @ p)"
  assume "udp_checksum u p s d = 0xFFFF"
  then have "ntoh16 (udp_checksum u p s d) = 0xFFFF" by (simp add: ntoh16_def)
  then have "65535 - ones_fold ?ws = 65535" using unat_udp_checksum [OF assms, of u s d] by simp
  moreover have "0 < ?ws"
    using assms by (simp add: pseudo_header_def words_sum_append)
  ultimately show False using ones_fold_pos [of ?ws] by simp
qed

end
