(* ===== verification/BAddr.thy ===== *)
theory BAddr
  imports ByteOrder
begin

text \<open>
  system/BAddr.h: IP and socket addresses. The tagged unions are datatypes; IP addresses and ports
  are kept in network order as in C. \<open>getaddrinfo\<close> is a parameter: a function from the requested
  family, the numeric-only flag and the host string to the address bytes. Strings are C strings
  without the terminating NUL, so the bounds below count one more byte.
\<close>

datatype BIPAddr =
    BIPAddrNone
  | BIPAddrIPv4 u32
  | BIPAddrIPv6 "byte list"

datatype BAddr =
    BAddrNone
  | BAddrIPv4 u32 u16
  | BAddrIPv6 "byte list" u16
  | BAddrPacket u16 int int int "byte list"

definition BADDR_TYPE_NONE :: int where "BADDR_TYPE_NONE = 0"
definition BADDR_TYPE_IPV4 :: int where "BADDR_TYPE_IPV4 = 1"
definition BADDR_TYPE_IPV6 :: int where "BADDR_TYPE_IPV6 = 2"
definition BADDR_TYPE_PACKET :: int where "BADDR_TYPE_PACKET = 5"

lemmas BADDR_TYPE_defs [simp] =
  BADDR_TYPE_NONE_def BADDR_TYPE_IPV4_def BADDR_TYPE_IPV6_def BADDR_TYPE_PACKET_def

definition BADDR_MAX_ADDR_LEN :: nat where "BADDR_MAX_ADDR_LEN = 128"
definition BIPADDR_MAX_PRINT_LEN :: nat where "BIPADDR_MAX_PRINT_LEN = 40"
definition BADDR_MAX_PRINT_LEN :: nat where "BADDR_MAX_PRINT_LEN = 120"

fun BIPAddr_type :: "BIPAddr \<Rightarrow> int" where
  "BIPAddr_type BIPAddrNone = BADDR_TYPE_NONE"
| "BIPAddr_type (BIPAddrIPv4 _) = BADDR_TYPE_IPV4"
| "BIPAddr_type (BIPAddrIPv6 _) = BADDR_TYPE_IPV6"

fun BAddr_type :: "BAddr \<Rightarrow> int" where
  "BAddr_type BAddrNone = BADDR_TYPE_NONE"
| "BAddr_type (BAddrIPv4 _ _) = BADDR_TYPE_IPV4"
| "BAddr_type (BAddrIPv6 _ _) = BADDR_TYPE_IPV6"
| "BAddr_type (BAddrPacket _ _ _ _ _) = BADDR_TYPE_PACKET"

text \<open>An IPv6 address occupies exactly the 16 bytes of its array.\<close>

fun BAddr_wf :: "BAddr \<Rightarrow> bool" where
  "BAddr_wf (BAddrIPv6 ip _) = (length ip = 16)"
| "BAddr_wf _ = True"

definition BAddr_is_ip :: "BAddr \<Rightarrow> bool" where
  "BAddr_is_ip a \<longleftrightarrow> BAddr_type a = BADDR_TYPE_IPV4 \<or> BAddr_type a = BADDR_TYPE_IPV6"

subsection \<open>Constructors and accessors\<close>

definition BIPAddr_InitIPv4 :: "u32 \<Rightarrow> BIPAddr" where
  "BIPAddr_InitIPv4 ip = BIPAddrIPv4 ip"

definition BIPAddr_InitIPv6 :: "byte list \<Rightarrow> BIPAddr" where
  "BIPAddr_InitIPv6 ip = BIPAddrIPv6 (mem_read ip 0 16)"

definition BIPAddr_IsInvalid :: "BIPAddr \<Rightarrow> bool" where
  "BIPAddr_IsInvalid addr \<longleftrightarrow> BIPAddr_type addr = BADDR_TYPE_NONE"

fun BIPAddr_Compare :: "BIPAddr \<Rightarrow> BIPAddr \<Rightarrow> bool" where
  "BIPAddr_Compare (BIPAddrIPv4 ip1) (BIPAddrIPv4 ip2) = (ip1 = ip2)"
| "BIPAddr_Compare (BIPAddrIPv6 ip1) (BIPAddrIPv6 ip2) = (ip1 = ip2)"
| "BIPAddr_Compare _ _ = False"

fun BAddr_GetPort :: "BAddr \<Rightarrow> u16" where
  "BAddr_GetPort (BAddrIPv4 _ port) = port"
| "BAddr_GetPort (BAddrIPv6 _ port) = port"
| "BAddr_GetPort _ = 0"

fun BAddr_GetIPAddr :: "BAddr \<Rightarrow> BIPAddr" where
  "BAddr_GetIPAddr (BAddrIPv4 ip _) = BIPAddr_InitIPv4 ip"
| "BAddr_GetIPAddr (BAddrIPv6 ip _) = BIPAddr_InitIPv6 ip"
| "BAddr_GetIPAddr _ = BIPAddrNone"

fun BAddr_SetPort :: "BAddr \<Rightarrow> u16 \<Rightarrow> BAddr" where
  "BAddr_SetPort (BAddrIPv4 ip _) port = BAddrIPv4 ip port"
| "BAddr_SetPort (BAddrIPv6 ip _) port = BAddrIPv6 ip port"
| "BAddr_SetPort addr _ = addr"

definition BAddr_MakeIPv4 :: "u32 \<Rightarrow> u16 \<Rightarrow> BAddr" where
  "BAddr_MakeIPv4 ip port = BAddrIPv4 ip port"

definition BAddr_MakeIPv6 :: "byte list \<Rightarrow> u16 \<Rightarrow> BAddr" where
  "BAddr_MakeIPv6 ip port = BAddrIPv6 (mem_read ip 0 16) port"

fun BAddr_MakeFromIpaddrAndPort :: "BIPAddr \<Rightarrow> u16 \<Rightarrow> BAddr" where
  "BAddr_MakeFromIpaddrAndPort BIPAddrNone _ = BAddrNone"
| "BAddr_MakeFromIpaddrAndPort (BIPAddrIPv4 ip) port = BAddr_MakeIPv4 ip port"
| "BAddr_MakeFromIpaddrAndPort (BIPAddrIPv6 ip) port = BAddr_MakeIPv6 ip port"

definition BAddr_InitIPv4 :: "u32 \<Rightarrow> u16 \<Rightarrow> BAddr" where
  "BAddr_InitIPv4 ip port = BAddr_MakeIPv4 ip port"

definition BAddr_InitIPv6 :: "byte list \<Rightarrow> u16 \<Rightarrow> BAddr" where
  "BAddr_InitIPv6 ip port = BAddr_MakeIPv6 ip port"

definition BAddr_IsInvalid :: "BAddr \<Rightarrow> bool" where
  "BAddr_IsInvalid addr \<longleftrightarrow> BAddr_type addr = BADDR_TYPE_NONE"

lemmas BAddr_Make_defs [simp] =
  BAddr_MakeIPv4_def BAddr_MakeIPv6_def BAddr_InitIPv4_def BAddr_InitIPv6_def

lemma mem_read_16 [simp]: "length ip = 16 \<Longrightarrow> mem_read ip 0 16 = ip"
  by (simp add: mem_simps)

subsection \<open>Comparison\<close>

text \<open>\<open>memcmp\<close> on blocks of equal length; only the sign of the result is specified.\<close>

fun memcmp :: "byte list \<Rightarrow> byte list \<Rightarrow> int" where
  "memcmp (a # as) (b # bs) = (if a = b then memcmp as bs else if a < b then -1 else 1)"
| "memcmp _ _ = 0"

fun BAddr_Compare :: "BAddr \<Rightarrow> BAddr \<Rightarrow> bool" where
  "BAddr_Compare (BAddrIPv4 ip1 port1) (BAddrIPv4 ip2 port2) = (ip1 = ip2 \<and> port1 = port2)"
| "BAddr_Compare (BAddrIPv6 ip1 port1) (BAddrIPv6 ip2 port2) =
     (memcmp ip1 ip2 = 0 \<and> port1 = port2)"
| "BAddr_Compare _ _ = False"

definition BAddr_CompareOrder :: "BAddr \<Rightarrow> BAddr \<Rightarrow> int" where
  "BAddr_CompareOrder addr1 addr2 =
     (let cmp = B_COMPARE (BAddr_type addr1) (BAddr_type addr2) in
      if cmp \<noteq> 0 then cmp
      else case (addr1, addr2) of
        (BAddrIPv4 ip1 port1, BAddrIPv4 ip2 port2) \<Rightarrow>
          (let cmp = B_COMPARE (ntoh32 ip1) (ntoh32 ip2) in
           if cmp \<noteq> 0 then cmp else B_COMPARE (ntoh16 port1) (ntoh16 port2))
      | (BAddrIPv6 ip1 port1, BAddrIPv6 ip2 port2) \<Rightarrow>
          (let cmp = memcmp ip1 ip2 in
           if cmp \<noteq> 0 then B_COMPARE cmp 0 else B_COMPARE (ntoh16 port1) (ntoh16 port2))
      | _ \<Rightarrow> 0)"

lemma memcmp_0: "length a = length b \<Longrightarrow> memcmp a b = 0 \<longleftrightarrow> a = b"
  by (induction a b rule: memcmp.induct) auto

lemma memcmp_neg: "memcmp b a = - memcmp a b"
  by (induction a b rule: memcmp.induct) auto

lemma memcmp_range: "memcmp a b \<in> {-1, 0, 1}"
  by (induction a b rule: memcmp.induct) auto

lemma memcmp_trans:
  "length a = length b \<Longrightarrow> length b = length c \<Longrightarrow> memcmp a b \<le> 0 \<Longrightarrow> memcmp b c \<le> 0 \<Longrightarrow>
   memcmp a c \<le> 0 \<and> (memcmp a c = 0 \<longrightarrow> memcmp a b = 0 \<and> memcmp b c = 0)"
proof (induction a b arbitrary: c rule: memcmp.induct)
  case (1 a as b bs)
  then obtain d ds where "c = d # ds" by (cases c) auto
  then show ?case using 1 by (auto split: if_splits)
qed auto

text \<open>Two blocks of equal length compare as lists in the dictionary order.\<close>

lemma BAddr_CompareOrder_simps:
  "BAddr_CompareOrder (BAddrIPv4 i p) (BAddrIPv4 j q) =
     (if ntoh32 i = ntoh32 j then B_COMPARE (ntoh16 p) (ntoh16 q) else B_COMPARE (ntoh32 i) (ntoh32 j))"
  "BAddr_CompareOrder (BAddrIPv6 s p) (BAddrIPv6 t q) =
     (if memcmp s t = 0 then B_COMPARE (ntoh16 p) (ntoh16 q) else B_COMPARE (memcmp s t) 0)"
  "BAddr_type a \<noteq> BAddr_type b \<Longrightarrow> BAddr_CompareOrder a b = B_COMPARE (BAddr_type a) (BAddr_type b)"
  "BAddr_CompareOrder BAddrNone BAddrNone = 0"
  "BAddr_CompareOrder (BAddrPacket t1 t2 t3 t4 t5) (BAddrPacket u1 u2 u3 u4 u5) = 0"
  by (simp_all add: BAddr_CompareOrder_def Let_def)

lemma BAddr_CompareOrder_neg: "BAddr_CompareOrder b a = - BAddr_CompareOrder a b"
proof (cases "BAddr_type a = BAddr_type b")
  case True
  then consider (n) "a = BAddrNone" "b = BAddrNone"
    | (v4) i p j q where "a = BAddrIPv4 i p" "b = BAddrIPv4 j q"
    | (v6) s p t q where "a = BAddrIPv6 s p" "b = BAddrIPv6 t q"
    | (pk) t1 t2 t3 t4 t5 u1 u2 u3 u4 u5
        where "a = BAddrPacket t1 t2 t3 t4 t5" "b = BAddrPacket u1 u2 u3 u4 u5"
    by (cases a; cases b) auto
  then show ?thesis
  proof cases
    case v4
    then show ?thesis
      by (auto simp: BAddr_CompareOrder_simps B_COMPARE_neg [of "ntoh16 q"] B_COMPARE_neg [of "ntoh32 j"])
  next
    case v6
    then show ?thesis
      using memcmp_neg [of s t]
      by (auto simp: BAddr_CompareOrder_simps B_COMPARE_neg [of "ntoh16 q"]) (auto simp: B_COMPARE_def)
  qed (simp_all add: BAddr_CompareOrder_simps)
next
  case False
  then show ?thesis
    using B_COMPARE_neg [of "BAddr_type b" "BAddr_type a"] by (simp add: BAddr_CompareOrder_simps)
qed

lemma BAddr_CompareOrder_0:
  assumes "BAddr_wf a" "BAddr_wf b" "BAddr_is_ip a"
  shows "BAddr_CompareOrder a b = 0 \<longleftrightarrow> a = b"
proof (cases "BAddr_type a = BAddr_type b")
  case True
  then show ?thesis
    using assms
    by (cases a; cases b)
       (auto simp: BAddr_CompareOrder_simps BAddr_is_ip_def memcmp_0)
next
  case False
  then show ?thesis by (auto simp: BAddr_CompareOrder_simps)
qed

lemma B_COMPARE_le: "B_COMPARE x y \<le> 0 \<longleftrightarrow> x \<le> y"
  by (auto simp: B_COMPARE_def)

lemma BAddr_CompareOrder_le_type:
  "BAddr_CompareOrder a b \<le> 0 \<Longrightarrow> BAddr_type a \<le> BAddr_type b"
  by (cases "BAddr_type a = BAddr_type b") (auto simp: BAddr_CompareOrder_simps B_COMPARE_le)

lemma BAddr_CompareOrder_trans:
  assumes wf: "BAddr_wf a" "BAddr_wf b" "BAddr_wf c"
    and ab: "BAddr_CompareOrder a b \<le> 0" and bc: "BAddr_CompareOrder b c \<le> 0"
  shows "BAddr_CompareOrder a c \<le> 0"
proof (cases "BAddr_type a = BAddr_type c")
  case False
  then show ?thesis
    using BAddr_CompareOrder_le_type [OF ab] BAddr_CompareOrder_le_type [OF bc]
    by (simp add: BAddr_CompareOrder_simps B_COMPARE_le)
next
  case True
  then have "BAddr_type a = BAddr_type b"
    using BAddr_CompareOrder_le_type [OF ab] BAddr_CompareOrder_le_type [OF bc] by simp
  with True consider (v4) i p j q k r where "a = BAddrIPv4 i p" "b = BAddrIPv4 j q" "c = BAddrIPv4 k r"
    | (v6) s p t q u r where "a = BAddrIPv6 s p" "b = BAddrIPv6 t q" "c = BAddrIPv6 u r"
    | (other) "BAddr_CompareOrder a c = 0"
    by (cases a; cases b; cases c) (auto simp: BAddr_CompareOrder_simps)
  then show ?thesis
  proof cases
    case v4
    then show ?thesis using ab bc by (auto simp: BAddr_CompareOrder_simps B_COMPARE_le split: if_splits)
  next
    case v6
    then show ?thesis
      using ab bc wf memcmp_trans [of s t u] memcmp_0 [of s t] memcmp_0 [of t u] memcmp_0 [of s u]
      by (auto simp: BAddr_CompareOrder_simps B_COMPARE_le split: if_splits)
  qed simp
qed

subsection \<open>Printing\<close>

text \<open>The conversions \<open>%u\<close>, \<open>%d\<close> and \<open>%x\<close> of \<open>sprintf\<close>.\<close>

definition digit_char :: "nat \<Rightarrow> char" where
  "digit_char d = char_of (if d < 10 then 48 + d else 87 + d)"

fun base_str :: "nat \<Rightarrow> nat \<Rightarrow> string" where
  "base_str b n = (if n < b \<or> b < 2 then [digit_char n] else base_str b (n div b) @ [digit_char (n mod b)])"

declare base_str.simps [simp del]

definition fmt_u :: "nat \<Rightarrow> string" where "fmt_u n = base_str 10 n"

definition fmt_x :: "nat \<Rightarrow> string" where "fmt_x n = base_str 16 n"

definition fmt_02x :: "nat \<Rightarrow> string" where
  "fmt_02x n = (if n < 16 then ''0'' else []) @ fmt_x n"

definition fmt_d :: "int \<Rightarrow> string" where
  "fmt_d i = (if i < 0 then ''-'' else []) @ fmt_u (nat \<bar>i\<bar>)"

lemma length_base_str: "2 \<le> b \<Longrightarrow> n < b ^ k \<Longrightarrow> 1 \<le> k \<Longrightarrow> length (base_str b n) \<le> k"
proof (induction k arbitrary: n)
  case (Suc k)
  show ?case
  proof (cases "n < b")
    case False
    then have "1 \<le> k" using Suc.prems by (cases k) auto
    moreover have "n div b < b ^ k"
      using Suc.prems by (simp add: less_mult_imp_div_less mult.commute)
    ultimately have "length (base_str b (n div b)) \<le> k" using Suc by simp
    then show ?thesis using False Suc.prems by (simp add: base_str.simps [of b n])
  qed (simp add: base_str.simps [of b n])
qed simp

text \<open>\<open>ip\<close> is the object representation of the address.\<close>

fun BIPAddr_Print :: "BIPAddr \<Rightarrow> string" where
  "BIPAddr_Print BIPAddrNone = ''(none)''"
| "BIPAddr_Print (BIPAddrIPv4 ipv4) =
     (let b = badvpn_write_le32 ipv4 in
      fmt_u (unat (b ! 0)) @ ''.'' @ fmt_u (unat (b ! 1)) @ ''.'' @ fmt_u (unat (b ! 2)) @ ''.''
      @ fmt_u (unat (b ! 3)))"
| "BIPAddr_Print (BIPAddrIPv6 ptr) =
     fmt_x (unat (badvpn_read_be16 (drop 0 ptr))) @ '':'' @ fmt_x (unat (badvpn_read_be16 (drop 2 ptr)))
     @ '':'' @ fmt_x (unat (badvpn_read_be16 (drop 4 ptr))) @ '':''
     @ fmt_x (unat (badvpn_read_be16 (drop 6 ptr))) @ '':''
     @ fmt_x (unat (badvpn_read_be16 (drop 8 ptr))) @ '':''
     @ fmt_x (unat (badvpn_read_be16 (drop 10 ptr))) @ '':''
     @ fmt_x (unat (badvpn_read_be16 (drop 12 ptr))) @ '':''
     @ fmt_x (unat (badvpn_read_be16 (drop 14 ptr)))"

fun BAddr_Print :: "BAddr \<Rightarrow> string" where
  "BAddr_Print BAddrNone = ''(none)''"
| "BAddr_Print (BAddrIPv4 ip port) =
     BIPAddr_Print (BIPAddr_InitIPv4 ip) @ '':'' @ fmt_u (unat (ntoh16 port))"
| "BAddr_Print (BAddrIPv6 ip port) =
     BIPAddr_Print (BIPAddr_InitIPv6 ip) @ '':'' @ fmt_u (unat (ntoh16 port))"
| "BAddr_Print (BAddrPacket phys_proto interface_index header_type packet_type phys_addr) =
     ''proto='' @ fmt_u (unat phys_proto) @ '',ifindex='' @ fmt_d interface_index
     @ '',htype=eth,ptype='' @ fmt_d packet_type @ '',addr='' @ fmt_02x (unat (phys_addr ! 0)) @ '':''
     @ fmt_02x (unat (phys_addr ! 1)) @ '':'' @ fmt_02x (unat (phys_addr ! 2)) @ '':''
     @ fmt_02x (unat (phys_addr ! 3)) @ '':'' @ fmt_02x (unat (phys_addr ! 4)) @ '':''
     @ fmt_02x (unat (phys_addr ! 5))"

definition BAddr_InitPacket :: "u16 \<Rightarrow> int \<Rightarrow> int \<Rightarrow> int \<Rightarrow> byte list \<Rightarrow> BAddr" where
  "BAddr_InitPacket phys_proto interface_index header_type packet_type phys_addr =
     BAddrPacket phys_proto interface_index header_type packet_type (mem_read phys_addr 0 6)"

lemma length_fmt_u8: "length (fmt_u (unat (x :: u8))) \<le> 3"
  using unat_byte_lt [of x] by (simp add: fmt_u_def length_base_str)

lemma length_fmt_u16: "length (fmt_u (unat (x :: u16))) \<le> 5"
  using unat_u16_lt [of x] by (simp add: fmt_u_def length_base_str)

lemma length_fmt_x16: "length (fmt_x (unat (x :: u16))) \<le> 4"
  using unat_u16_lt [of x] by (simp add: fmt_x_def length_base_str)

lemma length_fmt_d:
  assumes "\<bar>i\<bar> \<le> 2147483648"
  shows "length (fmt_d i) \<le> 11"
proof -
  have "nat \<bar>i\<bar> < 10 ^ 10" using assms by simp
  then have "length (base_str 10 (nat \<bar>i\<bar>)) \<le> 10" by (intro length_base_str) simp_all
  then show ?thesis by (auto simp: fmt_d_def fmt_u_def)
qed

lemma length_fmt_02x: "length (fmt_02x (unat (x :: u8))) \<le> 2"
  using unat_byte_lt [of x] length_base_str [of 16 "unat x" 2]
  by (auto simp: fmt_02x_def fmt_x_def base_str.simps)

lemma length_BIPAddr_Print: "length (BIPAddr_Print a) < 40"
proof (cases a)
  case (BIPAddrIPv4 ip)
  let ?f = "\<lambda>i. length (fmt_u (unat (badvpn_write_le32 ip ! i)))"
  have "?f 0 \<le> 3" "?f 1 \<le> 3" "?f 2 \<le> 3" "?f 3 \<le> 3" by (rule length_fmt_u8)+
  then show ?thesis using BIPAddrIPv4 by (simp add: Let_def)
next
  case (BIPAddrIPv6 p)
  let ?f = "\<lambda>i. length (fmt_x (unat (badvpn_read_be16 (drop i p))))"
  have "?f 0 \<le> 4" "?f 2 \<le> 4" "?f 4 \<le> 4" "?f 6 \<le> 4" "?f 8 \<le> 4" "?f 10 \<le> 4" "?f 12 \<le> 4" "?f 14 \<le> 4"
    by (rule length_fmt_x16)+
  then show ?thesis using BIPAddrIPv6 by simp
qed simp

lemma length_BAddr_Print:
  assumes "\<And>ph ix ht pt pa. a = BAddrPacket ph ix ht pt pa \<Longrightarrow> \<bar>ix\<bar> \<le> 2147483648 \<and> \<bar>pt\<bar> \<le> 2147483648"
  shows "length (BAddr_Print a) < 120"
proof (cases a)
  case (BAddrIPv4 ip port)
  then show ?thesis
    using length_BIPAddr_Print [of "BIPAddrIPv4 ip"] length_fmt_u16 [of "ntoh16 port"]
    by (simp add: BIPAddr_InitIPv4_def del: BIPAddr_Print.simps)
next
  case (BAddrIPv6 ip port)
  then show ?thesis
    using length_BIPAddr_Print [of "BIPAddr_InitIPv6 ip"] length_fmt_u16 [of "ntoh16 port"]
    by (simp del: BIPAddr_Print.simps)
next
  case (BAddrPacket ph ix ht pt pa)
  let ?f = "\<lambda>i. length (fmt_02x (unat (pa ! i)))"
  have "?f 0 \<le> 2" "?f 1 \<le> 2" "?f 2 \<le> 2" "?f 3 \<le> 2" "?f 4 \<le> 2" "?f 5 \<le> 2"
    by (rule length_fmt_02x)+
  moreover have "length (fmt_u (unat ph)) \<le> 5" "length (fmt_d ix) \<le> 11" "length (fmt_d pt) \<le> 11"
    using assms [OF BAddrPacket] by (simp_all add: length_fmt_u16 length_fmt_d)
  ultimately show ?thesis using BAddrPacket by simp
qed simp

subsection \<open>Parsing\<close>

text \<open>\<open>strtol(s, &end, 10)\<close> on strings short enough not to overflow: the value and the rest.\<close>

definition is_digit :: "char \<Rightarrow> bool" where
  "is_digit c \<longleftrightarrow> 48 \<le> (of_char c :: nat) \<and> (of_char c :: nat) < 58"

definition is_space :: "char \<Rightarrow> bool" where
  "is_space c \<longleftrightarrow> (of_char c :: nat) = 32 \<or> (9 \<le> (of_char c :: nat) \<and> (of_char c :: nat) \<le> 13)"

fun digits_value :: "nat \<Rightarrow> string \<Rightarrow> nat \<times> string" where
  "digits_value acc [] = (acc, [])"
| "digits_value acc (c # cs) =
     (if is_digit c then digits_value (10 * acc + (of_char c - 48)) cs else (acc, c # cs))"

definition strtol10 :: "string \<Rightarrow> int \<times> string" where
  "strtol10 s =
     (let s1 = dropWhile is_space s;
          neg = (s1 \<noteq> [] \<and> hd s1 = CHR ''-'');
          s2 = (if s1 \<noteq> [] \<and> (hd s1 = CHR ''-'' \<or> hd s1 = CHR ''+'') then tl s1 else s1) in
      if s2 \<noteq> [] \<and> is_digit (hd s2) then
        (let (v, rest) = digits_value 0 s2 in (if neg then - int v else int v, rest))
      else (0, s))"

text \<open>
  \<open>getaddrinfo(addr_str, NULL, &hints, &addrs)\<close>: the first argument is \<open>ai_family == AF_INET6\<close>, the
  second the \<open>AI_NUMERICHOST\<close> flag; the result is the address of the first entry, in network order.
\<close>

type_synonym getaddrinfo = "bool \<Rightarrow> bool \<Rightarrow> string \<Rightarrow> byte list option"

definition BIPAddr_Resolve :: "getaddrinfo \<Rightarrow> string \<Rightarrow> bool \<Rightarrow> BIPAddr option" where
  "BIPAddr_Resolve getaddrinfo str noresolve =
     (let len = length str;
          v6 = (len \<ge> 1 \<and> str ! 0 = CHR ''['' \<and> str ! (len - 1) = CHR '']'');
          addr_start = (if v6 then tl str else str);
          addr_len = (if v6 then int len - 2 else int len) in
      if addr_len > int BADDR_MAX_ADDR_LEN then None
      else case getaddrinfo v6 noresolve (take (nat addr_len) addr_start) of
        None \<Rightarrow> None
      | Some b \<Rightarrow> Some (if v6 then BIPAddrIPv6 (mem_read b 0 16) else BIPAddrIPv4 (badvpn_read_le32 b)))"

text \<open>\<open>while (i < len && str[i] != c) i++;\<close>\<close>

function find_char :: "string \<Rightarrow> char \<Rightarrow> nat \<Rightarrow> nat" where
  "find_char str c i = (if i < length str \<and> str ! i \<noteq> c then find_char str c (i + 1) else i)"
  by pat_completeness auto
termination by (relation "measure (\<lambda>(str, c, i). length str - i)") auto

declare find_char.simps [simp del]

lemma find_char_append:
  "c \<notin> set u \<Longrightarrow> i \<le> length u \<Longrightarrow> find_char (u @ c # v) c i = length u"
proof (induction "length u - i" arbitrary: i)
  case (Suc n)
  then have "i < length u" by simp
  then have "u ! i \<noteq> c" using Suc.prems nth_mem by metis
  then show ?case
    using Suc \<open>i < length u\<close> by (simp add: find_char.simps [of "u @ c # v" c i] nth_append)
qed (simp add: find_char.simps)

lemma find_char_le: "i \<le> length s \<Longrightarrow> find_char s c i \<le> length s"
proof (induction s c i rule: find_char.induct)
  case (1 s c i)
  then show ?case by (simp add: find_char.simps [of s c i])
qed

lemma find_char_ge: "i \<le> find_char s c i"
proof (induction s c i rule: find_char.induct)
  case (1 s c i)
  then show ?case by (cases "i < length s \<and> s ! i \<noteq> c") (auto simp: find_char.simps [of s c i])
qed

text \<open>\<open>name\<close> is the size of the name buffer when the caller passes one.\<close>

definition BAddr_Parse2 ::
  "getaddrinfo \<Rightarrow> string \<Rightarrow> nat option \<Rightarrow> bool \<Rightarrow> (BAddr \<times> string option) option" where
  "BAddr_Parse2 getaddrinfo str name noresolve =
     (let len = length str in
      if len < 1 \<or> len > 1000 then None
      else let v6 = (str ! 0 = CHR ''['');
               i = (if v6 then find_char str CHR '']'' 1 else find_char str CHR '':'' 0) in
      if i \<ge> len then None
      else if v6 \<and> (i + 1 \<ge> len \<or> str ! (i + 1) \<noteq> CHR '':'') then None
      else let addr_start = (if v6 then 1 else 0);
               addr_len = i - addr_start;
               port_start = (if v6 then i + 2 else i + 1);
               port_len = len - port_start in
      if addr_len \<ge> 128 then None
      else let addr_str = take addr_len (drop addr_start str) in
      if port_len \<ge> 6 then None
      else let port_str = take port_len (drop port_start str);
               (conv_res, err) = strtol10 port_str in
      if port_str = [] \<or> err \<noteq> [] then None
      else if conv_res < 0 \<or> conv_res > UINT16_MAX then None
      else let port = hton16 (of_int conv_res) in
      case getaddrinfo v6 noresolve addr_str of
        None \<Rightarrow> None
      | Some b \<Rightarrow>
          let addr = (if v6 then BAddrIPv6 (mem_read b 0 16) port
                      else BAddrIPv4 (badvpn_read_le32 b) port) in
          (case name of
             None \<Rightarrow> Some (addr, None)
           | Some name_len \<Rightarrow>
               if length addr_str \<ge> name_len then None else Some (addr, Some addr_str)))"

definition BAddr_Parse ::
  "getaddrinfo \<Rightarrow> string \<Rightarrow> nat option \<Rightarrow> (BAddr \<times> string option) option" where
  "BAddr_Parse getaddrinfo str name = BAddr_Parse2 getaddrinfo str name False"

text \<open>Digits printed by \<open>%u\<close> are read back by \<open>strtol\<close>.\<close>

lemma of_char_digit_char: "d < 10 \<Longrightarrow> (of_char (digit_char d) :: nat) = 48 + d"
  by (simp add: digit_char_def)

lemma is_digit_digit_char [simp]: "d < 10 \<Longrightarrow> is_digit (digit_char d)"
  by (simp add: is_digit_def of_char_digit_char)

lemma digits_value_append:
  "(\<And>c. c \<in> set u \<Longrightarrow> is_digit c) \<Longrightarrow> digits_value acc (u @ v) = digits_value (fst (digits_value acc u)) v"
  by (induction u arbitrary: acc) auto

lemma base_str_digits: "c \<in> set (fmt_u n) \<Longrightarrow> is_digit c"
  unfolding fmt_u_def
proof (induction "10::nat" n rule: base_str.induct)
  case (1 n)
  then show ?case by (subst (asm) base_str.simps) (auto split: if_splits)
qed

lemma fmt_u_not_Nil [simp]: "fmt_u n \<noteq> []"
  by (simp add: fmt_u_def base_str.simps)

lemma digits_value_fmt_u: "digits_value 0 (fmt_u n) = (n, [])"
  unfolding fmt_u_def
proof (induction "10::nat" n rule: base_str.induct)
  case (1 n)
  show ?case
  proof (cases "n < 10")
    case True
    then show ?thesis by (simp add: base_str.simps of_char_digit_char)
  next
    case False
    then have "digits_value 0 (base_str 10 (n div 10)) = (n div 10, [])" using 1 by simp
    moreover have "\<And>c. c \<in> set (base_str 10 (n div 10)) \<Longrightarrow> is_digit c"
      using base_str_digits by (simp add: fmt_u_def)
    ultimately show ?thesis
      using False
      by (simp add: base_str.simps [of 10 n] digits_value_append of_char_digit_char)
  qed
qed

lemma strtol10_fmt_u: "strtol10 (fmt_u n) = (int n, [])"
proof -
  obtain c cs where c: "fmt_u n = c # cs" by (cases "fmt_u n") auto
  then have d: "is_digit c" using base_str_digits [of c n] by simp
  then have "\<not> is_space c" "c \<noteq> CHR ''-''" "c \<noteq> CHR ''+''"
    by (auto simp: is_digit_def is_space_def)
  then show ?thesis
    using d digits_value_fmt_u [of n] by (simp add: strtol10_def Let_def c)
qed

lemma BAddr_Parse2_printed:
  assumes host: "CHR '':'' \<notin> set host" "host \<noteq> []" "hd host \<noteq> CHR ''[''" "length host < 128"
    and gai: "getaddrinfo False noresolve host = Some b"
  shows "BAddr_Parse2 getaddrinfo (host @ '':'' @ fmt_u (unat (port :: u16))) None noresolve =
    Some (BAddrIPv4 (badvpn_read_le32 b) (hton16 port), None)"
proof -
  let ?s = "host @ '':'' @ fmt_u (unat port)"
  have f: "find_char ?s CHR '':'' 0 = length host"
    using find_char_append [of "CHR '':''" host 0] host by simp
  have l: "length (fmt_u (unat port)) \<le> 5" by (rule length_fmt_u16)
  have h: "?s ! 0 \<noteq> CHR ''[''" using host by (cases host) auto
  have p: "\<not> 65535 < uint port" using unsigned_less [of port, where ?'a = int] by simp
  show ?thesis
    using f l h p host gai by (simp add: BAddr_Parse2_def strtol10_fmt_u UINT16_MAX_def)
qed

end
