(* ===== verification/Tun2SocksUdp.thy ===== *)
theory Tun2SocksUdp
  imports IpProto BAddr
begin

text \<open>
  The datagram side of tun2socks/tun2socks.c: packets read from the TUN device
  (\<open>device_read_handler_send\<close> and the handlers it tries in turn), packets written to it, the DNS
  connection table and the construction of UDP and ICMP packets. What the code reads of the global
  \<open>options\<close> and of the device is the record \<open>tun_config\<close>; what it does to the outside is a list of
  actions. lwIP is not part of the model: its verdicts are arguments.
\<close>

record tun_config =
  opt_dnsgw :: bool
  dnsgw_ip :: u32
  dnsgw_port :: u16
  opt_udpgw :: bool
  opt_transparent_dns :: bool
  opt_netif_ip6addr :: bool
  netif_ipaddr :: u32
  udp_mtu :: int
  device_mtu :: nat

datatype device_action =
    TapSend "byte list"
  | UdpgwSubmit BAddr BAddr bool "byte list"
  | IpInput "byte list"
  | Ip6Input "byte list"
  | PbufFree

subsection \<open>The DNS connection table\<close>

text \<open>
  \<open>connections_tree\<close> is a BAVL tree keyed by the \<open>port\<close> field; it is used as a finite map. Its
  comparator is \<open>conaddr_comparator\<close>, under which two keys are equal exactly when the ports are.
\<close>

record Connection =
  local_addr :: BAddr
  remote_addr :: BAddr
  con_port :: u16
  con_count :: int

record dns_state =
  dns_init :: bool
  connections_tree :: "u16 \<rightharpoonup> Connection"

definition dns_state0 :: dns_state where
  "dns_state0 = \<lparr>dns_init = False, connections_tree = Map.empty\<rparr>"

definition conaddr_comparator :: "u16 \<Rightarrow> u16 \<Rightarrow> int" where
  "conaddr_comparator v1 v2 = (if v1 = v2 then 0 else if v1 > v2 then 1 else -1)"

definition find_connection :: "dns_state \<Rightarrow> u16 \<Rightarrow> Connection option" where
  "find_connection s port = connections_tree s port"

definition remove_connection :: "dns_state \<Rightarrow> Connection \<Rightarrow> dns_state" where
  "remove_connection s con =
     (let con = con\<lparr>con_count := con_count con - 1\<rparr> in
      if con_count con \<le> 0
      then s\<lparr>connections_tree := (connections_tree s)(con_port con := None)\<rparr>
      else s\<lparr>connections_tree := (connections_tree s)(con_port con \<mapsto> con)\<rparr>)"

definition insert_connection :: "dns_state \<Rightarrow> BAddr \<Rightarrow> BAddr \<Rightarrow> u16 \<Rightarrow> dns_state" where
  "insert_connection s laddr raddr port =
     (case find_connection s port of
        Some con \<Rightarrow>
          s\<lparr>connections_tree := (connections_tree s)(port \<mapsto> con\<lparr>con_count := con_count con + 1\<rparr>)\<rparr>
      | None \<Rightarrow>
          s\<lparr>connections_tree := (connections_tree s)(port \<mapsto>
            \<lparr>local_addr = laddr, remote_addr = raddr, con_port = port, con_count = 1\<rparr>)\<rparr>)"

definition free_connections :: "dns_state \<Rightarrow> dns_state" where
  "free_connections s = s\<lparr>connections_tree := Map.empty\<rparr>"

text \<open>The IPv4 members of a \<open>BAddr\<close> the table holds.\<close>

fun baddr_ip4 :: "BAddr \<Rightarrow> u32" where
  "baddr_ip4 (BAddrIPv4 ip _) = ip"
| "baddr_ip4 _ = 0"

subsection \<open>Reading a UDP datagram\<close>

text \<open>
  The IPv4 branch that \<open>process_device_dns_packet\<close> and \<open>process_device_udp_packet\<close> both start with:
  filter, header checks and the verification of the UDP checksum.
\<close>

definition ip_version :: "byte list \<Rightarrow> u8" where
  "ip_version data = (if length data > 0 then drop_bit 4 (data ! 0) else 0)"

definition parse_udp4 :: "byte list \<Rightarrow> (ipv4_header \<times> udp_header \<times> byte list) option" where
  "parse_udp4 data =
     (if length data < sizeof_ipv4_header \<or> data ! 9 \<noteq> IPV4_PROTOCOL_UDP then None
      else case ipv4_check data of None \<Rightarrow> None
      | Some (ipv4_header, off, data_len) \<Rightarrow>
        let data = mem_read data off data_len in
        case udp_check data of None \<Rightarrow> None
        | Some (udp_header, off, data_len) \<Rightarrow>
          let data = mem_read data off data_len;
              checksum_in_packet = udp_check_field udp_header;
              udp_header = udp_header\<lparr>udp_check_field := 0\<rparr>;
              checksum_computed = udp_checksum udp_header data
                (source_address ipv4_header) (destination_address ipv4_header) in
          if checksum_in_packet \<noteq> checksum_computed then None
          else Some (ipv4_header, udp_header, data))"

definition parse_udp6 :: "byte list \<Rightarrow> (ipv6_header \<times> udp_header \<times> byte list) option" where
  "parse_udp6 data =
     (if length data < sizeof_ipv6_header \<or> data ! 6 \<noteq> IPV6_NEXT_UDP then None
      else case ipv6_check data of None \<Rightarrow> None
      | Some (ipv6_header, off, data_len) \<Rightarrow>
        let data = mem_read data off data_len in
        case udp_check data of None \<Rightarrow> None
        | Some (udp_header, off, data_len) \<Rightarrow>
          let data = mem_read data off data_len;
              checksum_in_packet = udp_check_field udp_header;
              udp_header = udp_header\<lparr>udp_check_field := 0\<rparr>;
              checksum_computed = udp_ip6_checksum udp_header data
                (source_address6 ipv6_header) (destination_address6 ipv6_header) in
          if checksum_in_packet \<noteq> checksum_computed then None
          else Some (ipv6_header, udp_header, data))"

subsection \<open>The handlers of device packets\<close>

text \<open>\<open>goto fail\<close>, which returns 0 with nothing changed, is \<open>None\<close>.\<close>

definition process_device_dns_packet ::
  "tun_config \<Rightarrow> dns_state \<Rightarrow> byte list \<Rightarrow> (dns_state \<times> device_action list) option" where
  "process_device_dns_packet cfg s data =
     (if \<not> opt_dnsgw cfg then None
      else if ip_version data \<noteq> 4 then None
      else case parse_udp4 data of None \<Rightarrow> None
      | Some (iph, udph, payload) \<Rightarrow>
        let to_dns = (dest_port udph = hton16 53);
            from_dns = (source_port udph = dnsgw_port cfg) in
        if \<not> to_dns \<and> \<not> from_dns then None
        else
          let rewritten =
            (if to_dns then
               let s = (if \<not> dns_init s then s\<lparr>dns_init := True, connections_tree := Map.empty\<rparr> else s);
                   laddr = BAddr_InitIPv4 (source_address iph) (source_port udph);
                   raddr = BAddr_InitIPv4 (destination_address iph) (dest_port udph);
                   s = insert_connection s laddr raddr (source_port udph);
                   iph = iph\<lparr>destination_address := dnsgw_ip cfg\<rparr>;
                   iph = iph\<lparr>source_address := netif_ipaddr cfg\<rparr>;
                   udph = udph\<lparr>dest_port := dnsgw_port cfg\<rparr>
               in Some (s, iph, udph)
             else if \<not> dns_init s then None
             else case find_connection s (dest_port udph) of
                 None \<Rightarrow> None
               | Some con \<Rightarrow>
                   let iph = iph\<lparr>source_address := baddr_ip4 (remote_addr con)\<rparr>;
                       iph = iph\<lparr>destination_address := baddr_ip4 (local_addr con)\<rparr>;
                       udph = udph\<lparr>source_port := BAddr_GetPort (remote_addr con)\<rparr>
                   in Some (remove_connection s con, iph, udph)) in
          case rewritten of None \<Rightarrow> None
          | Some (s, iph, udph) \<Rightarrow>
            let iph = iph\<lparr>ip_checksum := hton16 0\<rparr>;
                iph = iph\<lparr>ip_checksum := ipv4_checksum iph []\<rparr>;
                udph = udph\<lparr>udp_check_field := hton16 0\<rparr>;
                udph = udph\<lparr>udp_check_field := udp_checksum udph payload
                  (source_address iph) (destination_address iph)\<rparr>
            in Some (s, [TapSend (ipv4_header_bytes iph @ udp_header_bytes udph @ payload)]))"

text \<open>\<open>for (int i = 0; i + 1 < len; i += 2) sum += ((uint32_t)data[i] << 8) | data[i + 1];\<close>\<close>

fun inet_sum :: "u32 \<Rightarrow> byte list \<Rightarrow> u32" where
  "inet_sum t (a # b # r) = inet_sum (t + (push_bit 8 (ucast a) OR ucast b)) r"
| "inet_sum t _ = t"

definition inet_checksum :: "byte list \<Rightarrow> u16" where
  "inet_checksum data = ucast (NOT (checksum_fold (inet_sum 0 data)))"

definition reject_device_udp_packet :: "tun_config \<Rightarrow> byte list \<Rightarrow> bool \<times> device_action list" where
  "reject_device_udp_packet cfg data =
     (if length data < sizeof_ipv4_header \<or> drop_bit 4 (data ! 0) \<noteq> 4 \<or> data ! 9 \<noteq> IPV4_PROTOCOL_UDP
      then (False, [])
      else case ipv4_check data of
        None \<Rightarrow> (False, [])
      | Some (orig, payload_off, payload_len) \<Rightarrow>
        if payload_len < sizeof_udp_header then (False, [])
        else
          let quote_len = payload_off + sizeof_udp_header;
              icmp_len = 8 + quote_len;
              total_len = sizeof_ipv4_header + icmp_len in
          if total_len > device_mtu cfg then (True, [])
          else
            let icmp = [3, 3, 0, 0, 0, 0, 0, 0] @ take quote_len data;
                icmp_sum = inet_checksum icmp;
                icmp = icmp[2 := ucast (drop_bit 8 icmp_sum), 3 := ucast (icmp_sum AND 0xFF)];
                reply = \<lparr>version4_ihl4 = IPV4_MAKE_VERSION_IHL sizeof_ipv4_header, ds = 0,
                  total_length = hton16 (of_nat total_len), identification = hton16 0,
                  flags3_fragmentoffset13 = hton16 0, ttl = 64, protocol = 1,
                  ip_checksum = hton16 0, source_address = destination_address orig,
                  destination_address = source_address orig\<rparr>;
                reply = reply\<lparr>ip_checksum := ipv4_checksum reply []\<rparr>
            in (True, [TapSend (ipv4_header_bytes reply @ icmp)]))"

definition process_device_udp_packet :: "tun_config \<Rightarrow> byte list \<Rightarrow> bool \<times> device_action list" where
  "process_device_udp_packet cfg data =
     (if \<not> opt_udpgw cfg then reject_device_udp_packet cfg data
      else
        let parsed =
          (if ip_version data = 4 then
             case parse_udp4 data of None \<Rightarrow> None
             | Some (iph, udph, payload) \<Rightarrow>
                 Some (BAddr_InitIPv4 (source_address iph) (source_port udph),
                       BAddr_InitIPv4 (destination_address iph) (dest_port udph),
                       opt_transparent_dns cfg \<and> destination_address iph = netif_ipaddr cfg
                         \<and> dest_port udph = hton16 53,
                       payload)
           else if ip_version data = 6 then
             if \<not> opt_netif_ip6addr cfg then None
             else case parse_udp6 data of None \<Rightarrow> None
             | Some (iph, udph, payload) \<Rightarrow>
                 Some (BAddr_InitIPv6 (source_address6 iph) (source_port udph),
                       BAddr_InitIPv6 (destination_address6 iph) (dest_port udph),
                       False, payload)
           else None) in
        case parsed of
          None \<Rightarrow> (False, [])
        | Some (laddr, raddr, is_dns, payload) \<Rightarrow>
            if int (length payload) > udp_mtu cfg then (False, [])
            else (True, [UdpgwSubmit laddr raddr is_dns payload]))"

text \<open>lwIP's input functions are arguments: whether they return \<open>ERR_OK\<close>.\<close>

definition netif_input_func ::
  "tun_config \<Rightarrow> (byte list \<Rightarrow> bool) \<Rightarrow> (byte list \<Rightarrow> bool) \<Rightarrow> byte list \<Rightarrow> bool \<times> device_action list" where
  "netif_input_func cfg ip_input ip6_input p =
     (if ip_version p = 4 then (ip_input p, [IpInput p])
      else if ip_version p = 6 \<and> opt_netif_ip6addr cfg then (ip6_input p, [Ip6Input p])
      else (True, [PbufFree]))"

text \<open>\<open>pbuf_ok\<close> is whether \<open>pbuf_alloc\<close> returns a buffer; \<open>pbuf_take\<close> copies the whole packet to it.\<close>

definition device_read_handler_send ::
  "tun_config \<Rightarrow> bool \<Rightarrow> (byte list \<Rightarrow> bool) \<Rightarrow> (byte list \<Rightarrow> bool) \<Rightarrow> dns_state \<Rightarrow> byte list
   \<Rightarrow> dns_state \<times> device_action list" where
  "device_read_handler_send cfg pbuf_ok ip_input ip6_input s data =
     (case process_device_dns_packet cfg s data of
        Some (s', acts) \<Rightarrow> (s', acts)
      | None \<Rightarrow>
          let (consumed, acts) = process_device_udp_packet cfg data in
          if consumed then (s, acts)
          else if int (length data) > UINT16_MAX then (s, acts)
          else if \<not> pbuf_ok then (s, acts)
          else let (ok, more) = netif_input_func cfg ip_input ip6_input data in
               (s, acts @ more @ (if ok then [] else [PbufFree])))"

subsection \<open>Writing to the device\<close>

text \<open>The \<open>do \<dots> while (p = p->next)\<close> loop over a chain of buffers.\<close>

fun netif_output_gather :: "nat \<Rightarrow> byte list \<Rightarrow> nat \<Rightarrow> byte list list \<Rightarrow> (byte list \<times> nat) option" where
  "netif_output_gather mtu buf len [] = Some (buf, len)"
| "netif_output_gather mtu buf len (p # ps) =
     (if int (length p) > int mtu - int len then None
      else netif_output_gather mtu (mem_write buf len p) (len + length p) ps)"

definition common_netif_output ::
  "tun_config \<Rightarrow> bool \<Rightarrow> byte list \<Rightarrow> byte list list \<Rightarrow> device_action list" where
  "common_netif_output cfg quitting device_write_buf p =
     (if quitting then []
      else if tl p = [] then
        (if length (hd p) > device_mtu cfg then [] else [TapSend (hd p)])
      else case netif_output_gather (device_mtu cfg) device_write_buf 0 p of
        None \<Rightarrow> []
      | Some (buf, len) \<Rightarrow> [TapSend (take len buf)])"

text \<open>\<open>baddr_from_lwip\<close>: lwIP keeps addresses in network order and ports in host order.\<close>

definition baddr_from_lwip :: "bool \<Rightarrow> byte list \<Rightarrow> u16 \<Rightarrow> BAddr" where
  "baddr_from_lwip is_ipv6 ipx_addr port_hostorder =
     (if is_ipv6 then BAddr_InitIPv6 ipx_addr (hton16 port_hostorder)
      else BAddr_InitIPv4 (badvpn_read_le32 ipx_addr) (hton16 port_hostorder))"

subsection \<open>Datagrams from the UDP gateway\<close>

text \<open>
  Both addresses have the same IP type (an assertion of the handler, which its caller ensures); for
  any other type the \<open>switch\<close> does nothing and an empty packet is sent.
\<close>

fun udpgw_client_handler_received ::
  "tun_config \<Rightarrow> BAddr \<Rightarrow> BAddr \<Rightarrow> byte list \<Rightarrow> device_action list" where
  "udpgw_client_handler_received cfg (BAddrIPv4 lip lport) (BAddrIPv4 rip rport) data =
     (let data_len = int (length data) in
      if data_len > UINT16_MAX - 28 \<or> data_len > int (device_mtu cfg) - 28 then []
      else
        let iph = \<lparr>version4_ihl4 = IPV4_MAKE_VERSION_IHL sizeof_ipv4_header, ds = hton8 0,
              total_length = hton16 (of_nat (sizeof_ipv4_header + sizeof_udp_header + length data)),
              identification = hton16 0, flags3_fragmentoffset13 = hton16 0, ttl = hton8 64,
              protocol = hton8 IPV4_PROTOCOL_UDP, ip_checksum = hton16 0,
              source_address = rip, destination_address = lip\<rparr>;
            iph = iph\<lparr>ip_checksum := ipv4_checksum iph []\<rparr>;
            udph = \<lparr>source_port = rport, dest_port = lport,
              udp_length = hton16 (of_nat (sizeof_udp_header + length data)),
              udp_check_field = hton16 0\<rparr>;
            udph = udph\<lparr>udp_check_field := udp_checksum udph data
              (source_address iph) (destination_address iph)\<rparr>
        in [TapSend (ipv4_header_bytes iph @ udp_header_bytes udph @ data)])"
| "udpgw_client_handler_received cfg (BAddrIPv6 lip lport) (BAddrIPv6 rip rport) data =
     (let data_len = int (length data) in
      if \<not> opt_netif_ip6addr cfg then []
      else if data_len > UINT16_MAX - 8 \<or> data_len > int (device_mtu cfg) - 48 then []
      else
        let iph = \<lparr>version4_tc4 = hton8 (push_bit 4 6), tc4_fl4 = hton8 0, fl = hton16 0,
              payload_length = hton16 (of_nat (sizeof_udp_header + length data)),
              next_header = hton8 IPV6_NEXT_UDP, hop_limit = hton8 64,
              source_address6 = mem_read rip 0 16, destination_address6 = mem_read lip 0 16\<rparr>;
            udph = \<lparr>source_port = rport, dest_port = lport,
              udp_length = hton16 (of_nat (sizeof_udp_header + length data)),
              udp_check_field = hton16 0\<rparr>;
            udph = udph\<lparr>udp_check_field := udp_ip6_checksum udph data
              (source_address6 iph) (destination_address6 iph)\<rparr>
        in [TapSend (ipv6_header_bytes iph @ udp_header_bytes udph @ data)])"
| "udpgw_client_handler_received cfg _ _ data = [TapSend []]"

subsection \<open>Facts on the readers\<close>

lemma ip_version_ipv4_header: "ip_version (ipv4_header_bytes h @ r) = drop_bit 4 (version4_ihl4 h)"
  by (simp add: ip_version_def ipv4_header_bytes_def)

lemma drop_bit_4_mask: "drop_bit 4 (x :: u8) = drop_bit 4 (x AND 0xF0)"
proof (rule bit_word_eqI)
  fix n assume "n < LENGTH(8)"
  then have "n \<in> {0, 1, 2, 3, 4, 5, 6, 7}" by auto
  then show "bit (drop_bit 4 x) n = bit (drop_bit 4 (x AND 0xF0)) n"
    by (auto simp: bit_simps bit_numeral_rec dest: bit_imp_le_length)
qed

lemma IPV4_GET_VERSION_4: "IPV4_GET_VERSION h = 4 \<longleftrightarrow> drop_bit 4 (version4_ihl4 h) = 4"
proof -
  have "drop_bit 4 (version4_ihl4 h) = drop_bit 4 (version4_ihl4 h AND 0xF0)"
    by (rule drop_bit_4_mask)
  then show ?thesis
    unfolding IPV4_GET_VERSION_def by (simp only: word_unat_eq_iff) simp
qed

lemma nth_9_ipv4_header [simp]: "(ipv4_header_bytes h @ r) ! 9 = protocol h"
  by (simp add: ipv4_header_bytes_def nth_append)

lemma udp_check_built:
  "unat (ntoh16 (udp_length u)) = 8 + length p \<Longrightarrow>
   udp_check (udp_header_bytes u @ p) = Some (u, 8, length p)"
  by (simp add: udp_check_def)

lemma mem_read_skip: "n = length u \<Longrightarrow> mem_read (u @ p) n k = take k p"
  by (simp add: mem_read_def)

definition udp4_ok :: "ipv4_header \<Rightarrow> udp_header \<Rightarrow> byte list \<Rightarrow> bool" where
  "udp4_ok h u p \<longleftrightarrow>
     IPV4_GET_VERSION h = 4 \<and> IPV4_GET_IHL h = 5 \<and> protocol h = IPV4_PROTOCOL_UDP \<and>
     unat (ntoh16 (total_length h)) = 28 + length p \<and>
     ip_checksum h = ipv4_checksum (h\<lparr>ip_checksum := 0\<rparr>) [] \<and>
     unat (ntoh16 (udp_length u)) = 8 + length p \<and>
     udp_check_field u = udp_checksum (u\<lparr>udp_check_field := 0\<rparr>) p
       (source_address h) (destination_address h)"

lemma parse_udp4_built:
  assumes "udp4_ok h u p"
  shows "parse_udp4 (ipv4_header_bytes h @ udp_header_bytes u @ p) =
    Some (h, u\<lparr>udp_check_field := 0\<rparr>, p)"
proof -
  have "ipv4_check (ipv4_header_bytes h @ udp_header_bytes u @ p) =
      Some (h, 20, length (udp_header_bytes u @ p))"
    using assms by (intro ipv4_check_built) (simp_all add: udp4_ok_def)
  then show ?thesis
    using assms by (simp add: parse_udp4_def udp_check_built mem_read_skip udp4_ok_def Let_def)
qed

lemma parse_udp4_SomeE:
  assumes "parse_udp4 data = Some (h, u, p)"
  obtains off len u' where "ipv4_check data = Some (h, off, len)" "data ! 9 = IPV4_PROTOCOL_UDP"
    "udp_check (mem_read data off len) = Some (u', 8, length p)"
    "u = u'\<lparr>udp_check_field := 0\<rparr>" "p = mem_read (mem_read data off len) 8 (length p)"
    "udp_check_field u' = udp_checksum u p (source_address h) (destination_address h)"
proof -
  obtain off len where a: "ipv4_check data = Some (h, off, len)" "data ! 9 = IPV4_PROTOCOL_UDP"
    using assms by (auto simp: parse_udp4_def Let_def split: if_splits option.splits)
  then obtain u' o2 l2 where b: "udp_check (mem_read data off len) = Some (u', o2, l2)"
    "u = u'\<lparr>udp_check_field := 0\<rparr>" "p = mem_read (mem_read data off len) o2 l2"
    "udp_check_field u' = udp_checksum u p (source_address h) (destination_address h)"
    using assms by (auto simp: parse_udp4_def Let_def split: if_splits option.splits)
  then have "o2 = 8" "l2 = length p"
    using udp_check_Some [OF b(1)] by (simp_all add: length_mem_read)
  then show ?thesis using that a b by simp
qed

lemma parse_udp4_Some:
  assumes "parse_udp4 data = Some (h, u, p)"
  shows "IPV4_GET_VERSION h = 4" "5 \<le> IPV4_GET_IHL h" "protocol h = IPV4_PROTOCOL_UDP"
    "IPV4_GET_IHL h * 4 + 8 + length p \<le> unat (ntoh16 (total_length h))"
    "unat (ntoh16 (total_length h)) \<le> length data"
    "unat (ntoh16 (udp_length u)) = 8 + length p" "udp_check_field u = 0"
proof -
  obtain off len u' where o: "ipv4_check data = Some (h, off, len)" "data ! 9 = IPV4_PROTOCOL_UDP"
    "udp_check (mem_read data off len) = Some (u', 8, length p)"
    "u = u'\<lparr>udp_check_field := 0\<rparr>"
    using parse_udp4_SomeE [OF assms] by metis
  note c = ipv4_check_Some [OF o(1)] and d = udp_check_Some [OF o(3)]
  show "IPV4_GET_VERSION h = 4"
    using o(1) by (auto simp: ipv4_check_def Let_def split: if_splits)
  show "5 \<le> IPV4_GET_IHL h" using c by linarith
  show "protocol h = IPV4_PROTOCOL_UDP" using c(1) o(2) by (simp add: ipv4_header_load_def)
  have "length (mem_read data off len) = len" using c by (simp add: length_mem_read)
  then show "IPV4_GET_IHL h * 4 + 8 + length p \<le> unat (ntoh16 (total_length h))"
    using c d by linarith
  show "unat (ntoh16 (total_length h)) \<le> length data" using c by linarith
  show "unat (ntoh16 (udp_length u)) = 8 + length p" using d o(4) by simp
  show "udp_check_field u = 0" using o(4) by simp
qed

lemma parse_udp4_device:
  assumes "parse_udp4 data = Some (h, u, p)"
  shows "ip_version data = 4" "20 \<le> length data"
proof -
  have h: "h = ipv4_header_load data" "20 \<le> length data"
    using parse_udp4_SomeE [OF assms] ipv4_check_Some by (metis add_leD1 le_trans)+
  then show "20 \<le> length data" by simp
  then have "data \<noteq> []" by auto
  moreover have "version4_ihl4 h = data ! 0" by (simp add: h(1) ipv4_header_load_def)
  ultimately show "ip_version data = 4"
    using parse_udp4_Some(1) [OF assms] by (simp add: ip_version_def IPV4_GET_VERSION_4)
qed

lemma unat_of_nat_16: "n < 65536 \<Longrightarrow> unat (of_nat n :: u16) = n"
  by (simp add: unat_of_nat)

lemma unat_of_nat_16_8: "n \<le> 65527 \<Longrightarrow> unat (of_nat (8 + n) :: u16) = 8 + n"
  by (rule unat_of_nat_16) simp

lemma unat_of_nat_16_28: "n \<le> 65507 \<Longrightarrow> unat (of_nat (28 + n) :: u16) = 28 + n"
  by (rule unat_of_nat_16) simp

text \<open>The packet \<open>udpgw_client_handler_received\<close> builds from IPv4 addresses.\<close>

definition udpgw_iph :: "u32 \<Rightarrow> u32 \<Rightarrow> byte list \<Rightarrow> ipv4_header" where
  "udpgw_iph lip rip data =
     (let iph = \<lparr>version4_ihl4 = IPV4_MAKE_VERSION_IHL 20, ds = 0,
              total_length = hton16 (of_nat (28 + length data)),
              identification = 0, flags3_fragmentoffset13 = 0, ttl = 64,
              protocol = 17, ip_checksum = 0, source_address = rip, destination_address = lip\<rparr>
      in iph\<lparr>ip_checksum := ipv4_checksum iph []\<rparr>)"

definition udpgw_udph :: "u32 \<Rightarrow> u16 \<Rightarrow> u32 \<Rightarrow> u16 \<Rightarrow> byte list \<Rightarrow> udp_header" where
  "udpgw_udph lip lport rip rport data =
     (let udph = \<lparr>source_port = rport, dest_port = lport,
              udp_length = hton16 (of_nat (8 + length data)), udp_check_field = 0\<rparr>
      in udph\<lparr>udp_check_field := udp_checksum udph data rip lip\<rparr>)"

lemma udpgw_received4:
  "udpgw_client_handler_received cfg (BAddrIPv4 lip lport) (BAddrIPv4 rip rport) data =
   (if length data \<le> 65507 \<and> length data + 28 \<le> device_mtu cfg
    then [TapSend (ipv4_header_bytes (udpgw_iph lip rip data)
            @ udp_header_bytes (udpgw_udph lip lport rip rport data) @ data)]
    else [])"
  by (auto simp: udpgw_iph_def udpgw_udph_def Let_def UINT16_MAX_def)

lemma udpgw_packet_ok:
  "length data \<le> 65507 \<Longrightarrow> udp4_ok (udpgw_iph lip rip data) (udpgw_udph lip lport rip rport data) data"
  by (simp add: udp4_ok_def udpgw_iph_def udpgw_udph_def Let_def IPV4_GET_VERSION_def IPV4_GET_IHL_def
      IPV4_MAKE_VERSION_IHL_def unat_of_nat_16_8 unat_of_nat_16_28 del: of_nat_add)

text \<open>The same for IPv6.\<close>

definition udpgw_ip6h :: "byte list \<Rightarrow> byte list \<Rightarrow> byte list \<Rightarrow> ipv6_header" where
  "udpgw_ip6h lip rip data =
     \<lparr>version4_tc4 = push_bit 4 6, tc4_fl4 = 0, fl = 0,
      payload_length = hton16 (of_nat (8 + length data)), next_header = 17, hop_limit = 64,
      source_address6 = rip, destination_address6 = lip\<rparr>"

definition udpgw_udp6h :: "byte list \<Rightarrow> u16 \<Rightarrow> byte list \<Rightarrow> u16 \<Rightarrow> byte list \<Rightarrow> udp_header" where
  "udpgw_udp6h lip lport rip rport data =
     (let udph = \<lparr>source_port = rport, dest_port = lport,
              udp_length = hton16 (of_nat (8 + length data)), udp_check_field = 0\<rparr>
      in udph\<lparr>udp_check_field := udp_ip6_checksum udph data rip lip\<rparr>)"

lemma udpgw_received6:
  assumes "length lip = 16" "length rip = 16"
  shows "udpgw_client_handler_received cfg (BAddrIPv6 lip lport) (BAddrIPv6 rip rport) data =
   (if opt_netif_ip6addr cfg \<and> length data \<le> 65527 \<and> length data + 48 \<le> device_mtu cfg
    then [TapSend (ipv6_header_bytes (udpgw_ip6h lip rip data)
            @ udp_header_bytes (udpgw_udp6h lip lport rip rport data) @ data)]
    else [])"
  using assms by (auto simp: udpgw_ip6h_def udpgw_udp6h_def Let_def UINT16_MAX_def)

lemma ip_version_ipv6_header: "ip_version (ipv6_header_bytes h @ r) = drop_bit 4 (version4_tc4 h)"
  by (simp add: ip_version_def ipv6_header_bytes_def)

lemma parse_udp6_built:
  assumes "length lip = 16" "length rip = 16" "length data \<le> 65527"
  shows "parse_udp6 (ipv6_header_bytes (udpgw_ip6h lip rip data)
            @ udp_header_bytes (udpgw_udp6h lip lport rip rport data) @ data) =
    Some (udpgw_ip6h lip rip data,
      (udpgw_udp6h lip lport rip rport data)\<lparr>udp_check_field := 0\<rparr>, data)"
    (is "parse_udp6 (ipv6_header_bytes ?h @ udp_header_bytes ?u @ _) = _")
proof -
  have h: "length (source_address6 ?h) = 16" "length (destination_address6 ?h) = 16"
    using assms by (simp_all add: udpgw_ip6h_def)
  have l: "unat (ntoh16 (payload_length ?h)) = 8 + length data"
    using assms by (simp add: udpgw_ip6h_def unat_of_nat_16_8 del: of_nat_add)
  have v: "drop_bit 4 (version4_tc4 ?h) = 6" by (simp add: udpgw_ip6h_def drop_bit_eq_div)
  have "ipv6_check (ipv6_header_bytes ?h @ udp_header_bytes ?u @ data) =
      Some (?h, 40, 8 + length data)"
    using h l v by (simp add: ipv6_check_def)
  moreover have "udp_check (udp_header_bytes ?u @ data) = Some (?u, 8, length data)"
    using assms by (intro udp_check_built)
      (simp add: udpgw_udp6h_def Let_def unat_of_nat_16_8 del: of_nat_add)
  moreover have "(ipv6_header_bytes ?h @ udp_header_bytes ?u @ data) ! 6 = IPV6_NEXT_UDP"
    by (simp add: ipv6_header_bytes_def nth_append udpgw_ip6h_def)
  moreover have "udp_check_field ?u = udp_ip6_checksum (?u\<lparr>udp_check_field := 0\<rparr>) data
      (source_address6 ?h) (destination_address6 ?h)"
    by (simp add: udpgw_udp6h_def udpgw_ip6h_def Let_def)
  ultimately show ?thesis
    using h by (simp add: parse_udp6_def mem_read_skip Let_def)
qed

subsection \<open>The DNS table\<close>

text \<open>The number of queries from a port that have not been answered.\<close>

definition dns_outstanding :: "dns_state \<Rightarrow> u16 \<Rightarrow> nat" where
  "dns_outstanding s port =
     (if dns_init s then case connections_tree s port of None \<Rightarrow> 0 | Some con \<Rightarrow> nat (con_count con)
      else 0)"

text \<open>An entry is filed under its own port, its addresses are those of a query.\<close>

definition dns_inv :: "dns_state \<Rightarrow> bool" where
  "dns_inv s \<longleftrightarrow> (\<not> dns_init s \<longrightarrow> connections_tree s = Map.empty) \<and>
     (\<forall>port con. connections_tree s port = Some con \<longrightarrow>
        con_port con = port \<and> 1 \<le> con_count con \<and>
        (\<exists>lip rip. local_addr con = BAddrIPv4 lip port \<and> remote_addr con = BAddrIPv4 rip (hton16 53)))"

lemma dns_inv0: "dns_inv dns_state0"
  by (simp add: dns_inv_def dns_state0_def)

lemma dns_inv_insert:
  assumes "dns_inv s" "dns_init s"
  shows "dns_inv (insert_connection s (BAddrIPv4 lip port) (BAddrIPv4 rip (hton16 53)) port)"
proof (cases "connections_tree s port")
  case (Some con)
  then have "con_port con = port \<and> 1 \<le> con_count con \<and> (\<exists>lip rip. local_addr con = BAddrIPv4 lip port \<and>
      remote_addr con = BAddrIPv4 rip (hton16 53))"
    using assms by (simp add: dns_inv_def)
  then have "0 \<le> con_count con" by linarith
  then show ?thesis
    using assms Some by (simp add: dns_inv_def insert_connection_def find_connection_def)
qed (use assms in \<open>simp add: dns_inv_def insert_connection_def find_connection_def\<close>)

lemma dns_inv_remove:
  assumes "dns_inv s" "dns_init s" "find_connection s port = Some con"
  shows "dns_inv (remove_connection s con)"
  using assms by (auto simp: dns_inv_def remove_connection_def find_connection_def Let_def)

lemma dns_outstanding_insert:
  assumes "dns_inv s" "dns_init s"
  shows "dns_outstanding (insert_connection s laddr raddr port) q =
    dns_outstanding s q + (if q = port then 1 else 0)"
proof (cases "connections_tree s port")
  case (Some con)
  then have "1 \<le> con_count con" using assms by (simp add: dns_inv_def)
  then have "nat (con_count con + 1) = Suc (nat (con_count con))" by simp
  then show ?thesis
    using assms Some
    by (simp add: dns_outstanding_def insert_connection_def find_connection_def)
qed (use assms in \<open>simp add: dns_outstanding_def insert_connection_def find_connection_def\<close>)

lemma dns_outstanding_remove:
  assumes "dns_inv s" "dns_init s" "find_connection s port = Some con"
  shows "dns_outstanding (remove_connection s con) q =
    dns_outstanding s q - (if q = port then 1 else 0)"
proof -
  have p: "con_port con = port" "1 \<le> con_count con"
    using assms by (auto simp: dns_inv_def find_connection_def)
  then have "nat (con_count con - 1) = nat (con_count con) - 1" by simp
  then show ?thesis
    using assms p
    by (auto simp: dns_outstanding_def remove_connection_def find_connection_def Let_def split: option.splits)
qed

subsection \<open>The DNS rewriting\<close>

text \<open>What the handler emits for a datagram whose addresses it has rewritten.\<close>

definition dns_iph :: "ipv4_header \<Rightarrow> u32 \<Rightarrow> u32 \<Rightarrow> ipv4_header" where
  "dns_iph h src dst =
     (let h = h\<lparr>source_address := src, destination_address := dst, ip_checksum := 0\<rparr>
      in h\<lparr>ip_checksum := ipv4_checksum h []\<rparr>)"

definition dns_udph :: "udp_header \<Rightarrow> u16 \<Rightarrow> u16 \<Rightarrow> u32 \<Rightarrow> u32 \<Rightarrow> byte list \<Rightarrow> udp_header" where
  "dns_udph u sport dport src dst p =
     (let u = u\<lparr>source_port := sport, dest_port := dport, udp_check_field := 0\<rparr>
      in u\<lparr>udp_check_field := udp_checksum u p src dst\<rparr>)"

definition dns_out :: "ipv4_header \<Rightarrow> udp_header \<Rightarrow> byte list \<Rightarrow> u32 \<Rightarrow> u16 \<Rightarrow> u32 \<Rightarrow> u16 \<Rightarrow> byte list" where
  "dns_out h u p src sport dst dport =
     ipv4_header_bytes (dns_iph h src dst) @ udp_header_bytes (dns_udph u sport dport src dst p) @ p"

definition dns_opened :: "dns_state \<Rightarrow> dns_state" where
  "dns_opened s = (if dns_init s then s else s\<lparr>dns_init := True, connections_tree := Map.empty\<rparr>)"

lemma dns_opened_facts:
  assumes "dns_inv s"
  shows "dns_inv (dns_opened s)" "dns_init (dns_opened s)"
    "dns_outstanding (dns_opened s) q = dns_outstanding s q"
    "find_connection (dns_opened s) port = (if dns_init s then find_connection s port else None)"
  using assms by (auto simp: dns_opened_def dns_inv_def dns_outstanding_def find_connection_def)

lemma process_dns_query:
  assumes "opt_dnsgw cfg" "parse_udp4 data = Some (h, u, p)" "dest_port u = hton16 53"
  shows "process_device_dns_packet cfg s data =
    Some (insert_connection (dns_opened s) (BAddrIPv4 (source_address h) (source_port u))
            (BAddrIPv4 (destination_address h) (hton16 53)) (source_port u),
      [TapSend (dns_out h u p (netif_ipaddr cfg) (source_port u) (dnsgw_ip cfg) (dnsgw_port cfg))])"
  using assms parse_udp4_device(1) [OF assms(2)]
  by (cases u; cases h)
    (simp add: process_device_dns_packet_def dns_out_def dns_iph_def dns_udph_def dns_opened_def Let_def)

lemma process_dns_reply:
  assumes "opt_dnsgw cfg" "parse_udp4 data = Some (h, u, p)" "dest_port u \<noteq> hton16 53"
    and "source_port u = dnsgw_port cfg"
  shows "process_device_dns_packet cfg s data =
    (case (if dns_init s then find_connection s (dest_port u) else None) of
       None \<Rightarrow> None
     | Some con \<Rightarrow> Some (remove_connection s con,
         [TapSend (dns_out h u p (baddr_ip4 (remote_addr con)) (BAddr_GetPort (remote_addr con))
            (baddr_ip4 (local_addr con)) (dest_port u))]))"
  using assms parse_udp4_device(1) [OF assms(2)]
  by (cases u; cases h)
    (simp add: process_device_dns_packet_def dns_out_def dns_iph_def dns_udph_def Let_def split: option.split)

lemma process_dns_other:
  assumes "process_device_dns_packet cfg s data = Some r"
  obtains h u p where "opt_dnsgw cfg" "parse_udp4 data = Some (h, u, p)"
    "dest_port u = hton16 53 \<or> source_port u = dnsgw_port cfg"
proof -
  from assms obtain t where t: "opt_dnsgw cfg" "parse_udp4 data = Some t"
    unfolding process_device_dns_packet_def by (fastforce split: if_splits option.splits)
  obtain h u p where "t = (h, u, p)" by (metis prod_cases3)
  moreover from this have "dest_port u = hton16 53 \<or> source_port u = dnsgw_port cfg"
    using assms t by (simp add: process_device_dns_packet_def Let_def split: if_splits)
  ultimately show ?thesis using that t by blast
qed

lemma length_dns_out [simp]: "length (dns_out h u p src sport dst dport) = 28 + length p"
  by (simp add: dns_out_def)

lemma dns_out_ok:
  assumes "parse_udp4 data = Some (h, u, p)"
    and "IPV4_GET_IHL h = 5" "unat (ntoh16 (total_length h)) = 28 + length p"
  shows "parse_udp4 (dns_out h u p src sport dst dport) =
    Some (dns_iph h src dst, u\<lparr>source_port := sport, dest_port := dport\<rparr>, p)"
proof -
  note f = parse_udp4_Some [OF assms(1)]
  have "udp4_ok (dns_iph h src dst) (dns_udph u sport dport src dst p) p"
    using f assms(2,3)
    by (simp add: udp4_ok_def dns_iph_def dns_udph_def Let_def IPV4_GET_VERSION_def IPV4_GET_IHL_def)
  then have "parse_udp4 (dns_out h u p src sport dst dport) =
      Some (dns_iph h src dst, (dns_udph u sport dport src dst p)\<lparr>udp_check_field := 0\<rparr>, p)"
    unfolding dns_out_def by (rule parse_udp4_built)
  then show ?thesis using f(7) by (simp add: dns_udph_def Let_def)
qed

lemma dns_out_too_short:
  assumes "parse_udp4 data = Some (h, u, p)"
    and "IPV4_GET_IHL h \<noteq> 5 \<or> unat (ntoh16 (total_length h)) \<noteq> 28 + length p"
  shows "ipv4_check (dns_out h u p src sport dst dport) = None"
proof (rule ipv4_check_too_short)
  have "28 + length p < unat (ntoh16 (total_length h))"
    using parse_udp4_Some(2,4) [OF assms(1)] assms(2) by linarith
  then show "length (dns_out h u p src sport dst dport) <
      unat (ntoh16 (total_length (ipv4_header_load (dns_out h u p src sport dst dport))))"
    by (simp add: dns_out_def dns_iph_def Let_def)
qed

subsection \<open>The ICMP reply\<close>

lemma inet_sum_be16: "inet_sum t d = be16_sum t d (length d div 2)"
proof (induction t d rule: inet_sum.induct)
  case (1 t a b r)
  have "push_bit 8 (ucast a) OR ucast b = (ucast (badvpn_read_be16 (a # b # r)) :: u32)"
    by (rule bit_word_eqI) (auto simp: badvpn_read_be16_def bit_simps dest: bit_imp_le_length)
  then show ?case using 1 by simp
qed simp_all

lemma unat_inet_checksum:
  assumes "even (length d)" "length d \<le> 65536"
  shows "unat (inet_checksum d) = 65535 - ones_fold (words_sum d)"
proof -
  have "words_sum d \<le> 65535 * 32768"
    using words_sum_le [of d] assms by (elim order_trans) simp
  then have "words_sum d < 4294967296" by linarith
  moreover have "take (2 * (length d div 2)) d = d" using assms by simp
  ultimately have "unat (inet_sum 0 d) = words_sum d"
    by (simp add: inet_sum_be16 unat_be16_sum)
  then show ?thesis by (simp add: inet_checksum_def ucast_complement_fold)
qed

lemma split_u16: "256 * unat (ucast (drop_bit 8 x) :: byte) + unat (ucast (x AND 0xFF) :: byte) = unat (x :: u16)"
proof -
  have m: "x AND 0xFF = take_bit 8 x"
    by (simp add: take_bit_eq_mask mask_numeral)
  have "badvpn_read_be16 [ucast (drop_bit 8 x), ucast (x AND 0xFF)] = x"
    unfolding m by (rule bit_word_eqI) (auto simp: badvpn_read_be16_def bit_simps)
  then show ?thesis using unat_read_be16 [of "[ucast (drop_bit 8 x), ucast (x AND 0xFF)]"] by simp
qed

definition icmp_reply :: "ipv4_header \<Rightarrow> nat \<Rightarrow> ipv4_header" where
  "icmp_reply orig total_len =
     (let reply = \<lparr>version4_ihl4 = IPV4_MAKE_VERSION_IHL 20, ds = 0,
        total_length = hton16 (of_nat total_len), identification = 0,
        flags3_fragmentoffset13 = 0, ttl = 64, protocol = 1, ip_checksum = 0,
        source_address = destination_address orig, destination_address = source_address orig\<rparr>
      in reply\<lparr>ip_checksum := ipv4_checksum reply []\<rparr>)"

definition icmp_message :: "byte list \<Rightarrow> byte list" where
  "icmp_message quote =
     (let c = inet_checksum ([3, 3, 0, 0, 0, 0, 0, 0] @ quote)
      in [3, 3, ucast (drop_bit 8 c), ucast (c AND 0xFF), 0, 0, 0, 0] @ quote)"

lemma icmp_message_rfc1071:
  assumes "even (length quote)" "length quote \<le> 60000"
  shows "rfc1071_ok (icmp_message quote)"
proof -
  let ?c = "inet_checksum ([3, 3, 0, 0, 0, 0, 0, 0] @ quote)"
  let ?s = "words_sum ([3, 3, 0, 0, 0, 0, 0, 0] @ quote)"
  have "words_sum (icmp_message quote) = ?s + unat ?c"
    using split_u16 [of ?c] by (simp add: icmp_message_def Let_def)
  moreover have "unat ?c = 65535 - ones_fold ?s"
    using assms by (intro unat_inet_checksum) simp_all
  ultimately show ?thesis by (simp add: rfc1071_ok_def ones_fold_complement del: words_sum.simps)
qed

lemma reject_built:
  assumes "ipv4_check data = Some (orig, off, len)" "protocol orig = IPV4_PROTOCOL_UDP" "8 \<le> len"
  shows "reject_device_udp_packet cfg data =
    (if off + 36 > device_mtu cfg then (True, [])
     else (True, [TapSend (ipv4_header_bytes (icmp_reply orig (off + 36)) @ icmp_message (take (off + 8) data))]))"
proof -
  note c = ipv4_check_Some [OF assms(1)]
  have "20 \<le> length data" using c by linarith
  moreover have "data ! 9 = IPV4_PROTOCOL_UDP" "version4_ihl4 orig = data ! 0"
    using assms(2) c(1) by (simp_all add: ipv4_header_load_def)
  moreover have "IPV4_GET_VERSION orig = 4"
    using assms(1) by (auto simp: ipv4_check_def Let_def split: if_splits)
  ultimately show ?thesis
    using assms
    by (simp add: reject_device_udp_packet_def icmp_reply_def icmp_message_def Let_def
        IPV4_GET_VERSION_4 ac_simps)
qed

lemma icmp_reply_check:
  assumes "length d + 20 \<le> 65535"
  shows "ipv4_check (ipv4_header_bytes (icmp_reply orig (length d + 20)) @ d) =
    Some (icmp_reply orig (length d + 20), 20, length d)"
  using assms
  by (intro ipv4_check_built)
    (simp_all add: icmp_reply_def Let_def IPV4_GET_VERSION_def IPV4_GET_IHL_def
      IPV4_MAKE_VERSION_IHL_def unat_of_nat_16 del: of_nat_add)

text \<open>What the table holds for a port after one query and after two.\<close>

lemma find_after_query:
  assumes "dns_inv s" "dns_outstanding s port = 0"
  shows "find_connection (insert_connection (dns_opened s) laddr raddr port) port =
    Some \<lparr>local_addr = laddr, remote_addr = raddr, con_port = port, con_count = 1\<rparr>"
proof -
  have "find_connection (dns_opened s) port = None"
  proof (cases "dns_init s")
    case True
    have "find_connection s port = None"
    proof (rule ccontr)
      assume "find_connection s port \<noteq> None"
      then obtain con where c: "connections_tree s port = Some con"
        by (auto simp: find_connection_def)
      then have "1 \<le> con_count con" using assms(1) by (simp add: dns_inv_def)
      then have "0 < con_count con" by simp
      then show False using c True assms(2) by (simp add: dns_outstanding_def)
    qed
    then show ?thesis using True by (simp add: dns_opened_def)
  qed (simp add: dns_opened_def find_connection_def)
  then show ?thesis by (simp add: insert_connection_def find_connection_def)
qed

lemma find_after_second_query:
  "find_connection s port = Some con \<Longrightarrow>
   find_connection (insert_connection s laddr raddr port) port =
     Some (con\<lparr>con_count := con_count con + 1\<rparr>)"
  by (simp add: insert_connection_def find_connection_def)

lemma dns_init_insert [simp]: "dns_init (insert_connection s l r q) = dns_init s"
  by (simp add: insert_connection_def split: option.split)

lemma dns_opened_init [simp]: "dns_init s \<Longrightarrow> dns_opened s = s"
  by (simp add: dns_opened_def)

subsection \<open>Bounds and gathering\<close>

lemma netif_output_gather_Some:
  "netif_output_gather mtu buf len ps = Some (buf', len') \<Longrightarrow> len \<le> mtu \<Longrightarrow> length buf = mtu \<Longrightarrow>
   len' = len + length (concat ps) \<and> len' \<le> mtu \<and> length buf' = mtu \<and>
   take len' buf' = take len buf @ concat ps"
proof (induction ps arbitrary: buf len)
  case (Cons p ps)
  then have l: "len + length p \<le> mtu"
    and g: "netif_output_gather mtu (mem_write buf len p) (len + length p) ps = Some (buf', len')"
    by (auto split: if_splits)
  have "take (len + length p) (mem_write buf len p) = take len buf @ p"
    using l Cons.prems by (simp add: mem_write_def)
  moreover have "len' = (len + length p) + length (concat ps) \<and> len' \<le> mtu \<and> length buf' = mtu \<and>
      take len' buf' = take (len + length p) (mem_write buf len p) @ concat ps"
    using Cons.prems l by (intro Cons.IH [OF g]) simp_all
  ultimately show ?case by auto
qed simp

lemma netif_output_gather_None:
  "len \<le> mtu \<Longrightarrow>
   netif_output_gather mtu buf len ps = None \<longleftrightarrow> mtu < len + length (concat ps)"
proof (induction ps arbitrary: buf len)
  case (Cons p ps)
  show ?case
  proof (cases "len + length p \<le> mtu")
    case True
    then show ?thesis using Cons.IH [of "len + length p"] by (auto simp: add.assoc)
  qed auto
qed simp

fun sent_packets :: "device_action list \<Rightarrow> byte list list" where
  "sent_packets [] = []"
| "sent_packets (TapSend p # r) = p # sent_packets r"
| "sent_packets (_ # r) = sent_packets r"

lemma sent_packets_append [simp]: "sent_packets (a @ b) = sent_packets a @ sent_packets b"
  by (induction a rule: sent_packets.induct) auto

lemma process_dns_acts:
  assumes "parse_udp4 data = Some (h, u, p)" "process_device_dns_packet cfg s data = Some (s', acts)"
  shows "\<exists>src sport dst dport. acts = [TapSend (dns_out h u p src sport dst dport)]"
proof -
  have c: "opt_dnsgw cfg" "dest_port u = hton16 53 \<or> source_port u = dnsgw_port cfg"
    using process_dns_other [OF assms(2)] assms(1) by auto
  show ?thesis
  proof (cases "dest_port u = hton16 53")
    case True
    then show ?thesis using process_dns_query [OF c(1) assms(1), of s] assms(2) by auto
  next
    case False
    then show ?thesis
      using process_dns_reply [OF c(1) assms(1) False, of s] assms(2) c(2)
      by (auto split: option.splits)
  qed
qed

lemma process_dns_bound:
  assumes "process_device_dns_packet cfg s data = Some (s', acts)" "out \<in> set (sent_packets acts)"
  shows "length out \<le> length data"
proof -
  obtain h u p where hup: "parse_udp4 data = Some (h, u, p)"
    using process_dns_other [OF assms(1)] .
  have "28 + length p \<le> length data"
    using parse_udp4_Some(2,4,5) [OF hup] by linarith
  then show ?thesis using process_dns_acts [OF hup assms(1)] assms(2) by auto
qed

lemma reject_bound:
  assumes "out \<in> set (sent_packets (snd (reject_device_udp_packet cfg data)))"
  shows "length out \<le> device_mtu cfg"
proof -
  obtain orig off len where c: "ipv4_check data = Some (orig, off, len)" "8 \<le> len"
    "data ! 9 = IPV4_PROTOCOL_UDP"
    using assms by (auto simp: reject_device_udp_packet_def split: if_splits option.splits)
  note b = ipv4_check_Some [OF c(1)]
  have "protocol orig = IPV4_PROTOCOL_UDP" using b(1) c(3) by (simp add: ipv4_header_load_def)
  note r = reject_built [OF c(1) this c(2), of cfg]
  have "off + 8 \<le> length data" using b c(2) by linarith
  then show ?thesis using assms unfolding r
    by (auto simp: icmp_message_def Let_def min_absorb2 split: if_splits)
qed

lemma process_udp_sends:
  "sent_packets (snd (process_device_udp_packet cfg data)) =
   (if opt_udpgw cfg then [] else sent_packets (snd (reject_device_udp_packet cfg data)))"
  by (auto simp: process_device_udp_packet_def Let_def split: option.splits)

lemma netif_input_sends: "sent_packets (snd (netif_input_func cfg f g data)) = []"
  by (simp add: netif_input_func_def)

subsection \<open>Properties\<close>

text \<open>Every packet that reading the device makes the program write back to the device (DNS
  packets that are rewritten, ICMP errors) fits the device MTU.\<close>

theorem device_read_sends_fit:
  assumes "length data \<le> device_mtu cfg"
    and "device_read_handler_send cfg pbuf_ok ip_input ip6_input s data = (s', acts)"
    and "out \<in> set (sent_packets acts)"
  shows "length out \<le> device_mtu cfg"
proof (cases "process_device_dns_packet cfg s data")
  case None
  then have "out \<in> set (sent_packets (snd (process_device_udp_packet cfg data)))"
    using assms(2,3) netif_input_sends [of cfg ip_input ip6_input data]
    by (auto simp: device_read_handler_send_def Let_def split: prod.splits if_splits)
  then show ?thesis
    using reject_bound by (simp add: process_udp_sends split: if_splits)
next
  case (Some r)
  then have "process_device_dns_packet cfg s data = Some (s', acts)"
    using assms(2) by (simp add: device_read_handler_send_def split: prod.splits)
  then show ?thesis using process_dns_bound assms by fastforce
qed

text \<open>A datagram the UDP gateway delivers for IPv4 addresses becomes one packet which the
  program's own parser, with both of its checksum tests, reads back to the same two addresses and
  payload.\<close>

theorem udpgw_packet_roundtrip4:
  assumes "udpgw_client_handler_received cfg (BAddrIPv4 lip lport) (BAddrIPv4 rip rport) data \<noteq> []"
    and "opt_udpgw cfg'" "int (length data) \<le> udp_mtu cfg'"
  shows "\<exists>pkt is_dns. length pkt \<le> device_mtu cfg \<and>
    udpgw_client_handler_received cfg (BAddrIPv4 lip lport) (BAddrIPv4 rip rport) data = [TapSend pkt] \<and>
    process_device_udp_packet cfg' pkt =
      (True, [UdpgwSubmit (BAddrIPv4 rip rport) (BAddrIPv4 lip lport) is_dns data])"
proof -
  let ?pkt = "ipv4_header_bytes (udpgw_iph lip rip data)
            @ udp_header_bytes (udpgw_udph lip lport rip rport data) @ data"
  have l: "length data \<le> 65507" "length data + 28 \<le> device_mtu cfg"
    using assms(1) unfolding udpgw_received4 by (auto split: if_splits)
  note p = parse_udp4_built [OF udpgw_packet_ok [OF l(1), of lip rip lport rport]]
  have "process_device_udp_packet cfg' ?pkt =
      (True, [UdpgwSubmit (BAddrIPv4 rip rport) (BAddrIPv4 lip lport)
        (opt_transparent_dns cfg' \<and> lip = netif_ipaddr cfg' \<and> lport = hton16 53) data])"
    using assms(2,3) p parse_udp4_device(1) [OF p]
    by (simp add: process_device_udp_packet_def udpgw_iph_def udpgw_udph_def Let_def)
  then show ?thesis using l unfolding udpgw_received4 by auto
qed

text \<open>The same round trip for IPv6 addresses.\<close>

theorem udpgw_packet_roundtrip6:
  assumes "length lip = 16" "length rip = 16"
    and "udpgw_client_handler_received cfg (BAddrIPv6 lip lport) (BAddrIPv6 rip rport) data \<noteq> []"
    and "opt_udpgw cfg'" "opt_netif_ip6addr cfg'" "int (length data) \<le> udp_mtu cfg'"
  shows "\<exists>pkt. length pkt \<le> device_mtu cfg \<and>
    udpgw_client_handler_received cfg (BAddrIPv6 lip lport) (BAddrIPv6 rip rport) data = [TapSend pkt] \<and>
    process_device_udp_packet cfg' pkt =
      (True, [UdpgwSubmit (BAddrIPv6 rip rport) (BAddrIPv6 lip lport) False data])"
proof -
  let ?pkt = "ipv6_header_bytes (udpgw_ip6h lip rip data)
            @ udp_header_bytes (udpgw_udp6h lip lport rip rport data) @ data"
  have l: "length data \<le> 65527" "length data + 48 \<le> device_mtu cfg"
    using assms(3) unfolding udpgw_received6 [OF assms(1,2)] by (auto split: if_splits)
  note p = parse_udp6_built [OF assms(1,2) l(1), of lport rport]
  have v: "ip_version ?pkt = 6"
    by (simp add: ip_version_ipv6_header udpgw_ip6h_def drop_bit_eq_div)
  have "process_device_udp_packet cfg' ?pkt =
      (True, [UdpgwSubmit (BAddrIPv6 rip rport) (BAddrIPv6 lip lport) False data])"
    using assms p v
    by (simp add: process_device_udp_packet_def udpgw_ip6h_def udpgw_udp6h_def Let_def)
  moreover have "length ?pkt = length data + 48"
    using assms by (simp add: udpgw_ip6h_def)
  ultimately show ?thesis
    using l assms(3) unfolding udpgw_received6 [OF assms(1,2)] by (auto split: if_splits)
qed

text \<open>The IP header and the UDP datagram of the packet built for IPv4 pass the receiver's test of
  RFC 1071, the latter over the pseudo header of RFC 768.\<close>

theorem udpgw_packet_rfc1071:
  assumes "udpgw_client_handler_received cfg (BAddrIPv4 lip lport) (BAddrIPv4 rip rport) data = [TapSend pkt]"
  shows "rfc1071_ok (take 20 pkt) \<and> rfc1071_ok (pseudo_header rip lip (8 + length data) @ drop 20 pkt)"
proof -
  let ?h = "udpgw_iph lip rip data" and ?u = "udpgw_udph lip lport rip rport data"
  have l: "length data \<le> 65507"
    and pkt: "pkt = ipv4_header_bytes ?h @ udp_header_bytes ?u @ data"
    using assms unfolding udpgw_received4 by (auto split: if_splits)
  note ok = udpgw_packet_ok [OF l, of lip rip lport rport, unfolded udp4_ok_def]
  have a: "source_address ?h = rip" "destination_address ?h = lip"
    by (simp_all add: udpgw_iph_def Let_def)
  have "rfc1071_ok (ipv4_header_bytes ?h)"
    using ok by (intro ipv4_header_rfc1071) simp
  moreover have "rfc1071_ok (pseudo_header rip lip (8 + length data) @ udp_header_bytes ?u @ data)"
    using ok l a by (intro udp_datagram_rfc1071) simp_all
  ultimately show ?thesis using pkt by simp
qed

text \<open>A valid IPv4 UDP packet that is rejected is answered, when the device MTU allows it, with a
  packet which is a well-formed IPv4 packet with exchanged addresses, protocol ICMP and a message
  that passes the RFC 1071 test, says port unreachable and quotes the IP header and 8 more bytes.\<close>

theorem icmp_reject_valid:
  assumes "ipv4_check data = Some (orig, off, len)" "protocol orig = IPV4_PROTOCOL_UDP" "8 \<le> len"
    and "off + 36 \<le> device_mtu cfg"
  shows "\<exists>hdr msg. reject_device_udp_packet cfg data = (True, [TapSend (ipv4_header_bytes hdr @ msg)]) \<and>
    ipv4_check (ipv4_header_bytes hdr @ msg) = Some (hdr, 20, length msg) \<and>
    protocol hdr = 1 \<and> source_address hdr = destination_address orig \<and>
    destination_address hdr = source_address orig \<and>
    rfc1071_ok msg \<and> take 2 msg = [3, 3] \<and> drop 8 msg = take (off + 8) data"
proof -
  note c = ipv4_check_Some [OF assms(1)]
  let ?q = "take (off + 8) data" and ?h = "icmp_reply orig (off + 36)"
  have q: "length ?q = off + 8" "even (length ?q)" "length ?q \<le> 68" using c assms(3) by auto
  then have m: "length (icmp_message ?q) + 20 = off + 36" by (simp add: icmp_message_def Let_def)
  have "ipv4_check (ipv4_header_bytes ?h @ icmp_message ?q) = Some (?h, 20, length (icmp_message ?q))"
    unfolding m [symmetric] using m c by (intro icmp_reply_check) simp
  moreover have "rfc1071_ok (icmp_message ?q)" using q by (intro icmp_message_rfc1071) simp_all
  moreover have "take 2 (icmp_message ?q) = [3, 3]" "drop 8 (icmp_message ?q) = ?q"
    by (simp_all add: icmp_message_def Let_def)
  moreover have "protocol ?h = 1" "source_address ?h = destination_address orig"
    "destination_address ?h = source_address orig"
    by (simp_all add: icmp_reply_def Let_def)
  ultimately show ?thesis
    using reject_built [OF assms(1-3), of cfg] assms(4) by auto
qed

text \<open>LwIP's output, however it is chained, reaches the device as one packet with the
  concatenated bytes exactly when it fits the MTU and the program is not quitting.\<close>

theorem netif_output_sends_chain:
  assumes "length device_write_buf = device_mtu cfg" "chain \<noteq> []"
  shows "common_netif_output cfg quitting device_write_buf chain =
    (if \<not> quitting \<and> length (concat chain) \<le> device_mtu cfg then [TapSend (concat chain)] else [])"
proof (cases "tl chain = []")
  case True
  then obtain p where "chain = [p]" using assms(2) by (cases chain) auto
  then show ?thesis by (simp add: common_netif_output_def)
next
  case False
  show ?thesis
  proof (cases "netif_output_gather (device_mtu cfg) device_write_buf 0 chain")
    case None
    then show ?thesis
      using False netif_output_gather_None [of 0 "device_mtu cfg" device_write_buf chain]
      by (simp add: common_netif_output_def)
  next
    case (Some r)
    obtain buf len where r: "r = (buf, len)" by (cases r)
    note g = netif_output_gather_Some [OF Some [unfolded r], simplified, OF assms(1)]
    then show ?thesis
      using False Some r by (auto simp: common_netif_output_def)
  qed
qed

text \<open>No IPv4 UDP datagram whose checksum field is \<open>0xFFFF\<close> is accepted from the device, by either
  handler, although RFC 768 prescribes that value where the computed checksum is zero.\<close>

theorem udp_checksum_ffff_dropped:
  assumes "ipv4_check data = Some (h, off, len)" "udp_check (mem_read data off len) = Some (u, off', len')"
    and "udp_check_field u = 0xFFFF"
  shows "process_device_dns_packet cfg s data = None \<and>
    (opt_udpgw cfg \<longrightarrow> ip_version data = 4 \<longrightarrow> process_device_udp_packet cfg data = (False, []))"
proof -
  have "parse_udp4 data = None"
  proof (rule ccontr)
    assume "parse_udp4 data \<noteq> None"
    then obtain h1 u1 p where p: "parse_udp4 data = Some (h1, u1, p)" by auto
    obtain off1 len1 u2 where "ipv4_check data = Some (h1, off1, len1)"
      "udp_check (mem_read data off1 len1) = Some (u2, 8, length p)"
      "udp_check_field u2 = udp_checksum u1 p (source_address h1) (destination_address h1)"
      using parse_udp4_SomeE [OF p] by metis
    moreover have "length p \<le> 65527"
      using parse_udp4_Some(6) [OF p] unat_u16_lt [of "ntoh16 (udp_length u1)"] by simp
    ultimately show False using assms udp_checksum_not_ffff [of p] by simp
  qed
  then show ?thesis
    by (simp add: process_device_dns_packet_def process_device_udp_packet_def Let_def)
qed

text \<open>A reply from the DNS gateway is rewritten exactly when a query from its destination port is
  outstanding, and then settles one query of that port and of no other.\<close>

theorem dns_reply_settles_query:
  assumes "dns_inv s" "opt_dnsgw cfg" "parse_udp4 data = Some (h, u, p)"
    and "dest_port u \<noteq> hton16 53" "source_port u = dnsgw_port cfg"
  shows "(process_device_dns_packet cfg s data = None) = (dns_outstanding s (dest_port u) = 0) \<and>
    (\<forall>s' acts. process_device_dns_packet cfg s data = Some (s', acts) \<longrightarrow> dns_inv s' \<and>
      (\<forall>q. dns_outstanding s' q = dns_outstanding s q - (if q = dest_port u then 1 else 0)))"
proof (cases "if dns_init s then find_connection s (dest_port u) else None")
  case None
  then show ?thesis
    using process_dns_reply [OF assms(2-5), of s]
    by (auto simp: dns_outstanding_def find_connection_def split: if_splits)
next
  case (Some con)
  then have i: "dns_init s" and f: "find_connection s (dest_port u) = Some con"
    by (simp_all split: if_splits)
  then have "1 \<le> con_count con" using assms(1) by (simp add: dns_inv_def find_connection_def)
  then have "0 < con_count con" by simp
  then have "dns_outstanding s (dest_port u) \<noteq> 0"
    using i f by (simp add: dns_outstanding_def find_connection_def)
  then show ?thesis
    using process_dns_reply [OF assms(2-5), of s] Some dns_inv_remove [OF assms(1) i f]
      dns_outstanding_remove [OF assms(1) i f] by auto
qed

text \<open>A query to port 53 is always taken: it opens one outstanding query of its source port, keeps
  the table's invariant and leaves for the gateway with the device's address as its source.\<close>

theorem dns_query_opens:
  assumes "dns_inv s" "opt_dnsgw cfg" "parse_udp4 data = Some (h, u, p)" "dest_port u = hton16 53"
  shows "\<exists>s' out. process_device_dns_packet cfg s data = Some (s', [TapSend out]) \<and> dns_inv s' \<and>
    (\<forall>q. dns_outstanding s' q = dns_outstanding s q + (if q = source_port u then 1 else 0)) \<and>
    (IPV4_GET_IHL h = 5 \<and> unat (ntoh16 (total_length h)) = 28 + length p \<longrightarrow>
      (\<exists>h' u'. parse_udp4 out = Some (h', u', p) \<and>
        source_address h' = netif_ipaddr cfg \<and> destination_address h' = dnsgw_ip cfg \<and>
        source_port u' = source_port u \<and> dest_port u' = dnsgw_port cfg))"
proof -
  note o = dns_opened_facts [OF assms(1)]
  let ?s = "insert_connection (dns_opened s) (BAddrIPv4 (source_address h) (source_port u))
    (BAddrIPv4 (destination_address h) (hton16 53)) (source_port u)"
  have "dns_inv ?s" using dns_inv_insert [OF o(1,2)] by simp
  moreover have "\<forall>q. dns_outstanding ?s q = dns_outstanding s q + (if q = source_port u then 1 else 0)"
    using dns_outstanding_insert [OF o(1,2)] o(3) by simp
  moreover have "IPV4_GET_IHL h = 5 \<and> unat (ntoh16 (total_length h)) = 28 + length p \<longrightarrow>
      (\<exists>h' u'. parse_udp4 (dns_out h u p (netif_ipaddr cfg) (source_port u) (dnsgw_ip cfg) (dnsgw_port cfg))
          = Some (h', u', p) \<and>
        source_address h' = netif_ipaddr cfg \<and> destination_address h' = dnsgw_ip cfg \<and>
        source_port u' = source_port u \<and> dest_port u' = dnsgw_port cfg)"
    using dns_out_ok [OF assms(3)] by (simp add: dns_iph_def Let_def)
  ultimately show ?thesis using process_dns_query [OF assms(2-4), of s] by blast
qed

text \<open>The packet the DNS gateway rewriting emits is a well-formed IPv4 packet exactly when the
  packet it came from had no IP options and no bytes after its UDP datagram: the copied header keeps
  its header length and total length although only 20 bytes of it are copied.\<close>

theorem dns_rewrite_wellformed_iff:
  assumes "parse_udp4 data = Some (h, u, p)"
    and "process_device_dns_packet cfg s data = Some (s', [TapSend out])"
  shows "(ipv4_check out \<noteq> None) =
    (IPV4_GET_IHL h = 5 \<and> unat (ntoh16 (total_length h)) = 28 + length p)"
proof -
  obtain src sport dst dport where out: "out = dns_out h u p src sport dst dport"
    using process_dns_acts [OF assms] by auto
  show ?thesis
  proof (cases "IPV4_GET_IHL h = 5 \<and> unat (ntoh16 (total_length h)) = 28 + length p")
    case True
    then show ?thesis
      using dns_out_ok [OF assms(1)] parse_udp4_SomeE out by (metis option.distinct(1))
  next
    case False
    then show ?thesis using dns_out_too_short [OF assms(1)] out by auto
  qed
qed


text \<open>The table remembers only the first of two outstanding queries that share a source port: the
  reply that follows goes to the address of the first query and claims the server of the first query,
  whatever the addresses of the second.\<close>

theorem dns_shared_port_first_wins:
  assumes "dns_inv s" "opt_dnsgw cfg"
    and "parse_udp4 query = Some (h, u, p)" "dest_port u = hton16 53"
    and "dns_outstanding s (source_port u) = 0"
    and "parse_udp4 query' = Some (h', u', p')" "dest_port u' = hton16 53" "source_port u' = source_port u"
    and "parse_udp4 reply = Some (h2, u2, p2)"
    and "IPV4_GET_IHL h2 = 5" "unat (ntoh16 (total_length h2)) = 28 + length p2"
    and "source_port u2 = dnsgw_port cfg" "dest_port u2 = source_port u" "dest_port u2 \<noteq> hton16 53"
  shows "\<exists>s1 acts1 s2 acts2 s3 out h3 u3. process_device_dns_packet cfg s query = Some (s1, acts1) \<and>
    process_device_dns_packet cfg s1 query' = Some (s2, acts2) \<and>
    process_device_dns_packet cfg s2 reply = Some (s3, [TapSend out]) \<and>
    parse_udp4 out = Some (h3, u3, p2) \<and>
    source_address h3 = destination_address h \<and> destination_address h3 = source_address h"
proof -
  let ?l = "BAddrIPv4 (source_address h) (source_port u)"
  let ?r = "BAddrIPv4 (destination_address h) (hton16 53)"
  let ?s1 = "insert_connection (dns_opened s) ?l ?r (source_port u)"
  let ?l' = "BAddrIPv4 (source_address h') (source_port u')"
  let ?r' = "BAddrIPv4 (destination_address h') (hton16 53)"
  let ?s2 = "insert_connection ?s1 ?l' ?r' (source_port u')"
  let ?con = "\<lparr>local_addr = ?l, remote_addr = ?r, con_port = source_port u, con_count = 2\<rparr>"
  have i: "dns_init ?s1" using dns_opened_facts(2) [OF assms(1)] by simp
  have f: "find_connection ?s2 (dest_port u2) = Some ?con"
    using find_after_query [OF assms(1,5), of ?l ?r] assms(8,13) by (simp add: find_after_second_query)
  have "process_device_dns_packet cfg ?s2 reply = Some (remove_connection ?s2 ?con,
      [TapSend (dns_out h2 u2 p2 (destination_address h) (hton16 53) (source_address h) (dest_port u2))])"
    using process_dns_reply [OF assms(2,9,14,12), of ?s2] f i by simp
  moreover note process_dns_query [OF assms(2-4), of s]
    process_dns_query [OF assms(2,6,7), of ?s1, unfolded dns_opened_init [OF i]]
  moreover note dns_out_ok [OF assms(9-11), of "destination_address h" "hton16 53" "source_address h" "dest_port u2"]
  ultimately show ?thesis by (fastforce simp: dns_iph_def Let_def)
qed

subsection \<open>The properties at concrete packets\<close>

definition sample_cfg :: tun_config where
  "sample_cfg = \<lparr>opt_dnsgw = True, dnsgw_ip = 3, dnsgw_port = hton16 8153, opt_udpgw = True,
     opt_transparent_dns = False, opt_netif_ip6addr = True, netif_ipaddr = 4, udp_mtu = 1472,
     device_mtu = 1500\<rparr>"

lemma sample_cfg_simps [simp]:
  "opt_dnsgw sample_cfg" "dnsgw_ip sample_cfg = 3" "dnsgw_port sample_cfg = hton16 8153"
  "opt_udpgw sample_cfg" "opt_netif_ip6addr sample_cfg" "netif_ipaddr sample_cfg = 4"
  "udp_mtu sample_cfg = 1472" "device_mtu sample_cfg = 1500"
  by (simp_all add: sample_cfg_def)

definition sample_udp4 :: "u32 \<Rightarrow> u16 \<Rightarrow> u32 \<Rightarrow> u16 \<Rightarrow> byte list \<Rightarrow> byte list" where
  "sample_udp4 src sport dst dport data =
     ipv4_header_bytes (udpgw_iph dst src data) @ udp_header_bytes (udpgw_udph dst dport src sport data) @ data"

lemma parse_sample:
  "length data \<le> 65507 \<Longrightarrow> parse_udp4 (sample_udp4 src sport dst dport data) =
    Some (udpgw_iph dst src data, (udpgw_udph dst dport src sport data)\<lparr>udp_check_field := 0\<rparr>, data)"
  unfolding sample_udp4_def by (rule parse_udp4_built) (rule udpgw_packet_ok)

lemma check_sample:
  "length data \<le> 65507 \<Longrightarrow> ipv4_check (sample_udp4 src sport dst dport data) =
    Some (udpgw_iph dst src data, 20, length data + 8)"
  unfolding sample_udp4_def
  using ipv4_check_built [of "udpgw_iph dst src data" "udp_header_bytes (udpgw_udph dst dport src sport data) @ data"]
    udpgw_packet_ok [of data dst src dport sport]
  by (simp add: udp4_ok_def)

lemma sample_fields [simp]:
  "source_address (udpgw_iph dst src data) = src" "destination_address (udpgw_iph dst src data) = dst"
  "protocol (udpgw_iph dst src data) = 17" "IPV4_GET_IHL (udpgw_iph dst src data) = 5"
  "source_port (udpgw_udph dst dport src sport data) = sport"
  "dest_port (udpgw_udph dst dport src sport data) = dport"
  by (simp_all add: udpgw_iph_def udpgw_udph_def Let_def IPV4_MAKE_VERSION_IHL_def IPV4_GET_IHL_def)

lemma sample_total [simp]:
  "length data \<le> 65507 \<Longrightarrow> unat (ntoh16 (total_length (udpgw_iph dst src data))) = 28 + length data"
  by (simp add: udpgw_iph_def Let_def unat_of_nat_16_28 del: of_nat_add)

lemma dns_outstanding0 [simp]: "dns_outstanding dns_state0 q = 0"
  by (simp add: dns_outstanding_def dns_state0_def)

theorem device_read_sends_fit_witness:
  "\<exists>s' out. device_read_handler_send sample_cfg True (\<lambda>_. True) (\<lambda>_. True) dns_state0
      (sample_udp4 1 (hton16 4000) 2 (hton16 53) [9]) = (s', [TapSend out]) \<and> length out \<le> 1500"
proof -
  let ?q = "sample_udp4 1 (hton16 4000) 2 (hton16 53) [9]"
  have l: "length ?q \<le> device_mtu sample_cfg" by (simp add: sample_udp4_def)
  obtain s' out where r: "device_read_handler_send sample_cfg True (\<lambda>_. True) (\<lambda>_. True) dns_state0 ?q =
      (s', [TapSend out])"
    using process_dns_query [of sample_cfg ?q "udpgw_iph 2 1 [9]" _ "[9]" dns_state0]
    by (simp add: device_read_handler_send_def parse_sample)
  then show ?thesis using device_read_sends_fit [OF l r, of out] by simp
qed

theorem udpgw_packet_roundtrip4_witness:
  "\<exists>pkt is_dns. udpgw_client_handler_received sample_cfg (BAddrIPv4 1 2) (BAddrIPv4 3 4) [5, 6, 7] = [TapSend pkt] \<and>
    process_device_udp_packet sample_cfg pkt =
      (True, [UdpgwSubmit (BAddrIPv4 3 4) (BAddrIPv4 1 2) is_dns [5, 6, 7]])"
proof -
  have "udpgw_client_handler_received sample_cfg (BAddrIPv4 1 2) (BAddrIPv4 3 4) [5, 6, 7] \<noteq> []"
    by (simp only: udpgw_received4) simp
  from udpgw_packet_roundtrip4 [OF this, of sample_cfg] show ?thesis by fastforce
qed

theorem udpgw_packet_roundtrip6_witness:
  "\<exists>pkt. udpgw_client_handler_received sample_cfg (BAddrIPv6 (replicate 16 1) 2) (BAddrIPv6 (replicate 16 3) 4) [5]
      = [TapSend pkt] \<and>
    process_device_udp_packet sample_cfg pkt =
      (True, [UdpgwSubmit (BAddrIPv6 (replicate 16 3) 4) (BAddrIPv6 (replicate 16 1) 2) False [5]])"
proof -
  have "udpgw_client_handler_received sample_cfg (BAddrIPv6 (replicate 16 1) 2)
      (BAddrIPv6 (replicate 16 3) 4) [5] \<noteq> []"
    by (subst udpgw_received6) simp_all
  from udpgw_packet_roundtrip6 [OF _ _ this, of sample_cfg] show ?thesis by fastforce
qed

theorem udpgw_packet_rfc1071_witness:
  "rfc1071_ok (take 20 (sample_udp4 3 4 1 2 [5])) \<and>
   rfc1071_ok (pseudo_header 3 1 9 @ drop 20 (sample_udp4 3 4 1 2 [5]))"
proof -
  have "udpgw_client_handler_received sample_cfg (BAddrIPv4 1 2) (BAddrIPv4 3 4) [5] =
      [TapSend (sample_udp4 3 4 1 2 [5])]"
    unfolding sample_udp4_def by (simp only: udpgw_received4) simp
  from udpgw_packet_rfc1071 [OF this] show ?thesis by simp
qed

theorem icmp_reject_valid_witness:
  "\<exists>hdr msg. reject_device_udp_packet sample_cfg (sample_udp4 1 2 3 4 [5]) =
      (True, [TapSend (ipv4_header_bytes hdr @ msg)]) \<and> rfc1071_ok msg"
  using icmp_reject_valid [OF check_sample [of "[5]" 1 2 3 4], of sample_cfg] by fastforce

theorem netif_output_sends_chain_witness:
  "common_netif_output sample_cfg False (replicate 1500 0) [[1, 2], [3]] = [TapSend [1, 2, 3]]"
  using netif_output_sends_chain [of "replicate 1500 0" sample_cfg "[[1, 2], [3]]" False] by simp

theorem dns_reply_settles_query_witness:
  "process_device_dns_packet sample_cfg dns_state0 (sample_udp4 3 (hton16 8153) 4 (hton16 4000) [7]) = None"
  using dns_reply_settles_query [OF dns_inv0 sample_cfg_simps(1) parse_sample [of "[7]" 3 "hton16 8153" 4 "hton16 4000"]]
  by simp

theorem dns_query_opens_witness:
  "\<exists>s' out. process_device_dns_packet sample_cfg dns_state0 (sample_udp4 1 (hton16 4000) 2 (hton16 53) [9]) =
      Some (s', [TapSend out]) \<and> dns_outstanding s' (hton16 4000) = 1"
  using dns_query_opens [OF dns_inv0 sample_cfg_simps(1) parse_sample [of "[9]" 1 "hton16 4000" 2 "hton16 53"]]
  by fastforce

theorem dns_rewrite_wellformed_iff_witness:
  "\<exists>s' out. process_device_dns_packet sample_cfg dns_state0 (sample_udp4 1 (hton16 4000) 2 (hton16 53) [9]) =
      Some (s', [TapSend out]) \<and> ipv4_check out \<noteq> None"
proof -
  note p = parse_sample [of "[9]" 1 "hton16 4000" 2 "hton16 53", simplified]
  obtain s' out where r: "process_device_dns_packet sample_cfg dns_state0
      (sample_udp4 1 (hton16 4000) 2 (hton16 53) [9]) = Some (s', [TapSend out])"
    using process_dns_query [OF sample_cfg_simps(1) p, of dns_state0] by simp
  then show ?thesis using dns_rewrite_wellformed_iff [OF p r] by simp
qed


theorem dns_shared_port_first_wins_witness:
  "\<exists>s1 acts1 s2 acts2 s3 out h3 u3. process_device_dns_packet sample_cfg dns_state0
      (sample_udp4 1 (hton16 4000) 2 (hton16 53) [9]) = Some (s1, acts1) \<and>
    process_device_dns_packet sample_cfg s1 (sample_udp4 5 (hton16 4000) 6 (hton16 53) [9]) = Some (s2, acts2) \<and>
    process_device_dns_packet sample_cfg s2 (sample_udp4 3 (hton16 8153) 4 (hton16 4000) [7]) =
      Some (s3, [TapSend out]) \<and>
    parse_udp4 out = Some (h3, u3, [7]) \<and> source_address h3 = 2 \<and> destination_address h3 = 1"
  using dns_shared_port_first_wins [OF dns_inv0 sample_cfg_simps(1)
      parse_sample [of "[9]" 1 "hton16 4000" 2 "hton16 53"] _ _
      parse_sample [of "[9]" 5 "hton16 4000" 6 "hton16 53"] _ _
      parse_sample [of "[7]" 3 "hton16 8153" 4 "hton16 4000"]]
  by fastforce

text \<open>A datagram that is correct by RFC 768 with the checksum field \<open>0xFFFF\<close>.\<close>

definition ffff_datagram :: "byte list" where
  "ffff_datagram =
     (let p = badvpn_write_be16 0x00; iph = udpgw_iph 0 0 p in
      ipv4_header_bytes iph
      @ udp_header_bytes \<lparr>source_port = hton16 0xFFDA, dest_port = 0, udp_length = hton16 10, udp_check_field = 0xFFFF\<rparr>
      @ p)"

theorem udp_checksum_ffff_dropped_witness:
  "rfc1071_ok (pseudo_header 0 0 10 @ drop 20 ffff_datagram) \<and>
   process_device_udp_packet sample_cfg ffff_datagram = (False, [])"
proof -
  let ?p = "badvpn_write_be16 0"
  let ?u = "\<lparr>source_port = hton16 0xFFDA, dest_port = 0, udp_length = hton16 10, udp_check_field = 0xFFFF\<rparr>"
  let ?h = "udpgw_iph 0 0 ?p"
  have d: "ffff_datagram = ipv4_header_bytes ?h @ udp_header_bytes ?u @ ?p"
    by (simp add: ffff_datagram_def Let_def)
  have c: "ipv4_check ffff_datagram = Some (?h, 20, 10)"
    unfolding d using ipv4_check_built [of ?h "udp_header_bytes ?u @ ?p"] udpgw_packet_ok [of ?p 0 0 0 0]
    by (simp add: udp4_ok_def)
  have u: "udp_check (mem_read ffff_datagram 20 10) = Some (?u, 8, 2)"
    unfolding d by (simp add: mem_read_skip udp_check_built)
  have v: "ip_version ffff_datagram = 4"
    unfolding d by (simp add: ip_version_ipv4_header udpgw_iph_def Let_def IPV4_MAKE_VERSION_IHL_def drop_bit_eq_div)
  have "words_sum (pseudo_header 0 0 10 @ drop 20 ffff_datagram) = 131070"
    unfolding d
    by (simp add: pseudo_header_def words_sum_append words_sum_le16 words_sum_be16 udp_header_bytes_def
        badvpn_write_le32_def ntoh16_def)
  then have "rfc1071_ok (pseudo_header 0 0 10 @ drop 20 ffff_datagram)"
    by (simp add: rfc1071_ok_def ones_fold_def)
  moreover have "process_device_udp_packet sample_cfg ffff_datagram = (False, [])"
    using udp_checksum_ffff_dropped [OF c u, of sample_cfg dns_state0] v by simp
  ultimately show ?thesis by simp
qed

end
