(* ===== verification/TcpClient.thy ===== *)
theory TcpClient
  imports Prelude
begin

text \<open>
  The TCP side of tun2socks/tun2socks.c: one \<open>struct tcp_client\<close> relays between a TCP connection lwIP
  terminates and a SOCKS connection. The model has the fields of the structure, the operations it has
  pending at the SOCKS interfaces, which callbacks lwIP holds, and a log of the calls made to lwIP and
  the SOCKS client, in which the environment also records the data it delivers and takes
  (\<open>ClientData\<close>, \<open>SocksTook\<close>, \<open>SocksData\<close>). The answers of lwIP (the send buffer space, the results of \<open>tcp_write\<close>,
  \<open>tcp_output\<close> and \<open>tcp_close\<close>) are arguments; memory allocation is not part of these handlers.
\<close>

datatype lwip_err = ERR_OK | ERR_MEM | ERR_ABRT | ERR_OTHER

datatype tc_action =
    TcpClearCallbacks
  | TcpClose
  | TcpAbort
  | TcpRecvNull
  | TcpRecved nat
  | TcpWrite "byte list"
  | TcpOutput
  | SocksSend "byte list"
  | SocksRecv
  | SocksFree
  | PbufFree
  | Dealloc
  | ClientData "byte list"
  | SocksTook "byte list"
  | SocksData "byte list"

definition TCP_WND :: nat where "TCP_WND = 5840"
definition CLIENT_SOCKS_RECV_BUF_SIZE :: nat where "CLIENT_SOCKS_RECV_BUF_SIZE = 8192"

text \<open>\<open>tc_buf\<close> is the used part of \<open>buf\<close>, so \<open>buf_used\<close> is its length.\<close>

record tcp_client =
  tc_client_closed :: bool
  tc_buf :: "byte list"
  tc_socks_up :: bool
  tc_socks_closed :: bool
  tc_recv_buf :: "byte list"
  tc_recv_used :: int
  tc_recv_sent :: nat
  tc_recv_waiting :: bool
  tc_recv_tcp_pending :: nat
  tc_sending :: bool
  tc_receiving :: bool
  tc_recv_cb :: bool
  tc_sent_cb :: bool
  tc_freed :: bool
  tc_log :: "tc_action list"

record lwip_answers =
  lw_close :: lwip_err
  lw_sndbuf :: "nat \<Rightarrow> nat"
  lw_write :: "nat \<Rightarrow> lwip_err"
  lw_output :: lwip_err

definition log_action :: "tc_action \<Rightarrow> tcp_client \<Rightarrow> tcp_client" where
  "log_action a c = c\<lparr>tc_log := tc_log c @ [a]\<rparr>"

subsection \<open>Accepting, closing and freeing\<close>

text \<open>
  The part of \<open>listener_accept_func\<close> that sets up the structure. The receive fields are not read before
  \<open>BSOCKSCLIENT_EVENT_UP\<close> sets them; until then the model gives them the values set there.
\<close>

definition tcp_client_init :: tcp_client where
  "tcp_client_init = \<lparr>tc_client_closed = False, tc_buf = [], tc_socks_up = False,
     tc_socks_closed = False, tc_recv_buf = [], tc_recv_used = -1, tc_recv_sent = 0,
     tc_recv_waiting = False, tc_recv_tcp_pending = 0, tc_sending = False, tc_receiving = False,
     tc_recv_cb = True, tc_sent_cb = False, tc_freed = False, tc_log = []\<rparr>"

definition client_dealloc :: "tcp_client \<Rightarrow> tcp_client" where
  "client_dealloc c = log_action Dealloc (c\<lparr>tc_freed := True\<rparr>)"

definition clear_callbacks :: "tcp_client \<Rightarrow> tcp_client" where
  "clear_callbacks c = log_action TcpClearCallbacks (c\<lparr>tc_recv_cb := False, tc_sent_cb := False\<rparr>)"

definition free_socks_client :: "tcp_client \<Rightarrow> tcp_client" where
  "free_socks_client c = log_action SocksFree (c\<lparr>tc_sending := False, tc_receiving := False\<rparr>)"

text \<open>\<open>tcp_close\<close>, and \<open>tcp_abort\<close> when it fails.\<close>

definition close_pcb :: "lwip_err \<Rightarrow> tcp_client \<Rightarrow> tcp_client" where
  "close_pcb err c =
     (let c = log_action TcpClose (clear_callbacks c) in if err \<noteq> ERR_OK then log_action TcpAbort c else c)"

text \<open>
  The three functions call one another; each call sets one of the two closed flags first, so the
  calls end after both have been set.
\<close>

function client_handle_freed_client :: "lwip_err \<Rightarrow> tcp_client \<Rightarrow> tcp_client"
  and client_free_client :: "lwip_err \<Rightarrow> tcp_client \<Rightarrow> tcp_client"
  and client_free_socks :: "lwip_err \<Rightarrow> tcp_client \<Rightarrow> tcp_client" where
  "client_handle_freed_client err c =
     (let c = c\<lparr>tc_client_closed := True\<rparr> in
      if tc_buf c \<noteq> [] \<and> \<not> tc_socks_closed c then c
      else if \<not> tc_socks_closed c then client_free_socks err c
      else client_dealloc c)"
| "client_free_client err c = client_handle_freed_client err (close_pcb err c)"
| "client_free_socks err c =
     (let c = (if tc_socks_up c \<and> \<not> tc_client_closed c
               then log_action TcpRecvNull (c\<lparr>tc_recv_cb := False\<rparr>) else c);
          c = free_socks_client c;
          c = c\<lparr>tc_socks_closed := True\<rparr> in
      if tc_socks_up c \<and> (tc_recv_used c \<ge> 0 \<or> tc_recv_tcp_pending c > 0) \<and> \<not> tc_client_closed c then c
      else if \<not> tc_client_closed c then client_free_client err c
      else client_dealloc c)"
  by pat_completeness auto
termination
  by (relation "measure (case_sum (\<lambda>(err, c). 1)
      (case_sum (\<lambda>(err, c). 2) (\<lambda>(err, c). if tc_client_closed c then 0 else 3)))")
    (auto simp: log_action_def free_socks_client_def)

declare client_handle_freed_client.simps [simp del] client_free_client.simps [simp del]
  client_free_socks.simps [simp del]

definition client_abort_client :: "lwip_err \<Rightarrow> tcp_client \<Rightarrow> tcp_client" where
  "client_abort_client err c = client_handle_freed_client err (log_action TcpAbort (clear_callbacks c))"

definition client_murder :: "tcp_client \<Rightarrow> tcp_client" where
  "client_murder c =
     (let c = (if \<not> tc_client_closed c
               then (log_action TcpAbort (clear_callbacks c))\<lparr>tc_client_closed := True\<rparr> else c);
          c = (if \<not> tc_socks_closed c then (free_socks_client c)\<lparr>tc_socks_closed := True\<rparr> else c)
      in client_dealloc c)"

subsection \<open>From the client to SOCKS\<close>

definition client_send_to_socks :: "tcp_client \<Rightarrow> tcp_client" where
  "client_send_to_socks c = log_action (SocksSend (tc_buf c)) (c\<lparr>tc_sending := True\<rparr>)"

text \<open>
  lwIP's callbacks return a code. \<open>sync\<close> is what the jobs queued by the callback do to the client
  before it returns (\<open>SYNC_COMMIT\<close>); \<open>DEAD_KILLED\<close> is that they closed the client.
\<close>

definition client_recv_func ::
  "lwip_err \<Rightarrow> (tcp_client \<Rightarrow> tcp_client) \<Rightarrow> tcp_client \<Rightarrow> byte list option \<Rightarrow> lwip_err \<times> tcp_client" where
  "client_recv_func err sync c p =
     (case p of
        None \<Rightarrow> (ERR_ABRT, client_free_client err c)
      | Some d \<Rightarrow>
          if length d > TCP_WND - length (tc_buf c) then (ERR_MEM, c)
          else let c = c\<lparr>tc_buf := tc_buf c @ d\<rparr> in
          if length (tc_buf c) = length d \<and> tc_socks_up c then
            let c = sync (client_send_to_socks c) in
            if tc_client_closed c then (ERR_ABRT, c) else (ERR_OK, log_action PbufFree c)
          else (ERR_OK, log_action PbufFree c))"

definition client_socks_send_handler_done :: "lwip_err \<Rightarrow> tcp_client \<Rightarrow> nat \<Rightarrow> tcp_client" where
  "client_socks_send_handler_done err c data_len =
     (let c = c\<lparr>tc_sending := False, tc_buf := drop data_len (tc_buf c)\<rparr>;
          c = (if \<not> tc_client_closed c then log_action (TcpRecved data_len) c else c) in
      if tc_buf c \<noteq> [] then client_send_to_socks c
      else if tc_client_closed c then client_free_socks err c
      else c)"

subsection \<open>From SOCKS to the client\<close>

definition client_socks_recv_initiate :: "tcp_client \<Rightarrow> tcp_client" where
  "client_socks_recv_initiate c = log_action SocksRecv (c\<lparr>tc_receiving := True\<rparr>)"

text \<open>
  The \<open>do \<dots> while\<close> loop of \<open>client_socks_recv_send_out\<close>. The Boolean is false when \<open>tcp_write\<close> failed with
  something else than \<open>ERR_MEM\<close>.
\<close>

function recv_send_loop :: "lwip_answers \<Rightarrow> tcp_client \<Rightarrow> bool \<times> tcp_client" where
  "recv_send_loop lw c =
     (let to_write = nat (bmin_int (tc_recv_used c - int (tc_recv_sent c)) (int (lw_sndbuf lw (tc_recv_sent c)))) in
      if to_write = 0 then (True, c)
      else case lw_write lw (tc_recv_sent c) of
        ERR_OK \<Rightarrow>
          let c = (log_action (TcpWrite (mem_read (tc_recv_buf c) (tc_recv_sent c) to_write)) c)
                    \<lparr>tc_recv_sent := tc_recv_sent c + to_write,
                     tc_recv_tcp_pending := tc_recv_tcp_pending c + to_write\<rparr> in
          if int (tc_recv_sent c) < tc_recv_used c then recv_send_loop lw c else (True, c)
      | ERR_MEM \<Rightarrow> (True, c)
      | _ \<Rightarrow> (False, c))"
  by pat_completeness auto
termination
  by (relation "measure (\<lambda>(lw, c). nat (tc_recv_used c) - tc_recv_sent c)")
    (auto simp: log_action_def)

declare recv_send_loop.simps [simp del]

text \<open>The result says whether \<open>tcp_abort\<close> was \<^emph>\<open>not\<close> done (the code's 0).\<close>

definition client_socks_recv_send_out :: "lwip_answers \<Rightarrow> tcp_client \<Rightarrow> bool \<times> tcp_client" where
  "client_socks_recv_send_out lw c =
     (let (ok, c) = recv_send_loop lw c in
      if \<not> ok then (False, client_abort_client (lw_close lw) c)
      else let c = log_action TcpOutput c in
      if lw_output lw \<noteq> ERR_OK then (False, client_abort_client (lw_close lw) c)
      else if int (tc_recv_sent c) < tc_recv_used c then
        (if tc_recv_tcp_pending c = 0 then (False, client_abort_client (lw_close lw) c)
         else (True, c\<lparr>tc_recv_waiting := True\<rparr>))
      else (True, c\<lparr>tc_recv_used := -1\<rparr>))"

definition client_socks_recv_handler_done :: "lwip_answers \<Rightarrow> tcp_client \<Rightarrow> byte list \<Rightarrow> tcp_client" where
  "client_socks_recv_handler_done lw c d =
     (let c = c\<lparr>tc_receiving := False, tc_recv_buf := d\<rparr> in
      if tc_client_closed c then c
      else
        let c = c\<lparr>tc_recv_used := int (length d), tc_recv_sent := 0, tc_recv_waiting := False\<rparr>;
            (ok, c) = client_socks_recv_send_out lw c in
        if \<not> ok then c
        else if tc_recv_used c = -1 then client_socks_recv_initiate c
        else c)"

definition client_sent_func ::
  "lwip_answers \<Rightarrow> (tcp_client \<Rightarrow> tcp_client) \<Rightarrow> tcp_client \<Rightarrow> nat \<Rightarrow> lwip_err \<times> tcp_client" where
  "client_sent_func lw sync c len =
     (let c = c\<lparr>tc_recv_tcp_pending := tc_recv_tcp_pending c - len\<rparr> in
      if tc_recv_used c > 0 then
        let c = c\<lparr>tc_recv_waiting := False\<rparr>;
            (ok, c) = client_socks_recv_send_out lw c in
        if \<not> ok then (ERR_ABRT, c)
        else if tc_recv_used c = -1 \<and> \<not> tc_socks_closed c then
          let c = sync (client_socks_recv_initiate c) in
          if tc_client_closed c then (ERR_ABRT, c) else (ERR_OK, c)
        else (ERR_OK, c)
      else if tc_socks_closed c \<and> tc_recv_tcp_pending c = 0 then (ERR_ABRT, client_free_client (lw_close lw) c)
      else (ERR_OK, c))"

subsection \<open>Events of the SOCKS client\<close>

datatype socks_event = SOCKS_ERROR | SOCKS_UP | SOCKS_ERROR_CLOSED

fun client_socks_handler :: "lwip_err \<Rightarrow> tcp_client \<Rightarrow> socks_event \<Rightarrow> tcp_client" where
  "client_socks_handler err c SOCKS_ERROR = client_free_socks err c"
| "client_socks_handler err c SOCKS_UP =
     (let c = c\<lparr>tc_recv_used := -1, tc_recv_tcp_pending := 0\<rparr>;
          c = (if \<not> tc_client_closed c then c\<lparr>tc_sent_cb := True\<rparr> else c);
          c = c\<lparr>tc_socks_up := True\<rparr>;
          c = (if tc_buf c \<noteq> [] then client_send_to_socks c else c)
      in if \<not> tc_client_closed c then client_socks_recv_initiate c else c)"
| "client_socks_handler err c SOCKS_ERROR_CLOSED = client_free_socks err c"

definition client_err_func :: "lwip_err \<Rightarrow> tcp_client \<Rightarrow> tcp_client" where
  "client_err_func err c = client_handle_freed_client err c"

subsection \<open>Histories\<close>

fun rx_of :: "tc_action \<Rightarrow> byte list" where
  "rx_of (ClientData d) = d" | "rx_of _ = []"

fun tx_of :: "tc_action \<Rightarrow> byte list" where
  "tx_of (SocksTook d) = d" | "tx_of _ = []"

fun sr_of :: "tc_action \<Rightarrow> byte list" where
  "sr_of (SocksData d) = d" | "sr_of _ = []"

fun tw_of :: "tc_action \<Rightarrow> byte list" where
  "tw_of (TcpWrite d) = d" | "tw_of _ = []"

fun recved_of :: "tc_action \<Rightarrow> nat" where
  "recved_of (TcpRecved n) = n" | "recved_of _ = 0"

text \<open>
  Bytes taken from the client, bytes the SOCKS connection took, bytes received from SOCKS, bytes given
  to \<open>tcp_write\<close>, and the number of bytes confirmed to lwIP.
\<close>

definition rx :: "tcp_client \<Rightarrow> byte list" where "rx c = concat (map rx_of (tc_log c))"
definition tx :: "tcp_client \<Rightarrow> byte list" where "tx c = concat (map tx_of (tc_log c))"
definition sr :: "tcp_client \<Rightarrow> byte list" where "sr c = concat (map sr_of (tc_log c))"
definition tw :: "tcp_client \<Rightarrow> byte list" where "tw c = concat (map tw_of (tc_log c))"
definition recved :: "tcp_client \<Rightarrow> nat" where "recved c = sum_list (map recved_of (tc_log c))"

lemmas hist_defs = rx_def tx_def sr_def tw_def recved_def

text \<open>Calls that neither move data nor free the structure.\<close>

definition quiet :: "tc_action \<Rightarrow> bool" where
  "quiet a \<longleftrightarrow> rx_of a = [] \<and> tx_of a = [] \<and> sr_of a = [] \<and> tw_of a = [] \<and> recved_of a = 0"

subsection \<open>The functions in closed form\<close>

lemma handle_freed_eq:
  "client_handle_freed_client err c =
     (if tc_buf c \<noteq> [] \<and> \<not> tc_socks_closed c then c\<lparr>tc_client_closed := True\<rparr>
      else if \<not> tc_socks_closed c
        then client_dealloc ((free_socks_client (c\<lparr>tc_client_closed := True\<rparr>))\<lparr>tc_socks_closed := True\<rparr>)
      else client_dealloc (c\<lparr>tc_client_closed := True\<rparr>))"
  by (simp add: client_handle_freed_client.simps [of err c] client_free_socks.simps Let_def
      free_socks_client_def log_action_def)

lemma free_socks_closed_eq:
  assumes "tc_client_closed c"
  shows "client_free_socks err c = client_dealloc ((free_socks_client c)\<lparr>tc_socks_closed := True\<rparr>)"
  using assms by (simp add: client_free_socks.simps [of err c] Let_def free_socks_client_def log_action_def)

subsection \<open>The invariant\<close>

text \<open>Bookkeeping of the two ends, of the pending operations and of the callbacks.\<close>

definition tc_ctl :: "tcp_client \<Rightarrow> bool" where
  "tc_ctl c \<longleftrightarrow>
     tc_freed c = (tc_client_closed c \<and> tc_socks_closed c) \<and>
     tc_sending c = (tc_socks_up c \<and> \<not> tc_socks_closed c \<and> tc_buf c \<noteq> []) \<and>
     (tc_receiving c \<longrightarrow> tc_socks_up c \<and> \<not> tc_socks_closed c \<and> tc_recv_used c = -1) \<and>
     (\<not> tc_socks_up c \<longrightarrow> tc_recv_used c = -1 \<and> tc_recv_tcp_pending c = 0) \<and>
     (tc_client_closed c \<and> \<not> tc_socks_closed c \<longrightarrow> tc_buf c \<noteq> []) \<and>
     length (tc_buf c) \<le> TCP_WND \<and>
     (\<not> tc_client_closed c \<longrightarrow> tc_recv_cb c = (\<not> tc_socks_closed c) \<and> tc_sent_cb c = tc_socks_up c)"

text \<open>What holds of the data waiting for the client, between the events.\<close>

definition tc_waiting :: "tcp_client \<Rightarrow> bool" where
  "tc_waiting c \<longleftrightarrow> \<not> tc_client_closed c \<longrightarrow>
     (tc_socks_up c \<and> \<not> tc_socks_closed c \<and> tc_recv_used c = -1 \<longrightarrow> tc_receiving c) \<and>
     (tc_recv_used c = -1 \<or> (tc_recv_used c = int (length (tc_recv_buf c)) \<and>
        tc_recv_sent c < length (tc_recv_buf c) \<and> tc_recv_waiting c \<and> 0 < tc_recv_tcp_pending c)) \<and>
     (tc_socks_closed c \<longrightarrow> tc_socks_up c \<and> (0 \<le> tc_recv_used c \<or> 0 < tc_recv_tcp_pending c))"

definition tc_data :: "tcp_client \<Rightarrow> bool" where
  "tc_data c \<longleftrightarrow> rx c = tx c @ tc_buf c \<and>
     (\<not> tc_client_closed c \<longrightarrow> recved c = length (tx c) \<and>
        sr c = tw c @ (if 0 \<le> tc_recv_used c then drop (tc_recv_sent c) (tc_recv_buf c) else []))"

text \<open>\<open>client_dealloc\<close> is the last thing that happens.\<close>

definition tc_once :: "tcp_client \<Rightarrow> bool" where
  "tc_once c \<longleftrightarrow> (if tc_freed c then \<exists>l. tc_log c = l @ [Dealloc] \<and> Dealloc \<notin> set l
                  else Dealloc \<notin> set (tc_log c))"

definition tc_inv :: "tcp_client \<Rightarrow> bool" where
  "tc_inv c \<longleftrightarrow> tc_ctl c \<and> tc_waiting c \<and> tc_data c \<and> tc_once c"

lemmas tc_defs = tc_inv_def tc_ctl_def tc_waiting_def tc_data_def tc_once_def

lemma tc_inv_init: "tc_inv tcp_client_init"
  by (simp add: tc_defs tcp_client_init_def hist_defs)

lemmas action_defs = log_action_def client_dealloc_def clear_callbacks_def free_socks_client_def
  close_pcb_def client_send_to_socks_def client_socks_recv_initiate_def

text \<open>What the end of the structure needs, and what closing either side needs.\<close>

lemma dealloc_inv:
  assumes "tc_client_closed c" "tc_socks_closed c" "\<not> tc_sending c" "\<not> tc_receiving c"
    and "\<not> tc_socks_up c \<longrightarrow> tc_recv_used c = -1 \<and> tc_recv_tcp_pending c = 0"
    and "length (tc_buf c) \<le> TCP_WND" "rx c = tx c @ tc_buf c" "Dealloc \<notin> set (tc_log c)"
  shows "tc_inv (client_dealloc c)"
proof -
  have "tc_ctl (client_dealloc c)" "tc_waiting (client_dealloc c)"
    using assms by (simp_all add: tc_ctl_def tc_waiting_def client_dealloc_def log_action_def)
  moreover have "tc_data (client_dealloc c)" "tc_once (client_dealloc c)"
    using assms by (simp_all add: tc_data_def tc_once_def hist_defs client_dealloc_def log_action_def)
  ultimately show ?thesis by (simp add: tc_inv_def)
qed

definition tc_open :: "tcp_client \<Rightarrow> bool" where
  "tc_open c \<longleftrightarrow> \<not> tc_client_closed c \<and> Dealloc \<notin> set (tc_log c) \<and> rx c = tx c @ tc_buf c \<and>
     tc_sending c = (tc_socks_up c \<and> \<not> tc_socks_closed c \<and> tc_buf c \<noteq> []) \<and>
     (tc_receiving c \<longrightarrow> tc_socks_up c \<and> \<not> tc_socks_closed c \<and> tc_recv_used c = -1) \<and>
     (\<not> tc_socks_up c \<longrightarrow> tc_recv_used c = -1 \<and> tc_recv_tcp_pending c = 0) \<and>
     \<not> tc_freed c \<and> length (tc_buf c) \<le> TCP_WND"

lemma tc_open_of_inv: "tc_inv c \<Longrightarrow> \<not> tc_client_closed c \<Longrightarrow> tc_open c"
  by (simp add: tc_open_def tc_inv_def tc_ctl_def tc_data_def tc_once_def)

lemma handle_freed_inv:
  assumes "tc_open c"
  shows "tc_inv (client_handle_freed_client err c)"
proof -
  consider (wait) "tc_buf c \<noteq> []" "\<not> tc_socks_closed c" | (free) "tc_buf c = []" "\<not> tc_socks_closed c"
    | (dead) "tc_socks_closed c" by blast
  then show ?thesis
  proof cases
    case wait
    let ?c = "c\<lparr>tc_client_closed := True\<rparr>"
    have "tc_ctl ?c" "tc_waiting ?c"
      using assms wait by (simp_all add: tc_ctl_def tc_waiting_def tc_open_def)
    moreover have "tc_data ?c" "tc_once ?c"
      using assms wait by (simp_all add: tc_data_def tc_once_def hist_defs tc_open_def)
    ultimately show ?thesis using wait by (simp add: handle_freed_eq tc_inv_def)
  next
    case free
    show ?thesis
      unfolding handle_freed_eq using free
      by (simp, intro dealloc_inv)
        (use assms free in \<open>simp_all add: tc_open_def free_socks_client_def log_action_def hist_defs\<close>)
  next
    case dead
    show ?thesis
      unfolding handle_freed_eq using dead
      by (simp, intro dealloc_inv) (use assms dead in \<open>simp_all add: tc_open_def hist_defs\<close>)
  qed
qed

lemma tc_open_close_pcb: "tc_open c \<Longrightarrow> tc_open (close_pcb err c)"
  by (simp add: tc_open_def close_pcb_def clear_callbacks_def log_action_def hist_defs Let_def)

lemma tc_open_abort: "tc_open c \<Longrightarrow> tc_open (log_action TcpAbort (clear_callbacks c))"
  by (simp add: tc_open_def clear_callbacks_def log_action_def hist_defs)

lemma free_client_inv: "tc_open c \<Longrightarrow> tc_inv (client_free_client err c)"
  by (simp add: client_free_client.simps handle_freed_inv tc_open_close_pcb)

lemma abort_client_inv: "tc_open c \<Longrightarrow> tc_inv (client_abort_client err c)"
  by (simp add: client_abort_client_def handle_freed_inv tc_open_abort)

lemma free_socks_inv:
  assumes "tc_inv c" "\<not> tc_socks_closed c"
  shows "tc_inv (client_free_socks err c)"
proof (cases "tc_client_closed c")
  case True
  show ?thesis
    unfolding free_socks_closed_eq [OF True]
    by (intro dealloc_inv) (use assms True in
      \<open>simp_all add: tc_inv_def tc_ctl_def tc_data_def tc_once_def free_socks_client_def log_action_def hist_defs\<close>)
next
  case False
  let ?c = "(free_socks_client (if tc_socks_up c then log_action TcpRecvNull (c\<lparr>tc_recv_cb := False\<rparr>) else c))
              \<lparr>tc_socks_closed := True\<rparr>"
  have op: "tc_open ?c"
    using assms False tc_open_of_inv [OF assms(1) False]
    by (simp add: tc_open_def free_socks_client_def log_action_def hist_defs)
  show ?thesis
  proof (cases "tc_socks_up c \<and> (tc_recv_used c \<ge> 0 \<or> tc_recv_tcp_pending c > 0)")
    case True
    have "client_free_socks err c = ?c" using True False by (simp add: client_free_socks.simps Let_def free_socks_client_def log_action_def)
    moreover have "tc_ctl ?c"
      using assms False op True by (simp add: tc_open_def tc_inv_def tc_ctl_def free_socks_client_def log_action_def)
    moreover have "tc_waiting ?c"
      using assms False True by (simp add: tc_inv_def tc_waiting_def free_socks_client_def log_action_def)
    moreover have "tc_data ?c" "tc_once ?c"
      using assms False op True
      by (simp_all add: tc_open_def tc_inv_def tc_data_def tc_once_def hist_defs free_socks_client_def log_action_def)
    ultimately show ?thesis by (simp add: tc_inv_def)
  next
    case F: False
    have "client_free_socks err c = client_free_client err ?c"
      using F False by (simp add: client_free_socks.simps [of err c] Let_def free_socks_client_def log_action_def)
    then show ?thesis using free_client_inv [OF op] by simp
  qed
qed


lemma murder_inv:
  assumes "tc_inv c" "\<not> tc_freed c"
  shows "tc_inv (client_murder c)"
proof -
  have pre: "rx c = tx c @ tc_buf c" "Dealloc \<notin> set (tc_log c)" "length (tc_buf c) \<le> TCP_WND"
    "\<not> tc_socks_up c \<longrightarrow> tc_recv_used c = -1 \<and> tc_recv_tcp_pending c = 0"
    "tc_socks_closed c \<Longrightarrow> \<not> tc_sending c \<and> \<not> tc_receiving c"
    using assms by (auto simp: tc_inv_def tc_ctl_def tc_data_def tc_once_def)
  show ?thesis
    unfolding client_murder_def Let_def
    by (rule dealloc_inv)
      (use pre in \<open>simp_all add: clear_callbacks_def free_socks_client_def log_action_def hist_defs\<close>)
qed

subsection \<open>Sending to the client\<close>

lemma recv_send_loop_spec:
  assumes "tc_recv_used c = int (length (tc_recv_buf c))" "tc_recv_sent c \<le> length (tc_recv_buf c)"
  shows "\<exists>ok ws s. recv_send_loop lw c = (ok, c\<lparr>tc_recv_sent := s,
            tc_recv_tcp_pending := tc_recv_tcp_pending c + (s - tc_recv_sent c),
            tc_log := tc_log c @ map TcpWrite ws\<rparr>) \<and>
          tc_recv_sent c \<le> s \<and> s \<le> length (tc_recv_buf c) \<and>
          take s (tc_recv_buf c) = take (tc_recv_sent c) (tc_recv_buf c) @ concat ws"
  using assms
proof (induction lw c rule: recv_send_loop.induct)
  case (1 lw c)
  let ?w = "nat (bmin_int (tc_recv_used c - int (tc_recv_sent c)) (int (lw_sndbuf lw (tc_recv_sent c))))"
  let ?c = "(log_action (TcpWrite (mem_read (tc_recv_buf c) (tc_recv_sent c) ?w)) c)
              \<lparr>tc_recv_sent := tc_recv_sent c + ?w, tc_recv_tcp_pending := tc_recv_tcp_pending c + ?w\<rparr>"
  have same: "\<exists>ws s. c = c\<lparr>tc_recv_sent := s, tc_recv_tcp_pending := tc_recv_tcp_pending c + (s - tc_recv_sent c),
        tc_log := tc_log c @ map TcpWrite ws\<rparr> \<and> tc_recv_sent c \<le> s \<and> s \<le> length (tc_recv_buf c) \<and>
        take s (tc_recv_buf c) = take (tc_recv_sent c) (tc_recv_buf c) @ concat ws"
    using 1(3) by (intro exI [of _ "[]"] exI [of _ "tc_recv_sent c"]) simp
  have w: "tc_recv_sent c + ?w \<le> length (tc_recv_buf c)"
    using 1(2,3) by (simp add: bmin_int_def)
  have rd: "take (tc_recv_sent c + ?w) (tc_recv_buf c) =
      take (tc_recv_sent c) (tc_recv_buf c) @ mem_read (tc_recv_buf c) (tc_recv_sent c) ?w"
    by (simp add: mem_read_def take_add)
  show ?case
  proof (cases "?w = 0 \<or> lw_write lw (tc_recv_sent c) \<noteq> ERR_OK")
    case True
    then have "\<exists>ok. recv_send_loop lw c = (ok, c)"
      by (subst recv_send_loop.simps) (auto simp: Let_def split: lwip_err.splits)
    with same show ?thesis by metis
  next
    case False
    show ?thesis
    proof (cases "int (tc_recv_sent ?c) < tc_recv_used ?c")
      case True
      have step: "recv_send_loop lw c = recv_send_loop lw ?c"
        using False True by (subst recv_send_loop.simps) (simp add: Let_def)
      have "\<exists>ok ws s. recv_send_loop lw ?c = (ok, ?c\<lparr>tc_recv_sent := s,
            tc_recv_tcp_pending := tc_recv_tcp_pending ?c + (s - tc_recv_sent ?c),
            tc_log := tc_log ?c @ map TcpWrite ws\<rparr>) \<and>
          tc_recv_sent ?c \<le> s \<and> s \<le> length (tc_recv_buf ?c) \<and>
          take s (tc_recv_buf ?c) = take (tc_recv_sent ?c) (tc_recv_buf ?c) @ concat ws"
        using False True 1(2) w by (intro "1.IH") (simp_all add: log_action_def)
      then obtain ok ws s where r: "recv_send_loop lw ?c = (ok, ?c\<lparr>tc_recv_sent := s,
            tc_recv_tcp_pending := tc_recv_tcp_pending ?c + (s - tc_recv_sent ?c),
            tc_log := tc_log ?c @ map TcpWrite ws\<rparr>)"
          "tc_recv_sent ?c \<le> s" "s \<le> length (tc_recv_buf ?c)"
          "take s (tc_recv_buf ?c) = take (tc_recv_sent ?c) (tc_recv_buf ?c) @ concat ws" by blast
      show ?thesis
        by (rule exI [of _ ok], rule exI [of _ "mem_read (tc_recv_buf c) (tc_recv_sent c) ?w # ws"],
            rule exI [of _ s], unfold step r(1))
          (use r(2-4) rd in \<open>simp add: log_action_def\<close>)
    next
      case F: False
      have "recv_send_loop lw c = (True, ?c)"
        using False F by (subst recv_send_loop.simps) (simp add: Let_def)
      then show ?thesis
        by (intro exI [of _ True] exI [of _ "[mem_read (tc_recv_buf c) (tc_recv_sent c) ?w]"]
              exI [of _ "tc_recv_sent c + ?w"])
          (use w rd in \<open>simp add: log_action_def\<close>)
    qed
  qed
qed


text \<open>The state in which \<open>client_socks_recv_send_out\<close> is called, and what it leaves.\<close>

definition tc_mid :: "tcp_client \<Rightarrow> bool" where
  "tc_mid c \<longleftrightarrow> tc_open c \<and> tc_socks_up c \<and> \<not> tc_receiving c \<and>
     tc_recv_used c = int (length (tc_recv_buf c)) \<and> tc_recv_sent c < length (tc_recv_buf c) \<and>
     tc_recv_cb c = (\<not> tc_socks_closed c) \<and> tc_sent_cb c \<and> recved c = length (tx c) \<and>
     sr c = tw c @ drop (tc_recv_sent c) (tc_recv_buf c)"

definition tc_sent_out :: "tcp_client \<Rightarrow> bool" where
  "tc_sent_out c \<longleftrightarrow> tc_open c \<and> tc_socks_up c \<and> \<not> tc_receiving c \<and> 0 < tc_recv_tcp_pending c \<and>
     tc_recv_cb c = (\<not> tc_socks_closed c) \<and> tc_sent_cb c \<and> recved c = length (tx c) \<and>
     (if tc_recv_used c = -1 then sr c = tw c
      else tc_recv_used c = int (length (tc_recv_buf c)) \<and> tc_recv_sent c < length (tc_recv_buf c) \<and>
        tc_recv_waiting c \<and> sr c = tw c @ drop (tc_recv_sent c) (tc_recv_buf c))"

lemma hist_map_TcpWrite [simp]:
  "concat (map rx_of (map TcpWrite ws)) = []" "concat (map tx_of (map TcpWrite ws)) = []"
  "concat (map sr_of (map TcpWrite ws)) = []" "concat (map tw_of (map TcpWrite ws)) = concat ws"
  "sum_list (map recved_of (map TcpWrite ws)) = 0" "Dealloc \<notin> set (map TcpWrite ws)"
  by (induction ws) auto

lemma Dealloc_TcpWrite [simp]: "Dealloc \<notin> TcpWrite ` A"
  by auto

lemma hist_comp_TcpWrite [simp]:
  "concat (map (rx_of \<circ> TcpWrite) ws) = []" "concat (map (tx_of \<circ> TcpWrite) ws) = []"
  "concat (map (sr_of \<circ> TcpWrite) ws) = []" "concat (map (tw_of \<circ> TcpWrite) ws) = concat ws"
  "sum_list (map (recved_of \<circ> TcpWrite) ws) = 0"
  by (induction ws) auto

lemma sent_out_inv:
  assumes "tc_sent_out c"
  shows "if tc_recv_used c = -1 \<and> \<not> tc_socks_closed c then tc_inv (client_socks_recv_initiate c) else tc_inv c"
proof (cases "tc_recv_used c = -1 \<and> \<not> tc_socks_closed c")
  case True
  let ?c = "client_socks_recv_initiate c"
  have "tc_ctl ?c" "tc_waiting ?c"
    using assms True
    by (simp_all add: tc_sent_out_def tc_ctl_def tc_waiting_def tc_open_def client_socks_recv_initiate_def
        log_action_def)
  moreover have "tc_data ?c" "tc_once ?c"
    using assms True
    by (simp_all add: tc_sent_out_def tc_data_def tc_once_def tc_open_def client_socks_recv_initiate_def
        log_action_def hist_defs)
  ultimately show ?thesis using True by (simp add: tc_inv_def)
next
  case False
  have "tc_ctl c" "tc_data c" "tc_once c"
    using assms False
    by (auto simp: tc_sent_out_def tc_ctl_def tc_data_def tc_once_def tc_open_def split: if_splits)
  moreover have "tc_waiting c"
    using assms False by (auto simp: tc_sent_out_def tc_waiting_def tc_open_def split: if_splits)
  ultimately have "tc_inv c" by (simp add: tc_inv_def)
  with False show ?thesis by (simp only: if_False)
qed

lemma loop_mid:
  assumes "tc_mid c" "recv_send_loop lw c = (ok, c')"
  shows "tc_open c'" "tc_recv_used c' = int (length (tc_recv_buf c'))" "tc_recv_sent c' \<le> length (tc_recv_buf c')"
    "tc_socks_up c'" "\<not> tc_receiving c'" "tc_recv_cb c' = (\<not> tc_socks_closed c')" "tc_sent_cb c'"
    "recved c' = length (tx c')" "sr c' = tw c' @ drop (tc_recv_sent c') (tc_recv_buf c')"
    "tc_recv_sent c' = length (tc_recv_buf c') \<Longrightarrow> 0 < tc_recv_tcp_pending c'"
    "tc_socks_closed c' = tc_socks_closed c" "tc_socks_closed c \<or> tc_recv_cb c'"
proof -
  have m: "tc_recv_used c = int (length (tc_recv_buf c))" "tc_recv_sent c < length (tc_recv_buf c)"
    "sr c = tw c @ drop (tc_recv_sent c) (tc_recv_buf c)"
    using assms by (simp_all add: tc_mid_def)
  obtain ws s where r: "c' = c\<lparr>tc_recv_sent := s,
            tc_recv_tcp_pending := tc_recv_tcp_pending c + (s - tc_recv_sent c),
            tc_log := tc_log c @ map TcpWrite ws\<rparr>"
          "tc_recv_sent c \<le> s" "s \<le> length (tc_recv_buf c)"
          "take s (tc_recv_buf c) = take (tc_recv_sent c) (tc_recv_buf c) @ concat ws"
    using recv_send_loop_spec [of c lw] m assms(2) by auto
  have d: "drop (tc_recv_sent c) (tc_recv_buf c) = concat ws @ drop s (tc_recv_buf c)"
  proof -
    have "take (tc_recv_sent c) (tc_recv_buf c) @ drop (tc_recv_sent c) (tc_recv_buf c) =
        take (tc_recv_sent c) (tc_recv_buf c) @ concat ws @ drop s (tc_recv_buf c)"
      using r(4) by (metis append_assoc append_take_drop_id)
    then show ?thesis by (simp only: append_same_eq same_append_eq)
  qed
  show "sr c' = tw c' @ drop (tc_recv_sent c') (tc_recv_buf c')"
    using m(3) d by (simp add: r(1) hist_defs)
  show "tc_open c'"
    using assms(1) by (simp add: tc_mid_def tc_open_def r(1) hist_defs)
  show "recved c' = length (tx c')"
    using assms(1) by (simp add: tc_mid_def r(1) hist_defs)
  show "tc_recv_used c' = int (length (tc_recv_buf c'))" "tc_recv_sent c' \<le> length (tc_recv_buf c')"
    "tc_socks_up c'" "\<not> tc_receiving c'" "tc_recv_cb c' = (\<not> tc_socks_closed c')" "tc_sent_cb c'"
    "tc_recv_sent c' = length (tc_recv_buf c') \<Longrightarrow> 0 < tc_recv_tcp_pending c'"
    "tc_socks_closed c' = tc_socks_closed c" "tc_socks_closed c \<or> tc_recv_cb c'"
    using assms(1) r(2,3) m(2) by (simp_all add: tc_mid_def r(1))
qed

lemma send_out_mid:
  assumes "tc_mid c" "client_socks_recv_send_out lw c = (ok, c')"
  shows "if ok then tc_sent_out c' \<and> tc_socks_closed c' = tc_socks_closed c else tc_inv c'"
proof -
  obtain ok1 c1 where l: "recv_send_loop lw c = (ok1, c1)" by force
  note m = loop_mid [OF assms(1) l]
  let ?c2 = "log_action TcpOutput c1"
  have op2: "tc_open ?c2" using m(1) by (simp add: tc_open_def log_action_def hist_defs)
  have data: "sr ?c2 = tw ?c2 @ drop (tc_recv_sent c1) (tc_recv_buf c1)" "recved ?c2 = length (tx ?c2)"
    using m(8,9) by (simp_all add: log_action_def hist_defs)
  consider (ab1) "\<not> ok1" "ok = False" "c' = client_abort_client (lw_close lw) c1"
    | (ab2) "ok1" "ok = False" "c' = client_abort_client (lw_close lw) ?c2"
    | (wait) "ok" "int (tc_recv_sent c1) < tc_recv_used c1" "tc_recv_tcp_pending c1 \<noteq> 0"
        "c' = ?c2\<lparr>tc_recv_waiting := True\<rparr>"
    | (all) "ok" "\<not> int (tc_recv_sent c1) < tc_recv_used c1" "c' = ?c2\<lparr>tc_recv_used := -1\<rparr>"
    using assms(2) l
    by (auto simp: client_socks_recv_send_out_def Let_def log_action_def split: if_splits)
  then show ?thesis
  proof cases
    case ab1
    then show ?thesis using abort_client_inv m(1) by simp
  next
    case ab2
    then show ?thesis using abort_client_inv op2 by simp
  next
    case wait
    have "tc_open c'" using op2 by (simp add: wait(4) tc_open_def hist_defs)
    moreover have "sr c' = tw c' @ drop (tc_recv_sent c') (tc_recv_buf c')" "recved c' = length (tx c')"
      using data by (simp_all add: wait(4) hist_defs log_action_def)
    ultimately show ?thesis
      using wait(1-3) m(2,4-7,11) by (simp add: tc_sent_out_def wait(4) log_action_def)
  next
    case all
    have "tc_recv_sent c1 = length (tc_recv_buf c1)" using all(2) m(2,3) by simp
    moreover have "tc_open c'" using op2 m(4) by (simp add: all(3) tc_open_def hist_defs log_action_def)
    moreover have "sr c' = tw c' @ drop (tc_recv_sent c1) (tc_recv_buf c1)" "recved c' = length (tx c')"
      using data by (simp_all add: all(3) hist_defs log_action_def)
    ultimately show ?thesis
      using all(1) m(4-7,10,11) by (simp add: tc_sent_out_def all(3) log_action_def)
  qed
qed


subsection \<open>Runs\<close>

text \<open>
  What the SOCKS client and its interfaces call: the event handler (in the order BSocksClient reports
  events), the completion of a send for data that was taken, and of a receive with data.
\<close>

inductive socks_step :: "tcp_client \<Rightarrow> tcp_client \<Rightarrow> bool" where
  socks_event: "\<not> tc_socks_closed c \<Longrightarrow> ev = SOCKS_UP \<longrightarrow> \<not> tc_socks_up c \<Longrightarrow>
    socks_step c (client_socks_handler err c ev)"
| socks_took: "tc_sending c \<Longrightarrow> 0 < n \<Longrightarrow> n \<le> length (tc_buf c) \<Longrightarrow>
    socks_step c (client_socks_send_handler_done err (log_action (SocksTook (take n (tc_buf c))) c) n)"
| socks_data: "tc_receiving c \<Longrightarrow> d \<noteq> [] \<Longrightarrow> length d \<le> CLIENT_SOCKS_RECV_BUF_SIZE \<Longrightarrow>
    socks_step c (client_socks_recv_handler_done lw (log_action (SocksData d) c) d)"

inductive_cases socks_step_cases: "socks_step c c'"

text \<open>
  What lwIP calls, for the callbacks that are registered: new data within the advertised window
  (\<open>TCP_WND\<close> beyond what was confirmed with \<open>tcp_recved\<close>), the end of the stream, an error, and
  the acknowledgement of bytes given to \<open>tcp_write\<close>; and the shutdown of the program. The jobs run
  inside a callback are steps of the SOCKS side.
\<close>

definition sync_ok :: "(tcp_client \<Rightarrow> tcp_client) \<Rightarrow> bool" where
  "sync_ok sync \<longleftrightarrow> (\<forall>x. socks_step\<^sup>*\<^sup>* x (sync x))"

definition window_ok :: "tcp_client \<Rightarrow> byte list \<Rightarrow> bool" where
  "window_ok c d \<longleftrightarrow> length (rx c) + length d \<le> recved c + TCP_WND"

inductive tc_step :: "tcp_client \<Rightarrow> tcp_client \<Rightarrow> bool" where
  step_socks: "socks_step c c' \<Longrightarrow> tc_step c c'"
| step_recv: "\<not> tc_client_closed c \<Longrightarrow> tc_recv_cb c \<Longrightarrow> d \<noteq> [] \<Longrightarrow> window_ok c d \<Longrightarrow> sync_ok sync \<Longrightarrow>
    tc_step c (snd (client_recv_func err sync (log_action (ClientData d) c) (Some d)))"
| step_fin: "\<not> tc_client_closed c \<Longrightarrow> tc_recv_cb c \<Longrightarrow> tc_step c (snd (client_recv_func err sync c None))"
| step_err: "\<not> tc_client_closed c \<Longrightarrow> tc_step c (client_err_func err c)"
| step_sent: "\<not> tc_client_closed c \<Longrightarrow> tc_sent_cb c \<Longrightarrow> 0 < n \<Longrightarrow> n \<le> tc_recv_tcp_pending c \<Longrightarrow> sync_ok sync \<Longrightarrow>
    tc_step c (snd (client_sent_func lw sync c n))"
| step_murder: "\<not> tc_freed c \<Longrightarrow> tc_step c (client_murder c)"

abbreviation tc_reachable :: "tcp_client \<Rightarrow> bool" where
  "tc_reachable c \<equiv> tc_step\<^sup>*\<^sup>* tcp_client_init c"

subsection \<open>Every step keeps the invariant\<close>

lemma up_inv:
  assumes "tc_inv c" "\<not> tc_socks_closed c" "\<not> tc_socks_up c"
  shows "tc_inv (client_socks_handler err c SOCKS_UP)"
proof -
  let ?c = "client_socks_handler err c SOCKS_UP"
  have "tc_ctl ?c" "tc_waiting ?c"
    using assms
    by (simp_all add: tc_inv_def tc_ctl_def tc_waiting_def client_send_to_socks_def
        client_socks_recv_initiate_def log_action_def Let_def)
  moreover have "tc_data ?c" "tc_once ?c"
    using assms
    by (simp_all add: tc_inv_def tc_ctl_def tc_data_def tc_once_def client_send_to_socks_def
        client_socks_recv_initiate_def log_action_def Let_def hist_defs)
  ultimately show ?thesis by (simp add: tc_inv_def)
qed

text \<open>After the send completed: a shared state, then one case per way the handler goes on.\<close>

definition tc_took :: "tcp_client \<Rightarrow> nat \<Rightarrow> tcp_client" where
  "tc_took c n =
     (let c1 = (log_action (SocksTook (take n (tc_buf c))) c)\<lparr>tc_sending := False, tc_buf := drop n (tc_buf c)\<rparr>
      in if \<not> tc_client_closed c then log_action (TcpRecved n) c1 else c1)"

lemma send_handler_done_eq:
  "client_socks_send_handler_done err (log_action (SocksTook (take n (tc_buf c))) c) n =
     (if drop n (tc_buf c) \<noteq> [] then client_send_to_socks (tc_took c n)
      else if tc_client_closed c then client_free_socks err (tc_took c n) else tc_took c n)"
  by (simp add: client_socks_send_handler_done_def tc_took_def Let_def log_action_def)

lemma tc_took_sel:
  "tc_client_closed (tc_took c n) = tc_client_closed c" "tc_buf (tc_took c n) = drop n (tc_buf c)"
  "tc_socks_up (tc_took c n) = tc_socks_up c" "tc_socks_closed (tc_took c n) = tc_socks_closed c"
  "tc_recv_buf (tc_took c n) = tc_recv_buf c" "tc_recv_used (tc_took c n) = tc_recv_used c"
  "tc_recv_sent (tc_took c n) = tc_recv_sent c" "tc_recv_waiting (tc_took c n) = tc_recv_waiting c"
  "tc_recv_tcp_pending (tc_took c n) = tc_recv_tcp_pending c" "\<not> tc_sending (tc_took c n)"
  "tc_receiving (tc_took c n) = tc_receiving c" "tc_recv_cb (tc_took c n) = tc_recv_cb c"
  "tc_sent_cb (tc_took c n) = tc_sent_cb c" "tc_freed (tc_took c n) = tc_freed c"
  "rx (tc_took c n) = rx c" "tx (tc_took c n) = tx c @ take n (tc_buf c)"
  "sr (tc_took c n) = sr c" "tw (tc_took c n) = tw c"
  "recved (tc_took c n) = (if tc_client_closed c then recved c else recved c + n)"
  "Dealloc \<in> set (tc_log (tc_took c n)) \<longleftrightarrow> Dealloc \<in> set (tc_log c)"
  by (simp_all add: tc_took_def Let_def log_action_def hist_defs)

lemma send_to_socks_sel:
  "client_send_to_socks c = c\<lparr>tc_sending := True, tc_log := tc_log c @ [SocksSend (tc_buf c)]\<rparr>"
  by (simp add: client_send_to_socks_def log_action_def)

lemma hist_update [simp]:
  "rx (c\<lparr>tc_log := tc_log c @ l\<rparr>) = rx c @ concat (map rx_of l)"
  "tx (c\<lparr>tc_log := tc_log c @ l\<rparr>) = tx c @ concat (map tx_of l)"
  "sr (c\<lparr>tc_log := tc_log c @ l\<rparr>) = sr c @ concat (map sr_of l)"
  "tw (c\<lparr>tc_log := tc_log c @ l\<rparr>) = tw c @ concat (map tw_of l)"
  "recved (c\<lparr>tc_log := tc_log c @ l\<rparr>) = recved c + sum_list (map recved_of l)"
  "rx (c\<lparr>tc_sending := s, tc_log := tc_log c @ l\<rparr>) = rx c @ concat (map rx_of l)"
  "tx (c\<lparr>tc_sending := s, tc_log := tc_log c @ l\<rparr>) = tx c @ concat (map tx_of l)"
  "sr (c\<lparr>tc_sending := s, tc_log := tc_log c @ l\<rparr>) = sr c @ concat (map sr_of l)"
  "tw (c\<lparr>tc_sending := s, tc_log := tc_log c @ l\<rparr>) = tw c @ concat (map tw_of l)"
  "recved (c\<lparr>tc_sending := s, tc_log := tc_log c @ l\<rparr>) = recved c + sum_list (map recved_of l)"
  by (simp_all add: hist_defs)

lemma took_inv:
  assumes inv: "tc_inv c" and s: "tc_sending c" and n: "0 < n" "n \<le> length (tc_buf c)"
  shows "tc_inv (client_socks_send_handler_done err (log_action (SocksTook (take n (tc_buf c))) c) n)"
proof -
  have f: "\<not> tc_socks_closed c" "tc_socks_up c" "\<not> tc_freed c" "length (tc_buf c) \<le> TCP_WND" "rx c = tx c @ tc_buf c"
    using inv s by (simp_all add: tc_inv_def tc_ctl_def tc_data_def)
  have dl: "Dealloc \<notin> set (tc_log (tc_took c n))"
    using inv f by (simp add: tc_inv_def tc_once_def tc_took_sel)
  have rx2: "rx (tc_took c n) = tx (tc_took c n) @ tc_buf (tc_took c n)"
    using f(5) by (simp add: tc_took_sel)
  consider (more) "drop n (tc_buf c) \<noteq> []" | (free) "drop n (tc_buf c) = []" "tc_client_closed c"
    | (idle) "drop n (tc_buf c) = []" "\<not> tc_client_closed c" by blast
  then show ?thesis
  proof cases
    case more
    let ?c3 = "client_send_to_socks (tc_took c n)"
    have "tc_ctl ?c3" "tc_waiting ?c3"
      using inv f more
      by (simp_all add: tc_inv_def tc_ctl_def tc_waiting_def send_to_socks_sel tc_took_sel)
    moreover have "tc_data ?c3"
      using inv n rx2 by (simp add: tc_inv_def tc_data_def send_to_socks_sel tc_took_sel)
    moreover have "tc_once ?c3"
      using f dl by (simp add: tc_once_def send_to_socks_sel tc_took_sel)
    ultimately show ?thesis unfolding send_handler_done_eq using more by (simp add: tc_inv_def)
  next
    case free
    have c2: "tc_client_closed (tc_took c n)" using free by (simp add: tc_took_sel)
    have "tc_inv (client_free_socks err (tc_took c n))"
      unfolding free_socks_closed_eq [OF c2]
    proof (rule dealloc_inv)
      let ?d = "(free_socks_client (tc_took c n))\<lparr>tc_socks_closed := True\<rparr>"
      show "rx ?d = tx ?d @ tc_buf ?d" "Dealloc \<notin> set (tc_log ?d)"
        using rx2 dl by (simp_all add: free_socks_client_def log_action_def hist_defs)
    qed (use inv f free in \<open>simp_all add: free_socks_client_def log_action_def tc_took_sel\<close>)
    then show ?thesis unfolding send_handler_done_eq using free by simp
  next
    case idle
    have "tc_ctl (tc_took c n)" "tc_waiting (tc_took c n)"
      using inv f idle by (simp_all add: tc_inv_def tc_ctl_def tc_waiting_def tc_took_sel)
    moreover have "tc_data (tc_took c n)"
      using inv n rx2 idle by (simp add: tc_inv_def tc_data_def tc_took_sel)
    moreover have "tc_once (tc_took c n)" using f dl by (simp add: tc_once_def tc_took_sel)
    ultimately show ?thesis unfolding send_handler_done_eq using idle by (simp add: tc_inv_def)
  qed
qed


lemma data_inv:
  assumes inv: "tc_inv c" and r: "tc_receiving c" "d \<noteq> []"
  shows "tc_inv (client_socks_recv_handler_done lw (log_action (SocksData d) c) d)"
proof -
  have f: "\<not> tc_socks_closed c" "tc_socks_up c" "tc_recv_used c = -1" "\<not> tc_freed c"
    using inv r by (simp_all add: tc_inv_def tc_ctl_def)
  show ?thesis
  proof (cases "tc_client_closed c")
    case True
    let ?c = "c\<lparr>tc_log := tc_log c @ [SocksData d], tc_receiving := False, tc_recv_buf := d\<rparr>"
    have eq: "client_socks_recv_handler_done lw (log_action (SocksData d) c) d = ?c"
      using True by (simp add: client_socks_recv_handler_done_def Let_def log_action_def)
    have "tc_ctl ?c" "tc_waiting ?c" "tc_data ?c" "tc_once ?c"
      using inv True f
      by (simp_all add: tc_inv_def tc_ctl_def tc_waiting_def tc_data_def tc_once_def hist_defs)
    then show ?thesis by (simp add: eq tc_inv_def)
  next
    case False
    let ?c = "c\<lparr>tc_log := tc_log c @ [SocksData d], tc_receiving := False, tc_recv_buf := d,
      tc_recv_used := int (length d), tc_recv_sent := 0, tc_recv_waiting := False\<rparr>"
    have "tc_open c" using tc_open_of_inv [OF inv False] .
    then have "tc_open ?c" using f by (simp add: tc_open_def hist_defs)
    moreover have "sr ?c = tw ?c @ d" "recved ?c = length (tx ?c)"
      using inv False f by (simp_all add: tc_inv_def tc_data_def hist_defs)
    ultimately have mid: "tc_mid ?c"
      using inv False f r by (simp add: tc_mid_def tc_inv_def tc_ctl_def)
    obtain ok c' where so: "client_socks_recv_send_out lw ?c = (ok, c')" by force
    have eq: "client_socks_recv_handler_done lw (log_action (SocksData d) c) d =
        (if \<not> ok then c' else if tc_recv_used c' = -1 then client_socks_recv_initiate c' else c')"
      using False so by (simp add: client_socks_recv_handler_done_def Let_def log_action_def)
    show ?thesis
    proof (cases ok)
      case ok: True
      then have "tc_sent_out c'" "\<not> tc_socks_closed c'"
        using send_out_mid [OF mid so] f by simp_all
      then show ?thesis using sent_out_inv [of c'] ok by (simp add: eq)
    next
      case ab: False
      then show ?thesis using send_out_mid [OF mid so] by (simp add: eq)
    qed
  qed
qed

lemma socks_step_inv: "socks_step c c' \<Longrightarrow> tc_inv c \<Longrightarrow> tc_inv c'"
proof (induction rule: socks_step.induct)
  case (socks_event c ev err)
  then show ?case by (cases ev) (simp_all add: free_socks_inv up_inv del: client_socks_handler.simps(2))
qed (auto intro: took_inv data_inv)

lemma socks_steps_inv: "socks_step\<^sup>*\<^sup>* c c' \<Longrightarrow> tc_inv c \<Longrightarrow> tc_inv c'"
  by (induction rule: rtranclp_induct) (auto intro: socks_step_inv)

lemma sync_inv: "sync_ok sync \<Longrightarrow> tc_inv c \<Longrightarrow> tc_inv (sync c)"
  by (auto simp: sync_ok_def intro: socks_steps_inv)

lemma pbuf_free_inv:
  assumes "tc_inv c" "\<not> tc_freed c"
  shows "tc_inv (log_action PbufFree c)"
proof -
  let ?c = "log_action PbufFree c"
  have "tc_ctl ?c = tc_ctl c" by (simp add: tc_ctl_def log_action_def)
  moreover have "tc_waiting ?c = tc_waiting c" by (simp add: tc_waiting_def log_action_def)
  moreover have "tc_data ?c = tc_data c" by (simp add: tc_data_def log_action_def)
  moreover have "tc_once ?c = tc_once c" using assms(2) by (simp add: tc_once_def log_action_def)
  ultimately show ?thesis using assms(1) by (simp add: tc_inv_def)
qed

text \<open>lwIP never offers more than the buffer has room for, so the guard of \<open>client_recv_func\<close> does not fail.\<close>

lemma window_room:
  assumes "tc_inv c" "\<not> tc_client_closed c" "window_ok c d"
  shows "length d \<le> TCP_WND - length (tc_buf c)"
  using assms by (simp add: tc_inv_def tc_data_def tc_ctl_def window_ok_def)

lemma recv_func_inv:
  assumes inv: "tc_inv c" and op: "\<not> tc_client_closed c" "tc_recv_cb c" and d: "d \<noteq> []" "window_ok c d"
    and sy: "sync_ok sync"
  shows "tc_inv (snd (client_recv_func err sync (log_action (ClientData d) c) (Some d)))"
proof -
  have f: "\<not> tc_socks_closed c" "\<not> tc_freed c" using inv op by (simp_all add: tc_inv_def tc_ctl_def)
  have room: "length d \<le> TCP_WND - length (tc_buf c)" using window_room [OF inv op(1) d(2)] .
  have "length (tc_buf c) \<le> TCP_WND" using inv by (simp add: tc_inv_def tc_ctl_def)
  with room have rd: "length (tc_buf c) + length d \<le> TCP_WND" by linarith
  let ?c = "c\<lparr>tc_log := tc_log c @ [ClientData d], tc_buf := tc_buf c @ d\<rparr>"
  have h: "rx ?c = tx ?c @ tc_buf ?c" "recved ?c = recved c" "tx ?c = tx c" "sr ?c = sr c" "tw ?c = tw c"
    using inv by (simp_all add: tc_inv_def tc_data_def hist_defs)
  show ?thesis
  proof (cases "tc_buf c = [] \<and> tc_socks_up c")
    case True
    let ?s = "client_send_to_socks ?c"
    have "tc_ctl ?s" "tc_waiting ?s"
      using inv op True rd d by (simp_all add: tc_inv_def tc_ctl_def tc_waiting_def client_send_to_socks_def log_action_def)
    moreover have "tc_data ?s" "tc_once ?s"
      using inv op True f by (simp_all add: tc_inv_def tc_data_def tc_once_def client_send_to_socks_def
          log_action_def hist_defs)
    ultimately have "tc_inv ?s" by (simp only: tc_inv_def)
    then have si: "tc_inv (sync ?s)" by (rule sync_inv [OF sy])
    have eq: "snd (client_recv_func err sync (log_action (ClientData d) c) (Some d)) =
        (if tc_client_closed (sync ?s) then sync ?s else log_action PbufFree (sync ?s))"
      using True room by (simp add: client_recv_func_def Let_def log_action_def)
    have "\<not> tc_client_closed (sync ?s) \<Longrightarrow> \<not> tc_freed (sync ?s)"
      using si by (simp add: tc_inv_def tc_ctl_def)
    then show ?thesis using si pbuf_free_inv by (simp add: eq)
  next
    case False
    have sd: "tc_sending c = tc_socks_up c" using inv False f by (auto simp: tc_inv_def tc_ctl_def)
    have ctl: "tc_ctl c" "tc_waiting c" using inv by (simp_all add: tc_inv_def)
    have "tc_ctl ?c"
    proof (cases "tc_socks_up c")
      case True
      then have "tc_sending c" using sd by simp
      then show ?thesis using ctl(1) True rd d f by (simp add: tc_ctl_def)
    next
      case False
      then have "\<not> tc_sending c" using sd by simp
      then show ?thesis using ctl(1) False rd d f by (simp add: tc_ctl_def)
    qed
    moreover have "tc_waiting ?c" using ctl(2) by (simp add: tc_waiting_def)
    moreover have "tc_data ?c" "tc_once ?c"
      using inv op f h by (simp_all add: tc_inv_def tc_data_def tc_once_def)
    ultimately have "tc_inv ?c" by (simp only: tc_inv_def)
    then have "tc_inv (log_action PbufFree ?c)" using f by (intro pbuf_free_inv) simp_all
    moreover have "snd (client_recv_func err sync (log_action (ClientData d) c) (Some d)) = log_action PbufFree ?c"
      using False room by (cases "tc_buf c = []") (simp_all add: client_recv_func_def Let_def log_action_def)
    ultimately show ?thesis by simp
  qed
qed

lemma sent_func_inv:
  assumes inv: "tc_inv c" and op: "\<not> tc_client_closed c" and cb: "tc_sent_cb c"
    and n: "0 < n" "n \<le> tc_recv_tcp_pending c" and sy: "sync_ok sync"
  shows "tc_inv (snd (client_sent_func lw sync c n))"
proof -
  let ?c = "c\<lparr>tc_recv_tcp_pending := tc_recv_tcp_pending c - n\<rparr>"
  have up: "tc_socks_up c" "\<not> tc_freed c" using inv op cb by (simp_all add: tc_inv_def tc_ctl_def)
  have cop: "tc_open c" using tc_open_of_inv [OF inv op] .
  have h: "rx ?c = rx c" "tx ?c = tx c" "sr ?c = sr c" "tw ?c = tw c" "recved ?c = recved c"
    by (simp_all add: hist_defs)
  show ?thesis
  proof (cases "tc_recv_used c > 0")
    case True
    let ?c1 = "?c\<lparr>tc_recv_waiting := False\<rparr>"
    have h1: "rx ?c1 = rx c" "tx ?c1 = tx c" "sr ?c1 = sr c" "tw ?c1 = tw c" "recved ?c1 = recved c"
      by (simp_all add: hist_defs)
    have "tc_open ?c1" using cop up unfolding tc_open_def h1 by simp
    then have mid: "tc_mid ?c1"
      using inv op up True unfolding tc_mid_def h1
      by (auto simp: tc_inv_def tc_ctl_def tc_waiting_def tc_data_def)
    obtain ok c' where so: "client_socks_recv_send_out lw ?c1 = (ok, c')" by force
    have res: "snd (client_sent_func lw sync c n) =
        (if \<not> ok then c' else if tc_recv_used c' = -1 \<and> \<not> tc_socks_closed c'
         then sync (client_socks_recv_initiate c') else c')"
      using True so by (simp add: client_sent_func_def Let_def)
    show ?thesis
    proof (cases ok)
      case ok: True
      then have so': "tc_sent_out c'" using send_out_mid [OF mid so] by simp
      show ?thesis
        using sent_out_inv [OF so'] ok sync_inv [OF sy] by (cases "tc_recv_used c' = -1 \<and> \<not> tc_socks_closed c'") (auto simp: res)
    next
      case False
      then show ?thesis using send_out_mid [OF mid so] by (simp add: res)
    qed
  next
    case False
    have used: "tc_recv_used c = -1"
      using False inv op by (auto simp: tc_inv_def tc_waiting_def)
    show ?thesis
    proof (cases "tc_socks_closed c \<and> tc_recv_tcp_pending c - n = 0")
      case True
      have "tc_open ?c" using cop up unfolding tc_open_def h by simp
      moreover have "snd (client_sent_func lw sync c n) = client_free_client (lw_close lw) ?c"
        using True False by (simp add: client_sent_func_def Let_def)
      ultimately show ?thesis using free_client_inv by simp
    next
      case F: False
      have "tc_ctl ?c" "tc_waiting ?c"
        using inv op up F used by (auto simp: tc_inv_def tc_ctl_def tc_waiting_def)
      moreover have "tc_data ?c" "tc_once ?c"
        using inv h by (simp_all add: tc_inv_def tc_data_def tc_once_def)
      moreover have "snd (client_sent_func lw sync c n) = ?c"
        using F False by (auto simp: client_sent_func_def Let_def)
      ultimately show ?thesis by (simp add: tc_inv_def)
    qed
  qed
qed

lemma tc_step_inv: "tc_step c c' \<Longrightarrow> tc_inv c \<Longrightarrow> tc_inv c'"
proof (induction rule: tc_step.induct)
  case (step_fin c err sync)
  then show ?case by (simp add: client_recv_func_def free_client_inv tc_open_of_inv)
next
  case (step_err c err)
  then show ?case by (simp add: client_err_func_def handle_freed_inv tc_open_of_inv)
qed (auto intro: socks_step_inv recv_func_inv sent_func_inv murder_inv)

lemma tc_reachable_inv: "tc_reachable c \<Longrightarrow> tc_inv c"
  by (induction rule: rtranclp_induct) (auto intro: tc_step_inv tc_inv_init)


subsection \<open>Sample states\<close>

definition sample_up :: tcp_client where
  "sample_up = client_socks_handler ERR_OK tcp_client_init SOCKS_UP"

definition sample_data :: tcp_client where
  "sample_data = snd (client_recv_func ERR_OK (\<lambda>c. c) (log_action (ClientData [1, 2]) sample_up) (Some [1, 2]))"

definition sample_fin :: tcp_client where
  "sample_fin = snd (client_recv_func ERR_OK (\<lambda>c. c) sample_data None)"

definition sample_lwip :: lwip_answers where
  "sample_lwip = \<lparr>lw_close = ERR_OK, lw_sndbuf = (\<lambda>_. 2), lw_write = (\<lambda>_. ERR_OK), lw_output = ERR_OK\<rparr>"

definition sample_back :: tcp_client where
  "sample_back = client_socks_recv_handler_done sample_lwip (log_action (SocksData [7]) sample_up) [7]"

definition sample_eof :: tcp_client where
  "sample_eof = client_socks_handler ERR_OK sample_back SOCKS_ERROR_CLOSED"

lemma sample_up_eq:
  "sample_up = tcp_client_init\<lparr>tc_sent_cb := True, tc_socks_up := True, tc_receiving := True, tc_log := [SocksRecv]\<rparr>"
  by (simp add: sample_up_def tcp_client_init_def client_socks_recv_initiate_def log_action_def Let_def)

lemma sample_data_eq:
  "sample_data = sample_up\<lparr>tc_buf := [1, 2], tc_sending := True,
     tc_log := [SocksRecv, ClientData [1, 2], SocksSend [1, 2], PbufFree]\<rparr>"
  by (simp add: sample_data_def sample_up_eq tcp_client_init_def client_recv_func_def client_send_to_socks_def
      log_action_def TCP_WND_def Let_def)

lemma sample_fin_eq:
  "sample_fin = sample_data\<lparr>tc_client_closed := True, tc_recv_cb := False, tc_sent_cb := False,
     tc_log := [SocksRecv, ClientData [1, 2], SocksSend [1, 2], PbufFree, TcpClearCallbacks, TcpClose]\<rparr>"
  by (simp add: sample_fin_def sample_data_eq sample_up_eq tcp_client_init_def client_recv_func_def
      client_free_client.simps handle_freed_eq close_pcb_def clear_callbacks_def log_action_def Let_def)

lemma sample_back_eq:
  "sample_back = sample_up\<lparr>tc_recv_buf := [7], tc_recv_sent := 1, tc_recv_tcp_pending := 1,
     tc_log := [SocksRecv, SocksData [7], TcpWrite [7], TcpOutput, SocksRecv]\<rparr>"
  by (simp add: sample_back_def sample_up_eq tcp_client_init_def client_socks_recv_handler_done_def
      client_socks_recv_send_out_def recv_send_loop.simps sample_lwip_def mem_read_def
      client_socks_recv_initiate_def log_action_def Let_def)

lemma sample_eof_eq:
  "sample_eof = sample_back\<lparr>tc_recv_cb := False, tc_receiving := False, tc_socks_closed := True,
     tc_log := [SocksRecv, SocksData [7], TcpWrite [7], TcpOutput, SocksRecv, TcpRecvNull, SocksFree]\<rparr>"
  by (simp add: sample_eof_def sample_back_eq sample_up_eq tcp_client_init_def client_free_socks.simps
      free_socks_client_def log_action_def Let_def)

lemmas sample_eqs = sample_eof_eq sample_back_eq sample_fin_eq sample_data_eq sample_up_eq tcp_client_init_def

lemma sample_up_step: "tc_step tcp_client_init sample_up"
  unfolding sample_up_def by (rule step_socks, rule socks_event) (simp_all add: tcp_client_init_def)

lemma sync_ok_id: "sync_ok (\<lambda>c. c)"
  by (simp add: sync_ok_def)

lemma sample_data_step: "tc_step sample_up sample_data"
  unfolding sample_data_def
  by (rule step_recv [OF _ _ _ _ sync_ok_id])
    (simp_all add: sample_up_eq tcp_client_init_def window_ok_def hist_defs TCP_WND_def)

lemma sample_fin_step: "tc_step sample_data sample_fin"
  unfolding sample_fin_def by (rule step_fin) (simp_all add: sample_data_eq sample_up_eq tcp_client_init_def)

lemma sample_back_step: "tc_step sample_up sample_back"
  unfolding sample_back_def
  by (rule step_socks, rule socks_data) (simp_all add: sample_up_eq CLIENT_SOCKS_RECV_BUF_SIZE_def)

lemma sample_eof_step: "tc_step sample_back sample_eof"
  unfolding sample_eof_def
  by (rule step_socks, rule socks_event) (simp_all add: sample_back_eq sample_up_eq tcp_client_init_def)

lemma sample_reachable:
  "tc_reachable sample_data" "tc_reachable sample_fin" "tc_reachable sample_back" "tc_reachable sample_eof"
  by (meson r_into_rtranclp rtranclp_trans sample_up_step sample_data_step sample_fin_step
      sample_back_step sample_eof_step)+

subsection \<open>Properties\<close>

text \<open>C13: Upstream order: at every moment, and whatever fails, the bytes the SOCKS connection took
  followed by the bytes still buffered are exactly the bytes received from the client.\<close>

theorem tcp_upstream_in_order:
  assumes "tc_reachable c"
  shows "rx c = tx c @ tc_buf c"
  using tc_reachable_inv [OF assms] by (simp add: tc_inv_def tc_data_def)

theorem tcp_upstream_in_order_witness: "rx sample_fin = tx sample_fin @ tc_buf sample_fin \<and> tc_buf sample_fin = [1, 2]"
  using tcp_upstream_in_order [OF sample_reachable(2)] by (simp add: sample_eqs)

text \<open>C14: Downstream order: while the client's connection is open, the bytes given to \<open>tcp_write\<close>
  followed by the unsent rest of the receive buffer are exactly the bytes received from SOCKS.\<close>

theorem tcp_downstream_in_order:
  assumes "tc_reachable c" "\<not> tc_client_closed c"
  shows "sr c = tw c @ (if 0 \<le> tc_recv_used c then drop (tc_recv_sent c) (tc_recv_buf c) else [])"
  using tc_reachable_inv [OF assms(1)] assms(2) by (simp add: tc_inv_def tc_data_def)

theorem tcp_downstream_in_order_witness: "sr sample_back = tw sample_back \<and> sr sample_back = [7]"
  using tcp_downstream_in_order [OF sample_reachable(3)] by (simp add: sample_eqs hist_defs)

text \<open>Flow control: as long as lwIP delivers no more than \<open>TCP_WND\<close> bytes beyond those confirmed,
  \<open>client_recv_func\<close> finds room in the buffer and never answers \<open>ERR_MEM\<close>.\<close>

theorem tcp_recv_never_refused:
  assumes "tc_reachable c" "\<not> tc_client_closed c" "window_ok c d"
  shows "fst (client_recv_func err sync (log_action (ClientData d) c) (Some d)) \<noteq> ERR_MEM"
  using window_room [OF tc_reachable_inv [OF assms(1)] assms(2,3)]
  by (simp add: client_recv_func_def Let_def log_action_def)

theorem tcp_recv_never_refused_witness:
  "fst (client_recv_func ERR_OK (\<lambda>c. c) (log_action (ClientData [3]) sample_data) (Some [3])) \<noteq> ERR_MEM"
  by (rule tcp_recv_never_refused [OF sample_reachable(1)])
    (simp_all add: sample_eqs window_ok_def hist_defs TCP_WND_def)

text \<open>C16: No use after free and no double free: \<open>client_dealloc\<close> runs exactly when both sides are closed,
  once, and nothing is called on the client afterwards.\<close>

theorem tcp_client_freed_once:
  assumes "tc_reachable c"
  shows "tc_freed c = (tc_client_closed c \<and> tc_socks_closed c) \<and>
    count_list (tc_log c) Dealloc = (if tc_freed c then 1 else 0) \<and>
    (tc_freed c \<longrightarrow> last (tc_log c) = Dealloc)"
  using tc_reachable_inv [OF assms]
  by (auto simp: tc_inv_def tc_ctl_def tc_once_def count_list_0_iff split: if_splits)

theorem tcp_client_freed_once_witness: "\<not> tc_freed sample_eof \<and> count_list (tc_log sample_eof) Dealloc = 0"
  using tcp_client_freed_once [OF sample_reachable(4)] by (simp add: sample_eqs)

text \<open>C15: A client never gets stuck: one that is not freed waits for the SOCKS connection to come up, for
  SOCKS to take or deliver data, or for lwIP to acknowledge data, and the callback for that is registered.\<close>

theorem tcp_client_never_stuck:
  assumes "tc_reachable c" "\<not> tc_freed c"
  shows "(\<not> tc_socks_closed c \<and> (\<not> tc_socks_up c \<or> tc_sending c \<or> tc_receiving c)) \<or>
    (\<not> tc_client_closed c \<and> tc_sent_cb c \<and> 0 < tc_recv_tcp_pending c)"
  using tc_reachable_inv [OF assms(1)] assms(2)
  by (cases "tc_client_closed c"; cases "tc_socks_closed c"; cases "tc_socks_up c")
    (auto simp: tc_inv_def tc_ctl_def tc_waiting_def)

theorem tcp_client_never_stuck_witness:
  "(\<not> tc_socks_closed sample_eof \<and> (\<not> tc_socks_up sample_eof \<or> tc_sending sample_eof \<or> tc_receiving sample_eof)) \<or>
    (\<not> tc_client_closed sample_eof \<and> tc_sent_cb sample_eof \<and> 0 < tc_recv_tcp_pending sample_eof)"
  by (rule tcp_client_never_stuck [OF sample_reachable(4)]) (simp add: sample_eqs)


text \<open>The end of the client's stream loses nothing that is buffered: after it, a client whose SOCKS
  connection is up goes on sending, and when SOCKS has taken the rest the structure is freed with
  everything that was received from the client handed to SOCKS.\<close>

theorem tcp_fin_flushes_buffer:
  assumes "tc_reachable c" "tc_client_closed c" "\<not> tc_freed c" "tc_socks_up c"
    and "c' = client_socks_send_handler_done err (log_action (SocksTook (tc_buf c)) c) (length (tc_buf c))"
  shows "tc_sending c \<and> tc_freed c' \<and> tx c' = rx c"
proof -
  have inv: "tc_inv c" by (rule tc_reachable_inv [OF assms(1)])
  then have s: "\<not> tc_socks_closed c" "tc_buf c \<noteq> []" "rx c = tx c @ tc_buf c"
    using assms(2,3) by (simp_all add: tc_inv_def tc_ctl_def tc_data_def)
  then have send: "tc_sending c" using inv assms(4) by (simp add: tc_inv_def tc_ctl_def)
  have cl: "tc_client_closed (tc_took c (length (tc_buf c)))" using assms(2) by (simp add: tc_took_sel)
  have "c' = client_dealloc ((free_socks_client (tc_took c (length (tc_buf c))))\<lparr>tc_socks_closed := True\<rparr>)"
    using assms(2,5) send_handler_done_eq [of err "length (tc_buf c)" c]
    by (simp add: free_socks_closed_eq [OF cl])
  then show ?thesis
    using send s(3) tc_took_sel(16) [of c "length (tc_buf c)"]
    by (simp_all add: client_dealloc_def free_socks_client_def log_action_def hist_defs)
qed

theorem tcp_fin_flushes_buffer_witness:
  "tx (client_socks_send_handler_done ERR_OK (log_action (SocksTook [1, 2]) sample_fin) 2) = [1, 2]"
  using tcp_fin_flushes_buffer [OF sample_reachable(2), of _ ERR_OK]
  by (simp add: sample_eqs hist_defs numeral_2_eq_2)

text \<open>When SOCKS closes while data for the client is unacknowledged, the acknowledgement of the last
  byte frees the client, with everything received from SOCKS given to \<open>tcp_write\<close>.\<close>

theorem tcp_socks_close_flushes:
  assumes "tc_reachable c" "\<not> tc_client_closed c" "tc_socks_closed c" "tc_recv_used c = -1"
  shows "0 < tc_recv_tcp_pending c \<and> tc_sent_cb c \<and> tw c = sr c \<and>
    fst (client_sent_func lw sync c (tc_recv_tcp_pending c)) = ERR_ABRT \<and>
    tc_freed (snd (client_sent_func lw sync c (tc_recv_tcp_pending c)))"
proof -
  have inv: "tc_inv c" by (rule tc_reachable_inv [OF assms(1)])
  have "0 < tc_recv_tcp_pending c" "tc_sent_cb c" "tw c = sr c"
    using inv assms(2-4) by (auto simp: tc_inv_def tc_ctl_def tc_waiting_def tc_data_def)
  then show ?thesis
    using assms(3,4)
    by (simp add: client_sent_func_def Let_def client_free_client.simps handle_freed_eq close_pcb_def
        clear_callbacks_def client_dealloc_def log_action_def)
qed

theorem tcp_socks_close_flushes_witness:
  "tw sample_eof = [7] \<and> tc_freed (snd (client_sent_func sample_lwip (\<lambda>c. c) sample_eof 1))"
  using tcp_socks_close_flushes [OF sample_reachable(4), of sample_lwip "\<lambda>c. c"]
  by (simp add: sample_eqs hist_defs)

text \<open>The packet buffer leaks when sending to SOCKS closes the client: if \<open>client_recv_func\<close> returns
  \<open>ERR_ABRT\<close> for a segment with data, only the jobs run inside it could have freed a packet buffer,
  and none of them does.\<close>

theorem tcp_recv_abort_leaks_pbuf:
  assumes "fst (client_recv_func err sync c (Some d)) = ERR_ABRT"
    and "\<forall>x. count_list (tc_log (sync x)) PbufFree = count_list (tc_log x) PbufFree"
  shows "count_list (tc_log (snd (client_recv_func err sync c (Some d)))) PbufFree = count_list (tc_log c) PbufFree"
  using assms
  by (auto simp: client_recv_func_def Let_def client_send_to_socks_def log_action_def split: if_splits)

definition sample_kill :: "tcp_client \<Rightarrow> tcp_client" where
  "sample_kill c = client_socks_handler ERR_OK c SOCKS_ERROR"

lemma sample_kill_pbuf: "count_list (tc_log (sample_kill c)) PbufFree = count_list (tc_log c) PbufFree"
  by (cases "tc_client_closed c")
    (simp_all add: sample_kill_def client_free_socks.simps client_free_client.simps handle_freed_eq
      close_pcb_def clear_callbacks_def client_dealloc_def free_socks_client_def log_action_def Let_def)

theorem tcp_recv_abort_leaks_pbuf_witness:
  "count_list (tc_log (snd (client_recv_func ERR_OK sample_kill sample_up (Some [5])))) PbufFree = 0"
proof -
  have "fst (client_recv_func ERR_OK sample_kill sample_up (Some [5])) = ERR_ABRT"
    by (simp add: client_recv_func_def sample_eqs TCP_WND_def client_send_to_socks_def log_action_def
        sample_kill_def client_free_socks.simps client_free_client.simps handle_freed_eq
        close_pcb_def clear_callbacks_def client_dealloc_def free_socks_client_def Let_def)
  from tcp_recv_abort_leaks_pbuf [OF this] show ?thesis by (simp add: sample_kill_pbuf) (simp add: sample_eqs)
qed

end
