(* ===== verification/ChunkBuffer.thy ===== *)
theory ChunkBuffer
  imports ByteOrder
begin

text \<open>
  structure/ChunkBuffer2.h: a circular buffer of length-prefixed packets in an array of 4-byte
  blocks. The array is modelled as bytes; a pointer into it is a byte offset, \<open>NULL\<close> is \<open>None\<close>.
  \<open>cb_rep buf q\<close> says that the structure holds the queue of packets \<open>q\<close>; it contains the
  assertions \<open>_ChunkBuffer2_assert_buffer\<close> and \<open>_ChunkBuffer2_assert_io\<close>, which are compiled out of
  the release build. The operations refine the queue; the buffer never blocks for ever, and one of
  \<open>ChunkBuffer2_calc_blocks len n\<close> blocks accepts a packet whenever it holds fewer than \<open>n\<close>.
\<close>

subsection \<open>The structure\<close>

text \<open>\<open>struct ChunkBuffer2_block\<close> holds one \<open>int\<close>, so its size is 4.\<close>

record ChunkBuffer2 =
  cb_buffer :: "byte list"
  cb_size :: int
  cb_wrap :: int
  cb_start :: int
  cb_used :: int
  cb_mtu :: int
  cb_input_dest :: "nat option"
  cb_input_avail :: int
  cb_output_dest :: "nat option"
  cb_output_avail :: int

text \<open>Storing and loading an \<open>int\<close> object, and the conversion of a \<open>size_t\<close> value to \<open>int\<close>.\<close>

definition int_store :: "int \<Rightarrow> byte list" where
  "int_store i = badvpn_write_le32 (word_of_int i)"

definition int_load :: "byte list \<Rightarrow> int" where
  "int_load p = sint (badvpn_read_le32 p)"

definition size_to_int :: "int \<Rightarrow> int" where
  "size_to_int v = sint (word_of_int v :: u32)"

lemma sint_word_of_int_32: "0 \<le> i \<Longrightarrow> i \<le> INT_MAX \<Longrightarrow> sint (word_of_int i :: u32) = i"
  by (simp add: INT_MAX_def sint_uint uint_word_of_int signed_take_bit_eq_take_bit_shift
      take_bit_eq_mod)

lemma int_load_store [simp]: "0 \<le> i \<Longrightarrow> i \<le> INT_MAX \<Longrightarrow> int_load (int_store i) = i"
  by (simp add: int_load_def int_store_def sint_word_of_int_32)

lemma length_int_store [simp]: "length (int_store i) = 4"
  by (simp add: int_store_def)

lemma size_to_int_id [simp]: "0 \<le> i \<Longrightarrow> i \<le> INT_MAX \<Longrightarrow> size_to_int i = i"
  by (simp add: size_to_int_def sint_word_of_int_32)

subsection \<open>The operations\<close>

definition blocks_of :: "int \<Rightarrow> int" where
  "blocks_of len = int (bdivide_up (nat len) 4)"

definition block_len :: "ChunkBuffer2 \<Rightarrow> int \<Rightarrow> int" where
  "block_len buf i = int_load (mem_read (cb_buffer buf) (4 * nat i) 4)"

definition ChunkBuffer2_end :: "ChunkBuffer2 \<Rightarrow> int" where
  "ChunkBuffer2_end buf =
     (if cb_used buf \<ge> cb_wrap buf - cb_start buf
      then cb_used buf - (cb_wrap buf - cb_start buf)
      else cb_start buf + cb_used buf)"

definition ChunkBuffer2_update_input :: "ChunkBuffer2 \<Rightarrow> ChunkBuffer2" where
  "ChunkBuffer2_update_input buf =
     (let e = ChunkBuffer2_end buf in
      if cb_size buf - e - 1 < cb_mtu buf
      then buf\<lparr>cb_input_dest := None, cb_input_avail := -1\<rparr>
      else let free = (if cb_used buf \<ge> cb_wrap buf - cb_start buf
                       then cb_start buf - e else cb_size buf - e) in
        if free > 0
        then buf\<lparr>cb_input_dest := Some (4 * nat (e + 1)), cb_input_avail := size_to_int ((free - 1) * 4)\<rparr>
        else buf\<lparr>cb_input_dest := None, cb_input_avail := -1\<rparr>)"

definition ChunkBuffer2_update_output :: "ChunkBuffer2 \<Rightarrow> ChunkBuffer2" where
  "ChunkBuffer2_update_output buf =
     (if cb_used buf > 0
      then let datalen = block_len buf (cb_start buf) in
        buf\<lparr>cb_output_dest := Some (4 * nat (cb_start buf + 1)), cb_output_avail := datalen\<rparr>
      else buf\<lparr>cb_output_dest := None, cb_output_avail := -1\<rparr>)"

definition ChunkBuffer2_calc_blocks :: "int \<Rightarrow> int \<Rightarrow> int" where
  "ChunkBuffer2_calc_blocks chunk_len num =
     (let chunk_data_blocks = blocks_of chunk_len in
      if chunk_data_blocks > INT_MAX - 1 then -1
      else let chunk_blocks = 1 + chunk_data_blocks in
      if num > INT_MAX - 1 then -1
      else let num_chunks = num + 1 in
      if chunk_blocks > INT_MAX div num_chunks then -1
      else chunk_blocks * num_chunks)"

text \<open>\<open>buffer\<close> is the uninitialised array the caller allocated.\<close>

definition ChunkBuffer2_Init :: "byte list \<Rightarrow> int \<Rightarrow> int \<Rightarrow> ChunkBuffer2" where
  "ChunkBuffer2_Init buffer blocks mtu =
     ChunkBuffer2_update_output (ChunkBuffer2_update_input
       \<lparr>cb_buffer = buffer, cb_size = blocks, cb_wrap = blocks, cb_start = 0, cb_used = 0,
        cb_mtu = blocks_of mtu, cb_input_dest = None, cb_input_avail = 0,
        cb_output_dest = None, cb_output_avail = 0\<rparr>)"

definition ChunkBuffer2_SubmitPacket :: "ChunkBuffer2 \<Rightarrow> int \<Rightarrow> ChunkBuffer2" where
  "ChunkBuffer2_SubmitPacket buf len =
     (let e = ChunkBuffer2_end buf;
          blocklen = blocks_of len;
          buf = buf\<lparr>cb_buffer := mem_write (cb_buffer buf) (4 * nat e) (int_store len)\<rparr>;
          buf = buf\<lparr>cb_used := cb_used buf + (1 + blocklen)\<rparr>;
          buf = (if cb_used buf \<le> cb_wrap buf - cb_start buf
                   \<and> cb_mtu buf > cb_size buf - (e + 1 + blocklen) - 1
                 then buf\<lparr>cb_wrap := e + 1 + blocklen\<rparr> else buf);
          buf = ChunkBuffer2_update_input buf
      in if cb_used buf = 1 + blocklen then ChunkBuffer2_update_output buf else buf)"

definition ChunkBuffer2_ConsumePacket :: "ChunkBuffer2 \<Rightarrow> ChunkBuffer2" where
  "ChunkBuffer2_ConsumePacket buf =
     (let blocklen = blocks_of (block_len buf (cb_start buf));
          data_wrapped = (cb_used buf \<ge> cb_wrap buf - cb_start buf);
          buf = buf\<lparr>cb_start := cb_start buf + (1 + blocklen)\<rparr>;
          buf = buf\<lparr>cb_used := cb_used buf - (1 + blocklen)\<rparr>;
          buf = (if cb_start buf = cb_wrap buf
                 then buf\<lparr>cb_start := 0, cb_wrap := cb_size buf\<rparr> else buf);
          buf = (if data_wrapped then ChunkBuffer2_update_input buf else buf)
      in ChunkBuffer2_update_output buf)"

text \<open>What the code that fills the buffer does before \<open>SubmitPacket\<close>: it writes at \<open>input_dest\<close>.\<close>

definition ChunkBuffer2_fill :: "ChunkBuffer2 \<Rightarrow> byte list \<Rightarrow> ChunkBuffer2" where
  "ChunkBuffer2_fill buf data =
     (case cb_input_dest buf of
        Some d \<Rightarrow> buf\<lparr>cb_buffer := mem_write (cb_buffer buf) d data\<rparr>
      | None \<Rightarrow> buf)"

text \<open>The packet at \<open>output_dest\<close>.\<close>

definition ChunkBuffer2_front :: "ChunkBuffer2 \<Rightarrow> byte list option" where
  "ChunkBuffer2_front buf =
     (case cb_output_dest buf of
        Some d \<Rightarrow> Some (mem_read (cb_buffer buf) d (nat (cb_output_avail buf)))
      | None \<Rightarrow> None)"

subsection \<open>Packets in memory\<close>

abbreviation pkt_blocks :: "byte list \<Rightarrow> int" where
  "pkt_blocks p \<equiv> blocks_of (int (length p))"

text \<open>\<open>seg m a ps b\<close>: the blocks from \<open>a\<close> up to \<open>b\<close> hold exactly the packets \<open>ps\<close>.\<close>

fun seg :: "byte list \<Rightarrow> int \<Rightarrow> byte list list \<Rightarrow> int \<Rightarrow> bool" where
  "seg m a [] b = (a = b)"
| "seg m a (p # ps) b =
     (mem_read m (4 * nat a) 4 = int_store (int (length p)) \<and>
      mem_read m (4 * nat (a + 1)) (length p) = p \<and> seg m (a + 1 + pkt_blocks p) ps b)"

lemma blocks_of_ge0 [simp]: "0 \<le> blocks_of l"
  by (simp add: blocks_of_def)

lemma blocks_of_ge: "0 \<le> l \<Longrightarrow> l \<le> 4 * blocks_of l"
  using bdivide_up_4_ge [of "nat l"] by (simp add: blocks_of_def)

lemma blocks_of_le:
  assumes "l \<le> 4 * b" "0 \<le> b"
  shows "blocks_of l \<le> b"
proof -
  have "nat l \<le> 4 * nat b" using assms by simp
  from bdivide_up_4_le [OF this] show ?thesis using assms by (simp add: blocks_of_def)
qed

lemma blocks_of_mono: "l \<le> l' \<Longrightarrow> blocks_of l \<le> blocks_of l'"
  using bdivide_up_4_mono [of "nat l" "nat l'"] by (simp add: blocks_of_def nat_mono)

lemma seg_le: "seg m a ps b \<Longrightarrow> a + int (length ps) \<le> b"
proof (induction ps arbitrary: a)
  case (Cons p ps)
  then have "a + 1 + pkt_blocks p + int (length ps) \<le> b" by simp
  then show ?case using blocks_of_ge0 [of "int (length p)"] unfolding list.size by linarith
qed simp

lemma seg_append: "seg m a (ps @ qs) b \<longleftrightarrow> (\<exists>c. seg m a ps c \<and> seg m c qs b)"
  by (induction ps arbitrary: a) auto

text \<open>A write outside the blocks of a segment leaves it alone.\<close>

lemma seg_write:
  assumes "seg m a ps b" "0 \<le> a" "4 * nat b \<le> length m" "off + length d \<le> length m"
    and "off + length d \<le> 4 * nat a \<or> 4 * nat b \<le> off"
  shows "seg (mem_write m off d) a ps b"
  using assms
proof (induction ps arbitrary: a)
  case (Cons p ps)
  let ?a' = "a + 1 + pkt_blocks p"
  have s: "seg m ?a' ps b" using Cons.prems(1) by simp
  have le: "?a' \<le> b" "0 \<le> ?a'" "a < ?a'"
    using seg_le [OF s] Cons.prems(2) blocks_of_ge0 [of "int (length p)"] by linarith+
  have pl: "int (length p) \<le> 4 * pkt_blocks p" by (rule blocks_of_ge) simp
  have "seg (mem_write m off d) ?a' ps b"
    using Cons.IH [OF s le(2)] Cons.prems le by linarith
  moreover have "off + length d \<le> 4 * nat a \<or> 4 * nat a + 4 \<le> off"
    using Cons.prems le by linarith
  moreover have "off + length d \<le> 4 * nat (a + 1) \<or> 4 * nat (a + 1) + length p \<le> off"
    using Cons.prems(2,5) le pl by linarith
  ultimately show ?case
    using Cons.prems(1,4) mem_read_write_disjoint [of off d m "4 * nat a" 4]
      mem_read_write_disjoint [of off d m "4 * nat (a + 1)" "length p"] by (metis seg.simps(2))
qed simp

subsection \<open>The representation invariant\<close>

text \<open>The two input fields and the two output fields are what the update functions compute.\<close>

definition io_ok :: "ChunkBuffer2 \<Rightarrow> bool" where
  "io_ok buf \<longleftrightarrow> ChunkBuffer2_update_input buf = buf \<and> ChunkBuffer2_update_output buf = buf"

text \<open>
  Either the packets lie in one run of blocks after which a packet of \<open>mtu\<close> blocks still fits, or
  they fill the blocks from \<open>start\<close> to \<open>wrap\<close> and go on at block 0. In the second case the last
  packet before \<open>wrap\<close> began where \<open>mtu\<close> blocks fitted.
\<close>

definition cb_linear :: "ChunkBuffer2 \<Rightarrow> byte list list \<Rightarrow> bool" where
  "cb_linear buf q \<longleftrightarrow> cb_used buf < cb_wrap buf - cb_start buf \<and> cb_wrap buf = cb_size buf \<and>
     seg (cb_buffer buf) (cb_start buf) q (cb_start buf + cb_used buf) \<and>
     cb_mtu buf \<le> cb_size buf - (cb_start buf + cb_used buf) - 1"

definition cb_wrapped :: "ChunkBuffer2 \<Rightarrow> byte list list \<Rightarrow> byte list \<Rightarrow> byte list list \<Rightarrow> int \<Rightarrow> bool" where
  "cb_wrapped buf q1 p q2 sl \<longleftrightarrow> cb_used buf \<ge> cb_wrap buf - cb_start buf \<and>
     seg (cb_buffer buf) (cb_start buf) q1 sl \<and> seg (cb_buffer buf) sl [p] (cb_wrap buf) \<and>
     seg (cb_buffer buf) 0 q2 (cb_used buf - (cb_wrap buf - cb_start buf)) \<and>
     cb_mtu buf \<le> cb_size buf - sl - 1 \<and> cb_size buf - cb_wrap buf - 1 < cb_mtu buf"

definition cb_bounds :: "ChunkBuffer2 \<Rightarrow> bool" where
  "cb_bounds buf \<longleftrightarrow> 0 < cb_size buf \<and> 0 < cb_wrap buf \<and> cb_wrap buf \<le> cb_size buf \<and>
     0 \<le> cb_start buf \<and> cb_start buf < cb_wrap buf \<and> 0 \<le> cb_used buf \<and> cb_used buf \<le> cb_wrap buf \<and>
     0 \<le> cb_mtu buf \<and> length (cb_buffer buf) = 4 * nat (cb_size buf) \<and> 4 * cb_size buf \<le> INT_MAX"

definition cb_data :: "ChunkBuffer2 \<Rightarrow> byte list list \<Rightarrow> bool" where
  "cb_data buf q \<longleftrightarrow> cb_bounds buf \<and>
     (\<forall>p \<in> set q. pkt_blocks p \<le> cb_mtu buf \<and> int (length p) \<le> INT_MAX) \<and>
     (cb_linear buf q \<or> (\<exists>q1 p q2 sl. q = q1 @ p # q2 \<and> cb_wrapped buf q1 p q2 sl))"

definition cb_rep :: "ChunkBuffer2 \<Rightarrow> byte list list \<Rightarrow> bool" where
  "cb_rep buf q \<longleftrightarrow> cb_data buf q \<and> io_ok buf"

lemma update_input_sel [simp]:
  "cb_buffer (ChunkBuffer2_update_input b) = cb_buffer b"
  "cb_size (ChunkBuffer2_update_input b) = cb_size b"
  "cb_wrap (ChunkBuffer2_update_input b) = cb_wrap b"
  "cb_start (ChunkBuffer2_update_input b) = cb_start b"
  "cb_used (ChunkBuffer2_update_input b) = cb_used b"
  "cb_mtu (ChunkBuffer2_update_input b) = cb_mtu b"
  "cb_output_dest (ChunkBuffer2_update_input b) = cb_output_dest b"
  "cb_output_avail (ChunkBuffer2_update_input b) = cb_output_avail b"
  by (simp_all add: ChunkBuffer2_update_input_def Let_def)

lemma update_output_sel [simp]:
  "cb_buffer (ChunkBuffer2_update_output b) = cb_buffer b"
  "cb_size (ChunkBuffer2_update_output b) = cb_size b"
  "cb_wrap (ChunkBuffer2_update_output b) = cb_wrap b"
  "cb_start (ChunkBuffer2_update_output b) = cb_start b"
  "cb_used (ChunkBuffer2_update_output b) = cb_used b"
  "cb_mtu (ChunkBuffer2_update_output b) = cb_mtu b"
  "cb_input_dest (ChunkBuffer2_update_output b) = cb_input_dest b"
  "cb_input_avail (ChunkBuffer2_update_output b) = cb_input_avail b"
  by (simp_all add: ChunkBuffer2_update_output_def Let_def)

text \<open>What the two functions store, as functions of the other fields.\<close>

definition input_of :: "ChunkBuffer2 \<Rightarrow> nat option \<times> int" where
  "input_of buf =
     (let e = ChunkBuffer2_end buf;
          free = (if cb_used buf \<ge> cb_wrap buf - cb_start buf then cb_start buf - e else cb_size buf - e) in
      if cb_size buf - e - 1 < cb_mtu buf then (None, -1)
      else if free > 0 then (Some (4 * nat (e + 1)), size_to_int ((free - 1) * 4))
      else (None, -1))"

definition output_of :: "ChunkBuffer2 \<Rightarrow> nat option \<times> int" where
  "output_of buf =
     (if cb_used buf > 0 then (Some (4 * nat (cb_start buf + 1)), block_len buf (cb_start buf))
      else (None, -1))"

lemma update_input_of:
  "ChunkBuffer2_update_input b = b\<lparr>cb_input_dest := fst (input_of b), cb_input_avail := snd (input_of b)\<rparr>"
  by (simp add: ChunkBuffer2_update_input_def input_of_def Let_def)

lemma update_output_of:
  "ChunkBuffer2_update_output b = b\<lparr>cb_output_dest := fst (output_of b), cb_output_avail := snd (output_of b)\<rparr>"
  by (simp add: ChunkBuffer2_update_output_def output_of_def Let_def)

lemma end_update [simp]:
  "ChunkBuffer2_end (b\<lparr>cb_input_dest := x, cb_input_avail := y\<rparr>) = ChunkBuffer2_end b"
  "ChunkBuffer2_end (b\<lparr>cb_output_dest := x, cb_output_avail := y\<rparr>) = ChunkBuffer2_end b"
  by (simp_all add: ChunkBuffer2_end_def)

lemma input_of_update [simp]:
  "input_of (b\<lparr>cb_input_dest := x, cb_input_avail := y\<rparr>) = input_of b"
  "input_of (b\<lparr>cb_output_dest := x, cb_output_avail := y\<rparr>) = input_of b"
  by (simp_all add: input_of_def Let_def cong: if_cong)

lemma output_of_update [simp]:
  "output_of (b\<lparr>cb_input_dest := x, cb_input_avail := y\<rparr>) = output_of b"
  "output_of (b\<lparr>cb_output_dest := x, cb_output_avail := y\<rparr>) = output_of b"
  by (simp_all add: output_of_def block_len_def)

lemma update_idem [simp]:
  "ChunkBuffer2_update_input (ChunkBuffer2_update_input b) = ChunkBuffer2_update_input b"
  "ChunkBuffer2_update_output (ChunkBuffer2_update_output b) = ChunkBuffer2_update_output b"
  by (simp_all add: update_input_of update_output_of)

lemma update_commute:
  "ChunkBuffer2_update_input (ChunkBuffer2_update_output b) =
   ChunkBuffer2_update_output (ChunkBuffer2_update_input b)"
  by (simp add: update_input_of update_output_of)

lemma io_ok_both [simp]: "io_ok (ChunkBuffer2_update_output (ChunkBuffer2_update_input b))"
  by (simp add: io_ok_def update_commute)

lemma cb_data_update [simp]:
  "cb_data (ChunkBuffer2_update_input b) q = cb_data b q"
  "cb_data (ChunkBuffer2_update_output b) q = cb_data b q"
  by (simp_all add: cb_data_def cb_bounds_def cb_linear_def cb_wrapped_def)

text \<open>The packets split at the wrap, uniformly in the first packet.\<close>

lemma cb_data_front:
  assumes "cb_data buf (p # q)"
  shows "block_len buf (cb_start buf) = int (length p)"
    "mem_read (cb_buffer buf) (4 * nat (cb_start buf + 1)) (length p) = p" "0 < cb_used buf"
proof -
  have p: "int (length p) \<le> INT_MAX" and bd: "cb_bounds buf" using assms by (simp_all add: cb_data_def)
  have "\<exists>ps b. seg (cb_buffer buf) (cb_start buf) (p # ps) b \<and> 0 < cb_used buf"
  proof (cases "cb_linear buf (p # q)")
    case True
    then have s: "seg (cb_buffer buf) (cb_start buf) (p # q) (cb_start buf + cb_used buf)"
      by (simp add: cb_linear_def)
    then show ?thesis using seg_le [OF s] by fastforce
  next
    case False
    then obtain q1 p' q2 sl where e: "p # q = q1 @ p' # q2" and w: "cb_wrapped buf q1 p' q2 sl"
      using assms by (auto simp: cb_data_def)
    have "seg (cb_buffer buf) (cb_start buf) (q1 @ [p']) (cb_wrap buf)"
      unfolding seg_append using w by (auto simp: cb_wrapped_def)
    moreover have "q1 @ [p'] = p # tl (q1 @ [p'])" using e by (cases q1) auto
    moreover have "0 < cb_used buf" using w bd by (simp add: cb_wrapped_def cb_bounds_def)
    ultimately show ?thesis by metis
  qed
  then show "block_len buf (cb_start buf) = int (length p)" "0 < cb_used buf"
    "mem_read (cb_buffer buf) (4 * nat (cb_start buf + 1)) (length p) = p"
    using p by (auto simp: block_len_def)
qed

lemma cb_data_empty: "cb_data buf [] \<Longrightarrow> cb_used buf = 0 \<and> cb_linear buf []"
  by (auto simp: cb_data_def cb_linear_def)

lemma cb_used_0_iff: "cb_data buf q \<Longrightarrow> cb_used buf = 0 \<longleftrightarrow> q = []"
  using cb_data_empty cb_data_front(3) by (cases q) force+

lemma output_fields:
  assumes "cb_rep buf q"
  shows "cb_output_dest buf = (if q = [] then None else Some (4 * nat (cb_start buf + 1)))"
    "cb_output_avail buf = (if q = [] then -1 else int (length (hd q)))"
proof -
  have d: "cb_data buf q" and u: "ChunkBuffer2_update_output buf = buf"
    using assms by (simp_all add: cb_rep_def io_ok_def)
  show "cb_output_dest buf = (if q = [] then None else Some (4 * nat (cb_start buf + 1)))"
    "cb_output_avail buf = (if q = [] then -1 else int (length (hd q)))"
    using cb_data_empty [of buf] cb_data_front [of buf "hd q" "tl q"] d
    by (subst u [symmetric], auto simp: ChunkBuffer2_update_output_def Let_def)+
qed

theorem cb_front: "cb_rep buf q \<Longrightarrow> ChunkBuffer2_front buf = (if q = [] then None else Some (hd q))"
  using output_fields [of buf q] cb_data_front(2) [of buf "hd q" "tl q"]
  by (auto simp: ChunkBuffer2_front_def cb_rep_def)

subsection \<open>Free space\<close>

lemma linear_end:
  "cb_linear buf q \<Longrightarrow> ChunkBuffer2_end buf = cb_start buf + cb_used buf"
  by (simp add: cb_linear_def ChunkBuffer2_end_def)

lemma wrapped_end:
  "cb_wrapped buf q1 p q2 sl \<Longrightarrow> ChunkBuffer2_end buf = cb_used buf - (cb_wrap buf - cb_start buf)"
  by (simp add: cb_wrapped_def ChunkBuffer2_end_def)

lemma wrapped_order:
  assumes "cb_bounds buf" "cb_wrapped buf q1 p q2 sl"
  shows "0 \<le> ChunkBuffer2_end buf" "ChunkBuffer2_end buf \<le> cb_start buf" "cb_start buf \<le> sl"
    "cb_mtu buf \<le> cb_size buf - ChunkBuffer2_end buf - 1"
proof -
  have "cb_start buf + int (length q1) \<le> sl"
    using assms(2) by (intro seg_le [of "cb_buffer buf"]) (simp add: cb_wrapped_def)
  then show "cb_start buf \<le> sl" by simp
  then show "0 \<le> ChunkBuffer2_end buf" "ChunkBuffer2_end buf \<le> cb_start buf"
    "cb_mtu buf \<le> cb_size buf - ChunkBuffer2_end buf - 1"
    using assms by (simp_all add: wrapped_end [OF assms(2)] cb_bounds_def cb_wrapped_def)
qed

text \<open>The number of free blocks from the end of the packets on.\<close>

definition cb_free :: "ChunkBuffer2 \<Rightarrow> int" where
  "cb_free buf = (if cb_used buf \<ge> cb_wrap buf - cb_start buf
                  then cb_start buf - ChunkBuffer2_end buf else cb_size buf - ChunkBuffer2_end buf)"

lemma cb_data_end:
  assumes "cb_data buf q"
  shows "0 \<le> ChunkBuffer2_end buf" "0 \<le> cb_free buf" "ChunkBuffer2_end buf + cb_free buf \<le> cb_size buf"
    "cb_mtu buf \<le> cb_size buf - ChunkBuffer2_end buf - 1"
proof -
  have b: "cb_bounds buf" using assms by (simp add: cb_data_def)
  have "0 \<le> ChunkBuffer2_end buf \<and> 0 \<le> cb_free buf \<and> ChunkBuffer2_end buf + cb_free buf \<le> cb_size buf
      \<and> cb_mtu buf \<le> cb_size buf - ChunkBuffer2_end buf - 1"
  proof (cases "cb_linear buf q")
    case True
    then show ?thesis
      using b linear_end [OF True] by (simp add: cb_free_def cb_linear_def cb_bounds_def)
  next
    case False
    then obtain q1 p q2 sl where w: "cb_wrapped buf q1 p q2 sl" using assms by (auto simp: cb_data_def)
    then have "cb_wrap buf - cb_start buf \<le> cb_used buf" by (simp add: cb_wrapped_def)
    then show ?thesis
      using wrapped_order [OF b w] b by (simp add: cb_free_def cb_bounds_def)
  qed
  then show "0 \<le> ChunkBuffer2_end buf" "0 \<le> cb_free buf" "ChunkBuffer2_end buf + cb_free buf \<le> cb_size buf"
    "cb_mtu buf \<le> cb_size buf - ChunkBuffer2_end buf - 1" by simp_all
qed

lemma input_fields:
  assumes "cb_rep buf q"
  shows "cb_input_dest buf = (if 0 < cb_free buf then Some (4 * nat (ChunkBuffer2_end buf + 1)) else None)"
    "cb_input_avail buf = (if 0 < cb_free buf then (cb_free buf - 1) * 4 else -1)"
proof -
  have d: "cb_data buf q" and u: "ChunkBuffer2_update_input buf = buf"
    using assms by (simp_all add: cb_rep_def io_ok_def)
  have b: "4 * cb_size buf \<le> INT_MAX" using d by (simp add: cb_data_def cb_bounds_def)
  note e = cb_data_end [OF d]
  have i: "0 < cb_free buf \<Longrightarrow> size_to_int ((cb_free buf - 1) * 4) = (cb_free buf - 1) * 4"
  proof (intro size_to_int_id)
    assume f: "0 < cb_free buf"
    then show "0 \<le> (cb_free buf - 1) * 4" by simp
    have "(cb_free buf - 1) * 4 \<le> 4 * cb_size buf" using e by simp
    then show "(cb_free buf - 1) * 4 \<le> INT_MAX" using b by simp
  qed
  show "cb_input_dest buf = (if 0 < cb_free buf then Some (4 * nat (ChunkBuffer2_end buf + 1)) else None)"
    "cb_input_avail buf = (if 0 < cb_free buf then (cb_free buf - 1) * 4 else -1)"
    using e(4) i
    by (subst u [symmetric], simp add: ChunkBuffer2_update_input_def Let_def cb_free_def [symmetric])+
qed

subsection \<open>Submitting\<close>

lemma submit_sel [simp]:
  "cb_buffer (ChunkBuffer2_SubmitPacket buf len) =
     mem_write (cb_buffer buf) (4 * nat (ChunkBuffer2_end buf)) (int_store len)"
  "cb_size (ChunkBuffer2_SubmitPacket buf len) = cb_size buf"
  "cb_start (ChunkBuffer2_SubmitPacket buf len) = cb_start buf"
  "cb_mtu (ChunkBuffer2_SubmitPacket buf len) = cb_mtu buf"
  "cb_used (ChunkBuffer2_SubmitPacket buf len) = cb_used buf + (1 + blocks_of len)"
  "cb_wrap (ChunkBuffer2_SubmitPacket buf len) =
     (if cb_used buf + (1 + blocks_of len) \<le> cb_wrap buf - cb_start buf \<and>
         cb_mtu buf > cb_size buf - (ChunkBuffer2_end buf + 1 + blocks_of len) - 1
      then ChunkBuffer2_end buf + 1 + blocks_of len else cb_wrap buf)"
  by (simp_all add: ChunkBuffer2_SubmitPacket_def Let_def)

lemma fill_sel [simp]:
  "cb_size (ChunkBuffer2_fill buf d) = cb_size buf"
  "cb_start (ChunkBuffer2_fill buf d) = cb_start buf"
  "cb_mtu (ChunkBuffer2_fill buf d) = cb_mtu buf"
  "cb_used (ChunkBuffer2_fill buf d) = cb_used buf"
  "cb_wrap (ChunkBuffer2_fill buf d) = cb_wrap buf"
  "cb_input_dest (ChunkBuffer2_fill buf d) = cb_input_dest buf"
  "cb_input_avail (ChunkBuffer2_fill buf d) = cb_input_avail buf"
  "cb_output_dest (ChunkBuffer2_fill buf d) = cb_output_dest buf"
  "cb_output_avail (ChunkBuffer2_fill buf d) = cb_output_avail buf"
  "ChunkBuffer2_end (ChunkBuffer2_fill buf d) = ChunkBuffer2_end buf"
  by (simp_all add: ChunkBuffer2_fill_def ChunkBuffer2_end_def split: option.split)

text \<open>The memory after filling and submitting a packet at block \<open>e\<close>.\<close>

definition put_packet :: "byte list \<Rightarrow> int \<Rightarrow> byte list \<Rightarrow> byte list" where
  "put_packet m e d = mem_write (mem_write m (4 * nat (e + 1)) d) (4 * nat e) (int_store (int (length d)))"

lemma put_packet:
  assumes "0 \<le> e" "4 * nat (e + 1) + length d \<le> length m"
  shows "length (put_packet m e d) = length m"
    "seg (put_packet m e d) e [d] (e + 1 + pkt_blocks d)"
proof -
  have n: "4 * nat (e + 1) = 4 * nat e + 4" using assms(1) by simp
  have l: "4 * nat e + 4 \<le> length m" using assms(2) n by linarith
  then show "length (put_packet m e d) = length m" using assms n by (simp add: put_packet_def)
  show "seg (put_packet m e d) e [d] (e + 1 + pkt_blocks d)"
    using assms l n by (simp add: put_packet_def mem_read_write_same mem_read_write_after)
qed

lemma seg_put_packet:
  assumes "seg m a ps b" "0 \<le> a" "4 * nat b \<le> length m" "0 \<le> e"
    and "4 * nat (e + 1) + length d \<le> length m" "b \<le> e \<or> e + 1 + pkt_blocks d \<le> a"
  shows "seg (put_packet m e d) a ps b"
proof -
  have n: "4 * nat (e + 1) = 4 * nat e + 4" using assms(4) by simp
  have "int (length d) \<le> 4 * pkt_blocks d" by (rule blocks_of_ge) simp
  then have o: "4 * nat (e + 1) + length d \<le> 4 * nat a \<or> 4 * nat b \<le> 4 * nat e"
    using assms(2,4,6) by linarith
  then have s: "seg (mem_write m (4 * nat (e + 1)) d) a ps b"
    using assms n by (intro seg_write) linarith+
  show ?thesis
    unfolding put_packet_def
    using o n assms by (intro seg_write [OF s]) (simp_all, linarith)
qed

lemma submit_data:
  assumes d: "cb_data buf q" and free: "0 < cb_free buf" "int (length d) \<le> (cb_free buf - 1) * 4"
    and dest: "cb_input_dest buf = Some (4 * nat (ChunkBuffer2_end buf + 1))"
    and mtu: "pkt_blocks d \<le> cb_mtu buf"
  shows "cb_data (ChunkBuffer2_SubmitPacket (ChunkBuffer2_fill buf d) (int (length d))) (q @ [d])"
    (is "cb_data ?b _")
proof -
  let ?e = "ChunkBuffer2_end buf" and ?m = "cb_buffer buf" and ?k = "pkt_blocks d"
  have bd: "cb_bounds buf" and pk: "\<forall>p \<in> set q. pkt_blocks p \<le> cb_mtu buf \<and> int (length p) \<le> INT_MAX"
    using d by (simp_all add: cb_data_def)
  note e = cb_data_end [OF d]
  have k: "0 \<le> ?k" "?k \<le> cb_free buf - 1"
    using free by (simp, intro blocks_of_le) simp_all
  have lm: "length ?m = 4 * nat (cb_size buf)" using bd by (simp add: cb_bounds_def)
  have fit: "4 * nat (?e + 1) + length d \<le> length ?m"
  proof -
    have "int (4 * nat (?e + 1) + length d) = 4 * (?e + 1) + int (length d)" using e(1) by simp
    also have "\<dots> \<le> 4 * cb_size buf" using e(3) free by simp
    also have "\<dots> = int (length ?m)" using bd by (simp add: cb_bounds_def)
    finally show ?thesis by (simp only: of_nat_le_iff)
  qed
  have m: "cb_buffer ?b = put_packet ?m ?e d"
    by (simp add: ChunkBuffer2_fill_def dest put_packet_def ChunkBuffer2_end_def)
  note put = put_packet [OF e(1) fit]
  note keep = seg_put_packet [where m = "?m" and e = "?e" and d = d, OF _ _ _ e(1) fit]
  have imax: "int (length d) \<le> INT_MAX"
    using free e bd by (simp add: cb_bounds_def)
  then have pk': "\<forall>p \<in> set (q @ [d]). pkt_blocks p \<le> cb_mtu ?b \<and> int (length p) \<le> INT_MAX"
    using pk mtu by auto
  show ?thesis
  proof (cases "cb_linear buf q")
    case True
    then have u: "cb_used buf < cb_wrap buf - cb_start buf" "cb_wrap buf = cb_size buf"
      and s: "seg ?m (cb_start buf) q ?e" and es: "?e = cb_start buf + cb_used buf"
      using linear_end [OF True] by (simp_all add: cb_linear_def)
    have f: "cb_free buf = cb_size buf - ?e" using u by (simp add: cb_free_def)
    have s1: "seg (cb_buffer ?b) (cb_start buf) q ?e"
      unfolding m using s bd lm e by (intro keep) (simp_all add: cb_bounds_def)
    have s2: "seg (cb_buffer ?b) ?e [d] (?e + 1 + ?k)" unfolding m by (rule put)
    have s3: "seg (cb_buffer ?b) (cb_start buf) (q @ [d]) (?e + 1 + ?k)"
      unfolding seg_append using s1 s2 by blast
    have bd': "cb_bounds ?b"
      using bd k f u es e put(1) lm m by (auto simp: cb_bounds_def)
    show ?thesis
    proof (cases "cb_mtu buf > cb_size buf - (?e + 1 + ?k) - 1")
      case True
      have "cb_wrapped ?b q d [] ?e"
        using True s1 s2 f u es e k by (simp add: cb_wrapped_def)
      then show ?thesis using bd' pk' unfolding cb_data_def by blast
    next
      case False
      have "cb_linear ?b (q @ [d])"
        using False s3 f u es e k bd by (simp add: cb_linear_def cb_bounds_def add.assoc)
      then show ?thesis using bd' pk' unfolding cb_data_def by blast
    qed
  next
    case False
    then obtain q1 p q2 sl where q: "q = q1 @ p # q2" and w: "cb_wrapped buf q1 p q2 sl"
      using d by (auto simp: cb_data_def)
    have u: "cb_wrap buf - cb_start buf \<le> cb_used buf" using w by (simp add: cb_wrapped_def)
    note o = wrapped_order [OF bd w] and we = wrapped_end [OF w]
    have f: "cb_free buf = cb_start buf - ?e" using u by (simp add: cb_free_def)
    have s: "seg ?m (cb_start buf) q1 sl" "seg ?m sl [p] (cb_wrap buf)" "seg ?m 0 q2 ?e"
      using w we by (simp_all add: cb_wrapped_def)
    have slw: "sl \<le> cb_wrap buf" using seg_le [OF s(2)] by simp
    have bnd: "0 \<le> cb_start buf" "cb_wrap buf \<le> cb_size buf" using bd by (simp_all add: cb_bounds_def)
    have nat4: "4 * nat sl \<le> length ?m" "4 * nat (cb_wrap buf) \<le> length ?m" "4 * nat ?e \<le> length ?m"
      using slw bnd lm e by (simp_all add: nat_mono)
    have s1: "seg (cb_buffer ?b) (cb_start buf) q1 sl"
      unfolding m using nat4 o k f by (intro keep [OF s(1) bnd(1)]) simp_all
    have s2: "seg (cb_buffer ?b) sl [p] (cb_wrap buf)"
      unfolding m using nat4 o k f bnd(1) order_trans [OF bnd(1) o(3)] by (intro keep [OF s(2)]) simp_all
    have s3: "seg (cb_buffer ?b) 0 q2 ?e"
      unfolding m using nat4 by (intro keep [OF s(3)]) simp_all
    have s4: "seg (cb_buffer ?b) 0 (q2 @ [d]) (?e + 1 + ?k)"
      unfolding seg_append using s3 put(2) m by auto
    have "\<not> cb_used buf + (1 + ?k) \<le> cb_wrap buf - cb_start buf" using u k by linarith
    then have wr: "cb_wrap ?b = cb_wrap buf" by simp
    have bd': "cb_bounds ?b"
      using bd k f u o we put(1) lm m wr by (simp add: cb_bounds_def)
    have ub: "cb_used ?b - (cb_wrap buf - cb_start buf) = ?e + 1 + ?k"
      and uge: "cb_wrap buf - cb_start buf \<le> cb_used ?b"
      using we u k unfolding submit_sel fill_sel by linarith+
    have st: "cb_start ?b = cb_start buf" "cb_mtu ?b = cb_mtu buf" "cb_size ?b = cb_size buf"
      by simp_all
    have "cb_mtu buf \<le> cb_size buf - sl - 1 \<and> cb_size buf - cb_wrap buf - 1 < cb_mtu buf"
      using w by (simp add: cb_wrapped_def)
    then have "cb_wrapped ?b q1 p (q2 @ [d]) sl"
      unfolding cb_wrapped_def wr st ub using s1 s2 s4 uge by blast
    then show ?thesis using bd' pk' q unfolding cb_data_def by fastforce
  qed
qed

lemma io_ok_iff:
  "io_ok buf \<longleftrightarrow> (cb_input_dest buf, cb_input_avail buf) = input_of buf \<and>
     (cb_output_dest buf, cb_output_avail buf) = output_of buf"
  by (cases buf) (auto simp: io_ok_def update_input_of update_output_of prod_eq_iff)

lemma submit_io:
  "cb_output_dest (ChunkBuffer2_SubmitPacket buf len) =
     (if cb_used buf = 0 then fst (output_of (ChunkBuffer2_SubmitPacket buf len)) else cb_output_dest buf)"
  "cb_output_avail (ChunkBuffer2_SubmitPacket buf len) =
     (if cb_used buf = 0 then snd (output_of (ChunkBuffer2_SubmitPacket buf len)) else cb_output_avail buf)"
  "(cb_input_dest (ChunkBuffer2_SubmitPacket buf len), cb_input_avail (ChunkBuffer2_SubmitPacket buf len)) =
     input_of (ChunkBuffer2_SubmitPacket buf len)"
  by (simp_all add: ChunkBuffer2_SubmitPacket_def Let_def update_input_of update_output_of)

lemma cb_submit:
  assumes r: "cb_rep buf q" and avail: "int (length d) \<le> cb_input_avail buf" "pkt_blocks d \<le> cb_mtu buf"
  shows "cb_rep (ChunkBuffer2_SubmitPacket (ChunkBuffer2_fill buf d) (int (length d))) (q @ [d])"
    (is "cb_rep ?b _")
proof -
  note i = input_fields [OF r]
  have f: "0 < cb_free buf" using avail(1) i(2) by (simp split: if_splits)
  have d: "cb_data buf q" using r by (simp add: cb_rep_def)
  have d': "cb_data ?b (q @ [d])"
    using avail f i by (intro submit_data [OF d]) simp_all
  have "(cb_output_dest ?b, cb_output_avail ?b) = output_of ?b"
  proof (cases "q = []")
    case True
    then have "cb_used buf = 0" using cb_used_0_iff [OF d] by simp
    then show ?thesis
      using submit_io(1,2) [of "ChunkBuffer2_fill buf d" "int (length d)"] by (simp add: prod_eq_iff)
  next
    case False
    then have u: "cb_used buf \<noteq> 0" using cb_used_0_iff [OF d] by simp
    have "q @ [d] = hd q # tl q @ [d]" using False by simp
    then have "block_len ?b (cb_start ?b) = int (length (hd q))" "0 < cb_used ?b"
      using cb_data_front [of ?b "hd q" "tl q @ [d]"] d' by (simp_all only:)
    then have "output_of ?b = (Some (4 * nat (cb_start buf + 1)), int (length (hd q)))"
      by (simp only: output_of_def) simp
    then show ?thesis
      using submit_io(1,2) [of "ChunkBuffer2_fill buf d" "int (length d)"] u output_fields [OF r] False
      by simp
  qed
  then show ?thesis
    using d' submit_io(3) [of "ChunkBuffer2_fill buf d" "int (length d)"]
    by (simp add: cb_rep_def io_ok_iff)
qed

subsection \<open>Consuming\<close>

lemma consume_sel [simp]:
  "cb_buffer (ChunkBuffer2_ConsumePacket buf) = cb_buffer buf"
  "cb_size (ChunkBuffer2_ConsumePacket buf) = cb_size buf"
  "cb_mtu (ChunkBuffer2_ConsumePacket buf) = cb_mtu buf"
  "cb_used (ChunkBuffer2_ConsumePacket buf) = cb_used buf - (1 + blocks_of (block_len buf (cb_start buf)))"
  "cb_start (ChunkBuffer2_ConsumePacket buf) =
     (if cb_start buf + (1 + blocks_of (block_len buf (cb_start buf))) = cb_wrap buf then 0
      else cb_start buf + (1 + blocks_of (block_len buf (cb_start buf))))"
  "cb_wrap (ChunkBuffer2_ConsumePacket buf) =
     (if cb_start buf + (1 + blocks_of (block_len buf (cb_start buf))) = cb_wrap buf then cb_size buf
      else cb_wrap buf)"
  by (simp_all add: ChunkBuffer2_ConsumePacket_def Let_def)

lemma consume_io:
  "(cb_output_dest (ChunkBuffer2_ConsumePacket buf), cb_output_avail (ChunkBuffer2_ConsumePacket buf)) =
     output_of (ChunkBuffer2_ConsumePacket buf)"
  "(cb_input_dest (ChunkBuffer2_ConsumePacket buf), cb_input_avail (ChunkBuffer2_ConsumePacket buf)) =
     (if cb_used buf \<ge> cb_wrap buf - cb_start buf then input_of (ChunkBuffer2_ConsumePacket buf)
      else (cb_input_dest buf, cb_input_avail buf))"
  by (simp_all add: ChunkBuffer2_ConsumePacket_def Let_def update_input_of update_output_of)

lemma consume_linear:
  assumes "cb_bounds buf" "cb_linear buf (p # q)" "block_len buf (cb_start buf) = int (length p)"
  shows "cb_bounds (ChunkBuffer2_ConsumePacket buf)" "cb_linear (ChunkBuffer2_ConsumePacket buf) q"
    "input_of (ChunkBuffer2_ConsumePacket buf) = input_of buf"
proof -
  let ?k = "pkt_blocks p"
  have s: "seg (cb_buffer buf) (cb_start buf + 1 + ?k) q (cb_start buf + cb_used buf)"
    and u: "cb_used buf < cb_wrap buf - cb_start buf" "cb_wrap buf = cb_size buf"
    using assms(2) by (simp_all add: cb_linear_def)
  have le: "cb_start buf + 1 + ?k \<le> cb_start buf + cb_used buf" using seg_le [OF s] by simp
  have n: "cb_start buf + (1 + ?k) \<noteq> cb_wrap buf" using le u by simp
  have k: "0 \<le> ?k" by simp
  show "cb_bounds (ChunkBuffer2_ConsumePacket buf)"
    using assms(1) le u n k unfolding cb_bounds_def consume_sel assms(3) by (simp del: blocks_of_ge0)
  show l: "cb_linear (ChunkBuffer2_ConsumePacket buf) q"
    using assms(2) s le u n by (simp add: cb_linear_def assms(3) algebra_simps)
  have "ChunkBuffer2_end (ChunkBuffer2_ConsumePacket buf) = ChunkBuffer2_end buf"
    using linear_end [OF l] linear_end [OF assms(2)] n by (simp add: assms(3))
  moreover have "\<not> cb_used (ChunkBuffer2_ConsumePacket buf) \<ge>
      cb_wrap (ChunkBuffer2_ConsumePacket buf) - cb_start (ChunkBuffer2_ConsumePacket buf)"
    using l by (simp add: cb_linear_def del: consume_sel)
  ultimately show "input_of (ChunkBuffer2_ConsumePacket buf) = input_of buf"
    using u by (simp add: input_of_def Let_def del: consume_sel(4-6))
qed

lemma consume_wrapped:
  assumes "cb_bounds buf" "cb_wrapped buf q1 p' q2 sl" "p # q = q1 @ p' # q2"
    and "block_len buf (cb_start buf) = int (length p)"
  shows "cb_bounds (ChunkBuffer2_ConsumePacket buf)"
    "cb_linear (ChunkBuffer2_ConsumePacket buf) q \<or>
     (\<exists>q1' sl'. q = q1' @ p' # q2 \<and> cb_wrapped (ChunkBuffer2_ConsumePacket buf) q1' p' q2 sl')"
proof -
  let ?k = "pkt_blocks p" and ?b = "ChunkBuffer2_ConsumePacket buf"
  have u: "cb_wrap buf - cb_start buf \<le> cb_used buf"
    and s2: "seg (cb_buffer buf) sl [p'] (cb_wrap buf)"
    and s3: "seg (cb_buffer buf) 0 q2 (cb_used buf - (cb_wrap buf - cb_start buf))"
    using assms(2) by (simp_all add: cb_wrapped_def)
  note o = wrapped_order [OF assms(1,2)] and we = wrapped_end [OF assms(2)]
  have k: "0 \<le> ?k" by simp
  have "cb_bounds ?b \<and> (cb_linear ?b q \<or> (\<exists>q1' sl'. q = q1' @ p' # q2 \<and> cb_wrapped ?b q1' p' q2 sl'))"
  proof (cases q1)
    case Nil
    then have e: "p' = p" "q2 = q" and sl: "sl = cb_start buf"
      using assms(2,3) by (simp_all add: cb_wrapped_def)
    have w: "cb_start buf + (1 + ?k) = cb_wrap buf" using s2 e sl by simp
    have ue: "cb_used buf - (1 + ?k) = ChunkBuffer2_end buf" using w we by simp
    have "cb_bounds ?b"
      using assms(1) o w ue unfolding cb_bounds_def consume_sel assms(4) by simp
    moreover have "seg (cb_buffer buf) 0 q (cb_used buf - (1 + ?k))"
      unfolding ue we using s3 e by simp
    then have "cb_linear ?b q"
      using o w ue assms(1) unfolding cb_linear_def consume_sel assms(4)
      by (simp add: cb_bounds_def)
    ultimately show ?thesis by simp
  next
    case (Cons x q1')
    then have x: "x = p" "q = q1' @ p' # q2" using assms(3) by simp_all
    have s1: "seg (cb_buffer buf) (cb_start buf + 1 + ?k) q1' sl"
      using assms(2) Cons x by (simp add: cb_wrapped_def)
    have le: "cb_start buf + 1 + ?k \<le> sl" using seg_le [OF s1] by simp
    have slw: "sl < cb_wrap buf" using seg_le [OF s2] by simp
    have n: "cb_start buf + (1 + ?k) \<noteq> cb_wrap buf" using le slw by simp
    have "cb_bounds ?b"
      using assms(1) le slw n u k unfolding cb_bounds_def consume_sel assms(4) by (simp del: blocks_of_ge0)
    moreover have "cb_wrapped ?b q1' p' q2 sl"
      using assms(2) s1 n u unfolding cb_wrapped_def consume_sel assms(4) by (simp add: algebra_simps)
    ultimately show ?thesis using x by blast
  qed
  then show "cb_bounds ?b"
    "cb_linear ?b q \<or> (\<exists>q1' sl'. q = q1' @ p' # q2 \<and> cb_wrapped ?b q1' p' q2 sl')" by simp_all
qed

lemma cb_consume:
  assumes r: "cb_rep buf (p # q)"
  shows "cb_rep (ChunkBuffer2_ConsumePacket buf) q"
proof -
  let ?b = "ChunkBuffer2_ConsumePacket buf"
  have d: "cb_data buf (p # q)" and io: "io_ok buf" using r by (simp_all add: cb_rep_def)
  have bd: "cb_bounds buf" and pk: "\<forall>p \<in> set q. pkt_blocks p \<le> cb_mtu ?b \<and> int (length p) \<le> INT_MAX"
    using d by (simp_all add: cb_data_def)
  note bl = cb_data_front(1) [OF d]
  show ?thesis
  proof (cases "cb_linear buf (p # q)")
    case True
    note c = consume_linear [OF bd True bl]
    have "\<not> cb_used buf \<ge> cb_wrap buf - cb_start buf" using True by (simp add: cb_linear_def)
    then have "io_ok ?b"
      using consume_io [of buf] c(3) io by (simp add: io_ok_iff)
    then show ?thesis using c(1,2) pk by (simp add: cb_rep_def cb_data_def)
  next
    case False
    then obtain q1 p' q2 sl where e: "p # q = q1 @ p' # q2" and w: "cb_wrapped buf q1 p' q2 sl"
      using d by (auto simp: cb_data_def)
    note c = consume_wrapped [OF bd w e bl]
    have "cb_used buf \<ge> cb_wrap buf - cb_start buf" using w by (simp add: cb_wrapped_def)
    then have "io_ok ?b" using consume_io [of buf] by (simp add: io_ok_iff)
    then show ?thesis using c pk unfolding cb_rep_def cb_data_def by blast
  qed
qed

subsection \<open>Initialisation and capacity\<close>

lemma cb_init:
  assumes "0 \<le> mtu" "blocks_of mtu + 1 \<le> blocks" "4 * blocks \<le> INT_MAX"
    and "length buffer = 4 * nat blocks"
  shows "cb_rep (ChunkBuffer2_Init buffer blocks mtu) []"
  using assms blocks_of_ge0 [of mtu]
  by (simp add: ChunkBuffer2_Init_def cb_rep_def cb_data_def cb_bounds_def cb_linear_def del: blocks_of_ge0)

lemma init_sel [simp]:
  "cb_mtu (ChunkBuffer2_Init buffer blocks mtu) = blocks_of mtu"
  "cb_size (ChunkBuffer2_Init buffer blocks mtu) = blocks"
  by (simp_all add: ChunkBuffer2_Init_def)

lemma calc_blocks:
  assumes "0 \<le> len" "0 < num" "0 \<le> ChunkBuffer2_calc_blocks len num"
  shows "ChunkBuffer2_calc_blocks len num = (1 + blocks_of len) * (num + 1)"
    "ChunkBuffer2_calc_blocks len num \<le> INT_MAX"
proof -
  show c: "ChunkBuffer2_calc_blocks len num = (1 + blocks_of len) * (num + 1)"
    using assms(3) by (simp add: ChunkBuffer2_calc_blocks_def Let_def split: if_splits)
  have "1 + blocks_of len \<le> INT_MAX div (num + 1)"
    using assms(3) by (simp add: ChunkBuffer2_calc_blocks_def Let_def split: if_splits)
  then have "(1 + blocks_of len) * (num + 1) \<le> (INT_MAX div (num + 1)) * (num + 1)"
    using assms(2) by (intro mult_right_mono) simp_all
  also have "\<dots> \<le> INT_MAX"
    using assms(2) by (metis add.commute add_increasing pos_mod_sign div_mult_mod_eq le_add_same_cancel1
      less_add_one order_less_trans zero_less_one)
  finally show "ChunkBuffer2_calc_blocks len num \<le> INT_MAX" unfolding c .
qed

lemma seg_length:
  assumes "seg m a ps b" "\<forall>p \<in> set ps. pkt_blocks p \<le> k"
  shows "b - a \<le> int (length ps) * (1 + k)"
  using assms
proof (induction ps arbitrary: a)
  case (Cons p ps)
  then have "b - (a + 1 + pkt_blocks p) \<le> int (length ps) * (1 + k)" by simp
  moreover have "pkt_blocks p \<le> k" using Cons.prems by simp
  ultimately show ?case by (simp add: algebra_simps)
qed simp

text \<open>An empty buffer accepts a packet of the MTU.\<close>

lemma cb_empty_accepts:
  assumes "cb_rep buf []"
  shows "4 * cb_mtu buf \<le> cb_input_avail buf"
proof -
  have d: "cb_data buf []" using assms by (simp add: cb_rep_def)
  have l: "cb_linear buf []" using cb_data_empty [OF d] by simp
  have "cb_mtu buf + 1 \<le> cb_free buf"
    using cb_data_end(4) [OF d] l by (simp add: cb_free_def cb_linear_def)
  moreover have "0 \<le> cb_mtu buf" using d by (simp add: cb_data_def cb_bounds_def)
  ultimately show ?thesis using input_fields(2) [OF assms] by simp
qed

lemma cb_capacity:
  assumes r: "cb_rep buf q" and sz: "cb_size buf = (1 + cb_mtu buf) * (num + 1)"
    and q: "int (length q) < num"
  shows "4 * cb_mtu buf \<le> cb_input_avail buf"
proof -
  have d: "cb_data buf q" using r by (simp add: cb_rep_def)
  have bd: "cb_bounds buf" and pk: "\<forall>p \<in> set q. pkt_blocks p \<le> cb_mtu buf"
    using d by (simp_all add: cb_data_def)
  then have m: "0 \<le> cb_mtu buf" by (simp add: cb_bounds_def)
  have "cb_mtu buf + 1 \<le> cb_free buf"
  proof (cases "cb_linear buf q")
    case True
    then show ?thesis using cb_data_end(4) [OF d] by (simp add: cb_free_def cb_linear_def)
  next
    case False
    then obtain q1 p q2 sl where e: "q = q1 @ p # q2" and w: "cb_wrapped buf q1 p q2 sl"
      using d by (auto simp: cb_data_def)
    let ?u = "cb_used buf - (cb_wrap buf - cb_start buf)"
    have s: "seg (cb_buffer buf) (cb_start buf) (q1 @ [p]) (cb_wrap buf)" "seg (cb_buffer buf) 0 q2 ?u"
      unfolding seg_append using w by (auto simp: cb_wrapped_def)
    have "cb_wrap buf - cb_start buf \<le> int (length (q1 @ [p])) * (1 + cb_mtu buf)"
      using pk e by (intro seg_length [OF s(1)]) auto
    moreover have "?u - 0 \<le> int (length q2) * (1 + cb_mtu buf)"
      using pk e by (intro seg_length [OF s(2)]) auto
    ultimately have "cb_used buf \<le> int (length q) * (1 + cb_mtu buf)"
      unfolding e by (simp add: algebra_simps)
    also have "\<dots> \<le> (num - 1) * (1 + cb_mtu buf)"
      using q m by (intro mult_right_mono) simp_all
    finally have u: "cb_used buf + 2 * (1 + cb_mtu buf) \<le> cb_size buf"
      unfolding sz by (simp add: algebra_simps)
    have "cb_size buf - cb_mtu buf \<le> cb_wrap buf" "cb_free buf = cb_wrap buf - cb_used buf"
      using w wrapped_end [OF w] by (simp_all add: cb_wrapped_def cb_free_def)
    then show ?thesis using u m by arith
  qed
  then show ?thesis using input_fields(2) [OF r] m by simp
qed

text \<open>Consuming a packet while a receive into \<open>input_dest\<close> is under way leaves that pointer and the
  space after it.\<close>

lemma consume_keeps_input:
  assumes r: "cb_rep buf (p # q)" and dest: "cb_input_dest buf = Some d"
  shows "cb_input_dest (ChunkBuffer2_ConsumePacket buf) = Some d"
    "cb_input_avail buf \<le> cb_input_avail (ChunkBuffer2_ConsumePacket buf)"
proof -
  let ?b = "ChunkBuffer2_ConsumePacket buf"
  have d: "cb_data buf (p # q)" using r by (simp add: cb_rep_def)
  have bd: "cb_bounds buf" using d by (simp add: cb_data_def)
  note bl = cb_data_front(1) [OF d]
  note r' = cb_consume [OF r]
  have f: "0 < cb_free buf" using input_fields(1) [OF r] dest by (simp split: if_splits)
  have "ChunkBuffer2_end ?b = ChunkBuffer2_end buf \<and> cb_free buf \<le> cb_free ?b"
  proof (cases "cb_linear buf (p # q)")
    case True
    have l': "cb_linear ?b q" by (rule consume_linear(2) [OF bd True bl])
    have u: "cb_used buf < cb_wrap buf - cb_start buf" "cb_used ?b < cb_wrap ?b - cb_start ?b"
      "cb_wrap ?b = cb_size ?b" "cb_wrap buf = cb_size buf"
      using True l' by (simp_all add: cb_linear_def del: consume_sel(4-6))
    have s: "seg (cb_buffer buf) (cb_start buf + 1 + pkt_blocks p) q (cb_start buf + cb_used buf)"
      using True by (simp add: cb_linear_def)
    have n: "cb_start buf + (1 + pkt_blocks p) \<noteq> cb_wrap buf" using seg_le [OF s] u by simp
    have "ChunkBuffer2_end ?b = ChunkBuffer2_end buf"
      using linear_end [OF l'] linear_end [OF True] n by (simp add: bl)
    then show ?thesis using u by (simp add: cb_free_def del: consume_sel(4-6))
  next
    case False
    then obtain q1 p' q2 sl where e: "p # q = q1 @ p' # q2" and w: "cb_wrapped buf q1 p' q2 sl"
      using d by (auto simp: cb_data_def)
    have u: "cb_wrap buf - cb_start buf \<le> cb_used buf" using w by (simp add: cb_wrapped_def)
    note o = wrapped_order [OF bd w] and we = wrapped_end [OF w]
    have k: "0 \<le> pkt_blocks p" by simp
    show ?thesis
    proof (cases "cb_start buf + (1 + pkt_blocks p) = cb_wrap buf")
      case True
      have ub: "cb_used ?b = ChunkBuffer2_end buf" using True we by (simp add: bl)
      have "ChunkBuffer2_end ?b = ChunkBuffer2_end buf"
        using True ub o bd by (simp add: ChunkBuffer2_end_def [of ?b] bl cb_bounds_def del: consume_sel(4))
      moreover have "cb_free ?b = cb_size buf - ChunkBuffer2_end buf"
        using True ub o bd calculation by (simp add: cb_free_def bl cb_bounds_def del: consume_sel(4))
      moreover have "cb_free buf \<le> cb_size buf - ChunkBuffer2_end buf"
        using cb_data_end(3) [OF d] by simp
      ultimately show ?thesis by simp
    next
      case False
      then have "ChunkBuffer2_end ?b = ChunkBuffer2_end buf"
        using u we by (simp add: ChunkBuffer2_end_def [of ?b] bl)
      then show ?thesis using u k False by (simp add: cb_free_def bl)
    qed
  qed
  then show "cb_input_dest ?b = Some d" "cb_input_avail buf \<le> cb_input_avail ?b"
    using input_fields [OF r] input_fields [OF r'] f dest by auto
qed

end
