(* ===== verification/PacketFifo.thy ===== *)
theory PacketFifo
  imports Main
begin

text \<open>
  The contract of a packet queue as its clients see it: what is put in when there is room comes out
  in order, unchanged, once. ChunkBuffer2 and PacketBuffer are shown to keep it.
\<close>

datatype 'a fifo_op = Put 'a | Get

text \<open>
  A client's calls: a \<open>Put\<close> for which there is no room and a \<open>Get\<close> with nothing in front are not
  made. The result is the final state, what was put in and what was taken out.
\<close>

fun fifo_run :: "('s \<Rightarrow> 'a \<Rightarrow> 's) \<Rightarrow> ('s \<Rightarrow> 's) \<Rightarrow> ('s \<Rightarrow> 'a option) \<Rightarrow> ('s \<Rightarrow> 'a \<Rightarrow> bool) \<Rightarrow>
    's \<Rightarrow> 'a fifo_op list \<Rightarrow> 's \<times> 'a list \<times> 'a list" where
  "fifo_run put get front room s [] = (s, [], [])"
| "fifo_run put get front room s (Put x # ops) =
     (if room s x then
        let (s', ins, outs) = fifo_run put get front room (put s x) ops in (s', x # ins, outs)
      else fifo_run put get front room s ops)"
| "fifo_run put get front room s (Get # ops) =
     (case front s of
        Some x \<Rightarrow>
          let (s', ins, outs) = fifo_run put get front room (get s) ops in (s', ins, x # outs)
      | None \<Rightarrow> fifo_run put get front room s ops)"

locale packet_fifo =
  fixes rep :: "'s \<Rightarrow> 'a list \<Rightarrow> bool"
    and put :: "'s \<Rightarrow> 'a \<Rightarrow> 's"
    and get :: "'s \<Rightarrow> 's"
    and front :: "'s \<Rightarrow> 'a option"
    and room :: "'s \<Rightarrow> 'a \<Rightarrow> bool"
  assumes put_rep: "rep s q \<Longrightarrow> room s x \<Longrightarrow> rep (put s x) (q @ [x])"
    and get_rep: "rep s (x # q) \<Longrightarrow> rep (get s) q"
    and front_rep: "rep s q \<Longrightarrow> front s = (if q = [] then None else Some (hd q))"
begin

lemma run_rep:
  assumes "rep s q" "fifo_run put get front room s ops = (s', ins, outs)"
  shows "\<exists>q'. rep s' q' \<and> q @ ins = outs @ q'"
  using assms
proof (induction ops arbitrary: s q ins outs)
  case (Cons op ops)
  show ?case
  proof (cases op)
    case (Put x)
    show ?thesis
    proof (cases "room s x")
      case True
      obtain ins' where r: "fifo_run put get front room (put s x) ops = (s', ins', outs)" "ins = x # ins'"
        using Cons.prems(2) Put True by (auto split: prod.splits)
      then show ?thesis using Cons.IH [OF put_rep [OF Cons.prems(1) True] r(1)] by simp
    next
      case False
      then show ?thesis using Cons.IH [OF Cons.prems(1)] Cons.prems(2) Put by simp
    qed
  next
    case Get
    show ?thesis
    proof (cases q)
      case Nil
      then have "front s = None" using front_rep [OF Cons.prems(1)] by simp
      then show ?thesis using Cons.IH [OF Cons.prems(1)] Cons.prems(2) Get by simp
    next
      case (Cons x q')
      then have f: "front s = Some x" using front_rep [OF Cons.prems(1)] by simp
      obtain outs' where r: "fifo_run put get front room (get s) ops = (s', ins, outs')" "outs = x # outs'"
        using Cons.prems(2) Get f by (auto split: prod.splits)
      have "rep (get s) q'" using get_rep Cons.prems(1) Cons by blast
      then show ?thesis using Cons.IH [OF _ r(1)] r(2) Cons by auto
    qed
  qed
qed simp

lemma run_prefix:
  assumes "rep s []" "fifo_run put get front room s ops = (s', ins, outs)"
  shows "\<exists>rest. ins = outs @ rest \<and> (outs = ins \<longleftrightarrow> front s' = None)"
proof -
  obtain q' where q: "rep s' q'" "ins = outs @ q'" using run_rep [OF assms] by auto
  then show ?thesis using front_rep [OF q(1)] by auto
qed

end

end
