(* ===== verification/PacketBuffer.thy ===== *)
theory PacketBuffer
  imports ChunkBuffer PacketFifo
begin

text \<open>
  flow/PacketBuffer.c: a packet queue between a \<open>PacketRecvInterface\<close> and a \<open>PacketPassInterface\<close>,
  built on ChunkBuffer2. The state of the two interfaces as the buffer sees it is the operation it
  has pending at each: the destination of the receive, the packet of the send.
\<close>

interpretation cb: packet_fifo cb_rep
  "\<lambda>b d. ChunkBuffer2_SubmitPacket (ChunkBuffer2_fill b d) (int (length d))"
  ChunkBuffer2_ConsumePacket ChunkBuffer2_front
  "\<lambda>b d. int (length d) \<le> cb_input_avail b \<and> pkt_blocks d \<le> cb_mtu b"
  by unfold_locales (auto simp: cb_submit cb_consume cb_front)

record PacketBuffer =
  pb_input_mtu :: int
  pb_buf :: ChunkBuffer2
  pb_recv :: "nat option"
  pb_send :: "(nat \<times> int) option"

definition pb_Recv :: "PacketBuffer \<Rightarrow> PacketBuffer" where
  "pb_Recv b = b\<lparr>pb_recv := cb_input_dest (pb_buf b)\<rparr>"

definition pb_Send :: "PacketBuffer \<Rightarrow> PacketBuffer" where
  "pb_Send b = b\<lparr>pb_send := map_option (\<lambda>d. (d, cb_output_avail (pb_buf b))) (cb_output_dest (pb_buf b))\<rparr>"

definition pb_input_handler_done :: "PacketBuffer \<Rightarrow> int \<Rightarrow> PacketBuffer" where
  "pb_input_handler_done b in_len =
     (let was_empty = (cb_output_avail (pb_buf b) < 0);
          b = b\<lparr>pb_buf := ChunkBuffer2_SubmitPacket (pb_buf b) in_len\<rparr>;
          b = (if cb_input_avail (pb_buf b) \<ge> pb_input_mtu b then pb_Recv b else b)
      in if was_empty then pb_Send b else b)"

definition pb_output_handler_done :: "PacketBuffer \<Rightarrow> PacketBuffer" where
  "pb_output_handler_done b =
     (let was_full = (cb_input_avail (pb_buf b) < pb_input_mtu b);
          b = b\<lparr>pb_buf := ChunkBuffer2_ConsumePacket (pb_buf b)\<rparr>;
          b = (if was_full \<and> cb_input_avail (pb_buf b) \<ge> pb_input_mtu b then pb_Recv b else b)
      in if cb_output_avail (pb_buf b) \<ge> 0 then pb_Send b else b)"

text \<open>\<open>alloc n\<close> is the array \<open>BAllocArray\<close> returns for \<open>n\<close> blocks, \<open>None\<close> when it fails.\<close>

definition PacketBuffer_Init :: "(int \<Rightarrow> byte list option) \<Rightarrow> int \<Rightarrow> int \<Rightarrow> PacketBuffer option" where
  "PacketBuffer_Init alloc input_mtu num_packets =
     (let num_blocks = ChunkBuffer2_calc_blocks input_mtu num_packets in
      if num_blocks < 0 then None
      else case alloc num_blocks of
        None \<Rightarrow> None
      | Some buf_data \<Rightarrow>
          Some (pb_Recv \<lparr>pb_input_mtu = input_mtu,
            pb_buf = ChunkBuffer2_Init buf_data num_blocks input_mtu, pb_recv = None, pb_send = None\<rparr>))"

text \<open>
  The two events: the sender of the input interface has stored a packet at the destination of the
  pending receive and completes it, and the receiver of the output interface completes the send.
\<close>

definition pb_received :: "PacketBuffer \<Rightarrow> byte list \<Rightarrow> PacketBuffer" where
  "pb_received b d =
     (case pb_recv b of
        Some dest \<Rightarrow> pb_input_handler_done
          (b\<lparr>pb_recv := None,
             pb_buf := (pb_buf b)\<lparr>cb_buffer := mem_write (cb_buffer (pb_buf b)) dest d\<rparr>\<rparr>) (int (length d))
      | None \<Rightarrow> b)"

definition pb_sent :: "PacketBuffer \<Rightarrow> PacketBuffer" where
  "pb_sent b = pb_output_handler_done (b\<lparr>pb_send := None\<rparr>)"

text \<open>The packet the receiver of the output interface is given.\<close>

definition pb_front :: "PacketBuffer \<Rightarrow> byte list option" where
  "pb_front b = map_option (\<lambda>(d, n). mem_read (cb_buffer (pb_buf b)) d (nat n)) (pb_send b)"

definition pb_room :: "PacketBuffer \<Rightarrow> byte list \<Rightarrow> bool" where
  "pb_room b d \<longleftrightarrow> pb_recv b \<noteq> None \<and> int (length d) \<le> pb_input_mtu b"

text \<open>A receive is pending exactly when a packet of the MTU fits, a send exactly when there is a packet.\<close>

definition pb_rep :: "PacketBuffer \<Rightarrow> byte list list \<Rightarrow> bool" where
  "pb_rep b q \<longleftrightarrow> cb_rep (pb_buf b) q \<and> 0 \<le> pb_input_mtu b \<and>
     cb_mtu (pb_buf b) = blocks_of (pb_input_mtu b) \<and>
     pb_recv b = (if pb_input_mtu b \<le> cb_input_avail (pb_buf b) then cb_input_dest (pb_buf b) else None) \<and>
     pb_send b = (if q = [] then None else
       Some (4 * nat (cb_start (pb_buf b) + 1), int (length (hd q))))"

lemma input_dest_avail:
  "cb_rep buf q \<Longrightarrow> cb_input_dest buf = None \<longleftrightarrow> cb_input_avail buf < 0"
  using input_fields [of buf q] by auto

lemma pb_recv_None:
  "pb_rep b q \<Longrightarrow> pb_recv b = None \<longleftrightarrow> cb_input_avail (pb_buf b) < pb_input_mtu b"
  using input_dest_avail [of "pb_buf b" q] by (auto simp: pb_rep_def)

lemma pb_Send_rep:
  "cb_rep (pb_buf b) q \<Longrightarrow>
   pb_Send b = b\<lparr>pb_send := (if q = [] then None else
     Some (4 * nat (cb_start (pb_buf b) + 1), int (length (hd q))))\<rparr>"
  using output_fields [of "pb_buf b" q] by (simp add: pb_Send_def)

lemma pb_received_rep:
  assumes r: "pb_rep b q" and room: "pb_room b d"
  shows "pb_rep (pb_received b d) (q @ [d])"
proof -
  let ?buf = "pb_buf b"
  have cr: "cb_rep ?buf q" and mtu: "cb_mtu ?buf = blocks_of (pb_input_mtu b)"
    using r by (simp_all add: pb_rep_def)
  have av: "pb_input_mtu b \<le> cb_input_avail ?buf" "pb_recv b = cb_input_dest ?buf"
    using r room by (auto simp: pb_rep_def pb_room_def split: if_splits)
  then obtain dest where dest: "cb_input_dest ?buf = Some dest"
    using room by (auto simp: pb_room_def)
  let ?sub = "ChunkBuffer2_SubmitPacket (ChunkBuffer2_fill ?buf d) (int (length d))"
  have l: "int (length d) \<le> pb_input_mtu b" using room by (simp add: pb_room_def)
  have cr': "cb_rep ?sub (q @ [d])"
    using av l mtu by (intro cb_submit [OF cr]) (simp_all add: blocks_of_mono)
  have e: "(cb_output_avail ?buf < 0) = (q = [])" using output_fields(2) [OF cr] by simp
  have st: "cb_start ?sub = cb_start ?buf" "cb_mtu ?sub = cb_mtu ?buf" by simp_all
  have w: "?buf\<lparr>cb_buffer := mem_write (cb_buffer ?buf) dest d\<rparr> = ChunkBuffer2_fill ?buf d"
    by (simp add: ChunkBuffer2_fill_def dest)
  have "pb_received b d = (let b' = b\<lparr>pb_recv := None, pb_buf := ?sub\<rparr>;
      b' = (if cb_input_avail ?sub \<ge> pb_input_mtu b then pb_Recv b' else b')
    in if q = [] then pb_Send b' else b')"
    using av dest e by (simp add: pb_received_def pb_input_handler_done_def w Let_def)
  then show ?thesis
    using r cr' st output_fields [OF cr']
    by (auto simp: pb_rep_def pb_Recv_def pb_Send_def Let_def hd_append simp del: submit_sel)
qed

lemma pb_sent_rep:
  assumes r: "pb_rep b (p # q)"
  shows "pb_rep (pb_sent b) q"
proof -
  let ?buf = "pb_buf b"
  let ?con = "ChunkBuffer2_ConsumePacket ?buf"
  have cr: "cb_rep ?buf (p # q)" and mtu: "cb_mtu ?buf = blocks_of (pb_input_mtu b)"
    using r by (simp_all add: pb_rep_def)
  note cr' = cb_consume [OF cr]
  note o = output_fields [OF cr']
  have keep: "pb_recv b = cb_input_dest ?con \<and> pb_input_mtu b \<le> cb_input_avail ?con"
    if le: "pb_input_mtu b \<le> cb_input_avail ?buf"
  proof -
    obtain d where d: "cb_input_dest ?buf = Some d"
      using le input_dest_avail [OF cr] r by (cases "cb_input_dest ?buf") (auto simp: pb_rep_def)
    then show ?thesis
      using consume_keeps_input [OF cr d] le r by (simp add: pb_rep_def)
  qed
  have none: "pb_recv b = None" if "\<not> pb_input_mtu b \<le> cb_input_avail ?buf"
    using that r by (simp add: pb_rep_def)
  show ?thesis
    using r cr' o keep none mtu
    by (auto simp: pb_sent_def pb_output_handler_done_def pb_rep_def pb_Recv_def pb_Send_def Let_def not_le
        simp del: consume_sel(4-6))
qed

lemma pb_front_rep: "pb_rep b q \<Longrightarrow> pb_front b = (if q = [] then None else Some (hd q))"
  using cb_data_front(2) [of "pb_buf b" "hd q" "tl q"]
  by (cases q) (simp_all add: pb_front_def pb_rep_def cb_rep_def)

interpretation pb: packet_fifo pb_rep pb_received pb_sent pb_front pb_room
  by unfold_locales (auto simp: pb_received_rep pb_sent_rep pb_front_rep)

lemma pb_init_rep:
  assumes "PacketBuffer_Init alloc input_mtu num_packets = Some b"
    and "0 \<le> input_mtu" "0 < num_packets"
    and "\<And>n d. alloc n = Some d \<Longrightarrow> length d = 4 * nat n \<and> 4 * n \<le> INT_MAX"
  shows "pb_rep b []" "cb_size (pb_buf b) = (1 + cb_mtu (pb_buf b)) * (num_packets + 1)"
    "pb_input_mtu b = input_mtu" "pb_recv b \<noteq> None"
proof -
  let ?n = "ChunkBuffer2_calc_blocks input_mtu num_packets"
  obtain d where n: "0 \<le> ?n" and d: "alloc ?n = Some d"
    and b: "b = pb_Recv \<lparr>pb_input_mtu = input_mtu,
            pb_buf = ChunkBuffer2_Init d ?n input_mtu, pb_recv = None, pb_send = None\<rparr>"
    using assms(1) by (auto simp: PacketBuffer_Init_def Let_def split: if_splits option.splits)
  have c: "?n = (1 + blocks_of input_mtu) * (num_packets + 1)"
    by (rule calc_blocks(1) [OF assms(2,3) n])
  have "(1 + blocks_of input_mtu) * 1 \<le> (1 + blocks_of input_mtu) * (num_packets + 1)"
    using assms(3) by (intro mult_left_mono) simp_all
  then have cr: "cb_rep (ChunkBuffer2_Init d ?n input_mtu) []"
    using assms(2) assms(4) [OF d] c by (intro cb_init) simp_all
  have "input_mtu \<le> 4 * blocks_of input_mtu" using assms(2) by (rule blocks_of_ge)
  then have av: "input_mtu \<le> cb_input_avail (ChunkBuffer2_Init d ?n input_mtu)"
    using cb_empty_accepts [OF cr] by simp
  then have dest: "cb_input_dest (ChunkBuffer2_Init d ?n input_mtu) \<noteq> None"
    using input_dest_avail [OF cr] assms(2) by simp
  show "pb_rep b []" using cr av assms(2) by (simp add: b pb_rep_def pb_Recv_def)
  show "cb_size (pb_buf b) = (1 + cb_mtu (pb_buf b)) * (num_packets + 1)"
    by (simp add: b pb_Recv_def c)
  show "pb_input_mtu b = input_mtu" by (simp add: b pb_Recv_def)
  show "pb_recv b \<noteq> None" using dest by (simp add: b pb_Recv_def)
qed

text \<open>Completing a send leaves a pending receive as it is.\<close>

lemma pb_sent_keeps_recv:
  assumes pr: "pb_rep b (x # q)" and pd: "pb_recv b \<noteq> None"
  shows "pb_recv (pb_sent b) = pb_recv b"
proof -
  have av: "pb_input_mtu b \<le> cb_input_avail (pb_buf b)" "cb_input_dest (pb_buf b) = pb_recv b"
    and c: "cb_rep (pb_buf b) (x # q)"
    using pr pd by (auto simp: pb_rep_def split: if_splits)
  then obtain d where d: "cb_input_dest (pb_buf b) = Some d" using pd by auto
  have "pb_buf (pb_sent b) = ChunkBuffer2_ConsumePacket (pb_buf b)"
    "pb_input_mtu (pb_sent b) = pb_input_mtu b"
    by (simp_all add: pb_sent_def pb_output_handler_done_def pb_Recv_def pb_Send_def Let_def)
  then show ?thesis using consume_keeps_input [OF c d] pb_sent_rep [OF pr] av d by (simp add: pb_rep_def)
qed

text \<open>The destination of a pending receive has room for a packet of the MTU.\<close>

lemma recv_in_memory:
  assumes "pb_rep b q" "pb_recv b = Some d"
  shows "d + nat (pb_input_mtu b) \<le> length (cb_buffer (pb_buf b))"
proof -
  have r: "cb_rep (pb_buf b) q" and m: "pb_input_mtu b \<le> cb_input_avail (pb_buf b)" "0 \<le> pb_input_mtu b"
    and dest: "cb_input_dest (pb_buf b) = Some d"
    using assms by (auto simp: pb_rep_def split: if_splits)
  have dt: "cb_data (pb_buf b) q" using r by (simp add: cb_rep_def)
  note i = input_fields [OF r] and e = cb_data_end [OF dt]
  have f: "0 < cb_free (pb_buf b)" and d: "d = 4 * nat (ChunkBuffer2_end (pb_buf b) + 1)"
    using i(1) dest by (simp_all split: if_splits)
  have "int (d + nat (pb_input_mtu b)) = 4 * (ChunkBuffer2_end (pb_buf b) + 1) + pb_input_mtu b"
    using d e(1) m(2) by simp
  also have "\<dots> \<le> 4 * cb_size (pb_buf b)" using m(1) i(2) f e(3) by simp
  also have "\<dots> = int (length (cb_buffer (pb_buf b)))"
    using dt by (simp add: cb_data_def cb_bounds_def)
  finally show ?thesis by (simp only: of_nat_le_iff)
qed

subsection \<open>Properties\<close>

text \<open>C3: in any sequence of submitted and consumed packets on a ChunkBuffer2, wrapping included, the
  packets taken out are the packets put in, byte for byte and in order, and the buffer reports itself
  empty exactly when all of them have been taken.\<close>

theorem chunkbuffer_fifo:
  assumes "0 \<le> mtu" "blocks_of mtu + 1 \<le> blocks" "4 * blocks \<le> INT_MAX"
    and "length buffer = 4 * nat blocks"
    and "fifo_run (\<lambda>b d. ChunkBuffer2_SubmitPacket (ChunkBuffer2_fill b d) (int (length d)))
      ChunkBuffer2_ConsumePacket ChunkBuffer2_front
      (\<lambda>b d. int (length d) \<le> cb_input_avail b \<and> pkt_blocks d \<le> cb_mtu b)
      (ChunkBuffer2_Init buffer blocks mtu) ops = (b, ins, outs)"
  shows "\<exists>rest. ins = outs @ rest \<and> (outs = ins \<longleftrightarrow> ChunkBuffer2_front b = None)"
  by (rule cb.run_prefix [OF cb_init [OF assms(1-4)] assms(5)])

text \<open>C4: a buffer of the size \<open>ChunkBuffer2_calc_blocks\<close> computes for packets of \<open>len\<close> bytes and a
  count of \<open>num\<close> accepts a packet of \<open>len\<close> bytes whenever it holds fewer than \<open>num\<close>, whatever was
  submitted and consumed before.\<close>

theorem chunkbuffer_capacity:
  assumes "0 \<le> len" "0 < num" "0 \<le> ChunkBuffer2_calc_blocks len num"
    and "cb_rep buf q" "cb_size buf = ChunkBuffer2_calc_blocks len num" "cb_mtu buf = blocks_of len"
    and "int (length q) < num"
  shows "len \<le> cb_input_avail buf"
proof -
  have "4 * cb_mtu buf \<le> cb_input_avail buf"
    using assms(5,6) calc_blocks(1) [OF assms(1-3)] by (intro cb_capacity [OF assms(4) _ assms(7)]) simp
  then show ?thesis using blocks_of_ge [OF assms(1)] assms(6) by simp
qed

text \<open>Consuming a packet while the destination handed out by the buffer is still being written
  neither moves that destination nor takes space from it.\<close>

theorem chunkbuffer_dest_stable:
  assumes "cb_rep buf (p # q)" "cb_input_dest buf = Some d"
  shows "cb_input_dest (ChunkBuffer2_ConsumePacket buf) = Some d \<and>
    cb_input_avail buf \<le> cb_input_avail (ChunkBuffer2_ConsumePacket buf)"
  using consume_keeps_input [OF assms] by simp

text \<open>C5: a PacketBuffer delivers the packets it received unchanged and in order.\<close>

theorem packetbuffer_fifo:
  assumes "PacketBuffer_Init alloc input_mtu num_packets = Some b0"
    and "0 \<le> input_mtu" "0 < num_packets"
    and "\<And>n d. alloc n = Some d \<Longrightarrow> length d = 4 * nat n \<and> 4 * n \<le> INT_MAX"
    and "fifo_run pb_received pb_sent pb_front pb_room b0 ops = (b, ins, outs)"
  shows "\<exists>rest. ins = outs @ rest \<and> (outs = ins \<longleftrightarrow> pb_front b = None)"
  by (rule pb.run_prefix [OF pb_init_rep(1) [OF assms(1-4)] assms(5)])

text \<open>A PacketBuffer is never stuck: while it holds a packet a send is pending, while it holds
  fewer than the number of packets it was created for a receive is pending, so at every moment one of
  the two is; and completing a send never issues a second receive while one is pending.\<close>

theorem packetbuffer_live:
  assumes "pb_rep b q" "cb_size (pb_buf b) = (1 + cb_mtu (pb_buf b)) * (num_packets + 1)" "0 < num_packets"
  shows "(pb_send b \<noteq> None \<longleftrightarrow> q \<noteq> []) \<and> (int (length q) < num_packets \<longrightarrow> pb_recv b \<noteq> None) \<and>
    (pb_send b \<noteq> None \<or> pb_recv b \<noteq> None) \<and>
    (pb_recv b \<noteq> None \<and> q \<noteq> [] \<longrightarrow> pb_recv (pb_sent b) = pb_recv b)"
proof -
  have r: "cb_rep (pb_buf b) q" "0 \<le> pb_input_mtu b" "cb_mtu (pb_buf b) = blocks_of (pb_input_mtu b)"
    and s: "pb_send b \<noteq> None \<longleftrightarrow> q \<noteq> []"
    using assms(1) by (simp_all add: pb_rep_def)
  have c: "pb_recv b \<noteq> None" if "int (length q) < num_packets"
  proof -
    have "4 * cb_mtu (pb_buf b) \<le> cb_input_avail (pb_buf b)"
      using cb_capacity [OF r(1) assms(2) that] .
    then have "pb_input_mtu b \<le> cb_input_avail (pb_buf b)"
      using blocks_of_ge [OF r(2)] r(3) by simp
    then show ?thesis using pb_recv_None [OF assms(1)] by simp
  qed
  have "pb_recv (pb_sent b) = pb_recv b" if n: "pb_recv b \<noteq> None" "q \<noteq> []"
  proof -
    obtain p q' where q: "q = p # q'" using n by (cases q) auto
    have av: "pb_input_mtu b \<le> cb_input_avail (pb_buf b)" "cb_input_dest (pb_buf b) = pb_recv b"
      using assms(1) n by (auto simp: pb_rep_def split: if_splits)
    then obtain d where d: "cb_input_dest (pb_buf b) = Some d" using n by auto
    note k = consume_keeps_input [OF r(1) [unfolded q] d]
    have "pb_rep (pb_sent b) q'" using pb_sent_rep assms(1) q by simp
    moreover have "pb_buf (pb_sent b) = ChunkBuffer2_ConsumePacket (pb_buf b)"
      "pb_input_mtu (pb_sent b) = pb_input_mtu b"
      by (simp_all add: pb_sent_def pb_output_handler_done_def pb_Recv_def pb_Send_def Let_def)
    ultimately show ?thesis using k av d by (simp add: pb_rep_def)
  qed
  then show ?thesis using c s assms(3) by auto
qed

subsection \<open>The properties at a concrete buffer\<close>

definition sample_alloc :: "int \<Rightarrow> byte list option" where
  "sample_alloc n = (if 0 \<le> n \<and> n \<le> 1000 then Some (replicate (4 * nat n) 0) else None)"

lemma sample_alloc: "sample_alloc n = Some d \<Longrightarrow> length d = 4 * nat n \<and> 4 * n \<le> INT_MAX"
  by (auto simp: sample_alloc_def INT_MAX_def split: if_splits)

lemma sample_blocks [simp]: "blocks_of 8 = 2" "blocks_of 1 = 1"
  by (simp_all add: blocks_of_def bdivide_up_def)

lemma sample_calc: "ChunkBuffer2_calc_blocks 8 2 = 9"
  by (simp add: ChunkBuffer2_calc_blocks_def INT_MAX_def)

definition sample_cb :: ChunkBuffer2 where
  "sample_cb = ChunkBuffer2_Init (replicate 36 0) 9 8"

lemma sample_cb_rep: "cb_rep sample_cb []"
  unfolding sample_cb_def by (rule cb_init) (simp_all add: INT_MAX_def)

lemma sample_cb_rep1:
  "cb_rep (ChunkBuffer2_SubmitPacket (ChunkBuffer2_fill sample_cb [6]) 1) [[6]]"
proof -
  have "cb_mtu sample_cb = 2" by (simp add: sample_cb_def)
  then show ?thesis
    using cb_submit [OF sample_cb_rep, of "[6]"] cb_empty_accepts [OF sample_cb_rep] by simp
qed

theorem chunkbuffer_fifo_witness:
  "\<exists>b ins outs rest. fifo_run (\<lambda>b d. ChunkBuffer2_SubmitPacket (ChunkBuffer2_fill b d) (int (length d)))
      ChunkBuffer2_ConsumePacket ChunkBuffer2_front
      (\<lambda>b d. int (length d) \<le> cb_input_avail b \<and> pkt_blocks d \<le> cb_mtu b)
      (ChunkBuffer2_Init (replicate 36 0) 9 8)
      [Put [1, 2, 3, 4, 5], Put [6], Get, Put [7, 8, 9], Get, Get] = (b, ins, outs) \<and>
    ins = outs @ rest"
proof -
  obtain b ins outs where r: "fifo_run (\<lambda>b d. ChunkBuffer2_SubmitPacket (ChunkBuffer2_fill b d) (int (length d)))
      ChunkBuffer2_ConsumePacket ChunkBuffer2_front
      (\<lambda>b d. int (length d) \<le> cb_input_avail b \<and> pkt_blocks d \<le> cb_mtu b)
      (ChunkBuffer2_Init (replicate 36 0) 9 8)
      [Put [1, 2, 3, 4, 5], Put [6], Get, Put [7, 8, 9], Get, Get] = (b, ins, outs)"
    by (rule prod_cases3)
  have "\<exists>rest. ins = outs @ rest \<and> (outs = ins \<longleftrightarrow> ChunkBuffer2_front b = None)"
    by (rule chunkbuffer_fifo [OF _ _ _ _ r]) (simp_all add: INT_MAX_def)
  then show ?thesis using r by blast
qed

theorem chunkbuffer_capacity_witness:
  "8 \<le> cb_input_avail (ChunkBuffer2_SubmitPacket (ChunkBuffer2_fill sample_cb [6]) 1)"
  by (rule chunkbuffer_capacity [of 8 2, OF _ _ _ sample_cb_rep1])
    (simp_all add: sample_calc, simp_all add: sample_cb_def)

theorem chunkbuffer_dest_stable_witness:
  "\<exists>b d. cb_rep b [[6]] \<and> cb_input_dest b = Some d \<and> cb_input_dest (ChunkBuffer2_ConsumePacket b) = Some d"
proof -
  let ?b = "ChunkBuffer2_SubmitPacket (ChunkBuffer2_fill sample_cb [6]) 1"
  have "4 * cb_mtu ?b \<le> cb_input_avail ?b"
    by (rule cb_capacity [OF sample_cb_rep1, where num = 2]) (simp_all add: sample_cb_def)
  then have "cb_input_dest ?b \<noteq> None"
    using input_dest_avail [OF sample_cb_rep1] by (simp add: sample_cb_def)
  then obtain d where d: "cb_input_dest ?b = Some d" by auto
  show ?thesis using chunkbuffer_dest_stable [OF sample_cb_rep1 d] d sample_cb_rep1 by blast
qed

lemma sample_pb: "PacketBuffer_Init sample_alloc 8 2 \<noteq> None"
  by (simp add: PacketBuffer_Init_def sample_calc sample_alloc_def)

theorem packetbuffer_fifo_witness:
  "\<exists>b0 b ins outs rest. PacketBuffer_Init sample_alloc 8 2 = Some b0 \<and>
    fifo_run pb_received pb_sent pb_front pb_room b0 [Put [1, 2, 3], Put [4], Get] = (b, ins, outs) \<and>
    ins = outs @ rest"
proof -
  obtain b0 where b0: "PacketBuffer_Init sample_alloc 8 2 = Some b0" using sample_pb by auto
  obtain b ins outs where r: "fifo_run pb_received pb_sent pb_front pb_room b0
      [Put [1, 2, 3], Put [4], Get] = (b, ins, outs)" by (metis prod_cases3)
  have "\<exists>rest. ins = outs @ rest \<and> (outs = ins \<longleftrightarrow> pb_front b = None)"
    by (rule packetbuffer_fifo [OF b0 _ _ _ r]) (simp_all add: sample_alloc)
  then show ?thesis using b0 r by blast
qed

theorem packetbuffer_live_witness:
  "\<exists>b. PacketBuffer_Init sample_alloc 8 2 = Some b \<and> pb_send b = None \<and> pb_recv b \<noteq> None"
proof -
  obtain b where b: "PacketBuffer_Init sample_alloc 8 2 = Some b" using sample_pb by auto
  note i = pb_init_rep [OF b _ _ sample_alloc]
  have r: "pb_rep b []" "cb_size (pb_buf b) = (1 + cb_mtu (pb_buf b)) * (2 + 1)"
    by (rule i; simp)+
  show ?thesis using packetbuffer_live [OF r] b by (cases "pb_send b") auto
qed

end
