(* ===== verification/PacketProto.thy ===== *)
theory PacketProto
  imports PacketBuffer
begin

text \<open>
  protocol/packetproto.h and the flow components that speak it: flow/BufferWriter.c and
  flow/PacketProtoEncoder.c in front of a PacketBuffer (flow/PacketProtoFlow.c),
  flow/PacketStreamSender.c, which cuts packets into whatever pieces the stream takes, and
  flow/PacketProtoDecoder.c, which reassembles them from whatever pieces arrive. Sizes and offsets
  are \<open>nat\<close>: the invariant \<open>ppd_rep\<close> keeps every subtraction of the code from becoming negative.
\<close>

definition PACKETPROTO_MAXPAYLOAD :: nat where "PACKETPROTO_MAXPAYLOAD = 65535"

definition PACKETPROTO_ENCLEN :: "nat \<Rightarrow> nat" where "PACKETPROTO_ENCLEN len = 2 + len"

definition packetproto_header_bytes :: "nat \<Rightarrow> byte list" where
  "packetproto_header_bytes len = badvpn_write_le16 (htol16 (of_nat len))"

text \<open>The encoding the header file describes.\<close>

definition pp_enc :: "byte list \<Rightarrow> byte list" where
  "pp_enc p = packetproto_header_bytes (length p) @ p"

definition pp_stream :: "byte list list \<Rightarrow> byte list" where
  "pp_stream ps = concat (map pp_enc ps)"

lemma length_pp_enc [simp]: "length (pp_enc p) = 2 + length p"
  by (simp add: pp_enc_def packetproto_header_bytes_def)

lemma pp_enc_not_Nil [simp]: "pp_enc p \<noteq> []"
  using length_pp_enc [of p] by (metis list.size(3) add_2_eq_Suc nat.distinct(1))

lemma length_header_bytes [simp]: "length (packetproto_header_bytes n) = 2"
  by (simp add: packetproto_header_bytes_def)

lemma pp_enc_inj: "pp_enc p = pp_enc p' \<longleftrightarrow> p = p'"
  by (metis append_eq_append_conv length_header_bytes pp_enc_def)

subsection \<open>The decoder\<close>

record PacketProtoDecoder =
  ppd_output_mtu :: nat
  ppd_buf_size :: nat
  ppd_buf_start :: nat
  ppd_buf_used :: nat
  ppd_buf :: "byte list"
  ppd_recv :: "(nat \<times> nat) option"
  ppd_send :: "(nat \<times> nat) option"
  ppd_error :: bool

text \<open>The part of \<open>process_data\<close> after its \<open>do\<close> block; \<open>ppd_error\<close> records \<open>handler_error\<close>.\<close>

definition ppd_wait :: "bool \<Rightarrow> PacketProtoDecoder \<Rightarrow> PacketProtoDecoder" where
  "ppd_wait was_error enc =
     (let enc =
        (if was_error then enc\<lparr>ppd_buf_start := 0, ppd_buf_used := 0\<rparr>
         else if ppd_buf_start enc + ppd_buf_used enc = ppd_buf_size enc then
           enc\<lparr>ppd_buf := mem_write (ppd_buf enc) 0
                  (mem_read (ppd_buf enc) (ppd_buf_start enc) (ppd_buf_used enc)),
               ppd_buf_start := 0\<rparr>
         else enc);
      enc = enc\<lparr>ppd_recv := Some (ppd_buf_start enc + ppd_buf_used enc,
        ppd_buf_size enc - (ppd_buf_start enc + ppd_buf_used enc))\<rparr>
      in if was_error then enc\<lparr>ppd_error := True\<rparr> else enc)"

definition ppd_process_data :: "PacketProtoDecoder \<Rightarrow> PacketProtoDecoder" where
  "ppd_process_data enc =
     (let left = ppd_buf_used enc in
      if left < 2 then ppd_wait False enc
      else let data_len = unat (ltoh16 (badvpn_read_le16 (mem_read (ppd_buf enc) (ppd_buf_start enc) 2)));
               data = ppd_buf_start enc + 2;
               left = left - 2 in
      if data_len > ppd_output_mtu enc then ppd_wait True enc
      else if left < data_len then ppd_wait False enc
      else enc\<lparr>ppd_buf_start := ppd_buf_start enc + (2 + data_len),
               ppd_buf_used := ppd_buf_used enc - (2 + data_len),
               ppd_send := Some (data, data_len)\<rparr>)"

definition ppd_input_handler_done :: "PacketProtoDecoder \<Rightarrow> nat \<Rightarrow> PacketProtoDecoder" where
  "ppd_input_handler_done enc data_len =
     ppd_process_data (enc\<lparr>ppd_buf_used := ppd_buf_used enc + data_len\<rparr>)"

definition ppd_output_handler_done :: "PacketProtoDecoder \<Rightarrow> PacketProtoDecoder" where
  "ppd_output_handler_done enc = ppd_process_data enc"

text \<open>\<open>malloc\<close> is an argument, as in \<open>PacketBuffer_Init\<close>.\<close>

definition PacketProtoDecoder_Init :: "(nat \<Rightarrow> byte list option) \<Rightarrow> nat \<Rightarrow> PacketProtoDecoder option" where
  "PacketProtoDecoder_Init malloc output_mtu =
     (let output_mtu = nat (bmin_int (int output_mtu) (int PACKETPROTO_MAXPAYLOAD));
          buf_size = PACKETPROTO_ENCLEN output_mtu in
      case malloc buf_size of
        None \<Rightarrow> None
      | Some buf \<Rightarrow> Some \<lparr>ppd_output_mtu = output_mtu, ppd_buf_size = buf_size, ppd_buf_start = 0,
          ppd_buf_used = 0, ppd_buf = buf, ppd_recv = Some (0, buf_size), ppd_send = None,
          ppd_error = False\<rparr>)"

definition PacketProtoDecoder_Reset :: "PacketProtoDecoder \<Rightarrow> PacketProtoDecoder" where
  "PacketProtoDecoder_Reset enc =
     enc\<lparr>ppd_buf_start := ppd_buf_start enc + ppd_buf_used enc, ppd_buf_used := 0\<rparr>"

text \<open>
  The events: the stream stores some bytes, at least one and at most as many as asked for, and
  completes the receive; the receiver of the output completes the send.
\<close>

definition ppd_can_receive :: "PacketProtoDecoder \<Rightarrow> byte list \<Rightarrow> bool" where
  "ppd_can_receive enc d \<longleftrightarrow>
     (case ppd_recv enc of None \<Rightarrow> False | Some (off, n) \<Rightarrow> d \<noteq> [] \<and> length d \<le> n)"

definition ppd_received :: "PacketProtoDecoder \<Rightarrow> byte list \<Rightarrow> PacketProtoDecoder" where
  "ppd_received enc d =
     (case ppd_recv enc of
        None \<Rightarrow> enc
      | Some (off, n) \<Rightarrow> ppd_input_handler_done
          (enc\<lparr>ppd_recv := None, ppd_buf := mem_write (ppd_buf enc) off d\<rparr>) (length d))"

definition ppd_sent :: "PacketProtoDecoder \<Rightarrow> PacketProtoDecoder" where
  "ppd_sent enc = ppd_output_handler_done (enc\<lparr>ppd_send := None\<rparr>)"

definition ppd_packet :: "PacketProtoDecoder \<Rightarrow> byte list option" where
  "ppd_packet enc = map_option (\<lambda>(d, n). mem_read (ppd_buf enc) d n) (ppd_send enc)"

text \<open>The bytes received and not yet turned into packets.\<close>

definition ppd_bytes :: "PacketProtoDecoder \<Rightarrow> byte list" where
  "ppd_bytes enc = mem_read (ppd_buf enc) (ppd_buf_start enc) (ppd_buf_used enc)"

definition pp_incomplete :: "nat \<Rightarrow> byte list \<Rightarrow> bool" where
  "pp_incomplete mtu bs \<longleftrightarrow> length bs < 2 \<or>
     (unat (badvpn_read_le16 bs) \<le> mtu \<and> length bs < 2 + unat (badvpn_read_le16 bs))"

text \<open>
  \<open>ppd_rep enc s ps\<close>: of the bytes \<open>s\<close> received so far the decoder has made the packets \<open>ps\<close>, the last
  of which may still be with the receiver, and no error has been reported.
\<close>

definition ppd_rep :: "PacketProtoDecoder \<Rightarrow> byte list \<Rightarrow> byte list list \<Rightarrow> bool" where
  "ppd_rep enc s ps \<longleftrightarrow> ppd_output_mtu enc \<le> 65535 \<and> ppd_buf_size enc = 2 + ppd_output_mtu enc \<and>
     length (ppd_buf enc) = ppd_buf_size enc \<and>
     ppd_buf_start enc + ppd_buf_used enc \<le> ppd_buf_size enc \<and>
     s = pp_stream ps @ ppd_bytes enc \<and> (\<forall>p \<in> set ps. length p \<le> ppd_output_mtu enc) \<and>
     \<not> ppd_error enc \<and>
     (case ppd_send enc of
        Some (d, n) \<Rightarrow> ppd_recv enc = None \<and> d + n = ppd_buf_start enc \<and> ps \<noteq> [] \<and>
          mem_read (ppd_buf enc) d n = last ps \<and> n = length (last ps)
      | None \<Rightarrow> pp_incomplete (ppd_output_mtu enc) (ppd_bytes enc) \<and>
          ppd_buf_start enc + ppd_buf_used enc < ppd_buf_size enc \<and>
          ppd_recv enc = Some (ppd_buf_start enc + ppd_buf_used enc,
            ppd_buf_size enc - (ppd_buf_start enc + ppd_buf_used enc)))"

text \<open>The state at the call of \<open>process_data\<close>: nothing is pending.\<close>

definition ppd_ready :: "PacketProtoDecoder \<Rightarrow> byte list \<Rightarrow> byte list list \<Rightarrow> bool" where
  "ppd_ready enc s ps \<longleftrightarrow> ppd_output_mtu enc \<le> 65535 \<and> ppd_buf_size enc = 2 + ppd_output_mtu enc \<and>
     length (ppd_buf enc) = ppd_buf_size enc \<and>
     ppd_buf_start enc + ppd_buf_used enc \<le> ppd_buf_size enc \<and>
     s = pp_stream ps @ ppd_bytes enc \<and> (\<forall>p \<in> set ps. length p \<le> ppd_output_mtu enc) \<and>
     \<not> ppd_error enc \<and> ppd_send enc = None \<and> ppd_recv enc = None"

lemma length_ppd_bytes:
  "ppd_buf_start enc + ppd_buf_used enc \<le> length (ppd_buf enc) \<Longrightarrow> length (ppd_bytes enc) = ppd_buf_used enc"
  by (simp add: ppd_bytes_def length_mem_read)

lemma read_le16_take: "2 \<le> n \<Longrightarrow> badvpn_read_le16 (take n bs) = badvpn_read_le16 bs"
  by (simp add: badvpn_read_le16_def)

lemma ppd_header:
  assumes "2 \<le> ppd_buf_used enc"
  shows "badvpn_read_le16 (mem_read (ppd_buf enc) (ppd_buf_start enc) 2) = badvpn_read_le16 (ppd_bytes enc)"
  using assms by (simp add: ppd_bytes_def mem_read_def read_le16_take)

lemma write_read_le16': "2 \<le> length bs \<Longrightarrow> badvpn_write_le16 (badvpn_read_le16 bs) = take 2 bs"
proof -
  assume "2 \<le> length bs"
  then obtain a b r where "bs = a # b # r" by (cases bs; cases "tl bs") auto
  then show ?thesis by (simp add: write_read_le16)
qed

text \<open>A buffer that starts with a whole packet starts with that packet's encoding.\<close>

lemma split_packet:
  assumes "2 + unat (badvpn_read_le16 bs) \<le> length bs"
  shows "bs = pp_enc (take (unat (badvpn_read_le16 bs)) (drop 2 bs)) @ drop (2 + unat (badvpn_read_le16 bs)) bs"
proof -
  let ?n = "unat (badvpn_read_le16 bs)"
  have l: "length (take ?n (drop 2 bs)) = ?n" using assms by simp
  have "packetproto_header_bytes ?n = take 2 bs"
    using assms by (simp add: packetproto_header_bytes_def write_read_le16')
  then have "pp_enc (take ?n (drop 2 bs)) @ drop (2 + ?n) bs = take 2 bs @ take ?n (drop 2 bs) @ drop (2 + ?n) bs"
    unfolding pp_enc_def l by simp
  also have "take ?n (drop 2 bs) @ drop (2 + ?n) bs = drop 2 bs"
    by (metis add.commute append_take_drop_id drop_drop)
  finally show ?thesis by simp
qed

lemma ppd_wait_rep:
  assumes r: "ppd_ready enc s ps" and inc: "pp_incomplete (ppd_output_mtu enc) (ppd_bytes enc)"
  shows "ppd_rep (ppd_wait False enc) s ps"
proof -
  have len: "length (ppd_bytes enc) = ppd_buf_used enc"
    using r by (intro length_ppd_bytes) (simp add: ppd_ready_def)
  have sm: "ppd_buf_used enc < ppd_buf_size enc"
    using inc r len by (auto simp: pp_incomplete_def ppd_ready_def)
  show ?thesis
  proof (cases "ppd_buf_start enc + ppd_buf_used enc = ppd_buf_size enc")
    case True
    let ?buf = "mem_write (ppd_buf enc) 0 (ppd_bytes enc)"
    have "ppd_bytes (ppd_wait False enc) = ppd_bytes enc"
      using True r len by (simp add: ppd_wait_def ppd_bytes_def [symmetric] Let_def)
        (simp add: ppd_bytes_def [of "_\<lparr>ppd_recv := _\<rparr>"] mem_read_write_same ppd_ready_def)
    then show ?thesis
      using True r sm inc len
      by (simp add: ppd_rep_def ppd_wait_def ppd_ready_def ppd_bytes_def [of enc, symmetric])
  next
    case False
    then show ?thesis
      using r inc by (simp add: ppd_rep_def ppd_wait_def ppd_ready_def ppd_bytes_def)
  qed
qed

lemma ppd_process_rep:
  assumes r: "ppd_ready enc s ps" and e: "\<not> ppd_error (ppd_process_data enc)"
  shows "\<exists>ps'. ppd_rep (ppd_process_data enc) s (ps @ ps') \<and>
    (case ppd_send (ppd_process_data enc) of None \<Rightarrow> ps' = [] | Some _ \<Rightarrow> length ps' = 1)"
proof -
  let ?bs = "ppd_bytes enc" and ?n = "unat (badvpn_read_le16 (ppd_bytes enc))"
  have len: "length ?bs = ppd_buf_used enc"
    using r by (intro length_ppd_bytes) (simp add: ppd_ready_def)
  show ?thesis
  proof (cases "pp_incomplete (ppd_output_mtu enc) ?bs")
    case True
    have "ppd_process_data enc = ppd_wait False enc"
      using True len ppd_header [of enc]
      by (auto simp: ppd_process_data_def pp_incomplete_def Let_def)
    moreover have "ppd_send (ppd_wait False enc) = None"
      using r by (simp add: ppd_wait_def ppd_ready_def Let_def)
    ultimately show ?thesis using ppd_wait_rep [OF r True] by (intro exI [of _ "[]"]) simp
  next
    case False
    have ge: "2 \<le> ppd_buf_used enc" using False len by (simp add: pp_incomplete_def)
    note hd = ppd_header [OF ge]
    show ?thesis
    proof (cases "?n \<le> ppd_output_mtu enc")
      case False
      then have "ppd_process_data enc = ppd_wait True enc"
        using ge hd by (simp add: ppd_process_data_def Let_def)
      then show ?thesis using e by (simp add: ppd_wait_def Let_def)
    next
      case n: True
      then have whole: "2 + ?n \<le> ppd_buf_used enc"
        using False len ge by (auto simp: pp_incomplete_def)
      let ?p = "take ?n (drop 2 ?bs)"
      let ?enc' = "enc\<lparr>ppd_buf_start := ppd_buf_start enc + (2 + ?n),
        ppd_buf_used := ppd_buf_used enc - (2 + ?n), ppd_send := Some (ppd_buf_start enc + 2, ?n)\<rparr>"
      have p: "ppd_process_data enc = ?enc'"
        using ge hd n whole by (simp add: ppd_process_data_def Let_def)
      have bs: "?bs = pp_enc ?p @ drop (2 + ?n) ?bs"
        using whole len by (intro split_packet) simp
      have b1: "ppd_bytes ?enc' = drop (2 + ?n) ?bs"
        using whole by (simp add: ppd_bytes_def mem_read_def drop_take add.commute)
      have b2: "mem_read (ppd_buf enc) (ppd_buf_start enc + 2) ?n = ?p"
        using whole by (simp add: ppd_bytes_def mem_read_def drop_take take_take min_absorb1 add.commute)
      have lp: "length ?p = ?n" using whole len by simp
      have rr: "ppd_output_mtu enc \<le> 65535" "ppd_buf_size enc = 2 + ppd_output_mtu enc"
        "length (ppd_buf enc) = ppd_buf_size enc" "ppd_buf_start enc + ppd_buf_used enc \<le> ppd_buf_size enc"
        "\<forall>p \<in> set ps. length p \<le> ppd_output_mtu enc" "\<not> ppd_error enc" "ppd_recv enc = None"
        "s = pp_stream ps @ ?bs"
        using r by (simp_all add: ppd_ready_def)
      have "s = pp_stream (ps @ [?p]) @ drop (2 + ?n) ?bs"
        using rr(8) bs by (simp add: pp_stream_def)
      then have "ppd_rep ?enc' s (ps @ [?p])"
        using rr(1-7) n whole b2 lp unfolding ppd_rep_def b1 by simp
      then show ?thesis unfolding p by (intro exI [of _ "[?p]"]) simp
    qed
  qed
qed

lemma ppd_received_ready:
  assumes r: "ppd_rep enc s ps" and c: "ppd_can_receive enc d"
  shows "\<exists>enc'. ppd_ready enc' (s @ d) ps \<and> ppd_received enc d = ppd_process_data enc' \<and>
    ppd_output_mtu enc' = ppd_output_mtu enc"
proof -
  obtain off n where rv: "ppd_recv enc = Some (off, n)" and d: "length d \<le> n"
    using c by (auto simp: ppd_can_receive_def split: option.splits)
  have sn: "ppd_send enc = None" using r rv by (auto simp: ppd_rep_def split: option.splits)
  have o: "off = ppd_buf_start enc + ppd_buf_used enc" "n = ppd_buf_size enc - off"
    and rr: "ppd_output_mtu enc \<le> 65535" "ppd_buf_size enc = 2 + ppd_output_mtu enc"
        "length (ppd_buf enc) = ppd_buf_size enc" "off < ppd_buf_size enc"
        "\<forall>p \<in> set ps. length p \<le> ppd_output_mtu enc" "\<not> ppd_error enc"
        "s = pp_stream ps @ ppd_bytes enc"
    using r sn rv by (simp_all add: ppd_rep_def)
  let ?enc = "enc\<lparr>ppd_recv := None, ppd_buf := mem_write (ppd_buf enc) off d,
    ppd_buf_used := ppd_buf_used enc + length d\<rparr>"
  have fit: "off + length d \<le> length (ppd_buf enc)" using d o rr by linarith
  have "ppd_bytes ?enc = ppd_bytes enc @ d"
    using fit o unfolding ppd_bytes_def
    by (simp add: mem_read_append mem_read_write_before mem_read_write_same)
  then have "ppd_ready ?enc (s @ d) ps"
    using rr o sn fit by (simp add: ppd_ready_def)
  then show ?thesis
    by (intro exI [of _ ?enc]) (simp add: ppd_received_def rv ppd_input_handler_done_def)
qed

lemma ppd_sent_ready:
  assumes "ppd_rep enc s ps" "ppd_send enc \<noteq> None"
  shows "\<exists>enc'. ppd_ready enc' s ps \<and> ppd_sent enc = ppd_process_data enc' \<and>
    ppd_output_mtu enc' = ppd_output_mtu enc"
proof -
  have "ppd_bytes (enc\<lparr>ppd_send := None\<rparr>) = ppd_bytes enc" by (simp add: ppd_bytes_def)
  then have "ppd_ready (enc\<lparr>ppd_send := None\<rparr>) s ps"
    using assms by (auto simp: ppd_rep_def ppd_ready_def split: option.splits)
  then show ?thesis
    by (intro exI [of _ "enc\<lparr>ppd_send := None\<rparr>"]) (simp add: ppd_sent_def ppd_output_handler_done_def)
qed

lemma ppd_received_rep:
  assumes r: "ppd_rep enc s ps" and c: "ppd_can_receive enc d" and e: "\<not> ppd_error (ppd_received enc d)"
  shows "\<exists>ps'. ppd_rep (ppd_received enc d) (s @ d) (ps @ ps') \<and>
    (case ppd_send (ppd_received enc d) of None \<Rightarrow> ps' = [] | Some _ \<Rightarrow> length ps' = 1)"
  using ppd_received_ready [OF r c] ppd_process_rep e by metis

lemma ppd_sent_rep:
  assumes r: "ppd_rep enc s ps" and sn: "ppd_send enc \<noteq> None" and e: "\<not> ppd_error (ppd_sent enc)"
  shows "\<exists>ps'. ppd_rep (ppd_sent enc) s (ps @ ps') \<and>
    (case ppd_send (ppd_sent enc) of None \<Rightarrow> ps' = [] | Some _ \<Rightarrow> length ps' = 1)"
  using ppd_sent_ready [OF r sn] ppd_process_rep e by metis

lemma ppd_packet_rep:
  "ppd_rep enc s ps \<Longrightarrow> ppd_send enc \<noteq> None \<Longrightarrow> ps \<noteq> [] \<and> ppd_packet enc = Some (last ps)"
  by (auto simp: ppd_rep_def ppd_packet_def split: option.splits)

lemma decoder_mtu: "nat (min (int m) (int PACKETPROTO_MAXPAYLOAD)) = min m 65535"
  by (simp add: PACKETPROTO_MAXPAYLOAD_def min_def)

lemma ppd_init_rep:
  assumes "PacketProtoDecoder_Init malloc output_mtu = Some enc"
    and "\<And>n d. malloc n = Some d \<Longrightarrow> length d = n"
  shows "ppd_rep enc [] []" "ppd_output_mtu enc = min output_mtu 65535"
proof -
  obtain buf where b: "malloc (2 + min output_mtu 65535) = Some buf"
    and e: "enc = \<lparr>ppd_output_mtu = min output_mtu 65535, ppd_buf_size = 2 + min output_mtu 65535,
      ppd_buf_start = 0, ppd_buf_used = 0, ppd_buf = buf,
      ppd_recv = Some (0, 2 + min output_mtu 65535), ppd_send = None, ppd_error = False\<rparr>"
    using assms(1)
    by (auto simp: PacketProtoDecoder_Init_def PACKETPROTO_ENCLEN_def decoder_mtu Let_def
        split: option.splits)
  show "ppd_rep enc [] []"
    using assms(2) [OF b] by (simp add: e ppd_rep_def pp_stream_def ppd_bytes_def pp_incomplete_def)
  show "ppd_output_mtu enc = min output_mtu 65535" by (simp add: e)
qed

subsection \<open>Runs of the decoder\<close>

datatype ppd_event = Receive "byte list" | Sent

text \<open>Events that cannot happen in a state are skipped; the result has the received bytes and packets.\<close>

fun ppd_run :: "PacketProtoDecoder \<Rightarrow> ppd_event list \<Rightarrow> PacketProtoDecoder \<times> byte list \<times> byte list list" where
  "ppd_run enc [] = (enc, [], [])"
| "ppd_run enc (ev # evs) =
     (let step = (case ev of
          Receive d \<Rightarrow> if ppd_can_receive enc d then Some (ppd_received enc d, d) else None
        | Sent \<Rightarrow> if ppd_send enc \<noteq> None then Some (ppd_sent enc, []) else None) in
      case step of
        None \<Rightarrow> ppd_run enc evs
      | Some (enc', d) \<Rightarrow>
          let (enc'', s, ps) = ppd_run enc' evs in
          (enc'', d @ s, (case ppd_packet enc' of None \<Rightarrow> [] | Some p \<Rightarrow> [p]) @ ps))"

lemma ppd_error_mono:
  "ppd_error enc \<Longrightarrow> ppd_error (ppd_process_data enc)"
  by (simp add: ppd_process_data_def ppd_wait_def Let_def)

lemma ppd_error_step:
  "ppd_error enc \<Longrightarrow> ppd_error (ppd_received enc d)" "ppd_error enc \<Longrightarrow> ppd_error (ppd_sent enc)"
  by (simp_all add: ppd_received_def ppd_input_handler_done_def ppd_sent_def ppd_output_handler_done_def
      ppd_error_mono split: option.split)

lemma ppd_error_run: "ppd_error enc \<Longrightarrow> ppd_error (fst (ppd_run enc evs))"
  by (induction enc evs rule: ppd_run.induct)
    (auto simp: ppd_error_step Let_def split: option.splits ppd_event.splits prod.splits if_splits)

lemma packet_of_send:
  assumes "ppd_rep enc s (ps @ ps')"
    and "case ppd_send enc of None \<Rightarrow> ps' = [] | Some _ \<Rightarrow> length ps' = 1"
  shows "(case ppd_packet enc of None \<Rightarrow> [] | Some p \<Rightarrow> [p]) = ps'"
proof (cases "ppd_send enc")
  case None
  then show ?thesis using assms(2) by (simp add: ppd_packet_def)
next
  case (Some x)
  then obtain p where "ps' = [p]" using assms(2) by (auto simp: length_Suc_conv)
  then show ?thesis using ppd_packet_rep [OF assms(1)] Some by simp
qed

lemma ppd_run_rep:
  assumes "ppd_rep enc s ps" "ppd_run enc evs = (enc', s', ps')" "\<not> ppd_error enc'"
  shows "ppd_rep enc' (s @ s') (ps @ ps')"
  using assms
proof (induction evs arbitrary: enc s ps s' ps')
  case (Cons ev evs)
  define step where "step = (case ev of
          Receive d \<Rightarrow> if ppd_can_receive enc d then Some (ppd_received enc d, d) else None
        | Sent \<Rightarrow> if ppd_send enc \<noteq> None then Some (ppd_sent enc, []) else None)"
  show ?case
  proof (cases step)
    case None
    then show ?thesis using Cons by (simp add: step_def Let_def)
  next
    case (Some x)
    obtain enc1 d where x: "x = (enc1, d)" by (cases x)
    obtain s1 ps1 where r: "ppd_run enc1 evs = (enc', s1, ps1)" "s' = d @ s1"
      "ps' = (case ppd_packet enc1 of None \<Rightarrow> [] | Some p \<Rightarrow> [p]) @ ps1"
      using Cons.prems(2) Some x by (auto simp: step_def Let_def split: prod.splits)
    have e: "\<not> ppd_error enc1" using ppd_error_run [of enc1 evs] r(1) Cons.prems(3) by auto
    have "\<exists>q. ppd_rep enc1 (s @ d) (ps @ q) \<and> (case ppd_send enc1 of None \<Rightarrow> q = [] | Some _ \<Rightarrow> length q = 1)"
    proof (cases ev)
      case (Receive d')
      then have "ppd_can_receive enc d" "enc1 = ppd_received enc d"
        using Some x by (auto simp: step_def split: if_splits)
      then show ?thesis using ppd_received_rep [OF Cons.prems(1)] e by simp
    next
      case Sent
      then have "ppd_send enc \<noteq> None" "enc1 = ppd_sent enc" "d = []"
        using Some x by (auto simp: step_def split: if_splits)
      then show ?thesis using ppd_sent_rep [OF Cons.prems(1)] e by simp
    qed
    then obtain q where q: "ppd_rep enc1 (s @ d) (ps @ q)"
      "(case ppd_packet enc1 of None \<Rightarrow> [] | Some p \<Rightarrow> [p]) = q"
      using packet_of_send by blast
    show ?thesis using Cons.IH [OF q(1) r(1) Cons.prems(3)] r q(2) by simp
  qed
qed simp

subsection \<open>Unique decoding\<close>

lemma pp_header_inj:
  assumes "m < 65536" "n < 65536" "packetproto_header_bytes m = packetproto_header_bytes n"
  shows "m = n"
proof -
  have "badvpn_read_le16 (packetproto_header_bytes m) = badvpn_read_le16 (packetproto_header_bytes n)"
    using assms by simp
  then have "(of_nat m :: u16) = of_nat n" by (simp add: packetproto_header_bytes_def)
  then have "unat (of_nat m :: u16) = unat (of_nat n :: u16)" by simp
  then show ?thesis using assms by (simp add: unat_of_nat)
qed

lemma pp_enc_append_inj:
  assumes "pp_enc p @ x = pp_enc q @ y" "length p \<le> 65535" "length q \<le> 65535"
  shows "p = q \<and> x = y"
proof -
  have "packetproto_header_bytes (length p) = packetproto_header_bytes (length q) \<and> p @ x = q @ y"
    using assms(1) by (simp add: pp_enc_def)
  moreover from this have "length p = length q"
    using assms(2,3) by (intro pp_header_inj) simp_all
  ultimately show ?thesis by simp
qed

lemma pp_stream_split:
  assumes "pp_stream ps @ b = pp_stream qs" "\<forall>p \<in> set ps. length p \<le> 65535" "\<forall>q \<in> set qs. length q \<le> 65535"
  shows "\<exists>qs'. qs = ps @ qs' \<and> b = pp_stream qs'"
  using assms
proof (induction ps arbitrary: qs)
  case (Cons p ps)
  show ?case
  proof (cases qs)
    case Nil
    then show ?thesis using Cons.prems(1) arg_cong [OF Cons.prems(1), of length]
      by (simp add: pp_stream_def)
  next
    case q: (Cons q qs')
    then have e: "pp_enc p @ (pp_stream ps @ b) = pp_enc q @ pp_stream qs'"
      using Cons.prems(1) by (simp add: pp_stream_def)
    have l: "length p \<le> 65535" "length q \<le> 65535" "\<forall>p \<in> set ps. length p \<le> 65535"
      "\<forall>q \<in> set qs'. length q \<le> 65535"
      using Cons.prems(2,3) q by simp_all
    note pq = pp_enc_append_inj [OF e l(1,2)]
    then obtain qs'' where "qs' = ps @ qs'' \<and> b = pp_stream qs''"
      using Cons.IH [OF _ l(3,4)] by blast
    then show ?thesis using q pq by simp
  qed
qed (simp add: pp_stream_def)

lemma read_le16_enc: "badvpn_read_le16 (pp_enc p @ r) = of_nat (length p)"
  by (simp add: pp_enc_def packetproto_header_bytes_def)

lemma read_le16_prefix: "2 \<le> length b \<Longrightarrow> badvpn_read_le16 (b @ t) = badvpn_read_le16 b"
  using read_le16_take [of 2 "b @ t"] read_le16_take [of 2 b] by simp

text \<open>The only error is a length field above the MTU.\<close>

lemma ppd_error_iff:
  assumes r: "ppd_ready enc s ps"
  shows "ppd_error (ppd_process_data enc) \<longleftrightarrow>
    2 \<le> length (ppd_bytes enc) \<and> ppd_output_mtu enc < unat (badvpn_read_le16 (ppd_bytes enc))"
proof -
  have len: "length (ppd_bytes enc) = ppd_buf_used enc"
    using r by (intro length_ppd_bytes) (simp add: ppd_ready_def)
  show ?thesis
    using r len ppd_header [of enc]
    by (auto simp: ppd_process_data_def ppd_wait_def ppd_ready_def Let_def not_less)
qed

lemma valid_no_error:
  assumes r: "ppd_ready enc s ps" and v: "s @ t = pp_stream qs" "\<forall>q \<in> set qs. length q \<le> ppd_output_mtu enc"
  shows "\<not> ppd_error (ppd_process_data enc)"
proof
  assume "ppd_error (ppd_process_data enc)"
  then have e: "2 \<le> length (ppd_bytes enc)" "ppd_output_mtu enc < unat (badvpn_read_le16 (ppd_bytes enc))"
    using ppd_error_iff [OF r] by simp_all
  have m: "ppd_output_mtu enc \<le> 65535" and ps: "\<forall>p \<in> set ps. length p \<le> ppd_output_mtu enc"
    and s: "pp_stream ps @ (ppd_bytes enc @ t) = pp_stream qs"
    using r v by (simp_all add: ppd_ready_def)
  obtain qs' where qs: "qs = ps @ qs'" "ppd_bytes enc @ t = pp_stream qs'"
    using pp_stream_split [OF s] m ps v(2) by fastforce
  then obtain q qs'' where q: "qs' = q # qs''" using e(1) by (cases qs') (auto simp: pp_stream_def)
  have "badvpn_read_le16 (ppd_bytes enc) = of_nat (length q)"
    using read_le16_prefix [OF e(1), of t] qs(2) q read_le16_enc [of q] by (simp add: pp_stream_def)
  then have "unat (badvpn_read_le16 (ppd_bytes enc)) = length q"
    using v(2) qs q m by (simp add: unat_of_nat)
  then show False using e(2) v(2) qs q by simp
qed

lemma ppd_mtu_step:
  "ppd_output_mtu (ppd_received enc d) = ppd_output_mtu enc"
  "ppd_output_mtu (ppd_sent enc) = ppd_output_mtu enc"
  by (simp_all add: ppd_received_def ppd_sent_def ppd_input_handler_done_def ppd_output_handler_done_def
      ppd_process_data_def ppd_wait_def Let_def split: option.split)

lemma valid_steps:
  assumes "ppd_rep enc s ps" "\<forall>q \<in> set qs. length q \<le> ppd_output_mtu enc"
  shows "ppd_can_receive enc d \<Longrightarrow> (s @ d) @ t = pp_stream qs \<Longrightarrow> \<not> ppd_error (ppd_received enc d)"
    and "ppd_send enc \<noteq> None \<Longrightarrow> s @ t = pp_stream qs \<Longrightarrow> \<not> ppd_error (ppd_sent enc)"
  using ppd_received_ready [OF assms(1)] ppd_sent_ready [OF assms(1)] valid_no_error assms(2)
  by metis+

lemma valid_run_no_error:
  assumes "ppd_rep enc s ps" "ppd_run enc evs = (enc', s', ps')"
    and "(s @ s') @ t = pp_stream qs" "\<forall>q \<in> set qs. length q \<le> ppd_output_mtu enc"
  shows "\<not> ppd_error enc'"
  using assms
proof (induction evs arbitrary: enc s ps s' ps')
  case Nil
  then show ?case by (simp add: ppd_rep_def)
next
  case (Cons ev evs)
  define step where "step = (case ev of
          Receive d \<Rightarrow> if ppd_can_receive enc d then Some (ppd_received enc d, d) else None
        | Sent \<Rightarrow> if ppd_send enc \<noteq> None then Some (ppd_sent enc, []) else None)"
  show ?case
  proof (cases step)
    case None
    then show ?thesis using Cons by (simp add: step_def Let_def)
  next
    case (Some x)
    obtain enc1 d where x: "x = (enc1, d)" by (cases x)
    obtain s1 ps1 where r: "ppd_run enc1 evs = (enc', s1, ps1)" "s' = d @ s1"
      using Cons.prems(2) Some x by (auto simp: step_def Let_def split: prod.splits)
    have v: "((s @ d) @ s1) @ t = pp_stream qs" using Cons.prems(3) r(2) by simp
    have "\<exists>q. ppd_rep enc1 (s @ d) (ps @ q)" "ppd_output_mtu enc1 = ppd_output_mtu enc"
    proof -
      show "ppd_output_mtu enc1 = ppd_output_mtu enc"
        using Some x by (auto simp: step_def ppd_mtu_step split: ppd_event.splits if_splits)
      show "\<exists>q. ppd_rep enc1 (s @ d) (ps @ q)"
      proof (cases ev)
        case (Receive d')
        then have e: "ppd_can_receive enc d" "enc1 = ppd_received enc d"
          using Some x by (auto simp: step_def split: if_splits)
        have "\<not> ppd_error (ppd_received enc d)"
          using valid_steps(1) [OF Cons.prems(1,4) e(1), of "s1 @ t"] v by simp
        then show ?thesis using ppd_received_rep [OF Cons.prems(1) e(1)] e(2) by blast
      next
        case Sent
        then have e: "ppd_send enc \<noteq> None" "enc1 = ppd_sent enc" "d = []"
          using Some x by (auto simp: step_def split: if_splits)
        have "\<not> ppd_error (ppd_sent enc)"
          using valid_steps(2) [OF Cons.prems(1,4) e(1), of "s1 @ t"] v e(3) by simp
        then show ?thesis using ppd_sent_rep [OF Cons.prems(1) e(1)] e(2,3) by auto
      qed
    qed
    then show ?thesis using Cons.IH [OF _ r(1)] v Cons.prems(4) by metis
  qed
qed

text \<open>Of a valid stream the decoder has made a prefix of the packets, all of them once it is idle.\<close>

lemma valid_rep_packets:
  assumes r: "ppd_rep enc s ps" and v: "s @ t = pp_stream qs" "\<forall>q \<in> set qs. length q \<le> ppd_output_mtu enc"
  shows "\<exists>qs'. qs = ps @ qs' \<and> (ppd_send enc = None \<longrightarrow> t = [] \<longrightarrow> qs' = [])"
proof -
  have m: "ppd_output_mtu enc \<le> 65535" and ps: "\<forall>p \<in> set ps. length p \<le> ppd_output_mtu enc"
    and s: "pp_stream ps @ (ppd_bytes enc @ t) = pp_stream qs"
    using r v(1) by (simp_all add: ppd_rep_def)
  obtain qs' where qs: "qs = ps @ qs'" "ppd_bytes enc @ t = pp_stream qs'"
    using pp_stream_split [OF s] m ps v(2) by fastforce
  have "qs' = []" if "ppd_send enc = None" "t = []"
  proof (rule ccontr)
    assume "qs' \<noteq> []"
    then obtain q qs'' where q: "qs' = q # qs''" by (cases qs') auto
    then have b: "ppd_bytes enc = pp_enc q @ pp_stream qs''" using qs(2) that(2) by (simp add: pp_stream_def)
    have "unat (badvpn_read_le16 (ppd_bytes enc)) = length q"
      using v(2) qs(1) q m by (simp add: b read_le16_enc unat_of_nat)
    then have "\<not> pp_incomplete (ppd_output_mtu enc) (ppd_bytes enc)"
      by (simp add: pp_incomplete_def b)
    then show False using r that(1) by (simp add: ppd_rep_def)
  qed
  then show ?thesis using qs(1) by (intro exI [of _ qs']) simp
qed

subsection \<open>The encoder and the flow\<close>

text \<open>
  \<open>PacketProtoFlow\<close> chains BufferWriter, encoder and PacketBuffer. The destination of the buffer's
  receive travels to the writer (\<open>output_handler_recv\<close> of the encoder adds the header's size), the
  packet travels back (\<open>PacketRecvInterface_Done\<close>).
\<close>

record PacketProtoFlow =
  ppf_out_have :: bool
  ppf_out :: nat
  ppf_output_packet :: "nat option"
  ppf_buffer :: PacketBuffer

definition BufferWriter_output_handler_recv :: "PacketProtoFlow \<Rightarrow> nat \<Rightarrow> PacketProtoFlow" where
  "BufferWriter_output_handler_recv w data = w\<lparr>ppf_out_have := True, ppf_out := data\<rparr>"

definition PacketProtoEncoder_output_handler_recv :: "PacketProtoFlow \<Rightarrow> nat \<Rightarrow> PacketProtoFlow" where
  "PacketProtoEncoder_output_handler_recv enc data =
     BufferWriter_output_handler_recv (enc\<lparr>ppf_output_packet := Some data\<rparr>) (data + 2)"

text \<open>A receive the buffer has issued reaches the encoder if it has none yet.\<close>

definition ppf_pull :: "PacketProtoFlow \<Rightarrow> PacketProtoFlow" where
  "ppf_pull f =
     (case (pb_recv (ppf_buffer f), ppf_output_packet f) of
        (Some d, None) \<Rightarrow> PacketProtoEncoder_output_handler_recv f d
      | _ \<Rightarrow> f)"

definition ppf_memory :: "PacketProtoFlow \<Rightarrow> byte list" where
  "ppf_memory f = cb_buffer (pb_buf (ppf_buffer f))"

definition ppf_write :: "PacketProtoFlow \<Rightarrow> nat \<Rightarrow> byte list \<Rightarrow> PacketProtoFlow" where
  "ppf_write f off d =
     f\<lparr>ppf_buffer := (ppf_buffer f)\<lparr>pb_buf := (pb_buf (ppf_buffer f))\<lparr>cb_buffer :=
       mem_write (ppf_memory f) off d\<rparr>\<rparr>\<rparr>"

text \<open>\<open>input_handler_done\<close> of the encoder; \<open>PacketRecvInterface_Done\<close> runs the buffer's handler.\<close>

definition PacketProtoEncoder_input_handler_done :: "PacketProtoFlow \<Rightarrow> nat \<Rightarrow> PacketProtoFlow" where
  "PacketProtoEncoder_input_handler_done enc in_len =
     (case ppf_output_packet enc of
        None \<Rightarrow> enc
      | Some d \<Rightarrow>
          let enc = ppf_write enc d (packetproto_header_bytes in_len);
              enc = enc\<lparr>ppf_output_packet := None\<rparr>;
              buf = pb_input_handler_done ((ppf_buffer enc)\<lparr>pb_recv := None\<rparr>) (int (PACKETPROTO_ENCLEN in_len))
          in ppf_pull (enc\<lparr>ppf_buffer := buf\<rparr>))"

definition BufferWriter_StartPacket :: "PacketProtoFlow \<Rightarrow> nat option" where
  "BufferWriter_StartPacket w = (if \<not> ppf_out_have w then None else Some (ppf_out w))"

definition BufferWriter_EndPacket :: "PacketProtoFlow \<Rightarrow> nat \<Rightarrow> PacketProtoFlow" where
  "BufferWriter_EndPacket w len =
     PacketProtoEncoder_input_handler_done (w\<lparr>ppf_out_have := False\<rparr>) len"

definition PacketProtoFlow_Init :: "(int \<Rightarrow> byte list option) \<Rightarrow> nat \<Rightarrow> int \<Rightarrow> PacketProtoFlow option" where
  "PacketProtoFlow_Init alloc input_mtu num_packets =
     (case PacketBuffer_Init alloc (int (PACKETPROTO_ENCLEN input_mtu)) num_packets of
        None \<Rightarrow> None
      | Some b \<Rightarrow> Some (ppf_pull
          \<lparr>ppf_out_have = False, ppf_out = 0, ppf_output_packet = None, ppf_buffer = b\<rparr>))"

text \<open>What a user of the flow does: start a packet, write it at the address it gets, end it.\<close>

definition ppf_submit :: "PacketProtoFlow \<Rightarrow> byte list \<Rightarrow> PacketProtoFlow" where
  "ppf_submit f p =
     (case BufferWriter_StartPacket f of
        None \<Rightarrow> f
      | Some out \<Rightarrow> BufferWriter_EndPacket (ppf_write f out p) (length p))"

definition ppf_sent :: "PacketProtoFlow \<Rightarrow> PacketProtoFlow" where
  "ppf_sent f = ppf_pull (f\<lparr>ppf_buffer := pb_sent (ppf_buffer f)\<rparr>)"

definition ppf_room :: "PacketProtoFlow \<Rightarrow> byte list \<Rightarrow> bool" where
  "ppf_room f p \<longleftrightarrow> BufferWriter_StartPacket f \<noteq> None \<and>
     int (PACKETPROTO_ENCLEN (length p)) \<le> pb_input_mtu (ppf_buffer f)"

definition ppf_rep :: "PacketProtoFlow \<Rightarrow> byte list list \<Rightarrow> bool" where
  "ppf_rep f q \<longleftrightarrow> (\<exists>ps. pb_rep (ppf_buffer f) q \<and> q = map pp_enc ps) \<and>
     ppf_output_packet f = pb_recv (ppf_buffer f) \<and>
     ppf_out_have f = (ppf_output_packet f \<noteq> None) \<and>
     (case ppf_output_packet f of None \<Rightarrow> True | Some d \<Rightarrow> ppf_out f = d + 2)"

lemma ppf_pull_rep:
  assumes "pb_rep b (map pp_enc ps)"
    and "pk = None \<or> pk = pb_recv b"
    and "pk = None \<longrightarrow> \<not> have" "pk \<noteq> None \<longrightarrow> have \<and> w = the pk + 2"
  shows "ppf_rep (ppf_pull \<lparr>ppf_out_have = have, ppf_out = w, ppf_output_packet = pk, ppf_buffer = b\<rparr>)
    (map pp_enc ps)"
  using assms
  by (auto simp: ppf_rep_def ppf_pull_def PacketProtoEncoder_output_handler_recv_def
      BufferWriter_output_handler_recv_def split: option.splits)

lemma ppf_submit_rep:
  assumes r: "ppf_rep f q" and room: "ppf_room f p"
  shows "ppf_rep (ppf_submit f p) (q @ [pp_enc p])"
proof -
  let ?b = "ppf_buffer f"
  obtain ps where pr: "pb_rep ?b q" and q: "q = map pp_enc ps" using r unfolding ppf_rep_def by blast
  obtain d where d: "pb_recv ?b = Some d" "ppf_output_packet f = Some d" "ppf_out f = d + 2" "ppf_out_have f"
    using r room by (auto simp: ppf_rep_def ppf_room_def BufferWriter_StartPacket_def split: option.splits if_splits)
  have l: "int (length (pp_enc p)) \<le> pb_input_mtu ?b"
    using room by (simp add: ppf_room_def PACKETPROTO_ENCLEN_def)
  then have fit: "d + length (pp_enc p) \<le> length (cb_buffer (pb_buf ?b))"
    using recv_in_memory [OF pr d(1)] by linarith
  have mem: "mem_write (mem_write (cb_buffer (pb_buf ?b)) (d + 2) p) d (packetproto_header_bytes (length p)) =
      mem_write (cb_buffer (pb_buf ?b)) d (pp_enc p)"
    using mem_write_join [of d "packetproto_header_bytes (length p)" p "cb_buffer (pb_buf ?b)"] fit
    by (simp add: pp_enc_def)
  have "ppf_submit f p = ppf_pull (f\<lparr>ppf_out_have := False, ppf_output_packet := None,
      ppf_buffer := pb_received ?b (pp_enc p)\<rparr>)"
    using d mem
    by (cases f; cases ?b) (simp add: ppf_submit_def BufferWriter_StartPacket_def BufferWriter_EndPacket_def
        PacketProtoEncoder_input_handler_done_def ppf_write_def ppf_memory_def Let_def
        pb_received_def PACKETPROTO_ENCLEN_def)
  moreover have "pb_rep (pb_received ?b (pp_enc p)) (map pp_enc (ps @ [p]))"
    using pb_received_rep [OF pr, of "pp_enc p"] l d(1) q by (simp add: pb_room_def)
  ultimately show ?thesis
    using ppf_pull_rep [of "pb_received ?b (pp_enc p)" "ps @ [p]" None False "ppf_out f"] q
    by (cases f) simp
qed

lemma ppf_sent_rep:
  assumes r: "ppf_rep f (x # q)"
  shows "ppf_rep (ppf_sent f) q"
proof -
  let ?b = "ppf_buffer f"
  obtain ps where pr: "pb_rep ?b (x # q)" and q: "x # q = map pp_enc ps"
    using r unfolding ppf_rep_def by (elim conjE exE) (rule that)
  then obtain ps' where q': "q = map pp_enc ps'" by (cases ps) auto
  note s = pb_sent_rep [OF pr]
  note keep = pb_sent_keeps_recv [OF pr]
  have "ppf_rep (ppf_pull \<lparr>ppf_out_have = ppf_out_have f, ppf_out = ppf_out f,
      ppf_output_packet = ppf_output_packet f, ppf_buffer = pb_sent ?b\<rparr>) (map pp_enc ps')"
  proof (rule ppf_pull_rep)
    show "pb_rep (pb_sent ?b) (map pp_enc ps')" using s q' by simp
  qed (use r keep in \<open>auto simp: ppf_rep_def split: option.splits\<close>)
  then show ?thesis using q' by (cases f) (simp add: ppf_sent_def)
qed

text \<open>The flow is a queue whose entries are encodings of the submitted packets.\<close>

definition ppf_queue :: "PacketProtoFlow \<Rightarrow> byte list list \<Rightarrow> bool" where
  "ppf_queue f ps \<longleftrightarrow> ppf_rep f (map pp_enc ps)"

definition ppf_front :: "PacketProtoFlow \<Rightarrow> byte list option" where
  "ppf_front f = map_option (drop 2) (pb_front (ppf_buffer f))"

interpretation ppf: packet_fifo ppf_queue ppf_submit ppf_sent ppf_front ppf_room
proof unfold_locales
  fix f ps p assume "ppf_queue f ps" "ppf_room f p"
  then show "ppf_queue (ppf_submit f p) (ps @ [p])"
    using ppf_submit_rep by (simp add: ppf_queue_def)
next
  fix f p ps assume "ppf_queue f (p # ps)"
  then show "ppf_queue (ppf_sent f) ps" using ppf_sent_rep by (simp add: ppf_queue_def)
next
  fix f ps assume q: "ppf_queue f ps"
  then have "pb_rep (ppf_buffer f) (map pp_enc ps)" by (auto simp: ppf_queue_def ppf_rep_def)
  then show "ppf_front f = (if ps = [] then None else Some (hd ps))"
    using pb_front_rep [of "ppf_buffer f" "map pp_enc ps"]
    by (cases ps) (simp_all add: ppf_front_def pp_enc_def)
qed

lemma ppf_init_queue:
  assumes "PacketProtoFlow_Init alloc input_mtu num_packets = Some f" "0 < num_packets"
    and "\<And>n d. alloc n = Some d \<Longrightarrow> length d = 4 * nat n \<and> 4 * n \<le> INT_MAX"
  shows "ppf_queue f []" "pb_input_mtu (ppf_buffer f) = 2 + int input_mtu"
proof -
  obtain b where b: "PacketBuffer_Init alloc (int (PACKETPROTO_ENCLEN input_mtu)) num_packets = Some b"
    and f: "f = ppf_pull \<lparr>ppf_out_have = False, ppf_out = 0, ppf_output_packet = None, ppf_buffer = b\<rparr>"
    using assms(1) by (auto simp: PacketProtoFlow_Init_def split: option.splits)
  note i = pb_init_rep [OF b _ assms(2,3)]
  show "ppf_queue f []"
    using i(1) ppf_pull_rep [of b "[]" None False 0] by (simp add: ppf_queue_def f)
  show "pb_input_mtu (ppf_buffer f) = 2 + int input_mtu"
    using i(3) by (simp add: f ppf_pull_def PacketProtoEncoder_output_handler_recv_def
        BufferWriter_output_handler_recv_def PACKETPROTO_ENCLEN_def split: option.split)
qed

subsection \<open>The stream sender\<close>

text \<open>
  flow/PacketStreamSender.c. The pending operation at the output is the slice passed to
  \<open>StreamPassInterface_Sender_Send\<close>; \<open>pss_done\<close> counts the calls of \<open>PacketPassInterface_Done\<close>.
\<close>

record PacketStreamSender =
  pss_in_len :: int
  pss_in :: "byte list"
  pss_in_used :: nat
  pss_out :: "byte list option"
  pss_done :: nat

definition PacketStreamSender_Init :: PacketStreamSender where
  "PacketStreamSender_Init =
     \<lparr>pss_in_len = -1, pss_in = [], pss_in_used = 0, pss_out = None, pss_done = 0\<rparr>"

definition pss_send_data :: "PacketStreamSender \<Rightarrow> PacketStreamSender" where
  "pss_send_data s =
     (if int (pss_in_used s) < pss_in_len s
      then s\<lparr>pss_out := Some (mem_read (pss_in s) (pss_in_used s) (nat (pss_in_len s) - pss_in_used s))\<rparr>
      else s\<lparr>pss_in_len := -1, pss_done := pss_done s + 1\<rparr>)"

definition pss_input_handler_send :: "PacketStreamSender \<Rightarrow> byte list \<Rightarrow> PacketStreamSender" where
  "pss_input_handler_send s data =
     pss_send_data (s\<lparr>pss_in_len := int (length data), pss_in := data, pss_in_used := 0\<rparr>)"

definition pss_output_handler_done :: "PacketStreamSender \<Rightarrow> nat \<Rightarrow> PacketStreamSender" where
  "pss_output_handler_done s data_len =
     pss_send_data (s\<lparr>pss_in_used := pss_in_used s + data_len\<rparr>)"

text \<open>The stream takes, piece by piece, numbers of bytes between 1 and what is offered.\<close>

fun pss_run :: "PacketStreamSender \<Rightarrow> nat list \<Rightarrow> (PacketStreamSender \<times> byte list) option" where
  "pss_run s [] = Some (s, [])"
| "pss_run s (n # ns) =
     (case pss_out s of
        None \<Rightarrow> None
      | Some d \<Rightarrow>
          if 0 < n \<and> n \<le> length d then
            map_option (\<lambda>(s', bytes). (s', take n d @ bytes))
              (pss_run (pss_output_handler_done (s\<lparr>pss_out := None\<rparr>) n) ns)
          else None)"

definition pss_sending :: "PacketStreamSender \<Rightarrow> byte list \<Rightarrow> bool" where
  "pss_sending s rest \<longleftrightarrow> pss_in_len s = int (length (pss_in s)) \<and> rest = drop (pss_in_used s) (pss_in s) \<and>
     rest \<noteq> [] \<and> pss_out s = Some rest"

definition pss_idle :: "PacketStreamSender \<Rightarrow> bool" where
  "pss_idle s \<longleftrightarrow> pss_in_len s = -1 \<and> pss_out s = None"

lemma pss_send_data_cases:
  assumes "pss_in_len s = int (length (pss_in s))" "pss_out s = None"
  shows "if drop (pss_in_used s) (pss_in s) = []
    then pss_idle (pss_send_data s) \<and> pss_done (pss_send_data s) = pss_done s + 1
    else pss_sending (pss_send_data s) (drop (pss_in_used s) (pss_in s)) \<and>
         pss_done (pss_send_data s) = pss_done s"
  using assms by (simp add: pss_send_data_def pss_sending_def pss_idle_def mem_read_def)

lemma pss_run_sending:
  assumes "pss_sending s rest" "pss_run s ns = Some (s', bytes)"
  shows "\<exists>rest'. rest = bytes @ rest' \<and> length ns \<le> length bytes \<and>
    (if rest' = [] then pss_idle s' \<and> pss_done s' = pss_done s + 1
     else pss_sending s' rest' \<and> pss_done s' = pss_done s)"
  using assms
proof (induction ns arbitrary: s rest bytes)
  case Nil
  then show ?case by (auto simp: pss_sending_def)
next
  case (Cons n ns)
  let ?s1 = "pss_output_handler_done (s\<lparr>pss_out := None\<rparr>) n"
  have o: "pss_out s = Some rest" using Cons.prems(1) by (simp add: pss_sending_def)
  obtain b where n: "0 < n" "n \<le> length rest" and r: "pss_run ?s1 ns = Some (s', b)"
    and bytes: "bytes = take n rest @ b"
    using Cons.prems(2) o by (auto split: if_splits)
  have rest: "drop (pss_in_used s + n) (pss_in s) = drop n rest"
    using Cons.prems(1) by (simp add: pss_sending_def add.commute)
  note c = pss_send_data_cases [of "s\<lparr>pss_out := None, pss_in_used := pss_in_used s + n\<rparr>"]
  show ?case
  proof (cases "drop n rest = []")
    case True
    then have i: "pss_idle ?s1 \<and> pss_done ?s1 = pss_done s + 1"
      using c Cons.prems(1) rest by (simp add: pss_output_handler_done_def pss_sending_def)
    then have "ns = [] \<and> b = [] \<and> s' = ?s1"
      using r by (cases ns) (simp_all add: pss_idle_def)
    then show ?thesis using True n i bytes by (intro exI [of _ "[]"]) simp
  next
    case False
    have pl: "pss_in_len s = int (length (pss_in s))"
      using Cons.prems(1) by (simp add: pss_sending_def)
    have i: "pss_sending ?s1 (drop n rest) \<and> pss_done ?s1 = pss_done s"
      using c pl rest False by (simp add: pss_output_handler_done_def split: if_splits)
    then obtain rest' where "drop n rest = b @ rest'" "length ns \<le> length b"
      "if rest' = [] then pss_idle s' \<and> pss_done s' = pss_done s + 1
       else pss_sending s' rest' \<and> pss_done s' = pss_done s"
      using Cons.IH [of ?s1 "drop n rest" b] r by auto
    moreover from this have "rest = bytes @ rest'"
      using bytes append_take_drop_id [of n rest] by simp
    moreover have "length (n # ns) \<le> length bytes"
      using calculation(2) n bytes by simp
    ultimately show ?thesis using i by (intro exI [of _ rest']) simp
  qed
qed

subsection \<open>Properties\<close>

text \<open>C2: whatever way the stream cuts a valid encoding into pieces, and whenever the receiver finishes
  a packet, the decoder reports no error, hands over the encoded packets in order, and once it is
  idle after the whole encoding has arrived it has handed over all of them.\<close>

theorem decoder_reassembles:
  assumes "PacketProtoDecoder_Init malloc output_mtu = Some enc"
    and "\<And>n d. malloc n = Some d \<Longrightarrow> length d = n"
    and "ppd_run enc evs = (enc', received, packets)"
    and "received @ rest = pp_stream qs" "\<forall>q \<in> set qs. length q \<le> min output_mtu 65535"
  shows "\<not> ppd_error enc' \<and> (\<exists>qs'. qs = packets @ qs') \<and>
    (rest = [] \<and> ppd_send enc' = None \<longrightarrow> packets = qs)"
proof -
  note i = ppd_init_rep [OF assms(1,2)]
  have m: "\<forall>q \<in> set qs. length q \<le> ppd_output_mtu enc" using assms(5) i(2) by simp
  have e: "\<not> ppd_error enc'" using valid_run_no_error [OF i(1) assms(3) _ m] assms(4) by simp
  have r: "ppd_rep enc' received packets" using ppd_run_rep [OF i(1) assms(3) e] by simp
  have "ppd_output_mtu enc' = ppd_output_mtu enc"
    using assms(3)
  proof (induction evs arbitrary: enc received packets)
    case (Cons ev evs)
    then show ?case
      by (cases ev) (auto simp: ppd_mtu_step Let_def split: if_splits prod.splits)
  qed simp
  then have "\<exists>qs'. qs = packets @ qs' \<and> (ppd_send enc' = None \<longrightarrow> rest = [] \<longrightarrow> qs' = [])"
    using m by (intro valid_rep_packets [OF r assms(4)]) simp
  then show ?thesis using e by auto
qed

text \<open>On any input, valid or not, the decoder reports an error exactly when the header at the front
  of the bytes it has not yet consumed announces a payload above the MTU; everything before that
  header it has handed over as packets.\<close>

theorem decoder_error_iff:
  assumes "ppd_rep enc s ps" "ppd_can_receive enc d"
  shows "ppd_error (ppd_received enc d) \<longleftrightarrow>
    (\<exists>bs. s @ d = pp_stream ps @ bs \<and> 2 \<le> length bs \<and> ppd_output_mtu enc < unat (badvpn_read_le16 bs))"
proof -
  obtain enc' where r: "ppd_ready enc' (s @ d) ps" "ppd_received enc d = ppd_process_data enc'"
    "ppd_output_mtu enc' = ppd_output_mtu enc"
    using ppd_received_ready [OF assms] by blast
  have "s @ d = pp_stream ps @ ppd_bytes enc'" using r(1) by (simp add: ppd_ready_def)
  then show ?thesis using ppd_error_iff [OF r(1)] r(2,3) by auto
qed

text \<open>In every state a run of the decoder without an error reaches, a receive into free space of at
  least one byte inside the buffer is pending, or a send of a packet within the MTU that lies inside
  the buffer; never both.\<close>

theorem decoder_bounds:
  assumes "PacketProtoDecoder_Init malloc output_mtu = Some enc"
    and "\<And>n d. malloc n = Some d \<Longrightarrow> length d = n"
    and "ppd_run enc evs = (enc', received, packets)" "\<not> ppd_error enc'"
  shows "case (ppd_recv enc', ppd_send enc') of
      (Some (off, n), None) \<Rightarrow> 0 < n \<and> off + n \<le> length (ppd_buf enc')
    | (None, Some (d, n)) \<Rightarrow> n \<le> ppd_output_mtu enc' \<and> d + n \<le> length (ppd_buf enc')
    | _ \<Rightarrow> False"
proof -
  have r: "ppd_rep enc' received packets"
    using ppd_run_rep [OF ppd_init_rep(1) [OF assms(1,2)] assms(3,4)] by simp
  show ?thesis
  proof (cases "ppd_send enc'")
    case None
    then show ?thesis using r by (simp add: ppd_rep_def)
  next
    case (Some x)
    moreover obtain d n where x: "x = (d, n)" by (cases x)
    ultimately have "ppd_recv enc' = None" "d + n = ppd_buf_start enc'" "n = length (last packets)"
      "packets \<noteq> []" "length (ppd_buf enc') = ppd_buf_size enc'"
      "ppd_buf_start enc' + ppd_buf_used enc' \<le> ppd_buf_size enc'"
      "\<forall>p \<in> set packets. length p \<le> ppd_output_mtu enc'"
      using r by (simp_all add: ppd_rep_def)
    then show ?thesis using Some x by simp
  qed
qed

text \<open>A PacketProtoFlow hands over, in order and unchanged, the payloads that were written to it.\<close>

theorem flow_fifo:
  assumes "PacketProtoFlow_Init alloc input_mtu num_packets = Some f" "0 < num_packets"
    and "\<And>n d. alloc n = Some d \<Longrightarrow> length d = 4 * nat n \<and> 4 * n \<le> INT_MAX"
    and "fifo_run ppf_submit ppf_sent ppf_front ppf_room f ops = (f', ins, outs)"
  shows "\<exists>rest. ins = outs @ rest \<and> (outs = ins \<longleftrightarrow> ppf_front f' = None)"
  by (rule ppf.run_prefix [OF ppf_init_queue(1) [OF assms(1-3)] assms(4)])

text \<open>What a PacketProtoFlow gives its output for a packet is the packet's encoding, so that the
  concatenation of what it gave for a queue of packets is what the decoder reassembles.\<close>

theorem flow_output_encoded:
  assumes "ppf_queue f (p # ps)"
  shows "pb_front (ppf_buffer f) = Some (pp_enc p)"
proof -
  have "pb_rep (ppf_buffer f) (map pp_enc (p # ps))"
    using assms unfolding ppf_queue_def ppf_rep_def by (elim conjE exE) simp
  then show ?thesis using pb_front_rep by fastforce
qed

text \<open>A PacketStreamSender that is given a packet puts exactly its bytes on the stream, whatever
  pieces the stream takes, and finishes the packet once, right after the last byte; it takes at most
  as many pieces as the packet has bytes.\<close>

theorem stream_sender_exact:
  assumes "pss_idle s" "pss_run (pss_input_handler_send s p) ns = Some (s', bytes)"
  shows "\<exists>rest. p = bytes @ rest \<and> length ns \<le> length bytes \<and>
    (if rest = [] then pss_idle s' \<and> pss_done s' = pss_done s + 1
     else pss_out s' = Some rest \<and> pss_done s' = pss_done s)"
proof -
  let ?s = "pss_input_handler_send s p"
  note c = pss_send_data_cases [of "s\<lparr>pss_in_len := int (length p), pss_in := p, pss_in_used := 0\<rparr>"]
  show ?thesis
  proof (cases "p = []")
    case True
    then have i: "pss_idle ?s \<and> pss_done ?s = pss_done s + 1"
      using c assms(1) by (simp add: pss_input_handler_send_def pss_idle_def)
    then have "ns = [] \<and> bytes = [] \<and> s' = ?s"
      using assms(2) by (cases ns) (simp_all add: pss_idle_def)
    then show ?thesis using True i by simp
  next
    case False
    then have i: "pss_sending ?s p \<and> pss_done ?s = pss_done s"
      using c assms(1) by (simp add: pss_input_handler_send_def pss_idle_def)
    then obtain rest where "p = bytes @ rest" "length ns \<le> length bytes"
      "if rest = [] then pss_idle s' \<and> pss_done s' = pss_done ?s + 1
       else pss_sending s' rest \<and> pss_done s' = pss_done ?s"
      using pss_run_sending [OF _ assms(2)] by blast
    then show ?thesis using i by (intro exI [of _ rest]) (simp add: pss_sending_def split: if_splits)
  qed
qed

subsection \<open>The properties at concrete inputs\<close>

definition sample_malloc :: "nat \<Rightarrow> byte list option" where
  "sample_malloc n = Some (replicate n 0)"

lemma sample_malloc: "sample_malloc n = Some d \<Longrightarrow> length d = n"
  by (auto simp: sample_malloc_def)

definition sample_decoder :: PacketProtoDecoder where
  "sample_decoder = \<lparr>ppd_output_mtu = 4, ppd_buf_size = 6, ppd_buf_start = 0, ppd_buf_used = 0,
     ppd_buf = [0, 0, 0, 0, 0, 0], ppd_recv = Some (0, 6), ppd_send = None, ppd_error = False\<rparr>"

lemma sample_decoder: "PacketProtoDecoder_Init sample_malloc 4 = Some sample_decoder"
proof -
  have "replicate 4 (0 :: byte) = [0, 0, 0, 0]" by (simp add: eval_nat_numeral)
  then show ?thesis
    by (simp add: PacketProtoDecoder_Init_def sample_malloc_def sample_decoder_def
        PACKETPROTO_MAXPAYLOAD_def PACKETPROTO_ENCLEN_def)
qed

text \<open>Two packets in four pieces; the first and the third end inside a header, and the third fills the buffer
  to its end, so that the decoder moves what is left to the front.\<close>

definition sample_events :: "ppd_event list" where
  "sample_events = [Receive [2], Receive [0, 7, 8, 1], Sent, Receive [0], Receive [9], Sent]"

lemma sample_decoder_run:
  "\<exists>enc'. ppd_run sample_decoder sample_events = (enc', [2, 0, 7, 8, 1, 0, 9], [[7, 8], [9]]) \<and>
    ppd_send enc' = None"
  by (simp add: sample_decoder_def sample_events_def ppd_can_receive_def ppd_received_def ppd_sent_def
      ppd_input_handler_done_def ppd_output_handler_done_def ppd_process_data_def ppd_wait_def Let_def
      mem_write_def mem_read_def badvpn_read_le16_def ppd_packet_def)

lemma sample_stream: "[2, 0, 7, 8, 1, 0, 9] @ [] = pp_stream [[7, 8], [9]]"
  by (simp add: pp_stream_def pp_enc_def packetproto_header_bytes_def badvpn_write_le16_def)

theorem decoder_reassembles_witness:
  "\<exists>enc'. ppd_run sample_decoder sample_events = (enc', [2, 0, 7, 8, 1, 0, 9], [[7, 8], [9]]) \<and>
    \<not> ppd_error enc'"
proof -
  obtain enc' where r: "ppd_run sample_decoder sample_events = (enc', [2, 0, 7, 8, 1, 0, 9], [[7, 8], [9]])"
    using sample_decoder_run by blast
  have "\<not> ppd_error enc'"
    using decoder_reassembles [OF sample_decoder sample_malloc r sample_stream] by simp
  then show ?thesis using r by blast
qed

theorem decoder_bounds_witness:
  "\<exists>enc' off n. fst (ppd_run sample_decoder sample_events) = enc' \<and>
    ppd_recv enc' = Some (off, n) \<and> 0 < n \<and> off + n \<le> length (ppd_buf enc')"
proof -
  obtain enc' where r: "ppd_run sample_decoder sample_events = (enc', [2, 0, 7, 8, 1, 0, 9], [[7, 8], [9]])"
    "ppd_send enc' = None" using sample_decoder_run by blast
  have e: "\<not> ppd_error enc'"
    using r by (auto simp: sample_decoder_def sample_events_def ppd_can_receive_def ppd_received_def ppd_sent_def
      ppd_input_handler_done_def ppd_output_handler_done_def ppd_process_data_def ppd_wait_def Let_def
      mem_write_def mem_read_def badvpn_read_le16_def ppd_packet_def)
  show ?thesis
    using decoder_bounds [OF sample_decoder sample_malloc r(1) e] r by (auto split: option.splits)
qed

theorem decoder_error_iff_witness:
  "ppd_error (ppd_received sample_decoder [5, 0])"
proof -
  have r: "ppd_rep sample_decoder [] []" by (rule ppd_init_rep(1) [OF sample_decoder sample_malloc])
  have c: "ppd_can_receive sample_decoder [5, 0]" by (simp add: ppd_can_receive_def sample_decoder_def)
  have "\<exists>bs. [] @ [5, 0] = pp_stream [] @ bs \<and> 2 \<le> length bs \<and>
      ppd_output_mtu sample_decoder < unat (badvpn_read_le16 bs)"
    by (simp add: pp_stream_def sample_decoder_def badvpn_read_le16_def)
  then show ?thesis using decoder_error_iff [OF r c] by blast
qed

lemma sample_ppf: "PacketProtoFlow_Init sample_alloc 6 2 \<noteq> None"
  using sample_pb by (auto simp: PacketProtoFlow_Init_def PACKETPROTO_ENCLEN_def)

theorem flow_fifo_witness:
  "\<exists>f f' ins outs rest. PacketProtoFlow_Init sample_alloc 6 2 = Some f \<and>
    fifo_run ppf_submit ppf_sent ppf_front ppf_room f [Put [1, 2, 3], Put [4], Get] = (f', ins, outs) \<and>
    ins = outs @ rest"
proof -
  obtain f where f: "PacketProtoFlow_Init sample_alloc 6 2 = Some f" using sample_ppf by auto
  obtain f' ins outs where r: "fifo_run ppf_submit ppf_sent ppf_front ppf_room f
      [Put [1, 2, 3], Put [4], Get] = (f', ins, outs)" by (rule prod_cases3)
  have "\<exists>rest. ins = outs @ rest \<and> (outs = ins \<longleftrightarrow> ppf_front f' = None)"
    by (rule flow_fifo [OF f _ _ r]) (simp_all add: sample_alloc)
  then show ?thesis using f r by blast
qed

theorem flow_output_encoded_witness:
  "\<exists>f. PacketProtoFlow_Init sample_alloc 6 2 = Some f \<and>
    pb_front (ppf_buffer (ppf_submit f [5, 6])) = Some [2, 0, 5, 6]"
proof -
  obtain f where f: "PacketProtoFlow_Init sample_alloc 6 2 = Some f" using sample_ppf by auto
  have q: "ppf_queue f []" "pb_input_mtu (ppf_buffer f) = 8"
    using ppf_init_queue [OF f _ sample_alloc] by simp_all
  have "PacketBuffer_Init sample_alloc 8 2 \<noteq> None" by (rule sample_pb)
  then have "ppf_output_packet f \<noteq> None"
    using f pb_init_rep(4) [of sample_alloc 8 2, OF _ _ _ sample_alloc]
    by (auto simp: PacketProtoFlow_Init_def PACKETPROTO_ENCLEN_def ppf_pull_def
        PacketProtoEncoder_output_handler_recv_def BufferWriter_output_handler_recv_def split: option.splits)
  then have "ppf_room f [5, 6]"
    using q by (auto simp: ppf_room_def PACKETPROTO_ENCLEN_def BufferWriter_StartPacket_def ppf_queue_def ppf_rep_def)
  then have "ppf_queue (ppf_submit f [5, 6]) [[5, 6]]" using ppf.put_rep [OF q(1)] by simp
  from flow_output_encoded [OF this] show ?thesis
    using f by (simp add: pp_enc_def packetproto_header_bytes_def badvpn_write_le16_def)
qed

theorem stream_sender_exact_witness:
  "\<exists>s'. pss_run (pss_input_handler_send PacketStreamSender_Init [1, 2, 3]) [1, 2] = Some (s', [1, 2, 3]) \<and>
    pss_done s' = 1"
proof -
  obtain s' where r: "pss_run (pss_input_handler_send PacketStreamSender_Init [1, 2, 3]) [1, 2] =
      Some (s', [1, 2, 3])"
    by (simp add: PacketStreamSender_Init_def pss_input_handler_send_def pss_send_data_def
        pss_output_handler_done_def mem_read_def)
  have "pss_idle PacketStreamSender_Init" by (simp add: pss_idle_def PacketStreamSender_Init_def)
  from stream_sender_exact [OF this r] show ?thesis
    using r by (simp add: PacketStreamSender_Init_def)
qed

end
