(* ===== verification/BSize.thy ===== *)
theory BSize
  imports Prelude
begin

text \<open>
  misc/bsize.h: sizes with an overflow flag, used to compute allocation sizes. \<open>size_t\<close> is the 64-bit
  type of the build's targets; values wrap, and the flag records that they did.
\<close>

type_synonym size_t = "64 word"

definition SIZE_MAX :: size_t where
  "SIZE_MAX = - 1"

record bsize_t =
  is_overflow :: bool
  bsize_value :: size_t

definition bsize_fromsize :: "size_t \<Rightarrow> bsize_t" where
  "bsize_fromsize v = \<lparr>is_overflow = False, bsize_value = v\<rparr>"

text \<open>The comparison \<open>v > SIZE_MAX\<close> converts the \<open>int\<close> to \<open>size_t\<close>.\<close>

definition bsize_fromint :: "int \<Rightarrow> bsize_t" where
  "bsize_fromint v = \<lparr>is_overflow = (v < 0 \<or> word_of_int v > SIZE_MAX), bsize_value = word_of_int v\<rparr>"

definition bsize_overflow :: bsize_t where
  "bsize_overflow = \<lparr>is_overflow = True, bsize_value = 0\<rparr>"

definition bsize_tosize :: "bsize_t \<Rightarrow> size_t option" where
  "bsize_tosize s = (if is_overflow s then None else Some (bsize_value s))"

definition bsize_toint :: "bsize_t \<Rightarrow> int option" where
  "bsize_toint s = (if is_overflow s \<or> uint (bsize_value s) > INT_MAX then None else Some (uint (bsize_value s)))"

definition bsize_add :: "bsize_t \<Rightarrow> bsize_t \<Rightarrow> bsize_t" where
  "bsize_add s1 s2 =
     \<lparr>is_overflow = (is_overflow s1 \<or> is_overflow s2 \<or> bsize_value s2 > SIZE_MAX - bsize_value s1),
      bsize_value = bsize_value s1 + bsize_value s2\<rparr>"

definition bsize_max :: "bsize_t \<Rightarrow> bsize_t \<Rightarrow> bsize_t" where
  "bsize_max s1 s2 =
     \<lparr>is_overflow = (is_overflow s1 \<or> is_overflow s2),
      bsize_value = of_bool (bsize_value s1 > bsize_value s2) * bsize_value s1
                    + of_bool (bsize_value s1 \<le> bsize_value s2) * bsize_value s2\<rparr>"

definition bsize_mul :: "bsize_t \<Rightarrow> bsize_t \<Rightarrow> bsize_t" where
  "bsize_mul s1 s2 =
     \<lparr>is_overflow = (is_overflow s1 \<or> is_overflow s2 \<or>
        (bsize_value s1 \<noteq> 0 \<and> bsize_value s2 > SIZE_MAX div bsize_value s1)),
      bsize_value = bsize_value s1 * bsize_value s2\<rparr>"

subsection \<open>The flag is exact\<close>

text \<open>\<open>s\<close> stands for the number \<open>n\<close>: its value when there is no overflow, and a number \<open>size_t\<close> cannot hold otherwise.\<close>

definition bsize_is :: "bsize_t \<Rightarrow> nat \<Rightarrow> bool" where
  "bsize_is s n \<longleftrightarrow> (if is_overflow s then 2 ^ 64 \<le> n else unat (bsize_value s) = n)"

lemma unat_SIZE_MAX: "unat SIZE_MAX = 2 ^ 64 - 1"
  by (simp add: SIZE_MAX_def unsigned_minus_1_eq_mask mask_eq_exp_minus_1)

lemma unat_size_t_less: "unat (x :: size_t) < 2 ^ 64"
  using unsigned_less [of x, where ?'a = nat] by simp

lemma bsize_fromsize_is [simp]: "bsize_is (bsize_fromsize v) (unat v)"
  by (simp add: bsize_is_def bsize_fromsize_def)

lemma size_add_ok: "(b > SIZE_MAX - a) \<longleftrightarrow> 2 ^ 64 \<le> unat a + unat (b :: size_t)"
proof -
  have "a \<le> SIZE_MAX" by (simp add: SIZE_MAX_def unsigned_minus_1_eq_mask mask_eq_exp_minus_1)
  then have "unat (SIZE_MAX - a) = 2 ^ 64 - 1 - unat a"
    by (simp add: unat_sub unat_SIZE_MAX)
  then show ?thesis using unat_size_t_less [of a] by (simp add: word_less_nat_alt) linarith
qed

lemma bsize_add_is:
  assumes "bsize_is s1 n1" "bsize_is s2 n2"
  shows "bsize_is (bsize_add s1 s2) (n1 + n2)"
  using assms
  by (auto simp: bsize_is_def bsize_add_def size_add_ok unat_word_ariths split: if_splits)

lemma bsize_max_is:
  assumes "bsize_is s1 n1" "bsize_is s2 n2"
  shows "bsize_is (bsize_max s1 s2) (max n1 n2)"
  using assms unat_size_t_less [of "bsize_value s1"] unat_size_t_less [of "bsize_value s2"]
  by (auto simp: bsize_is_def bsize_max_def word_less_nat_alt word_le_nat_alt max_def not_less not_le split: if_splits)

lemma size_mul_ok:
  assumes "a \<noteq> (0 :: size_t)"
  shows "(b > SIZE_MAX div a) \<longleftrightarrow> 2 ^ 64 \<le> unat a * unat b"
proof -
  have a: "0 < unat a" using assms by (simp add: unat_gt_0)
  have "(b > SIZE_MAX div a) \<longleftrightarrow> (2 ^ 64 - 1) div unat a < unat b"
    by (simp add: word_less_nat_alt unat_div unat_SIZE_MAX)
  also have "\<dots> \<longleftrightarrow> 2 ^ 64 - 1 < unat b * unat a"
    using a by (simp add: div_less_iff_less_mult)
  finally show ?thesis by (simp add: mult.commute Suc_le_eq) arith
qed

lemma bsize_mul_is:
  assumes "bsize_is s1 n1" "bsize_is s2 n2" "n1 \<noteq> 0" "n2 \<noteq> 0"
  shows "bsize_is (bsize_mul s1 s2) (n1 * n2)"
proof -
  have big: "2 ^ 64 \<le> a \<Longrightarrow> b \<noteq> 0 \<Longrightarrow> 2 ^ 64 \<le> a * b" for a b :: nat
    by (metis le_trans mult_le_mono2 mult.right_neutral Suc_leI neq0_conv One_nat_def)
  consider "is_overflow s1 \<or> is_overflow s2" | "\<not> is_overflow s1" "\<not> is_overflow s2" by blast
  then show ?thesis
  proof cases
    case 1
    then have "2 ^ 64 \<le> n1 * n2"
      using assms big [of n1 n2] big [of n2 n1] by (auto simp: bsize_is_def mult.commute)
    then show ?thesis using 1 by (auto simp: bsize_is_def bsize_mul_def)
  next
    case 2
    then have v: "unat (bsize_value s1) = n1" "unat (bsize_value s2) = n2"
      using assms by (simp_all add: bsize_is_def)
    then have "bsize_value s1 \<noteq> 0" using assms(3) by auto
    from size_mul_ok [OF this, of "bsize_value s2"] show ?thesis
      using 2 v by (auto simp: bsize_is_def bsize_mul_def unat_word_ariths)
  qed
qed

lemma bsize_not_overflow:
  "bsize_is s n \<Longrightarrow> n < 2 ^ 64 \<Longrightarrow> \<not> is_overflow s \<and> unat (bsize_value s) = n"
  by (auto simp: bsize_is_def split: if_splits)

text \<open>Size computations are exact: each operation yields the mathematical result when it fits
  \<open>size_t\<close> and the overflow flag exactly when it does not (for products of nonzero sizes).\<close>

theorem bsize_ops_exact:
  assumes "bsize_is s1 n1" "bsize_is s2 n2"
  shows "bsize_is (bsize_add s1 s2) (n1 + n2) \<and> bsize_is (bsize_max s1 s2) (max n1 n2) \<and>
    (n1 \<noteq> 0 \<longrightarrow> n2 \<noteq> 0 \<longrightarrow> bsize_is (bsize_mul s1 s2) (n1 * n2))"
  using assms by (simp add: bsize_add_is bsize_max_is bsize_mul_is)

theorem bsize_ops_exact_witness:
  "bsize_is (bsize_add (bsize_fromsize 2) (bsize_fromsize 3)) (unat (2 :: size_t) + unat (3 :: size_t))"
  using bsize_ops_exact [OF bsize_fromsize_is [of 2] bsize_fromsize_is [of 3]] by (rule conjunct1)

end
