(* ===== verification/BSocksClient.thy ===== *)
theory BSocksClient
  imports BSize BAddr
begin

text \<open>
  socksclient/BSocksClient.c: the SOCKS5 handshake (RFC 1928 and 1929) as a state machine. The
  control connection is a byte stream: \<open>sc_sending\<close> is the packet given to the stream sender and
  not finished, \<open>sc_receiving\<close> the receive that is pending (offset into the buffer and length).
  The log has the packets sent, the bytes that arrived (\<open>ScGot\<close>, recorded by the environment), the
  events reported and the resources acquired and released. \<open>BRealloc\<close> is a parameter: \<open>None\<close> for
  failure, and the bytes found in the new block beyond the copied ones.
\<close>

subsection \<open>misc/socks\_proto.h\<close>

definition SOCKS_VERSION :: byte where "SOCKS_VERSION = 5"
definition SOCKS_METHOD_NO_AUTHENTICATION_REQUIRED :: byte where "SOCKS_METHOD_NO_AUTHENTICATION_REQUIRED = 0"
definition SOCKS_METHOD_USERNAME_PASSWORD :: byte where "SOCKS_METHOD_USERNAME_PASSWORD = 2"
definition SOCKS_CMD_CONNECT :: byte where "SOCKS_CMD_CONNECT = 1"
definition SOCKS_ATYP_IPV4 :: byte where "SOCKS_ATYP_IPV4 = 1"
definition SOCKS_ATYP_IPV6 :: byte where "SOCKS_ATYP_IPV6 = 4"
definition SOCKS_REP_SUCCEEDED :: byte where "SOCKS_REP_SUCCEEDED = 0"

lemmas socks_consts [simp] =
  SOCKS_VERSION_def SOCKS_METHOD_NO_AUTHENTICATION_REQUIRED_def SOCKS_METHOD_USERNAME_PASSWORD_def
  SOCKS_CMD_CONNECT_def SOCKS_ATYP_IPV4_def SOCKS_ATYP_IPV6_def SOCKS_REP_SUCCEEDED_def

definition sizeof_socks_client_hello_header :: nat where "sizeof_socks_client_hello_header = 2"
definition sizeof_socks_client_hello_method :: nat where "sizeof_socks_client_hello_method = 1"
definition sizeof_socks_server_hello :: nat where "sizeof_socks_server_hello = 2"
definition sizeof_socks_request_header :: nat where "sizeof_socks_request_header = 4"
definition sizeof_socks_reply_header :: nat where "sizeof_socks_reply_header = 4"
definition sizeof_socks_addr_ipv4 :: nat where "sizeof_socks_addr_ipv4 = 6"
definition sizeof_socks_addr_ipv6 :: nat where "sizeof_socks_addr_ipv6 = 18"

lemmas socks_sizes [simp] =
  sizeof_socks_client_hello_header_def sizeof_socks_client_hello_method_def sizeof_socks_server_hello_def
  sizeof_socks_request_header_def sizeof_socks_reply_header_def sizeof_socks_addr_ipv4_def
  sizeof_socks_addr_ipv6_def

text \<open>The object representations of \<open>struct socks_addr_ipv4\<close> and \<open>struct socks_addr_ipv6\<close>.\<close>

definition socks_addr_ipv4_bytes :: "u32 \<Rightarrow> u16 \<Rightarrow> byte list" where
  "socks_addr_ipv4_bytes addr port = badvpn_write_le32 addr @ badvpn_write_le16 port"

definition socks_addr_ipv6_bytes :: "byte list \<Rightarrow> u16 \<Rightarrow> byte list" where
  "socks_addr_ipv6_bytes addr port = addr @ badvpn_write_le16 port"

subsection \<open>State\<close>

datatype socks_state =
    STATE_CONNECTING
  | STATE_SENDING_HELLO
  | STATE_SENT_HELLO
  | STATE_SENDING_PASSWORD
  | STATE_SENT_PASSWORD
  | STATE_SENDING_REQUEST
  | STATE_SENT_REQUEST
  | STATE_RECEIVED_REPLY_HEADER
  | STATE_UP

datatype BSocksClient_auth_info =
    BSocksClient_auth_none
  | BSocksClient_auth_password (auth_username: "byte list") (auth_password: "byte list")

fun auth_type :: "BSocksClient_auth_info \<Rightarrow> byte" where
  "auth_type BSocksClient_auth_none = SOCKS_METHOD_NO_AUTHENTICATION_REQUIRED"
| "auth_type (BSocksClient_auth_password _ _) = SOCKS_METHOD_USERNAME_PASSWORD"

datatype BSocksClient_event =
    BSOCKSCLIENT_EVENT_ERROR
  | BSOCKSCLIENT_EVENT_UP
  | BSOCKSCLIENT_EVENT_ERROR_CLOSED

datatype BConnection_event = BCONNECTION_EVENT_ERROR | BCONNECTION_EVENT_RECVCLOSED

datatype sc_resource = ScConnector | ScConnection | ScControlIO | ScUpIO

datatype sc_action =
    ScSend "byte list"
  | ScGot "byte list"
  | ScEvent BSocksClient_event
  | ScInit sc_resource
  | ScFree sc_resource

record BSocksClient =
  sc_auth_info :: "BSocksClient_auth_info list"
  sc_dest_addr :: BAddr
  sc_state :: socks_state
  sc_buffer :: "byte list option"
  sc_recv_dest :: nat
  sc_recv_len :: nat
  sc_recv_total :: nat
  sc_sending :: "byte list option"
  sc_receiving :: "(nat \<times> nat) option"
  sc_log :: "sc_action list"

definition sc_act :: "sc_action \<Rightarrow> BSocksClient \<Rightarrow> BSocksClient" where
  "sc_act a s = s\<lparr>sc_log := sc_log s @ [a]\<rparr>"

subsection \<open>Helpers\<close>

definition report_error :: "BSocksClient_event \<Rightarrow> BSocksClient \<Rightarrow> BSocksClient" where
  "report_error ev s = sc_act (ScEvent ev) s"

definition init_control_io :: "BSocksClient \<Rightarrow> BSocksClient" where
  "init_control_io s = sc_act (ScInit ScControlIO) (s\<lparr>sc_sending := None, sc_receiving := None\<rparr>)"

definition free_control_io :: "BSocksClient \<Rightarrow> BSocksClient" where
  "free_control_io s = sc_act (ScFree ScControlIO) (s\<lparr>sc_sending := None, sc_receiving := None\<rparr>)"

definition init_up_io :: "BSocksClient \<Rightarrow> BSocksClient" where
  "init_up_io s = sc_act (ScInit ScUpIO) s"

definition free_up_io :: "BSocksClient \<Rightarrow> BSocksClient" where
  "free_up_io s = sc_act (ScFree ScUpIO) s"

text \<open>\<open>BRealloc\<close> keeps the common prefix of the old block.\<close>

definition buffer_bytes :: "BSocksClient \<Rightarrow> byte list" where
  "buffer_bytes s = (case sc_buffer s of None \<Rightarrow> [] | Some b \<Rightarrow> b)"

definition reserve_buffer :: "(nat \<Rightarrow> byte list option) \<Rightarrow> BSocksClient \<Rightarrow> bsize_t \<Rightarrow> BSocksClient option" where
  "reserve_buffer ra s need =
     (if is_overflow need then None
      else case ra (unat (bsize_value need)) of
        None \<Rightarrow> None
      | Some blk \<Rightarrow>
          let old = buffer_bytes s in
          Some (s\<lparr>sc_buffer := Some (take (length blk) old @ drop (length old) blk)\<rparr>))"

definition do_receive :: "BSocksClient \<Rightarrow> BSocksClient" where
  "do_receive s = s\<lparr>sc_receiving := Some (sc_recv_dest s + sc_recv_len s, sc_recv_total s - sc_recv_len s)\<rparr>"

definition start_receive :: "BSocksClient \<Rightarrow> nat \<Rightarrow> nat \<Rightarrow> BSocksClient" where
  "start_receive s dest tot = do_receive (s\<lparr>sc_recv_dest := dest, sc_recv_len := 0, sc_recv_total := tot\<rparr>)"

definition send_buffer :: "BSocksClient \<Rightarrow> bsize_t \<Rightarrow> BSocksClient" where
  "send_buffer s need =
     (let p = mem_read (buffer_bytes s) 0 (unat (bsize_value need)) in sc_act (ScSend p) (s\<lparr>sc_sending := Some p\<rparr>))"

definition write_buffer :: "nat \<Rightarrow> byte list \<Rightarrow> BSocksClient \<Rightarrow> BSocksClient" where
  "write_buffer off d s = s\<lparr>sc_buffer := Some (mem_write (buffer_bytes s) off d)\<rparr>"

abbreviation sz :: "nat \<Rightarrow> bsize_t" where
  "sz n \<equiv> bsize_fromsize (word_of_nat n)"

subsection \<open>The handlers\<close>

fun write_methods :: "nat \<Rightarrow> BSocksClient_auth_info list \<Rightarrow> BSocksClient \<Rightarrow> BSocksClient" where
  "write_methods i [] s = s"
| "write_methods i (ai # ais) s =
     write_methods (i + 1) ais
       (write_buffer (sizeof_socks_client_hello_header + i * sizeof_socks_client_hello_method) [hton8 (auth_type ai)] s)"

definition connector_handler :: "(nat \<Rightarrow> byte list option) \<Rightarrow> bool \<Rightarrow> BSocksClient \<Rightarrow> bool \<Rightarrow> BSocksClient" where
  "connector_handler ra con_init_ok s is_error =
     (if is_error then report_error BSOCKSCLIENT_EVENT_ERROR s
      else if \<not> con_init_ok then report_error BSOCKSCLIENT_EVENT_ERROR s
      else
        let s = init_control_io (sc_act (ScInit ScConnection) s);
            fail1 = report_error BSOCKSCLIENT_EVENT_ERROR (sc_act (ScFree ScConnection) (free_control_io s));
            n = length (sc_auth_info s) in
        if n = 0 \<or> n > 255 then fail1
        else
          let need = bsize_add (sz sizeof_socks_client_hello_header)
                       (bsize_mul (sz n) (sz sizeof_socks_client_hello_method)) in
          case reserve_buffer ra s need of
            None \<Rightarrow> fail1
          | Some s \<Rightarrow>
              let s = write_buffer 0 [hton8 SOCKS_VERSION, hton8 (word_of_nat n)] s;
                  s = write_methods 0 (sc_auth_info s) s;
                  s = send_buffer s need in
              s\<lparr>sc_state := STATE_SENDING_HELLO\<rparr>)"

definition connection_handler :: "BSocksClient \<Rightarrow> BConnection_event \<Rightarrow> BSocksClient" where
  "connection_handler s event =
     (if sc_state s = STATE_UP \<and> event = BCONNECTION_EVENT_RECVCLOSED
      then report_error BSOCKSCLIENT_EVENT_ERROR_CLOSED s
      else report_error BSOCKSCLIENT_EVENT_ERROR s)"

definition auth_finished :: "(nat \<Rightarrow> byte list option) \<Rightarrow> BSocksClient \<Rightarrow> BSocksClient" where
  "auth_finished ra s =
     (let need = (case sc_dest_addr s of
                    BAddrIPv4 _ _ \<Rightarrow> bsize_add (sz sizeof_socks_request_header) (sz sizeof_socks_addr_ipv4)
                  | BAddrIPv6 _ _ \<Rightarrow> bsize_add (sz sizeof_socks_request_header) (sz sizeof_socks_addr_ipv6)
                  | _ \<Rightarrow> sz sizeof_socks_request_header) in
      case reserve_buffer ra s need of
        None \<Rightarrow> report_error BSOCKSCLIENT_EVENT_ERROR s
      | Some s \<Rightarrow>
          let (atyp, s) = (case sc_dest_addr s of
                  BAddrIPv4 ip port \<Rightarrow> (hton8 SOCKS_ATYP_IPV4,
                    write_buffer sizeof_socks_request_header (socks_addr_ipv4_bytes ip port) s)
                | BAddrIPv6 ip port \<Rightarrow> (hton8 SOCKS_ATYP_IPV6,
                    write_buffer sizeof_socks_request_header (socks_addr_ipv6_bytes ip port) s)
                | _ \<Rightarrow> (0, s));
              s = write_buffer 0 [hton8 SOCKS_VERSION, hton8 SOCKS_CMD_CONNECT, hton8 0, atyp] s;
              s = send_buffer s need in
          s\<lparr>sc_state := STATE_SENDING_REQUEST\<rparr>)"

text \<open>The first method of the configuration with the type the server chose.\<close>

fun find_auth :: "BSocksClient_auth_info list \<Rightarrow> byte \<Rightarrow> BSocksClient_auth_info option" where
  "find_auth [] m = None"
| "find_auth (ai # ais) m = (if auth_type ai = m then Some ai else find_auth ais m)"

definition received_hello :: "(nat \<Rightarrow> byte list option) \<Rightarrow> BSocksClient \<Rightarrow> BSocksClient" where
  "received_hello ra s =
     (let b = buffer_bytes s in
      if ntoh8 (b ! 0) \<noteq> SOCKS_VERSION then report_error BSOCKSCLIENT_EVENT_ERROR s
      else case find_auth (sc_auth_info s) (ntoh8 (b ! 1)) of
        None \<Rightarrow> report_error BSOCKSCLIENT_EVENT_ERROR s
      | Some BSocksClient_auth_none \<Rightarrow> auth_finished ra s
      | Some (BSocksClient_auth_password u p) \<Rightarrow>
          if length u = 0 \<or> length u > 255 \<or> length p = 0 \<or> length p > 255
          then report_error BSOCKSCLIENT_EVENT_ERROR s
          else
            let need = sz (1 + 1 + length u + 1 + length p) in
            case reserve_buffer ra s need of
              None \<Rightarrow> report_error BSOCKSCLIENT_EVENT_ERROR s
            | Some s \<Rightarrow>
                let s = write_buffer 0 [1] s;
                    s = write_buffer 1 [word_of_nat (length u)] s;
                    s = write_buffer 2 u s;
                    s = write_buffer (2 + length u) [word_of_nat (length p)] s;
                    s = write_buffer (2 + length u + 1) p s;
                    s = send_buffer s need in
                s\<lparr>sc_state := STATE_SENDING_PASSWORD\<rparr>)"

definition received_reply_header :: "BSocksClient \<Rightarrow> BSocksClient" where
  "received_reply_header s =
     (let b = buffer_bytes s in
      if ntoh8 (b ! 0) \<noteq> SOCKS_VERSION then report_error BSOCKSCLIENT_EVENT_ERROR s
      else if ntoh8 (b ! 1) \<noteq> SOCKS_REP_SUCCEEDED then report_error BSOCKSCLIENT_EVENT_ERROR s
      else if ntoh8 (b ! 3) = SOCKS_ATYP_IPV4 then
        (start_receive s sizeof_socks_reply_header sizeof_socks_addr_ipv4)\<lparr>sc_state := STATE_RECEIVED_REPLY_HEADER\<rparr>
      else if ntoh8 (b ! 3) = SOCKS_ATYP_IPV6 then
        (start_receive s sizeof_socks_reply_header sizeof_socks_addr_ipv6)\<lparr>sc_state := STATE_RECEIVED_REPLY_HEADER\<rparr>
      else report_error BSOCKSCLIENT_EVENT_ERROR s)"

definition received_password_reply :: "(nat \<Rightarrow> byte list option) \<Rightarrow> BSocksClient \<Rightarrow> BSocksClient" where
  "received_password_reply ra s =
     (let b = buffer_bytes s in
      if b ! 0 \<noteq> 1 then report_error BSOCKSCLIENT_EVENT_ERROR s
      else if b ! 1 \<noteq> 0 then report_error BSOCKSCLIENT_EVENT_ERROR s
      else auth_finished ra s)"

definition received_reply_rest :: "BSocksClient \<Rightarrow> BSocksClient" where
  "received_reply_rest s =
     (let s = s\<lparr>sc_buffer := None\<rparr>;
          s = free_control_io s;
          s = init_up_io s;
          s = s\<lparr>sc_state := STATE_UP\<rparr> in
      sc_act (ScEvent BSOCKSCLIENT_EVENT_UP) s)"

text \<open>The bytes \<open>d\<close> have been stored at the destination of the pending receive.\<close>

definition recv_handler_done :: "(nat \<Rightarrow> byte list option) \<Rightarrow> BSocksClient \<Rightarrow> byte list \<Rightarrow> BSocksClient" where
  "recv_handler_done ra s d =
     (let s = (write_buffer (sc_recv_dest s + sc_recv_len s) d s)\<lparr>sc_receiving := None\<rparr>;
          s = s\<lparr>sc_recv_len := sc_recv_len s + length d\<rparr> in
      if sc_recv_len s < sc_recv_total s then do_receive s
      else case sc_state s of
        STATE_SENT_HELLO \<Rightarrow> received_hello ra s
      | STATE_SENT_REQUEST \<Rightarrow> received_reply_header s
      | STATE_SENT_PASSWORD \<Rightarrow> received_password_reply ra s
      | STATE_RECEIVED_REPLY_HEADER \<Rightarrow> received_reply_rest s
      | _ \<Rightarrow> s)"

definition send_handler_done :: "(nat \<Rightarrow> byte list option) \<Rightarrow> BSocksClient \<Rightarrow> BSocksClient" where
  "send_handler_done ra s =
     (let s = s\<lparr>sc_sending := None\<rparr> in
      case sc_state s of
        STATE_SENDING_HELLO \<Rightarrow>
          (let need = sz sizeof_socks_server_hello in
           case reserve_buffer ra s need of
             None \<Rightarrow> report_error BSOCKSCLIENT_EVENT_ERROR s
           | Some s \<Rightarrow> (start_receive s 0 (unat (bsize_value need)))\<lparr>sc_state := STATE_SENT_HELLO\<rparr>)
      | STATE_SENDING_REQUEST \<Rightarrow>
          (let need = bsize_add (sz sizeof_socks_reply_header)
                        (bsize_max (sz sizeof_socks_addr_ipv4) (sz sizeof_socks_addr_ipv6)) in
           case reserve_buffer ra s need of
             None \<Rightarrow> report_error BSOCKSCLIENT_EVENT_ERROR s
           | Some s \<Rightarrow> (start_receive s 0 sizeof_socks_reply_header)\<lparr>sc_state := STATE_SENT_REQUEST\<rparr>)
      | STATE_SENDING_PASSWORD \<Rightarrow>
          (let need = sz 2 in
           case reserve_buffer ra s need of
             None \<Rightarrow> report_error BSOCKSCLIENT_EVENT_ERROR s
           | Some s \<Rightarrow> (start_receive s 0 (unat (bsize_value need)))\<lparr>sc_state := STATE_SENT_PASSWORD\<rparr>)
      | _ \<Rightarrow> s)"

definition BSocksClient_Init :: "BSocksClient_auth_info list \<Rightarrow> BAddr \<Rightarrow> bool \<Rightarrow> BSocksClient option" where
  "BSocksClient_Init auth_info dest_addr connector_init_ok =
     (if \<not> connector_init_ok then None
      else Some \<lparr>sc_auth_info = auth_info, sc_dest_addr = dest_addr, sc_state = STATE_CONNECTING,
        sc_buffer = None, sc_recv_dest = 0, sc_recv_len = 0, sc_recv_total = 0,
        sc_sending = None, sc_receiving = None, sc_log = [ScInit ScConnector]\<rparr>)"

definition BSocksClient_Free :: "BSocksClient \<Rightarrow> BSocksClient" where
  "BSocksClient_Free s =
     (let s = (if sc_state s \<noteq> STATE_CONNECTING then
                 let s = (if sc_state s = STATE_UP then free_up_io s else free_control_io s) in
                 sc_act (ScFree ScConnection) s
               else s);
          s = sc_act (ScFree ScConnector) s in
      s\<lparr>sc_buffer := None\<rparr>)"


subsection \<open>The messages\<close>

definition socks_hello :: "BSocksClient_auth_info list \<Rightarrow> byte list" where
  "socks_hello ais = [5, word_of_nat (length ais)] @ map auth_type ais"

definition socks_password :: "byte list \<Rightarrow> byte list \<Rightarrow> byte list" where
  "socks_password u p = [1, word_of_nat (length u)] @ u @ [word_of_nat (length p)] @ p"

fun socks_request :: "BAddr \<Rightarrow> byte list" where
  "socks_request (BAddrIPv4 ip port) = [5, 1, 0, 1] @ badvpn_write_le32 ip @ badvpn_write_le16 port"
| "socks_request (BAddrIPv6 ip port) = [5, 1, 0, 4] @ ip @ badvpn_write_le16 port"
| "socks_request _ = []"

text \<open>\<open>BRealloc\<close> returns a block of the size asked for.\<close>

definition ra_ok :: "(nat \<Rightarrow> byte list option) \<Rightarrow> bool" where
  "ra_ok ra \<longleftrightarrow> (\<forall>n blk. ra n = Some blk \<longrightarrow> length blk = n)"

lemma unat_sz: "n < 2 ^ 64 \<Longrightarrow> unat (bsize_value (sz n)) = n \<and> \<not> is_overflow (sz n)"
  by (simp add: bsize_fromsize_def unsigned_of_nat take_bit_nat_eq_self)

lemma sz_is: "n < 2 ^ 64 \<Longrightarrow> bsize_is (sz n) n"
  using bsize_fromsize_is [of "word_of_nat n"] by (simp add: unsigned_of_nat take_bit_nat_eq_self)

lemma reserve_buffer_eq:
  assumes "ra_ok ra" "bsize_is need n" "n < 2 ^ 64"
  shows "reserve_buffer ra s need = None \<and> ra n = None \<or>
    (\<exists>b. length b = n \<and> ra n \<noteq> None \<and> reserve_buffer ra s need = Some (s\<lparr>sc_buffer := Some b\<rparr>))"
proof -
  note nz = bsize_not_overflow [OF assms(2,3)]
  show ?thesis
  proof (cases "ra n")
    case None
    then show ?thesis using nz by (simp add: reserve_buffer_def)
  next
    case (Some blk)
    then have l: "length blk = n" using assms(1) by (simp add: ra_ok_def)
    show ?thesis
      using nz Some l by (intro disjI2 exI [of _ "take n (buffer_bytes s) @ drop (length (buffer_bytes s)) blk"])
        (auto simp: reserve_buffer_def Let_def)
  qed
qed

lemma write_methods_eq:
  assumes "sc_buffer s = Some b" "2 + i + length ais \<le> length b"
  shows "write_methods i ais s = s\<lparr>sc_buffer := Some (mem_write b (2 + i) (map auth_type ais))\<rparr>"
  using assms
proof (induction i ais s arbitrary: b rule: write_methods.induct)
  case (1 i s)
  then show ?case by simp
next
  case (2 i ai ais s)
  let ?b = "mem_write b (2 + i) [auth_type ai]"
  let ?s = "write_buffer (sizeof_socks_client_hello_header + i * sizeof_socks_client_hello_method) [hton8 (auth_type ai)] s"
  have s: "?s = s\<lparr>sc_buffer := Some ?b\<rparr>"
    using 2(2) by (simp add: write_buffer_def buffer_bytes_def hton8_def)
  have "write_methods (i + 1) ais ?s = ?s\<lparr>sc_buffer := Some (mem_write ?b (2 + (i + 1)) (map auth_type ais))\<rparr>"
    by (rule "2.IH") (use 2(3) in \<open>simp_all only: s\<close>, simp_all)
  then have "write_methods i (ai # ais) s = s\<lparr>sc_buffer := Some (mem_write ?b (2 + (i + 1)) (map auth_type ais))\<rparr>"
    unfolding write_methods.simps s by simp
  moreover have "mem_write ?b (2 + (i + 1)) (map auth_type ais) = mem_write b (2 + i) (map auth_type (ai # ais))"
    using mem_write_append [of "2 + i" "[auth_type ai]" "map auth_type ais" b] 2(3) by simp
  ultimately show ?case by (simp only:)
qed

lemma send_buffer_full:
  assumes "sc_buffer s = Some b" "bsize_is need (length b)" "length b < 2 ^ 64"
  shows "send_buffer s need = s\<lparr>sc_sending := Some b, sc_log := sc_log s @ [ScSend b]\<rparr>"
  using bsize_not_overflow [OF assms(2,3)] assms(1)
  by (simp add: send_buffer_def buffer_bytes_def mem_read_def sc_act_def)

lemma write_buffer_Some: "sc_buffer s = Some b \<Longrightarrow> write_buffer off d s = s\<lparr>sc_buffer := Some (mem_write b off d)\<rparr>"
  by (simp add: write_buffer_def buffer_bytes_def)

text \<open>What the three sending steps do once memory is available.\<close>

definition sc_send_state :: "BSocksClient \<Rightarrow> byte list \<Rightarrow> socks_state \<Rightarrow> BSocksClient" where
  "sc_send_state s p st =
     s\<lparr>sc_state := st, sc_buffer := Some p, sc_sending := Some p, sc_log := sc_log s @ [ScSend p]\<rparr>"

lemma auth_finished_eq:
  assumes "ra_ok ra" "BAddr_is_ip (sc_dest_addr s)" "BAddr_wf (sc_dest_addr s)"
  shows "auth_finished ra s =
    (if ra (length (socks_request (sc_dest_addr s))) = None then report_error BSOCKSCLIENT_EVENT_ERROR s
     else sc_send_state s (socks_request (sc_dest_addr s)) STATE_SENDING_REQUEST)"
proof (cases "sc_dest_addr s")
  case (BAddrIPv4 ip port)
  let ?n = "bsize_add (sz sizeof_socks_request_header) (sz sizeof_socks_addr_ipv4)"
  let ?r = "socks_request (sc_dest_addr s)"
  have n: "bsize_is ?n 10" using bsize_add_is [OF sz_is [of 4] sz_is [of 6]] by simp
  have l: "length ?r = 10" by (simp add: BAddrIPv4)
  have lt: "(10 :: nat) < 2 ^ 64" by simp
  from reserve_buffer_eq [OF assms(1) n lt, of s] show ?thesis
  proof (elim disjE exE conjE)
    assume "reserve_buffer ra s ?n = None" "ra 10 = None"
    then show ?thesis unfolding auth_finished_def Let_def BAddrIPv4 using l BAddrIPv4 by simp
  next
    fix b assume b: "length b = 10" "ra 10 \<noteq> None" "reserve_buffer ra s ?n = Some (s\<lparr>sc_buffer := Some b\<rparr>)"
    have w: "mem_write (mem_write b 4 (socks_addr_ipv4_bytes ip port)) 0 [5, 1, 0, 1] = ?r"
      using b(1) mem_write_join [of 0 "[5, 1, 0, 1]" "socks_addr_ipv4_bytes ip port" b]
      by (simp add: socks_addr_ipv4_bytes_def BAddrIPv4 eval_nat_numeral)
    show ?thesis
      using b l w n unfolding auth_finished_def Let_def
      by (auto simp: BAddrIPv4 write_buffer_Some hton8_def send_buffer_full sc_send_state_def)
  qed
next
  case (BAddrIPv6 ip port)
  let ?n = "bsize_add (sz sizeof_socks_request_header) (sz sizeof_socks_addr_ipv6)"
  let ?r = "socks_request (sc_dest_addr s)"
  have ip: "length ip = 16" using assms(3) BAddrIPv6 by simp
  have n: "bsize_is ?n 22" using bsize_add_is [OF sz_is [of 4] sz_is [of 18]] by simp
  have l: "length ?r = 22" by (simp add: BAddrIPv6 ip)
  have lt: "(22 :: nat) < 2 ^ 64" by simp
  from reserve_buffer_eq [OF assms(1) n lt, of s] show ?thesis
  proof (elim disjE exE conjE)
    assume "reserve_buffer ra s ?n = None" "ra 22 = None"
    then show ?thesis unfolding auth_finished_def Let_def BAddrIPv6 using l BAddrIPv6 by simp
  next
    fix b assume b: "length b = 22" "ra 22 \<noteq> None" "reserve_buffer ra s ?n = Some (s\<lparr>sc_buffer := Some b\<rparr>)"
    have w: "mem_write (mem_write b 4 (socks_addr_ipv6_bytes ip port)) 0 [5, 1, 0, 4] = ?r"
      using b(1) ip mem_write_join [of 0 "[5, 1, 0, 4]" "socks_addr_ipv6_bytes ip port" b]
      by (simp add: socks_addr_ipv6_bytes_def BAddrIPv6 eval_nat_numeral)
    show ?thesis
      using b l w n unfolding auth_finished_def Let_def
      by (auto simp: BAddrIPv6 write_buffer_Some hton8_def send_buffer_full sc_send_state_def)
  qed
qed (use assms(2) in \<open>simp_all add: BAddr_is_ip_def\<close>)


lemma password_writes:
  assumes "length b = 3 + length u + length p"
  shows "mem_write (mem_write (mem_write (mem_write (mem_write b 0 [1]) 1 [word_of_nat (length u)]) 2 u)
      (2 + length u) [word_of_nat (length p)]) (2 + length u + 1) p = socks_password u p"
proof -
  have "mem_write (mem_write b 0 [1]) 1 [word_of_nat (length u)] = mem_write b 0 [1, word_of_nat (length u)]"
    using mem_write_append [of 0 "[1]" "[word_of_nat (length u)]" b] assms by simp
  moreover have "mem_write (mem_write b 0 [1, word_of_nat (length u)]) 2 u = mem_write b 0 ([1, word_of_nat (length u)] @ u)"
    using mem_write_append [of 0 "[1, word_of_nat (length u)]" u b] assms by (simp add: numeral_2_eq_2)
  moreover have "mem_write (mem_write b 0 ([1, word_of_nat (length u)] @ u)) (2 + length u) [word_of_nat (length p)] =
      mem_write b 0 (([1, word_of_nat (length u)] @ u) @ [word_of_nat (length p)])"
    using mem_write_append [of 0 "[1, word_of_nat (length u)] @ u" "[word_of_nat (length p)]" b] assms by simp
  moreover have "mem_write (mem_write b 0 (([1, word_of_nat (length u)] @ u) @ [word_of_nat (length p)]))
      (2 + length u + 1) p = mem_write b 0 ((([1, word_of_nat (length u)] @ u) @ [word_of_nat (length p)]) @ p)"
    using mem_write_append [of 0 "([1, word_of_nat (length u)] @ u) @ [word_of_nat (length p)]" p b] assms by simp
  moreover have "mem_write b 0 ((([1, word_of_nat (length u)] @ u) @ [word_of_nat (length p)]) @ p) = socks_password u p"
    using assms by (simp add: socks_password_def)
  ultimately show ?thesis by (simp only:)
qed

lemma hton8_id [simp]: "hton8 x = x" "ntoh8 x = x"
  by (simp_all add: hton8_def ntoh8_def)

definition pw_ok :: "byte list \<Rightarrow> byte list \<Rightarrow> bool" where
  "pw_ok u p \<longleftrightarrow> 0 < length u \<and> length u \<le> 255 \<and> 0 < length p \<and> length p \<le> 255"

lemma received_hello_password_eq:
  assumes "ra_ok ra" "buffer_bytes s ! 0 = 5" "find_auth (sc_auth_info s) (buffer_bytes s ! 1) = Some (BSocksClient_auth_password u p)"
  shows "received_hello ra s =
    (if \<not> pw_ok u p \<or> ra (length (socks_password u p)) = None then report_error BSOCKSCLIENT_EVENT_ERROR s
     else sc_send_state s (socks_password u p) STATE_SENDING_PASSWORD)"
proof (cases "pw_ok u p")
  case False
  then show ?thesis using assms(2,3) by (auto simp: received_hello_def Let_def pw_ok_def)
next
  case True
  let ?m = "socks_password u p"
  let ?k = "1 + 1 + length u + 1 + length p"
  have l: "length ?m = ?k" by (simp add: socks_password_def)
  have lt: "?k < 2 ^ 64" using True by (simp add: pw_ok_def)
  have rh: "received_hello ra s =
      (case reserve_buffer ra s (sz ?k) of None \<Rightarrow> report_error BSOCKSCLIENT_EVENT_ERROR s
       | Some s \<Rightarrow> (send_buffer (write_buffer (2 + length u + 1) p (write_buffer (2 + length u) [word_of_nat (length p)]
           (write_buffer 2 u (write_buffer 1 [word_of_nat (length u)] (write_buffer 0 [1] s))))) (sz ?k))
           \<lparr>sc_state := STATE_SENDING_PASSWORD\<rparr>)"
    using True assms(2,3) unfolding pw_ok_def received_hello_def Let_def by simp
  from reserve_buffer_eq [OF assms(1) sz_is [OF lt] lt, of s] show ?thesis
  proof (elim disjE exE conjE)
    assume "reserve_buffer ra s (sz ?k) = None" "ra ?k = None"
    then show ?thesis unfolding rh l by simp
  next
    fix b assume b: "length b = ?k" "ra ?k \<noteq> None" "reserve_buffer ra s (sz ?k) = Some (s\<lparr>sc_buffer := Some b\<rparr>)"
    have w: "write_buffer (2 + length u + 1) p (write_buffer (2 + length u) [word_of_nat (length p)]
           (write_buffer 2 u (write_buffer 1 [word_of_nat (length u)] (write_buffer 0 [1] (s\<lparr>sc_buffer := Some b\<rparr>)))))
        = s\<lparr>sc_buffer := Some ?m\<rparr>"
      using password_writes [of b u p] b(1) by (simp add: write_buffer_Some)
    have "received_hello ra s = (send_buffer (s\<lparr>sc_buffer := Some ?m\<rparr>) (sz ?k))\<lparr>sc_state := STATE_SENDING_PASSWORD\<rparr>"
      unfolding rh b(3) option.case w by (rule refl)
    also have "send_buffer (s\<lparr>sc_buffer := Some ?m\<rparr>) (sz ?k) =
        s\<lparr>sc_buffer := Some ?m, sc_sending := Some ?m, sc_log := sc_log s @ [ScSend ?m]\<rparr>"
      using send_buffer_full [of "s\<lparr>sc_buffer := Some ?m\<rparr>" ?m "sz ?k"] sz_is [OF lt] lt l by simp
    finally show ?thesis using True b(2) l by (auto simp: sc_send_state_def)
  qed
qed

lemma connector_handler_eq:
  assumes "ra_ok ra"
  shows "connector_handler ra ok s is_error =
    (if is_error \<or> \<not> ok then report_error BSOCKSCLIENT_EVENT_ERROR s
     else let s1 = init_control_io (sc_act (ScInit ScConnection) s) in
       if sc_auth_info s = [] \<or> length (sc_auth_info s) > 255 \<or> ra (2 + length (sc_auth_info s)) = None
       then report_error BSOCKSCLIENT_EVENT_ERROR (sc_act (ScFree ScConnection) (free_control_io s1))
       else sc_send_state s1 (socks_hello (sc_auth_info s)) STATE_SENDING_HELLO)"
proof (cases "is_error \<or> \<not> ok \<or> sc_auth_info s = [] \<or> length (sc_auth_info s) > 255")
  case True
  then show ?thesis by (auto simp: connector_handler_def Let_def init_control_io_def sc_act_def)
next
  case False
  let ?ais = "sc_auth_info s" and ?s1 = "init_control_io (sc_act (ScInit ScConnection) s)"
  let ?n = "length ?ais"
  let ?sz = "bsize_add (sz sizeof_socks_client_hello_header) (bsize_mul (sz ?n) (sz sizeof_socks_client_hello_method))"
  have a: "sc_auth_info ?s1 = ?ais" by (simp add: init_control_io_def sc_act_def)
  have n: "?n \<noteq> 0" "?n \<le> 255" using False by auto
  have "bsize_is (bsize_mul (sz ?n) (sz 1)) (?n * 1)"
    using n by (intro bsize_mul_is sz_is) auto
  then have "bsize_is (bsize_add (sz 2) (bsize_mul (sz ?n) (sz 1))) (2 + ?n * 1)"
    by (intro bsize_add_is sz_is) auto
  then have need: "bsize_is ?sz (2 + ?n)" by simp
  have lt: "2 + ?n < 2 ^ 64" using n by simp
  have ch: "connector_handler ra ok s is_error =
      (case reserve_buffer ra ?s1 ?sz of None \<Rightarrow> report_error BSOCKSCLIENT_EVENT_ERROR (sc_act (ScFree ScConnection) (free_control_io ?s1))
       | Some s \<Rightarrow> (send_buffer (write_methods 0 (sc_auth_info (write_buffer 0 [5, word_of_nat ?n] s))
            (write_buffer 0 [5, word_of_nat ?n] s)) ?sz)\<lparr>sc_state := STATE_SENDING_HELLO\<rparr>)"
    using False n unfolding connector_handler_def Let_def a by (simp del: socks_sizes cong: option.case_cong)
  from reserve_buffer_eq [OF assms need lt, of ?s1] show ?thesis
  proof (elim disjE exE conjE)
    assume "reserve_buffer ra ?s1 ?sz = None" "ra (2 + ?n) = None"
    then show ?thesis unfolding ch using False by (simp add: Let_def)
  next
    fix b assume b: "length b = 2 + ?n" "ra (2 + ?n) \<noteq> None" "reserve_buffer ra ?s1 ?sz = Some (?s1\<lparr>sc_buffer := Some b\<rparr>)"
    let ?b = "mem_write b 0 [5, word_of_nat ?n]"
    have w1: "write_buffer 0 [5, word_of_nat ?n] (?s1\<lparr>sc_buffer := Some b\<rparr>) = ?s1\<lparr>sc_buffer := Some ?b\<rparr>"
      by (simp add: write_buffer_Some)
    have m: "mem_write ?b 2 (map auth_type ?ais) = socks_hello ?ais"
      using mem_write_append [of 0 "[5, word_of_nat ?n]" "map auth_type ?ais" b] b(1)
      by (simp add: socks_hello_def numeral_2_eq_2)
    have "write_methods 0 ?ais (?s1\<lparr>sc_buffer := Some ?b\<rparr>) = ?s1\<lparr>sc_buffer := Some (socks_hello ?ais)\<rparr>"
      using write_methods_eq [of "?s1\<lparr>sc_buffer := Some ?b\<rparr>" ?b 0 ?ais] b(1) m by simp
    then have "connector_handler ra ok s is_error =
        (send_buffer (?s1\<lparr>sc_buffer := Some (socks_hello ?ais)\<rparr>) ?sz)\<lparr>sc_state := STATE_SENDING_HELLO\<rparr>"
      unfolding ch b(3) option.case w1 by (simp del: socks_sizes add: a)
    also have "send_buffer (?s1\<lparr>sc_buffer := Some (socks_hello ?ais)\<rparr>) ?sz = ?s1\<lparr>sc_buffer := Some (socks_hello ?ais),
        sc_sending := Some (socks_hello ?ais), sc_log := sc_log ?s1 @ [ScSend (socks_hello ?ais)]\<rparr>"
      using send_buffer_full [of "?s1\<lparr>sc_buffer := Some (socks_hello ?ais)\<rparr>" "socks_hello ?ais" ?sz] need lt
      by (simp add: socks_hello_def)
    finally show ?thesis using False b(2) by (auto simp: sc_send_state_def Let_def)
  qed
qed

end
