(* ===== verification/SocksHandshake.thy ===== *)
theory SocksHandshake
  imports BSocksClient
begin

text \<open>
  The dialogue of the SOCKS client: what it has sent and received in each state, as an invariant of
  the step relation of the handlers, together with the balance of the resources it holds.
\<close>

subsection \<open>The dialogue\<close>

fun sent_of :: "sc_action \<Rightarrow> byte list list" where
  "sent_of (ScSend p) = [p]" | "sent_of _ = []"

fun got_of :: "sc_action \<Rightarrow> byte list" where
  "got_of (ScGot d) = d" | "got_of _ = []"

fun event_of :: "sc_action \<Rightarrow> BSocksClient_event list" where
  "event_of (ScEvent e) = [e]" | "event_of _ = []"

definition sc_sent :: "BSocksClient \<Rightarrow> byte list list" where "sc_sent s = concat (map sent_of (sc_log s))"
definition sc_got :: "BSocksClient \<Rightarrow> byte list" where "sc_got s = concat (map got_of (sc_log s))"
definition sc_events :: "BSocksClient \<Rightarrow> BSocksClient_event list" where "sc_events s = concat (map event_of (sc_log s))"

lemmas sc_hist_defs = sc_sent_def sc_got_def sc_events_def

text \<open>An error event obliges the user to free the object: nothing more happens.\<close>

definition sc_failed :: "BSocksClient \<Rightarrow> bool" where
  "sc_failed s \<longleftrightarrow> BSOCKSCLIENT_EVENT_ERROR \<in> set (sc_events s) \<or> BSOCKSCLIENT_EVENT_ERROR_CLOSED \<in> set (sc_events s)"

text \<open>
  The dialogue of RFC 1928 and RFC 1929 from the client's side: which bytes were sent (as the list of
  packets) and received when authentication, the request and the whole handshake are complete.
\<close>

definition pw_chosen :: "BSocksClient_auth_info list \<Rightarrow> byte list \<Rightarrow> byte list \<Rightarrow> bool" where
  "pw_chosen ais u p \<longleftrightarrow> find_auth ais 2 = Some (BSocksClient_auth_password u p) \<and> pw_ok u p"

definition auth_done :: "BSocksClient_auth_info list \<Rightarrow> byte list list \<Rightarrow> byte list \<Rightarrow> bool" where
  "auth_done ais sent got \<longleftrightarrow>
     (find_auth ais 0 = Some BSocksClient_auth_none \<and> sent = [socks_hello ais] \<and> got = [5, 0]) \<or>
     (\<exists>u p. pw_chosen ais u p \<and> sent = [socks_hello ais, socks_password u p] \<and> got = [5, 2, 1, 0])"

definition request_done :: "BSocksClient_auth_info list \<Rightarrow> BAddr \<Rightarrow> byte list list \<Rightarrow> byte list \<Rightarrow> bool" where
  "request_done ais dest sent got \<longleftrightarrow> (\<exists>sent0. auth_done ais sent0 got \<and> sent = sent0 @ [socks_request dest])"

text \<open>The replies the client takes: success, any reserved byte, and a bound address that is IPv4 or IPv6. RFC 1928 also
  allows a domain name there (address type 3, \<open>SOCKS_ATYP_DOMAINNAME\<close> in misc/socks\_proto.h), which the client
  refuses; so these are the successful replies without it, not all that a compliant server may send.\<close>

definition reply_ok :: "byte list \<Rightarrow> bool" where
  "reply_ok r \<longleftrightarrow> (\<exists>rsv a. (r = [5, 0, rsv, 1] @ a \<and> length a = 6) \<or> (r = [5, 0, rsv, 4] @ a \<and> length a = 18))"

definition handshake_done :: "BSocksClient_auth_info list \<Rightarrow> BAddr \<Rightarrow> byte list list \<Rightarrow> byte list \<Rightarrow> bool" where
  "handshake_done ais dest sent got \<longleftrightarrow> (\<exists>got0 r. request_done ais dest sent got0 \<and> reply_ok r \<and> got = got0 @ r)"

subsection \<open>The invariant\<close>

definition receiving_at :: "BSocksClient \<Rightarrow> nat \<Rightarrow> nat \<Rightarrow> byte list \<Rightarrow> bool" where
  "receiving_at s dest tot pre \<longleftrightarrow>
     (\<exists>b. sc_buffer s = Some b \<and> dest + tot \<le> length b \<and> sc_recv_dest s = dest \<and> sc_recv_total s = tot \<and>
        sc_recv_len s < tot \<and> sc_receiving s = Some (dest + sc_recv_len s, tot - sc_recv_len s) \<and>
        sc_sending s = None \<and> sc_got s = pre @ mem_read b dest (sc_recv_len s))"

definition sending_packet :: "BSocksClient \<Rightarrow> byte list \<Rightarrow> bool" where
  "sending_packet s p \<longleftrightarrow> sc_sending s = Some p \<and> sc_buffer s = Some p \<and> sc_receiving s = None"

fun sc_rep :: "BSocksClient_auth_info list \<Rightarrow> BAddr \<Rightarrow> BSocksClient \<Rightarrow> socks_state \<Rightarrow> bool" where
  "sc_rep ais dest s STATE_CONNECTING =
     (sc_sent s = [] \<and> sc_got s = [] \<and> sc_sending s = None \<and> sc_receiving s = None)"
| "sc_rep ais dest s STATE_SENDING_HELLO =
     (sc_sent s = [socks_hello ais] \<and> sc_got s = [] \<and> sending_packet s (socks_hello ais))"
| "sc_rep ais dest s STATE_SENT_HELLO =
     (sc_sent s = [socks_hello ais] \<and> receiving_at s 0 2 [])"
| "sc_rep ais dest s STATE_SENDING_PASSWORD =
     (\<exists>u p. pw_chosen ais u p \<and> sc_sent s = [socks_hello ais, socks_password u p] \<and> sc_got s = [5, 2] \<and>
        sending_packet s (socks_password u p))"
| "sc_rep ais dest s STATE_SENT_PASSWORD =
     (\<exists>u p. pw_chosen ais u p \<and> sc_sent s = [socks_hello ais, socks_password u p] \<and> receiving_at s 0 2 [5, 2])"
| "sc_rep ais dest s STATE_SENDING_REQUEST =
     (request_done ais dest (sc_sent s) (sc_got s) \<and> sending_packet s (socks_request dest))"
| "sc_rep ais dest s STATE_SENT_REQUEST =
     (\<exists>got. request_done ais dest (sc_sent s) got \<and> receiving_at s 0 4 got \<and> length (buffer_bytes s) = 22)"
| "sc_rep ais dest s STATE_RECEIVED_REPLY_HEADER =
     (\<exists>got rsv. request_done ais dest (sc_sent s) got \<and>
        (receiving_at s 4 6 (got @ [5, 0, rsv, 1]) \<or> receiving_at s 4 18 (got @ [5, 0, rsv, 4])))"
| "sc_rep ais dest s STATE_UP =
     (handshake_done ais dest (sc_sent s) (sc_got s) \<and> sc_sending s = None \<and> sc_receiving s = None)"

fun sc_held :: "socks_state \<Rightarrow> sc_resource \<Rightarrow> nat" where
  "sc_held st ScConnector = 1"
| "sc_held st ScConnection = (if st = STATE_CONNECTING then 0 else 1)"
| "sc_held st ScControlIO = (if st = STATE_CONNECTING \<or> st = STATE_UP then 0 else 1)"
| "sc_held st ScUpIO = (if st = STATE_UP then 1 else 0)"

definition sc_balanced :: "BSocksClient \<Rightarrow> bool" where
  "sc_balanced s \<longleftrightarrow> (\<forall>r. count_list (sc_log s) (ScInit r) = count_list (sc_log s) (ScFree r) + sc_held (sc_state s) r)"

definition sc_inv :: "BSocksClient_auth_info list \<Rightarrow> BAddr \<Rightarrow> BSocksClient \<Rightarrow> bool" where
  "sc_inv ais dest s \<longleftrightarrow> sc_auth_info s = ais \<and> sc_dest_addr s = dest \<and> sc_balanced s \<and>
     (\<not> sc_failed s \<longrightarrow> sc_rep ais dest s (sc_state s)) \<and>
     (BSOCKSCLIENT_EVENT_UP \<in> set (sc_events s) \<longleftrightarrow> sc_state s = STATE_UP) \<and>
     (sc_state s = STATE_UP \<longrightarrow> handshake_done ais dest (sc_sent s) (sc_got s))"

inductive sc_step :: "(nat \<Rightarrow> byte list option) \<Rightarrow> BSocksClient \<Rightarrow> BSocksClient \<Rightarrow> bool" for ra where
  sc_connect: "\<not> sc_failed s \<Longrightarrow> sc_state s = STATE_CONNECTING \<Longrightarrow> sc_step ra s (connector_handler ra ok s is_error)"
| sc_sent: "\<not> sc_failed s \<Longrightarrow> sc_sending s \<noteq> None \<Longrightarrow> sc_step ra s (send_handler_done ra s)"
| sc_recv: "\<not> sc_failed s \<Longrightarrow> sc_receiving s = Some (off, n) \<Longrightarrow> d \<noteq> [] \<Longrightarrow> length d \<le> n \<Longrightarrow>
    sc_step ra s (recv_handler_done ra (sc_act (ScGot d) s) d)"
| sc_con: "\<not> sc_failed s \<Longrightarrow> sc_state s \<noteq> STATE_CONNECTING \<Longrightarrow> sc_step ra s (connection_handler s ev)"

definition sc_reachable :: "(nat \<Rightarrow> byte list option) \<Rightarrow> BSocksClient_auth_info list \<Rightarrow> BAddr \<Rightarrow> BSocksClient \<Rightarrow> bool" where
  "sc_reachable ra ais dest s \<longleftrightarrow> (\<exists>s0. BSocksClient_Init ais dest True = Some s0 \<and> (sc_step ra)\<^sup>*\<^sup>* s0 s)"

lemma report_error_inv:
  assumes "sc_inv ais dest s" "ev \<noteq> BSOCKSCLIENT_EVENT_UP"
  shows "sc_inv ais dest (report_error ev s)"
proof -
  have "sc_failed (report_error ev s)"
    using assms(2) by (cases ev) (simp_all add: sc_failed_def sc_hist_defs report_error_def sc_act_def)
  moreover have "sc_balanced (report_error ev s) = sc_balanced s"
    by (simp add: sc_balanced_def report_error_def sc_act_def)
  ultimately show ?thesis
    using assms by (auto simp: sc_inv_def sc_hist_defs report_error_def sc_act_def)
qed

text \<open>An error report needs less of the state than the invariant.\<close>

definition sc_base :: "BSocksClient_auth_info list \<Rightarrow> BAddr \<Rightarrow> BSocksClient \<Rightarrow> bool" where
  "sc_base ais dest s \<longleftrightarrow> sc_auth_info s = ais \<and> sc_dest_addr s = dest \<and> sc_balanced s \<and> \<not> sc_failed s \<and>
     BSOCKSCLIENT_EVENT_UP \<notin> set (sc_events s) \<and> sc_state s \<noteq> STATE_UP"

lemma report_error_base:
  assumes "sc_base ais dest s"
  shows "sc_inv ais dest (report_error BSOCKSCLIENT_EVENT_ERROR s)"
proof -
  have "sc_failed (report_error BSOCKSCLIENT_EVENT_ERROR s)"
    by (simp add: sc_failed_def sc_hist_defs report_error_def sc_act_def)
  moreover have "sc_balanced (report_error BSOCKSCLIENT_EVENT_ERROR s) = sc_balanced s"
    by (simp add: sc_balanced_def report_error_def sc_act_def)
  ultimately show ?thesis
    using assms by (auto simp: sc_inv_def sc_base_def sc_hist_defs report_error_def sc_act_def)
qed

lemma sc_base_of_inv: "sc_inv ais dest s \<Longrightarrow> \<not> sc_failed s \<Longrightarrow> sc_state s \<noteq> STATE_UP \<Longrightarrow> sc_base ais dest s"
  by (simp add: sc_inv_def sc_base_def)

lemma sc_base_inv:
  "sc_base ais dest s \<Longrightarrow> sc_rep ais dest s (sc_state s) \<Longrightarrow> sc_inv ais dest s"
  by (simp add: sc_inv_def sc_base_def)

lemma sc_base_same:
  assumes "sc_base ais dest s" "sc_auth_info s' = sc_auth_info s" "sc_dest_addr s' = sc_dest_addr s"
    "sc_held (sc_state s') = sc_held (sc_state s)" "sc_events s' = sc_events s" "sc_state s' \<noteq> STATE_UP"
    "\<And>r. count_list (sc_log s') (ScInit r) = count_list (sc_log s) (ScInit r)"
    "\<And>r. count_list (sc_log s') (ScFree r) = count_list (sc_log s) (ScFree r)"
  shows "sc_base ais dest s'"
  using assms by (simp add: sc_base_def sc_balanced_def sc_failed_def)

lemma sc_held_control:
  assumes "st \<noteq> STATE_CONNECTING" "st \<noteq> STATE_UP" "st' \<noteq> STATE_CONNECTING" "st' \<noteq> STATE_UP"
  shows "sc_held st = sc_held st'"
proof
  fix r show "sc_held st r = sc_held st' r" using assms by (cases r) simp_all
qed


subsection \<open>Every step keeps the invariant\<close>

lemma sc_base_io:
  assumes "sc_base ais dest s" "s' = s\<lparr>sc_sending := a, sc_buffer := b\<rparr>"
  shows "sc_base ais dest s'"
  using assms(1) by (rule sc_base_same) (simp_all add: assms(2) sc_hist_defs sc_base_def [THEN iffD1, OF assms(1)])

lemma send_state_base:
  assumes "sc_base ais dest s" "sc_held (sc_state s) = sc_held st" "st \<noteq> STATE_UP"
  shows "sc_base ais dest (sc_send_state s p st)"
  using assms(1) by (rule sc_base_same) (use assms(2,3) in \<open>simp_all add: sc_send_state_def sc_hist_defs\<close>)

lemma send_state_hist [simp]:
  "sc_sent (sc_send_state s p st) = sc_sent s @ [p]" "sc_got (sc_send_state s p st) = sc_got s"
  "sc_receiving s = None \<Longrightarrow> sending_packet (sc_send_state s p st) p"
  "sc_state (sc_send_state s p st) = st"
  by (simp_all add: sc_send_state_def sc_hist_defs sending_packet_def)

lemma connect_inv:
  assumes inv: "sc_inv ais dest s" and st: "sc_state s = STATE_CONNECTING" "\<not> sc_failed s" and ra: "ra_ok ra"
  shows "sc_inv ais dest (connector_handler ra ok s is_error)"
proof -
  have base: "sc_base ais dest s" using sc_base_of_inv [OF inv st(2)] st(1) by simp
  have rep: "sc_sent s = []" "sc_got s = []" using inv st by (simp_all add: sc_inv_def)
  let ?s1 = "init_control_io (sc_act (ScInit ScConnection) s)"
  let ?f = "sc_act (ScFree ScConnection) (free_control_io ?s1)"
  have s1: "sc_sent ?s1 = []" "sc_got ?s1 = []" "sc_receiving ?s1 = None"
    using rep by (simp_all add: init_control_io_def sc_act_def sc_hist_defs)
  have bal: "count_list (sc_log s) (ScInit r) = count_list (sc_log s) (ScFree r) + sc_held STATE_CONNECTING r" for r
    using base st(1) by (simp add: sc_base_def sc_balanced_def)
  have fail: "sc_base ais dest ?f"
    using base st bal
    by (simp add: sc_base_def sc_balanced_def sc_failed_def sc_hist_defs init_control_io_def free_control_io_def sc_act_def)
  have send: "sc_base ais dest (sc_send_state ?s1 m STATE_SENDING_HELLO)" for m
  proof -
    have "count_list (sc_log (sc_send_state ?s1 m STATE_SENDING_HELLO)) (ScInit r) =
        count_list (sc_log (sc_send_state ?s1 m STATE_SENDING_HELLO)) (ScFree r) + sc_held STATE_SENDING_HELLO r" for r
      using bal [of r] by (cases r) (simp_all add: sc_send_state_def init_control_io_def sc_act_def)
    then show ?thesis
      using base by (simp add: sc_base_def sc_balanced_def sc_failed_def sc_hist_defs sc_send_state_def
          init_control_io_def sc_act_def)
  qed
  have "sc_inv ais dest (sc_send_state ?s1 (socks_hello ais) STATE_SENDING_HELLO)"
    by (rule sc_base_inv [OF send]) (simp add: s1)
  moreover have "sc_auth_info s = ais" using base by (simp add: sc_base_def)
  ultimately show ?thesis
    using report_error_base [OF base] report_error_base [OF fail]
    by (simp add: connector_handler_eq [OF ra] Let_def)
qed

lemma start_receive_at:
  assumes "sc_buffer s = Some b" "0 < n" "n \<le> length b" "sc_sending s = None"
  shows "receiving_at ((start_receive s 0 n)\<lparr>sc_state := st\<rparr>) 0 n (sc_got s)"
  using assms by (simp add: receiving_at_def start_receive_def do_receive_def sc_hist_defs)

lemma start_receive_base:
  assumes "sc_base ais dest s" "sc_held (sc_state s) = sc_held st" "st \<noteq> STATE_UP"
  shows "sc_base ais dest ((start_receive s off n)\<lparr>sc_state := st\<rparr>)"
  using assms(1) by (rule sc_base_same) (use assms(2,3) in \<open>simp_all add: start_receive_def do_receive_def sc_hist_defs\<close>)

lemma start_receive_sel [simp]:
  "sc_sent ((start_receive s off n)\<lparr>sc_state := st\<rparr>) = sc_sent s"
  "buffer_bytes ((start_receive s off n)\<lparr>sc_state := st\<rparr>) = buffer_bytes s"
  "sc_state ((start_receive s off n)\<lparr>sc_state := st\<rparr>) = st"
  by (simp_all add: start_receive_def do_receive_def sc_hist_defs buffer_bytes_def)

lemma buffer_bytes_update [simp]: "buffer_bytes (s\<lparr>sc_sending := a, sc_buffer := Some b\<rparr>) = b"
  by (simp add: buffer_bytes_def)

lemma sent_inv_aux:
  assumes ra: "ra_ok ra" and base: "sc_base ais dest s" and need: "bsize_is need n" "n < 2 ^ 64" "0 < m" "m \<le> n"
    and st: "sc_held (sc_state s) = sc_held st" "st \<noteq> STATE_UP"
    and rep: "\<And>s'. sc_sent s' = sc_sent s \<Longrightarrow> receiving_at s' 0 m (sc_got s) \<Longrightarrow> length (buffer_bytes s') = n \<Longrightarrow>
        sc_rep ais dest s' st"
  shows "sc_inv ais dest (case reserve_buffer ra (s\<lparr>sc_sending := None\<rparr>) need of
      None \<Rightarrow> report_error BSOCKSCLIENT_EVENT_ERROR (s\<lparr>sc_sending := None\<rparr>)
    | Some s \<Rightarrow> (start_receive s 0 m)\<lparr>sc_state := st\<rparr>)"
proof -
  have b0: "sc_base ais dest (s\<lparr>sc_sending := None\<rparr>)"
    by (rule sc_base_io [OF base, where a = None and b = "sc_buffer s"]) simp
  from reserve_buffer_eq [OF ra need(1,2), of "s\<lparr>sc_sending := None\<rparr>"] show ?thesis
  proof (elim disjE exE conjE)
    assume "reserve_buffer ra (s\<lparr>sc_sending := None\<rparr>) need = None"
    then show ?thesis using report_error_base [OF b0] by simp
  next
    fix b assume b: "length b = n" "reserve_buffer ra (s\<lparr>sc_sending := None\<rparr>) need = Some (s\<lparr>sc_sending := None, sc_buffer := Some b\<rparr>)"
    let ?s = "s\<lparr>sc_sending := None, sc_buffer := Some b\<rparr>"
    have bs: "sc_base ais dest ?s" by (rule sc_base_io [OF base]) simp
    have at: "receiving_at ((start_receive ?s 0 m)\<lparr>sc_state := st\<rparr>) 0 m (sc_got ?s)"
      by (rule start_receive_at [of _ b]) (use b need in simp_all)
    have g: "sc_got ?s = sc_got s" "sc_sent ?s = sc_sent s" by (simp_all add: sc_hist_defs)
    have "sc_rep ais dest ((start_receive ?s 0 m)\<lparr>sc_state := st\<rparr>) st"
      by (rule rep) (use at g b in simp_all)
    then have "sc_inv ais dest ((start_receive ?s 0 m)\<lparr>sc_state := st\<rparr>)"
      by (intro sc_base_inv start_receive_base [OF bs]) (use st in simp_all)
    then show ?thesis by (simp add: b(2))
  qed
qed

lemma sent_inv:
  assumes inv: "sc_inv ais dest s" and st: "\<not> sc_failed s" "sc_sending s \<noteq> None" and ra: "ra_ok ra"
  shows "sc_inv ais dest (send_handler_done ra s)"
proof -
  have rep: "sc_rep ais dest s (sc_state s)" using inv st by (simp add: sc_inv_def)
  consider (hello) "sc_state s = STATE_SENDING_HELLO" | (pw) "sc_state s = STATE_SENDING_PASSWORD"
    | (req) "sc_state s = STATE_SENDING_REQUEST"
    using rep st(2) by (cases "sc_state s") (auto simp: receiving_at_def)
  then show ?thesis
  proof cases
    case hello
    have base: "sc_base ais dest s" using sc_base_of_inv [OF inv st(1)] hello by simp
    have r: "sc_sent s = [socks_hello ais]" "sc_got s = []" using rep hello by simp_all
    have eq: "send_handler_done ra s = (case reserve_buffer ra (s\<lparr>sc_sending := None\<rparr>) (sz 2) of
        None \<Rightarrow> report_error BSOCKSCLIENT_EVENT_ERROR (s\<lparr>sc_sending := None\<rparr>)
      | Some s \<Rightarrow> (start_receive s 0 2)\<lparr>sc_state := STATE_SENT_HELLO\<rparr>)"
      using hello unat_sz [of 2] by (simp add: send_handler_done_def Let_def cong: option.case_cong)
    show ?thesis unfolding eq
      by (rule sent_inv_aux [OF ra base sz_is]) (use hello r in \<open>auto intro: sc_held_control\<close>)
  next
    case pw
    have base: "sc_base ais dest s" using sc_base_of_inv [OF inv st(1)] pw by simp
    obtain u p where r: "pw_chosen ais u p" "sc_sent s = [socks_hello ais, socks_password u p]" "sc_got s = [5, 2]"
      using rep pw by auto
    have eq: "send_handler_done ra s = (case reserve_buffer ra (s\<lparr>sc_sending := None\<rparr>) (sz 2) of
        None \<Rightarrow> report_error BSOCKSCLIENT_EVENT_ERROR (s\<lparr>sc_sending := None\<rparr>)
      | Some s \<Rightarrow> (start_receive s 0 2)\<lparr>sc_state := STATE_SENT_PASSWORD\<rparr>)"
      using pw unat_sz [of 2] by (simp add: send_handler_done_def Let_def cong: option.case_cong)
    show ?thesis unfolding eq
      by (rule sent_inv_aux [OF ra base sz_is]) (use pw r in \<open>auto intro: sc_held_control\<close>)
  next
    case req
    have base: "sc_base ais dest s" using sc_base_of_inv [OF inv st(1)] req by simp
    have r: "request_done ais dest (sc_sent s) (sc_got s)" using rep req by simp
    let ?need = "bsize_add (sz sizeof_socks_reply_header) (bsize_max (sz sizeof_socks_addr_ipv4) (sz sizeof_socks_addr_ipv6))"
    have "bsize_is ?need (4 + max 6 18)"
      using bsize_add_is [OF sz_is [of 4] bsize_max_is [OF sz_is [of 6] sz_is [of 18]]] by simp
    then have need: "bsize_is ?need 22" by simp
    have eq: "send_handler_done ra s = (case reserve_buffer ra (s\<lparr>sc_sending := None\<rparr>) ?need of
        None \<Rightarrow> report_error BSOCKSCLIENT_EVENT_ERROR (s\<lparr>sc_sending := None\<rparr>)
      | Some s \<Rightarrow> (start_receive s 0 4)\<lparr>sc_state := STATE_SENT_REQUEST\<rparr>)"
      using req by (simp add: send_handler_done_def Let_def cong: option.case_cong)
    show ?thesis unfolding eq
      by (rule sent_inv_aux [OF ra base need]) (use req r in \<open>auto intro: sc_held_control\<close>)
  qed
qed


text \<open>The state after the bytes of a receive were stored, before the message is looked at.\<close>

definition sc_stored :: "BSocksClient \<Rightarrow> byte list \<Rightarrow> BSocksClient" where
  "sc_stored s d =
     (write_buffer (sc_recv_dest s + sc_recv_len s) d (sc_act (ScGot d) s))
       \<lparr>sc_receiving := None, sc_recv_len := sc_recv_len s + length d\<rparr>"

lemma recv_handler_done_eq:
  "recv_handler_done ra (sc_act (ScGot d) s) d =
     (let s2 = sc_stored s d in
      if sc_recv_len s2 < sc_recv_total s2 then do_receive s2
      else case sc_state s2 of
        STATE_SENT_HELLO \<Rightarrow> received_hello ra s2
      | STATE_SENT_REQUEST \<Rightarrow> received_reply_header s2
      | STATE_SENT_PASSWORD \<Rightarrow> received_password_reply ra s2
      | STATE_RECEIVED_REPLY_HEADER \<Rightarrow> received_reply_rest s2
      | _ \<Rightarrow> s2)"
  by (simp add: recv_handler_done_def sc_stored_def write_buffer_def sc_act_def buffer_bytes_def Let_def
      cong: socks_state.case_cong)

lemma stored_sel [simp]:
  "sc_state (sc_stored s d) = sc_state s" "sc_auth_info (sc_stored s d) = sc_auth_info s"
  "sc_dest_addr (sc_stored s d) = sc_dest_addr s" "sc_sent (sc_stored s d) = sc_sent s"
  "sc_events (sc_stored s d) = sc_events s" "sc_got (sc_stored s d) = sc_got s @ d"
  "sc_sending (sc_stored s d) = sc_sending s" "sc_receiving (sc_stored s d) = None"
  by (simp_all add: sc_stored_def write_buffer_def sc_act_def sc_hist_defs)

lemma stored_base: "sc_base ais dest s \<Longrightarrow> sc_base ais dest (sc_stored s d)"
  by (simp add: sc_base_def sc_balanced_def sc_failed_def) (simp add: sc_stored_def write_buffer_def sc_act_def)

lemma stored_at:
  assumes "receiving_at s dest tot pre" "sc_receiving s = Some (off, n)" "length d \<le> n"
  obtains b where "buffer_bytes (sc_stored s d) = b" "sc_buffer (sc_stored s d) = Some b" "dest + tot \<le> length b"
    "length b = length (buffer_bytes s)"
    "sc_recv_dest (sc_stored s d) = dest" "sc_recv_total (sc_stored s d) = tot"
    "sc_recv_len (sc_stored s d) \<le> tot" "sc_sending (sc_stored s d) = None"
    "sc_got (sc_stored s d) = pre @ mem_read b dest (sc_recv_len (sc_stored s d))"
    "mem_read b 0 dest = mem_read (buffer_bytes s) 0 dest"
proof -
  obtain b0 where b0: "sc_buffer s = Some b0" "dest + tot \<le> length b0" "sc_recv_dest s = dest" "sc_recv_total s = tot"
      "sc_recv_len s < tot" "off = dest + sc_recv_len s" "n = tot - sc_recv_len s" "sc_sending s = None"
      "sc_got s = pre @ mem_read b0 dest (sc_recv_len s)"
    using assms(1,2) by (auto simp: receiving_at_def)
  let ?b = "mem_write b0 (dest + sc_recv_len s) d"
  have l: "dest + sc_recv_len s + length d \<le> length b0" "sc_recv_len s + length d \<le> tot"
    using b0 assms(3) by simp_all
  have rd: "mem_read ?b dest (sc_recv_len s + length d) = mem_read b0 dest (sc_recv_len s) @ d"
    using l by (simp add: mem_read_append mem_read_write_before mem_read_write_same)
  have pre: "mem_read ?b 0 dest = mem_read b0 0 dest"
    using l by (simp add: mem_read_write_before)
  show thesis
    by (rule that [of ?b])
      (use b0 l rd pre in \<open>simp_all add: sc_stored_def write_buffer_def sc_act_def buffer_bytes_def sc_hist_defs\<close>)
qed

lemma do_receive_at:
  assumes "sc_buffer s = Some b" "sc_recv_dest s + sc_recv_total s \<le> length b" "sc_recv_len s < sc_recv_total s"
    "sc_sending s = None" "sc_got s = pre @ mem_read b (sc_recv_dest s) (sc_recv_len s)"
  shows "receiving_at (do_receive s) (sc_recv_dest s) (sc_recv_total s) pre"
  using assms by (simp add: receiving_at_def do_receive_def sc_hist_defs)

lemma do_receive_sel [simp]:
  "sc_state (do_receive s) = sc_state s" "sc_sent (do_receive s) = sc_sent s" "sc_got (do_receive s) = sc_got s"
  "buffer_bytes (do_receive s) = buffer_bytes s"
  by (simp_all add: do_receive_def sc_hist_defs buffer_bytes_def)

lemma do_receive_base: "sc_base ais dest s \<Longrightarrow> sc_base ais dest (do_receive s)"
  by (rule sc_base_same) (simp_all add: sc_base_def do_receive_def sc_hist_defs)

lemma auth_finished_inv:
  assumes ra: "ra_ok ra" and base: "sc_base ais dest s" and dest: "BAddr_is_ip dest" "BAddr_wf dest"
    and st: "sc_held (sc_state s) = sc_held STATE_SENDING_REQUEST" and rcv: "sc_receiving s = None"
    and ad: "auth_done ais (sc_sent s) (sc_got s)"
  shows "sc_inv ais dest (auth_finished ra s)"
proof -
  have d: "sc_dest_addr s = dest" using base by (simp add: sc_base_def)
  have "sc_inv ais dest (sc_send_state s (socks_request dest) STATE_SENDING_REQUEST)"
    by (rule sc_base_inv [OF send_state_base [OF base st]])
      (use ad rcv in \<open>auto simp: request_done_def\<close>)
  then show ?thesis
    using auth_finished_eq [OF ra, of s] dest report_error_base [OF base] by (simp add: d)
qed

lemma find_auth_type: "find_auth ais m = Some ai \<Longrightarrow> auth_type ai = m"
  by (induction ais) (auto split: if_splits)

lemma received_hello_inv:
  assumes ra: "ra_ok ra" and base: "sc_base ais dest s" and dest: "BAddr_is_ip dest" "BAddr_wf dest"
    and st: "sc_state s = STATE_SENT_HELLO" and rcv: "sc_receiving s = None"
    and r: "sc_sent s = [socks_hello ais]" "sc_got s = [buffer_bytes s ! 0, buffer_bytes s ! 1]"
  shows "sc_inv ais dest (received_hello ra s)"
proof -
  have a: "sc_auth_info s = ais" using base by (simp add: sc_base_def)
  note err = report_error_base [OF base]
  show ?thesis
  proof (cases "buffer_bytes s ! 0 = 5")
    case False
    then show ?thesis using err by (simp add: received_hello_def Let_def)
  next
    case v: True
    show ?thesis
    proof (cases "find_auth ais (buffer_bytes s ! 1)")
      case None
      then show ?thesis using err v a by (simp add: received_hello_def Let_def)
    next
      case (Some ai)
      note m = find_auth_type [OF Some]
      show ?thesis
      proof (cases ai)
        case BSocksClient_auth_none
        have "received_hello ra s = auth_finished ra s"
          using v Some a BSocksClient_auth_none by (simp add: received_hello_def Let_def)
        moreover have "auth_done ais (sc_sent s) (sc_got s)"
          using r v m Some BSocksClient_auth_none by (simp add: auth_done_def)
        ultimately show ?thesis
          using auth_finished_inv [OF ra base dest _ rcv] sc_held_control [of STATE_SENT_HELLO STATE_SENDING_REQUEST] st
          by simp
      next
        case (BSocksClient_auth_password u p)
        have eq: "received_hello ra s =
            (if \<not> pw_ok u p \<or> ra (length (socks_password u p)) = None then report_error BSOCKSCLIENT_EVENT_ERROR s
             else sc_send_state s (socks_password u p) STATE_SENDING_PASSWORD)"
          by (rule received_hello_password_eq [OF ra v]) (use Some BSocksClient_auth_password in \<open>simp add: a\<close>)
        have "sc_inv ais dest (sc_send_state s (socks_password u p) STATE_SENDING_PASSWORD)" if "pw_ok u p"
        proof (rule sc_base_inv [OF send_state_base [OF base]])
          show "sc_held (sc_state s) = sc_held STATE_SENDING_PASSWORD"
            unfolding st by (rule sc_held_control) simp_all
          show "sc_rep ais dest (sc_send_state s (socks_password u p) STATE_SENDING_PASSWORD)
              (sc_state (sc_send_state s (socks_password u p) STATE_SENDING_PASSWORD))"
            using r v m Some BSocksClient_auth_password that rcv by (auto simp: pw_chosen_def)
        qed simp
        then show ?thesis using err by (simp add: eq)
      qed
    qed
  qed
qed


lemma received_password_reply_inv:
  assumes ra: "ra_ok ra" and base: "sc_base ais dest s" and dest: "BAddr_is_ip dest" "BAddr_wf dest"
    and st: "sc_state s = STATE_SENT_PASSWORD" and rcv: "sc_receiving s = None"
    and r: "pw_chosen ais u p" "sc_sent s = [socks_hello ais, socks_password u p]"
      "sc_got s = [5, 2, buffer_bytes s ! 0, buffer_bytes s ! 1]"
  shows "sc_inv ais dest (received_password_reply ra s)"
proof (cases "buffer_bytes s ! 0 = 1 \<and> buffer_bytes s ! 1 = 0")
  case False
  then have "received_password_reply ra s = report_error BSOCKSCLIENT_EVENT_ERROR s"
    by (auto simp: received_password_reply_def Let_def)
  then show ?thesis using report_error_base [OF base] by simp
next
  case True
  have "auth_done ais (sc_sent s) (sc_got s)" using r True by (auto simp: auth_done_def)
  moreover have "sc_held (sc_state s) = sc_held STATE_SENDING_REQUEST" unfolding st by (rule sc_held_control) simp_all
  ultimately have "sc_inv ais dest (auth_finished ra s)" using auth_finished_inv [OF ra base dest _ rcv] by simp
  then show ?thesis using True by (simp add: received_password_reply_def Let_def)
qed

lemma header_start:
  assumes base: "sc_base ais dest s" and st: "sc_state s = STATE_SENT_REQUEST"
    and b: "sc_buffer s = Some b" "4 + n \<le> length b" "0 < n" "sc_sending s = None" "sc_got s = pre"
    and req: "request_done ais dest (sc_sent s) got"
    and pre: "(n = 6 \<and> pre = got @ [5, 0, rsv, 1]) \<or> (n = 18 \<and> pre = got @ [5, 0, rsv, 4])"
  shows "sc_inv ais dest ((start_receive s 4 n)\<lparr>sc_state := STATE_RECEIVED_REPLY_HEADER\<rparr>)"
proof (rule sc_base_inv [OF start_receive_base [OF base]])
  show "sc_held (sc_state s) = sc_held STATE_RECEIVED_REPLY_HEADER" unfolding st by (rule sc_held_control) simp_all
  have "receiving_at ((start_receive s 4 n)\<lparr>sc_state := STATE_RECEIVED_REPLY_HEADER\<rparr>) 4 n pre"
    using b by (simp add: receiving_at_def start_receive_def do_receive_def sc_hist_defs)
  then show "sc_rep ais dest ((start_receive s 4 n)\<lparr>sc_state := STATE_RECEIVED_REPLY_HEADER\<rparr>)
      (sc_state ((start_receive s 4 n)\<lparr>sc_state := STATE_RECEIVED_REPLY_HEADER\<rparr>))"
    using req pre by auto
qed simp

lemma received_reply_header_inv:
  assumes base: "sc_base ais dest s" and st: "sc_state s = STATE_SENT_REQUEST"
    and b: "sc_buffer s = Some b" "length b = 22" "sc_sending s = None"
    and req: "request_done ais dest (sc_sent s) got" and got: "sc_got s = got @ [b ! 0, b ! 1, b ! 2, b ! 3]"
  shows "sc_inv ais dest (received_reply_header s)"
proof -
  have bb: "buffer_bytes s = b" using b by (simp add: buffer_bytes_def)
  consider (v4) "b ! 0 = 5" "b ! 1 = 0" "b ! 3 = 1" | (v6) "b ! 0 = 5" "b ! 1 = 0" "b ! 3 = 4"
    | (bad) "received_reply_header s = report_error BSOCKSCLIENT_EVENT_ERROR s"
    by (cases "b ! 0 = 5"; cases "b ! 1 = 0"; cases "b ! 3 = 1"; cases "b ! 3 = 4")
      (auto simp: received_reply_header_def Let_def bb)
  then show ?thesis
  proof cases
    case v4
    have "received_reply_header s = (start_receive s 4 6)\<lparr>sc_state := STATE_RECEIVED_REPLY_HEADER\<rparr>"
      using v4 by (simp add: received_reply_header_def Let_def bb)
    then show ?thesis
      using header_start [OF base st b(1) _ _ b(3) got req, of 6 "b ! 2"] b(2) v4 by simp
  next
    case v6
    have "received_reply_header s = (start_receive s 4 18)\<lparr>sc_state := STATE_RECEIVED_REPLY_HEADER\<rparr>"
      using v6 by (simp add: received_reply_header_def Let_def bb)
    then show ?thesis
      using header_start [OF base st b(1) _ _ b(3) got req, of 18 "b ! 2"] b(2) v6 by simp
  next
    case bad
    then show ?thesis using report_error_base [OF base] by simp
  qed
qed

lemma received_reply_rest_inv:
  assumes base: "sc_base ais dest s" and st: "sc_state s = STATE_RECEIVED_REPLY_HEADER"
    and complete: "handshake_done ais dest (sc_sent s) (sc_got s)"
  shows "sc_inv ais dest (received_reply_rest s)"
proof -
  let ?s = "received_reply_rest s"
  have log: "sc_log ?s = sc_log s @ [ScFree ScControlIO, ScInit ScUpIO, ScEvent BSOCKSCLIENT_EVENT_UP]"
    "sc_state ?s = STATE_UP" "sc_auth_info ?s = sc_auth_info s" "sc_dest_addr ?s = sc_dest_addr s"
    "sc_sending ?s = None" "sc_receiving ?s = None"
    by (simp_all add: received_reply_rest_def free_control_io_def init_up_io_def sc_act_def Let_def)
  have hist: "sc_sent ?s = sc_sent s" "sc_got ?s = sc_got s" "sc_events ?s = sc_events s @ [BSOCKSCLIENT_EVENT_UP]"
    by (simp_all add: sc_hist_defs log)
  have "sc_balanced ?s"
    unfolding sc_balanced_def
  proof
    fix r
    have "count_list (sc_log s) (ScInit r) = count_list (sc_log s) (ScFree r) + sc_held STATE_RECEIVED_REPLY_HEADER r"
      using base st by (simp add: sc_base_def sc_balanced_def)
    then show "count_list (sc_log ?s) (ScInit r) = count_list (sc_log ?s) (ScFree r) + sc_held (sc_state ?s) r"
      by (cases r) (simp_all add: log)
  qed
  then show ?thesis
    using base complete by (simp add: sc_inv_def sc_base_def log hist)
qed

lemma take2_eq: "2 \<le> length b \<Longrightarrow> mem_read b 0 2 = [b ! 0, b ! 1]"
  by (rule nth_equalityI) (auto simp: mem_read_def less_Suc_eq numeral_2_eq_2)

lemma take4_eq: "4 \<le> length b \<Longrightarrow> mem_read b 0 4 = [b ! 0, b ! 1, b ! 2, b ! 3]"
  by (rule nth_equalityI) (auto simp: mem_read_def less_Suc_eq eval_nat_numeral)

lemma sc_rep_receiving:
  assumes "sc_rep ais dest s (sc_state s)" "sc_receiving s \<noteq> None"
  shows "(\<exists>tot pre. receiving_at s 0 tot pre \<or> receiving_at s 4 tot pre) \<and>
    sc_state s \<in> {STATE_SENT_HELLO, STATE_SENT_PASSWORD, STATE_SENT_REQUEST, STATE_RECEIVED_REPLY_HEADER}"
  using assms by (cases "sc_state s") (auto simp: sending_packet_def)

text \<open>While a message is incomplete the receive goes on in the same state.\<close>

lemma recv_more_inv:
  assumes base: "sc_base ais dest s" and at: "receiving_at s off0 tot pre"
    and n: "sc_receiving s = Some (off, n)" "length d \<le> n" "sc_recv_len (sc_stored s d) < sc_recv_total (sc_stored s d)"
    and rep: "\<And>s'. sc_sent s' = sc_sent s \<Longrightarrow> receiving_at s' off0 tot pre \<Longrightarrow>
        length (buffer_bytes s') = length (buffer_bytes s) \<Longrightarrow> sc_rep ais dest s' (sc_state s)"
  shows "sc_inv ais dest (recv_handler_done ra (sc_act (ScGot d) s) d)"
proof -
  obtain b where b: "buffer_bytes (sc_stored s d) = b" "sc_buffer (sc_stored s d) = Some b" "off0 + tot \<le> length b"
    "length b = length (buffer_bytes s)"
    "sc_recv_dest (sc_stored s d) = off0" "sc_recv_total (sc_stored s d) = tot"
    "sc_sending (sc_stored s d) = None"
    "sc_got (sc_stored s d) = pre @ mem_read b off0 (sc_recv_len (sc_stored s d))"
    using stored_at [OF at n(1,2)] by metis
  have "receiving_at (do_receive (sc_stored s d)) off0 tot pre"
    using do_receive_at [OF b(2), of pre] b n(3) by simp
  then have "sc_rep ais dest (do_receive (sc_stored s d)) (sc_state s)"
    by (intro rep) (simp_all add: b)
  then have "sc_inv ais dest (do_receive (sc_stored s d))"
    by (intro sc_base_inv do_receive_base stored_base base) simp
  then show ?thesis using n(3) by (simp add: recv_handler_done_eq Let_def)
qed

lemma recv_done_at:
  assumes "receiving_at s off0 tot pre" "sc_receiving s = Some (off, n)" "length d \<le> n"
    and "\<not> sc_recv_len (sc_stored s d) < sc_recv_total (sc_stored s d)"
  obtains b where "buffer_bytes (sc_stored s d) = b" "sc_buffer (sc_stored s d) = Some b" "off0 + tot \<le> length b"
    "length b = length (buffer_bytes s)" "sc_sending (sc_stored s d) = None"
    "sc_got (sc_stored s d) = pre @ mem_read b off0 tot"
  using stored_at [OF assms(1-3)] assms(4) by (metis linorder_not_less order_antisym)

lemma recv_inv:
  assumes inv: "sc_inv ais dest s" and st: "\<not> sc_failed s" and ra: "ra_ok ra"
    and dest: "BAddr_is_ip dest" "BAddr_wf dest"
    and n: "sc_receiving s = Some (off, n)" "length d \<le> n"
  shows "sc_inv ais dest (recv_handler_done ra (sc_act (ScGot d) s) d)"
proof -
  have rep: "sc_rep ais dest s (sc_state s)" using inv st by (simp add: sc_inv_def)
  have "sc_state s \<noteq> STATE_UP" using sc_rep_receiving [OF rep] n(1) by auto
  then have base: "sc_base ais dest s" using sc_base_of_inv [OF inv st] by simp
  note sbase = stored_base [OF base, of d]
  let ?more = "sc_recv_len (sc_stored s d) < sc_recv_total (sc_stored s d)"
  consider (hello) "sc_state s = STATE_SENT_HELLO" | (pw) "sc_state s = STATE_SENT_PASSWORD"
    | (req) "sc_state s = STATE_SENT_REQUEST" | (rest) "sc_state s = STATE_RECEIVED_REPLY_HEADER"
    using sc_rep_receiving [OF rep] n(1) by auto
  then show ?thesis
  proof cases
    case hello
    then have r: "sc_sent s = [socks_hello ais]" "receiving_at s 0 2 []" using rep by simp_all
    show ?thesis
    proof (cases ?more)
      case True
      show ?thesis by (rule recv_more_inv [OF base r(2) n True]) (simp add: hello r)
    next
      case False
      obtain b where b: "buffer_bytes (sc_stored s d) = b" "0 + 2 \<le> length b" "sc_got (sc_stored s d) = [] @ mem_read b 0 2"
        using recv_done_at [OF r(2) n False] by metis
      have "sc_inv ais dest (received_hello ra (sc_stored s d))"
        by (rule received_hello_inv [OF ra sbase dest])
          (use hello r b take2_eq [of b] in \<open>simp_all del: stored_sel(6)\<close>)
      then show ?thesis using False hello by (simp add: recv_handler_done_eq Let_def)
    qed
  next
    case pw
    then obtain u p where r: "pw_chosen ais u p" "sc_sent s = [socks_hello ais, socks_password u p]" "receiving_at s 0 2 [5, 2]"
      using rep by auto
    show ?thesis
    proof (cases ?more)
      case True
      show ?thesis by (rule recv_more_inv [OF base r(3) n True]) (use pw r in auto)
    next
      case False
      obtain b where b: "buffer_bytes (sc_stored s d) = b" "0 + 2 \<le> length b" "sc_got (sc_stored s d) = [5, 2] @ mem_read b 0 2"
        using recv_done_at [OF r(3) n False] by metis
      have "sc_inv ais dest (received_password_reply ra (sc_stored s d))"
        by (rule received_password_reply_inv [OF ra sbase dest, of u p])
          (use pw r b take2_eq [of b] in \<open>simp_all del: stored_sel(6)\<close>)
      then show ?thesis using False pw by (simp add: recv_handler_done_eq Let_def)
    qed
  next
    case req
    then obtain got where r: "request_done ais dest (sc_sent s) got" "receiving_at s 0 4 got" "length (buffer_bytes s) = 22"
      using rep by auto
    show ?thesis
    proof (cases ?more)
      case True
      show ?thesis by (rule recv_more_inv [OF base r(2) n True]) (use req r in auto)
    next
      case False
      obtain b where b: "sc_buffer (sc_stored s d) = Some b" "length b = length (buffer_bytes s)"
          "sc_sending (sc_stored s d) = None" "sc_got (sc_stored s d) = got @ mem_read b 0 4"
        using recv_done_at [OF r(2) n False] by metis
      have "sc_inv ais dest (received_reply_header (sc_stored s d))"
        by (rule received_reply_header_inv [OF sbase _ b(1), of got])
          (use req r b take4_eq [of b] in \<open>simp_all del: stored_sel(6)\<close>)
      then show ?thesis using False req by (simp add: recv_handler_done_eq Let_def)
    qed
  next
    case rest
    then obtain got rsv tot a where r: "request_done ais dest (sc_sent s) got" "receiving_at s 4 tot (got @ [5, 0, rsv, a])"
        "(tot = 6 \<and> a = 1) \<or> (tot = 18 \<and> a = 4)"
      using rep by auto
    show ?thesis
    proof (cases ?more)
      case True
      show ?thesis by (rule recv_more_inv [OF base r(2) n True]) (use rest r in auto)
    next
      case False
      obtain b where b: "4 + tot \<le> length b" "sc_got (sc_stored s d) = (got @ [5, 0, rsv, a]) @ mem_read b 4 tot"
        using recv_done_at [OF r(2) n False] by metis
      have "reply_ok ([5, 0, rsv, a] @ mem_read b 4 tot)"
        using r(3) b(1) by (auto simp: reply_ok_def length_mem_read)
      then have "handshake_done ais dest (sc_sent (sc_stored s d)) (sc_got (sc_stored s d))"
        unfolding handshake_done_def b(2) using r(1) by auto
      then have "sc_inv ais dest (received_reply_rest (sc_stored s d))"
        using received_reply_rest_inv [OF sbase] rest by simp
      then show ?thesis using False rest by (simp add: recv_handler_done_eq Let_def)
    qed
  qed
qed

lemma sc_step_inv:
  assumes "sc_step ra s s'" "sc_inv ais dest s" "ra_ok ra" "BAddr_is_ip dest" "BAddr_wf dest"
  shows "sc_inv ais dest s'"
  using assms(1)
proof cases
  case (sc_con ev)
  then show ?thesis
    using assms(2) by (auto simp: connection_handler_def intro: report_error_inv)
qed (use assms in \<open>auto intro: connect_inv sent_inv recv_inv\<close>)

lemma sc_init_inv: "BSocksClient_Init ais dest True = Some s \<Longrightarrow> sc_inv ais dest s"
proof -
  assume "BSocksClient_Init ais dest True = Some s"
  then have s: "s = \<lparr>sc_auth_info = ais, sc_dest_addr = dest, sc_state = STATE_CONNECTING,
        sc_buffer = None, sc_recv_dest = 0, sc_recv_len = 0, sc_recv_total = 0,
        sc_sending = None, sc_receiving = None, sc_log = [ScInit ScConnector]\<rparr>"
    by (simp add: BSocksClient_Init_def)
  have "sc_balanced s"
    unfolding sc_balanced_def
  proof
    fix r show "count_list (sc_log s) (ScInit r) = count_list (sc_log s) (ScFree r) + sc_held (sc_state s) r"
      by (cases r) (simp_all add: s)
  qed
  then show ?thesis by (simp add: sc_inv_def sc_failed_def sc_hist_defs s)
qed

lemma sc_reachable_inv:
  assumes "sc_reachable ra ais dest s" "ra_ok ra" "BAddr_is_ip dest" "BAddr_wf dest"
  shows "sc_inv ais dest s"
proof -
  obtain s0 where s0: "BSocksClient_Init ais dest True = Some s0" "(sc_step ra)\<^sup>*\<^sup>* s0 s"
    using assms(1) by (auto simp: sc_reachable_def)
  from s0(2) show ?thesis
    by (induction rule: rtranclp_induct) (use s0(1) assms(2-4) in \<open>auto intro: sc_init_inv sc_step_inv\<close>)
qed

end
