(* ===== verification/SocksProperties.thy ===== *)
theory SocksProperties
  imports SocksHandshake
begin

text \<open>
  What follows for the users of the SOCKS client: the messages it refuses, safety of its buffers and
  resources, the meaning of the UP event, and that a compliant server brings it up.
\<close>

subsection \<open>Which messages are refused\<close>

text \<open>What the client demands of the message that completes in a state, given as the buffer's content.\<close>

fun acceptable :: "BSocksClient_auth_info list \<Rightarrow> socks_state \<Rightarrow> byte list \<Rightarrow> bool" where
  "acceptable ais STATE_SENT_HELLO m \<longleftrightarrow> m ! 0 = 5 \<and>
     (case find_auth ais (m ! 1) of
        None \<Rightarrow> False
      | Some BSocksClient_auth_none \<Rightarrow> True
      | Some (BSocksClient_auth_password u p) \<Rightarrow> pw_ok u p)"
| "acceptable ais STATE_SENT_PASSWORD m \<longleftrightarrow> m ! 0 = 1 \<and> m ! 1 = 0"
| "acceptable ais STATE_SENT_REQUEST m \<longleftrightarrow> m ! 0 = 5 \<and> m ! 1 = 0 \<and> (m ! 3 = 1 \<or> m ! 3 = 4)"
| "acceptable ais _ m \<longleftrightarrow> True"

definition ra_total :: "(nat \<Rightarrow> byte list option) \<Rightarrow> bool" where
  "ra_total ra \<longleftrightarrow> (\<forall>n. \<exists>blk. ra n = Some blk \<and> length blk = n)"

lemma ra_total_ok: "ra_total ra \<Longrightarrow> ra_ok ra"
  by (metis ra_total_def ra_ok_def option.inject)

lemma failed_report [simp]: "sc_failed (report_error BSOCKSCLIENT_EVENT_ERROR s)"
  by (simp add: sc_failed_def sc_hist_defs report_error_def sc_act_def)

lemma failed_send_state [simp]: "sc_failed (sc_send_state s p st) = sc_failed s"
  by (simp add: sc_failed_def sc_hist_defs sc_send_state_def)

lemma failed_do_receive [simp]: "sc_failed (do_receive s) = sc_failed s"
  by (simp add: sc_failed_def sc_hist_defs do_receive_def)

lemma failed_start_receive [simp]: "sc_failed ((start_receive s off n)\<lparr>sc_state := st\<rparr>) = sc_failed s"
  by (simp add: sc_failed_def sc_hist_defs start_receive_def do_receive_def)

lemma failed_stored [simp]: "sc_failed (sc_stored s d) = sc_failed s"
  by (simp add: sc_failed_def)

lemma auth_finished_total:
  assumes "ra_total ra" "BAddr_is_ip (sc_dest_addr s)" "BAddr_wf (sc_dest_addr s)"
  shows "auth_finished ra s = sc_send_state s (socks_request (sc_dest_addr s)) STATE_SENDING_REQUEST"
proof -
  have "ra (length (socks_request (sc_dest_addr s))) \<noteq> None" using assms(1) unfolding ra_total_def by (metis option.distinct(1))
  then show ?thesis using auth_finished_eq [OF ra_total_ok [OF assms(1)] assms(2,3)] by auto
qed

lemma received_hello_verdict:
  assumes "ra_total ra" "BAddr_is_ip (sc_dest_addr s)" "BAddr_wf (sc_dest_addr s)" "\<not> sc_failed s"
  shows "sc_failed (received_hello ra s) \<longleftrightarrow> \<not> acceptable (sc_auth_info s) STATE_SENT_HELLO (buffer_bytes s)"
proof -
  let ?b = "buffer_bytes s"
  consider (bad) "?b ! 0 \<noteq> 5 \<or> find_auth (sc_auth_info s) (?b ! 1) = None"
    | (none) "?b ! 0 = 5" "find_auth (sc_auth_info s) (?b ! 1) = Some BSocksClient_auth_none"
    | (pw) u p where "?b ! 0 = 5" "find_auth (sc_auth_info s) (?b ! 1) = Some (BSocksClient_auth_password u p)"
    by (metis BSocksClient_auth_info.exhaust not_None_eq)
  then show ?thesis
  proof cases
    case bad
    then show ?thesis by (auto simp: received_hello_def Let_def)
  next
    case none
    then show ?thesis using auth_finished_total [OF assms(1-3)] assms(4) by (simp add: received_hello_def Let_def)
  next
    case pw
    have "ra (length (socks_password u p)) \<noteq> None"
      using assms(1) unfolding ra_total_def by (metis option.distinct(1))
    then show ?thesis
      using received_hello_password_eq [OF ra_total_ok [OF assms(1)] pw] pw assms(4) by auto
  qed
qed

lemma recv_verdict:
  assumes inv: "sc_inv ais dest s" and st: "\<not> sc_failed s" and ra: "ra_total ra"
    and dest: "BAddr_is_ip dest" "BAddr_wf dest"
    and n: "sc_receiving s = Some (off, n)" "length d \<le> n"
  shows "sc_failed (recv_handler_done ra (sc_act (ScGot d) s) d) \<longleftrightarrow>
    length d = n \<and> \<not> acceptable ais (sc_state s) (buffer_bytes (sc_stored s d))"
proof -
  have rep: "sc_rep ais dest s (sc_state s)" and a: "sc_auth_info s = ais" "sc_dest_addr s = dest"
    using inv st by (simp_all add: sc_inv_def)
  obtain off0 tot pre where at: "receiving_at s off0 tot pre" using sc_rep_receiving [OF rep] n(1) by auto
  have more: "sc_recv_len (sc_stored s d) < sc_recv_total (sc_stored s d) \<longleftrightarrow> length d < n"
    using at n by (auto simp: receiving_at_def sc_stored_def write_buffer_def sc_act_def)
  show ?thesis
  proof (cases "length d < n")
    case True
    then show ?thesis using more st by (simp add: recv_handler_done_eq Let_def)
  next
    case False
    have "sc_state s \<in> {STATE_SENT_HELLO, STATE_SENT_PASSWORD, STATE_SENT_REQUEST, STATE_RECEIVED_REPLY_HEADER}"
      using sc_rep_receiving [OF rep] n(1) by auto
    moreover have "sc_failed (received_hello ra (sc_stored s d)) \<longleftrightarrow>
        \<not> acceptable ais STATE_SENT_HELLO (buffer_bytes (sc_stored s d))"
      using received_hello_verdict [OF ra, of "sc_stored s d"] st dest a by simp
    moreover have "sc_failed (received_password_reply ra (sc_stored s d)) \<longleftrightarrow>
        \<not> acceptable ais STATE_SENT_PASSWORD (buffer_bytes (sc_stored s d))"
      using auth_finished_total [OF ra, of "sc_stored s d"] st dest a
      by (simp add: received_password_reply_def Let_def)
    moreover have "sc_failed (received_reply_header (sc_stored s d)) \<longleftrightarrow>
        \<not> acceptable ais STATE_SENT_REQUEST (buffer_bytes (sc_stored s d))"
      using st by (simp add: received_reply_header_def Let_def)
    moreover have "\<not> sc_failed (received_reply_rest (sc_stored s d))"
      using st by (simp add: received_reply_rest_def Let_def sc_failed_def sc_hist_defs free_control_io_def
          init_up_io_def sc_act_def sc_stored_def write_buffer_def)
    ultimately show ?thesis using more False n(2) by (auto simp: recv_handler_done_eq Let_def)
  qed
qed

subsection \<open>A sample handshake\<close>

definition sample_ra :: "nat \<Rightarrow> byte list option" where
  "sample_ra n = Some (replicate n 0)"

definition sample_init :: BSocksClient where
  "sample_init = \<lparr>sc_auth_info = [BSocksClient_auth_none], sc_dest_addr = BAddrIPv4 1 2, sc_state = STATE_CONNECTING,
        sc_buffer = None, sc_recv_dest = 0, sc_recv_len = 0, sc_recv_total = 0,
        sc_sending = None, sc_receiving = None, sc_log = [ScInit ScConnector]\<rparr>"

abbreviation sample_recv :: "byte list \<Rightarrow> BSocksClient \<Rightarrow> BSocksClient" where
  "sample_recv d s \<equiv> recv_handler_done sample_ra (sc_act (ScGot d) s) d"

definition sample_connected :: BSocksClient where
  "sample_connected = connector_handler sample_ra True sample_init False"

definition sample_hello_sent :: BSocksClient where
  "sample_hello_sent = send_handler_done sample_ra sample_connected"

definition sample_request :: BSocksClient where
  "sample_request = sample_recv [5, 0] sample_hello_sent"

definition sample_request_sent :: BSocksClient where
  "sample_request_sent = send_handler_done sample_ra sample_request"

definition sample_header :: BSocksClient where
  "sample_header = sample_recv [5, 0, 0, 1] sample_request_sent"

definition sample_socks_up :: BSocksClient where
  "sample_socks_up = sample_recv [0, 0, 0, 0, 0, 0] sample_header"

lemma sample_ra_ok: "ra_ok sample_ra"
  by (simp add: ra_ok_def sample_ra_def)

lemma sample_connected_eq:
  "sample_connected = sample_init\<lparr>sc_state := STATE_SENDING_HELLO, sc_buffer := Some [5, 1, 0],
     sc_sending := Some [5, 1, 0], sc_log := [ScInit ScConnector, ScInit ScConnection, ScInit ScControlIO, ScSend [5, 1, 0]]\<rparr>"
  by (simp add: sample_connected_def connector_handler_eq [OF sample_ra_ok] sample_init_def sample_ra_def Let_def
      init_control_io_def sc_act_def sc_send_state_def socks_hello_def)

lemma sample_hello_sent_eq:
  "sample_hello_sent = sample_init\<lparr>sc_state := STATE_SENT_HELLO, sc_buffer := Some [5, 1], sc_recv_total := 2,
     sc_sending := None, sc_receiving := Some (0, 2),
     sc_log := [ScInit ScConnector, ScInit ScConnection, ScInit ScControlIO, ScSend [5, 1, 0]]\<rparr>"
  by (simp add: sample_hello_sent_def sample_connected_eq send_handler_done_def sample_init_def reserve_buffer_def
      bsize_fromsize_def sample_ra_def start_receive_def do_receive_def buffer_bytes_def Let_def)

lemma sample_init_reachable: "sc_reachable sample_ra [BSocksClient_auth_none] (BAddrIPv4 1 2) sample_init"
  by (simp add: sc_reachable_def BSocksClient_Init_def sample_init_def)

lemma sc_reachable_step: "sc_reachable ra ais dest s \<Longrightarrow> sc_step ra s s' \<Longrightarrow> sc_reachable ra ais dest s'"
  unfolding sc_reachable_def by (meson rtranclp.rtrancl_into_rtrancl)

lemma sample_hello_sent_reachable: "sc_reachable sample_ra [BSocksClient_auth_none] (BAddrIPv4 1 2) sample_hello_sent"
proof -
  have "sc_step sample_ra sample_init sample_connected"
    unfolding sample_connected_def
    by (rule sc_connect) (simp_all add: sample_init_def sc_failed_def sc_hist_defs)
  moreover have "sc_step sample_ra sample_connected sample_hello_sent"
    unfolding sample_hello_sent_def
    by (rule sc_step.sc_sent) (simp_all add: sample_connected_eq sample_init_def sc_failed_def sc_hist_defs)
  ultimately show ?thesis using sample_init_reachable by (blast intro: sc_reachable_step)
qed


abbreviation sample_request_bytes :: "byte list" where
  "sample_request_bytes \<equiv> socks_request (BAddrIPv4 1 2)"

lemma sample_request_eq:
  "sample_request = sample_init\<lparr>sc_state := STATE_SENDING_REQUEST, sc_buffer := Some sample_request_bytes, sc_recv_total := 2,
     sc_recv_len := 2, sc_sending := Some sample_request_bytes, sc_receiving := None,
     sc_log := [ScInit ScConnector, ScInit ScConnection, ScInit ScControlIO, ScSend [5, 1, 0], ScGot [5, 0],
       ScSend sample_request_bytes]\<rparr>"
  by (simp add: sample_request_def sample_hello_sent_eq recv_handler_done_def write_buffer_def
      sc_act_def buffer_bytes_def sample_init_def Let_def received_hello_def auth_finished_eq [OF sample_ra_ok]
      BAddr_is_ip_def sample_ra_def sc_send_state_def del: socks_request.simps)

lemma sample_request_length: "length sample_request_bytes = 10"
  by simp

lemma sample_request_sent_eq:
  "\<exists>b. length b = 22 \<and> sample_request_sent = sample_request\<lparr>sc_state := STATE_SENT_REQUEST, sc_buffer := Some b,
     sc_recv_total := 4, sc_recv_len := 0, sc_sending := None, sc_receiving := Some (0, 4)\<rparr>"
proof -
  let ?need = "bsize_add (sz sizeof_socks_reply_header) (bsize_max (sz sizeof_socks_addr_ipv4) (sz sizeof_socks_addr_ipv6))"
  have "bsize_is ?need (4 + max 6 18)"
    using bsize_add_is [OF sz_is [of 4] bsize_max_is [OF sz_is [of 6] sz_is [of 18]]] by simp
  then have need: "bsize_is ?need 22" by simp
  have lt: "(22 :: nat) < 2 ^ 64" by simp
  obtain b where b: "length b = 22" "reserve_buffer sample_ra (sample_request\<lparr>sc_sending := None\<rparr>) ?need =
      Some (sample_request\<lparr>sc_sending := None, sc_buffer := Some b\<rparr>)"
    using reserve_buffer_eq [OF sample_ra_ok need lt, of "sample_request\<lparr>sc_sending := None\<rparr>"]
    by (auto simp: sample_ra_def)
  then show ?thesis
    by (intro exI [of _ b])
      (simp add: sample_request_sent_def send_handler_done_def sample_request_eq sample_init_def start_receive_def
        do_receive_def Let_def)
qed

lemma sample_socks_up_eq:
  "\<exists>b. length b = 22 \<and>
    sample_header = sample_request\<lparr>sc_state := STATE_RECEIVED_REPLY_HEADER, sc_buffer := Some b,
      sc_recv_dest := 4, sc_recv_total := 6, sc_recv_len := 0, sc_sending := None, sc_receiving := Some (4, 6),
      sc_log := sc_log sample_request @ [ScGot [5, 0, 0, 1]]\<rparr> \<and>
    sc_state sample_socks_up = STATE_UP \<and>
    sc_log sample_socks_up = sc_log sample_request @ [ScGot [5, 0, 0, 1], ScGot [0, 0, 0, 0, 0, 0], ScFree ScControlIO,
      ScInit ScUpIO, ScEvent BSOCKSCLIENT_EVENT_UP]"
proof -
  obtain b where b: "length b = 22" "sample_request_sent = sample_request\<lparr>sc_state := STATE_SENT_REQUEST, sc_buffer := Some b,
     sc_recv_total := 4, sc_recv_len := 0, sc_sending := None, sc_receiving := Some (0, 4)\<rparr>"
    using sample_request_sent_eq by blast
  let ?b = "mem_write b 0 [5, 0, 0, 1]"
  have nth: "?b ! 0 = 5" "?b ! 1 = 0" "?b ! 3 = 1" "length ?b = 22"
    using b(1) by (simp_all add: nth_mem_write)
  have hd: "sample_header = sample_request\<lparr>sc_state := STATE_RECEIVED_REPLY_HEADER, sc_buffer := Some ?b,
      sc_recv_dest := 4, sc_recv_total := 6, sc_recv_len := 0, sc_sending := None, sc_receiving := Some (4, 6),
      sc_log := sc_log sample_request @ [ScGot [5, 0, 0, 1]]\<rparr>"
    using nth by (simp add: sample_header_def b(2) recv_handler_done_def write_buffer_def sc_act_def
        buffer_bytes_def sample_request_eq sample_init_def Let_def received_reply_header_def start_receive_def do_receive_def)
  have "sc_state sample_socks_up = STATE_UP \<and>
    sc_log sample_socks_up = sc_log sample_request @ [ScGot [5, 0, 0, 1], ScGot [0, 0, 0, 0, 0, 0], ScFree ScControlIO,
      ScInit ScUpIO, ScEvent BSOCKSCLIENT_EVENT_UP]"
    by (simp add: sample_socks_up_def hd recv_handler_done_def write_buffer_def sc_act_def
        sample_request_eq sample_init_def Let_def received_reply_rest_def free_control_io_def init_up_io_def)
  then show ?thesis using hd nth(4) by blast
qed

lemma sample_socks_up_reachable: "sc_reachable sample_ra [BSocksClient_auth_none] (BAddrIPv4 1 2) sample_socks_up"
proof -
  obtain b where b: "sample_request_sent = sample_request\<lparr>sc_state := STATE_SENT_REQUEST, sc_buffer := Some b,
     sc_recv_total := 4, sc_recv_len := 0, sc_sending := None, sc_receiving := Some (0, 4)\<rparr>"
    using sample_request_sent_eq by blast
  obtain b' where h: "sample_header = sample_request\<lparr>sc_state := STATE_RECEIVED_REPLY_HEADER, sc_buffer := Some b',
      sc_recv_dest := 4, sc_recv_total := 6, sc_recv_len := 0, sc_sending := None, sc_receiving := Some (4, 6),
      sc_log := sc_log sample_request @ [ScGot [5, 0, 0, 1]]\<rparr>"
    using sample_socks_up_eq by blast
  note ev = sample_request_eq sample_init_def sc_failed_def sc_hist_defs
  have "sc_step sample_ra sample_hello_sent sample_request"
    unfolding sample_request_def by (rule sc_recv [of _ 0 2]) (simp_all add: sample_hello_sent_eq ev)
  moreover have "sc_step sample_ra sample_request sample_request_sent"
    unfolding sample_request_sent_def by (rule sc_step.sc_sent) (simp_all add: ev)
  moreover have "sc_step sample_ra sample_request_sent sample_header"
    unfolding sample_header_def by (rule sc_recv [of _ 0 4]) (simp_all add: b ev)
  moreover have "sc_step sample_ra sample_header sample_socks_up"
    unfolding sample_socks_up_def by (rule sc_recv [of _ 4 6]) (simp_all add: h ev)
  ultimately show ?thesis using sample_hello_sent_reachable by (blast intro: sc_reachable_step)
qed

subsection \<open>Properties\<close>

text \<open>C7: The client reports that it is up only after a complete SOCKS5 handshake: it sent exactly the
  hello, the password message if that method was chosen, and the request for the destination, and
  received exactly the server's answers to them, not a byte of the data that follows.\<close>

theorem socks_up_after_handshake:
  assumes "sc_reachable ra ais dest s" "ra_ok ra" "BAddr_is_ip dest" "BAddr_wf dest"
    and "BSOCKSCLIENT_EVENT_UP \<in> set (sc_events s)"
  shows "handshake_done ais dest (sc_sent s) (sc_got s)"
  using sc_reachable_inv [OF assms(1-4)] assms(5) by (simp add: sc_inv_def)

theorem socks_up_after_handshake_witness:
  "handshake_done [BSocksClient_auth_none] (BAddrIPv4 1 2) (sc_sent sample_socks_up) (sc_got sample_socks_up)"
proof (rule socks_up_after_handshake [OF sample_socks_up_reachable sample_ra_ok])
  show "BSOCKSCLIENT_EVENT_UP \<in> set (sc_events sample_socks_up)"
    using sample_socks_up_eq by (auto simp: sc_events_def)
qed (simp_all add: BAddr_is_ip_def)

text \<open>\<open>BSocksClient_Free\<close> leaves nothing behind: in every reachable state, failed or not, it releases
  exactly the connector, connection and interfaces that are held, each as often as it was acquired,
  and the buffer.\<close>

theorem socks_free_releases_all:
  assumes "sc_reachable ra ais dest s" "ra_ok ra" "BAddr_is_ip dest" "BAddr_wf dest"
  shows "count_list (sc_log (BSocksClient_Free s)) (ScInit r) = count_list (sc_log (BSocksClient_Free s)) (ScFree r) \<and>
    sc_buffer (BSocksClient_Free s) = None"
proof -
  have "count_list (sc_log s) (ScInit r) = count_list (sc_log s) (ScFree r) + sc_held (sc_state s) r"
    using sc_reachable_inv [OF assms] by (simp add: sc_inv_def sc_balanced_def)
  then show ?thesis
    by (cases r; cases "sc_state s")
      (simp_all add: BSocksClient_Free_def Let_def free_up_io_def free_control_io_def sc_act_def)
qed

theorem socks_free_releases_all_witness:
  "count_list (sc_log (BSocksClient_Free sample_socks_up)) (ScInit ScUpIO) = count_list (sc_log (BSocksClient_Free sample_socks_up)) (ScFree ScUpIO) \<and>
    sc_buffer (BSocksClient_Free sample_socks_up) = None"
  by (rule socks_free_releases_all [OF sample_socks_up_reachable sample_ra_ok]) (simp_all add: BAddr_is_ip_def)

text \<open>Memory: a pending receive lies inside the allocated buffer and has room for a byte, and a
  packet being sent is the unchanged content of the buffer it is sent from.\<close>

theorem socks_io_inside_buffer:
  assumes "sc_reachable ra ais dest s" "ra_ok ra" "BAddr_is_ip dest" "BAddr_wf dest" "\<not> sc_failed s"
  shows "(\<forall>off n. sc_receiving s = Some (off, n) \<longrightarrow> 0 < n \<and> off + n \<le> length (buffer_bytes s)) \<and>
    (\<forall>p. sc_sending s = Some p \<longrightarrow> sc_buffer s = Some p)"
proof -
  have "sc_rep ais dest s (sc_state s)" using sc_reachable_inv [OF assms(1-4)] assms(5) by (simp add: sc_inv_def)
  then show ?thesis
    by (cases "sc_state s") (auto simp: receiving_at_def sending_packet_def buffer_bytes_def)
qed

theorem socks_io_inside_buffer_witness: "0 < (2 :: nat) \<and> 0 + 2 \<le> length (buffer_bytes sample_hello_sent)"
proof -
  have "\<not> sc_failed sample_hello_sent" by (simp add: sample_hello_sent_eq sample_init_def sc_failed_def sc_hist_defs)
  moreover have "sc_receiving sample_hello_sent = Some (0, 2)" by (simp add: sample_hello_sent_eq)
  ultimately show ?thesis
    using socks_io_inside_buffer [OF sample_hello_sent_reachable sample_ra_ok] by (auto simp: BAddr_is_ip_def)
qed


text \<open>C21: With memory available the client fails on an incoming segment exactly when it completes a
  message that is not acceptable: a wrong version, a method that was not offered or has unusable
  credentials, a negative password answer, an unsuccessful reply or an unknown address type.\<close>

theorem socks_refuses_iff_bad_message:
  assumes "sc_reachable ra ais dest s" "ra_total ra" "BAddr_is_ip dest" "BAddr_wf dest" "\<not> sc_failed s"
    and "sc_receiving s = Some (off, n)" "length d \<le> n"
  shows "sc_failed (recv_handler_done ra (sc_act (ScGot d) s) d) \<longleftrightarrow>
    length d = n \<and> \<not> acceptable ais (sc_state s) (buffer_bytes (sc_stored s d))"
  using recv_verdict [OF sc_reachable_inv [OF assms(1) ra_total_ok [OF assms(2)] assms(3,4)] assms(5,2,3,4,6,7)] .

theorem socks_refuses_iff_bad_message_witness:
  "sc_failed (recv_handler_done sample_ra (sc_act (ScGot [5, 9]) sample_hello_sent) [5, 9])"
proof -
  have t: "ra_total sample_ra" by (simp add: ra_total_def sample_ra_def)
  have f: "\<not> sc_failed sample_hello_sent" by (simp add: sample_hello_sent_eq sample_init_def sc_failed_def sc_hist_defs)
  have r: "sc_receiving sample_hello_sent = Some (0, 2)" by (simp add: sample_hello_sent_eq)
  have "buffer_bytes (sc_stored sample_hello_sent [5, 9]) = [5, 9]" "sc_state sample_hello_sent = STATE_SENT_HELLO"
    by (simp_all add: sc_stored_def sample_hello_sent_eq sample_init_def write_buffer_def buffer_bytes_def sc_act_def)
  then show ?thesis
    using socks_refuses_iff_bad_message [OF sample_hello_sent_reachable t _ _ f r, of "[5, 9]"]
    by (simp add: BAddr_is_ip_def)
qed


subsection \<open>Running against a server\<close>

text \<open>
  The client runs: a pending send completes, a pending receive gets the next bytes of the server's
  stream \<open>str\<close>, \<open>1 + k i\<close> of them in the round with \<open>i\<close> more rounds of fuel (at most what was asked for
  and what there is). It stops when it is up, failed or out of data.
\<close>

fun socks_run :: "(nat \<Rightarrow> byte list option) \<Rightarrow> (nat \<Rightarrow> nat) \<Rightarrow> nat \<Rightarrow> BSocksClient \<Rightarrow> byte list \<Rightarrow> BSocksClient \<times> byte list" where
  "socks_run ra k 0 s str = (s, str)"
| "socks_run ra k (Suc i) s str =
     (if sc_failed s \<or> sc_state s = STATE_UP then (s, str)
      else if sc_sending s \<noteq> None then socks_run ra k i (send_handler_done ra s) str
      else case sc_receiving s of
        None \<Rightarrow> (s, str)
      | Some (off, n) \<Rightarrow>
          if str = [] then (s, str)
          else
            let d = take (min n (1 + k i)) str in
            socks_run ra k i (recv_handler_done ra (sc_act (ScGot d) s) d) (drop (length d) str))"

lemma auth_prefix_free:
  assumes "auth_done ais s1 g1" "auth_done ais s2 g2" "g1 @ x = g2 @ y"
  shows "g1 = g2 \<and> s1 = s2 \<and> x = y"
  using assms by (elim auth_done_def [THEN iffD1, elim_format] disjE exE conjE) (simp_all add: pw_chosen_def)

lemma reply_prefix_free:
  assumes "reply_ok r1" "reply_ok r2" "r1 @ x = r2 @ y"
  shows "r1 = r2 \<and> x = y"
  using assms by (elim reply_ok_def [THEN iffD1, elim_format] disjE exE conjE) simp_all

lemma handshake_parts:
  assumes "handshake_done ais dest sent got"
  obtains s0 g0 r where "auth_done ais s0 g0" "reply_ok r" "sent = s0 @ [socks_request dest]" "got = g0 @ r"
  using assms by (auto simp: handshake_done_def request_done_def)

lemma handshake_prefix_free:
  assumes "handshake_done ais dest sent got" "handshake_done ais dest sent' got'" "got @ x = got' @ y"
  shows "got = got' \<and> sent = sent' \<and> x = y"
proof -
  obtain s0 g0 r where 1: "auth_done ais s0 g0" "reply_ok r" "sent = s0 @ [socks_request dest]" "got = g0 @ r"
    using handshake_parts [OF assms(1)] .
  obtain s0' g0' r' where 2: "auth_done ais s0' g0'" "reply_ok r'" "sent' = s0' @ [socks_request dest]" "got' = g0' @ r'"
    using handshake_parts [OF assms(2)] .
  have a: "g0 = g0' \<and> s0 = s0' \<and> r @ x = r' @ y"
    by (rule auth_prefix_free [OF 1(1) 2(1)]) (use assms(3) 1 2 in simp)
  then show ?thesis using reply_prefix_free [OF 1(2) 2(2)] 1 2 by auto
qed

lemma reply_length: "reply_ok r \<Longrightarrow> 10 \<le> length r"
  by (auto simp: reply_ok_def)

lemma find_auth_none: "find_auth ais 0 = Some ai \<Longrightarrow> ai = BSocksClient_auth_none"
  using find_auth_type [of ais 0 ai] by (cases ai) simp_all

text \<open>The answers of a compliant server are acceptable.\<close>

lemma compliant_hello:
  assumes "handshake_done ais dest sent got" "got @ rest = [b ! 0, b ! 1] @ str"
  shows "acceptable ais STATE_SENT_HELLO b"
proof -
  obtain s0 g0 r where 1: "auth_done ais s0 g0" "got = g0 @ r" using handshake_parts [OF assms(1)] by metis
  show ?thesis using 1 assms(2) by (auto simp: auth_done_def pw_chosen_def)
qed

lemma compliant_password:
  assumes "handshake_done ais dest sent got" "got @ rest = [5, 2, b ! 0, b ! 1] @ str"
  shows "acceptable ais STATE_SENT_PASSWORD b"
proof -
  obtain s0 g0 r where 1: "auth_done ais s0 g0" "got = g0 @ r" using handshake_parts [OF assms(1)] by metis
  show ?thesis using 1 assms(2) by (auto simp: auth_done_def)
qed

lemma compliant_reply:
  assumes "handshake_done ais dest sent got" "request_done ais dest sent' g"
    "got @ rest = (g @ [b ! 0, b ! 1, b ! 2, b ! 3]) @ str"
  shows "acceptable ais STATE_SENT_REQUEST b"
proof -
  obtain s0 g0 r where 1: "auth_done ais s0 g0" "reply_ok r" "got = g0 @ r" using handshake_parts [OF assms(1)] by metis
  obtain s1 where 2: "auth_done ais s1 g" using assms(2) by (auto simp: request_done_def)
  have "r @ rest = [b ! 0, b ! 1, b ! 2, b ! 3] @ str"
    using auth_prefix_free [OF 1(1) 2, of "r @ rest"] 1(3) assms(3) by simp
  then show ?thesis using 1(2) by (auto simp: reply_ok_def)
qed

text \<open>While a message is incomplete, the server's stream is not used up.\<close>

lemma receiving_not_exhausted:
  assumes h: "handshake_done ais dest sent got" and rep: "sc_rep ais dest s (sc_state s)" and r: "sc_receiving s \<noteq> None"
  shows "sc_got s \<noteq> got @ rest"
proof
  assume eq: "sc_got s = got @ rest"
  obtain s0 g0 r0 where 1: "auth_done ais s0 g0" "reply_ok r0" "got = g0 @ r0" using handshake_parts [OF h] by metis
  have g0: "g0 = [5, 0] \<or> g0 = [5, 2, 1, 0]" using 1(1) by (auto simp: auth_done_def)
  have len: "12 \<le> length got" using reply_length [OF 1(2)] g0 1(3) by auto
  have short: "length (sc_got s) < length pre + tot" if "receiving_at s off tot pre" for off tot pre
    using that by (auto simp: receiving_at_def mem_read_def)
  have late: False if la: "request_done ais dest (sc_sent s) g" "receiving_at s off tot (g @ h)"
      "length h + tot \<le> 4 \<or> (\<exists>rsv. (h = [5, 0, rsv, 1] \<and> tot = 6) \<or> (h = [5, 0, rsv, 4] \<and> tot = 18))" for g off tot h
  proof -
    obtain s1 where 2: "auth_done ais s1 g" using la(1) by (auto simp: request_done_def)
    obtain m where m: "sc_got s = (g @ h) @ m" "length m < tot"
      using la(2) by (auto simp: receiving_at_def mem_read_def)
    then have e: "r0 @ rest = h @ m"
      using auth_prefix_free [OF 1(1) 2, of "r0 @ rest"] 1(3) eq by simp
    then have le: "length r0 \<le> length h + length m" by (metis le_add1 length_append)
    show False
      using la(3)
    proof
      assume "length h + tot \<le> 4"
      then show False using le m(2) reply_length [OF 1(2)] by linarith
    next
      assume "\<exists>rsv. (h = [5, 0, rsv, 1] \<and> tot = 6) \<or> (h = [5, 0, rsv, 4] \<and> tot = 18)"
      then show False using e le m(2) 1(2) by (auto simp: reply_ok_def)
    qed
  qed
  have st: "sc_state s \<in> {STATE_SENT_HELLO, STATE_SENT_PASSWORD, STATE_SENT_REQUEST, STATE_RECEIVED_REPLY_HEADER}"
    using sc_rep_receiving [OF rep r] by simp
  show False
  proof (cases "sc_state s = STATE_SENT_REQUEST \<or> sc_state s = STATE_RECEIVED_REPLY_HEADER")
    case False
    then have "(\<exists>pre. receiving_at s 0 2 pre \<and> length pre \<le> 2)" using rep st by auto
    then show False using short len eq by fastforce
  next
    case True
    then show False
    proof
      assume q: "sc_state s = STATE_SENT_REQUEST"
      then obtain g where "request_done ais dest (sc_sent s) g" "receiving_at s 0 4 (g @ [])" using rep by auto
      from late [OF this] show False by simp
    next
      assume q: "sc_state s = STATE_RECEIVED_REPLY_HEADER"
      then obtain g rsv where g: "request_done ais dest (sc_sent s) g"
          "receiving_at s 4 6 (g @ [5, 0, rsv, 1]) \<or> receiving_at s 4 18 (g @ [5, 0, rsv, 4])" using rep by auto
      from g(2) show False using late [OF g(1)] by blast
    qed
  qed
qed


text \<open>Rounds that are still needed besides one per byte of the stream.\<close>

fun sends_left :: "socks_state \<Rightarrow> nat" where
  "sends_left STATE_CONNECTING = 4"
| "sends_left STATE_SENDING_HELLO = 3"
| "sends_left STATE_SENT_HELLO = 2"
| "sends_left STATE_SENDING_PASSWORD = 2"
| "sends_left STATE_SENT_PASSWORD = 1"
| "sends_left STATE_SENDING_REQUEST = 1"
| "sends_left STATE_SENT_REQUEST = 0"
| "sends_left STATE_RECEIVED_REPLY_HEADER = 0"
| "sends_left STATE_UP = 0"

definition sc_on_track :: "BSocksClient_auth_info list \<Rightarrow> BAddr \<Rightarrow> byte list \<Rightarrow> BSocksClient \<Rightarrow> byte list \<Rightarrow> bool" where
  "sc_on_track ais dest all s str \<longleftrightarrow> sc_inv ais dest s \<and> \<not> sc_failed s \<and> sc_state s \<noteq> STATE_CONNECTING \<and> sc_got s @ str = all"

lemma send_done_progress:
  assumes ra: "ra_total ra" and t: "sc_on_track ais dest all s str" and snd: "sc_sending s \<noteq> None"
  shows "sc_on_track ais dest all (send_handler_done ra s) str \<and>
    sends_left (sc_state (send_handler_done ra s)) < sends_left (sc_state s)"
proof -
  have inv: "sc_inv ais dest s" and nf: "\<not> sc_failed s" and rep: "sc_rep ais dest s (sc_state s)"
    using t by (simp_all add: sc_on_track_def sc_inv_def)
  have res: "\<exists>b. reserve_buffer ra s' need = Some (s'\<lparr>sc_buffer := Some b\<rparr>)" if "bsize_is need n" "n < 2 ^ 64" for s' need n
  proof -
    obtain blk where "ra n = Some blk" using ra unfolding ra_total_def by blast
    then show ?thesis using reserve_buffer_eq [OF ra_total_ok [OF ra] that, of s'] by auto
  qed
  let ?need = "bsize_add (sz sizeof_socks_reply_header) (bsize_max (sz sizeof_socks_addr_ipv4) (sz sizeof_socks_addr_ipv6))"
  have "bsize_is ?need (4 + max 6 18)"
    using bsize_add_is [OF sz_is [of 4] bsize_max_is [OF sz_is [of 6] sz_is [of 18]]] by simp
  then have n22: "bsize_is ?need 22" by simp
  obtain b1 where b1: "reserve_buffer ra (s\<lparr>sc_sending := None\<rparr>) ?need = Some (s\<lparr>sc_sending := None, sc_buffer := Some b1\<rparr>)"
    using res [OF n22] by fastforce
  obtain b2 where b2: "reserve_buffer ra (s\<lparr>sc_sending := None\<rparr>) (sz 2) = Some (s\<lparr>sc_sending := None, sc_buffer := Some b2\<rparr>)"
    using res [OF sz_is [of 2]] by fastforce
  have fin: "\<not> sc_failed (send_handler_done ra s) \<and> sc_got (send_handler_done ra s) = sc_got s \<and>
      sc_state (send_handler_done ra s) \<noteq> STATE_CONNECTING \<and>
      sends_left (sc_state (send_handler_done ra s)) < sends_left (sc_state s)"
    using rep snd nf b1 b2
    by (cases "sc_state s")
      (simp_all add: send_handler_done_def Let_def receiving_at_def sc_failed_def sc_hist_defs
        start_receive_def do_receive_def)
  then show ?thesis
    using t sent_inv [OF inv nf snd ra_total_ok [OF ra]] by (simp add: sc_on_track_def)
qed


lemma recv_state:
  assumes ra: "ra_total ra" and dest: "BAddr_is_ip (sc_dest_addr s)" "BAddr_wf (sc_dest_addr s)"
    and st: "sc_state s \<in> {STATE_SENT_HELLO, STATE_SENT_PASSWORD, STATE_SENT_REQUEST, STATE_RECEIVED_REPLY_HEADER}"
  shows "sends_left (sc_state (recv_handler_done ra (sc_act (ScGot d) s) d)) \<le> sends_left (sc_state s) \<and>
    sc_state (recv_handler_done ra (sc_act (ScGot d) s) d) \<noteq> STATE_CONNECTING"
proof -
  let ?s = "sc_stored s d"
  have err: "sc_state (report_error ev s') = sc_state s'" for ev s' by (simp add: report_error_def sc_act_def)
  have af: "sc_state (auth_finished ra ?s) = STATE_SENDING_REQUEST"
    using auth_finished_total [OF ra, of ?s] dest by simp
  have "sc_state (received_hello ra ?s) \<in> {sc_state s, STATE_SENDING_REQUEST, STATE_SENDING_PASSWORD}"
  proof (cases "buffer_bytes ?s ! 0 = 5")
    case v: True
    show ?thesis
    proof (cases "find_auth (sc_auth_info ?s) (buffer_bytes ?s ! 1)")
      case None
      then show ?thesis using v by (simp add: received_hello_def Let_def err)
    next
      case (Some ai)
      show ?thesis
      proof (cases ai)
        case BSocksClient_auth_none
        then show ?thesis using v Some af by (simp add: received_hello_def Let_def)
      next
        case (BSocksClient_auth_password u p)
        show ?thesis
          using received_hello_password_eq [OF ra_total_ok [OF ra] v] Some BSocksClient_auth_password by (simp add: err)
      qed
    qed
  qed (simp add: received_hello_def Let_def err)
  moreover have "sc_state (received_password_reply ra ?s) \<in> {sc_state s, STATE_SENDING_REQUEST}"
    using af by (simp add: received_password_reply_def Let_def err)
  moreover have "sc_state (received_reply_header ?s) \<in> {sc_state s, STATE_RECEIVED_REPLY_HEADER}"
    by (simp add: received_reply_header_def Let_def err)
  moreover have "sc_state (received_reply_rest ?s) = STATE_UP"
    by (simp add: received_reply_rest_def Let_def sc_act_def init_up_io_def)
  ultimately show ?thesis using st by (auto simp: recv_handler_done_eq Let_def)
qed

lemma stored_got_log: "sc_got (recv_handler_done ra (sc_act (ScGot d) s) d) = sc_got s @ d" if
  "ra_total ra" "BAddr_is_ip (sc_dest_addr s)" "BAddr_wf (sc_dest_addr s)"
proof -
  let ?s = "sc_stored s d"
  have err: "sc_got (report_error ev s') = sc_got s'" for ev s' by (simp add: report_error_def sc_act_def sc_hist_defs)
  have af: "sc_got (auth_finished ra ?s) = sc_got s @ d"
    using auth_finished_total [OF that(1), of ?s] that by simp
  have "sc_got (received_hello ra ?s) = sc_got s @ d"
  proof (cases "buffer_bytes ?s ! 0 = 5")
    case v: True
    show ?thesis
    proof (cases "find_auth (sc_auth_info ?s) (buffer_bytes ?s ! 1)")
      case None
      then show ?thesis using v by (simp add: received_hello_def Let_def err)
    next
      case (Some ai)
      show ?thesis
      proof (cases ai)
        case BSocksClient_auth_none
        then show ?thesis using v Some af by (simp add: received_hello_def Let_def)
      next
        case (BSocksClient_auth_password u p)
        show ?thesis
          using received_hello_password_eq [OF ra_total_ok [OF that(1)] v] Some BSocksClient_auth_password by (simp add: err)
      qed
    qed
  qed (simp add: received_hello_def Let_def err)
  moreover have "sc_got (received_password_reply ra ?s) = sc_got s @ d"
    using af by (simp add: received_password_reply_def Let_def err)
  moreover have "sc_got ((start_receive s' off n)\<lparr>sc_state := st\<rparr>) = sc_got s'" for s' off n st
    by (simp add: start_receive_def do_receive_def sc_hist_defs)
  then have "sc_got (received_reply_header ?s) = sc_got s @ d"
    by (simp add: received_reply_header_def Let_def err)
  moreover have "sc_got (received_reply_rest ?s) = sc_got ?s"
    by (simp add: received_reply_rest_def Let_def sc_act_def init_up_io_def free_control_io_def sc_hist_defs)
  ultimately show ?thesis
    by (cases "sc_state ?s") (simp_all add: recv_handler_done_eq Let_def)
qed

lemma recv_progress:
  assumes ra: "ra_total ra" and dest: "BAddr_is_ip dest" "BAddr_wf dest"
    and h: "handshake_done ais dest sent got" and t: "sc_on_track ais dest (got @ rest) s str"
    and r: "sc_receiving s = Some (off, n)" "length d \<le> n" "str = d @ str'"
  shows "sc_on_track ais dest (got @ rest) (recv_handler_done ra (sc_act (ScGot d) s) d) str' \<and>
    sends_left (sc_state (recv_handler_done ra (sc_act (ScGot d) s) d)) \<le> sends_left (sc_state s)"
proof -
  let ?s' = "recv_handler_done ra (sc_act (ScGot d) s) d"
  have inv: "sc_inv ais dest s" and nf: "\<not> sc_failed s" and rep: "sc_rep ais dest s (sc_state s)"
    and d: "sc_dest_addr s = dest" and all: "sc_got s @ d @ str' = got @ rest"
    using t r(3) by (simp_all add: sc_on_track_def sc_inv_def)
  have st: "sc_state s \<in> {STATE_SENT_HELLO, STATE_SENT_PASSWORD, STATE_SENT_REQUEST, STATE_RECEIVED_REPLY_HEADER}"
    using sc_rep_receiving [OF rep] r(1) by auto
  have full: "\<not> sc_recv_len (sc_stored s d) < sc_recv_total (sc_stored s d)" if "length d = n" "receiving_at s off0 tot pre" for off0 tot pre
    using that r(1) by (auto simp: receiving_at_def sc_stored_def write_buffer_def sc_act_def)
  have "acceptable ais (sc_state s) (buffer_bytes (sc_stored s d))" if l: "length d = n"
  proof -
    consider (hello) "sc_state s = STATE_SENT_HELLO" | (pw) "sc_state s = STATE_SENT_PASSWORD"
      | (req) "sc_state s = STATE_SENT_REQUEST" | (rest) "sc_state s = STATE_RECEIVED_REPLY_HEADER"
      using st by auto
    then show ?thesis
    proof cases
      case hello
      then have at: "receiving_at s 0 2 []" using rep by simp
      obtain b where b: "buffer_bytes (sc_stored s d) = b" "0 + 2 \<le> length b" "sc_got (sc_stored s d) = [] @ mem_read b 0 2"
        using recv_done_at [OF at r(1,2) full [OF l at]] by metis
      have "got @ rest = [b ! 0, b ! 1] @ str'"
        using all b(3) take2_eq [of b] b(2) by (simp add: append_assoc [symmetric] del: append_assoc)
      then show ?thesis using compliant_hello [OF h] hello b(1) by simp
    next
      case pw
      then have at: "receiving_at s 0 2 [5, 2]" using rep by auto
      obtain b where b: "buffer_bytes (sc_stored s d) = b" "0 + 2 \<le> length b" "sc_got (sc_stored s d) = [5, 2] @ mem_read b 0 2"
        using recv_done_at [OF at r(1,2) full [OF l at]] by metis
      have "got @ rest = [5, 2, b ! 0, b ! 1] @ str'"
        using all b(3) take2_eq [of b] b(2) by (simp add: append_assoc [symmetric] del: append_assoc)
      then show ?thesis using compliant_password [OF h] pw b(1) by simp
    next
      case req
      then obtain g where g: "request_done ais dest (sc_sent s) g" and at: "receiving_at s 0 4 g" using rep by auto
      obtain b where b: "buffer_bytes (sc_stored s d) = b" "0 + 4 \<le> length b" "sc_got (sc_stored s d) = g @ mem_read b 0 4"
        using recv_done_at [OF at r(1,2) full [OF l at]] by metis
      have "got @ rest = (g @ [b ! 0, b ! 1, b ! 2, b ! 3]) @ str'"
        using all b(3) take4_eq [of b] b(2) by (simp add: append_assoc [symmetric] del: append_assoc)
      then show ?thesis using compliant_reply [OF h g] req b(1) by simp
    qed simp
  qed
  then have "\<not> sc_failed ?s'" using recv_verdict [OF inv nf ra dest r(1,2)] by simp
  moreover have "sc_inv ais dest ?s'" by (rule recv_inv [OF inv nf ra_total_ok [OF ra] dest r(1,2)])
  moreover have "sc_got ?s' @ str' = got @ rest" using all stored_got_log [OF ra, of s d] dest d by simp
  ultimately show ?thesis using recv_state [OF ra, of s d] dest d st by (simp add: sc_on_track_def)
qed

lemma round_le: "a' \<le> a \<Longrightarrow> 0 < d \<Longrightarrow> d \<le> l \<Longrightarrow> a + l \<le> Suc i \<Longrightarrow> a' + (l - d) \<le> i" for a a' d l i :: nat
  by arith

lemma socks_run_completes:
  assumes ra: "ra_total ra" and dest: "BAddr_is_ip dest" "BAddr_wf dest" and h: "handshake_done ais dest sent got"
  shows "sc_on_track ais dest (got @ rest) s str \<Longrightarrow> sends_left (sc_state s) + length str \<le> i \<Longrightarrow>
    \<exists>s'. socks_run ra k i s str = (s', rest) \<and> sc_state s' = STATE_UP \<and> \<not> sc_failed s' \<and> sc_sent s' = sent"
proof (induction i arbitrary: s str)
  case 0
  have up: "sc_state s = STATE_UP"
  proof (rule ccontr)
    assume n: "sc_state s \<noteq> STATE_UP"
    have rep: "sc_rep ais dest s (sc_state s)" using 0 by (simp add: sc_on_track_def sc_inv_def)
    have "sc_receiving s \<noteq> None"
      using rep 0 n by (cases "sc_state s") (auto simp: receiving_at_def)
    from receiving_not_exhausted [OF h rep this] show False using 0 by (simp add: sc_on_track_def)
  qed
  have "sc_inv ais dest s" using 0 by (simp add: sc_on_track_def)
  with up have hd: "handshake_done ais dest (sc_sent s) (sc_got s)" by (simp add: sc_inv_def)
  have "sc_got s @ str = got @ rest" using 0 by (simp add: sc_on_track_def)
  from handshake_prefix_free [OF hd h this] show ?case using 0 up by (simp add: sc_on_track_def)
next
  case (Suc i)
  have inv: "sc_inv ais dest s" and nf: "\<not> sc_failed s" and rep: "sc_rep ais dest s (sc_state s)"
    using Suc.prems by (simp_all add: sc_on_track_def sc_inv_def)
  consider (up) "sc_state s = STATE_UP" | (snd) "sc_state s \<noteq> STATE_UP" "sc_sending s \<noteq> None"
    | (rcv) "sc_state s \<noteq> STATE_UP" "sc_sending s = None" by blast
  then show ?case
  proof cases
    case up
    then have hd: "handshake_done ais dest (sc_sent s) (sc_got s)" using inv by (simp add: sc_inv_def)
    have "sc_got s @ str = got @ rest" using Suc.prems by (simp add: sc_on_track_def)
    from handshake_prefix_free [OF hd h this] show ?thesis using up nf by simp
  next
    case snd
    note p = send_done_progress [OF ra Suc.prems(1) snd(2)]
    have "\<exists>s'. socks_run ra k i (send_handler_done ra s) str = (s', rest) \<and> sc_state s' = STATE_UP \<and>
        \<not> sc_failed s' \<and> sc_sent s' = sent"
      using p Suc.prems(2) by (intro Suc.IH) auto
    then show ?thesis using snd nf by simp
  next
    case rcv
    have "sc_receiving s \<noteq> None"
      using rep rcv Suc.prems(1) by (cases "sc_state s") (auto simp: receiving_at_def sending_packet_def sc_on_track_def)
    then obtain off n where r: "sc_receiving s = Some (off, n)" by auto
    have ne: "str \<noteq> []"
      using receiving_not_exhausted [OF h rep, of rest] r Suc.prems(1) by (auto simp: sc_on_track_def)
    have n: "0 < n" using rep r by (cases "sc_state s") (auto simp: receiving_at_def sending_packet_def)
    let ?d = "take (min n (1 + k i)) str"
    have d: "length ?d \<le> n" "str = ?d @ drop (length ?d) str" "0 < length ?d"
      using ne n by (simp_all add: min_def)
    note p = recv_progress [OF ra dest h Suc.prems(1) r d(1,2)]
    have "\<exists>s'. socks_run ra k i (recv_handler_done ra (sc_act (ScGot ?d) s) ?d) (drop (length ?d) str) = (s', rest) \<and>
        sc_state s' = STATE_UP \<and> \<not> sc_failed s' \<and> sc_sent s' = sent"
    proof (rule Suc.IH)
      show "sc_on_track ais dest (got @ rest) (recv_handler_done ra (sc_act (ScGot ?d) s) ?d) (drop (length ?d) str)"
        using p by blast
      show "sends_left (sc_state (recv_handler_done ra (sc_act (ScGot ?d) s) ?d)) + length (drop (length ?d) str) \<le> i"
        unfolding length_drop by (rule round_le [OF _ d(3) _ Suc.prems(2)]) (use p in simp_all)
    qed
    then show ?thesis using rcv nf r ne by (simp add: Let_def)
  qed
qed


lemma connected_on_track:
  assumes ra: "ra_total ra" and dest: "BAddr_is_ip dest" "BAddr_wf dest"
    and ais: "ais \<noteq> []" "length ais \<le> 255" and i: "BSocksClient_Init ais dest True = Some s0"
  shows "sc_on_track ais dest str (connector_handler ra True s0 False) str \<and>
    sends_left (sc_state (connector_handler ra True s0 False)) = 3"
proof -
  have s0: "sc_state s0 = STATE_CONNECTING" "sc_auth_info s0 = ais" "sc_log s0 = [ScInit ScConnector]"
    using i by (auto simp: BSocksClient_Init_def)
  have nf: "\<not> sc_failed s0" "sc_got s0 = []" by (simp_all add: sc_failed_def sc_hist_defs s0)
  have "ra (2 + length ais) \<noteq> None" using ra unfolding ra_total_def by (metis option.distinct(1))
  then have c: "connector_handler ra True s0 False =
      sc_send_state (init_control_io (sc_act (ScInit ScConnection) s0)) (socks_hello ais) STATE_SENDING_HELLO"
    using connector_handler_eq [OF ra_total_ok [OF ra], of True s0 False] ais s0 by (auto simp: Let_def)
  have "sc_inv ais dest (connector_handler ra True s0 False)"
    by (rule connect_inv [OF sc_init_inv [OF i] s0(1) nf(1) ra_total_ok [OF ra]])
  moreover have "\<not> sc_failed (connector_handler ra True s0 False)" "sc_got (connector_handler ra True s0 False) = []"
    using nf by (simp_all add: c sc_failed_def sc_hist_defs init_control_io_def sc_act_def sc_send_state_def)
  ultimately show ?thesis by (simp add: sc_on_track_def c)
qed

text \<open>C6: Suppose memory is always available, and the server chooses a method that was offered, accepts the
  credentials and accepts the request with a reply whose bound address is IPv4 or IPv6 (for a domain name, address
  type 3, which RFC 1928 also allows, the client fails instead). Then the client
  comes up, however the server's bytes are cut into segments: after at most one round per byte and three
  sends it is up, has sent exactly the client's side of that handshake, and has left every byte after it.\<close>

theorem socks_handshake_completes:
  assumes "ra_total ra" "BAddr_is_ip dest" "BAddr_wf dest" "ais \<noteq> []" "length ais \<le> 255"
    and "BSocksClient_Init ais dest True = Some s0" "handshake_done ais dest sent got"
    and "3 + length got + length rest \<le> fuel"
  shows "\<exists>s'. socks_run ra k fuel (connector_handler ra True s0 False) (got @ rest) = (s', rest) \<and>
    sc_state s' = STATE_UP \<and> \<not> sc_failed s' \<and> sc_sent s' = sent"
proof -
  note t = connected_on_track [OF assms(1-6), of "got @ rest"]
  show ?thesis
    by (rule socks_run_completes [OF assms(1-3,7)]) (use t assms(8) in auto)
qed

lemma sample_handshake:
  "handshake_done [BSocksClient_auth_none] (BAddrIPv4 1 2) [[5, 1, 0], sample_request_bytes] [5, 0, 5, 0, 0, 1, 9, 9, 9, 9, 9, 9]"
proof -
  have "request_done [BSocksClient_auth_none] (BAddrIPv4 1 2) [[5, 1, 0], sample_request_bytes] [5, 0]"
    unfolding request_done_def by (intro exI [of _ "[[5, 1, 0]]"]) (simp add: auth_done_def socks_hello_def)
  moreover have "reply_ok [5, 0, 0, 1, 9, 9, 9, 9, 9, 9]" by (simp add: reply_ok_def)
  ultimately show ?thesis
    unfolding handshake_done_def
    by (intro exI [of _ "[5, 0]"] exI [of _ "[5, 0, 0, 1, 9, 9, 9, 9, 9, 9]"]) simp
qed

theorem socks_handshake_completes_witness:
  "\<exists>s'. socks_run sample_ra (\<lambda>i. 0) 17 (connector_handler sample_ra True sample_init False)
      ([5, 0, 5, 0, 0, 1, 9, 9, 9, 9, 9, 9] @ [7, 7]) = (s', [7, 7]) \<and>
    sc_state s' = STATE_UP \<and> \<not> sc_failed s' \<and> sc_sent s' = [[5, 1, 0], sample_request_bytes]"
  by (rule socks_handshake_completes [OF _ _ _ _ _ _ sample_handshake])
    (simp_all add: BAddr_is_ip_def ra_total_def sample_ra_def BSocksClient_Init_def sample_init_def)

end
