(* ===== verification/SocksUdpGw.thy ===== *)
theory SocksUdpGw
  imports BSocksClient PacketBuffer
begin

text \<open>
  tun2socks/SocksUdpGwClient.c as it is built for Android (\<open>ANDROID_UDP\<close>): UDP datagrams of the device
  are relayed through a SOCKS server, one local UDP socket per pair of a local and a remote address.
  The connections are objects in a heap (\<open>gw_heap\<close>, from the addresses \<open>malloc\<close> returns), indexed by
  the tree \<open>connections_tree\<close> and ordered by use in \<open>connections_list\<close>. The tree (structure/BAVL.h) is a
  map from the address pair: its comparator is 0 exactly on equal pairs.
\<close>

subsection \<open>protocol/udpgw\_proto.h\<close>

definition sizeof_socks_udp_header :: nat where "sizeof_socks_udp_header = 4"
definition sizeof_udpgw_addr_ipv4 :: nat where "sizeof_udpgw_addr_ipv4 = 6"
definition sizeof_udpgw_addr_ipv6 :: nat where "sizeof_udpgw_addr_ipv6 = 18"

lemmas udpgw_sizes [simp] =
  sizeof_socks_udp_header_def sizeof_udpgw_addr_ipv4_def sizeof_udpgw_addr_ipv6_def

definition socks_udp_header_bytes :: "u16 \<Rightarrow> byte \<Rightarrow> byte \<Rightarrow> byte list" where
  "socks_udp_header_bytes rsv frag atyp = badvpn_write_le16 rsv @ [frag, atyp]"

definition udpgw_addr_ipv4_bytes :: "u32 \<Rightarrow> u16 \<Rightarrow> byte list" where
  "udpgw_addr_ipv4_bytes addr_ip addr_port = badvpn_write_le32 addr_ip @ badvpn_write_le16 addr_port"

definition udpgw_addr_ipv6_bytes :: "byte list \<Rightarrow> u16 \<Rightarrow> byte list" where
  "udpgw_addr_ipv6_bytes addr_ip addr_port = addr_ip @ badvpn_write_le16 addr_port"

definition udpgw_compute_mtu :: "int \<Rightarrow> int" where
  "udpgw_compute_mtu dgram_mtu =
     (let bs = bsize_add (sz sizeof_socks_udp_header)
                 (bsize_add (bsize_max (sz sizeof_udpgw_addr_ipv4) (sz sizeof_udpgw_addr_ipv6))
                   (bsize_fromint dgram_mtu)) in
      case bsize_toint bs of None \<Rightarrow> -1 | Some s \<Rightarrow> s)"

text \<open>
  The part of \<open>main\<close> in tun2socks/tun2socks.c that computes the largest UDP payload: 20 + 8 bytes of
  headers for IPv4, 40 + 8 for IPv6. \<open>None\<close> is the failure exit.
\<close>

definition tun_udp_mtu :: "int \<Rightarrow> bool \<Rightarrow> int option" where
  "tun_udp_mtu device_mtu netif_ip6addr =
     (let udp_mtu = device_mtu - (20 + 8);
          udp_mtu = (if netif_ip6addr then
              let udp_ip6_mtu = device_mtu - (40 + 8) in
              if udp_mtu < udp_ip6_mtu then udp_ip6_mtu else udp_mtu
            else udp_mtu);
          udp_mtu = (if udp_mtu < 0 then 0 else udp_mtu);
          udpgw_mtu = udpgw_compute_mtu udp_mtu
      in if udpgw_mtu < 0 \<or> udpgw_mtu > 65535 then None else Some udp_mtu)"

subsection \<open>State\<close>

record SocksUdpGwClient_conaddr =
  ca_local_addr :: BAddr
  ca_remote_addr :: BAddr

text \<open>
  \<open>con_first\<close> is the data of \<open>first_job\<close> while the job is set. \<open>con_out\<close> is the address the writer
  was given by the buffer's pending receive, as an offset into the buffer's memory.
\<close>

record SocksUdpGwClient_connection =
  con_conaddr :: SocksUdpGwClient_conaddr
  con_first :: "byte list option"
  con_out_have :: bool
  con_out :: nat
  con_buffer :: PacketBuffer

record SocksUdpGwClient =
  gw_udp_mtu :: int
  gw_udpgw_mtu :: int
  gw_max_connections :: int
  gw_num_connections :: int
  gw_connections_tree :: "SocksUdpGwClient_conaddr \<Rightarrow> nat option"
  gw_connections_list :: "nat list"
  gw_heap :: "nat \<Rightarrow> SocksUdpGwClient_connection option"

text \<open>\<open>handler_received\<close>: local address, remote address and payload passed to the user.\<close>

datatype gw_action = GwReceived BAddr BAddr "byte list"

text \<open>The answers of the system to one \<open>connection_init\<close>.\<close>

record connection_env =
  ce_malloc :: "nat option"
  ce_dgram_init :: bool
  ce_reuse_addr :: bool
  ce_alloc :: "int \<Rightarrow> byte list option"
  ce_recv_buffer :: bool

definition gw_conaddr_comparator :: "SocksUdpGwClient_conaddr \<Rightarrow> SocksUdpGwClient_conaddr \<Rightarrow> int" where
  "gw_conaddr_comparator v1 v2 =
     (let r = BAddr_CompareOrder (ca_remote_addr v1) (ca_remote_addr v2) in
      if r \<noteq> 0 then r
      else BAddr_CompareOrder (ca_local_addr v1) (ca_local_addr v2))"

subsection \<open>The sending side of a connection\<close>

definition con_writer_recv :: "SocksUdpGwClient_connection \<Rightarrow> SocksUdpGwClient_connection" where
  "con_writer_recv con =
     (case pb_recv (con_buffer con) of
        Some d \<Rightarrow> if con_out_have con then con else con\<lparr>con_out_have := True, con_out := d\<rparr>
      | None \<Rightarrow> con)"

definition con_StartPacket :: "SocksUdpGwClient_connection \<Rightarrow> nat option" where
  "con_StartPacket con = (if \<not> con_out_have con then None else Some (con_out con))"

definition con_EndPacket :: "SocksUdpGwClient_connection \<Rightarrow> nat \<Rightarrow> SocksUdpGwClient_connection" where
  "con_EndPacket con len =
     con_writer_recv (con\<lparr>con_out_have := False,
       con_buffer := pb_input_handler_done ((con_buffer con)\<lparr>pb_recv := None\<rparr>) (int len)\<rparr>)"

definition con_write :: "nat \<Rightarrow> byte list \<Rightarrow> SocksUdpGwClient_connection \<Rightarrow> SocksUdpGwClient_connection" where
  "con_write off d con =
     con\<lparr>con_buffer := (con_buffer con)\<lparr>pb_buf := (pb_buf (con_buffer con))\<lparr>cb_buffer :=
       mem_write (cb_buffer (pb_buf (con_buffer con))) off d\<rparr>\<rparr>\<rparr>"

definition connection_send :: "SocksUdpGwClient_connection \<Rightarrow> byte list \<Rightarrow> SocksUdpGwClient_connection" where
  "connection_send con data =
     (case con_StartPacket con of
        None \<Rightarrow> con
      | Some out \<Rightarrow>
          let out_pos = 0;
              remote_addr = ca_remote_addr (con_conaddr con);
              atyp = (if BAddr_type remote_addr = BADDR_TYPE_IPV4 then SOCKS_ATYP_IPV4 else SOCKS_ATYP_IPV6);
              con = con_write (out + out_pos) (socks_udp_header_bytes 0 0 atyp) con;
              out_pos = out_pos + sizeof_socks_udp_header;
              (con, out_pos) =
                (case remote_addr of
                   BAddrIPv4 ip port \<Rightarrow>
                     (con_write (out + out_pos) (udpgw_addr_ipv4_bytes ip port) con, out_pos + sizeof_udpgw_addr_ipv4)
                 | BAddrIPv6 ip port \<Rightarrow>
                     (con_write (out + out_pos) (udpgw_addr_ipv6_bytes ip port) con, out_pos + sizeof_udpgw_addr_ipv6)
                 | _ \<Rightarrow> (con, out_pos));
              con = con_write (out + out_pos) data con;
              out_pos = out_pos + length data in
          con_EndPacket con out_pos)"

text \<open>The datagram socket has sent the buffer's packet.\<close>

definition con_sent :: "SocksUdpGwClient_connection \<Rightarrow> SocksUdpGwClient_connection" where
  "con_sent con = con_writer_recv (con\<lparr>con_buffer := pb_sent (con_buffer con)\<rparr>)"

definition con_front :: "SocksUdpGwClient_connection \<Rightarrow> byte list option" where
  "con_front con = pb_front (con_buffer con)"

subsection \<open>The receiving side\<close>

definition dgram_handler_received :: "SocksUdpGwClient \<Rightarrow> SocksUdpGwClient_connection \<Rightarrow> byte list \<Rightarrow> gw_action list" where
  "dgram_handler_received client con data =
     (if length data < sizeof_socks_udp_header then []
      else
        let frag = data ! 2;
            atyp = data ! 3;
            data = drop sizeof_socks_udp_header data in
        if frag \<noteq> 0 then []
        else
          let parsed =
            (if atyp = SOCKS_ATYP_IPV6 then
               (if length data < sizeof_udpgw_addr_ipv6 then None
                else Some (BAddr_InitIPv6 (mem_read data 0 16) (badvpn_read_le16 (mem_read data 16 2)),
                       drop sizeof_udpgw_addr_ipv6 data))
             else
               (if length data < sizeof_udpgw_addr_ipv4 then None
                else Some (BAddr_InitIPv4 (badvpn_read_le32 (mem_read data 0 4)) (badvpn_read_le16 (mem_read data 4 2)),
                       drop sizeof_udpgw_addr_ipv4 data))) in
          case parsed of
            None \<Rightarrow> []
          | Some (remote_addr, data) \<Rightarrow>
              if \<not> BAddr_Compare remote_addr (ca_remote_addr (con_conaddr con)) then []
              else if int (length data) > gw_udp_mtu client then []
              else [GwReceived (ca_local_addr (con_conaddr con)) remote_addr data])"

subsection \<open>The table of connections\<close>

definition gw_find_connection :: "SocksUdpGwClient \<Rightarrow> SocksUdpGwClient_conaddr \<Rightarrow> nat option" where
  "gw_find_connection c conaddr = gw_connections_tree c conaddr"

definition update_con :: "nat \<Rightarrow> (SocksUdpGwClient_connection \<Rightarrow> SocksUdpGwClient_connection) \<Rightarrow> SocksUdpGwClient \<Rightarrow> SocksUdpGwClient" where
  "update_con i f c =
     (case gw_heap c i of
        None \<Rightarrow> c
      | Some con \<Rightarrow> c\<lparr>gw_heap := (gw_heap c)(i \<mapsto> f con)\<rparr>)"

definition reuse_connection :: "SocksUdpGwClient \<Rightarrow> SocksUdpGwClient_conaddr \<Rightarrow> SocksUdpGwClient \<times> nat" where
  "reuse_connection c conaddr =
     (let i = hd (gw_connections_list c);
          old = (case gw_heap c i of Some con \<Rightarrow> con_conaddr con | None \<Rightarrow> conaddr);
          c = c\<lparr>gw_connections_tree := (gw_connections_tree c)(old := None)\<rparr>;
          c = update_con i (\<lambda>con. con\<lparr>con_conaddr := conaddr\<rparr>) c;
          c = c\<lparr>gw_connections_tree := (gw_connections_tree c)(conaddr \<mapsto> i)\<rparr> in
      (c, i))"

definition connection_init :: "connection_env \<Rightarrow> SocksUdpGwClient \<Rightarrow> SocksUdpGwClient_conaddr \<Rightarrow> byte list \<Rightarrow> SocksUdpGwClient" where
  "connection_init env c conaddr data =
     (case ce_malloc env of
        None \<Rightarrow> c
      | Some i \<Rightarrow>
          if \<not> ce_dgram_init env then c
          else if \<not> ce_reuse_addr env then c
          else case PacketBuffer_Init (ce_alloc env) (gw_udp_mtu c) 1 of
            None \<Rightarrow> c
          | Some pb \<Rightarrow>
              if \<not> ce_recv_buffer env then c
              else
                let con = con_writer_recv \<lparr>con_conaddr = conaddr, con_first = Some data,
                            con_out_have = False, con_out = 0, con_buffer = pb\<rparr> in
                c\<lparr>gw_heap := (gw_heap c)(i \<mapsto> con),
                  gw_connections_tree := (gw_connections_tree c)(conaddr \<mapsto> i),
                  gw_connections_list := gw_connections_list c @ [i],
                  gw_num_connections := gw_num_connections c + 1\<rparr>)"

definition connection_first_job_handler :: "SocksUdpGwClient \<Rightarrow> nat \<Rightarrow> SocksUdpGwClient" where
  "connection_first_job_handler c i =
     update_con i (\<lambda>con. case con_first con of
         None \<Rightarrow> con
       | Some data \<Rightarrow> connection_send (con\<lparr>con_first := None\<rparr>) data) c"

definition connection_free :: "SocksUdpGwClient \<Rightarrow> nat \<Rightarrow> SocksUdpGwClient" where
  "connection_free c i =
     (let c = c\<lparr>gw_num_connections := gw_num_connections c - 1\<rparr>;
          c = c\<lparr>gw_connections_list := remove1 i (gw_connections_list c)\<rparr>;
          c = (case gw_heap c i of
                 None \<Rightarrow> c
               | Some con \<Rightarrow> c\<lparr>gw_connections_tree := (gw_connections_tree c)(con_conaddr con := None)\<rparr>) in
      c\<lparr>gw_heap := (gw_heap c)(i := None)\<rparr>)"

text \<open>
  \<open>udpgw_client\<close> of tun2socks/tun2socks.c is a static object, so its fields start at zero.
  \<open>SocksUdpGwClient_Init\<close> does not set \<open>num_connections\<close>.
\<close>

definition gw_static :: SocksUdpGwClient where
  "gw_static = \<lparr>gw_udp_mtu = 0, gw_udpgw_mtu = 0, gw_max_connections = 0, gw_num_connections = 0,
     gw_connections_tree = Map.empty, gw_connections_list = [], gw_heap = Map.empty\<rparr>"

definition SocksUdpGwClient_Init :: "SocksUdpGwClient \<Rightarrow> int \<Rightarrow> int \<Rightarrow> SocksUdpGwClient" where
  "SocksUdpGwClient_Init c udp_mtu max_connections =
     (let c = c\<lparr>gw_udp_mtu := udp_mtu\<rparr>;
          c = c\<lparr>gw_udpgw_mtu := udpgw_compute_mtu (gw_udp_mtu c)\<rparr>;
          c = c\<lparr>gw_max_connections := max_connections\<rparr>;
          c = (if gw_max_connections c > UINT16_MAX + 1 then c\<lparr>gw_max_connections := UINT16_MAX + 1\<rparr> else c);
          c = c\<lparr>gw_connections_tree := Map.empty\<rparr> in
      c\<lparr>gw_connections_list := []\<rparr>)"

function SocksUdpGwClient_Free :: "SocksUdpGwClient \<Rightarrow> SocksUdpGwClient" where
  "SocksUdpGwClient_Free c =
     (if gw_connections_list c = [] then c
      else SocksUdpGwClient_Free (connection_free c (hd (gw_connections_list c))))"
  by pat_completeness auto
termination
  by (relation "measure (\<lambda>c. length (gw_connections_list c))")
    (auto simp: connection_free_def Let_def length_remove1 split: option.splits)

declare SocksUdpGwClient_Free.simps [simp del]

definition SocksUdpGwClient_SubmitPacket ::
  "connection_env \<Rightarrow> SocksUdpGwClient \<Rightarrow> BAddr \<Rightarrow> BAddr \<Rightarrow> byte list \<Rightarrow> SocksUdpGwClient" where
  "SocksUdpGwClient_SubmitPacket env c local_addr remote_addr data =
     (let conaddr = \<lparr>ca_local_addr = local_addr, ca_remote_addr = remote_addr\<rparr>;
          con = gw_find_connection c conaddr;
          (c, con) = (if con = None \<and> gw_num_connections c = gw_max_connections c
                      then map_prod id Some (reuse_connection c conaddr) else (c, con)) in
      case con of
        None \<Rightarrow> connection_init env c conaddr data
      | Some i \<Rightarrow>
          let c = c\<lparr>gw_connections_list := remove1 i (gw_connections_list c)\<rparr>;
              c = c\<lparr>gw_connections_list := gw_connections_list c @ [i]\<rparr> in
          update_con i (\<lambda>con. connection_send con data) c)"


subsection \<open>The sending side is a queue of messages\<close>

fun udp_addr_bytes :: "BAddr \<Rightarrow> byte list" where
  "udp_addr_bytes (BAddrIPv4 ip port) = udpgw_addr_ipv4_bytes ip port"
| "udp_addr_bytes (BAddrIPv6 ip port) = udpgw_addr_ipv6_bytes ip port"
| "udp_addr_bytes _ = []"

definition udp_header_of :: "BAddr \<Rightarrow> byte list" where
  "udp_header_of a = socks_udp_header_bytes 0 0 (if BAddr_type a = BADDR_TYPE_IPV4 then SOCKS_ATYP_IPV4 else SOCKS_ATYP_IPV6)
     @ udp_addr_bytes a"

text \<open>The message a datagram should become: a specification, which \<open>connection_send\<close> meets when the message fits its
  buffer (\<open>connection_send_eq\<close>).\<close>

definition con_message :: "SocksUdpGwClient_connection \<Rightarrow> byte list \<Rightarrow> byte list" where
  "con_message con data = udp_header_of (ca_remote_addr (con_conaddr con)) @ data"

definition con_rep :: "SocksUdpGwClient_connection \<Rightarrow> byte list list \<Rightarrow> bool" where
  "con_rep con q \<longleftrightarrow> pb_rep (con_buffer con) q \<and>
     con_out_have con = (pb_recv (con_buffer con) \<noteq> None) \<and>
     (\<forall>d. pb_recv (con_buffer con) = Some d \<longrightarrow> con_out con = d)"

definition con_room :: "SocksUdpGwClient_connection \<Rightarrow> byte list \<Rightarrow> bool" where
  "con_room con data \<longleftrightarrow> con_StartPacket con \<noteq> None \<and>
     int (length (con_message con data)) \<le> pb_input_mtu (con_buffer con)"

lemma length_socks_udp_header [simp]: "length (socks_udp_header_bytes r f a) = 4"
  by (simp add: socks_udp_header_bytes_def)

lemma length_udpgw_addr [simp]:
  "length (udpgw_addr_ipv4_bytes i p) = 6" "length (udpgw_addr_ipv6_bytes s p) = length s + 2"
  by (simp_all add: udpgw_addr_ipv4_bytes_def udpgw_addr_ipv6_bytes_def)

lemma length_udp_addr:
  "BAddr_is_ip a \<Longrightarrow> BAddr_wf a \<Longrightarrow> length (udp_addr_bytes a) = (if BAddr_type a = BADDR_TYPE_IPV4 then 6 else 18)"
  by (cases a) (simp_all add: BAddr_is_ip_def)

lemma length_con_message:
  assumes "BAddr_is_ip (ca_remote_addr (con_conaddr con))" "BAddr_wf (ca_remote_addr (con_conaddr con))"
  shows "length (con_message con data) =
    (if BAddr_type (ca_remote_addr (con_conaddr con)) = BADDR_TYPE_IPV4 then 10 else 22) + length data"
  using length_udp_addr [OF assms] by (simp add: con_message_def udp_header_of_def)

lemma con_write_twice:
  assumes "off + length a + length b \<le> length (cb_buffer (pb_buf (con_buffer con)))" "off' = off + length a"
  shows "con_write off' b (con_write off a con) = con_write off (a @ b) con"
  using mem_write_append [OF assms(1)] assms(2) by (simp add: con_write_def)

lemma con_write_sel [simp]:
  "con_conaddr (con_write off d con) = con_conaddr con"
  "off + length d \<le> length (cb_buffer (pb_buf (con_buffer con))) \<Longrightarrow>
    length (cb_buffer (pb_buf (con_buffer (con_write off d con)))) = length (cb_buffer (pb_buf (con_buffer con)))"
  by (simp_all add: con_write_def)

text \<open>When the message fits in memory, sending writes it at the writer's address and ends the packet.\<close>

lemma connection_send_eq:
  assumes ip: "BAddr_is_ip (ca_remote_addr (con_conaddr con))" "BAddr_wf (ca_remote_addr (con_conaddr con))"
    and out: "con_StartPacket con = Some out"
    and fit: "out + length (con_message con data) \<le> length (cb_buffer (pb_buf (con_buffer con)))"
  shows "connection_send con data = con_EndPacket (con_write out (con_message con data) con) (length (con_message con data))"
proof -
  let ?m = "length (cb_buffer (pb_buf (con_buffer con)))"
  let ?a = "ca_remote_addr (con_conaddr con)"
  let ?h = "socks_udp_header_bytes 0 0 (if BAddr_type ?a = BADDR_TYPE_IPV4 then SOCKS_ATYP_IPV4 else SOCKS_ATYP_IPV6)"
  let ?b = "udp_addr_bytes ?a"
  have l: "length (con_message con data) = 4 + length ?b + length data"
    by (simp add: con_message_def udp_header_of_def)
  have 1: "con_write (out + 4) ?b (con_write out ?h con) = con_write out (?h @ ?b) con"
    by (rule con_write_twice) (use fit l in simp_all)
  have 2: "con_write (out + (4 + length ?b)) data (con_write out (?h @ ?b) con) = con_write out ((?h @ ?b) @ data) con"
    by (rule con_write_twice) (use fit l in simp_all)
  have w: "con_write (out + (4 + length ?b)) data (con_write (out + 4) ?b (con_write out ?h con)) =
      con_write out (con_message con data) con"
    unfolding 1 2 con_message_def udp_header_of_def ..
  show ?thesis
  proof (cases ?a)
    case (BAddrIPv4 i p)
    show ?thesis using l w unfolding connection_send_def out by (simp add: Let_def BAddrIPv4)
  next
    case (BAddrIPv6 i p)
    then have i: "length i = 16" using ip by simp
    show ?thesis using l w unfolding connection_send_def out by (simp add: Let_def BAddrIPv6 i)
  qed (use ip(1) in \<open>simp_all add: BAddr_is_ip_def\<close>)
qed

lemma con_writer_recv_rep:
  assumes "pb_rep (con_buffer con) q" "con_out_have con \<longrightarrow> pb_recv (con_buffer con) = Some (con_out con)"
  shows "con_rep (con_writer_recv con) q"
  using assms by (auto simp: con_rep_def con_writer_recv_def split: option.splits)

lemma connection_send_received:
  assumes r: "con_rep con q" and room: "con_room con data"
    and ip: "BAddr_is_ip (ca_remote_addr (con_conaddr con))" "BAddr_wf (ca_remote_addr (con_conaddr con))"
  shows "connection_send con data =
      con_writer_recv (con\<lparr>con_out_have := False, con_buffer := pb_received (con_buffer con) (con_message con data)\<rparr>)"
    "pb_room (con_buffer con) (con_message con data)"
proof -
  let ?b = "con_buffer con" and ?m = "con_message con data"
  have pr: "pb_rep ?b q" using r by (simp add: con_rep_def)
  obtain d where d: "pb_recv ?b = Some d" "con_out con = d" "con_out_have con" "con_StartPacket con = Some d"
    using r room by (auto simp: con_rep_def con_room_def con_StartPacket_def split: if_splits)
  have l: "int (length ?m) \<le> pb_input_mtu ?b" using room by (simp add: con_room_def)
  then have fit: "d + length ?m \<le> length (cb_buffer (pb_buf ?b))"
    using recv_in_memory [OF pr d(1)] by linarith
  show "connection_send con data =
      con_writer_recv (con\<lparr>con_out_have := False, con_buffer := pb_received ?b ?m\<rparr>)"
    using connection_send_eq [OF ip d(4) fit] d(1)
    by (cases con; cases ?b) (simp add: con_EndPacket_def con_write_def pb_received_def)
  show "pb_room ?b ?m" using l d(1) by (simp add: pb_room_def)
qed

lemma connection_send_rep:
  assumes r: "con_rep con q" and room: "con_room con data"
    and ip: "BAddr_is_ip (ca_remote_addr (con_conaddr con))" "BAddr_wf (ca_remote_addr (con_conaddr con))"
  shows "con_rep (connection_send con data) (q @ [con_message con data])"
proof -
  let ?b = "con_buffer con" and ?m = "con_message con data"
  have "pb_rep (pb_received ?b ?m) (q @ [?m])"
    using pb_received_rep connection_send_received(2) [OF assms] r by (simp add: con_rep_def)
  then show ?thesis
    using con_writer_recv_rep [of "con\<lparr>con_out_have := False, con_buffer := pb_received ?b ?m\<rparr>"]
      connection_send_received(1) [OF assms] by simp
qed

lemma con_sent_rep:
  assumes "con_rep con (x # q)"
  shows "con_rep (con_sent con) q"
proof -
  have pr: "pb_rep (con_buffer con) (x # q)" using assms by (simp add: con_rep_def)
  show ?thesis
    unfolding con_sent_def
    by (rule con_writer_recv_rep)
      (use assms pb_sent_rep [OF pr] pb_sent_keeps_recv [OF pr] in \<open>auto simp: con_rep_def\<close>)
qed

lemma send_conaddr [simp]:
  "con_conaddr (connection_send con data) = con_conaddr con"
  "con_conaddr (con_sent con) = con_conaddr con"
  by (auto simp: connection_send_def con_EndPacket_def con_writer_recv_def con_write_def con_sent_def Let_def
      split: option.split BAddr.split prod.split)

lemma send_message [simp]:
  "con_message (connection_send con data) = con_message con" "con_message (con_sent con) = con_message con"
  by (simp_all add: con_message_def fun_eq_iff)

text \<open>The connection as a queue of payloads for its remote address.\<close>

definition con_queue :: "SocksUdpGwClient_connection \<Rightarrow> byte list list \<Rightarrow> bool" where
  "con_queue con ds \<longleftrightarrow> con_rep con (map (con_message con) ds) \<and>
     BAddr_is_ip (ca_remote_addr (con_conaddr con)) \<and> BAddr_wf (ca_remote_addr (con_conaddr con))"

definition con_payload :: "SocksUdpGwClient_connection \<Rightarrow> byte list option" where
  "con_payload con = map_option (drop (length (udp_header_of (ca_remote_addr (con_conaddr con))))) (con_front con)"

interpretation con: packet_fifo con_queue connection_send con_sent con_payload con_room
proof unfold_locales
  fix c ds d assume "con_queue c ds" "con_room c d"
  then show "con_queue (connection_send c d) (ds @ [d])"
    using connection_send_rep [of c "map (con_message c) ds" d] by (simp add: con_queue_def)
next
  fix c d ds assume "con_queue c (d # ds)"
  then show "con_queue (con_sent c) ds"
    using con_sent_rep [of c "con_message c d" "map (con_message c) ds"] by (simp add: con_queue_def)
next
  fix c ds assume "con_queue c ds"
  then have "pb_rep (con_buffer c) (map (con_message c) ds)" by (simp add: con_queue_def con_rep_def)
  then show "con_payload c = (if ds = [] then None else Some (hd ds))"
    using pb_front_rep [of "con_buffer c" "map (con_message c) ds"]
    by (cases ds) (simp_all add: con_payload_def con_front_def con_message_def)
qed

lemma con_init_queue:
  assumes pb: "PacketBuffer_Init alloc udp_mtu 1 = Some pb" and mtu: "0 \<le> udp_mtu"
    and al: "\<And>n d. alloc n = Some d \<Longrightarrow> length d = 4 * nat n \<and> 4 * n \<le> INT_MAX"
    and ip: "BAddr_is_ip (ca_remote_addr a)" "BAddr_wf (ca_remote_addr a)"
  shows "con_queue (con_writer_recv \<lparr>con_conaddr = a, con_first = f, con_out_have = False, con_out = 0, con_buffer = pb\<rparr>) []"
proof -
  let ?c = "\<lparr>con_conaddr = a, con_first = f, con_out_have = False, con_out = 0, con_buffer = pb\<rparr>"
  have "pb_rep pb []" using pb_init_rep(1) [OF pb mtu _ al] by simp
  then have "con_rep (con_writer_recv ?c) []" using con_writer_recv_rep [of ?c] by simp
  moreover have "con_conaddr (con_writer_recv ?c) = a" by (simp add: con_writer_recv_def split: option.split)
  ultimately show ?thesis using ip by (simp add: con_queue_def)
qed

end
