(* ===== verification/UdpGwProperties.thy ===== *)
theory UdpGwProperties
  imports SocksUdpGw
begin

text \<open>
  The UDP relay of SocksUdpGw as a whole: the table of connections is a bounded table in order of use,
  replies are decoded to what was sent, each connection sends in order, and the case in which the send
  buffer is too small for the header that is added to a datagram.
\<close>

subsection \<open>The order of the tree\<close>

text \<open>On IP addresses the comparator is a total order that is 0 exactly on equal pairs, so that the tree
  finds a pair exactly when it is in it.\<close>

definition conaddr_ok :: "SocksUdpGwClient_conaddr \<Rightarrow> bool" where
  "conaddr_ok a \<longleftrightarrow> BAddr_wf (ca_local_addr a) \<and> BAddr_is_ip (ca_local_addr a) \<and>
     BAddr_wf (ca_remote_addr a) \<and> BAddr_is_ip (ca_remote_addr a)"

lemma conaddr_order_0: "conaddr_ok a \<Longrightarrow> conaddr_ok b \<Longrightarrow> gw_conaddr_comparator a b = 0 \<longleftrightarrow> a = b"
  by (auto simp: gw_conaddr_comparator_def Let_def conaddr_ok_def BAddr_CompareOrder_0)

lemma conaddr_order_neg: "gw_conaddr_comparator b a = - gw_conaddr_comparator a b"
  unfolding gw_conaddr_comparator_def Let_def
    BAddr_CompareOrder_neg [of "ca_remote_addr b" "ca_remote_addr a"]
    BAddr_CompareOrder_neg [of "ca_local_addr b" "ca_local_addr a"]
  by (simp only: neg_equal_0_iff_equal if_distrib [of uminus])

lemma conaddr_order_trans:
  assumes ok: "conaddr_ok a" "conaddr_ok b" "conaddr_ok c"
    and ab: "gw_conaddr_comparator a b \<le> 0" and bc: "gw_conaddr_comparator b c \<le> 0"
  shows "gw_conaddr_comparator a c \<le> 0"
proof -
  let ?r = ca_remote_addr and ?l = ca_local_addr
  have r: "BAddr_CompareOrder (?r a) (?r b) \<le> 0" "BAddr_CompareOrder (?r b) (?r c) \<le> 0"
    using ab bc unfolding gw_conaddr_comparator_def Let_def by (simp_all split: if_splits)
  have wf: "BAddr_wf (?r x) \<and> BAddr_wf (?l x) \<and> BAddr_is_ip (?r x)" if "x \<in> {a, b, c}" for x
    using ok that by (auto simp: conaddr_ok_def)
  have ac: "BAddr_CompareOrder (?r a) (?r c) \<le> 0"
    by (rule BAddr_CompareOrder_trans [OF _ _ _ r]) (simp_all add: wf)
  show ?thesis
  proof (cases "BAddr_CompareOrder (?r a) (?r c) = 0")
    case True
    then have "?r a = ?r c" using BAddr_CompareOrder_0 [of "?r a" "?r c"] wf by simp
    then have "BAddr_CompareOrder (?r b) (?r c) = - BAddr_CompareOrder (?r a) (?r b)"
      using BAddr_CompareOrder_neg [of "?r b" "?r a"] by simp
    then have z: "BAddr_CompareOrder (?r a) (?r b) = 0" "BAddr_CompareOrder (?r b) (?r c) = 0" using r by linarith+
    then have l: "BAddr_CompareOrder (?l a) (?l b) \<le> 0" "BAddr_CompareOrder (?l b) (?l c) \<le> 0"
      using ab bc unfolding gw_conaddr_comparator_def Let_def by simp_all
    have "BAddr_CompareOrder (?l a) (?l c) \<le> 0"
      by (rule BAddr_CompareOrder_trans [OF _ _ _ l]) (simp_all add: wf)
    then show ?thesis using True unfolding gw_conaddr_comparator_def Let_def by simp
  next
    case False
    then show ?thesis using ac unfolding gw_conaddr_comparator_def Let_def by simp
  qed
qed

subsection \<open>A datagram that is sent before the next one arrives\<close>

lemma pb_buf_received:
  "pb_recv b = Some d \<Longrightarrow> cb_input_dest (pb_buf b) = Some d \<Longrightarrow>
   pb_buf (pb_received b x) = ChunkBuffer2_SubmitPacket (ChunkBuffer2_fill (pb_buf b) x) (int (length x))"
  by (simp add: pb_received_def pb_input_handler_done_def pb_Recv_def pb_Send_def Let_def ChunkBuffer2_fill_def)

lemma pb_buf_sent: "pb_buf (pb_sent b) = ChunkBuffer2_ConsumePacket (pb_buf b)"
  by (simp add: pb_sent_def pb_output_handler_done_def pb_Recv_def pb_Send_def Let_def)

lemma pb_mtu_events [simp]:
  "pb_input_mtu (pb_sent b) = pb_input_mtu b" "pb_input_mtu (pb_received b x) = pb_input_mtu b"
  by (simp_all add: pb_sent_def pb_output_handler_done_def pb_received_def pb_input_handler_done_def
      pb_Recv_def pb_Send_def Let_def split: option.split)

lemma writer_recv_buffer [simp]: "con_buffer (con_writer_recv c) = con_buffer c"
  by (simp add: con_writer_recv_def split: option.split)

text \<open>The position of an empty buffer moves by the blocks of the packet, as long as it does not wrap.\<close>

lemma cb_cycle:
  assumes r: "cb_rep buf []" and m: "pkt_blocks x \<le> cb_mtu buf"
    and nw: "cb_mtu buf \<le> cb_size buf - (cb_start buf + 1 + pkt_blocks x) - 1"
  shows "cb_start (ChunkBuffer2_ConsumePacket (ChunkBuffer2_SubmitPacket (ChunkBuffer2_fill buf x) (int (length x))))
    = cb_start buf + 1 + pkt_blocks x"
proof -
  let ?s = "ChunkBuffer2_SubmitPacket (ChunkBuffer2_fill buf x) (int (length x))"
  have d: "cb_data buf []" and l: "cb_linear buf []" "cb_used buf = 0"
    using r cb_data_empty [of buf] by (simp_all add: cb_rep_def)
  have "4 * pkt_blocks x \<le> cb_input_avail buf" using cb_empty_accepts [OF r] m by simp
  moreover have "int (length x) \<le> 4 * pkt_blocks x" by (rule blocks_of_ge) simp
  ultimately have "cb_rep ?s [x]" using cb_submit [OF r _ m] by simp
  then have len: "block_len ?s (cb_start ?s) = int (length x)"
    using cb_data_front(1) [of ?s x "[]"] by (simp add: cb_rep_def)
  have e: "ChunkBuffer2_end buf = cb_start buf" using linear_end [OF l(1)] l(2) by simp
  have w: "cb_wrap buf = cb_size buf" using l(1) by (simp add: cb_linear_def)
  have "0 \<le> cb_mtu buf" using d by (simp add: cb_data_def cb_bounds_def)
  then have "cb_wrap ?s = cb_size buf" "cb_start buf + (1 + pkt_blocks x) \<noteq> cb_size buf" using e w l(2) nw by simp_all
  then show ?thesis using len by (simp add: add.assoc del: submit_sel(6))
qed

text \<open>\<open>con_at c e\<close>: the connection has nothing queued and its buffer is at block \<open>e\<close>.\<close>

definition con_at :: "SocksUdpGwClient_connection \<Rightarrow> SocksUdpGwClient_conaddr \<Rightarrow> int \<Rightarrow> int \<Rightarrow> int \<Rightarrow> bool" where
  "con_at c a mtu nb e \<longleftrightarrow> con_queue c [] \<and> con_conaddr c = a \<and> pb_input_mtu (con_buffer c) = mtu \<and>
     cb_size (pb_buf (con_buffer c)) = nb \<and> cb_start (pb_buf (con_buffer c)) = e"

lemma con_at_start:
  assumes "con_at c a mtu nb e"
  shows "con_StartPacket c = Some (4 * nat (e + 1))" "cb_mtu (pb_buf (con_buffer c)) = blocks_of mtu"
    "length (cb_buffer (pb_buf (con_buffer c))) = 4 * nat nb"
    "pb_recv (con_buffer c) = Some (4 * nat (e + 1))" "cb_input_dest (pb_buf (con_buffer c)) = Some (4 * nat (e + 1))"
proof -
  let ?b = "con_buffer c"
  have q: "con_rep c []" "pb_rep ?b []" "cb_rep (pb_buf ?b) []" and m: "pb_input_mtu ?b = mtu" "0 \<le> mtu"
    using assms by (auto simp: con_at_def con_queue_def con_rep_def pb_rep_def)
  show c: "cb_mtu (pb_buf ?b) = blocks_of mtu" using q(2) m(1) by (simp add: pb_rep_def)
  have d: "cb_data (pb_buf ?b) []" using q(3) by (simp add: cb_rep_def)
  then show "length (cb_buffer (pb_buf ?b)) = 4 * nat nb"
    using assms by (simp add: cb_data_def cb_bounds_def con_at_def)
  have av: "mtu \<le> cb_input_avail (pb_buf ?b)"
    using cb_empty_accepts [OF q(3)] blocks_of_ge [OF m(2)] c by simp
  have "ChunkBuffer2_end (pb_buf ?b) = e"
    using linear_end [of "pb_buf ?b" "[]"] cb_data_empty [OF d] assms by (simp add: con_at_def)
  then show i: "cb_input_dest (pb_buf ?b) = Some (4 * nat (e + 1))"
    using input_fields [OF q(3)] av m(2) by (simp split: if_splits)
  then show p: "pb_recv ?b = Some (4 * nat (e + 1))" using q(2) av m(1) by (simp add: pb_rep_def)
  then show "con_StartPacket c = Some (4 * nat (e + 1))" using q(1) by (auto simp: con_rep_def con_StartPacket_def)
qed

lemma con_at_cycle:
  assumes at: "con_at c a mtu nb e" and l: "int (length (con_message c x)) \<le> mtu"
    and nw: "blocks_of mtu \<le> nb - (e + 1 + pkt_blocks (con_message c x)) - 1"
  shows "con_at (con_sent (connection_send c x)) a mtu nb (e + 1 + pkt_blocks (con_message c x))"
proof -
  let ?b = "con_buffer c" and ?m = "con_message c x"
  note st = con_at_start [OF at]
  have q: "con_queue c []" and f: "con_conaddr c = a" "pb_input_mtu ?b = mtu" "cb_size (pb_buf ?b) = nb"
    "cb_start (pb_buf ?b) = e" using at by (simp_all add: con_at_def)
  have room: "con_room c x" using st l f by (simp add: con_room_def)
  have q': "con_queue (con_sent (connection_send c x)) []"
    using con.get_rep con.put_rep [OF q room] by simp
  have r: "con_rep c []" "BAddr_is_ip (ca_remote_addr a)" "BAddr_wf (ca_remote_addr a)"
    using q f by (simp_all add: con_queue_def)
  have b: "con_buffer (con_sent (connection_send c x)) = pb_sent (pb_received ?b ?m)"
    using connection_send_received(1) [OF r(1) room] r f by (simp add: con_sent_def)
  have s: "pb_buf (pb_sent (pb_received ?b ?m)) =
      ChunkBuffer2_ConsumePacket (ChunkBuffer2_SubmitPacket (ChunkBuffer2_fill (pb_buf ?b) ?m) (int (length ?m)))"
    by (simp add: pb_buf_sent pb_buf_received [OF st(4,5)])
  have cr: "cb_rep (pb_buf ?b) []" using r by (simp add: con_rep_def pb_rep_def)
  have "pkt_blocks ?m \<le> cb_mtu (pb_buf ?b)" using blocks_of_mono [OF l] st(2) by simp
  then have "cb_start (pb_buf (pb_sent (pb_received ?b ?m))) = e + 1 + pkt_blocks ?m"
    unfolding s using cb_cycle [OF cr] nw f st(2) by simp
  moreover have "cb_size (pb_buf (pb_sent (pb_received ?b ?m))) = nb" using f by (simp add: s)
  ultimately show ?thesis using q' b f by (simp add: con_at_def)
qed

subsection \<open>The table is a bounded table in order of use\<close>

text \<open>The keys in order of use, and what one submission should do to them.\<close>

definition gw_key :: "SocksUdpGwClient \<Rightarrow> nat \<Rightarrow> SocksUdpGwClient_conaddr" where
  "gw_key c i = con_conaddr (the (gw_heap c i))"

definition gw_keys :: "SocksUdpGwClient \<Rightarrow> SocksUdpGwClient_conaddr list" where
  "gw_keys c = map (gw_key c) (gw_connections_list c)"

definition lru_submit :: "int \<Rightarrow> bool \<Rightarrow> 'a \<Rightarrow> 'a list \<Rightarrow> 'a list" where
  "lru_submit bound ok a q =
     (if a \<in> set q then remove1 a q @ [a]
      else if int (length q) = bound then tl q @ [a]
      else if ok then q @ [a] else q)"

definition connection_ok :: "connection_env \<Rightarrow> SocksUdpGwClient \<Rightarrow> bool" where
  "connection_ok env c \<longleftrightarrow> ce_malloc env \<noteq> None \<and> ce_dgram_init env \<and> ce_reuse_addr env \<and>
     PacketBuffer_Init (ce_alloc env) (gw_udp_mtu c) 1 \<noteq> None \<and> ce_recv_buffer env"

definition gw_inv :: "SocksUdpGwClient \<Rightarrow> bool" where
  "gw_inv c \<longleftrightarrow> distinct (gw_connections_list c) \<and> set (gw_connections_list c) = dom (gw_heap c) \<and>
     gw_num_connections c = int (length (gw_connections_list c)) \<and>
     gw_num_connections c \<le> gw_max_connections c \<and>
     (\<forall>a i. gw_connections_tree c a = Some i \<longleftrightarrow> (\<exists>con. gw_heap c i = Some con \<and> con_conaddr con = a))"

lemma map_remove1_inj:
  "inj_on f (insert x (set xs)) \<Longrightarrow> map f (remove1 x xs) = remove1 (f x) (map f xs)"
  by (induction xs) (auto simp: inj_on_def)

lemma gw_inv_tree:
  assumes "gw_inv c"
  shows "gw_connections_tree c a = Some i \<longleftrightarrow> i \<in> set (gw_connections_list c) \<and> gw_key c i = a"
  using assms unfolding gw_inv_def gw_key_def by force

lemma gw_inv_keys:
  assumes "gw_inv c"
  shows "inj_on (gw_key c) (set (gw_connections_list c))" "distinct (gw_keys c)"
    "a \<in> set (gw_keys c) \<longleftrightarrow> gw_connections_tree c a \<noteq> None"
proof -
  show i: "inj_on (gw_key c) (set (gw_connections_list c))"
  proof (rule inj_onI)
    fix i j assume a: "i \<in> set (gw_connections_list c)" "j \<in> set (gw_connections_list c)" "gw_key c i = gw_key c j"
    then have "gw_connections_tree c (gw_key c i) = Some i" "gw_connections_tree c (gw_key c i) = Some j"
      using gw_inv_tree [OF assms, of "gw_key c i"] by auto
    then show "i = j" by simp
  qed
  show "distinct (gw_keys c)" using i assms by (simp add: gw_keys_def gw_inv_def distinct_map)
  show "a \<in> set (gw_keys c) \<longleftrightarrow> gw_connections_tree c a \<noteq> None"
    using gw_inv_tree [OF assms, of a] by (auto simp: gw_keys_def)
qed

lemma gw_key_list [simp]: "gw_key (c\<lparr>gw_connections_list := l\<rparr>) = gw_key c"
  by (simp add: gw_key_def fun_eq_iff)

lemma update_con_sel [simp]:
  "gw_connections_list (update_con i f c) = gw_connections_list c"
  "gw_connections_tree (update_con i f c) = gw_connections_tree c"
  "gw_num_connections (update_con i f c) = gw_num_connections c"
  "gw_max_connections (update_con i f c) = gw_max_connections c"
  "gw_udp_mtu (update_con i f c) = gw_udp_mtu c"
  "gw_heap (update_con i f c) = (gw_heap c)(i := map_option f (gw_heap c i))"
  by (auto simp: update_con_def split: option.split)

text \<open>Work on a connection that keeps its addresses keeps the table.\<close>

lemma update_con_inv:
  assumes "gw_inv c" "\<And>con. con_conaddr (f con) = con_conaddr con"
  shows "gw_inv (update_con i f c)" "gw_keys (update_con i f c) = gw_keys c"
proof -
  have h: "(\<exists>con. gw_heap (update_con i f c) j = Some con \<and> con_conaddr con = a) \<longleftrightarrow>
      (\<exists>con. gw_heap c j = Some con \<and> con_conaddr con = a)" for j a
    using assms(2) by auto
  have d: "dom (gw_heap (update_con i f c)) = dom (gw_heap c)" by (auto simp: dom_def)
  show "gw_inv (update_con i f c)"
    using assms(1) unfolding gw_inv_def h d by simp
  have "gw_key (update_con i f c) j = gw_key c j" if "j \<in> dom (gw_heap c)" for j
    using that assms(2) by (auto simp: gw_key_def)
  then show "gw_keys (update_con i f c) = gw_keys c"
    using assms(1) by (simp add: gw_keys_def gw_inv_def)
qed

text \<open>Moving a connection to the end of the list.\<close>

definition gw_touch :: "nat \<Rightarrow> SocksUdpGwClient \<Rightarrow> SocksUdpGwClient" where
  "gw_touch i c = c\<lparr>gw_connections_list := remove1 i (gw_connections_list c) @ [i]\<rparr>"

lemma touch_inv:
  assumes "gw_inv c" "gw_connections_tree c a = Some i"
  shows "gw_inv (gw_touch i c)" "gw_keys (gw_touch i c) = remove1 a (gw_keys c) @ [a]"
proof -
  have i: "i \<in> set (gw_connections_list c)" "gw_key c i = a" using gw_inv_tree assms by auto
  have d: "distinct (gw_connections_list c)" using assms(1) by (simp add: gw_inv_def)
  have "insert i (set (remove1 i (gw_connections_list c))) = set (gw_connections_list c)"
    using i(1) d by auto
  moreover have "length (remove1 i (gw_connections_list c)) + 1 = length (gw_connections_list c)"
    using i(1) by (simp add: length_remove1) (metis Suc_pred length_pos_if_in_set)
  ultimately show "gw_inv (gw_touch i c)"
    using assms(1) d unfolding gw_inv_def gw_touch_def by (simp add: distinct_remove1)
  have "map (gw_key c) (remove1 i (gw_connections_list c)) = remove1 a (gw_keys c)"
    using map_remove1_inj [of "gw_key c" i "gw_connections_list c"] gw_inv_keys(1) [OF assms(1)] i
    by (simp add: insert_absorb gw_keys_def)
  then show "gw_keys (gw_touch i c) = remove1 a (gw_keys c) @ [a]"
    using i(2) by (simp add: gw_keys_def gw_touch_def)
qed

text \<open>The least recently used connection takes the new address.\<close>

lemma reuse_inv:
  assumes inv: "gw_inv c" and new: "gw_connections_tree c a = None" and ne: "gw_connections_list c = i # rest"
    and r: "reuse_connection c a = (c', j)"
  shows "j = i" "gw_inv c'" "gw_connections_tree c' a = Some i" "gw_keys c' = a # tl (gw_keys c)"
    "gw_connections_list c' = i # rest" "gw_udp_mtu c' = gw_udp_mtu c" "gw_max_connections c' = gw_max_connections c"
    "gw_heap c' = (gw_heap c)(i := map_option (\<lambda>con. con\<lparr>con_conaddr := a\<rparr>) (gw_heap c i))"
proof -
  have "i \<in> dom (gw_heap c)" using inv ne by (auto simp: gw_inv_def)
  then obtain con where con: "gw_heap c i = Some con" by auto
  have k: "gw_key c i = con_conaddr con" by (simp add: gw_key_def con)
  have e: "j = i" "gw_heap c' = (gw_heap c)(i \<mapsto> con\<lparr>con_conaddr := a\<rparr>)"
    "gw_connections_tree c' = (gw_connections_tree c)(con_conaddr con := None, a \<mapsto> i)"
    "gw_connections_list c' = gw_connections_list c" "gw_num_connections c' = gw_num_connections c"
    "gw_max_connections c' = gw_max_connections c" "gw_udp_mtu c' = gw_udp_mtu c"
    using r con ne by (auto simp: reuse_connection_def Let_def)
  show "j = i" "gw_connections_tree c' a = Some i" "gw_connections_list c' = i # rest"
    "gw_udp_mtu c' = gw_udp_mtu c" "gw_max_connections c' = gw_max_connections c"
    "gw_heap c' = (gw_heap c)(i := map_option (\<lambda>con. con\<lparr>con_conaddr := a\<rparr>) (gw_heap c i))"
    using e ne con by simp_all
  have other: "gw_key c' l = gw_key c l" if "l \<noteq> i" for l
    using that by (simp add: gw_key_def e)
  have d: "i \<notin> set rest" using inv ne by (simp add: gw_inv_def)
  then have "gw_key c' l = gw_key c l" if "l \<in> set rest" for l using other that by metis
  then have "map (gw_key c') rest = map (gw_key c) rest" by (intro map_cong) auto
  then show "gw_keys c' = a # tl (gw_keys c)"
    by (simp add: gw_keys_def e(4) ne) (simp add: gw_key_def e(2))
  have t: "gw_connections_tree c' b = Some l \<longleftrightarrow> (\<exists>x. gw_heap c' l = Some x \<and> con_conaddr x = b)" for b l
  proof -
    have old: "gw_connections_tree c b = Some l \<longleftrightarrow> (\<exists>x. gw_heap c l = Some x \<and> con_conaddr x = b)" for b l
      using inv by (simp add: gw_inv_def)
    have x: "gw_connections_tree c (con_conaddr con) = Some i" using old con by simp
    then have xa: "con_conaddr con \<noteq> a" using new by auto
    have "\<not> (\<exists>x. gw_heap c l = Some x \<and> con_conaddr x = a)" using old [of a l] new by simp
    moreover have "(\<exists>x. gw_heap c l = Some x \<and> con_conaddr x = con_conaddr con) \<longleftrightarrow> l = i"
      using old [of "con_conaddr con" l] x by auto
    ultimately show ?thesis
      using old [of b l] xa con unfolding e(2,3) by (cases "b = a"; cases "b = con_conaddr con"; cases "l = i") auto
  qed
  have dm: "dom (gw_heap c') = dom (gw_heap c)" using con by (auto simp: e)
  show "gw_inv c'" using inv t unfolding gw_inv_def dm e(4,5,6) by simp
qed

lemma connection_init_not_ok: "\<not> connection_ok env c \<Longrightarrow> connection_init env c a d = c"
  by (auto simp: connection_ok_def connection_init_def split: option.split)

lemma connection_init_ok:
  assumes ok: "connection_ok env c" and inv: "gw_inv c" and new: "gw_connections_tree c a = None"
    and fresh: "\<And>i. ce_malloc env = Some i \<Longrightarrow> gw_heap c i = None"
    and room: "gw_num_connections c < gw_max_connections c"
  shows "gw_inv (connection_init env c a d)" "gw_keys (connection_init env c a d) = gw_keys c @ [a]"
    "\<exists>i con. ce_malloc env = Some i \<and> gw_heap (connection_init env c a d) = (gw_heap c)(i \<mapsto> con) \<and>
      con_conaddr con = a \<and> con_first con = Some d"
    "gw_max_connections (connection_init env c a d) = gw_max_connections c"
proof -
  obtain i pb where i: "ce_malloc env = Some i" and pb: "PacketBuffer_Init (ce_alloc env) (gw_udp_mtu c) 1 = Some pb"
    using ok by (auto simp: connection_ok_def)
  define con where "con = con_writer_recv \<lparr>con_conaddr = a, con_first = Some d,
                            con_out_have = False, con_out = 0, con_buffer = pb\<rparr>"
  have a: "con_conaddr con = a" "con_first con = Some d" by (simp_all add: con_def con_writer_recv_def split: option.split)
  have h: "gw_heap c i = None" using fresh i by simp
  have e: "connection_init env c a d = c\<lparr>gw_heap := (gw_heap c)(i \<mapsto> con),
                  gw_connections_tree := (gw_connections_tree c)(a \<mapsto> i),
                  gw_connections_list := gw_connections_list c @ [i],
                  gw_num_connections := gw_num_connections c + 1\<rparr>"
    using ok i pb by (simp add: connection_ok_def connection_init_def con_def)
  show "gw_max_connections (connection_init env c a d) = gw_max_connections c" by (simp add: e)
  show "\<exists>i con. ce_malloc env = Some i \<and> gw_heap (connection_init env c a d) = (gw_heap c)(i \<mapsto> con) \<and>
      con_conaddr con = a \<and> con_first con = Some d"
    using i a e by auto
  have n: "i \<notin> set (gw_connections_list c)" using inv h by (auto simp: gw_inv_def)
  have k: "gw_key (connection_init env c a d) l = (if l = i then a else gw_key c l)" for l
    by (simp add: gw_key_def e a)
  have "map (gw_key (connection_init env c a d)) (gw_connections_list c) = gw_keys c"
    unfolding gw_keys_def using n k by (intro map_cong) auto
  then show "gw_keys (connection_init env c a d) = gw_keys c @ [a]"
    using k [of i] by (simp add: gw_keys_def e)
  have t: "((gw_connections_tree c)(a \<mapsto> i)) b = Some l \<longleftrightarrow> (\<exists>x. ((gw_heap c)(i \<mapsto> con)) l = Some x \<and> con_conaddr x = b)" for b l
  proof -
    have "gw_connections_tree c b = Some l \<longleftrightarrow> (\<exists>x. gw_heap c l = Some x \<and> con_conaddr x = b)" for b l
      using inv by (simp add: gw_inv_def)
    from this [of b l] this [of b i] this [of a l] show ?thesis using new h a by auto
  qed
  show "gw_inv (connection_init env c a d)"
    using inv t n room unfolding gw_inv_def by (simp add: e)
qed

text \<open>One submission, by the three cases of the code.\<close>

lemma submit_known:
  assumes "gw_connections_tree c \<lparr>ca_local_addr = l, ca_remote_addr = r\<rparr> = Some i"
  shows "SocksUdpGwClient_SubmitPacket env c l r d = update_con i (\<lambda>con. connection_send con d) (gw_touch i c)"
  using assms by (simp add: SocksUdpGwClient_SubmitPacket_def gw_find_connection_def gw_touch_def Let_def)

lemma submit_reused:
  assumes "gw_connections_tree c \<lparr>ca_local_addr = l, ca_remote_addr = r\<rparr> = None"
    "gw_num_connections c = gw_max_connections c"
    "reuse_connection c \<lparr>ca_local_addr = l, ca_remote_addr = r\<rparr> = (c', i)"
  shows "SocksUdpGwClient_SubmitPacket env c l r d = update_con i (\<lambda>con. connection_send con d) (gw_touch i c')"
  using assms by (simp add: SocksUdpGwClient_SubmitPacket_def gw_find_connection_def gw_touch_def Let_def)

lemma submit_new:
  assumes "gw_connections_tree c \<lparr>ca_local_addr = l, ca_remote_addr = r\<rparr> = None"
    "gw_num_connections c \<noteq> gw_max_connections c"
  shows "SocksUdpGwClient_SubmitPacket env c l r d = connection_init env c \<lparr>ca_local_addr = l, ca_remote_addr = r\<rparr> d"
  using assms by (simp add: SocksUdpGwClient_SubmitPacket_def gw_find_connection_def Let_def)

definition gw_fresh :: "connection_env \<Rightarrow> SocksUdpGwClient \<Rightarrow> bool" where
  "gw_fresh env c \<longleftrightarrow> (case ce_malloc env of None \<Rightarrow> True | Some i \<Rightarrow> gw_heap c i = None)"

lemma submit_table:
  fixes l r
  defines "a \<equiv> \<lparr>ca_local_addr = l, ca_remote_addr = r\<rparr>"
  assumes inv: "gw_inv c" and m: "1 \<le> gw_max_connections c" and fresh: "gw_fresh env c"
  shows "gw_inv (SocksUdpGwClient_SubmitPacket env c l r d) \<and>
    gw_keys (SocksUdpGwClient_SubmitPacket env c l r d) =
      lru_submit (gw_max_connections c) (connection_ok env c) a (gw_keys c) \<and>
    gw_max_connections (SocksUdpGwClient_SubmitPacket env c l r d) = gw_max_connections c"
proof -
  have len: "int (length (gw_keys c)) = gw_num_connections c" using inv by (simp add: gw_inv_def gw_keys_def)
  have send: "con_conaddr (connection_send con d) = con_conaddr con" for con by simp
  have tm: "gw_max_connections (gw_touch i x) = gw_max_connections x" for i x by (simp add: gw_touch_def)
  note mem = gw_inv_keys(3) [OF inv, of a]
  show ?thesis
  proof (cases "gw_connections_tree c a")
    case (Some i)
    note t = touch_inv [OF inv Some]
    show ?thesis
      using update_con_inv [OF t(1), of "\<lambda>con. connection_send con d" i] t(2) mem Some submit_known [of c l r i env d]
      by (simp add: a_def [symmetric] lru_submit_def tm)
  next
    case None
    show ?thesis
    proof (cases "gw_num_connections c = gw_max_connections c")
      case True
      then have "gw_connections_list c \<noteq> []" using inv m by (auto simp: gw_inv_def)
      then obtain i rest where ne: "gw_connections_list c = i # rest" by (auto simp: neq_Nil_conv)
      obtain c' j where r: "reuse_connection c a = (c', j)" by (cases "reuse_connection c a")
      note u = reuse_inv [OF inv None ne r]
      note t = touch_inv [OF u(2,3)]
      show ?thesis
        using update_con_inv [OF t(1), of "\<lambda>con. connection_send con d" i] t(2) mem None u len True
          submit_reused [of c l r c' j env d] r
        by (simp add: a_def [symmetric] lru_submit_def tm)
    next
      case False
      then have lt: "gw_num_connections c < gw_max_connections c" using inv by (simp add: gw_inv_def)
      have e: "SocksUdpGwClient_SubmitPacket env c l r d = connection_init env c a d"
        using submit_new [of c l r env d] None False by (simp add: a_def)
      show ?thesis
      proof (cases "connection_ok env c")
        case True
        have f: "\<And>i. ce_malloc env = Some i \<Longrightarrow> gw_heap c i = None" using fresh by (simp add: gw_fresh_def)
        show ?thesis
          using connection_init_ok [OF True inv None f lt, of d] mem None len False True
          by (simp add: e lru_submit_def)
      next
        case no: False
        then show ?thesis using inv mem None len False by (simp add: e connection_init_not_ok lru_submit_def)
      qed
    qed
  qed
qed

text \<open>The life of a client as events: submissions, the first job of a connection, completed sends.\<close>

datatype gw_event =
    GwSubmit connection_env BAddr BAddr "byte list"
  | GwFirstJob nat
  | GwSent nat

inductive gw_step :: "SocksUdpGwClient \<Rightarrow> gw_event \<Rightarrow> SocksUdpGwClient \<Rightarrow> bool" where
  submit: "gw_fresh env c \<Longrightarrow> gw_step c (GwSubmit env l r d) (SocksUdpGwClient_SubmitPacket env c l r d)"
| first_job: "gw_step c (GwFirstJob i) (connection_first_job_handler c i)"
| sent: "gw_step c (GwSent i) (update_con i con_sent c)"

inductive gw_run :: "SocksUdpGwClient \<Rightarrow> gw_event list \<Rightarrow> SocksUdpGwClient \<Rightarrow> bool" where
  start: "gw_run c [] c"
| step: "gw_run c0 es c \<Longrightarrow> gw_step c e c' \<Longrightarrow> gw_run c0 (es @ [e]) c'"

inductive_cases gw_stepE: "gw_step c e c'"

lemma first_job_table:
  assumes "gw_inv c"
  shows "gw_inv (connection_first_job_handler c i)" "gw_keys (connection_first_job_handler c i) = gw_keys c"
    "gw_max_connections (connection_first_job_handler c i) = gw_max_connections c"
proof -
  have f: "con_conaddr (case con_first con of None \<Rightarrow> con
       | Some data \<Rightarrow> connection_send (con\<lparr>con_first := None\<rparr>) data) = con_conaddr con" for con
    by (simp split: option.split)
  show "gw_inv (connection_first_job_handler c i)" "gw_keys (connection_first_job_handler c i) = gw_keys c"
    unfolding connection_first_job_handler_def by (rule update_con_inv [OF assms f])+
  show "gw_max_connections (connection_first_job_handler c i) = gw_max_connections c"
    by (simp add: connection_first_job_handler_def)
qed

lemma gw_run_inv:
  assumes "gw_run c0 es c" "gw_inv c0" "1 \<le> gw_max_connections c0"
  shows "gw_inv c \<and> gw_max_connections c = gw_max_connections c0"
  using assms
proof (induction rule: gw_run.induct)
  case (step c0 es c e c')
  then have inv: "gw_inv c" "gw_max_connections c = gw_max_connections c0" "1 \<le> gw_max_connections c" by simp_all
  from step(2) show ?case
    by (cases rule: gw_step.cases)
      (use submit_table [OF inv(1,3)] first_job_table [OF inv(1)] update_con_inv [OF inv(1), of con_sent] inv in auto)
qed simp

lemma gw_init_simp:
  "SocksUdpGwClient_Init gw_static m n = \<lparr>gw_udp_mtu = m, gw_udpgw_mtu = udpgw_compute_mtu m,
      gw_max_connections = min n (UINT16_MAX + 1), gw_num_connections = 0,
      gw_connections_tree = Map.empty, gw_connections_list = [], gw_heap = Map.empty\<rparr>"
  by (simp add: SocksUdpGwClient_Init_def gw_static_def Let_def min_def)

lemma gw_init_inv:
  assumes "1 \<le> n"
  shows "gw_inv (SocksUdpGwClient_Init gw_static m n)" "1 \<le> gw_max_connections (SocksUdpGwClient_Init gw_static m n)"
    "gw_keys (SocksUdpGwClient_Init gw_static m n) = []"
  using assms by (simp_all add: gw_init_simp gw_inv_def gw_keys_def UINT16_MAX_def)

lemma gw_reachable:
  assumes "1 \<le> n" "gw_run (SocksUdpGwClient_Init gw_static m n) es c"
  shows "gw_inv c" "gw_max_connections c = min n (UINT16_MAX + 1)" "1 \<le> gw_max_connections c"
  using gw_run_inv [OF assms(2)] gw_init_inv [OF assms(1), of m]
  by (auto simp: gw_init_simp)

text \<open>Freeing the connections one by one.\<close>

lemma connection_free_inv:
  assumes inv: "gw_inv c" and ne: "gw_connections_list c = i # rest"
  shows "gw_inv (connection_free c i)" "gw_connections_list (connection_free c i) = rest"
proof -
  have "i \<in> dom (gw_heap c)" using inv ne by (auto simp: gw_inv_def)
  then obtain con where con: "gw_heap c i = Some con" by auto
  have e: "gw_heap (connection_free c i) = (gw_heap c)(i := None)"
    "gw_connections_tree (connection_free c i) = (gw_connections_tree c)(con_conaddr con := None)"
    "gw_num_connections (connection_free c i) = gw_num_connections c - 1"
    "gw_max_connections (connection_free c i) = gw_max_connections c"
    by (simp_all add: connection_free_def con Let_def)
  show l: "gw_connections_list (connection_free c i) = rest" by (simp add: connection_free_def con ne Let_def)
  have t: "gw_connections_tree (connection_free c i) b = Some j \<longleftrightarrow>
      (\<exists>x. gw_heap (connection_free c i) j = Some x \<and> con_conaddr x = b)" for b j
  proof -
    have old: "gw_connections_tree c b = Some l \<longleftrightarrow> (\<exists>x. gw_heap c l = Some x \<and> con_conaddr x = b)" for b l
      using inv by (simp add: gw_inv_def)
    have "(\<exists>x. gw_heap c j = Some x \<and> con_conaddr x = con_conaddr con) \<longleftrightarrow> j = i"
      using old [of "con_conaddr con" j] old [of "con_conaddr con" i] con by auto
    then show ?thesis using old [of b j] con unfolding e by (cases "b = con_conaddr con"; cases "j = i") auto
  qed
  have "set rest = dom (gw_heap (connection_free c i))"
    using inv ne by (auto simp: gw_inv_def e)
  then show "gw_inv (connection_free c i)" using inv t ne unfolding gw_inv_def l e(3,4) by simp
qed

lemma gw_free_empty:
  assumes "gw_inv c"
  shows "gw_inv (SocksUdpGwClient_Free c) \<and> gw_connections_list (SocksUdpGwClient_Free c) = []"
  using assms
proof (induction c rule: SocksUdpGwClient_Free.induct)
  case (1 c)
  show ?case
  proof (cases "gw_connections_list c")
    case Nil
    then show ?thesis using 1 by (simp add: SocksUdpGwClient_Free.simps)
  next
    case (Cons i rest)
    then show ?thesis using 1 connection_free_inv [OF _ Cons] by (subst (1 2) SocksUdpGwClient_Free.simps) simp
  qed
qed

subsection \<open>The queue of every connection\<close>





lemma pb_sizes_events [simp]:
  "cb_size (pb_buf (pb_sent b)) = cb_size (pb_buf b)" "cb_mtu (pb_buf (pb_sent b)) = cb_mtu (pb_buf b)"
  "cb_size (pb_buf (pb_received b x)) = cb_size (pb_buf b)" "cb_mtu (pb_buf (pb_received b x)) = cb_mtu (pb_buf b)"
  by (simp_all add: pb_buf_sent pb_received_def pb_input_handler_done_def pb_Recv_def pb_Send_def Let_def split: option.split)


lemma con_first_events [simp]:
  "con_first (connection_send con d) = con_first con" "con_first (con_sent con) = con_first con"
  by (auto simp: connection_send_def con_EndPacket_def con_writer_recv_def con_write_def con_sent_def Let_def
      split: option.split BAddr.split prod.split)












subsection \<open>Replies\<close>

lemma udp_addr_bytes_inj:
  "BAddr_wf a \<Longrightarrow> BAddr_wf b \<Longrightarrow> BAddr_is_ip a \<Longrightarrow> BAddr_Compare a b \<longleftrightarrow> a = b"
  by (cases a; cases b) (auto simp: BAddr_is_ip_def memcmp_0)

lemma list_take_6: "6 \<le> length x \<Longrightarrow> \<exists>a b c d e f r. x = [a, b, c, d, e, f] @ r"
  by (auto simp: numeral_eq_Suc Suc_le_length_iff)

lemma addr_ipv4_read:
  assumes "6 \<le> length x"
  shows "udpgw_addr_ipv4_bytes (badvpn_read_le32 (mem_read x 0 4)) (badvpn_read_le16 (mem_read x 4 2)) = take 6 x"
proof -
  obtain a b c d e f r where "x = [a, b, c, d, e, f] @ r" using list_take_6 [OF assms] by blast
  then show ?thesis
    using write_read_le32 [of a b c d "[]"] write_read_le16 [of e f "[]"]
    by (simp add: udpgw_addr_ipv4_bytes_def mem_read_def numeral_eq_Suc)
qed

lemma addr_ipv6_read:
  assumes "18 \<le> length x"
  shows "udpgw_addr_ipv6_bytes (mem_read x 0 16) (badvpn_read_le16 (mem_read x 16 2)) = take 18 x"
proof -
  obtain e f r where e: "drop 16 x = e # f # r"
    using assms by (cases "drop 16 x" rule: remdups_adj.cases) (auto dest!: arg_cong [where f = length])
  have "take 18 x = take 16 x @ take 2 (drop 16 x)" using take_add [of 16 2 x] by simp
  then show ?thesis
    using write_read_le16 [of e f "[]"] e by (simp add: udpgw_addr_ipv6_bytes_def mem_read_def)
qed

lemma addr_bytes_read:
  "udpgw_addr_ipv4_bytes i p = b \<Longrightarrow> badvpn_read_le32 (mem_read (b @ d) 0 4) = i"
  "udpgw_addr_ipv4_bytes i p = b \<Longrightarrow> badvpn_read_le16 (mem_read (b @ d) 4 2) = p"
  "udpgw_addr_ipv6_bytes s p = b \<Longrightarrow> length s = 16 \<Longrightarrow> mem_read (b @ d) 0 16 = s"
  "udpgw_addr_ipv6_bytes s p = b \<Longrightarrow> length s = 16 \<Longrightarrow> badvpn_read_le16 (mem_read (b @ d) 16 2) = p"
  by (auto simp: mem_read_def udpgw_addr_ipv4_bytes_def udpgw_addr_ipv6_bytes_def)

text \<open>The address part of a reply is read exactly when it is the encoding of the address read.\<close>

definition reply_addr :: "byte \<Rightarrow> byte list \<Rightarrow> (BAddr \<times> byte list) option" where
  "reply_addr atyp data =
     (if atyp = SOCKS_ATYP_IPV6 then
        (if length data < sizeof_udpgw_addr_ipv6 then None
         else Some (BAddr_InitIPv6 (mem_read data 0 16) (badvpn_read_le16 (mem_read data 16 2)),
                drop sizeof_udpgw_addr_ipv6 data))
      else
        (if length data < sizeof_udpgw_addr_ipv4 then None
         else Some (BAddr_InitIPv4 (badvpn_read_le32 (mem_read data 0 4)) (badvpn_read_le16 (mem_read data 4 2)),
                drop sizeof_udpgw_addr_ipv4 data)))"

lemma reply_addr_iff:
  assumes "BAddr_wf a" "BAddr_is_ip a"
  shows "reply_addr atyp x = Some (a, d) \<longleftrightarrow>
    x = udp_addr_bytes a @ d \<and> (atyp = SOCKS_ATYP_IPV6 \<longleftrightarrow> BAddr_type a = BADDR_TYPE_IPV6)"
    (is "?l \<longleftrightarrow> ?r")
proof
  assume l: ?l
  show ?r
  proof (cases "atyp = SOCKS_ATYP_IPV6")
    case True
    then have n: "18 \<le> length x" "length (take 16 x) = 16" and
      a: "a = BAddrIPv6 (mem_read x 0 16) (badvpn_read_le16 (mem_read x 16 2))" "d = drop 18 x"
      using l by (auto simp: reply_addr_def not_less mem_read_def split: if_splits)
    then show ?thesis using addr_ipv6_read [OF n(1)] True by simp
  next
    case False
    then have n: "6 \<le> length x" and
      a: "a = BAddrIPv4 (badvpn_read_le32 (mem_read x 0 4)) (badvpn_read_le16 (mem_read x 4 2))" "d = drop 6 x"
      using l by (auto simp: reply_addr_def not_less split: if_splits)
    then show ?thesis using addr_ipv4_read [OF n] False by simp
  qed
next
  assume r: ?r
  show ?l
  proof (cases a)
    case (BAddrIPv4 i p)
    then show ?thesis using r by (simp add: reply_addr_def addr_bytes_read [OF refl])
  next
    case (BAddrIPv6 s p)
    then have "length s = 16" using assms by simp
    then show ?thesis using r BAddrIPv6 by (simp add: reply_addr_def addr_bytes_read [OF refl])
  qed (use assms in \<open>simp_all add: BAddr_is_ip_def\<close>)
qed

lemma reply_addr_wf: "reply_addr atyp x = Some (a, d) \<Longrightarrow> BAddr_wf a \<and> BAddr_is_ip a"
  by (auto simp: reply_addr_def BAddr_is_ip_def mem_read_def split: if_splits)

lemma dgram_received_eq:
  "dgram_handler_received client con x =
     (if length x < 4 \<or> x ! 2 \<noteq> 0 then [] else
      case reply_addr (x ! 3) (drop 4 x) of
        None \<Rightarrow> []
      | Some (a, d) \<Rightarrow>
          if \<not> BAddr_Compare a (ca_remote_addr (con_conaddr con)) then []
          else if int (length d) > gw_udp_mtu client then []
          else [GwReceived (ca_local_addr (con_conaddr con)) a d])"
  by (simp add: dgram_handler_received_def reply_addr_def Let_def)

subsection \<open>Properties\<close>

text \<open>C17: after any history, the table behind the UDP relay is a table of at most
  \<open>max_connections\<close> distinct address pairs in order of use, with the search tree naming exactly the
  pairs of the list: a submitted datagram's pair becomes the most recently used one, and a pair is
  given up only when the table is full, and then the least recently used one.\<close>

theorem udp_table_lru:
  assumes "1 \<le> n" "gw_run (SocksUdpGwClient_Init gw_static m n) es c" "gw_fresh env c"
  shows "gw_keys (SocksUdpGwClient_SubmitPacket env c l r d) =
      lru_submit (min n (UINT16_MAX + 1)) (connection_ok env c) \<lparr>ca_local_addr = l, ca_remote_addr = r\<rparr> (gw_keys c) \<and>
    distinct (gw_keys c) \<and> int (length (gw_keys c)) \<le> min n (UINT16_MAX + 1) \<and>
    dom (gw_connections_tree c) = set (gw_keys c)"
proof -
  note i = gw_reachable [OF assms(1,2)]
  have "dom (gw_connections_tree c) = set (gw_keys c)" using gw_inv_keys(3) [OF i(1)] by auto
  then show ?thesis
    using submit_table [OF i(1,3) assms(3)] gw_inv_keys(2) [OF i(1)] i(1,2)
    by (simp add: gw_inv_def gw_keys_def)
qed

text \<open>Whatever the sizes of the datagrams, a submission changes at most the connection of its pair of addresses.\<close>

theorem udp_submit_one_connection:
  assumes "1 \<le> n" "gw_run (SocksUdpGwClient_Init gw_static m n) es c" "gw_fresh env c"
  shows "(SocksUdpGwClient_SubmitPacket env c l r d = c \<and> \<not> connection_ok env c) \<or>
    (\<exists>i con. gw_heap (SocksUdpGwClient_SubmitPacket env c l r d) = (gw_heap c)(i \<mapsto> con) \<and>
      con_conaddr con = \<lparr>ca_local_addr = l, ca_remote_addr = r\<rparr> \<and>
      ((gw_heap c i = None \<and> con_first con = Some d) \<or>
       (\<exists>old. gw_heap c i = Some old \<and>
          con = connection_send (old\<lparr>con_conaddr := \<lparr>ca_local_addr = l, ca_remote_addr = r\<rparr>\<rparr>) d)))"
proof -
  let ?a = "\<lparr>ca_local_addr = l, ca_remote_addr = r\<rparr>"
  note i = gw_reachable [OF assms(1,2)]
  show ?thesis
  proof (cases "gw_connections_tree c ?a")
    case (Some j)
    then obtain old where old: "gw_heap c j = Some old" "con_conaddr old = ?a" using i(1) by (auto simp: gw_inv_def)
    then have same: "old\<lparr>con_conaddr := ?a\<rparr> = old" by (cases old) simp
    have "gw_heap (SocksUdpGwClient_SubmitPacket env c l r d) = (gw_heap c)(j \<mapsto> connection_send (old\<lparr>con_conaddr := ?a\<rparr>) d)"
      unfolding same using submit_known [OF Some, of env d] old(1) by (simp add: gw_touch_def)
    then show ?thesis
      by (intro disjI2 exI [of _ j] exI [of _ "connection_send (old\<lparr>con_conaddr := ?a\<rparr>) d"]) (simp add: old)
  next
    case None
    show ?thesis
    proof (cases "gw_num_connections c = gw_max_connections c")
      case True
      then have "gw_connections_list c \<noteq> []" using i(1,3) by (auto simp: gw_inv_def)
      then obtain j rest where ne: "gw_connections_list c = j # rest" by (auto simp: neq_Nil_conv)
      then have "j \<in> dom (gw_heap c)" using i(1) by (auto simp: gw_inv_def)
      then obtain old where old: "gw_heap c j = Some old" by auto
      obtain c' k where r: "reuse_connection c ?a = (c', k)" by (cases "reuse_connection c ?a")
      note u = reuse_inv [OF i(1) None ne r]
      have "gw_heap (SocksUdpGwClient_SubmitPacket env c l r d) = (gw_heap c)(j \<mapsto> connection_send (old\<lparr>con_conaddr := ?a\<rparr>) d)"
        using submit_reused [OF None True r, of env d] u(1,8) old by (simp add: gw_touch_def)
      then show ?thesis
        by (intro disjI2 exI [of _ j] exI [of _ "connection_send (old\<lparr>con_conaddr := ?a\<rparr>) d"]) (simp add: old)
    next
      case False
      then have lt: "gw_num_connections c < gw_max_connections c" using i(1) by (simp add: gw_inv_def)
      note e = submit_new [OF None False, of env d]
      show ?thesis
      proof (cases "connection_ok env c")
        case True
        have f: "\<And>i. ce_malloc env = Some i \<Longrightarrow> gw_heap c i = None" using assms(3) by (simp add: gw_fresh_def)
        from connection_init_ok(3) [OF True i(1) None f lt, of d] f show ?thesis unfolding e by blast
      qed (simp add: e connection_init_not_ok)
    qed
  qed
qed


text \<open>C19: what the relay accepts. A datagram from the SOCKS server is passed to the user exactly when it begins with two
  bytes of any value (the reserved field is not checked), fragment number 0, an address type that is 4 if the
  connection's remote address is IPv6 and any value but 4 if it is IPv4 (so 3, a domain name, counts as IPv4),
  then the address and port of the connection's remote address, and then a payload of at most \<open>udp_mtu\<close> bytes; it is
  passed with that payload and the connection's two addresses.\<close>

theorem udp_reply_accepted_iff:
  assumes "BAddr_wf (ca_remote_addr (con_conaddr con))" "BAddr_is_ip (ca_remote_addr (con_conaddr con))"
  shows "dgram_handler_received client con x = [GwReceived l r d] \<longleftrightarrow>
    l = ca_local_addr (con_conaddr con) \<and> r = ca_remote_addr (con_conaddr con) \<and>
    int (length d) \<le> gw_udp_mtu client \<and>
    (\<exists>rsv0 rsv1 atyp. x = [rsv0, rsv1, 0, atyp] @ udp_addr_bytes r @ d \<and>
      (atyp = SOCKS_ATYP_IPV6 \<longleftrightarrow> BAddr_type r = BADDR_TYPE_IPV6))"
    (is "?l \<longleftrightarrow> ?r")
proof
  assume l: ?l
  then have n: "4 \<le> length x" "x ! 2 = 0" by (auto simp: dgram_received_eq not_less split: if_splits)
  then obtain a b c e y where x: "x = [a, b, c, e] @ y" by (auto simp: numeral_eq_Suc Suc_le_length_iff)
  then have c: "c = 0" using n(2) by simp
  obtain ad d' where p: "reply_addr e y = Some (ad, d')"
    using l x by (auto simp: dgram_received_eq split: option.splits if_splits)
  note w = reply_addr_wf [OF p]
  have e: "dgram_handler_received client con x =
      (if \<not> BAddr_Compare ad (ca_remote_addr (con_conaddr con)) then []
       else if int (length d') > gw_udp_mtu client then []
       else [GwReceived (ca_local_addr (con_conaddr con)) ad d'])"
    unfolding dgram_received_eq by (simp add: x c p)
  have g: "ad = ca_remote_addr (con_conaddr con)" "l = ca_local_addr (con_conaddr con)" "r = ad" "d = d'"
    "int (length d) \<le> gw_udp_mtu client"
    using l w assms udp_addr_bytes_inj [of ad "ca_remote_addr (con_conaddr con)"] unfolding e
    by (simp_all split: if_splits)
  have "y = udp_addr_bytes ad @ d'" "e = SOCKS_ATYP_IPV6 \<longleftrightarrow> BAddr_type ad = BADDR_TYPE_IPV6"
    using reply_addr_iff [of ad e y d'] p w by simp_all
  then show ?r using g x c by auto
next
  assume r: ?r
  then obtain a b e where x: "x = [a, b, 0, e] @ udp_addr_bytes r @ d"
    "e = SOCKS_ATYP_IPV6 \<longleftrightarrow> BAddr_type r = BADDR_TYPE_IPV6" by auto
  have "reply_addr e (udp_addr_bytes r @ d) = Some (r, d)" using reply_addr_iff [of r e] x(2) r assms by simp
  moreover have "BAddr_Compare r r" using udp_addr_bytes_inj [of r r] r assms by simp
  moreover have "l = ca_local_addr (con_conaddr con)" "ca_remote_addr (con_conaddr con) = r"
    "int (length d) \<le> gw_udp_mtu client" using r by simp_all
  ultimately show ?l unfolding dgram_received_eq x(1) by simp
qed

text \<open>After any history, freeing the client ends with every connection freed: none is left in memory,
  in the list or in the tree, and the count of connections, which the initialisation does not set, is 0
  again, so that the same static object can be initialised for the next run.\<close>

theorem udp_free_releases_all:
  assumes "1 \<le> n" "gw_run (SocksUdpGwClient_Init gw_static m n) es c"
  shows "gw_heap (SocksUdpGwClient_Free c) = Map.empty \<and> gw_connections_list (SocksUdpGwClient_Free c) = [] \<and>
    gw_connections_tree (SocksUdpGwClient_Free c) = Map.empty \<and> gw_num_connections (SocksUdpGwClient_Free c) = 0"
proof -
  let ?f = "SocksUdpGwClient_Free c"
  have i: "gw_inv ?f" "gw_connections_list ?f = []" using gw_free_empty [OF gw_reachable(1) [OF assms]] by simp_all
  then have "dom (gw_heap ?f) = {}" by (simp add: gw_inv_def)
  then have h: "gw_heap ?f = Map.empty" by simp
  have "gw_connections_tree ?f a = None" for a using i h by (cases "gw_connections_tree ?f a") (auto simp: gw_inv_def)
  then show ?thesis using i h by (auto simp: gw_inv_def)
qed

text \<open>The datagrams a connection to one address transmits are, in order and unchanged, the encodings
  of those submitted to it that its buffer had room for with their header.\<close>

theorem udp_send_in_order:
  assumes "PacketBuffer_Init alloc udp_mtu 1 = Some pb" "0 \<le> udp_mtu"
    and "\<And>n d. alloc n = Some d \<Longrightarrow> length d = 4 * nat n \<and> 4 * n \<le> INT_MAX"
    and "BAddr_is_ip (ca_remote_addr a)" "BAddr_wf (ca_remote_addr a)"
    and "fifo_run connection_send con_sent con_payload con_room
      (con_writer_recv \<lparr>con_conaddr = a, con_first = f, con_out_have = False, con_out = 0, con_buffer = pb\<rparr>)
      ops = (c, ins, outs)"
  shows "\<exists>rest. ins = outs @ rest \<and> (outs = ins \<longleftrightarrow> con_payload c = None)"
  by (rule con.run_prefix [OF con_init_queue [OF assms(1-5)] assms(6)])

text \<open>The connection of the device's MTU, and the one it is after \<open>n\<close> empty datagrams were sent.\<close>

definition fresh_connection :: "SocksUdpGwClient_conaddr \<Rightarrow> PacketBuffer \<Rightarrow> SocksUdpGwClient_connection" where
  "fresh_connection a pb =
     con_writer_recv \<lparr>con_conaddr = a, con_first = None, con_out_have = False, con_out = 0, con_buffer = pb\<rparr>"

definition send_one :: "byte list \<Rightarrow> SocksUdpGwClient_connection \<Rightarrow> SocksUdpGwClient_connection" where
  "send_one d con = con_sent (connection_send con d)"

lemma bsize_fromint_is: "0 \<le> m \<Longrightarrow> m \<le> INT_MAX \<Longrightarrow> bsize_is (bsize_fromint m) (nat m)"
  by (simp add: bsize_is_def bsize_fromint_def SIZE_MAX_def unsigned_minus_1_eq_mask INT_MAX_def
      word_less_nat_alt mask_eq_exp_minus_1 unat_eq_nat_uint uint_word_of_int nat_less_iff)

lemma udpgw_compute_mtu_eq:
  assumes "0 \<le> m" "m \<le> INT_MAX - 22"
  shows "udpgw_compute_mtu m = m + 22"
proof -
  have "bsize_is (sz sizeof_socks_udp_header) 4" "bsize_is (sz sizeof_udpgw_addr_ipv4) 6"
    "bsize_is (sz sizeof_udpgw_addr_ipv6) 18"
    by (simp_all add: bsize_is_def bsize_fromsize_def)
  then have "bsize_is (bsize_add (sz sizeof_socks_udp_header) (bsize_add (bsize_max (sz sizeof_udpgw_addr_ipv4)
      (sz sizeof_udpgw_addr_ipv6)) (bsize_fromint m))) (4 + (max 6 18 + nat m))"
    using assms by (intro bsize_add_is bsize_max_is bsize_fromint_is) simp_all
  note s = bsize_not_overflow [OF this]
  have "nat m < 2 ^ 63" using assms by (simp add: INT_MAX_def nat_less_iff)
  then have "4 + (max 6 18 + nat m) < 2 ^ 64" by simp
  note s = s [OF this]
  show ?thesis
    using s assms unfolding udpgw_compute_mtu_def Let_def bsize_toint_def
    by (simp add: uint_nat)
qed

lemma tun_mtu_1280: "tun_udp_mtu 1280 ip6 = Some 1252"
  by (cases ip6) (simp_all add: tun_udp_mtu_def udpgw_compute_mtu_eq INT_MAX_def)

lemma blocks_1252 [simp]: "blocks_of 1252 = 313" "blocks_of 10 = 3"
  by (simp_all add: blocks_of_def bdivide_up_def)

lemma con_at_fresh:
  assumes pb: "PacketBuffer_Init alloc 1252 1 = Some pb"
    and al: "\<And>n d. alloc n = Some d \<Longrightarrow> length d = 4 * nat n \<and> 4 * n \<le> INT_MAX"
    and ip: "ca_remote_addr a = BAddrIPv4 ip port"
  shows "con_at (fresh_connection a pb) a 1252 628 0"
proof -
  note i = pb_init_rep [OF pb _ _ al]
  have m: "pb_input_mtu pb = 1252" "pb_rep pb []" by (rule i; simp)+
  have "cb_size (pb_buf pb) = (1 + cb_mtu (pb_buf pb)) * (1 + 1)" by (rule i(2); simp)
  then have "cb_size (pb_buf pb) = 628" using m by (simp add: pb_rep_def)
  moreover have "con_queue (fresh_connection a pb) []"
    unfolding fresh_connection_def by (rule con_init_queue [OF pb _ al]) (simp_all add: ip BAddr_is_ip_def)
  moreover have "cb_start (pb_buf pb) = 0"
    using pb by (auto simp: PacketBuffer_Init_def Let_def pb_Recv_def ChunkBuffer2_Init_def split: if_splits option.splits)
  ultimately show ?thesis using m by (simp add: con_at_def fresh_connection_def con_writer_recv_def split: option.split)
qed

lemma con_at_sends:
  assumes "con_at c a 1252 628 0" "ca_remote_addr a = BAddrIPv4 ip port" "k \<le> 78"
  shows "con_at ((send_one [] ^^ k) c) a 1252 628 (4 * int k)"
  using assms(3)
proof (induction k)
  case 0
  then show ?case using assms(1) by simp
next
  case (Suc k)
  let ?c = "(send_one [] ^^ k) c"
  have at: "con_at ?c a 1252 628 (4 * int k)" using Suc by simp
  then have "length (con_message ?c []) = 10"
    using assms(2) by (subst length_con_message) (auto simp: con_at_def BAddr_is_ip_def)
  then have "con_at (con_sent (connection_send ?c [])) a 1252 628 (4 * int (Suc k))"
    using con_at_cycle [OF at, of "[]"] Suc.prems by (simp add: add.commute)
  then show ?case by (simp only: funpow.simps comp_apply send_one_def [of "[]" "(send_one [] ^^ k) c"])
qed

text \<open>What sending writes, whether the message fits or not: a write beyond the end of a block makes it longer.\<close>

lemma length_mem_write_max: "off \<le> length m \<Longrightarrow> length (mem_write m off d) = max (length m) (off + length d)"
  by (auto simp: mem_write_def)

lemma input_done_memory:
  "cb_buffer (pb_buf (pb_input_handler_done b n)) =
    mem_write (cb_buffer (pb_buf b)) (4 * nat (ChunkBuffer2_end (pb_buf b))) (int_store n)"
  by (simp add: pb_input_handler_done_def pb_Recv_def pb_Send_def Let_def)

lemma send_memory:
  assumes at: "con_at c a mtu nb e" and ip: "ca_remote_addr a = BAddrIPv4 ip port"
    and e: "0 \<le> e" "4 * nat (e + 1) + 10 \<le> 4 * nat nb"
  shows "length (cb_buffer (pb_buf (con_buffer (connection_send c d)))) = max (4 * nat nb) (4 * nat (e + 1) + 10 + length d)"
proof -
  let ?b = "con_buffer c" and ?o = "4 * nat (e + 1)"
  note st = con_at_start [OF at]
  have r: "cb_rep (pb_buf ?b) []" "con_conaddr c = a" "cb_start (pb_buf ?b) = e"
    using at by (auto simp: con_at_def con_queue_def con_rep_def pb_rep_def)
  then have "cb_data (pb_buf ?b) []" by (simp add: cb_rep_def)
  from cb_data_empty [OF this] have en: "ChunkBuffer2_end (pb_buf ?b) = e"
    using linear_end [of "pb_buf ?b" "[]"] r(3) by simp
  define w where "w = con_write (?o + 10) d (con_write (?o + 4) (udpgw_addr_ipv4_bytes ip port)
      (con_write ?o (socks_udp_header_bytes 0 0 SOCKS_ATYP_IPV4) c))"
  have s: "connection_send c d = con_EndPacket w (10 + length d)"
    using st(1) ip r(2) by (simp add: connection_send_def Let_def w_def)
  have l: "length (cb_buffer (pb_buf (con_buffer w))) = max (4 * nat nb) (?o + 10 + length d)"
    using st(3) e by (simp add: w_def con_write_def length_mem_write_max)
  have "ChunkBuffer2_end (x\<lparr>cb_buffer := y\<rparr>) = ChunkBuffer2_end x" for x y by (simp add: ChunkBuffer2_end_def)
  then have "ChunkBuffer2_end (pb_buf (con_buffer w)) = e" using en by (simp add: w_def con_write_def)
  moreover have "4 * nat e + 4 \<le> max (4 * nat nb) (?o + 10 + length d)" using e by linarith
  moreover have "length (int_store n) = 4" for n by (simp add: int_store_def)
  ultimately have "length (mem_write (cb_buffer (pb_buf (con_buffer w))) (4 * nat (ChunkBuffer2_end (pb_buf (con_buffer w))))
      (int_store (int (10 + length d)))) = max (4 * nat nb) (?o + 10 + length d)"
    using l by (subst length_mem_write) simp_all
  then show ?thesis unfolding s con_EndPacket_def writer_recv_buffer by (simp add: input_done_memory)
qed

text \<open>C20: the send buffer of a connection is created for packets of \<open>udp_mtu\<close> bytes, without the header.
  With the device's MTU of 1280, after 78 empty datagrams to an IPv4 address, each transmitted before
  the next, the buffer still offers a destination, and sending a datagram of the largest payload writes two bytes beyond
  the end of the allocated array: memory written beyond its end is longer afterwards by that much.\<close>

theorem udp_send_overflow:
  assumes "tun_udp_mtu 1280 ip6 = Some udp_mtu" "PacketBuffer_Init alloc udp_mtu 1 = Some pb"
    and "\<And>n d. alloc n = Some d \<Longrightarrow> length d = 4 * nat n \<and> 4 * n \<le> INT_MAX"
    and "ca_remote_addr a = BAddrIPv4 ip port" "int (length d) = udp_mtu"
  shows "con_StartPacket ((send_one [] ^^ 78) (fresh_connection a pb)) \<noteq> None \<and>
    length (cb_buffer (pb_buf (con_buffer (connection_send ((send_one [] ^^ 78) (fresh_connection a pb)) d)))) =
      length (cb_buffer (pb_buf (con_buffer ((send_one [] ^^ 78) (fresh_connection a pb))))) + 2"
proof -
  let ?c = "(send_one [] ^^ 78) (fresh_connection a pb)"
  have m: "udp_mtu = 1252" using assms(1) by (simp add: tun_mtu_1280)
  have at: "con_at ?c a 1252 628 312"
    using con_at_sends [OF con_at_fresh [OF _ assms(3,4)] assms(4), where k = 78] assms(2) m by simp
  note st = con_at_start [OF at]
  have "length d = 1252" using assms(5) m by simp
  then have "length (cb_buffer (pb_buf (con_buffer (connection_send ?c d)))) = 2514"
    by (subst send_memory [OF at assms(4)]) simp_all
  then show ?thesis using st(1,3) by simp
qed

subsection \<open>The properties at concrete inputs\<close>

definition sample_con_env :: "nat option \<Rightarrow> connection_env" where
  "sample_con_env m = \<lparr>ce_malloc = m, ce_dgram_init = True, ce_reuse_addr = True, ce_alloc = sample_alloc, ce_recv_buffer = True\<rparr>"

lemma calc_1252: "ChunkBuffer2_calc_blocks 1252 1 = 628"
  by (simp add: ChunkBuffer2_calc_blocks_def INT_MAX_def)

lemma sample_pb_1252: "PacketBuffer_Init sample_alloc 1252 1 \<noteq> None"
  by (simp add: PacketBuffer_Init_def calc_1252 sample_alloc_def)

lemma sample_con_ok:
  "gw_udp_mtu c = 1252 \<Longrightarrow> connection_ok (sample_con_env (Some i)) c" "gw_fresh (sample_con_env None) c"
  "gw_fresh (sample_con_env (Some 7)) (SocksUdpGwClient_Init gw_static 1252 n)"
  using sample_pb_1252
  by (simp_all add: connection_ok_def sample_con_env_def gw_fresh_def gw_init_simp)

theorem udp_table_lru_witness:
  "\<exists>c. gw_keys c = [\<lparr>ca_local_addr = BAddrIPv4 1 2, ca_remote_addr = BAddrIPv4 3 4\<rparr>] \<and>
    gw_keys (SocksUdpGwClient_SubmitPacket (sample_con_env None) c (BAddrIPv4 1 2) (BAddrIPv4 5 6) []) =
      [\<lparr>ca_local_addr = BAddrIPv4 1 2, ca_remote_addr = BAddrIPv4 5 6\<rparr>]"
proof -
  let ?init = "SocksUdpGwClient_Init gw_static 1252 1"
  let ?e = "sample_con_env (Some 7)"
  let ?c = "SocksUdpGwClient_SubmitPacket ?e ?init (BAddrIPv4 1 2) (BAddrIPv4 3 4) []"
  have m: "gw_udp_mtu ?init = 1252" "gw_max_connections ?init = 1"
    by (simp_all add: gw_init_simp UINT16_MAX_def)
  have k: "gw_keys ?c = [\<lparr>ca_local_addr = BAddrIPv4 1 2, ca_remote_addr = BAddrIPv4 3 4\<rparr>]"
    using submit_table [OF gw_init_inv(1,2) sample_con_ok(3), of 1 "BAddrIPv4 1 2" "BAddrIPv4 3 4" "[]"]
      gw_init_inv(3) [of 1 1252] m sample_con_ok(1) [OF m(1)] by (simp add: lru_submit_def)
  have "gw_run ?init ([] @ [GwSubmit ?e (BAddrIPv4 1 2) (BAddrIPv4 3 4) []]) ?c"
    using gw_run.step [OF gw_run.start gw_step.submit] sample_con_ok(3) by blast
  then have "gw_keys (SocksUdpGwClient_SubmitPacket (sample_con_env None) ?c (BAddrIPv4 1 2) (BAddrIPv4 5 6) []) =
      [\<lparr>ca_local_addr = BAddrIPv4 1 2, ca_remote_addr = BAddrIPv4 5 6\<rparr>]"
    using udp_table_lru [of 1 1252 _ ?c "sample_con_env None" "BAddrIPv4 1 2" "BAddrIPv4 5 6" "[]"] sample_con_ok(2)
    by (simp add: k lru_submit_def UINT16_MAX_def)
  then show ?thesis using k by blast
qed

theorem udp_submit_one_connection_witness:
  "\<exists>i con. gw_heap (SocksUdpGwClient_SubmitPacket (sample_con_env (Some 7)) (SocksUdpGwClient_Init gw_static 1252 2)
      (BAddrIPv4 1 2) (BAddrIPv4 3 4) [9]) i = Some con \<and> con_first con = Some [9]"
proof -
  have "connection_ok (sample_con_env (Some 7)) (SocksUdpGwClient_Init gw_static 1252 2)"
    by (rule sample_con_ok) (simp add: gw_init_simp)
  moreover have "gw_heap (SocksUdpGwClient_Init gw_static 1252 2) i = None" for i by (simp add: gw_init_simp)
  ultimately obtain i con where
    "gw_heap (SocksUdpGwClient_SubmitPacket (sample_con_env (Some 7)) (SocksUdpGwClient_Init gw_static 1252 2)
      (BAddrIPv4 1 2) (BAddrIPv4 3 4) [9]) = (gw_heap (SocksUdpGwClient_Init gw_static 1252 2))(i \<mapsto> con)"
    "con_first con = Some [9]"
    using udp_submit_one_connection [OF _ gw_run.start sample_con_ok(3), of 2 "BAddrIPv4 1 2" "BAddrIPv4 3 4" "[9]"] by auto
  then show ?thesis by (intro exI [of _ i] exI [of _ con]) simp
qed


theorem udp_free_releases_all_witness:
  "gw_heap (SocksUdpGwClient_Free (SocksUdpGwClient_SubmitPacket (sample_con_env (Some 7))
     (SocksUdpGwClient_Init gw_static 1252 2) (BAddrIPv4 1 2) (BAddrIPv4 3 4) [9])) = Map.empty"
proof -
  have "gw_run (SocksUdpGwClient_Init gw_static 1252 2)
      ([] @ [GwSubmit (sample_con_env (Some 7)) (BAddrIPv4 1 2) (BAddrIPv4 3 4) [9]])
      (SocksUdpGwClient_SubmitPacket (sample_con_env (Some 7)) (SocksUdpGwClient_Init gw_static 1252 2)
         (BAddrIPv4 1 2) (BAddrIPv4 3 4) [9])"
    using gw_run.step [OF gw_run.start gw_step.submit] sample_con_ok(3) by blast
  then show ?thesis using udp_free_releases_all [of 2] by simp
qed

definition sample_connection :: "SocksUdpGwClient_connection" where
  "sample_connection = fresh_connection \<lparr>ca_local_addr = BAddrIPv4 1 2, ca_remote_addr = BAddrIPv4 3 4\<rparr>
     (the (PacketBuffer_Init sample_alloc 1252 1))"

lemma sample_connection_addr [simp]:
  "con_conaddr sample_connection = \<lparr>ca_local_addr = BAddrIPv4 1 2, ca_remote_addr = BAddrIPv4 3 4\<rparr>"
  by (simp add: sample_connection_def fresh_connection_def con_writer_recv_def split: option.split)

theorem udp_reply_accepted_iff_witness:
  "dgram_handler_received (SocksUdpGwClient_Init gw_static 1252 2) sample_connection
     ([5, 6, 0, 3] @ udp_addr_bytes (BAddrIPv4 3 4) @ [8]) = [GwReceived (BAddrIPv4 1 2) (BAddrIPv4 3 4) [8]]"
  by (rule iffD2 [OF udp_reply_accepted_iff])
    (simp_all add: BAddr_is_ip_def gw_init_simp SOCKS_ATYP_IPV6_def)

theorem udp_send_in_order_witness:
  "\<exists>c ins outs rest. fifo_run connection_send con_sent con_payload con_room
      (con_writer_recv \<lparr>con_conaddr = \<lparr>ca_local_addr = BAddrIPv4 1 2, ca_remote_addr = BAddrIPv4 3 4\<rparr>,
         con_first = None, con_out_have = False, con_out = 0,
         con_buffer = the (PacketBuffer_Init sample_alloc 1252 1)\<rparr>)
      [Put [1, 2, 3], Get, Put [4]] = (c, ins, outs) \<and> ins = outs @ rest"
proof -
  let ?a = "\<lparr>ca_local_addr = BAddrIPv4 1 2, ca_remote_addr = BAddrIPv4 3 4\<rparr>"
  obtain pb where pb: "PacketBuffer_Init sample_alloc 1252 1 = Some pb" using sample_pb_1252 by auto
  obtain c ins outs where r: "fifo_run connection_send con_sent con_payload con_room
      (con_writer_recv \<lparr>con_conaddr = ?a, con_first = None, con_out_have = False, con_out = 0, con_buffer = pb\<rparr>)
      [Put [1, 2, 3], Get, Put [4]] = (c, ins, outs)" by (metis prod_cases3)
  have "\<exists>rest. ins = outs @ rest \<and> (outs = ins \<longleftrightarrow> con_payload c = None)"
    by (rule udp_send_in_order [OF pb _ _ _ _ r]) (simp_all add: sample_alloc BAddr_is_ip_def)
  then show ?thesis using r pb by auto
qed

theorem udp_send_overflow_witness:
  "\<exists>pb. PacketBuffer_Init sample_alloc 1252 1 = Some pb \<and>
    length (cb_buffer (pb_buf (con_buffer (connection_send ((send_one [] ^^ 78) (fresh_connection
        \<lparr>ca_local_addr = BAddrIPv4 1 2, ca_remote_addr = BAddrIPv4 3 4\<rparr> pb)) (replicate 1252 0))))) =
      length (cb_buffer (pb_buf (con_buffer ((send_one [] ^^ 78) (fresh_connection
        \<lparr>ca_local_addr = BAddrIPv4 1 2, ca_remote_addr = BAddrIPv4 3 4\<rparr> pb))))) + 2"
proof -
  obtain pb where pb: "PacketBuffer_Init sample_alloc 1252 1 = Some pb" using sample_pb_1252 by auto
  show ?thesis
    using udp_send_overflow [OF tun_mtu_1280 pb sample_alloc,
        of "\<lparr>ca_local_addr = BAddrIPv4 1 2, ca_remote_addr = BAddrIPv4 3 4\<rparr>" 3 4 "replicate 1252 0"] pb by auto
qed

end
