(* ===== verification/DnsName.thy ===== *)
theory DnsName
  imports ByteOrder "HOL-Library.Monad_Syntax"
begin

text \<open>
  Domain names of pdnsd (pdnsd/src/helpers.c, helpers.h): the transport format, a sequence of labels
  each preceded by its length and ended by a length of 0, and the conversions from and to dotted
  strings. A pointer to memory is the list of bytes from there to the end of the object; a read or a
  write outside it makes the result \<open>None\<close>. A C string is the list of its characters without the
  final 0. The C library's character functions are those of the C locale.
\<close>

subsection \<open>Memory accesses and characters\<close>

definition byte_at :: "byte list \<Rightarrow> nat \<Rightarrow> byte option" where
  "byte_at m i = (if i < length m then Some (m ! i) else None)"

definition byte_set :: "byte list \<Rightarrow> nat \<Rightarrow> byte \<Rightarrow> byte list option" where
  "byte_set m i v = (if i < length m then Some (m[i := v]) else None)"

text \<open>\<open>str[j]\<close> of a C string.\<close>

definition cstr_at :: "byte list \<Rightarrow> nat \<Rightarrow> byte" where
  "cstr_at str j = (if j < length str then str ! j else 0)"

definition c_tolower :: "byte \<Rightarrow> byte" where
  "c_tolower c = (if 65 \<le> c \<and> c \<le> 90 then c + 32 else c)"

definition c_toupper :: "byte \<Rightarrow> byte" where
  "c_toupper c = (if 97 \<le> c \<and> c \<le> 122 then c - 32 else c)"

definition c_isgraph :: "byte \<Rightarrow> bool" where
  "c_isgraph c \<longleftrightarrow> 33 \<le> c \<and> c \<le> 126"

definition DOT :: byte where "DOT = 46"
definition BACKSLASH :: byte where "BACKSLASH = 92"
definition QUOTE :: byte where "QUOTE = 34"

definition DNSNAMEBUFSIZE :: nat where "DNSNAMEBUFSIZE = 256"

subsection \<open>Names in transport format\<close>

function rhnlen_from :: "byte list \<Rightarrow> nat \<Rightarrow> nat option" where
  "rhnlen_from rhn i = (case byte_at rhn i of
     None \<Rightarrow> None
   | Some lb \<Rightarrow> if lb = 0 then Some (i + 1) else rhnlen_from rhn (i + 1 + unat lb))"
  by pat_completeness auto
termination
  by (relation "measure (\<lambda>(rhn, i). length rhn - i)") (auto simp: byte_at_def split: if_splits)

definition rhnlen :: "byte list \<Rightarrow> nat option" where
  "rhnlen rhn = rhnlen_from rhn 0"

fun skipsegs :: "byte list \<Rightarrow> nat \<Rightarrow> byte list option" where
  "skipsegs nm 0 = Some nm"
| "skipsegs nm (Suc k) = (case byte_at nm 0 of
     None \<Rightarrow> None
   | Some lb \<Rightarrow> if lb = 0 then Some nm else skipsegs (drop (unat lb + 1) nm) k)"

function skiprhn :: "byte list \<Rightarrow> byte list option" where
  "skiprhn rhn = (case byte_at rhn 0 of
     None \<Rightarrow> None
   | Some lb \<Rightarrow> if lb = 0 then Some (drop 1 rhn) else skiprhn (drop (unat lb) (drop 1 rhn)))"
  by pat_completeness auto
termination
  by (relation "measure length") (auto simp: byte_at_def split: if_splits)

function rhnsegcnt :: "byte list \<Rightarrow> nat option" where
  "rhnsegcnt rhn = (case byte_at rhn 0 of
     None \<Rightarrow> None
   | Some lb \<Rightarrow> if lb = 0 then Some 0 else map_option Suc (rhnsegcnt (drop (unat lb + 1) rhn)))"
  by pat_completeness auto
termination
  by (relation "measure length") (auto simp: byte_at_def split: if_splits)

text \<open>A failed \<open>PDNSD_ASSERT\<close> ends the process and is \<open>None\<close> too.\<close>

definition rhncpy :: "byte list \<Rightarrow> byte list \<Rightarrow> (nat \<times> byte list) option" where
  "rhncpy dst src = do {
     len \<leftarrow> rhnlen src;
     if len \<le> DNSNAMEBUFSIZE \<and> len \<le> length dst then Some (len, mem_write dst 0 (take len src)) else None
   }"

function isnormalencdomname_from :: "byte list \<Rightarrow> nat \<Rightarrow> nat \<Rightarrow> bool option" where
  "isnormalencdomname_from rhn maxlen i =
     (if i \<ge> maxlen then Some False
      else case byte_at rhn i of
        None \<Rightarrow> None
      | Some lb \<Rightarrow>
          if lb = 0 then Some True
          else if lb > 0x3f then Some False
          else isnormalencdomname_from rhn maxlen (i + 1 + unat lb))"
  by pat_completeness auto
termination
  by (relation "measure (\<lambda>(rhn, maxlen, i). maxlen - i)") auto

definition isnormalencdomname :: "byte list \<Rightarrow> nat \<Rightarrow> bool option" where
  "isnormalencdomname rhn maxlen =
     isnormalencdomname_from rhn (if maxlen > DNSNAMEBUFSIZE then DNSNAMEBUFSIZE else maxlen) 0"

text \<open>The inner loop over the \<open>lb\<close> characters of a label, from position \<open>i\<close>.\<close>

fun rhnicmp_label :: "byte list \<Rightarrow> byte list \<Rightarrow> nat \<Rightarrow> nat \<Rightarrow> bool option" where
  "rhnicmp_label a b i 0 = Some True"
| "rhnicmp_label a b i (Suc lb) = do {
     ca \<leftarrow> byte_at a i;
     cb \<leftarrow> byte_at b i;
     if c_tolower ca \<noteq> c_tolower cb then Some False else rhnicmp_label a b (i + 1) lb
   }"

function rhnicmp_from :: "byte list \<Rightarrow> byte list \<Rightarrow> nat \<Rightarrow> bool option" where
  "rhnicmp_from a b i = (case byte_at a i of
     None \<Rightarrow> None
   | Some lb \<Rightarrow> (case byte_at b i of
       None \<Rightarrow> None
     | Some lb' \<Rightarrow>
         if lb \<noteq> lb' then Some False
         else if lb = 0 then Some True
         else (case rhnicmp_label a b (i + 1) (unat lb) of
             None \<Rightarrow> None
           | Some eq \<Rightarrow> if \<not> eq then Some False else rhnicmp_from a b (i + 1 + unat lb))))"
  by pat_completeness auto
termination
  by (relation "measure (\<lambda>(a, b, i). length a - i)") (auto simp: byte_at_def split: if_splits)

definition rhnicmp :: "byte list \<Rightarrow> byte list \<Rightarrow> bool option" where
  "rhnicmp a b = rhnicmp_from a b 0"

declare rhnlen_from.simps [simp del] skiprhn.simps [simp del] rhnsegcnt.simps [simp del]
  isnormalencdomname_from.simps [simp del] rhnicmp_from.simps [simp del]

subsection \<open>Dotted strings\<close>

text \<open>
  The inner loop of \<open>str2rhn\<close> copies one label behind its length byte; the result says whether the
  label ended before the limit.
\<close>

function str2rhn_label :: "byte list \<Rightarrow> nat \<Rightarrow> nat \<Rightarrow> byte list \<Rightarrow> (bool \<times> nat \<times> byte list) option" where
  "str2rhn_label str jlim j rhn =
     (if cstr_at str j \<noteq> 0 \<and> cstr_at str j \<noteq> DOT then
        if j \<ge> jlim then Some (False, j, rhn)
        else case byte_set rhn (j + 1) (cstr_at str j) of
          None \<Rightarrow> None
        | Some rhn \<Rightarrow> str2rhn_label str jlim (j + 1) rhn
      else Some (True, j, rhn))"
  by pat_completeness auto
termination
  by (relation "measure (\<lambda>(str, jlim, j, rhn). jlim - j)") auto

declare str2rhn_label.simps [simp del]

lemma str2rhn_label_pos: "str2rhn_label str jlim j rhn = Some (ok, j', rhn') \<Longrightarrow> j \<le> j'"
  by (induction str jlim j rhn rule: str2rhn_label.induct)
    (subst (asm) (2) str2rhn_label.simps, auto split: if_splits option.splits)

lemma cstr_at_end: "cstr_at str j \<noteq> 0 \<Longrightarrow> j < length str"
  by (simp add: cstr_at_def split: if_splits)

function str2rhn_from :: "byte list \<Rightarrow> nat \<Rightarrow> byte list \<Rightarrow> (bool \<times> byte list) option" where
  "str2rhn_from str i rhn =
     (case str2rhn_label str (min (i + 63) (DNSNAMEBUFSIZE - 2)) i rhn of
        None \<Rightarrow> None
      | Some (ok, j, rhn) \<Rightarrow>
          if \<not> ok then Some (False, rhn)
          else if cstr_at str j = 0 then do {
            rhn \<leftarrow> byte_set rhn i 0;
            Some (if j > i \<or> i = 0 then False else True, rhn)
          }
          else if j \<le> i then Some (False, rhn)
          else case byte_set rhn i (word_of_nat (j - i)) of
            None \<Rightarrow> None
          | Some rhn \<Rightarrow> str2rhn_from str (j + 1) rhn)"
  by pat_completeness auto
termination
  by (relation "measure (\<lambda>(str, i, rhn). length str - i)")
    (auto dest!: cstr_at_end str2rhn_label_pos)

declare str2rhn_from.simps [simp del]

definition str2rhn :: "byte list \<Rightarrow> byte list \<Rightarrow> (bool \<times> byte list) option" where
  "str2rhn str rhn =
     (if cstr_at str 0 = DOT \<and> cstr_at str 1 = 0
      then map_option (Pair True) (byte_set rhn 0 0)
      else str2rhn_from str 0 rhn)"

text \<open>\<open>parsestr2rhn\<close> reads at most \<open>len\<close> characters; its inner loop is that of \<open>str2rhn\<close> on them. The
  result is the error message, \<open>None\<close> for \<open>NULL\<close>, and the buffer.\<close>

definition parsestr2rhn_end :: "nat \<Rightarrow> byte list \<Rightarrow> (string option \<times> byte list) option" where
  "parsestr2rhn_end i rhn = do {
     rhn \<leftarrow> byte_set rhn i 0;
     Some (if i = 0 then Some ''Empty domain name not allowed'' else None, rhn)
   }"

function parsestr2rhn_from :: "byte list \<Rightarrow> nat \<Rightarrow> byte list \<Rightarrow> (string option \<times> byte list) option" where
  "parsestr2rhn_from str i rhn =
     (case str2rhn_label str (min (i + 63) (DNSNAMEBUFSIZE - 2)) i rhn of
        None \<Rightarrow> None
      | Some (ok, j, rhn) \<Rightarrow>
          if \<not> ok then Some (Some ''Domain name element too long'', rhn)
          else if j \<le> i then
            (if cstr_at str j \<noteq> 0 then Some (Some ''Empty name element in domain name'', rhn)
             else parsestr2rhn_end i rhn)
          else case byte_set rhn i (word_of_nat (j - i)) of
            None \<Rightarrow> None
          | Some rhn \<Rightarrow>
              if cstr_at str j \<noteq> 0 then parsestr2rhn_from str (j + 1) rhn
              else parsestr2rhn_end (j + 1) rhn)"
  by pat_completeness auto
termination
  by (relation "measure (\<lambda>(str, i, rhn). length str - i)")
    (auto dest!: cstr_at_end)

declare parsestr2rhn_from.simps [simp del]

definition parsestr2rhn :: "byte list \<Rightarrow> nat \<Rightarrow> byte list \<Rightarrow> (string option \<times> byte list) option" where
  "parsestr2rhn str len rhn =
     (if len > 0 \<and> cstr_at str 0 = DOT \<and> (len = 1 \<or> cstr_at str 1 = 0)
      then map_option (Pair None) (byte_set rhn 0 0)
      else parsestr2rhn_from (take len str) 0 rhn)"

text \<open>\<open>snprintf(p, rem, "\\%03o", c)\<close>: the text it writes in full; it returns 4.\<close>

definition octal_escape :: "byte \<Rightarrow> byte list" where
  "octal_escape c = [BACKSLASH, 48 + drop_bit 6 c, 48 + (drop_bit 3 c AND 7), 48 + (c AND 7)]"

text \<open>One label of \<open>rhn2str\<close>: \<open>Inl\<close> is the jump to \<open>overflow\<close>.\<close>

fun rhn2str_label :: "byte list \<Rightarrow> nat \<Rightarrow> nat \<Rightarrow> nat \<Rightarrow> nat \<Rightarrow> byte list \<Rightarrow> (byte list + nat \<times> nat \<times> byte list) option" where
  "rhn2str_label rhn sz 0 i j str = Some (Inr (i, j, str))"
| "rhn2str_label rhn sz (Suc lb) i j str =
     (if j + 2 \<ge> sz then Some (Inl str)
      else case byte_at rhn i of
        None \<Rightarrow> None
      | Some c \<Rightarrow>
          if c_isgraph c then
            (if c = DOT \<or> c = BACKSLASH \<or> c = QUOTE then
               case byte_set str j BACKSLASH of
                 None \<Rightarrow> None
               | Some str \<Rightarrow>
                   if j + 1 + 2 \<ge> sz then Some (Inl str)
                   else (case byte_set str (j + 1) c of
                       None \<Rightarrow> None
                     | Some str \<Rightarrow> rhn2str_label rhn sz lb (i + 1) (j + 1 + 1) str)
             else (case byte_set str j c of
                 None \<Rightarrow> None
               | Some str \<Rightarrow> rhn2str_label rhn sz lb (i + 1) (j + 1) str))
          else
            let rem = sz - 1 - j;
                str = mem_write str j (take (rem - 1) (octal_escape c) @ [0]) in
            if 4 \<ge> rem then map_option Inl (byte_set str j DOT)
            else rhn2str_label rhn sz lb (i + 1) (j + 4) str)"

lemma rhn2str_label_pos:
  "rhn2str_label rhn sz lb i j str = Some (Inr (i', j', str')) \<Longrightarrow> i' = i + lb"
  by (induction rhn sz lb i j str rule: rhn2str_label.induct)
    (auto simp: Let_def split: if_splits option.splits)

definition rhn2str_overflow :: "nat \<Rightarrow> byte list \<Rightarrow> byte list option" where
  "rhn2str_overflow sz str = do {
     str \<leftarrow> byte_set str (sz - 1) 0;
     if sz - 1 > 0 then do {
       str \<leftarrow> byte_set str (sz - 2) DOT;
       if sz - 2 > 0 then do {
         str \<leftarrow> byte_set str (sz - 3) DOT;
         if sz - 3 > 0 then byte_set str (sz - 4) DOT else Some str
       } else Some str
     } else Some str
   }"

function rhn2str_from :: "byte list \<Rightarrow> nat \<Rightarrow> byte \<Rightarrow> nat \<Rightarrow> nat \<Rightarrow> byte list \<Rightarrow> byte list option" where
  "rhn2str_from rhn sz lb i j str =
     (case rhn2str_label rhn sz (unat lb) i j str of
        None \<Rightarrow> None
      | Some (Inl str) \<Rightarrow> rhn2str_overflow sz str
      | Some (Inr (i, j, str)) \<Rightarrow>
          (case byte_set str j DOT of
             None \<Rightarrow> None
           | Some str \<Rightarrow> (case byte_at rhn i of
               None \<Rightarrow> None
             | Some lb \<Rightarrow> if lb \<noteq> 0 then rhn2str_from rhn sz lb (i + 1) (j + 1) str
                 else byte_set str (j + 1) 0)))"
  by pat_completeness auto
termination
  by (relation "measure (\<lambda>(rhn, sz, lb, i, j, str). length rhn - i)")
    (auto dest!: rhn2str_label_pos simp: byte_at_def split: if_splits)

declare rhn2str_from.simps [simp del]

text \<open>The result is the buffer \<open>str\<close>; \<open>NULL\<close> for a size of 0 is \<open>Inl ()\<close>.\<close>

definition rhn2str :: "byte list \<Rightarrow> byte list \<Rightarrow> nat \<Rightarrow> (unit + byte list) option" where
  "rhn2str rhn str sz =
     (if sz = 0 then Some (Inl ())
      else case byte_at rhn 0 of
        None \<Rightarrow> None
      | Some lb \<Rightarrow>
          map_option Inr
            (if lb = 0 then
               (if sz \<ge> 2 then do { str \<leftarrow> byte_set str 0 DOT; byte_set str 1 0 }
                else byte_set str 0 0)
             else rhn2str_from rhn sz lb 1 0 str))"

end
