(* ===== verification/DnsNameProperties.thy ===== *)
theory DnsNameProperties
  imports DnsName
begin

text \<open>
  The transport format as an encoding of lists of labels, and what the functions of DnsName do on it:
  length, copying, comparison, validation, parsing and printing.
\<close>

subsection \<open>Names as lists of labels\<close>

fun enc_labels :: "byte list list \<Rightarrow> byte list" where
  "enc_labels [] = []"
| "enc_labels (l # ls) = word_of_nat (length l) # l @ enc_labels ls"

definition enc_name :: "byte list list \<Rightarrow> byte list" where
  "enc_name ls = enc_labels ls @ [0]"

definition label_ok :: "byte list \<Rightarrow> bool" where
  "label_ok l \<longleftrightarrow> 1 \<le> length l \<and> length l \<le> 63"

definition name_ok :: "byte list list \<Rightarrow> bool" where
  "name_ok ls \<longleftrightarrow> list_all label_ok ls \<and> length (enc_name ls) \<le> DNSNAMEBUFSIZE"

lemma enc_name_simps [simp]:
  "enc_name [] = [0]" "enc_name (l # ls) = word_of_nat (length l) # l @ enc_name ls"
  by (simp_all add: enc_name_def)

lemma enc_labels_append: "enc_labels (xs @ ys) = enc_labels xs @ enc_labels ys"
  by (induction xs) simp_all

lemma enc_name_append: "enc_name (xs @ ys) = enc_labels xs @ enc_name ys"
  by (simp add: enc_name_def enc_labels_append)

text \<open>The length byte of a label.\<close>

definition lab_len :: "byte list \<Rightarrow> bool" where
  "lab_len l \<longleftrightarrow> 1 \<le> length l \<and> length l \<le> 255"

lemma label_ok_len: "label_ok l \<Longrightarrow> lab_len l"
  by (simp add: label_ok_def lab_len_def)

lemma unat_len [simp]: "length l \<le> 255 \<Longrightarrow> unat (word_of_nat (length l) :: byte) = length l"
  by (simp add: unat_of_nat)

lemma lab_len_byte:
  assumes "lab_len l"
  shows "(word_of_nat (length l) :: byte) \<noteq> 0" "unat (word_of_nat (length l) :: byte) = length l"
proof -
  show u: "unat (word_of_nat (length l) :: byte) = length l" using assms by (simp add: lab_len_def)
  show "(word_of_nat (length l) :: byte) \<noteq> 0"
    using assms u by (metis lab_len_def not_one_le_zero unat_0)
qed

lemma byte_at_append [simp]:
  "length p = i \<Longrightarrow> byte_at (p @ c # r) i = Some c" "byte_at (c # r) 0 = Some c"
  by (simp_all add: byte_at_def nth_append)

lemma byte_at_shift: "byte_at (p @ r) (length p + i) = byte_at r i"
  by (simp add: byte_at_def nth_append)

subsection \<open>Length and skipping\<close>

lemma rhnlen_from_enc:
  "list_all lab_len ls \<Longrightarrow> rhnlen_from (p @ enc_name ls @ r) (length p) = Some (length p + length (enc_name ls))"
proof (induction ls arbitrary: p)
  case Nil
  then show ?case by (simp add: rhnlen_from.simps)
next
  case (Cons l ls)
  note b = lab_len_byte [of l]
  have "rhnlen_from ((p @ word_of_nat (length l) # l) @ enc_name ls @ r) (length (p @ word_of_nat (length l) # l)) =
      Some (length (p @ word_of_nat (length l) # l) + length (enc_name ls))"
    using Cons by (intro Cons.IH) simp
  then show ?case using b Cons.prems by (subst rhnlen_from.simps) simp
qed

lemma rhnlen_enc: "list_all lab_len ls \<Longrightarrow> rhnlen (enc_name ls @ r) = Some (length (enc_name ls))"
  using rhnlen_from_enc [of ls "[]" r] by (simp add: rhnlen_def)

lemma skiprhn_enc: "list_all lab_len ls \<Longrightarrow> skiprhn (enc_name ls @ r) = Some r"
  by (induction ls) (simp_all add: skiprhn.simps lab_len_byte)

lemma skipsegs_enc:
  "list_all lab_len ls \<Longrightarrow> skipsegs (enc_name ls @ r) k = Some (enc_name (drop k ls) @ r)"
proof (induction ls arbitrary: k)
  case Nil
  then show ?case by (cases k) simp_all
next
  case (Cons l ls)
  then show ?case by (cases k) (simp_all add: lab_len_byte)
qed

lemma rhnsegcnt_enc: "list_all lab_len ls \<Longrightarrow> rhnsegcnt (enc_name ls @ r) = Some (length ls)"
  by (induction ls) (simp_all add: rhnsegcnt.simps lab_len_byte)

lemma name_ok_lab_len: "name_ok ls \<Longrightarrow> list_all lab_len ls"
  by (auto simp: name_ok_def list_all_iff label_ok_len)

subsection \<open>Comparison\<close>

lemma rhnicmp_label_eq:
  assumes "length x = n" "length y = n" "length p = length q"
  shows "rhnicmp_label (p @ x @ r) (q @ y @ s) (length p) n = Some (map c_tolower x = map c_tolower y)"
  using assms
proof (induction n arbitrary: x y p q)
  case (Suc n)
  then obtain a x' b y' where xy: "x = a # x'" "y = b # y'" "length x' = n" "length y' = n"
    by (auto simp: length_Suc_conv)
  have "byte_at (q @ b # y' @ s) (length p) = Some b" using Suc.prems by simp
  moreover have "rhnicmp_label ((p @ [a]) @ x' @ r) ((q @ [b]) @ y' @ s) (length (p @ [a])) n =
      Some (map c_tolower x' = map c_tolower y')"
    using Suc.IH [OF xy(3,4), of "p @ [a]" "q @ [b]"] Suc.prems by simp
  ultimately show ?case using xy by simp
qed simp

lemma rhnicmp_step:
  "byte_at a i = Some n \<Longrightarrow> byte_at b i = Some n \<Longrightarrow> n \<noteq> 0 \<Longrightarrow> rhnicmp_label a b (i + 1) (unat n) = Some e \<Longrightarrow>
   rhnicmp_from a b i = (if e then rhnicmp_from a b (i + 1 + unat n) else Some False)"
  by (subst rhnicmp_from.simps) simp

lemma rhnicmp_from_enc:
  assumes "list_all lab_len xs" "list_all lab_len ys" "length p = length q"
  shows "rhnicmp_from (p @ enc_name xs @ r) (q @ enc_name ys @ s) (length p) =
    Some (map (map c_tolower) xs = map (map c_tolower) ys)"
  using assms
proof (induction xs arbitrary: ys p q)
  case Nil
  show ?case using Nil lab_len_byte by (cases ys) (auto simp: rhnicmp_from.simps)
next
  case (Cons x xs)
  note bx = lab_len_byte [of x]
  show ?case
  proof (cases ys)
    case Nil
    then show ?thesis
      using Cons.prems bx by (simp add: rhnicmp_from.simps)
  next
    case (Cons y ys')
    have by': "lab_len y" using Cons.prems Cons by simp
    have rest: "list_all lab_len xs" "list_all lab_len ys'" using Cons.prems Cons by simp_all
    note b = lab_len_byte [OF by']
    have e: "(word_of_nat (length x) :: byte) = word_of_nat (length y) \<longleftrightarrow> length x = length y"
      using bx b Cons.prems by (metis list.pred_inject(2))
    have q: "byte_at (q @ word_of_nat (length y) # y @ enc_name ys' @ s) (length p) = Some (word_of_nat (length y))"
      using Cons.prems(3) by simp
    show ?thesis
    proof (cases "length x = length y")
      case False
      then have "map c_tolower x \<noteq> map c_tolower y" using map_eq_imp_length_eq by blast
      then show ?thesis using Cons q e False by (simp add: rhnicmp_from.simps)
    next
      case True
      have pq: "length (p @ word_of_nat (length x) # x) = length (q @ word_of_nat (length y) # y)"
        using True Cons.prems(3) by simp
      have l: "rhnicmp_label (p @ word_of_nat (length x) # x @ enc_name xs @ r)
          (q @ word_of_nat (length y) # y @ enc_name ys' @ s) (length p + 1) (length x) =
          Some (map c_tolower x = map c_tolower y)"
        using rhnicmp_label_eq [OF refl True [symmetric], of "p @ [word_of_nat (length x)]" "q @ [word_of_nat (length y)]"
            "enc_name xs @ r" "enc_name ys' @ s"] Cons.prems(3) by simp
      have rec: "rhnicmp_from (p @ word_of_nat (length x) # x @ enc_name xs @ r)
          (q @ word_of_nat (length y) # y @ enc_name ys' @ s) (length p + 1 + length x) =
          Some (map (map c_tolower) xs = map (map c_tolower) ys')"
        using Cons.IH [of ys' "p @ word_of_nat (length x) # x" "q @ word_of_nat (length y) # y"] rest pq by simp
      have n: "(word_of_nat (length x) :: byte) \<noteq> 0" "unat (word_of_nat (length x) :: byte) = length x"
        using bx Cons.prems(1) by simp_all
      have a: "byte_at (p @ word_of_nat (length x) # x @ enc_name xs @ r) (length p) = Some (word_of_nat (length x))"
        by simp
      note s = rhnicmp_step [OF a q [folded True] n(1), unfolded n(2), OF l [folded True]]
      show ?thesis using Cons s rec True by simp
    qed
  qed
qed

lemma rhnicmp_enc:
  assumes "list_all lab_len xs" "list_all lab_len ys"
  shows "rhnicmp (enc_name xs @ r) (enc_name ys @ s) = Some (map (map c_tolower) xs = map (map c_tolower) ys)"
  using rhnicmp_from_enc [OF assms, of "[]" "[]"] by (simp add: rhnicmp_def)

subsection \<open>Validation\<close>

lemma drop_add_append: "drop i xs = a @ b \<Longrightarrow> drop (i + length a) xs = b"
  by (metis add.commute append_eq_conv_conj drop_drop)

lemma byte_at_drop: "byte_at m i = Some c \<longleftrightarrow> drop i m \<noteq> [] \<and> hd (drop i m) = c"
  by (auto simp: byte_at_def hd_drop_conv_nth)

lemma drop_byte_at: "byte_at m i = Some c \<Longrightarrow> drop i m = c # drop (i + 1) m"
  by (auto simp: byte_at_def Cons_nth_drop_Suc split: if_splits)

lemma isnormal_sound:
  assumes "isnormalencdomname_from m k i = Some True" "k \<le> length m"
  shows "\<exists>ls r. drop i m = enc_name ls @ r \<and> list_all label_ok ls \<and> i + length (enc_name ls) \<le> k"
  using assms
proof (induction m k i rule: isnormalencdomname_from.induct)
  case (1 m k i)
  then have ik: "i < k" by (subst (asm) isnormalencdomname_from.simps) (simp split: if_splits)
  then obtain c where c: "byte_at m i = Some c" using 1 by (auto simp: byte_at_def)
  show ?case
  proof (cases "c = 0")
    case True
    then have "drop i m = enc_name [] @ drop (i + 1) m" using drop_byte_at [OF c] by simp
    then show ?thesis using ik by (intro exI [of _ "[]"] exI [of _ "drop (i + 1) m"]) simp
  next
    case False
    have "c \<le> 0x3f" using 1(2) ik c False by (subst (asm) isnormalencdomname_from.simps) (simp split: if_splits)
    then have le: "1 \<le> unat c" "unat c \<le> 63" using False by (auto simp: word_le_nat_alt unat_gt_0 Suc_le_eq)
    have "isnormalencdomname_from m k (i + 1 + unat c) = isnormalencdomname_from m k i"
      using ik c False \<open>c \<le> 0x3f\<close> by (subst (2) isnormalencdomname_from.simps) (auto simp: not_less)
    then obtain ls r where r: "drop (i + 1 + unat c) m = enc_name ls @ r" "list_all label_ok ls"
        "i + 1 + unat c + length (enc_name ls) \<le> k"
      using 1(1) [OF _ c False] 1(2,3) ik \<open>c \<le> 0x3f\<close> by (auto simp: not_less)
    let ?l = "take (unat c) (drop (i + 1) m)"
    have "0 < length (enc_name ls)" by (simp add: enc_name_def)
    then have l: "length ?l = unat c" using r 1(3) by simp
    have "drop (i + 1) m = ?l @ enc_name ls @ r"
      using r(1) append_take_drop_id [of "unat c" "drop (i + 1) m"] by (simp add: add.commute)
    then have "drop i m = enc_name (?l # ls) @ r" using drop_byte_at [OF c] l by simp
    moreover have "label_ok ?l" using l le unfolding label_ok_def by simp
    ultimately show ?thesis using r l by (intro exI [of _ "?l # ls"]) auto
  qed
qed

lemma isnormal_complete:
  assumes "drop i m = enc_name ls @ r" "list_all label_ok ls" "i + length (enc_name ls) \<le> k"
  shows "isnormalencdomname_from m k i = Some True"
  using assms
proof (induction ls arbitrary: i)
  case Nil
  then have "byte_at m i = Some 0" "i < k" by (simp_all add: byte_at_drop)
  then show ?case by (simp add: isnormalencdomname_from.simps)
next
  case (Cons l ls)
  let ?n = "word_of_nat (length l) :: byte"
  have lo: "lab_len l" "length l \<le> 63" using Cons.prems label_ok_len by (auto simp: label_ok_def)
  note n = lab_len_byte [OF lo(1)]
  have b: "byte_at m i = Some ?n" using Cons.prems by (simp add: byte_at_drop)
  have "drop (i + 1 + length l) m = enc_name ls @ r"
    using drop_add_append [of i m "word_of_nat (length l) # l"] Cons.prems(1) by simp
  then have "isnormalencdomname_from m k (i + 1 + length l) = Some True"
    using Cons.prems by (intro Cons.IH) simp_all
  moreover have "\<not> ?n > 0x3f" using n lo by (simp add: word_less_nat_alt)
  moreover have "i < k" using Cons.prems by simp
  ultimately show ?case using b n by (subst isnormalencdomname_from.simps) simp
qed

lemma isnormal_total: "k \<le> length m \<Longrightarrow> isnormalencdomname_from m k i \<noteq> None"
proof (induction m k i rule: isnormalencdomname_from.induct)
  case (1 m k i)
  then show ?case
    by (subst isnormalencdomname_from.simps) (auto simp: byte_at_def)
qed

lemma isnormal_iff:
  assumes "min k DNSNAMEBUFSIZE \<le> length m"
  shows "isnormalencdomname m k =
    Some (\<exists>ls r. m = enc_name ls @ r \<and> list_all label_ok ls \<and> length (enc_name ls) \<le> min k DNSNAMEBUFSIZE)"
proof -
  let ?k = "min k DNSNAMEBUFSIZE"
  have e: "isnormalencdomname m k = isnormalencdomname_from m ?k 0"
    by (simp add: isnormalencdomname_def min_def not_less)
  obtain b where b: "isnormalencdomname_from m ?k 0 = Some b" using isnormal_total [OF assms] by fastforce
  then show ?thesis
    using isnormal_sound [OF _ assms, of 0] isnormal_complete [of 0 m _ _ ?k] by (cases b) (auto simp: e)
qed

subsection \<open>Dotted strings\<close>

fun dotted :: "byte list list \<Rightarrow> byte list" where
  "dotted [] = []"
| "dotted (l # ls) = l @ DOT # dotted ls"

definition label_str :: "byte list \<Rightarrow> bool" where
  "label_str l \<longleftrightarrow> label_ok l \<and> 0 \<notin> set l \<and> DOT \<notin> set l"

definition print_name :: "byte list list \<Rightarrow> byte list" where
  "print_name ls = (if ls = [] then [DOT] else dotted ls)"

lemma length_dotted: "length (enc_name ls) = length (dotted ls) + 1"
  by (induction ls) simp_all

lemma mem_write_Cons:
  "off < length m \<Longrightarrow> mem_write m off (c # d) = mem_write (m[off := c]) (off + 1) d"
  by (simp add: mem_write_def upd_conv_take_nth_drop take_Suc_conv_app_nth ac_simps)

lemma mem_write_upd_before:
  "off + 1 + length d \<le> length m \<Longrightarrow> (mem_write m (off + 1) d)[off := c] = mem_write m off (c # d)"
  by (rule nth_equalityI) (auto simp: nth_list_update nth_mem_write)

definition label_chars :: "byte list \<Rightarrow> nat \<Rightarrow> byte list" where
  "label_chars str j = takeWhile (\<lambda>c. c \<noteq> 0 \<and> c \<noteq> DOT) (drop j str)"

lemma label_chars_step:
  "label_chars str j = (if cstr_at str j \<noteq> 0 \<and> cstr_at str j \<noteq> DOT then cstr_at str j # label_chars str (j + 1) else [])"
proof (cases "j < length str")
  case True
  then show ?thesis by (simp add: label_chars_def cstr_at_def Cons_nth_drop_Suc [symmetric])
next
  case False
  then show ?thesis by (simp add: label_chars_def cstr_at_def)
qed

lemma str2rhn_label_spec:
  assumes "length rhn = DNSNAMEBUFSIZE" "jlim \<le> DNSNAMEBUFSIZE - 2"
  shows "if length (label_chars str j) \<le> jlim - j
    then str2rhn_label str jlim j rhn = Some (True, j + length (label_chars str j), mem_write rhn (j + 1) (label_chars str j))
    else \<exists>j' rhn'. str2rhn_label str jlim j rhn = Some (False, j', rhn') \<and> length rhn' = DNSNAMEBUFSIZE"
  using assms
proof (induction str jlim j rhn rule: str2rhn_label.induct)
  case (1 str jlim j rhn)
  show ?case
  proof (cases "cstr_at str j \<noteq> 0 \<and> cstr_at str j \<noteq> DOT")
    case False
    then have "label_chars str j = []" by (subst label_chars_step) simp
    then show ?thesis using False by (subst (1 2) str2rhn_label.simps) auto
  next
    case True
    then have c: "label_chars str j = cstr_at str j # label_chars str (j + 1)" by (subst label_chars_step) simp
    show ?thesis
    proof (cases "j \<ge> jlim")
      case True
      then show ?thesis using c 1(2) \<open>cstr_at str j \<noteq> 0 \<and> _\<close> by (subst (1 2) str2rhn_label.simps) auto
    next
      case False
      let ?r = "rhn[j + 1 := cstr_at str j]"
      have j: "j + 1 < length rhn" using False 1(2,3) by (simp add: DNSNAMEBUFSIZE_def)
      then have s: "byte_set rhn (j + 1) (cstr_at str j) = Some ?r" by (simp add: byte_set_def)
      then have e: "str2rhn_label str jlim j rhn = str2rhn_label str jlim (j + 1) ?r"
        using True False by (subst str2rhn_label.simps) simp
      have w: "mem_write rhn (j + 1) (label_chars str j) = mem_write ?r (j + 1 + 1) (label_chars str (j + 1))"
        unfolding c using j by (rule mem_write_Cons)
      have l: "length (label_chars str j) \<le> jlim - j \<longleftrightarrow> length (label_chars str (j + 1)) \<le> jlim - (j + 1)"
        using c False by auto
      have "length (label_chars str j) = length (label_chars str (j + 1)) + 1" by (simp add: c)
      then show ?thesis using 1(1) [OF True False s] 1(2,3) unfolding e w l by (simp split: if_splits)
    qed
  qed
qed

lemma label_chars_label:
  assumes "label_str l" "drop j str = l @ DOT # r"
  shows "label_chars str j = l"
proof -
  have "c \<noteq> 0 \<and> c \<noteq> DOT" if "c \<in> set l" for c using that assms(1) by (auto simp: label_str_def)
  then show ?thesis unfolding label_chars_def assms(2) by (subst takeWhile_append2) auto
qed

lemma cstr_at_drop: "cstr_at str j = (if drop j str = [] then 0 else hd (drop j str))"
  by (simp add: cstr_at_def hd_drop_conv_nth)

lemma str2rhn_from_complete:
  assumes "drop i str = dotted ls" "list_all label_str ls" "i + length (dotted ls) \<le> DNSNAMEBUFSIZE - 1"
    "i \<noteq> 0 \<or> ls \<noteq> []" "length rhn = DNSNAMEBUFSIZE"
  shows "str2rhn_from str i rhn = Some (True, mem_write rhn i (enc_name ls))"
  using assms
proof (induction ls arbitrary: i rhn)
  case Nil
  then have "label_chars str i = []" "cstr_at str i = 0" by (simp_all add: label_chars_def cstr_at_drop)
  moreover have "i < length rhn" "mem_write rhn i [0] = rhn[i := 0]"
    using Nil mem_write_Cons [of i rhn 0 "[]"] by (simp_all add: DNSNAMEBUFSIZE_def)
  ultimately show ?case
    using Nil str2rhn_label_spec [of rhn "min (i + 63) (DNSNAMEBUFSIZE - 2)" str i]
    by (subst str2rhn_from.simps) (simp add: byte_set_def)
next
  case (Cons l ls)
  let ?j = "i + length l" and ?w = "mem_write rhn (i + 1) l"
  have lab: "label_str l" "1 \<le> length l" "length l \<le> 63" using Cons.prems by (auto simp: label_str_def label_ok_def)
  have lc: "label_chars str i = l" using label_chars_label [OF lab(1)] Cons.prems(1) by simp
  have b: "i + length l + 1 + length (dotted ls) \<le> 255" "length rhn = 256" "length l \<le> min (i + 63) 254 - i"
    using Cons.prems lab by (auto simp: DNSNAMEBUFSIZE_def)
  have s: "str2rhn_label str (min (i + 63) (DNSNAMEBUFSIZE - 2)) i rhn = Some (True, ?j, ?w)"
    using str2rhn_label_spec [of rhn "min (i + 63) (DNSNAMEBUFSIZE - 2)" str i] b lc by (simp add: DNSNAMEBUFSIZE_def)
  have d: "drop ?j str = DOT # dotted ls" "drop (?j + 1) str = dotted ls"
    using drop_add_append [of i str l] drop_add_append [of i str "l @ [DOT]"] Cons.prems(1) by simp_all
  then have c: "cstr_at str ?j = DOT" by (simp add: cstr_at_drop)
  let ?v = "mem_write rhn i (word_of_nat (length l) # l)"
  have v: "byte_set ?w i (word_of_nat (length l)) = Some ?v"
    using b mem_write_upd_before [of i l rhn] by (simp add: byte_set_def)
  have "str2rhn_from str (?j + 1) ?v = Some (True, mem_write ?v (?j + 1) (enc_name ls))"
    using Cons.prems b d by (intro Cons.IH) (simp_all add: DNSNAMEBUFSIZE_def)
  also have "mem_write ?v (?j + 1) (enc_name ls) = mem_write rhn i (enc_name (l # ls))"
    using mem_write_append [of i "word_of_nat (length l) # l" "enc_name ls" rhn] b length_dotted [of ls] by simp
  finally show ?case using s v lab(2) c by (subst str2rhn_from.simps) (auto simp: DOT_def)
qed

lemma label_chars_str:
  assumes "1 \<le> length (label_chars str j)" "length (label_chars str j) \<le> 63"
  shows "label_str (label_chars str j)"
proof -
  have "c \<noteq> 0 \<and> c \<noteq> DOT" if "c \<in> set (label_chars str j)" for c
    using that by (auto simp: label_chars_def dest: set_takeWhileD)
  then show ?thesis using assms by (auto simp: label_str_def label_ok_def)
qed

lemma label_chars_drop:
  "drop (j + length (label_chars str j)) str = dropWhile (\<lambda>c. c \<noteq> 0 \<and> c \<noteq> DOT) (drop j str)"
  by (simp add: label_chars_def dropWhile_eq_drop add.commute)

lemma label_chars_rest:
  "drop j str = label_chars str j @ drop (j + length (label_chars str j)) str"
  unfolding label_chars_drop by (simp add: label_chars_def)

lemma label_chars_stop:
  assumes "0 \<notin> set str" "cstr_at str (j + length (label_chars str j)) \<noteq> 0"
  shows "drop (j + length (label_chars str j)) str = DOT # drop (j + length (label_chars str j) + 1) str"
proof -
  let ?k = "j + length (label_chars str j)"
  have k: "?k < length str" using cstr_at_end [OF assms(2)] .
  then have d: "drop ?k str = str ! ?k # drop (?k + 1) str" using Cons_nth_drop_Suc [of ?k str] by simp
  have "\<not> (hd (drop ?k str) \<noteq> 0 \<and> hd (drop ?k str) \<noteq> DOT)"
    using d hd_dropWhile [of "\<lambda>c. c \<noteq> 0 \<and> c \<noteq> DOT" "drop j str"] by (simp add: label_chars_drop)
  moreover have "str ! ?k \<noteq> 0" using k assms(1) nth_mem by fastforce
  ultimately show ?thesis using d by simp
qed

lemma label_chars_end:
  assumes "0 \<notin> set str" "cstr_at str (j + length (label_chars str j)) = 0"
  shows "drop (j + length (label_chars str j)) str = []"
proof -
  have "\<not> j + length (label_chars str j) < length str"
    using assms nth_mem [of "j + length (label_chars str j)" str] unfolding cstr_at_def by metis
  then show ?thesis by simp
qed

lemma str2rhn_from_sound:
  assumes "length rhn = DNSNAMEBUFSIZE" "i \<le> DNSNAMEBUFSIZE - 1" "0 \<notin> set str"
  shows "\<exists>ok rhn'. str2rhn_from str i rhn = Some (ok, rhn') \<and> length rhn' = DNSNAMEBUFSIZE \<and>
    (ok \<longrightarrow> (\<exists>ls. drop i str = dotted ls \<and> list_all label_str ls \<and>
       i + length (dotted ls) \<le> DNSNAMEBUFSIZE - 1 \<and> (i \<noteq> 0 \<or> ls \<noteq> [])))"
  using assms
proof (induction str i rhn rule: str2rhn_from.induct)
  case (1 str i rhn)
  let ?w = "label_chars str i" and ?jl = "min (i + 63) (DNSNAMEBUFSIZE - 2)"
  let ?j = "i + length ?w"
  note spec = str2rhn_label_spec [OF 1(2), of ?jl str i]
  show ?case
  proof (cases "length ?w \<le> ?jl - i")
    case False
    then obtain j' rhn' where "str2rhn_label str ?jl i rhn = Some (False, j', rhn')" "length rhn' = DNSNAMEBUFSIZE"
      using spec by auto
    then show ?thesis by (intro exI [of _ False] exI [of _ rhn']) (subst str2rhn_from.simps, simp)
  next
    case True
    have "n \<le> min (i + 63) 254 - i \<Longrightarrow> n \<le> 63 \<and> (n \<noteq> 0 \<longrightarrow> i + n + 1 \<le> 255)" for n :: nat by arith
    from this [of "length ?w"] have lw: "length ?w \<le> 63" "i + length ?w + 1 \<le> 255 \<or> ?w = []" "i \<le> 255"
      using True 1(3) by (auto simp: DNSNAMEBUFSIZE_def)
    let ?r = "mem_write rhn (i + 1) ?w"
    have s: "str2rhn_label str ?jl i rhn = Some (True, ?j, ?r)" using spec True by simp
    have r: "length ?r = DNSNAMEBUFSIZE"
      using 1(2) lw by (cases "?w = []") (simp_all add: DNSNAMEBUFSIZE_def)
    show ?thesis
    proof (cases "cstr_at str ?j = 0")
      case z: True
      have "drop i str = []" if "?w = []" using that label_chars_end [OF 1(4) z] by simp
      then show ?thesis
        using s z r 1(2,3)
        by (subst str2rhn_from.simps) (auto simp: byte_set_def DNSNAMEBUFSIZE_def intro: exI [of _ "[]"])
    next
      case nz: False
      show ?thesis
      proof (cases "?w = []")
        case True
        then show ?thesis
          using s nz r by (intro exI [of _ False] exI [of _ ?r]) (subst str2rhn_from.simps, simp)
      next
        case w: False
        let ?r' = "?r[i := word_of_nat (length ?w)]"
        have b: "byte_set ?r i (word_of_nat (?j - i)) = Some ?r'" using r lw by (simp add: byte_set_def DNSNAMEBUFSIZE_def)
        have e: "str2rhn_from str i rhn = str2rhn_from str (?j + 1) ?r'"
          using s nz w b by (subst str2rhn_from.simps) simp
        have "\<exists>ok rhn'. str2rhn_from str (?j + 1) ?r' = Some (ok, rhn') \<and> length rhn' = DNSNAMEBUFSIZE \<and>
          (ok \<longrightarrow> (\<exists>ls. drop (?j + 1) str = dotted ls \<and> list_all label_str ls \<and>
             ?j + 1 + length (dotted ls) \<le> DNSNAMEBUFSIZE - 1 \<and> (?j + 1 \<noteq> 0 \<or> ls \<noteq> [])))"
          using s nz w b r lw 1(4) by (intro 1(1) [OF s refl refl]) (auto simp: DNSNAMEBUFSIZE_def)
        then obtain ok rhn' where o: "str2rhn_from str (?j + 1) ?r' = Some (ok, rhn')" "length rhn' = DNSNAMEBUFSIZE"
          "ok \<longrightarrow> (\<exists>ls. drop (?j + 1) str = dotted ls \<and> list_all label_str ls \<and>
             ?j + 1 + length (dotted ls) \<le> DNSNAMEBUFSIZE - 1)" by blast
        have "\<exists>ls. drop i str = dotted ls \<and> list_all label_str ls \<and>
            i + length (dotted ls) \<le> DNSNAMEBUFSIZE - 1 \<and> (i \<noteq> 0 \<or> ls \<noteq> [])" if ok
        proof -
          obtain ls where ls: "drop (?j + 1) str = dotted ls" "list_all label_str ls"
            "?j + 1 + length (dotted ls) \<le> DNSNAMEBUFSIZE - 1" using o(3) \<open>ok\<close> by auto
          have "1 \<le> length ?w" using w by (simp add: Suc_le_eq)
          then have "label_str ?w" using label_chars_str lw(1) by simp
          moreover have "drop i str = dotted (?w # ls)"
            using label_chars_rest [of i str] label_chars_stop [OF 1(4) nz] ls(1) by simp
          ultimately show ?thesis using ls by (intro exI [of _ "?w # ls"]) simp
        qed
        then show ?thesis using e o by auto
      qed
    qed
  qed
qed

definition name_str :: "byte list list \<Rightarrow> bool" where
  "name_str ls \<longleftrightarrow> list_all label_str ls \<and> length (enc_name ls) \<le> DNSNAMEBUFSIZE"

lemma print_name_root:
  assumes "list_all label_str ls"
  shows "cstr_at (print_name ls) 0 = DOT \<and> cstr_at (print_name ls) 1 = 0 \<longleftrightarrow> ls = []"
proof (cases ls)
  case Nil
  then show ?thesis by (simp add: print_name_def cstr_at_def)
next
  case (Cons l ls')
  then obtain c l' where "l = c # l'" "c \<noteq> DOT" using assms by (cases l) (auto simp: label_str_def label_ok_def)
  then show ?thesis using Cons by (simp add: print_name_def cstr_at_def)
qed

lemma str2rhn_print:
  assumes "name_str ls" "length rhn = DNSNAMEBUFSIZE"
  shows "str2rhn (print_name ls) rhn = Some (True, mem_write rhn 0 (enc_name ls))"
proof (cases "ls = []")
  case True
  then show ?thesis
    using assms(2) mem_write_Cons [of 0 rhn 0 "[]"]
    by (simp add: str2rhn_def print_name_def cstr_at_def byte_set_def DNSNAMEBUFSIZE_def)
next
  case False
  then have "str2rhn (print_name ls) rhn = str2rhn_from (dotted ls) 0 rhn"
    using print_name_root [of ls] assms by (simp only: str2rhn_def name_str_def) (simp add: print_name_def)
  then show ?thesis
    using str2rhn_from_complete [of 0 "dotted ls" ls rhn] assms False length_dotted [of ls]
    by (simp add: name_str_def DNSNAMEBUFSIZE_def)
qed

lemma str2rhn_spec:
  assumes "length rhn = DNSNAMEBUFSIZE" "0 \<notin> set str"
  shows "\<exists>ok rhn'. str2rhn str rhn = Some (ok, rhn') \<and> length rhn' = DNSNAMEBUFSIZE \<and>
    (ok \<longleftrightarrow> (\<exists>ls. name_str ls \<and> str = print_name ls))"
proof (cases "cstr_at str 0 = DOT \<and> cstr_at str 1 = 0")
  case True
  then have "0 < length str" by (intro cstr_at_end) (simp add: DOT_def)
  then have "str = [DOT]" using True assms(2) by (cases str; cases "tl str") (auto simp: cstr_at_def)
  then have "name_str [] \<and> str = print_name []" by (simp add: name_str_def print_name_def DNSNAMEBUFSIZE_def)
  then show ?thesis using str2rhn_print [of "[]" rhn] assms(1) by (auto simp: DNSNAMEBUFSIZE_def)
next
  case False
  then have e: "str2rhn str rhn = str2rhn_from str 0 rhn" by (simp only: str2rhn_def if_False)
  obtain ok rhn' where o: "str2rhn_from str 0 rhn = Some (ok, rhn')" "length rhn' = DNSNAMEBUFSIZE"
    "ok \<longrightarrow> (\<exists>ls. str = dotted ls \<and> list_all label_str ls \<and> length (dotted ls) \<le> DNSNAMEBUFSIZE - 1 \<and> ls \<noteq> [])"
    using str2rhn_from_sound [OF assms(1) _ assms(2), of 0] by auto
  have "name_str ls \<and> dotted ls = print_name ls"
    if "list_all label_str ls" "length (dotted ls) \<le> DNSNAMEBUFSIZE - 1" "ls \<noteq> []" for ls
    using that length_dotted [of ls] by (simp add: name_str_def print_name_def DNSNAMEBUFSIZE_def)
  then have "ok \<longrightarrow> (\<exists>ls. name_str ls \<and> str = print_name ls)" using o(3) by blast
  moreover have "ok" if "name_str ls" "str = print_name ls" for ls
    using str2rhn_print [OF that(1) assms(1)] that(2) e o(1) by simp
  ultimately show ?thesis using e o by auto
qed

subsection \<open>The tolerant parser\<close>

definition dotted_or_open :: "byte list \<Rightarrow> byte list list \<Rightarrow> bool" where
  "dotted_or_open str ls \<longleftrightarrow> str = dotted ls \<or> str @ [DOT] = dotted ls"

lemma last_dotted: "ls \<noteq> [] \<Longrightarrow> last (dotted ls) = DOT"
  by (induction ls rule: induct_list012) auto

lemma dotted_or_open_Cons:
  "dotted_or_open str (l # ls) \<longleftrightarrow> (\<exists>r. str = l @ DOT # r \<and> dotted_or_open r ls) \<or> (ls = [] \<and> str = l)"
proof -
  have "str @ [DOT] = l @ DOT # dotted ls \<longleftrightarrow> (\<exists>r. str = l @ DOT # r \<and> r @ [DOT] = dotted ls) \<or> (ls = [] \<and> str = l)"
  proof (cases "dotted ls" rule: rev_cases)
    case Nil
    then have "ls = []" by (cases ls) simp_all
    then show ?thesis by auto
  next
    case (snoc r c)
    then have "c = DOT" using last_dotted [of ls] by (cases ls) auto
    then show ?thesis using snoc by (cases ls) auto
  qed
  then show ?thesis by (auto simp: dotted_or_open_def)
qed

lemma parsestr2rhn_end_spec:
  "length rhn = DNSNAMEBUFSIZE \<Longrightarrow> i \<le> DNSNAMEBUFSIZE - 1 \<Longrightarrow>
   parsestr2rhn_end i rhn = Some (if i = 0 then Some ''Empty domain name not allowed'' else None, rhn[i := 0])"
  by (simp add: parsestr2rhn_end_def byte_set_def DNSNAMEBUFSIZE_def)

lemma label_chars_all:
  assumes "label_str l" "drop j str = l"
  shows "label_chars str j = l"
  using assms by (auto simp: label_chars_def label_str_def takeWhile_eq_all_conv)

lemma parsestr2rhn_from_complete:
  assumes "dotted_or_open (drop i str) ls" "list_all label_str ls" "i + length (dotted ls) \<le> DNSNAMEBUFSIZE - 1"
    "i \<noteq> 0 \<or> ls \<noteq> []" "length rhn = DNSNAMEBUFSIZE"
  shows "parsestr2rhn_from str i rhn = Some (None, mem_write rhn i (enc_name ls))"
  using assms
proof (induction ls arbitrary: i rhn)
  case Nil
  then have "drop i str = []" by (simp add: dotted_or_open_def)
  then have "label_chars str i = []" "cstr_at str i = 0" by (simp_all add: label_chars_def cstr_at_drop)
  moreover have "i < length rhn" "mem_write rhn i [0] = rhn[i := 0]"
    using Nil mem_write_Cons [of i rhn 0 "[]"] by (simp_all add: DNSNAMEBUFSIZE_def)
  ultimately show ?case
    using Nil str2rhn_label_spec [of rhn "min (i + 63) (DNSNAMEBUFSIZE - 2)" str i] parsestr2rhn_end_spec [of rhn i]
    by (subst parsestr2rhn_from.simps) simp
next
  case (Cons l ls)
  let ?j = "i + length l" and ?w = "mem_write rhn (i + 1) l"
  have lab: "label_str l" "1 \<le> length l" "length l \<le> 63" using Cons.prems by (auto simp: label_str_def label_ok_def)
  have b: "i + length l + 1 + length (dotted ls) \<le> 255" "length rhn = 256" "length l \<le> min (i + 63) 254 - i"
    using Cons.prems lab by (auto simp: DNSNAMEBUFSIZE_def)
  consider (dot) r where "drop i str = l @ DOT # r" "dotted_or_open r ls" | (last) "ls = []" "drop i str = l"
    using Cons.prems(1) by (auto simp: dotted_or_open_Cons)
  then have lc: "label_chars str i = l"
    by cases (use label_chars_label [OF lab(1)] label_chars_all [OF lab(1)] in auto)
  have s: "str2rhn_label str (min (i + 63) (DNSNAMEBUFSIZE - 2)) i rhn = Some (True, ?j, ?w)"
    using str2rhn_label_spec [of rhn "min (i + 63) (DNSNAMEBUFSIZE - 2)" str i] b lc by (simp add: DNSNAMEBUFSIZE_def)
  let ?v = "mem_write rhn i (word_of_nat (length l) # l)"
  have v: "byte_set ?w i (word_of_nat (length l)) = Some ?v"
    using b mem_write_upd_before [of i l rhn] by (simp add: byte_set_def)
  have w: "mem_write ?v (?j + 1) (enc_name ls) = mem_write rhn i (enc_name (l # ls))"
    using mem_write_append [of i "word_of_nat (length l) # l" "enc_name ls" rhn] b length_dotted [of ls] by simp
  have e: "parsestr2rhn_from str i rhn =
      (if cstr_at str ?j \<noteq> 0 then parsestr2rhn_from str (?j + 1) ?v else parsestr2rhn_end (?j + 1) ?v)"
    using s v lab(2) by (subst parsestr2rhn_from.simps) auto
  consider (dot) r where "drop i str = l @ DOT # r" "dotted_or_open r ls" | (last) "ls = []" "drop i str = l"
    using Cons.prems(1) by (auto simp: dotted_or_open_Cons)
  then show ?case
  proof cases
    case dot
    have d: "drop ?j str = DOT # r" "drop (?j + 1) str = r"
      using drop_add_append [of i str l] drop_add_append [of i str "l @ [DOT]"] dot(1) by simp_all
    then have c: "cstr_at str ?j \<noteq> 0" by (simp add: cstr_at_drop DOT_def)
    have "parsestr2rhn_from str (?j + 1) ?v = Some (None, mem_write ?v (?j + 1) (enc_name ls))"
      using Cons.prems b d dot(2) by (intro Cons.IH) (simp_all add: DNSNAMEBUFSIZE_def)
    then show ?thesis using e w c by simp
  next
    case last
    have "cstr_at str ?j = 0" using drop_add_append [of i str l "[]"] last by (simp add: cstr_at_drop)
    moreover have "mem_write ?v (?j + 1) [0] = ?v[?j + 1 := 0]"
      using mem_write_Cons [of "?j + 1" ?v 0 "[]"] b by simp
    ultimately show ?thesis
      using e w last b parsestr2rhn_end_spec [of ?v "?j + 1"] by (simp add: DNSNAMEBUFSIZE_def)
  qed
qed

lemma parsestr2rhn_from_sound:
  assumes "length rhn = DNSNAMEBUFSIZE" "i \<le> DNSNAMEBUFSIZE - 1" "0 \<notin> set str"
  shows "\<exists>err rhn'. parsestr2rhn_from str i rhn = Some (err, rhn') \<and> length rhn' = DNSNAMEBUFSIZE \<and>
    (err = None \<longrightarrow> (\<exists>ls. dotted_or_open (drop i str) ls \<and> list_all label_str ls \<and>
       i + length (dotted ls) \<le> DNSNAMEBUFSIZE - 1 \<and> (i \<noteq> 0 \<or> ls \<noteq> [])))"
  using assms
proof (induction str i rhn rule: parsestr2rhn_from.induct)
  case (1 str i rhn)
  let ?w = "label_chars str i" and ?jl = "min (i + 63) (DNSNAMEBUFSIZE - 2)"
  let ?j = "i + length ?w"
  note spec = str2rhn_label_spec [OF 1(2), of ?jl str i]
  show ?case
  proof (cases "length ?w \<le> ?jl - i")
    case False
    then obtain j' rhn' where "str2rhn_label str ?jl i rhn = Some (False, j', rhn')" "length rhn' = DNSNAMEBUFSIZE"
      using spec by auto
    then show ?thesis by (subst parsestr2rhn_from.simps) simp
  next
    case True
    have "n \<le> min (i + 63) 254 - i \<Longrightarrow> n \<le> 63 \<and> (n \<noteq> 0 \<longrightarrow> i + n + 1 \<le> 255)" for n :: nat by arith
    from this [of "length ?w"] have lw: "length ?w \<le> 63" "i + length ?w + 1 \<le> 255 \<or> ?w = []" "i \<le> 255"
      using True 1(3) by (auto simp: DNSNAMEBUFSIZE_def)
    let ?r = "mem_write rhn (i + 1) ?w"
    have s: "str2rhn_label str ?jl i rhn = Some (True, ?j, ?r)" using spec True by simp
    have r: "length ?r = DNSNAMEBUFSIZE"
      using 1(2) lw by (cases "?w = []") (simp_all add: DNSNAMEBUFSIZE_def)
    show ?thesis
    proof (cases "?w = []")
      case w: True
      have "dotted_or_open (drop i str) []" if "cstr_at str i = 0"
        using label_chars_end [of str i] that 1(4) w by (simp add: dotted_or_open_def)
      moreover have "parsestr2rhn_from str i rhn = (if cstr_at str i \<noteq> 0
          then Some (Some ''Empty name element in domain name'', ?r) else parsestr2rhn_end i ?r)"
        using s w by (subst parsestr2rhn_from.simps) simp
      ultimately show ?thesis
        using r parsestr2rhn_end_spec [OF r 1(3)] 1(3) by (auto intro!: exI [of _ "[]"] simp: DNSNAMEBUFSIZE_def)
    next
      case w: False
      let ?r' = "?r[i := word_of_nat (length ?w)]"
      have b: "byte_set ?r i (word_of_nat (?j - i)) = Some ?r'" using r lw by (simp add: byte_set_def DNSNAMEBUFSIZE_def)
      have e: "parsestr2rhn_from str i rhn =
          (if cstr_at str ?j \<noteq> 0 then parsestr2rhn_from str (?j + 1) ?r' else parsestr2rhn_end (?j + 1) ?r')"
        using s w b by (subst parsestr2rhn_from.simps) simp
      have "1 \<le> length ?w" using w by (simp add: Suc_le_eq)
      then have lab: "label_str ?w" using label_chars_str lw(1) by simp
      have bd: "?j + 1 \<le> DNSNAMEBUFSIZE - 1" using lw w by (simp add: DNSNAMEBUFSIZE_def)
      show ?thesis
      proof (cases "cstr_at str ?j = 0")
        case z: True
        have "drop i str = ?w" using label_chars_rest [of i str] label_chars_end [OF 1(4) z] by simp
        then have "dotted_or_open (drop i str) [?w]" by (simp add: dotted_or_open_Cons)
        then show ?thesis
          using e z r lab bd parsestr2rhn_end_spec [of ?r' "?j + 1"] by (auto intro!: exI [of _ "[?w]"])
      next
        case nz: False
        have "\<exists>err rhn'. parsestr2rhn_from str (?j + 1) ?r' = Some (err, rhn') \<and> length rhn' = DNSNAMEBUFSIZE \<and>
          (err = None \<longrightarrow> (\<exists>ls. dotted_or_open (drop (?j + 1) str) ls \<and> list_all label_str ls \<and>
             ?j + 1 + length (dotted ls) \<le> DNSNAMEBUFSIZE - 1 \<and> (?j + 1 \<noteq> 0 \<or> ls \<noteq> [])))"
          using s nz w b r bd 1(4) by (intro 1(1) [OF s refl refl]) auto
        then obtain err rhn' where o: "parsestr2rhn_from str (?j + 1) ?r' = Some (err, rhn')" "length rhn' = DNSNAMEBUFSIZE"
          "err = None \<longrightarrow> (\<exists>ls. dotted_or_open (drop (?j + 1) str) ls \<and> list_all label_str ls \<and>
             ?j + 1 + length (dotted ls) \<le> DNSNAMEBUFSIZE - 1)" by blast
        have "drop i str = ?w @ DOT # drop (?j + 1) str"
          using label_chars_rest [of i str] label_chars_stop [OF 1(4) nz] by simp
        then have "dotted_or_open (drop i str) (?w # ls)" if "dotted_or_open (drop (?j + 1) str) ls" for ls
          using that by (auto simp: dotted_or_open_Cons)
        then have "err = None \<longrightarrow> (\<exists>ls. dotted_or_open (drop i str) (?w # ls) \<and> list_all label_str (?w # ls) \<and>
             i + length (dotted (?w # ls)) \<le> DNSNAMEBUFSIZE - 1)"
          using o(3) lab by (simp add: add.assoc) blast
        then show ?thesis using e nz o(1,2) by (metis if_True list.distinct(1))
      qed
    qed
  qed
qed

lemma parsestr2rhn_print:
  assumes "name_str ls" "length rhn = DNSNAMEBUFSIZE" "str \<noteq> []" "str = print_name ls \<or> str @ [DOT] = print_name ls"
  shows "parsestr2rhn str (length str) rhn = Some (None, mem_write rhn 0 (enc_name ls))"
proof (cases "ls = []")
  case True
  then have "str = [DOT]" using assms(3,4) by (auto simp: print_name_def)
  then show ?thesis
    using assms(2) True mem_write_Cons [of 0 rhn 0 "[]"]
    by (simp add: parsestr2rhn_def cstr_at_def byte_set_def DNSNAMEBUFSIZE_def)
next
  case False
  then have d: "dotted_or_open str ls" using assms(4) by (simp add: dotted_or_open_def print_name_def)
  have l: "list_all label_str ls" "length (dotted ls) \<le> DNSNAMEBUFSIZE - 1"
    using assms(1) length_dotted [of ls] by (auto simp: name_str_def)
  obtain x xs where ls: "ls = x # xs" using False by (cases ls) auto
  then have x: "label_str x" using l by simp
  then obtain c x' where "x = c # x'" "c \<noteq> DOT" by (cases x) (auto simp: label_str_def label_ok_def)
  then have "cstr_at str 0 \<noteq> DOT" using d ls by (auto simp: dotted_or_open_Cons cstr_at_def)
  then show ?thesis
    using parsestr2rhn_from_complete [of 0 str ls rhn] d l False assms(2) by (simp add: parsestr2rhn_def)
qed

lemma parsestr2rhn_spec:
  assumes "length rhn = DNSNAMEBUFSIZE" "0 \<notin> set str" "str \<noteq> []"
  shows "\<exists>err rhn'. parsestr2rhn str (length str) rhn = Some (err, rhn') \<and>
    (err = None \<longrightarrow> (\<exists>ls. name_str ls \<and> (str = print_name ls \<or> str @ [DOT] = print_name ls)))"
proof (cases "str = [DOT]")
  case True
  then have "name_str [] \<and> str = print_name []" by (simp add: name_str_def print_name_def DNSNAMEBUFSIZE_def)
  then show ?thesis using parsestr2rhn_print [of "[]" rhn str] assms by (auto simp: DNSNAMEBUFSIZE_def)
next
  case False
  have nz: "cstr_at str 1 \<noteq> 0" if "length str \<noteq> 1"
  proof -
    have "1 < length str" using that assms(3) by (cases str) auto
    from nth_mem [OF this] show ?thesis using assms(2) \<open>1 < length str\<close> unfolding cstr_at_def by metis
  qed
  have "\<not> (cstr_at str 0 = DOT \<and> (length str = 1 \<or> cstr_at str 1 = 0))"
  proof
    assume a: "cstr_at str 0 = DOT \<and> (length str = 1 \<or> cstr_at str 1 = 0)"
    then have "length str = 1" using nz by blast
    then have "str = [DOT]" using a by (cases str) (auto simp: cstr_at_def)
    then show False using False by simp
  qed
  then have e: "parsestr2rhn str (length str) rhn = parsestr2rhn_from str 0 rhn"
    by (auto simp: parsestr2rhn_def)
  obtain err rhn' where o: "parsestr2rhn_from str 0 rhn = Some (err, rhn')"
    "err = None \<longrightarrow> (\<exists>ls. dotted_or_open str ls \<and> list_all label_str ls \<and> length (dotted ls) \<le> DNSNAMEBUFSIZE - 1 \<and> ls \<noteq> [])"
    using parsestr2rhn_from_sound [OF assms(1) _ assms(2), of 0] by auto
  have "name_str ls \<and> dotted ls = print_name ls"
    if "list_all label_str ls" "length (dotted ls) \<le> DNSNAMEBUFSIZE - 1" "ls \<noteq> []" for ls
    using that length_dotted [of ls] by (simp add: name_str_def print_name_def DNSNAMEBUFSIZE_def)
  then have "err = None \<longrightarrow> (\<exists>ls. name_str ls \<and> (str = print_name ls \<or> str @ [DOT] = print_name ls))"
    using o(2) unfolding dotted_or_open_def by metis
  then show ?thesis using e o(1) by auto
qed

subsection \<open>Printing\<close>

text \<open>What \<open>rhn2str\<close> is to print: the three special characters after a backslash, the characters that are
  not printable in octal, a dot after every label. A text that does not fit is cut and ended by dots.\<close>

definition shown_char :: "byte \<Rightarrow> byte list" where
  "shown_char c =
     (if c_isgraph c then if c = DOT \<or> c = BACKSLASH \<or> c = QUOTE then [BACKSLASH, c] else [c] else octal_escape c)"

definition shown_label :: "byte list \<Rightarrow> byte list" where
  "shown_label l = concat (map shown_char l)"

fun shown_labels :: "byte list list \<Rightarrow> byte list" where
  "shown_labels [] = []"
| "shown_labels (l # ls) = shown_label l @ DOT # shown_labels ls"

definition shown_name :: "byte list list \<Rightarrow> byte list" where
  "shown_name ls = (if ls = [] then [DOT] else shown_labels ls)"

definition cut_text :: "nat \<Rightarrow> byte list \<Rightarrow> byte list \<Rightarrow> bool" where
  "cut_text sz text s \<longleftrightarrow>
     (\<exists>k. sz - 5 \<le> k \<and> k \<le> sz - 4 \<and> s = take k text @ replicate (sz - 1 - k) DOT @ [0])"

lemma shown_char_length: "1 \<le> length (shown_char c)" "length (shown_char c) \<le> 4"
  by (simp_all add: shown_char_def octal_escape_def)

lemma shown_label_simps [simp]: "shown_label [] = []" "shown_label (c # l) = shown_char c @ shown_label l"
  by (simp_all add: shown_label_def)

lemma shown_label_length: "length l \<le> length (shown_label l)"
  by (induction l) (simp_all, metis Suc_le_mono add_mono plus_1_eq_Suc shown_char_length(1))

text \<open>The buffer at the jump to \<open>overflow\<close>: what stays of the text, and what is put over its end.\<close>

definition over_text :: "nat \<Rightarrow> byte list \<Rightarrow> byte list \<Rightarrow> bool" where
  "over_text sz text s \<longleftrightarrow> length s = sz \<and>
     (\<exists>k. sz - 5 \<le> k \<and> k \<le> sz - 4 \<and> k \<le> length text \<and> take k s = take k text \<and> (k < sz - 4 \<longrightarrow> s ! k = DOT))"

lemma overflow_text:
  assumes "over_text sz text s" "1 \<le> sz"
  shows "\<exists>s'. rhn2str_overflow sz s = Some s' \<and> cut_text sz text s'"
proof -
  obtain k where k: "length s = sz" "sz - 5 \<le> k" "k \<le> sz - 4" "k \<le> length text" "take k s = take k text"
    "k < sz - 4 \<longrightarrow> s ! k = DOT"
    using assms(1) by (auto simp: over_text_def)
  let ?s' = "take k text @ replicate (sz - 1 - k) DOT @ [0]"
  have n: "s ! i = text ! i" if "i < k" for i using that arg_cong [OF k(5), of "\<lambda>x. x ! i"] by simp
  consider "sz = 1" | "sz = 2" | "sz = 3" | "4 \<le> sz" using assms(2) by linarith
  then have "rhn2str_overflow sz s = Some ?s'"
  proof cases
    case 4
    then have "rhn2str_overflow sz s = Some (s[sz - 1 := 0, sz - 2 := DOT, sz - 3 := DOT, sz - 4 := DOT])"
      using k(1) by (simp add: rhn2str_overflow_def byte_set_def)
    moreover have "s[sz - 1 := 0, sz - 2 := DOT, sz - 3 := DOT, sz - 4 := DOT] = ?s'"
    proof (rule nth_equalityI)
      show "length (s[sz - 1 := 0, sz - 2 := DOT, sz - 3 := DOT, sz - 4 := DOT]) = length ?s'" using k 4 by simp
      fix i assume "i < length (s[sz - 1 := 0, sz - 2 := DOT, sz - 3 := DOT, sz - 4 := DOT])"
      then have i: "i < sz" using k(1) by simp
      consider "i < k" | "i = k" "k < sz - 4" | "sz - 4 \<le> i" "i < sz - 1" | "i = sz - 1" using i k(2) by linarith
      then show "s[sz - 1 := 0, sz - 2 := DOT, sz - 3 := DOT, sz - 4 := DOT] ! i = ?s' ! i"
      proof cases
        case 1
        then show ?thesis using k n 4 by (simp add: nth_append)
      next
        case 2
        then have "Suc k < sz" by linarith
        then show ?thesis using k 4 2 by (simp add: nth_append)
      next
        case 3
        then have "k \<le> i" "i - k < sz - 1 - k" using k(3) 4 by linarith+
        then have "?s' ! i = DOT" using k(4) by (simp add: nth_append)
        moreover have "i = sz - 4 \<or> i = sz - 3 \<or> i = sz - 2" using 3 4 by linarith
        then have "s[sz - 1 := 0, sz - 2 := DOT, sz - 3 := DOT, sz - 4 := DOT] ! i = DOT"
          using k(1) 4 by (elim disjE) simp_all
        ultimately show ?thesis by simp
      next
        case 4
        then have "k \<le> i" "i - k = sz - 1 - k" using k(3) by linarith+
        then have "?s' ! i = 0" using k(4) by (simp add: nth_append)
        then show ?thesis using 4 k(1) \<open>4 \<le> sz\<close> by simp
      qed
    qed
    ultimately show ?thesis by simp
  next
    case 1
    then obtain a where "s = [a]" using k(1) by (auto simp: length_Suc_conv)
    then show ?thesis using 1 k(3) by (simp add: rhn2str_overflow_def byte_set_def)
  next
    case 2
    then obtain a b where "s = [a, b]" using k(1) by (auto simp: length_Suc_conv numeral_2_eq_2)
    then show ?thesis using 2 k(3) by (simp add: rhn2str_overflow_def byte_set_def)
  next
    case 3
    then obtain a b c where "s = [a, b, c]" using k(1) by (auto simp: length_Suc_conv numeral_3_eq_3)
    then show ?thesis using 3 k(3) by (simp add: rhn2str_overflow_def byte_set_def numeral_2_eq_2)
  qed
  then show ?thesis using k(2,3) by (auto simp: cut_text_def)
qed

text \<open>One character that fits, and one that does not.\<close>

lemma label_char_fits:
  assumes "byte_at rhn i = Some c" "length str = sz" "j + length (shown_char c) + 2 \<le> sz"
  shows "\<exists>s. rhn2str_label rhn sz (Suc lb) i j str = rhn2str_label rhn sz lb (i + 1) (j + length (shown_char c)) s \<and>
    length s = sz \<and> take (j + length (shown_char c)) s = take j str @ shown_char c \<and>
    drop (j + length (shown_char c) + 1) s = drop (j + length (shown_char c) + 1) str"
proof -
  have j: "\<not> j + 2 \<ge> sz" using assms(3) shown_char_length(1) [of c] by linarith
  consider (P) "shown_char c = [c]" "c_isgraph c" "\<not> (c = DOT \<or> c = BACKSLASH \<or> c = QUOTE)"
    | (E) "shown_char c = [BACKSLASH, c]" "c_isgraph c" "c = DOT \<or> c = BACKSLASH \<or> c = QUOTE"
    | (X) "shown_char c = octal_escape c" "\<not> c_isgraph c"
    by (auto simp: shown_char_def)
  then show ?thesis
  proof cases
    case P
    then show ?thesis using assms j
      by (intro exI [of _ "str[j := c]"]) (simp add: byte_set_def take_Suc_conv_app_nth)
  next
    case E
    then show ?thesis using assms j
      by (intro exI [of _ "str[j := BACKSLASH, j + 1 := c]"]) (auto simp: byte_set_def take_Suc_conv_app_nth)
  next
    case X
    let ?s = "mem_write str j (octal_escape c @ [0])"
    have l: "length (octal_escape c) = 4" by (simp add: octal_escape_def)
    have "\<not> 4 \<ge> sz - 1 - j" using assms(3) X(1) l by simp
    then have "rhn2str_label rhn sz (Suc lb) i j str = rhn2str_label rhn sz lb (i + 1) (j + 4) ?s"
      using assms j X l by (simp add: Let_def)
    then show ?thesis using X l assms by (intro exI [of _ ?s]) (simp add: mem_write_def add.commute)
  qed
qed

lemma label_char_over:
  assumes "byte_at rhn i = Some c" "length str = sz" "j < sz" "sz < j + length (shown_char c) + 2"
  shows "\<exists>s. rhn2str_label rhn sz (Suc lb) i j str = Some (Inl s) \<and> over_text sz (take j str @ x) s"
proof (cases "j + 2 \<ge> sz")
  case True
  then show ?thesis using assms
    by (auto simp: over_text_def intro!: exI [of _ "sz - 4"])
next
  case j: False
  consider (P) "shown_char c = [c]" "c_isgraph c" "\<not> (c = DOT \<or> c = BACKSLASH \<or> c = QUOTE)"
    | (E) "shown_char c = [BACKSLASH, c]" "c_isgraph c" "c = DOT \<or> c = BACKSLASH \<or> c = QUOTE"
    | (X) "shown_char c = octal_escape c" "\<not> c_isgraph c"
    by (auto simp: shown_char_def)
  then show ?thesis
  proof cases
    case P
    then show ?thesis using j assms(4) by simp
  next
    case E
    then have "rhn2str_label rhn sz (Suc lb) i j str = Some (Inl (str[j := BACKSLASH]))"
      using assms j by (auto simp: byte_set_def)
    moreover have "over_text sz (take j str @ x) (str[j := BACKSLASH])"
      using assms E j by (auto simp: over_text_def intro!: exI [of _ "sz - 4"])
    ultimately show ?thesis by blast
  next
    case X
    have l: "length (octal_escape c) = 4" by (simp add: octal_escape_def)
    let ?s = "(mem_write str j (take (sz - 1 - j - 1) (octal_escape c) @ [0]))[j := DOT]"
    have lm: "length ?s = sz" using assms(2,3) j l by (simp add: length_mem_write)
    have "4 \<ge> sz - 1 - j" using assms(4) X(1) l by simp
    then have "rhn2str_label rhn sz (Suc lb) i j str = Some (Inl ?s)"
      using assms j X l lm by (simp add: Let_def byte_set_def)
    moreover have "over_text sz (take j str @ x) ?s"
      unfolding over_text_def
    proof (intro conjI exI [of _ "min j (sz - 4)"] impI)
      show "length ?s = sz" by (rule lm)
      have "sz < j + 6" using X(1) l assms(4) by simp
      then show "sz - 5 \<le> min j (sz - 4)" by linarith
      show "take (min j (sz - 4)) ?s = take (min j (sz - 4)) (take j str @ x)"
        using assms(2,3) by (simp add: mem_write_def)
      show "?s ! min j (sz - 4) = DOT" if "min j (sz - 4) < sz - 4"
        using that lm assms(3) by (simp add: min_def split: if_splits)
    qed (use assms in auto)
    ultimately show ?thesis by blast
  qed
qed

lemma label_shown:
  assumes "drop i rhn = l @ r" "length str = sz" "j < sz"
  shows "if l = [] \<or> j + length (shown_label l) + 2 \<le> sz
    then \<exists>s. rhn2str_label rhn sz (length l) i j str = Some (Inr (i + length l, j + length (shown_label l), s)) \<and>
      length s = sz \<and> take (j + length (shown_label l)) s = take j str @ shown_label l \<and>
      drop (j + length (shown_label l) + 1) s = drop (j + length (shown_label l) + 1) str
    else \<exists>s. rhn2str_label rhn sz (length l) i j str = Some (Inl s) \<and> over_text sz (take j str @ shown_label l @ x) s"
  using assms
proof (induction l arbitrary: i j str)
  case (Cons c l)
  have c: "byte_at rhn i = Some c" using Cons.prems(1) by (simp add: byte_at_drop)
  let ?e = "length (shown_char c)"
  show ?case
  proof (cases "j + ?e + 2 \<le> sz")
    case True
    obtain s where s: "rhn2str_label rhn sz (Suc (length l)) i j str = rhn2str_label rhn sz (length l) (i + 1) (j + ?e) s"
      "length s = sz" "take (j + ?e) s = take j str @ shown_char c" "drop (j + ?e + 1) s = drop (j + ?e + 1) str"
      using label_char_fits [OF c Cons.prems(2) True] by blast
    have "drop (i + 1) rhn = l @ r" using Cons.prems(1) drop_add_append [of i rhn "[c]"] by simp
    note ih = Cons.IH [OF this s(2), of "j + ?e"]
    have d: "drop (j + ?e + length (shown_label l) + 1) s = drop (j + ?e + length (shown_label l) + 1) str"
      using arg_cong [OF s(4), of "drop (length (shown_label l))"] by (simp add: add.commute add.left_commute)
    show ?thesis
      using ih True s d unfolding shown_label_simps length_Cons s(1) by (auto simp: add.assoc split: if_splits)
  next
    case False
    then have "\<not> j + length (shown_label (c # l)) + 2 \<le> sz" by simp
    then show ?thesis
      using label_char_over [OF c Cons.prems(2,3), where lb = "length l" and x = "shown_label (c # l) @ x"] False by simp
  qed
qed simp

lemma end_label:
  assumes "length s = sz" "take n s = t" "drop (n + 1) s = drop (n + 1) str" "n + 2 \<le> sz"
  shows "s[n := DOT] = t @ DOT # drop (n + 1) str" "s[n := DOT, n + 1 := 0] = t @ DOT # 0 # drop (n + 2) str"
proof -
  have n: "n < length s" "length t = n" using assms by auto
  show 1: "s[n := DOT] = t @ DOT # drop (n + 1) str"
    using upd_conv_take_nth_drop [OF n(1), of DOT] assms(2,3) by simp
  have "length s = length (t @ DOT # drop (n + 1) str)" using 1 by (metis length_list_update)
  then have "n + 1 < length str" using n assms(1,4) by simp
  then have "drop (n + 1) str = str ! (n + 1) # drop (n + 2) str" using Cons_nth_drop_Suc [of "n + 1" str] by simp
  then show "s[n := DOT, n + 1 := 0] = t @ DOT # 0 # drop (n + 2) str"
    unfolding 1 using n by (simp add: list_update_append)
qed

lemma rhn2str_from_shown:
  assumes "drop i rhn = l @ enc_name ls @ r" "list_all lab_len (l # ls)" "unat lb = length l" "length str = sz" "j < sz"
  shows "\<exists>s. rhn2str_from rhn sz lb i j str = Some s \<and>
    (let text = take j str @ shown_labels (l # ls) in
     if length text < sz then s = text @ 0 # drop (length text + 1) str else cut_text sz text s)"
  using assms
proof (induction ls arbitrary: l lb i j str)
  case Nil
  let ?i = "i + length l" and ?n = "j + length (shown_label l)"
  have l: "l \<noteq> []" using Nil.prems(2) by (auto simp: lab_len_def)
  note lab = label_shown [OF Nil.prems(1,4,5), where x = "[DOT]"]
  show ?case
  proof (cases "?n + 2 \<le> sz")
    case True
    then obtain s where s: "rhn2str_label rhn sz (length l) i j str = Some (Inr (?i, ?n, s))" "length s = sz"
      "take ?n s = take j str @ shown_label l" "drop (?n + 1) s = drop (?n + 1) str"
      using lab by auto
    have b: "byte_at rhn ?i = Some 0" using drop_add_append [OF Nil.prems(1)] by (simp add: byte_at_drop)
    have w: "byte_set s ?n DOT = Some (s[?n := DOT])" "byte_set (s[?n := DOT]) (?n + 1) 0 = Some (s[?n := DOT, ?n + 1 := 0])"
      using True s(2) by (simp_all add: byte_set_def)
    have "rhn2str_from rhn sz lb i j str = Some (s[?n := DOT, ?n + 1 := 0])"
      using s(1) b w Nil.prems(3) by (subst rhn2str_from.simps) simp
    then show ?thesis using end_label(2) [OF s(2-4) True] True Nil.prems(4,5) by simp
  next
    case False
    then obtain s where s: "rhn2str_label rhn sz (length l) i j str = Some (Inl s)"
      "over_text sz (take j str @ shown_label l @ [DOT]) s" using lab l by auto
    obtain s' where "rhn2str_overflow sz s = Some s'" "cut_text sz (take j str @ shown_label l @ [DOT]) s'"
      using overflow_text [OF s(2)] Nil.prems(5) by auto
    then show ?thesis using s(1) False Nil.prems(3-5) by (subst rhn2str_from.simps) simp
  qed
next
  case (Cons l' ls)
  let ?i = "i + length l" and ?n = "j + length (shown_label l)"
  have l: "l \<noteq> []" using Cons.prems(2) by (auto simp: lab_len_def)
  note lab = label_shown [OF Cons.prems(1,4,5), where x = "DOT # shown_labels (l' # ls)"]
  show ?case
  proof (cases "?n + 2 \<le> sz")
    case True
    then obtain s where s: "rhn2str_label rhn sz (length l) i j str = Some (Inr (?i, ?n, s))" "length s = sz"
      "take ?n s = take j str @ shown_label l" "drop (?n + 1) s = drop (?n + 1) str"
      using lab by auto
    let ?lb = "word_of_nat (length l') :: byte" and ?s = "s[?n := DOT]"
    note e = end_label(1) [OF s(2-4) True]
    have n: "?lb \<noteq> 0" "unat ?lb = length l'" using lab_len_byte [of l'] Cons.prems(2) by simp_all
    have d: "drop ?i rhn = ?lb # l' @ enc_name ls @ r" "drop (?i + 1) rhn = l' @ enc_name ls @ r"
      using drop_add_append [OF Cons.prems(1)] drop_add_append [of i rhn "l @ [?lb]"] Cons.prems(1) by simp_all
    have b: "byte_at rhn ?i = Some ?lb" using d by (simp add: byte_at_drop)
    have w: "byte_set s ?n DOT = Some ?s" using True s(2) by (simp add: byte_set_def)
    have t: "take (?n + 1) ?s = take j str @ shown_label l @ [DOT]" "drop (?n + 1) ?s = drop (?n + 1) str"
      unfolding e using Cons.prems(4,5) by simp_all
    have "rhn2str_from rhn sz lb i j str = rhn2str_from rhn sz ?lb (?i + 1) (?n + 1) ?s"
      using s(1) b w n Cons.prems(3) by (subst rhn2str_from.simps) simp
    moreover have dr: "drop m ?s = drop m str" if "?n + 1 \<le> m" for m
      using arg_cong [OF t(2), of "drop (m - (?n + 1))"] that by (simp only: drop_drop le_add_diff_inverse2)
    let ?t = "take j str @ shown_labels (l # l' # ls)"
    have tt: "take (?n + 1) ?s @ shown_labels (l' # ls) = ?t" unfolding t(1) by simp
    have "list_all lab_len (l' # ls)" "length ?s = sz" "?n + 1 < sz" using True Cons.prems(2) s(2) by simp_all
    from Cons.IH [OF d(2) this(1) n(2) this(2,3), unfolded Let_def tt]
    have "\<exists>s'. rhn2str_from rhn sz ?lb (?i + 1) (?n + 1) ?s = Some s' \<and>
        (if length ?t < sz then s' = ?t @ 0 # drop (length ?t + 1) ?s else cut_text sz ?t s')" .
    moreover have "drop (length ?t + 1) ?s = drop (length ?t + 1) str" using Cons.prems(4,5) by (intro dr) simp
    ultimately show ?thesis unfolding Let_def by (simp only:)
  next
    case False
    then obtain s where s: "rhn2str_label rhn sz (length l) i j str = Some (Inl s)"
      "over_text sz (take j str @ shown_label l @ DOT # shown_labels (l' # ls)) s" using lab l by auto
    obtain s' where "rhn2str_overflow sz s = Some s'" "cut_text sz (take j str @ shown_labels (l # l' # ls)) s'"
      using overflow_text [OF s(2)] Cons.prems(5) by auto
    then show ?thesis using s(1) False Cons.prems(3-5) by (subst rhn2str_from.simps) simp
  qed
qed

lemma rhn2str_shown:
  assumes "list_all lab_len ls" "length str = sz" "1 \<le> sz"
  shows "\<exists>s. rhn2str (enc_name ls @ r) str sz = Some (Inr s) \<and>
    (if length (shown_name ls) < sz then s = shown_name ls @ 0 # drop (length (shown_name ls) + 1) str
     else cut_text sz (shown_name ls) s)"
proof (cases ls)
  case Nil
  have "str[0 := DOT, Suc 0 := 0] = DOT # 0 # drop 2 str" if "2 \<le> sz"
    using end_label(2) [of str sz 0 "[]" str] that assms(2) by (simp add: numeral_2_eq_2)
  moreover have "cut_text sz [DOT] (str[0 := 0])" if "sz = 1"
    using that assms(2) by (auto simp: length_Suc_conv cut_text_def)
  ultimately show ?thesis
    using Nil assms(2,3) by (cases "2 \<le> sz") (auto simp: rhn2str_def byte_set_def shown_name_def not_le less_Suc_eq numeral_2_eq_2)
next
  case (Cons l ls')
  then have "drop 1 (enc_name ls @ r) = l @ enc_name ls' @ r" by simp
  from rhn2str_from_shown [OF this _ _ assms(2), of "word_of_nat (length l)" 0]
  show ?thesis using assms(1,3) Cons lab_len_byte [of l] by (auto simp: rhn2str_def shown_name_def Let_def)
qed

text \<open>A name of printable characters other than the three that are escaped.\<close>

definition plain_label :: "byte list \<Rightarrow> bool" where
  "plain_label l \<longleftrightarrow> (\<forall>c \<in> set l. c_isgraph c \<and> c \<noteq> DOT \<and> c \<noteq> BACKSLASH \<and> c \<noteq> QUOTE)"

lemma plain_shown: "list_all plain_label ls \<Longrightarrow> shown_name ls = print_name ls"
proof -
  have l: "plain_label l \<Longrightarrow> shown_label l = l" for l
    by (induction l) (auto simp: plain_label_def shown_char_def)
  have "list_all plain_label ls \<Longrightarrow> shown_labels ls = dotted ls" by (induction ls) (auto simp: l)
  then show "list_all plain_label ls \<Longrightarrow> shown_name ls = print_name ls" by (simp add: shown_name_def print_name_def)
qed

lemma shown_no_nul: "0 \<notin> set (shown_name ls)"
proof -
  have "c \<noteq> 0" if "c_isgraph c" for c using that by (auto simp: c_isgraph_def)
  moreover have "0 \<notin> set (octal_escape c)" for c
  proof -
    have z: "48 + x \<noteq> 0" if "x \<le> 7" for x :: byte using that by (auto simp: add_eq_0_iff)
    have "unat (drop_bit 6 c) \<le> 7" using unat_byte_lt [of c] by (simp add: drop_bit_eq_div unat_div_distrib)
    then have "drop_bit 6 c \<le> 7" by (simp add: word_le_nat_alt)
    then show ?thesis using z [of "drop_bit 6 c"] z [of "drop_bit 3 c AND 7"] z [of "c AND 7"]
      by (simp add: octal_escape_def BACKSLASH_def word_and_le1)
  qed
  ultimately have "0 \<notin> set (shown_char c)" for c by (auto simp: shown_char_def BACKSLASH_def)
  then have "0 \<notin> set (shown_labels ls)" for ls by (induction ls) (auto simp: shown_label_def DOT_def)
  then show ?thesis by (simp add: shown_name_def DOT_def)
qed

lemma plain_label_chars: "plain_label l \<Longrightarrow> 0 \<notin> set l \<and> DOT \<notin> set l"
  by (auto simp: plain_label_def c_isgraph_def)

lemma dotted_no_double:
  assumes "list_all label_str xs"
  shows "dotted xs \<noteq> u @ [DOT, DOT]"
  using assms
proof (induction xs arbitrary: u)
  case (Cons x xs)
  show ?case
  proof (cases xs)
    case Nil
    then show ?thesis using Cons.prems by (auto simp: label_str_def append_eq_append_conv2 append_eq_Cons_conv Cons_eq_append_conv)
  next
    case (Cons y ys)
    have "2 \<le> length (dotted xs)" using \<open>list_all label_str (x # xs)\<close> Cons
      by (auto simp: label_str_def label_ok_def)
    then have "\<exists>u. dotted xs = u @ [DOT, DOT]" if "dotted (x # xs) = u @ [DOT, DOT]" for u
      using that append_eq_append_conv_if [of "x @ [DOT]" "dotted xs" u "[DOT, DOT]"]
      by (auto simp: append_eq_append_conv2 Cons_eq_append_conv append_eq_Cons_conv)
    then show ?thesis using Cons.IH \<open>list_all label_str (x # xs)\<close> by auto
  qed
qed simp

subsection \<open>Properties\<close>

text \<open>C8: \<open>isnormalencdomname\<close> is the type test of domain names: it accepts memory exactly when it begins
  with the transport format of labels of 1 to 63 bytes that, with its end, is at most the limit and 256
  bytes long, and it never reads outside the memory it was given.\<close>

theorem dns_name_type:
  assumes "min maxlen DNSNAMEBUFSIZE \<le> length rhn"
  shows "isnormalencdomname rhn maxlen =
    Some (\<exists>ls r. rhn = enc_name ls @ r \<and> list_all label_ok ls \<and> length (enc_name ls) \<le> min maxlen DNSNAMEBUFSIZE)"
  by (rule isnormal_iff [OF assms])

text \<open>C9: for every C string \<open>str2rhn\<close> terminates without leaving its buffer, and it succeeds exactly on the
  strings that print a name: ``.'', or labels of 1 to 63 characters each followed by a dot that fit the
  buffer, whose encoding is then at the beginning of the buffer.\<close>

theorem dns_name_parse_iff:
  assumes "length rhn = DNSNAMEBUFSIZE" "0 \<notin> set str"
  shows "\<exists>ok rhn'. str2rhn str rhn = Some (ok, rhn') \<and> length rhn' = DNSNAMEBUFSIZE \<and>
    (ok \<longleftrightarrow> (\<exists>ls. name_str ls \<and> str = print_name ls)) \<and>
    (\<forall>ls. name_str ls \<longrightarrow> str = print_name ls \<longrightarrow> rhn' = mem_write rhn 0 (enc_name ls))"
proof -
  obtain ok rhn' where o: "str2rhn str rhn = Some (ok, rhn')" "length rhn' = DNSNAMEBUFSIZE"
    "ok \<longleftrightarrow> (\<exists>ls. name_str ls \<and> str = print_name ls)" using str2rhn_spec [OF assms] by blast
  moreover have "rhn' = mem_write rhn 0 (enc_name ls)" if "name_str ls" "str = print_name ls" for ls
    using str2rhn_print [OF that(1) assms(1)] that(2) o(1) by simp
  ultimately show ?thesis by blast
qed

text \<open>The two parsers are equivalent: \<open>parsestr2rhn\<close> on a whole nonempty string accepts exactly what
  \<open>str2rhn\<close> accepts after a missing last dot is added, with the same buffer.\<close>

theorem dns_parsers_equivalent:
  assumes "length rhn = DNSNAMEBUFSIZE" "0 \<notin> set str" "str \<noteq> []"
  shows "parsestr2rhn str (length str) rhn = Some (None, rhn') \<longleftrightarrow>
    str2rhn (if last str = DOT then str else str @ [DOT]) rhn = Some (True, rhn')"
    (is "?l \<longleftrightarrow> str2rhn ?s rhn = _")
proof -
  have dot: "last (print_name ls) = DOT" for ls by (auto simp: print_name_def last_dotted)
  have s: "str = print_name ls \<or> str @ [DOT] = print_name ls \<longleftrightarrow> ?s = print_name ls" if n: "name_str ls" for ls
  proof
    assume a: "str = print_name ls \<or> str @ [DOT] = print_name ls"
    show "?s = print_name ls"
    proof (cases "last str = DOT \<and> str @ [DOT] = print_name ls")
      case True
      then obtain t where t: "str = t @ [DOT]" using assms(3) by (metis append_butlast_last_id)
      have "ls \<noteq> []" using True assms(3) by (auto simp: print_name_def)
      then have "dotted ls = t @ [DOT, DOT]" using True t by (simp add: print_name_def)
      then show ?thesis using n dotted_no_double [of ls t] by (simp add: name_str_def)
    next
      case False
      then show ?thesis using a dot [of ls] by auto
    qed
  next
    assume "?s = print_name ls"
    then show "str = print_name ls \<or> str @ [DOT] = print_name ls" by (metis)
  qed
  show ?thesis
  proof
    assume l: ?l
    then obtain ls where ls: "name_str ls" "str = print_name ls \<or> str @ [DOT] = print_name ls"
      using parsestr2rhn_spec [OF assms] by auto
    then have "rhn' = mem_write rhn 0 (enc_name ls)" using parsestr2rhn_print [OF ls(1) assms(1,3) ls(2)] l by simp
    then show "str2rhn ?s rhn = Some (True, rhn')" using str2rhn_print [OF ls(1) assms(1)] s [OF ls(1)] ls(2) by simp
  next
    assume r: "str2rhn ?s rhn = Some (True, rhn')"
    have "0 \<notin> set ?s" using assms(2) by (auto simp: DOT_def)
    then obtain ls where ls: "name_str ls" "?s = print_name ls" using str2rhn_spec [OF assms(1), of ?s] r by auto
    then have "rhn' = mem_write rhn 0 (enc_name ls)" using str2rhn_print [OF ls(1) assms(1)] r by simp
    then show ?l using parsestr2rhn_print [OF ls(1) assms(1,3)] s [OF ls(1)] ls(2) by simp
  qed
qed

text \<open>C10: what \<open>rhn2str\<close> leaves in a buffer of any size of at least one byte, for every name of labels of
  at most 255 bytes. It reads and writes only inside the name and the buffer; when the printed name and its final 0
  fit, they are at the front of the buffer and the rest is untouched; otherwise the buffer holds a prefix of the
  printed name, then dots (the last three bytes, or four when the cut is at an octal escape, or as many as there
  is room for) and a 0 in its last byte. A name of at most 256 bytes whose labels have at most 63 bytes, all printable and
  none of them a dot, a backslash or a double quote, comes back from \<open>str2rhn\<close> as it was when it fits; the
  characters that are escaped do not.\<close>

theorem dns_name_print_exact:
  assumes "list_all lab_len ls" "length str = sz" "1 \<le> sz" "length rhn = DNSNAMEBUFSIZE"
  shows "\<exists>s. rhn2str (enc_name ls @ r) str sz = Some (Inr s) \<and> length s = sz \<and>
    (if length (shown_name ls) < sz then s = shown_name ls @ 0 # drop (length (shown_name ls) + 1) str
     else \<exists>k. sz - 5 \<le> k \<and> k \<le> sz - 4 \<and> s = take k (shown_name ls) @ replicate (sz - 1 - k) DOT @ [0]) \<and>
    (name_ok ls \<and> list_all plain_label ls \<and> length (shown_name ls) < sz \<longrightarrow>
      str2rhn (takeWhile (\<lambda>c. c \<noteq> 0) s) rhn = Some (True, mem_write rhn 0 (enc_name ls)))"
proof -
  obtain s where s: "rhn2str (enc_name ls @ r) str sz = Some (Inr s)"
    "if length (shown_name ls) < sz then s = shown_name ls @ 0 # drop (length (shown_name ls) + 1) str
     else cut_text sz (shown_name ls) s"
    using rhn2str_shown [OF assms(1-3), of r] by blast
  have l: "length s = sz" using s(2) assms(2,3) by (auto simp: cut_text_def split: if_splits)
  have "str2rhn (takeWhile (\<lambda>c. c \<noteq> 0) s) rhn = Some (True, mem_write rhn 0 (enc_name ls))"
    if p: "name_ok ls" "list_all plain_label ls" "length (shown_name ls) < sz"
  proof -
    have "name_str ls" using p(1,2) by (auto simp: name_str_def name_ok_def list_all_iff label_str_def plain_label_chars)
    moreover have "takeWhile (\<lambda>c. c \<noteq> 0) (shown_name ls @ 0 # x) = shown_name ls" for x
      using shown_no_nul [of ls] by (subst takeWhile_append2) auto
    then have "takeWhile (\<lambda>c. c \<noteq> 0) s = shown_name ls" using s(2) p(3) by simp
    ultimately show ?thesis using str2rhn_print [OF _ assms(4)] plain_shown [OF p(2)] by simp
  qed
  then show ?thesis using s l unfolding cut_text_def by blast
qed

subsection \<open>The properties at concrete inputs\<close>

lemma name_len_bounds: "(1 :: nat) \<le> DNSNAMEBUFSIZE" "(8 :: nat) \<le> DNSNAMEBUFSIZE"
  by (simp_all add: DNSNAMEBUFSIZE_def)

theorem dns_name_type_witness: "isnormalencdomname [1, 97, 0, 7] 4 = Some True"
proof -
  have ex: "\<exists>ls r. [1, 97, 0, 7] = enc_name ls @ r \<and> list_all label_ok ls \<and> length (enc_name ls) \<le> min 4 DNSNAMEBUFSIZE"
    by (intro exI [of _ "[[97]]"] exI [of _ "[7]"]) (simp add: label_ok_def DNSNAMEBUFSIZE_def)
  have "isnormalencdomname [1, 97, 0, 7] 4 = Some (\<exists>ls r. [1, 97, 0, 7] = enc_name ls @ r \<and> list_all label_ok ls \<and>
      length (enc_name ls) \<le> min 4 DNSNAMEBUFSIZE)"
    by (rule dns_name_type) simp
  from trans [OF this arg_cong [where f = Some, OF eqTrueI [OF ex]]] show ?thesis .
qed

theorem dns_name_parse_iff_witness:
  "str2rhn [97, DOT] (replicate 256 1) = Some (True, mem_write (replicate 256 1) 0 [1, 97, 0])"
proof -
  have n: "name_str [[97]]" "[97, DOT] = print_name [[97]]"
    by (simp_all add: name_str_def label_str_def label_ok_def print_name_def DNSNAMEBUFSIZE_def DOT_def)
  have l: "length (replicate 256 (1 :: byte)) = DNSNAMEBUFSIZE" "0 \<notin> set [97, DOT]"
    by (simp_all add: DNSNAMEBUFSIZE_def DOT_def)
  obtain ok rhn' where o: "str2rhn [97, DOT] (replicate 256 1) = Some (ok, rhn')"
    "ok \<longleftrightarrow> (\<exists>ls. name_str ls \<and> [97, DOT] = print_name ls)"
    "\<forall>ls. name_str ls \<longrightarrow> [97, DOT] = print_name ls \<longrightarrow> rhn' = mem_write (replicate 256 1) 0 (enc_name ls)"
    using dns_name_parse_iff [OF l] by (elim exE conjE) (rule that)
  have "ok" "rhn' = mem_write (replicate 256 1) 0 (enc_name [[97]])" using o(2,3) n by auto
  then show ?thesis using o(1) by simp
qed

theorem dns_parsers_equivalent_witness:
  "parsestr2rhn [97] 1 (replicate 256 1) = Some (None, mem_write (replicate 256 1) 0 [1, 97, 0])"
proof -
  have "name_str [[97]]" "[97, DOT] = print_name [[97]]"
    by (simp_all add: name_str_def label_str_def label_ok_def print_name_def DNSNAMEBUFSIZE_def DOT_def)
  then have "str2rhn [97, DOT] (replicate 256 1) = Some (True, mem_write (replicate 256 1) 0 [1, 97, 0])"
    using str2rhn_print [of "[[97]]" "replicate 256 1"] by (simp add: DNSNAMEBUFSIZE_def)
  then show ?thesis
    using dns_parsers_equivalent [of "replicate 256 1" "[97]" "mem_write (replicate 256 1) 0 [1, 97, 0]"]
    by (simp add: DNSNAMEBUFSIZE_def DOT_def)
qed

theorem dns_name_print_exact_witness:
  "(\<exists>s. rhn2str [2, 97, 46, 0] (replicate 6 1) 6 = Some (Inr s) \<and> s = [97, BACKSLASH, 46, DOT, 0, 1]) \<and>
   (\<exists>s. rhn2str [1, 97, 0] (replicate 2 1) 2 = Some (Inr s) \<and> s = [DOT, 0]) \<and>
   (\<exists>s. rhn2str [1, 97, 0] (replicate 3 1) 3 = Some (Inr s) \<and>
     str2rhn (takeWhile (\<lambda>c. c \<noteq> 0) s) (replicate 256 2) = Some (True, mem_write (replicate 256 2) 0 [1, 97, 0]))"
proof -
  note d = DOT_def BACKSLASH_def QUOTE_def c_isgraph_def
  have 1: "shown_name [[97, 46]] = [97, BACKSLASH, 46, DOT]" "shown_name [[97]] = [97, DOT]"
    by (simp_all add: shown_name_def shown_label_def shown_char_def d)
  have 2: "list_all lab_len [[97, 46]]" "list_all lab_len [[97]]" "length (replicate 256 2) = DNSNAMEBUFSIZE"
    by (simp_all add: lab_len_def DNSNAMEBUFSIZE_def)
  have "name_ok [[97]]" "list_all plain_label [[97]]"
    by (simp_all add: name_ok_def label_ok_def plain_label_def DNSNAMEBUFSIZE_def d)
  then show ?thesis
    using dns_name_print_exact [OF 2(1) _ _ 2(3), of "replicate 6 1" 6 "[]"]
      dns_name_print_exact [OF 2(2) _ _ 2(3), of "replicate 2 1" 2 "[]"]
      dns_name_print_exact [OF 2(2) _ _ 2(3), of "replicate 3 1" 3 "[]"]
    by (auto simp: 1 numeral_eq_Suc)
qed

end
