(* ===== verification/DnsMessage.thy ===== *)
theory DnsMessage
  imports DnsNameProperties
begin

text \<open>
  Name compression of DNS messages, pdnsd/src/dns.c: \<open>decompress_name\<close> reads a name that may end in
  pointers to other places of the message, \<open>compress_name\<close> writes one that uses the names written
  before, which it finds with \<open>domain_match\<close>. The message is a byte list, a pointer into it an offset;
  a read outside the message, a write outside the target buffer and a failed \<open>PDNSD_ASSERT\<close> are \<open>None\<close>.
\<close>

subsection \<open>Decompression\<close>

datatype dns_rc = RC_OK | RC_FORMAT | RC_TRUNC

text \<open>The offset of a compression pointer, \<open>((lb&0x3f)<<8)|lo\<close>.\<close>

definition ptr_offset :: "byte \<Rightarrow> byte \<Rightarrow> nat" where
  "ptr_offset lb lo = push_bit 8 (unat (lb AND 0x3f)) OR unat lo"

text \<open>The loop that copies the \<open>n\<close> characters of a label.\<close>

fun dn_copy :: "byte list \<Rightarrow> nat \<Rightarrow> byte list \<Rightarrow> nat \<Rightarrow> nat \<Rightarrow> byte list option" where
  "dn_copy msg lptr tgt tpos 0 = Some tgt"
| "dn_copy msg lptr tgt tpos (Suc n) = do {
     c \<leftarrow> byte_at msg lptr;
     tgt \<leftarrow> byte_set tgt tpos c;
     dn_copy msg (lptr + 1) tgt (tpos + 1) n
   }"

text \<open>
  After the first pointer: the inner loop follows pointers, \<open>lptr\<close> being behind \<open>lb\<close>, up to a length
  byte; the outer loop copies labels.
\<close>

function dn_jump :: "byte list \<Rightarrow> nat \<Rightarrow> nat \<Rightarrow> byte \<Rightarrow> (dns_rc + nat \<times> nat \<times> byte) option" where
  "dn_jump msg hops lptr lb =
     (if lb > 0x3f then
        if lb < 0xc0 then Some (Inl RC_FORMAT)
        else if lptr \<ge> length msg then Some (Inl RC_FORMAT)
        else if hops + 1 > 255 then Some (Inl RC_FORMAT)
        else case byte_at msg lptr of
          None \<Rightarrow> None
        | Some lo \<Rightarrow>
            if ptr_offset lb lo \<ge> length msg then Some (Inl RC_FORMAT)
            else (case byte_at msg (ptr_offset lb lo) of
                None \<Rightarrow> None
              | Some lb' \<Rightarrow> dn_jump msg (hops + 1) (ptr_offset lb lo + 1) lb')
      else Some (Inr (hops, lptr, lb)))"
  by pat_completeness auto
termination
  by (relation "measure (\<lambda>(msg, hops, lptr, lb). 255 - hops)") auto

declare dn_jump.simps [simp del]

function dn_rest :: "byte list \<Rightarrow> nat \<Rightarrow> nat \<Rightarrow> byte list \<Rightarrow> nat \<Rightarrow> (dns_rc \<times> byte list \<times> nat) option" where
  "dn_rest msg hops lptr tgt tpos =
     (case byte_at msg lptr of
        None \<Rightarrow> None
      | Some lb \<Rightarrow> (case dn_jump msg hops (lptr + 1) lb of
          None \<Rightarrow> None
        | Some (Inl rc) \<Rightarrow> Some (rc, tgt, tpos)
        | Some (Inr (hops, lptr, lb)) \<Rightarrow> (case byte_set tgt tpos lb of
            None \<Rightarrow> None
          | Some tgt \<Rightarrow>
              if lb = 0 then Some (RC_OK, tgt, tpos + 1)
              else if lptr + unat lb \<ge> length msg then Some (RC_FORMAT, tgt, tpos + 1)
              else if tpos + 1 + unat lb > DNSNAMEBUFSIZE - 1 then Some (RC_FORMAT, tgt, tpos + 1)
              else (case dn_copy msg lptr tgt (tpos + 1) (unat lb) of
                  None \<Rightarrow> None
                | Some tgt \<Rightarrow> dn_rest msg hops (lptr + unat lb) tgt (tpos + 1 + unat lb)))))"
  by pat_completeness auto
termination
  by (relation "measure (\<lambda>(msg, hops, lptr, tgt, tpos). DNSNAMEBUFSIZE - tpos)")
    (auto simp: DNSNAMEBUFSIZE_def)

declare dn_rest.simps [simp del]

text \<open>The first loop, before any pointer; it also counts the bytes left in the data field.\<close>

function dn_first :: "byte list \<Rightarrow> nat \<Rightarrow> nat \<Rightarrow> byte list \<Rightarrow> nat \<Rightarrow> (dns_rc \<times> nat \<times> byte list \<times> nat) option" where
  "dn_first msg lptr newsz tgt tpos =
     (case byte_at msg lptr of
        None \<Rightarrow> None
      | Some lb \<Rightarrow>
          let newsz = newsz - 1; lptr = lptr + 1 in
          if lb > 0x3f then
            if lb < 0xc0 then Some (RC_FORMAT, newsz, tgt, tpos)
            else if newsz = 0 then Some (RC_TRUNC, newsz, tgt, tpos)
            else if lptr \<ge> length msg then Some (RC_FORMAT, newsz, tgt, tpos)
            else (case byte_at msg lptr of
                None \<Rightarrow> None
              | Some lo \<Rightarrow>
                  if ptr_offset lb lo \<ge> length msg then Some (RC_FORMAT, newsz - 1, tgt, tpos)
                  else map_option (\<lambda>(rc, tgt, tpos). (rc, newsz - 1, tgt, tpos))
                    (dn_rest msg 1 (ptr_offset lb lo) tgt tpos))
          else (case byte_set tgt tpos lb of
              None \<Rightarrow> None
            | Some tgt \<Rightarrow>
                if lb = 0 then Some (RC_OK, newsz, tgt, tpos + 1)
                else if newsz \<le> unat lb then Some (RC_TRUNC, newsz, tgt, tpos + 1)
                else if lptr + unat lb \<ge> length msg then Some (RC_FORMAT, newsz, tgt, tpos + 1)
                else if tpos + 1 + unat lb > DNSNAMEBUFSIZE - 1 then Some (RC_FORMAT, newsz, tgt, tpos + 1)
                else (case dn_copy msg lptr tgt (tpos + 1) (unat lb) of
                    None \<Rightarrow> None
                  | Some tgt \<Rightarrow> dn_first msg (lptr + unat lb) (newsz - unat lb) tgt (tpos + 1 + unat lb))))"
  by pat_completeness auto
termination
  by (relation "measure (\<lambda>(msg, lptr, newsz, tgt, tpos). DNSNAMEBUFSIZE - tpos)")
    (auto simp: DNSNAMEBUFSIZE_def)

declare dn_first.simps [simp del]

text \<open>
  The return code, the new \<open>*src\<close> and \<open>*sz\<close>, the target buffer, and \<open>*len\<close> where it is stored.
\<close>

definition decompress_name ::
  "byte list \<Rightarrow> nat \<Rightarrow> nat \<Rightarrow> byte list \<Rightarrow> (dns_rc \<times> nat \<times> nat \<times> byte list \<times> nat option) option" where
  "decompress_name msg src sz tgt =
     (if sz = 0 then Some (RC_TRUNC, src, sz, tgt, None)
      else if src \<ge> length msg then Some (RC_FORMAT, src, sz, tgt, None)
      else case dn_first msg src sz tgt 0 of
        None \<Rightarrow> None
      | Some (rc, newsz, tgt, tpos) \<Rightarrow>
          if rc = RC_OK then Some (RC_OK, src + (sz - newsz), newsz, tgt, Some tpos)
          else Some (rc, src, sz, tgt, None))"

subsection \<open>Matching names from the end\<close>

text \<open>The first two loops of \<open>domain_match\<close> collect the length bytes; the result has the position of the end.\<close>

function dm_collect :: "byte list \<Rightarrow> nat \<Rightarrow> nat list \<Rightarrow> (nat \<times> nat list) option" where
  "dm_collect m i ls =
     (case byte_at m i of
        None \<Rightarrow> None
      | Some lb \<Rightarrow>
          if lb = 0 then Some (i, ls)
          else if \<not> length ls < 128 then None
          else dm_collect m (i + (unat lb + 1)) (ls @ [unat lb]))"
  by pat_completeness auto
termination
  by (relation "measure (\<lambda>(m, i, ls). length m - i)") (auto simp: byte_at_def split: if_splits)

declare dm_collect.simps [simp del]

text \<open>The comparison of a label backwards; \<open>Inl ()\<close> is a mismatch, else the positions reached.\<close>

fun dm_chars :: "byte list \<Rightarrow> byte list \<Rightarrow> nat \<Rightarrow> nat \<Rightarrow> nat \<Rightarrow> (unit + nat \<times> nat) option" where
  "dm_chars ms md i j 0 = Some (Inr (i, j))"
| "dm_chars ms md i j (Suc lb) = do {
     a \<leftarrow> byte_at ms (i - 1);
     b \<leftarrow> byte_at md (j - 1);
     if c_tolower a \<noteq> c_tolower b then Some (Inl ()) else dm_chars ms md (i - 1) (j - 1) lb
   }"

function dm_cmp :: "byte list \<Rightarrow> byte list \<Rightarrow> nat list \<Rightarrow> nat list \<Rightarrow> nat \<Rightarrow> nat \<Rightarrow> nat \<Rightarrow> nat \<Rightarrow> (nat \<times> nat \<times> nat) option" where
  "dm_cmp ms md ls ld n k i j =
     (if k \<le> n then
        let lb = ls ! (length ls - k) in
        if lb \<noteq> ld ! (length ld - k) then Some (k - 1, i, j)
        else case dm_chars ms md i j lb of
          None \<Rightarrow> None
        | Some (Inl _) \<Rightarrow> Some (k - 1, i, j)
        | Some (Inr (i', j')) \<Rightarrow> dm_cmp ms md ls ld n (k + 1) (i' - 1) (j' - 1)
      else Some (k - 1, i, j))"
  by pat_completeness auto
termination
  by (relation "measure (\<lambda>(ms, md, ls, ld, n, k, i, j). n + 1 - k)") auto

declare dm_cmp.simps [simp del]

text \<open>The number of labels that match, and the offsets \<open>*os\<close> and \<open>*od\<close> of the match.\<close>

definition domain_match :: "byte list \<Rightarrow> byte list \<Rightarrow> (nat \<times> nat \<times> nat) option" where
  "domain_match ms md = do {
     (i, ls) \<leftarrow> dm_collect ms 0 [];
     (j, ld) \<leftarrow> dm_collect md 0 [];
     let n = length ls;
     let n = (if n > length ld then length ld else n);
     dm_cmp ms md ls ld n 1 i j
   }"

subsection \<open>Compression\<close>

text \<open>
  The names written so far, \<open>compel_t\<close>: where, and the whole name. The list is a \<open>dlist\<close> of list.c; that
  its memory can be grown is the parameter \<open>grow\<close>.
\<close>

record compel =
  comp_index :: nat
  comp_s :: "byte list"

fun cn_search :: "byte list \<Rightarrow> compel list \<Rightarrow> nat \<times> nat \<times> nat \<Rightarrow> (nat \<times> nat \<times> nat) option" where
  "cn_search inp [] best = Some best"
| "cn_search inp (ci # cb) (longest, lrem, coffs) = do {
     (rv, rem, to) \<leftarrow> domain_match inp (comp_s ci);
     cn_search inp cb
       (if rv > longest then
          let newoffs = comp_index ci + to in
          if newoffs \<le> 0x3fff then (rv, rem, newoffs) else (longest, lrem, coffs)
        else (longest, lrem, coffs))
   }"

text \<open>The bytes written to \<open>out\<close> and the new list; \<open>None\<close> in the result is a failed allocation.\<close>

definition compress_name :: "bool \<Rightarrow> byte list \<Rightarrow> nat \<Rightarrow> compel list \<Rightarrow> (byte list \<times> compel list) option option" where
  "compress_name grow inp offs cb = do {
     ilen \<leftarrow> rhnlen inp;
     if \<not> ilen \<le> DNSNAMEBUFSIZE then None
     else do {
       (longest, lrem, coffs) \<leftarrow> cn_search inp cb (0, 0, 0);
       (outb, add) \<leftarrow>
         (if longest > 0 then
            if \<not> lrem + 2 \<le> ilen then None
            else Some (mem_read inp 0 lrem @
              [0xc0 OR word_of_nat (drop_bit 8 (coffs AND 0x3f00)), word_of_nat (coffs AND 0xff)], lrem \<noteq> 0)
          else Some (mem_read inp 0 ilen, True));
       Some (if add then
               if \<not> grow then None
               else Some (outb, cb @ [\<lparr>comp_index = offs, comp_s = mem_read inp 0 ilen\<rparr>])
             else Some (outb, cb))
     }
   }"

end
