(* ===== verification/DnsMessageProperties.thy ===== *)
theory DnsMessageProperties
  imports DnsMessage
begin

text \<open>
  The names of a message as an inductive relation (RFC 1035, 4.1.4), which \<open>decompress_name\<close> decides;
  \<open>domain_match\<close> as the longest common ending; and the round trip of compression.
\<close>

subsection \<open>Pointers\<close>

lemma ptr_offset_eq: "ptr_offset lb lo = 256 * unat (lb AND 0x3f) + unat lo"
proof -
  let ?a = "unat (lb AND 0x3f)"
  have "bit (push_bit 8 ?a) n \<Longrightarrow> \<not> bit (unat lo) n" for n
    using bit_imp_le_length [of lo n] by (auto simp: bit_push_bit_iff bit_unsigned_iff)
  then have "push_bit 8 ?a AND unat lo = 0" by (intro bit_eqI) (auto simp: bit_and_iff)
  from disjunctive_add_eq_or [OF this] show ?thesis unfolding ptr_offset_def by (simp add: push_bit_eq_mult)
qed

lemma nat_and_63: "(n :: nat) AND 0x3f = n mod 64"
  using take_bit_eq_mask [of 6 n] by (simp add: mask_eq_exp_minus_1 take_bit_eq_mod)

lemma nat_and_255: "(n :: nat) AND 0xff = n mod 256"
  using take_bit_eq_mask [of 8 n] by (simp add: mask_eq_exp_minus_1 take_bit_eq_mod)

lemma coffs_high: "drop_bit 8 ((n :: nat) AND 0x3f00) = n div 256 mod 64"
proof -
  have "drop_bit 8 (n AND 0x3f00) = drop_bit 8 n AND drop_bit 8 0x3f00" by (rule drop_bit_and)
  also have "drop_bit 8 0x3f00 = (0x3f :: nat)" by (simp add: drop_bit_eq_div)
  finally show ?thesis by (simp only: nat_and_63 drop_bit_eq_div) simp
qed

definition ptr_hi :: "nat \<Rightarrow> byte" where "ptr_hi n = 0xc0 OR word_of_nat (drop_bit 8 (n AND 0x3f00))"
definition ptr_lo :: "nat \<Rightarrow> byte" where "ptr_lo n = word_of_nat (n AND 0xff)"

lemma ptr_hi:
  assumes "n \<le> 0x3fff"
  shows "\<not> ptr_hi n < 0xc0" "unat (ptr_hi n AND 0x3f) = n div 256"
proof -
  let ?k = "n div 256"
  have k: "?k mod 64 = ?k" "?k < 64" using assms by simp_all
  have hi: "ptr_hi n = 0xc0 OR word_of_nat ?k" unfolding ptr_hi_def coffs_high k ..
  have tb: "(word_of_nat ?k :: byte) AND 0x3f = word_of_nat ?k"
  proof -
    have "(word_of_nat ?k :: byte) AND mask 6 = take_bit 6 (word_of_nat ?k)" by (simp add: take_bit_eq_mask)
    also have "\<dots> = word_of_nat ?k" using k by (simp add: word_unat_eq_iff unsigned_take_bit_eq unat_of_nat take_bit_eq_mod unat_mod)
    finally show ?thesis by (simp add: mask_eq_exp_minus_1)
  qed
  have "(0xc0 OR word_of_nat ?k :: byte) AND 0x3f = (0xc0 AND 0x3f) OR (word_of_nat ?k AND 0x3f)"
    by (rule bit.conj_disj_distrib2)
  then have "ptr_hi n AND 0x3f = word_of_nat ?k" using tb hi by simp
  then show "unat (ptr_hi n AND 0x3f) = ?k" using k by (simp add: unat_of_nat)
  have "0xc0 \<le> (0xc0 OR word_of_nat ?k :: byte)" by (rule le_word_or2)
  then show "\<not> ptr_hi n < 0xc0" using hi by (simp add: not_less)
qed

lemma ptr_roundtrip: "n \<le> 0x3fff \<Longrightarrow> ptr_offset (ptr_hi n) (ptr_lo n) = n"
  using ptr_hi(2) [of n] by (simp add: ptr_offset_eq ptr_lo_def nat_and_255 unat_of_nat)

subsection \<open>The names of a message\<close>

text \<open>
  \<open>name_at msg off ls h k\<close>: the labels \<open>ls\<close> are at \<open>off\<close>, over \<open>h\<close> pointers, the first \<open>k\<close> bytes in place.
  These are the labels and pointers of RFC 1035, with one difference: there a pointer leads to a prior occurrence
  of the name, here, as in the code, to any place of the message, before or after it.
\<close>

inductive name_at :: "byte list \<Rightarrow> nat \<Rightarrow> byte list list \<Rightarrow> nat \<Rightarrow> nat \<Rightarrow> bool" for msg where
  name_end: "byte_at msg off = Some 0 \<Longrightarrow> name_at msg off [] 0 1"
| name_label: "byte_at msg off = Some n \<Longrightarrow> n \<noteq> 0 \<Longrightarrow> n \<le> 0x3f \<Longrightarrow> length l = unat n \<Longrightarrow>
    mem_read msg (off + 1) (unat n) = l \<Longrightarrow> name_at msg (off + 1 + unat n) ls h k \<Longrightarrow>
    name_at msg off (l # ls) h (1 + unat n + k)"
| name_ptr: "byte_at msg off = Some hi \<Longrightarrow> \<not> hi < 0xc0 \<Longrightarrow> byte_at msg (off + 1) = Some lo \<Longrightarrow>
    name_at msg (ptr_offset hi lo) ls h k \<Longrightarrow> name_at msg off ls (h + 1) 2"

inductive_cases name_atE: "name_at msg off ls h k"

lemma name_at_byte: "name_at msg off ls h k \<Longrightarrow> off < length msg"
  by (erule name_at.cases) (auto simp: byte_at_def split: if_splits)

lemma unat_ge_1: "n \<noteq> 0 \<Longrightarrow> Suc 0 \<le> unat (n :: byte)"
  by (simp add: Suc_le_eq unat_gt_0)

lemma name_at_labels: "name_at msg off ls h k \<Longrightarrow> list_all label_ok ls"
  by (induction rule: name_at.induct) (auto simp: label_ok_def word_le_nat_alt unat_ge_1)

lemma name_at_size: "name_at msg off ls h k \<Longrightarrow> 1 \<le> k \<and> off + k \<le> length msg"
  by (induction rule: name_at.induct) (auto simp: byte_at_def split: if_splits)

lemma byte_at_extend: "byte_at msg i = Some b \<Longrightarrow> byte_at (msg @ x) i = Some b"
  by (auto simp: byte_at_def nth_append split: if_splits)

lemma mem_read_extend:
  "length (mem_read msg off n) = n \<Longrightarrow> mem_read (msg @ x) off n = mem_read msg off n"
  by (cases "n = 0") (auto simp: mem_read_def)

text \<open>Text added behind does not change the names of a message.\<close>

lemma name_at_extend: "name_at msg off ls h k \<Longrightarrow> name_at (msg @ x) off ls h k"
proof (induction rule: name_at.induct)
  case (name_end off)
  show ?case by (rule name_at.name_end, rule byte_at_extend, rule name_end)
next
  case (name_label off n l ls h k)
  show ?case
    by (rule name_at.name_label [OF byte_at_extend [OF name_label(1)] name_label(2-4) _ name_label(7)])
      (use name_label(4,5) in \<open>simp add: mem_read_extend\<close>)
next
  case (name_ptr off hi lo ls h k)
  show ?case
    by (rule name_at.name_ptr [OF byte_at_extend [OF name_ptr(1)] name_ptr(2) byte_at_extend [OF name_ptr(3)] name_ptr(5)])
qed

subsection \<open>Decompression decides the relation\<close>

lemma dn_copy_eq:
  assumes "tpos + n \<le> length tgt" "lptr + n \<le> length msg"
  shows "dn_copy msg lptr tgt tpos n = Some (mem_write tgt tpos (mem_read msg lptr n))"
  using assms
proof (induction n arbitrary: lptr tgt tpos)
  case (Suc n)
  have b: "byte_at msg lptr = Some (msg ! lptr)" "byte_set tgt tpos (msg ! lptr) = Some (tgt[tpos := msg ! lptr])"
    using Suc.prems by (simp_all add: byte_at_def byte_set_def)
  have "mem_read msg lptr (Suc n) = msg ! lptr # mem_read msg (lptr + 1) n"
    using Suc.prems by (simp add: mem_read_def take_Suc_conv_app_nth flip: Cons_nth_drop_Suc)
  then have "mem_write tgt tpos (mem_read msg lptr (Suc n)) =
      mem_write (tgt[tpos := msg ! lptr]) (tpos + 1) (mem_read msg (lptr + 1) n)"
    using Suc.prems mem_write_Cons [of tpos tgt] by simp
  then show ?case using b Suc by simp
qed simp

text \<open>Following pointers from a length byte.\<close>

inductive jumps :: "byte list \<Rightarrow> nat \<Rightarrow> nat \<Rightarrow> nat \<Rightarrow> bool" for msg where
  jumps_here: "byte_at msg off = Some n \<Longrightarrow> n \<le> 0x3f \<Longrightarrow> jumps msg off off 0"
| jumps_ptr: "byte_at msg off = Some hi \<Longrightarrow> \<not> hi < 0xc0 \<Longrightarrow> byte_at msg (off + 1) = Some lo \<Longrightarrow>
    jumps msg (ptr_offset hi lo) off' h \<Longrightarrow> jumps msg off off' (h + 1)"

lemma jumps_end: "jumps msg off off' h \<Longrightarrow> \<exists>n. byte_at msg off' = Some n \<and> n \<le> 0x3f"
  by (induction rule: jumps.induct) auto

lemma jumps_name: "jumps msg off off' h \<Longrightarrow> name_at msg off' ls h' k \<Longrightarrow> \<exists>k. name_at msg off ls (h' + h) k"
proof (induction arbitrary: k rule: jumps.induct)
  case (jumps_ptr off hi lo off' h)
  then obtain k' where "name_at msg (ptr_offset hi lo) ls (h' + h) k'" by blast
  from name_at.name_ptr [OF jumps_ptr(1-3) this] show ?case by auto
qed auto

lemma dn_jump_sound:
  assumes "byte_at msg off = Some lb" "dn_jump msg hops (off + 1) lb = Some (Inr (hops', lptr', lb'))"
  shows "\<exists>off' h. jumps msg off off' h \<and> hops' = hops + h \<and> lptr' = off' + 1 \<and> byte_at msg off' = Some lb' \<and>
    (0 < h \<longrightarrow> hops' \<le> 255)"
  using assms
proof (induction msg hops "off + 1" lb arbitrary: off rule: dn_jump.induct)
  case (1 msg hops lb)
  show ?case
  proof (cases "lb > 0x3f")
    case False
    then have "hops' = hops" "lptr' = off + 1" "lb' = lb" using 1(3) by (simp_all add: dn_jump.simps)
    then show ?thesis using False 1(2) by (intro exI [of _ off] exI [of _ 0]) (auto intro: jumps_here simp: not_less)
  next
    case True
    have c: "\<not> lb < 0xc0" "\<not> off + 1 \<ge> length msg" "\<not> hops + 1 > 255"
      using 1(3) True by (subst (asm) dn_jump.simps, simp split: if_splits)+
    then obtain lo where lo: "byte_at msg (off + 1) = Some lo" by (auto simp: byte_at_def)
    have o: "\<not> ptr_offset lb lo \<ge> length msg"
      using 1(3) True c lo by (subst (asm) dn_jump.simps) (simp split: if_splits)
    then obtain lb2 where lb2: "byte_at msg (ptr_offset lb lo) = Some lb2" by (auto simp: byte_at_def)
    have e: "dn_jump msg (hops + 1) (ptr_offset lb lo + 1) lb2 = Some (Inr (hops', lptr', lb'))"
      using 1(3) True c lo o lb2 by (subst (asm) dn_jump.simps) simp
    from 1(1) [OF True c lo o lb2 refl lb2 e] obtain off' h where
      "jumps msg (ptr_offset lb lo) off' h" "hops' = hops + 1 + h" "lptr' = off' + 1" "byte_at msg off' = Some lb'"
      "0 < h \<longrightarrow> hops' \<le> 255" by blast
    then show ?thesis using jumps_ptr [OF 1(2) c(1) lo] c(3) by (intro exI [of _ off'] exI [of _ "h + 1"]) auto
  qed
qed

lemma dn_jump_rc: "dn_jump msg hops lptr lb = Some (Inl rc) \<Longrightarrow> rc = RC_FORMAT"
  by (induction msg hops lptr lb rule: dn_jump.induct)
    (subst (asm) (2) dn_jump.simps, auto split: if_splits option.splits)

lemma dn_jump_total:
  assumes "off < length msg"
  shows "dn_jump msg hops (off + 1) lb \<noteq> None"
  using assms
proof (induction msg hops "off + 1" lb arbitrary: off rule: dn_jump.induct)
  case (1 msg hops lb)
  then show ?case
    by (subst dn_jump.simps) (auto simp: byte_at_def)
qed

lemma dn_jump_complete:
  assumes "jumps msg off off' h" "byte_at msg off = Some lb" "byte_at msg off' = Some lb'" "hops + h \<le> 255"
  shows "dn_jump msg hops (off + 1) lb = Some (Inr (hops + h, off' + 1, lb'))"
  using assms
proof (induction arbitrary: hops lb rule: jumps.induct)
  case (jumps_here off n)
  then have "\<not> lb > 0x3f" by (simp add: not_less)
  then show ?case using jumps_here by (subst dn_jump.simps) simp
next
  case (jumps_ptr off hi lo off' h)
  have hi: "hi > 0x3f" using jumps_ptr(2) by (simp add: word_less_nat_alt)
  obtain lb2 where lb2: "byte_at msg (ptr_offset hi lo) = Some lb2"
    using jumps_ptr(4) by (cases rule: jumps.cases) auto
  have b: "off + 1 < length msg" "ptr_offset hi lo < length msg"
    using jumps_ptr(3) lb2 by (auto simp: byte_at_def split: if_splits)
  have "dn_jump msg (hops + 1) (ptr_offset hi lo + 1) lb2 = Some (Inr (hops + 1 + h, off' + 1, lb'))"
    using jumps_ptr by (intro jumps_ptr(5) lb2) simp_all
  then show ?case using jumps_ptr hi lb2 b by (subst dn_jump.simps) simp
qed

lemma name_at_split:
  "name_at msg off ls h k \<Longrightarrow> \<exists>off' h1 n. jumps msg off off' h1 \<and> byte_at msg off' = Some n \<and> n \<le> 0x3f \<and>
    (if n = 0 then ls = [] \<and> h = h1
     else \<exists>l ls' h2 k'. ls = l # ls' \<and> h = h1 + h2 \<and> length l = unat n \<and> mem_read msg (off' + 1) (unat n) = l \<and>
       name_at msg (off' + 1 + unat n) ls' h2 k')"
proof (induction rule: name_at.induct)
  case (name_end off)
  then show ?case by (intro exI [of _ off] exI [of _ 0] exI [of _ 0]) (auto intro: jumps_here)
next
  case (name_label off n l ls h k)
  then show ?case
    by (intro exI [of _ off] exI [of _ 0] exI [of _ n]) (auto intro: jumps_here)
next
  case (name_ptr off hi lo ls h k)
  then obtain off' h1 n where j: "jumps msg (ptr_offset hi lo) off' h1" and r: "byte_at msg off' = Some n" "n \<le> 0x3f"
    "if n = 0 then ls = [] \<and> h = h1
     else \<exists>l ls' h2 k'. ls = l # ls' \<and> h = h1 + h2 \<and> length l = unat n \<and> mem_read msg (off' + 1) (unat n) = l \<and>
       name_at msg (off' + 1 + unat n) ls' h2 k'" by blast
  show ?case
    using jumps_ptr [OF name_ptr(1-3) j] r
    by (intro exI [of _ off'] exI [of _ "h1 + 1"] exI [of _ n]) (auto split: if_splits)
qed

lemma unat_63: "n \<le> (0x3f :: byte) \<Longrightarrow> unat n \<le> 63"
  by (simp add: word_le_nat_alt)

lemma dn_rest_complete:
  assumes "name_at msg lptr ls h k" "hops + h \<le> 255" "tpos + length (enc_name ls) \<le> DNSNAMEBUFSIZE"
    "length tgt = DNSNAMEBUFSIZE"
  shows "dn_rest msg hops lptr tgt tpos =
    Some (RC_OK, mem_write tgt tpos (enc_name ls), tpos + length (enc_name ls))"
  using assms
proof (induction ls arbitrary: lptr h k hops tpos tgt)
  case Nil
  from name_at_split [OF Nil.prems(1)] obtain off' where j: "jumps msg lptr off' h" "byte_at msg off' = Some 0"
    by (auto split: if_splits)
  obtain lb where lb: "byte_at msg lptr = Some lb" using j(1) by (cases rule: jumps.cases) auto
  have s: "byte_set tgt tpos 0 = Some (mem_write tgt tpos [0])"
    using Nil.prems mem_write_Cons [of tpos tgt 0 "[]"] by (simp add: byte_set_def)
  show ?case using dn_jump_complete [OF j(1) lb j(2) Nil.prems(2)] lb s by (subst dn_rest.simps) simp
next
  case (Cons l ls)
  from name_at_split [OF Cons.prems(1)] obtain off' h1 n h2 k' where j: "jumps msg lptr off' h1" "byte_at msg off' = Some n"
    and n: "n \<le> 0x3f" "n \<noteq> 0" "h = h1 + h2" "length l = unat n" "mem_read msg (off' + 1) (unat n) = l"
    and nm: "name_at msg (off' + 1 + unat n) ls h2 k'"
    by (auto split: if_splits)
  obtain lb where lb: "byte_at msg lptr = Some lb" using j(1) by (cases rule: jumps.cases) auto
  have dj: "dn_jump msg hops (lptr + 1) lb = Some (Inr (hops + h1, off' + 1, n))"
    by (rule dn_jump_complete [OF j(1) lb j(2)]) (use Cons.prems(2) n in simp)
  have sz: "tpos + 1 + unat n + length (enc_name ls) \<le> 256" "length tgt = 256" "1 \<le> length (enc_name ls)"
    using Cons.prems n by (simp_all add: DNSNAMEBUFSIZE_def length_dotted)
  have s: "byte_set tgt tpos n = Some (tgt[tpos := n])" using sz by (simp add: byte_set_def)
  have in_msg: "off' + 1 + unat n < length msg" by (rule name_at_byte [OF nm])
  have wn: "word_of_nat (length l) = n" using n(4) by simp
  let ?t = "mem_write tgt tpos (n # l)"
  have c: "dn_copy msg (off' + 1) (tgt[tpos := n]) (tpos + 1) (unat n) = Some ?t"
    using dn_copy_eq [of "tpos + 1" "unat n" "tgt[tpos := n]" "off' + 1" msg] sz in_msg n(5)
      mem_write_Cons [of tpos tgt n l] by simp
  have "dn_rest msg (hops + h1) (off' + 1 + unat n) ?t (tpos + 1 + unat n) =
      Some (RC_OK, mem_write ?t (tpos + 1 + unat n) (enc_name ls), tpos + 1 + unat n + length (enc_name ls))"
    using Cons.prems(2) n sz by (intro Cons.IH [OF nm]) (simp_all add: DNSNAMEBUFSIZE_def)
  also have "mem_write ?t (tpos + 1 + unat n) (enc_name ls) = mem_write tgt tpos (enc_name (l # ls))"
    using mem_write_append [of tpos "n # l" "enc_name ls" tgt] sz n(4) wn by simp
  finally show ?case
    using lb dj s c in_msg sz n by (subst dn_rest.simps) (simp add: DNSNAMEBUFSIZE_def)
qed

lemma jumps_byte: "jumps msg off off' h \<Longrightarrow> off' < length msg"
  by (drule jumps_end) (auto simp: byte_at_def split: if_splits)

lemma dn_rest_sound:
  assumes "dn_rest msg hops lptr tgt tpos = Some (RC_OK, tgt', tpos')" "hops \<le> 255" "tpos \<le> DNSNAMEBUFSIZE - 1"
    "length tgt = DNSNAMEBUFSIZE"
  shows "\<exists>ls h k. name_at msg lptr ls h k \<and> hops + h \<le> 255 \<and> tpos + length (enc_name ls) \<le> DNSNAMEBUFSIZE"
  using assms
proof (induction msg hops lptr tgt tpos rule: dn_rest.induct)
  case (1 msg hops lptr tgt tpos)
  note run = 1(2)
  obtain lb where lb: "byte_at msg lptr = Some lb" using run by (subst (asm) dn_rest.simps) (auto split: option.splits)
  obtain hops' lptr' lb' where dj: "dn_jump msg hops (lptr + 1) lb = Some (Inr (hops', lptr', lb'))"
    using run lb by (subst (asm) dn_rest.simps) (auto split: option.splits sum.splits dest: dn_jump_rc)
  obtain off' h where j: "jumps msg lptr off' h" "hops' = hops + h" "lptr' = off' + 1" "byte_at msg off' = Some lb'"
    "hops' \<le> 255" using dn_jump_sound [OF lb dj] 1(3) by fastforce
  have s: "byte_set tgt tpos lb' = Some (tgt[tpos := lb'])" using 1(4,5) by (simp add: byte_set_def DNSNAMEBUFSIZE_def)
  show ?case
  proof (cases "lb' = 0")
    case True
    then have "name_at msg off' [] 0 1" using j(4) name_at.name_end [of msg off'] by simp
    then obtain k where "name_at msg lptr [] (0 + h) k" using jumps_name [OF j(1)] by blast
    then show ?thesis using j 1(4) by (intro exI [of _ "[]"] exI [of _ h] exI [of _ k]) (auto simp: DNSNAMEBUFSIZE_def)
  next
    case False
    have c: "\<not> lptr' + unat lb' \<ge> length msg" "\<not> tpos + 1 + unat lb' > DNSNAMEBUFSIZE - 1"
      using run lb dj s False by (subst (asm) dn_rest.simps, simp split: if_splits)+
    obtain t where t: "dn_copy msg lptr' (tgt[tpos := lb']) (tpos + 1) (unat lb') = Some t"
      "t = mem_write (tgt[tpos := lb']) (tpos + 1) (mem_read msg lptr' (unat lb'))"
      using dn_copy_eq [of "tpos + 1" "unat lb'" "tgt[tpos := lb']" lptr' msg] c 1(5) by (simp add: DNSNAMEBUFSIZE_def)
    have r: "length (mem_read msg lptr' (unat lb')) = unat lb'" using c(1) by (intro length_mem_read) simp
    have tl: "length t = DNSNAMEBUFSIZE" using t(2) r c 1(5) by (simp add: DNSNAMEBUFSIZE_def)
    have e: "dn_rest msg hops' (lptr' + unat lb') t (tpos + 1 + unat lb') = Some (RC_OK, tgt', tpos')"
      using run lb dj s False c t(1) by (subst (asm) dn_rest.simps) simp
    obtain ls h2 k where nm: "name_at msg (lptr' + unat lb') ls h2 k" "hops' + h2 \<le> 255"
      "tpos + 1 + unat lb' + length (enc_name ls) \<le> DNSNAMEBUFSIZE"
      using 1(1) [OF lb dj refl refl refl s False c t(1) e] j(5) c tl by auto
    obtain n where n: "lb' \<le> 0x3f" using jumps_end [OF j(1)] j(4) by auto
    have "name_at msg off' (mem_read msg lptr' (unat lb') # ls) h2 (1 + unat lb' + k)"
      using j nm(1) False n r by (intro name_label) simp_all
    from jumps_name [OF j(1) this] obtain k' where k': "name_at msg lptr (mem_read msg lptr' (unat lb') # ls) (h2 + h) k'"
      by blast
    show ?thesis
      by (intro exI [of _ "mem_read msg lptr' (unat lb') # ls"] exI [of _ "h2 + h"] exI [of _ k'])
        (use k' nm j r in auto)
  qed
qed

lemma dn_rest_total:
  assumes "lptr < length msg" "tpos \<le> DNSNAMEBUFSIZE - 1" "length tgt = DNSNAMEBUFSIZE" "hops \<le> 255"
  shows "\<exists>rc tgt' tpos'. dn_rest msg hops lptr tgt tpos = Some (rc, tgt', tpos') \<and> length tgt' = DNSNAMEBUFSIZE"
  using assms
proof (induction msg hops lptr tgt tpos rule: dn_rest.induct)
  case (1 msg hops lptr tgt tpos)
  obtain lb where lb: "byte_at msg lptr = Some lb" using 1(2) by (simp add: byte_at_def)
  obtain res where res: "dn_jump msg hops (lptr + 1) lb = Some res" using dn_jump_total [OF 1(2)] by fastforce
  show ?case
  proof (cases res)
    case (Inl rc)
    then show ?thesis using lb res 1(4) by (subst dn_rest.simps) simp
  next
    case (Inr t)
    then obtain hops' lptr' lb' where dj: "dn_jump msg hops (lptr + 1) lb = Some (Inr (hops', lptr', lb'))"
      using res by (cases t) auto
    obtain off' h where j: "jumps msg lptr off' h" "lptr' = off' + 1" "hops' \<le> 255"
      using dn_jump_sound [OF lb dj] 1(5) by fastforce
    have s: "byte_set tgt tpos lb' = Some (tgt[tpos := lb'])" using 1(3,4) by (simp add: byte_set_def DNSNAMEBUFSIZE_def)
    show ?thesis
    proof (cases "lb' \<noteq> 0 \<and> \<not> lptr' + unat lb' \<ge> length msg \<and> \<not> tpos + 1 + unat lb' > DNSNAMEBUFSIZE - 1")
      case False
      then show ?thesis using lb dj s 1(4) by (subst dn_rest.simps) auto
    next
      case True
      then have c: "\<not> lb' = 0" "\<not> lptr' + unat lb' \<ge> length msg" "\<not> tpos + 1 + unat lb' > DNSNAMEBUFSIZE - 1" by auto
      let ?t = "mem_write (tgt[tpos := lb']) (tpos + 1) (mem_read msg lptr' (unat lb'))"
      have t: "dn_copy msg lptr' (tgt[tpos := lb']) (tpos + 1) (unat lb') = Some ?t"
        using c 1(4) by (intro dn_copy_eq) (simp_all add: DNSNAMEBUFSIZE_def)
      have r: "length (mem_read msg lptr' (unat lb')) = unat lb'" using c(2) by (intro length_mem_read) simp
      have tl: "length ?t = DNSNAMEBUFSIZE" using r c 1(4) by (simp add: DNSNAMEBUFSIZE_def)
      have "dn_rest msg hops lptr tgt tpos = dn_rest msg hops' (lptr' + unat lb') ?t (tpos + 1 + unat lb')"
        using lb dj s c t by (subst dn_rest.simps) simp
      then show ?thesis using 1(1) [OF lb dj refl refl refl s c t] c tl j(3) by simp
    qed
  qed
qed

lemma dn_first_complete:
  assumes "name_at msg lptr ls h k" "h \<le> 255" "k \<le> newsz" "tpos + length (enc_name ls) \<le> DNSNAMEBUFSIZE"
    "length tgt = DNSNAMEBUFSIZE"
  shows "dn_first msg lptr newsz tgt tpos =
    Some (RC_OK, newsz - k, mem_write tgt tpos (enc_name ls), tpos + length (enc_name ls))"
  using assms
proof (induction arbitrary: newsz tgt tpos rule: name_at.induct)
  case (name_end off)
  have "byte_set tgt tpos 0 = Some (mem_write tgt tpos [0])"
    using name_end.prems mem_write_Cons [of tpos tgt 0 "[]"] by (simp add: byte_set_def)
  then show ?case using name_end by (subst dn_first.simps) simp
next
  case (name_label off n l ls h k)
  have le: "\<not> n > 0x3f" using name_label(3) by (simp add: not_less)
  have k: "1 \<le> k" using name_at_size [OF name_label(6)] by simp
  have sz: "tpos + 1 + unat n + length (enc_name ls) \<le> 256" "length tgt = 256" "1 \<le> length (enc_name ls)"
    using name_label by (simp_all add: DNSNAMEBUFSIZE_def length_dotted)
  have s: "byte_set tgt tpos n = Some (tgt[tpos := n])" using sz by (simp add: byte_set_def)
  have in_msg: "off + 1 + unat n < length msg" by (rule name_at_byte [OF name_label(6)])
  have wn: "word_of_nat (length l) = n" using name_label(4) by simp
  let ?t = "mem_write tgt tpos (n # l)"
  have c: "dn_copy msg (off + 1) (tgt[tpos := n]) (tpos + 1) (unat n) = Some ?t"
    using dn_copy_eq [of "tpos + 1" "unat n" "tgt[tpos := n]" "off + 1" msg] sz in_msg name_label(5)
      mem_write_Cons [of tpos tgt n l] by simp
  have "dn_first msg (off + 1 + unat n) (newsz - 1 - unat n) ?t (tpos + 1 + unat n) =
      Some (RC_OK, newsz - 1 - unat n - k, mem_write ?t (tpos + 1 + unat n) (enc_name ls), tpos + 1 + unat n + length (enc_name ls))"
    using name_label.prems sz name_label(4) by (intro name_label(7)) (simp_all add: DNSNAMEBUFSIZE_def)
  also have "mem_write ?t (tpos + 1 + unat n) (enc_name ls) = mem_write tgt tpos (enc_name (l # ls))"
    using mem_write_append [of tpos "n # l" "enc_name ls" tgt] sz name_label(4) wn by simp
  finally show ?case
    using name_label(1,2,4) name_label.prems(2) le s c in_msg sz k
    by (subst dn_first.simps) (simp add: DNSNAMEBUFSIZE_def Let_def)
next
  case (name_ptr off hi lo ls h k)
  have hi: "hi > 0x3f" using name_ptr(2) by (simp add: word_less_nat_alt)
  have b: "off + 1 < length msg" "ptr_offset hi lo < length msg"
    using name_ptr(3) name_at_byte [OF name_ptr(4)] by (auto simp: byte_at_def split: if_splits)
  have "dn_rest msg 1 (ptr_offset hi lo) tgt tpos = Some (RC_OK, mem_write tgt tpos (enc_name ls), tpos + length (enc_name ls))"
    using name_ptr.prems by (intro dn_rest_complete [OF name_ptr(4)]) simp_all
  then show ?case using name_ptr(1-3) name_ptr.prems(2) hi b by (subst dn_first.simps) (simp add: Let_def)
qed

lemma dn_first_sound:
  assumes "dn_first msg lptr newsz tgt tpos = Some (RC_OK, newsz', tgt', tpos')" "1 \<le> newsz"
    "tpos \<le> DNSNAMEBUFSIZE - 1" "length tgt = DNSNAMEBUFSIZE"
  shows "\<exists>ls h k. name_at msg lptr ls h k \<and> h \<le> 255 \<and> k \<le> newsz \<and> tpos + length (enc_name ls) \<le> DNSNAMEBUFSIZE"
  using assms
proof (induction msg lptr newsz tgt tpos rule: dn_first.induct)
  case (1 msg lptr newsz tgt tpos)
  note run = 1(2)
  obtain lb where lb: "byte_at msg lptr = Some lb" using run by (subst (asm) dn_first.simps) (auto split: option.splits)
  have s: "byte_set tgt tpos lb = Some (tgt[tpos := lb])" using 1(4,5) by (simp add: byte_set_def DNSNAMEBUFSIZE_def)
  show ?case
  proof (cases "lb > 0x3f")
    case True
    have c: "\<not> lb < 0xc0" "newsz - 1 \<noteq> 0" "\<not> lptr + 1 \<ge> length msg"
      using run lb True by (subst (asm) dn_first.simps, simp add: Let_def split: if_splits)+
    then obtain lo where lo: "byte_at msg (lptr + 1) = Some lo" by (auto simp: byte_at_def)
    have "\<exists>tgt'' tpos''. dn_rest msg 1 (ptr_offset lb lo) tgt tpos = Some (RC_OK, tgt'', tpos'')"
      using run lb True c lo by (subst (asm) dn_first.simps) (auto simp: Let_def split: if_splits)
    then obtain ls h k where nm: "name_at msg (ptr_offset lb lo) ls h k" "1 + h \<le> 255"
      "tpos + length (enc_name ls) \<le> DNSNAMEBUFSIZE"
      using dn_rest_sound 1(4,5) by (metis one_le_numeral)
    have "name_at msg lptr ls (h + 1) 2" by (rule name_ptr [OF lb c(1) lo nm(1)])
    then show ?thesis using nm c(2)
      by (intro exI [of _ ls] exI [of _ "h + 1"] exI [of _ 2]) simp
  next
    case small: False
    show ?thesis
    proof (cases "lb = 0")
      case True
      then have "name_at msg lptr [] 0 1" using lb name_at.name_end [of msg lptr] by simp
      then show ?thesis using 1(3,4)
        by (intro exI [of _ "[]"] exI [of _ 0] exI [of _ 1]) (simp add: DNSNAMEBUFSIZE_def)
    next
      case False
      have c: "\<not> newsz - 1 \<le> unat lb" "\<not> lptr + 1 + unat lb \<ge> length msg" "\<not> tpos + 1 + unat lb > DNSNAMEBUFSIZE - 1"
        using run lb small s False by (subst (asm) dn_first.simps, simp add: Let_def split: if_splits)+
      let ?r = "mem_read msg (lptr + 1) (unat lb)" 
      let ?t = "mem_write (tgt[tpos := lb]) (tpos + 1) ?r"
      have t: "dn_copy msg (lptr + 1) (tgt[tpos := lb]) (tpos + 1) (unat lb) = Some ?t"
        using c 1(5) by (intro dn_copy_eq) (simp_all add: DNSNAMEBUFSIZE_def)
      have r: "length ?r = unat lb" using c(2) by (intro length_mem_read) simp
      have tl: "length ?t = DNSNAMEBUFSIZE" using r c 1(5) by (simp add: DNSNAMEBUFSIZE_def)
      have e: "dn_first msg (lptr + 1 + unat lb) (newsz - 1 - unat lb) ?t (tpos + 1 + unat lb) = Some (RC_OK, newsz', tgt', tpos')"
        using run lb small s False c t by (subst (asm) dn_first.simps) (simp add: Let_def)
      have nz: "1 \<le> newsz - 1 - unat lb" using c(1) by arith
      have tp: "tpos + 1 + unat lb \<le> DNSNAMEBUFSIZE - 1" using c(3) by simp
      obtain ls h k where nm: "name_at msg (lptr + 1 + unat lb) ls h k" "h \<le> 255" "k \<le> newsz - 1 - unat lb"
        "tpos + 1 + unat lb + length (enc_name ls) \<le> DNSNAMEBUFSIZE"
        using 1(1) [OF lb refl refl small s False c t e nz tp tl] by blast
      have "name_at msg lptr (?r # ls) h (1 + unat lb + k)"
        using small by (intro name_label [OF lb False _ r refl nm(1)]) (simp add: not_less)
      then show ?thesis using nm r c(1)
        by (intro exI [of _ "?r # ls"] exI [of _ h] exI [of _ "1 + unat lb + k"]) simp
    qed
  qed
qed

lemma dn_first_total:
  assumes "lptr < length msg" "tpos \<le> DNSNAMEBUFSIZE - 1" "length tgt = DNSNAMEBUFSIZE"
  shows "\<exists>rc n tgt' tpos'. dn_first msg lptr newsz tgt tpos = Some (rc, n, tgt', tpos') \<and> length tgt' = DNSNAMEBUFSIZE"
  using assms
proof (induction msg lptr newsz tgt tpos rule: dn_first.induct)
  case (1 msg lptr newsz tgt tpos)
  obtain lb where lb: "byte_at msg lptr = Some lb" using 1(2) by (simp add: byte_at_def)
  have s: "byte_set tgt tpos lb = Some (tgt[tpos := lb])" using 1(3,4) by (simp add: byte_set_def DNSNAMEBUFSIZE_def)
  show ?case
  proof (cases "lb > 0x3f")
    case True
    show ?thesis
    proof (cases "lb < 0xc0 \<or> newsz - 1 = 0 \<or> lptr + 1 \<ge> length msg")
      case True
      then show ?thesis using lb \<open>lb > 0x3f\<close> 1(4) by (subst dn_first.simps) (auto simp: Let_def)
    next
      case False
      then obtain lo where lo: "byte_at msg (lptr + 1) = Some lo" by (auto simp: byte_at_def)
      show ?thesis
      proof (cases "ptr_offset lb lo \<ge> length msg")
        case True
        then show ?thesis using lb \<open>lb > 0x3f\<close> False lo 1(4) by (subst dn_first.simps) (simp add: Let_def)
      next
        case o: False
        obtain rc t p where "dn_rest msg 1 (ptr_offset lb lo) tgt tpos = Some (rc, t, p)" "length t = DNSNAMEBUFSIZE"
          using dn_rest_total [of "ptr_offset lb lo" msg tpos tgt 1] o 1(3,4) by (auto simp: not_le)
        then show ?thesis using lb \<open>lb > 0x3f\<close> False lo o by (subst dn_first.simps) (simp add: Let_def)
      qed
    qed
  next
    case small: False
    show ?thesis
    proof (cases "lb \<noteq> 0 \<and> \<not> newsz - 1 \<le> unat lb \<and> \<not> lptr + 1 + unat lb \<ge> length msg \<and> \<not> tpos + 1 + unat lb > DNSNAMEBUFSIZE - 1")
      case False
      then show ?thesis using lb small s 1(4) by (subst dn_first.simps) (auto simp: Let_def)
    next
      case True
      then have c: "\<not> lb = 0" "\<not> newsz - 1 \<le> unat lb" "\<not> lptr + 1 + unat lb \<ge> length msg" "\<not> tpos + 1 + unat lb > DNSNAMEBUFSIZE - 1"
        by auto
      let ?r = "mem_read msg (lptr + 1) (unat lb)"
      let ?t = "mem_write (tgt[tpos := lb]) (tpos + 1) ?r"
      have t: "dn_copy msg (lptr + 1) (tgt[tpos := lb]) (tpos + 1) (unat lb) = Some ?t"
        using c 1(4) by (intro dn_copy_eq) (simp_all add: DNSNAMEBUFSIZE_def)
      have r: "length ?r = unat lb" using c(3) by (intro length_mem_read) simp
      have tl: "length ?t = DNSNAMEBUFSIZE" using r c 1(4) by (simp add: DNSNAMEBUFSIZE_def)
      have "dn_first msg lptr newsz tgt tpos =
          dn_first msg (lptr + 1 + unat lb) (newsz - 1 - unat lb) ?t (tpos + 1 + unat lb)"
        using lb small s c t by (subst dn_first.simps) (simp add: Let_def)
      then show ?thesis using 1(1) [OF lb refl refl small s c t] c tl by simp
    qed
  qed
qed

text \<open>A name is at one place only in one way.\<close>

lemma name_at_fun: "name_at msg off ls h k \<Longrightarrow> name_at msg off ls' h' k' \<Longrightarrow> ls = ls' \<and> h = h' \<and> k = k'"
proof (induction arbitrary: ls' h' k' rule: name_at.induct)
  case (name_end off)
  from name_end(2) show ?case by (cases rule: name_at.cases) (use name_end(1) in \<open>auto simp: word_less_nat_alt\<close>)
next
  case (name_label off n l ls h k)
  have u: "unat n \<le> 63" using name_label(3) by (rule unat_63)
  from name_label(8) show ?case
    by (cases rule: name_at.cases) (use u name_label(1,2,5,7) in \<open>auto simp: word_less_nat_alt\<close>)
next
  case (name_ptr off hi lo ls h k)
  have u: "\<not> unat hi \<le> 63" using name_ptr(2) by (simp add: word_less_nat_alt)
  from name_ptr(6) show ?case
    by (cases rule: name_at.cases) (use u name_ptr(1,3,5) in \<open>auto simp: word_le_nat_alt\<close>)
qed

lemma decompress_complete:
  assumes "name_at msg src ls h k" "h \<le> 255" "k \<le> sz" "length (enc_name ls) \<le> DNSNAMEBUFSIZE" "length tgt = DNSNAMEBUFSIZE"
  shows "decompress_name msg src sz tgt =
    Some (RC_OK, src + k, sz - k, mem_write tgt 0 (enc_name ls), Some (length (enc_name ls)))"
proof -
  have "0 < sz" "src < length msg" using name_at_size [OF assms(1)] name_at_byte [OF assms(1)] assms(3) by auto
  then show ?thesis using dn_first_complete [OF assms(1-3), of 0 tgt] assms(3-5) by (simp add: decompress_name_def)
qed

lemma decompress_total:
  assumes "length tgt = DNSNAMEBUFSIZE"
  shows "\<exists>rc src' sz' tgt' len. decompress_name msg src sz tgt = Some (rc, src', sz', tgt', len) \<and>
    length tgt' = DNSNAMEBUFSIZE \<and> (rc \<noteq> RC_OK \<longrightarrow> src' = src \<and> sz' = sz \<and> len = None)"
proof (cases "sz = 0 \<or> src \<ge> length msg")
  case True
  then show ?thesis using assms by (auto simp: decompress_name_def)
next
  case False
  then obtain rc n t p where "dn_first msg src sz tgt 0 = Some (rc, n, t, p)" "length t = DNSNAMEBUFSIZE"
    using dn_first_total [of src msg 0 tgt sz] assms by auto
  then show ?thesis using False by (auto simp: decompress_name_def)
qed

lemma decompress_sound:
  assumes "decompress_name msg src sz tgt = Some (RC_OK, src', sz', tgt', len)" "length tgt = DNSNAMEBUFSIZE"
  shows "\<exists>ls h k. name_at msg src ls h k \<and> h \<le> 255 \<and> k \<le> sz \<and> length (enc_name ls) \<le> DNSNAMEBUFSIZE"
  using assms dn_first_sound [of msg src sz tgt 0]
  by (auto simp: decompress_name_def split: if_splits option.splits)

subsection \<open>The longest common ending\<close>

definition lower :: "byte list \<Rightarrow> byte list" where "lower l = map c_tolower l"

fun common_head :: "'a list \<Rightarrow> 'a list \<Rightarrow> nat" where
  "common_head (x # xs) (y # ys) = (if x = y then Suc (common_head xs ys) else 0)"
| "common_head _ _ = 0"

definition common_tail :: "byte list list \<Rightarrow> byte list list \<Rightarrow> nat" where
  "common_tail xs ys = common_head (rev (map lower xs)) (rev (map lower ys))"

lemma length_lower [simp]: "length (lower l) = length l"
  by (simp add: lower_def)

lemma common_head_le: "common_head xs ys \<le> length xs \<and> common_head xs ys \<le> length ys"
  by (induction xs ys rule: common_head.induct) auto

lemma common_head_take: "n \<le> common_head xs ys \<longleftrightarrow> n \<le> length xs \<and> n \<le> length ys \<and> take n xs = take n ys"
proof (induction xs ys arbitrary: n rule: common_head.induct)
  case (1 x xs y ys)
  then show ?case by (cases n) auto
qed auto

lemma common_tail_snoc:
  "common_tail (xs @ [x]) (ys @ [y]) = (if lower x = lower y then Suc (common_tail xs ys) else 0)"
  "common_tail [] ys = 0" "common_tail xs [] = 0"
  by (simp_all add: common_tail_def)

lemma dm_collect_enc:
  assumes "list_all lab_len ls" "length acc + length ls \<le> 128"
  shows "dm_collect (p @ enc_name ls @ r) (length p) acc = Some (length p + length (enc_labels ls), acc @ map length ls)"
  using assms
proof (induction ls arbitrary: p acc)
  case Nil
  then show ?case by (simp add: dm_collect.simps)
next
  case (Cons l ls)
  note b = lab_len_byte [of l]
  have "dm_collect ((p @ word_of_nat (length l) # l) @ enc_name ls @ r) (length (p @ word_of_nat (length l) # l)) (acc @ [length l]) =
      Some (length (p @ word_of_nat (length l) # l) + length (enc_labels ls), (acc @ [length l]) @ map length ls)"
    using Cons.prems by (intro Cons.IH) simp_all
  then show ?case using b Cons.prems by (subst dm_collect.simps) simp
qed

lemma dm_chars_eq:
  assumes "length x = n" "length y = n"
  shows "dm_chars (p @ x @ r) (q @ y @ s) (length p + n) (length q + n) n =
    Some (if lower x = lower y then Inr (length p, length q) else Inl ())"
  using assms
proof (induction n arbitrary: x y r s)
  case (Suc n)
  obtain x' a where x: "x = x' @ [a]" "length x' = n" using Suc.prems by (cases x rule: rev_cases) auto
  obtain y' b where y: "y = y' @ [b]" "length y' = n" using Suc.prems by (cases y rule: rev_cases) auto
  have ba: "byte_at (p @ x @ r) (length p + n) = Some a"
    using byte_at_append(1) [of "p @ x'" "length p + n" a r] x by simp
  have bb: "byte_at (q @ y @ s) (length q + n) = Some b"
    using byte_at_append(1) [of "q @ y'" "length q + n" b s] y by simp
  have e: "lower x = lower y \<longleftrightarrow> lower x' = lower y' \<and> c_tolower a = c_tolower b" by (simp add: x y lower_def)
  have "dm_chars (p @ x' @ a # r) (q @ y' @ b # s) (length p + n) (length q + n) n =
      Some (if lower x' = lower y' then Inr (length p, length q) else Inl ())"
    by (rule Suc.IH [OF x(2) y(2)])
  then show ?case using ba bb e by (simp add: x y)
qed (simp add: lower_def)

lemma dm_cmp_eq:
  assumes "list_all lab_len (xs1 @ xs2)" "list_all lab_len (ys1 @ ys2)" "length xs2 = m" "length ys2 = m"
  shows "dm_cmp (enc_name (xs1 @ xs2) @ r) (enc_name (ys1 @ ys2) @ s) (map length (xs1 @ xs2)) (map length (ys1 @ ys2))
      (min (length xs1 + m) (length ys1 + m)) (m + 1) (length (enc_labels xs1)) (length (enc_labels ys1)) =
    Some (m + common_tail xs1 ys1, length (enc_labels (take (length xs1 - common_tail xs1 ys1) xs1)),
      length (enc_labels (take (length ys1 - common_tail xs1 ys1) ys1)))"
  using assms
proof (induction xs1 arbitrary: ys1 xs2 ys2 m rule: rev_induct)
  case Nil
  then show ?case by (simp add: dm_cmp.simps common_tail_snoc)
next
  case (snoc x xs)
  show ?case
  proof (cases ys1 rule: rev_cases)
    case Nil
    then show ?thesis by (simp add: dm_cmp.simps common_tail_snoc)
  next
    case y: (snoc ys y)
    let ?ms = "enc_name ((xs @ [x]) @ xs2) @ r" and ?md = "enc_name ((ys @ [y]) @ ys2) @ s"
    have nth: "map length ((xs @ [x]) @ xs2) ! (length (map length ((xs @ [x]) @ xs2)) - (m + 1)) = length x"
      "map length ((ys @ [y]) @ ys2) ! (length (map length ((ys @ [y]) @ ys2)) - (m + 1)) = length y"
      using snoc.prems by (simp_all add: nth_append)
    have ms: "?ms = (enc_labels xs @ [word_of_nat (length x)]) @ x @ enc_name xs2 @ r"
      "?md = (enc_labels ys @ [word_of_nat (length y)]) @ y @ enc_name ys2 @ s"
      by (simp_all add: enc_name_append)
    have len: "length (enc_labels (xs @ [x])) = length (enc_labels xs @ [word_of_nat (length x)]) + length x"
      "length (enc_labels (ys @ [y])) = length (enc_labels ys @ [word_of_nat (length y)]) + length y"
      by (simp_all add: enc_labels_append)
    show ?thesis
    proof (cases "length x = length y")
      case False
      then have "lower x \<noteq> lower y" using length_lower by metis
      then show ?thesis
        using nth False unfolding y by (subst dm_cmp.simps) (simp add: common_tail_snoc Let_def)
    next
      case True
      have c: "dm_chars ?ms ?md (length (enc_labels (xs @ [x]))) (length (enc_labels (ys @ [y]))) (length x) =
          Some (if lower x = lower y then Inr (length (enc_labels xs) + 1, length (enc_labels ys) + 1) else Inl ())"
        unfolding ms len
        using dm_chars_eq [OF refl True [symmetric], where p = "enc_labels xs @ [word_of_nat (length x)]"
            and q = "enc_labels ys @ [word_of_nat (length y)]" and r = "enc_name xs2 @ r" and s = "enc_name ys2 @ s"] True
        by simp
      show ?thesis
      proof (cases "lower x = lower y")
        case False
        then show ?thesis
          using nth True c unfolding y by (subst dm_cmp.simps) (simp add: common_tail_snoc Let_def)
      next
        case eq: True
        have "dm_cmp (enc_name (xs @ x # xs2) @ r) (enc_name (ys @ y # ys2) @ s) (map length (xs @ x # xs2)) (map length (ys @ y # ys2))
            (min (length xs + (m + 1)) (length ys + (m + 1))) (m + 1 + 1) (length (enc_labels xs)) (length (enc_labels ys)) =
          Some (m + 1 + common_tail xs ys, length (enc_labels (take (length xs - common_tail xs ys) xs)),
            length (enc_labels (take (length ys - common_tail xs ys) ys)))"
          using snoc.prems y by (intro snoc.IH) simp_all
        then show ?thesis
          using nth True c eq unfolding y by (subst dm_cmp.simps) (simp add: common_tail_snoc Let_def)
      qed
    qed
  qed
qed

lemma domain_match_enc:
  assumes "list_all lab_len xs" "list_all lab_len ys" "length xs \<le> 128" "length ys \<le> 128"
  shows "domain_match (enc_name xs @ r) (enc_name ys @ s) =
    Some (common_tail xs ys, length (enc_labels (take (length xs - common_tail xs ys) xs)),
      length (enc_labels (take (length ys - common_tail xs ys) ys)))"
proof -
  have "dm_collect (enc_name xs @ r) 0 [] = Some (length (enc_labels xs), map length xs)"
    "dm_collect (enc_name ys @ s) 0 [] = Some (length (enc_labels ys), map length ys)"
    using dm_collect_enc [of xs "[]" "[]" r] dm_collect_enc [of ys "[]" "[]" s] assms by simp_all
  then show ?thesis
    using dm_cmp_eq [of xs "[]" ys "[]" 0 r s] assms by (auto simp: domain_match_def min_def not_le Let_def split: if_splits)
qed

end
