(* ===== verification/DnsCompression.thy ===== *)
theory DnsCompression
  imports DnsMessageProperties
begin

text \<open>
  The round trip of \<open>compress_name\<close> and \<open>decompress_name\<close>. The invariant of the list of names written so
  far says of each entry how many of its labels are in place in the message: from each of these the
  rest of the name can be read. \<open>compress_name\<close> relies on the first match of a given length being one of
  these labels, because the list is in the order of the message.
\<close>

subsection \<open>Positions of labels\<close>

definition lpos :: "byte list list \<Rightarrow> nat \<Rightarrow> nat" where
  "lpos xs t = length (enc_labels (take t xs))"

lemma lpos_mono: "t \<le> t' \<Longrightarrow> lpos xs t \<le> lpos xs t'"
proof -
  assume "t \<le> t'"
  then have "take t' xs = take t xs @ take (t' - t) (drop t xs)" by (metis le_add_diff_inverse take_add)
  then show ?thesis by (simp add: lpos_def enc_labels_append)
qed

lemma lpos_all: "length xs \<le> t \<Longrightarrow> lpos xs t = length (enc_labels xs)"
  by (simp add: lpos_def)

lemma enc_labels_bound: "list_all label_ok xs \<Longrightarrow> 2 * length xs \<le> length (enc_labels xs)"
  by (induction xs) (auto simp: label_ok_def)

lemma name_ok_count: "name_ok xs \<Longrightarrow> length xs \<le> 127"
  using enc_labels_bound [of xs] by (simp add: name_ok_def enc_name_def DNSNAMEBUFSIZE_def)

lemma lower_lengths: "map lower xs = map lower ys \<Longrightarrow> length (enc_labels xs) = length (enc_labels ys)"
proof (induction xs arbitrary: ys)
  case (Cons x xs)
  then obtain y ys' where "ys = y # ys'" "lower x = lower y" "map lower xs = map lower ys'" by auto
  then show ?case using Cons.IH [of ys'] length_lower by (metis enc_labels.simps(2) length_Cons length_append)
qed simp

subsection \<open>Common endings\<close>

lemma common_tail_iff:
  "n \<le> common_tail xs ys \<longleftrightarrow> n \<le> length xs \<and> n \<le> length ys \<and>
     drop (length xs - n) (map lower xs) = drop (length ys - n) (map lower ys)"
  using rev_is_rev_conv [of "drop (length xs - n) (map lower xs)" "drop (length ys - n) (map lower ys)"]
  by (auto simp: common_tail_def common_head_take take_rev)

lemma common_tail_le: "common_tail xs ys \<le> length xs" "common_tail xs ys \<le> length ys"
  using common_tail_iff [of "common_tail xs ys" xs ys] by simp_all

lemma drop_end_mono:
  assumes "drop (length xs - n) xs = drop (length ys - n) ys" "m \<le> n" "n \<le> length xs" "n \<le> length ys"
  shows "drop (length xs - m) xs = drop (length ys - m) ys"
proof -
  have "drop (length xs - m) xs = drop (n - m) (drop (length xs - n) xs)" using assms(2,3) by simp
  also have "\<dots> = drop (length ys - m) ys" unfolding assms(1) using assms(2,4) by simp
  finally show ?thesis .
qed

lemma common_tail_trans:
  assumes "n \<le> common_tail zs xs" "n \<le> common_tail ys xs"
  shows "n \<le> common_tail zs ys"
  using assms by (simp add: common_tail_iff)

subsection \<open>The search\<close>

text \<open>What \<open>domain_match\<close> says of the name \<open>zs\<close> and an entry.\<close>

definition new_offs :: "byte list list \<Rightarrow> compel \<Rightarrow> byte list list \<Rightarrow> nat" where
  "new_offs zs e xs = comp_index e + lpos xs (length xs - common_tail zs xs)"

lemma cn_search_result:
  assumes "list_all2 (\<lambda>e xs. comp_s e = enc_name xs \<and> name_ok xs) cb gs" "name_ok zs"
  shows "\<exists>L' R' C'. cn_search (enc_name zs @ r) cb (L, R, C) = Some (L', R', C') \<and>
    ((L', R', C') = (L, R, C) \<or>
     (\<exists>j < length cb. L < L' \<and> L' = common_tail zs (gs ! j) \<and> R' = lpos zs (length zs - L') \<and>
        C' = new_offs zs (cb ! j) (gs ! j) \<and> C' \<le> 0x3fff \<and>
        (\<forall>i < j. new_offs zs (cb ! i) (gs ! i) \<le> 0x3fff \<longrightarrow> common_tail zs (gs ! i) < L')))"
  using assms(1)
proof (induction cb arbitrary: gs L R C)
  case (Cons e cb)
  then obtain xs gs' where gs: "gs = xs # gs'" "comp_s e = enc_name xs" "name_ok xs"
    "list_all2 (\<lambda>e xs. comp_s e = enc_name xs \<and> name_ok xs) cb gs'"
    by (auto simp: list_all2_Cons1)
  let ?v = "common_tail zs xs"
  have m: "domain_match (enc_name zs @ r) (comp_s e) = Some (?v, lpos zs (length zs - ?v), lpos xs (length xs - ?v))"
    using domain_match_enc [of zs xs r "[]"] name_ok_lab_len name_ok_count [OF gs(3)] name_ok_count [OF assms(2)]
      gs(2,3) assms(2) by (simp add: lpos_def)
  define best where "best = (if ?v > L then
        if new_offs zs e xs \<le> 0x3fff then (?v, lpos zs (length zs - ?v), new_offs zs e xs) else (L, R, C)
      else (L, R, C))"
  obtain L1 R1 C1 where b: "best = (L1, R1, C1)" by (cases best)
  have s: "cn_search (enc_name zs @ r) (e # cb) (L, R, C) = cn_search (enc_name zs @ r) cb (L1, R1, C1)"
    unfolding b [symmetric] best_def new_offs_def by (simp add: m Let_def)
  have L1: "L \<le> L1" "new_offs zs e xs \<le> 0x3fff \<Longrightarrow> ?v \<le> L1"
    "(L1, R1, C1) = (L, R, C) \<or> (L < L1 \<and> L1 = ?v \<and> R1 = lpos zs (length zs - L1) \<and> C1 = new_offs zs e xs \<and> C1 \<le> 0x3fff)"
    using b by (auto simp: best_def split: if_splits)
  from Cons.IH [OF gs(4), of L1 R1 C1] obtain L' R' C' where r: "cn_search (enc_name zs @ r) cb (L1, R1, C1) = Some (L', R', C')"
    and c: "(L', R', C') = (L1, R1, C1) \<or>
     (\<exists>j < length cb. L1 < L' \<and> L' = common_tail zs (gs' ! j) \<and> R' = lpos zs (length zs - L') \<and>
        C' = new_offs zs (cb ! j) (gs' ! j) \<and> C' \<le> 0x3fff \<and>
        (\<forall>i < j. new_offs zs (cb ! i) (gs' ! i) \<le> 0x3fff \<longrightarrow> common_tail zs (gs' ! i) < L'))" by blast
  from c show ?case
  proof
    assume "(L', R', C') = (L1, R1, C1)"
    then show ?thesis
      using s r L1(3) gs(1) by (intro exI [of _ L'] exI [of _ R'] exI [of _ C']) (auto intro!: exI [of _ 0])
  next
    assume "\<exists>j < length cb. L1 < L' \<and> L' = common_tail zs (gs' ! j) \<and> R' = lpos zs (length zs - L') \<and>
        C' = new_offs zs (cb ! j) (gs' ! j) \<and> C' \<le> 0x3fff \<and>
        (\<forall>i < j. new_offs zs (cb ! i) (gs' ! i) \<le> 0x3fff \<longrightarrow> common_tail zs (gs' ! i) < L')"
    then obtain j where j: "j < length cb" "L1 < L'" "L' = common_tail zs (gs' ! j)" "R' = lpos zs (length zs - L')"
      "C' = new_offs zs (cb ! j) (gs' ! j)" "C' \<le> 0x3fff"
      "\<And>i. i < j \<Longrightarrow> new_offs zs (cb ! i) (gs' ! i) \<le> 0x3fff \<Longrightarrow> common_tail zs (gs' ! i) < L'" by blast
    have "new_offs zs ((e # cb) ! i) (gs ! i) \<le> 0x3fff \<longrightarrow> common_tail zs (gs ! i) < L'" if "i < Suc j" for i
      using that j(2,7) L1(2) gs(1) by (cases i) auto
    then show ?thesis
      using s r j L1(1) gs(1) by (intro exI [of _ L'] exI [of _ R'] exI [of _ C']) (auto intro!: exI [of _ "Suc j"])
  qed
qed simp

subsection \<open>The names written so far\<close>

text \<open>
  The first \<open>p\<close> labels of the entry \<open>e\<close> are in place in the message and a name can be read from each. The
  number of pointers on the way is less than the number of labels, so the limit on hops is never met.
\<close>

definition entry_ok :: "byte list \<Rightarrow> compel \<Rightarrow> byte list list \<times> nat \<Rightarrow> bool" where
  "entry_ok msg e g \<longleftrightarrow> comp_s e = enc_name (fst g) \<and> name_ok (fst g) \<and> snd g \<le> length (fst g) \<and>
     comp_index e + lpos (fst g) (snd g) \<le> length msg \<and>
     (\<forall>t < snd g. \<exists>ls h k. name_at msg (comp_index e + lpos (fst g) t) ls h k \<and>
        map lower ls = map lower (drop t (fst g)) \<and> h < length (drop t (fst g)))"

definition comp_inv_by :: "byte list \<Rightarrow> compel list \<Rightarrow> (byte list list \<times> nat) list \<Rightarrow> bool" where
  "comp_inv_by msg cb gs \<longleftrightarrow> list_all2 (entry_ok msg) cb gs \<and>
     (\<forall>j < length cb. snd (gs ! j) < length (fst (gs ! j)) \<longrightarrow>
        (\<exists>i < j. length (fst (gs ! j)) - snd (gs ! j) \<le> common_tail (fst (gs ! j)) (fst (gs ! i)))) \<and>
     (\<forall>j < length cb. \<forall>i < j. comp_index (cb ! i) + lpos (fst (gs ! i)) (snd (gs ! i)) \<le> comp_index (cb ! j))"

definition comp_inv :: "byte list \<Rightarrow> compel list \<Rightarrow> bool" where
  "comp_inv msg cb \<longleftrightarrow> (\<exists>gs. comp_inv_by msg cb gs)"

lemma comp_inv_Nil [simp]: "comp_inv msg []"
  by (auto simp: comp_inv_def comp_inv_by_def)

lemma entry_ok_extend:
  assumes "entry_ok msg e g"
  shows "entry_ok (msg @ x) e g"
proof -
  have "\<exists>ls h k. name_at (msg @ x) (comp_index e + lpos (fst g) t) ls h k \<and>
        map lower ls = map lower (drop t (fst g)) \<and> h < length (drop t (fst g))" if t: "t < snd g" for t
  proof -
    obtain ls h k where n: "name_at msg (comp_index e + lpos (fst g) t) ls h k"
      "map lower ls = map lower (drop t (fst g))" "h < length (drop t (fst g))"
      using assms t unfolding entry_ok_def by blast
    show ?thesis using name_at_extend [OF n(1)] n(2,3) by blast
  qed
  moreover have "comp_index e + lpos (fst g) (snd g) \<le> length (msg @ x)" using assms by (simp add: entry_ok_def)
  ultimately show ?thesis using assms unfolding entry_ok_def by blast
qed

lemma comp_inv_by_extend: "comp_inv_by msg cb gs \<Longrightarrow> comp_inv_by (msg @ x) cb gs"
  unfolding comp_inv_by_def by (elim conjE, intro conjI) (rule list_all2_mono, assumption, erule entry_ok_extend, assumption+)

lemma common_tail_sym: "common_tail xs ys = common_tail ys xs"
proof -
  have "common_tail xs ys \<le> common_tail ys xs" for xs ys
    using common_tail_iff [of "common_tail xs ys" xs ys] by (simp add: common_tail_iff)
  then show ?thesis by (intro antisym) auto
qed

text \<open>What the search picks is in place.\<close>

lemma comp_pick:
  assumes inv: "comp_inv_by msg cb gs" and j: "j < length cb" and rv: "0 < rv" "rv = common_tail zs (fst (gs ! j))"
    and o: "new_offs zs (cb ! j) (fst (gs ! j)) \<le> 0x3fff"
    and first: "\<And>i. i < j \<Longrightarrow> new_offs zs (cb ! i) (fst (gs ! i)) \<le> 0x3fff \<Longrightarrow> common_tail zs (fst (gs ! i)) < rv"
  shows "length (fst (gs ! j)) - rv < snd (gs ! j)"
proof -
  let ?xs = "\<lambda>i. fst (gs ! i)" and ?p = "\<lambda>i. snd (gs ! i)" and ?v = "\<lambda>i. common_tail zs (fst (gs ! i))"
  define i where "i = (LEAST i. rv \<le> ?v i)"
  have i: "rv \<le> ?v i" unfolding i_def by (rule LeastI [of _ j]) (simp add: rv)
  have least: "\<not> rv \<le> ?v i'" if "i' < i" for i' using that not_less_Least unfolding i_def by blast
  have ij: "i \<le> j" unfolding i_def by (rule Least_le) (simp add: rv)
  have phys: "length (?xs i) - ?v i < ?p i"
  proof (rule ccontr)
    assume n: "\<not> ?thesis"
    have "?p i < length (?xs i)" using n i rv(1) common_tail_le(2) [of zs "?xs i"] by arith
    then obtain i' where i': "i' < i" "length (?xs i) - ?p i \<le> common_tail (?xs i) (?xs i')"
      using inv ij j unfolding comp_inv_by_def by (meson le_less_trans)
    have "rv \<le> common_tail (?xs i') (?xs i)" using i' n i common_tail_le(2) [of zs "?xs i"]
      by (subst common_tail_sym) arith
    then have "rv \<le> ?v i'" using common_tail_trans [OF i] by simp
    then show False using least i' by simp
  qed
  show ?thesis
  proof (cases "i = j")
    case True
    then show ?thesis using phys rv(2) by simp
  next
    case False
    then have l: "i < j" using ij by simp
    have "new_offs zs (cb ! i) (?xs i) \<le> comp_index (cb ! i) + lpos (?xs i) (?p i)"
      using phys by (simp add: new_offs_def lpos_mono)
    also have "\<dots> \<le> comp_index (cb ! j)" using inv l j unfolding comp_inv_by_def by blast
    also have "\<dots> \<le> new_offs zs (cb ! j) (?xs j)" by (simp add: new_offs_def)
    finally have "?v i < rv" using o by (intro first [OF l]) simp
    then show ?thesis using i by simp
  qed
qed

subsection \<open>Writing a name\<close>

lemma mem_read_at: "mem_read (p @ x @ r) (length p) (length x) = x"
  by (simp add: mem_read_def)

text \<open>Labels in place before a name.\<close>

lemma name_at_inplace:
  assumes "name_at (p @ enc_labels xs @ r) (length p + length (enc_labels xs)) ls h k" "list_all label_ok xs"
  shows "name_at (p @ enc_labels xs @ r) (length p) (xs @ ls) h (length (enc_labels xs) + k)"
  using assms
proof (induction xs arbitrary: p)
  case (Cons x xs)
  let ?n = "word_of_nat (length x) :: byte"
  have l: "label_ok x" and n: "unat ?n = length x" "?n \<noteq> 0" "?n \<le> 0x3f"
    using Cons.prems(2) lab_len_byte [of x] label_ok_len [of x]
    by (auto simp: label_ok_def word_le_nat_alt unat_of_nat)
  have m: "p @ enc_labels (x # xs) @ r = (p @ ?n # x) @ enc_labels xs @ r" by simp
  have "name_at ((p @ ?n # x) @ enc_labels xs @ r) (length (p @ ?n # x)) (xs @ ls) h (length (enc_labels xs) + k)"
    using Cons.prems unfolding m by (intro Cons.IH) (simp_all add: add.assoc)
  then have t: "name_at (p @ enc_labels (x # xs) @ r) (length p + 1 + unat ?n) (xs @ ls) h (length (enc_labels xs) + k)"
    unfolding n by (simp add: m del: enc_labels.simps)
  have rd: "mem_read (p @ enc_labels (x # xs) @ r) (length p + 1) (unat ?n) = x"
    using mem_read_at [of "p @ [?n]" x "enc_labels xs @ r"] n by simp
  show ?case
    using name_label [OF _ n(2,3) _ rd t] n(1) by (simp add: add.assoc)
qed simp

lemma take_drop_split: "t \<le> m \<Longrightarrow> take m xs = take t xs @ drop t (take m xs)"
  by (metis append_take_drop_id min.absorb1 take_take)

lemma lpos_split: "t \<le> m \<Longrightarrow> lpos xs m = lpos xs t + length (enc_labels (drop t (take m xs)))"
  unfolding lpos_def by (subst take_drop_split, assumption) (simp add: enc_labels_append)

lemma drop_split: "t \<le> m \<Longrightarrow> drop t xs = drop t (take m xs) @ drop m xs"
  by (metis append_take_drop_id drop_drop drop_take le_add_diff_inverse2)

lemma name_ok_label_ok: "name_ok xs \<Longrightarrow> list_all label_ok xs"
  by (simp add: name_ok_def)

text \<open>The first \<open>m\<close> labels written at the end of the message, then \<open>r\<close>, where the rest of the name is.\<close>

lemma name_at_written:
  assumes "name_at (msg @ enc_labels (take m zs) @ r) (length msg + lpos zs m) ls h k" "name_ok zs" "t \<le> m"
  shows "name_at (msg @ enc_labels (take m zs) @ r) (length msg + lpos zs t) (drop t (take m zs) @ ls) h
    (length (enc_labels (drop t (take m zs))) + k)"
proof -
  have e: "msg @ enc_labels (take m zs) @ r = (msg @ enc_labels (take t zs)) @ enc_labels (drop t (take m zs)) @ r"
    by (subst take_drop_split [OF assms(3)]) (simp add: enc_labels_append)
  have l: "length (msg @ enc_labels (take t zs)) = length msg + lpos zs t" by (simp add: lpos_def)
  have ok: "list_all label_ok (drop t (take m zs))"
    using name_ok_label_ok [OF assms(2)] by (auto simp: list_all_iff dest: in_set_dropD in_set_takeD)
  have "name_at ((msg @ enc_labels (take t zs)) @ enc_labels (drop t (take m zs)) @ r)
      (length (msg @ enc_labels (take t zs)) + length (enc_labels (drop t (take m zs)))) ls h k"
    using assms(1) unfolding e [symmetric] l lpos_split [OF assms(3)] add.assoc .
  from name_at_inplace [OF this ok] show ?thesis unfolding e [symmetric] l .
qed

lemma entry_new:
  assumes "name_at (msg @ enc_labels (take m zs) @ r) (length msg + lpos zs m) ls h k" "name_ok zs" "m \<le> length zs"
    "map lower ls = map lower (drop m zs)" "h \<le> length zs - m"
  shows "entry_ok (msg @ enc_labels (take m zs) @ r) \<lparr>comp_index = length msg, comp_s = enc_name zs\<rparr> (zs, m)"
proof -
  have "\<exists>ls h k. name_at (msg @ enc_labels (take m zs) @ r) (length msg + lpos zs t) ls h k \<and>
      map lower ls = map lower (drop t zs) \<and> h < length (drop t zs)" if t: "t < m" for t
  proof -
    have "map lower (drop t (take m zs) @ ls) = map lower (drop t zs)"
      using t assms(4) by (subst drop_split [of t m]) simp_all
    moreover have "h < length (drop t zs)" using t assms(3,5) by simp
    ultimately show ?thesis using name_at_written [OF assms(1,2), of t] t by fastforce
  qed
  then show ?thesis using assms(2,3) by (simp add: entry_ok_def lpos_def)
qed

lemma comp_inv_snoc:
  assumes inv: "comp_inv_by msg cb gs" and e: "entry_ok (msg @ x) e g" "comp_index e = length msg"
    and c: "snd g < length (fst g) \<Longrightarrow> \<exists>i < length cb. length (fst g) - snd g \<le> common_tail (fst g) (fst (gs ! i))"
  shows "comp_inv (msg @ x) (cb @ [e])"
proof -
  have ext: "comp_inv_by (msg @ x) cb gs" by (rule comp_inv_by_extend [OF inv])
  have len: "length gs = length cb" using inv by (auto simp: comp_inv_by_def dest: list_all2_lengthD)
  have ok: "entry_ok msg (cb ! i) (gs ! i)" if "i < length cb" for i
    using inv that unfolding comp_inv_by_def by (blast intro: list_all2_nthD)
  have "comp_inv_by (msg @ x) (cb @ [e]) (gs @ [g])"
    unfolding comp_inv_by_def
  proof (intro conjI allI impI)
    show "list_all2 (entry_ok (msg @ x)) (cb @ [e]) (gs @ [g])"
      using ext e(1) by (simp add: comp_inv_by_def list_all2_appendI)
    fix j assume j: "j < length (cb @ [e])"
    show "\<exists>i < j. length (fst ((gs @ [g]) ! j)) - snd ((gs @ [g]) ! j) \<le> common_tail (fst ((gs @ [g]) ! j)) (fst ((gs @ [g]) ! i))"
      if s: "snd ((gs @ [g]) ! j) < length (fst ((gs @ [g]) ! j))"
    proof (cases "j = length cb")
      case True
      then obtain i where "i < length cb" "length (fst g) - snd g \<le> common_tail (fst g) (fst (gs ! i))"
        using c s len by (auto simp: nth_append)
      then show ?thesis using True len by (intro exI [of _ i]) (simp add: nth_append)
    next
      case False
      then have j': "j < length cb" using j by simp
      then have "snd (gs ! j) < length (fst (gs ! j))" using s len by (simp add: nth_append)
      then obtain i where "i < j" "length (fst (gs ! j)) - snd (gs ! j) \<le> common_tail (fst (gs ! j)) (fst (gs ! i))"
        using inv j' unfolding comp_inv_by_def by blast
      then show ?thesis using j' len by (intro exI [of _ i]) (simp add: nth_append)
    qed
    fix i assume i: "i < j"
    then have i': "i < length cb" using j by simp
    show "comp_index ((cb @ [e]) ! i) + lpos (fst ((gs @ [g]) ! i)) (snd ((gs @ [g]) ! i)) \<le> comp_index ((cb @ [e]) ! j)"
    proof (cases "j = length cb")
      case True
      then show ?thesis using ok [OF i'] i' len e(2) by (simp add: nth_append entry_ok_def)
    next
      case False
      then have j': "j < length cb" using j by simp
      have "comp_index (cb ! i) + lpos (fst (gs ! i)) (snd (gs ! i)) \<le> comp_index (cb ! j)"
        using inv i j' unfolding comp_inv_by_def by blast
      then show ?thesis using i' j' len by (simp add: nth_append)
    qed
  qed
  then show ?thesis unfolding comp_inv_def by blast
qed

lemma enc_name_split: "enc_name zs = enc_labels (take m zs) @ enc_name (drop m zs)"
  by (metis append_take_drop_id enc_name_append)

lemma mem_read_prefix: "mem_read (p @ r) 0 (length p) = p"
  by (simp add: mem_read_def)

lemma mem_read_lpos: "mem_read (enc_name zs @ r) 0 (lpos zs m) = enc_labels (take m zs)"
  unfolding lpos_def enc_name_split [of zs m] append_assoc by (rule mem_read_prefix)

text \<open>What a call promises of its output and of the new list.\<close>

definition comp_written :: "byte list \<Rightarrow> byte list list \<Rightarrow> byte list \<Rightarrow> compel list \<Rightarrow> bool" where
  "comp_written msg zs outb cb \<longleftrightarrow> comp_inv (msg @ outb) cb \<and> length outb \<le> length (enc_name zs) \<and>
     (\<exists>ls h. name_at (msg @ outb) (length msg) ls h (length outb) \<and> map lower ls = map lower zs \<and> h \<le> length zs)"

lemma compress_plain:
  assumes inv: "comp_inv msg cb" and ok: "name_ok zs"
  shows "comp_written msg zs (enc_name zs) (cb @ [\<lparr>comp_index = length msg, comp_s = enc_name zs\<rparr>])"
proof -
  let ?m = "length zs"
  have e: "msg @ enc_name zs = msg @ enc_labels (take ?m zs) @ [0]" by (simp add: enc_name_def)
  have n: "name_at (msg @ enc_labels (take ?m zs) @ [0]) (length msg + lpos zs ?m) [] 0 1"
    using byte_at_shift [of "msg @ enc_labels zs" "[0]" 0] by (intro name_end) (simp add: lpos_def byte_at_def)
  have w: "name_at (msg @ enc_name zs) (length msg) zs 0 (length (enc_name zs))"
    using name_at_written [OF n ok, of 0] by (simp add: e enc_name_def lpos_def)
  have en: "entry_ok (msg @ enc_name zs) \<lparr>comp_index = length msg, comp_s = enc_name zs\<rparr> (zs, ?m)"
    unfolding e using n ok by (intro entry_new) simp_all
  from inv obtain gs where "comp_inv_by msg cb gs" by (auto simp: comp_inv_def)
  from comp_inv_snoc [OF this en] w show ?thesis
    unfolding comp_written_def by (intro conjI exI [of _ zs] exI [of _ 0]) simp_all
qed

lemma compress_ptr:
  assumes inv: "comp_inv_by msg cb gs" and ok: "name_ok zs" and j: "j < length cb"
    and rv: "0 < rv" "rv = common_tail zs (fst (gs ! j))" "c = new_offs zs (cb ! j) (fst (gs ! j))" "c \<le> 0x3fff"
    and pick: "length (fst (gs ! j)) - rv < snd (gs ! j)" and m: "m = length zs - rv"
  shows "comp_written msg zs (enc_labels (take m zs) @ [ptr_hi c, ptr_lo c])
    (if lpos zs m \<noteq> 0 then cb @ [\<lparr>comp_index = length msg, comp_s = enc_name zs\<rparr>] else cb)"
proof -
  let ?xs = "fst (gs ! j)" and ?r = "[ptr_hi c, ptr_lo c]"
  let ?msg = "msg @ enc_labels (take m zs) @ ?r" and ?e = "\<lparr>comp_index = length msg, comp_s = enc_name zs\<rparr>"
  have ct: "rv \<le> length zs" "rv \<le> length ?xs" "map lower (drop m zs) = map lower (drop (length ?xs - rv) ?xs)"
    using common_tail_iff [of rv zs ?xs] rv(2) by (simp_all add: drop_map m)
  have "entry_ok msg (cb ! j) (gs ! j)" using inv j unfolding comp_inv_by_def by (blast intro: list_all2_nthD)
  with pick obtain ls h k where n0: "name_at msg (comp_index (cb ! j) + lpos ?xs (length ?xs - rv)) ls h k"
    "map lower ls = map lower (drop (length ?xs - rv) ?xs)" "h < length (drop (length ?xs - rv) ?xs)"
    unfolding entry_ok_def by blast
  have h: "h + 1 \<le> length zs - m" using n0(3) ct(1,2) m by simp
  have c: "comp_index (cb ! j) + lpos ?xs (length ?xs - rv) = c" using rv(2,3) by (simp add: new_offs_def)
  have l: "length msg + lpos zs m = length (msg @ enc_labels (take m zs))" by (simp add: lpos_def)
  have b: "byte_at ?msg (length msg + lpos zs m) = Some (ptr_hi c)" "byte_at ?msg (length msg + lpos zs m + 1) = Some (ptr_lo c)"
    using byte_at_shift [of "msg @ enc_labels (take m zs)" ?r 0] byte_at_shift [of "msg @ enc_labels (take m zs)" ?r 1]
    unfolding l by (simp_all add: byte_at_def)
  have "name_at ?msg (ptr_offset (ptr_hi c) (ptr_lo c)) ls h k"
    unfolding ptr_roundtrip [OF rv(4)] using name_at_extend [OF n0(1)] by (simp only: c)
  from name_ptr [OF b(1) ptr_hi(1) [OF rv(4)] b(2) this]
  have n: "name_at ?msg (length msg + lpos zs m) ls (h + 1) 2" .
  have lo: "map lower ls = map lower (drop m zs)" using n0(2) ct(3) by simp
  have en: "entry_ok ?msg ?e (zs, m)" using h lo m by (intro entry_new [OF n ok]) simp_all
  have len: "length (enc_labels (take m zs) @ ?r) \<le> length (enc_name zs)"
  proof -
    have "2 * length (drop m zs) \<le> length (enc_labels (drop m zs))"
      using name_ok_label_ok [OF ok] by (intro enc_labels_bound) (auto simp: list_all_iff dest: in_set_dropD)
    then show ?thesis using ct(1) m rv(1) by (subst enc_name_split [of zs m]) (simp add: enc_name_def)
  qed
  have w: "name_at ?msg (length msg) (take m zs @ ls) (h + 1) (length (enc_labels (take m zs) @ ?r))"
    using name_at_written [OF n ok, of 0] by (simp add: lpos_def)
  have lw: "map lower (take m zs @ ls) = map lower zs" using lo by (metis append_take_drop_id map_append)
  have inv': "comp_inv ?msg (if lpos zs m \<noteq> 0 then cb @ [?e] else cb)"
    using comp_inv_snoc [OF inv en] comp_inv_by_extend [OF inv] j rv(2) m ct(1) unfolding comp_inv_def by auto
  show ?thesis
    unfolding comp_written_def using inv' len w lw h by (intro conjI exI [of _ "take m zs @ ls"] exI [of _ "h + 1"]) simp_all
qed

lemma compress_enc:
  assumes inv: "comp_inv msg cb" and ok: "name_ok zs"
  shows "\<exists>outb cb'. compress_name True (enc_name zs @ r) (length msg) cb = Some (Some (outb, cb')) \<and> comp_written msg zs outb cb'"
proof -
  from inv obtain gs where g: "comp_inv_by msg cb gs" by (auto simp: comp_inv_def)
  then have len: "length gs = length cb" by (auto simp: comp_inv_by_def dest: list_all2_lengthD)
  have a: "list_all2 (\<lambda>e xs. comp_s e = enc_name xs \<and> name_ok xs) cb (map fst gs)"
    using g unfolding comp_inv_by_def list_all2_conv_all_nth entry_ok_def by simp
  have il: "rhnlen (enc_name zs @ r) = Some (length (enc_name zs))" "length (enc_name zs) \<le> DNSNAMEBUFSIZE"
    using rhnlen_enc [OF name_ok_lab_len [OF ok]] ok by (simp_all add: name_ok_def)
  from cn_search_result [OF a ok, of r 0 0 0] obtain L R C where
    s: "cn_search (enc_name zs @ r) cb (0, 0, 0) = Some (L, R, C)" and
    c: "(L, R, C) = (0, 0, 0) \<or> (\<exists>j < length cb. 0 < L \<and> L = common_tail zs (map fst gs ! j) \<and> R = lpos zs (length zs - L) \<and>
        C = new_offs zs (cb ! j) (map fst gs ! j) \<and> C \<le> 0x3fff \<and>
        (\<forall>i < j. new_offs zs (cb ! i) (map fst gs ! i) \<le> 0x3fff \<longrightarrow> common_tail zs (map fst gs ! i) < L))" by blast
  from c show ?thesis
  proof
    assume "(L, R, C) = (0, 0, 0)"
    then have "compress_name True (enc_name zs @ r) (length msg) cb =
        Some (Some (enc_name zs, cb @ [\<lparr>comp_index = length msg, comp_s = enc_name zs\<rparr>]))"
      using il s by (simp add: compress_name_def mem_read_prefix)
    then show ?thesis using compress_plain [OF inv ok] by blast
  next
    assume "\<exists>j < length cb. 0 < L \<and> L = common_tail zs (map fst gs ! j) \<and> R = lpos zs (length zs - L) \<and>
        C = new_offs zs (cb ! j) (map fst gs ! j) \<and> C \<le> 0x3fff \<and>
        (\<forall>i < j. new_offs zs (cb ! i) (map fst gs ! i) \<le> 0x3fff \<longrightarrow> common_tail zs (map fst gs ! i) < L)"
    then obtain j where j: "j < length cb" "0 < L" "L = common_tail zs (fst (gs ! j))" "R = lpos zs (length zs - L)"
      "C = new_offs zs (cb ! j) (fst (gs ! j))" "C \<le> 0x3fff"
      "\<And>i. i < j \<Longrightarrow> new_offs zs (cb ! i) (fst (gs ! i)) \<le> 0x3fff \<Longrightarrow> common_tail zs (fst (gs ! i)) < L"
      using len by auto
    have p: "length (fst (gs ! j)) - L < snd (gs ! j)"
      by (rule comp_pick [OF g j(1-3) _ j(7)]) (use j(5,6) in simp)
    note w = compress_ptr [OF g ok j(1,2,3,5,6) p refl]
    have "R + 2 \<le> length (enc_name zs)" using w by (simp add: comp_written_def j(4) lpos_def)
    then have "compress_name True (enc_name zs @ r) (length msg) cb =
        Some (Some (enc_labels (take (length zs - L) zs) @ [ptr_hi C, ptr_lo C],
          if lpos zs (length zs - L) \<noteq> 0 then cb @ [\<lparr>comp_index = length msg, comp_s = enc_name zs\<rparr>] else cb))"
      using il s j(2) unfolding j(4) by (simp add: compress_name_def mem_read_prefix mem_read_lpos ptr_hi_def ptr_lo_def)
    then show ?thesis using w by blast
  qed
qed

subsection \<open>Properties\<close>

lemma decompress_iff:
  assumes "length tgt = DNSNAMEBUFSIZE"
  shows "decompress_name msg src sz tgt = Some (RC_OK, res) \<longleftrightarrow>
    (\<exists>ls h k. name_at msg src ls h k \<and> h \<le> 255 \<and> k \<le> sz \<and> length (enc_name ls) \<le> DNSNAMEBUFSIZE \<and>
      res = (src + k, sz - k, mem_write tgt 0 (enc_name ls), Some (length (enc_name ls))))"
proof
  assume r: "decompress_name msg src sz tgt = Some (RC_OK, res)"
  obtain src' sz' tgt' len where res: "res = (src', sz', tgt', len)" by (cases res)
  from decompress_sound [OF r [unfolded res] assms] obtain ls h k where
    n: "name_at msg src ls h k" "h \<le> 255" "k \<le> sz" "length (enc_name ls) \<le> DNSNAMEBUFSIZE" by blast
  with decompress_complete [OF n assms] r
  show "\<exists>ls h k. name_at msg src ls h k \<and> h \<le> 255 \<and> k \<le> sz \<and> length (enc_name ls) \<le> DNSNAMEBUFSIZE \<and>
      res = (src + k, sz - k, mem_write tgt 0 (enc_name ls), Some (length (enc_name ls)))" by auto
qed (auto intro: decompress_complete assms)

text \<open>C11: \<open>decompress_name\<close> decides which names a message holds. On any message of bytes, with loops of
  pointers and truncated labels, it ends without reading outside the message or writing outside the
  256-byte buffer; it succeeds exactly when there is a name (labels and pointers; RFC 1035 also wants a pointer to point to a
  prior occurrence, which the code does not require) at the place that is read over at most 255 pointers, is in place within the data field and fits the buffer, with the labels
  in the buffer, the length and the data field advanced; otherwise the data field is as it was.\<close>

theorem dns_decompress_iff:
  assumes "length tgt = DNSNAMEBUFSIZE"
  shows "\<exists>rc res. decompress_name msg src sz tgt = Some (rc, res) \<and>
    (rc = RC_OK \<longleftrightarrow> (\<exists>ls h k. name_at msg src ls h k \<and> h \<le> 255 \<and> k \<le> sz \<and>
        length (enc_name ls) \<le> DNSNAMEBUFSIZE)) \<and>
    (\<forall>ls h k. rc = RC_OK \<and> name_at msg src ls h k \<longrightarrow>
        res = (src + k, sz - k, mem_write tgt 0 (enc_name ls), Some (length (enc_name ls)))) \<and>
    (rc \<noteq> RC_OK \<longrightarrow> (\<exists>tgt'. res = (src, sz, tgt', None) \<and> length tgt' = DNSNAMEBUFSIZE))"
proof -
  obtain rc res where r: "decompress_name msg src sz tgt = Some (rc, res)"
    and e: "rc \<noteq> RC_OK \<longrightarrow> (\<exists>tgt'. res = (src, sz, tgt', None) \<and> length tgt' = DNSNAMEBUFSIZE)"
    using decompress_total [OF assms, of msg src sz] by fastforce
  note i = decompress_iff [OF assms, of msg src sz]
  have "rc = RC_OK \<longleftrightarrow> (\<exists>ls h k. name_at msg src ls h k \<and> h \<le> 255 \<and> k \<le> sz \<and> length (enc_name ls) \<le> DNSNAMEBUFSIZE)"
  proof
    assume "rc = RC_OK"
    with r i show "\<exists>ls h k. name_at msg src ls h k \<and> h \<le> 255 \<and> k \<le> sz \<and> length (enc_name ls) \<le> DNSNAMEBUFSIZE" by blast
  next
    assume "\<exists>ls h k. name_at msg src ls h k \<and> h \<le> 255 \<and> k \<le> sz \<and> length (enc_name ls) \<le> DNSNAMEBUFSIZE"
    then show "rc = RC_OK" using r decompress_complete [OF _ _ _ _ assms] by fastforce
  qed
  moreover have "res = (src + k, sz - k, mem_write tgt 0 (enc_name ls), Some (length (enc_name ls)))"
    if a: "rc = RC_OK \<and> name_at msg src ls h k" for ls h k
  proof -
    from a r i obtain ls' h' k' where n: "name_at msg src ls' h' k'"
      "res = (src + k', sz - k', mem_write tgt 0 (enc_name ls'), Some (length (enc_name ls')))" by blast
    with name_at_fun [OF n(1)] a show ?thesis by blast
  qed
  ultimately show ?thesis using r e by blast
qed

theorem dns_decompress_iff_witness:
  "decompress_name [3, 0x77, 0x77, 0x77, 0, 2, 0x61, 0x62, 0xc0, 0] 5 5 (replicate 256 0) =
     Some (RC_OK, 10, 0, mem_write (replicate 256 0) 0 (enc_name [[0x61, 0x62], [0x77, 0x77, 0x77]]), Some 8) \<and>
   (\<forall>ls h k. \<not> name_at [0xc0, 0] 0 ls h k)"
proof -
  let ?m = "[3, 0x77, 0x77, 0x77, 0, 2, 0x61, 0x62, 0xc0, 0] :: byte list"
  let ?ls = "[[0x61, 0x62], [0x77, 0x77, 0x77]] :: byte list list"
  have p: "ptr_offset 0xc0 0 = 0" by (simp add: ptr_offset_def)
  have "name_at ?m (0 + 1 + unat (3 :: byte)) [] 0 1" by (rule name_end) (simp add: byte_at_def)
  from name_label [OF _ _ _ _ _ this, where l = "[0x77, 0x77, 0x77]"]
  have a: "name_at ?m (ptr_offset 0xc0 0) [[0x77, 0x77, 0x77]] 0 5" by (simp add: p byte_at_def mem_read_def)
  have "name_at ?m (5 + 1 + unat (2 :: byte)) [[0x77, 0x77, 0x77]] (0 + 1) 2"
    by (rule name_ptr [OF _ _ _ a]) (simp_all add: byte_at_def)
  from name_label [OF _ _ _ _ _ this, where l = "[0x61, 0x62]"]
  have n5: "name_at ?m 5 ?ls 1 k" if "k = Suc (Suc (Suc (Suc (Suc 0))))" for k
    using that by (simp add: byte_at_def mem_read_def)
  have n: "name_at ?m 5 ?ls 1 5" by (rule n5) simp
  have l: "length (replicate 256 0 :: byte list) = DNSNAMEBUFSIZE" by (simp add: DNSNAMEBUFSIZE_def)
  have e: "enc_name ?ls = [2, 0x61, 0x62, 3, 0x77, 0x77, 0x77, 0]" by (simp add: enc_name_def)
  from dns_decompress_iff [OF l, of ?m 5 5] n
  have "decompress_name ?m 5 5 (replicate 256 0) = Some (RC_OK, 10, 0, mem_write (replicate 256 0) 0 (enc_name ?ls), Some 8)"
    by (fastforce simp: e DNSNAMEBUFSIZE_def)
  moreover have "\<not> name_at [0xc0, 0] off ls h k" if "off = 0" for off ls h k
  proof
    assume "name_at [0xc0, 0] off ls h k"
    then show False using that
      by (induction rule: name_at.induct) (auto simp: byte_at_def ptr_offset_def word_le_nat_alt split: if_splits)
  qed
  ultimately show ?thesis by blast
qed

text \<open>A message built from names, each followed by other bytes (type, class, data); the offsets of the names.\<close>

fun put_names :: "byte list \<Rightarrow> compel list \<Rightarrow> (byte list list \<times> byte list) list \<Rightarrow> (byte list \<times> nat list) option" where
  "put_names msg cb [] = Some (msg, [])"
| "put_names msg cb ((zs, x) # its) =
     (case compress_name True (enc_name zs) (length msg) cb of
        Some (Some (outb, cb')) \<Rightarrow> map_option (\<lambda>(m, os). (m, length msg # os)) (put_names (msg @ outb @ x) cb' its)
      | _ \<Rightarrow> None)"

definition name_reads :: "byte list \<Rightarrow> nat \<Rightarrow> byte list list \<Rightarrow> bool" where
  "name_reads msg off zs \<longleftrightarrow> (\<exists>ls h k. name_at msg off ls h k \<and> map lower ls = map lower zs \<and> h \<le> length zs \<and>
     k \<le> length (enc_name zs))"

lemma put_names_reads:
  assumes "comp_inv msg cb" "list_all (\<lambda>it. name_ok (fst it)) its"
  shows "\<exists>x os. put_names msg cb its = Some (msg @ x, os) \<and>
    list_all2 (\<lambda>off it. name_reads (msg @ x) off (fst it)) os its"
  using assms
proof (induction its arbitrary: msg cb)
  case (Cons it its)
  obtain zs y where it: "it = (zs, y)" by (cases it)
  have ok: "name_ok zs" using Cons.prems(2) it by simp
  from compress_enc [OF Cons.prems(1) ok, of "[]"] obtain outb cb' where
    c: "compress_name True (enc_name zs) (length msg) cb = Some (Some (outb, cb'))" "comp_written msg zs outb cb'" by auto
  then have "comp_inv (msg @ outb) cb'" by (simp add: comp_written_def)
  then have inv: "comp_inv (msg @ outb @ y) cb'"
    unfolding comp_inv_def append_assoc [symmetric] using comp_inv_by_extend by blast
  from Cons.IH [OF inv] Cons.prems(2) obtain x os where
    x: "put_names (msg @ outb @ y) cb' its = Some ((msg @ outb @ y) @ x, os)"
    "list_all2 (\<lambda>off it. name_reads ((msg @ outb @ y) @ x) off (fst it)) os its" by auto
  from c(2) obtain ls h where n: "name_at (msg @ outb) (length msg) ls h (length outb)" "map lower ls = map lower zs"
    "h \<le> length zs" "length outb \<le> length (enc_name zs)" unfolding comp_written_def by blast
  have "name_reads (msg @ outb @ y @ x) (length msg) zs"
    using name_at_extend [OF n(1), of "y @ x"] n(2-4) unfolding name_reads_def by auto
  then show ?case using c(1) x it by (intro exI [of _ "outb @ y @ x"] exI [of _ "length msg # os"]) simp
qed simp

lemma name_reads_decompress:
  assumes "name_reads msg off zs" "name_ok zs" "length tgt = DNSNAMEBUFSIZE" "length (enc_name zs) \<le> sz"
  shows "\<exists>ls k. decompress_name msg off sz tgt =
      Some (RC_OK, off + k, sz - k, mem_write tgt 0 (enc_name ls), Some (length (enc_name zs))) \<and>
    rhnicmp (enc_name ls) (enc_name zs) = Some True \<and> k \<le> length (enc_name zs)"
proof -
  from assms(1) obtain ls h k where n: "name_at msg off ls h k" "map lower ls = map lower zs" "h \<le> length zs"
    "k \<le> length (enc_name zs)" by (auto simp: name_reads_def)
  have len: "length (enc_name ls) = length (enc_name zs)" using lower_lengths [OF n(2)] by (simp add: enc_name_def)
  have b: "length (enc_name ls) \<le> DNSNAMEBUFSIZE" using assms(2) len by (simp add: name_ok_def)
  have "rhnicmp (enc_name ls) (enc_name zs) = Some True"
    using rhnicmp_enc [of ls zs "[]" "[]"] name_at_labels [OF n(1)] name_ok_lab_len [OF assms(2)] n(2)
    by (simp add: list_all_iff label_ok_len lower_def [abs_def])
  moreover have "decompress_name msg off sz tgt =
      Some (RC_OK, off + k, sz - k, mem_write tgt 0 (enc_name ls), Some (length (enc_name zs)))"
    using decompress_complete [OF n(1) _ _ b assms(3), of sz] n(3,4) assms(4) name_ok_count [OF assms(2)] len by simp
  ultimately show ?thesis using n(4) by blast
qed

text \<open>C12: the round trip of compression over a whole message. Names written one after another with
  \<open>compress_name\<close>, with any other bytes between, never fail an assertion and never grow; each of them is
  read back from the finished message by \<open>decompress_name\<close>, equal up to case, over fewer pointers than the
  limit: what the list of written names relies on (that the first match of a given length is in place) holds.\<close>

theorem dns_compress_roundtrip:
  assumes "list_all (\<lambda>it. name_ok (fst it)) its" "length tgt = DNSNAMEBUFSIZE"
  shows "\<exists>x os. put_names hdr [] its = Some (hdr @ x, os) \<and> length os = length its \<and>
    (\<forall>i < length its. \<exists>ls k. decompress_name (hdr @ x) (os ! i) DNSNAMEBUFSIZE tgt =
        Some (RC_OK, os ! i + k, DNSNAMEBUFSIZE - k, mem_write tgt 0 (enc_name ls), Some (length (enc_name (fst (its ! i))))) \<and>
      rhnicmp (enc_name ls) (enc_name (fst (its ! i))) = Some True \<and> k \<le> length (enc_name (fst (its ! i))))"
proof -
  obtain x os where x: "put_names hdr [] its = Some (hdr @ x, os)"
    "list_all2 (\<lambda>off it. name_reads (hdr @ x) off (fst it)) os its"
    using put_names_reads [OF comp_inv_Nil assms(1)] by blast
  have ok: "name_ok (fst (its ! i))" if "i < length its" for i using assms(1) that by (simp add: list_all_length)
  have sz: "length (enc_name (fst (its ! i))) \<le> DNSNAMEBUFSIZE" if "i < length its" for i
    using ok [OF that] by (simp add: name_ok_def)
  show ?thesis
    using x name_reads_decompress [OF _ ok assms(2) sz] by (auto simp: list_all2_conv_all_nth)
qed

theorem dns_compress_roundtrip_witness:
  "\<exists>x os ls k. put_names (replicate 12 0) [] [([[0x77], [0x61, 0x62]], []), ([[0x78], [0x41, 0x62]], [0])] =
       Some (replicate 12 0 @ x, os) \<and>
     decompress_name (replicate 12 0 @ x) (os ! 1) DNSNAMEBUFSIZE (replicate 256 0) =
       Some (RC_OK, os ! 1 + k, DNSNAMEBUFSIZE - k, mem_write (replicate 256 0) 0 (enc_name ls), Some 6) \<and>
     rhnicmp (enc_name ls) (enc_name [[0x78], [0x41, 0x62]]) = Some True"
proof -
  let ?its = "[([[0x77], [0x61, 0x62]], []), ([[0x78], [0x41, 0x62]], [0])] :: (byte list list \<times> byte list) list"
  have ok: "list_all (\<lambda>it. name_ok (fst it)) ?its"
    by (simp add: name_ok_def label_ok_def enc_name_def DNSNAMEBUFSIZE_def)
  have l: "length (replicate 256 0 :: byte list) = DNSNAMEBUFSIZE" by (simp add: DNSNAMEBUFSIZE_def)
  from dns_compress_roundtrip [OF ok l, of "replicate 12 0"] obtain x os where
    x: "put_names (replicate 12 0) [] ?its = Some (replicate 12 0 @ x, os)" and
    r: "\<forall>i < length ?its. \<exists>ls k. decompress_name (replicate 12 0 @ x) (os ! i) DNSNAMEBUFSIZE (replicate 256 0) =
        Some (RC_OK, os ! i + k, DNSNAMEBUFSIZE - k, mem_write (replicate 256 0) 0 (enc_name ls),
          Some (length (enc_name (fst (?its ! i))))) \<and>
      rhnicmp (enc_name ls) (enc_name (fst (?its ! i))) = Some True \<and> k \<le> length (enc_name (fst (?its ! i)))" by blast
  have len: "length (enc_name ([[0x78], [0x41, 0x62]] :: byte list list)) = 6" by (simp add: enc_name_def)
  from r [rule_format, of 1] x len show ?thesis by fastforce
qed

text \<open>\<open>domain_match\<close>, which compares the labels of two names backwards from the recorded length bytes,
  is the longest common ending of their lists of labels up to case; the offsets it stores are the places in
  the two names where that ending starts.\<close>

theorem dns_match_longest:
  assumes "name_ok xs" "name_ok ys"
  shows "\<exists>n os od. domain_match (enc_name xs @ r) (enc_name ys @ s) = Some (n, os, od) \<and>
    (\<forall>m. m \<le> n \<longleftrightarrow> m \<le> length xs \<and> m \<le> length ys \<and>
       drop (length xs - m) (map lower xs) = drop (length ys - m) (map lower ys)) \<and>
    drop os (enc_name xs @ r) = enc_name (drop (length xs - n) xs) @ r \<and>
    drop od (enc_name ys @ s) = enc_name (drop (length ys - n) ys) @ s"
proof -
  have d: "drop (length (enc_labels (take m zs))) (enc_name zs @ r) = enc_name (drop m zs) @ r" for m zs and r :: "byte list"
    by (subst enc_name_split [of zs m]) simp
  show ?thesis
    using domain_match_enc [OF name_ok_lab_len name_ok_lab_len, OF assms] name_ok_count [OF assms(1)] name_ok_count [OF assms(2)]
    by (intro exI [of _ "common_tail xs ys"] exI [of _ "length (enc_labels (take (length xs - common_tail xs ys) xs))"]
        exI [of _ "length (enc_labels (take (length ys - common_tail xs ys) ys))"] conjI d)
      (simp_all add: common_tail_iff)
qed

theorem dns_match_longest_witness:
  "\<exists>n os od. domain_match (enc_name [[0x77], [0x61, 0x62]] @ []) (enc_name [[0x41, 0x62]] @ []) = Some (n, os, od) \<and> n = 1"
proof -
  have ok: "name_ok [[0x77], [0x61, 0x62]]" "name_ok [[0x41, 0x62]]"
    by (simp_all add: name_ok_def label_ok_def enc_name_def DNSNAMEBUFSIZE_def)
  from dns_match_longest [OF ok, of "[]" "[]"] obtain n os od where
    n: "domain_match (enc_name [[0x77], [0x61, 0x62]] @ []) (enc_name [[0x41, 0x62]] @ []) = Some (n, os, od)"
    "\<forall>m. m \<le> n \<longleftrightarrow> m \<le> length [[0x77], [0x61, 0x62 :: byte]] \<and> m \<le> length [[0x41, 0x62 :: byte]] \<and>
       drop (length [[0x77], [0x61, 0x62 :: byte]] - m) (map lower [[0x77], [0x61, 0x62]]) =
       drop (length [[0x41, 0x62 :: byte]] - m) (map lower [[0x41, 0x62]])" by blast
  have "1 \<le> n" using n(2) [rule_format, of 1] by (simp add: lower_def c_tolower_def)
  moreover have "n \<le> 1" using n(2) [rule_format, of n] by simp
  ultimately show ?thesis using n(1) by auto
qed

end
