(* ===== verification/DnsHash.thy ===== *)
theory DnsHash
  imports DnsMessage
begin

text \<open>
  The hash table of the DNS cache, pdnsd/src/hash.c. The chains are linked structures in an explicit
  store: an entry has an address, \<open>next\<close> is an address or \<open>NULL\<close> (\<open>None\<close>), and a \<open>dns_hash_ent_t **\<close> is a
  slot, either an element of \<open>hash_buckets\<close> or the \<open>next\<close> field of an entry. An access to an address that is
  not allocated makes the result \<open>None\<close>. Of a cache entry the table uses only its address and, through the
  parameter \<open>qn\<close>, the name \<open>qname\<close>. \<open>unsigned long\<close> has 64 bits.
\<close>

subsection \<open>The hash function\<close>

definition HASH_SZ :: nat where "HASH_SZ = 10"
definition HASH_NUM_BUCKETS :: nat where "HASH_NUM_BUCKETS = push_bit HASH_SZ 1"
definition HASH_BITMASK :: "32 word" where "HASH_BITMASK = word_of_nat (HASH_NUM_BUCKETS - 1)"

definition hash_add :: "nat \<Rightarrow> byte \<Rightarrow> 32 word \<times> 64 word \<Rightarrow> 32 word \<times> 64 word" where
  "hash_add i c sr = (fst sr + push_bit (i mod (HASH_SZ - 5)) (ucast c), snd sr + push_bit (i mod (8 * 8 - 7)) (ucast c))"

fun hash_chars :: "byte list \<Rightarrow> nat \<Rightarrow> nat \<Rightarrow> 32 word \<times> 64 word \<Rightarrow> (32 word \<times> 64 word) option" where
  "hash_chars str i 0 sr = Some sr"
| "hash_chars str i (Suc lb) sr = do {
     c \<leftarrow> byte_at str i;
     hash_chars str (i + 1) lb (hash_add i (c_toupper c) sr)
   }"

function hash_from :: "byte list \<Rightarrow> nat \<Rightarrow> 32 word \<times> 64 word \<Rightarrow> (32 word \<times> 64 word) option" where
  "hash_from str i sr =
     (case byte_at str i of
        None \<Rightarrow> None
      | Some lb \<Rightarrow>
          if lb = 0 then Some sr
          else (case hash_chars str (i + 1) (unat lb) (hash_add i lb sr) of
              None \<Rightarrow> None
            | Some sr \<Rightarrow> hash_from str (i + 1 + unat lb) sr))"
  by pat_completeness auto
termination
  by (relation "measure (\<lambda>(str, i, sr). length str - i)") (auto simp: byte_at_def split: if_splits)

declare hash_from.simps [simp del]

definition hash_fold :: "32 word \<Rightarrow> 32 word" where
  "hash_fold s = (s AND HASH_BITMASK) + drop_bit HASH_SZ (s AND NOT HASH_BITMASK)"

definition dns_hash :: "byte list \<Rightarrow> (nat \<times> 64 word) option" where
  "dns_hash str = do {
     (s, r) \<leftarrow> hash_from str 0 (0, 0);
     let s = hash_fold s;
     let s = hash_fold s;
     let s = s AND HASH_BITMASK;
     Some (unat s, r)
   }"

subsection \<open>The table\<close>

record dns_hash_ent =
  he_next :: "nat option"
  he_rhash :: "64 word"
  he_data :: nat

record dns_table =
  hash_buckets :: "nat option list"
  hash_ents :: "nat \<Rightarrow> dns_hash_ent option"

datatype hash_slot = Bucket nat | NextOf nat

text \<open>\<open>dns_hash_loc_t\<close> is the slot and the long hash, \<open>dns_hash_pos_t\<close> the bucket and the next entry.\<close>

type_synonym dns_hash_loc = "hash_slot \<times> 64 word"
type_synonym dns_hash_pos = "nat \<times> nat option"

definition slot_read :: "dns_table \<Rightarrow> hash_slot \<Rightarrow> nat option option" where
  "slot_read h s = (case s of
     Bucket i \<Rightarrow> if i < length (hash_buckets h) then Some (hash_buckets h ! i) else None
   | NextOf a \<Rightarrow> map_option he_next (hash_ents h a))"

definition slot_write :: "dns_table \<Rightarrow> hash_slot \<Rightarrow> nat option \<Rightarrow> dns_table option" where
  "slot_write h s p = (case s of
     Bucket i \<Rightarrow> if i < length (hash_buckets h) then Some (h\<lparr>hash_buckets := (hash_buckets h)[i := p]\<rparr>) else None
   | NextOf a \<Rightarrow> map_option (\<lambda>e. h\<lparr>hash_ents := (hash_ents h)(a \<mapsto> e\<lparr>he_next := p\<rparr>)\<rparr>) (hash_ents h a))"

definition ent_free :: "dns_table \<Rightarrow> nat \<Rightarrow> dns_table option" where
  "ent_free h a = map_option (\<lambda>e. h\<lparr>hash_ents := (hash_ents h)(a := None)\<rparr>) (hash_ents h a)"

definition mk_dns_hash :: dns_table where
  "mk_dns_hash = \<lparr>hash_buckets = replicate HASH_NUM_BUCKETS None, hash_ents = \<lambda>_. None\<rparr>"

text \<open>The loop of \<open>dns_lookup\<close> and \<open>del_dns_hash\<close>: the entry found and the slot where it stopped.\<close>

partial_function (option) hash_find ::
  "dns_table \<Rightarrow> (nat \<Rightarrow> byte list option) \<Rightarrow> byte list \<Rightarrow> 64 word \<Rightarrow> hash_slot \<Rightarrow> (dns_hash_ent option \<times> hash_slot) option" where
  "hash_find h qn key rh hep = do {
     p \<leftarrow> slot_read h hep;
     case p of
       None \<Rightarrow> Some (None, hep)
     | Some he \<Rightarrow> do {
         e \<leftarrow> hash_ents h he;
         if he_rhash e \<le> rh then do {
           found \<leftarrow> (if he_rhash e = rh then do { name \<leftarrow> qn (he_data e); rhnicmp key name } else Some False);
           if found then Some (Some e, hep) else hash_find h qn key rh (NextOf he)
         } else Some (None, hep)
       }
   }"

definition dns_lookup :: "dns_table \<Rightarrow> (nat \<Rightarrow> byte list option) \<Rightarrow> byte list \<Rightarrow> (nat option \<times> dns_hash_loc) option" where
  "dns_lookup h qn key = do {
     (idx, rh) \<leftarrow> dns_hash key;
     (e, hep) \<leftarrow> hash_find h qn key rh (Bucket idx);
     Some (map_option he_data e, (hep, rh))
   }"

text \<open>The parameter \<open>he\<close> is the result of \<open>malloc\<close>.\<close>

definition add_dns_hash :: "dns_table \<Rightarrow> nat option \<Rightarrow> nat \<Rightarrow> dns_hash_loc \<Rightarrow> (dns_table \<times> bool) option" where
  "add_dns_hash h he data loc = (case he of
     None \<Rightarrow> Some (h, False)
   | Some he \<Rightarrow> do {
       next \<leftarrow> slot_read h (fst loc);
       let h = h\<lparr>hash_ents := (hash_ents h)(he \<mapsto> \<lparr>he_next = next, he_rhash = snd loc, he_data = data\<rparr>)\<rparr>;
       h \<leftarrow> slot_write h (fst loc) (Some he);
       Some (h, True)
     })"

definition del_dns_hash_ent :: "dns_table \<Rightarrow> dns_hash_loc \<Rightarrow> (dns_table \<times> nat) option" where
  "del_dns_hash_ent h loc = do {
     p \<leftarrow> slot_read h (fst loc);
     he \<leftarrow> p;
     e \<leftarrow> hash_ents h he;
     h \<leftarrow> slot_write h (fst loc) (he_next e);
     h \<leftarrow> ent_free h he;
     Some (h, he_data e)
   }"

definition del_dns_hash :: "dns_table \<Rightarrow> (nat \<Rightarrow> byte list option) \<Rightarrow> byte list \<Rightarrow> (dns_table \<times> nat option) option" where
  "del_dns_hash h qn key = do {
     (idx, rh) \<leftarrow> dns_hash key;
     (found, hep) \<leftarrow> hash_find h qn key rh (Bucket idx);
     case found of
       None \<Rightarrow> Some (h, None)
     | Some e \<Rightarrow> do {
         p \<leftarrow> slot_read h hep;
         he \<leftarrow> p;
         h \<leftarrow> slot_write h hep (he_next e);
         h \<leftarrow> ent_free h he;
         Some (h, Some (he_data e))
       }
   }"

subsection \<open>Freeing\<close>

text \<open>The list in the results is that of the calls \<open>del_cent(he->data)\<close>, in their order.\<close>

partial_function (option) free_chain :: "dns_table \<Rightarrow> nat option \<Rightarrow> nat list \<Rightarrow> (dns_table \<times> nat list) option" where
  "free_chain h he dels = (case he of
     None \<Rightarrow> Some (h, dels)
   | Some a \<Rightarrow> do {
       e \<leftarrow> hash_ents h a;
       h \<leftarrow> ent_free h a;
       free_chain h (he_next e) (dels @ [he_data e])
     })"

definition free_dns_hash_bucket :: "dns_table \<Rightarrow> nat \<Rightarrow> nat list \<Rightarrow> (dns_table \<times> nat list) option" where
  "free_dns_hash_bucket h i dels = do {
     he \<leftarrow> slot_read h (Bucket i);
     h \<leftarrow> slot_write h (Bucket i) None;
     free_chain h he dels
   }"

fun free_dns_hash_from :: "dns_table \<Rightarrow> nat \<Rightarrow> nat \<Rightarrow> nat list \<Rightarrow> (dns_table \<times> nat list) option" where
  "free_dns_hash_from h i 0 dels = Some (h, dels)"
| "free_dns_hash_from h i (Suc n) dels = do {
     (h, dels) \<leftarrow> free_dns_hash_bucket h i dels;
     free_dns_hash_from h (i + 1) n dels
   }"

definition free_dns_hash :: "dns_table \<Rightarrow> (dns_table \<times> nat list) option" where
  "free_dns_hash h = free_dns_hash_from h 0 HASH_NUM_BUCKETS []"

record slist =
  sl_domain :: "byte list"
  sl_exact :: bool
  sl_included :: bool

text \<open>The loop over the include/exclude list: whether the entry is to be deleted.\<close>

fun slist_selects :: "byte list \<Rightarrow> slist list \<Rightarrow> bool option" where
  "slist_selects name [] = Some False"
| "slist_selects name (sl # sla) = do {
     (_, nrem, lrem) \<leftarrow> domain_match name (sl_domain sl);
     if lrem = 0 \<and> (\<not> sl_exact sl \<or> nrem = 0) then Some (sl_included sl) else slist_selects name sla
   }"

partial_function (option) free_selected ::
  "dns_table \<Rightarrow> (nat \<Rightarrow> byte list option) \<Rightarrow> hash_slot \<Rightarrow> slist list \<Rightarrow> nat list \<Rightarrow> (dns_table \<times> nat list) option" where
  "free_selected h qn hep sla dels = do {
     he \<leftarrow> slot_read h hep;
     case he of
       None \<Rightarrow> Some (h, dels)
     | Some a \<Rightarrow> do {
         e \<leftarrow> hash_ents h a;
         name \<leftarrow> qn (he_data e);
         sel \<leftarrow> slist_selects name sla;
         if sel then do {
           h \<leftarrow> slot_write h hep (he_next e);
           h \<leftarrow> ent_free h a;
           free_selected h qn hep sla (dels @ [he_data e])
         } else free_selected h qn (NextOf a) sla dels
       }
   }"

definition free_dns_hash_selected ::
  "dns_table \<Rightarrow> (nat \<Rightarrow> byte list option) \<Rightarrow> nat \<Rightarrow> slist list \<Rightarrow> (dns_table \<times> nat list) option" where
  "free_dns_hash_selected h qn i sla = free_selected h qn (Bucket i) sla []"

subsection \<open>Iteration\<close>

text \<open>The loop over the buckets from \<open>i\<close>, \<open>n\<close> of them left: the data and the new position.\<close>

fun fetch_bucket :: "dns_table \<Rightarrow> nat \<Rightarrow> nat \<Rightarrow> (nat \<times> dns_hash_pos) option option" where
  "fetch_bucket h i 0 = Some None"
| "fetch_bucket h i (Suc n) = do {
     he \<leftarrow> slot_read h (Bucket i);
     case he of
       Some a \<Rightarrow> do { e \<leftarrow> hash_ents h a; Some (Some (he_data e, (i, he_next e))) }
     | None \<Rightarrow> fetch_bucket h (i + 1) n
   }"

definition fetch_first :: "dns_table \<Rightarrow> (nat \<times> dns_hash_pos) option option" where
  "fetch_first h = fetch_bucket h 0 HASH_NUM_BUCKETS"

definition fetch_next :: "dns_table \<Rightarrow> dns_hash_pos \<Rightarrow> (nat \<times> dns_hash_pos) option option" where
  "fetch_next h pos = (case snd pos of
     Some a \<Rightarrow> do { e \<leftarrow> hash_ents h a; Some (Some (he_data e, (fst pos, he_next e))) }
   | None \<Rightarrow> fetch_bucket h (fst pos + 1) (HASH_NUM_BUCKETS - (fst pos + 1)))"

end
