(* ===== verification/NameTable.thy ===== *)
theory NameTable
  imports Main "HOL-Library.Monad_Syntax"
begin

text \<open>
  The contract of the table of names as the cache sees it: a lookup gives what was added under the name, up
  to the equivalence \<open>norm\<close> of names, and a location at which the name can be added, or what was found deleted.
\<close>

datatype ('k, 'd) table_op =
    Find 'k
  | Put 'k 'd bool      \<comment> \<open>look the name up and add it if it is new; the flag: memory is available\<close>
  | Take 'k             \<comment> \<open>look the name up and delete at the location found\<close>
  | Drop 'k

definition table_step ::
  "('t \<Rightarrow> 'k \<Rightarrow> ('d option \<times> 'l) option) \<Rightarrow> ('t \<Rightarrow> nat option \<Rightarrow> 'd \<Rightarrow> 'l \<Rightarrow> ('t \<times> bool) option) \<Rightarrow>
   ('t \<Rightarrow> 'l \<Rightarrow> ('t \<times> 'd) option) \<Rightarrow> ('t \<Rightarrow> 'k \<Rightarrow> ('t \<times> 'd option) option) \<Rightarrow> ('t \<Rightarrow> nat) \<Rightarrow>
   't \<Rightarrow> ('k, 'd) table_op \<Rightarrow> ('t \<times> 'd option) option" where
  "table_step lookup add del_ent del malloc t op = (case op of
         Find k \<Rightarrow> map_option (\<lambda>(d, _). (t, d)) (lookup t k)
       | Put k x ok \<Rightarrow> do {
           (d, l) \<leftarrow> lookup t k;
           if d = None then map_option (\<lambda>(t, _). (t, None)) (add t (if ok then Some (malloc t) else None) x l)
           else Some (t, d)
         }
       | Take k \<Rightarrow> do {
           (d, l) \<leftarrow> lookup t k;
           if d = None then Some (t, None) else map_option (\<lambda>(t, d). (t, Some d)) (del_ent t l)
         }
       | Drop k \<Rightarrow> del t k)"

definition map_step :: "('k \<Rightarrow> 'c) \<Rightarrow> ('c \<Rightarrow> 'd option) \<Rightarrow> ('k, 'd) table_op \<Rightarrow> ('c \<Rightarrow> 'd option) \<times> 'd option" where
  "map_step norm m op = (case op of
            Find k \<Rightarrow> (m, m (norm k))
          | Put k x ok \<Rightarrow> (if m (norm k) = None \<and> ok then m(norm k \<mapsto> x) else m, m (norm k))
          | Take k \<Rightarrow> (m(norm k := None), m (norm k))
          | Drop k \<Rightarrow> (m(norm k := None), m (norm k)))"

fun table_run ::
  "('t \<Rightarrow> 'k \<Rightarrow> ('d option \<times> 'l) option) \<Rightarrow> ('t \<Rightarrow> nat option \<Rightarrow> 'd \<Rightarrow> 'l \<Rightarrow> ('t \<times> bool) option) \<Rightarrow>
   ('t \<Rightarrow> 'l \<Rightarrow> ('t \<times> 'd) option) \<Rightarrow> ('t \<Rightarrow> 'k \<Rightarrow> ('t \<times> 'd option) option) \<Rightarrow> ('t \<Rightarrow> nat) \<Rightarrow>
   't \<Rightarrow> ('k, 'd) table_op list \<Rightarrow> ('t \<times> 'd option list) option" where
  "table_run lookup add del_ent del malloc t [] = Some (t, [])"
| "table_run lookup add del_ent del malloc t (op # ops) = do {
     (t, r) \<leftarrow> table_step lookup add del_ent del malloc t op;
     (t, rs) \<leftarrow> table_run lookup add del_ent del malloc t ops;
     Some (t, r # rs)
   }"

fun map_run :: "('k \<Rightarrow> 'c) \<Rightarrow> ('c \<Rightarrow> 'd option) \<Rightarrow> ('k, 'd) table_op list \<Rightarrow> ('c \<Rightarrow> 'd option) \<times> 'd option list" where
  "map_run norm m [] = (m, [])"
| "map_run norm m (op # ops) =
     (let (m', r) = map_step norm m op;
        (m'', rs) = map_run norm m' ops
      in (m'', r # rs))"

definition op_ok :: "('k \<Rightarrow> bool) \<Rightarrow> ('d \<Rightarrow> 'k \<Rightarrow> bool) \<Rightarrow> ('k, 'd) table_op \<Rightarrow> bool" where
  "op_ok valid named op = (case op of
     Find k \<Rightarrow> valid k | Put k x _ \<Rightarrow> valid k \<and> named x k | Take k \<Rightarrow> valid k | Drop k \<Rightarrow> valid k)"

locale name_table =
  fixes rep :: "'t \<Rightarrow> ('c \<Rightarrow> 'd option) \<Rightarrow> bool"
    and norm :: "'k \<Rightarrow> 'c"
    and valid :: "'k \<Rightarrow> bool"
    and named :: "'d \<Rightarrow> 'k \<Rightarrow> bool"
    and fresh :: "'t \<Rightarrow> nat \<Rightarrow> bool"
    and lookup :: "'t \<Rightarrow> 'k \<Rightarrow> ('d option \<times> 'l) option"
    and add :: "'t \<Rightarrow> nat option \<Rightarrow> 'd \<Rightarrow> 'l \<Rightarrow> ('t \<times> bool) option"
    and del_ent :: "'t \<Rightarrow> 'l \<Rightarrow> ('t \<times> 'd) option"
    and del :: "'t \<Rightarrow> 'k \<Rightarrow> ('t \<times> 'd option) option"
  assumes lookup_rep: "rep t m \<Longrightarrow> valid k \<Longrightarrow> \<exists>l. lookup t k = Some (m (norm k), l)"
    and add_rep: "rep t m \<Longrightarrow> valid k \<Longrightarrow> lookup t k = Some (None, l) \<Longrightarrow> named x k \<Longrightarrow> fresh t a \<Longrightarrow>
      \<exists>t'. add t (Some a) x l = Some (t', True) \<and> rep t' (m(norm k \<mapsto> x))"
    and add_fail: "add t None x l = Some (t, False)"
    and del_ent_rep: "rep t m \<Longrightarrow> valid k \<Longrightarrow> lookup t k = Some (Some x, l) \<Longrightarrow>
      \<exists>t'. del_ent t l = Some (t', x) \<and> rep t' (m(norm k := None))"
    and del_rep: "rep t m \<Longrightarrow> valid k \<Longrightarrow> \<exists>t'. del t k = Some (t', m (norm k)) \<and> rep t' (m(norm k := None))"
begin

lemma step_rep:
  assumes "rep t m" "op_ok valid named op" "\<And>t m. rep t m \<Longrightarrow> fresh t (malloc t)"
  shows "\<exists>t' m' r. table_step lookup add del_ent del malloc t op = Some (t', r) \<and> rep t' m' \<and>
     map_step norm m op = (m', r)"
  supply [simp] = table_step_def map_step_def
proof (cases op)
  case (Find k)
  then show ?thesis using lookup_rep [OF assms(1), of k] assms(1,2) by (auto simp: op_ok_def)
next
  case (Put k x ok)
  then have v: "valid k" "named x k" using assms(2) by (simp_all add: op_ok_def)
  obtain l where l: "lookup t k = Some (m (norm k), l)" using lookup_rep [OF assms(1) v(1)] by blast
  show ?thesis
  proof (cases "m (norm k) = None \<and> ok")
    case True
    then show ?thesis using add_rep [OF assms(1) v(1) _ v(2) assms(3) [OF assms(1)]] l Put by auto
  next
    case False
    then show ?thesis using l Put add_fail assms(1) by (cases "m (norm k)") auto
  qed
next
  case (Take k)
  then have v: "valid k" using assms(2) by (simp add: op_ok_def)
  obtain l where l: "lookup t k = Some (m (norm k), l)" using lookup_rep [OF assms(1) v(1)] by blast
  show ?thesis
  proof (cases "m (norm k)")
    case None
    then show ?thesis using l Take assms(1) by (simp add: fun_upd_idem)
  next
    case (Some x)
    then show ?thesis using del_ent_rep [OF assms(1) v] l Take by fastforce
  qed
next
  case (Drop k)
  then show ?thesis using del_rep [OF assms(1), of k] assms(2) by (auto simp: op_ok_def)
qed

lemma run_rep:
  assumes "rep t m" "list_all (op_ok valid named) ops" "\<And>t m. rep t m \<Longrightarrow> fresh t (malloc t)"
  shows "\<exists>t' m' rs. table_run lookup add del_ent del malloc t ops = Some (t', rs) \<and> map_run norm m ops = (m', rs) \<and> rep t' m'"
  using assms(1,2)
proof (induction ops arbitrary: t m)
  case (Cons op ops)
  have ok: "op_ok valid named op" "list_all (op_ok valid named) ops" using Cons.prems(2) by simp_all
  obtain t1 m1 r where s: "table_step lookup add del_ent del malloc t op = Some (t1, r)" "rep t1 m1"
    "map_step norm m op = (m1, r)"
    using step_rep [OF Cons.prems(1) ok(1), of malloc] assms(3) by blast
  obtain t2 m2 rs where "table_run lookup add del_ent del malloc t1 ops = Some (t2, rs)"
    "map_run norm m1 ops = (m2, rs)" "rep t2 m2" using Cons.IH [OF s(2) ok(2)] by blast
  then show ?case unfolding table_run.simps map_run.simps s by simp
qed simp

end

end
