(* ===== verification/DnsHashProperties.thy ===== *)
theory DnsHashProperties
  imports DnsHash DnsCompression NameTable
begin

text \<open>
  The chained store refines a map from names, up to case, to cache entries: the relation between a chain
  and the list of its entries, the effect of reading and writing a slot, the search, and the contract
  of a table of names as a locale that the table of hash.c is shown to keep.
\<close>

subsection \<open>Hashes do not depend on case\<close>

fun hash_bytes :: "nat \<Rightarrow> byte list \<Rightarrow> 32 word \<times> 64 word \<Rightarrow> 32 word \<times> 64 word" where
  "hash_bytes i [] sr = sr"
| "hash_bytes i (c # cs) sr = hash_bytes (i + 1) cs (hash_add i c sr)"

lemma hash_bytes_append: "hash_bytes i (xs @ ys) sr = hash_bytes (i + length xs) ys (hash_bytes i xs sr)"
  by (induction xs arbitrary: i sr) simp_all

lemma hash_chars_eq:
  "length l = n \<Longrightarrow> hash_chars (p @ l @ r) (length p) n sr = Some (hash_bytes (length p) (map c_toupper l) sr)"
proof (induction n arbitrary: p l sr)
  case (Suc n)
  then obtain c l' where l: "l = c # l'" "length l' = n" by (cases l) auto
  from Suc.IH [OF l(2), of "p @ [c]"] show ?case using l by simp
qed simp

definition upper_labels :: "byte list list \<Rightarrow> byte list" where
  "upper_labels xs = enc_labels (map (map c_toupper) xs)"

lemma hash_from_enc:
  assumes "list_all lab_len xs"
  shows "hash_from (p @ enc_name xs @ r) (length p) sr = Some (hash_bytes (length p) (upper_labels xs) sr)"
  using assms
proof (induction xs arbitrary: p sr)
  case Nil
  then show ?case by (simp add: hash_from.simps upper_labels_def)
next
  case (Cons x xs)
  note b = lab_len_byte [of x]
  let ?p = "p @ [word_of_nat (length x)]"
  have h: "hash_chars (?p @ x @ enc_name xs @ r) (length ?p) (length x) (hash_add (length p) (word_of_nat (length x)) sr) =
      Some (hash_bytes (length ?p) (map c_toupper x) (hash_add (length p) (word_of_nat (length x)) sr))"
    by (rule hash_chars_eq) simp
  have "hash_from ((?p @ x) @ enc_name xs @ r) (length (?p @ x)) sr' = Some (hash_bytes (length (?p @ x)) (upper_labels xs) sr')" for sr'
    using Cons.prems by (intro Cons.IH) simp
  then show ?case using b h Cons.prems
    by (subst hash_from.simps) (simp add: upper_labels_def hash_bytes_append)
qed

lemma toupper_tolower: "c_toupper (c_tolower c) = c_toupper c"
proof (cases "65 \<le> c \<and> c \<le> 90")
  case True
  then have "unat (c + 32) = unat c + 32" by (simp add: unat_word_ariths(1) word_le_nat_alt)
  then have "97 \<le> c + 32" "c + 32 \<le> 122" "\<not> 97 \<le> c" using True by (simp_all add: word_le_nat_alt)
  then show ?thesis using True by (simp add: c_tolower_def c_toupper_def)
qed (auto simp: c_tolower_def)

lemma upper_labels_lower: "map lower xs = map lower ys \<Longrightarrow> upper_labels xs = upper_labels ys"
proof -
  assume a: "map lower xs = map lower ys"
  have "map (map c_toupper) xs = map (map c_toupper) (map lower xs)" for xs
    by (simp add: lower_def toupper_tolower)
  then show ?thesis unfolding upper_labels_def a by (metis a)
qed

definition name_hash :: "byte list list \<Rightarrow> nat \<times> 64 word" where
  "name_hash xs = (let (s, r) = hash_bytes 0 (upper_labels xs) (0, 0) in (unat (hash_fold (hash_fold s) AND HASH_BITMASK), r))"

lemma dns_hash_enc: "list_all lab_len xs \<Longrightarrow> dns_hash (enc_name xs @ r) = Some (name_hash xs)"
  using hash_from_enc [of xs "[]" r] by (simp add: dns_hash_def name_hash_def Let_def split: prod.split)

lemma name_hash_lower: "map lower xs = map lower ys \<Longrightarrow> name_hash xs = name_hash ys"
  unfolding name_hash_def by (simp only: upper_labels_lower [of xs ys])

lemma name_hash_bound: "fst (name_hash xs) < HASH_NUM_BUCKETS"
proof -
  have "unat (w AND HASH_BITMASK) < HASH_NUM_BUCKETS" for w :: "32 word"
    using word_and_le1 [of w HASH_BITMASK]
    by (simp add: HASH_BITMASK_def HASH_NUM_BUCKETS_def HASH_SZ_def word_le_nat_alt push_bit_eq_mult and.commute)
  then show ?thesis by (simp add: name_hash_def Let_def split: prod.split)
qed

subsection \<open>Chains\<close>

record hitem =
  it_addr :: nat
  it_hash :: "64 word"
  it_data :: nat
  it_name :: "byte list list"

abbreviation it_key :: "hitem \<Rightarrow> byte list list" where "it_key x \<equiv> map lower (it_name x)"

fun seg :: "(nat \<Rightarrow> dns_hash_ent option) \<Rightarrow> nat option \<Rightarrow> hitem list \<Rightarrow> nat option \<Rightarrow> bool" where
  "seg H p [] q \<longleftrightarrow> p = q"
| "seg H p (x # xs) q \<longleftrightarrow> p = Some (it_addr x) \<and>
     (\<exists>n. H (it_addr x) = Some \<lparr>he_next = n, he_rhash = it_hash x, he_data = it_data x\<rparr> \<and> seg H n xs q)"

lemma seg_app: "seg H p (xs @ ys) q \<longleftrightarrow> (\<exists>r. seg H p xs r \<and> seg H r ys q)"
  by (induction xs arbitrary: p) auto

lemma seg_cong: "(\<And>x. x \<in> set xs \<Longrightarrow> H (it_addr x) = H' (it_addr x)) \<Longrightarrow> seg H p xs q = seg H' p xs q"
  by (induction xs arbitrary: p) auto

lemma seg_mono:
  "seg H p xs q \<Longrightarrow> (\<And>x. x \<in> set xs \<Longrightarrow> H' (it_addr x) = H (it_addr x)) \<Longrightarrow> seg H' p xs q"
  using seg_cong [of xs H' H] by blast

definition first :: "hitem list \<Rightarrow> nat option" where
  "first xs = (case xs of [] \<Rightarrow> None | x # _ \<Rightarrow> Some (it_addr x))"

lemma seg_first: "seg H p xs None \<Longrightarrow> p = first xs"
  by (cases xs) (auto simp: first_def)

definition slot_of :: "nat \<Rightarrow> hitem list \<Rightarrow> hash_slot" where
  "slot_of i pre = (if pre = [] then Bucket i else NextOf (it_addr (last pre)))"

lemma slot_of_snoc [simp]: "slot_of i [] = Bucket i" "slot_of i (pre @ [x]) = NextOf (it_addr x)"
  by (simp_all add: slot_of_def)

lemma slot_read_seg:
  assumes "i < length (hash_buckets h)" "seg (hash_ents h) (hash_buckets h ! i) (pre @ post) None"
  shows "slot_read h (slot_of i pre) = Some (first post)"
proof (cases pre rule: rev_cases)
  case Nil
  then show ?thesis using assms seg_first by (auto simp: slot_read_def)
next
  case (snoc pre' x)
  then show ?thesis using assms seg_first by (auto simp: slot_read_def seg_app)
qed

lemma distinct_map_ne:
  assumes "distinct (map f (xs @ ys))" "x \<in> set xs" "y \<in> set ys"
  shows "f x \<noteq> f y"
  using assms unfolding distinct_map inj_on_def by auto

lemma distinct_map_notin: "distinct (map f (xs @ ys)) \<Longrightarrow> y \<in> set ys \<Longrightarrow> f y \<notin> f ` set xs"
  using distinct_map_ne by (metis imageE)

text \<open>Writing a slot redirects the end of what is before it and changes nothing else.\<close>

lemma slot_write_seg:
  assumes "i < length (hash_buckets h)" "seg (hash_ents h) (hash_buckets h ! i) (pre @ post) None"
    "distinct (map it_addr (pre @ post))"
  shows "\<exists>h'. slot_write h (slot_of i pre) p = Some h' \<and> length (hash_buckets h') = length (hash_buckets h) \<and>
    (\<forall>j. j \<noteq> i \<longrightarrow> hash_buckets h' ! j = hash_buckets h ! j) \<and>
    (\<forall>a. a \<notin> it_addr ` set pre \<longrightarrow> hash_ents h' a = hash_ents h a) \<and> dom (hash_ents h') = dom (hash_ents h) \<and>
    seg (hash_ents h') (hash_buckets h' ! i) pre p"
proof (cases pre rule: rev_cases)
  case Nil
  then show ?thesis using assms(1) by (simp add: slot_write_def)
next
  case (snoc pre' x)
  obtain q n where s: "seg (hash_ents h) (hash_buckets h ! i) pre' q" "q = Some (it_addr x)"
    "hash_ents h (it_addr x) = Some \<lparr>he_next = n, he_rhash = it_hash x, he_data = it_data x\<rparr>"
    using assms(2) snoc by (auto simp: seg_app)
  let ?e = "\<lparr>he_next = p, he_rhash = it_hash x, he_data = it_data x\<rparr>"
  let ?h = "h\<lparr>hash_ents := (hash_ents h)(it_addr x \<mapsto> ?e)\<rparr>"
  have "it_addr y \<noteq> it_addr x" if "y \<in> set pre'" for y
    using distinct_map_ne [of it_addr pre' "x # post" y x] that assms(3) snoc by simp
  then have "seg (hash_ents ?h) (hash_buckets h ! i) pre' q"
    using s(1) by (subst seg_cong [of _ _ "hash_ents h"]) auto
  then have "seg (hash_ents ?h) (hash_buckets h ! i) pre p" using s(2) snoc by (auto simp: seg_app)
  then show ?thesis using s(3) snoc by (intro exI [of _ ?h]) (auto simp: slot_write_def)
qed

subsection \<open>The invariant and the map\<close>

definition item_ok :: "(nat \<Rightarrow> byte list option) \<Rightarrow> nat \<Rightarrow> hitem \<Rightarrow> bool" where
  "item_ok qn i x \<longleftrightarrow> list_all lab_len (it_name x) \<and> qn (it_data x) = Some (enc_name (it_name x)) \<and>
     name_hash (it_name x) = (i, it_hash x)"

definition hash_ok :: "dns_table \<Rightarrow> (nat \<Rightarrow> byte list option) \<Rightarrow> hitem list list \<Rightarrow> bool" where
  "hash_ok h qn T \<longleftrightarrow> length (hash_buckets h) = HASH_NUM_BUCKETS \<and> length T = HASH_NUM_BUCKETS \<and>
     (\<forall>i < HASH_NUM_BUCKETS. seg (hash_ents h) (hash_buckets h ! i) (T ! i) None \<and> sorted (map it_hash (T ! i)) \<and>
        (\<forall>x \<in> set (T ! i). item_ok qn i x)) \<and>
     distinct (map it_addr (concat T)) \<and> distinct (map it_key (concat T)) \<and>
     dom (hash_ents h) = it_addr ` set (concat T)"

definition table_map :: "hitem list list \<Rightarrow> byte list list \<Rightarrow> nat option" where
  "table_map T = map_of (map (\<lambda>x. (it_key x, it_data x)) (concat T))"

lemma dom_table_map: "dom (table_map T) = it_key ` set (concat T)"
  by (simp add: table_map_def dom_map_of_conv_image_fst image_image del: set_concat)

lemma hash_okD:
  assumes "hash_ok h qn T" "i < HASH_NUM_BUCKETS"
  shows "i < length (hash_buckets h)" "i < length T" "seg (hash_ents h) (hash_buckets h ! i) (T ! i) None"
    "sorted (map it_hash (T ! i))" "\<And>x. x \<in> set (T ! i) \<Longrightarrow> item_ok qn i x"
  using assms by (simp_all add: hash_ok_def)

text \<open>A table with the bucket \<open>i\<close> singled out.\<close>

lemma concat_split: "i < length T \<Longrightarrow> concat T = concat (take i T) @ T ! i @ concat (drop (Suc i) T)"
  by (subst id_take_nth_drop) simp_all

lemma concat_update: "i < length T \<Longrightarrow> concat (T[i := b]) = concat (take i T) @ b @ concat (drop (Suc i) T)"
  by (simp add: upd_conv_take_nth_drop)

lemma set_bucket: "x \<in> set (concat T) \<longleftrightarrow> (\<exists>i < length T. x \<in> set (T ! i))"
  by (metis UN_iff in_set_conv_nth set_concat)

lemma map_of_mid: "k \<notin> fst ` set as \<Longrightarrow> k \<notin> fst ` set bs \<Longrightarrow> map_of (as @ (k, v) # bs) = (map_of (as @ bs))(k \<mapsto> v)"
  by (induction as) (auto simp: fun_eq_iff)

lemma table_map_insert:
  assumes "i < length T" "T ! i = pre @ post" "it_key x \<notin> it_key ` set (concat T)"
  shows "table_map (T[i := pre @ x # post]) = (table_map T)(it_key x \<mapsto> it_data x)"
proof -
  have "it_key x \<notin> fst ` set (map (\<lambda>x. (it_key x, it_data x)) (concat (take i T) @ pre))"
    "it_key x \<notin> fst ` set (map (\<lambda>x. (it_key x, it_data x)) (post @ concat (drop (Suc i) T)))"
    using assms(3) unfolding concat_split [OF assms(1)] assms(2) by (auto simp: image_image)
  from map_of_mid [OF this] show ?thesis
    unfolding table_map_def concat_update [OF assms(1)] concat_split [OF assms(1)] assms(2) by simp
qed

lemma table_map_remove:
  assumes "i < length T" "T ! i = pre @ x # post" "distinct (map it_key (concat T))"
  shows "table_map (T[i := pre @ post]) = (table_map T)(it_key x := None)"
proof -
  let ?T = "T[i := pre @ post]"
  have n: "it_key x \<notin> it_key ` set (concat ?T)"
    using assms(3) unfolding concat_update [OF assms(1)] concat_split [OF assms(1)] assms(2) by auto
  have "T = ?T[i := pre @ x # post]" using assms(1,2) by (metis list_update_id list_update_overwrite)
  then have "table_map T = (table_map ?T)(it_key x \<mapsto> it_data x)"
    using table_map_insert [of i ?T pre post x] assms(1) n by simp
  moreover have "table_map ?T (it_key x) = None"
    using n by (auto simp: table_map_def map_of_eq_None_iff image_image)
  ultimately show ?thesis by (auto simp: fun_eq_iff)
qed

text \<open>What is left to show when a bucket is replaced.\<close>

lemma hash_ok_update:
  assumes ok: "hash_ok h qn T" and i: "i < HASH_NUM_BUCKETS"
    and len: "length (hash_buckets h') = length (hash_buckets h)"
    and other: "\<And>j. j \<noteq> i \<Longrightarrow> hash_buckets h' ! j = hash_buckets h ! j"
    and ents: "\<And>x. x \<in> set (concat (take i T)) \<union> set (concat (drop (Suc i) T)) \<Longrightarrow>
      hash_ents h' (it_addr x) = hash_ents h (it_addr x)"
    and b: "seg (hash_ents h') (hash_buckets h' ! i) b None" "sorted (map it_hash b)" "\<And>x. x \<in> set b \<Longrightarrow> item_ok qn i x"
    and d: "distinct (map it_addr (concat (T[i := b])))" "distinct (map it_key (concat (T[i := b])))"
    and dom: "dom (hash_ents h') = it_addr ` set (concat (T[i := b]))"
  shows "hash_ok h' qn (T[i := b])"
proof -
  note iT = hash_okD(2) [OF ok i]
  have "seg (hash_ents h') (hash_buckets h' ! j) (T[i := b] ! j) None \<and> sorted (map it_hash (T[i := b] ! j)) \<and>
      (\<forall>x \<in> set (T[i := b] ! j). item_ok qn j x)" if j: "j < HASH_NUM_BUCKETS" for j
  proof (cases "j = i")
    case True
    then show ?thesis using b iT by simp
  next
    case False
    have "x \<in> set (concat (take i T)) \<union> set (concat (drop (Suc i) T))" if x: "x \<in> set (T ! j)" for x
    proof (cases "j < i")
      case True
      then have "T ! j \<in> set (take i T)" using iT by (auto simp: in_set_conv_nth intro!: exI [of _ j])
      then show ?thesis using x by auto
    next
      case False
      then have "T ! j \<in> set (drop (Suc i) T)" using \<open>j \<noteq> i\<close> hash_okD(2) [OF ok j]
        by (auto simp: in_set_conv_nth intro!: exI [of _ "j - Suc i"])
      then show ?thesis using x by auto
    qed
    then have "seg (hash_ents h') (hash_buckets h ! j) (T ! j) None"
      using hash_okD(3) [OF ok j] ents by (subst seg_cong [of _ _ "hash_ents h"]) auto
    then show ?thesis using False hash_okD [OF ok j] other by simp
  qed
  then show ?thesis using ok len d dom by (simp add: hash_ok_def)
qed

lemma distinct_bucket:
  assumes "i < length T" "distinct (map f (concat T))"
  shows "distinct (map f (T ! i))" "\<And>x y. x \<in> set (T ! i) \<Longrightarrow> y \<in> set (concat (take i T)) \<union> set (concat (drop (Suc i) T)) \<Longrightarrow> f y \<noteq> f x"
proof -
  note d = assms(2) [unfolded concat_split [OF assms(1)]]
  then show "distinct (map f (T ! i))" by simp
  show "f y \<noteq> f x" if "x \<in> set (T ! i)" "y \<in> set (concat (take i T)) \<union> set (concat (drop (Suc i) T))" for x y
    using that(2)
  proof
    assume "y \<in> set (concat (take i T))"
    then show ?thesis using distinct_map_ne [OF d, of y x] that(1) by simp
  next
    assume "y \<in> set (concat (drop (Suc i) T))"
    then show ?thesis using distinct_map_ne [of f "concat (take i T) @ T ! i" "concat (drop (Suc i) T)" x y] d that(1)
      by (simp del: set_concat)
  qed
qed

subsection \<open>The search\<close>

definition before :: "byte list list \<Rightarrow> 64 word \<Rightarrow> hitem \<Rightarrow> bool" where
  "before k rh x \<longleftrightarrow> it_hash x \<le> rh \<and> \<not> (it_hash x = rh \<and> it_key x = k)"

definition found :: "byte list list \<Rightarrow> 64 word \<Rightarrow> hitem list \<Rightarrow> hitem option" where
  "found k rh post = (case post of [] \<Rightarrow> None | x # _ \<Rightarrow> if it_hash x = rh \<and> it_key x = k then Some x else None)"

lemma rhnicmp_key:
  "list_all lab_len ks \<Longrightarrow> list_all lab_len xs \<Longrightarrow> rhnicmp (enc_name ks @ r) (enc_name xs) = Some (map lower ks = map lower xs)"
  using rhnicmp_enc [of ks xs r "[]"] by (simp add: lower_def [abs_def])

lemma hash_find_spec:
  assumes ok: "hash_ok h qn T" and i: "i < HASH_NUM_BUCKETS" and ks: "list_all lab_len ks" and T: "T ! i = pre @ post"
  shows "\<exists>mid post' e. post = mid @ post' \<and> list_all (before (map lower ks) rh) mid \<and>
    (case post' of [] \<Rightarrow> True | x # _ \<Rightarrow> \<not> before (map lower ks) rh x) \<and>
    hash_find h qn (enc_name ks @ r) rh (slot_of i pre) = Some (e, slot_of i (pre @ mid)) \<and>
    (case found (map lower ks) rh post' of None \<Rightarrow> e = None | Some x \<Rightarrow> hash_ents h (it_addr x) = e \<and> e \<noteq> None)"
  using T
proof (induction post arbitrary: pre)
  case Nil
  have "slot_read h (slot_of i pre) = Some None"
    using slot_read_seg [of i h pre "[]"] hash_okD [OF ok i] Nil by (simp add: first_def)
  then show ?case by (subst hash_find.simps) (simp add: found_def)
next
  case (Cons x post)
  have sr: "slot_read h (slot_of i pre) = Some (Some (it_addr x))"
    using slot_read_seg [of i h pre "x # post"] hash_okD [OF ok i] Cons.prems by (simp add: first_def)
  have ix: "item_ok qn i x" using hash_okD(5) [OF ok i] Cons.prems by simp
  obtain n where e: "hash_ents h (it_addr x) = Some \<lparr>he_next = n, he_rhash = it_hash x, he_data = it_data x\<rparr>"
    using hash_okD(3) [OF ok i] unfolding Cons.prems by (auto simp: seg_app)
  have nm: "qn (it_data x) = Some (enc_name (it_name x))"
    "rhnicmp (enc_name ks @ r) (enc_name (it_name x)) = Some (map lower ks = it_key x)"
    using ix rhnicmp_key [OF ks] by (simp_all add: item_ok_def)
  show ?case
  proof (cases "before (map lower ks) rh x")
    case True
    have T': "T ! i = (pre @ [x]) @ post" using Cons.prems by simp
    have "hash_find h qn (enc_name ks @ r) rh (slot_of i pre) = hash_find h qn (enc_name ks @ r) rh (slot_of i (pre @ [x]))"
      using sr e nm True by (subst hash_find.simps) (auto simp: before_def)
    moreover obtain mid post' e' where "post = mid @ post'" "list_all (before (map lower ks) rh) mid"
      "case post' of [] \<Rightarrow> True | x # _ \<Rightarrow> \<not> before (map lower ks) rh x"
      "hash_find h qn (enc_name ks @ r) rh (slot_of i (pre @ [x])) = Some (e', slot_of i ((pre @ [x]) @ mid))"
      "case found (map lower ks) rh post' of None \<Rightarrow> e' = None | Some x \<Rightarrow> hash_ents h (it_addr x) = e' \<and> e' \<noteq> None"
      using Cons.IH [OF T'] by blast
    ultimately show ?thesis using True
      by (intro exI [of _ "x # mid"] exI [of _ post'] exI [of _ e']) simp
  next
    case False
    have "hash_find h qn (enc_name ks @ r) rh (slot_of i pre) =
        Some (if it_hash x = rh \<and> it_key x = map lower ks then hash_ents h (it_addr x) else None, slot_of i pre)"
      using sr e nm False by (subst hash_find.simps) (auto simp: before_def)
    then show ?thesis using False e
      by (intro exI [of _ "[]"] exI [of _ "x # post"]) (auto simp: found_def)
  qed
qed

text \<open>In a table that is in order the search finds what is there.\<close>

lemma found_table:
  assumes ok: "hash_ok h qn T" and h: "name_hash ks = (i, rh)" and T: "T ! i = pre @ post"
    and pre: "list_all (before (map lower ks) rh) pre"
    and post: "case post of [] \<Rightarrow> True | x # _ \<Rightarrow> \<not> before (map lower ks) rh x"
  shows "table_map T (map lower ks) = map_option it_data (found (map lower ks) rh post)"
proof -
  have i: "i < HASH_NUM_BUCKETS" using name_hash_bound [of ks] h by simp
  note iT = hash_okD(2) [OF ok i]
  have d: "distinct (map it_key (concat T))" using ok by (simp add: hash_ok_def)
  then have dm: "distinct (map fst (map (\<lambda>x. (it_key x, it_data x)) (concat T)))" by (simp add: comp_def)
  show ?thesis
  proof (cases "found (map lower ks) rh post")
    case (Some x)
    then obtain post' where p: "post = x # post'" "it_key x = map lower ks" by (auto simp: found_def split: list.splits if_splits)
    then have "x \<in> set (concat T)" using T iT set_bucket by fastforce
    then have "table_map T (map lower ks) = Some (it_data x)"
      unfolding table_map_def using p(2) by (intro map_of_is_SomeI dm) (force simp del: set_concat)
    then show ?thesis using Some by simp
  next
    case None
    have nk: "it_key y \<noteq> map lower ks" if "y \<in> set (concat T)" for y
    proof
      assume k: "it_key y = map lower ks"
      obtain j where j: "j < length T" "y \<in> set (T ! j)" using \<open>y \<in> set (concat T)\<close> unfolding set_bucket by blast
      have j': "j < HASH_NUM_BUCKETS" using j(1) ok by (simp add: hash_ok_def)
      have "name_hash (it_name y) = (i, rh)" using name_hash_lower [OF k] h by simp
      then have ji: "j = i" "it_hash y = rh" using hash_okD(5) [OF ok j' j(2)] by (simp_all add: item_ok_def)
      have "y \<notin> set pre" using pre k ji by (auto simp: list_all_iff before_def)
      then have yp: "y \<in> set post" using j ji T by simp
      then obtain z post' where z: "post = z # post'" "\<not> before (map lower ks) rh z" using post by (cases post) auto
      have "it_hash z \<le> it_hash y" using hash_okD(4) [OF ok i] yp unfolding T z(1) by (auto simp: sorted_append)
      then have "it_hash z = rh" "it_key z = map lower ks" using z(2) ji(2) by (auto simp: before_def)
      then show False using None z(1) by (simp add: found_def)
    qed
    have "map lower ks \<notin> it_key ` set (concat T)"
    proof
      assume "map lower ks \<in> it_key ` set (concat T)"
      then obtain y where "map lower ks = it_key y" "y \<in> set (concat T)" by (rule imageE)
      then show False using nk [of y] by simp
    qed
    then have "table_map T (map lower ks) = None" unfolding dom_table_map [symmetric] by blast
    then show ?thesis using None by simp
  qed
qed

text \<open>The result of a lookup: the map, and a place where the order allows the name.\<close>

lemma find_bucket:
  assumes ok: "hash_ok h qn T" and ks: "list_all lab_len ks" and h: "name_hash ks = (i, rh)"
  shows "\<exists>pre post e. T ! i = pre @ post \<and> list_all (before (map lower ks) rh) pre \<and>
    (case post of [] \<Rightarrow> True | x # _ \<Rightarrow> \<not> before (map lower ks) rh x) \<and>
    hash_find h qn (enc_name ks @ r) rh (Bucket i) = Some (e, slot_of i pre) \<and>
    (case found (map lower ks) rh post of None \<Rightarrow> e = None | Some x \<Rightarrow> hash_ents h (it_addr x) = e \<and> e \<noteq> None) \<and>
    table_map T (map lower ks) = map_option it_data (found (map lower ks) rh post)"
proof -
  have i: "i < HASH_NUM_BUCKETS" using name_hash_bound [of ks] h by simp
  obtain pre post e where p: "T ! i = pre @ post" "list_all (before (map lower ks) rh) pre"
    "case post of [] \<Rightarrow> True | x # _ \<Rightarrow> \<not> before (map lower ks) rh x"
    "hash_find h qn (enc_name ks @ r) rh (slot_of i []) = Some (e, slot_of i ([] @ pre))"
    "case found (map lower ks) rh post of None \<Rightarrow> e = None | Some x \<Rightarrow> hash_ents h (it_addr x) = e \<and> e \<noteq> None"
    using hash_find_spec [OF ok i ks, of "[]" "T ! i" rh r] by auto
  with found_table [OF ok h p(1-3)] show ?thesis by (intro exI [of _ pre] exI [of _ post] exI [of _ e]) simp
qed

subsection \<open>Insertion and removal\<close>

lemma distinct_insert:
  assumes "i < length T" "T ! i = pre @ post"
  shows "distinct (map f (concat (T[i := pre @ x # post]))) \<longleftrightarrow> f x \<notin> f ` set (concat T) \<and> distinct (map f (concat T))"
    "set (concat (T[i := pre @ x # post])) = insert x (set (concat T))"
  unfolding concat_update [OF assms(1)] concat_split [OF assms(1)] assms(2) by (auto simp del: set_concat)

lemma hash_insert:
  assumes ok: "hash_ok h qn T" and i: "i < HASH_NUM_BUCKETS" and T: "T ! i = pre @ post"
    and x: "item_ok qn i x" "\<And>y. y \<in> set pre \<Longrightarrow> it_hash y \<le> it_hash x" "\<And>y. y \<in> set post \<Longrightarrow> it_hash x \<le> it_hash y"
      "it_key x \<notin> it_key ` set (concat T)" "hash_ents h (it_addr x) = None"
  shows "\<exists>h'. add_dns_hash h (Some (it_addr x)) (it_data x) (slot_of i pre, it_hash x) = Some (h', True) \<and>
    hash_ok h' qn (T[i := pre @ x # post])"
proof -
  note b = hash_okD [OF ok i]
  let ?e = "\<lparr>he_next = first post, he_rhash = it_hash x, he_data = it_data x\<rparr>"
  let ?h = "h\<lparr>hash_ents := (hash_ents h)(it_addr x \<mapsto> ?e)\<rparr>"
  have fresh: "it_addr x \<notin> it_addr ` set (concat T)" using ok x(5) unfolding hash_ok_def by blast
  have ne: "it_addr y \<noteq> it_addr x" if "y \<in> set (concat T)" for y using fresh that by (metis imageI)
  have inT: "y \<in> set (concat T)" if "y \<in> set (pre @ post)" for y using that T b(2) set_bucket by metis
  have d: "distinct (map it_addr (concat T))" "distinct (map it_key (concat T))" using ok by (simp_all add: hash_ok_def)
  have seg: "seg (hash_ents ?h) (hash_buckets ?h ! i) (pre @ post) None"
    using b(3) ne [OF inT] unfolding T by (subst seg_cong [of _ _ "hash_ents h"]) auto
  have dp: "distinct (map it_addr (pre @ post))" using distinct_bucket(1) [OF b(2) d(1)] T by simp
  obtain h' where h': "slot_write ?h (slot_of i pre) (Some (it_addr x)) = Some h'"
    "length (hash_buckets h') = length (hash_buckets ?h)" "\<And>j. j \<noteq> i \<Longrightarrow> hash_buckets h' ! j = hash_buckets ?h ! j"
    "\<And>a. a \<notin> it_addr ` set pre \<Longrightarrow> hash_ents h' a = hash_ents ?h a" "dom (hash_ents h') = dom (hash_ents ?h)"
    "seg (hash_ents h') (hash_buckets h' ! i) pre (Some (it_addr x))"
    using slot_write_seg [of i ?h pre post "Some (it_addr x)", OF _ seg dp] b(1) by auto
  have sr: "slot_read h (slot_of i pre) = Some (first post)" using slot_read_seg [OF b(1)] b(3) T by simp
  have "it_addr x \<notin> it_addr ` set pre" using ne [OF inT] by (force simp del: set_concat)
  then have xe: "hash_ents h' (it_addr x) = Some ?e" using h'(4) by simp
  have tail: "seg (hash_ents h') (first post) post None"
  proof -
    obtain q where "seg (hash_ents ?h) q post None" using seg by (auto simp: seg_app)
    then have "seg (hash_ents ?h) (first post) post None" using seg_first by metis
    then show ?thesis
    proof (rule seg_mono)
      fix y assume that: "y \<in> set post"
      have "it_addr y \<notin> it_addr ` set pre" using dp that distinct_map_ne [of it_addr pre post] by auto
      then show "hash_ents h' (it_addr y) = hash_ents ?h (it_addr y)" by (rule h'(4))
    qed
  qed
  have "hash_ok h' qn (T[i := pre @ x # post])"
  proof (rule hash_ok_update [OF ok i])
    show "length (hash_buckets h') = length (hash_buckets h)" using h'(2) by simp
    show "hash_buckets h' ! j = hash_buckets h ! j" if "j \<noteq> i" for j using h'(3) [OF that] by simp
    show "hash_ents h' (it_addr y) = hash_ents h (it_addr y)"
      if y: "y \<in> set (concat (take i T)) \<union> set (concat (drop (Suc i) T))" for y
    proof -
      have "it_addr y \<notin> it_addr ` set pre" using distinct_bucket(2) [OF b(2) d(1) _ y] T by auto
      moreover have "y \<in> set (concat T)" using y unfolding concat_split [OF b(2)] by auto
      ultimately show ?thesis using h'(4) ne by simp
    qed
    show "seg (hash_ents h') (hash_buckets h' ! i) (pre @ x # post) None"
      using h'(6) xe tail by (auto simp: seg_app)
    show "sorted (map it_hash (pre @ x # post))" using b(4) x(2,3) unfolding T by (auto simp: sorted_append)
    show "item_ok qn i y" if "y \<in> set (pre @ x # post)" for y using that x(1) b(5) T by auto
    show "distinct (map it_addr (concat (T[i := pre @ x # post])))"
      unfolding distinct_insert(1) [OF b(2) T] using d fresh by blast
    show "distinct (map it_key (concat (T[i := pre @ x # post])))"
      unfolding distinct_insert(1) [OF b(2) T, of it_key] using d x(4) by blast
    show "dom (hash_ents h') = it_addr ` set (concat (T[i := pre @ x # post]))"
      using ok h'(5) unfolding distinct_insert(2) [OF b(2) T] hash_ok_def by simp
  qed
  then show ?thesis using sr h'(1) by (intro exI [of _ h']) (simp add: add_dns_hash_def)
qed

text \<open>Removal of the entry behind a slot, as in \<open>del_dns_hash_ent\<close>, \<open>del_dns_hash\<close> and \<open>free_dns_hash_selected\<close>.\<close>

lemma hash_remove:
  assumes ok: "hash_ok h qn T" and i: "i < HASH_NUM_BUCKETS" and T: "T ! i = pre @ x # post"
  shows "\<exists>e h1 h2. slot_read h (slot_of i pre) = Some (Some (it_addr x)) \<and> hash_ents h (it_addr x) = Some e \<and>
    he_data e = it_data x \<and> slot_write h (slot_of i pre) (he_next e) = Some h1 \<and> ent_free h1 (it_addr x) = Some h2 \<and>
    hash_ok h2 qn (T[i := pre @ post])"
proof -
  note b = hash_okD [OF ok i]
  have d: "distinct (map it_addr (concat T))" "distinct (map it_key (concat T))" using ok by (simp_all add: hash_ok_def)
  have dp: "distinct (map it_addr (pre @ x # post))" using distinct_bucket(1) [OF b(2) d(1)] T by simp
  have sr: "slot_read h (slot_of i pre) = Some (Some (it_addr x))"
    using slot_read_seg [OF b(1), of pre "x # post"] b(3) T by (simp add: first_def)
  obtain n where n: "hash_ents h (it_addr x) = Some \<lparr>he_next = n, he_rhash = it_hash x, he_data = it_data x\<rparr>"
    "seg (hash_ents h) n post None"
    using b(3) unfolding T by (auto simp: seg_app)
  obtain h1 where h1: "slot_write h (slot_of i pre) n = Some h1"
    "length (hash_buckets h1) = length (hash_buckets h)" "\<And>j. j \<noteq> i \<Longrightarrow> hash_buckets h1 ! j = hash_buckets h ! j"
    "\<And>a. a \<notin> it_addr ` set pre \<Longrightarrow> hash_ents h1 a = hash_ents h a" "dom (hash_ents h1) = dom (hash_ents h)"
    "seg (hash_ents h1) (hash_buckets h1 ! i) pre n"
    using slot_write_seg [of i h pre "x # post" n, OF b(1) _ dp] b(3) T by auto
  define h2 where "h2 = h1\<lparr>hash_ents := (hash_ents h1)(it_addr x := None)\<rparr>"
  have xpre: "it_addr x \<notin> it_addr ` set pre" "it_addr x \<notin> it_addr ` set post" using dp by auto
  have fr: "ent_free h1 (it_addr x) = Some h2" using h1(4) [OF xpre(1)] n(1) by (simp add: ent_free_def h2_def)
  have keep: "hash_ents h2 a = hash_ents h a" if "a \<notin> it_addr ` set pre" "a \<noteq> it_addr x" for a
    using h1(4) that by (simp add: h2_def)
  let ?T = "T[i := pre @ post]"
  have T2: "?T ! i = pre @ post" "i < length ?T" "?T[i := pre @ x # post] = T"
    using b(2) T by (simp, simp, metis list_update_id list_update_overwrite)
  note di = distinct_insert [OF T2(2,1), where x = x, unfolded T2(3)]
  have "hash_ok h2 qn ?T"
  proof (rule hash_ok_update [OF ok i])
    show "length (hash_buckets h2) = length (hash_buckets h)" using h1(2) by (simp add: h2_def)
    show "hash_buckets h2 ! j = hash_buckets h ! j" if "j \<noteq> i" for j using h1(3) [OF that] by (simp add: h2_def)
    show "hash_ents h2 (it_addr y) = hash_ents h (it_addr y)"
      if y: "y \<in> set (concat (take i T)) \<union> set (concat (drop (Suc i) T))" for y
      using distinct_bucket(2) [OF b(2) d(1) _ y] T by (intro keep) auto
    have "seg (hash_ents h2) (hash_buckets h1 ! i) pre n"
    proof (rule seg_mono [OF h1(6)])
      fix y assume "y \<in> set pre"
      then have "it_addr y \<noteq> it_addr x" using xpre(1) by (metis imageI)
      then show "hash_ents h2 (it_addr y) = hash_ents h1 (it_addr y)" by (simp add: h2_def)
    qed
    moreover have "seg (hash_ents h2) n post None"
    proof (subst seg_cong [of _ _ "hash_ents h"])
      fix y assume y: "y \<in> set post"
      have "it_addr y \<notin> it_addr ` set pre" using y by (intro distinct_map_notin [OF dp]) simp
      moreover have "it_addr y \<noteq> it_addr x" using y xpre(2) by (metis imageI)
      ultimately show "hash_ents h2 (it_addr y) = hash_ents h (it_addr y)" by (rule keep)
    qed (rule n(2))
    moreover have "hash_buckets h2 = hash_buckets h1" by (simp add: h2_def)
    ultimately show "seg (hash_ents h2) (hash_buckets h2 ! i) (pre @ post) None" by (auto simp: seg_app)
    show "sorted (map it_hash (pre @ post))" using b(4) unfolding T by (simp add: sorted_append)
    show "item_ok qn i y" if "y \<in> set (pre @ post)" for y using that b(5) T by auto
    show "distinct (map it_addr (concat ?T))" using di(1) d(1) by blast
    show "distinct (map it_key (concat ?T))" using di(1) d(2) by blast
    have "dom (hash_ents h2) = it_addr ` set (concat T) - {it_addr x}"
      using h1(5) ok by (simp add: h2_def hash_ok_def del: set_concat)
    also have "\<dots> = it_addr ` set (concat ?T)" unfolding di(2) using di(1) [of it_addr] d(1) by auto
    finally show "dom (hash_ents h2) = it_addr ` set (concat ?T)" .
  qed
  then show ?thesis using sr n(1) h1(1) fr by auto
qed

subsection \<open>The operations on the map\<close>

definition hash_rep :: "(nat \<Rightarrow> byte list option) \<Rightarrow> dns_table \<Rightarrow> (byte list list \<Rightarrow> nat option) \<Rightarrow> bool" where
  "hash_rep qn h m \<longleftrightarrow> (\<exists>T. hash_ok h qn T \<and> m = table_map T)"

lemma hash_repI: "hash_ok h qn T \<Longrightarrow> table_map T = m \<Longrightarrow> hash_rep qn h m"
  by (auto simp: hash_rep_def)

lemma mk_rep: "hash_rep qn mk_dns_hash Map.empty"
proof -
  let ?T = "replicate HASH_NUM_BUCKETS [] :: hitem list list"
  have "concat ?T = []" by simp
  then have "hash_ok mk_dns_hash qn ?T" "table_map ?T = Map.empty"
    by (simp_all add: hash_ok_def mk_dns_hash_def table_map_def)
  then show ?thesis unfolding hash_rep_def by metis
qed

lemma lookup_find:
  assumes ok: "hash_ok h qn T" and ks: "list_all lab_len ks"
  shows "\<exists>i rh pre post e. name_hash ks = (i, rh) \<and> i < HASH_NUM_BUCKETS \<and> T ! i = pre @ post \<and>
    list_all (before (map lower ks) rh) pre \<and> (case post of [] \<Rightarrow> True | x # _ \<Rightarrow> \<not> before (map lower ks) rh x) \<and>
    dns_hash (enc_name ks @ r) = Some (i, rh) \<and> hash_find h qn (enc_name ks @ r) rh (Bucket i) = Some (e, slot_of i pre) \<and>
    (case found (map lower ks) rh post of None \<Rightarrow> e = None | Some x \<Rightarrow> hash_ents h (it_addr x) = e \<and> e \<noteq> None) \<and>
    table_map T (map lower ks) = map_option it_data (found (map lower ks) rh post)"
proof -
  obtain i rh where h: "name_hash ks = (i, rh)" by (cases "name_hash ks")
  have i: "i < HASH_NUM_BUCKETS" using name_hash_bound [of ks] h by simp
  have dh: "dns_hash (enc_name ks @ r) = Some (i, rh)" using dns_hash_enc [OF ks] h by simp
  obtain pre post e where "T ! i = pre @ post" "list_all (before (map lower ks) rh) pre"
    "case post of [] \<Rightarrow> True | x # _ \<Rightarrow> \<not> before (map lower ks) rh x"
    "hash_find h qn (enc_name ks @ r) rh (Bucket i) = Some (e, slot_of i pre)"
    "case found (map lower ks) rh post of None \<Rightarrow> e = None | Some x \<Rightarrow> hash_ents h (it_addr x) = e \<and> e \<noteq> None"
    "table_map T (map lower ks) = map_option it_data (found (map lower ks) rh post)"
    using find_bucket [OF ok ks h, of r] by blast
  then show ?thesis using h i dh
    by (intro exI [of _ i] exI [of _ rh] exI [of _ pre] exI [of _ post] exI [of _ e]) simp
qed

text \<open>The data field of the entry that the search returns.\<close>

lemma find_data:
  assumes ok: "hash_ok h qn T" and i: "i < HASH_NUM_BUCKETS" and T: "T ! i = pre @ post"
    and e: "case found k rh post of None \<Rightarrow> e = None | Some x \<Rightarrow> hash_ents h (it_addr x) = e \<and> e \<noteq> None"
  shows "map_option he_data e = map_option it_data (found k rh post)"
proof (cases "found k rh post")
  case (Some x)
  then obtain post' where "post = x # post'" by (auto simp: found_def split: list.splits if_splits)
  then obtain n where "hash_ents h (it_addr x) = Some \<lparr>he_next = n, he_rhash = it_hash x, he_data = it_data x\<rparr>"
    using hash_okD(3) [OF ok i] unfolding T by (auto simp: seg_app)
  then show ?thesis using e Some by auto
qed (use e in simp)

lemma dns_lookup_ok:
  assumes ok: "hash_ok h qn T" and ks: "list_all lab_len ks"
  shows "\<exists>i rh pre post. name_hash ks = (i, rh) \<and> i < HASH_NUM_BUCKETS \<and> T ! i = pre @ post \<and>
    list_all (before (map lower ks) rh) pre \<and> (case post of [] \<Rightarrow> True | x # _ \<Rightarrow> \<not> before (map lower ks) rh x) \<and>
    dns_lookup h qn (enc_name ks @ r) = Some (table_map T (map lower ks), (slot_of i pre, rh)) \<and>
    table_map T (map lower ks) = map_option it_data (found (map lower ks) rh post)"
proof -
  obtain i rh pre post e where f: "name_hash ks = (i, rh)" "i < HASH_NUM_BUCKETS" "T ! i = pre @ post"
    "list_all (before (map lower ks) rh) pre" "case post of [] \<Rightarrow> True | x # _ \<Rightarrow> \<not> before (map lower ks) rh x"
    "dns_hash (enc_name ks @ r) = Some (i, rh)" "hash_find h qn (enc_name ks @ r) rh (Bucket i) = Some (e, slot_of i pre)"
    "case found (map lower ks) rh post of None \<Rightarrow> e = None | Some x \<Rightarrow> hash_ents h (it_addr x) = e \<and> e \<noteq> None"
    "table_map T (map lower ks) = map_option it_data (found (map lower ks) rh post)"
    using lookup_find [OF ok ks, of r] by blast
  have "dns_lookup h qn (enc_name ks @ r) = Some (table_map T (map lower ks), (slot_of i pre, rh))"
    using f(6,7) find_data [OF ok f(2,3,8)] f(9) by (simp add: dns_lookup_def)
  then show ?thesis using f by (intro exI [of _ i] exI [of _ rh] exI [of _ pre] exI [of _ post]) simp
qed

lemma add_dns_hash_ok:
  assumes ok: "hash_ok h qn T" and ks: "list_all lab_len ks"
    and l: "dns_lookup h qn (enc_name ks @ r) = Some (None, loc)"
    and a: "hash_ents h a = None" and q: "qn d = Some (enc_name xs)" "map lower xs = map lower ks" "list_all lab_len xs"
  shows "\<exists>h' T'. add_dns_hash h (Some a) d loc = Some (h', True) \<and> hash_ok h' qn T' \<and>
    table_map T' = (table_map T)(map lower ks \<mapsto> d)"
proof -
  obtain i rh pre post where f: "name_hash ks = (i, rh)" "i < HASH_NUM_BUCKETS" "T ! i = pre @ post"
    "list_all (before (map lower ks) rh) pre" "case post of [] \<Rightarrow> True | x # _ \<Rightarrow> \<not> before (map lower ks) rh x"
    "dns_lookup h qn (enc_name ks @ r) = Some (table_map T (map lower ks), (slot_of i pre, rh))"
    "table_map T (map lower ks) = map_option it_data (found (map lower ks) rh post)"
    using dns_lookup_ok [OF ok ks, of r] by blast
  have none: "table_map T (map lower ks) = None" "loc = (slot_of i pre, rh)" using f(6) l by simp_all
  define x where "x = \<lparr>it_addr = a, it_hash = rh, it_data = d, it_name = xs\<rparr>"
  have x: "item_ok qn i x" "it_key x = map lower ks" "it_hash x = rh" "it_addr x = a" "it_data x = d"
    using q f(1) name_hash_lower [OF q(2)] by (simp_all add: item_ok_def x_def)
  have less: "rh \<le> it_hash y" if y: "y \<in> set post" for y
  proof (cases post)
    case (Cons z post')
    have "found (map lower ks) rh post = None" using f(7) none(1) by simp
    then have "rh < it_hash z" using f(5) Cons by (auto simp: found_def before_def not_le split: if_splits)
    moreover have "it_hash z \<le> it_hash y" using hash_okD(4) [OF ok f(2)] y unfolding f(3) Cons by (auto simp: sorted_append)
    ultimately show ?thesis by simp
  qed (use y in simp)
  have k: "it_key x \<notin> it_key ` set (concat T)" using none(1) x(2) unfolding dom_table_map [symmetric] by (simp add: domIff)
  have "\<exists>h'. add_dns_hash h (Some (it_addr x)) (it_data x) (slot_of i pre, it_hash x) = Some (h', True) \<and>
      hash_ok h' qn (T[i := pre @ x # post])"
    using f(4) less x a k by (intro hash_insert [OF ok f(2,3)]) (simp_all add: list_all_iff before_def)
  then show ?thesis using table_map_insert [OF hash_okD(2) [OF ok f(2)] f(3) k] x none(2) by auto
qed

lemma del_dns_hash_ok:
  assumes ok: "hash_ok h qn T" and ks: "list_all lab_len ks"
  shows "\<exists>h' T'. del_dns_hash h qn (enc_name ks @ r) = Some (h', table_map T (map lower ks)) \<and> hash_ok h' qn T' \<and>
    table_map T' = (table_map T)(map lower ks := None)"
proof -
  obtain i rh pre post e where f: "name_hash ks = (i, rh)" "i < HASH_NUM_BUCKETS" "T ! i = pre @ post"
    "list_all (before (map lower ks) rh) pre" "case post of [] \<Rightarrow> True | x # _ \<Rightarrow> \<not> before (map lower ks) rh x"
    "dns_hash (enc_name ks @ r) = Some (i, rh)" "hash_find h qn (enc_name ks @ r) rh (Bucket i) = Some (e, slot_of i pre)"
    "case found (map lower ks) rh post of None \<Rightarrow> e = None | Some x \<Rightarrow> hash_ents h (it_addr x) = e \<and> e \<noteq> None"
    "table_map T (map lower ks) = map_option it_data (found (map lower ks) rh post)"
    using lookup_find [OF ok ks, of r] by blast
  show ?thesis
  proof (cases "found (map lower ks) rh post")
    case None
    then have "table_map T (map lower ks) = None" "e = None" using f(8,9) by simp_all
    then show ?thesis using f(6,7) ok by (intro exI [of _ h] exI [of _ T]) (auto simp: del_dns_hash_def fun_upd_idem)
  next
    case (Some x)
    then obtain post' where p: "post = x # post'" "it_key x = map lower ks" by (auto simp: found_def split: list.splits if_splits)
    have T: "T ! i = pre @ x # post'" using f(3) p by simp
    obtain e' h1 h2 where r: "slot_read h (slot_of i pre) = Some (Some (it_addr x))" "hash_ents h (it_addr x) = Some e'"
      "he_data e' = it_data x" "slot_write h (slot_of i pre) (he_next e') = Some h1" "ent_free h1 (it_addr x) = Some h2"
      "hash_ok h2 qn (T[i := pre @ post'])" using hash_remove [OF ok f(2) T] by blast
    have "e = Some e'" using f(8) Some r(2) by simp
    then have "del_dns_hash h qn (enc_name ks @ r) = Some (h2, table_map T (map lower ks))"
      using f(6,7,9) r(1,3-5) Some by (simp add: del_dns_hash_def)
    moreover have "table_map (T[i := pre @ post']) = (table_map T)(map lower ks := None)"
      using table_map_remove [OF hash_okD(2) [OF ok f(2)] T] ok p(2) by (simp add: hash_ok_def)
    ultimately show ?thesis using r(6) by blast
  qed
qed

text \<open>Deleting at the location of a successful lookup.\<close>

lemma del_dns_hash_ent_ok:
  assumes ok: "hash_ok h qn T" and ks: "list_all lab_len ks"
    and l: "dns_lookup h qn (enc_name ks @ r) = Some (Some d, loc)"
  shows "\<exists>h' T'. del_dns_hash_ent h loc = Some (h', d) \<and> hash_ok h' qn T' \<and> table_map T' = (table_map T)(map lower ks := None)"
proof -
  obtain i rh pre post where f: "name_hash ks = (i, rh)" "i < HASH_NUM_BUCKETS" "T ! i = pre @ post"
    "list_all (before (map lower ks) rh) pre" "case post of [] \<Rightarrow> True | x # _ \<Rightarrow> \<not> before (map lower ks) rh x"
    "dns_lookup h qn (enc_name ks @ r) = Some (table_map T (map lower ks), (slot_of i pre, rh))"
    "table_map T (map lower ks) = map_option it_data (found (map lower ks) rh post)"
    using dns_lookup_ok [OF ok ks, of r] by blast
  have e: "map_option it_data (found (map lower ks) rh post) = Some d" "loc = (slot_of i pre, rh)" using f(6,7) l by simp_all
  then obtain x where x: "found (map lower ks) rh post = Some x" "it_data x = d" by auto
  then obtain post' where p: "post = x # post'" "it_key x = map lower ks" by (auto simp: found_def split: list.splits if_splits)
  have T: "T ! i = pre @ x # post'" using f(3) p by simp
  obtain e' h1 h2 where r: "slot_read h (slot_of i pre) = Some (Some (it_addr x))" "hash_ents h (it_addr x) = Some e'"
    "he_data e' = it_data x" "slot_write h (slot_of i pre) (he_next e') = Some h1" "ent_free h1 (it_addr x) = Some h2"
    "hash_ok h2 qn (T[i := pre @ post'])" using hash_remove [OF ok f(2) T] by blast
  have "table_map (T[i := pre @ post']) = (table_map T)(map lower ks := None)"
    using table_map_remove [OF hash_okD(2) [OF ok f(2)] T] ok p(2) by (simp add: hash_ok_def)
  then show ?thesis using r x(2) e(2) by (intro exI [of _ h2] exI [of _ "T[i := pre @ post']"]) (simp add: del_dns_hash_ent_def)
qed

text \<open>The table keeps the contract: keys are the labels of a name.\<close>

definition hash_lookup :: "(nat \<Rightarrow> byte list option) \<Rightarrow> dns_table \<Rightarrow> byte list list \<Rightarrow> (nat option \<times> dns_hash_loc) option" where
  "hash_lookup qn h ks = dns_lookup h qn (enc_name ks)"

definition hash_del :: "(nat \<Rightarrow> byte list option) \<Rightarrow> dns_table \<Rightarrow> byte list list \<Rightarrow> (dns_table \<times> nat option) option" where
  "hash_del qn h ks = del_dns_hash h qn (enc_name ks)"

definition cent_named :: "(nat \<Rightarrow> byte list option) \<Rightarrow> nat \<Rightarrow> byte list list \<Rightarrow> bool" where
  "cent_named qn d ks \<longleftrightarrow> (\<exists>xs. qn d = Some (enc_name xs) \<and> list_all lab_len xs \<and> map lower xs = map lower ks)"

interpretation ht: name_table "hash_rep qn" "map lower" "list_all lab_len" "cent_named qn" "\<lambda>h a. hash_ents h a = None"
  "hash_lookup qn" add_dns_hash del_dns_hash_ent "hash_del qn" for qn
proof unfold_locales
  fix h m ks l x a assume r: "hash_rep qn h m"
  then obtain T where T: "hash_ok h qn T" "m = table_map T" by (auto simp: hash_rep_def)
  assume ks: "list_all lab_len ks"
  show "\<exists>l. hash_lookup qn h ks = Some (m (map lower ks), l)"
    using dns_lookup_ok [OF T(1) ks, of "[]"] T(2) by (auto simp: hash_lookup_def)
  show "\<exists>h'. hash_del qn h ks = Some (h', m (map lower ks)) \<and> hash_rep qn h' (m(map lower ks := None))"
    using del_dns_hash_ok [OF T(1) ks, of "[]"] T(2) by (fastforce simp: hash_del_def intro: hash_repI)
  show "\<exists>h'. del_dns_hash_ent h l = Some (h', x) \<and> hash_rep qn h' (m(map lower ks := None))"
    if "hash_lookup qn h ks = Some (Some x, l)"
    using del_dns_hash_ent_ok [OF T(1) ks, of "[]" x l] that T(2) unfolding hash_lookup_def by (fastforce intro: hash_repI)
  show "\<exists>h'. add_dns_hash h (Some a) x l = Some (h', True) \<and> hash_rep qn h' (m(map lower ks \<mapsto> x))"
    if lk: "hash_lookup qn h ks = Some (None, l)" and nm: "cent_named qn x ks" and fr: "hash_ents h a = None"
  proof -
    obtain xs where "qn x = Some (enc_name xs)" "list_all lab_len xs" "map lower xs = map lower ks"
      using nm by (auto simp: cent_named_def)
    then show ?thesis
      using add_dns_hash_ok [OF T(1) ks, of "[]" l a x xs] lk fr T(2) unfolding hash_lookup_def by (fastforce intro: hash_repI)
  qed
qed (simp add: add_dns_hash_def)

end
