(* ===== verification/DnsHashFree.thy ===== *)
theory DnsHashFree
  imports DnsHashProperties
begin

text \<open>
  Emptying and iterating over the table of names: what \<open>free_dns_hash\<close> and \<open>free_dns_hash_selected\<close> delete,
  and that \<open>fetch_first\<close> and \<open>fetch_next\<close> visit every entry once although the entry returned may be deleted.
\<close>

subsection \<open>The include/exclude list\<close>

text \<open>A rule for a domain: it matches the domain and, unless it is exact, the names below it.\<close>

definition rule_matches :: "byte list list \<Rightarrow> bool \<Rightarrow> byte list list \<Rightarrow> bool" where
  "rule_matches ds exact xs \<longleftrightarrow> (\<exists>p. map lower xs = p @ map lower ds \<and> (exact \<longrightarrow> p = []))"

fun selects :: "byte list list \<Rightarrow> (byte list list \<times> bool \<times> bool) list \<Rightarrow> bool" where
  "selects xs [] \<longleftrightarrow> False"
| "selects xs ((ds, exact, included) # rs) \<longleftrightarrow> (if rule_matches ds exact xs then included else selects xs rs)"

definition rule_of :: "slist \<Rightarrow> byte list list \<times> bool \<times> bool \<Rightarrow> bool" where
  "rule_of sl r \<longleftrightarrow> sl_domain sl = enc_name (fst r) \<and> name_ok (fst r) \<and> sl_exact sl = fst (snd r) \<and> sl_included sl = snd (snd r)"

lemma lpos_0: "list_all label_ok xs \<Longrightarrow> t \<le> length xs \<Longrightarrow> lpos xs t = 0 \<longleftrightarrow> t = 0"
  by (cases xs; cases t) (auto simp: lpos_def)

lemma key_lengths: "map lower xs = p @ map lower ds \<Longrightarrow> length xs = length p + length ds"
  by (metis length_append length_map)

lemma common_tail_full: "common_tail xs ds = length ds \<longleftrightarrow> (\<exists>p. map lower xs = p @ map lower ds)"
proof
  assume "common_tail xs ds = length ds"
  then have "drop (length xs - length ds) (map lower xs) = map lower ds" "length ds \<le> length xs"
    using common_tail_iff [of "length ds" xs ds] by simp_all
  then show "\<exists>p. map lower xs = p @ map lower ds" by (metis append_take_drop_id)
next
  assume "\<exists>p. map lower xs = p @ map lower ds"
  then obtain p where p: "map lower xs = p @ map lower ds" by blast
  then have "length xs = length p + length ds" by (rule key_lengths)
  then have "length ds \<le> common_tail xs ds" using p by (simp add: common_tail_iff)
  then show "common_tail xs ds = length ds" using common_tail_le(2) [of xs ds] by simp
qed

lemma slist_selects_ok:
  assumes "name_ok xs" "list_all2 rule_of sla rs"
  shows "slist_selects (enc_name xs) sla = Some (selects xs rs)"
  using assms(2)
proof (induction sla rs rule: list_all2_induct)
  case (Cons sl sla r rs)
  obtain ds exact incl where r: "r = (ds, exact, incl)" by (cases r)
  have sl: "sl_domain sl = enc_name ds" "name_ok ds" "sl_exact sl = exact" "sl_included sl = incl"
    using Cons.hyps(1) r by (simp_all add: rule_of_def)
  let ?n = "common_tail xs ds"
  have m: "domain_match (enc_name xs) (sl_domain sl) = Some (?n, lpos xs (length xs - ?n), lpos ds (length ds - ?n))"
    using domain_match_enc [of xs ds "[]" "[]"] name_ok_lab_len name_ok_count [OF assms(1)] name_ok_count [OF sl(2)]
      sl(1,2) assms(1) by (simp add: lpos_def)
  have l: "lpos xs (length xs - ?n) = 0 \<longleftrightarrow> ?n = length xs" "lpos ds (length ds - ?n) = 0 \<longleftrightarrow> ?n = length ds"
    using lpos_0 [of xs "length xs - ?n"] lpos_0 [of ds "length ds - ?n"] name_ok_label_ok [OF assms(1)]
      name_ok_label_ok [OF sl(2)] common_tail_le [of xs ds] by auto
  have "(?n = length ds \<and> (\<not> exact \<or> ?n = length xs)) \<longleftrightarrow> rule_matches ds exact xs"
  proof
    assume a: "?n = length ds \<and> (\<not> exact \<or> ?n = length xs)"
    then obtain p where p: "map lower xs = p @ map lower ds" using common_tail_full by blast
    then have "length xs = length p + length ds" by (rule key_lengths)
    then show "rule_matches ds exact xs" using a p by (auto simp: rule_matches_def)
  next
    assume "rule_matches ds exact xs"
    then obtain p where p: "map lower xs = p @ map lower ds" "exact \<longrightarrow> p = []" by (auto simp: rule_matches_def)
    from key_lengths [OF p(1)] have "length xs = length p + length ds" .
    then show "?n = length ds \<and> (\<not> exact \<or> ?n = length xs)" using p common_tail_full [of xs ds] by auto
  qed
  then show ?case using m l sl(3,4) Cons.IH r by auto
qed simp

subsection \<open>Deleting the selected entries of a bucket\<close>

lemma free_selected_ok:
  assumes "hash_ok h qn T" "i < HASH_NUM_BUCKETS" "T ! i = pre @ post" "list_all2 rule_of sla rs"
    "\<And>x. x \<in> set post \<Longrightarrow> name_ok (it_name x)"
  shows "\<exists>h'. free_selected h qn (slot_of i pre) sla dels =
      Some (h', dels @ map it_data (filter (\<lambda>x. selects (it_name x) rs) post)) \<and>
    hash_ok h' qn (T[i := pre @ filter (\<lambda>x. \<not> selects (it_name x) rs) post])"
  using assms
proof (induction post arbitrary: h T pre dels)
  case Nil
  note b = hash_okD [OF Nil.prems(1,2)]
  have "slot_read h (slot_of i pre) = Some None"
    using slot_read_seg [OF b(1), of pre "[]"] b(3) Nil.prems(3) by (simp add: first_def)
  moreover have "T[i := pre] = T" using b(2) Nil.prems(3) by (metis append_Nil2 list_update_id)
  ultimately show ?case using Nil.prems(1) by (subst free_selected.simps) simp
next
  case (Cons x post)
  note b = hash_okD [OF Cons.prems(1,2)]
  obtain e h1 h2 where r: "slot_read h (slot_of i pre) = Some (Some (it_addr x))" "hash_ents h (it_addr x) = Some e"
    "he_data e = it_data x" "slot_write h (slot_of i pre) (he_next e) = Some h1" "ent_free h1 (it_addr x) = Some h2"
    "hash_ok h2 qn (T[i := pre @ post])" using hash_remove [OF Cons.prems(1-3)] by blast
  have nm: "qn (it_data x) = Some (enc_name (it_name x))"
    using b(5) [of x] Cons.prems(3) by (simp add: item_ok_def)
  have sel: "slist_selects (enc_name (it_name x)) sla = Some (selects (it_name x) rs)"
    using Cons.prems(4,5) by (intro slist_selects_ok) simp_all
  show ?case
  proof (cases "selects (it_name x) rs")
    case True
    have "free_selected h qn (slot_of i pre) sla dels = free_selected h2 qn (slot_of i pre) sla (dels @ [it_data x])"
      using r nm sel True by (subst free_selected.simps) simp
    then show ?thesis
      using Cons.IH [OF r(6) Cons.prems(2) _ Cons.prems(4), of pre "dels @ [it_data x]"] b(2) Cons.prems(5) True by simp
  next
    case False
    have "free_selected h qn (slot_of i pre) sla dels = free_selected h qn (slot_of i (pre @ [x])) sla dels"
      using r nm sel False by (subst free_selected.simps) simp
    then show ?thesis
      using Cons.IH [OF Cons.prems(1,2) _ Cons.prems(4), of "pre @ [x]" dels] Cons.prems(3,5) False by simp
  qed
qed

subsection \<open>Emptying buckets\<close>

lemma free_chain_ok:
  assumes "seg (hash_ents h) p xs None" "distinct (map it_addr xs)"
  shows "free_chain h p dels =
    Some (h\<lparr>hash_ents := \<lambda>a. if a \<in> it_addr ` set xs then None else hash_ents h a\<rparr>, dels @ map it_data xs)"
  using assms
proof (induction xs arbitrary: h p dels)
  case Nil
  then show ?case by (subst free_chain.simps) simp
next
  case (Cons x xs)
  obtain n where n: "p = Some (it_addr x)" "seg (hash_ents h) n xs None"
    "hash_ents h (it_addr x) = Some \<lparr>he_next = n, he_rhash = it_hash x, he_data = it_data x\<rparr>" using Cons.prems(1) by auto
  let ?h = "h\<lparr>hash_ents := (hash_ents h)(it_addr x := None)\<rparr>"
  have "seg (hash_ents ?h) n xs None"
  proof (rule seg_mono [OF n(2)])
    fix y assume "y \<in> set xs"
    then have "it_addr y \<noteq> it_addr x" using distinct_map_ne [of it_addr "[x]" xs x y] Cons.prems(2) by simp
    then show "hash_ents ?h (it_addr y) = hash_ents h (it_addr y)" by simp
  qed
  from Cons.IH [OF this, of "dels @ [it_data x]"] Cons.prems(2) have
    "free_chain ?h n (dels @ [it_data x]) = Some (?h\<lparr>hash_ents := \<lambda>a. if a \<in> it_addr ` set xs then None else hash_ents ?h a\<rparr>,
       (dels @ [it_data x]) @ map it_data xs)" by simp
  moreover have "(\<lambda>a. if a \<in> it_addr ` set xs then None else hash_ents ?h a) =
      (\<lambda>a. if a \<in> it_addr ` set (x # xs) then None else hash_ents h a)" by (auto simp: fun_eq_iff)
  ultimately show ?case using n(1,3) by (subst free_chain.simps) (simp add: ent_free_def)
qed

lemma distinct_skip: "distinct (map f (as @ b @ cs)) \<Longrightarrow> distinct (map f (as @ [] @ cs))"
  by (simp add: Int_Un_distrib)

lemma free_bucket_ok:
  assumes ok: "hash_ok h qn T" and i: "i < HASH_NUM_BUCKETS"
  shows "\<exists>h'. free_dns_hash_bucket h i dels = Some (h', dels @ map it_data (T ! i)) \<and> hash_ok h' qn (T[i := []])"
proof -
  note b = hash_okD [OF ok i]
  have d: "distinct (map it_addr (concat T))" "distinct (map it_key (concat T))" using ok by (simp_all add: hash_ok_def)
  let ?h1 = "h\<lparr>hash_buckets := (hash_buckets h)[i := None]\<rparr>"
  let ?h = "?h1\<lparr>hash_ents := \<lambda>a. if a \<in> it_addr ` set (T ! i) then None else hash_ents h a\<rparr>"
  have "free_chain ?h1 (hash_buckets h ! i) dels = Some (?h, dels @ map it_data (T ! i))"
    using free_chain_ok [of ?h1 _ "T ! i"] b(3) distinct_bucket(1) [OF b(2) d(1)] by (simp cong: if_cong)
  then have "free_dns_hash_bucket h i dels = Some (?h, dels @ map it_data (T ! i))"
    using b(1) by (simp add: free_dns_hash_bucket_def slot_read_def slot_write_def)
  moreover have "hash_ok ?h qn (T[i := []])"
  proof (rule hash_ok_update [OF ok i])
    show "hash_ents ?h (it_addr y) = hash_ents h (it_addr y)"
      if "y \<in> set (concat (take i T)) \<union> set (concat (drop (Suc i) T))" for y
    proof -
      have "it_addr y \<notin> it_addr ` set (T ! i)" using distinct_bucket(2) [OF b(2) d(1) _ that] by fastforce
      then show ?thesis by simp
    qed
    show "distinct (map it_addr (concat (T[i := []])))" "distinct (map it_key (concat (T[i := []])))"
      unfolding concat_update [OF b(2)]
      by (rule distinct_skip, rule d [unfolded concat_split [OF b(2)]])+
    have "dom (hash_ents ?h) = dom (hash_ents h) - it_addr ` set (T ! i)" by (auto split: if_splits)
    also have "dom (hash_ents h) = it_addr ` set (concat T)" using ok by (simp add: hash_ok_def)
    also have "it_addr ` set (concat T) - it_addr ` set (T ! i) = it_addr ` set (concat (T[i := []]))"
      using distinct_bucket(2) [OF b(2) d(1)] unfolding concat_update [OF b(2)] concat_split [OF b(2)] by fastforce
    finally show "dom (hash_ents ?h) = it_addr ` set (concat (T[i := []]))" .
  qed (use b(1) in simp_all)
  ultimately show ?thesis by blast
qed

lemma free_from_ok:
  assumes "hash_ok h qn T" "i + n = HASH_NUM_BUCKETS" "concat (take i T) = []"
  shows "\<exists>h' T'. free_dns_hash_from h i n dels = Some (h', dels @ map it_data (concat (drop i T))) \<and> hash_ok h' qn T' \<and> concat T' = []"
  using assms
proof (induction n arbitrary: h i dels T)
  case 0
  have "length T = i" using 0 by (simp add: hash_ok_def)
  then show ?case using 0 by (intro exI [of _ h] exI [of _ T]) simp
next
  case (Suc n)
  have i: "i < HASH_NUM_BUCKETS" using Suc.prems(2) by simp
  note iT = hash_okD(2) [OF Suc.prems(1) i]
  obtain h1 where h1: "free_dns_hash_bucket h i dels = Some (h1, dels @ map it_data (T ! i))" "hash_ok h1 qn (T[i := []])"
    using free_bucket_ok [OF Suc.prems(1) i] by blast
  have "concat (take (i + 1) (T[i := []])) = []"
    using Suc.prems(3) iT by (simp add: take_Suc_conv_app_nth)
  from Suc.IH [OF h1(2) _ this, of "dels @ map it_data (T ! i)"] Suc.prems(2) obtain h' T' where
    "free_dns_hash_from h1 (i + 1) n (dels @ map it_data (T ! i)) =
       Some (h', (dels @ map it_data (T ! i)) @ map it_data (concat (drop (i + 1) (T[i := []]))))" "hash_ok h' qn T'" "concat T' = []"
    by auto
  moreover have "map it_data (concat (drop i T)) = map it_data (T ! i) @ map it_data (concat (drop (i + 1) (T[i := []])))"
    using iT by (simp flip: Cons_nth_drop_Suc)
  ultimately show ?case using h1(1) by (intro exI [of _ h'] exI [of _ T']) simp
qed

lemma free_dns_hash_ok:
  assumes "hash_ok h qn T"
  shows "\<exists>h'. free_dns_hash h = Some (h', map it_data (concat T)) \<and> hash_rep qn h' Map.empty"
proof -
  obtain h' T' where f: "free_dns_hash_from h 0 HASH_NUM_BUCKETS [] = Some (h', [] @ map it_data (concat (drop 0 T)))"
    "hash_ok h' qn T'" "concat T' = []"
    using free_from_ok [OF assms, of 0 HASH_NUM_BUCKETS "[]"] by auto
  have "table_map T' = Map.empty" unfolding table_map_def f(3) by simp
  then show ?thesis using f(1) hash_repI [OF f(2)] by (auto simp: free_dns_hash_def)
qed

subsection \<open>Iteration\<close>

text \<open>The entries of the table from the bucket \<open>i\<close> on.\<close>

definition from_bucket :: "nat \<Rightarrow> hitem list list \<Rightarrow> hitem list" where
  "from_bucket i T = concat (drop i T)"

lemma from_bucket_step: "i < length T \<Longrightarrow> from_bucket i T = T ! i @ from_bucket (i + 1) T"
  by (simp add: from_bucket_def flip: Cons_nth_drop_Suc)

text \<open>What a call returns: the next entry, the position behind it, and where it is.\<close>

definition fetched :: "dns_table \<Rightarrow> hitem list list \<Rightarrow> hitem list \<Rightarrow> (nat \<times> dns_hash_pos) option \<Rightarrow> bool" where
  "fetched h T rest res \<longleftrightarrow> (case res of
     None \<Rightarrow> rest = []
   | Some (d, b, p) \<Rightarrow> \<exists>pre x post. b < HASH_NUM_BUCKETS \<and> T ! b = pre @ x # post \<and> d = it_data x \<and> p = first post \<and>
       rest = x # post @ from_bucket (b + 1) T)"

lemma item_ent:
  assumes ok: "hash_ok h qn T" and i: "i < HASH_NUM_BUCKETS" and T: "T ! i = pre @ x # post"
  shows "hash_ents h (it_addr x) = Some \<lparr>he_next = first post, he_rhash = it_hash x, he_data = it_data x\<rparr>"
proof -
  obtain n where "hash_ents h (it_addr x) = Some \<lparr>he_next = n, he_rhash = it_hash x, he_data = it_data x\<rparr>"
    "seg (hash_ents h) n post None"
    using hash_okD(3) [OF ok i] unfolding T by (auto simp: seg_app)
  then show ?thesis using seg_first by blast
qed

lemma fetch_bucket_ok:
  assumes "hash_ok h qn T" "i + n = HASH_NUM_BUCKETS"
  shows "\<exists>res. fetch_bucket h i n = Some res \<and> fetched h T (from_bucket i T) res"
  using assms(2)
proof (induction n arbitrary: i)
  case 0
  then have "length T \<le> i" using assms(1) by (simp add: hash_ok_def)
  then show ?case by (simp add: fetched_def from_bucket_def)
next
  case (Suc n)
  have i: "i < HASH_NUM_BUCKETS" using Suc.prems by simp
  note b = hash_okD [OF assms(1) i]
  have sr: "slot_read h (Bucket i) = Some (first (T ! i))"
    using slot_read_seg [OF b(1), of "[]" "T ! i"] b(3) by simp
  show ?case
  proof (cases "T ! i")
    case Nil
    then show ?thesis using Suc.IH [of "i + 1"] Suc.prems sr from_bucket_step [OF b(2)] by (simp add: first_def)
  next
    case (Cons x post)
    have "hash_ents h (it_addr x) = Some \<lparr>he_next = first post, he_rhash = it_hash x, he_data = it_data x\<rparr>"
      using item_ent [OF assms(1) i, of "[]"] Cons by simp
    then show ?thesis using sr Cons i from_bucket_step [OF b(2)]
      by (auto simp: first_def fetched_def intro!: exI [of _ "[]"])
  qed
qed

lemma fetch_next_ok:
  assumes ok: "hash_ok h qn T" and b: "b < HASH_NUM_BUCKETS" and T: "T ! b = pre @ post"
  shows "\<exists>res. fetch_next h (b, first post) = Some res \<and> fetched h T (post @ from_bucket (b + 1) T) res"
proof (cases post)
  case Nil
  then show ?thesis using fetch_bucket_ok [OF ok, of "b + 1" "HASH_NUM_BUCKETS - (b + 1)"] b
    by (simp add: fetch_next_def first_def)
next
  case (Cons x post')
  have "hash_ents h (it_addr x) = Some \<lparr>he_next = first post', he_rhash = it_hash x, he_data = it_data x\<rparr>"
    using item_ent [OF ok b] T Cons by simp
  then show ?thesis using Cons b T by (auto simp: fetch_next_def first_def fetched_def)
qed

text \<open>
  A loop over the table whose body deletes the entries with property \<open>P\<close> by their name, after they were
  returned; the list of the entries seen.
\<close>

partial_function (option) hash_iter ::
  "(nat \<Rightarrow> byte list option) \<Rightarrow> (nat \<Rightarrow> bool) \<Rightarrow> dns_table \<Rightarrow> (nat \<times> dns_hash_pos) option \<Rightarrow> nat list \<Rightarrow> (dns_table \<times> nat list) option" where
  "hash_iter qn P h cur seen = (case cur of
     None \<Rightarrow> Some (h, seen)
   | Some (d, pos) \<Rightarrow> do {
       h \<leftarrow> (if P d then do { name \<leftarrow> qn d; map_option fst (del_dns_hash h qn name) } else Some h);
       cur \<leftarrow> fetch_next h pos;
       hash_iter qn P h cur (seen @ [d])
     })"

lemma split_unique:
  assumes "distinct (map f (pre @ x # post))" "pre @ x # post = pre' @ y # post'" "f x = f y"
  shows "pre = pre' \<and> x = y \<and> post = post'"
proof -
  have "x \<in> set (pre @ x # post)" "y \<in> set (pre @ x # post)" by (simp, simp add: assms(2))
  then have xy: "x = y" using assms(1,3) unfolding distinct_map inj_on_def by blast
  have "x \<notin> set pre" "x \<notin> set post" using assms(1) unfolding distinct_map by auto
  then show ?thesis using assms(2) xy append_Cons_eq_iff by fastforce
qed

text \<open>Deleting an entry by its name deletes that entry.\<close>

lemma del_item:
  assumes ok: "hash_ok h qn T" and b: "b < HASH_NUM_BUCKETS" and T: "T ! b = pre @ x # post"
  shows "\<exists>h'. del_dns_hash h qn (enc_name (it_name x)) = Some (h', Some (it_data x)) \<and> hash_ok h' qn (T[b := pre @ post])"
proof -
  note bd = hash_okD [OF ok b]
  have "distinct (map it_key (concat T))" using ok by (simp add: hash_ok_def)
  from distinct_bucket(1) [OF bd(2) this] have d: "distinct (map it_key (T ! b))" .
  have ix: "list_all lab_len (it_name x)" "name_hash (it_name x) = (b, it_hash x)"
    using bd(5) T by (simp_all add: item_ok_def)
  obtain i rh pre' post' e where f: "name_hash (it_name x) = (i, rh)" "T ! i = pre' @ post'"
    "list_all (before (it_key x) rh) pre'" "case post' of [] \<Rightarrow> True | y # _ \<Rightarrow> \<not> before (it_key x) rh y"
    "dns_hash (enc_name (it_name x)) = Some (i, rh)" "hash_find h qn (enc_name (it_name x)) rh (Bucket i) = Some (e, slot_of i pre')"
    "case found (it_key x) rh post' of None \<Rightarrow> e = None | Some y \<Rightarrow> hash_ents h (it_addr y) = e \<and> e \<noteq> None"
    "table_map T (it_key x) = map_option it_data (found (it_key x) rh post')"
    using lookup_find [OF ok ix(1), of "[]"] by auto
  have ib: "i = b" "rh = it_hash x" using f(1) ix(2) by simp_all
  have "x \<in> set (concat T)" unfolding set_bucket using bd(2) T by (intro exI [of _ b]) simp
  then have "it_key x \<in> dom (table_map T)" unfolding dom_table_map by (rule imageI)
  then obtain y where y: "found (it_key x) rh post' = Some y" using f(8) by (auto simp: domIff)
  then obtain post2 where p: "post' = y # post2" "it_key y = it_key x" by (auto simp: found_def split: list.splits if_splits)
  have tb: "pre @ x # post = pre' @ y # post2" using T f(2) unfolding p(1) ib(1) by (rule trans [OF sym])
  have eq: "pre = pre' \<and> x = y \<and> post = post2"
    by (rule split_unique [OF d [unfolded T] tb p(2) [symmetric]])
  obtain e' h1 h2 where r: "slot_read h (slot_of b pre) = Some (Some (it_addr x))" "hash_ents h (it_addr x) = Some e'"
    "he_data e' = it_data x" "slot_write h (slot_of b pre) (he_next e') = Some h1" "ent_free h1 (it_addr x) = Some h2"
    "hash_ok h2 qn (T[b := pre @ post])" using hash_remove [OF ok b T] by blast
  have "e = Some e'" using f(7) y r(2) eq by simp
  then have "del_dns_hash h qn (enc_name (it_name x)) = Some (h2, Some (it_data x))"
    using f(5,6) r(1,3-5) eq ib by (simp add: del_dns_hash_def)
  then show ?thesis using r(6) by blast
qed

lemma hash_iter_ok:
  assumes "hash_ok h qn T" "fetched h T rest cur"
  shows "\<exists>h' T'. hash_iter qn P h cur seen = Some (h', seen @ map it_data rest) \<and> hash_ok h' qn T' \<and>
    table_map T' = (\<lambda>k. if k \<in> it_key ` {x \<in> set rest. P (it_data x)} then None else table_map T k)"
  using assms
proof (induction rest arbitrary: h T cur seen)
  case Nil
  then have "cur = None" by (auto simp: fetched_def split: option.splits)
  then show ?case using Nil.prems(1) by (intro exI [of _ h] exI [of _ T]) (simp add: hash_iter.simps)
next
  case (Cons x rest)
  obtain b pre post where c: "cur = Some (it_data x, b, first post)" "b < HASH_NUM_BUCKETS" "T ! b = pre @ x # post"
    "rest = post @ from_bucket (b + 1) T"
    using Cons.prems(2) by (auto simp: fetched_def split: option.splits)
  note bd = hash_okD [OF Cons.prems(1) c(2)]
  have d: "distinct (map it_key (concat T))" using Cons.prems(1) by (simp add: hash_ok_def)
  have ix: "item_ok qn b x" using bd(5) c(3) by simp
  show ?case
  proof (cases "P (it_data x)")
    case False
    obtain cur' where f: "fetch_next h (b, first post) = Some cur'" "fetched h T rest cur'"
      using fetch_next_ok [OF Cons.prems(1) c(2), of "pre @ [x]" post] c(3,4) by auto
    have "hash_iter qn P h cur seen = hash_iter qn P h cur' (seen @ [it_data x])"
      using c(1) f(1) False by (subst hash_iter.simps) simp
    moreover have "{y \<in> set (x # rest). P (it_data y)} = {y \<in> set rest. P (it_data y)}" using False by auto
    ultimately show ?thesis using Cons.IH [OF Cons.prems(1) f(2), of "seen @ [it_data x]"] by simp
  next
    case True
    let ?T = "T[b := pre @ post]"
    have nm: "qn (it_data x) = Some (enc_name (it_name x))" "list_all lab_len (it_name x)"
      "name_hash (it_name x) = (b, it_hash x)" using ix by (simp_all add: item_ok_def)
    obtain h1 where h1: "del_dns_hash h qn (enc_name (it_name x)) = Some (h1, Some (it_data x))" "hash_ok h1 qn ?T"
      using del_item [OF Cons.prems(1) c(2,3)] by blast
    have "?T ! b = pre @ post" "from_bucket (b + 1) ?T = from_bucket (b + 1) T" using bd(2) by (simp_all add: from_bucket_def)
    then obtain cur' where f: "fetch_next h1 (b, first post) = Some cur'" "fetched h1 ?T rest cur'"
      using fetch_next_ok [OF h1(2) c(2), of pre post] c(4) by auto
    have "hash_iter qn P h cur seen = hash_iter qn P h1 cur' (seen @ [it_data x])"
      using c(1) f(1) True h1(1) nm(1) by (subst hash_iter.simps) simp
    then show ?thesis
      using Cons.IH [OF h1(2) f(2), of "seen @ [it_data x]"] table_map_remove [OF bd(2) c(3) d] True
      by (fastforce simp: fun_eq_iff)
  qed
qed

subsection \<open>Properties\<close>

lemma hash_rep_finite: "hash_rep qn h m \<Longrightarrow> finite (dom (hash_ents h))"
  by (auto simp: hash_rep_def hash_ok_def)

lemma least_fresh: "finite (dom m) \<Longrightarrow> m (LEAST a. m a = None) = (None :: 'a option)" for m :: "nat \<Rightarrow> 'a option"
  by (rule LeastI_ex) (metis domIff ex_new_if_finite infinite_UNIV_nat)

text \<open>C22: the hash table refines a map from names to entries. Any sequence of lookups, insertions at the
  location of a lookup that found nothing, deletions at the location of one that did, and deletions by name,
  with names in any mixture of cases and with memory running out at any point, gives the results of the same
  sequence on a map of case-insensitive names; no access leaves the allocated entries and none is lost.\<close>

theorem hash_refines_map:
  assumes "list_all (op_ok (list_all lab_len) (cent_named qn)) ops"
    "\<forall>h. finite (dom (hash_ents h)) \<longrightarrow> hash_ents h (malloc h) = None"
  shows "\<exists>h m rs. table_run (hash_lookup qn) add_dns_hash del_dns_hash_ent (hash_del qn) malloc mk_dns_hash ops = Some (h, rs) \<and>
    map_run (map lower) Map.empty ops = (m, rs) \<and> hash_rep qn h m"
  using ht.run_rep [OF mk_rep assms(1)] assms(2) hash_rep_finite by blast

text \<open>Two entries whose names differ in case only.\<close>

definition qn_ex :: "nat \<Rightarrow> byte list option" where
  "qn_ex d = (if d = 7 then Some (enc_name [[0x61], [0x62]]) else if d = 8 then Some (enc_name [[0x63]]) else None)"

definition ops_ex :: "(byte list list, nat) table_op list" where
  "ops_ex = [Put [[0x61], [0x42]] 7 True, Put [[0x63]] 8 True, Find [[0x41], [0x62]], Take [[0x63]], Drop [[0x43]]]"

lemma ops_ex_ok: "list_all (op_ok (list_all lab_len) (cent_named qn_ex)) ops_ex"
  by (auto simp: ops_ex_def op_ok_def cent_named_def qn_ex_def lower_def c_tolower_def lab_len_def
      intro: exI [of _ "[[0x61], [0x62]]"] exI [of _ "[[0x63]]"])

theorem hash_refines_map_witness:
  "\<exists>h m. table_run (hash_lookup qn_ex) add_dns_hash del_dns_hash_ent (hash_del qn_ex) (\<lambda>h. LEAST a. hash_ents h a = None)
     mk_dns_hash ops_ex = Some (h, [None, None, Some 7, Some 8, None]) \<and> hash_rep qn_ex h m \<and> m [[0x61], [0x62]] = Some 7"
proof -
  have "\<forall>h. finite (dom (hash_ents h)) \<longrightarrow> hash_ents h ((\<lambda>h. LEAST a. hash_ents h a = None) h) = None"
    using least_fresh by blast
  from hash_refines_map [OF ops_ex_ok this] obtain h m rs where
    t: "table_run (hash_lookup qn_ex) add_dns_hash del_dns_hash_ent (hash_del qn_ex) (\<lambda>h. LEAST a. hash_ents h a = None)
      mk_dns_hash ops_ex = Some (h, rs)" "map_run (map lower) Map.empty ops_ex = (m, rs)" "hash_rep qn_ex h m" by blast
  have "rs = [None, None, Some 7, Some 8, None] \<and> m [[0x61], [0x62]] = Some 7"
    using t(2) by (auto simp: ops_ex_def map_step_def lower_def c_tolower_def)
  then show ?thesis using t by blast
qed

text \<open>Emptying the table deletes exactly what it should. \<open>free_dns_hash\<close> passes every entry to
  \<open>del_cent\<close> once and leaves the empty table; for a bucket, \<open>free_dns_hash_selected\<close> deletes once each the
  entries whose name is matched first by an including rule, where a rule matches its domain and, unless it is
  exact, the names below it, and keeps all others in place.\<close>

theorem hash_free_exact:
  assumes "hash_ok h qn T" "i < HASH_NUM_BUCKETS" "list_all2 rule_of sla rs" "\<forall>x \<in> set (T ! i). name_ok (it_name x)"
  shows "(\<exists>h'. free_dns_hash h = Some (h', map it_data (concat T)) \<and> hash_rep qn h' Map.empty) \<and>
    (\<exists>h'. free_dns_hash_selected h qn i sla = Some (h', map it_data (filter (\<lambda>x. selects (it_name x) rs) (T ! i))) \<and>
       hash_ok h' qn (T[i := filter (\<lambda>x. \<not> selects (it_name x) rs) (T ! i)]))"
  using free_dns_hash_ok [OF assms(1)] free_selected_ok [OF assms(1,2) _ assms(3), of "[]" "T ! i" "[]"] assms(4)
  by (simp add: free_dns_hash_selected_def)

text \<open>A table with one entry.\<close>

definition item_ex :: hitem where
  "item_ex = \<lparr>it_addr = 3, it_hash = snd (name_hash [[0x61], [0x62]]), it_data = 7, it_name = [[0x61], [0x62]]\<rparr>"

lemma table_ex:
  "\<exists>h i T. i < HASH_NUM_BUCKETS \<and> T ! i = [item_ex] \<and> concat T = [item_ex] \<and> hash_ok h qn_ex T"
proof -
  let ?T = "replicate HASH_NUM_BUCKETS [] :: hitem list list" and ?i = "fst (name_hash [[0x61], [0x62]])"
  have ce: "concat ?T = []" by simp
  then have ok: "hash_ok mk_dns_hash qn_ex ?T" by (simp add: hash_ok_def mk_dns_hash_def)
  have i: "?i < HASH_NUM_BUCKETS" by (rule name_hash_bound)
  have "\<exists>h'. add_dns_hash mk_dns_hash (Some (it_addr item_ex)) (it_data item_ex) (slot_of ?i [], it_hash item_ex) = Some (h', True) \<and>
      hash_ok h' qn_ex (?T[?i := [] @ item_ex # []])"
    using i by (intro hash_insert [OF ok i])
      (simp_all add: item_ok_def item_ex_def qn_ex_def lab_len_def ce mk_dns_hash_def del: concat_replicate_trivial)
  then obtain h where h: "hash_ok h qn_ex (?T[?i := [item_ex]])" by auto
  have "concat (?T[?i := [item_ex]]) = [item_ex]" using i by (simp add: concat_update)
  then show ?thesis using h i by (intro exI [of _ h] exI [of _ ?i] exI [of _ "?T[?i := [item_ex]]"]) simp
qed

theorem hash_free_exact_witness:
  "\<exists>h i. (\<exists>h'. free_dns_hash h = Some (h', [7])) \<and>
     (\<exists>h'. free_dns_hash_selected h qn_ex i [\<lparr>sl_domain = enc_name [[0x42]], sl_exact = False, sl_included = True\<rparr>] = Some (h', [7]))"
proof -
  let ?sla = "[\<lparr>sl_domain = enc_name [[0x42]], sl_exact = False, sl_included = True\<rparr>]"
  obtain h i T where t: "i < HASH_NUM_BUCKETS" "T ! i = [item_ex]" "concat T = [item_ex]" "hash_ok h qn_ex T"
    using table_ex by blast
  have r: "list_all2 rule_of ?sla [([[0x42]], False, True)]"
    by (simp add: rule_of_def name_ok_def label_ok_def enc_name_def DNSNAMEBUFSIZE_def)
  have n: "\<forall>x \<in> set (T ! i). name_ok (it_name x)"
    using t(2) by (simp add: item_ex_def name_ok_def label_ok_def enc_name_def DNSNAMEBUFSIZE_def)
  have s: "selects (it_name item_ex) [([[0x42]], False, True)]"
    by (auto simp: item_ex_def rule_matches_def lower_def c_tolower_def)
  have d: "it_data item_ex = 7" by (simp add: item_ex_def)
  have f: "map it_data (filter (\<lambda>x. selects (it_name x) [([[0x42]], False, True)]) (T ! i)) = [7]"
    "map it_data (concat T) = [7]" unfolding t(2,3) using s d by (simp_all del: selects.simps)
  show ?thesis using hash_free_exact [OF t(4,1) r n] unfolding f by blast
qed

text \<open>C23: a loop over the table with \<open>fetch_first\<close> and \<open>fetch_next\<close> ends and sees every entry exactly once,
  in the order of the buckets, although it deletes any of the entries after they were returned; in the end the
  table lacks exactly the deleted names.\<close>

theorem hash_iteration_complete:
  assumes "hash_ok h qn T"
  shows "\<exists>cur h' T'. fetch_first h = Some cur \<and> hash_iter qn P h cur [] = Some (h', map it_data (concat T)) \<and>
    hash_ok h' qn T' \<and>
    table_map T' = (\<lambda>k. if k \<in> it_key ` {x \<in> set (concat T). P (it_data x)} then None else table_map T k)"
proof -
  obtain cur where c: "fetch_first h = Some cur" "fetched h T (from_bucket 0 T) cur"
    using fetch_bucket_ok [OF assms, of 0 HASH_NUM_BUCKETS] by (auto simp: fetch_first_def)
  from hash_iter_ok [OF assms c(2), of P "[]"] c(1) show ?thesis unfolding from_bucket_def drop_0 append_Nil by blast
qed

theorem hash_iteration_complete_witness:
  "\<exists>h cur h'. fetch_first h = Some cur \<and> hash_iter qn_ex (\<lambda>d. d = 7) h cur [] = Some (h', [7]) \<and> hash_rep qn_ex h' Map.empty"
proof -
  obtain h i T where t: "i < HASH_NUM_BUCKETS" "T ! i = [item_ex]" "concat T = [item_ex]" "hash_ok h qn_ex T"
    using table_ex by blast
  obtain cur h' T' where r: "fetch_first h = Some cur" "hash_iter qn_ex (\<lambda>d. d = 7) h cur [] = Some (h', map it_data (concat T))"
    "hash_ok h' qn_ex T'"
    "table_map T' = (\<lambda>k. if k \<in> it_key ` {x \<in> set (concat T). it_data x = 7} then None else table_map T k)"
    using hash_iteration_complete [OF t(4), of "\<lambda>d. d = 7"] by blast
  have s: "{x \<in> set (concat T). it_data x = 7} = {item_ex}" unfolding t(3) by (auto simp: item_ex_def)
  have "table_map T = [it_key item_ex \<mapsto> it_data item_ex]" unfolding table_map_def t(3) by simp
  then have "table_map T' = Map.empty" unfolding r(4) s by auto
  then have "hash_rep qn_ex h' Map.empty" using hash_repI [OF r(3)] by simp
  moreover have "map it_data (concat T) = [7]" unfolding t(3) by (simp add: item_ex_def)
  ultimately show ?thesis using r(1,2) by auto
qed

end
