(* ===== verification/CacheLock.thy ===== *)
theory CacheLock
  imports Main
begin

text \<open>
  The readers/writer lock of the DNS cache, pdnsd/src/cache.c. Each section under \<open>lock_mutex\<close> is one
  step on the lock's variables; a thread that waits on a condition variable sleeps until a signal, a broadcast
  or a spurious wake-up makes it test its condition again. The lock is in use (\<open>use_cache_lock\<close>).
\<close>

subsection \<open>The sections under the mutex\<close>

record cache_lock =
  cache_w_lock :: bool
  cache_r_lock :: int
  r_pend :: int
  rw_pend :: int
  r_susp :: bool

definition lock_init :: cache_lock where
  "lock_init = \<lparr>cache_w_lock = False, cache_r_lock = 0, r_pend = 0, rw_pend = 0, r_susp = False\<rparr>"

definition SUSP_THRESH :: "int \<Rightarrow> int" where
  "SUSP_THRESH r = r div 2 + 2"

text \<open>The loop condition of \<open>lock_cache_r\<close>, which may set \<open>r_susp\<close>, and what follows when it is false.\<close>

definition r_blocked :: "cache_lock \<Rightarrow> bool \<times> cache_lock" where
  "r_blocked l =
     (let l = (if rw_pend l > SUSP_THRESH (r_pend l) then l\<lparr>r_susp := True\<rparr> else l)
      in (r_susp l \<or> cache_w_lock l, l))"

definition r_test :: "cache_lock \<Rightarrow> bool \<times> cache_lock" where
  "r_test l = (let (blocked, l) = r_blocked l in
     if blocked then (False, l)
     else (True, l\<lparr>cache_r_lock := cache_r_lock l + 1, r_pend := r_pend l - 1\<rparr>))"

text \<open>Up to the first wait or to the end: whether the lock was obtained.\<close>

definition lock_cache_r :: "cache_lock \<Rightarrow> bool \<times> cache_lock" where
  "lock_cache_r l = r_test (l\<lparr>r_pend := r_pend l + 1\<rparr>)"

datatype wakeup = Signal_rw | Broadcast_r

definition unlock_cache_r :: "cache_lock \<Rightarrow> wakeup option \<times> cache_lock" where
  "unlock_cache_r l =
     (let l = (if cache_r_lock l > 0 then l\<lparr>cache_r_lock := cache_r_lock l - 1\<rparr> else l)
      in (if cache_r_lock l = 0 then Some Signal_rw else None, l))"

definition w_test :: "cache_lock \<Rightarrow> bool \<times> cache_lock" where
  "w_test l =
     (if cache_w_lock l \<or> cache_r_lock l \<noteq> 0 then (False, l)
      else (True, l\<lparr>cache_w_lock := True, rw_pend := rw_pend l - 1\<rparr>))"

text \<open>\<open>timedlock_cache_rw\<close> begins in the same way.\<close>

definition lock_cache_rw :: "cache_lock \<Rightarrow> bool \<times> cache_lock" where
  "lock_cache_rw l = w_test (l\<lparr>rw_pend := rw_pend l + 1\<rparr>)"

definition timedlock_timeout :: "cache_lock \<Rightarrow> cache_lock" where
  "timedlock_timeout l = l\<lparr>rw_pend := rw_pend l - 1\<rparr>"

text \<open>Also the first half of \<open>yield_lock_cache_rw\<close>; its second half is \<open>lock_cache_rw\<close>.\<close>

definition unlock_cache_rw :: "cache_lock \<Rightarrow> wakeup \<times> cache_lock" where
  "unlock_cache_rw l =
     (let l = l\<lparr>cache_w_lock := False, r_susp := False\<rparr>
      in (if r_pend l = 0 \<or> rw_pend l > SUSP_THRESH (r_pend l) then Signal_rw else Broadcast_r, l))"

text \<open>The test before \<open>yield_lock_cache_rw\<close> gives up the lock.\<close>

definition yield_wanted :: "cache_lock \<Rightarrow> bool" where
  "yield_wanted l \<longleftrightarrow> \<not> (r_pend l = 0 \<and> rw_pend l = 0)"

text \<open>
  The variants used at the exit of the program. The list is that of the successive tries: the lock as the try
  finds it, or \<open>None\<close> when \<open>softlock_mutex\<close> gives up. On unlocking nobody is woken.
\<close>

definition SOFTLOCK_MAXTRIES :: nat where "SOFTLOCK_MAXTRIES = 1000"

fun softlock :: "(cache_lock \<Rightarrow> cache_lock option) \<Rightarrow> nat \<Rightarrow> cache_lock option list \<Rightarrow> cache_lock option" where
  "softlock try tr [] = None"
| "softlock try tr (None # tries) = None"
| "softlock try tr (Some l # tries) =
     (case try l of Some l' \<Rightarrow> Some l' | None \<Rightarrow> if tr + 1 \<ge> SOFTLOCK_MAXTRIES then None else softlock try (tr + 1) tries)"

definition softlock_cache_r :: "cache_lock option list \<Rightarrow> cache_lock option" where
  "softlock_cache_r = softlock (\<lambda>l. if cache_w_lock l then None else Some (l\<lparr>cache_r_lock := cache_r_lock l + 1\<rparr>)) 0"

definition softunlock_cache_r :: "cache_lock \<Rightarrow> cache_lock" where
  "softunlock_cache_r l = (if cache_r_lock l > 0 then l\<lparr>cache_r_lock := cache_r_lock l - 1\<rparr> else l)"

definition softlock_cache_rw :: "cache_lock option list \<Rightarrow> cache_lock option" where
  "softlock_cache_rw =
     softlock (\<lambda>l. if cache_w_lock l \<or> cache_r_lock l \<noteq> 0 then None else Some (l\<lparr>cache_w_lock := True\<rparr>)) 0"

definition softunlock_cache_rw :: "cache_lock \<Rightarrow> cache_lock" where
  "softunlock_cache_rw l = l\<lparr>cache_w_lock := False\<rparr>"

subsection \<open>Threads\<close>

datatype pc = Idle | Reading | Writing | R_sleep | R_awake | W_sleep | W_awake | T_sleep | T_awake

definition r_waits :: "pc \<Rightarrow> bool" where "r_waits p \<longleftrightarrow> p = R_sleep \<or> p = R_awake"
definition w_waits :: "pc \<Rightarrow> bool" where "w_waits p \<longleftrightarrow> p = W_sleep \<or> p = W_awake"
definition t_waits :: "pc \<Rightarrow> bool" where "t_waits p \<longleftrightarrow> p = T_sleep \<or> p = T_awake"
definition awake :: "pc \<Rightarrow> bool" where "awake p \<longleftrightarrow> p = R_awake \<or> p = W_awake \<or> p = T_awake"

definition cnt :: "('a \<Rightarrow> bool) \<Rightarrow> 'a list \<Rightarrow> nat" where
  "cnt P ps = length (filter P ps)"

definition wake :: "pc \<Rightarrow> pc" where
  "wake p = (case p of R_sleep \<Rightarrow> R_awake | W_sleep \<Rightarrow> W_awake | T_sleep \<Rightarrow> T_awake | _ \<Rightarrow> p)"

text \<open>What a wake-up may do to the threads: a signal on \<open>rw_cond\<close> wakes one of the sleeping writers.\<close>

inductive wakes :: "wakeup option \<Rightarrow> pc list \<Rightarrow> pc list \<Rightarrow> bool" where
  wakes_no: "wakes None ps ps"
| wakes_nobody: "W_sleep \<notin> set ps \<Longrightarrow> T_sleep \<notin> set ps \<Longrightarrow> wakes (Some Signal_rw) ps ps"
| wakes_one: "i < length ps \<Longrightarrow> ps ! i = W_sleep \<or> ps ! i = T_sleep \<Longrightarrow> wakes (Some Signal_rw) ps (ps[i := wake (ps ! i)])"
| wakes_all: "wakes (Some Broadcast_r) ps (map (\<lambda>p. if p = R_sleep then R_awake else p) ps)"

text \<open>
  The steps of the threads. At most \<open>K\<close> threads are in \<open>timedlock_cache_rw\<close>; their waits may time out.
\<close>

inductive lock_step :: "nat \<Rightarrow> cache_lock \<times> pc list \<Rightarrow> cache_lock \<times> pc list \<Rightarrow> bool" for K where
  r_lock: "i < length ps \<Longrightarrow> ps ! i = Idle \<Longrightarrow> lock_cache_r l = (got, l') \<Longrightarrow>
    lock_step K (l, ps) (l', ps[i := if got then Reading else R_sleep])"
| r_retry: "i < length ps \<Longrightarrow> ps ! i = R_awake \<Longrightarrow> r_test l = (got, l') \<Longrightarrow>
    lock_step K (l, ps) (l', ps[i := if got then Reading else R_sleep])"
| r_unlock: "i < length ps \<Longrightarrow> ps ! i = Reading \<Longrightarrow> unlock_cache_r l = (wk, l') \<Longrightarrow> wakes wk (ps[i := Idle]) ps' \<Longrightarrow>
    lock_step K (l, ps) (l', ps')"
| w_lock: "i < length ps \<Longrightarrow> ps ! i = Idle \<Longrightarrow> lock_cache_rw l = (got, l') \<Longrightarrow>
    lock_step K (l, ps) (l', ps[i := if got then Writing else W_sleep])"
| w_retry: "i < length ps \<Longrightarrow> ps ! i = W_awake \<Longrightarrow> w_test l = (got, l') \<Longrightarrow>
    lock_step K (l, ps) (l', ps[i := if got then Writing else W_sleep])"
| t_lock: "i < length ps \<Longrightarrow> ps ! i = Idle \<Longrightarrow> cnt t_waits ps < K \<Longrightarrow> lock_cache_rw l = (got, l') \<Longrightarrow>
    lock_step K (l, ps) (l', ps[i := if got then Writing else T_sleep])"
| t_retry: "i < length ps \<Longrightarrow> ps ! i = T_awake \<Longrightarrow> w_test l = (got, l') \<Longrightarrow>
    lock_step K (l, ps) (l', ps[i := if got then Writing else T_sleep])"
| t_timeout: "i < length ps \<Longrightarrow> ps ! i = T_sleep \<Longrightarrow> lock_step K (l, ps) (timedlock_timeout l, ps[i := Idle])"
| w_unlock: "i < length ps \<Longrightarrow> ps ! i = Writing \<Longrightarrow> unlock_cache_rw l = (wk, l') \<Longrightarrow> wakes (Some wk) (ps[i := Idle]) ps' \<Longrightarrow>
    lock_step K (l, ps) (l', ps')"
| spurious: "i < length ps \<Longrightarrow> lock_step K (l, ps) (l, ps[i := wake (ps ! i)])"

inductive lock_reach :: "nat \<Rightarrow> cache_lock \<times> pc list \<Rightarrow> bool" for K where
  reach_init: "lock_reach K (lock_init, replicate n Idle)"
| reach_step: "lock_reach K s \<Longrightarrow> lock_step K s s' \<Longrightarrow> lock_reach K s'"

inductive_cases lock_stepE: "lock_step K (l, ps) s'"
inductive_cases wakesE: "wakes wk ps ps'"

subsection \<open>Counting threads\<close>

lemma cnt_simps [simp]: "cnt P [] = 0" "cnt P (p # ps) = (if P p then Suc (cnt P ps) else cnt P ps)"
  by (simp_all add: cnt_def)

lemma cnt_update: "i < length ps \<Longrightarrow> cnt P (ps[i := p]) + of_bool (P (ps ! i)) = cnt P ps + of_bool (P p)"
proof (induction ps arbitrary: i)
  case (Cons q ps)
  show ?case
  proof (cases i)
    case (Suc j)
    then show ?thesis using Cons.IH [of j] Cons.prems by auto
  qed simp
qed simp

lemma cnt_update_int:
  "i < length ps \<Longrightarrow> int (cnt P (ps[i := p])) = int (cnt P ps) - of_bool (P (ps ! i)) + of_bool (P p)"
  using cnt_update [of i ps P p] by (auto split: if_splits)

lemma cnt_0: "cnt P ps = 0 \<longleftrightarrow> (\<forall>p \<in> set ps. \<not> P p)"
  by (simp add: cnt_def filter_empty_conv)

lemma cnt_map: "cnt P (map f ps) = cnt (\<lambda>p. P (f p)) ps"
  by (induction ps) auto

lemma cnt_pos: "i < length ps \<Longrightarrow> P (ps ! i) \<Longrightarrow> 0 < cnt P ps"
  using cnt_0 [of P ps] nth_mem by fastforce

text \<open>The number of threads at each place.\<close>

definition tally :: "pc list \<Rightarrow> pc \<Rightarrow> int" where
  "tally ps p = int (cnt (\<lambda>q. q = p) ps)"

lemma tally_update: "i < length ps \<Longrightarrow> tally (ps[i := q]) p = tally ps p - of_bool (p = ps ! i) + of_bool (p = q)"
  using cnt_update_int [of i ps "\<lambda>q. q = p" q] by (simp add: tally_def eq_commute [of p])

lemma tally_nonneg: "0 \<le> tally ps p"
  by (simp add: tally_def)

lemma tally_pos: "i < length ps \<Longrightarrow> 0 < tally ps (ps ! i)"
  using cnt_pos [of i ps "\<lambda>q. q = ps ! i"] by (simp add: tally_def)

lemma tally_set: "0 < tally ps p \<longleftrightarrow> p \<in> set ps"
  using cnt_0 [of "\<lambda>q. q = p" ps] by (auto simp: tally_def)

lemma tally_broadcast:
  "tally (map (\<lambda>p. if p = R_sleep then R_awake else p) ps) p =
     (if p = R_sleep then 0 else if p = R_awake then tally ps R_sleep + tally ps R_awake else tally ps p)"
  by (induction ps) (auto simp: tally_def)

lemma cnt_t_waits: "int (cnt t_waits ps) = tally ps T_sleep + tally ps T_awake"
  by (induction ps) (auto simp: tally_def t_waits_def)

lemma cnt_r_waits: "int (cnt r_waits ps) = tally ps R_sleep + tally ps R_awake"
  by (induction ps) (auto simp: tally_def r_waits_def)

lemma cnt_writers:
  "int (cnt (\<lambda>p. w_waits p \<or> t_waits p) ps) = tally ps W_sleep + tally ps W_awake + tally ps T_sleep + tally ps T_awake"
proof (induction ps)
  case (Cons p ps)
  then show ?case by (cases p) (simp_all add: tally_def w_waits_def t_waits_def)
qed (simp add: tally_def)

subsection \<open>The invariant\<close>

text \<open>The variables count the threads, and a writer is alone.\<close>

definition counts_ok :: "cache_lock \<Rightarrow> (pc \<Rightarrow> int) \<Rightarrow> bool" where
  "counts_ok l N \<longleftrightarrow> r_pend l = N R_sleep + N R_awake \<and>
     rw_pend l = N W_sleep + N W_awake + N T_sleep + N T_awake \<and>
     cache_r_lock l = N Reading \<and> N Writing = of_bool (cache_w_lock l) \<and> (cache_w_lock l \<longrightarrow> N Reading = 0)"

text \<open>
  Readers are suspended, or asleep, only while a writer that cannot time out will come. When the lock is free and
  writers wait, a writer is awake, or all is ready for a reader that is.
\<close>

definition live_time :: "nat \<Rightarrow> (pc \<Rightarrow> int) \<Rightarrow> bool" where
  "live_time K N \<longleftrightarrow> N T_sleep + N T_awake \<le> int K"

definition live_susp :: "cache_lock \<Rightarrow> (pc \<Rightarrow> int) \<Rightarrow> bool" where
  "live_susp l N \<longleftrightarrow> (r_susp l \<or> 0 < N R_sleep \<longrightarrow> cache_w_lock l \<or> 0 < N W_sleep + N W_awake)"

definition live_wake :: "cache_lock \<Rightarrow> (pc \<Rightarrow> int) \<Rightarrow> bool" where
  "live_wake l N \<longleftrightarrow> (\<not> cache_w_lock l \<and> cache_r_lock l = 0 \<and> 0 < rw_pend l \<longrightarrow>
     0 < N W_awake + N T_awake \<or> (\<not> r_susp l \<and> rw_pend l \<le> SUSP_THRESH (r_pend l) \<and> 0 < N R_awake))"

definition live_ok :: "nat \<Rightarrow> cache_lock \<Rightarrow> (pc \<Rightarrow> int) \<Rightarrow> bool" where
  "live_ok K l N \<longleftrightarrow> live_time K N \<and> live_susp l N \<and> live_wake l N"

lemma thresh: "0 \<le> r \<Longrightarrow> 2 \<le> SUSP_THRESH r" "r \<le> r' \<Longrightarrow> SUSP_THRESH r \<le> SUSP_THRESH r'"
  by (simp_all add: SUSP_THRESH_def zdiv_mono1)

lemma wakes_tally:
  assumes "wakes wk ps ps'"
  shows "case wk of
    None \<Rightarrow> ps' = ps
  | Some Broadcast_r \<Rightarrow> \<forall>p. tally ps' p =
      (if p = R_sleep then 0 else if p = R_awake then tally ps R_sleep + tally ps R_awake else tally ps p)
  | Some Signal_rw \<Rightarrow> (\<forall>p. tally ps' p = tally ps p) \<and> tally ps W_sleep + tally ps T_sleep = 0 \<or>
      (\<forall>p. tally ps' p = tally ps p - of_bool (p = W_sleep) + of_bool (p = W_awake)) \<and> 0 < tally ps W_sleep \<or>
      (\<forall>p. tally ps' p = tally ps p - of_bool (p = T_sleep) + of_bool (p = T_awake)) \<and> 0 < tally ps T_sleep"
  using assms
proof (cases rule: wakes.cases)
  case wakes_nobody
  then have "tally ps W_sleep = 0" "tally ps T_sleep = 0"
    using tally_set [of ps W_sleep] tally_set [of ps T_sleep] tally_nonneg [of ps W_sleep] tally_nonneg [of ps T_sleep] by linarith+
  then show ?thesis using wakes_nobody by simp
next
  case (wakes_one i)
  have u: "tally ps' p = tally ps p - of_bool (p = ps ! i) + of_bool (p = wake (ps ! i))" for p
    unfolding wakes_one(2) by (rule tally_update [OF wakes_one(3)])
  from wakes_one(4) show ?thesis
  proof
    assume p: "ps ! i = W_sleep"
    show ?thesis using u tally_pos [OF wakes_one(3)] wakes_one(1) unfolding p by (simp add: wake_def)
  next
    assume p: "ps ! i = T_sleep"
    show ?thesis using u tally_pos [OF wakes_one(3)] wakes_one(1) unfolding p by (simp add: wake_def)
  qed
next
  case wakes_all
  then show ?thesis by (simp add: tally_broadcast)
qed simp

lemma r_test_cases:
  assumes "r_test l = (got, l')"
  shows "cache_w_lock l' = cache_w_lock l \<and> rw_pend l' = rw_pend l \<and> cache_r_lock l' = cache_r_lock l + of_bool got \<and>
    r_pend l' = r_pend l - of_bool got \<and> (r_susp l' \<longleftrightarrow> r_susp l \<or> rw_pend l > SUSP_THRESH (r_pend l)) \<and>
    (got \<longleftrightarrow> \<not> (r_susp l' \<or> cache_w_lock l))"
  using assms by (auto simp: r_test_def r_blocked_def Let_def split: if_splits)

lemma lock_r_cases:
  assumes "lock_cache_r l = (got, l')"
  shows "cache_w_lock l' = cache_w_lock l \<and> rw_pend l' = rw_pend l \<and> cache_r_lock l' = cache_r_lock l + of_bool got \<and>
    r_pend l' = r_pend l + 1 - of_bool got \<and> (r_susp l' \<longleftrightarrow> r_susp l \<or> rw_pend l > SUSP_THRESH (r_pend l + 1)) \<and>
    (got \<longleftrightarrow> \<not> (r_susp l' \<or> cache_w_lock l))"
  using r_test_cases [of "l\<lparr>r_pend := r_pend l + 1\<rparr>" got l'] assms unfolding lock_cache_r_def by simp

lemma w_test_cases:
  assumes "w_test l = (got, l')"
  shows "(cache_w_lock l' \<longleftrightarrow> cache_w_lock l \<or> got) \<and> rw_pend l' = rw_pend l - of_bool got \<and> cache_r_lock l' = cache_r_lock l \<and>
    r_pend l' = r_pend l \<and> r_susp l' = r_susp l \<and> (got \<longleftrightarrow> \<not> cache_w_lock l \<and> cache_r_lock l = 0)"
  using assms by (auto simp: w_test_def split: if_splits)

lemma lock_rw_cases:
  assumes "lock_cache_rw l = (got, l')"
  shows "(cache_w_lock l' \<longleftrightarrow> cache_w_lock l \<or> got) \<and> rw_pend l' = rw_pend l + 1 - of_bool got \<and> cache_r_lock l' = cache_r_lock l \<and>
    r_pend l' = r_pend l \<and> r_susp l' = r_susp l \<and> (got \<longleftrightarrow> \<not> cache_w_lock l \<and> cache_r_lock l = 0)"
  using w_test_cases [of "l\<lparr>rw_pend := rw_pend l + 1\<rparr>" got l'] assms unfolding lock_cache_rw_def by simp

lemma unlock_r_cases:
  assumes "unlock_cache_r l = (wk, l')" "0 < cache_r_lock l"
  shows "cache_w_lock l' = cache_w_lock l \<and> rw_pend l' = rw_pend l \<and> cache_r_lock l' = cache_r_lock l - 1 \<and>
    r_pend l' = r_pend l \<and> r_susp l' = r_susp l \<and> wk = (if cache_r_lock l' = 0 then Some Signal_rw else None)"
  using assms by (auto simp: unlock_cache_r_def Let_def)

lemma unlock_rw_cases:
  assumes "unlock_cache_rw l = (wk, l')"
  shows "\<not> cache_w_lock l' \<and> rw_pend l' = rw_pend l \<and> cache_r_lock l' = cache_r_lock l \<and> r_pend l' = r_pend l \<and> \<not> r_susp l' \<and>
    wk = (if r_pend l = 0 \<or> rw_pend l > SUSP_THRESH (r_pend l) then Signal_rw else Broadcast_r)"
  using assms by (auto simp: unlock_cache_rw_def Let_def)

lemma counts_step:
  assumes "lock_step K (l, ps) (l', ps')" "counts_ok l (tally ps)"
  shows "counts_ok l' (tally ps')"
proof -
  note nn = tally_nonneg [of ps]
  note nn = nn [of R_sleep] nn [of R_awake] nn [of W_sleep] nn [of W_awake] nn [of T_sleep] nn [of T_awake]
     nn [of Reading] nn [of Writing]
  note th = thresh(1) [of "r_pend l"] thresh(2) [of "r_pend l" "r_pend l + 1"] thresh(1) [of "r_pend l + 1"]
  note D = counts_ok_def
  show ?thesis
    using assms(1)
  proof (cases rule: lock_step.cases)
    case (r_lock i got)
    then have c: "i < length ps" "ps ! i = Idle" "lock_cache_r l = (got, l')" "ps' = ps[i := if got then Reading else R_sleep]" by simp_all
    show ?thesis unfolding c(4) using assms(2) nn th lock_r_cases [OF c(3)]
      by (cases got) (auto simp: D tally_update c(1,2))
  next
    case (r_retry i got)
    then have c: "i < length ps" "ps ! i = R_awake" "r_test l = (got, l')" "ps' = ps[i := if got then Reading else R_sleep]" by simp_all
    show ?thesis unfolding c(4) using assms(2) nn th r_test_cases [OF c(3)]
      by (cases got) (auto simp: D tally_update c(1,2))
  next
    case (w_lock i got)
    then have c: "i < length ps" "ps ! i = Idle" "lock_cache_rw l = (got, l')" "ps' = ps[i := if got then Writing else W_sleep]" by simp_all
    show ?thesis unfolding c(4) using assms(2) nn th lock_rw_cases [OF c(3)]
      by (cases got) (auto simp: D tally_update c(1,2))
  next
    case (w_retry i got)
    then have c: "i < length ps" "ps ! i = W_awake" "w_test l = (got, l')" "ps' = ps[i := if got then Writing else W_sleep]" by simp_all
    show ?thesis unfolding c(4) using assms(2) nn th w_test_cases [OF c(3)]
      by (cases got) (auto simp: D tally_update c(1,2))
  next
    case (t_lock i got)
    then have c: "i < length ps" "ps ! i = Idle" "lock_cache_rw l = (got, l')" "ps' = ps[i := if got then Writing else T_sleep]" by simp_all
    show ?thesis unfolding c(4) using assms(2) nn th lock_rw_cases [OF c(3)] t_lock cnt_t_waits [of ps]
      by (cases got) (auto simp: D tally_update c(1,2))
  next
    case (t_retry i got)
    then have c: "i < length ps" "ps ! i = T_awake" "w_test l = (got, l')" "ps' = ps[i := if got then Writing else T_sleep]" by simp_all
    show ?thesis unfolding c(4) using assms(2) nn th w_test_cases [OF c(3)]
      by (cases got) (auto simp: D tally_update c(1,2))
  next
    case (r_unlock i wk)
    then have c: "i < length ps" "ps ! i = Reading" "unlock_cache_r l = (wk, l')" "wakes wk (ps[i := Idle]) ps'" by simp_all
    have r: "0 < cache_r_lock l" using tally_pos [OF c(1)] c(2) assms(2) by (simp add: counts_ok_def)
    note u = unlock_r_cases [OF c(3) r]
    show ?thesis
    proof (cases "cache_r_lock l' = 0")
      case True
      then have "wk = Some Signal_rw" using u by simp
      from wakes_tally [OF c(4) [unfolded this]] show ?thesis using assms(2) nn th u r by (auto simp: D tally_update c(1,2))
    next
      case False
      then have "wk = None" using u by simp
      from wakes_tally [OF c(4) [unfolded this]] show ?thesis using assms(2) nn th u r False by (auto simp: D tally_update c(1,2))
    qed
  next
    case (w_unlock i wk)
    then have c: "i < length ps" "ps ! i = Writing" "unlock_cache_rw l = (wk, l')" "wakes (Some wk) (ps[i := Idle]) ps'" by simp_all
    have r: "cache_w_lock l" using tally_pos [OF c(1)] c(2) assms(2) by (simp add: counts_ok_def split: if_splits)
    note u = unlock_rw_cases [OF c(3)]
    show ?thesis
    proof (cases "r_pend l = 0 \<or> rw_pend l > SUSP_THRESH (r_pend l)")
      case True
      then have "wk = Signal_rw" using u by simp
      from wakes_tally [OF c(4) [unfolded this]] show ?thesis using assms(2) nn th r u True by (auto simp: D tally_update c(1,2))
    next
      case False
      then have "wk = Broadcast_r" using u by simp
      from wakes_tally [OF c(4) [unfolded this]] show ?thesis using assms(2) nn th r u False by (auto simp: D tally_update c(1,2))
    qed
  next
    case (t_timeout i)
    then have c: "i < length ps" "ps ! i = T_sleep" "ps' = ps[i := Idle]" "l' = timedlock_timeout l" by simp_all
    show ?thesis unfolding c(3,4) using assms(2) nn th by (auto simp: D tally_update c(1,2) timedlock_timeout_def)
  next
    case (spurious i)
    then have c: "i < length ps" "ps' = ps[i := wake (ps ! i)]" "l' = l" by simp_all
    show ?thesis unfolding c(2,3) using assms(2) nn by (cases "ps ! i") (auto simp: D tally_update c(1) wake_def)
  qed
qed

lemma live_time_step:
  assumes "lock_step K (l, ps) (l', ps')" "counts_ok l (tally ps)" "live_time K (tally ps)"
  shows "live_time K (tally ps')"
proof -
  note nn = tally_nonneg [of ps]
  note nn = nn [of R_sleep] nn [of R_awake] nn [of W_sleep] nn [of W_awake] nn [of T_sleep] nn [of T_awake]
     nn [of Reading] nn [of Writing]
  note th = thresh(1) [of "r_pend l"] thresh(2) [of "r_pend l" "r_pend l + 1"] thresh(1) [of "r_pend l + 1"]
  note D = live_time_def
  show ?thesis
    using assms(1)
  proof (cases rule: lock_step.cases)
    case (r_lock i got)
    then have c: "i < length ps" "ps ! i = Idle" "lock_cache_r l = (got, l')" "ps' = ps[i := if got then Reading else R_sleep]" by simp_all
    show ?thesis unfolding c(4) using assms(3) nn th lock_r_cases [OF c(3)]
      by (cases got) (auto simp: D tally_update c(1,2))
  next
    case (r_retry i got)
    then have c: "i < length ps" "ps ! i = R_awake" "r_test l = (got, l')" "ps' = ps[i := if got then Reading else R_sleep]" by simp_all
    show ?thesis unfolding c(4) using assms(3) nn th r_test_cases [OF c(3)]
      by (cases got) (auto simp: D tally_update c(1,2))
  next
    case (w_lock i got)
    then have c: "i < length ps" "ps ! i = Idle" "lock_cache_rw l = (got, l')" "ps' = ps[i := if got then Writing else W_sleep]" by simp_all
    show ?thesis unfolding c(4) using assms(3) nn th lock_rw_cases [OF c(3)]
      by (cases got) (auto simp: D tally_update c(1,2))
  next
    case (w_retry i got)
    then have c: "i < length ps" "ps ! i = W_awake" "w_test l = (got, l')" "ps' = ps[i := if got then Writing else W_sleep]" by simp_all
    show ?thesis unfolding c(4) using assms(3) nn th w_test_cases [OF c(3)]
      by (cases got) (auto simp: D tally_update c(1,2))
  next
    case (t_lock i got)
    then have c: "i < length ps" "ps ! i = Idle" "lock_cache_rw l = (got, l')" "ps' = ps[i := if got then Writing else T_sleep]" by simp_all
    show ?thesis unfolding c(4) using assms(3) nn th lock_rw_cases [OF c(3)] t_lock cnt_t_waits [of ps]
      by (cases got) (auto simp: D tally_update c(1,2))
  next
    case (t_retry i got)
    then have c: "i < length ps" "ps ! i = T_awake" "w_test l = (got, l')" "ps' = ps[i := if got then Writing else T_sleep]" by simp_all
    show ?thesis unfolding c(4) using assms(3) nn th w_test_cases [OF c(3)]
      by (cases got) (auto simp: D tally_update c(1,2))
  next
    case (r_unlock i wk)
    then have c: "i < length ps" "ps ! i = Reading" "unlock_cache_r l = (wk, l')" "wakes wk (ps[i := Idle]) ps'" by simp_all
    have r: "0 < cache_r_lock l" using tally_pos [OF c(1)] c(2) assms(2) by (simp add: counts_ok_def)
    note u = unlock_r_cases [OF c(3) r]
    show ?thesis
    proof (cases "cache_r_lock l' = 0")
      case True
      then have "wk = Some Signal_rw" using u by simp
      from wakes_tally [OF c(4) [unfolded this]] show ?thesis using assms(3) nn th u r by (auto simp: D tally_update c(1,2))
    next
      case False
      then have "wk = None" using u by simp
      from wakes_tally [OF c(4) [unfolded this]] show ?thesis using assms(3) nn th u r False by (auto simp: D tally_update c(1,2))
    qed
  next
    case (w_unlock i wk)
    then have c: "i < length ps" "ps ! i = Writing" "unlock_cache_rw l = (wk, l')" "wakes (Some wk) (ps[i := Idle]) ps'" by simp_all
    have r: "cache_w_lock l" using tally_pos [OF c(1)] c(2) assms(2) by (simp add: counts_ok_def split: if_splits)
    note u = unlock_rw_cases [OF c(3)]
    show ?thesis
    proof (cases "r_pend l = 0 \<or> rw_pend l > SUSP_THRESH (r_pend l)")
      case True
      then have "wk = Signal_rw" using u by simp
      from wakes_tally [OF c(4) [unfolded this]] show ?thesis using assms(3) nn th r u True by (auto simp: D tally_update c(1,2))
    next
      case False
      then have "wk = Broadcast_r" using u by simp
      from wakes_tally [OF c(4) [unfolded this]] show ?thesis using assms(3) nn th r u False by (auto simp: D tally_update c(1,2))
    qed
  next
    case (t_timeout i)
    then have c: "i < length ps" "ps ! i = T_sleep" "ps' = ps[i := Idle]" "l' = timedlock_timeout l" by simp_all
    show ?thesis unfolding c(3,4) using assms(3) nn th by (auto simp: D tally_update c(1,2) timedlock_timeout_def)
  next
    case (spurious i)
    then have c: "i < length ps" "ps' = ps[i := wake (ps ! i)]" "l' = l" by simp_all
    show ?thesis unfolding c(2,3) using assms(3) nn by (cases "ps ! i") (auto simp: D tally_update c(1) wake_def)
  qed
qed

lemma live_susp_step:
  assumes "lock_step K (l, ps) (l', ps')" "counts_ok l (tally ps)" "live_susp l (tally ps)" "live_time K (tally ps)" "K \<le> 2"
  shows "live_susp l' (tally ps')"
proof -
  note nn = tally_nonneg [of ps]
  note nn = nn [of R_sleep] nn [of R_awake] nn [of W_sleep] nn [of W_awake] nn [of T_sleep] nn [of T_awake]
     nn [of Reading] nn [of Writing]
  note th = thresh(1) [of "r_pend l"] thresh(2) [of "r_pend l" "r_pend l + 1"] thresh(1) [of "r_pend l + 1"]
  note D = live_susp_def live_time_def counts_ok_def
  show ?thesis
    using assms(1)
  proof (cases rule: lock_step.cases)
    case (r_lock i got)
    then have c: "i < length ps" "ps ! i = Idle" "lock_cache_r l = (got, l')" "ps' = ps[i := if got then Reading else R_sleep]" by simp_all
    show ?thesis unfolding c(4) using assms(2-5) nn th lock_r_cases [OF c(3)]
      by (cases got) (auto simp: D tally_update c(1,2))
  next
    case (r_retry i got)
    then have c: "i < length ps" "ps ! i = R_awake" "r_test l = (got, l')" "ps' = ps[i := if got then Reading else R_sleep]" by simp_all
    show ?thesis unfolding c(4) using assms(2-5) nn th r_test_cases [OF c(3)]
      by (cases got) (auto simp: D tally_update c(1,2))
  next
    case (w_lock i got)
    then have c: "i < length ps" "ps ! i = Idle" "lock_cache_rw l = (got, l')" "ps' = ps[i := if got then Writing else W_sleep]" by simp_all
    show ?thesis unfolding c(4) using assms(2-5) nn th lock_rw_cases [OF c(3)]
      by (cases got) (auto simp: D tally_update c(1,2))
  next
    case (w_retry i got)
    then have c: "i < length ps" "ps ! i = W_awake" "w_test l = (got, l')" "ps' = ps[i := if got then Writing else W_sleep]" by simp_all
    show ?thesis unfolding c(4) using assms(2-5) nn th w_test_cases [OF c(3)]
      by (cases got) (auto simp: D tally_update c(1,2))
  next
    case (t_lock i got)
    then have c: "i < length ps" "ps ! i = Idle" "lock_cache_rw l = (got, l')" "ps' = ps[i := if got then Writing else T_sleep]" by simp_all
    show ?thesis unfolding c(4) using assms(2-5) nn th lock_rw_cases [OF c(3)] t_lock cnt_t_waits [of ps]
      by (cases got) (auto simp: D tally_update c(1,2))
  next
    case (t_retry i got)
    then have c: "i < length ps" "ps ! i = T_awake" "w_test l = (got, l')" "ps' = ps[i := if got then Writing else T_sleep]" by simp_all
    show ?thesis unfolding c(4) using assms(2-5) nn th w_test_cases [OF c(3)]
      by (cases got) (auto simp: D tally_update c(1,2))
  next
    case (r_unlock i wk)
    then have c: "i < length ps" "ps ! i = Reading" "unlock_cache_r l = (wk, l')" "wakes wk (ps[i := Idle]) ps'" by simp_all
    have r: "0 < cache_r_lock l" using tally_pos [OF c(1)] c(2) assms(2) by (simp add: counts_ok_def)
    note u = unlock_r_cases [OF c(3) r]
    show ?thesis
    proof (cases "cache_r_lock l' = 0")
      case True
      then have "wk = Some Signal_rw" using u by simp
      from wakes_tally [OF c(4) [unfolded this]] show ?thesis using assms(2-5) nn th u r by (auto simp: D tally_update c(1,2))
    next
      case False
      then have "wk = None" using u by simp
      from wakes_tally [OF c(4) [unfolded this]] show ?thesis using assms(2-5) nn th u r False by (auto simp: D tally_update c(1,2))
    qed
  next
    case (w_unlock i wk)
    then have c: "i < length ps" "ps ! i = Writing" "unlock_cache_rw l = (wk, l')" "wakes (Some wk) (ps[i := Idle]) ps'" by simp_all
    have r: "cache_w_lock l" using tally_pos [OF c(1)] c(2) assms(2) by (simp add: counts_ok_def split: if_splits)
    note u = unlock_rw_cases [OF c(3)]
    show ?thesis
    proof (cases "r_pend l = 0 \<or> rw_pend l > SUSP_THRESH (r_pend l)")
      case True
      then have "wk = Signal_rw" using u by simp
      from wakes_tally [OF c(4) [unfolded this]] show ?thesis using assms(2-5) nn th r u True by (auto simp: D tally_update c(1,2))
    next
      case False
      then have "wk = Broadcast_r" using u by simp
      from wakes_tally [OF c(4) [unfolded this]] show ?thesis using assms(2-5) nn th r u False by (auto simp: D tally_update c(1,2))
    qed
  next
    case (t_timeout i)
    then have c: "i < length ps" "ps ! i = T_sleep" "ps' = ps[i := Idle]" "l' = timedlock_timeout l" by simp_all
    show ?thesis unfolding c(3,4) using assms(2-5) nn th by (auto simp: D tally_update c(1,2) timedlock_timeout_def)
  next
    case (spurious i)
    then have c: "i < length ps" "ps' = ps[i := wake (ps ! i)]" "l' = l" by simp_all
    show ?thesis unfolding c(2,3) using assms(2-5) nn by (cases "ps ! i") (auto simp: D tally_update c(1) wake_def)
  qed
qed

lemma live_wake_step:
  assumes "lock_step K (l, ps) (l', ps')" "counts_ok l (tally ps)" "live_wake l (tally ps)" "live_susp l (tally ps)"
  shows "live_wake l' (tally ps')"
proof -
  note nn = tally_nonneg [of ps]
  note nn = nn [of R_sleep] nn [of R_awake] nn [of W_sleep] nn [of W_awake] nn [of T_sleep] nn [of T_awake]
     nn [of Reading] nn [of Writing]
  note th = thresh(1) [of "r_pend l"] thresh(2) [of "r_pend l" "r_pend l + 1"] thresh(1) [of "r_pend l + 1"]
  note D = live_wake_def live_susp_def counts_ok_def
  show ?thesis
    using assms(1)
  proof (cases rule: lock_step.cases)
    case (r_lock i got)
    then have c: "i < length ps" "ps ! i = Idle" "lock_cache_r l = (got, l')" "ps' = ps[i := if got then Reading else R_sleep]" by simp_all
    show ?thesis unfolding c(4) using assms(2-4) nn th lock_r_cases [OF c(3)]
      by (cases got) (auto simp: D tally_update c(1,2))
  next
    case (r_retry i got)
    then have c: "i < length ps" "ps ! i = R_awake" "r_test l = (got, l')" "ps' = ps[i := if got then Reading else R_sleep]" by simp_all
    show ?thesis unfolding c(4) using assms(2-4) nn th r_test_cases [OF c(3)]
      by (cases got) (auto simp: D tally_update c(1,2))
  next
    case (w_lock i got)
    then have c: "i < length ps" "ps ! i = Idle" "lock_cache_rw l = (got, l')" "ps' = ps[i := if got then Writing else W_sleep]" by simp_all
    show ?thesis unfolding c(4) using assms(2-4) nn th lock_rw_cases [OF c(3)]
      by (cases got) (auto simp: D tally_update c(1,2))
  next
    case (w_retry i got)
    then have c: "i < length ps" "ps ! i = W_awake" "w_test l = (got, l')" "ps' = ps[i := if got then Writing else W_sleep]" by simp_all
    show ?thesis unfolding c(4) using assms(2-4) nn th w_test_cases [OF c(3)]
      by (cases got) (auto simp: D tally_update c(1,2))
  next
    case (t_lock i got)
    then have c: "i < length ps" "ps ! i = Idle" "lock_cache_rw l = (got, l')" "ps' = ps[i := if got then Writing else T_sleep]" by simp_all
    show ?thesis unfolding c(4) using assms(2-4) nn th lock_rw_cases [OF c(3)] t_lock cnt_t_waits [of ps]
      by (cases got) (auto simp: D tally_update c(1,2))
  next
    case (t_retry i got)
    then have c: "i < length ps" "ps ! i = T_awake" "w_test l = (got, l')" "ps' = ps[i := if got then Writing else T_sleep]" by simp_all
    show ?thesis unfolding c(4) using assms(2-4) nn th w_test_cases [OF c(3)]
      by (cases got) (auto simp: D tally_update c(1,2))
  next
    case (r_unlock i wk)
    then have c: "i < length ps" "ps ! i = Reading" "unlock_cache_r l = (wk, l')" "wakes wk (ps[i := Idle]) ps'" by simp_all
    have r: "0 < cache_r_lock l" using tally_pos [OF c(1)] c(2) assms(2) by (simp add: counts_ok_def)
    note u = unlock_r_cases [OF c(3) r]
    show ?thesis
    proof (cases "cache_r_lock l' = 0")
      case True
      then have "wk = Some Signal_rw" using u by simp
      from wakes_tally [OF c(4) [unfolded this]] show ?thesis using assms(2-4) nn th u r by (auto simp: D tally_update c(1,2))
    next
      case False
      then have "wk = None" using u by simp
      from wakes_tally [OF c(4) [unfolded this]] show ?thesis using assms(2-4) nn th u r False by (auto simp: D tally_update c(1,2))
    qed
  next
    case (w_unlock i wk)
    then have c: "i < length ps" "ps ! i = Writing" "unlock_cache_rw l = (wk, l')" "wakes (Some wk) (ps[i := Idle]) ps'" by simp_all
    have r: "cache_w_lock l" using tally_pos [OF c(1)] c(2) assms(2) by (simp add: counts_ok_def split: if_splits)
    note u = unlock_rw_cases [OF c(3)]
    show ?thesis
    proof (cases "r_pend l = 0 \<or> rw_pend l > SUSP_THRESH (r_pend l)")
      case True
      then have "wk = Signal_rw" using u by simp
      from wakes_tally [OF c(4) [unfolded this]] show ?thesis using assms(2-4) nn th r u True by (auto simp: D tally_update c(1,2))
    next
      case False
      then have "wk = Broadcast_r" using u by simp
      from wakes_tally [OF c(4) [unfolded this]] show ?thesis using assms(2-4) nn th r u False by (auto simp: D tally_update c(1,2))
    qed
  next
    case (t_timeout i)
    then have c: "i < length ps" "ps ! i = T_sleep" "ps' = ps[i := Idle]" "l' = timedlock_timeout l" by simp_all
    show ?thesis unfolding c(3,4) using assms(2-4) nn th by (auto simp: D tally_update c(1,2) timedlock_timeout_def)
  next
    case (spurious i)
    then have c: "i < length ps" "ps' = ps[i := wake (ps ! i)]" "l' = l" by simp_all
    show ?thesis unfolding c(2,3) using assms(2-4) nn by (cases "ps ! i") (auto simp: D tally_update c(1) wake_def)
  qed
qed

lemma live_step:
  assumes "lock_step K (l, ps) (l', ps')" "counts_ok l (tally ps)" "live_ok K l (tally ps)" "K \<le> 2"
  shows "live_ok K l' (tally ps')"
  using assms(3) live_time_step [OF assms(1,2)] live_susp_step [OF assms(1,2) _ _ assms(4)] live_wake_step [OF assms(1,2)]
  by (simp add: live_ok_def)

lemma reach_counts: "lock_reach K (l, ps) \<Longrightarrow> counts_ok l (tally ps)"
proof (induction "(l, ps)" arbitrary: l ps rule: lock_reach.induct)
  case (reach_init n)
  have "tally (replicate n Idle) p = (if p = Idle then int n else 0)" for p by (induction n) (auto simp: tally_def)
  then show ?case by (simp add: counts_ok_def lock_init_def)
next
  case (reach_step s)
  obtain l0 ps0 where s: "s = (l0, ps0)" by (cases s)
  show ?case by (rule counts_step [OF reach_step(3) [unfolded s] reach_step(2) [OF s]])
qed

lemma reach_live: "lock_reach K (l, ps) \<Longrightarrow> K \<le> 2 \<Longrightarrow> live_ok K l (tally ps)"
proof (induction "(l, ps)" arbitrary: l ps rule: lock_reach.induct)
  case (reach_init n)
  have "tally (replicate n Idle) p = (if p = Idle then int n else 0)" for p by (induction n) (auto simp: tally_def)
  then show ?case by (simp add: live_ok_def live_time_def live_susp_def live_wake_def lock_init_def)
next
  case (reach_step s)
  obtain l0 ps0 where s: "s = (l0, ps0)" by (cases s)
  show ?case
    by (rule live_step [OF reach_step(3) [unfolded s] reach_counts [OF reach_step(1) [unfolded s]]
          reach_step(2) [OF s reach_step(4)] reach_step(4)])
qed

subsection \<open>Properties\<close>

text \<open>C24: the lock excludes. In every reachable state, for any number of threads that lock, retry, give up and
  unlock in any order, a thread that writes is the only one inside; and the lock's variables are exact: the flag
  says whether a thread writes, the counters are the numbers of threads that read, wait to read and wait to write.\<close>

theorem cache_lock_exclusive:
  assumes "lock_reach K (l, ps)"
  shows "(\<forall>i < length ps. \<forall>j < length ps. ps ! i = Writing \<and> i \<noteq> j \<longrightarrow> ps ! j \<noteq> Writing \<and> ps ! j \<noteq> Reading) \<and>
    (cache_w_lock l \<longleftrightarrow> Writing \<in> set ps) \<and> cache_r_lock l = int (cnt (\<lambda>p. p = Reading) ps) \<and>
    r_pend l = int (cnt r_waits ps) \<and> rw_pend l = int (cnt (\<lambda>p. w_waits p \<or> t_waits p) ps)"
proof -
  have c: "counts_ok l (tally ps)" by (rule reach_counts [OF assms])
  have w: "cache_w_lock l \<longleftrightarrow> Writing \<in> set ps" using c tally_set [of ps Writing] by (auto simp: counts_ok_def split: if_splits)
  have "ps ! j \<noteq> Writing \<and> ps ! j \<noteq> Reading" if i: "i < length ps" "ps ! i = Writing" "j < length ps" "i \<noteq> j" for i j
  proof -
    have cw: "cache_w_lock l" using w i(1,2) nth_mem by metis
    then have t: "tally ps Writing = 1" "tally ps Reading = 0" using c by (simp_all add: counts_ok_def)
    have "ps ! j \<noteq> Writing"
    proof
      assume "ps ! j = Writing"
      then have "0 < tally (ps[i := Idle]) Writing" using tally_pos [of j "ps[i := Idle]"] i by simp
      then show False using t(1) tally_update [OF i(1), of Idle Writing] i(2) by simp
    qed
    moreover have "ps ! j \<noteq> Reading" using t(2) tally_pos [OF i(3)] by auto
    ultimately show ?thesis ..
  qed
  moreover have "cache_r_lock l = int (cnt (\<lambda>p. p = Reading) ps)" using c by (simp add: counts_ok_def tally_def)
  moreover have "r_pend l = int (cnt r_waits ps)" using c by (simp add: counts_ok_def cnt_r_waits)
  moreover have "rw_pend l = int (cnt (\<lambda>p. w_waits p \<or> t_waits p) ps)" using c unfolding cnt_writers by (simp add: counts_ok_def)
  ultimately show ?thesis using w by blast
qed

text \<open>A run of five threads: one reads, up to three wait with a time limit, a second reader comes.\<close>

lemma run_ex:
  assumes "n \<le> K" "n \<le> 3"
  shows "lock_reach K (\<lparr>cache_w_lock = False, cache_r_lock = 1, r_pend = 0, rw_pend = int n, r_susp = False\<rparr>,
    Reading # replicate n T_sleep @ replicate (4 - n) Idle)"
  using assms
proof (induction n)
  case 0
  have i: "lock_reach K (lock_init, replicate 5 Idle)" by (rule reach_init)
  have "lock_step K (lock_init, replicate 5 Idle)
      (\<lparr>cache_w_lock = False, cache_r_lock = 1, r_pend = 0, rw_pend = 0, r_susp = False\<rparr>,
       (replicate 5 Idle)[0 := if True then Reading else R_sleep])"
    by (rule lock_step.r_lock)
      (simp_all add: lock_cache_r_def r_test_def r_blocked_def Let_def lock_init_def SUSP_THRESH_def)
  from reach_step [OF i this] show ?case by (simp add: eval_nat_numeral)
next
  case (Suc n)
  let ?ps = "Reading # replicate n T_sleep @ replicate (4 - n) Idle"
  have r: "lock_reach K (\<lparr>cache_w_lock = False, cache_r_lock = 1, r_pend = 0, rw_pend = int n, r_susp = False\<rparr>, ?ps)"
    using Suc by simp
  have "cnt t_waits ?ps = n" by (simp add: cnt_def t_waits_def)
  moreover have "4 - n = Suc (4 - Suc n)" using Suc.prems by simp
  ultimately have "lock_step K (\<lparr>cache_w_lock = False, cache_r_lock = 1, r_pend = 0, rw_pend = int n, r_susp = False\<rparr>, ?ps)
      (\<lparr>cache_w_lock = False, cache_r_lock = 1, r_pend = 0, rw_pend = int (Suc n), r_susp = False\<rparr>,
       ?ps[Suc n := if False then Writing else T_sleep])"
    using Suc.prems by (intro lock_step.t_lock) (simp_all add: lock_cache_rw_def w_test_def nth_append)
  moreover have "?ps[Suc n := T_sleep] = Reading # replicate (Suc n) T_sleep @ replicate (4 - Suc n) Idle"
    using \<open>4 - n = Suc (4 - Suc n)\<close> by (simp add: list_update_append replicate_append_same)
  ultimately show ?case using reach_step [OF r] by simp
qed

theorem cache_lock_exclusive_witness:
  "(let l = \<lparr>cache_w_lock = False, cache_r_lock = 1, r_pend = 0, rw_pend = 2, r_susp = False\<rparr>;
        ps = [Reading, T_sleep, T_sleep, Idle, Idle]
    in lock_reach 2 (l, ps) \<and> rw_pend l = int (cnt (\<lambda>p. w_waits p \<or> t_waits p) ps) \<and> (cache_w_lock l \<longleftrightarrow> Writing \<in> set ps))"
proof -
  have r: "lock_reach 2 (\<lparr>cache_w_lock = False, cache_r_lock = 1, r_pend = 0, rw_pend = 2, r_susp = False\<rparr>,
      [Reading, T_sleep, T_sleep, Idle, Idle])"
    using run_ex [of 2 2] by (simp add: eval_nat_numeral)
  from cache_lock_exclusive [OF r] r show ?thesis by (simp add: Let_def)
qed

text \<open>C25: no wake-up is lost. As long as at most two threads are in \<open>timedlock_cache_rw\<close> (the control thread is
  the only caller), whenever the lock is free and a thread waits for it, some waiting thread has been woken and
  obtains the lock when it tests its condition again; this holds with waits that time out and with spurious wake-ups.\<close>

theorem cache_lock_live:
  assumes "lock_reach K (l, ps)" "K \<le> 2" "Reading \<notin> set ps" "Writing \<notin> set ps"
    "\<exists>p \<in> set ps. r_waits p \<or> w_waits p \<or> t_waits p"
  shows "\<exists>i < length ps. awake (ps ! i) \<and>
    (\<exists>l'. lock_step K (l, ps) (l', ps[i := if ps ! i = R_awake then Reading else Writing]))"
proof -
  have c: "counts_ok l (tally ps)" by (rule reach_counts [OF assms(1)])
  have v: "live_ok K l (tally ps)" by (rule reach_live [OF assms(1,2)])
  note nn = tally_nonneg [of ps]
  have z: "tally ps Reading = 0" "\<not> cache_w_lock l"
    using c tally_set [of ps Reading] tally_set [of ps Writing] nn [of Reading] assms(3,4)
    by (auto simp: counts_ok_def split: if_splits)
  then have f: "cache_r_lock l = 0" using c by (simp add: counts_ok_def)
  obtain p where p: "p \<in> set ps" "r_waits p \<or> w_waits p \<or> t_waits p" using assms(5) by blast
  have w: "0 < r_pend l + rw_pend l"
  proof -
    have "0 < tally ps p" using p(1) tally_set by simp
    then show ?thesis using p(2) c nn [of R_sleep] nn [of R_awake] nn [of W_sleep] nn [of W_awake] nn [of T_sleep] nn [of T_awake]
      by (auto simp: counts_ok_def r_waits_def w_waits_def t_waits_def)
  qed
  have "0 < tally ps W_awake \<or> 0 < tally ps T_awake \<or>
      (0 < tally ps R_awake \<and> \<not> r_susp l \<and> rw_pend l \<le> SUSP_THRESH (r_pend l))"
  proof (cases "0 < rw_pend l")
    case True
    then show ?thesis using v z(2) f nn [of W_awake] nn [of T_awake] by (auto simp: live_ok_def live_time_def live_susp_def live_wake_def)
  next
    case False
    then have wz: "tally ps W_sleep + tally ps W_awake = 0" "rw_pend l = 0"
      using c nn [of W_sleep] nn [of W_awake] nn [of T_sleep] nn [of T_awake] by (auto simp: counts_ok_def)
    then have "\<not> r_susp l" "tally ps R_sleep = 0" using v z(2) nn [of R_sleep] by (auto simp: live_ok_def live_time_def live_susp_def live_wake_def)
    moreover have "0 \<le> r_pend l" using c nn [of R_sleep] nn [of R_awake] by (simp add: counts_ok_def)
    ultimately show ?thesis using w wz(2) c thresh(1) [of "r_pend l"] by (auto simp: counts_ok_def)
  qed
  then consider (W) "W_awake \<in> set ps" | (T) "T_awake \<in> set ps"
    | (R) "R_awake \<in> set ps" "\<not> r_susp l" "rw_pend l \<le> SUSP_THRESH (r_pend l)"
    by (auto simp: tally_set)
  then show ?thesis
  proof cases
    case W
    then obtain i where i: "i < length ps" "ps ! i = W_awake" by (auto simp: in_set_conv_nth)
    show ?thesis
      using lock_step.w_retry [OF i, of l True] z(2) f i by (intro exI [of _ i]) (auto simp: awake_def w_test_def)
  next
    case T
    then obtain i where i: "i < length ps" "ps ! i = T_awake" by (auto simp: in_set_conv_nth)
    show ?thesis
      using lock_step.t_retry [OF i, of l True] z(2) f i by (intro exI [of _ i]) (auto simp: awake_def w_test_def)
  next
    case R
    then obtain i where i: "i < length ps" "ps ! i = R_awake" by (auto simp: in_set_conv_nth)
    show ?thesis
      using lock_step.r_retry [OF i, of l True] z(2) f i R(2,3)
      by (intro exI [of _ i]) (auto simp: awake_def r_test_def r_blocked_def Let_def)
  qed
qed

text \<open>A writer is woken when the reader leaves.\<close>

lemma reader_leaves:
  "lock_step K (\<lparr>cache_w_lock = False, cache_r_lock = 1, r_pend = 0, rw_pend = 1, r_susp = False\<rparr>, [Reading, T_sleep, Idle, Idle, Idle])
    (\<lparr>cache_w_lock = False, cache_r_lock = 0, r_pend = 0, rw_pend = 1, r_susp = False\<rparr>, [Idle, T_awake, Idle, Idle, Idle])"
proof (rule lock_step.r_unlock [of 0])
  show "wakes (Some Signal_rw) ([Reading, T_sleep, Idle, Idle, Idle][0 := Idle]) [Idle, T_awake, Idle, Idle, Idle]"
    using wakes_one [of 1 "[Idle, T_sleep, Idle, Idle, Idle]"] by (simp add: wake_def)
qed (simp_all add: unlock_cache_r_def Let_def)

theorem cache_lock_live_witness:
  "\<exists>i < 5. \<exists>l'. lock_step 1 (\<lparr>cache_w_lock = False, cache_r_lock = 0, r_pend = 0, rw_pend = 1, r_susp = False\<rparr>,
      [Idle, T_awake, Idle, Idle, Idle])
    (l', [Idle, T_awake, Idle, Idle, Idle][i := if [Idle, T_awake, Idle, Idle, Idle] ! i = R_awake then Reading else Writing])"
proof -
  have "lock_reach 1 (\<lparr>cache_w_lock = False, cache_r_lock = 1, r_pend = 0, rw_pend = 1, r_susp = False\<rparr>,
      [Reading, T_sleep, Idle, Idle, Idle])"
    using run_ex [of 1 1] by (simp add: eval_nat_numeral)
  from reach_step [OF this reader_leaves]
  have r: "lock_reach 1 (\<lparr>cache_w_lock = False, cache_r_lock = 0, r_pend = 0, rw_pend = 1, r_susp = False\<rparr>,
      [Idle, T_awake, Idle, Idle, Idle])" .
  have "\<exists>p \<in> set [Idle, T_awake, Idle, Idle, Idle]. r_waits p \<or> w_waits p \<or> t_waits p" by (simp add: t_waits_def)
  moreover have "Reading \<notin> set [Idle, T_awake, Idle, Idle, Idle]" "Writing \<notin> set [Idle, T_awake, Idle, Idle, Idle]" by simp_all
  moreover have "length [Idle, T_awake, Idle, Idle, Idle] = 5" by simp
  ultimately show ?thesis using cache_lock_live [OF r] one_le_numeral by metis
qed

text \<open>The end of the run with three waits with a time limit: the second reader is suspended, the waits time out.\<close>

abbreviation lock_vals :: "int \<Rightarrow> int \<Rightarrow> int \<Rightarrow> bool \<Rightarrow> cache_lock" where
  "lock_vals r rp wp su \<equiv> \<lparr>cache_w_lock = False, cache_r_lock = r, r_pend = rp, rw_pend = wp, r_susp = su\<rparr>"

lemma timeout_ex:
  assumes "lock_reach K (lock_vals 1 1 (wp + 1) True, ps)" "i < length ps" "ps ! i = T_sleep"
  shows "lock_reach K (lock_vals 1 1 wp True, ps[i := Idle])"
  using reach_step [OF assms(1) t_timeout [OF assms(2,3)]] by (simp add: timedlock_timeout_def)

text \<open>What the readers do by themselves: steps after which no thread has or wants the lock to write.\<close>

definition wants_write :: "pc \<Rightarrow> bool" where
  "wants_write p \<longleftrightarrow> p = Writing \<or> w_waits p \<or> t_waits p"

definition readers_step :: "nat \<Rightarrow> cache_lock \<times> pc list \<Rightarrow> cache_lock \<times> pc list \<Rightarrow> bool" where
  "readers_step K s s' \<longleftrightarrow> lock_step K s s' \<and> (\<forall>p \<in> set (snd s'). \<not> wants_write p)"

definition all_suspended :: "cache_lock \<times> pc list \<Rightarrow> bool" where
  "all_suspended s \<longleftrightarrow> r_susp (fst s) \<and> \<not> cache_w_lock (fst s) \<and> cache_r_lock (fst s) = 0 \<and>
     (\<forall>p \<in> set (snd s). p = Idle \<or> r_waits p)"

lemma suspended_r_test: "r_susp l \<Longrightarrow> \<exists>l'. r_test l = (False, l') \<and> r_susp l' \<and>
    cache_w_lock l' = cache_w_lock l \<and> cache_r_lock l' = cache_r_lock l"
  by (auto simp: r_test_def r_blocked_def Let_def)

lemma all_suspended_step:
  assumes "readers_step K s s'" "all_suspended s"
  shows "all_suspended s' \<and> length (snd s') = length (snd s) \<and>
    (\<forall>i < length (snd s). r_waits (snd s ! i) \<longrightarrow> r_waits (snd s' ! i))"
proof -
  obtain l ps l' ps' where s: "s = (l, ps)" "s' = (l', ps')" by (cases s; cases s')
  have st: "lock_step K (l, ps) (l', ps')" and nw: "\<And>p. p \<in> set ps' \<Longrightarrow> \<not> wants_write p"
    using assms(1) s by (auto simp: readers_step_def)
  have inv: "r_susp l" "\<not> cache_w_lock l" "cache_r_lock l = 0" "\<And>p. p \<in> set ps \<Longrightarrow> p = Idle \<or> r_waits p"
    using assms(2) s by (auto simp: all_suspended_def)
  have upd: ?thesis if i: "i < length ps" and p: "ps' = ps[i := p]" "p = Idle \<and> \<not> r_waits (ps ! i) \<or> r_waits p"
    and l: "r_susp l'" "\<not> cache_w_lock l'" "cache_r_lock l' = 0" for i p
    using that inv(4) set_update_subset_insert [of ps i p] s
    by (auto simp: all_suspended_def nth_list_update)
  have bad: False if "i < length ps" "ps' = ps[i := p]" "wants_write p" for i p
    using that nw set_update_memI by metis
  have mem: "ps ! i = Idle \<or> r_waits (ps ! i)" if "i < length ps" for i using inv(4) that by simp
  from st show ?thesis
  proof (cases rule: lock_step.cases)
    case (r_lock i got)
    then have "r_test (l\<lparr>r_pend := r_pend l + 1\<rparr>) = (got, l')" by (simp add: lock_cache_r_def)
    then have "\<not> got" "r_susp l'" "\<not> cache_w_lock l'" "cache_r_lock l' = 0"
      using suspended_r_test [of "l\<lparr>r_pend := r_pend l + 1\<rparr>"] inv(1-3) by auto
    then show ?thesis using r_lock upd [of i R_sleep] by (simp add: r_waits_def)
  next
    case (r_retry i got)
    then have "\<not> got" "r_susp l'" "\<not> cache_w_lock l'" "cache_r_lock l' = 0"
      using suspended_r_test [of l] inv(1-3) by auto
    then show ?thesis using r_retry upd [of i R_sleep] by (simp add: r_waits_def)
  next
    case (spurious i)
    have "wake (ps ! i) = Idle \<and> \<not> r_waits (ps ! i) \<or> r_waits (wake (ps ! i))"
      using mem [OF spurious(3)] by (auto simp: wake_def r_waits_def)
    then show ?thesis using spurious upd [of i "wake (ps ! i)"] inv(1-3) by simp
  next
    case (r_unlock i wk)
    then show ?thesis using mem [of i] by (auto simp: r_waits_def)
  next
    case (w_lock i got)
    then show ?thesis using bad [of i] by (cases got) (auto simp: wants_write_def w_waits_def)
  next
    case (w_retry i got)
    then show ?thesis using mem [of i] by (auto simp: r_waits_def)
  next
    case (t_lock i got)
    then show ?thesis using bad [of i] by (cases got) (auto simp: wants_write_def t_waits_def)
  next
    case (t_retry i got)
    then show ?thesis using mem [of i] by (auto simp: r_waits_def)
  next
    case (t_timeout i)
    then show ?thesis using mem [of i] by (auto simp: r_waits_def)
  next
    case (w_unlock i wk)
    then show ?thesis using mem [of i] by (auto simp: r_waits_def)
  qed
qed

lemma all_suspended_run:
  assumes "(readers_step K)\<^sup>*\<^sup>* s s'" "all_suspended s" "i < length (snd s)" "r_waits (snd s ! i)"
  shows "all_suspended s' \<and> length (snd s') = length (snd s) \<and> r_waits (snd s' ! i)"
  using assms(1)
proof (induction rule: rtranclp_induct)
  case (step y z)
  then show ?case using all_suspended_step [OF step(2)] assms(3) by auto
qed (use assms in simp)

text \<open>C26: the bound of two is exact. With three threads in \<open>timedlock_cache_rw\<close> a reader that comes meanwhile is
  suspended; when the three have timed out and then the lock is given up, nobody is woken: the lock is free and the reader
  sleeps. From there on, as long as no thread asks for the lock to write, whatever readers come and whatever
  spurious wake-ups happen, the lock stays free, no reader gets it, and the first one keeps waiting. (A writer that comes
  later ends this: when it unlocks, it lifts the suspension and wakes the readers.)\<close>

theorem cache_lock_stall:
  "lock_reach 3 (lock_vals 0 1 0 True, [Idle, Idle, Idle, Idle, R_sleep]) \<and>
   (\<forall>l ps. (readers_step 3)\<^sup>*\<^sup>* (lock_vals 0 1 0 True, [Idle, Idle, Idle, Idle, R_sleep]) (l, ps) \<longrightarrow>
     \<not> cache_w_lock l \<and> cache_r_lock l = 0 \<and> Reading \<notin> set ps \<and> r_waits (ps ! 4))"
proof -
  let ?ps = "[Idle, Idle, Idle, Idle, R_sleep]"
  have "lock_reach 3 (lock_vals 1 0 3 False, [Reading, T_sleep, T_sleep, T_sleep, Idle])"
    using run_ex [of 3 3] by (simp add: eval_nat_numeral)
  moreover have "lock_step 3 (lock_vals 1 0 3 False, [Reading, T_sleep, T_sleep, T_sleep, Idle])
      (lock_vals 1 1 3 True, [Reading, T_sleep, T_sleep, T_sleep, Idle][4 := if False then Reading else R_sleep])"
    by (rule r_lock) (simp_all add: lock_cache_r_def r_test_def r_blocked_def SUSP_THRESH_def)
  ultimately have "lock_reach 3 (lock_vals 1 1 3 True, [Reading, T_sleep, T_sleep, T_sleep, R_sleep])"
    using reach_step by fastforce
  from timeout_ex [of 3 2, simplified, OF this, of 1]
  have "lock_reach 3 (lock_vals 1 1 2 True, [Reading, Idle, T_sleep, T_sleep, R_sleep])" by simp
  from timeout_ex [of 3 1, simplified, OF this, of 2]
  have "lock_reach 3 (lock_vals 1 1 1 True, [Reading, Idle, Idle, T_sleep, R_sleep])" by (simp add: eval_nat_numeral)
  from timeout_ex [of 3 0, simplified, OF this, of 3]
  have r: "lock_reach 3 (lock_vals 1 1 0 True, [Reading, Idle, Idle, Idle, R_sleep])" by (simp add: eval_nat_numeral)
  have "lock_step 3 (lock_vals 1 1 0 True, [Reading, Idle, Idle, Idle, R_sleep]) (lock_vals 0 1 0 True, ?ps)"
    using wakes_nobody [of ?ps]
    by (intro r_unlock [of 0 _ _ "Some Signal_rw"]) (simp_all add: unlock_cache_r_def)
  from reach_step [OF r this] have "lock_reach 3 (lock_vals 0 1 0 True, ?ps)" .
  moreover have s: "all_suspended (lock_vals 0 1 0 True, ?ps)" by (simp add: all_suspended_def r_waits_def)
  have "\<not> cache_w_lock l \<and> cache_r_lock l = 0 \<and> Reading \<notin> set ps \<and> r_waits (ps ! 4)"
    if "(readers_step 3)\<^sup>*\<^sup>* (lock_vals 0 1 0 True, ?ps) (l, ps)" for l ps
    using all_suspended_run [OF that s, of 4] by (auto simp: all_suspended_def r_waits_def)
  ultimately show ?thesis by blast
qed

text \<open>A second reader comes: it goes to sleep as well.\<close>

theorem cache_lock_stall_witness:
  "lock_cache_r (lock_vals 0 1 0 True) = (False, lock_vals 0 2 0 True) \<and> lock_reach 3 (lock_vals 0 1 0 True, [Idle, Idle, Idle, Idle, R_sleep]) \<and>
   Reading \<notin> set [R_sleep, Idle, Idle, Idle, R_sleep] \<and> r_waits ([R_sleep, Idle, Idle, Idle, R_sleep] ! 4)"
proof -
  have l: "lock_cache_r (lock_vals 0 1 0 True) = (False, lock_vals 0 2 0 True)"
    by (simp add: lock_cache_r_def r_test_def r_blocked_def SUSP_THRESH_def)
  then have "readers_step 3 (lock_vals 0 1 0 True, [Idle, Idle, Idle, Idle, R_sleep])
      (lock_vals 0 2 0 True, [R_sleep, Idle, Idle, Idle, R_sleep])"
    using lock_step.r_lock [of 0 "[Idle, Idle, Idle, Idle, R_sleep]" "lock_vals 0 1 0 True" False "lock_vals 0 2 0 True" 3]
    by (simp add: readers_step_def wants_write_def w_waits_def t_waits_def)
  then show ?thesis using cache_lock_stall l by blast
qed

end
