(* ===== verification/RrList.thy ===== *)
theory RrList
  imports Prelude "HOL-Library.Multiset" "HOL-Library.Monad_Syntax"
begin

text \<open>
  The list of the cache's record sets in the order of their age, pdnsd/src/cache.c: \<open>insert_rrl\<close> (its list
  part), \<open>remove_rrl\<close>, \<open>listmerge\<close>, \<open>sort_rrl\<close>. The doubly linked list is in an explicit store; an access to an
  address that is not allocated, and a failed assertion, make the result \<open>None\<close>. The time stamp of an
  entry, \<open>get_rrlent_ts\<close>, is the parameter \<open>ts\<close>: it is read from the record set the entry points to.
\<close>

subsection \<open>The structures\<close>

record rr_lent =
  le_next :: "nat option"
  le_prev :: "nat option"
  le_rrset :: "nat option"
  le_cent :: nat
  le_idx :: int

type_synonym rr_lents = "nat \<Rightarrow> rr_lent option"

record rr_list =
  rl_ents :: rr_lents
  rrset_l :: "nat option"
  rrset_l_tail :: "nat option"

definition rl_empty :: rr_list where
  "rl_empty = \<lparr>rl_ents = \<lambda>_. None, rrset_l = None, rrset_l_tail = None\<rparr>"

definition set_next :: "rr_lents \<Rightarrow> nat \<Rightarrow> nat option \<Rightarrow> rr_lents option" where
  "set_next E a p = map_option (\<lambda>e. E(a \<mapsto> e\<lparr>le_next := p\<rparr>)) (E a)"

definition set_prev :: "rr_lents \<Rightarrow> nat \<Rightarrow> nat option \<Rightarrow> rr_lents option" where
  "set_prev E a p = map_option (\<lambda>e. E(a \<mapsto> e\<lparr>le_prev := p\<rparr>)) (E a)"

subsection \<open>Insertion and removal\<close>

text \<open>The search from the back for an entry that is not newer.\<close>

partial_function (option) find_back :: "(rr_lent \<Rightarrow> int option) \<Rightarrow> rr_lents \<Rightarrow> nat option \<Rightarrow> int \<Rightarrow> nat option option" where
  "find_back ts E le t = (case le of
     None \<Rightarrow> Some None
   | Some a \<Rightarrow> do {
       e \<leftarrow> E a;
       t' \<leftarrow> ts e;
       if t \<ge> t' then Some (Some a) else find_back ts E (le_prev e) t
     })"

definition rrl_insert_front :: "nat \<Rightarrow> rr_list \<Rightarrow> rr_list option" where
  "rrl_insert_front ne l = do {
     E \<leftarrow> set_next (rl_ents l) ne (rrset_l l);
     case rrset_l l of
       Some fe \<Rightarrow> do { E \<leftarrow> set_prev E fe (Some ne); Some (l\<lparr>rl_ents := E, rrset_l := Some ne\<rparr>) }
     | None \<Rightarrow> Some (l\<lparr>rl_ents := E, rrset_l := Some ne, rrset_l_tail := Some ne\<rparr>)
   }"

definition rrl_insert_after :: "nat \<Rightarrow> nat \<Rightarrow> rr_list \<Rightarrow> rr_list option" where
  "rrl_insert_after le ne l = do {
     e \<leftarrow> rl_ents l le;
     E \<leftarrow> set_next (rl_ents l) ne (le_next e);
     E \<leftarrow> set_prev E ne (Some le);
     case le_next e of
       Some nx \<Rightarrow> do {
         E \<leftarrow> set_prev E nx (Some ne);
         E \<leftarrow> set_next E le (Some ne);
         Some (l\<lparr>rl_ents := E\<rparr>)
       }
     | None \<Rightarrow> do {
         E \<leftarrow> set_next E le (Some ne);
         Some (l\<lparr>rl_ents := E, rrset_l_tail := Some ne\<rparr>)
       }
   }"

definition rrl_append :: "nat \<Rightarrow> rr_list \<Rightarrow> rr_list option" where
  "rrl_append ne l = do {
     E \<leftarrow> set_prev (rl_ents l) ne (rrset_l_tail l);
     case rrset_l_tail l of
       Some te \<Rightarrow> do { E \<leftarrow> set_next E te (Some ne); Some (l\<lparr>rl_ents := E, rrset_l_tail := Some ne\<rparr>) }
     | None \<Rightarrow> Some (l\<lparr>rl_ents := E, rrset_l := Some ne, rrset_l_tail := Some ne\<rparr>)
   }"

text \<open>The list part of \<open>insert_rrl\<close>; the flag is \<open>insert_sort\<close>, \<open>ne\<close> the address of the new entry \<open>e\<close>.\<close>

definition rrl_link :: "(rr_lent \<Rightarrow> int option) \<Rightarrow> bool \<Rightarrow> nat \<Rightarrow> rr_lent \<Rightarrow> rr_list \<Rightarrow> rr_list option" where
  "rrl_link ts srt ne e l = (let l = l\<lparr>rl_ents := (rl_ents l)(ne \<mapsto> e)\<rparr> in
     if srt then do {
       t \<leftarrow> ts e;
       le \<leftarrow> find_back ts (rl_ents l) (rrset_l_tail l) t;
       case le of None \<Rightarrow> rrl_insert_front ne l | Some le \<Rightarrow> rrl_insert_after le ne l
     } else rrl_append ne l)"

definition rrl_remove :: "nat \<Rightarrow> rr_list \<Rightarrow> rr_list option" where
  "rrl_remove le l = do {
     e \<leftarrow> rl_ents l le;
     l \<leftarrow> (case le_next e of
        Some nx \<Rightarrow> map_option (\<lambda>E. l\<lparr>rl_ents := E\<rparr>) (set_prev (rl_ents l) nx (le_prev e))
      | None \<Rightarrow> Some (l\<lparr>rrset_l_tail := le_prev e\<rparr>));
     l \<leftarrow> (case le_prev e of
        Some pv \<Rightarrow> map_option (\<lambda>E. l\<lparr>rl_ents := E\<rparr>) (set_next (rl_ents l) pv (le_next e))
      | None \<Rightarrow> Some (l\<lparr>rrset_l := le_next e\<rparr>));
     Some (l\<lparr>rl_ents := (rl_ents l)(le := None)\<rparr>)
   }"

subsection \<open>Merge sort\<close>

text \<open>
  The pointer \<open>s\<close> to the place where the next entry is stored is \<open>&l\<close> (\<open>None\<close>) or the \<open>next\<close> field of an entry.
\<close>

definition lm_store :: "rr_lents \<Rightarrow> nat option \<Rightarrow> nat option \<Rightarrow> nat option \<Rightarrow> (rr_lents \<times> nat option) option" where
  "lm_store E l s v = (case s of None \<Rightarrow> Some (E, v) | Some a \<Rightarrow> map_option (\<lambda>E. (E, l)) (set_next E a v))"

partial_function (option) lm_loop ::
  "(rr_lent \<Rightarrow> int option) \<Rightarrow> rr_lents \<Rightarrow> nat option \<Rightarrow> nat option \<Rightarrow> nat \<Rightarrow> nat \<Rightarrow> (rr_lents \<times> nat option) option" where
  "lm_loop ts E l s p q = do {
     e \<leftarrow> E p; tp \<leftarrow> ts e;
     e' \<leftarrow> E q; tq \<leftarrow> ts e';
     if tp \<le> tq then do {
       (E, l) \<leftarrow> lm_store E l s (Some p);
       e \<leftarrow> E p;
       case le_next e of None \<Rightarrow> lm_store E l (Some p) (Some q) | Some p' \<Rightarrow> lm_loop ts E l (Some p) p' q
     } else do {
       (E, l) \<leftarrow> lm_store E l s (Some q);
       e' \<leftarrow> E q;
       case le_next e' of None \<Rightarrow> lm_store E l (Some q) (Some p) | Some q' \<Rightarrow> lm_loop ts E l (Some q) p q'
     }
   }"

definition listmerge :: "(rr_lent \<Rightarrow> int option) \<Rightarrow> rr_lents \<Rightarrow> nat option \<Rightarrow> nat option \<Rightarrow> (rr_lents \<times> nat option) option" where
  "listmerge ts E p q = (case p of
     None \<Rightarrow> Some (E, q)
   | Some p' \<Rightarrow> (case q of None \<Rightarrow> Some (E, p) | Some q' \<Rightarrow> lm_loop ts E None None p' q'))"

definition NTMPSORT :: nat where "NTMPSORT = 32"

text \<open>The array \<open>tmp\<close>; \<open>fill\<close> and \<open>counter\<close> are indices. Elements from \<open>fill\<close> on are not read.\<close>

fun sort_carry ::
  "(rr_lent \<Rightarrow> int option) \<Rightarrow> rr_lents \<Rightarrow> nat option list \<Rightarrow> nat \<Rightarrow> nat \<Rightarrow> nat option \<Rightarrow>
   (rr_lents \<times> nat option list \<times> nat \<times> nat option) option" where
  "sort_carry ts E tmp 0 counter carry = Some (E, tmp, counter, carry)"
| "sort_carry ts E tmp (Suc n) counter carry =
     (if counter \<ge> length tmp then None
      else if tmp ! counter = None then Some (E, tmp, counter, carry)
      else do {
        (E, carry) \<leftarrow> listmerge ts E (tmp ! counter) carry;
        sort_carry ts E (tmp[counter := None]) n (counter + 1) carry
      })"

partial_function (option) sort_fill ::
  "(rr_lent \<Rightarrow> int option) \<Rightarrow> rr_lents \<Rightarrow> nat option list \<Rightarrow> nat \<Rightarrow> nat \<Rightarrow> (rr_lents \<times> nat option list \<times> nat) option" where
  "sort_fill ts E tmp fill rem = do {
     e \<leftarrow> E rem;
     E \<leftarrow> set_next E rem None;
     (E, tmp, counter, carry) \<leftarrow> sort_carry ts E tmp fill 0 (Some rem);
     if counter = NTMPSORT then None
     else let tmp = tmp[counter := carry];
              fill = (if counter = fill then fill + 1 else fill)
       in (case le_next e of None \<Rightarrow> Some (E, tmp, fill) | Some rem \<Rightarrow> sort_fill ts E tmp fill rem)
   }"

text \<open>The merging of the fragments, \<open>n\<close> of them left from \<open>counter\<close>.\<close>

fun sort_rest :: "(rr_lent \<Rightarrow> int option) \<Rightarrow> rr_lents \<Rightarrow> nat option list \<Rightarrow> nat \<Rightarrow> nat \<Rightarrow> nat option \<Rightarrow> (rr_lents \<times> nat option) option" where
  "sort_rest ts E tmp counter 0 carry = Some (E, carry)"
| "sort_rest ts E tmp counter (Suc n) carry =
     (if counter \<ge> length tmp then None
      else do {
        (E, carry) \<leftarrow> listmerge ts E (tmp ! counter) carry;
        sort_rest ts E tmp (counter + 1) n carry
      })"

partial_function (option) sort_back :: "rr_lents \<Rightarrow> nat option \<Rightarrow> nat option \<Rightarrow> (rr_lents \<times> nat option) option" where
  "sort_back E p q = (case p of
     None \<Rightarrow> Some (E, q)
   | Some a \<Rightarrow> do {
       e \<leftarrow> E a;
       E \<leftarrow> set_prev E a q;
       sort_back E (le_next e) (Some a)
     })"

definition sort_rrl :: "(rr_lent \<Rightarrow> int option) \<Rightarrow> rr_list \<Rightarrow> rr_list option" where
  "sort_rrl ts l = (case rrset_l l of
     None \<Rightarrow> Some l
   | Some fe \<Rightarrow> do {
       e \<leftarrow> rl_ents l fe;
       if le_next e = None then Some l
       else do {
         (E, tmp, fill) \<leftarrow> sort_fill ts (rl_ents l) (replicate NTMPSORT None) 0 fe;
         (E, carry) \<leftarrow> sort_rest ts E tmp 1 (fill - 1) (tmp ! 0);
         (E, q) \<leftarrow> sort_back E carry None;
         Some \<lparr>rl_ents = E, rrset_l = carry, rrset_l_tail = q\<rparr>
       }
     })"

end
