(* ===== verification/CacheEntry.thy ===== *)
theory CacheEntry
  imports DnsHash RrList
begin

text \<open>
  The entries of the DNS cache, pdnsd/src/cache.c and cache.h, and what they share: the list of record sets
  by age, the table of names, the counters. A structure that has one owner is a value inside its owner (the
  record data in their set, the sets in the arrays of their entry), with the address of the set kept to tell
  it from another one; an access through a pointer to what is no longer there, to the member of the union that
  is not in use, or outside an array, makes the result \<open>None\<close>. \<open>malloc\<close> is the parameter \<open>fails\<close>: whether the call of
  that number fails; the addresses it returns are new. \<open>dc_live\<close> is the number of allocated blocks. The
  counters and sizes are integers, times are integers of seconds, \<open>now\<close> is the result of \<open>time(NULL)\<close>.
\<close>

subsection \<open>Record types\<close>

definition T_MIN :: int where "T_MIN = 1"
definition T_NUM :: int where "T_NUM = 51"
definition NRRMU :: nat where "NRRMU = 8"
definition NRREXT :: nat where "NRREXT = 39"
definition NRRTOT :: nat where "NRRTOT = 47"
definition T_A :: int where "T_A = 1"
definition T_PTR :: int where "T_PTR = 12"

definition rrlkuptab :: "nat list" where
  "rrlkuptab = [0, 1, 8, 9, 2, 3, 10, 11, 12, 13, 14, 4, 15, 16, 5, 6, 17, 18, 19, 20, 21, 22, 23, 24, 25, 26, 27, 7,
     28, 29, 30, 31, 32, 33, 34, 35, 36, 47, 48, 49, 50, 37, 38, 39, 40, 41, 42, 43, 44, 45, 46]"

subsection \<open>Flags\<close>

type_synonym flags = "16 word"

definition has_flag :: "flags \<Rightarrow> flags \<Rightarrow> bool" where "has_flag f m \<longleftrightarrow> f AND m \<noteq> 0"
definition clear_flag :: "flags \<Rightarrow> flags \<Rightarrow> flags" where "clear_flag f m = f AND NOT m"

definition CF_NEGATIVE :: flags where "CF_NEGATIVE = 1"
definition CF_LOCAL :: flags where "CF_LOCAL = 2"
definition CF_AUTH :: flags where "CF_AUTH = 4"
definition CF_NOCACHE :: flags where "CF_NOCACHE = 8"
definition CF_ADDITIONAL :: flags where "CF_ADDITIONAL = 16"
definition CF_NOPURGE :: flags where "CF_NOPURGE = 32"
definition CF_ROOTSERV :: flags where "CF_ROOTSERV = 64"
definition DF_NEGATIVE :: flags where "DF_NEGATIVE = 1"
definition DF_LOCAL :: flags where "DF_LOCAL = 2"
definition DF_AUTH :: flags where "DF_AUTH = 4"
definition DF_NOCACHE :: flags where "DF_NOCACHE = 8"
definition DF_WILD :: flags where "DF_WILD = 16"
definition cundef :: nat where "cundef = 0xff"
definition CACHE_LAT :: int where "CACHE_LAT = 120"

definition CLAT_ADJ :: "int \<Rightarrow> int" where
  "CLAT_ADJ ttl = (if ttl < CACHE_LAT then CACHE_LAT else ttl)"

subsection \<open>Structures\<close>

definition sizeof_dns_cent :: int where "sizeof_dns_cent = 104"
definition sizeof_rr_set :: int where "sizeof_rr_set = 40"
definition sizeof_rr_bucket :: int where "sizeof_rr_bucket = 16"
definition sizeof_ptr :: int where "sizeof_ptr = 8"

record rr_set =
  rs_addr :: nat
  rs_lent :: "nat option"
  rs_ttl :: int
  rs_ts :: int
  rs_flags :: flags
  rs_rrs :: "byte list list"

datatype cent_data =
    Neg (neg_lent: "nat option") (neg_ttl: int) (neg_ts: int)
  | Rr (rrmu: "rr_set option list") (rrext: "rr_set option list option")

record dns_cent =
  ce_qname :: "byte list"
  ce_cs :: int
  ce_num_rrs :: int
  ce_flags :: flags
  ce_data :: cent_data
  ce_c_ns :: nat
  ce_c_soa :: nat

record dcache =
  dc_mallocs :: nat
  dc_live :: int
  dc_rrl :: rr_list
  dc_insert_sort :: bool
  dc_cents :: "nat \<Rightarrow> dns_cent option"
  dc_table :: dns_table
  dc_cache_size :: int
  dc_ent_num :: int

definition dc_init :: dcache where
  "dc_init = \<lparr>dc_mallocs = 0, dc_live = 0, dc_rrl = rl_empty, dc_insert_sort = True, dc_cents = \<lambda>_. None,
     dc_table = mk_dns_hash, dc_cache_size = 0, dc_ent_num = 0\<rparr>"

definition cache_malloc :: "(nat \<Rightarrow> bool) \<Rightarrow> dcache \<Rightarrow> nat option \<times> dcache" where
  "cache_malloc fails c =
     (if fails (dc_mallocs c) then (None, c\<lparr>dc_mallocs := dc_mallocs c + 1\<rparr>)
      else (Some (dc_mallocs c), c\<lparr>dc_mallocs := dc_mallocs c + 1, dc_live := dc_live c + 1\<rparr>))"

definition cache_free :: "dcache \<Rightarrow> dcache" where
  "cache_free c = c\<lparr>dc_live := dc_live c - 1\<rparr>"

subsection \<open>The sets of an entry\<close>

definition is_neg :: "dns_cent \<Rightarrow> bool" where
  "is_neg ce \<longleftrightarrow> has_flag (ce_flags ce) DF_NEGATIVE"

definition list_at :: "'a list \<Rightarrow> nat \<Rightarrow> 'a option" where
  "list_at xs i = (if i < length xs then Some (xs ! i) else None)"

definition list_put :: "'a list \<Rightarrow> nat \<Rightarrow> 'a \<Rightarrow> 'a list option" where
  "list_put xs i x = (if i < length xs then Some (xs[i := x]) else None)"

definition RRARR_INDEX :: "dns_cent \<Rightarrow> nat \<Rightarrow> rr_set option option" where
  "RRARR_INDEX ce i = (case ce_data ce of
     Neg _ _ _ \<Rightarrow> None
   | Rr mu ext \<Rightarrow> if i < NRRMU then list_at mu i else Option.bind ext (\<lambda>x. list_at x (i - NRRMU)))"

definition RRARR_INDEX_TESTEXT :: "dns_cent \<Rightarrow> nat \<Rightarrow> rr_set option option" where
  "RRARR_INDEX_TESTEXT ce i =
     (if is_neg ce then Some None
      else case ce_data ce of
        Neg _ _ _ \<Rightarrow> None
      | Rr mu ext \<Rightarrow> if i < NRRMU then list_at mu i else (case ext of None \<Rightarrow> Some None | Some x \<Rightarrow> list_at x (i - NRRMU)))"

text \<open>Storing through \<open>RRARR_INDEX_PA\<close>.\<close>

definition rrarr_put :: "dns_cent \<Rightarrow> nat \<Rightarrow> rr_set option \<Rightarrow> dns_cent option" where
  "rrarr_put ce i s = (case ce_data ce of
     Neg _ _ _ \<Rightarrow> None
   | Rr mu ext \<Rightarrow>
       if i < NRRMU then map_option (\<lambda>mu. ce\<lparr>ce_data := Rr mu ext\<rparr>) (list_put mu i s)
       else Option.bind ext (\<lambda>x. map_option (\<lambda>x. ce\<lparr>ce_data := Rr mu (Some x)\<rparr>) (list_put x (i - NRRMU) s)))"

definition RRARR_LEN :: "dns_cent \<Rightarrow> nat option" where
  "RRARR_LEN ce =
     (if is_neg ce then Some 0
      else case ce_data ce of Neg _ _ _ \<Rightarrow> None | Rr _ ext \<Rightarrow> Some (if ext \<noteq> None then NRRTOT else NRRMU))"

definition GET_RRSMU :: "dns_cent \<Rightarrow> nat \<Rightarrow> rr_set option option" where
  "GET_RRSMU ce i = (if is_neg ce then Some None else case ce_data ce of Neg _ _ _ \<Rightarrow> None | Rr mu _ \<Rightarrow> list_at mu i)"

definition getrrset_NS :: "dns_cent \<Rightarrow> rr_set option option" where "getrrset_NS ce = GET_RRSMU ce 1"
definition getrrset_SOA :: "dns_cent \<Rightarrow> rr_set option option" where "getrrset_SOA ce = GET_RRSMU ce 3"
definition getrrset_A :: "dns_cent \<Rightarrow> rr_set option option" where "getrrset_A ce = GET_RRSMU ce 0"

definition getrrset_eff :: "dns_cent \<Rightarrow> int \<Rightarrow> rr_set option option" where
  "getrrset_eff ce type = do {
     idx \<leftarrow> list_at rrlkuptab (nat (type - T_MIN));
     case ce_data ce of
       Neg _ _ _ \<Rightarrow> None
     | Rr mu ext \<Rightarrow>
         if idx < NRRMU then list_at mu idx
         else let idx = idx - NRRMU in
           if idx < NRREXT then (case ext of None \<Rightarrow> Some None | Some x \<Rightarrow> list_at x idx) else Some None
   }"

definition getrrset :: "dns_cent \<Rightarrow> int \<Rightarrow> rr_set option option" where
  "getrrset ce type =
     (if is_neg ce then Some None
      else let tpi = type - T_MIN in if tpi \<ge> 0 \<and> tpi < T_NUM then getrrset_eff ce type else Some None)"

definition have_rr :: "dns_cent \<Rightarrow> int \<Rightarrow> bool option" where
  "have_rr ce type =
     (if is_neg ce then Some False
      else map_option (\<lambda>s. case s of None \<Rightarrow> False | Some rs \<Rightarrow> rs_rrs rs \<noteq> []) (getrrset_eff ce type))"

definition timedout :: "int \<Rightarrow> rr_set \<Rightarrow> bool" where
  "timedout now rs \<longleftrightarrow> rs_ts rs + CLAT_ADJ (rs_ttl rs) < now"

definition timedout_nxdom :: "int \<Rightarrow> dns_cent \<Rightarrow> bool option" where
  "timedout_nxdom now ce = (case ce_data ce of Neg _ ttl ts \<Rightarrow> Some (ts + CLAT_ADJ ttl < now) | Rr _ _ \<Rightarrow> None)"

subsection \<open>The list of sets by age\<close>

text \<open>The set an entry of the list points to; the time stamp of an entry.\<close>

definition le_deref :: "dcache \<Rightarrow> rr_lent \<Rightarrow> rr_set option" where
  "le_deref c le = do {
     p \<leftarrow> le_rrset le;
     ce \<leftarrow> dc_cents c (le_cent le);
     s \<leftarrow> RRARR_INDEX ce (nat (le_idx le));
     rs \<leftarrow> s;
     if rs_addr rs = p then Some rs else None
   }"

definition get_rrlent_ts :: "dcache \<Rightarrow> rr_lent \<Rightarrow> int option" where
  "get_rrlent_ts c le =
     (if le_rrset le \<noteq> None then map_option rs_ts (le_deref c le)
      else do {
        ce \<leftarrow> dc_cents c (le_cent le);
        case ce_data ce of Neg _ _ ts \<Rightarrow> Some ts | Rr _ _ \<Rightarrow> None
      })"

definition remove_rrl :: "nat \<Rightarrow> dcache \<Rightarrow> dcache option" where
  "remove_rrl le c = map_option (\<lambda>l. cache_free (c\<lparr>dc_rrl := l\<rparr>)) (rrl_remove le (dc_rrl c))"

text \<open>The argument \<open>sel\<close> is the set at an index of the entry at \<open>a\<close>, or \<open>NULL\<close> (with the index -1).\<close>

definition insert_rrl :: "(nat \<Rightarrow> bool) \<Rightarrow> nat option \<Rightarrow> nat \<Rightarrow> dcache \<Rightarrow> (bool \<times> dcache) option" where
  "insert_rrl fails sel a c = do {
     ce \<leftarrow> dc_cents c a;
     rs \<leftarrow> (case sel of None \<Rightarrow> Some None | Some i \<Rightarrow> do { s \<leftarrow> RRARR_INDEX ce i; rs \<leftarrow> s; Some (Some rs) });
     if (case rs of Some rs \<Rightarrow> has_flag (rs_flags rs) CF_LOCAL | None \<Rightarrow> False) \<or> has_flag (ce_flags ce) DF_LOCAL then Some (True, c)
     else (case cache_malloc fails c of
         (None, c) \<Rightarrow> Some (False, c)
       | (Some ne, c) \<Rightarrow> do {
           let e = \<lparr>le_next = None, le_prev = None, le_rrset = map_option rs_addr rs, le_cent = a,
                    le_idx = (case sel of None \<Rightarrow> - 1 | Some i \<Rightarrow> int i)\<rparr>;
           l \<leftarrow> rrl_link (get_rrlent_ts c) (dc_insert_sort c) ne e (dc_rrl c);
           ce \<leftarrow> (case rs of
              Some rs \<Rightarrow> Option.bind sel (\<lambda>i. rrarr_put ce i (Some (rs\<lparr>rs_lent := Some ne\<rparr>)))
            | None \<Rightarrow> (case ce_data ce of
                 Neg _ ttl ts \<Rightarrow> Some (ce\<lparr>ce_data := Neg (Some ne) ttl ts\<rparr>)
               | Rr _ _ \<Rightarrow> None));
           Some (True, c\<lparr>dc_rrl := l, dc_cents := (dc_cents c)(a \<mapsto> ce)\<rparr>)
         })
   }"

definition sort_rrl_cache :: "dcache \<Rightarrow> dcache option" where
  "sort_rrl_cache c = map_option (\<lambda>l. c\<lparr>dc_rrl := l\<rparr>) (sort_rrl (get_rrlent_ts c) (dc_rrl c))"

end
