(* ===== verification/CacheEntryOps.thy ===== *)
theory CacheEntryOps
  imports CacheEntry
begin

text \<open>
  The operations on one cache entry, pdnsd/src/cache.c: building it record by record, deleting sets, negating,
  copying and freeing it, and purging what has timed out. The entry is passed by value and returned: it is
  that of the caller, or the one at an address of the cache, which the caller stores back. A result of
  type \<open>bool\<close> is false where the code returns 0 because memory is out.
\<close>

subsection \<open>Building an entry\<close>

definition init_cent ::
  "(nat \<Rightarrow> bool) \<Rightarrow> byte list \<Rightarrow> int \<Rightarrow> int \<Rightarrow> flags \<Rightarrow> dcache \<Rightarrow> (dns_cent option \<times> dcache) option" where
  "init_cent fails qname ttl ts flags c = do {
     namesz \<leftarrow> rhnlen qname;
     case cache_malloc fails c of
       (None, c) \<Rightarrow> Some (None, c)
     | (Some _, c) \<Rightarrow> Some (Some
         \<lparr>ce_qname = take namesz qname,
          ce_cs = sizeof_dns_cent + int namesz,
          ce_num_rrs = 0,
          ce_flags = flags,
          ce_data = (if has_flag flags DF_NEGATIVE then Neg None ttl ts else Rr (replicate NRRMU None) None),
          ce_c_ns = cundef,
          ce_c_soa = cundef\<rparr>, c)
   }"

text \<open>A record is its data; \<open>next\<close> is the place in the list of its set.\<close>

definition create_rr :: "(nat \<Rightarrow> bool) \<Rightarrow> byte list \<Rightarrow> dcache \<Rightarrow> byte list option \<times> dcache" where
  "create_rr fails data c = (case cache_malloc fails c of (None, c) \<Rightarrow> (None, c) | (Some _, c) \<Rightarrow> (Some data, c))"

text \<open>A negative entry becomes one without sets.\<close>

definition make_positive :: "dns_cent \<Rightarrow> dcache \<Rightarrow> (dns_cent \<times> dcache) option" where
  "make_positive ce c = (case ce_data ce of
     Rr _ _ \<Rightarrow> None
   | Neg lent _ _ \<Rightarrow> do {
       c \<leftarrow> (case lent of None \<Rightarrow> Some c | Some le \<Rightarrow> remove_rrl le c);
       Some (ce\<lparr>ce_flags := clear_flag (ce_flags ce) DF_NEGATIVE, ce_data := Rr (replicate NRRMU None) None\<rparr>, c)
     })"

text \<open>The array of the rarely used sets, allocated when it is needed.\<close>

definition need_rrext :: "(nat \<Rightarrow> bool) \<Rightarrow> dns_cent \<Rightarrow> dcache \<Rightarrow> ((bool \<times> dns_cent) \<times> dcache) option" where
  "need_rrext fails ce c = (case ce_data ce of
     Neg _ _ _ \<Rightarrow> None
   | Rr mu (Some x) \<Rightarrow> Some ((True, ce), c)
   | Rr mu None \<Rightarrow> (case cache_malloc fails c of
       (None, c) \<Rightarrow> Some ((False, ce), c)
     | (Some _, c) \<Rightarrow>
         Some ((True, ce\<lparr>ce_data := Rr mu (Some (replicate NRREXT None)), ce_cs := ce_cs ce + sizeof_ptr * int NRREXT\<rparr>), c)))"

definition add_cent_rrset_by_index ::
  "(nat \<Rightarrow> bool) \<Rightarrow> dns_cent \<Rightarrow> nat \<Rightarrow> int \<Rightarrow> int \<Rightarrow> flags \<Rightarrow> dcache \<Rightarrow> ((bool \<times> dns_cent) \<times> dcache) option" where
  "add_cent_rrset_by_index fails ce idx ttl ts flags c = do {
     (ce, c) \<leftarrow> (if is_neg ce then make_positive ce c else Some (ce, c));
     ((ok, ce), c) \<leftarrow> (if idx < NRRMU then Some ((True, ce), c)
        else if idx - NRRMU < NRREXT then need_rrext fails ce c else None);
     if \<not> ok then Some ((False, ce), c)
     else (case cache_malloc fails c of
         (None, c) \<Rightarrow> do { ce \<leftarrow> rrarr_put ce idx None; Some ((False, ce), c) }
       | (Some p, c) \<Rightarrow> do {
           ce \<leftarrow> rrarr_put ce idx (Some \<lparr>rs_addr = p, rs_lent = None, rs_ttl = ttl, rs_ts = ts, rs_flags = flags, rs_rrs = []\<rparr>);
           Some ((True, ce\<lparr>ce_cs := ce_cs ce + sizeof_rr_set, ce_num_rrs := ce_num_rrs ce + 1\<rparr>), c)
         })
   }"

definition add_cent_rrset_by_type ::
  "(nat \<Rightarrow> bool) \<Rightarrow> dns_cent \<Rightarrow> int \<Rightarrow> int \<Rightarrow> int \<Rightarrow> flags \<Rightarrow> dcache \<Rightarrow> ((bool \<times> dns_cent) \<times> dcache) option" where
  "add_cent_rrset_by_type fails ce type ttl ts flags c =
     (let tpi = type - T_MIN in
      if tpi \<ge> 0 \<and> tpi < T_NUM then add_cent_rrset_by_index fails ce (rrlkuptab ! nat tpi) ttl ts flags c else None)"

text \<open>
  The pointer \<open>*rtail\<close> is \<open>NULL\<close> or a record of the set, given by its place. Also returned: the new \<open>*rtail\<close>.
\<close>

definition insert_after :: "nat \<Rightarrow> 'a \<Rightarrow> 'a list \<Rightarrow> 'a list option" where
  "insert_after k x xs = (if k < length xs then Some (take (Suc k) xs @ x # drop (Suc k) xs) else None)"

definition add_cent_rr_int ::
  "(nat \<Rightarrow> bool) \<Rightarrow> dns_cent \<Rightarrow> nat \<Rightarrow> int \<Rightarrow> int \<Rightarrow> flags \<Rightarrow> byte list \<Rightarrow> nat option \<Rightarrow> dcache \<Rightarrow>
   ((bool \<times> dns_cent \<times> nat option) \<times> dcache) option" where
  "add_cent_rr_int fails ce idx ttl ts flags data rtail c = (case create_rr fails data c of
     (None, c) \<Rightarrow> Some ((False, ce, rtail), c)
   | (Some rr, c) \<Rightarrow> (case rtail of
       None \<Rightarrow> do {
         s \<leftarrow> RRARR_INDEX_TESTEXT ce idx;
         ((ok, ce), c) \<leftarrow> (if s = None then add_cent_rrset_by_index fails ce idx ttl ts flags c else Some ((True, ce), c));
         if \<not> ok then Some ((False, ce, rtail), cache_free c)
         else do {
           s \<leftarrow> RRARR_INDEX ce idx;
           rs \<leftarrow> s;
           ce \<leftarrow> rrarr_put ce idx (Some (rs\<lparr>rs_rrs := rr # rs_rrs rs\<rparr>));
           Some ((True, ce\<lparr>ce_cs := ce_cs ce + sizeof_rr_bucket + int (length rr)\<rparr>, Some 0), c)
         }
       }
     | Some k \<Rightarrow> do {
         s \<leftarrow> RRARR_INDEX ce idx;
         rs \<leftarrow> s;
         rrs \<leftarrow> insert_after k rr (rs_rrs rs);
         ce \<leftarrow> rrarr_put ce idx (Some (rs\<lparr>rs_rrs := rrs\<rparr>));
         Some ((True, ce\<lparr>ce_cs := ce_cs ce + sizeof_rr_bucket + int (length rr)\<rparr>, Some (k + 1)), c)
       }))"

text \<open>The search for the same data: true when it is there; else the place of the last record.\<close>

fun rr_search :: "byte list \<Rightarrow> byte list list \<Rightarrow> nat \<Rightarrow> nat option \<Rightarrow> bool \<times> nat option" where
  "rr_search data [] i rtail = (False, rtail)"
| "rr_search data (rr # rrs) i rtail =
     (if length rr = length data \<and> rr = data then (True, rtail) else rr_search data rrs (i + 1) (Some i))"

definition add_cent_rr ::
  "(nat \<Rightarrow> bool) \<Rightarrow> dns_cent \<Rightarrow> int \<Rightarrow> int \<Rightarrow> int \<Rightarrow> flags \<Rightarrow> byte list \<Rightarrow> dcache \<Rightarrow> ((bool \<times> dns_cent) \<times> dcache) option" where
  "add_cent_rr fails ce type ttl ts flags data c =
     (if has_flag (ce_flags ce) DF_LOCAL \<and> \<not> has_flag flags CF_LOCAL then Some ((True, ce), c)
      else let tpi = type - T_MIN in
        if \<not> (tpi \<ge> 0 \<and> tpi < T_NUM) then None
        else let idx = rrlkuptab ! nat tpi in
          if \<not> idx < NRRTOT then None
          else do {
            s \<leftarrow> RRARR_INDEX_TESTEXT ce idx;
            (ce, found, rtail) \<leftarrow> (case s of
               None \<Rightarrow> Some (ce, False, None)
             | Some rs \<Rightarrow> do {
                 let rs = (if ttl < rs_ttl rs then rs\<lparr>rs_ttl := ttl\<rparr> else rs);
                 ce \<leftarrow> rrarr_put ce idx (Some rs);
                 let (found, rtail) = rr_search data (rs_rrs rs) 0 None;
                 Some (ce, found, rtail)
               });
            if found then Some ((True, ce), c)
            else do {
              ((ok, ce, _), c) \<leftarrow> add_cent_rr_int fails ce idx ttl ts flags data rtail c;
              Some ((ok, ce), c)
            }
          })"

subsection \<open>Deleting\<close>

text \<open>The size of the freed memory is returned.\<close>

fun del_rrs :: "byte list list \<Rightarrow> int \<Rightarrow> dcache \<Rightarrow> int \<times> dcache" where
  "del_rrs [] rv c = (rv, c)"
| "del_rrs (rr # rrs) rv c = del_rrs rrs (rv + sizeof_rr_bucket + int (length rr)) (cache_free c)"

definition del_rrset :: "rr_set \<Rightarrow> dcache \<Rightarrow> (int \<times> dcache) option" where
  "del_rrset rs c = do {
     c \<leftarrow> (case rs_lent rs of None \<Rightarrow> Some c | Some le \<Rightarrow> remove_rrl le c);
     let (rv, c) = del_rrs (rs_rrs rs) sizeof_rr_set c;
     Some (rv, cache_free c)
   }"

definition RRARR_INDEX_PA_TESTEXT :: "dns_cent \<Rightarrow> nat \<Rightarrow> bool option" where
  "RRARR_INDEX_PA_TESTEXT ce i =
     (if is_neg ce then Some False
      else case ce_data ce of Neg _ _ _ \<Rightarrow> None | Rr _ ext \<Rightarrow> Some (i < NRRMU \<or> ext \<noteq> None))"

definition del_cent_rrset_by_index :: "dns_cent \<Rightarrow> nat \<Rightarrow> dcache \<Rightarrow> ((int \<times> dns_cent) \<times> dcache) option" where
  "del_cent_rrset_by_index ce i c = do {
     pa \<leftarrow> RRARR_INDEX_PA_TESTEXT ce i;
     if \<not> pa then Some ((0, ce), c)
     else do {
       s \<leftarrow> RRARR_INDEX ce i;
       case s of
         None \<Rightarrow> Some ((0, ce), c)
       | Some rs \<Rightarrow> do {
           (rv, c) \<leftarrow> del_rrset rs c;
           ce \<leftarrow> rrarr_put ce i None;
           Some ((rv, ce\<lparr>ce_num_rrs := ce_num_rrs ce - 1, ce_cs := ce_cs ce - rv,
                        ce_flags := clear_flag (ce_flags ce) DF_AUTH\<rparr>), c)
         }
     }
   }"

text \<open>The loops over the arrays of sets; the sum of what \<open>del_rrset\<close> returns.\<close>

fun del_rrsets :: "rr_set option list \<Rightarrow> int \<Rightarrow> dcache \<Rightarrow> (int \<times> dcache) option" where
  "del_rrsets [] sz c = Some (sz, c)"
| "del_rrsets (None # ss) sz c = del_rrsets ss sz c"
| "del_rrsets (Some rs # ss) sz c = do { (rv, c) \<leftarrow> del_rrset rs c; del_rrsets ss (sz + rv) c }"

definition free_cent :: "dns_cent \<Rightarrow> dcache \<Rightarrow> dcache option" where
  "free_cent ce c = (let c = cache_free c in
     if is_neg ce then (case ce_data ce of
          Neg (Some le) _ _ \<Rightarrow> remove_rrl le c
        | Neg None _ _ \<Rightarrow> Some c
        | Rr _ _ \<Rightarrow> None)
     else (case ce_data ce of
          Neg _ _ _ \<Rightarrow> None
        | Rr mu ext \<Rightarrow> do {
            (_, c) \<leftarrow> del_rrsets mu 0 c;
            case ext of
              None \<Rightarrow> Some c
            | Some x \<Rightarrow> do { (_, c) \<leftarrow> del_rrsets x 0 c; Some (cache_free c) }
          }))"

definition negate_cent :: "dns_cent \<Rightarrow> int \<Rightarrow> int \<Rightarrow> dcache \<Rightarrow> (dns_cent \<times> dcache) option" where
  "negate_cent ce ttl ts c = do {
     (ce, c) \<leftarrow> (if is_neg ce then Some (ce, c)
        else case ce_data ce of
          Neg _ _ _ \<Rightarrow> None
        | Rr mu ext \<Rightarrow> do {
            (sz, c) \<leftarrow> del_rrsets mu 0 c;
            (sz, c) \<leftarrow> (case ext of
               None \<Rightarrow> Some (sz, c)
             | Some x \<Rightarrow> do { (sz, c) \<leftarrow> del_rrsets x sz c; Some (sz + sizeof_ptr * int NRREXT, cache_free c) });
            Some (ce\<lparr>ce_cs := ce_cs ce - sz, ce_num_rrs := 0, ce_flags := ce_flags ce OR DF_NEGATIVE,
                    ce_data := Neg None 0 0\<rparr>, c)
          });
     case ce_data ce of
       Rr _ _ \<Rightarrow> None
     | Neg lent _ _ \<Rightarrow> Some (ce\<lparr>ce_data := Neg lent ttl ts\<rparr>, c)
   }"

subsection \<open>Copying\<close>

text \<open>The copy of the records, as far as it gets.\<close>

fun copy_rrs :: "(nat \<Rightarrow> bool) \<Rightarrow> byte list list \<Rightarrow> dcache \<Rightarrow> (bool \<times> byte list list) \<times> dcache" where
  "copy_rrs fails [] c = ((True, []), c)"
| "copy_rrs fails (rr # rrs) c = (case cache_malloc fails c of
     (None, c) \<Rightarrow> ((False, []), c)
   | (Some _, c) \<Rightarrow> (let ((ok, rrs'), c) = copy_rrs fails rrs c in ((ok, rr # rrs'), c)))"

definition copy_rrset :: "(nat \<Rightarrow> bool) \<Rightarrow> rr_set \<Rightarrow> dcache \<Rightarrow> (rr_set option \<times> dcache) option" where
  "copy_rrset fails rs c = (case cache_malloc fails c of
     (None, c) \<Rightarrow> Some (None, c)
   | (Some p, c) \<Rightarrow>
       (let ((ok, rrs), c) = copy_rrs fails (rs_rrs rs) c;
            rsc = rs\<lparr>rs_addr := p, rs_lent := None, rs_rrs := rrs\<rparr>
        in if ok then Some (Some rsc, c) else do { (_, c) \<leftarrow> del_rrset rsc c; Some (None, c) }))"

text \<open>The loop over the sets, \<open>n\<close> of them left from \<open>i\<close>.\<close>

fun copy_sets :: "(nat \<Rightarrow> bool) \<Rightarrow> dns_cent \<Rightarrow> nat \<Rightarrow> nat \<Rightarrow> dns_cent \<Rightarrow> dcache \<Rightarrow> ((bool \<times> dns_cent) \<times> dcache) option" where
  "copy_sets fails ce i 0 copy c = Some ((True, copy), c)"
| "copy_sets fails ce i (Suc n) copy c = do {
     s \<leftarrow> RRARR_INDEX ce i;
     case s of
       None \<Rightarrow> copy_sets fails ce (i + 1) n copy c
     | Some rs \<Rightarrow> (case cache_malloc fails c of
         (None, c) \<Rightarrow> do { copy \<leftarrow> rrarr_put copy i None; Some ((False, copy), c) }
       | (Some p, c) \<Rightarrow> do {
           let ((ok, rrs), c) = copy_rrs fails (rs_rrs rs) c;
           copy \<leftarrow> rrarr_put copy i (Some (rs\<lparr>rs_addr := p, rs_lent := None, rs_rrs := rrs\<rparr>));
           if ok then copy_sets fails ce (i + 1) n copy c else Some ((False, copy), c)
         })
   }"

text \<open>The address of the copy and the copy.\<close>

definition copy_cent :: "(nat \<Rightarrow> bool) \<Rightarrow> dns_cent \<Rightarrow> dcache \<Rightarrow> ((nat \<times> dns_cent) option \<times> dcache) option" where
  "copy_cent fails ce c = (case cache_malloc fails c of
     (None, c) \<Rightarrow> Some (None, c)
   | (Some a, c) \<Rightarrow> do {
       namesz \<leftarrow> rhnlen (ce_qname ce);
       case cache_malloc fails c of
         (None, c) \<Rightarrow> Some (None, cache_free c)
       | (Some _, c) \<Rightarrow> do {
           let copy = \<lparr>ce_qname = take namesz (ce_qname ce), ce_cs = ce_cs ce, ce_num_rrs = ce_num_rrs ce, ce_flags = ce_flags ce,
             ce_data = Rr (replicate NRRMU None) None, ce_c_ns = ce_c_ns ce, ce_c_soa = ce_c_soa ce\<rparr>;
           if is_neg ce then (case ce_data ce of
               Rr _ _ \<Rightarrow> None
             | Neg _ ttl ts \<Rightarrow> Some (Some (a, copy\<lparr>ce_data := Neg None ttl ts\<rparr>), c))
           else (case ce_data ce of
               Neg _ _ _ \<Rightarrow> None
             | Rr _ ext \<Rightarrow> do {
                 ((ok, copy), c) \<leftarrow> (if ext = None then Some ((True, copy), c)
                    else case cache_malloc fails c of
                      (None, c) \<Rightarrow> Some ((False, copy), c)
                    | (Some _, c) \<Rightarrow> Some ((True, copy\<lparr>ce_data := Rr (replicate NRRMU None) (Some (replicate NRREXT None))\<rparr>), c));
                 ((ok, copy), c) \<leftarrow> (if ok then copy_sets fails ce 0 (if ext = None then NRRMU else NRRTOT) copy c
                    else Some ((False, copy), c));
                 if ok then Some (Some (a, copy), c)
                 else do { c \<leftarrow> free_cent copy c; Some (None, cache_free c) }
               })
         }
     })"

subsection \<open>Purging\<close>

definition purgeable :: "int \<Rightarrow> rr_set \<Rightarrow> bool" where
  "purgeable now rs \<longleftrightarrow> \<not> (has_flag (rs_flags rs) CF_NOPURGE \<or> has_flag (rs_flags rs) CF_LOCAL) \<and> timedout now rs"

definition sub_cache_size :: "int \<Rightarrow> dcache \<Rightarrow> dcache" where
  "sub_cache_size n c = c\<lparr>dc_cache_size := dc_cache_size c - n\<rparr>"

definition purge_rrset :: "int \<Rightarrow> dns_cent \<Rightarrow> nat \<Rightarrow> bool \<Rightarrow> dcache \<Rightarrow> ((bool \<times> dns_cent) \<times> dcache) option" where
  "purge_rrset now ce idx test c = do {
     s \<leftarrow> RRARR_INDEX_TESTEXT ce idx;
     if (case s of None \<Rightarrow> False | Some rs \<Rightarrow> purgeable now rs) then
       (if test then Some ((True, ce), c)
        else do { ((rv, ce), c) \<leftarrow> del_cent_rrset_by_index ce idx c; Some ((True, ce), sub_cache_size rv c) })
     else Some ((False, ce), c)
   }"

text \<open>The loop over the sets, \<open>n\<close> of them left from \<open>i\<close>; counted are those deleted, all that remain, the rarely used ones that remain.\<close>

fun purge_sets ::
  "int \<Rightarrow> bool \<Rightarrow> nat \<Rightarrow> nat \<Rightarrow> int \<times> int \<times> int \<Rightarrow> dns_cent \<Rightarrow> dcache \<Rightarrow> (((int \<times> int \<times> int) \<times> dns_cent) \<times> dcache) option" where
  "purge_sets now test i 0 cnt ce c = Some ((cnt, ce), c)"
| "purge_sets now test i (Suc n) (rv, numrrs, numrrext) ce c = do {
     s \<leftarrow> RRARR_INDEX ce i;
     case s of
       None \<Rightarrow> purge_sets now test (i + 1) n (rv, numrrs, numrrext) ce c
     | Some rs \<Rightarrow>
         if purgeable now rs then do {
           (ce, c) \<leftarrow> (if test then Some (ce, c)
              else do { ((sz, ce), c) \<leftarrow> del_cent_rrset_by_index ce i c; Some (ce, sub_cache_size sz c) });
           purge_sets now test (i + 1) n (rv + 1, numrrs, numrrext) ce c
         } else purge_sets now test (i + 1) n (rv, numrrs + 1, if i \<ge> NRRMU then numrrext + 1 else numrrext) ce c
   }"

text \<open>The number of items deleted and the number of sets that remain.\<close>

definition purge_all_rrsets :: "int \<Rightarrow> dns_cent \<Rightarrow> bool \<Rightarrow> dcache \<Rightarrow> (((int \<times> int) \<times> dns_cent) \<times> dcache) option" where
  "purge_all_rrsets now ce test c =
     (if is_neg ce then Some (((0, 0), ce), c)
      else do {
        ilim \<leftarrow> RRARR_LEN ce;
        (((rv, numrrs, numrrext), ce), c) \<leftarrow> purge_sets now test 0 ilim (0, 0, 0) ce c;
        case ce_data ce of
          Neg _ _ _ \<Rightarrow> None
        | Rr mu ext \<Rightarrow>
            if ext \<noteq> None \<and> numrrext = 0 then
              (if test then Some (((rv + 1, numrrs), ce), c)
               else Some (((rv + 1, numrrs), ce\<lparr>ce_data := Rr mu None, ce_cs := ce_cs ce - sizeof_ptr * int NRREXT\<rparr>),
                 sub_cache_size (sizeof_ptr * int NRREXT) (cache_free c)))
            else Some (((rv, numrrs), ce), c)
      })"

end
