(* ===== verification/RrListProperties.thy ===== *)
theory RrListProperties
  imports RrList
begin

text \<open>
  The doubly linked list as a list of addresses: insertion is stable insertion by time stamp, removal removes,
  and \<open>sort_rrl\<close> is stable sorting. Nothing but links changes.
\<close>

subsection \<open>Links\<close>

definition fst_of :: "nat list \<Rightarrow> nat option" where
  "fst_of xs = (case xs of [] \<Rightarrow> None | x # _ \<Rightarrow> Some x)"

definition lst_of :: "nat list \<Rightarrow> nat option" where
  "lst_of xs = (if xs = [] then None else Some (last xs))"

lemma fst_of_simps [simp]: "fst_of [] = None" "fst_of (x # xs) = Some x"
  by (simp_all add: fst_of_def)

lemma lst_of_simps [simp]: "lst_of [] = None" "lst_of (xs @ [x]) = Some x" "lst_of [x] = Some x"
  by (simp_all add: lst_of_def)

lemma lst_of_None: "lst_of xs = None \<longleftrightarrow> xs = []"
  by (simp add: lst_of_def)

lemma fst_of_None: "fst_of xs = None \<longleftrightarrow> xs = []"
  by (simp add: fst_of_def split: list.split)

fun lseg :: "rr_lents \<Rightarrow> nat option \<Rightarrow> nat list \<Rightarrow> nat option \<Rightarrow> bool" where
  "lseg E p [] r \<longleftrightarrow> p = r"
| "lseg E p (x # xs) r \<longleftrightarrow> p = Some x \<and> (\<exists>e. E x = Some e \<and> lseg E (le_next e) xs r)"

fun pseg :: "rr_lents \<Rightarrow> nat option \<Rightarrow> nat list \<Rightarrow> bool" where
  "pseg E pv [] \<longleftrightarrow> True"
| "pseg E pv (x # xs) \<longleftrightarrow> (\<exists>e. E x = Some e \<and> le_prev e = pv) \<and> pseg E (Some x) xs"

lemma lseg_app: "lseg E p (xs @ ys) r \<longleftrightarrow> (\<exists>q. lseg E p xs q \<and> lseg E q ys r)"
  by (induction xs arbitrary: p) auto

lemma pseg_app: "pseg E pv (xs @ ys) \<longleftrightarrow> pseg E pv xs \<and> pseg E (if xs = [] then pv else Some (last xs)) ys"
  by (induction xs arbitrary: pv) auto

lemma lseg_cong: "(\<And>x. x \<in> set xs \<Longrightarrow> map_option le_next (E x) = map_option le_next (E' x)) \<Longrightarrow> lseg E p xs r = lseg E' p xs r"
proof (induction xs arbitrary: p)
  case (Cons x xs)
  have IH: "lseg E p xs r = lseg E' p xs r" for p using Cons.IH Cons.prems by simp
  have "map_option le_next (E x) = map_option le_next (E' x)" using Cons.prems by simp
  then show ?case using IH by (cases "E x"; cases "E' x") simp_all
qed simp

lemma pseg_cong: "(\<And>x. x \<in> set xs \<Longrightarrow> map_option le_prev (E x) = map_option le_prev (E' x)) \<Longrightarrow> pseg E pv xs = pseg E' pv xs"
proof (induction xs arbitrary: pv)
  case (Cons x xs)
  have IH: "pseg E pv xs = pseg E' pv xs" for pv using Cons.IH Cons.prems by simp
  have "map_option le_prev (E x) = map_option le_prev (E' x)" using Cons.prems by simp
  then show ?case using IH by (cases "E x"; cases "E' x") simp_all
qed simp

lemma lseg_first: "lseg E p xs None \<Longrightarrow> p = fst_of xs"
  by (cases xs) auto

lemma lseg_first': "lseg E p xs r \<Longrightarrow> p = (if xs = [] then r else fst_of xs)"
  by (cases xs) auto

lemma lseg_alloc: "lseg E p xs r \<Longrightarrow> x \<in> set xs \<Longrightarrow> E x \<noteq> None"
  by (induction xs arbitrary: p) auto

text \<open>What of an entry is not a link, and the parameter \<open>ts\<close> depending on nothing else.\<close>

definition strip :: "rr_lent \<Rightarrow> rr_lent" where
  "strip e = e\<lparr>le_next := None, le_prev := None\<rparr>"

lemma strip_links [simp]: "strip (e\<lparr>le_next := p\<rparr>) = strip e" "strip (e\<lparr>le_prev := p\<rparr>) = strip e" "strip (strip e) = strip e"
  by (simp_all add: strip_def)

lemma strip_sel [simp]: "le_rrset (strip e) = le_rrset e" "le_cent (strip e) = le_cent e" "le_idx (strip e) = le_idx e"
  by (simp_all add: strip_def)

definition items :: "rr_lents \<Rightarrow> nat \<Rightarrow> rr_lent option" where
  "items E a = map_option strip (E a)"

lemma items_dom: "items E = items E' \<Longrightarrow> dom E = dom E'"
proof -
  have "dom E = {a. items E a \<noteq> None}" for E by (auto simp: items_def)
  then show "items E = items E' \<Longrightarrow> dom E = dom E'" by simp
qed

definition links_free :: "(rr_lent \<Rightarrow> int option) \<Rightarrow> bool" where
  "links_free ts \<longleftrightarrow> (\<forall>e. ts (strip e) = ts e)"

text \<open>The time stamps by address.\<close>

definition stamp :: "(rr_lent \<Rightarrow> int option) \<Rightarrow> rr_lents \<Rightarrow> nat \<Rightarrow> int option" where
  "stamp ts E a = Option.bind (E a) ts"

lemma stamp_items: "links_free ts \<Longrightarrow> stamp ts E a = Option.bind (items E a) ts"
  by (cases "E a") (simp_all add: stamp_def items_def links_free_def)

definition stamps :: "(rr_lent \<Rightarrow> int option) \<Rightarrow> rr_lents \<Rightarrow> (nat \<Rightarrow> int) \<Rightarrow> nat set \<Rightarrow> bool" where
  "stamps ts E key A \<longleftrightarrow> links_free ts \<and> (\<forall>a \<in> A. stamp ts E a = Some (key a))"

lemma stamps_items: "stamps ts E key A \<Longrightarrow> items E' = items E \<Longrightarrow> stamps ts E' key A"
  unfolding stamps_def by (metis stamp_items)

lemma stamps_subset: "stamps ts E key A \<Longrightarrow> B \<subseteq> A \<Longrightarrow> stamps ts E key B"
  by (auto simp: stamps_def)

lemma stampsD: "stamps ts E key A \<Longrightarrow> a \<in> A \<Longrightarrow> \<exists>e. E a = Some e \<and> ts e = Some (key a)"
  by (cases "E a") (auto simp: stamps_def stamp_def)

lemma set_next_eq: "E a = Some e \<Longrightarrow> set_next E a p = Some (E(a \<mapsto> e\<lparr>le_next := p\<rparr>))"
  by (simp add: set_next_def)

lemma set_prev_eq: "E a = Some e \<Longrightarrow> set_prev E a p = Some (E(a \<mapsto> e\<lparr>le_prev := p\<rparr>))"
  by (simp add: set_prev_def)

lemma items_upd [simp]:
  "E a = Some e \<Longrightarrow> items (E(a \<mapsto> e\<lparr>le_next := p\<rparr>)) = items E"
  "E a = Some e \<Longrightarrow> items (E(a \<mapsto> e\<lparr>le_prev := p\<rparr>)) = items E"
  by (auto simp: items_def fun_eq_iff)

text \<open>The representation.\<close>

definition rl_rep :: "rr_list \<Rightarrow> nat list \<Rightarrow> bool" where
  "rl_rep l xs \<longleftrightarrow> distinct xs \<and> lseg (rl_ents l) (rrset_l l) xs None \<and> pseg (rl_ents l) None xs \<and>
     rrset_l_tail l = lst_of xs \<and> dom (rl_ents l) = set xs"

lemma rl_rep_empty: "rl_rep rl_empty []"
  by (simp add: rl_rep_def rl_empty_def)

lemma rl_repD:
  assumes "rl_rep l xs"
  shows "distinct xs" "lseg (rl_ents l) (rrset_l l) xs None" "pseg (rl_ents l) None xs" "rrset_l_tail l = lst_of xs"
    "dom (rl_ents l) = set xs" "rrset_l l = fst_of xs"
  using assms lseg_first by (auto simp: rl_rep_def)

subsection \<open>Insertion\<close>

lemma find_back_ok:
  assumes "pseg E None xs" "stamps ts E key (set xs)"
  shows "\<exists>pre post. xs = pre @ post \<and> (\<forall>y \<in> set post. t < key y) \<and> (pre \<noteq> [] \<longrightarrow> key (last pre) \<le> t) \<and>
    find_back ts E (lst_of xs) t = Some (lst_of pre)"
  using assms
proof (induction xs rule: rev_induct)
  case Nil
  then show ?case by (simp add: find_back.simps)
next
  case (snoc x xs)
  obtain e where e: "E x = Some e" "ts e = Some (key x)" using stampsD [OF snoc.prems(2), of x] by auto
  show ?case
  proof (cases "key x \<le> t")
    case True
    then have "find_back ts E (lst_of (xs @ [x])) t = Some (lst_of (xs @ [x]))"
      using e by (simp add: find_back.simps [of ts E "Some x"])
    then show ?thesis using True by - (rule exI [of _ "xs @ [x]"], simp)
  next
    case False
    obtain pre post where p: "xs = pre @ post" "\<forall>y \<in> set post. t < key y" "pre \<noteq> [] \<longrightarrow> key (last pre) \<le> t"
      "find_back ts E (lst_of xs) t = Some (lst_of pre)"
      using snoc.IH snoc.prems stamps_subset [of ts E key "set (xs @ [x])" "set xs"] by (auto simp: pseg_app)
    have "le_prev e = lst_of xs" using snoc.prems(1) e(1) by (auto simp: pseg_app lst_of_def split: if_splits)
    then have "find_back ts E (lst_of (xs @ [x])) t = Some (lst_of pre)"
      using e False p(4) by (simp add: find_back.simps [of ts E "Some x"])
    then show ?thesis using p(1-3) False by - (rule exI [of _ pre], auto)
  qed
qed

text \<open>A new entry, not linked yet.\<close>

definition added :: "nat \<Rightarrow> rr_lent \<Rightarrow> rr_list \<Rightarrow> rr_list" where
  "added ne e l = l\<lparr>rl_ents := (rl_ents l)(ne \<mapsto> e)\<rparr>"

lemma added_tail [simp]: "rrset_l_tail (added ne e l) = rrset_l_tail l"
  by (simp add: added_def)

lemma rl_upd_cong:
  assumes "x \<notin> set xs"
  shows "lseg (E(x := v)) p xs r = lseg E p xs r" "pseg (E(x := v)) pv xs = pseg E pv xs"
  using assms by (auto intro!: lseg_cong pseg_cong)

lemma lseg_prev [simp]: "E x = Some e \<Longrightarrow> lseg (E(x \<mapsto> e\<lparr>le_prev := q\<rparr>)) p xs r = lseg E p xs r"
  by (rule lseg_cong) auto

lemma pseg_next [simp]: "E x = Some e \<Longrightarrow> pseg (E(x \<mapsto> e\<lparr>le_next := q\<rparr>)) pv xs = pseg E pv xs"
  by (rule pseg_cong) auto

lemma insert_front_ok:
  assumes rep: "rl_rep l xs" and ne: "ne \<notin> set xs" and e: "le_prev e = None"
  shows "\<exists>l'. rrl_insert_front ne (added ne e l) = Some l' \<and> rl_rep l' (ne # xs) \<and> items (rl_ents l') = items (rl_ents (added ne e l))"
proof -
  note r = rl_repD [OF rep]
  let ?E = "(rl_ents l)(ne \<mapsto> e\<lparr>le_next := rrset_l l\<rparr>)"
  have L: "lseg ?E (rrset_l l) xs None" "pseg ?E None xs" using r(2,3) ne by (simp_all add: rl_upd_cong)
  show ?thesis
  proof (cases xs)
    case Nil
    then show ?thesis using r e by (simp add: rrl_insert_front_def added_def set_next_def rl_rep_def lst_of_def)
      (auto simp: items_def)
  next
    case (Cons x ys)
    then obtain f where f: "rl_ents l x = Some f" "le_prev f = None" "pseg (rl_ents l) (Some x) ys" using r(3) by auto
    have nx: "ne \<noteq> x" "x \<notin> set ys" "ne \<notin> set ys" using ne r(1) Cons by auto
    let ?E' = "?E(x \<mapsto> f\<lparr>le_prev := Some ne\<rparr>)"
    have "?E x = Some f" using f nx by simp
    then have "lseg ?E' (rrset_l l) xs None" using L(1) by simp
    moreover have "pseg ?E' (Some ne) xs" using f(3) nx by (simp add: Cons rl_upd_cong)
    ultimately have "rl_rep (l\<lparr>rl_ents := ?E', rrset_l := Some ne\<rparr>) (ne # xs)"
      using r(1,4,5) ne nx e f(1) Cons by (auto simp: rl_rep_def lst_of_def)
    moreover have "items ?E' = items (rl_ents (added ne e l))" using f nx by (auto simp: items_def added_def fun_eq_iff)
    moreover have "rrl_insert_front ne (added ne e l) = Some (l\<lparr>rl_ents := ?E', rrset_l := Some ne\<rparr>)"
      using r(6) Cons f(1) nx by (simp add: rrl_insert_front_def added_def set_next_def set_prev_def)
    ultimately show ?thesis by auto
  qed
qed

lemma insert_after_ok:
  assumes rep: "rl_rep l (pre @ le # post)" and ne: "ne \<notin> set (pre @ le # post)"
  shows "\<exists>l'. rrl_insert_after le ne (added ne e l) = Some l' \<and> rl_rep l' (pre @ le # ne # post) \<and>
    items (rl_ents l') = items (rl_ents (added ne e l))"
proof -
  note r = rl_repD [OF rep]
  obtain g where g: "rl_ents l le = Some g" "lseg (rl_ents l) (rrset_l l) pre (Some le)" "lseg (rl_ents l) (le_next g) post None"
    using r(2) by (auto simp: lseg_app)
  have gp: "pseg (rl_ents l) None pre" "le_prev g = lst_of pre" "pseg (rl_ents l) (Some le) post"
    using r(3) g(1) by (auto simp: pseg_app lst_of_def split: if_splits)
  have d: "le \<notin> set pre" "le \<notin> set post" "ne \<notin> set pre" "ne \<notin> set post" "ne \<noteq> le" "distinct pre" "distinct post"
    "set pre \<inter> set post = {}" using r(1) ne by auto
  have gn: "le_next g = fst_of post" using lseg_first [OF g(3)] .
  let ?E = "(rl_ents l)(ne \<mapsto> e\<lparr>le_next := le_next g, le_prev := Some le\<rparr>)"
  show ?thesis
  proof (cases post)
    case Nil
    let ?E' = "?E(le \<mapsto> g\<lparr>le_next := Some ne\<rparr>)"
    have "lseg ?E' (rrset_l l) pre (Some le)" "pseg ?E' None pre" using g(2) gp(1) d by (simp_all add: rl_upd_cong)
    then have "rl_rep (l\<lparr>rl_ents := ?E', rrset_l_tail := Some ne\<rparr>) (pre @ le # ne # post)"
      using r(1,5) d gp(2) gn Nil ne by (auto simp: rl_rep_def lseg_app pseg_app lst_of_def)
    moreover have "items ?E' = items (rl_ents (added ne e l))" using g(1) d by (auto simp: items_def added_def fun_eq_iff strip_def)
    moreover have "rrl_insert_after le ne (added ne e l) = Some (l\<lparr>rl_ents := ?E', rrset_l_tail := Some ne\<rparr>)"
      using g(1) gn Nil d by (simp add: rrl_insert_after_def added_def set_next_def set_prev_def)
    ultimately show ?thesis by auto
  next
    case (Cons x ys)
    then obtain f where f: "rl_ents l x = Some f" "le_prev f = Some le" "pseg (rl_ents l) (Some x) ys" "lseg (rl_ents l) (le_next f) ys None"
      using gp(3) g(3) by auto
    have nx: "x \<notin> set pre" "x \<notin> set ys" "x \<noteq> le" "x \<noteq> ne" "ne \<notin> set ys" "le \<notin> set ys" using d r(1) Cons by auto
    let ?E' = "?E(x \<mapsto> f\<lparr>le_prev := Some ne\<rparr>, le \<mapsto> g\<lparr>le_next := Some ne\<rparr>)"
    have "lseg ?E' (rrset_l l) pre (Some le)" "pseg ?E' None pre" "lseg ?E' (le_next f) ys None" "pseg ?E' (Some x) ys"
      using g(2) gp(1) f(3,4) d nx by (simp_all add: rl_upd_cong)
    then have "rl_rep (l\<lparr>rl_ents := ?E'\<rparr>) (pre @ le # ne # post)"
      using r(1,4,5) d nx gp(2) gn Cons ne f(1) g(1) by (auto simp: rl_rep_def lseg_app pseg_app lst_of_def)
    moreover have "items ?E' = items (rl_ents (added ne e l))" using g(1) f(1) d nx by (auto simp: items_def added_def fun_eq_iff strip_def)
    moreover have "rrl_insert_after le ne (added ne e l) = Some (l\<lparr>rl_ents := ?E'\<rparr>)"
      using g(1) gn Cons d nx f(1) by (simp add: rrl_insert_after_def added_def set_next_def set_prev_def fun_upd_twist)
    ultimately show ?thesis by auto
  qed
qed

lemma append_ok:
  assumes rep: "rl_rep l xs" and ne: "ne \<notin> set xs" and e: "le_next e = None"
  shows "\<exists>l'. rrl_append ne (added ne e l) = Some l' \<and> rl_rep l' (xs @ [ne]) \<and> items (rl_ents l') = items (rl_ents (added ne e l))"
proof -
  note r = rl_repD [OF rep]
  let ?E = "(rl_ents l)(ne \<mapsto> e\<lparr>le_prev := lst_of xs\<rparr>)"
  show ?thesis
  proof (cases xs rule: rev_cases)
    case Nil
    then show ?thesis using r e by (simp add: rrl_append_def added_def set_prev_def rl_rep_def) (auto simp: items_def)
  next
    case (snoc pre le)
    obtain g where g: "rl_ents l le = Some g" "lseg (rl_ents l) (rrset_l l) pre (Some le)"
      using r(2) snoc by (auto simp: lseg_app)
    have gp: "pseg (rl_ents l) None pre" "le_prev g = lst_of pre"
      using r(3) g(1) snoc by (auto simp: pseg_app lst_of_def split: if_splits)
    have d: "le \<notin> set pre" "ne \<notin> set pre" "ne \<noteq> le" using r(1) ne snoc by auto
    let ?E' = "?E(le \<mapsto> g\<lparr>le_next := Some ne\<rparr>)"
    have "lseg ?E' (rrset_l l) pre (Some le)" "pseg ?E' None pre" using g(2) gp(1) d by (simp_all add: rl_upd_cong)
    then have "rl_rep (l\<lparr>rl_ents := ?E', rrset_l_tail := Some ne\<rparr>) (xs @ [ne])"
      using r(1,5) d gp(2) e ne snoc by (auto simp: rl_rep_def lseg_app pseg_app lst_of_def)
    moreover have "items ?E' = items (rl_ents (added ne e l))" using g(1) d by (auto simp: items_def added_def fun_eq_iff strip_def)
    moreover have "rrl_append ne (added ne e l) = Some (l\<lparr>rl_ents := ?E', rrset_l_tail := Some ne\<rparr>)"
      using g(1) r(4) d snoc by (simp add: rrl_append_def added_def set_next_def set_prev_def)
    ultimately show ?thesis by auto
  qed
qed

text \<open>Where an entry of time stamp \<open>t\<close> is put: behind the last one that is not newer, or at the end.\<close>

definition put_at :: "bool \<Rightarrow> (nat \<Rightarrow> int) \<Rightarrow> nat list \<Rightarrow> nat \<Rightarrow> nat list \<Rightarrow> bool" where
  "put_at srt key xs ne ys \<longleftrightarrow> (\<exists>pre post. xs = pre @ post \<and> ys = pre @ ne # post \<and>
     (if srt then (\<forall>y \<in> set post. key ne < key y) \<and> (pre \<noteq> [] \<longrightarrow> key (last pre) \<le> key ne) else post = []))"

lemma rrl_link_ok:
  assumes rep: "rl_rep l xs" and ne: "ne \<notin> set xs" and e: "le_next e = None" "le_prev e = None"
    and st: "stamps ts (rl_ents (added ne e l)) key (insert ne (set xs))"
  shows "\<exists>l' ys. rrl_link ts srt ne e l = Some l' \<and> rl_rep l' ys \<and> put_at srt key xs ne ys \<and>
    items (rl_ents l') = (items (rl_ents l))(ne \<mapsto> strip e)"
proof -
  have it: "items (rl_ents (added ne e l)) = (items (rl_ents l))(ne \<mapsto> strip e)" by (auto simp: items_def added_def)
  show ?thesis
  proof (cases srt)
    case False
    obtain l' where "rrl_append ne (added ne e l) = Some l'" "rl_rep l' (xs @ [ne])" "items (rl_ents l') = items (rl_ents (added ne e l))"
      using append_ok [OF rep ne, of e] e by blast
    then show ?thesis using False it by (auto simp: rrl_link_def added_def put_at_def)
  next
    case True
    have "ts e = Some (key ne)" using stampsD [OF st, of ne] by (simp add: added_def)
    moreover have "pseg (rl_ents (added ne e l)) None xs" using rl_repD(3) [OF rep] ne by (simp add: added_def rl_upd_cong)
    then obtain pre post where p: "xs = pre @ post" "\<forall>y \<in> set post. key ne < key y" "pre \<noteq> [] \<longrightarrow> key (last pre) \<le> key ne"
      "find_back ts (rl_ents (added ne e l)) (lst_of xs) (key ne) = Some (lst_of pre)"
      using find_back_ok [of _ xs ts key "key ne"] stamps_subset [OF st] by blast
    ultimately have eq: "rrl_link ts srt ne e l =
        (case lst_of pre of None \<Rightarrow> rrl_insert_front ne (added ne e l) | Some le \<Rightarrow> rrl_insert_after le ne (added ne e l))"
      using True rl_repD(4) [OF rep] unfolding rrl_link_def Let_def added_def [symmetric] by simp
    have put: "put_at srt key xs ne (pre @ ne # post)" using p(1-3) True by (auto simp: put_at_def)
    have "\<exists>l'. rrl_link ts srt ne e l = Some l' \<and> rl_rep l' (pre @ ne # post) \<and>
      items (rl_ents l') = items (rl_ents (added ne e l))"
    proof (cases pre rule: rev_cases)
      case Nil
      then show ?thesis using insert_front_ok [OF rep ne e(2)] p(1) eq by auto
    next
      case (snoc pre' le)
      then show ?thesis using insert_after_ok [of l pre' le post ne e] rep ne p(1) eq by auto
    qed
    then show ?thesis using put it by auto
  qed
qed

text \<open>In a sorted list this is where stable sorting puts it.\<close>

lemma put_at_sorted:
  assumes "put_at True key xs ne ys" "sorted (map key xs)"
  shows "ys = sort_key key (xs @ [ne])"
proof -
  obtain pre post where p: "xs = pre @ post" "ys = pre @ ne # post" "\<forall>y \<in> set post. key ne < key y" "pre \<noteq> [] \<longrightarrow> key (last pre) \<le> key ne"
    using assms(1) by (auto simp: put_at_def)
  have pre: "key y \<le> key ne" if y: "y \<in> set pre" for y
  proof -
    have n: "pre \<noteq> []" using y by auto
    have "sorted (map key (butlast pre @ [last pre]))" using assms(2) p(1) n by (simp add: sorted_append)
    then have "key y \<le> key (last pre)" using y n by (cases pre rule: rev_cases) (auto simp: sorted_append)
    then show ?thesis using p(4) n by simp
  qed
  have "sorted (map key ys)" using assms(2) p(1-3) pre by (auto simp: sorted_append intro: less_imp_le)
  moreover have "filter (\<lambda>x. key ne = key x) post = []" using p(3) by (auto simp: filter_empty_conv)
  then have "filter (\<lambda>x. k = key x) ys = filter (\<lambda>x. k = key x) (xs @ [ne])" for k
    using p(1,2) by auto
  ultimately have "sort_key key (xs @ [ne]) = ys" using p(1,2) by (intro properties_for_sort_key) auto
  then show ?thesis by simp
qed

lemma put_at_set: "put_at srt key xs ne ys \<Longrightarrow> set ys = insert ne (set xs) \<and> length ys = Suc (length xs)"
  by (auto simp: put_at_def)

subsection \<open>Removal\<close>

lemma items_del: "items (E(a := None)) = (items E)(a := None)"
  by (auto simp: items_def)

lemma rrl_remove_ok:
  assumes rep: "rl_rep l (pre @ le # post)"
  shows "\<exists>l'. rrl_remove le l = Some l' \<and> rl_rep l' (pre @ post) \<and> items (rl_ents l') = (items (rl_ents l))(le := None)"
proof -
  note r = rl_repD [OF rep]
  obtain g where g: "rl_ents l le = Some g" "lseg (rl_ents l) (rrset_l l) pre (Some le)" "lseg (rl_ents l) (le_next g) post None"
    using r(2) by (auto simp: lseg_app)
  have gp: "pseg (rl_ents l) None pre" "le_prev g = lst_of pre" "pseg (rl_ents l) (Some le) post"
    using r(3) g(1) by (auto simp: pseg_app lst_of_def split: if_splits)
  have d: "le \<notin> set pre" "le \<notin> set post" "distinct pre" "distinct post" "set pre \<inter> set post = {}" using r(1) by auto
  have gn: "le_next g = fst_of post" using lseg_first [OF g(3)] .
  obtain l1 where l1: "(case le_next g of Some nx \<Rightarrow> map_option (\<lambda>E. l\<lparr>rl_ents := E\<rparr>) (set_prev (rl_ents l) nx (le_prev g))
      | None \<Rightarrow> Some (l\<lparr>rrset_l_tail := le_prev g\<rparr>)) = Some l1" "rrset_l l1 = rrset_l l"
    "rrset_l_tail l1 = lst_of (pre @ post)" "items (rl_ents l1) = items (rl_ents l)"
    "lseg (rl_ents l1) (rrset_l l) pre (Some le)" "lseg (rl_ents l1) (le_next g) post None"
    "pseg (rl_ents l1) None pre" "pseg (rl_ents l1) (lst_of pre) post" "rl_ents l1 le = Some g"
  proof (cases post)
    case Nil
    then show ?thesis using g gp gn that [of "l\<lparr>rrset_l_tail := le_prev g\<rparr>"] by simp
  next
    case (Cons x ys)
    then obtain f where f: "rl_ents l x = Some f" "pseg (rl_ents l) (Some x) ys" using gp(3) by auto
    have nx: "x \<notin> set pre" "x \<notin> set ys" "x \<noteq> le" using d Cons by auto
    let ?E = "(rl_ents l)(x \<mapsto> f\<lparr>le_prev := lst_of pre\<rparr>)"
    have "set_prev (rl_ents l) x (le_prev g) = Some ?E" using f(1) gp(2) by (simp add: set_prev_eq)
    moreover have "pseg ?E (Some x) ys" "pseg ?E None pre" using f(2) gp nx Cons by (simp_all add: rl_upd_cong)
    moreover have "rrset_l_tail l = lst_of (pre @ post)" using r(4) Cons by (simp add: lst_of_def)
    ultimately show ?thesis using that [of "l\<lparr>rl_ents := ?E\<rparr>"] f(1) g gn Cons nx by simp
  qed
  obtain l2 where l2: "(case le_prev g of Some pv \<Rightarrow> map_option (\<lambda>E. l1\<lparr>rl_ents := E\<rparr>) (set_next (rl_ents l1) pv (le_next g))
      | None \<Rightarrow> Some (l1\<lparr>rrset_l := le_next g\<rparr>)) = Some l2" "rrset_l_tail l2 = lst_of (pre @ post)"
    "items (rl_ents l2) = items (rl_ents l)" "lseg (rl_ents l2) (rrset_l l2) (pre @ post) None"
    "pseg (rl_ents l2) None (pre @ post)"
  proof (cases pre rule: rev_cases)
    case Nil
    then show ?thesis using l1 gp that [of "l1\<lparr>rrset_l := le_next g\<rparr>"] by simp
  next
    case (snoc ys x)
    then obtain f where f: "rl_ents l1 x = Some f" "lseg (rl_ents l1) (rrset_l l) ys (Some x)" using l1(5) by (auto simp: lseg_app)
    have nx: "x \<notin> set ys" "x \<notin> set post" "x \<noteq> le" using d snoc by auto
    let ?E = "(rl_ents l1)(x \<mapsto> f\<lparr>le_next := le_next g\<rparr>)"
    have "set_next (rl_ents l1) x (le_next g) = Some ?E" using f(1) by (rule set_next_eq)
    moreover have "lseg ?E (rrset_l l) (pre @ post) None" using f l1(6) nx snoc by (simp add: lseg_app rl_upd_cong)
    moreover have "pseg ?E None (pre @ post)" using l1(7,8) f(1) by (simp add: pseg_app lst_of_def split: if_splits)
    ultimately show ?thesis using that [of "l1\<lparr>rl_ents := ?E\<rparr>"] l1 f(1) gp(2) snoc by simp
  qed
  have "dom (rl_ents l2) = set (pre @ le # post)" using items_dom [OF l2(3)] r(5) by simp
  then have "rl_rep (l2\<lparr>rl_ents := (rl_ents l2)(le := None)\<rparr>) (pre @ post)"
    using l2 d by (auto simp: rl_rep_def rl_upd_cong)
  then show ?thesis using g(1) l1(1) l2(1,3) by (simp add: rrl_remove_def items_del)
qed

subsection \<open>Merging\<close>

fun merge_by :: "('a \<Rightarrow> int) \<Rightarrow> 'a list \<Rightarrow> 'a list \<Rightarrow> 'a list" where
  "merge_by key [] ys = ys"
| "merge_by key (x # xs) [] = x # xs"
| "merge_by key (x # xs) (y # ys) =
     (if key x \<le> key y then x # merge_by key xs (y # ys) else y # merge_by key (x # xs) ys)"

lemma merge_by_mset: "mset (merge_by key xs ys) = mset xs + mset ys"
  by (induction key xs ys rule: merge_by.induct) auto

lemma merge_by_set: "set (merge_by key xs ys) = set xs \<union> set ys"
  by (metis merge_by_mset set_mset_mset set_mset_union)

lemma merge_by_sorted: "sorted (map key xs) \<Longrightarrow> sorted (map key ys) \<Longrightarrow> sorted (map key (merge_by key xs ys))"
  by (induction key xs ys rule: merge_by.induct) (auto simp: merge_by_set)

lemma merge_by_filter:
  "sorted (map key xs) \<Longrightarrow> sorted (map key ys) \<Longrightarrow>
   filter (\<lambda>x. k = key x) (merge_by key xs ys) = filter (\<lambda>x. k = key x) (xs @ ys)"
proof (induction key xs ys rule: merge_by.induct)
  case (3 key x xs y ys)
  show ?case
  proof (cases "key x \<le> key y")
    case True
    then show ?thesis using 3 by (auto split: if_splits)
  next
    case False
    then have "k = key y \<Longrightarrow> filter (\<lambda>x. k = key x) (x # xs) = []" using 3(3) by (auto simp: filter_empty_conv)
    then show ?thesis using 3 False by auto
  qed
qed simp_all

lemma merge_by_sort_key: "merge_by key (sort_key key xs) (sort_key key ys) = sort_key key (xs @ ys)"
proof -
  have "sort_key key (xs @ ys) = merge_by key (sort_key key xs) (sort_key key ys)"
  proof (rule properties_for_sort_key)
    have f: "filter (\<lambda>x. key k = key x) (sort_key key zs) = filter (\<lambda>x. key k = key x) zs" for k and zs
      using sort_key_stable [of key "key k" zs] by (simp add: eq_commute)
    show "filter (\<lambda>x. key k = key x) (merge_by key (sort_key key xs) (sort_key key ys)) = filter (\<lambda>x. key k = key x) (xs @ ys)" for k
      by (simp add: merge_by_filter f)
  qed (simp_all add: merge_by_mset merge_by_sorted)
  then show ?thesis by simp
qed

lemma lm_store_ok:
  assumes "lseg E l ds r" "distinct ds"
  shows "\<exists>E' l'. lm_store E l (lst_of ds) v = Some (E', l') \<and> lseg E' l' ds v \<and> items E' = items E \<and>
    (\<forall>a. a \<notin> set ds \<longrightarrow> E' a = E a)"
proof (cases ds rule: rev_cases)
  case Nil
  then show ?thesis using assms by (simp add: lm_store_def)
next
  case (snoc ys y)
  then obtain e where e: "E y = Some e" "lseg E l ys (Some y)" using assms(1) by (auto simp: lseg_app)
  then have "lseg (E(y \<mapsto> e\<lparr>le_next := v\<rparr>)) l ds v" using snoc assms(2) by (simp add: lseg_app rl_upd_cong)
  then show ?thesis using e(1) snoc by (auto simp: lm_store_def set_next_def)
qed

lemma lseg_frame: "(\<And>a. a \<in> set xs \<Longrightarrow> E' a = E a) \<Longrightarrow> lseg E' p xs r = lseg E p xs r"
  by (rule lseg_cong) simp

lemma lm_loop_ok:
  assumes "lseg E l ds r" "lseg E (Some p) (p # xs) None" "lseg E (Some q) (q # ys) None"
    "distinct (ds @ (p # xs) @ q # ys)" "stamps ts E key (set (p # xs) \<union> set (q # ys))"
  shows "\<exists>E' l'. lm_loop ts E l (lst_of ds) p q = Some (E', l') \<and>
    lseg E' l' (ds @ merge_by key (p # xs) (q # ys)) None \<and> items E' = items E \<and>
    (\<forall>a. a \<notin> set (ds @ (p # xs) @ q # ys) \<longrightarrow> E' a = E a)"
  using assms
proof (induction "length xs + length ys" arbitrary: E l ds r p xs q ys rule: less_induct)
  case less
  obtain ep where ep: "E p = Some ep" "ts ep = Some (key p)" using stampsD [OF less.prems(5), of p] by auto
  obtain eq where eq: "E q = Some eq" "ts eq = Some (key q)" using stampsD [OF less.prems(5), of q] by auto
  have nx: "le_next ep = fst_of xs" "lseg E (le_next ep) xs None" using less.prems(2) ep(1) lseg_first by auto
  have ny: "le_next eq = fst_of ys" "lseg E (le_next eq) ys None" using less.prems(3) eq(1) lseg_first by auto
  have d: "distinct ds" "p \<notin> set ds" "q \<notin> set ds" "set xs \<inter> set ds = {}" "set ys \<inter> set ds = {}" "p \<notin> set xs" "q \<notin> set ys"
    "p \<noteq> q" "p \<notin> set ys" "q \<notin> set xs" using less.prems(4) by auto
  show ?case
  proof (cases "key p \<le> key q")
    case True
    obtain E1 l1 where s: "lm_store E l (lst_of ds) (Some p) = Some (E1, l1)" "lseg E1 l1 ds (Some p)" "items E1 = items E"
      "\<forall>a. a \<notin> set ds \<longrightarrow> E1 a = E a" using lm_store_ok [OF less.prems(1) d(1), of "Some p"] by blast
    have fr: "lseg E1 u xs None = lseg E u xs None" "lseg E1 u ys None = lseg E u ys None" "E1 p = E p" "E1 q = E q" for u
      using s(4) d by (auto intro!: lseg_frame)
    have E1: "E1 p = Some ep" "lseg E1 l1 (ds @ [p]) (le_next ep)" "lseg E1 (le_next ep) xs None" "lseg E1 (Some q) (q # ys) None"
      using s(2) ep(1) nx(2) ny(2) eq(1) unfolding lseg_app lseg.simps fr by simp_all
    have unf: "lm_loop ts E l (lst_of ds) p q = (case le_next ep of None \<Rightarrow> lm_store E1 l1 (lst_of (ds @ [p])) (Some q)
        | Some p' \<Rightarrow> lm_loop ts E1 l1 (lst_of (ds @ [p])) p' q)"
      using ep eq True s(1) E1(1) unfolding lst_of_simps by (simp add: lm_loop.simps [of ts E])
    show ?thesis
    proof (cases xs)
      case Nil
      obtain E2 l2 where s2: "lm_store E1 l1 (lst_of (ds @ [p])) (Some q) = Some (E2, l2)" "lseg E2 l2 (ds @ [p]) (Some q)"
        "items E2 = items E1" "\<forall>a. a \<notin> set (ds @ [p]) \<longrightarrow> E2 a = E1 a"
        using lm_store_ok [OF E1(2), of "Some q"] d by auto
      have "lseg E2 (Some q) (q # ys) None = lseg E1 (Some q) (q # ys) None" using s2(4) d by (intro lseg_frame) auto
      then have "lseg E2 l2 ((ds @ [p]) @ (q # ys)) None" using s2(2) E1(4) unfolding lseg_app by blast
      moreover have "ds @ merge_by key (p # xs) (q # ys) = (ds @ [p]) @ (q # ys)" using True Nil by simp
      moreover have "lm_loop ts E l (lst_of ds) p q = Some (E2, l2)" using unf nx(1) Nil s2(1) by simp
      moreover have "\<forall>a. a \<notin> set (ds @ (p # xs) @ q # ys) \<longrightarrow> E2 a = E a" using s2(4) s(4) by simp
      ultimately show ?thesis using s2(3) s(3) by simp
    next
      case (Cons x xs')
      have st: "stamps ts E1 key (set (x # xs') \<union> set (q # ys))"
        by (rule stamps_subset [OF stamps_items [OF less.prems(5) s(3)]]) (auto simp: Cons)
      have "lseg E1 (Some x) (x # xs') None" "lseg E1 (Some q) (q # ys) None" using E1(3,4) nx(1) Cons by simp_all
      moreover have "distinct ((ds @ [p]) @ (x # xs') @ (q # ys))" using less.prems(4) Cons by auto
      moreover have "length xs' + length ys < length xs + length ys" using Cons by simp
      ultimately obtain E2 l2 where s2: "lm_loop ts E1 l1 (lst_of (ds @ [p])) x q = Some (E2, l2)"
        "lseg E2 l2 ((ds @ [p]) @ merge_by key (x # xs') (q # ys)) None" "items E2 = items E1"
        "\<forall>a. a \<notin> set ((ds @ [p]) @ (x # xs') @ (q # ys)) \<longrightarrow> E2 a = E1 a"
        using less.hyps [OF _ E1(2) _ _ _ st] by blast
      moreover have "ds @ merge_by key (p # xs) (q # ys) = (ds @ [p]) @ merge_by key (x # xs') (q # ys)" using True Cons by simp
      moreover have "lm_loop ts E l (lst_of ds) p q = Some (E2, l2)" using unf nx(1) Cons s2(1) by simp
      moreover have "\<forall>a. a \<notin> set (ds @ (p # xs) @ q # ys) \<longrightarrow> E2 a = E a" using s2(4) s(4) Cons by simp
      ultimately show ?thesis using s(3) by simp
    qed
  next
    case False
    obtain E1 l1 where s: "lm_store E l (lst_of ds) (Some q) = Some (E1, l1)" "lseg E1 l1 ds (Some q)" "items E1 = items E"
      "\<forall>a. a \<notin> set ds \<longrightarrow> E1 a = E a" using lm_store_ok [OF less.prems(1) d(1), of "Some q"] by blast
    have fr: "lseg E1 u xs None = lseg E u xs None" "lseg E1 u ys None = lseg E u ys None" "E1 p = E p" "E1 q = E q" for u
      using s(4) d by (auto intro!: lseg_frame)
    have E1: "E1 q = Some eq" "lseg E1 l1 (ds @ [q]) (le_next eq)" "lseg E1 (le_next eq) ys None" "lseg E1 (Some p) (p # xs) None"
      using s(2) ep(1) nx(2) ny(2) eq(1) unfolding lseg_app lseg.simps fr by simp_all
    have unf: "lm_loop ts E l (lst_of ds) p q = (case le_next eq of None \<Rightarrow> lm_store E1 l1 (lst_of (ds @ [q])) (Some p)
        | Some q' \<Rightarrow> lm_loop ts E1 l1 (lst_of (ds @ [q])) p q')"
      using ep eq False s(1) E1(1) unfolding lst_of_simps by (simp add: lm_loop.simps [of ts E])
    show ?thesis
    proof (cases ys)
      case Nil
      obtain E2 l2 where s2: "lm_store E1 l1 (lst_of (ds @ [q])) (Some p) = Some (E2, l2)" "lseg E2 l2 (ds @ [q]) (Some p)"
        "items E2 = items E1" "\<forall>a. a \<notin> set (ds @ [q]) \<longrightarrow> E2 a = E1 a"
        using lm_store_ok [OF E1(2), of "Some p"] d by auto
      have "lseg E2 (Some p) (p # xs) None = lseg E1 (Some p) (p # xs) None" using s2(4) d by (intro lseg_frame) auto
      then have "lseg E2 l2 ((ds @ [q]) @ (p # xs)) None" using s2(2) E1(4) unfolding lseg_app by blast
      moreover have "ds @ merge_by key (p # xs) (q # ys) = (ds @ [q]) @ (p # xs)" using False Nil by simp
      moreover have "lm_loop ts E l (lst_of ds) p q = Some (E2, l2)" using unf ny(1) Nil s2(1) by simp
      moreover have "\<forall>a. a \<notin> set (ds @ (p # xs) @ q # ys) \<longrightarrow> E2 a = E a" using s2(4) s(4) by simp
      ultimately show ?thesis using s2(3) s(3) by simp
    next
      case (Cons y ys')
      have st: "stamps ts E1 key (set (p # xs) \<union> set (y # ys'))"
        by (rule stamps_subset [OF stamps_items [OF less.prems(5) s(3)]]) (auto simp: Cons)
      have "lseg E1 (Some p) (p # xs) None" "lseg E1 (Some y) (y # ys') None" using E1(3,4) ny(1) Cons by simp_all
      moreover have "distinct ((ds @ [q]) @ (p # xs) @ (y # ys'))" using less.prems(4) Cons by auto
      moreover have "length xs + length ys' < length xs + length ys" using Cons by simp
      ultimately obtain E2 l2 where s2: "lm_loop ts E1 l1 (lst_of (ds @ [q])) p y = Some (E2, l2)"
        "lseg E2 l2 ((ds @ [q]) @ merge_by key (p # xs) (y # ys')) None" "items E2 = items E1"
        "\<forall>a. a \<notin> set ((ds @ [q]) @ (p # xs) @ (y # ys')) \<longrightarrow> E2 a = E1 a"
        using less.hyps [OF _ E1(2) _ _ _ st] by blast
      moreover have "ds @ merge_by key (p # xs) (q # ys) = (ds @ [q]) @ merge_by key (p # xs) (y # ys')" using False Cons by simp
      moreover have "lm_loop ts E l (lst_of ds) p q = Some (E2, l2)" using unf ny(1) Cons s2(1) by simp
      moreover have "\<forall>a. a \<notin> set (ds @ (p # xs) @ q # ys) \<longrightarrow> E2 a = E a" using s2(4) s(4) Cons by simp
      ultimately show ?thesis using s(3) by simp
    qed
  qed
qed

lemma listmerge_ok:
  assumes "lseg E p xs None" "lseg E q ys None" "distinct (xs @ ys)" "stamps ts E key (set xs \<union> set ys)"
  shows "\<exists>E' r. listmerge ts E p q = Some (E', r) \<and> lseg E' r (merge_by key xs ys) None \<and> items E' = items E \<and>
    (\<forall>a. a \<notin> set xs \<union> set ys \<longrightarrow> E' a = E a)"
proof (cases xs)
  case Nil
  then show ?thesis using assms by (simp add: listmerge_def)
next
  case x: (Cons x xs')
  show ?thesis
  proof (cases ys)
    case Nil
    then show ?thesis using assms x by (simp add: listmerge_def)
  next
    case (Cons y ys')
    obtain E' r where "lm_loop ts E None None x y = Some (E', r)" "lseg E' r (merge_by key xs ys) None" "items E' = items E"
      "\<forall>a. a \<notin> set (xs @ ys) \<longrightarrow> E' a = E a"
      using lm_loop_ok [of E None "[]" None x xs' y ys' ts key] assms x Cons by auto
    then show ?thesis using assms(1,2) x Cons by (auto simp: listmerge_def)
  qed
qed

subsection \<open>Sorting\<close>

text \<open>The fragments: \<open>tmp[i]\<close> holds the sorted list of the addresses \<open>S ! i\<close>, none or \<open>2 ^ i\<close> of them.\<close>

definition frags :: "(nat \<Rightarrow> int) \<Rightarrow> rr_lents \<Rightarrow> nat option list \<Rightarrow> nat list list \<Rightarrow> bool" where
  "frags key E tmp S \<longleftrightarrow> length tmp = NTMPSORT \<and> length S \<le> NTMPSORT \<and>
     (\<forall>i < length S. lseg E (tmp ! i) (sort_key key (S ! i)) None \<and> (S ! i = [] \<or> length (S ! i) = 2 ^ i))"

lemma concat_nth_disjoint:
  "distinct (concat S) \<Longrightarrow> i < length S \<Longrightarrow> j < length S \<Longrightarrow> i \<noteq> j \<Longrightarrow> set (S ! i) \<inter> set (S ! j) = {}"
proof (induction S arbitrary: i j)
  case (Cons x S)
  have x: "set x \<inter> set (S ! k) = {}" if "k < length S" for k
    using Cons.prems(1) that nth_mem [OF that] by fastforce
  show ?case using Cons.IH Cons.prems x by (cases i; cases j) auto
qed simp

lemma nth_subset_concat: "i < length S \<Longrightarrow> set (S ! i) \<subseteq> set (concat S)"
  using nth_mem by fastforce

lemma concat_set: "i < length S \<Longrightarrow> set (concat S) = set (S ! i) \<union> set (concat (S[i := []]))"
  by (induction S arbitrary: i) (auto split: nat.split)

lemma distinct_concat_clear:
  "i < length S \<Longrightarrow> distinct (concat S) \<Longrightarrow> distinct (S ! i) \<and> distinct (concat (S[i := []])) \<and> set (S ! i) \<inter> set (concat (S[i := []])) = {}"
proof (induction S arbitrary: i)
  case (Cons x S)
  show ?case
  proof (cases i)
    case (Suc j)
    then have j: "j < length S" using Cons.prems by simp
    have "set (concat S) = set (S ! j) \<union> set (concat (S[j := []]))" using concat_set [OF j] .
    then show ?thesis using Cons.IH [OF j] Cons.prems(2) Suc by auto
  qed (use Cons.prems in auto)
qed simp

lemma concat_rev_clear:
  assumes "c < length S" "\<And>i. i < c \<Longrightarrow> S ! i = []"
  shows "concat (rev (S[c := T])) = concat (rev (drop (Suc c) S)) @ T" "concat (rev S) = concat (rev (drop (Suc c) S)) @ S ! c"
proof -
  have n: "concat (rev (take c S)) = []" using assms by (auto simp: in_set_conv_nth)
  show "concat (rev (S[c := T])) = concat (rev (drop (Suc c) S)) @ T"
    using assms(1) n by (simp add: upd_conv_take_nth_drop)
  have "concat (rev (take c S @ S ! c # drop (Suc c) S)) = concat (rev (drop (Suc c) S)) @ S ! c" using n by simp
  then show "concat (rev S) = concat (rev (drop (Suc c) S)) @ S ! c" using id_take_nth_drop [OF assms(1)] by simp
qed

lemma frags_frame:
  assumes "frags key E tmp S" "\<And>a. a \<in> set (concat S) \<Longrightarrow> E' a = E a"
  shows "frags key E' tmp S"
proof -
  have "lseg E' (tmp ! i) (sort_key key (S ! i)) None = lseg E (tmp ! i) (sort_key key (S ! i)) None" if i: "i < length S" for i
    by (rule lseg_frame) (use assms(2) nth_subset_concat [OF i] in \<open>auto simp del: set_concat\<close>)
  then show ?thesis using assms(1) by (simp add: frags_def)
qed

lemma frags_set:
  assumes "frags key E tmp S" "lseg E p (sort_key key C) None" "i < length S" "C = [] \<or> length C = 2 ^ i"
  shows "frags key E (tmp[i := p]) (S[i := C])"
  using assms by (auto simp: frags_def nth_list_update)

lemma sort_carry_ok:
  assumes "frags key E tmp S" "counter + n = length S" "\<forall>i < counter. S ! i = []" "lseg E carry (sort_key key C) None"
    "length C = 2 ^ counter" "distinct (concat S @ C)" "stamps ts E key (set (concat S @ C))"
  shows "\<exists>E' tmp' c carry' S' C'. sort_carry ts E tmp n counter carry = Some (E', tmp', c, carry') \<and>
    frags key E' tmp' S' \<and> length S' = length S \<and> c \<le> length S \<and> (\<forall>i < length S. i \<le> c \<longrightarrow> S' ! i = []) \<and>
    lseg E' carry' (sort_key key C') None \<and> length C' = 2 ^ c \<and> concat (rev S') @ C' = concat (rev S) @ C \<and>
    items E' = items E \<and> (\<forall>a. a \<notin> set (concat S @ C) \<longrightarrow> E' a = E a)"
  using assms
proof (induction n arbitrary: E tmp S counter carry C)
  case 0
  have "sort_carry ts E tmp 0 counter carry = Some (E, tmp, counter, carry)" by simp
  moreover have "\<forall>i < length S. i \<le> counter \<longrightarrow> S ! i = []" using 0 by auto
  moreover have "counter \<le> length S" using 0(2) by simp
  ultimately show ?case using 0 by blast
next
  case (Suc n)
  have c: "counter < length S" "counter < length tmp" using Suc.prems(1,2) by (auto simp: frags_def)
  have seg: "lseg E (tmp ! counter) (sort_key key (S ! counter)) None" "S ! counter = [] \<or> length (S ! counter) = 2 ^ counter"
    using Suc.prems(1) c(1) by (simp_all add: frags_def)
  show ?case
  proof (cases "tmp ! counter = None")
    case True
    then have n: "S ! counter = []" using seg(1) lseg_first fst_of_None by (metis length_0_conv length_sort)
    have r: "sort_carry ts E tmp (Suc n) counter carry = Some (E, tmp, counter, carry)" using True c by simp
    have "\<forall>i < length S. i \<le> counter \<longrightarrow> S ! i = []" using Suc.prems(3) n by (auto simp: le_less)
    then show ?thesis using r Suc.prems c by (metis less_imp_le)
  next
    case False
    then have len: "length (S ! counter) = 2 ^ counter" using seg by fastforce
    let ?S = "S[counter := []]" and ?C = "S ! counter @ C"
    have dc: "distinct (S ! counter)" "distinct (concat ?S)" "set (S ! counter) \<inter> set (concat ?S) = {}"
      using distinct_concat_clear [OF c(1)] Suc.prems(6) by auto
    have cs: "set (concat S) = set (S ! counter) \<union> set (concat ?S)" using concat_set [OF c(1)] .
    have dC: "distinct C" "set C \<inter> set (concat S) = {}" using Suc.prems(6) by auto
    have d2: "distinct (sort_key key (S ! counter) @ sort_key key C)" using dc(1) dC cs by auto
    have st: "stamps ts E key (set (sort_key key (S ! counter)) \<union> set (sort_key key C))"
      using cs by (intro stamps_subset [OF Suc.prems(7)]) auto
    obtain E1 r where m: "listmerge ts E (tmp ! counter) carry = Some (E1, r)"
      "lseg E1 r (merge_by key (sort_key key (S ! counter)) (sort_key key C)) None" "items E1 = items E"
      "\<forall>a. a \<notin> set (sort_key key (S ! counter)) \<union> set (sort_key key C) \<longrightarrow> E1 a = E a"
      using listmerge_ok [OF seg(1) Suc.prems(4) d2 st] by blast
    have f1: "frags key E1 (tmp[counter := None]) ?S"
      using dc(3) dC(2) cs m(4) by (intro frags_frame [OF frags_set [OF Suc.prems(1)]]) (auto simp: c)
    have l1: "lseg E1 r (sort_key key ?C) None" using m(2) by (simp add: merge_by_sort_key)
    have len1: "length ?C = 2 ^ (counter + 1)" using len Suc.prems(5) by simp
    have d1: "distinct (concat ?S @ ?C)" using dc dC cs by auto
    have n1: "\<forall>i < counter + 1. ?S ! i = []" using Suc.prems(3) c(1) by (auto simp: nth_list_update less_Suc_eq)
    have set1: "set (concat ?S @ ?C) = set (concat S @ C)" using cs by auto
    have st1: "stamps ts E1 key (set (concat ?S @ ?C))" using stamps_items [OF Suc.prems(7) m(3)] set1 by simp
    have len2: "counter + 1 + n = length ?S" using Suc.prems(2) by simp
    obtain E' tmp' c' carry' S' C' where R: "sort_carry ts E1 (tmp[counter := None]) n (counter + 1) r = Some (E', tmp', c', carry')"
      "frags key E' tmp' S'" "length S' = length ?S" "c' \<le> length ?S" "\<forall>i < length ?S. i \<le> c' \<longrightarrow> S' ! i = []"
      "lseg E' carry' (sort_key key C') None" "length C' = 2 ^ c'" "concat (rev S') @ C' = concat (rev ?S) @ ?C"
      "items E' = items E1" "\<forall>a. a \<notin> set (concat ?S @ ?C) \<longrightarrow> E' a = E1 a"
      using Suc.IH [OF f1 len2 n1 l1 len1 d1 st1] by blast
    have "concat (rev ?S) @ ?C = concat (rev S) @ C"
      using concat_rev_clear(1) [OF c(1), of "[]"] concat_rev_clear(2) [OF c(1)] Suc.prems(3) by simp
    moreover have "sort_carry ts E tmp (Suc n) counter carry = Some (E', tmp', c', carry')" using R(1) m(1) c(2) False by auto
    moreover have "\<forall>a. a \<notin> set (concat S @ C) \<longrightarrow> E' a = E a" using R(10) m(4) cs unfolding set1 by auto
    moreover have "items E' = items E" using R(9) m(3) by simp
    ultimately show ?thesis using R(2-8) unfolding length_list_update by metis
  qed
qed

lemma frags_length: "i < length S \<Longrightarrow> length (S ! i) \<le> length (concat S)"
  by (induction S arbitrary: i) (auto simp: nth_Cons split: nat.split intro: trans_le_add2)

lemma length_concat_rev: "length (concat (rev S)) = length (concat S)"
  by (induction S) simp_all

lemma set_concat_rev: "set (concat (rev S)) = set (concat S)"
  by simp

lemma pow_bound: "(2 :: nat) ^ c < 2 ^ NTMPSORT \<Longrightarrow> c < NTMPSORT"
  by (rule power_less_imp_less_exp) auto

lemma distinct_concat_rev: "distinct (concat (rev S) @ C) \<longleftrightarrow> distinct (concat S @ C)"
proof -
  have "mset (concat (rev S)) = mset (concat S)" by (induction S) (simp_all add: add.commute)
  then have "distinct (concat (rev S)) = distinct (concat S)" by (metis mset_eq_imp_distinct_iff)
  then show ?thesis by simp
qed

text \<open>One entry more.\<close>

lemma sort_step:
  assumes "frags key E tmp S" "E r = Some e" "distinct (concat S @ [r])" "length (concat S) + 1 < 2 ^ NTMPSORT"
    "stamps ts E key (set (concat S @ [r]))"
  shows "\<exists>E' tmp' c carry S'. sort_carry ts (E(r \<mapsto> e\<lparr>le_next := None\<rparr>)) tmp (length S) 0 (Some r) = Some (E', tmp', c, carry) \<and>
    c \<noteq> NTMPSORT \<and> frags key E' (tmp'[c := carry]) S' \<and> length S' = (if c = length S then length S + 1 else length S) \<and>
    S' \<noteq> [] \<and> concat (rev S') = concat (rev S) @ [r] \<and> items E' = items E \<and> (\<forall>a. a \<notin> set (concat S @ [r]) \<longrightarrow> E' a = E a)"
proof -
  let ?E = "E(r \<mapsto> e\<lparr>le_next := None\<rparr>)"
  have r: "r \<notin> set (concat S)" using assms(3) by auto
  have f: "frags key ?E tmp S" by (rule frags_frame [OF assms(1)]) (use r in \<open>auto simp del: set_concat\<close>)
  have it: "items ?E = items E" using assms(2) by simp
  have st: "stamps ts ?E key (set (concat S @ [r]))" using stamps_items [OF assms(5) it] .
  have n0: "0 + length S = length S" "\<forall>i < 0. S ! i = []" "length [r] = 2 ^ 0" by simp_all
  have c0: "lseg ?E (Some r) (sort_key key [r]) None" by simp
  obtain E' tmp' c carry S1 C where R: "sort_carry ts ?E tmp (length S) 0 (Some r) = Some (E', tmp', c, carry)"
    "frags key E' tmp' S1" "length S1 = length S" "c \<le> length S" "\<forall>i < length S. i \<le> c \<longrightarrow> S1 ! i = []"
    "lseg E' carry (sort_key key C) None" "length C = 2 ^ c" "concat (rev S1) @ C = concat (rev S) @ [r]"
    "items E' = items ?E" "\<forall>a. a \<notin> set (concat S @ [r]) \<longrightarrow> E' a = ?E a"
    using sort_carry_ok [OF f n0(1,2) c0 n0(3) assms(3) st] by blast
  have "length C \<le> length (concat (rev S) @ [r])" unfolding R(8) [symmetric] by simp
  then have "(2 :: nat) ^ c \<le> length (concat S) + 1" using R(7) by (simp add: length_concat_rev)
  then have "(2 :: nat) ^ c < 2 ^ NTMPSORT" using assms(4) by linarith
  then have cb: "c < NTMPSORT" by (rule pow_bound)
  have fr: "\<forall>a. a \<notin> set (concat S @ [r]) \<longrightarrow> E' a = E a" using R(10) by auto
  show ?thesis
  proof (cases "c = length S")
    case True
    have "frags key E' (tmp'[c := carry]) (S1 @ [C])"
      using R(2,3,6,7) cb True by (auto simp: frags_def nth_append nth_list_update less_Suc_eq)
    moreover have "concat (rev (S1 @ [C])) = concat (rev S) @ [r]"
    proof -
      have "concat S1 = []" using R(3,5) True by (auto simp: in_set_conv_nth concat_eq_Nil_conv)
      then have n: "concat (rev S1) = []" by simp
      have "C = concat (rev S) @ [r]" using R(8) unfolding n by simp
      then show ?thesis using n by (simp del: concat_eq_Nil_conv)
    qed
    ultimately show ?thesis using R(1,3,9) it fr cb True
      by (intro exI [of _ E'] exI [of _ tmp'] exI [of _ c] exI [of _ carry] exI [of _ "S1 @ [C]"]) simp
  next
    case False
    then have c: "c < length S1" using R(3,4) by simp
    have "frags key E' (tmp'[c := carry]) (S1[c := C])" using frags_set [OF R(2,6) c] R(7) by simp
    moreover have "concat (rev (S1[c := C])) = concat (rev S) @ [r]"
    proof -
      have "concat (rev (S1[c := C])) = concat (rev (drop (Suc c) S1)) @ C" "concat (rev S1) = concat (rev (drop (Suc c) S1)) @ S1 ! c"
        using R(3,5) c concat_rev_clear(1) [OF c, of C] concat_rev_clear(2) [OF c] by simp_all
      then show ?thesis using R(3,5,8) c by simp
    qed
    moreover have "S1[c := C] \<noteq> []" using c by auto
    ultimately show ?thesis using R(1,3,9) it fr cb False
      by (intro exI [of _ E'] exI [of _ tmp'] exI [of _ c] exI [of _ carry] exI [of _ "S1[c := C]"]) simp
  qed
qed

lemma sort_fill_ok:
  assumes "frags key E tmp S" "lseg E (Some r) (r # R) None" "distinct (concat S @ r # R)"
    "length (concat S) + length (r # R) < 2 ^ NTMPSORT" "stamps ts E key (set (concat S @ r # R))"
  shows "\<exists>E' tmp' S'. sort_fill ts E tmp (length S) r = Some (E', tmp', length S') \<and> frags key E' tmp' S' \<and> S' \<noteq> [] \<and>
    concat (rev S') = concat (rev S) @ r # R \<and> items E' = items E"
  using assms
proof (induction R arbitrary: E tmp S r)
  case Nil
  then obtain e where e: "E r = Some e" "le_next e = None" by auto
  obtain E' tmp' c carry S' where s: "sort_carry ts (E(r \<mapsto> e\<lparr>le_next := None\<rparr>)) tmp (length S) 0 (Some r) = Some (E', tmp', c, carry)"
    "c \<noteq> NTMPSORT" "frags key E' (tmp'[c := carry]) S'" "length S' = (if c = length S then length S + 1 else length S)"
    "S' \<noteq> []" "concat (rev S') = concat (rev S) @ [r]" "items E' = items E"
    using sort_step [OF Nil.prems(1) e(1) _ _ Nil.prems(5)] Nil.prems(3,4) by auto
  have "sort_fill ts E tmp (length S) r = Some (E', tmp'[c := carry], length S')"
    using e s(1,2,4) by (simp add: sort_fill.simps [of ts E] set_next_def Let_def)
  then show ?case using s by blast
next
  case (Cons r' R)
  then obtain e where e: "E r = Some e" "le_next e = Some r'" "lseg E (Some r') (r' # R) None" by auto
  have d: "distinct (concat S @ [r])" "r \<notin> set (r' # R)" "set (r' # R) \<inter> set (concat S) = {}" "distinct (r' # R)" using Cons.prems(3) by auto
  have b: "length (concat S) + 1 < 2 ^ NTMPSORT" using Cons.prems(4) by simp
  have st: "stamps ts E key (set (concat S @ [r]))" by (rule stamps_subset [OF Cons.prems(5)]) auto
  obtain E1 tmp1 c carry S1 where s: "sort_carry ts (E(r \<mapsto> e\<lparr>le_next := None\<rparr>)) tmp (length S) 0 (Some r) = Some (E1, tmp1, c, carry)"
    "c \<noteq> NTMPSORT" "frags key E1 (tmp1[c := carry]) S1" "length S1 = (if c = length S then length S + 1 else length S)"
    "concat (rev S1) = concat (rev S) @ [r]" "items E1 = items E" "\<forall>a. a \<notin> set (concat S @ [r]) \<longrightarrow> E1 a = E a"
    using sort_step [OF Cons.prems(1) e(1) d(1) b st] by blast
  have set1: "set (concat S1) = set (concat S @ [r])" using arg_cong [OF s(5), of set] by simp
  have len1: "length (concat S1) = length (concat S) + 1" using arg_cong [OF s(5), of length] by (simp add: length_concat_rev)
  have "lseg E1 (Some r') (r' # R) None = lseg E (Some r') (r' # R) None" by (rule lseg_frame) (use s(7) d(2,3) in \<open>auto simp del: set_concat\<close>)
  then have l1: "lseg E1 (Some r') (r' # R) None" using e(3) by simp
  have d1: "distinct (concat S1 @ r' # R)"
  proof -
    have "distinct (concat (rev S1) @ r' # R)" unfolding s(5) using d distinct_concat_rev [of S "r # r' # R"] Cons.prems(3) by auto
    then show ?thesis by (simp add: distinct_concat_rev)
  qed
  have b1: "length (concat S1) + length (r' # R) < 2 ^ NTMPSORT" using Cons.prems(4) len1 by simp
  have "set (concat S1 @ r' # R) = set (concat S @ r # r' # R)" using set1 by (auto simp del: set_concat)
  then have st1: "stamps ts E1 key (set (concat S1 @ r' # R))" using stamps_items [OF Cons.prems(5) s(6)] by (simp only:)
  obtain E' tmp' S' where "sort_fill ts E1 (tmp1[c := carry]) (length S1) r' = Some (E', tmp', length S')" "frags key E' tmp' S'"
    "S' \<noteq> []" "concat (rev S') = concat (rev S1) @ r' # R" "items E' = items E1"
    using Cons.IH [OF s(3) l1 d1 b1 st1] by blast
  moreover have "sort_fill ts E tmp (length S) r = sort_fill ts E1 (tmp1[c := carry]) (length S1) r'"
    using e s(1,2,4) by (simp add: sort_fill.simps [of ts E] set_next_def Let_def)
  ultimately show ?case using s(5,6) by auto
qed

lemma sort_rest_ok:
  assumes "length tmp = NTMPSORT" "length S \<le> NTMPSORT" "\<forall>i < length S. counter \<le> i \<longrightarrow> lseg E (tmp ! i) (sort_key key (S ! i)) None"
    "counter + n = length S" "lseg E carry (sort_key key (concat (rev (take counter S)))) None"
    "distinct (concat S)" "stamps ts E key (set (concat S))"
  shows "\<exists>E' r. sort_rest ts E tmp counter n carry = Some (E', r) \<and> lseg E' r (sort_key key (concat (rev S))) None \<and> items E' = items E"
  using assms
proof (induction n arbitrary: E counter carry)
  case (Suc n)
  have c: "counter < length S" "counter < length tmp" using Suc.prems(1,2,4) by auto
  let ?X = "S ! counter" and ?Y = "concat (rev (take counter S))"
  have seg: "lseg E (tmp ! counter) (sort_key key ?X) None" using Suc.prems(3) c(1) by simp
  have sp: "concat S = concat (take counter S) @ ?X @ concat (drop (Suc counter) S)"
    by (subst id_take_nth_drop [OF c(1)]) simp
  have sets: "set ?Y = set (concat (take counter S))" by simp
  have d: "distinct (?X @ ?Y)" "set ?X \<subseteq> set (concat S)" "set ?Y \<subseteq> set (concat S)"
    "set (concat (drop (Suc counter) S)) \<inter> (set ?X \<union> set ?Y) = {}"
    using Suc.prems(6) distinct_concat_rev [of "take counter S" ?X] unfolding sp sets by (auto simp del: set_concat)
  have "distinct (sort_key key ?X @ sort_key key ?Y)" "stamps ts E key (set (sort_key key ?X) \<union> set (sort_key key ?Y))"
    using d(1-3) stamps_subset [OF Suc.prems(7), of "set ?X \<union> set ?Y"] by (simp_all del: set_concat)
  from listmerge_ok [OF seg Suc.prems(5) this]
  obtain E1 r where m: "listmerge ts E (tmp ! counter) carry = Some (E1, r)"
    "lseg E1 r (merge_by key (sort_key key ?X) (sort_key key ?Y)) None" "items E1 = items E"
    "\<forall>a. a \<notin> set (sort_key key ?X) \<union> set (sort_key key ?Y) \<longrightarrow> E1 a = E a" by blast
  have l1: "lseg E1 r (sort_key key (concat (rev (take (counter + 1) S)))) None"
    using m(2) c(1) by (simp add: merge_by_sort_key take_Suc_conv_app_nth)
  have "lseg E1 (tmp ! i) (sort_key key (S ! i)) None" if i: "i < length S" "counter + 1 \<le> i" for i
  proof -
    have "S ! i \<in> set (drop (Suc counter) S)" using i nth_mem [of "i - Suc counter" "drop (Suc counter) S"] by simp
    then have "set (S ! i) \<subseteq> set (concat (drop (Suc counter) S))" by auto
    then have "lseg E1 (tmp ! i) (sort_key key (S ! i)) None = lseg E (tmp ! i) (sort_key key (S ! i)) None"
      using m(4) d(4) by (intro lseg_frame) (auto simp del: set_concat)
    then show ?thesis using Suc.prems(3) i by simp
  qed
  then have segs: "\<forall>i < length S. counter + 1 \<le> i \<longrightarrow> lseg E1 (tmp ! i) (sort_key key (S ! i)) None" by blast
  have n1: "counter + 1 + n = length S" using Suc.prems(4) by simp
  obtain E' r' where "sort_rest ts E1 tmp (counter + 1) n r = Some (E', r')" "lseg E' r' (sort_key key (concat (rev S))) None"
    "items E' = items E1"
    using Suc.IH [OF Suc.prems(1,2) segs n1 l1 Suc.prems(6) stamps_items [OF Suc.prems(7) m(3)]] by blast
  then show ?case using m(1,3) c(2) by auto
qed simp

lemma sort_back_ok:
  assumes "lseg E p xs None" "distinct xs"
  shows "\<exists>E'. sort_back E p q = Some (E', if xs = [] then q else Some (last xs)) \<and> lseg E' p xs None \<and> pseg E' q xs \<and>
    items E' = items E \<and> (\<forall>a. a \<notin> set xs \<longrightarrow> E' a = E a)"
  using assms
proof (induction xs arbitrary: E p q)
  case Nil
  then show ?case by (simp add: sort_back.simps)
next
  case (Cons x xs)
  then obtain e where e: "E x = Some e" "p = Some x" "lseg E (le_next e) xs None" by auto
  let ?E = "E(x \<mapsto> e\<lparr>le_prev := q\<rparr>)"
  have "lseg ?E (le_next e) xs None" using e by simp
  then obtain E' where r: "sort_back ?E (le_next e) (Some x) = Some (E', if xs = [] then Some x else Some (last xs))"
    "lseg E' (le_next e) xs None" "pseg E' (Some x) xs" "items E' = items ?E" "\<forall>a. a \<notin> set xs \<longrightarrow> E' a = ?E a"
    using Cons.IH [of ?E "le_next e" "Some x"] Cons.prems(2) unfolding distinct.simps by blast
  have "E' x = Some (e\<lparr>le_prev := q\<rparr>)" using r(5) Cons.prems(2) by simp
  moreover have "sort_back E p q = sort_back ?E (le_next e) (Some x)" using e(1,2) by (simp add: sort_back.simps [of E] set_prev_def)
  ultimately show ?case using r e(1,2) by auto
qed

lemma sort_rrl_ok:
  assumes rep: "rl_rep l xs" and st: "stamps ts (rl_ents l) key (set xs)" and len: "length xs < 2 ^ NTMPSORT"
  shows "\<exists>l'. sort_rrl ts l = Some l' \<and> rl_rep l' (sort_key key xs) \<and> items (rl_ents l') = items (rl_ents l)"
proof (cases "length xs \<le> 1")
  case True
  then consider "xs = []" | x where "xs = [x]" by (cases xs) auto
  then show ?thesis
  proof cases
    case 1
    then show ?thesis using rep rl_repD(6) [OF rep] by (simp add: sort_rrl_def)
  next
    case 2
    then show ?thesis using rep rl_repD(2,6) [OF rep] by (auto simp: sort_rrl_def)
  qed
next
  case False
  then obtain x y zs where xs: "xs = x # y # zs" by (cases xs; cases "tl xs") auto
  note r = rl_repD [OF rep]
  obtain e where e: "rrset_l l = Some x" "rl_ents l x = Some e" "le_next e \<noteq> None" using r(2) xs by auto
  have f0: "frags key (rl_ents l) (replicate NTMPSORT None) []" by (simp add: frags_def)
  have l0: "lseg (rl_ents l) (Some x) (x # y # zs) None" using r(2) e(1) xs by simp
  have d0: "distinct (concat [] @ x # y # zs)" "length (concat []) + length (x # y # zs) < 2 ^ NTMPSORT"
    "stamps ts (rl_ents l) key (set (concat [] @ x # y # zs))" using r(1) len st xs by simp_all
  obtain E1 tmp S where f: "sort_fill ts (rl_ents l) (replicate NTMPSORT None) 0 x = Some (E1, tmp, length S)"
    "frags key E1 tmp S" "S \<noteq> []" "concat (rev S) = x # y # zs" "items E1 = items (rl_ents l)"
    using sort_fill_ok [OF f0 l0 d0] by auto
  have sx: "concat (rev S) = xs" using f(4) xs by simp
  have S: "distinct (concat S)" "set (concat S) = set xs"
    using distinct_concat_rev [of S "[]"] r(1) sx set_concat_rev [of S] by simp_all
  have st1: "stamps ts E1 key (set (concat S))" using stamps_items [OF st f(5)] S(2) by simp
  have S0: "0 < length S" "1 + (length S - 1) = length S" using f(3) by (simp_all add: Suc_leI)
  have seg: "\<forall>i < length S. lseg E1 (tmp ! i) (sort_key key (S ! i)) None" "length tmp = NTMPSORT" "length S \<le> NTMPSORT"
    using f(2) by (simp_all add: frags_def)
  have c1: "lseg E1 (tmp ! 0) (sort_key key (concat (rev (take 1 S)))) None"
    using seg(1) S0 by (cases S) auto
  obtain E2 c where m: "sort_rest ts E1 tmp 1 (length S - 1) (tmp ! 0) = Some (E2, c)"
    "lseg E2 c (sort_key key xs) None" "items E2 = items E1"
    using sort_rest_ok [OF seg(2,3) _ S0(2) c1 S(1) st1] seg(1) sx by auto
  obtain E3 where b: "sort_back E2 c None = Some (E3, lst_of (sort_key key xs))" "lseg E3 c (sort_key key xs) None"
    "pseg E3 None (sort_key key xs)" "items E3 = items E2"
    using sort_back_ok [OF m(2), of None] r(1) by (auto simp: lst_of_def)
  have "sort_rrl ts l = Some \<lparr>rl_ents = E3, rrset_l = c, rrset_l_tail = lst_of (sort_key key xs)\<rparr>"
    using e f(1) m(1) b(1) by (auto simp: sort_rrl_def)
  moreover have "items E3 = items (rl_ents l)" using b(4) m(3) f(5) by simp
  then have "dom E3 = set xs" using items_dom r(5) by metis
  then have "rl_rep \<lparr>rl_ents = E3, rrset_l = c, rrset_l_tail = lst_of (sort_key key xs)\<rparr> (sort_key key xs)"
    using b(2,3) r(1) by (simp add: rl_rep_def)
  ultimately show ?thesis using \<open>items E3 = items (rl_ents l)\<close> by simp
qed

subsection \<open>Properties\<close>

definition lent_ex :: "nat option \<Rightarrow> nat option \<Rightarrow> int \<Rightarrow> rr_lent" where
  "lent_ex n p i = \<lparr>le_next = n, le_prev = p, le_rrset = None, le_cent = 0, le_idx = i\<rparr>"

definition rrl_ex :: rr_list where
  "rrl_ex = \<lparr>rl_ents = [0 \<mapsto> lent_ex (Some 1) None 5, 1 \<mapsto> lent_ex None (Some 0) 3], rrset_l = Some 0, rrset_l_tail = Some 1\<rparr>"

definition rrl1_ex :: rr_list where
  "rrl1_ex = \<lparr>rl_ents = [0 \<mapsto> lent_ex None None 5], rrset_l = Some 0, rrset_l_tail = Some 0\<rparr>"

abbreviation ts_ex :: "rr_lent \<Rightarrow> int option" where "ts_ex e \<equiv> Some (le_idx e)"

lemma rrl_ex_rep: "rl_rep rrl_ex [0, 1]" "rl_rep rrl1_ex [0]"
  "links_free ts_ex" "stamps ts_ex (rl_ents rrl_ex) (\<lambda>a. if a = 0 then 5 else (3 :: int)) (set [0, 1])"
  by (auto simp: rl_rep_def rrl_ex_def rrl1_ex_def lent_ex_def lst_of_def links_free_def strip_def stamps_def stamp_def)

text \<open>C40: The merge sort of the list of sets with \<open>NTMPSORT\<close> fragments is stable sorting by time stamp.\<close>

theorem rrl_sort_stable:
  assumes "rl_rep l xs" "stamps ts (rl_ents l) key (set xs)" "length xs < 2 ^ NTMPSORT"
  shows "\<exists>l'. sort_rrl ts l = Some l' \<and> rl_rep l' (sort_key key xs) \<and> items (rl_ents l') = items (rl_ents l)"
  using assms by (rule sort_rrl_ok)

theorem rrl_sort_stable_witness:
  "\<exists>l'. sort_rrl ts_ex rrl_ex = Some l' \<and> rl_rep l' (sort_key (\<lambda>a. if a = 0 then 5 else (3 :: int)) [0, 1]) \<and>
    items (rl_ents l') = items (rl_ents rrl_ex)"
  by (rule rrl_sort_stable [OF rrl_ex_rep(1,4)]) (simp add: NTMPSORT_def)

text \<open>Insertion into a list sorted by time stamp keeps it sorted, a new set behind those of the same age.\<close>

theorem rrl_insert_sorted:
  assumes "rl_rep l xs" "sorted (map key xs)" "ne \<notin> set xs" "le_next e = None" "le_prev e = None"
    and "stamps ts ((rl_ents l)(ne \<mapsto> e)) key (insert ne (set xs))"
  shows "\<exists>l'. rrl_link ts True ne e l = Some l' \<and> rl_rep l' (sort_key key (xs @ [ne])) \<and>
    items (rl_ents l') = (items (rl_ents l))(ne \<mapsto> strip e)"
proof -
  have "stamps ts (rl_ents (added ne e l)) key (insert ne (set xs))" using assms(6) by (simp add: added_def)
  from rrl_link_ok [OF assms(1,3-5) this, of True] put_at_sorted [OF _ assms(2)] show ?thesis by blast
qed

theorem rrl_insert_sorted_witness:
  "\<exists>l'. rrl_link ts_ex True 1 (lent_ex None None 3) rrl1_ex = Some l' \<and>
    rl_rep l' (sort_key (\<lambda>a. if a = 0 then 5 else (3 :: int)) ([0] @ [1])) \<and>
    items (rl_ents l') = (items (rl_ents rrl1_ex))(1 \<mapsto> strip (lent_ex None None 3))"
  by (rule rrl_insert_sorted [OF rrl_ex_rep(2)])
    (simp_all add: lent_ex_def stamps_def stamp_def rrl_ex_rep(3) rrl1_ex_def)

end
