(* ===== verification/CacheEntryProperties.thy ===== *)
theory CacheEntryProperties
  imports CacheEntryOps RrListProperties DnsNameProperties
begin

text \<open>
  Well-formed cache entries: the member of the union agrees with the flag, the arrays have their lengths, the
  counter and the size are those of what is there. Every operation keeps this, frees what it removes and
  takes the links of the sets it removes out of the list of sets by age.
\<close>

subsection \<open>The sets as one list\<close>

definition pos_cent :: "dns_cent \<Rightarrow> rr_set option list \<Rightarrow> bool" where
  "pos_cent ce ss \<longleftrightarrow> \<not> is_neg ce \<and> (length ss = NRRMU \<or> length ss = NRRTOT) \<and>
     ce_data ce = Rr (take NRRMU ss) (if length ss = NRRMU then None else Some (drop NRRMU ss))"

lemma nrr_simps [simp]: "NRRMU < NRRTOT" "NRRMU + NRREXT = NRRTOT" "NRRTOT - NRRMU = NRREXT" "NRRTOT \<noteq> NRRMU" "NRRMU \<noteq> NRRTOT"
  by (simp_all add: NRRMU_def NRREXT_def NRRTOT_def)

lemma list_at_take: "i < n \<Longrightarrow> n \<le> length xs \<Longrightarrow> list_at (take n xs) i = list_at xs i"
  by (simp add: list_at_def)

lemma list_at_drop: "n \<le> i \<Longrightarrow> n \<le> length xs \<Longrightarrow> list_at (drop n xs) (i - n) = list_at xs i"
  by (auto simp: list_at_def)

lemma pos_index:
  assumes "pos_cent ce ss"
  shows "RRARR_INDEX ce i = list_at ss i"
proof -
  have l: "length ss = NRRMU \<or> length ss = NRRTOT" and d: "ce_data ce = Rr (take NRRMU ss) (if length ss = NRRMU then None else Some (drop NRRMU ss))"
    using assms by (simp_all add: pos_cent_def)
  have le: "NRRMU \<le> length ss" using l by (auto simp: less_imp_le)
  show ?thesis
  proof (cases "i < NRRMU")
    case True
    then show ?thesis using d le by (simp add: RRARR_INDEX_def list_at_take)
  next
    case False
    then show ?thesis using d l le by (auto simp: RRARR_INDEX_def list_at_drop) (simp add: list_at_def)
  qed
qed

lemma pos_testext:
  assumes "pos_cent ce ss" "i < NRRTOT"
  shows "RRARR_INDEX_TESTEXT ce i = Some (if i < length ss then ss ! i else None)"
proof -
  have l: "length ss = NRRMU \<or> length ss = NRRTOT" and d: "ce_data ce = Rr (take NRRMU ss) (if length ss = NRRMU then None else Some (drop NRRMU ss))"
    and n: "\<not> is_neg ce" using assms(1) by (simp_all add: pos_cent_def)
  have le: "NRRMU \<le> length ss" using l by (auto simp: less_imp_le)
  show ?thesis
  proof (cases "i < NRRMU")
    case True
    then show ?thesis using d le n by (simp add: RRARR_INDEX_TESTEXT_def list_at_take) (simp add: list_at_def)
  next
    case False
    then show ?thesis using d l le n assms(2) by (auto simp: RRARR_INDEX_TESTEXT_def list_at_drop) (auto simp: list_at_def)
  qed
qed

lemma pos_put:
  assumes "pos_cent ce ss" "i < length ss"
  shows "\<exists>d. rrarr_put ce i s = Some (ce\<lparr>ce_data := d\<rparr>) \<and> pos_cent (ce\<lparr>ce_data := d\<rparr>) (ss[i := s])"
proof -
  have l: "length ss = NRRMU \<or> length ss = NRRTOT" and d: "ce_data ce = Rr (take NRRMU ss) (if length ss = NRRMU then None else Some (drop NRRMU ss))"
    and n: "\<not> is_neg ce" using assms(1) by (simp_all add: pos_cent_def)
  have le: "NRRMU \<le> length ss" using l by (auto simp: less_imp_le)
  show ?thesis
  proof (cases "i < NRRMU")
    case True
    then show ?thesis using d l le n
      by (auto simp: rrarr_put_def list_put_def pos_cent_def take_update_swap drop_update_cancel is_neg_def)
  next
    case False
    then have "length ss = NRRTOT" "i < NRRTOT" using l assms(2) by auto
    moreover from this(2) False have "i - NRRMU < NRREXT" by (simp add: NRRMU_def NRREXT_def NRRTOT_def)
    ultimately show ?thesis using False d n
      by (auto simp: rrarr_put_def list_put_def pos_cent_def is_neg_def drop_update_swap)
  qed
qed

lemma pos_len: "pos_cent ce ss \<Longrightarrow> RRARR_LEN ce = Some (length ss)"
  by (auto simp: pos_cent_def RRARR_LEN_def)

lemma pos_pa: "pos_cent ce ss \<Longrightarrow> i < NRRTOT \<Longrightarrow> RRARR_INDEX_PA_TESTEXT ce i = Some (i < length ss)"
  by (auto simp: pos_cent_def RRARR_INDEX_PA_TESTEXT_def)

lemma pos_cong: "ce_data ce' = ce_data ce \<Longrightarrow> is_neg ce' = is_neg ce \<Longrightarrow> pos_cent ce' ss = pos_cent ce ss"
  by (simp add: pos_cent_def)

lemma pos_unique:
  assumes "pos_cent ce ss" "pos_cent ce ss'"
  shows "ss' = ss"
proof -
  have "RRARR_LEN ce = Some (length ss)" "RRARR_LEN ce = Some (length ss')" using assms pos_len by blast+
  moreover have "list_at ss i = list_at ss' i" for i using assms pos_index by metis
  ultimately show ?thesis by (intro nth_equalityI) (auto simp: list_at_def split: if_splits, metis option.inject)
qed

subsection \<open>Sizes, blocks and links\<close>

definition rr_size :: "byte list list \<Rightarrow> int" where
  "rr_size rrs = sum_list (map (\<lambda>rr. sizeof_rr_bucket + int (length rr)) rrs)"

definition set_size :: "rr_set \<Rightarrow> int" where
  "set_size rs = sizeof_rr_set + rr_size (rs_rrs rs)"

definition set_blocks :: "rr_set \<Rightarrow> int" where
  "set_blocks rs = 1 + int (length (rs_rrs rs))"

definition opt_int :: "('a \<Rightarrow> int) \<Rightarrow> 'a option \<Rightarrow> int" where
  "opt_int f s = (case s of None \<Rightarrow> 0 | Some x \<Rightarrow> f x)"

lemma opt_int_simps [simp]: "opt_int f None = 0" "opt_int f (Some x) = f x"
  by (simp_all add: opt_int_def)

definition sets_sum :: "(rr_set \<Rightarrow> int) \<Rightarrow> rr_set option list \<Rightarrow> int" where
  "sets_sum f ss = sum_list (map (opt_int f) ss)"

lemma sets_sum_simps [simp]: "sets_sum f [] = 0" "sets_sum f (s # ss) = opt_int f s + sets_sum f ss"
  "sets_sum f (ss @ ts) = sets_sum f ss + sets_sum f ts" "sets_sum f (replicate n None) = 0"
  by (simp_all add: sets_sum_def sum_list_replicate)

lemma sets_sum_update: "i < length ss \<Longrightarrow> sets_sum f (ss[i := s]) = sets_sum f ss - opt_int f (ss ! i) + opt_int f s"
  by (induction ss arbitrary: i) (auto split: nat.split)

definition rs_lents :: "rr_set \<Rightarrow> nat list" where
  "rs_lents rs = (case rs_lent rs of None \<Rightarrow> [] | Some le \<Rightarrow> [le])"

definition sets_lents :: "rr_set option list \<Rightarrow> nat list" where
  "sets_lents ss = concat (map (\<lambda>s. case s of None \<Rightarrow> [] | Some rs \<Rightarrow> rs_lents rs) ss)"

lemma sets_lents_simps [simp]: "sets_lents [] = []" "sets_lents (None # ss) = sets_lents ss"
  "sets_lents (Some rs # ss) = rs_lents rs @ sets_lents ss" "sets_lents (ss @ ts) = sets_lents ss @ sets_lents ts"
  by (simp_all add: sets_lents_def)

lemma sets_lents_replicate [simp]: "sets_lents (replicate n None) = []"
  by (induction n) simp_all

definition ext_size :: "rr_set option list \<Rightarrow> int" where
  "ext_size ss = (if length ss = NRRMU then 0 else sizeof_ptr * int NRREXT)"

definition ext_blocks :: "rr_set option list \<Rightarrow> int" where
  "ext_blocks ss = (if length ss = NRRMU then 0 else 1)"

text \<open>The sets of an entry, none for a negative one; its links to the list.\<close>

definition cent_sets :: "dns_cent \<Rightarrow> rr_set option list" where
  "cent_sets ce = (case ce_data ce of Neg _ _ _ \<Rightarrow> [] | Rr mu ext \<Rightarrow> mu @ (case ext of None \<Rightarrow> [] | Some x \<Rightarrow> x))"

lemma pos_sets: "pos_cent ce ss \<Longrightarrow> cent_sets ce = ss"
  by (auto simp: pos_cent_def cent_sets_def)

definition cent_lents :: "dns_cent \<Rightarrow> nat list" where
  "cent_lents ce = (case ce_data ce of Neg l _ _ \<Rightarrow> (case l of None \<Rightarrow> [] | Some le \<Rightarrow> [le]) | Rr _ _ \<Rightarrow> sets_lents (cent_sets ce))"

lemma pos_lents: "pos_cent ce ss \<Longrightarrow> cent_lents ce = sets_lents ss"
  using pos_sets [of ce ss] by (auto simp: cent_lents_def pos_cent_def split: cent_data.split)

text \<open>The blocks of an entry, its own excluded.\<close>

definition cent_blocks :: "dns_cent \<Rightarrow> int" where
  "cent_blocks ce = 1 + (case ce_data ce of Neg _ _ _ \<Rightarrow> 0 | Rr _ ext \<Rightarrow> sets_sum set_blocks (cent_sets ce) + (if ext = None then 0 else 1))"

lemma pos_blocks: "pos_cent ce ss \<Longrightarrow> cent_blocks ce = 1 + sets_sum set_blocks ss + ext_blocks ss"
  using pos_sets [of ce ss] by (auto simp: cent_blocks_def ext_blocks_def pos_cent_def split: cent_data.split)

lemma neg_blocks: "ce_data ce = Neg l t s \<Longrightarrow> cent_blocks ce = 1"
  by (simp add: cent_blocks_def)

definition base_size :: "dns_cent \<Rightarrow> int" where
  "base_size ce = sizeof_dns_cent + int (length (ce_qname ce))"

definition pos_ok :: "dns_cent \<Rightarrow> rr_set option list \<Rightarrow> bool" where
  "pos_ok ce ss \<longleftrightarrow> pos_cent ce ss \<and> ce_cs ce = base_size ce + ext_size ss + sets_sum set_size ss \<and>
     ce_num_rrs ce = sets_sum (\<lambda>_. 1) ss"

definition neg_ok :: "dns_cent \<Rightarrow> bool" where
  "neg_ok ce \<longleftrightarrow> is_neg ce \<and> (\<exists>l t s. ce_data ce = Neg l t s) \<and> ce_cs ce = base_size ce \<and> ce_num_rrs ce = 0"

definition named :: "dns_cent \<Rightarrow> bool" where
  "named ce \<longleftrightarrow> (\<exists>ks. name_ok ks \<and> ce_qname ce = enc_name ks)"

definition cent_ok :: "dns_cent \<Rightarrow> bool" where
  "cent_ok ce \<longleftrightarrow> named ce \<and> (neg_ok ce \<or> (\<exists>ss. pos_ok ce ss))"

lemma cent_ok_pos: "cent_ok ce \<Longrightarrow> \<not> is_neg ce \<Longrightarrow> pos_ok ce (cent_sets ce)"
  by (auto simp: cent_ok_def neg_ok_def pos_ok_def dest: pos_sets)

lemma cent_ok_neg: "cent_ok ce \<Longrightarrow> is_neg ce \<Longrightarrow> neg_ok ce"
  by (auto simp: cent_ok_def pos_ok_def pos_cent_def)

subsection \<open>What the operations may change\<close>

text \<open>Everything but the allocation counters and the list of sets is as before.\<close>

definition frame :: "dcache \<Rightarrow> dcache \<Rightarrow> bool" where
  "frame c c' \<longleftrightarrow> dc_mallocs c \<le> dc_mallocs c' \<and> dc_insert_sort c' = dc_insert_sort c \<and> dc_cents c' = dc_cents c \<and>
     dc_table c' = dc_table c \<and> dc_cache_size c' = dc_cache_size c \<and> dc_ent_num c' = dc_ent_num c"

lemma frame_refl [simp]: "frame c c"
  by (simp add: frame_def)

lemma frame_trans: "frame c c1 \<Longrightarrow> frame c1 c2 \<Longrightarrow> frame c c2"
  by (auto simp: frame_def)

text \<open>
  \<open>Lrem\<close> are the links taken out of the list \<open>xs\<close>, \<open>n\<close> is the change of the number of blocks other than the
  list's.
\<close>

definition effect :: "nat list \<Rightarrow> dcache \<Rightarrow> int \<Rightarrow> nat list \<Rightarrow> dcache \<Rightarrow> bool" where
  "effect xs c n Lrem c' \<longleftrightarrow> frame c c' \<and> rl_rep (dc_rrl c') (filter (\<lambda>x. x \<notin> set Lrem) xs) \<and>
     items (rl_ents (dc_rrl c')) = (\<lambda>a. if a \<in> set Lrem then None else items (rl_ents (dc_rrl c)) a) \<and>
     dc_live c' = dc_live c + n - int (length Lrem)"

lemma effect_refl: "rl_rep (dc_rrl c) xs \<Longrightarrow> effect xs c 0 [] c"
  by (simp add: effect_def)

lemma effect_trans:
  assumes "effect xs c n L c1" "effect (filter (\<lambda>x. x \<notin> set L) xs) c1 m M c2"
  shows "effect xs c (n + m) (L @ M) c2"
  using assms frame_trans [of c c1 c2] by (auto simp: effect_def fun_eq_iff)

lemma effect_live: "effect xs c n L c' \<Longrightarrow> dc_live c'' = dc_live c' + m \<Longrightarrow> dc_rrl c'' = dc_rrl c' \<Longrightarrow> frame c' c'' \<Longrightarrow>
    effect xs c (n + m) L c''"
  using frame_trans [of c c' c''] by (simp add: effect_def)

lemma effect_eq: "effect xs c n L c' \<Longrightarrow> n = m \<Longrightarrow> effect xs c m L c'"
  by simp

lemma effect_rep: "effect xs c n L c' \<Longrightarrow> rl_rep (dc_rrl c') (filter (\<lambda>x. x \<notin> set L) xs)"
  by (simp add: effect_def)

lemma effect_frame: "effect xs c n L c' \<Longrightarrow> frame c c'"
  by (simp add: effect_def)

lemma cache_free_frame [simp]: "frame c (cache_free c)" "dc_rrl (cache_free c) = dc_rrl c" "dc_live (cache_free c) = dc_live c - 1"
  by (simp_all add: frame_def cache_free_def)

lemma effect_free: "effect xs c n L c' \<Longrightarrow> effect xs c (n - 1) L (cache_free c')"
  using effect_live [of xs c n L c' "cache_free c'" "-1"] by simp

lemma cache_malloc_cases:
  obtains (none) c' where "cache_malloc fails c = (None, c')" "frame c c'" "dc_rrl c' = dc_rrl c" "dc_live c' = dc_live c"
    "fails (dc_mallocs c)"
  | (some) p c' where "cache_malloc fails c = (Some p, c')" "frame c c'" "dc_rrl c' = dc_rrl c" "dc_live c' = dc_live c + 1"
    "p = dc_mallocs c" "dc_mallocs c' = dc_mallocs c + 1" "\<not> fails (dc_mallocs c)"
proof (cases "fails (dc_mallocs c)")
  case True
  show ?thesis by (rule none [of "c\<lparr>dc_mallocs := dc_mallocs c + 1\<rparr>"]) (simp_all add: cache_malloc_def frame_def True)
next
  case False
  show ?thesis
    by (rule some [of "dc_mallocs c" "c\<lparr>dc_mallocs := dc_mallocs c + 1, dc_live := dc_live c + 1\<rparr>"])
      (simp_all add: cache_malloc_def frame_def False)
qed

lemma remove_rrl_ok:
  assumes "rl_rep (dc_rrl c) xs" "le \<in> set xs"
  shows "\<exists>c'. remove_rrl le c = Some c' \<and> effect xs c 0 [le] c'"
proof -
  obtain pre post where x: "xs = pre @ le # post" using assms(2) by (meson split_list)
  have "distinct xs" using rl_repD(1) [OF assms(1)] .
  then have n: "le \<notin> set pre" "le \<notin> set post" using x by auto
  have "filter (\<lambda>y. y \<noteq> le) pre = pre" by (rule filter_True) (use n in auto)
  moreover have "filter (\<lambda>y. y \<noteq> le) post = post" by (rule filter_True) (use n in auto)
  ultimately have f: "filter (\<lambda>y. y \<notin> set [le]) xs = pre @ post" using x by simp
  obtain l' where "rrl_remove le (dc_rrl c) = Some l'" "rl_rep l' (pre @ post)" "items (rl_ents l') = (items (rl_ents (dc_rrl c)))(le := None)"
    using rrl_remove_ok [of "dc_rrl c" pre le post] assms(1) x by auto
  then show ?thesis using f by (auto simp: remove_rrl_def effect_def frame_def cache_free_def)
qed

lemma remove_opt_ok:
  assumes "rl_rep (dc_rrl c) xs" "set (case l of None \<Rightarrow> [] | Some le \<Rightarrow> [le]) \<subseteq> set xs"
  shows "\<exists>c'. (case l of None \<Rightarrow> Some c | Some le \<Rightarrow> remove_rrl le c) = Some c' \<and>
    effect xs c 0 (case l of None \<Rightarrow> [] | Some le \<Rightarrow> [le]) c'"
proof (cases l)
  case None
  then show ?thesis using effect_refl [OF assms(1)] by simp
next
  case (Some le)
  then show ?thesis using remove_rrl_ok [OF assms(1), of le] assms(2) by simp
qed

subsection \<open>Deleting sets\<close>

lemma del_rrs_ok:
  "\<exists>c'. del_rrs rrs rv c = (rv + rr_size rrs, c') \<and> frame c c' \<and> dc_rrl c' = dc_rrl c \<and> dc_live c' = dc_live c - int (length rrs)"
proof (induction rrs arbitrary: rv c)
  case (Cons rr rrs)
  obtain c' where "del_rrs rrs (rv + sizeof_rr_bucket + int (length rr)) (cache_free c) =
      (rv + sizeof_rr_bucket + int (length rr) + rr_size rrs, c')" "frame (cache_free c) c'" "dc_rrl c' = dc_rrl c"
    "dc_live c' = dc_live c - 1 - int (length rrs)" using Cons.IH [of "rv + sizeof_rr_bucket + int (length rr)" "cache_free c"] by auto
  then show ?case using frame_trans [of c "cache_free c" c'] by (simp add: rr_size_def)
qed (simp add: rr_size_def)

lemma del_rrset_ok:
  assumes "rl_rep (dc_rrl c) xs" "set (rs_lents rs) \<subseteq> set xs"
  shows "\<exists>c'. del_rrset rs c = Some (set_size rs, c') \<and> effect xs c (- set_blocks rs) (rs_lents rs) c'"
proof -
  obtain c1 where c1: "(case rs_lent rs of None \<Rightarrow> Some c | Some le \<Rightarrow> remove_rrl le c) = Some c1" "effect xs c 0 (rs_lents rs) c1"
    using remove_opt_ok [OF assms(1), of "rs_lent rs"] assms(2) by (auto simp: rs_lents_def)
  obtain c2 where c2: "del_rrs (rs_rrs rs) sizeof_rr_set c1 = (sizeof_rr_set + rr_size (rs_rrs rs), c2)" "frame c1 c2"
    "dc_rrl c2 = dc_rrl c1" "dc_live c2 = dc_live c1 - int (length (rs_rrs rs))" using del_rrs_ok by blast
  have "effect xs c (0 + (- int (length (rs_rrs rs)))) (rs_lents rs) c2" using c2 by (intro effect_live [OF c1(2)]) simp_all
  moreover have "0 + (- int (length (rs_rrs rs))) - 1 = - set_blocks rs" by (simp add: set_blocks_def)
  ultimately have "effect xs c (- set_blocks rs) (rs_lents rs) (cache_free c2)" using effect_free by metis
  then show ?thesis using c1(1) c2(1) by (simp add: del_rrset_def set_size_def)
qed

lemma del_rrsets_ok:
  assumes "rl_rep (dc_rrl c) xs" "set (sets_lents ss) \<subseteq> set xs" "distinct (sets_lents ss)"
  shows "\<exists>c'. del_rrsets ss sz c = Some (sz + sets_sum set_size ss, c') \<and> effect xs c (- sets_sum set_blocks ss) (sets_lents ss) c'"
  using assms
proof (induction ss arbitrary: sz c xs)
  case Nil
  then show ?case using effect_refl by simp
next
  case (Cons s ss)
  show ?case
  proof (cases s)
    case None
    then show ?thesis using Cons by simp
  next
    case (Some rs)
    then obtain c1 where c1: "del_rrset rs c = Some (set_size rs, c1)" "effect xs c (- set_blocks rs) (rs_lents rs) c1"
      using del_rrset_ok [OF Cons.prems(1), of rs] Cons.prems(2) by auto
    have "set (sets_lents ss) \<subseteq> set (filter (\<lambda>x. x \<notin> set (rs_lents rs)) xs)" using Cons.prems(2,3) Some by auto
    moreover have "distinct (sets_lents ss)" using Cons.prems(3) Some by simp
    ultimately obtain c2 where d: "del_rrsets ss (sz + set_size rs) c1 = Some (sz + set_size rs + sets_sum set_size ss, c2)"
      "effect (filter (\<lambda>x. x \<notin> set (rs_lents rs)) xs) c1 (- sets_sum set_blocks ss) (sets_lents ss) c2"
      using Cons.IH [OF effect_rep [OF c1(2)], of "sz + set_size rs"] by blast
    have "effect xs c (- sets_sum set_blocks (s # ss)) (sets_lents (s # ss)) c2"
      using effect_trans [OF c1(2) d(2)] Some by (auto elim: effect_eq)
    then show ?thesis using c1(1) d(1) Some by simp
  qed
qed

subsection \<open>Flags\<close>

lemma has_clear_other: "m AND m' = 0 \<Longrightarrow> has_flag (clear_flag f m) m' = has_flag f m'" for m :: flags
proof -
  assume a: "m AND m' = 0"
  have "(f AND NOT m) AND m' = f AND m'"
  proof (rule bit_word_eqI)
    fix n assume "n < LENGTH(16)"
    have "\<not> bit (m AND m') n" by (simp add: a)
    then show "bit ((f AND NOT m) AND m') n = bit (f AND m') n" using \<open>n < LENGTH(16)\<close> by (auto simp: bit_simps)
  qed
  then show ?thesis by (simp add: has_flag_def clear_flag_def)
qed

lemma has_clear_same: "\<not> has_flag (clear_flag f m) m" for m :: flags
proof -
  have "(f AND NOT m) AND m = 0" by (rule bit_word_eqI) (auto simp: bit_simps)
  then show ?thesis by (simp add: has_flag_def clear_flag_def)
qed

lemma has_or: "has_flag (f OR g) m \<longleftrightarrow> has_flag f m \<or> has_flag g m" for m :: flags
proof -
  have "(f OR g) AND m = (f AND m) OR (g AND m)" by (rule bit_word_eqI) (auto simp: bit_simps)
  moreover have "a OR b = 0 \<longleftrightarrow> a = 0 \<and> b = 0" for a b :: flags by (auto simp: or_eq_0_iff)
  ultimately show ?thesis by (simp add: has_flag_def)
qed

lemma flag_clears [simp]:
  "has_flag (clear_flag f DF_AUTH) DF_NEGATIVE = has_flag f DF_NEGATIVE" "has_flag (clear_flag f DF_AUTH) DF_LOCAL = has_flag f DF_LOCAL"
  "has_flag (clear_flag f DF_NEGATIVE) DF_LOCAL = has_flag f DF_LOCAL" "\<not> has_flag (clear_flag f DF_NEGATIVE) DF_NEGATIVE"
  "has_flag (clear_flag f DF_NOCACHE) DF_NEGATIVE = has_flag f DF_NEGATIVE" "has_flag (clear_flag f DF_NOCACHE) DF_LOCAL = has_flag f DF_LOCAL"
  "has_flag (clear_flag f CF_NOCACHE) CF_LOCAL = has_flag f CF_LOCAL" "has_flag (clear_flag f CF_AUTH) CF_LOCAL = has_flag f CF_LOCAL"
  by (intro has_clear_other has_clear_same; simp add: DF_AUTH_def DF_NEGATIVE_def DF_LOCAL_def DF_NOCACHE_def CF_NOCACHE_def CF_LOCAL_def CF_AUTH_def)+

lemma flag_or [simp]: "has_flag (f OR DF_NEGATIVE) DF_NEGATIVE" "has_flag (f OR DF_NEGATIVE) DF_LOCAL = has_flag f DF_LOCAL"
  unfolding has_or by (simp_all add: has_flag_def DF_NEGATIVE_def DF_LOCAL_def)

text \<open>What the operations never change, and whether the entry is local.\<close>

definition same_head :: "dns_cent \<Rightarrow> dns_cent \<Rightarrow> bool" where
  "same_head ce ce' \<longleftrightarrow> ce_qname ce' = ce_qname ce \<and> ce_c_ns ce' = ce_c_ns ce \<and> ce_c_soa ce' = ce_c_soa ce \<and>
     has_flag (ce_flags ce') DF_LOCAL = has_flag (ce_flags ce) DF_LOCAL"

lemma same_head_refl [simp]: "same_head ce ce"
  by (simp add: same_head_def)

lemma same_head_trans: "same_head ce ce1 \<Longrightarrow> same_head ce1 ce2 \<Longrightarrow> same_head ce ce2"
  by (simp add: same_head_def)

lemma same_head_named: "same_head ce ce' \<Longrightarrow> named ce' = named ce"
  by (simp add: same_head_def named_def)

subsection \<open>The operations on the sets of an entry\<close>

definition slot :: "rr_set option list \<Rightarrow> nat \<Rightarrow> rr_set option" where
  "slot ss i = (if i < length ss then ss ! i else None)"

definition slot_lents :: "rr_set option \<Rightarrow> nat list" where
  "slot_lents s = (case s of None \<Rightarrow> [] | Some rs \<Rightarrow> rs_lents rs)"

lemma slot_lents_simps [simp]: "slot_lents None = []" "slot_lents (Some rs) = rs_lents rs"
  by (simp_all add: slot_lents_def)

lemma sets_lents_slot: "set (slot_lents (slot ss i)) \<subseteq> set (sets_lents ss)"
proof (cases "slot ss i")
  case (Some rs)
  then have "Some rs \<in> set ss" by (metis slot_def nth_mem option.distinct(1))
  then show ?thesis using Some by (force simp: sets_lents_def)
qed simp

lemma pos_ok_put:
  assumes "pos_ok ce ss" "i < length ss"
  shows "\<exists>d. rrarr_put ce i s = Some (ce\<lparr>ce_data := d\<rparr>) \<and> pos_cent (ce\<lparr>ce_data := d\<rparr>) (ss[i := s]) \<and>
    ce_cs ce = base_size ce + ext_size (ss[i := s]) + sets_sum set_size (ss[i := s]) + opt_int set_size (ss ! i) - opt_int set_size s \<and>
    ce_num_rrs ce = sets_sum (\<lambda>_. 1) (ss[i := s]) + opt_int (\<lambda>_. 1) (ss ! i) - opt_int (\<lambda>_. 1) s"
proof -
  obtain d where "rrarr_put ce i s = Some (ce\<lparr>ce_data := d\<rparr>)" "pos_cent (ce\<lparr>ce_data := d\<rparr>) (ss[i := s])"
    using pos_put [of ce ss i s] assms by (auto simp: pos_ok_def)
  then show ?thesis using assms by (auto simp: pos_ok_def sets_sum_update ext_size_def)
qed

lemma del_cent_rrset_ok:
  assumes ok: "pos_ok ce ss" and i: "i < NRRTOT" and rep: "rl_rep (dc_rrl c) xs" and l: "set (slot_lents (slot ss i)) \<subseteq> set xs"
  shows "\<exists>ce' c'. del_cent_rrset_by_index ce i c = Some ((opt_int set_size (slot ss i), ce'), c') \<and> pos_ok ce' (ss[i := None]) \<and>
    same_head ce ce' \<and> ce_cs ce' = ce_cs ce - opt_int set_size (slot ss i) \<and>
    ce_flags ce' = (if slot ss i = None then ce_flags ce else clear_flag (ce_flags ce) DF_AUTH) \<and>
    effect xs c (- opt_int set_blocks (slot ss i)) (slot_lents (slot ss i)) c'"
proof -
  have p: "pos_cent ce ss" using ok by (simp add: pos_ok_def)
  show ?thesis
  proof (cases "slot ss i")
    case None
    then have "ss[i := None] = ss" by (metis list_update_beyond list_update_id not_le slot_def)
    moreover have "del_cent_rrset_by_index ce i c = Some ((0, ce), c)"
      using None pos_pa [OF p i] pos_index [OF p, of i] by (auto simp: del_cent_rrset_by_index_def slot_def list_at_def)
    ultimately show ?thesis using None ok effect_refl [OF rep] by simp
  next
    case (Some rs)
    then have il: "i < length ss" "ss ! i = Some rs" by (simp_all add: slot_def split: if_splits)
    obtain c' where c': "del_rrset rs c = Some (set_size rs, c')" "effect xs c (- set_blocks rs) (rs_lents rs) c'"
      using del_rrset_ok [OF rep, of rs] l Some by auto
    obtain d where d: "rrarr_put ce i None = Some (ce\<lparr>ce_data := d\<rparr>)" "pos_cent (ce\<lparr>ce_data := d\<rparr>) (ss[i := None])"
      "ce_cs ce = base_size ce + ext_size (ss[i := None]) + sets_sum set_size (ss[i := None]) + set_size rs"
      "ce_num_rrs ce = sets_sum (\<lambda>_. 1) (ss[i := None]) + 1"
      using pos_ok_put [OF ok il(1), of None] il(2) by auto
    let ?ce = "ce\<lparr>ce_data := d, ce_num_rrs := ce_num_rrs ce - 1, ce_cs := ce_cs ce - set_size rs, ce_flags := clear_flag (ce_flags ce) DF_AUTH\<rparr>"
    have "pos_ok ?ce (ss[i := None])" using d(2-4) by (simp add: pos_ok_def pos_cent_def is_neg_def base_size_def)
    moreover have "del_cent_rrset_by_index ce i c = Some ((set_size rs, ?ce), c')"
      using pos_pa [OF p i] pos_index [OF p, of i] il c'(1) d(1) by (simp add: del_cent_rrset_by_index_def list_at_def)
    moreover have "same_head ce ?ce" by (simp add: same_head_def)
    ultimately show ?thesis using Some c'(2) by auto
  qed
qed

text \<open>Freeing needs only that the union agrees with the flag: it is also used for an entry that is half built.\<close>

definition shaped :: "dns_cent \<Rightarrow> bool" where
  "shaped ce \<longleftrightarrow> (if is_neg ce then \<exists>l t s. ce_data ce = Neg l t s else \<exists>ss. pos_cent ce ss)"

lemma cent_ok_shaped: "cent_ok ce \<Longrightarrow> shaped ce"
  using cent_ok_pos [of ce] cent_ok_neg [of ce] by (auto simp: shaped_def neg_ok_def pos_ok_def)

lemma free_cent_ok:
  assumes "shaped ce" "rl_rep (dc_rrl c) xs" "set (cent_lents ce) \<subseteq> set xs" "distinct (cent_lents ce)"
  shows "\<exists>c'. free_cent ce c = Some c' \<and> effect xs c (- cent_blocks ce) (cent_lents ce) c'"
proof -
  have e0: "effect xs c (- 1) [] (cache_free c)" using effect_free [OF effect_refl [OF assms(2)]] by simp
  have r0: "rl_rep (dc_rrl (cache_free c)) xs" using assms(2) by simp
  show ?thesis
  proof (cases "is_neg ce")
    case True
    then obtain l t s where d: "ce_data ce = Neg l t s" using assms(1) by (auto simp: shaped_def)
    have L: "cent_lents ce = (case l of None \<Rightarrow> [] | Some le \<Rightarrow> [le])" using d by (simp add: cent_lents_def)
    obtain c' where c': "(case l of None \<Rightarrow> Some (cache_free c) | Some le \<Rightarrow> remove_rrl le (cache_free c)) = Some c'"
      "effect xs (cache_free c) 0 (cent_lents ce) c'"
      using remove_opt_ok [OF r0, of l] assms(3) unfolding L by auto
    have "effect xs c (- cent_blocks ce) (cent_lents ce) c'"
      using effect_trans [OF e0, of 0 "cent_lents ce" c'] c'(2) by (simp add: neg_blocks [OF d])
    then show ?thesis using c'(1) True d by (auto simp: free_cent_def Let_def split: option.splits)
  next
    case False
    then obtain ss where p: "pos_cent ce ss" using assms(1) by (auto simp: shaped_def)
    define mu ex where "mu = take NRRMU ss" and "ex = drop NRRMU ss"
    have sp: "ss = mu @ ex" by (simp add: mu_def ex_def)
    have d: "ce_data ce = Rr mu (if length ss = NRRMU then None else Some ex)" using p by (simp add: pos_cent_def mu_def ex_def)
    have L: "cent_lents ce = sets_lents mu @ sets_lents ex" using pos_lents [OF p] sp by simp
    have B: "cent_blocks ce = 1 + sets_sum set_blocks mu + sets_sum set_blocks ex + ext_blocks ss"
      using pos_blocks [OF p] sp by (metis sets_sum_simps(3) add.assoc)
    obtain c1 where c1: "del_rrsets mu 0 (cache_free c) = Some (0 + sets_sum set_size mu, c1)"
      "effect xs (cache_free c) (- sets_sum set_blocks mu) (sets_lents mu) c1"
      using del_rrsets_ok [OF r0, of mu 0] assms(3,4) unfolding L by auto
    have e1: "effect xs c (- 1 - sets_sum set_blocks mu) (sets_lents mu) c1"
      using effect_trans [OF e0, of "- sets_sum set_blocks mu" "sets_lents mu" c1] c1(2) by (auto elim: effect_eq)
    show ?thesis
    proof (cases "length ss = NRRMU")
      case True
      then have "ex = []" by (simp add: ex_def)
      then have "effect xs c (- cent_blocks ce) (cent_lents ce) c1" using e1 True by (simp add: B L ext_blocks_def)
      then show ?thesis using c1(1) d True False by (simp add: free_cent_def Let_def)
    next
      case nl: False
      have "set (sets_lents ex) \<subseteq> set (filter (\<lambda>x. x \<notin> set (sets_lents mu)) xs)" "distinct (sets_lents ex)"
        using assms(3,4) unfolding L by auto
      from del_rrsets_ok [OF effect_rep [OF c1(2)] this, of 0]
      obtain c2 where c2: "del_rrsets ex 0 c1 = Some (0 + sets_sum set_size ex, c2)"
        "effect (filter (\<lambda>x. x \<notin> set (sets_lents mu)) xs) c1 (- sets_sum set_blocks ex) (sets_lents ex) c2" by blast
      have "effect xs c (- cent_blocks ce) (cent_lents ce) (cache_free c2)"
        unfolding L by (rule effect_eq [OF effect_free [OF effect_trans [OF e1 c2(2)]]]) (simp add: B ext_blocks_def nl)
      then show ?thesis using c1(1) c2(1) d nl False by (simp add: free_cent_def Let_def)
    qed
  qed
qed

lemma negate_cent_ok:
  assumes "cent_ok ce" "rl_rep (dc_rrl c) xs" "set (cent_lents ce) \<subseteq> set xs" "distinct (cent_lents ce)"
  shows "\<exists>ce' c' Lrem l. negate_cent ce ttl ts c = Some (ce', c') \<and> neg_ok ce' \<and> same_head ce ce' \<and> ce_data ce' = Neg l ttl ts \<and>
    Lrem = (if is_neg ce then [] else cent_lents ce) \<and> (\<not> is_neg ce \<longrightarrow> l = None) \<and>
    (is_neg ce \<longrightarrow> cent_lents ce' = cent_lents ce) \<and> effect xs c (cent_blocks ce' - cent_blocks ce) Lrem c'"
proof (cases "is_neg ce")
  case True
  then obtain l t s where d: "ce_data ce = Neg l t s" "ce_cs ce = base_size ce" "ce_num_rrs ce = 0"
    using cent_ok_neg [OF assms(1)] by (auto simp: neg_ok_def)
  let ?ce = "ce\<lparr>ce_data := Neg l ttl ts\<rparr>"
  have "negate_cent ce ttl ts c = Some (?ce, c)" using True d(1) by (simp add: negate_cent_def)
  moreover have "neg_ok ?ce" using True d by (simp add: neg_ok_def is_neg_def base_size_def)
  moreover have "cent_blocks ?ce = cent_blocks ce" "cent_lents ?ce = cent_lents ce"
    using d(1) by (simp_all add: cent_blocks_def cent_lents_def)
  moreover have "same_head ce ?ce" by (simp add: same_head_def)
  ultimately show ?thesis using True effect_refl [OF assms(2)] by auto
next
  case False
  obtain ss where ss: "pos_ok ce ss" using cent_ok_pos [OF assms(1) False] by blast
  then have p: "pos_cent ce ss" and cs: "ce_cs ce = base_size ce + ext_size ss + sets_sum set_size ss" by (simp_all add: pos_ok_def)
  define mu ex where "mu = take NRRMU ss" and "ex = drop NRRMU ss"
  have sp: "ss = mu @ ex" by (simp add: mu_def ex_def)
  have d: "ce_data ce = Rr mu (if length ss = NRRMU then None else Some ex)" using p by (simp add: pos_cent_def mu_def ex_def)
  have L: "cent_lents ce = sets_lents mu @ sets_lents ex" using pos_lents [OF p] sp by simp
  have B: "cent_blocks ce = 1 + sets_sum set_blocks mu + sets_sum set_blocks ex + ext_blocks ss"
    using pos_blocks [OF p] sp by (metis sets_sum_simps(3) add.assoc)
  have Z: "sets_sum set_size ss = sets_sum set_size mu + sets_sum set_size ex" using sp by (metis sets_sum_simps(3))
  obtain c1 where c1: "del_rrsets mu 0 c = Some (0 + sets_sum set_size mu, c1)"
    "effect xs c (- sets_sum set_blocks mu) (sets_lents mu) c1"
    using del_rrsets_ok [OF assms(2), of mu 0] assms(3,4) unfolding L by auto
  have "\<exists>sz c2. (case if length ss = NRRMU then None else Some ex of None \<Rightarrow> Some (sets_sum set_size mu, c1)
      | Some x \<Rightarrow> do { (sz, c) \<leftarrow> del_rrsets x (sets_sum set_size mu) c1; Some (sz + sizeof_ptr * int NRREXT, cache_free c) }) = Some (sz, c2) \<and>
      sz = sets_sum set_size ss + ext_size ss \<and> effect xs c (1 - cent_blocks ce) (cent_lents ce) c2"
  proof (cases "length ss = NRRMU")
    case True
    then have "ex = []" by (simp add: ex_def)
    then show ?thesis using c1(2) True by (simp add: B L Z ext_blocks_def ext_size_def)
  next
    case nl: False
    have "set (sets_lents ex) \<subseteq> set (filter (\<lambda>x. x \<notin> set (sets_lents mu)) xs)" "distinct (sets_lents ex)"
      using assms(3,4) unfolding L by auto
    from del_rrsets_ok [OF effect_rep [OF c1(2)] this, of "sets_sum set_size mu"]
    obtain c2 where c2: "del_rrsets ex (sets_sum set_size mu) c1 = Some (sets_sum set_size mu + sets_sum set_size ex, c2)"
      "effect (filter (\<lambda>x. x \<notin> set (sets_lents mu)) xs) c1 (- sets_sum set_blocks ex) (sets_lents ex) c2" by blast
    have "effect xs c (1 - cent_blocks ce) (cent_lents ce) (cache_free c2)"
      unfolding L by (rule effect_eq [OF effect_free [OF effect_trans [OF c1(2) c2(2)]]]) (simp add: B ext_blocks_def nl)
    then show ?thesis using c2(1) nl by (simp add: Z ext_size_def)
  qed
  then obtain sz c2 where c2: "(case if length ss = NRRMU then None else Some ex of None \<Rightarrow> Some (sets_sum set_size mu, c1)
      | Some x \<Rightarrow> do { (sz, c) \<leftarrow> del_rrsets x (sets_sum set_size mu) c1; Some (sz + sizeof_ptr * int NRREXT, cache_free c) }) = Some (sz, c2)"
    "sz = sets_sum set_size ss + ext_size ss" "effect xs c (1 - cent_blocks ce) (cent_lents ce) c2" by blast
  let ?ce = "ce\<lparr>ce_cs := ce_cs ce - sz, ce_num_rrs := 0, ce_flags := ce_flags ce OR DF_NEGATIVE, ce_data := Neg None ttl ts\<rparr>"
  have "negate_cent ce ttl ts c = Some (?ce, c2)" using False d c1(1) c2(1) by (simp add: negate_cent_def)
  moreover have "neg_ok ?ce" using cs c2(2) by (simp add: neg_ok_def is_neg_def base_size_def)
  moreover have "cent_blocks ?ce = 1" by (simp add: cent_blocks_def)
  moreover have "same_head ce ?ce" by (simp add: same_head_def)
  ultimately show ?thesis using False c2(3) by auto
qed

lemma make_positive_ok:
  assumes "neg_ok ce" "rl_rep (dc_rrl c) xs" "set (cent_lents ce) \<subseteq> set xs"
  shows "\<exists>ce' c'. make_positive ce c = Some (ce', c') \<and> pos_ok ce' (replicate NRRMU None) \<and> same_head ce ce' \<and> ce_cs ce' = ce_cs ce \<and>
    effect xs c (cent_blocks ce' - cent_blocks ce) (cent_lents ce) c'"
proof -
  obtain l t s where d: "ce_data ce = Neg l t s" "ce_cs ce = base_size ce" "ce_num_rrs ce = 0" using assms(1) by (auto simp: neg_ok_def)
  have L: "cent_lents ce = (case l of None \<Rightarrow> [] | Some le \<Rightarrow> [le])" using d by (simp add: cent_lents_def)
  obtain c' where c': "(case l of None \<Rightarrow> Some c | Some le \<Rightarrow> remove_rrl le c) = Some c'" "effect xs c 0 (cent_lents ce) c'"
    using remove_opt_ok [OF assms(2), of l] assms(3) unfolding L by auto
  let ?ce = "ce\<lparr>ce_flags := clear_flag (ce_flags ce) DF_NEGATIVE, ce_data := Rr (replicate NRRMU None) None\<rparr>"
  have p: "pos_cent ?ce (replicate NRRMU None)" by (simp add: pos_cent_def is_neg_def)
  moreover have "pos_ok ?ce (replicate NRRMU None)" using p d by (simp add: pos_ok_def base_size_def ext_size_def)
  moreover have "cent_blocks ?ce = cent_blocks ce" using pos_blocks [OF p] neg_blocks [OF d(1)] by (simp add: ext_blocks_def)
  moreover have "same_head ce ?ce" by (simp add: same_head_def)
  ultimately show ?thesis using c' d(1) by (simp add: make_positive_def)
qed

text \<open>The sets with the second array allocated.\<close>

definition with_ext :: "rr_set option list \<Rightarrow> rr_set option list" where
  "with_ext ss = (if length ss = NRRMU then ss @ replicate NRREXT None else ss)"

lemma slot_with_ext [simp]: "slot (with_ext ss) i = slot ss i"
  by (auto simp: slot_def with_ext_def nth_append NRRMU_def NRREXT_def NRRTOT_def)

lemma with_ext_sums [simp]: "sets_sum f (with_ext ss) = sets_sum f ss" "sets_lents (with_ext ss) = sets_lents ss"
  by (simp_all add: with_ext_def)

lemma with_ext_length: "length ss = NRRMU \<or> length ss = NRRTOT \<Longrightarrow> length (with_ext ss) = NRRTOT"
  by (auto simp: with_ext_def)

lemma need_rrext_ok:
  assumes "pos_ok ce ss"
  shows "\<exists>ok ce' c'. need_rrext fails ce c = Some ((ok, ce'), c') \<and> pos_ok ce' (if ok then with_ext ss else ss) \<and> same_head ce ce' \<and>
    (\<not> ok \<longrightarrow> ce' = ce) \<and> ce_flags ce' = ce_flags ce \<and> frame c c' \<and> dc_rrl c' = dc_rrl c \<and>
    dc_live c' = dc_live c + cent_blocks ce' - cent_blocks ce \<and> ((\<forall>n. \<not> fails n) \<longrightarrow> ok)"
proof (cases "length ss = NRRMU")
  case False
  then have "need_rrext fails ce c = Some ((True, ce), c)" "with_ext ss = ss"
    using assms by (simp_all add: pos_ok_def pos_cent_def need_rrext_def with_ext_def)
  then show ?thesis using assms by auto
next
  case True
  then have d: "ce_data ce = Rr ss None" using assms by (simp add: pos_ok_def pos_cent_def)
  show ?thesis
  proof (cases rule: cache_malloc_cases [of fails c])
    case (none c')
    then show ?thesis using assms d by (auto simp: need_rrext_def)
  next
    case (some p c')
    let ?ce = "ce\<lparr>ce_data := Rr ss (Some (replicate NRREXT None)), ce_cs := ce_cs ce + sizeof_ptr * int NRREXT\<rparr>"
    have pc: "pos_cent ?ce (with_ext ss)" using assms True by (simp add: pos_ok_def pos_cent_def is_neg_def with_ext_def)
    moreover have "pos_ok ?ce (with_ext ss)"
      using pc assms True by (simp add: pos_ok_def base_size_def ext_size_def with_ext_length)
    moreover have "cent_blocks ?ce = cent_blocks ce + 1"
      using pos_blocks [OF pc] pos_blocks [of ce ss] assms True by (simp add: pos_ok_def ext_blocks_def with_ext_length)
    moreover have "same_head ce ?ce" by (simp add: same_head_def)
    ultimately show ?thesis using some d by (auto simp: need_rrext_def)
  qed
qed

lemma sets_lents_update: "slot_lents (ss ! i) = slot_lents s \<Longrightarrow> sets_lents (ss[i := s]) = sets_lents ss"
proof (induction ss arbitrary: i)
  case (Cons x ss)
  have c: "sets_lents (y # ys) = slot_lents y @ sets_lents ys" for y ys by (simp add: sets_lents_def slot_lents_def)
  show ?case
  proof (cases i)
    case 0
    then show ?thesis using Cons.prems unfolding 0 list_update.simps nat.case c by simp
  next
    case (Suc j)
    then show ?thesis using Cons.IH [of j] Cons.prems by (simp add: c)
  qed
qed simp

definition new_set :: "nat \<Rightarrow> int \<Rightarrow> int \<Rightarrow> flags \<Rightarrow> rr_set" where
  "new_set p ttl ts flags = \<lparr>rs_addr = p, rs_lent = None, rs_ttl = ttl, rs_ts = ts, rs_flags = flags, rs_rrs = []\<rparr>"

lemma new_set_simps [simp]: "rs_lents (new_set p ttl ts flags) = []" "set_size (new_set p ttl ts flags) = sizeof_rr_set"
  "set_blocks (new_set p ttl ts flags) = 1"
  by (simp_all add: new_set_def rs_lents_def set_size_def set_blocks_def rr_size_def)

text \<open>The sets an operation that adds one starts from, and those it leaves.\<close>

definition sets0 :: "dns_cent \<Rightarrow> rr_set option list" where
  "sets0 ce = (if is_neg ce then replicate NRRMU None else cent_sets ce)"

definition room :: "nat \<Rightarrow> rr_set option list \<Rightarrow> rr_set option list" where
  "room idx ss = (if idx < NRRMU then ss else with_ext ss)"

lemma room_simps [simp]: "slot (room idx ss) i = slot ss i" "sets_sum f (room idx ss) = sets_sum f ss" "sets_lents (room idx ss) = sets_lents ss"
  by (simp_all add: room_def)

lemma room_length: "length ss = NRRMU \<or> length ss = NRRTOT \<Longrightarrow> idx < NRRTOT \<Longrightarrow> idx < length (room idx ss)"
  by (auto simp: room_def with_ext_length)

lemma slot_sets0: "is_neg ce \<Longrightarrow> slot (sets0 ce) i = None"
  by (simp add: sets0_def slot_def)

lemma add_set_ok:
  assumes ok: "pos_ok ce ss" and idx: "idx < NRRTOT" and free: "slot ss idx = None"
  shows "\<exists>b ce' c' p. do {
      ((ok, ce), c) \<leftarrow> (if idx < NRRMU then Some ((True, ce), c) else if idx - NRRMU < NRREXT then need_rrext fails ce c else None);
      if \<not> ok then Some ((False, ce), c)
      else (case cache_malloc fails c of
          (None, c) \<Rightarrow> do { ce \<leftarrow> rrarr_put ce idx None; Some ((False, ce), c) }
        | (Some p, c) \<Rightarrow> do {
            ce \<leftarrow> rrarr_put ce idx (Some \<lparr>rs_addr = p, rs_lent = None, rs_ttl = ttl, rs_ts = ts, rs_flags = flags, rs_rrs = []\<rparr>);
            Some ((True, ce\<lparr>ce_cs := ce_cs ce + sizeof_rr_set, ce_num_rrs := ce_num_rrs ce + 1\<rparr>), c)
          })
    } = Some ((b, ce'), c') \<and> same_head ce ce' \<and> ce_flags ce' = ce_flags ce \<and> frame c c' \<and> dc_rrl c' = dc_rrl c \<and>
    dc_live c' = dc_live c + cent_blocks ce' - cent_blocks ce \<and>
    (if b then pos_ok ce' ((room idx ss)[idx := Some (new_set p ttl ts flags)]) else pos_ok ce' ss \<or> pos_ok ce' (room idx ss)) \<and>
    ((\<forall>n. \<not> fails n) \<longrightarrow> b)"
proof -
  have li: "idx < NRRMU \<or> idx - NRRMU < NRREXT" using idx by (auto simp: NRRMU_def NRREXT_def NRRTOT_def)
  have "\<exists>b1 ce1 c1. (if idx < NRRMU then Some ((True, ce), c) else if idx - NRRMU < NRREXT then need_rrext fails ce c else None) =
      Some ((b1, ce1), c1) \<and> pos_ok ce1 (if b1 then room idx ss else ss) \<and> same_head ce ce1 \<and> (\<not> b1 \<longrightarrow> ce1 = ce) \<and>
      ce_flags ce1 = ce_flags ce \<and> frame c c1 \<and> dc_rrl c1 = dc_rrl c \<and> dc_live c1 = dc_live c + cent_blocks ce1 - cent_blocks ce \<and>
      ((\<forall>n. \<not> fails n) \<longrightarrow> b1)"
  proof (cases "idx < NRRMU")
    case True
    then show ?thesis using ok by (intro exI [of _ True] exI [of _ ce] exI [of _ c]) (simp add: room_def)
  next
    case False
    then have li: "idx - NRRMU < NRREXT" "room idx ss = with_ext ss" using li by (simp_all add: room_def)
    show ?thesis unfolding if_not_P [OF False] if_P [OF li(1)] li(2) by (rule need_rrext_ok [OF ok])
  qed
  then obtain b1 ce1 c1 where s1: "(if idx < NRRMU then Some ((True, ce), c) else if idx - NRRMU < NRREXT then need_rrext fails ce c else None) =
      Some ((b1, ce1), c1)" "pos_ok ce1 (if b1 then room idx ss else ss)" "same_head ce ce1" "\<not> b1 \<longrightarrow> ce1 = ce"
    "ce_flags ce1 = ce_flags ce" "frame c c1" "dc_rrl c1 = dc_rrl c" "dc_live c1 = dc_live c + cent_blocks ce1 - cent_blocks ce"
    "(\<forall>n. \<not> fails n) \<longrightarrow> b1" by blast
  show ?thesis
  proof (cases b1)
    case False
    then show ?thesis using s1 unfolding s1(1) by auto
  next
    case True
    let ?R = "room idx ss"
    have R: "pos_ok ce1 ?R" using s1(2) True by simp
    have p1: "pos_cent ce1 ?R" using R by (simp add: pos_ok_def)
    have il: "idx < length ?R" using room_length [of ss idx] ok idx by (simp add: pos_ok_def pos_cent_def)
    have none: "?R ! idx = None" using free il room_simps(1) [of idx ss idx] by (simp only: slot_def if_True)
    show ?thesis
    proof (cases rule: cache_malloc_cases [of fails c1])
      case (none c2)
      obtain d where d: "rrarr_put ce1 idx None = Some (ce1\<lparr>ce_data := d\<rparr>)" "pos_cent (ce1\<lparr>ce_data := d\<rparr>) (?R[idx := None])"
        using pos_put [OF p1 il, of None] by blast
      have same: "?R[idx := None] = ?R" using \<open>?R ! idx = None\<close> by (metis list_update_id)
      have po: "pos_ok (ce1\<lparr>ce_data := d\<rparr>) ?R" using R d(2) unfolding same by (simp add: pos_ok_def base_size_def)
      have bl: "cent_blocks (ce1\<lparr>ce_data := d\<rparr>) = cent_blocks ce1" using pos_blocks [OF p1] pos_blocks [OF d(2)] unfolding same by simp
      have hd: "same_head ce (ce1\<lparr>ce_data := d\<rparr>)" using s1(3) by (simp add: same_head_def)
      show ?thesis unfolding s1(1) using True none d(1) po bl hd s1(5-8) frame_trans [OF s1(6) none(2)] by auto
    next
      case (some p c2)
      let ?s = "Some (new_set p ttl ts flags)"
      obtain d where d: "rrarr_put ce1 idx ?s = Some (ce1\<lparr>ce_data := d\<rparr>)" "pos_cent (ce1\<lparr>ce_data := d\<rparr>) (?R[idx := ?s])"
        "ce_cs ce1 = base_size ce1 + ext_size (?R[idx := ?s]) + sets_sum set_size (?R[idx := ?s]) - sizeof_rr_set"
        "ce_num_rrs ce1 = sets_sum (\<lambda>_. 1) (?R[idx := ?s]) - 1"
        using pos_ok_put [OF R il, of ?s] none by auto
      let ?ce = "ce1\<lparr>ce_data := d, ce_cs := ce_cs ce1 + sizeof_rr_set, ce_num_rrs := ce_num_rrs ce1 + 1\<rparr>"
      have pc: "pos_cent ?ce (?R[idx := ?s])" using d(2) by (simp add: pos_cent_def is_neg_def)
      have po: "pos_ok ?ce (?R[idx := ?s])" using pc d(3,4) by (simp add: pos_ok_def base_size_def)
      have bl: "cent_blocks ?ce = cent_blocks ce1 + 1"
        using pos_blocks [OF p1] pos_blocks [OF pc] none il by (simp add: sets_sum_update ext_blocks_def)
      have hd: "same_head ce ?ce" using s1(3) by (simp add: same_head_def)
      show ?thesis unfolding s1(1) using True some d(1) po bl hd s1(5-8) frame_trans [OF s1(6) some(2)]
        by (simp add: new_set_def) blast
    qed
  qed
qed

lemma add_cent_rrset_ok:
  assumes ok: "cent_ok ce" and idx: "idx < NRRTOT" and free: "slot (sets0 ce) idx = None"
    and rep: "rl_rep (dc_rrl c) xs" and l: "is_neg ce \<longrightarrow> set (cent_lents ce) \<subseteq> set xs"
  shows "\<exists>b ce' c' p. add_cent_rrset_by_index fails ce idx ttl ts flags c = Some ((b, ce'), c') \<and> same_head ce ce' \<and>
    (if b then pos_ok ce' ((room idx (sets0 ce))[idx := Some (new_set p ttl ts flags)])
     else pos_ok ce' (sets0 ce) \<or> pos_ok ce' (room idx (sets0 ce))) \<and>
    effect xs c (cent_blocks ce' - cent_blocks ce) (if is_neg ce then cent_lents ce else []) c' \<and> ((\<forall>n. \<not> fails n) \<longrightarrow> b)"
proof -
  have "\<exists>ce1 c1. (if is_neg ce then make_positive ce c else Some (ce, c)) = Some (ce1, c1) \<and> pos_ok ce1 (sets0 ce) \<and> same_head ce ce1 \<and>
    effect xs c (cent_blocks ce1 - cent_blocks ce) (if is_neg ce then cent_lents ce else []) c1"
  proof (cases "is_neg ce")
    case True
    then show ?thesis using make_positive_ok [OF cent_ok_neg [OF ok] rep] l by (auto simp: sets0_def)
  next
    case False
    then show ?thesis using cent_ok_pos [OF ok] effect_refl [OF rep] by (simp add: sets0_def)
  qed
  then obtain ce1 c1 where s1: "(if is_neg ce then make_positive ce c else Some (ce, c)) = Some (ce1, c1)" "pos_ok ce1 (sets0 ce)"
    "same_head ce ce1" "effect xs c (cent_blocks ce1 - cent_blocks ce) (if is_neg ce then cent_lents ce else []) c1" by blast
  note s2 = add_set_ok [OF s1(2) idx free, where c = c1 and fails = fails and ttl = ttl and ts = ts and flags = flags]
  then obtain b ce' c' p where r: "add_cent_rrset_by_index fails ce idx ttl ts flags c = Some ((b, ce'), c')" "same_head ce1 ce'"
    "frame c1 c'" "dc_rrl c' = dc_rrl c1" "dc_live c' = dc_live c1 + cent_blocks ce' - cent_blocks ce1"
    "if b then pos_ok ce' ((room idx (sets0 ce))[idx := Some (new_set p ttl ts flags)]) else pos_ok ce' (sets0 ce) \<or> pos_ok ce' (room idx (sets0 ce))"
    "(\<forall>n. \<not> fails n) \<longrightarrow> b"
    unfolding add_cent_rrset_by_index_def s1(1) by (elim exE) (simp only: bind.bind_lunit prod.case, blast)
  have "effect xs c (cent_blocks ce' - cent_blocks ce) (if is_neg ce then cent_lents ce else []) c'"
    by (rule effect_eq [OF effect_live [OF s1(4) _ r(4,3), of "cent_blocks ce' - cent_blocks ce1"]]) (simp_all add: r(5))
  then show ?thesis using r same_head_trans [OF s1(3) r(2)] by blast
qed

subsection \<open>Adding records\<close>

lemma rr_size_simps [simp]: "rr_size [] = 0" "rr_size (rr # rrs) = sizeof_rr_bucket + int (length rr) + rr_size rrs"
  "rr_size (as @ bs) = rr_size as + rr_size bs"
  by (simp_all add: rr_size_def)

lemma put_rrs_ok:
  assumes ok: "pos_ok ce ss" and i: "i < length ss" "ss ! i = Some rs"
    and r: "length rrs = Suc (length (rs_rrs rs))" "rr_size rrs = rr_size (rs_rrs rs) + n"
  shows "\<exists>d. rrarr_put ce i (Some (rs\<lparr>rs_rrs := rrs\<rparr>)) = Some (ce\<lparr>ce_data := d\<rparr>) \<and>
    pos_ok (ce\<lparr>ce_data := d, ce_cs := ce_cs ce + n\<rparr>) (ss[i := Some (rs\<lparr>rs_rrs := rrs\<rparr>)]) \<and>
    cent_blocks (ce\<lparr>ce_data := d, ce_cs := ce_cs ce + n\<rparr>) = cent_blocks ce + 1"
proof -
  let ?s = "Some (rs\<lparr>rs_rrs := rrs\<rparr>)"
  obtain d where d: "rrarr_put ce i ?s = Some (ce\<lparr>ce_data := d\<rparr>)" "pos_cent (ce\<lparr>ce_data := d\<rparr>) (ss[i := ?s])"
    "ce_cs ce = base_size ce + ext_size (ss[i := ?s]) + sets_sum set_size (ss[i := ?s]) + set_size rs - set_size (rs\<lparr>rs_rrs := rrs\<rparr>)"
    "ce_num_rrs ce = sets_sum (\<lambda>_. 1) (ss[i := ?s])"
    using pos_ok_put [OF ok i(1), of ?s] i(2) by auto
  let ?ce = "ce\<lparr>ce_data := d, ce_cs := ce_cs ce + n\<rparr>"
  have pc: "pos_cent ?ce (ss[i := ?s])" using d(2) by (simp add: pos_cent_def is_neg_def)
  have "pos_ok ?ce (ss[i := ?s])" using pc d(3,4) r(2) by (simp add: pos_ok_def base_size_def set_size_def)
  moreover have "cent_blocks ?ce = cent_blocks ce + 1"
    using pos_blocks [OF pc] pos_blocks [of ce ss] ok i r(1) by (simp add: pos_ok_def sets_sum_update ext_blocks_def set_blocks_def)
  ultimately show ?thesis using d(1) by blast
qed

lemma rr_size_mset: "mset xs = mset ys \<Longrightarrow> rr_size xs = rr_size ys"
  by (simp add: rr_size_def sum_mset_sum_list [symmetric])

text \<open>The records of the set after adding one at the place given by \<open>rtail\<close>.\<close>

definition rrs_added :: "nat option \<Rightarrow> byte list \<Rightarrow> byte list list \<Rightarrow> byte list list" where
  "rrs_added rtail rr rrs = (case rtail of None \<Rightarrow> rr # rrs | Some k \<Rightarrow> take (Suc k) rrs @ rr # drop (Suc k) rrs)"

lemma rrs_added_ok:
  assumes "\<forall>k. rtail = Some k \<longrightarrow> k < length rrs"
  shows "length (rrs_added rtail rr rrs) = Suc (length rrs)" "rr_size (rrs_added rtail rr rrs) = rr_size rrs + (sizeof_rr_bucket + int (length rr))"
proof -
  have m: "mset (rrs_added rtail rr rrs) = mset (rr # rrs)"
  proof (cases rtail)
    case (Some k)
    have "mset (take (Suc k) rrs) + mset (drop (Suc k) rrs) = mset rrs" by (metis append_take_drop_id mset_append)
    then show ?thesis using Some by (simp add: rrs_added_def)
  qed (simp add: rrs_added_def)
  then show "length (rrs_added rtail rr rrs) = Suc (length rrs)" "rr_size (rrs_added rtail rr rrs) = rr_size rrs + (sizeof_rr_bucket + int (length rr))"
    using rr_size_mset [OF m] mset_eq_length [OF m] by simp_all
qed

text \<open>Adding a record to a set that is there.\<close>

lemma add_rr_there:
  assumes ok: "pos_ok ce ss" and idx: "idx < NRRTOT" and s: "slot ss idx = Some rs" and k: "\<forall>k. rtail = Some k \<longrightarrow> k < length (rs_rrs rs)"
  shows "\<exists>b ce' c' rt. add_cent_rr_int fails ce idx ttl ts flags rr rtail c = Some ((b, ce', rt), c') \<and> same_head ce ce' \<and>
    (if b then pos_ok ce' (ss[idx := Some (rs\<lparr>rs_rrs := rrs_added rtail rr (rs_rrs rs)\<rparr>)]) \<and> rt = Some (case rtail of None \<Rightarrow> 0 | Some k \<Rightarrow> Suc k)
     else ce' = ce) \<and> frame c c' \<and> dc_rrl c' = dc_rrl c \<and> dc_live c' = dc_live c + cent_blocks ce' - cent_blocks ce \<and>
    ((\<forall>n. \<not> fails n) \<longrightarrow> b)"
proof (cases rule: cache_malloc_cases [of fails c])
  case (none c1)
  then show ?thesis by (auto simp: add_cent_rr_int_def create_rr_def)
next
  case (some p c1)
  let ?rrs = "rrs_added rtail rr (rs_rrs rs)"
  have i: "idx < length ss" "ss ! idx = Some rs" using s by (simp_all add: slot_def split: if_splits)
  have pc: "pos_cent ce ss" using ok by (simp add: pos_ok_def)
  obtain d where d: "rrarr_put ce idx (Some (rs\<lparr>rs_rrs := ?rrs\<rparr>)) = Some (ce\<lparr>ce_data := d\<rparr>)"
    "pos_ok (ce\<lparr>ce_data := d, ce_cs := ce_cs ce + (sizeof_rr_bucket + int (length rr))\<rparr>) (ss[idx := Some (rs\<lparr>rs_rrs := ?rrs\<rparr>)])"
    "cent_blocks (ce\<lparr>ce_data := d, ce_cs := ce_cs ce + (sizeof_rr_bucket + int (length rr))\<rparr>) = cent_blocks ce + 1"
    using put_rrs_ok [OF ok i rrs_added_ok [OF k]] by blast
  let ?ce = "ce\<lparr>ce_data := d, ce_cs := ce_cs ce + (sizeof_rr_bucket + int (length rr))\<rparr>"
  have "add_cent_rr_int fails ce idx ttl ts flags rr rtail c = Some ((True, ?ce, Some (case rtail of None \<Rightarrow> 0 | Some k \<Rightarrow> Suc k)), c1)"
    using some(1) d(1) i pos_index [OF pc, of idx] pos_testext [OF pc idx] k
    by (cases rtail) (simp_all add: add_cent_rr_int_def create_rr_def list_at_def rrs_added_def insert_after_def add.assoc)
  moreover have "same_head ce ?ce" by (simp add: same_head_def)
  ultimately show ?thesis using some d by (intro exI [of _ True] exI [of _ ?ce] exI [of _ c1] exI) simp
qed

text \<open>Adding the first record of a type.\<close>

lemma add_rr_new:
  assumes ok: "cent_ok ce" and idx: "idx < NRRTOT" and free: "slot (sets0 ce) idx = None"
    and rep: "rl_rep (dc_rrl c) xs" and l: "is_neg ce \<longrightarrow> set (cent_lents ce) \<subseteq> set xs"
  shows "\<exists>b ce' c' rt Lrem p. add_cent_rr_int fails ce idx ttl ts flags rr None c = Some ((b, ce', rt), c') \<and> same_head ce ce' \<and>
    (if b then pos_ok ce' ((room idx (sets0 ce))[idx := Some (new_set p ttl ts flags\<lparr>rs_rrs := [rr]\<rparr>)])
     else ce' = ce \<or> pos_ok ce' (sets0 ce) \<or> pos_ok ce' (room idx (sets0 ce))) \<and>
    effect xs c (cent_blocks ce' - cent_blocks ce) Lrem c' \<and> Lrem = (if is_neg ce \<and> ce' \<noteq> ce then cent_lents ce else []) \<and>
    ((\<forall>n. \<not> fails n) \<longrightarrow> b)"
proof (cases rule: cache_malloc_cases [of fails c])
  case (none c1)
  have "effect xs c (0 + 0) [] c1" by (rule effect_live [OF effect_refl [OF rep]]) (use none in simp_all)
  then show ?thesis using none by (auto simp: add_cent_rr_int_def create_rr_def)
next
  case (some p0 c1)
  let ?L = "if is_neg ce then cent_lents ce else []"
  have e1: "effect xs c (0 + 1) [] c1" by (rule effect_live [OF effect_refl [OF rep]]) (use some in simp_all)
  have rep1: "rl_rep (dc_rrl c1) xs" using rep some by simp
  obtain b ce1 c2 p where a: "add_cent_rrset_by_index fails ce idx ttl ts flags c1 = Some ((b, ce1), c2)" "same_head ce ce1"
    "if b then pos_ok ce1 ((room idx (sets0 ce))[idx := Some (new_set p ttl ts flags)]) else pos_ok ce1 (sets0 ce) \<or> pos_ok ce1 (room idx (sets0 ce))"
    "effect xs c1 (cent_blocks ce1 - cent_blocks ce) ?L c2" "(\<forall>n. \<not> fails n) \<longrightarrow> b"
    using add_cent_rrset_ok [OF ok idx free rep1, of fails ttl ts flags] l by blast
  have e2: "effect xs c (1 + (cent_blocks ce1 - cent_blocks ce)) ?L c2" using effect_trans [OF e1] a(4) by (auto elim: effect_eq)
  have ts: "RRARR_INDEX_TESTEXT ce idx = Some None"
  proof (cases "is_neg ce")
    case False
    then show ?thesis using pos_testext [of ce "cent_sets ce" idx] cent_ok_pos [OF ok False] idx free
      by (simp add: sets0_def pos_ok_def slot_def)
  qed (simp add: RRARR_INDEX_TESTEXT_def)
  have ne: "is_neg ce \<Longrightarrow> pos_ok ce' ss \<Longrightarrow> ce' \<noteq> ce" for ce' ss by (auto simp: pos_ok_def pos_cent_def)
  show ?thesis
  proof (cases b)
    case False
    then have "add_cent_rr_int fails ce idx ttl ts flags rr None c = Some ((False, ce1, None), cache_free c2)"
      using some(1) ts a(1) by (simp add: add_cent_rr_int_def create_rr_def)
    moreover have "effect xs c (cent_blocks ce1 - cent_blocks ce) ?L (cache_free c2)" using effect_free [OF e2] by (auto elim: effect_eq)
    moreover have "pos_ok ce1 (sets0 ce) \<or> pos_ok ce1 (room idx (sets0 ce))" using a(3) False by simp
    moreover from this have "?L = (if is_neg ce \<and> ce1 \<noteq> ce then cent_lents ce else [])" using ne by auto
    ultimately show ?thesis using a(2,5) False
      by (intro exI [of _ False] exI [of _ ce1] exI [of _ "cache_free c2"] exI [of _ None] exI [of _ ?L] exI [of _ p]) simp
  next
    case True
    let ?ss = "(room idx (sets0 ce))[idx := Some (new_set p ttl ts flags)]"
    have P: "pos_ok ce1 ?ss" using a(3) True by simp
    then have pc: "pos_cent ce1 ?ss" by (simp add: pos_ok_def)
    have "length (sets0 ce) = NRRMU \<or> length (sets0 ce) = NRRTOT"
    proof (cases "is_neg ce")
      case False
      then show ?thesis using cent_ok_pos [OF ok False] by (simp add: sets0_def pos_ok_def pos_cent_def)
    qed (simp add: sets0_def)
    then have il: "idx < length (room idx (sets0 ce))" using idx room_length by blast
    have s: "slot ?ss idx = Some (new_set p ttl ts flags)" using il by (simp add: slot_def)
    let ?rs = "new_set p ttl ts flags\<lparr>rs_rrs := [rr]\<rparr>"
    obtain d where d: "rrarr_put ce1 idx (Some ?rs) = Some (ce1\<lparr>ce_data := d\<rparr>)"
      "pos_ok (ce1\<lparr>ce_data := d, ce_cs := ce_cs ce1 + (sizeof_rr_bucket + int (length rr))\<rparr>) (?ss[idx := Some ?rs])"
      "cent_blocks (ce1\<lparr>ce_data := d, ce_cs := ce_cs ce1 + (sizeof_rr_bucket + int (length rr))\<rparr>) = cent_blocks ce1 + 1"
      using put_rrs_ok [OF P, of idx "new_set p ttl ts flags" "[rr]" "sizeof_rr_bucket + int (length rr)"] il by (auto simp: new_set_def)
    let ?ce = "ce1\<lparr>ce_data := d, ce_cs := ce_cs ce1 + (sizeof_rr_bucket + int (length rr))\<rparr>"
    have "add_cent_rr_int fails ce idx ttl ts flags rr None c = Some ((True, ?ce, Some 0), c2)"
      using some(1) ts a(1) True d(1) pos_index [OF pc, of idx] il
      by (simp add: add_cent_rr_int_def create_rr_def list_at_def add.assoc) (simp add: new_set_def)
    moreover have "same_head ce ?ce" using a(2) by (simp add: same_head_def)
    moreover have "effect xs c (cent_blocks ?ce - cent_blocks ce) ?L c2" by (rule effect_eq [OF e2]) (simp add: d(3))
    moreover have po: "pos_ok ?ce ((room idx (sets0 ce))[idx := Some ?rs])" using d(2) by simp
    moreover have "?L = (if is_neg ce \<and> ?ce \<noteq> ce then cent_lents ce else [])" using ne [OF _ po] by auto
    ultimately show ?thesis
      by (intro exI [of _ True] exI [of _ ?ce] exI [of _ c2] exI [of _ "Some 0"] exI [of _ ?L] exI [of _ p]) simp
  qed
qed

end
