(* ===== verification/CacheEntryCopy.thy ===== *)
theory CacheEntryCopy
  imports CacheEntryProperties
begin

text \<open>
  The copy of a cache entry has the same sets with the same records, without links to the list of sets by age;
  when memory runs out on the way everything allocated so far is freed again.
\<close>

lemma copy_rrs_ok:
  "\<exists>ok rrs' c'. copy_rrs fails rrs c = ((ok, rrs'), c') \<and> (ok \<longrightarrow> rrs' = rrs) \<and> frame c c' \<and> dc_rrl c' = dc_rrl c \<and>
    dc_live c' = dc_live c + int (length rrs') \<and> ((\<forall>n. \<not> fails n) \<longrightarrow> ok)"
proof (induction rrs arbitrary: c)
  case (Cons rr rrs)
  show ?case
  proof (cases rule: cache_malloc_cases [of fails c])
    case (none c1)
    then show ?thesis by auto
  next
    case (some p c1)
    obtain ok rrs' c' where "copy_rrs fails rrs c1 = ((ok, rrs'), c')" "ok \<longrightarrow> rrs' = rrs" "frame c1 c'" "dc_rrl c' = dc_rrl c1"
      "dc_live c' = dc_live c1 + int (length rrs')" "(\<forall>n. \<not> fails n) \<longrightarrow> ok" using Cons.IH by blast
    then show ?thesis using some frame_trans [OF some(2)] by auto
  qed
qed auto

definition copied :: "rr_set option \<Rightarrow> rr_set option \<Rightarrow> bool" where
  "copied s s' \<longleftrightarrow> (case s of None \<Rightarrow> s' = None | Some rs \<Rightarrow> \<exists>p. s' = Some (rs\<lparr>rs_addr := p, rs_lent := None\<rparr>))"

lemma copied_None [simp]: "copied None s' \<longleftrightarrow> s' = None"
  by (simp add: copied_def)

lemma copied_lents: "list_all2 copied ss cs \<Longrightarrow> sets_lents cs = []"
  by (induction rule: list_all2_induct) (auto simp: copied_def sets_lents_def rs_lents_def split: option.splits)

lemma copied_sum:
  assumes "list_all2 copied ss cs" "\<And>rs p. f (rs\<lparr>rs_addr := p, rs_lent := None\<rparr>) = f rs"
  shows "sets_sum f cs = sets_sum f ss"
  using assms(1) by (induction rule: list_all2_induct) (auto simp: copied_def assms(2) split: option.splits)

lemma pos_put_blocks:
  assumes "pos_cent ce ss" "i < length ss" "ss ! i = None"
  shows "\<exists>d. rrarr_put ce i s = Some (ce\<lparr>ce_data := d\<rparr>) \<and> pos_cent (ce\<lparr>ce_data := d\<rparr>) (ss[i := s]) \<and>
    cent_blocks (ce\<lparr>ce_data := d\<rparr>) = cent_blocks ce + opt_int set_blocks s"
proof -
  obtain d where d: "rrarr_put ce i s = Some (ce\<lparr>ce_data := d\<rparr>)" "pos_cent (ce\<lparr>ce_data := d\<rparr>) (ss[i := s])"
    using pos_put [OF assms(1,2)] by blast
  then show ?thesis using pos_blocks [OF d(2)] pos_blocks [OF assms(1)] assms(2,3) by (auto simp: sets_sum_update ext_blocks_def)
qed

lemma copy_sets_ok:
  assumes "pos_cent ce ss" "i + n = length ss" "pos_cent copy cs" "length cs = length ss" "sets_lents cs = []"
    "\<forall>j < i. copied (ss ! j) (cs ! j)" "\<forall>j < length ss. i \<le> j \<longrightarrow> cs ! j = None"
  shows "\<exists>ok copy' c' cs'. copy_sets fails ce i n copy c = Some ((ok, copy'), c') \<and> pos_cent copy' cs' \<and> length cs' = length ss \<and>
    copy' = copy\<lparr>ce_data := ce_data copy'\<rparr> \<and> sets_lents cs' = [] \<and> (ok \<longrightarrow> list_all2 copied ss cs') \<and> frame c c' \<and>
    dc_rrl c' = dc_rrl c \<and> dc_live c' = dc_live c + cent_blocks copy' - cent_blocks copy \<and> ((\<forall>n. \<not> fails n) \<longrightarrow> ok)"
  using assms
proof (induction n arbitrary: i copy cs c)
  case 0
  then have "list_all2 copied ss cs" by (simp add: list_all2_conv_all_nth)
  then show ?case using 0 by auto
next
  case (Suc n)
  have i: "i < length ss" "RRARR_INDEX ce i = Some (ss ! i)" "cs ! i = None" "i < length cs"
    using Suc.prems pos_index [OF Suc.prems(1)] by (simp_all add: list_at_def)
  show ?case
  proof (cases "ss ! i")
    case None
    have "\<forall>j < i + 1. copied (ss ! j) (cs ! j)" using Suc.prems(6) None i(3) by (auto simp: less_Suc_eq)
    then show ?thesis using Suc.IH [of "i + 1" copy cs c] Suc.prems None i(2) by auto
  next
    case (Some rs)
    show ?thesis
    proof (cases rule: cache_malloc_cases [of fails c])
      case (none c1)
      obtain d where d: "rrarr_put copy i None = Some (copy\<lparr>ce_data := d\<rparr>)" "pos_cent (copy\<lparr>ce_data := d\<rparr>) (cs[i := None])"
        "cent_blocks (copy\<lparr>ce_data := d\<rparr>) = cent_blocks copy"
        using pos_put_blocks [OF Suc.prems(3) i(4,3), of None] by auto
      have "cs[i := None] = cs" using i(3) by (metis list_update_id)
      moreover have "\<exists>n. fails n" using none(5) by blast
      ultimately show ?thesis using none Some i(2) d Suc.prems(4,5)
        by (intro exI [of _ False] exI [of _ "copy\<lparr>ce_data := d\<rparr>"] exI [of _ c1] exI [of _ cs]) simp
    next
      case (some p c1)
      obtain ok rrs' c2 where r: "copy_rrs fails (rs_rrs rs) c1 = ((ok, rrs'), c2)" "ok \<longrightarrow> rrs' = rs_rrs rs" "frame c1 c2"
        "dc_rrl c2 = dc_rrl c1" "dc_live c2 = dc_live c1 + int (length rrs')" "(\<forall>n. \<not> fails n) \<longrightarrow> ok" using copy_rrs_ok by blast
      let ?s = "Some (rs\<lparr>rs_addr := p, rs_lent := None, rs_rrs := rrs'\<rparr>)"
      obtain d where d: "rrarr_put copy i ?s = Some (copy\<lparr>ce_data := d\<rparr>)" "pos_cent (copy\<lparr>ce_data := d\<rparr>) (cs[i := ?s])"
        "cent_blocks (copy\<lparr>ce_data := d\<rparr>) = cent_blocks copy + 1 + int (length rrs')"
        using pos_put_blocks [OF Suc.prems(3) i(4,3), of ?s] by (auto simp: set_blocks_def)
      let ?copy = "copy\<lparr>ce_data := d\<rparr>"
      have f: "frame c c2" using frame_trans some(2) r(3) by blast
      have L: "sets_lents (cs[i := ?s]) = []" using sets_lents_update [of cs i ?s] i(3) Suc.prems(5) by (simp add: rs_lents_def)
      have live: "dc_live c2 = dc_live c + cent_blocks ?copy - cent_blocks copy" using some(4) r(5) d(3) by simp
      show ?thesis
      proof (cases ok)
        case False
        have "copy_sets fails ce i (Suc n) copy c = Some ((False, ?copy), c2)" using some(1) Some i(2) r(1) d(1) False by simp
        then show ?thesis using d(2) L f live Suc.prems(4) some(3) r(4,6) False
          by (intro exI [of _ False] exI [of _ ?copy] exI [of _ c2] exI [of _ "cs[i := ?s]"]) simp
      next
        case True
        then have "copied (ss ! i) ?s" using r(2) Some by (auto simp: copied_def)
        then have p1: "\<forall>j < i + 1. copied (ss ! j) (cs[i := ?s] ! j)" using Suc.prems(6) i(4) by (auto simp: less_Suc_eq nth_list_update)
        have p2: "\<forall>j < length ss. i + 1 \<le> j \<longrightarrow> cs[i := ?s] ! j = None" using Suc.prems(7) by auto
        have p3: "i + 1 + n = length ss" "length (cs[i := ?s]) = length ss" using Suc.prems(2,4) by simp_all
        obtain ok' copy' c' cs' where R: "copy_sets fails ce (i + 1) n ?copy c2 = Some ((ok', copy'), c')" "pos_cent copy' cs'" "length cs' = length ss"
          "copy' = ?copy\<lparr>ce_data := ce_data copy'\<rparr>" "sets_lents cs' = []" "ok' \<longrightarrow> list_all2 copied ss cs'" "frame c2 c'" "dc_rrl c' = dc_rrl c2"
          "dc_live c' = dc_live c2 + cent_blocks copy' - cent_blocks ?copy" "(\<forall>n. \<not> fails n) \<longrightarrow> ok'"
          using Suc.IH [where c = c2, OF Suc.prems(1) p3(1) d(2) p3(2) L p1 p2] by (elim exE conjE) (rule that)
        have "copy_sets fails ce i (Suc n) copy c = Some ((ok', copy'), c')" using some(1) Some i(2) r(1) d(1) True R(1) by simp
        moreover have "copy' = copy\<lparr>ce_data := ce_data copy'\<rparr>" using R(4) by simp
        moreover have "frame c c'" using frame_trans f R(7) by blast
        moreover have "dc_rrl c' = dc_rrl c" using R(8) r(4) some(3) by simp
        moreover have "dc_live c' = dc_live c + cent_blocks copy' - cent_blocks copy" using R(9) live by simp
        ultimately show ?thesis using R(2,3,5,6,10) by (intro exI conjI)
      qed
    qed
  qed
qed

definition copied_cent :: "dns_cent \<Rightarrow> dns_cent \<Rightarrow> bool" where
  "copied_cent ce ce' \<longleftrightarrow> ce_qname ce' = ce_qname ce \<and> ce_cs ce' = ce_cs ce \<and> ce_num_rrs ce' = ce_num_rrs ce \<and>
     ce_flags ce' = ce_flags ce \<and> ce_c_ns ce' = ce_c_ns ce \<and> ce_c_soa ce' = ce_c_soa ce \<and>
     (if is_neg ce then ce_data ce' = Neg None (neg_ttl (ce_data ce)) (neg_ts (ce_data ce))
      else list_all2 copied (cent_sets ce) (cent_sets ce'))"

lemma copied_cent_ok:
  assumes "cent_ok ce" "copied_cent ce ce'" "shaped ce'"
  shows "cent_ok ce'" "cent_lents ce' = []"
proof -
  have n: "named ce'" "base_size ce' = base_size ce" "is_neg ce' = is_neg ce"
    using assms(1,2) by (simp_all add: copied_cent_def cent_ok_def named_def base_size_def is_neg_def)
  have "cent_ok ce' \<and> cent_lents ce' = []"
  proof (cases "is_neg ce")
    case True
    then have "neg_ok ce'" using cent_ok_neg [OF assms(1)] assms(2) n by (simp add: neg_ok_def copied_cent_def)
    then show ?thesis using n True assms(2) by (simp add: cent_ok_def cent_lents_def copied_cent_def)
  next
    case False
    obtain ss' where p: "pos_cent ce' ss'" using assms(3) n False by (auto simp: shaped_def)
    have P: "pos_ok ce (cent_sets ce)" using cent_ok_pos [OF assms(1) False] .
    have c: "list_all2 copied (cent_sets ce) ss'" using assms(2) False pos_sets [OF p] by (simp add: copied_cent_def)
    have "sets_sum set_size ss' = sets_sum set_size (cent_sets ce)" "sets_sum (\<lambda>_. 1) ss' = sets_sum (\<lambda>_. 1) (cent_sets ce)"
      using copied_sum [OF c] by (simp_all add: set_size_def)
    moreover have "ext_size ss' = ext_size (cent_sets ce)" using list_all2_lengthD [OF c] by (simp add: ext_size_def)
    ultimately have "pos_ok ce' ss'" using P p n assms(2) by (simp add: pos_ok_def copied_cent_def)
    then show ?thesis using n copied_lents [OF c] pos_lents [OF p] by (auto simp: cent_ok_def)
  qed
  then show "cent_ok ce'" "cent_lents ce' = []" by simp_all
qed

lemma copy_cent_ok:
  assumes ok: "cent_ok ce" and rep: "rl_rep (dc_rrl c) xs"
  shows "\<exists>r c'. copy_cent fails ce c = Some (r, c') \<and> frame c c' \<and>
    (case r of
       None \<Rightarrow> (\<exists>n. fails n) \<and> effect xs c 0 [] c'
     | Some (a, ce') \<Rightarrow> copied_cent ce ce' \<and> cent_ok ce' \<and> cent_lents ce' = [] \<and> dc_mallocs c = a \<and> a < dc_mallocs c' \<and>
         dc_rrl c' = dc_rrl c \<and> dc_live c' = dc_live c + 1 + cent_blocks ce')"
proof -
  obtain ks where ks: "name_ok ks" "ce_qname ce = enc_name ks" using ok by (auto simp: cent_ok_def named_def)
  have nm: "rhnlen (ce_qname ce) = Some (length (ce_qname ce))"
    using rhnlen_enc [of ks "[]"] name_ok_lab_len [OF ks(1)] ks(2) by simp
  have refl: "effect xs c' 0 [] c'" if "rl_rep (dc_rrl c') xs" for c' using effect_refl that by blast
  show ?thesis
  proof (cases rule: cache_malloc_cases [of fails c])
    case (none c1)
    have "effect xs c (0 + 0) [] c1" by (rule effect_live [OF effect_refl [OF rep]]) (use none in simp_all)
    then show ?thesis using none by (auto simp: copy_cent_def)
  next
    case (some a c1)
    have e1: "effect xs c (0 + 1) [] c1" by (rule effect_live [OF effect_refl [OF rep]]) (use some in simp_all)
    show ?thesis
    proof (cases rule: cache_malloc_cases [of fails c1])
      case (none c2)
      have "effect xs c (0 + 1 + 0) [] c2" by (rule effect_live [OF e1]) (use none in simp_all)
      from effect_free [OF this] have e: "effect xs c 0 [] (cache_free c2)" by simp
      have "copy_cent fails ce c = Some (None, cache_free c2)" using some(1) none(1) nm by (simp add: copy_cent_def)
      then show ?thesis using e effect_frame [OF e] none(5) by auto
    next
      case s2: (some p c2)
      let ?copy = "\<lparr>ce_qname = ce_qname ce, ce_cs = ce_cs ce, ce_num_rrs = ce_num_rrs ce, ce_flags = ce_flags ce,
             ce_data = Rr (replicate NRRMU None) None, ce_c_ns = ce_c_ns ce, ce_c_soa = ce_c_soa ce\<rparr>"
      have e2: "effect xs c (0 + 1 + 1) [] c2" by (rule effect_live [OF e1]) (use s2 in simp_all)
      have f2: "frame c c2" "dc_rrl c2 = dc_rrl c" "dc_live c2 = dc_live c + 2" "dc_mallocs c = a" "a < dc_mallocs c2"
        using some s2 frame_trans [OF some(2) s2(2)] by simp_all
      show ?thesis
      proof (cases "is_neg ce")
        case True
        then obtain l t s where d: "ce_data ce = Neg l t s" using cent_ok_neg [OF ok] by (auto simp: neg_ok_def)
        let ?ce = "?copy\<lparr>ce_data := Neg None t s\<rparr>"
        have cc: "copied_cent ce ?ce" using True d by (simp add: copied_cent_def)
        have sh: "shaped ?ce" using True by (simp add: shaped_def is_neg_def)
        have "copy_cent fails ce c = Some (Some (a, ?ce), c2)" using some(1) s2(1) nm True d by (simp add: copy_cent_def)
        then show ?thesis using cc copied_cent_ok [OF ok cc sh] f2 by (simp add: cent_blocks_def)
      next
        case False
        have P: "pos_ok ce (cent_sets ce)" using cent_ok_pos [OF ok False] .
        then have pc: "pos_cent ce (cent_sets ce)" by (simp add: pos_ok_def)
        let ?ss = "cent_sets ce"
        obtain mu ext where d: "ce_data ce = Rr mu ext" "ext = None \<longleftrightarrow> length ?ss = NRRMU" "length ?ss = NRRMU \<or> length ?ss = NRRTOT"
          using pc by (auto simp: pos_cent_def)
        let ?cs = "replicate (length ?ss) None :: rr_set option list"
        have p0: "pos_cent ?copy (replicate NRRMU None)" using False by (simp add: pos_cent_def is_neg_def)
        have b0: "cent_blocks ?copy = 1" using pos_blocks [OF p0] by (simp add: ext_blocks_def)
        have "\<exists>ok1 copy1 c3. (if ext = None then Some ((True, ?copy), c2) else case cache_malloc fails c2 of
              (None, c) \<Rightarrow> Some ((False, ?copy), c)
            | (Some _, c) \<Rightarrow> Some ((True, ?copy\<lparr>ce_data := Rr (replicate NRRMU None) (Some (replicate NRREXT None))\<rparr>), c)) = Some ((ok1, copy1), c3) \<and>
            pos_cent copy1 (if ok1 then ?cs else replicate NRRMU None) \<and> copy1 = ?copy\<lparr>ce_data := ce_data copy1\<rparr> \<and> frame c2 c3 \<and>
            dc_rrl c3 = dc_rrl c2 \<and> dc_live c3 = dc_live c2 + cent_blocks copy1 - 1 \<and> ((\<forall>n. \<not> fails n) \<longrightarrow> ok1)"
        proof (cases "ext = None")
          case True
          then show ?thesis using p0 b0 d(2) by auto
        next
          case ne: False
          show ?thesis
          proof (cases rule: cache_malloc_cases [of fails c2])
            case (none c3)
            then show ?thesis using p0 b0 ne by auto
          next
            case s3: (some q c3)
            let ?c = "?copy\<lparr>ce_data := Rr (replicate NRRMU None) (Some (replicate NRREXT None))\<rparr>"
            have "length ?ss = NRRTOT" using d(2,3) ne by blast
            then have pe: "pos_cent ?c ?cs" using False by (simp add: pos_cent_def is_neg_def NRRMU_def NRREXT_def NRRTOT_def)
            have "cent_blocks ?c = 2" using pos_blocks [OF pe] \<open>length ?ss = NRRTOT\<close> by (simp add: ext_blocks_def)
            then show ?thesis using pe s3 ne by (intro exI [of _ True] exI [of _ ?c] exI [of _ c3]) simp
          qed
        qed
        then obtain ok1 copy1 c3 where s3: "(if ext = None then Some ((True, ?copy), c2) else case cache_malloc fails c2 of
              (None, c) \<Rightarrow> Some ((False, ?copy), c)
            | (Some _, c) \<Rightarrow> Some ((True, ?copy\<lparr>ce_data := Rr (replicate NRRMU None) (Some (replicate NRREXT None))\<rparr>), c)) = Some ((ok1, copy1), c3)"
          "pos_cent copy1 (if ok1 then ?cs else replicate NRRMU None)" "copy1 = ?copy\<lparr>ce_data := ce_data copy1\<rparr>" "frame c2 c3"
          "dc_rrl c3 = dc_rrl c2" "dc_live c3 = dc_live c2 + cent_blocks copy1 - 1" "(\<forall>n. \<not> fails n) \<longrightarrow> ok1" by (elim exE conjE) (rule that)
        have "\<exists>ok2 copy2 c4 cs2. (if ok1 then copy_sets fails ce 0 (if ext = None then NRRMU else NRRTOT) copy1 c3 else Some ((False, copy1), c3)) =
            Some ((ok2, copy2), c4) \<and> pos_cent copy2 cs2 \<and> copy2 = ?copy\<lparr>ce_data := ce_data copy2\<rparr> \<and> sets_lents cs2 = [] \<and>
            (ok2 \<longrightarrow> list_all2 copied ?ss cs2) \<and> frame c3 c4 \<and> dc_rrl c4 = dc_rrl c3 \<and>
            dc_live c4 = dc_live c3 + cent_blocks copy2 - cent_blocks copy1 \<and> ((\<forall>n. \<not> fails n) \<longrightarrow> ok2)"
        proof (cases ok1)
          case True
          have len: "0 + (if ext = None then NRRMU else NRRTOT) = length ?ss" using d(2,3) by auto
          have pcs: "pos_cent copy1 ?cs" using s3(2) True by simp
          have cs0: "length ?cs = length ?ss" "sets_lents ?cs = []" "\<forall>j < 0. copied (?ss ! j) (?cs ! j)"
            "\<forall>j < length ?ss. 0 \<le> j \<longrightarrow> ?cs ! j = None" by simp_all
          obtain ok2 copy2 c4 cs2 where "copy_sets fails ce 0 (if ext = None then NRRMU else NRRTOT) copy1 c3 = Some ((ok2, copy2), c4)"
            "pos_cent copy2 cs2" "copy2 = copy1\<lparr>ce_data := ce_data copy2\<rparr>" "sets_lents cs2 = []" "ok2 \<longrightarrow> list_all2 copied ?ss cs2"
            "frame c3 c4" "dc_rrl c4 = dc_rrl c3" "dc_live c4 = dc_live c3 + cent_blocks copy2 - cent_blocks copy1" "(\<forall>n. \<not> fails n) \<longrightarrow> ok2"
            using copy_sets_ok [where fails = fails and c = c3, OF pc len pcs cs0] by (elim exE conjE) (rule that)
          moreover from this(3) have "copy2 = ?copy\<lparr>ce_data := ce_data copy2\<rparr>" using s3(3) by (metis dns_cent.update_convs(5) dns_cent.surjective)
          ultimately show ?thesis unfolding if_P [OF True] by (intro exI conjI)
        next
          case nok: False
          have "sets_lents (replicate NRRMU None) = []" by simp
          then show ?thesis using s3(2,3,7) nok by (intro exI [of _ False] exI [of _ copy1] exI [of _ c3] exI [of _ "replicate NRRMU None"]) simp
        qed
        then obtain ok2 copy2 c4 cs2 where s4: "(if ok1 then copy_sets fails ce 0 (if ext = None then NRRMU else NRRTOT) copy1 c3 else Some ((False, copy1), c3)) =
            Some ((ok2, copy2), c4)" "pos_cent copy2 cs2" "copy2 = ?copy\<lparr>ce_data := ce_data copy2\<rparr>" "sets_lents cs2 = []"
          "ok2 \<longrightarrow> list_all2 copied ?ss cs2" "frame c3 c4" "dc_rrl c4 = dc_rrl c3"
          "dc_live c4 = dc_live c3 + cent_blocks copy2 - cent_blocks copy1" "(\<forall>n. \<not> fails n) \<longrightarrow> ok2" by (elim exE conjE) (rule that)
        have f4: "frame c c4" "dc_rrl c4 = dc_rrl c" "dc_live c4 = dc_live c + 1 + cent_blocks copy2"
          using f2 s3(4-6) s4(6-8) frame_trans by (blast, simp, simp)
        have np: "\<not> is_neg copy2" using s4(2) by (simp add: pos_cent_def)
        then have sh: "shaped copy2" using s4(2) by (auto simp: shaped_def)
        have unf: "copy_cent fails ce c = (if ok2 then Some (Some (a, copy2), c4) else do { c \<leftarrow> free_cent copy2 c4; Some (None, cache_free c) })"
          using some(1) s2(1) nm False d(1) s3(1) s4(1) by (simp add: copy_cent_def)
        show ?thesis
        proof (cases ok2)
          case True
          have "ce_qname copy2 = ce_qname ce" "ce_cs copy2 = ce_cs ce" "ce_num_rrs copy2 = ce_num_rrs ce" "ce_flags copy2 = ce_flags ce"
            "ce_c_ns copy2 = ce_c_ns ce" "ce_c_soa copy2 = ce_c_soa ce" by (subst s4(3), simp)+
          then have cc: "copied_cent ce copy2" using s4(5) True False pos_sets [OF s4(2)] by (simp add: copied_cent_def)
          have "a < dc_mallocs c4" using f2(5) s3(4) s4(6) by (simp add: frame_def)
          then show ?thesis using unf True cc copied_cent_ok [OF ok cc sh] f4 f2(4) by simp
        next
          case nok: False
          have L: "cent_lents copy2 = []" using pos_lents [OF s4(2)] s4(4) by simp
          have rep4: "rl_rep (dc_rrl c4) xs" using rep f4(2) by simp
          obtain c5 where c5: "free_cent copy2 c4 = Some c5" "effect xs c4 (- cent_blocks copy2) [] c5"
            using free_cent_ok [OF sh rep4] L by auto
          have e4: "effect xs c (0 + (1 + cent_blocks copy2)) [] c4" by (rule effect_live [OF effect_refl [OF rep] _ f4(2,1)]) (simp add: f4(3))
          have "effect xs c 1 [] c5" using effect_trans [OF e4, of "- cent_blocks copy2" "[]" c5] c5(2) by simp
          from effect_free [OF this] have e5: "effect xs c 0 [] (cache_free c5)" by simp
          have "\<exists>n. fails n" using s4(9) nok by blast
          then show ?thesis using unf nok c5(1) e5 effect_frame [OF e5] by auto
        qed
      qed
    qed
  qed
qed

end
