(* ===== verification/CacheEntryBuild.thy ===== *)
theory CacheEntryBuild
  imports CacheEntryCopy
begin

text \<open>
  Building an entry record by record, against its contents: by index, the time to live, time stamp and flags
  of a set and its records in the order in which they were first added.
\<close>

type_synonym set_contents = "int \<times> int \<times> flags \<times> byte list list"

definition contents :: "rr_set \<Rightarrow> set_contents" where
  "contents rs = (rs_ttl rs, rs_ts rs, rs_flags rs, rs_rrs rs)"

definition cent_contents :: "dns_cent \<Rightarrow> nat \<Rightarrow> set_contents option" where
  "cent_contents ce i = map_option contents (slot (sets0 ce) i)"

text \<open>A record added: it is new in a set, or it lowers the time to live of the set and is not duplicated.\<close>

definition record_added :: "int \<Rightarrow> int \<Rightarrow> flags \<Rightarrow> byte list \<Rightarrow> set_contents option \<Rightarrow> set_contents" where
  "record_added ttl ts flags data s = (case s of
     None \<Rightarrow> (ttl, ts, flags, [data])
   | Some (t, s, f, rrs) \<Rightarrow> (min t ttl, s, f, if data \<in> set rrs then rrs else rrs @ [data]))"

lemma rr_search_eq:
  "fst (rr_search data rrs i rt) = (data \<in> set rrs)"
  "data \<notin> set rrs \<Longrightarrow> snd (rr_search data rrs i rt) = (if rrs = [] then rt else Some (i + length rrs - 1))"
  by (induction rrs arbitrary: i rt) auto

lemma rrs_added_end: "rrs_added (if rrs = [] then None else Some (length rrs - 1)) rr rrs = rrs @ [rr]"
  by (cases rrs) (auto simp: rrs_added_def)

lemma slot_update: "i < length ss \<Longrightarrow> slot (ss[i := s]) j = (if j = i then s else slot ss j)"
  by (auto simp: slot_def)

lemma pos_ok_contents: "pos_ok ce ss \<Longrightarrow> cent_contents ce i = map_option contents (slot ss i)"
  using pos_sets [of ce ss] by (auto simp: cent_contents_def sets0_def pos_ok_def pos_cent_def)

lemma pos_cent_ok: "pos_ok ce ss \<Longrightarrow> named ce \<Longrightarrow> cent_ok ce"
  by (auto simp: cent_ok_def)

text \<open>Replacing a set by one with the same records.\<close>

lemma put_head_ok:
  assumes ok: "pos_ok ce ss" and i: "i < length ss" "ss ! i = Some rs" and r: "rs_rrs rs' = rs_rrs rs"
  shows "\<exists>d. rrarr_put ce i (Some rs') = Some (ce\<lparr>ce_data := d\<rparr>) \<and> pos_ok (ce\<lparr>ce_data := d\<rparr>) (ss[i := Some rs']) \<and>
    cent_blocks (ce\<lparr>ce_data := d\<rparr>) = cent_blocks ce"
proof -
  obtain d where d: "rrarr_put ce i (Some rs') = Some (ce\<lparr>ce_data := d\<rparr>)" "pos_cent (ce\<lparr>ce_data := d\<rparr>) (ss[i := Some rs'])"
    "ce_cs ce = base_size ce + ext_size (ss[i := Some rs']) + sets_sum set_size (ss[i := Some rs']) + set_size rs - set_size rs'"
    "ce_num_rrs ce = sets_sum (\<lambda>_. 1) (ss[i := Some rs'])"
    using pos_ok_put [OF ok i(1), of "Some rs'"] i(2) by auto
  have s: "set_size rs' = set_size rs" "set_blocks rs' = set_blocks rs" using r by (simp_all add: set_size_def set_blocks_def)
  have "pos_ok (ce\<lparr>ce_data := d\<rparr>) (ss[i := Some rs'])" using d(2-4) s(1) by (simp add: pos_ok_def base_size_def)
  moreover have "cent_blocks (ce\<lparr>ce_data := d\<rparr>) = cent_blocks ce"
    using pos_blocks [OF d(2)] pos_blocks [of ce ss] ok i s(2) by (simp add: pos_ok_def sets_sum_update ext_blocks_def)
  ultimately show ?thesis using d(1) by blast
qed

definition rr_index :: "int \<Rightarrow> nat" where
  "rr_index type = rrlkuptab ! nat (type - T_MIN)"

definition cached_type :: "int \<Rightarrow> bool" where
  "cached_type type \<longleftrightarrow> 0 \<le> type - T_MIN \<and> type - T_MIN < T_NUM \<and> rr_index type < NRRTOT"

lemma add_cent_rr_eq:
  assumes ty: "cached_type type" and loc: "has_flag (ce_flags ce) DF_LOCAL \<longrightarrow> has_flag flags CF_LOCAL"
    and te: "RRARR_INDEX_TESTEXT ce (rr_index type) = Some s"
  shows "s = None \<Longrightarrow> add_cent_rr fails ce type ttl ts flags data c =
      do { ((ok, ce, _), c) \<leftarrow> add_cent_rr_int fails ce (rr_index type) ttl ts flags data None c; Some ((ok, ce), c) }"
    "s = Some rs \<Longrightarrow> rrarr_put ce (rr_index type) (Some (if ttl < rs_ttl rs then rs\<lparr>rs_ttl := ttl\<rparr> else rs)) = Some ce1 \<Longrightarrow>
      rr_search data (rs_rrs (if ttl < rs_ttl rs then rs\<lparr>rs_ttl := ttl\<rparr> else rs)) 0 None = (found, rt) \<Longrightarrow>
      add_cent_rr fails ce type ttl ts flags data c =
      (if found then Some ((True, ce1), c)
       else do { ((ok, ce, _), c) \<leftarrow> add_cent_rr_int fails ce1 (rr_index type) ttl ts flags data rt c; Some ((ok, ce), c) })"
proof -
  have g: "\<not> (has_flag (ce_flags ce) DF_LOCAL \<and> \<not> has_flag flags CF_LOCAL)" using loc by blast
  have g2: "\<not> \<not> (type - T_MIN \<ge> 0 \<and> type - T_MIN < T_NUM)" "\<not> \<not> rr_index type < NRRTOT" using ty by (simp_all add: cached_type_def)
  have unf: "add_cent_rr fails ce type ttl ts flags data c = do {
            (ce, found, rtail) \<leftarrow> (case s of
               None \<Rightarrow> Some (ce, False, None)
             | Some rs \<Rightarrow> do {
                 let rs = (if ttl < rs_ttl rs then rs\<lparr>rs_ttl := ttl\<rparr> else rs);
                 ce \<leftarrow> rrarr_put ce (rr_index type) (Some rs);
                 let (found, rtail) = rr_search data (rs_rrs rs) 0 None;
                 Some (ce, found, rtail)
               });
            if found then Some ((True, ce), c)
            else do {
              ((ok, ce, _), c) \<leftarrow> add_cent_rr_int fails ce (rr_index type) ttl ts flags data rtail c;
              Some ((ok, ce), c)
            }
          }"
    unfolding add_cent_rr_def Let_def rr_index_def [symmetric] if_not_P [OF g] if_not_P [OF g2(1)] if_not_P [OF g2(2)] te
      bind.bind_lunit ..
  show "s = None \<Longrightarrow> add_cent_rr fails ce type ttl ts flags data c =
      do { ((ok, ce, _), c) \<leftarrow> add_cent_rr_int fails ce (rr_index type) ttl ts flags data None c; Some ((ok, ce), c) }"
    unfolding unf by simp
  show "s = Some rs \<Longrightarrow> rrarr_put ce (rr_index type) (Some (if ttl < rs_ttl rs then rs\<lparr>rs_ttl := ttl\<rparr> else rs)) = Some ce1 \<Longrightarrow>
      rr_search data (rs_rrs (if ttl < rs_ttl rs then rs\<lparr>rs_ttl := ttl\<rparr> else rs)) 0 None = (found, rt) \<Longrightarrow>
      add_cent_rr fails ce type ttl ts flags data c =
      (if found then Some ((True, ce1), c)
       else do { ((ok, ce, _), c) \<leftarrow> add_cent_rr_int fails ce1 (rr_index type) ttl ts flags data rt c; Some ((ok, ce), c) })"
    unfolding unf Let_def by (simp only: option.case bind.bind_lunit prod.case)
qed

lemma add_cent_rr_ok:
  assumes ok: "cent_ok ce" and ty: "cached_type type" and loc: "has_flag (ce_flags ce) DF_LOCAL \<longrightarrow> has_flag flags CF_LOCAL"
    and rep: "rl_rep (dc_rrl c) xs" and l: "is_neg ce \<longrightarrow> set (cent_lents ce) \<subseteq> set xs"
  shows "\<exists>b ce' c' Lrem. add_cent_rr fails ce type ttl ts flags data c = Some ((b, ce'), c') \<and> cent_ok ce' \<and> same_head ce ce' \<and>
    (b \<longrightarrow> \<not> is_neg ce' \<and> cent_contents ce' =
      (cent_contents ce)(rr_index type \<mapsto> record_added ttl ts flags data (cent_contents ce (rr_index type)))) \<and>
    effect xs c (cent_blocks ce' - cent_blocks ce) Lrem c' \<and> Lrem = (if is_neg ce \<and> ce' \<noteq> ce then cent_lents ce else []) \<and>
    cent_lents ce' = (if is_neg ce \<and> ce' \<noteq> ce then [] else cent_lents ce) \<and> ((\<forall>n. \<not> fails n) \<longrightarrow> b)"
proof -
  let ?i = "rr_index type"
  have i: "?i < NRRTOT" "type - T_MIN \<ge> 0 \<and> type - T_MIN < T_NUM" using ty by (simp_all add: cached_type_def)
  have nm: "named ce" using ok by (simp add: cent_ok_def)
  have named: "named ce'" if "same_head ce ce'" for ce' using same_head_named [OF that] nm by simp
  show ?thesis
  proof (cases "slot (sets0 ce) ?i")
    case None
    have ts0: "RRARR_INDEX_TESTEXT ce ?i = Some None"
    proof (cases "is_neg ce")
      case False
      then show ?thesis using pos_testext [of ce "cent_sets ce" ?i] cent_ok_pos [OF ok False] i(1) None
        by (simp add: sets0_def pos_ok_def slot_def)
    qed (simp add: RRARR_INDEX_TESTEXT_def)
    obtain b ce' c' rt Lrem p where a: "add_cent_rr_int fails ce ?i ttl ts flags data None c = Some ((b, ce', rt), c')" "same_head ce ce'"
      "if b then pos_ok ce' ((room ?i (sets0 ce))[?i := Some (new_set p ttl ts flags\<lparr>rs_rrs := [data]\<rparr>)])
       else ce' = ce \<or> pos_ok ce' (sets0 ce) \<or> pos_ok ce' (room ?i (sets0 ce))"
      "effect xs c (cent_blocks ce' - cent_blocks ce) Lrem c'" "Lrem = (if is_neg ce \<and> ce' \<noteq> ce then cent_lents ce else [])"
      "(\<forall>n. \<not> fails n) \<longrightarrow> b" 
      using add_rr_new [where fails = fails and ttl = ttl and ts = ts and flags = flags and rr = data, OF ok i(1) None rep l]
      by (elim exE conjE) (rule that)
    have "add_cent_rr fails ce type ttl ts flags data c = Some ((b, ce'), c')"
      using add_cent_rr_eq(1) [OF ty loc ts0 refl, of fails ttl ts data c] a(1) by simp
    moreover have "cent_ok ce'" using a(3) ok pos_cent_ok named [OF a(2)] by (auto split: if_splits)
    moreover have "\<not> is_neg ce' \<and> cent_contents ce' = (cent_contents ce)(?i \<mapsto> record_added ttl ts flags data (cent_contents ce ?i))" if b
    proof -
      have P: "pos_ok ce' ((room ?i (sets0 ce))[?i := Some (new_set p ttl ts flags\<lparr>rs_rrs := [data]\<rparr>)])" using a(3) that by simp
      then have len: "length (room ?i (sets0 ce)) = NRRMU \<or> length (room ?i (sets0 ce)) = NRRTOT" by (simp add: pos_ok_def pos_cent_def)
      have "length (sets0 ce) = NRRMU \<or> length (sets0 ce) = NRRTOT"
        using cent_ok_pos [OF ok] by (auto simp: sets0_def pos_ok_def pos_cent_def)
      then have "?i < length (room ?i (sets0 ce))" using i(1) room_length by blast
      then have "cent_contents ce' j = ((cent_contents ce)(?i \<mapsto> record_added ttl ts flags data (cent_contents ce ?i))) j" for j
        using None unfolding pos_ok_contents [OF P] by (simp add: slot_update cent_contents_def record_added_def contents_def new_set_def)
      then show ?thesis using P by (simp add: fun_eq_iff pos_ok_def pos_cent_def)
    qed
    moreover have "cent_lents ce' = (if is_neg ce \<and> ce' \<noteq> ce then [] else cent_lents ce)"
    proof (cases "ce' = ce")
      case False
      have L0: "sets_lents (sets0 ce) = (if is_neg ce then [] else cent_lents ce)"
        using pos_lents [of ce "cent_sets ce"] cent_ok_pos [OF ok] by (auto simp: sets0_def pos_ok_def)
      obtain ss where ss: "pos_ok ce' ss" "sets_lents ss = sets_lents (sets0 ce)"
      proof (cases b)
        case True
        have "slot_lents (room ?i (sets0 ce) ! ?i) = []" if "?i < length (room ?i (sets0 ce))"
          using None that room_simps(1) [of ?i "sets0 ce" ?i] by (simp add: slot_def)
        then have "sets_lents ((room ?i (sets0 ce))[?i := Some (new_set p ttl ts flags\<lparr>rs_rrs := [data]\<rparr>)]) = sets_lents (sets0 ce)"
          by (cases "?i < length (room ?i (sets0 ce))") (auto simp: sets_lents_update list_update_beyond rs_lents_def new_set_def)
        then show ?thesis using a(3) True that by simp
      next
        case nb: False
        then show ?thesis using a(3) False that by auto
      qed
      then show ?thesis using L0 pos_lents [of ce' ss] False by (auto simp: pos_ok_def)
    qed simp
    ultimately show ?thesis using a(2,4-6) by blast
  next
    case (Some rs)
    then have pos: "\<not> is_neg ce" using slot_sets0 by fastforce
    define ss where "ss = sets0 ce"
    have P: "pos_ok ce ss" using cent_ok_pos [OF ok pos] pos by (simp add: ss_def sets0_def)
    have il: "?i < length ss" "ss ! ?i = Some rs" using Some by (simp_all add: ss_def slot_def split: if_splits)
    have pc: "pos_cent ce ss" using P by (simp add: pos_ok_def)
    have te: "RRARR_INDEX_TESTEXT ce ?i = Some (Some rs)" using pos_testext [OF pc i(1)] il by simp
    define rs1 where "rs1 = (if ttl < rs_ttl rs then rs\<lparr>rs_ttl := ttl\<rparr> else rs)"
    have rs1: "rs_rrs rs1 = rs_rrs rs" "contents rs1 = (min (rs_ttl rs) ttl, rs_ts rs, rs_flags rs, rs_rrs rs)"
      by (simp_all add: rs1_def contents_def)
    obtain d where d: "rrarr_put ce ?i (Some rs1) = Some (ce\<lparr>ce_data := d\<rparr>)" "pos_ok (ce\<lparr>ce_data := d\<rparr>) (ss[?i := Some rs1])"
      "cent_blocks (ce\<lparr>ce_data := d\<rparr>) = cent_blocks ce" using put_head_ok [OF P il rs1(1)] by blast
    define ce1 where "ce1 = ce\<lparr>ce_data := d\<rparr>"
    note d = d [folded ce1_def]
    have h1: "same_head ce ce1" by (simp add: ce1_def same_head_def)
    have n1: "\<not> is_neg ce1" using pos by (simp add: ce1_def is_neg_def)
    have c1: "cent_contents ce1 = (cent_contents ce)(?i \<mapsto> contents rs1)"
      unfolding fun_eq_iff pos_ok_contents [OF d(2)] using il(1) pos_ok_contents [OF P] by (simp add: slot_update)
    have sl1: "sets_lents (ss[?i := Some rs1]) = sets_lents ss"
      using sets_lents_update [of ss ?i "Some rs1"] il by (simp add: rs1_def rs_lents_def)
    have L1: "cent_lents ce1 = cent_lents ce" using pos_lents [of ce1 "ss[?i := Some rs1]"] d(2) pos_lents [OF pc] sl1 by (simp add: pos_ok_def)
    have ci: "cent_contents ce ?i = Some (rs_ttl rs, rs_ts rs, rs_flags rs, rs_rrs rs)" using Some by (simp add: cent_contents_def contents_def)
    obtain rt where s: "rr_search data (rs_rrs rs1) 0 None = (data \<in> set (rs_rrs rs), rt)"
      "data \<notin> set (rs_rrs rs) \<longrightarrow> rt = (if rs_rrs rs = [] then None else Some (length (rs_rrs rs) - 1))"
      using rr_search_eq [of data "rs_rrs rs" 0 None] rs1(1) by (cases "rr_search data (rs_rrs rs) 0 None") auto
    have unf: "add_cent_rr fails ce type ttl ts flags data c =
        (if data \<in> set (rs_rrs rs) then Some ((True, ce1), c)
         else do { ((ok, ce, _), c) \<leftarrow> add_cent_rr_int fails ce1 ?i ttl ts flags data rt c; Some ((ok, ce), c) })"
      using add_cent_rr_eq(2) [OF ty loc te refl d(1) [unfolded rs1_def] s(1) [unfolded rs1_def]] by simp
    show ?thesis
    proof (cases "data \<in> set (rs_rrs rs)")
      case True
      have "cent_contents ce1 = (cent_contents ce)(?i \<mapsto> record_added ttl ts flags data (cent_contents ce ?i))"
        using c1 rs1(2) ci True by (simp add: record_added_def)
      moreover have "effect xs c (cent_blocks ce1 - cent_blocks ce) [] c" using effect_refl [OF rep] d(3) by simp
      ultimately show ?thesis using unf True pos_cent_ok [OF d(2) named [OF h1]] h1 n1 pos L1
        by (intro exI [of _ True] exI [of _ ce1] exI [of _ c] exI [of _ "[]"]) simp
    next
      case False
      have rt: "rt = (if rs_rrs rs1 = [] then None else Some (length (rs_rrs rs1) - 1))" using s(2) False rs1(1) by simp
      then have k: "\<forall>k. rt = Some k \<longrightarrow> k < length (rs_rrs rs1)" by auto
      have sl: "slot (ss[?i := Some rs1]) ?i = Some rs1" using il(1) by (simp add: slot_update)
      obtain b ce' c' rt' where a: "add_cent_rr_int fails ce1 ?i ttl ts flags data rt c = Some ((b, ce', rt'), c')" "same_head ce1 ce'"
        "if b then pos_ok ce' (ss[?i := Some rs1, ?i := Some (rs1\<lparr>rs_rrs := rrs_added rt data (rs_rrs rs1)\<rparr>)]) \<and>
           rt' = Some (case rt of None \<Rightarrow> 0 | Some k \<Rightarrow> Suc k) else ce' = ce1"
        "frame c c'" "dc_rrl c' = dc_rrl c" "dc_live c' = dc_live c + cent_blocks ce' - cent_blocks ce1" "(\<forall>n. \<not> fails n) \<longrightarrow> b"
        
        using add_rr_there [where fails = fails and ttl = ttl and ts = ts and flags = flags and rr = data and c = c, OF d(2) i(1) sl k]
        by (elim exE conjE) (rule that)
      have add: "rrs_added rt data (rs_rrs rs1) = rs_rrs rs1 @ [data]" unfolding rt by (rule rrs_added_end)
      have h: "same_head ce ce'" using same_head_trans [OF h1 a(2)] .
      have "add_cent_rr fails ce type ttl ts flags data c = Some ((b, ce'), c')" using unf False a(1) by simp
      moreover have "cent_ok ce'" using a(3) pos_cent_ok [OF d(2) named [OF h1]] pos_cent_ok [OF _ named [OF h]] by (auto split: if_splits)
      moreover have "\<not> is_neg ce' \<and> cent_contents ce' = (cent_contents ce)(?i \<mapsto> record_added ttl ts flags data (cent_contents ce ?i))" if b
      proof -
        have P': "pos_ok ce' (ss[?i := Some (rs1\<lparr>rs_rrs := rs_rrs rs1 @ [data]\<rparr>)])" using a(3) that add by simp
        have "contents (rs1\<lparr>rs_rrs := rs_rrs rs1 @ [data]\<rparr>) = record_added ttl ts flags data (cent_contents ce ?i)"
          using rs1 ci False by (simp add: record_added_def contents_def)
        then have "cent_contents ce' = (cent_contents ce)(?i \<mapsto> record_added ttl ts flags data (cent_contents ce ?i))"
          unfolding fun_eq_iff pos_ok_contents [OF P'] using il(1) pos_ok_contents [OF P] by (simp add: slot_update)
        then show ?thesis using P' by (simp add: pos_ok_def pos_cent_def)
      qed
      moreover have "cent_lents ce' = cent_lents ce"
      proof (cases b)
        case True
        let ?s = "Some (rs1\<lparr>rs_rrs := rs_rrs rs1 @ [data]\<rparr>)"
        have P': "pos_ok ce' (ss[?i := ?s])" using a(3) True add by simp
        have "sets_lents (ss[?i := ?s]) = sets_lents ss"
          using sets_lents_update [of ss ?i ?s] il by (simp add: rs1_def rs_lents_def)
        then show ?thesis using pos_lents [of ce' "ss[?i := ?s]"] P' pos_lents [OF pc] by (simp add: pos_ok_def)
      qed (use a(3) L1 in simp)
      moreover have "effect xs c (0 + (cent_blocks ce' - cent_blocks ce)) [] c'"
        by (rule effect_live [OF effect_refl [OF rep] _ a(5,4)]) (simp add: a(6) d(3))
      ultimately show ?thesis using h a(7) pos by (intro exI [of _ b] exI [of _ ce'] exI [of _ c'] exI [of _ "[]"]) simp
    qed
  qed
qed

subsection \<open>A sequence of records\<close>

definition record_ok :: "flags \<Rightarrow> int \<times> int \<times> int \<times> flags \<times> byte list \<Rightarrow> bool" where
  "record_ok df r = (case r of (type, ttl, ts, flags, data) \<Rightarrow> cached_type type \<and> (has_flag df DF_LOCAL \<longrightarrow> has_flag flags CF_LOCAL))"

text \<open>The calls of \<open>add_cent_rr\<close> one after the other, up to the first that fails.\<close>

fun add_records ::
  "(nat \<Rightarrow> bool) \<Rightarrow> dns_cent \<Rightarrow> (int \<times> int \<times> int \<times> flags \<times> byte list) list \<Rightarrow> dcache \<Rightarrow> ((bool \<times> dns_cent) \<times> dcache) option" where
  "add_records fails ce [] c = Some ((True, ce), c)"
| "add_records fails ce ((type, ttl, ts, flags, data) # rs) c = do {
     ((ok, ce), c) \<leftarrow> add_cent_rr fails ce type ttl ts flags data c;
     if ok then add_records fails ce rs c else Some ((False, ce), c)
   }"

fun records_contents :: "(int \<times> int \<times> int \<times> flags \<times> byte list) list \<Rightarrow> (nat \<Rightarrow> set_contents option) \<Rightarrow> nat \<Rightarrow> set_contents option" where
  "records_contents [] m = m"
| "records_contents ((type, ttl, ts, flags, data) # rs) m =
     records_contents rs (m(rr_index type \<mapsto> record_added ttl ts flags data (m (rr_index type))))"

lemma add_records_ok:
  assumes "cent_ok ce" "list_all (record_ok (ce_flags ce)) rs" "rl_rep (dc_rrl c) xs" "cent_lents ce = []"
  shows "\<exists>b ce' c'. add_records fails ce rs c = Some ((b, ce'), c') \<and> cent_ok ce' \<and> cent_lents ce' = [] \<and> ce_qname ce' = ce_qname ce \<and>
    (b \<longrightarrow> cent_contents ce' = records_contents rs (cent_contents ce)) \<and> effect xs c (cent_blocks ce' - cent_blocks ce) [] c' \<and>
    ((\<forall>n. \<not> fails n) \<longrightarrow> b)"
  using assms
proof (induction rs arbitrary: ce c)
  case Nil
  then show ?case using effect_refl [OF Nil.prems(3)] by (intro exI [of _ True] exI [of _ ce] exI [of _ c]) simp
next
  case (Cons r rs)
  obtain type ttl ts flags data where r: "r = (type, ttl, ts, flags, data)" by (cases r)
  have ro: "cached_type type" "has_flag (ce_flags ce) DF_LOCAL \<longrightarrow> has_flag flags CF_LOCAL"
    using Cons.prems(2) by (simp_all add: r record_ok_def)
  have l: "is_neg ce \<longrightarrow> set (cent_lents ce) \<subseteq> set xs" using Cons.prems(4) by simp
  obtain b ce1 c1 Lrem where a: "add_cent_rr fails ce type ttl ts flags data c = Some ((b, ce1), c1)" "cent_ok ce1" "same_head ce ce1"
    "b \<longrightarrow> \<not> is_neg ce1 \<and> cent_contents ce1 = (cent_contents ce)(rr_index type \<mapsto> record_added ttl ts flags data (cent_contents ce (rr_index type)))"
    "effect xs c (cent_blocks ce1 - cent_blocks ce) Lrem c1" "Lrem = (if is_neg ce \<and> ce1 \<noteq> ce then cent_lents ce else [])"
    "cent_lents ce1 = (if is_neg ce \<and> ce1 \<noteq> ce then [] else cent_lents ce)" "(\<forall>n. \<not> fails n) \<longrightarrow> b"
    using add_cent_rr_ok [where fails = fails and ttl = ttl and ts = ts and data = data, OF Cons.prems(1) ro Cons.prems(3) l]
    by (elim exE conjE) (rule that)
  have e1: "effect xs c (cent_blocks ce1 - cent_blocks ce) [] c1" using a(5,6) Cons.prems(4) by (auto split: if_splits)
  have L1: "cent_lents ce1 = []" using a(7) Cons.prems(4) by simp
  show ?case
  proof (cases b)
    case False
    then show ?thesis using a(1-3,8) e1 L1 by (intro exI [of _ False] exI [of _ ce1] exI [of _ c1]) (simp add: r same_head_def)
  next
    case True
    have rep1: "rl_rep (dc_rrl c1) xs" using effect_rep [OF e1] by simp
    have fl: "list_all (record_ok (ce_flags ce1)) rs"
      using Cons.prems(2) a(3) by (auto simp: list_all_iff record_ok_def same_head_def)
    obtain b' ce' c' where R: "add_records fails ce1 rs c1 = Some ((b', ce'), c')" "cent_ok ce'" "cent_lents ce' = []" "ce_qname ce' = ce_qname ce1"
      "b' \<longrightarrow> cent_contents ce' = records_contents rs (cent_contents ce1)" "effect xs c1 (cent_blocks ce' - cent_blocks ce1) [] c'"
      "(\<forall>n. \<not> fails n) \<longrightarrow> b'" using Cons.IH [OF a(2) fl rep1 L1] by (elim exE conjE) (rule that)
    have "effect xs c (cent_blocks ce' - cent_blocks ce) [] c'"
      using effect_trans [OF e1, of "cent_blocks ce' - cent_blocks ce1" "[]" c'] R(6) by simp
    then show ?thesis using a(1,3,4) R(1-5,7) True by (intro exI [of _ b'] exI [of _ ce'] exI [of _ c']) (simp add: r same_head_def)
  qed
qed

lemma init_cent_ok:
  assumes ks: "name_ok ks" and rep: "rl_rep (dc_rrl c) xs"
  shows "\<exists>e c'. init_cent fails (enc_name ks @ r) ttl ts flags c = Some (e, c') \<and>
    (case e of None \<Rightarrow> (\<exists>n. fails n) \<and> effect xs c 0 [] c'
     | Some ce \<Rightarrow> cent_ok ce \<and> ce_qname ce = enc_name ks \<and> ce_flags ce = flags \<and> cent_lents ce = [] \<and> cent_contents ce = Map.empty \<and>
         effect xs c (cent_blocks ce) [] c')"
proof (cases rule: cache_malloc_cases [of fails c])
  case (none c1)
  have "effect xs c (0 + 0) [] c1" by (rule effect_live [OF effect_refl [OF rep]]) (use none in simp_all)
  then show ?thesis using none rhnlen_enc [OF name_ok_lab_len [OF ks]] by (auto simp: init_cent_def)
next
  case (some p c1)
  let ?ce = "\<lparr>ce_qname = enc_name ks, ce_cs = sizeof_dns_cent + int (length (enc_name ks)), ce_num_rrs = 0, ce_flags = flags,
    ce_data = (if has_flag flags DF_NEGATIVE then Neg None ttl ts else Rr (replicate NRRMU None) None), ce_c_ns = cundef, ce_c_soa = cundef\<rparr>"
  have i: "init_cent fails (enc_name ks @ r) ttl ts flags c = Some (Some ?ce, c1)"
    using some(1) rhnlen_enc [OF name_ok_lab_len [OF ks], of r] by (simp add: init_cent_def)
  have nm: "named ?ce" using ks by (auto simp: named_def)
  have b: "base_size ?ce = ce_cs ?ce" by (simp add: base_size_def)
  have n: "is_neg ?ce = has_flag flags DF_NEGATIVE" by (simp add: is_neg_def)
  have "cent_ok ?ce \<and> cent_lents ?ce = [] \<and> cent_contents ?ce = Map.empty \<and> cent_blocks ?ce = 1"
  proof (cases "is_neg ?ce")
    case True
    then have "neg_ok ?ce" using n b by (simp add: neg_ok_def)
    then show ?thesis using nm True n by (auto simp: cent_ok_def cent_lents_def cent_contents_def slot_sets0 cent_blocks_def)
  next
    case False
    have p: "pos_cent ?ce (replicate NRRMU None)" using False n by (simp add: pos_cent_def)
    then have po: "pos_ok ?ce (replicate NRRMU None)" using b by (simp add: pos_ok_def ext_size_def)
    have "cent_contents ?ce = Map.empty" unfolding fun_eq_iff pos_ok_contents [OF po] by (simp add: slot_def)
    then show ?thesis using pos_cent_ok [OF po nm] pos_lents [OF p] pos_blocks [OF p] by (simp add: ext_blocks_def)
  qed
  moreover have "effect xs c (0 + 1) [] c1" by (rule effect_live [OF effect_refl [OF rep]]) (use some in simp_all)
  ultimately show ?thesis using i by (intro exI [of _ "Some ?ce"] exI [of _ c1]) simp
qed

lemma copied_contents:
  assumes "copied_cent ce ce'" "cent_ok ce" "cent_ok ce'"
  shows "cent_contents ce' = cent_contents ce"
proof (cases "is_neg ce")
  case True
  then have "is_neg ce'" using assms(1) by (simp add: copied_cent_def is_neg_def)
  then show ?thesis using True by (simp add: cent_contents_def fun_eq_iff slot_sets0)
next
  case False
  then have n: "\<not> is_neg ce'" using assms(1) by (simp add: copied_cent_def is_neg_def)
  have c: "list_all2 copied (cent_sets ce) (cent_sets ce')" using assms(1) False by (simp add: copied_cent_def)
  have "map_option contents (slot (cent_sets ce') i) = map_option contents (slot (cent_sets ce) i)" for i
    using list_all2_lengthD [OF c] list_all2_nthD [OF c, of i] by (auto simp: slot_def copied_def contents_def split: option.splits)
  then show ?thesis using False n by (simp add: cent_contents_def fun_eq_iff sets0_def)
qed

text \<open>The time to live and time stamp of a negative entry.\<close>

definition cent_times :: "dns_cent \<Rightarrow> (int \<times> int) option" where
  "cent_times ce = (case ce_data ce of Neg _ t s \<Rightarrow> Some (t, s) | Rr _ _ \<Rightarrow> None)"

lemma copied_times:
  assumes "copied_cent ce ce'" "cent_ok ce" "cent_ok ce'"
  shows "cent_times ce' = cent_times ce"
proof (cases "is_neg ce")
  case True
  then obtain l t s where "ce_data ce = Neg l t s" using cent_ok_neg [OF assms(2)] by (auto simp: neg_ok_def)
  then show ?thesis using assms(1) True by (simp add: copied_cent_def cent_times_def)
next
  case False
  then have "\<not> is_neg ce'" using assms(1) by (simp add: copied_cent_def is_neg_def)
  then show ?thesis using cent_ok_pos [OF assms(2) False] cent_ok_pos [OF assms(3)] by (simp add: cent_times_def pos_ok_def pos_cent_def)
qed

text \<open>C39: An entry built from records has, for every type, the records in the order in which they were first
  added without duplicates, the smallest of their times to live and the time stamp and flags of the first; its
  size and its number of sets are exact.\<close>

theorem cache_entry_built:
  assumes "name_ok ks" "rl_rep (dc_rrl c) xs" "list_all (record_ok flags) rs"
  shows "\<exists>ce c1 ce' c2. init_cent (\<lambda>_. False) (enc_name ks @ r) ttl ts flags c = Some (Some ce, c1) \<and>
    add_records (\<lambda>_. False) ce rs c1 = Some ((True, ce'), c2) \<and> cent_ok ce' \<and> ce_qname ce' = enc_name ks \<and>
    cent_contents ce' = records_contents rs Map.empty"
proof -
  obtain e c1 where i: "init_cent (\<lambda>_. False) (enc_name ks @ r) ttl ts flags c = Some (e, c1)"
    "case e of None \<Rightarrow> (\<exists>n :: nat. False) \<and> effect xs c 0 [] c1
     | Some ce \<Rightarrow> cent_ok ce \<and> ce_qname ce = enc_name ks \<and> ce_flags ce = flags \<and> cent_lents ce = [] \<and> cent_contents ce = Map.empty \<and>
         effect xs c (cent_blocks ce) [] c1" using init_cent_ok [OF assms(1,2), of "\<lambda>_. False" r ttl ts flags] by blast
  then obtain ce where ce: "e = Some ce" "cent_ok ce" "ce_qname ce = enc_name ks" "ce_flags ce = flags" "cent_lents ce = []"
    "cent_contents ce = Map.empty" "effect xs c (cent_blocks ce) [] c1" by (cases e) auto
  have rep1: "rl_rep (dc_rrl c1) xs" using effect_rep [OF ce(7)] by simp
  have rs: "list_all (record_ok (ce_flags ce)) rs" using assms(3) ce(4) by simp
  show ?thesis using add_records_ok [OF ce(2) rs rep1 ce(5), of "\<lambda>_. False"] i(1) ce by auto
qed

definition records_ex :: "(int \<times> int \<times> int \<times> flags \<times> byte list) list" where
  "records_ex = [(T_A, 300, 1000, 0, [1, 2, 3, 4]), (T_A, 60, 1001, 0, [5, 6, 7, 8]), (T_A, 900, 1002, 0, [1, 2, 3, 4])]"

lemma records_ex_ok: "list_all (record_ok 0) records_ex"
  by (simp add: records_ex_def record_ok_def cached_type_def rr_index_def T_A_def T_MIN_def T_NUM_def rrlkuptab_def NRRTOT_def has_flag_def)

theorem cache_entry_built_witness:
  "\<exists>ce c1 ce' c2. init_cent (\<lambda>_. False) (enc_name [[97]] @ []) 0 0 0 dc_init = Some (Some ce, c1) \<and>
    add_records (\<lambda>_. False) ce records_ex c1 = Some ((True, ce'), c2) \<and> cent_ok ce' \<and> ce_qname ce' = enc_name [[97]] \<and>
    cent_contents ce' = records_contents records_ex Map.empty"
  by (rule cache_entry_built [where xs = "[]"])
    (simp_all add: name_ok_def dc_init_def rl_rep_empty records_ex_ok enc_name_def label_ok_def DNSNAMEBUFSIZE_def)

text \<open>Whenever memory runs out while an entry is built, the entry is well formed all the same, and freeing it
  gives back every block that was allocated and leaves the list of sets as it was.\<close>

theorem cache_entry_no_leak:
  assumes "name_ok ks" "rl_rep (dc_rrl c) xs" "list_all (record_ok flags) rs"
  shows "\<exists>e c1. init_cent fails (enc_name ks @ r) ttl ts flags c = Some (e, c1) \<and>
    (case e of None \<Rightarrow> dc_live c1 = dc_live c
     | Some ce \<Rightarrow> \<exists>b ce' c2 c3. add_records fails ce rs c1 = Some ((b, ce'), c2) \<and> cent_ok ce' \<and>
         free_cent ce' c2 = Some c3 \<and> dc_live c3 = dc_live c \<and> rl_rep (dc_rrl c3) xs)"
proof -
  obtain e c1 where i: "init_cent fails (enc_name ks @ r) ttl ts flags c = Some (e, c1)"
    "case e of None \<Rightarrow> (\<exists>n. fails n) \<and> effect xs c 0 [] c1
     | Some ce \<Rightarrow> cent_ok ce \<and> ce_qname ce = enc_name ks \<and> ce_flags ce = flags \<and> cent_lents ce = [] \<and> cent_contents ce = Map.empty \<and>
         effect xs c (cent_blocks ce) [] c1" using init_cent_ok [OF assms(1,2), of fails r ttl ts flags] by blast
  show ?thesis
  proof (cases e)
    case None
    then show ?thesis using i by (auto simp: effect_def)
  next
    case (Some ce)
    have ce: "cent_ok ce" "ce_flags ce = flags" "cent_lents ce = []" "effect xs c (cent_blocks ce) [] c1" using i(2) Some by simp_all
    have rep1: "rl_rep (dc_rrl c1) xs" using effect_rep [OF ce(4)] by simp
    have rs: "list_all (record_ok (ce_flags ce)) rs" using assms(3) ce(2) by simp
    obtain b ce' c2 where a: "add_records fails ce rs c1 = Some ((b, ce'), c2)" "cent_ok ce'" "cent_lents ce' = []"
      "effect xs c1 (cent_blocks ce' - cent_blocks ce) [] c2"
      using add_records_ok [OF ce(1) rs rep1 ce(3), of fails] by (elim exE conjE) (rule that)
    have rep2: "rl_rep (dc_rrl c2) xs" using effect_rep [OF a(4)] by simp
    obtain c3 where f: "free_cent ce' c2 = Some c3" "effect xs c2 (- cent_blocks ce') [] c3"
      using free_cent_ok [OF cent_ok_shaped [OF a(2)] rep2] a(3) by auto
    have "dc_live c3 = dc_live c" "rl_rep (dc_rrl c3) xs" using ce(4) a(4) f(2) by (simp_all add: effect_def)
    then show ?thesis using i(1) Some a(1,2) f(1)
      by (intro exI [of _ e] exI [of _ c1]) auto
  qed
qed

theorem cache_entry_no_leak_witness:
  "\<exists>e c1. init_cent (\<lambda>n. n = 2) (enc_name [[97]] @ []) 0 0 0 dc_init = Some (e, c1) \<and>
    (case e of None \<Rightarrow> dc_live c1 = dc_live dc_init
     | Some ce \<Rightarrow> \<exists>b ce' c2 c3. add_records (\<lambda>n. n = 2) ce records_ex c1 = Some ((b, ce'), c2) \<and> cent_ok ce' \<and>
         free_cent ce' c2 = Some c3 \<and> dc_live c3 = dc_live dc_init \<and> rl_rep (dc_rrl c3) [])"
  by (rule cache_entry_no_leak)
    (simp_all add: name_ok_def dc_init_def rl_rep_empty records_ex_ok enc_name_def label_ok_def DNSNAMEBUFSIZE_def)

text \<open>The copy of a well-formed entry has the same name, flags and sets with the same records and is linked
  nowhere; or memory ran out, and then everything allocated on the way was freed.\<close>

theorem cache_copy_exact:
  assumes "cent_ok ce" "rl_rep (dc_rrl c) xs"
  shows "\<exists>r c'. copy_cent fails ce c = Some (r, c') \<and> rl_rep (dc_rrl c') xs \<and>
    (case r of
       None \<Rightarrow> (\<exists>n. fails n) \<and> dc_live c' = dc_live c
     | Some (a, ce') \<Rightarrow> cent_ok ce' \<and> cent_lents ce' = [] \<and> ce_qname ce' = ce_qname ce \<and> ce_flags ce' = ce_flags ce \<and>
         ce_cs ce' = ce_cs ce \<and> ce_c_ns ce' = ce_c_ns ce \<and> ce_c_soa ce' = ce_c_soa ce \<and>
         cent_contents ce' = cent_contents ce \<and> cent_times ce' = cent_times ce \<and> dc_live c' = dc_live c + 1 + cent_blocks ce')"
proof -
  obtain r c' where k: "copy_cent fails ce c = Some (r, c')" "frame c c'"
    "case r of
       None \<Rightarrow> (\<exists>n. fails n) \<and> effect xs c 0 [] c'
     | Some (a, ce') \<Rightarrow> copied_cent ce ce' \<and> cent_ok ce' \<and> cent_lents ce' = [] \<and> dc_mallocs c = a \<and> a < dc_mallocs c' \<and>
         dc_rrl c' = dc_rrl c \<and> dc_live c' = dc_live c + 1 + cent_blocks ce'"
    using copy_cent_ok [OF assms, of fails] by (elim exE conjE) (rule that)
  show ?thesis
  proof (cases r)
    case None
    then show ?thesis using k by (auto simp: effect_def)
  next
    case (Some ac)
    then obtain a ce' where r: "r = Some (a, ce')" by (cases ac) simp
    have "cent_contents ce' = cent_contents ce" using k(3) r copied_contents [of ce ce'] assms(1) by simp
    moreover have "cent_times ce' = cent_times ce" using k(3) r copied_times [of ce ce'] assms(1) by simp
    ultimately show ?thesis using k r assms(2) by (auto simp: copied_cent_def)
  qed
qed

theorem cache_copy_exact_witness:
  "\<exists>ce. cent_ok ce \<and> (\<exists>r c'. copy_cent (\<lambda>_. False) ce dc_init = Some (r, c') \<and> rl_rep (dc_rrl c') [] \<and>
    (case r of
       None \<Rightarrow> (\<exists>n :: nat. False) \<and> dc_live c' = dc_live dc_init
     | Some (a, ce') \<Rightarrow> cent_ok ce' \<and> cent_lents ce' = [] \<and> ce_qname ce' = ce_qname ce \<and> ce_flags ce' = ce_flags ce \<and>
         ce_cs ce' = ce_cs ce \<and> ce_c_ns ce' = ce_c_ns ce \<and> ce_c_soa ce' = ce_c_soa ce \<and>
         cent_contents ce' = cent_contents ce \<and> cent_times ce' = cent_times ce \<and> dc_live c' = dc_live dc_init + 1 + cent_blocks ce'))"
proof -
  have "name_ok [[97]]" "rl_rep (dc_rrl dc_init) []"
    by (simp_all add: name_ok_def dc_init_def rl_rep_empty enc_name_def label_ok_def DNSNAMEBUFSIZE_def)
  then obtain ce where "cent_ok ce" using init_cent_ok [of "[[97]]" dc_init "[]" "\<lambda>_. False" "[]" 0 0 0] by (auto split: option.splits)
  then show ?thesis using cache_copy_exact [OF _ \<open>rl_rep (dc_rrl dc_init) []\<close>, of ce "\<lambda>_. False"] by blast
qed

end
