(* ===== verification/CacheStore.thy ===== *)
theory CacheStore
  imports CacheEntryOps
begin

text \<open>
  The operations on the whole cache, pdnsd/src/cache.c. An entry of the cache is at its address in \<open>dc_cents\<close>; an
  operation on it reads it there and stores it back. The operations are those of a thread that holds the
  lock, so they are atomic; where a function releases the lock on the way, the parameter \<open>others\<close> is what the other
  threads do to the cache in between. The time is read once for each operation.
\<close>

record cache_conf =
  perm_cache :: int
  max_ttl :: int
  min_ttl :: int
  conf_neg_ttl :: int

definition MCSZ :: int where "MCSZ = 10240"

definition cent_name :: "dcache \<Rightarrow> nat \<Rightarrow> byte list option" where
  "cent_name c a = map_option ce_qname (dc_cents c a)"

definition cache_find :: "dcache \<Rightarrow> byte list \<Rightarrow> (nat option \<times> dns_hash_loc) option" where
  "cache_find c name = dns_lookup (dc_table c) (cent_name c) name"

definition cent_store :: "nat \<Rightarrow> dns_cent \<Rightarrow> dcache \<Rightarrow> dcache" where
  "cent_store a ce c = c\<lparr>dc_cents := (dc_cents c)(a \<mapsto> ce)\<rparr>"

subsection \<open>Deleting entries\<close>

definition del_cent :: "nat \<Rightarrow> dcache \<Rightarrow> dcache option" where
  "del_cent a c = do {
     ce \<leftarrow> dc_cents c a;
     c \<leftarrow> free_cent ce (sub_cache_size (ce_cs ce) c);
     Some (cache_free (c\<lparr>dc_cents := (dc_cents c)(a := None), dc_ent_num := dc_ent_num c - 1\<rparr>))
   }"

text \<open>
  The table's entry is freed when there is one. That it is missing or belongs to another entry is logged only.
\<close>

definition del_cache_ent :: "nat \<Rightarrow> dns_hash_loc option \<Rightarrow> dcache \<Rightarrow> dcache option" where
  "del_cache_ent a loc c = do {
     (t, data) \<leftarrow> (case loc of
        Some l \<Rightarrow> map_option (\<lambda>(t, d). (t, Some d)) (del_dns_hash_ent (dc_table c) l)
      | None \<Rightarrow> do { ce \<leftarrow> dc_cents c a; del_dns_hash (dc_table c) (cent_name c) (ce_qname ce) });
     let c = c\<lparr>dc_table := t\<rparr>;
     del_cent a (if data = None then c else cache_free c)
   }"

definition del_cache :: "byte list \<Rightarrow> dcache \<Rightarrow> dcache option" where
  "del_cache name c = do {
     (t, data) \<leftarrow> del_dns_hash (dc_table c) (cent_name c) name;
     let c = c\<lparr>dc_table := t\<rparr>;
     case data of None \<Rightarrow> Some c | Some a \<Rightarrow> del_cent a (cache_free c)
   }"

subsection \<open>Purging\<close>

text \<open>Whether the set that \<open>c_ns\<close> or \<open>c_soa\<close> refers to is missing, empty or timed out.\<close>

definition ref_stale :: "int \<Rightarrow> dcache \<Rightarrow> dns_cent \<Rightarrow> nat \<Rightarrow> (dns_cent \<Rightarrow> rr_set option option) \<Rightarrow> bool option" where
  "ref_stale now c ce ref get = do {
     scnt \<leftarrow> rhnsegcnt (ce_qname ce);
     s \<leftarrow> (if ref = scnt then get ce
        else if ref < scnt then do {
          nm \<leftarrow> skipsegs (ce_qname ce) (scnt - ref);
          (r, _) \<leftarrow> cache_find c nm;
          case r of None \<Rightarrow> Some None | Some a \<Rightarrow> Option.bind (dc_cents c a) get
        }
        else Some None);
     Some (case s of None \<Rightarrow> True | Some rs \<Rightarrow> rs_rrs rs = [] \<or> (\<not> has_flag (rs_flags rs) CF_LOCAL \<and> timedout now rs))
   }"

text \<open>Whether an entry without sets may go.\<close>

definition cent_expired :: "int \<Rightarrow> dns_cent \<Rightarrow> bool option" where
  "cent_expired now ce =
     (if \<not> is_neg ce then Some True else if has_flag (ce_flags ce) DF_LOCAL then Some False else timedout_nxdom now ce)"

definition purge_cent :: "int \<Rightarrow> nat \<Rightarrow> bool \<Rightarrow> bool \<Rightarrow> dcache \<Rightarrow> (int \<times> dcache) option" where
  "purge_cent now a delete test c = do {
     ce \<leftarrow> dc_cents c a;
     (((npurge, numrrs), ce), c) \<leftarrow> purge_all_rrsets now ce test c;
     let c = cent_store a ce c;
     gone \<leftarrow> (if delete \<and> numrrs = 0 then cent_expired now ce else Some False);
     if gone then (if test then Some (- 1, c) else map_option (\<lambda>c. (- 1, c)) (del_cache_ent a None c))
     else if has_flag (ce_flags ce) DF_LOCAL then Some (npurge, c)
     else do {
       ns \<leftarrow> (if ce_c_ns ce \<noteq> cundef then ref_stale now c ce (ce_c_ns ce) getrrset_NS else Some False);
       let c = (if ns \<and> \<not> test then cent_store a (ce\<lparr>ce_c_ns := cundef\<rparr>) c else c);
       ce \<leftarrow> dc_cents c a;
       soa \<leftarrow> (if ce_c_soa ce \<noteq> cundef then ref_stale now c ce (ce_c_soa ce) getrrset_SOA else Some False);
       let c = (if soa \<and> \<not> test then cent_store a (ce\<lparr>ce_c_soa := cundef\<rparr>) c else c);
       Some (npurge + (if ns then 1 else 0) + (if soa then 1 else 0), c)
     }
   }"

text \<open>Whether \<open>purge_cache\<close> leaves the set or negative entry alone.\<close>

definition le_local :: "dcache \<Rightarrow> rr_lent \<Rightarrow> bool option" where
  "le_local c e = do {
     loc \<leftarrow> (if le_rrset e = None then Some False else map_option (\<lambda>rs. has_flag (rs_flags rs) CF_LOCAL) (le_deref c e));
     if loc then Some True else map_option (\<lambda>ce. has_flag (ce_flags ce) DF_LOCAL) (dc_cents c (le_cent e))
   }"

text \<open>The bodies of the two loops.\<close>

definition purge_old :: "int \<Rightarrow> rr_lent \<Rightarrow> dcache \<Rightarrow> dcache option" where
  "purge_old now e c = do {
     let a = le_cent e;
     ce \<leftarrow> dc_cents c a;
     (ce, c) \<leftarrow> (if le_rrset e = None then Some (ce, c)
        else map_option (\<lambda>((_, ce), c). (ce, c)) (purge_rrset now ce (nat (le_idx e)) False c));
     let c = cent_store a ce c;
     gone \<leftarrow> (if ce_num_rrs ce = 0 then cent_expired now ce else Some False);
     if gone then del_cache_ent a None c else Some c
   }"

definition purge_any :: "rr_lent \<Rightarrow> dcache \<Rightarrow> dcache option" where
  "purge_any e c = do {
     let a = le_cent e;
     ce \<leftarrow> dc_cents c a;
     (ce, c) \<leftarrow> (if le_rrset e = None then Some (ce, c)
        else map_option (\<lambda>((rv, ce), c). (ce, sub_cache_size rv c)) (del_cent_rrset_by_index ce (nat (le_idx e)) c));
     let c = cent_store a ce c;
     if ce_num_rrs ce = 0 then del_cache_ent a None c else Some c
   }"

partial_function (option) purge_pass ::
  "(rr_lent \<Rightarrow> dcache \<Rightarrow> dcache option) \<Rightarrow> int \<Rightarrow> bool \<Rightarrow> nat option \<Rightarrow> dcache \<Rightarrow> dcache option" where
  "purge_pass body sz lazy le c = (case le of
     None \<Rightarrow> Some c
   | Some x \<Rightarrow>
       if lazy \<and> \<not> dc_cache_size c > sz then Some c
       else do {
         e \<leftarrow> rl_ents (dc_rrl c) x;
         loc \<leftarrow> le_local c e;
         c \<leftarrow> (if loc then Some c else body e c);
         purge_pass body sz lazy (le_next e) c
       })"

definition purge_cache :: "int \<Rightarrow> int \<Rightarrow> bool \<Rightarrow> dcache \<Rightarrow> dcache option" where
  "purge_cache now sz lazy c = do {
     c \<leftarrow> purge_pass (purge_old now) sz lazy (rrset_l (dc_rrl c)) c;
     if dc_cache_size c \<le> sz then Some c
     else do {
       c \<leftarrow> (if \<not> dc_insert_sort c then map_option (\<lambda>c. c\<lparr>dc_insert_sort := True\<rparr>) (sort_rrl_cache c) else Some c);
       purge_pass purge_any sz True (rrset_l (dc_rrl c)) c
     }
   }"

subsection \<open>Conflicts between sets\<close>

definition RRCL_ALIAS :: "16 word" where "RRCL_ALIAS = 1"
definition RRCL_RECORD :: "16 word" where "RRCL_RECORD = 2"
definition RRCL_IDEM :: "16 word" where "RRCL_IDEM = 4"
definition RRCL_PTR :: "16 word" where "RRCL_PTR = 8"

text \<open>Class and excluded classes by index.\<close>

definition rr_info :: "(16 word \<times> 16 word) list" where
  "rr_info =
     (let a = (RRCL_ALIAS, RRCL_RECORD OR RRCL_PTR); r = (RRCL_RECORD, RRCL_ALIAS OR RRCL_PTR);
          i = (RRCL_IDEM, 0); p = (RRCL_PTR, RRCL_ALIAS OR RRCL_RECORD)
      in [r, i, a, i, p, i, i, r, i, i, i, i, i, i, r, r, i, r, r, r, r, r, r, p, i, i, i, r, r, i, r, r, r, r, r, r, r,
          i, i, i, i, i, i, i, i, i, i])"

definition rr_conflict :: "nat \<Rightarrow> nat \<Rightarrow> bool" where
  "rr_conflict idx i \<longleftrightarrow> fst (rr_info ! idx) AND snd (rr_info ! i) \<noteq> 0 \<or> snd (rr_info ! idx) AND fst (rr_info ! i) \<noteq> 0"

definition set_conflicts :: "nat \<Rightarrow> nat \<Rightarrow> rr_set option \<Rightarrow> bool" where
  "set_conflicts idx i s = (case s of None \<Rightarrow> False | Some rs \<Rightarrow> \<not> has_flag (rs_flags rs) CF_NEGATIVE \<and> rr_conflict idx i)"

text \<open>The first loop: false when a local set is in conflict, else the number of conflicts and the sum of their times to live.\<close>

fun cr_scan :: "int \<Rightarrow> nat \<Rightarrow> dns_cent \<Rightarrow> nat \<Rightarrow> nat \<Rightarrow> int \<times> int \<Rightarrow> (bool \<times> int \<times> int) option" where
  "cr_scan now idx ce i 0 (ncf, nttl) = Some (True, ncf, nttl)"
| "cr_scan now idx ce i (Suc n) (ncf, nttl) = do {
     s \<leftarrow> RRARR_INDEX ce i;
     case s of
       None \<Rightarrow> cr_scan now idx ce (i + 1) n (ncf, nttl)
     | Some rs \<Rightarrow>
         if \<not> set_conflicts idx i s then cr_scan now idx ce (i + 1) n (ncf, nttl)
         else if has_flag (rs_flags rs) CF_LOCAL then Some (False, ncf, nttl)
         else let rttl = rs_ttl rs + rs_ts rs - now
           in cr_scan now idx ce (i + 1) n (ncf + 1, if rttl > 0 then nttl + rttl else nttl)
   }"

fun cr_delete :: "nat \<Rightarrow> nat \<Rightarrow> nat \<Rightarrow> dns_cent \<Rightarrow> dcache \<Rightarrow> (dns_cent \<times> dcache) option" where
  "cr_delete idx i 0 ce c = Some (ce, c)"
| "cr_delete idx i (Suc n) ce c = do {
     s \<leftarrow> RRARR_INDEX ce i;
     (ce, c) \<leftarrow> (if set_conflicts idx i s then map_option (\<lambda>((_, ce), c). (ce, c)) (del_cent_rrset_by_index ce i c) else Some (ce, c));
     cr_delete idx (i + 1) n ce c
   }"

definition cr_check_add :: "int \<Rightarrow> dns_cent \<Rightarrow> nat \<Rightarrow> int \<Rightarrow> int \<Rightarrow> flags \<Rightarrow> dcache \<Rightarrow> ((bool \<times> dns_cent) \<times> dcache) option" where
  "cr_check_add now ce idx ttl ts flags c =
     (if has_flag flags CF_NEGATIVE then Some ((True, ce), c)
      else if idx \<ge> length rr_info then None
      else do {
        ilim \<leftarrow> RRARR_LEN ce;
        (ok, ncf, nttl) \<leftarrow> (if has_flag flags CF_LOCAL then Some (True, - 1, 0)
           else if has_flag (ce_flags ce) DF_LOCAL then Some (False, 0, 0)
           else cr_scan now idx ce 0 ilim (0, 0));
        if \<not> ok then Some ((False, ce), c)
        else if \<not> has_flag flags CF_LOCAL \<and> ncf = 0 then Some ((True, ce), c)
        else if has_flag flags CF_LOCAL \<or> ttl > nttl div ncf then do {
          (ce, c) \<leftarrow> cr_delete idx 0 ilim ce c;
          Some ((True, ce), c)
        }
        else Some ((False, ce), c)
      })"

subsection \<open>Times to live\<close>

definition clamp_ttl :: "cache_conf \<Rightarrow> bool \<Rightarrow> int \<Rightarrow> int" where
  "clamp_ttl cf neg ttl =
     (let min_ttl = (if neg \<and> conf_neg_ttl cf < min_ttl cf then conf_neg_ttl cf else min_ttl cf)
      in if ttl < min_ttl then min_ttl else if ttl > max_ttl cf then max_ttl cf else ttl)"

definition adjust_ttl :: "cache_conf \<Rightarrow> rr_set \<Rightarrow> rr_set" where
  "adjust_ttl cf rs =
     (if has_flag (rs_flags rs) CF_NOCACHE then rs\<lparr>rs_flags := clear_flag (rs_flags rs) CF_NOCACHE, rs_ttl := 0\<rparr>
      else rs\<lparr>rs_ttl := clamp_ttl cf (has_flag (rs_flags rs) CF_NEGATIVE) (rs_ttl rs)\<rparr>)"

definition adjust_dom_ttl :: "cache_conf \<Rightarrow> dns_cent \<Rightarrow> dns_cent option" where
  "adjust_dom_ttl cf ce = (case ce_data ce of
     Rr _ _ \<Rightarrow> None
   | Neg l ttl ts \<Rightarrow>
       if has_flag (ce_flags ce) DF_NOCACHE then Some (ce\<lparr>ce_flags := clear_flag (ce_flags ce) DF_NOCACHE, ce_data := Neg l 0 ts\<rparr>)
       else Some (ce\<lparr>ce_data := Neg l (clamp_ttl cf True ttl) ts\<rparr>))"

subsection \<open>Adding an entry\<close>

text \<open>The sets of a new entry are put into the list by age, \<open>n\<close> of them left from \<open>i\<close>.\<close>

fun link_sets :: "cache_conf \<Rightarrow> (nat \<Rightarrow> bool) \<Rightarrow> nat \<Rightarrow> nat \<Rightarrow> nat \<Rightarrow> dcache \<Rightarrow> (bool \<times> dcache) option" where
  "link_sets cf fails a i 0 c = Some (True, c)"
| "link_sets cf fails a i (Suc n) c = do {
     ce \<leftarrow> dc_cents c a;
     s \<leftarrow> RRARR_INDEX ce i;
     case s of
       None \<Rightarrow> link_sets cf fails a (i + 1) n c
     | Some rs \<Rightarrow> do {
         ce \<leftarrow> rrarr_put ce i (Some (adjust_ttl cf rs));
         (ok, c) \<leftarrow> insert_rrl fails (Some i) a (cent_store a ce c);
         if ok then link_sets cf fails a (i + 1) n c else Some (False, c)
       }
   }"

text \<open>The branch for a name that is not in the cache; the flag is false where memory is out.\<close>

definition add_new_cent :: "cache_conf \<Rightarrow> (nat \<Rightarrow> bool) \<Rightarrow> dns_cent \<Rightarrow> dns_hash_loc \<Rightarrow> dcache \<Rightarrow> (bool \<times> dcache) option" where
  "add_new_cent cf fails cent loc c = do {
     (r, c) \<leftarrow> copy_cent fails cent c;
     case r of
       None \<Rightarrow> Some (False, c)
     | Some (a, ce) \<Rightarrow> do {
         let c = cent_store a ce c;
         (ok, c) \<leftarrow> (if \<not> is_neg ce then do { ilim \<leftarrow> RRARR_LEN ce; link_sets cf fails a 0 ilim c }
            else do { ce \<leftarrow> adjust_dom_ttl cf ce; insert_rrl fails None a (cent_store a ce c) });
         (ok, c) \<leftarrow> (if \<not> ok then Some (False, c)
            else do {
              let (he, c) = cache_malloc fails c;
              (t, ok) \<leftarrow> add_dns_hash (dc_table c) he a loc;
              Some (ok, c\<lparr>dc_table := t\<rparr>)
            });
         ce \<leftarrow> dc_cents c a;
         if ok then Some (True, c\<lparr>dc_ent_num := dc_ent_num c + 1, dc_cache_size := dc_cache_size c + ce_cs ce\<rparr>)
         else do {
           c \<leftarrow> free_cent ce c;
           Some (False, cache_free (c\<lparr>dc_cents := (dc_cents c)(a := None)\<rparr>))
         }
       }
   }"

text \<open>Whether the set that is there takes precedence over a new one.\<close>

definition keeps_old :: "int \<Rightarrow> rr_set \<Rightarrow> rr_set option \<Rightarrow> bool" where
  "keeps_old now new old = (case old of
     None \<Rightarrow> False
   | Some old \<Rightarrow>
       \<not> has_flag (rs_flags new) CF_LOCAL \<and> has_flag (rs_flags old) CF_LOCAL \<or>
       has_flag (rs_flags new) CF_ADDITIONAL \<and>
         (\<not> has_flag (rs_flags old) CF_ADDITIONAL \<or> \<not> has_flag (rs_flags new) CF_ROOTSERV \<and> has_flag (rs_flags old) CF_ROOTSERV) \<and>
         \<not> timedout now old)"

fun add_rrs ::
  "(nat \<Rightarrow> bool) \<Rightarrow> dns_cent \<Rightarrow> nat \<Rightarrow> int \<Rightarrow> int \<Rightarrow> flags \<Rightarrow> byte list list \<Rightarrow> nat option \<Rightarrow> dcache \<Rightarrow>
   ((bool \<times> dns_cent) \<times> dcache) option" where
  "add_rrs fails ce i ttl ts flags [] rtail c = Some ((True, ce), c)"
| "add_rrs fails ce i ttl ts flags (rr # rrs) rtail c = do {
     ((ok, ce, rtail), c) \<leftarrow> add_cent_rr_int fails ce i ttl ts flags rr rtail c;
     if ok then add_rrs fails ce i ttl ts flags rrs rtail c else Some ((False, ce), c)
   }"

text \<open>One set of the new entry replaces that of the entry at \<open>a\<close>; false where memory is out.\<close>

definition replace_set :: "cache_conf \<Rightarrow> (nat \<Rightarrow> bool) \<Rightarrow> int \<Rightarrow> nat \<Rightarrow> nat \<Rightarrow> rr_set \<Rightarrow> dcache \<Rightarrow> (bool \<times> dcache) option" where
  "replace_set cf fails now a i new c = do {
     ce \<leftarrow> dc_cents c a;
     ((_, ce), c) \<leftarrow> del_cent_rrset_by_index ce i c;
     ((ok, ce), c) \<leftarrow> cr_check_add now ce i (rs_ttl new) (rs_ts new) (rs_flags new) c;
     let c = cent_store a ce c;
     if \<not> ok then Some (True, c)
     else do {
       ((ok, ce), c) \<leftarrow> add_cent_rrset_by_index fails ce i (rs_ttl new) (rs_ts new) (rs_flags new) c;
       if \<not> ok then Some (False, cent_store a ce c)
       else do {
         ((ok, ce), c) \<leftarrow> add_rrs fails ce i (rs_ttl new) (rs_ts new) (rs_flags new) (rs_rrs new) None c;
         (ok, c) \<leftarrow> (if \<not> ok then Some (False, cent_store a ce c)
            else do {
              s \<leftarrow> RRARR_INDEX ce i;
              rs \<leftarrow> s;
              ce \<leftarrow> rrarr_put ce i (Some (adjust_ttl cf rs));
              insert_rrl fails (Some i) a (cent_store a ce c)
            });
         if ok then Some (True, c)
         else do {
           ce \<leftarrow> dc_cents c a;
           ((_, ce), c) \<leftarrow> del_cent_rrset_by_index ce i c;
           Some (False, cent_store a ce c)
         }
       }
     }
   }"

fun merge_sets :: "cache_conf \<Rightarrow> (nat \<Rightarrow> bool) \<Rightarrow> int \<Rightarrow> dns_cent \<Rightarrow> nat \<Rightarrow> nat \<Rightarrow> nat \<Rightarrow> dcache \<Rightarrow> (bool \<times> dcache) option" where
  "merge_sets cf fails now cent a i 0 c = Some (True, c)"
| "merge_sets cf fails now cent a i (Suc n) c = do {
     s \<leftarrow> RRARR_INDEX cent i;
     case s of
       None \<Rightarrow> merge_sets cf fails now cent a (i + 1) n c
     | Some new \<Rightarrow> do {
         ce \<leftarrow> dc_cents c a;
         old \<leftarrow> RRARR_INDEX_TESTEXT ce i;
         if keeps_old now new old then merge_sets cf fails now cent a (i + 1) n c
         else do {
           (ok, c) \<leftarrow> replace_set cf fails now a i new c;
           if ok then merge_sets cf fails now cent a (i + 1) n c else Some (False, c)
         }
       }
   }"

definition min_ref :: "nat \<Rightarrow> nat \<Rightarrow> nat" where
  "min_ref new old = (if new \<noteq> cundef \<and> (old = cundef \<or> old < new) then new else old)"

text \<open>The branch for a name that is in the cache, at \<open>a\<close>.\<close>

definition merge_cent :: "cache_conf \<Rightarrow> (nat \<Rightarrow> bool) \<Rightarrow> int \<Rightarrow> dns_cent \<Rightarrow> nat \<Rightarrow> dcache \<Rightarrow> (bool \<times> dcache) option" where
  "merge_cent cf fails now cent a c = do {
     (_, c) \<leftarrow> purge_cent now a False False c;
     ce \<leftarrow> dc_cents c a;
     let c = sub_cache_size (ce_cs ce) c;
     ilim \<leftarrow> RRARR_LEN cent;
     (ok, c) \<leftarrow> merge_sets cf fails now cent a 0 ilim c;
     ce \<leftarrow> dc_cents c a;
     let ce = (if ok then ce\<lparr>ce_flags := ce_flags ce OR (ce_flags cent AND (DF_AUTH OR DF_WILD)),
                          ce_c_ns := min_ref (ce_c_ns cent) (ce_c_ns ce), ce_c_soa := min_ref (ce_c_soa cent) (ce_c_soa ce)\<rparr>
               else ce);
     Some (ok, (cent_store a ce c)\<lparr>dc_cache_size := dc_cache_size c + ce_cs ce\<rparr>)
   }"

text \<open>Whether one of the first \<open>n\<close> sets from \<open>i\<close> is local.\<close>

fun any_local :: "dns_cent \<Rightarrow> nat \<Rightarrow> nat \<Rightarrow> bool option" where
  "any_local ce i 0 = Some False"
| "any_local ce i (Suc n) = do {
     s \<leftarrow> RRARR_INDEX ce i;
     if (case s of None \<Rightarrow> False | Some rs \<Rightarrow> has_flag (rs_flags rs) CF_LOCAL) then Some True else any_local ce (i + 1) n
   }"

partial_function (option) add_cache ::
  "cache_conf \<Rightarrow> (nat \<Rightarrow> bool) \<Rightarrow> int \<Rightarrow> dns_cent \<Rightarrow> dcache \<Rightarrow> dcache option" where
  "add_cache cf fails now cent c = do {
     (r, loc) \<leftarrow> cache_find c (ce_qname cent);
     case r of
       None \<Rightarrow> do {
         (ok, c) \<leftarrow> (if ce_num_rrs cent = 0 \<and> \<not> is_neg cent then Some (True, c) else add_new_cent cf fails cent loc c);
         if ok then purge_cache now (perm_cache cf * 1024 + MCSZ) True c else Some c
       }
     | Some a \<Rightarrow>
         if is_neg cent then do {
           ce \<leftarrow> dc_cents c a;
           ilim \<leftarrow> RRARR_LEN ce;
           loc_rrs \<leftarrow> any_local ce 0 ilim;
           if loc_rrs then Some c
           else do { c \<leftarrow> del_cache_ent a (Some loc) c; add_cache cf fails now cent c }
         }
         else do {
           (ok, c) \<leftarrow> merge_cent cf fails now cent a c;
           if ok then purge_cache now (perm_cache cf * 1024 + MCSZ) True c else Some c
         }
   }"

subsection \<open>Changing entries\<close>

definition invalidate_set :: "rr_set \<Rightarrow> rr_set" where
  "invalidate_set rs = rs\<lparr>rs_ts := 0, rs_flags := clear_flag (rs_flags rs) CF_AUTH\<rparr>"

fun invalidate_sets :: "nat \<Rightarrow> nat \<Rightarrow> dns_cent \<Rightarrow> dns_cent option" where
  "invalidate_sets i 0 ce = Some ce"
| "invalidate_sets i (Suc n) ce = do {
     s \<leftarrow> RRARR_INDEX ce i;
     ce \<leftarrow> (case s of None \<Rightarrow> Some ce | Some rs \<Rightarrow> rrarr_put ce i (Some (invalidate_set rs)));
     invalidate_sets (i + 1) n ce
   }"

definition invalidate_record :: "byte list \<Rightarrow> dcache \<Rightarrow> dcache option" where
  "invalidate_record name c = do {
     (r, _) \<leftarrow> cache_find c name;
     case r of
       None \<Rightarrow> Some c
     | Some a \<Rightarrow> do {
         ce \<leftarrow> dc_cents c a;
         ce \<leftarrow> (if \<not> is_neg ce then do { ilim \<leftarrow> RRARR_LEN ce; invalidate_sets 0 ilim ce }
            else case ce_data ce of Neg l ttl _ \<Rightarrow> Some (ce\<lparr>ce_data := Neg l ttl 0\<rparr>) | Rr _ _ \<Rightarrow> None);
         Some (cent_store a (ce\<lparr>ce_flags := clear_flag (ce_flags ce) DF_AUTH\<rparr>) c)
       }
   }"

definition set_cent_flags :: "byte list \<Rightarrow> flags \<Rightarrow> dcache \<Rightarrow> (bool \<times> dcache) option" where
  "set_cent_flags name flags c = do {
     (r, _) \<leftarrow> cache_find c name;
     case r of
       None \<Rightarrow> Some (False, c)
     | Some a \<Rightarrow> do { ce \<leftarrow> dc_cents c a; Some (True, cent_store a (ce\<lparr>ce_flags := ce_flags ce OR flags\<rparr>) c) }
   }"

subsection \<open>Lookup\<close>

definition w_wild :: nat where "w_wild = 1"
definition w_neg :: nat where "w_neg = 2"
definition w_locnerr :: nat where "w_locnerr = 3"

text \<open>The loop over the domains above the name; the result is the domain that owns the name locally.\<close>

function local_owner_from :: "dcache \<Rightarrow> byte list \<Rightarrow> int \<Rightarrow> byte list option option" where
  "local_owner_from c nm type = (case byte_at nm 0 of
     None \<Rightarrow> None
   | Some lb \<Rightarrow>
       if lb = 0 then Some None
       else let nm = drop (unat lb + 1) nm in
         (case byte_at nm 0 of
            None \<Rightarrow> None
          | Some lb \<Rightarrow>
              if lb = 0 then Some None
              else (case cache_find c nm of
                  None \<Rightarrow> None
                | Some (None, _) \<Rightarrow> local_owner_from c nm type
                | Some (Some a, _) \<Rightarrow> do {
                    ce \<leftarrow> dc_cents c a;
                    if \<not> has_flag (ce_flags ce) DF_LOCAL then Some None
                    else (case have_rr ce type of
                        None \<Rightarrow> None
                      | Some True \<Rightarrow> Some (Some nm)
                      | Some False \<Rightarrow> local_owner_from c nm type)
                  })))"
  by pat_completeness auto
termination
  by (relation "measure (\<lambda>(c, nm, type). length nm)") (auto simp: byte_at_def split: if_splits)

definition getlocalowner :: "byte list \<Rightarrow> int \<Rightarrow> dcache \<Rightarrow> byte list option option" where
  "getlocalowner name type c = local_owner_from c name type"

text \<open>The search up the hierarchy of names in \<open>lookup_cache\<close>: the entry to use and the value of \<open>*wild\<close>.\<close>

function wild_from :: "dcache \<Rightarrow> byte list \<Rightarrow> (nat option \<times> nat) option" where
  "wild_from c nm = (case byte_at nm 0 of
     None \<Rightarrow> None
   | Some lb \<Rightarrow>
       if lb = 0 then Some (None, 0)
       else let nm = drop (unat lb + 1) nm in
         (case byte_at nm 0 of
            None \<Rightarrow> None
          | Some lb \<Rightarrow>
              if lb = 0 then Some (None, 0)
              else (case cache_find c nm of
                  None \<Rightarrow> None
                | Some (None, _) \<Rightarrow> wild_from c nm
                | Some (Some a, _) \<Rightarrow> do {
                    ce \<leftarrow> dc_cents c a;
                    if is_neg ce then Some (Some a, w_neg)
                    else if has_flag (ce_flags ce) DF_WILD then do {
                      (_, rest) \<leftarrow> rhncpy (replicate (DNSNAMEBUFSIZE - 2) 0) nm;
                      (r, _) \<leftarrow> cache_find c (1 # 42 # rest);
                      Some (r, if r = None then 0 else w_wild)
                    }
                    else if has_flag (ce_flags ce) DF_LOCAL then Some (Some a, w_locnerr)
                    else Some (None, 0)
                  })))"
  by pat_completeness auto
termination
  by (relation "measure (\<lambda>(c, nm). length nm)") (auto simp: byte_at_def split: if_splits)

declare local_owner_from.simps [simp del] wild_from.simps [simp del]

definition find_wild :: "dcache \<Rightarrow> byte list \<Rightarrow> bool \<Rightarrow> (nat option \<times> nat) option" where
  "find_wild c name wild = do {
     (r, _) \<leftarrow> cache_find c name;
     if wild \<and> r = None then wild_from c name else Some (r, 0)
   }"

text \<open>The result is the copy, its address and the value of \<open>*wild\<close>. Between the two parts the lock is free.\<close>

definition lookup_cache ::
  "(nat \<Rightarrow> bool) \<Rightarrow> (dcache \<Rightarrow> dcache) \<Rightarrow> int \<Rightarrow> byte list \<Rightarrow> bool \<Rightarrow> dcache \<Rightarrow> (((nat \<times> dns_cent) option \<times> nat) \<times> dcache) option" where
  "lookup_cache fails others now name wild c = do {
     (r, w) \<leftarrow> find_wild c name wild;
     case r of
       None \<Rightarrow> Some ((None, w), c)
     | Some a \<Rightarrow> do {
         (purge, c) \<leftarrow> purge_cent now a True True c;
         if purge = 0 then do {
           ce \<leftarrow> dc_cents c a;
           (cp, c) \<leftarrow> copy_cent fails ce c;
           Some ((cp, w), c)
         } else do {
           let c = others c;
           (r, w) \<leftarrow> find_wild c name wild;
           case r of
             None \<Rightarrow> Some ((None, w), c)
           | Some a \<Rightarrow> do {
               (purge, c) \<leftarrow> purge_cent now a True False c;
               if purge < 0 then Some ((None, w), c)
               else do {
                 ce \<leftarrow> dc_cents c a;
                 (cp, c) \<leftarrow> copy_cent fails ce c;
                 Some ((cp, w), c)
               }
             }
         }
       }
   }"

definition lookup_cache_local_rrset :: "(nat \<Rightarrow> bool) \<Rightarrow> byte list \<Rightarrow> int \<Rightarrow> dcache \<Rightarrow> (rr_set option \<times> dcache) option" where
  "lookup_cache_local_rrset fails name type c = do {
     (r, _) \<leftarrow> cache_find c name;
     case r of
       None \<Rightarrow> Some (None, c)
     | Some a \<Rightarrow> do {
         ce \<leftarrow> dc_cents c a;
         s \<leftarrow> getrrset ce type;
         case s of
           None \<Rightarrow> Some (None, c)
         | Some rs \<Rightarrow> if has_flag (rs_flags rs) CF_LOCAL then copy_rrset fails rs c else Some (None, c)
       }
   }"

subsection \<open>Emptying the cache\<close>

text \<open>The entries that the table gives up, each after the block of the table that pointed to it.\<close>

fun del_cents :: "nat list \<Rightarrow> dcache \<Rightarrow> dcache option" where
  "del_cents [] c = Some c"
| "del_cents (a # as) c = do { c \<leftarrow> del_cent a (cache_free c); del_cents as c }"

text \<open>The loop over the buckets; the lock is released after each but the last.\<close>

fun empty_buckets :: "(dcache \<Rightarrow> dcache) \<Rightarrow> slist list option \<Rightarrow> nat \<Rightarrow> nat \<Rightarrow> dcache \<Rightarrow> dcache option" where
  "empty_buckets others sla i 0 c = Some c"
| "empty_buckets others sla i (Suc n) c = do {
     (t, dels) \<leftarrow> (case sla of
        Some sla \<Rightarrow> free_dns_hash_selected (dc_table c) (cent_name c) i sla
      | None \<Rightarrow> free_dns_hash_bucket (dc_table c) i []);
     c \<leftarrow> del_cents dels (c\<lparr>dc_table := t\<rparr>);
     empty_buckets others sla (i + 1) n (if n = 0 then c else others c)
   }"

text \<open>\<open>locked\<close>: the lock was obtained in time.\<close>

definition empty_cache :: "(dcache \<Rightarrow> dcache) \<Rightarrow> bool \<Rightarrow> slist list option \<Rightarrow> dcache \<Rightarrow> (bool \<times> dcache) option" where
  "empty_cache others locked sla c =
     (if \<not> locked then Some (False, c)
      else map_option (\<lambda>c. (True, c)) (empty_buckets others sla 0 HASH_NUM_BUCKETS c))"

definition destroy_cache :: "bool \<Rightarrow> dcache \<Rightarrow> dcache option" where
  "destroy_cache locked c =
     (if \<not> locked then Some c
      else do {
        (t, dels) \<leftarrow> free_dns_hash (dc_table c);
        del_cents dels (c\<lparr>dc_table := t\<rparr>)
      })"

end
