(* ===== verification/CacheStoreInv.thy ===== *)
theory CacheStoreInv
  imports CacheStore CacheEntryBuild DnsHashFree
begin

text \<open>
  The invariant of the cache: the list by age, the table of names and the entries agree with each other, and the
  counters \<open>cache_size\<close>, \<open>ent_num\<close> and the number of allocated blocks are those of what is there.
\<close>

subsection \<open>Sums over the entries\<close>

definition tot :: "(dns_cent \<Rightarrow> int) \<Rightarrow> (nat \<Rightarrow> dns_cent option) \<Rightarrow> int" where
  "tot f C = (\<Sum>a \<in> dom C. f (the (C a)))"

lemma tot_empty [simp]: "tot f Map.empty = 0"
  by (simp add: tot_def)

lemma tot_new:
  assumes "finite (dom C)" "C a = None"
  shows "tot f (C(a \<mapsto> ce)) = tot f C + f ce"
proof -
  have a: "a \<notin> dom C" using assms(2) by auto
  have d: "dom (C(a \<mapsto> ce)) = insert a (dom C)" by simp
  have "(\<Sum>x \<in> dom C. f (the ((C(a \<mapsto> ce)) x))) = (\<Sum>x \<in> dom C. f (the (C x)))" by (rule sum.cong) (use a in auto)
  then show ?thesis unfolding tot_def d using assms(1) a by (simp only: sum.insert [OF assms(1) a]) simp
qed

lemma tot_del:
  assumes "finite (dom C)" "C a = Some ce"
  shows "tot f (C(a := None)) = tot f C - f ce"
proof -
  have "(C(a := None))(a \<mapsto> ce) = C" using assms(2) by auto
  moreover have "finite (dom (C(a := None)))" using assms(1) by simp
  ultimately show ?thesis using tot_new [of "C(a := None)" a f ce] by simp
qed

lemma tot_put:
  assumes "finite (dom C)" "C a = Some ce"
  shows "tot f (C(a \<mapsto> ce')) = tot f C - f ce + f ce'"
proof -
  have "finite (dom (C(a := None)))" using assms(1) by simp
  then show ?thesis using tot_new [of "C(a := None)" a f ce'] tot_del [OF assms, of f] by simp
qed

subsection \<open>The table\<close>

lemma hash_repE:
  assumes "hash_rep qn h m"
  obtains T where "hash_ok h qn T" "m = table_map T" "\<forall>x \<in> set (concat T). m (it_key x) = Some (it_data x)"
proof -
  obtain T where T: "hash_ok h qn T" "m = table_map T" using assms unfolding hash_rep_def by blast
  have d: "distinct (map fst (map (\<lambda>x. (it_key x, it_data x)) (concat T)))" using T(1) by (simp add: hash_ok_def comp_def del: set_concat)
  show ?thesis
  proof (rule that [OF T], rule ballI)
    fix x assume "x \<in> set (concat T)"
    then have "(it_key x, it_data x) \<in> set (map (\<lambda>x. (it_key x, it_data x)) (concat T))" by (simp del: set_concat)
    then show "m (it_key x) = Some (it_data x)" unfolding T(2) table_map_def by (rule map_of_is_SomeI [OF d])
  qed
qed

lemma hash_rep_cong:
  assumes "hash_rep qn h m" "\<And>a. a \<in> ran m \<Longrightarrow> qn' a = qn a"
  shows "hash_rep qn' h m"
proof -
  obtain T where T: "hash_ok h qn T" "m = table_map T" "\<forall>x \<in> set (concat T). m (it_key x) = Some (it_data x)"
    by (rule hash_repE [OF assms(1)])
  have "item_ok qn' i x" if "i < length T" "x \<in> set (T ! i)" "item_ok qn i x" for i x
  proof -
    have "x \<in> set (concat T)" unfolding set_bucket using that(1,2) by blast
    then have "m (it_key x) = Some (it_data x)" using T(3) by blast
    then have "it_data x \<in> ran m" by (rule ranI)
    then show ?thesis using assms(2) that(3) by (simp add: item_ok_def)
  qed
  then have "hash_ok h qn' T" using T(1) by (simp add: hash_ok_def)
  then show ?thesis unfolding hash_rep_def T(2) by blast
qed

lemma hash_rep_card:
  assumes "hash_rep qn h m"
  shows "finite (dom m)" "finite (ran m)"
proof -
  obtain T where T: "m = table_map T" by (rule hash_repE [OF assms])
  show "finite (dom m)" unfolding T dom_table_map by simp
  then show "finite (ran m)" by (rule finite_ran)
qed

text \<open>The name of the entry found.\<close>

lemma hash_rep_name:
  assumes "hash_rep qn h m" "m k = Some a"
  shows "\<exists>ks. list_all lab_len ks \<and> qn a = Some (enc_name ks) \<and> map lower ks = k"
proof -
  obtain T where T: "hash_ok h qn T" "m = table_map T" by (rule hash_repE [OF assms(1)])
  have "(k, a) \<in> set (map (\<lambda>x. (it_key x, it_data x)) (concat T))"
    using assms(2) unfolding T(2) table_map_def by (rule map_of_SomeD)
  then obtain x where x: "x \<in> set (concat T)" "it_key x = k" "it_data x = a" by (auto simp del: set_concat)
  then obtain i where "i < length T" "x \<in> set (T ! i)" unfolding set_bucket by blast
  then have "item_ok qn i x" using T(1) by (simp add: hash_ok_def)
  then show ?thesis unfolding item_ok_def x(3) using x(2) by blast
qed

lemma enc_name_inj: "list_all lab_len ks \<Longrightarrow> list_all lab_len ks' \<Longrightarrow> enc_name ks = enc_name ks' \<Longrightarrow> ks = ks'"
proof (induction ks arbitrary: ks')
  case Nil
  then show ?case by (cases ks') (auto simp: lab_len_byte)
next
  case (Cons k ks)
  obtain k' ks2 where k': "ks' = k' # ks2" using Cons.prems by (cases ks') (auto simp: lab_len_byte)
  have l: "length k = unat (word_of_nat (length k) :: byte)" "length k' = unat (word_of_nat (length k') :: byte)"
    using Cons.prems(1,2) k' by (simp_all add: lab_len_byte)
  have "(word_of_nat (length k) :: byte) = word_of_nat (length k')" "k @ enc_name ks = k' @ enc_name ks2" using Cons.prems(3) k' by simp_all
  moreover from this(1) l have "length k = length k'" by metis
  ultimately show ?case using Cons.IH [of ks2] Cons.prems(1,2) k' by simp
qed

lemma hash_rep_lookup:
  assumes "hash_rep qn h m" "list_all lab_len ks"
  shows "\<exists>loc. dns_lookup h qn (enc_name ks @ r) = Some (m (map lower ks), loc)"
proof -
  obtain T where T: "hash_ok h qn T" "m = table_map T" by (rule hash_repE [OF assms(1)])
  from dns_lookup_ok [OF T(1) assms(2), of r] show ?thesis unfolding T(2) by blast
qed

lemma hash_rep_del:
  assumes "hash_rep qn h m" "list_all lab_len ks"
  shows "\<exists>h'. del_dns_hash h qn (enc_name ks @ r) = Some (h', m (map lower ks)) \<and> hash_rep qn h' (m(map lower ks := None))"
  using assms del_dns_hash_ok [of h qn _ ks r] unfolding hash_rep_def by metis

lemma hash_rep_del_ent:
  assumes "hash_rep qn h m" "list_all lab_len ks" "dns_lookup h qn (enc_name ks @ r) = Some (Some d, loc)"
  shows "\<exists>h'. del_dns_hash_ent h loc = Some (h', d) \<and> hash_rep qn h' (m(map lower ks := None))"
  using assms del_dns_hash_ent_ok [of h qn _ ks r d loc] unfolding hash_rep_def by metis

text \<open>The blocks of the table.\<close>

lemma slot_write_dom: "slot_write h s p = Some h' \<Longrightarrow> dom (hash_ents h') = dom (hash_ents h)"
  by (auto simp: slot_write_def split: hash_slot.splits if_splits)

lemma ent_free_dom: "ent_free h a = Some h' \<Longrightarrow> dom (hash_ents h') \<subseteq> dom (hash_ents h)"
  by (auto simp: ent_free_def split: if_splits)

lemma del_dns_hash_dom: "del_dns_hash h qn key = Some (h', r) \<Longrightarrow> dom (hash_ents h') \<subseteq> dom (hash_ents h)"
  unfolding del_dns_hash_def
  by (auto split: option.splits Option.bind_splits prod.splits dest!: ent_free_dom slot_write_dom simp del: dom_fun_upd) blast+

lemma del_dns_hash_ent_dom: "del_dns_hash_ent h loc = Some (h', r) \<Longrightarrow> dom (hash_ents h') \<subseteq> dom (hash_ents h)"
  unfolding del_dns_hash_ent_def
  by (auto split: option.splits Option.bind_splits prod.splits dest!: ent_free_dom slot_write_dom simp del: dom_fun_upd) blast+

lemma add_dns_hash_dom:
  assumes "add_dns_hash h (Some he) d loc = Some (h', r)"
  shows "dom (hash_ents h') = insert he (dom (hash_ents h))"
proof -
  obtain nx where "slot_write (h\<lparr>hash_ents := (hash_ents h)(he \<mapsto> \<lparr>he_next = nx, he_rhash = snd loc, he_data = d\<rparr>)\<rparr>)
      (fst loc) (Some he) = Some h'"
    using assms unfolding add_dns_hash_def by (auto split: Option.bind_splits)
  from slot_write_dom [OF this] show ?thesis by simp
qed

subsection \<open>The links between entries and the list\<close>

definition lent_item :: "nat option \<Rightarrow> nat \<Rightarrow> int \<Rightarrow> rr_lent" where
  "lent_item p a i = \<lparr>le_next = None, le_prev = None, le_rrset = p, le_cent = a, le_idx = i\<rparr>"

lemma lent_item_simps [simp]: "le_rrset (lent_item p a i) = p" "le_cent (lent_item p a i) = a" "le_idx (lent_item p a i) = i"
  "lent_item p a i = lent_item q b j \<longleftrightarrow> p = q \<and> a = b \<and> i = j"
  by (auto simp: lent_item_def)

definition link_at :: "dns_cent \<Rightarrow> nat \<Rightarrow> nat \<Rightarrow> rr_lent \<Rightarrow> bool" where
  "link_at ce a le e \<longleftrightarrow> (is_neg ce \<and> neg_lent (ce_data ce) = Some le \<and> e = lent_item None a (- 1)) \<or>
     (\<exists>i rs. slot (sets0 ce) i = Some rs \<and> rs_lent rs = Some le \<and> e = lent_item (Some (rs_addr rs)) a (int i))"

lemma link_pos: "pos_ok ce ss \<Longrightarrow> link_at ce a le e \<longleftrightarrow>
    (\<exists>i rs. slot ss i = Some rs \<and> rs_lent rs = Some le \<and> e = lent_item (Some (rs_addr rs)) a (int i))"
  using pos_sets [of ce ss] by (simp add: link_at_def sets0_def pos_ok_def pos_cent_def)

lemma link_neg: "is_neg ce \<Longrightarrow> link_at ce a le e \<longleftrightarrow> neg_lent (ce_data ce) = Some le \<and> e = lent_item None a (- 1)"
  by (simp add: link_at_def slot_sets0)

lemma slot_mem: "slot ss i = Some rs \<Longrightarrow> Some rs \<in> set ss"
  by (metis slot_def nth_mem option.distinct(1))

lemma mem_sets_lents: "le \<in> set (sets_lents ss) \<longleftrightarrow> (\<exists>i rs. slot ss i = Some rs \<and> rs_lent rs = Some le)"
proof
  assume "le \<in> set (sets_lents ss)"
  then obtain rs where "Some rs \<in> set ss" "rs_lent rs = Some le"
    by (auto simp: sets_lents_def rs_lents_def split: option.splits)
  then show "\<exists>i rs. slot ss i = Some rs \<and> rs_lent rs = Some le" by (auto simp: in_set_conv_nth slot_def)
next
  assume "\<exists>i rs. slot ss i = Some rs \<and> rs_lent rs = Some le"
  then show "le \<in> set (sets_lents ss)" using slot_mem by (force simp: sets_lents_def rs_lents_def)
qed

lemma cent_lents_neg: "cent_ok ce \<Longrightarrow> is_neg ce \<Longrightarrow> cent_lents ce = (case neg_lent (ce_data ce) of None \<Rightarrow> [] | Some le \<Rightarrow> [le])"
  using cent_ok_neg [of ce] by (auto simp: neg_ok_def cent_lents_def)

lemma mem_cent_lents:
  assumes "cent_ok ce"
  shows "le \<in> set (cent_lents ce) \<longleftrightarrow> (\<exists>e. link_at ce a le e)"
proof (cases "is_neg ce")
  case True
  then show ?thesis using cent_lents_neg [OF assms True] by (auto simp: link_neg split: option.splits)
next
  case False
  have P: "pos_ok ce (cent_sets ce)" using cent_ok_pos [OF assms False] .
  then have L: "cent_lents ce = sets_lents (cent_sets ce)" using pos_lents [of ce "cent_sets ce"] by (simp add: pos_ok_def)
  show ?thesis unfolding L link_pos [OF P] mem_sets_lents by blast
qed

lemma link_cent: "link_at ce a le e \<Longrightarrow> le_cent e = a"
  by (auto simp: link_at_def)

text \<open>Links that are different for different sets.\<close>

definition sets_inj :: "rr_set option list \<Rightarrow> bool" where
  "sets_inj ss \<longleftrightarrow> (\<forall>i j rs rs' le. slot ss i = Some rs \<longrightarrow> slot ss j = Some rs' \<longrightarrow> rs_lent rs = Some le \<longrightarrow> rs_lent rs' = Some le \<longrightarrow> i = j)"

lemma sets_inj_distinct: "sets_inj ss \<Longrightarrow> distinct (sets_lents ss)"
proof (induction ss)
  case (Cons s ss)
  have sl: "slot (s # ss) (Suc i) = slot ss i" "slot (s # ss) 0 = s" for i by (simp_all add: slot_def)
  have "sets_inj ss" unfolding sets_inj_def
  proof (intro allI impI)
    fix i j rs rs' le
    assume "slot ss i = Some rs" "slot ss j = Some rs'" "rs_lent rs = Some le" "rs_lent rs' = Some le"
    then have "Suc i = Suc j" using Cons.prems unfolding sets_inj_def by (metis sl(1))
    then show "i = j" by simp
  qed
  then have d: "distinct (sets_lents ss)" by (rule Cons.IH)
  show ?case
  proof (cases s)
    case (Some rs)
    have "le \<notin> set (sets_lents ss)" if "rs_lent rs = Some le" for le
    proof
      assume "le \<in> set (sets_lents ss)"
      then obtain j rs' where "slot ss j = Some rs'" "rs_lent rs' = Some le" using mem_sets_lents by blast
      then have "0 = Suc j" using Cons.prems that Some unfolding sets_inj_def by (metis sl)
      then show False by simp
    qed
    then show ?thesis using d Some by (simp add: rs_lents_def split: option.splits)
  qed (use d in simp)
qed simp

definition links_ok :: "dcache \<Rightarrow> bool" where
  "links_ok c \<longleftrightarrow> (\<forall>le e. items (rl_ents (dc_rrl c)) le = Some e \<longleftrightarrow> (\<exists>a ce. dc_cents c a = Some ce \<and> link_at ce a le e))"

lemma links_inj:
  assumes "links_ok c" "dc_cents c a = Some ce" "link_at ce a le e" "dc_cents c b = Some ce'" "link_at ce' b le e'"
  shows "e' = e" "b = a"
proof -
  have "items (rl_ents (dc_rrl c)) le = Some e" "items (rl_ents (dc_rrl c)) le = Some e'" using assms unfolding links_ok_def by blast+
  then show e: "e' = e" by simp
  then show "b = a" using link_cent assms(3,5) by metis
qed

lemma links_sets_inj:
  assumes "links_ok c" "dc_cents c a = Some ce"
  shows "sets_inj (sets0 ce)"
  unfolding sets_inj_def
proof (intro allI impI)
  fix i j rs rs' le
  assume s: "slot (sets0 ce) i = Some rs" "slot (sets0 ce) j = Some rs'" "rs_lent rs = Some le" "rs_lent rs' = Some le"
  then have "link_at ce a le (lent_item (Some (rs_addr rs)) a (int i))" "link_at ce a le (lent_item (Some (rs_addr rs')) a (int j))"
    by (auto simp: link_at_def)
  from links_inj(1) [OF assms this(1) assms(2) this(2)] show "i = j" by simp
qed

lemma links_distinct:
  assumes "links_ok c" "dc_cents c a = Some ce" "cent_ok ce"
  shows "distinct (cent_lents ce)"
proof (cases "is_neg ce")
  case True
  then show ?thesis using cent_lents_neg [OF assms(3) True] by (simp split: option.splits)
next
  case False
  have "pos_ok ce (cent_sets ce)" using cent_ok_pos [OF assms(3) False] .
  then show ?thesis using pos_lents [of ce "cent_sets ce"] sets_inj_distinct [of "cent_sets ce"] links_sets_inj [OF assms(1,2)] False
    by (simp add: pos_ok_def sets0_def)
qed

lemma links_items:
  assumes "links_ok c" "rl_rep (dc_rrl c) xs" "dc_cents c a = Some ce" "link_at ce a le e"
  shows "le \<in> set xs" "items (rl_ents (dc_rrl c)) le = Some e"
proof -
  show i: "items (rl_ents (dc_rrl c)) le = Some e" using assms unfolding links_ok_def by blast
  then have "le \<in> dom (rl_ents (dc_rrl c))" by (auto simp: items_def)
  then show "le \<in> set xs" using rl_repD(5) [OF assms(2)] by simp
qed

lemma links_subset:
  assumes "links_ok c" "rl_rep (dc_rrl c) xs" "dc_cents c a = Some ce" "cent_ok ce"
  shows "set (cent_lents ce) \<subseteq> set xs"
  using links_items(1) [OF assms(1-3)] mem_cent_lents [OF assms(4), of _ a] by blast

subsection \<open>The invariant\<close>

definition fresh_ok :: "dcache \<Rightarrow> bool" where
  "fresh_ok c \<longleftrightarrow> dom (rl_ents (dc_rrl c)) \<union> dom (dc_cents c) \<union> dom (hash_ents (dc_table c)) \<subseteq> {..< dc_mallocs c}"

lemma fresh_mono:
  assumes "fresh_ok c" "dc_mallocs c \<le> dc_mallocs c'"
    and "dom (rl_ents (dc_rrl c')) \<subseteq> dom (rl_ents (dc_rrl c)) \<union> {dc_mallocs c ..< dc_mallocs c'}"
      "dom (dc_cents c') \<subseteq> dom (dc_cents c) \<union> {dc_mallocs c ..< dc_mallocs c'}"
      "dom (hash_ents (dc_table c')) \<subseteq> dom (hash_ents (dc_table c)) \<union> {dc_mallocs c ..< dc_mallocs c'}"
  shows "fresh_ok c'"
proof -
  have "{..< dc_mallocs c} \<union> {dc_mallocs c ..< dc_mallocs c'} = {..< dc_mallocs c'}" using assms(2) by (rule ivl_disj_un_one(2))
  then show ?thesis using assms(1,3-) unfolding fresh_ok_def by blast
qed

text \<open>
  The list \<open>xs\<close> of addresses by age, the map \<open>m\<close> from names to entries, the entries \<open>P\<close> that are not in the table,
  what is missing in \<open>cache_size\<close>, and the blocks that do not belong to the cache.
\<close>

definition cache_inv :: "nat list \<Rightarrow> (byte list list \<Rightarrow> nat option) \<Rightarrow> nat set \<Rightarrow> int \<Rightarrow> int \<Rightarrow> dcache \<Rightarrow> bool" where
  "cache_inv xs m P d k c \<longleftrightarrow>
     rl_rep (dc_rrl c) xs \<and> hash_rep (cent_name c) (dc_table c) m \<and> links_ok c \<and> fresh_ok c \<and>
     (\<forall>a ce. dc_cents c a = Some ce \<longrightarrow> cent_ok ce) \<and>
     dom (dc_cents c) = ran m \<union> P \<and> ran m \<inter> P = {} \<and>
     dc_cache_size c + d = tot ce_cs (dc_cents c) \<and>
     dc_ent_num c = int (card (dom m)) \<and>
     dc_live c = k + int (length xs) + int (card (dom m)) + tot (\<lambda>ce. 1 + cent_blocks ce) (dc_cents c)"

lemma cache_invD:
  assumes "cache_inv xs m P d k c"
  shows "rl_rep (dc_rrl c) xs" "hash_rep (cent_name c) (dc_table c) m" "links_ok c" "fresh_ok c"
    "\<And>a ce. dc_cents c a = Some ce \<Longrightarrow> cent_ok ce" "dom (dc_cents c) = ran m \<union> P" "ran m \<inter> P = {}"
    "dc_cache_size c + d = tot ce_cs (dc_cents c)" "dc_ent_num c = int (card (dom m))"
    "dc_live c = k + int (length xs) + int (card (dom m)) + tot (\<lambda>ce. 1 + cent_blocks ce) (dc_cents c)"
    "finite (dom (dc_cents c))"
proof -
  show "rl_rep (dc_rrl c) xs" "hash_rep (cent_name c) (dc_table c) m" "links_ok c" "fresh_ok c"
    "\<And>a ce. dc_cents c a = Some ce \<Longrightarrow> cent_ok ce" "dom (dc_cents c) = ran m \<union> P" "ran m \<inter> P = {}"
    "dc_cache_size c + d = tot ce_cs (dc_cents c)" "dc_ent_num c = int (card (dom m))"
    "dc_live c = k + int (length xs) + int (card (dom m)) + tot (\<lambda>ce. 1 + cent_blocks ce) (dc_cents c)"
    using assms unfolding cache_inv_def by blast+
  have "dom (dc_cents c) \<subseteq> {..< dc_mallocs c}" using assms unfolding cache_inv_def fresh_ok_def by blast
  then show "finite (dom (dc_cents c))" by (rule finite_subset) simp
qed

lemma cache_inv_links:
  assumes "cache_inv xs m P d k c" "dc_cents c a = Some ce"
  shows "set (cent_lents ce) \<subseteq> set xs" "distinct (cent_lents ce)" "cent_ok ce"
proof -
  note I = cache_invD [OF assms(1)]
  show ok: "cent_ok ce" by (rule I(5) [OF assms(2)])
  show "set (cent_lents ce) \<subseteq> set xs" by (rule links_subset [OF I(3,1) assms(2) ok])
  show "distinct (cent_lents ce)" by (rule links_distinct [OF I(3) assms(2) ok])
qed

lemma rl_dom: "rl_rep l xs \<Longrightarrow> dom (rl_ents l) = set xs"
  by (rule rl_repD(5))

lemma items_some: "items E a \<noteq> None \<longleftrightarrow> a \<in> dom E"
  by (auto simp: items_def)

lemma length_filter_out:
  assumes "distinct xs" "distinct L" "set L \<subseteq> set xs"
  shows "length (filter (\<lambda>x. x \<notin> set L) xs) + length L = length xs"
proof -
  have "set (filter (\<lambda>x. x \<in> set L) xs) = set L" using assms(3) by auto
  then have "length (filter (\<lambda>x. x \<in> set L) xs) = card (set L)"
    using distinct_card [OF distinct_filter [OF assms(1)], of "\<lambda>x. x \<in> set L"] by simp
  then show ?thesis using sum_length_filter_compl [of "\<lambda>x. x \<in> set L" xs] distinct_card [OF assms(2)] by simp
qed

text \<open>An entry changed: links are taken out of the list, no others added.\<close>

lemma cent_update:
  assumes inv: "cache_inv xs m P d k c" and C: "dc_cents c a = Some ce" and eff: "effect xs c n L c'"
    and ok: "cent_ok ce'" and nm: "ce_qname ce' = ce_qname ce" and n: "n = cent_blocks ce' - cent_blocks ce"
    and LL: "\<And>le e. link_at ce' a le e \<longleftrightarrow> link_at ce a le e \<and> le \<notin> set L" and L: "set L \<subseteq> set (cent_lents ce)" "distinct L"
  shows "cache_inv (filter (\<lambda>x. x \<notin> set L) xs) m P (d - ce_cs ce + ce_cs ce') k (cent_store a ce' c')"
proof -
  note I = cache_invD [OF inv]
  let ?xs = "filter (\<lambda>x. x \<notin> set L) xs"
  let ?c = "cent_store a ce' c'"
  have e: "frame c c'" "rl_rep (dc_rrl c') ?xs" "items (rl_ents (dc_rrl c')) = (\<lambda>x. if x \<in> set L then None else items (rl_ents (dc_rrl c)) x)"
    "dc_live c' = dc_live c + n - int (length L)" using eff by (simp_all add: effect_def)
  have f: "dc_mallocs c \<le> dc_mallocs c'" "dc_cents c' = dc_cents c" "dc_table c' = dc_table c" "dc_cache_size c' = dc_cache_size c"
    "dc_ent_num c' = dc_ent_num c" using e(1) by (simp_all add: frame_def)
  have s: "dc_rrl ?c = dc_rrl c'" "dc_cents ?c = (dc_cents c)(a \<mapsto> ce')" "dc_table ?c = dc_table c" "dc_mallocs ?c = dc_mallocs c'"
    "dc_cache_size ?c = dc_cache_size c" "dc_ent_num ?c = dc_ent_num c" "dc_live ?c = dc_live c'"
    using f by (simp_all add: cent_store_def)
  have "cent_name ?c x = cent_name c x" for x using s(2) C nm by (simp add: cent_name_def)
  then have "cent_name ?c = cent_name c" by (rule ext)
  then have hr: "hash_rep (cent_name ?c) (dc_table ?c) m" using I(2) s(3) by simp
  have ca: "ce = ce0" if "dc_cents c a = Some ce0" for ce0 using C that by simp
  have lk: "links_ok ?c" unfolding links_ok_def
  proof (intro allI)
    fix le e
    show "items (rl_ents (dc_rrl ?c)) le = Some e \<longleftrightarrow> (\<exists>b ce. dc_cents ?c b = Some ce \<and> link_at ce b le e)"
    proof (cases "le \<in> set L")
      case True
      then obtain e0 where e0: "link_at ce a le e0" using L(1) mem_cent_lents [OF I(5) [OF C], of le a] by blast
      have "\<not> (dc_cents ?c b = Some ce1 \<and> link_at ce1 b le e)" for b ce1
      proof
        assume A: "dc_cents ?c b = Some ce1 \<and> link_at ce1 b le e"
        show False
        proof (cases "b = a")
          case True
          then show ?thesis using A s(2) LL \<open>le \<in> set L\<close> by simp
        next
          case False
          then have "dc_cents c b = Some ce1" using A s(2) by simp
          from links_inj(2) [OF I(3) C e0 this] A False show ?thesis by blast
        qed
      qed
      then show ?thesis using True unfolding s(1) e(3) by auto
    next
      case False
      have "(\<exists>b ce1. dc_cents ?c b = Some ce1 \<and> link_at ce1 b le e) \<longleftrightarrow> (\<exists>b ce1. dc_cents c b = Some ce1 \<and> link_at ce1 b le e)"
        (is "?l \<longleftrightarrow> ?r")
      proof
        assume ?l
        then obtain b ce1 where b: "dc_cents ?c b = Some ce1" "link_at ce1 b le e" by blast
        show ?r
        proof (cases "b = a")
          case True
          then have "link_at ce a le e" using b s(2) LL by simp
          then show ?thesis using C by blast
        next
          case ne: False
          then show ?thesis using b s(2) by auto
        qed
      next
        assume ?r
        then obtain b ce1 where b: "dc_cents c b = Some ce1" "link_at ce1 b le e" by blast
        show ?l
        proof (cases "b = a")
          case True
          then have "link_at ce' a le e" using b LL False ca by simp
          then show ?thesis using s(2) by (intro exI [of _ a]) simp
        next
          case ne: False
          then show ?thesis using b s(2) by (intro exI [of _ b]) simp
        qed
      qed
      then show ?thesis using False I(3) unfolding s(1) e(3) links_ok_def by simp
    qed
  qed
  have fr: "fresh_ok ?c"
  proof -
    have "dom (rl_ents (dc_rrl c')) \<subseteq> dom (rl_ents (dc_rrl c))" unfolding rl_dom [OF e(2)] rl_dom [OF I(1)] by auto
    moreover have "a \<in> dom (dc_cents c)" using C by blast
    ultimately show ?thesis by (intro fresh_mono [OF I(4)]) (use f(1) in \<open>auto simp: s\<close>)
  qed
  have Lx: "set L \<subseteq> set xs" using L(1) cache_inv_links(1) [OF inv C] by blast
  have len: "int (length ?xs) = int (length xs) - int (length L)"
    using length_filter_out [OF rl_repD(1) [OF I(1)] L(2) Lx] by linarith
  have t: "tot f (dc_cents ?c) = tot f (dc_cents c) - f ce + f ce'" for f unfolding s(2) by (rule tot_put [OF I(11) C])
  have dm: "dom (dc_cents ?c) = dom (dc_cents c)" unfolding s(2) using C by auto
  have oks: "\<forall>x ce1. dc_cents ?c x = Some ce1 \<longrightarrow> cent_ok ce1" using I(5) ok unfolding s(2) by auto
  show ?thesis unfolding cache_inv_def
  proof (intro conjI)
    show "dc_cache_size ?c + (d - ce_cs ce + ce_cs ce') = tot ce_cs (dc_cents ?c)" unfolding t s(5) using I(8) by linarith
    show "dc_live ?c = k + int (length ?xs) + int (card (dom m)) + tot (\<lambda>ce. 1 + cent_blocks ce) (dc_cents ?c)"
      unfolding t s(7) e(4) len using I(10) n by linarith
  qed (use hr lk fr oks dm I s e(2) in simp_all)
qed

subsection \<open>Removing an entry\<close>

lemma links_remove:
  assumes inv: "cache_inv xs m P d k c" and C: "dc_cents c a = Some ce" and eff: "effect xs c n (cent_lents ce) c1"
    and s: "dc_rrl c2 = dc_rrl c1" "dc_cents c2 = (dc_cents c)(a := None)"
  shows "links_ok c2" "rl_rep (dc_rrl c2) (filter (\<lambda>x. x \<notin> set (cent_lents ce)) xs)"
    "int (length (filter (\<lambda>x. x \<notin> set (cent_lents ce)) xs)) = int (length xs) - int (length (cent_lents ce))"
    "dom (rl_ents (dc_rrl c2)) \<subseteq> dom (rl_ents (dc_rrl c))"
proof -
  note I = cache_invD [OF inv] and L = cache_inv_links [OF inv C]
  have e: "rl_rep (dc_rrl c1) (filter (\<lambda>x. x \<notin> set (cent_lents ce)) xs)"
    "items (rl_ents (dc_rrl c1)) = (\<lambda>x. if x \<in> set (cent_lents ce) then None else items (rl_ents (dc_rrl c)) x)"
    using eff by (simp_all add: effect_def)
  show "rl_rep (dc_rrl c2) (filter (\<lambda>x. x \<notin> set (cent_lents ce)) xs)" using e(1) s(1) by simp
  then show "dom (rl_ents (dc_rrl c2)) \<subseteq> dom (rl_ents (dc_rrl c))" using rl_dom [OF I(1)] by (auto simp: rl_dom)
  show "int (length (filter (\<lambda>x. x \<notin> set (cent_lents ce)) xs)) = int (length xs) - int (length (cent_lents ce))"
    using length_filter_out [OF rl_repD(1) [OF I(1)] L(2,1)] by linarith
  show "links_ok c2" unfolding links_ok_def
  proof (intro allI)
    fix le e
    have "(\<exists>b ce1. dc_cents c2 b = Some ce1 \<and> link_at ce1 b le e) \<longleftrightarrow>
      le \<notin> set (cent_lents ce) \<and> (\<exists>b ce1. dc_cents c b = Some ce1 \<and> link_at ce1 b le e)" (is "?l \<longleftrightarrow> ?r")
    proof
      assume ?l
      then obtain b ce1 where b: "b \<noteq> a" "dc_cents c b = Some ce1" "link_at ce1 b le e" by (auto simp: s(2) split: if_splits)
      have "le \<notin> set (cent_lents ce)"
      proof
        assume "le \<in> set (cent_lents ce)"
        then obtain e0 where "link_at ce a le e0" using mem_cent_lents [OF L(3), of le a] by blast
        from links_inj(2) [OF I(3) C this b(2,3)] b(1) show False by simp
      qed
      then show ?r using b by blast
    next
      assume r: ?r
      then obtain b ce1 where b: "dc_cents c b = Some ce1" "link_at ce1 b le e" by blast
      have "b \<noteq> a"
      proof
        assume "b = a"
        then have "link_at ce a le e" using b C by simp
        then show False using r mem_cent_lents [OF L(3), of le a] by blast
      qed
      then show ?l using b by (intro exI [of _ b]) (simp add: s(2))
    qed
    then show "items (rl_ents (dc_rrl c2)) le = Some e \<longleftrightarrow> (\<exists>a ce. dc_cents c2 a = Some ce \<and> link_at ce a le e)"
      using I(3) unfolding s(1) e(2) links_ok_def by simp
  qed
qed

lemma hash_rep_cent_del:
  assumes "hash_rep (cent_name c) t m" "a \<notin> ran m" "dc_cents c2 = (dc_cents c)(a := None)"
  shows "hash_rep (cent_name c2) t m"
  by (rule hash_rep_cong [OF assms(1)]) (use assms(2,3) in \<open>auto simp: cent_name_def\<close>)

lemma ran_upd_None:
  assumes "\<And>k. m k = Some a \<Longrightarrow> k = kk" "m kk = Some a"
  shows "ran (m(kk := None)) = ran m - {a}"
proof (intro equalityI subsetI)
  fix x assume "x \<in> ran (m(kk := None))"
  then obtain k where k: "k \<noteq> kk" "m k = Some x" by (auto simp: ran_def split: if_splits)
  moreover from this assms(1) have "x \<noteq> a" by blast
  ultimately show "x \<in> ran m - {a}" by (auto intro: ranI)
next
  fix x assume "x \<in> ran m - {a}"
  then obtain k where k: "m k = Some x" "x \<noteq> a" by (auto simp: ran_def)
  then have "(m(kk := None)) k = Some x" using assms(2) by auto
  then show "x \<in> ran (m(kk := None))" by (rule ranI)
qed

text \<open>The name of an entry of the table.\<close>

lemma cache_inv_key:
  assumes inv: "cache_inv xs m P d k c" and mk: "m kk = Some a"
  shows "\<exists>ce ks. dc_cents c a = Some ce \<and> ce_qname ce = enc_name ks \<and> list_all lab_len ks \<and> map lower ks = kk \<and>
    (\<forall>k'. m k' = Some a \<longrightarrow> k' = kk)"
proof -
  note I = cache_invD [OF inv]
  obtain ks where ks: "list_all lab_len ks" "cent_name c a = Some (enc_name ks)" "map lower ks = kk"
    using hash_rep_name [OF I(2) mk] by blast
  then obtain ce where ce: "dc_cents c a = Some ce" "ce_qname ce = enc_name ks" by (auto simp: cent_name_def)
  have "k' = kk" if m': "m k' = Some a" for k'
  proof -
    obtain ks' where k': "list_all lab_len ks'" "cent_name c a = Some (enc_name ks')" "map lower ks' = k'"
      using hash_rep_name [OF I(2) m'] by blast
    have "ks = ks'" by (rule enc_name_inj [OF ks(1) k'(1)]) (use ks(2) k'(2) in simp)
    then show ?thesis using ks(3) k'(3) by simp
  qed
  then show ?thesis using ce ks by blast
qed

lemma del_entry_inv:
  assumes inv: "cache_inv xs m P d k c" and mk: "m kk = Some a" and C: "dc_cents c a = Some ce"
    and hr: "hash_rep (cent_name c) t (m(kk := None))" and dt: "dom (hash_ents t) \<subseteq> dom (hash_ents (dc_table c))"
  shows "\<exists>c'. del_cent a (cache_free (c\<lparr>dc_table := t\<rparr>)) = Some c' \<and>
    cache_inv (filter (\<lambda>x. x \<notin> set (cent_lents ce)) xs) (m(kk := None)) P d k c' \<and> dc_cents c' = (dc_cents c)(a := None) \<and>
    dc_cache_size c' = dc_cache_size c - ce_cs ce \<and> dc_insert_sort c' = dc_insert_sort c"
proof -
  note I = cache_invD [OF inv] and L = cache_inv_links [OF inv C]
  let ?c = "sub_cache_size (ce_cs ce) (cache_free (c\<lparr>dc_table := t\<rparr>))"
  have s: "dc_rrl ?c = dc_rrl c" "dc_cents ?c = dc_cents c" "dc_table ?c = t" "dc_mallocs ?c = dc_mallocs c"
    "dc_cache_size ?c = dc_cache_size c - ce_cs ce" "dc_ent_num ?c = dc_ent_num c" "dc_live ?c = dc_live c - 1" "dc_insert_sort ?c = dc_insert_sort c"
    by (simp_all add: sub_cache_size_def cache_free_def)
  have rep: "rl_rep (dc_rrl ?c) xs" using I(1) s(1) by simp
  obtain c1 where c1: "free_cent ce ?c = Some c1" "effect xs ?c (- cent_blocks ce) (cent_lents ce) c1"
    using free_cent_ok [OF cent_ok_shaped [OF L(3)] rep L(1,2)] by blast
  have e: "frame ?c c1" "dc_live c1 = dc_live ?c - cent_blocks ce - int (length (cent_lents ce))"
    using c1(2) by (simp_all add: effect_def)
  let ?c2 = "cache_free (c1\<lparr>dc_cents := (dc_cents c1)(a := None), dc_ent_num := dc_ent_num c1 - 1\<rparr>)"
  have s2: "dc_rrl ?c2 = dc_rrl c1" "dc_cents ?c2 = (dc_cents c)(a := None)" "dc_table ?c2 = t" "dc_mallocs c \<le> dc_mallocs ?c2"
    "dc_cache_size ?c2 = dc_cache_size c - ce_cs ce" "dc_ent_num ?c2 = dc_ent_num c - 1" "dc_live ?c2 = dc_live c1 - 1"
    "dc_insert_sort ?c2 = dc_insert_sort c"
    using e(1) s unfolding frame_def by (simp_all add: cache_free_def)
  have d: "del_cent a (cache_free (c\<lparr>dc_table := t\<rparr>)) = Some ?c2"
    using c1(1) C unfolding del_cent_def by (simp add: cache_free_def)
  have e0: "rl_rep (dc_rrl c1) (filter (\<lambda>x. x \<notin> set (cent_lents ce)) xs)"
    "items (rl_ents (dc_rrl c1)) = (\<lambda>x. if x \<in> set (cent_lents ce) then None else items (rl_ents (dc_rrl c)) x)"
    using c1(2) unfolding effect_def s(1) by blast+
  define c3 where "c3 = c\<lparr>dc_rrl := dc_rrl c1, dc_live := dc_live c - int (length (cent_lents ce))\<rparr>"
  have "effect xs c 0 (cent_lents ce) c3" using e0 by (simp add: effect_def frame_def c3_def)
  moreover have "dc_rrl ?c2 = dc_rrl c3" by (simp add: c3_def s2(1))
  ultimately have R: "links_ok ?c2" "rl_rep (dc_rrl ?c2) (filter (\<lambda>x. x \<notin> set (cent_lents ce)) xs)"
    "int (length (filter (\<lambda>x. x \<notin> set (cent_lents ce)) xs)) = int (length xs) - int (length (cent_lents ce))"
    "dom (rl_ents (dc_rrl ?c2)) \<subseteq> dom (rl_ents (dc_rrl c))"
    using links_remove [OF inv C _ _ s2(2)] by blast+
  obtain ks where key: "\<And>k'. m k' = Some a \<Longrightarrow> k' = kk" using cache_inv_key [OF inv mk] by blast
  have ran: "ran (m(kk := None)) = ran m - {a}" using ran_upd_None [of m a kk] key mk by blast
  have aP: "a \<notin> P" using I(7) mk by (auto dest: ranI)
  have h2: "hash_rep (cent_name ?c2) (dc_table ?c2) (m(kk := None))"
    unfolding s2(3) by (rule hash_rep_cent_del [OF hr _ s2(2)]) (use ran in blast)
  have fr: "fresh_ok ?c2" by (rule fresh_mono [OF I(4) s2(4)]) (use R(4) dt in \<open>auto simp: s2(2,3)\<close>)
  have t: "tot f (dc_cents ?c2) = tot f (dc_cents c) - f ce" for f unfolding s2(2) by (rule tot_del [OF I(11) C])
  have card: "int (card (dom (m(kk := None)))) = int (card (dom m)) - 1"
  proof -
    have k: "kk \<in> dom m" "finite (dom m)" using mk hash_rep_card(1) [OF I(2)] by auto
    have "card (dom m) = Suc (card (dom m - {kk}))" by (rule card.remove [OF k(2,1)])
    then show ?thesis by simp
  qed
  have dm: "dom (dc_cents ?c2) = ran (m(kk := None)) \<union> P" unfolding s2(2) ran using I(6) aP by auto
  have oks: "\<forall>x ce1. dc_cents ?c2 x = Some ce1 \<longrightarrow> cent_ok ce1" using I(5) unfolding s2(2) by auto
  have "cache_inv (filter (\<lambda>x. x \<notin> set (cent_lents ce)) xs) (m(kk := None)) P d k ?c2" unfolding cache_inv_def
  proof (intro conjI)
    show "dc_cache_size ?c2 + d = tot ce_cs (dc_cents ?c2)" unfolding t s2(5) using I(8) by linarith
    show "dc_ent_num ?c2 = int (card (dom (m(kk := None))))" unfolding s2(6) card using I(9) by linarith
    show "dc_live ?c2 = k + int (length (filter (\<lambda>x. x \<notin> set (cent_lents ce)) xs)) + int (card (dom (m(kk := None)))) +
        tot (\<lambda>ce. 1 + cent_blocks ce) (dc_cents ?c2)" unfolding t s2(7) R(3) card e(2) s(7) using I(10) by linarith
    show "ran (m(kk := None)) \<inter> P = {}" unfolding ran using I(7) by blast
  qed (use R(1,2) h2 fr dm oks in simp_all)
  then show ?thesis using d s2(2,5,8) by blast
qed

text \<open>Deleting the entry of a name, at the location of a lookup or not.\<close>

lemma del_cache_ent_inv:
  assumes inv: "cache_inv xs m P d k c" and mk: "m (map lower ks) = Some a" and ks: "list_all lab_len ks"
    and l: "loc = None \<or> (\<exists>l r. loc = Some l \<and> cache_find c (enc_name ks @ r) = Some (Some a, l))"
  shows "\<exists>c' ce. dc_cents c a = Some ce \<and> del_cache_ent a loc c = Some c' \<and>
    cache_inv (filter (\<lambda>x. x \<notin> set (cent_lents ce)) xs) (m(map lower ks := None)) P d k c' \<and> dc_cents c' = (dc_cents c)(a := None) \<and>
    dc_cache_size c' = dc_cache_size c - ce_cs ce \<and> dc_insert_sort c' = dc_insert_sort c"
proof -
  note I = cache_invD [OF inv]
  obtain ce ks' where ce: "dc_cents c a = Some ce" "ce_qname ce = enc_name ks'" "list_all lab_len ks'" "map lower ks' = map lower ks"
    using cache_inv_key [OF inv mk] by blast
  have "\<exists>t. (case loc of
        Some l \<Rightarrow> map_option (\<lambda>(t, d). (t, Some d)) (del_dns_hash_ent (dc_table c) l)
      | None \<Rightarrow> do { ce \<leftarrow> dc_cents c a; del_dns_hash (dc_table c) (cent_name c) (ce_qname ce) }) = Some (t, Some a) \<and>
      hash_rep (cent_name c) t (m(map lower ks := None)) \<and> dom (hash_ents t) \<subseteq> dom (hash_ents (dc_table c))"
  proof (cases loc)
    case None
    obtain t where "del_dns_hash (dc_table c) (cent_name c) (enc_name ks' @ []) = Some (t, m (map lower ks'))"
      "hash_rep (cent_name c) t (m(map lower ks' := None))" using hash_rep_del [OF I(2) ce(3), of "[]"] by blast
    then show ?thesis using None ce mk by (auto dest: del_dns_hash_dom)
  next
    case (Some l)
    then obtain r where "dns_lookup (dc_table c) (cent_name c) (enc_name ks @ r) = Some (Some a, l)"
      using assms(4) by (auto simp: cache_find_def)
    then obtain t where "del_dns_hash_ent (dc_table c) l = Some (t, a)" "hash_rep (cent_name c) t (m(map lower ks := None))"
      using hash_rep_del_ent [OF I(2) ks] by blast
    then show ?thesis using Some by (auto dest: del_dns_hash_ent_dom)
  qed
  then obtain t where t: "(case loc of
        Some l \<Rightarrow> map_option (\<lambda>(t, d). (t, Some d)) (del_dns_hash_ent (dc_table c) l)
      | None \<Rightarrow> do { ce \<leftarrow> dc_cents c a; del_dns_hash (dc_table c) (cent_name c) (ce_qname ce) }) = Some (t, Some a)"
    "hash_rep (cent_name c) t (m(map lower ks := None))" "dom (hash_ents t) \<subseteq> dom (hash_ents (dc_table c))" by blast
  have "del_cache_ent a loc c = del_cent a (cache_free (c\<lparr>dc_table := t\<rparr>))" unfolding del_cache_ent_def t(1) by simp
  then show ?thesis using del_entry_inv [OF inv mk ce(1) t(2,3)] ce(1) by auto
qed

end
