(* ===== verification/CachePurge.thy ===== *)
theory CachePurge
  imports CacheStoreInv "HOL-Library.Sublist"
begin

text \<open>
  Purging keeps the invariant of the cache, deletes nothing that is local, and brings the cache below the limit as far as
  there is something to delete, the oldest sets first.
\<close>

subsection \<open>Links of an entry\<close>

definition linked :: "dns_cent \<Rightarrow> bool" where
  "linked ce \<longleftrightarrow> has_flag (ce_flags ce) DF_LOCAL \<or>
     (if is_neg ce then neg_lent (ce_data ce) \<noteq> None
      else \<forall>i rs. slot (sets0 ce) i = Some rs \<longrightarrow> has_flag (rs_flags rs) CF_LOCAL \<or> rs_lent rs \<noteq> None)"

definition all_linked :: "dcache \<Rightarrow> bool" where
  "all_linked c \<longleftrightarrow> (\<forall>a ce. dc_cents c a = Some ce \<longrightarrow> linked ce)"

lemma pos_sets0: "pos_ok ce ss \<Longrightarrow> sets0 ce = ss"
  using pos_sets [of ce ss] by (simp add: sets0_def pos_ok_def pos_cent_def)

lemma pos_not_neg: "pos_ok ce ss \<Longrightarrow> \<not> is_neg ce"
  by (simp add: pos_ok_def pos_cent_def)

lemma cent_ok_sets0: "cent_ok ce \<Longrightarrow> \<not> is_neg ce \<Longrightarrow> pos_ok ce (sets0 ce)"
  using cent_ok_pos [of ce] by (simp add: sets0_def)

lemma slot_update_None: "slot (ss[i := None]) j = (if j = i then None else slot ss j)"
  by (auto simp: slot_def)

lemma link_del:
  assumes "pos_ok ce ss" "pos_ok ce' (ss[i := None])" "sets_inj ss"
  shows "link_at ce' a le e \<longleftrightarrow> link_at ce a le e \<and> le \<notin> set (slot_lents (slot ss i))"
proof
  assume "link_at ce' a le e"
  then obtain j rs where j: "slot (ss[i := None]) j = Some rs" "rs_lent rs = Some le" "e = lent_item (Some (rs_addr rs)) a (int j)"
    unfolding link_pos [OF assms(2)] by blast
  then have ji: "j \<noteq> i" "slot ss j = Some rs" by (simp_all add: slot_update_None split: if_splits)
  have "le \<notin> set (slot_lents (slot ss i))"
  proof
    assume "le \<in> set (slot_lents (slot ss i))"
    then obtain rs' where "slot ss i = Some rs'" "rs_lent rs' = Some le" by (cases "slot ss i") (auto simp: rs_lents_def split: option.splits)
    then show False using assms(3) ji j(2) unfolding sets_inj_def by blast
  qed
  then show "link_at ce a le e \<and> le \<notin> set (slot_lents (slot ss i))" using ji(2) j(2,3) unfolding link_pos [OF assms(1)] by blast
next
  assume A: "link_at ce a le e \<and> le \<notin> set (slot_lents (slot ss i))"
  then obtain j rs where j: "slot ss j = Some rs" "rs_lent rs = Some le" "e = lent_item (Some (rs_addr rs)) a (int j)"
    unfolding link_pos [OF assms(1)] by blast
  then have "j \<noteq> i" using A by (auto simp: rs_lents_def)
  then have "slot (ss[i := None]) j = Some rs" using j(1) by (simp add: slot_update_None)
  then show "link_at ce' a le e" using j(2,3) unfolding link_pos [OF assms(2)] by blast
qed

lemma cent_store_same: "dc_cents c a = Some ce \<Longrightarrow> cent_store a ce c = c"
  by (simp add: cent_store_def fun_upd_idem)

lemma cent_store_simps [simp]: "dc_cents (cent_store a ce c) = (dc_cents c)(a \<mapsto> ce)" "dc_rrl (cent_store a ce c) = dc_rrl c"
  "dc_insert_sort (cent_store a ce c) = dc_insert_sort c" "dc_cache_size (cent_store a ce c) = dc_cache_size c"
  "dc_mallocs (cent_store a ce c) = dc_mallocs c" "dc_table (cent_store a ce c) = dc_table c"
  by (simp_all add: cent_store_def)

lemma sub_cache_size_simps [simp]: "dc_cents (sub_cache_size n c) = dc_cents c" "dc_rrl (sub_cache_size n c) = dc_rrl c"
  "dc_insert_sort (sub_cache_size n c) = dc_insert_sort c" "dc_cache_size (sub_cache_size n c) = dc_cache_size c - n"
  "cent_store a ce (sub_cache_size n c) = sub_cache_size n (cent_store a ce c)"
  by (simp_all add: sub_cache_size_def cent_store_def)

lemma cent_name_eq: "dc_cents c' = dc_cents c \<Longrightarrow> cent_name c' = cent_name c"
  by (simp add: cent_name_def fun_eq_iff)

lemma sub_cache_size_inv: "cache_inv xs m P d k c \<Longrightarrow> cache_inv xs m P (d + n) k (sub_cache_size n c)"
proof -
  have "cent_name (sub_cache_size n c) = cent_name c" "links_ok (sub_cache_size n c) = links_ok c" "fresh_ok (sub_cache_size n c) = fresh_ok c"
    "dc_table (sub_cache_size n c) = dc_table c" "dc_ent_num (sub_cache_size n c) = dc_ent_num c" "dc_live (sub_cache_size n c) = dc_live c"
    using cent_name_eq [of "sub_cache_size n c" c] by (simp_all add: links_ok_def fresh_ok_def sub_cache_size_def)
  moreover assume "cache_inv xs m P d k c"
  ultimately show ?thesis by (simp add: cache_inv_def)
qed

subsection \<open>Deleting a set of an entry of the cache\<close>

lemma effect_store: "effect xs c n L c' \<Longrightarrow> effect xs (cent_store a ce c) n L (cent_store a ce c')"
  by (auto simp: effect_def frame_def cent_store_def)

lemma cent_store_twice [simp]: "cent_store a ce' (cent_store a ce c) = cent_store a ce' c"
  by (simp add: cent_store_def)

lemma del_slot_gen:
  assumes inv: "cache_inv xs m P d k (cent_store a ce c)" and i: "i < NRRTOT"
  shows "\<exists>rv ce' c'. del_cent_rrset_by_index ce i c = Some ((rv, ce'), c') \<and>
    cache_inv (filter (\<lambda>x. x \<notin> set (slot_lents (slot (sets0 ce) i))) xs) m P (d - rv) k (cent_store a ce' c') \<and>
    rv = opt_int set_size (slot (sets0 ce) i) \<and> ce_cs ce' = ce_cs ce - rv \<and> same_head ce ce' \<and> cent_ok ce' \<and> is_neg ce' = is_neg ce \<and>
    sets0 ce' = (sets0 ce)[i := None] \<and> frame c c' \<and> (is_neg ce \<longrightarrow> ce' = ce \<and> c' = c)"
proof (cases "is_neg ce")
  case True
  have C: "dc_cents (cent_store a ce c) a = Some ce" by simp
  have "del_cent_rrset_by_index ce i c = Some ((0, ce), c)" using True by (simp add: del_cent_rrset_by_index_def RRARR_INDEX_PA_TESTEXT_def)
  moreover have "(sets0 ce)[i := None] = sets0 ce"
  proof (cases "i < NRRMU")
    case i: True
    have "replicate NRRMU None ! i = (None :: rr_set option)" using i by simp
    then show ?thesis using True by (simp add: sets0_def) (metis list_update_id)
  qed (simp add: sets0_def True list_update_beyond)
  ultimately show ?thesis using inv True cache_inv_links(3) [OF inv C] cent_store_same [OF C] slot_sets0 [OF True, of i] by simp
next
  case False
  have C: "dc_cents (cent_store a ce c) a = Some ce" by simp
  note L = cache_inv_links [OF inv C] and I = cache_invD [OF inv]
  have P: "pos_ok ce (sets0 ce)" by (rule cent_ok_sets0 [OF L(3) False])
  have rep: "rl_rep (dc_rrl c) xs" using I(1) by simp
  have sl: "set (slot_lents (slot (sets0 ce) i)) \<subseteq> set xs"
    using sets_lents_slot [of "sets0 ce" i] L(1) pos_lents [of ce "sets0 ce"] P by (auto simp: pos_ok_def)
  obtain ce' c' where d: "del_cent_rrset_by_index ce i c = Some ((opt_int set_size (slot (sets0 ce) i), ce'), c')"
    "pos_ok ce' ((sets0 ce)[i := None])" "same_head ce ce'" "ce_cs ce' = ce_cs ce - opt_int set_size (slot (sets0 ce) i)"
    "effect xs c (- opt_int set_blocks (slot (sets0 ce) i)) (slot_lents (slot (sets0 ce) i)) c'"
    using del_cent_rrset_ok [OF P i rep sl] by blast
  have nm: "named ce'" using L(3) same_head_named [OF d(3)] by (simp add: cent_ok_def)
  have ok: "cent_ok ce'" by (rule pos_cent_ok [OF d(2) nm])
  have b: "- opt_int set_blocks (slot (sets0 ce) i) = cent_blocks ce' - cent_blocks ce"
    using pos_blocks [of ce' "(sets0 ce)[i := None]"] pos_blocks [of ce "sets0 ce"] d(2) P
    by (cases "i < length (sets0 ce)") (simp_all add: pos_ok_def ext_blocks_def sets_sum_update slot_def list_update_beyond)
  have sub: "set (slot_lents (slot (sets0 ce) i)) \<subseteq> set (cent_lents ce)"
    using sets_lents_slot [of "sets0 ce" i] pos_lents [of ce "sets0 ce"] P by (simp add: pos_ok_def)
  have dist: "distinct (slot_lents (slot (sets0 ce) i))" by (cases "slot (sets0 ce) i") (simp_all add: rs_lents_def split: option.splits)
  have "cache_inv (filter (\<lambda>x. x \<notin> set (slot_lents (slot (sets0 ce) i))) xs) m P (d - ce_cs ce + ce_cs ce') k
      (cent_store a ce' (cent_store a ce c'))"
    by (rule cent_update [OF inv C effect_store [OF d(5)] ok _ b link_del [OF P d(2) links_sets_inj [OF I(3) C]] sub dist]) (use d(3) in \<open>simp add: same_head_def\<close>)
  moreover have "frame c c'" using effect_frame [OF d(5)] .
  moreover have "d - ce_cs ce + ce_cs ce' = d - opt_int set_size (slot (sets0 ce) i)" using d(4) by simp
  ultimately show ?thesis using d(1,3,4) ok False pos_not_neg [OF d(2)] pos_sets0 [OF d(2)] by auto
qed

lemma del_slot_inv:
  assumes inv: "cache_inv xs m P d k c" and C: "dc_cents c a = Some ce" and i: "i < NRRTOT"
  shows "\<exists>rv ce' c'. del_cent_rrset_by_index ce i c = Some ((rv, ce'), c') \<and>
    cache_inv (filter (\<lambda>x. x \<notin> set (slot_lents (slot (sets0 ce) i))) xs) m P (d - rv) k (cent_store a ce' c') \<and>
    rv = opt_int set_size (slot (sets0 ce) i) \<and> ce_cs ce' = ce_cs ce - rv \<and> same_head ce ce' \<and> cent_ok ce' \<and> is_neg ce' = is_neg ce \<and>
    sets0 ce' = (sets0 ce)[i := None] \<and> frame c c' \<and> (is_neg ce \<longrightarrow> ce' = ce \<and> c' = c)"
  by (rule del_slot_gen) (use inv i cent_store_same [OF C] in simp_all)

text \<open>An entry without sets has no links.\<close>

lemma sets_sum_zero: "sets_sum (\<lambda>_. 1) ss = 0 \<longleftrightarrow> (\<forall>i. slot ss i = None)"
proof -
  have ge: "sets_sum (\<lambda>_. 1) ss \<ge> 0" for ss by (induction ss) (auto simp: opt_int_def split: option.splits)
  have "sets_sum (\<lambda>_. 1) ss = 0 \<longleftrightarrow> (\<forall>s \<in> set ss. s = None)"
  proof (induction ss)
    case (Cons s ss)
    then show ?case using ge [of ss] by (cases s) auto
  qed simp
  also have "\<dots> \<longleftrightarrow> (\<forall>i. slot ss i = None)" by (metis in_set_conv_nth slot_def)
  finally show ?thesis .
qed

lemma num_rrs_zero:
  assumes "cent_ok ce"
  shows "ce_num_rrs ce = 0 \<longleftrightarrow> (\<forall>i. slot (sets0 ce) i = None)"
proof (cases "is_neg ce")
  case True
  then show ?thesis using cent_ok_neg [OF assms] slot_sets0 [OF True] by (simp add: neg_ok_def)
next
  case False
  then show ?thesis using cent_ok_sets0 [OF assms] sets_sum_zero by (simp add: pos_ok_def)
qed

lemma empty_lents:
  assumes "cent_ok ce" "\<not> is_neg ce" "ce_num_rrs ce = 0"
  shows "cent_lents ce = []"
proof -
  have "le \<notin> set (cent_lents ce)" for le
    using mem_cent_lents [OF assms(1), of le 0] link_pos [OF cent_ok_sets0 [OF assms(1,2)]] num_rrs_zero [OF assms(1)] assms(3) by auto
  then show ?thesis by (metis list.set_intros(1) neq_Nil_conv)
qed

subsection \<open>What the entries of the list point to\<close>

lemma rl_next:
  assumes "rl_rep l (pre @ x # post)"
  shows "\<exists>e. rl_ents l x = Some e \<and> le_next e = fst_of post"
proof -
  have "lseg (rl_ents l) (rrset_l l) (pre @ x # post) None" using rl_repD(2) [OF assms] .
  then obtain q where "lseg (rl_ents l) q (x # post) None" unfolding lseg_app by blast
  then show ?thesis using lseg_first by auto
qed

lemma lent_cases:
  assumes inv: "cache_inv xs m P d k c" and e: "rl_ents (dc_rrl c) x = Some e"
  obtains (neg) a ce where "dc_cents c a = Some ce" "le_cent e = a" "is_neg ce" "neg_lent (ce_data ce) = Some x" "le_rrset e = None"
  | (set) a ce i rs where "dc_cents c a = Some ce" "le_cent e = a" "\<not> is_neg ce" "slot (sets0 ce) i = Some rs" "rs_lent rs = Some x"
    "le_rrset e = Some (rs_addr rs)" "le_idx e = int i" "i < NRRTOT" "RRARR_INDEX ce i = Some (Some rs)"
proof -
  note I = cache_invD [OF inv]
  have "items (rl_ents (dc_rrl c)) x = Some (strip e)" using e by (simp add: items_def)
  then obtain a ce where a: "dc_cents c a = Some ce" "link_at ce a x (strip e)" using I(3) unfolding links_ok_def by blast
  have ok: "cent_ok ce" by (rule I(5) [OF a(1)])
  have s: "le_rrset (strip e) = le_rrset e" "le_cent (strip e) = le_cent e" "le_idx (strip e) = le_idx e" by simp_all
  from a(2) consider (n) "is_neg ce" "neg_lent (ce_data ce) = Some x" "strip e = lent_item None a (- 1)"
    | (s) i rs where "slot (sets0 ce) i = Some rs" "rs_lent rs = Some x" "strip e = lent_item (Some (rs_addr rs)) a (int i)"
    unfolding link_at_def by blast
  then show ?thesis
  proof cases
    case n
    show ?thesis by (rule neg [OF a(1) _ n(1,2)]) (use n(3) s in simp_all)
  next
    case s': s
    have nn: "\<not> is_neg ce" using s'(1) slot_sets0 by fastforce
    have P: "pos_ok ce (sets0 ce)" by (rule cent_ok_sets0 [OF ok nn])
    then have pc: "pos_cent ce (sets0 ce)" by (simp add: pos_ok_def)
    have i: "i < length (sets0 ce)" using s'(1) by (simp add: slot_def split: if_splits)
    have "i < NRRTOT" using i pc by (auto simp: pos_cent_def less_trans [OF _ nrr_simps(1)])
    moreover have "RRARR_INDEX ce i = Some (Some rs)" using pos_index [OF pc, of i] i s'(1) by (simp add: list_at_def slot_def)
    ultimately show ?thesis by (intro set [OF a(1) _ nn s'(1,2)]) (use s'(3) s in simp_all)
  qed
qed

lemma get_ts_some:
  assumes "cache_inv xs m P d k c" "rl_ents (dc_rrl c) x = Some e"
  shows "\<exists>t. get_rrlent_ts c e = Some t"
proof (cases rule: lent_cases [OF assms, case_names neg set])
  case (neg a ce)
  then obtain l t s where "ce_data ce = Neg l t s"
    using cent_ok_neg [OF cache_inv_links(3) [OF assms(1) neg(1)] neg(3)] by (auto simp: neg_ok_def)
  then show ?thesis using neg by (simp add: get_rrlent_ts_def)
next
  case (set a ce i rs)
  then show ?thesis by (simp add: get_rrlent_ts_def le_deref_def)
qed

lemma ts_links_free: "links_free (get_rrlent_ts c)"
  by (simp add: links_free_def get_rrlent_ts_def le_deref_def)

definition age_key :: "dcache \<Rightarrow> nat \<Rightarrow> int" where
  "age_key c x = the (Option.bind (rl_ents (dc_rrl c) x) (get_rrlent_ts c))"

lemma cache_stamps:
  assumes "cache_inv xs m P d k c"
  shows "stamps (get_rrlent_ts c) (rl_ents (dc_rrl c)) (age_key c) (set xs)"
  unfolding stamps_def
proof (intro conjI ballI)
  show "links_free (get_rrlent_ts c)" by (rule ts_links_free)
  fix x assume "x \<in> set xs"
  then have "x \<in> dom (rl_ents (dc_rrl c))" using rl_dom [OF cache_invD(1) [OF assms]] by simp
  then obtain e where e: "rl_ents (dc_rrl c) x = Some e" by blast
  then show "stamp (get_rrlent_ts c) (rl_ents (dc_rrl c)) x = Some (age_key c x)"
    using get_ts_some [OF assms e] by (auto simp: stamp_def age_key_def)
qed

subsection \<open>What purging may delete\<close>

definition local_set :: "rr_set \<Rightarrow> bool" where
  "local_set rs \<longleftrightarrow> has_flag (rs_flags rs) CF_LOCAL"

definition local_cent :: "dns_cent \<Rightarrow> bool" where
  "local_cent ce \<longleftrightarrow> has_flag (ce_flags ce) DF_LOCAL"

text \<open>Sets that are not local are deleted from an entry that is not local, nothing else.\<close>

definition shrunk :: "dns_cent \<Rightarrow> dns_cent \<Rightarrow> bool" where
  "shrunk ce ce' \<longleftrightarrow> ce_qname ce' = ce_qname ce \<and> is_neg ce' = is_neg ce \<and> local_cent ce' = local_cent ce \<and>
     (is_neg ce \<longrightarrow> ce_data ce' = ce_data ce) \<and>
     (\<forall>i. slot (sets0 ce') i = slot (sets0 ce) i \<or>
        slot (sets0 ce') i = None \<and> \<not> local_cent ce \<and> (\<forall>rs. slot (sets0 ce) i = Some rs \<longrightarrow> \<not> local_set rs))"

definition deletable :: "dns_cent \<Rightarrow> bool" where
  "deletable ce \<longleftrightarrow> \<not> local_cent ce \<and> (\<forall>i rs. slot (sets0 ce) i = Some rs \<longrightarrow> \<not> local_set rs)"

definition purged :: "dcache \<Rightarrow> dcache \<Rightarrow> bool" where
  "purged c c' \<longleftrightarrow> dom (dc_cents c') \<subseteq> dom (dc_cents c) \<and>
     (\<forall>a ce. dc_cents c a = Some ce \<longrightarrow> (case dc_cents c' a of None \<Rightarrow> deletable ce | Some ce' \<Rightarrow> shrunk ce ce'))"

lemma shrunk_refl [simp]: "shrunk ce ce"
  by (simp add: shrunk_def)

lemma shrunk_trans: "shrunk ce ce1 \<Longrightarrow> shrunk ce1 ce2 \<Longrightarrow> shrunk ce ce2"
  unfolding shrunk_def by metis

lemma shrunk_deletable: "shrunk ce ce' \<Longrightarrow> deletable ce' \<Longrightarrow> deletable ce"
  unfolding shrunk_def deletable_def by metis

lemma purged_refl [simp]: "purged c c"
  by (simp add: purged_def split: option.splits)

lemma purged_trans:
  assumes "purged c c1" "purged c1 c2"
  shows "purged c c2"
  unfolding purged_def
proof (intro conjI allI impI)
  show "dom (dc_cents c2) \<subseteq> dom (dc_cents c)" using assms unfolding purged_def by blast
  fix a ce assume a: "dc_cents c a = Some ce"
  show "case dc_cents c2 a of None \<Rightarrow> deletable ce | Some ce' \<Rightarrow> shrunk ce ce'"
  proof (cases "dc_cents c1 a")
    case None
    then have "dc_cents c2 a = None" using assms(2) by (auto simp: purged_def domIff)
    then show ?thesis using assms(1) a None by (fastforce simp: purged_def)
  next
    case (Some ce1)
    then have s: "shrunk ce ce1" using assms(1) a by (fastforce simp: purged_def)
    have "case dc_cents c2 a of None \<Rightarrow> deletable ce1 | Some ce' \<Rightarrow> shrunk ce1 ce'" using assms(2) Some by (auto simp: purged_def)
    then show ?thesis using shrunk_trans [OF s] shrunk_deletable [OF s] by (auto split: option.splits)
  qed
qed

lemma purgedI:
  assumes "dc_cents c a = Some ce" "dc_cents c' = (dc_cents c)(a \<mapsto> ce')" "shrunk ce ce'"
  shows "purged c c'"
  using assms by (auto simp: purged_def split: option.splits)

lemma purged_delI:
  assumes "dc_cents c a = Some ce" "dc_cents c' = (dc_cents c)(a := None)" "deletable ce"
  shows "purged c c'"
  using assms by (auto simp: purged_def split: option.splits)

lemma purged_cong: "dc_cents c1' = dc_cents c1 \<Longrightarrow> purged c c1' = purged c c1"
  by (simp add: purged_def)

lemma sets_sum_nonneg: "(\<And>rs. 0 \<le> f rs) \<Longrightarrow> 0 \<le> sets_sum f ss"
  by (induction ss) (auto simp: opt_int_def split: option.splits)

lemma set_size_pos: "0 \<le> set_size rs"
proof -
  have "0 \<le> rr_size rrs" for rrs by (induction rrs) (simp_all add: sizeof_rr_bucket_def)
  then show ?thesis by (simp add: set_size_def sizeof_rr_set_def)
qed

lemma cent_cs_pos: "cent_ok ce \<Longrightarrow> 0 < ce_cs ce"
  using sets_sum_nonneg [OF set_size_pos]
  by (auto simp: cent_ok_def neg_ok_def pos_ok_def base_size_def ext_size_def sizeof_dns_cent_def sizeof_ptr_def add_pos_nonneg add_nonneg_nonneg)

subsection \<open>The bodies of the loops\<close>

lemma drop_entry:
  assumes inv: "cache_inv xs m {} d k c" and C: "dc_cents c a = Some ce"
  shows "\<exists>c' m'. del_cache_ent a None c = Some c' \<and> cache_inv (filter (\<lambda>x. x \<notin> set (cent_lents ce)) xs) m' {} d k c' \<and>
    dc_cents c' = (dc_cents c)(a := None) \<and> dc_cache_size c' \<le> dc_cache_size c \<and> dc_insert_sort c' = dc_insert_sort c \<and> m' \<subseteq>\<^sub>m m"
proof -
  note I = cache_invD [OF inv]
  have "a \<in> ran m" using I(6) C by auto
  then obtain kk where mk: "m kk = Some a" by (auto simp: ran_def)
  obtain ks where ks: "list_all lab_len ks" "map lower ks = kk" using cache_inv_key [OF inv mk] by blast
  have "m (map lower ks) = Some a" using mk ks(2) by simp
  from del_cache_ent_inv [OF inv this ks(1), of None] obtain c' where c': "del_cache_ent a None c = Some c'"
    "cache_inv (filter (\<lambda>x. x \<notin> set (cent_lents ce)) xs) (m(map lower ks := None)) {} d k c'" "dc_cents c' = (dc_cents c)(a := None)"
    "dc_cache_size c' = dc_cache_size c - ce_cs ce" "dc_insert_sort c' = dc_insert_sort c" using C by auto
  have "0 < ce_cs ce" by (rule cent_cs_pos [OF I(5) [OF C]])
  moreover have "m(map lower ks := None) \<subseteq>\<^sub>m m" by (auto simp: map_le_def)
  ultimately show ?thesis using c' by (intro exI [of _ c'] exI [of _ "m(map lower ks := None)"]) simp
qed

lemma filter_one: "distinct (pre @ x # post) \<Longrightarrow> filter (\<lambda>y. y \<noteq> x) (pre @ x # post) = pre @ post"
  by (induction pre) (auto simp: filter_id_conv)

lemma le_local_neg:
  "dc_cents c (le_cent e) = Some ce \<Longrightarrow> le_rrset e = None \<Longrightarrow> le_local c e = Some (local_cent ce)"
  by (simp add: le_local_def local_cent_def)

lemma le_local_set:
  assumes "dc_cents c (le_cent e) = Some ce" "le_rrset e = Some (rs_addr rs)" "le_idx e = int i" "RRARR_INDEX ce i = Some (Some rs)"
  shows "le_local c e = Some (local_set rs \<or> local_cent ce)"
  using assms by (simp add: le_local_def le_deref_def local_cent_def local_set_def)

text \<open>A set whose deletion is allowed, deleted from an entry; the entry goes too when it was the last and \<open>gone\<close> says so.\<close>

lemma del_slot_purge:
  assumes inv: "cache_inv (pre @ x # post) m {} 0 k c" and C: "dc_cents c a = Some ce" and i: "i < NRRTOT"
    and s: "slot (sets0 ce) i = Some rs" "rs_lent rs = Some x" and nl: "\<not> local_set rs" "\<not> local_cent ce"
  shows "\<exists>rv ce' c'. del_cent_rrset_by_index ce i c = Some ((rv, ce'), c') \<and>
    cache_inv (pre @ post) m {} 0 k (sub_cache_size rv (cent_store a ce' c')) \<and> shrunk ce ce' \<and> cent_ok ce' \<and> \<not> is_neg ce' \<and>
    purged c (sub_cache_size rv (cent_store a ce' c')) \<and> 0 \<le> rv \<and> frame c c' \<and> (linked ce \<longrightarrow> linked ce') \<and>
    (all_linked c \<longrightarrow> all_linked (sub_cache_size rv (cent_store a ce' c')))"
proof -
  obtain rv ce' c' where d: "del_cent_rrset_by_index ce i c = Some ((rv, ce'), c')"
    "cache_inv (filter (\<lambda>y. y \<notin> set (slot_lents (slot (sets0 ce) i))) (pre @ x # post)) m {} (0 - rv) k (cent_store a ce' c')"
    "rv = opt_int set_size (slot (sets0 ce) i)" "same_head ce ce'" "cent_ok ce'" "is_neg ce' = is_neg ce"
    "sets0 ce' = (sets0 ce)[i := None]" "frame c c'"
    using del_slot_inv [OF inv C i] by (elim exE conjE) (rule that)
  have dx: "distinct (pre @ x # post)" using rl_repD(1) [OF cache_invD(1) [OF inv]] .
  have f: "filter (\<lambda>y. y \<notin> set (slot_lents (slot (sets0 ce) i))) (pre @ x # post) = pre @ post"
    using filter_one [OF dx] s by (simp add: rs_lents_def)
  have "cache_inv (pre @ post) m {} (0 - rv + rv) k (sub_cache_size rv (cent_store a ce' c'))"
    by (rule sub_cache_size_inv) (use d(2) f in simp)
  then have inv': "cache_inv (pre @ post) m {} 0 k (sub_cache_size rv (cent_store a ce' c'))" by simp
  have nn: "\<not> is_neg ce" using s(1) slot_sets0 by fastforce
  have lc: "local_cent ce' = local_cent ce" "ce_qname ce' = ce_qname ce" using d(4) by (simp_all add: same_head_def local_cent_def)
  have sh: "shrunk ce ce'" unfolding shrunk_def d(7) slot_update_None using lc d(6) nl s(1) nn by auto
  have dc: "dc_cents (sub_cache_size rv (cent_store a ce' c')) = (dc_cents c)(a \<mapsto> ce')" using d(8) by (simp add: frame_def)
  have li: "linked ce'" if "linked ce"
  proof -
    have "has_flag (rs_flags rs') CF_LOCAL \<or> rs_lent rs' \<noteq> None" if "slot (sets0 ce') j = Some rs'" for j rs'
      using that \<open>linked ce\<close> nn nl(2) unfolding d(7) slot_update_None by (auto simp: linked_def local_cent_def split: if_splits)
    then show ?thesis using d(6) nn by (auto simp: linked_def)
  qed
  then have al: "all_linked c \<longrightarrow> all_linked (sub_cache_size rv (cent_store a ce' c'))" unfolding all_linked_def dc using C by auto
  have "0 \<le> rv" using d(3) s(1) set_size_pos by simp
  then show ?thesis using d(1,5,6,8) inv' sh nn li al purgedI [OF C dc sh] by (intro exI conjI) (assumption | simp)+
qed


text \<open>The entry goes when nothing is left of it.\<close>

lemma drop_purge:
  assumes inv: "cache_inv xs m {} 0 k c" and C: "dc_cents c a = Some ce" and d: "deletable ce"
    and xs: "filter (\<lambda>x. x \<notin> set (cent_lents ce)) xs = xs'"
  shows "\<exists>c' m'. del_cache_ent a None c = Some c' \<and> cache_inv xs' m' {} 0 k c' \<and> purged c c' \<and>
    dc_cache_size c' \<le> dc_cache_size c \<and> dc_insert_sort c' = dc_insert_sort c \<and> m' \<subseteq>\<^sub>m m \<and> (all_linked c \<longrightarrow> all_linked c')"
proof -
  obtain c' m' where c: "del_cache_ent a None c = Some c'" "cache_inv (filter (\<lambda>x. x \<notin> set (cent_lents ce)) xs) m' {} 0 k c'"
    "dc_cents c' = (dc_cents c)(a := None)" "dc_cache_size c' \<le> dc_cache_size c" "dc_insert_sort c' = dc_insert_sort c" "m' \<subseteq>\<^sub>m m"
    using drop_entry [OF inv C] by (elim exE conjE) (rule that)
  have "all_linked c \<longrightarrow> all_linked c'" unfolding all_linked_def c(3) by simp
  then show ?thesis using c purged_delI [OF C c(3) d] xs by (intro exI conjI) (assumption | simp)+
qed

definition step_ok :: "nat list \<Rightarrow> (byte list list \<Rightarrow> nat option) \<Rightarrow> int \<Rightarrow> dcache \<Rightarrow> dcache \<Rightarrow> bool" where
  "step_ok xs m k c c' \<longleftrightarrow> (\<exists>m'. cache_inv xs m' {} 0 k c' \<and> m' \<subseteq>\<^sub>m m) \<and> purged c c' \<and> dc_cache_size c' \<le> dc_cache_size c \<and>
     dc_insert_sort c' = dc_insert_sort c \<and> (all_linked c \<longrightarrow> all_linked c')"

lemma step_ok_refl: "cache_inv xs m {} 0 k c \<Longrightarrow> step_ok xs m k c c"
  unfolding step_ok_def by (intro conjI exI [of _ m]) auto

lemma step_okE:
  assumes "step_ok xs m k c c1"
  obtains m1 where "cache_inv xs m1 {} 0 k c1" "purged c c1" "\<forall>ys c2. step_ok ys m1 k c1 c2 \<longrightarrow> step_ok ys m k c c2"
proof -
  obtain m1 where m1: "cache_inv xs m1 {} 0 k c1" "m1 \<subseteq>\<^sub>m m" "purged c c1" "dc_cache_size c1 \<le> dc_cache_size c"
    "dc_insert_sort c1 = dc_insert_sort c" "all_linked c \<longrightarrow> all_linked c1" using assms unfolding step_ok_def by blast
  show ?thesis
  proof (rule that [OF m1(1,3)], intro allI impI)
    fix ys c2 assume "step_ok ys m1 k c1 c2"
    then obtain m2 where c2: "cache_inv ys m2 {} 0 k c2" "m2 \<subseteq>\<^sub>m m1" "purged c1 c2"
      "dc_cache_size c2 \<le> dc_cache_size c1" "dc_insert_sort c2 = dc_insert_sort c1" "all_linked c1 \<longrightarrow> all_linked c2"
      unfolding step_ok_def by blast
    show "step_ok ys m k c c2" unfolding step_ok_def
      using c2 m1 purged_trans [OF m1(3) c2(3)] map_le_trans [OF c2(2) m1(2)] by (metis order_trans)
  qed
qed

lemma drop_step:
  assumes inv: "cache_inv xs m {} 0 k c" and C: "dc_cents c a = Some ce" and d: "deletable ce"
    and xs: "filter (\<lambda>x. x \<notin> set (cent_lents ce)) xs = xs'"
  shows "\<exists>c'. del_cache_ent a None c = Some c' \<and> step_ok xs' m k c c'"
  using drop_purge [OF assms] unfolding step_ok_def by blast

text \<open>A set and, when it was the last, its entry.\<close>

lemma drop_set:
  assumes inv: "cache_inv (pre @ x # post) m {} 0 k c" and C: "dc_cents c a = Some ce" and i: "i < NRRTOT"
    and s: "slot (sets0 ce) i = Some rs" "rs_lent rs = Some x" and nl: "\<not> local_set rs" "\<not> local_cent ce"
  shows "\<exists>rv ce' c' c''. del_cent_rrset_by_index ce i c = Some ((rv, ce'), c') \<and> \<not> is_neg ce' \<and>
    (if ce_num_rrs ce' = 0 then del_cache_ent a None (sub_cache_size rv (cent_store a ce' c'))
     else Some (sub_cache_size rv (cent_store a ce' c'))) = Some c'' \<and> step_ok (pre @ post) m k c c''"
proof -
  obtain rv ce' c' where d: "del_cent_rrset_by_index ce i c = Some ((rv, ce'), c')"
    "cache_inv (pre @ post) m {} 0 k (sub_cache_size rv (cent_store a ce' c'))" "shrunk ce ce'" "cent_ok ce'" "\<not> is_neg ce'"
    "purged c (sub_cache_size rv (cent_store a ce' c'))" "0 \<le> rv" "frame c c'"
    "all_linked c \<longrightarrow> all_linked (sub_cache_size rv (cent_store a ce' c'))"
    using del_slot_purge [OF assms] by (elim exE conjE) (rule that)
  let ?c = "sub_cache_size rv (cent_store a ce' c')"
  have f: "dc_cache_size ?c \<le> dc_cache_size c" "dc_insert_sort ?c = dc_insert_sort c" "dc_cents ?c a = Some ce'"
    using d(7,8) by (simp_all add: frame_def)
  have st: "step_ok (pre @ post) m k c ?c" unfolding step_ok_def using d(2,6,9) f(1,2) by (intro conjI exI [of _ m]) auto
  show ?thesis
  proof (cases "ce_num_rrs ce' = 0")
    case True
    have dl: "deletable ce'" using num_rrs_zero [OF d(4)] True d(3) nl(2) by (auto simp: deletable_def shrunk_def)
    obtain c'' where "del_cache_ent a None ?c = Some c''" "step_ok (pre @ post) m k ?c c''"
      using drop_step [OF d(2) f(3) dl, of "pre @ post"] empty_lents [OF d(4,5) True] by auto
    moreover from this(2) have "step_ok (pre @ post) m k c c''" unfolding step_ok_def
      using d(6,9) f(1,2) purged_trans by (metis order_trans)
    ultimately show ?thesis using d(1,5) True by auto
  qed (use d(1,5) st in auto)
qed

lemma purge_any_ok:
  assumes inv: "cache_inv (pre @ x # post) m {} 0 k c" and e: "rl_ents (dc_rrl c) x = Some e" and l: "le_local c e = Some False"
  shows "\<exists>c'. purge_any e c = Some c' \<and> step_ok (pre @ post) m k c c'"
proof (cases rule: lent_cases [OF inv e, case_names neg set])
  case (neg a ce)
  have ok: "cent_ok ce" using cache_inv_links(3) [OF inv neg(1)] .
  have z: "ce_num_rrs ce = 0" using cent_ok_neg [OF ok neg(3)] by (simp add: neg_ok_def)
  have "\<not> local_cent ce" using le_local_neg [of c e ce] neg l by simp
  then have "deletable ce" using slot_sets0 [OF neg(3)] by (simp add: deletable_def)
  moreover have "cent_lents ce = [x]" using cent_lents_neg [OF ok neg(3)] neg(4) by simp
  ultimately have "\<exists>c'. del_cache_ent a None c = Some c' \<and> step_ok (pre @ post) m k c c'"
    by (intro drop_step [OF inv neg(1)]) (use filter_one [OF rl_repD(1) [OF cache_invD(1) [OF inv]]] in simp_all)
  then show ?thesis using neg z cent_store_same [OF neg(1)] by (simp add: purge_any_def)
next
  case (set a ce i rs)
  have nl: "\<not> local_set rs" "\<not> local_cent ce" using le_local_set [of c e ce rs i] set l by simp_all
  obtain rv ce' c' c'' where d: "del_cent_rrset_by_index ce i c = Some ((rv, ce'), c')" "\<not> is_neg ce'"
    "(if ce_num_rrs ce' = 0 then del_cache_ent a None (sub_cache_size rv (cent_store a ce' c'))
     else Some (sub_cache_size rv (cent_store a ce' c'))) = Some c''" "step_ok (pre @ post) m k c c''"
    using drop_set [OF inv set(1,8,4,5) nl] by (elim exE conjE) (rule that)
  have "purge_any e c = Some c''" using set d(1,3) by (simp add: purge_any_def Let_def split: if_splits)
  then show ?thesis using d(4) by blast
qed


lemma index_testext: "RRARR_INDEX ce i = Some (Some rs) \<Longrightarrow> \<not> is_neg ce \<Longrightarrow> RRARR_INDEX_TESTEXT ce i = Some (Some rs)"
  by (auto simp: RRARR_INDEX_def RRARR_INDEX_TESTEXT_def split: cent_data.splits option.splits if_splits Option.bind_splits)

lemma purge_old_ok:
  assumes inv: "cache_inv (pre @ x # post) m {} 0 k c" and e: "rl_ents (dc_rrl c) x = Some e" and l: "le_local c e = Some False"
  shows "\<exists>c'. purge_old now e c = Some c' \<and> (step_ok (pre @ x # post) m k c c' \<or> step_ok (pre @ post) m k c c')"
proof (cases rule: lent_cases [OF inv e, case_names neg set])
  case (neg a ce)
  have ok: "cent_ok ce" using cache_inv_links(3) [OF inv neg(1)] .
  have z: "ce_num_rrs ce = 0" using cent_ok_neg [OF ok neg(3)] by (simp add: neg_ok_def)
  have nl: "\<not> local_cent ce" using le_local_neg [of c e ce] neg l by simp
  then have "deletable ce" using slot_sets0 [OF neg(3)] by (simp add: deletable_def)
  moreover have "cent_lents ce = [x]" using cent_lents_neg [OF ok neg(3)] neg(4) by simp
  ultimately obtain c' where c': "del_cache_ent a None c = Some c'" "step_ok (pre @ post) m k c c'"
    using drop_step [OF inv neg(1)] filter_one [OF rl_repD(1) [OF cache_invD(1) [OF inv]]] by fastforce
  obtain b where "cent_expired now ce = Some b"
    using cent_ok_neg [OF ok neg(3)] neg(3) nl by (auto simp: cent_expired_def local_cent_def neg_ok_def timedout_nxdom_def)
  then show ?thesis using neg z cent_store_same [OF neg(1)] c' step_ok_refl [OF inv]
    by (cases b) (auto simp: purge_old_def)
next
  case (set a ce i rs)
  have nl: "\<not> local_set rs" "\<not> local_cent ce" using le_local_set [of c e ce rs i] set l by simp_all
  have te: "RRARR_INDEX_TESTEXT ce i = Some (Some rs)" by (rule index_testext [OF set(9,3)])
  show ?thesis
  proof (cases "purgeable now rs")
    case True
    obtain rv ce' c' c'' where d: "del_cent_rrset_by_index ce i c = Some ((rv, ce'), c')" "\<not> is_neg ce'"
      "(if ce_num_rrs ce' = 0 then del_cache_ent a None (sub_cache_size rv (cent_store a ce' c'))
       else Some (sub_cache_size rv (cent_store a ce' c'))) = Some c''" "step_ok (pre @ post) m k c c''"
      using drop_set [OF inv set(1,8,4,5) nl] by (elim exE conjE) (rule that)
    have "purge_old now e c = Some c''"
      using set d(1-3) te True by (simp add: purge_old_def purge_rrset_def cent_expired_def Let_def split: if_splits)
    then show ?thesis using d(4) by blast
  next
    case False
    have "ce_num_rrs ce \<noteq> 0" using num_rrs_zero [OF cache_inv_links(3) [OF inv set(1)]] set(4) by auto
    then have "purge_old now e c = Some c"
      using set te False cent_store_same [OF set(1)] by (simp add: purge_old_def purge_rrset_def)
    then show ?thesis using step_ok_refl [OF inv] by blast
  qed
qed


subsection \<open>What is left alone\<close>

definition protected :: "dcache \<Rightarrow> nat \<Rightarrow> bool" where
  "protected c x \<longleftrightarrow> (\<exists>e. rl_ents (dc_rrl c) x = Some e \<and> le_local c e = Some True)"

lemma le_local_total:
  assumes "cache_inv xs m P d k c" "rl_ents (dc_rrl c) x = Some e"
  shows "le_local c e = Some (protected c x)"
proof (cases rule: lent_cases [OF assms, case_names neg set])
  case (neg a ce)
  then show ?thesis using le_local_neg [of c e ce] assms(2) by (simp add: protected_def)
next
  case (set a ce i rs)
  then show ?thesis using le_local_set [of c e ce rs i] assms(2) by (simp add: protected_def)
qed

text \<open>Whether a link is protected, by its entry.\<close>

lemma protected_neg:
  assumes inv: "cache_inv xs m P d k c" and C: "dc_cents c a = Some ce" and n: "is_neg ce" "neg_lent (ce_data ce) = Some x"
  shows "protected c x \<longleftrightarrow> local_cent ce"
proof -
  have "link_at ce a x (lent_item None a (- 1))" using link_neg [OF n(1)] n(2) by simp
  then have "items (rl_ents (dc_rrl c)) x = Some (lent_item None a (- 1))"
    using links_items(2) [OF cache_invD(3,1) [OF inv] C] by blast
  then obtain e where e: "rl_ents (dc_rrl c) x = Some e" "strip e = lent_item None a (- 1)" by (auto simp: items_def)
  have "le_rrset (strip e) = None" "le_cent (strip e) = a" using e(2) by simp_all
  then have "le_rrset e = None" "le_cent e = a" by simp_all
  then show ?thesis using le_local_neg [of c e ce] C e(1) by (simp add: protected_def)
qed

lemma protected_set:
  assumes inv: "cache_inv xs m P d k c" and C: "dc_cents c a = Some ce" and s: "slot (sets0 ce) i = Some rs" "rs_lent rs = Some x"
  shows "protected c x \<longleftrightarrow> local_set rs \<or> local_cent ce"
proof -
  have L: "link_at ce a x (lent_item (Some (rs_addr rs)) a (int i))" using s unfolding link_at_def by blast
  then have "items (rl_ents (dc_rrl c)) x = Some (lent_item (Some (rs_addr rs)) a (int i))"
    using links_items(2) [OF cache_invD(3,1) [OF inv] C] by blast
  then obtain e where e: "rl_ents (dc_rrl c) x = Some e" "strip e = lent_item (Some (rs_addr rs)) a (int i)" by (auto simp: items_def)
  have i: "le_rrset (strip e) = Some (rs_addr rs)" "le_cent (strip e) = a" "le_idx (strip e) = int i" using e(2) by simp_all
  then have i: "le_rrset e = Some (rs_addr rs)" "le_cent e = a" "le_idx e = int i" by simp_all
  show ?thesis
  proof (cases rule: lent_cases [OF inv e(1), case_names neg set])
    case (neg a' ce')
    then show ?thesis using i by simp
  next
    case (set a' ce' i' rs')
    have "ce' = ce" "i' = i" using set i C by simp_all
    then have "rs' = rs" using set s by simp
    then show ?thesis using le_local_set [of c e ce rs i] set e(1) C i \<open>ce' = ce\<close> \<open>i' = i\<close> by (simp add: protected_def)
  qed
qed

lemma protected_step:
  assumes inv: "cache_inv xs m P d k c" and inv': "cache_inv xs' m' P' d' k' c'" and p: "purged c c'" and x: "x \<in> set xs"
  shows "protected c x \<Longrightarrow> protected c' x" "x \<in> set xs' \<Longrightarrow> protected c' x \<Longrightarrow> protected c x"
proof -
  have dx: "x \<in> dom (rl_ents (dc_rrl c))" using x rl_dom [OF cache_invD(1) [OF inv]] by simp
  then obtain e where e: "rl_ents (dc_rrl c) x = Some e" by blast
  have dom: "a \<in> dom (dc_cents c)" if "dc_cents c' a = Some ce'" for a ce' using p that by (auto simp: purged_def)
  have sh: "shrunk ce ce'" if "dc_cents c a = Some ce" "dc_cents c' a = Some ce'" for a ce ce'
    using p that unfolding purged_def by fastforce
  have dl: "deletable ce" if "dc_cents c a = Some ce" "dc_cents c' a = None" for a ce using p that by (fastforce simp: purged_def)
  show "protected c' x" if pr: "protected c x"
  proof (cases rule: lent_cases [OF inv e, case_names neg set])
    case (neg a ce)
    have l: "local_cent ce" using protected_neg [OF inv neg(1,3,4)] pr by simp
    then obtain ce' where ce': "dc_cents c' a = Some ce'" using dl [OF neg(1)] by (cases "dc_cents c' a") (auto simp: deletable_def)
    have s: "is_neg ce'" "neg_lent (ce_data ce') = Some x" "local_cent ce'" using sh [OF neg(1) ce'] neg l by (auto simp: shrunk_def)
    then show ?thesis using protected_neg [OF inv' ce' s(1,2)] by simp
  next
    case (set a ce i rs)
    have l: "local_set rs \<or> local_cent ce" using protected_set [OF inv set(1,4,5)] pr by simp
    then obtain ce' where ce': "dc_cents c' a = Some ce'"
      using dl [OF set(1)] set(4) by (cases "dc_cents c' a") (auto simp: deletable_def)
    have s: "slot (sets0 ce') i = Some rs" "local_cent ce' = local_cent ce" using sh [OF set(1) ce'] set(4) l unfolding shrunk_def by metis+
    then show ?thesis using protected_set [OF inv' ce' s(1) set(5)] l by simp
  qed
  show "protected c x" if x': "x \<in> set xs'" and pr: "protected c' x"
  proof -
    have "x \<in> dom (rl_ents (dc_rrl c'))" using x' rl_dom [OF cache_invD(1) [OF inv']] by simp
    then obtain e' where e': "rl_ents (dc_rrl c') x = Some e'" by blast
    show ?thesis
    proof (cases rule: lent_cases [OF inv' e', case_names neg set])
      case (neg a ce')
      then obtain ce where ce: "dc_cents c a = Some ce" using dom by blast
      have "local_cent ce'" using protected_neg [OF inv' neg(1,3,4)] pr by simp
      then have s: "is_neg ce" "neg_lent (ce_data ce) = Some x" "local_cent ce" using sh [OF ce neg(1)] neg by (auto simp: shrunk_def)
      then show ?thesis using protected_neg [OF inv ce s(1,2)] by simp
    next
      case (set a ce' i rs)
      then obtain ce where ce: "dc_cents c a = Some ce" using dom by blast
      have l: "local_set rs \<or> local_cent ce'" using protected_set [OF inv' set(1,4,5)] pr by simp
      have s: "slot (sets0 ce) i = Some rs" "local_cent ce' = local_cent ce" using sh [OF ce set(1)] set(4) unfolding shrunk_def by (metis option.distinct(1))+
      then show ?thesis using protected_set [OF inv ce s(1) set(5)] l by simp
    qed
  qed
qed

subsection \<open>The loops\<close>

lemma pass_none [simp]: "purge_pass body sz lazy None c = Some c"
  by (simp add: purge_pass.simps)

lemma pass_some: "purge_pass body sz lazy (Some x) c = (if lazy \<and> \<not> dc_cache_size c > sz then Some c
    else do { e \<leftarrow> rl_ents (dc_rrl c) x; loc \<leftarrow> le_local c e; c \<leftarrow> (if loc then Some c else body e c); purge_pass body sz lazy (le_next e) c })"
  by (subst purge_pass.simps) simp

lemma purge_any_pass:
  assumes "cache_inv (pre @ post) m {} 0 k c"
  shows "\<exists>c' n. purge_pass purge_any sz True (fst_of post) c = Some c' \<and>
    step_ok (pre @ filter (protected c) (take n post) @ drop n post) m k c c' \<and> (dc_cache_size c' \<le> sz \<or> n \<ge> length post)"
  using assms
proof (induction post arbitrary: pre m c)
  case Nil
  then show ?case using step_ok_refl [OF Nil] by (intro exI [of _ c] exI [of _ 0]) simp
next
  case (Cons x post)
  obtain e where e: "rl_ents (dc_rrl c) x = Some e" "le_next e = fst_of post" using rl_next [OF cache_invD(1) [OF Cons.prems]] by blast
  note l = le_local_total [OF Cons.prems e(1)]
  show ?case
  proof (cases "dc_cache_size c > sz")
    case False
    then show ?thesis using step_ok_refl [OF Cons.prems] by (intro exI [of _ c] exI [of _ 0]) (simp add: pass_some)
  next
    case big: True
    show ?thesis
    proof (cases "protected c x")
      case True
      obtain c' n where c': "purge_pass purge_any sz True (fst_of post) c = Some c'"
        "step_ok ((pre @ [x]) @ filter (protected c) (take n post) @ drop n post) m k c c'" "dc_cache_size c' \<le> sz \<or> n \<ge> length post"
        using Cons.IH [of "pre @ [x]" m c] Cons.prems by auto
      show ?thesis by (rule exI [of _ c'], rule exI [of _ "Suc n"]) (use c' e l True big in \<open>simp add: pass_some\<close>)
    next
      case False
      obtain c1 where c1: "purge_any e c = Some c1" "step_ok (pre @ post) m k c c1"
        using purge_any_ok [OF Cons.prems e(1)] l False by auto
      obtain m1 where m1: "cache_inv (pre @ post) m1 {} 0 k c1" "purged c c1" "\<forall>ys c2. step_ok ys m1 k c1 c2 \<longrightarrow> step_ok ys m k c c2"
        by (rule step_okE [OF c1(2)]) (rule that)
      obtain c' n where c': "purge_pass purge_any sz True (fst_of post) c1 = Some c'"
        "step_ok (pre @ filter (protected c1) (take n post) @ drop n post) m1 k c1 c'" "dc_cache_size c' \<le> sz \<or> n \<ge> length post"
        using Cons.IH [OF m1(1)] by blast
      have "protected c1 y = protected c y" if "y \<in> set post" for y
        using protected_step [OF Cons.prems m1(1,2), of y] that by auto
      then have f: "filter (protected c1) (take n post) = filter (protected c) (take n post)" by (intro filter_cong) (auto dest: in_set_takeD)
      have st: "step_ok (pre @ filter (protected c) (take (Suc n) (x # post)) @ drop (Suc n) (x # post)) m k c c'"
        using m1(3) [rule_format, OF c'(2)] f False by simp
      show ?thesis by (rule exI [of _ c'], rule exI [of _ "Suc n"]) (use c'(1,3) st e l False big c1(1) in \<open>simp add: pass_some\<close>)
    qed
  qed
qed

text \<open>The pass over what has timed out takes any element of the list, or stops at the limit.\<close>

lemma purge_old_pass:
  assumes "cache_inv (pre @ post) m {} 0 k c"
  shows "\<exists>c' post'. purge_pass (purge_old now) sz lazy (fst_of post) c = Some c' \<and> subseq post' post \<and> step_ok (pre @ post') m k c c'"
  using assms
proof (induction post arbitrary: pre m c)
  case Nil
  then show ?case using step_ok_refl [OF Nil] by (intro exI [of _ c] exI [of _ "[]"]) simp
next
  case (Cons x post)
  obtain e where e: "rl_ents (dc_rrl c) x = Some e" "le_next e = fst_of post" using rl_next [OF cache_invD(1) [OF Cons.prems]] by blast
  note l = le_local_total [OF Cons.prems e(1)]
  have keep: ?case if c1: "(if protected c x then Some c else purge_old now e c) = Some c1" "step_ok (pre @ x # post) m k c c1"
    and go: "\<not> (lazy \<and> \<not> dc_cache_size c > sz)" for c1
  proof -
    obtain m1 where m1: "cache_inv (pre @ x # post) m1 {} 0 k c1" "purged c c1" "\<forall>ys c2. step_ok ys m1 k c1 c2 \<longrightarrow> step_ok ys m k c c2"
      by (rule step_okE [OF c1(2)]) (rule that)
    obtain c' post' where c': "purge_pass (purge_old now) sz lazy (fst_of post) c1 = Some c'" "subseq post' post"
      "step_ok ((pre @ [x]) @ post') m1 k c1 c'" using Cons.IH [of "pre @ [x]" m1 c1] m1(1) by auto
    show ?thesis by (rule exI [of _ c'], rule exI [of _ "x # post'"]) (use c' m1(3) e l c1(1) go in \<open>auto simp: pass_some split: if_splits\<close>)
  qed
  show ?case
  proof (cases "lazy \<and> \<not> dc_cache_size c > sz")
    case True
    then show ?thesis using step_ok_refl [OF Cons.prems] by (intro exI [of _ c] exI [of _ "x # post"]) (simp add: pass_some)
  next
    case go: False
    show ?thesis
    proof (cases "protected c x")
      case True
      then show ?thesis using keep [of c] step_ok_refl [OF Cons.prems] go by simp
    next
      case False
      obtain c1 where c1: "purge_old now e c = Some c1" "step_ok (pre @ x # post) m k c c1 \<or> step_ok (pre @ post) m k c c1"
        using purge_old_ok [OF Cons.prems e(1)] l False by auto
      from c1(2) show ?thesis
      proof
        assume "step_ok (pre @ x # post) m k c c1"
        then show ?thesis using keep [of c1] c1(1) False go by simp
      next
        assume s: "step_ok (pre @ post) m k c c1"
        obtain m1 where m1: "cache_inv (pre @ post) m1 {} 0 k c1" "purged c c1" "\<forall>ys c2. step_ok ys m1 k c1 c2 \<longrightarrow> step_ok ys m k c c2"
          by (rule step_okE [OF s]) (rule that)
        obtain c' post' where c': "purge_pass (purge_old now) sz lazy (fst_of post) c1 = Some c'" "subseq post' post"
          "step_ok (pre @ post') m1 k c1 c'" using Cons.IH [OF m1(1)] by blast
        show ?thesis by (rule exI [of _ c'], rule exI [of _ post'])
          (use c' m1(3) e l c1(1) go False in \<open>auto simp: pass_some list_emb_Cons split: if_splits\<close>)
      qed
    qed
  qed
qed


subsection \<open>Purging the cache\<close>

lemma cache_inv_same:
  assumes inv: "cache_inv xs m P d k c" and r: "rl_rep (dc_rrl c') xs'" "items (rl_ents (dc_rrl c')) = items (rl_ents (dc_rrl c))"
    "length xs' = length xs" "set xs' = set xs"
    and s: "dc_cents c' = dc_cents c" "dc_table c' = dc_table c" "dc_mallocs c' = dc_mallocs c" "dc_cache_size c' = dc_cache_size c"
      "dc_ent_num c' = dc_ent_num c" "dc_live c' = dc_live c"
  shows "cache_inv xs' m P d k c'"
proof -
  have n: "cent_name c' = cent_name c" by (rule cent_name_eq [OF s(1)])
  have d: "dom (rl_ents (dc_rrl c')) = dom (rl_ents (dc_rrl c))" using rl_dom [OF r(1)] rl_dom [OF cache_invD(1) [OF inv]] r(4) by simp
  have "links_ok c'" using cache_invD(3) [OF inv] unfolding links_ok_def r(2) s(1) .
  moreover have "fresh_ok c'" using cache_invD(4) [OF inv] unfolding fresh_ok_def d s .
  ultimately show ?thesis using inv r(1,3) n s by (simp add: cache_inv_def)
qed

lemma sort_cache_inv:
  assumes inv: "cache_inv xs m P d k c" and l: "length xs < 2 ^ NTMPSORT"
  shows "\<exists>c'. sort_rrl_cache c = Some c' \<and> cache_inv (sort_key (age_key c) xs) m P d k (c'\<lparr>dc_insert_sort := True\<rparr>) \<and>
    dc_cents c' = dc_cents c \<and> dc_cache_size c' = dc_cache_size c"
proof -
  obtain l' where l': "sort_rrl (get_rrlent_ts c) (dc_rrl c) = Some l'" "rl_rep l' (sort_key (age_key c) xs)"
    "items (rl_ents l') = items (rl_ents (dc_rrl c))"
    using sort_rrl_ok [OF cache_invD(1) [OF inv] cache_stamps [OF inv] l] by blast
  have "cache_inv (sort_key (age_key c) xs) m P d k (c\<lparr>dc_rrl := l', dc_insert_sort := True\<rparr>)"
    by (rule cache_inv_same [OF inv]) (use l'(2,3) in simp_all)
  then show ?thesis using l'(1) by (simp add: sort_rrl_cache_def)
qed

lemma all_linked_cong: "dc_cents c' = dc_cents c \<Longrightarrow> all_linked c' = all_linked c"
  by (simp add: all_linked_def)

lemma purge_cache_all:
  assumes inv: "cache_inv xs m {} 0 k c" and l: "length xs < 2 ^ NTMPSORT"
  shows "\<exists>c' xs' m'. purge_cache now sz lazy c = Some c' \<and> cache_inv xs' m' {} 0 k c' \<and> set xs' \<subseteq> set xs \<and> m' \<subseteq>\<^sub>m m \<and> purged c c' \<and>
    dc_cache_size c' \<le> dc_cache_size c \<and> (all_linked c \<longrightarrow> all_linked c') \<and> (dc_cache_size c' \<le> sz \<or> (\<forall>x \<in> set xs'. protected c' x))"
proof -
  have h: "rrset_l (dc_rrl c) = fst_of xs" if "cache_inv xs m P d k c" for xs m P d c using rl_repD(2) [OF cache_invD(1) [OF that]] lseg_first by (cases xs) auto
  obtain c1 xs1 where p1: "purge_pass (purge_old now) sz lazy (rrset_l (dc_rrl c)) c = Some c1" "subseq xs1 xs" "step_ok xs1 m k c c1"
    using purge_old_pass [of "[]" xs m k c now sz lazy] inv h [OF inv] by auto
  obtain m1 where m1: "cache_inv xs1 m1 {} 0 k c1" "m1 \<subseteq>\<^sub>m m" "purged c c1" "dc_cache_size c1 \<le> dc_cache_size c"
    "all_linked c \<longrightarrow> all_linked c1" using p1(3) unfolding step_ok_def by blast
  have sub: "set xs1 \<subseteq> set xs" "length xs1 \<le> length xs" using list_emb_set [OF p1(2)] list_emb_length [OF p1(2)] by blast+
  show ?thesis
  proof (cases "dc_cache_size c1 \<le> sz")
    case True
    then have "purge_cache now sz lazy c = Some c1" using p1(1) by (simp add: purge_cache_def)
    then show ?thesis using True m1 sub(1) by (intro exI conjI) (assumption | simp)+
  next
    case False
    have "\<exists>c2 xs2. (if \<not> dc_insert_sort c1 then map_option (\<lambda>c. c\<lparr>dc_insert_sort := True\<rparr>) (sort_rrl_cache c1) else Some c1) = Some c2 \<and>
      cache_inv xs2 m1 {} 0 k c2 \<and> set xs2 = set xs1 \<and> dc_cents c2 = dc_cents c1 \<and> dc_cache_size c2 = dc_cache_size c1"
    proof (cases "dc_insert_sort c1")
      case True
      then show ?thesis using m1(1) by (intro exI [of _ c1] exI [of _ xs1]) simp
    next
      case False
      obtain c' where "sort_rrl_cache c1 = Some c'" "cache_inv (sort_key (age_key c1) xs1) m1 {} 0 k (c'\<lparr>dc_insert_sort := True\<rparr>)"
        "dc_cents c' = dc_cents c1" "dc_cache_size c' = dc_cache_size c1" using sort_cache_inv [OF m1(1)] sub(2) l by auto
      then show ?thesis using False by (intro exI [of _ "c'\<lparr>dc_insert_sort := True\<rparr>"] exI [of _ "sort_key (age_key c1) xs1"]) simp
    qed
    then obtain c2 xs2 where c2: "(if \<not> dc_insert_sort c1 then map_option (\<lambda>c. c\<lparr>dc_insert_sort := True\<rparr>) (sort_rrl_cache c1) else Some c1) = Some c2"
      "cache_inv xs2 m1 {} 0 k c2" "set xs2 = set xs1" "dc_cents c2 = dc_cents c1" "dc_cache_size c2 = dc_cache_size c1" by (elim exE conjE) (rule that)
    obtain c3 n where c3: "purge_pass purge_any sz True (rrset_l (dc_rrl c2)) c2 = Some c3"
      "step_ok (filter (protected c2) (take n xs2) @ drop n xs2) m1 k c2 c3" "dc_cache_size c3 \<le> sz \<or> n \<ge> length xs2"
      using purge_any_pass [of "[]" xs2 m1 k c2 sz] c2(2) h [OF c2(2)] by auto
    let ?xs = "filter (protected c2) (take n xs2) @ drop n xs2"
    obtain m3 where m3: "cache_inv ?xs m3 {} 0 k c3" "m3 \<subseteq>\<^sub>m m1" "purged c2 c3" "dc_cache_size c3 \<le> dc_cache_size c2"
      "all_linked c2 \<longrightarrow> all_linked c3" using c3(2) unfolding step_ok_def by blast
    have "purge_cache now sz lazy c = Some c3" using p1(1) False c2(1) c3(1) by (simp add: purge_cache_def)
    moreover have "set ?xs \<subseteq> set xs" using c2(3) sub(1) by (auto dest: in_set_takeD in_set_dropD)
    moreover have "purged c1 c3" using m3(3) c2(4) unfolding purged_def by simp
    then have "purged c c3" using m1(3) purged_trans by blast
    moreover have "m3 \<subseteq>\<^sub>m m" using m3(2) m1(2) by (rule map_le_trans)
    moreover have "all_linked c \<longrightarrow> all_linked c3" using m1(5) m3(5) all_linked_cong [OF c2(4)] by blast
    moreover have "dc_cache_size c3 \<le> dc_cache_size c" using m3(4) c2(5) m1(4) by simp
    moreover have "dc_cache_size c3 \<le> sz \<or> (\<forall>x \<in> set ?xs. protected c3 x)"
    proof (cases "n \<ge> length xs2")
      case True
      then show ?thesis using protected_step(1) [OF c2(2) m3(1,3)] by auto
    qed (use c3(3) in simp)
    ultimately show ?thesis using m3(1) by (intro exI [of _ c3] exI [of _ ?xs] exI [of _ m3] conjI) assumption+
  qed
qed


text \<open>
  When all links are protected, nothing is left that could be purged. Besides local data there may be entries
  without any set: no link leads to them.
\<close>

definition unpurgeable :: "dns_cent \<Rightarrow> bool" where
  "unpurgeable ce \<longleftrightarrow> local_cent ce \<or> (\<not> is_neg ce \<and> (\<forall>i rs. slot (sets0 ce) i = Some rs \<longrightarrow> local_set rs))"

lemma protected_unpurgeable:
  assumes inv: "cache_inv xs m P d k c" and p: "\<forall>x \<in> set xs. protected c x" and l: "all_linked c" and C: "dc_cents c a = Some ce"
  shows "unpurgeable ce"
proof (rule ccontr)
  assume n: "\<not> unpurgeable ce"
  have L: "linked ce" using l C by (simp add: all_linked_def)
  have x: "x \<in> set xs" if "link_at ce a x e" for x e using links_items(1) [OF cache_invD(3,1) [OF inv] C that] .
  show False
  proof (cases "is_neg ce")
    case True
    then obtain le where le: "neg_lent (ce_data ce) = Some le" using L n by (auto simp: linked_def unpurgeable_def local_cent_def)
    then have "le \<in> set xs" using x link_neg [OF True] by blast
    then show False using p protected_neg [OF inv C True le] n by (simp add: unpurgeable_def)
  next
    case False
    then obtain i rs where s: "slot (sets0 ce) i = Some rs" "\<not> local_set rs" using n by (auto simp: unpurgeable_def)
    then obtain le where le: "rs_lent rs = Some le" using L False n by (auto simp: linked_def unpurgeable_def local_cent_def local_set_def)
    then have "link_at ce a le (lent_item (Some (rs_addr rs)) a (int i))" using s(1) by (auto simp: link_at_def)
    then have "le \<in> set xs" by (rule x)
    then show False using p protected_set [OF inv C s(1) le] s(2) n by (simp add: unpurgeable_def)
  qed
qed

end
