(* ===== verification/CacheAdd.thy ===== *)
theory CacheAdd
  imports CachePurge
begin

text \<open>
  Adding to the cache keeps its invariant, also where memory runs out.
\<close>

subsection \<open>A link added\<close>

lemma link_added_inv:
  assumes inv: "cache_inv xs m P d k c" and C: "dc_cents c a = Some ce"
    and rep: "rl_rep l ys" "set ys = insert (dc_mallocs c) (set xs)" "length ys = Suc (length xs)"
      "items (rl_ents l) = (items (rl_ents (dc_rrl c)))(dc_mallocs c \<mapsto> e)"
    and ok: "cent_ok ce'" and nm: "ce_qname ce' = ce_qname ce" "ce_cs ce' = ce_cs ce" "cent_blocks ce' = cent_blocks ce"
    and LL: "\<And>le e'. link_at ce' a le e' \<longleftrightarrow> link_at ce a le e' \<or> le = dc_mallocs c \<and> e' = e"
    and s: "dc_rrl c' = l" "dc_cents c' = (dc_cents c)(a \<mapsto> ce')" "dc_table c' = dc_table c" "dc_mallocs c' = Suc (dc_mallocs c)"
      "dc_cache_size c' = dc_cache_size c" "dc_ent_num c' = dc_ent_num c" "dc_live c' = dc_live c + 1"
  shows "cache_inv ys m P d k c'"
proof -
  note I = cache_invD [OF inv]
  have new: "dc_mallocs c \<notin> dom (rl_ents (dc_rrl c))" using I(4) by (auto simp: fresh_ok_def)
  then have i0: "items (rl_ents (dc_rrl c)) (dc_mallocs c) = None" by (auto simp: items_def)
  have "cent_name c' x = cent_name c x" for x using s(2) C nm(1) by (simp add: cent_name_def)
  then have "cent_name c' = cent_name c" by (rule ext)
  then have hr: "hash_rep (cent_name c') (dc_table c') m" using I(2) s(3) by simp
  have lk: "links_ok c'" unfolding links_ok_def
  proof (intro allI)
    fix le e'
    have "(\<exists>b ce1. dc_cents c' b = Some ce1 \<and> link_at ce1 b le e') \<longleftrightarrow>
      (\<exists>b ce1. dc_cents c b = Some ce1 \<and> link_at ce1 b le e') \<or> le = dc_mallocs c \<and> e' = e" (is "?l \<longleftrightarrow> ?r")
    proof
      assume ?l
      then obtain b ce1 where b: "dc_cents c' b = Some ce1" "link_at ce1 b le e'" by blast
      show ?r
      proof (cases "b = a")
        case True
        then have "link_at ce' a le e'" using b s(2) by simp
        then show ?thesis using C unfolding LL by blast
      next
        case False
        then show ?thesis using b s(2) by auto
      qed
    next
      assume ?r
      then consider b ce1 where "dc_cents c b = Some ce1" "link_at ce1 b le e'" | "link_at ce' a le e'" unfolding LL by blast
      then show ?l
      proof cases
        case 1
        show ?thesis
        proof (cases "b = a")
          case True
          then have "link_at ce' a le e'" using 1 C unfolding LL by simp
          then show ?thesis using s(2) by (intro exI [of _ a]) simp
        next
          case False
          then show ?thesis using 1 s(2) by (intro exI [of _ b]) simp
        qed
      next
        case 2
        then show ?thesis using s(2) by (intro exI [of _ a]) simp
      qed
    qed
    moreover have "items (rl_ents (dc_rrl c)) le = Some e' \<longleftrightarrow> (\<exists>b ce1. dc_cents c b = Some ce1 \<and> link_at ce1 b le e')"
      using I(3) by (simp add: links_ok_def)
    ultimately show "items (rl_ents (dc_rrl c')) le = Some e' \<longleftrightarrow> (\<exists>b ce1. dc_cents c' b = Some ce1 \<and> link_at ce1 b le e')"
      using i0 unfolding s(1) rep(4) by (cases "le = dc_mallocs c") auto
  qed
  have fr: "fresh_ok c'" by (rule fresh_mono [OF I(4)]) (use s rl_dom [OF rep(1)] rl_dom [OF I(1)] rep(2) C in auto)
  have t: "tot f (dc_cents c') = tot f (dc_cents c) - f ce + f ce'" for f unfolding s(2) by (rule tot_put [OF I(11) C])
  have dm: "dom (dc_cents c') = dom (dc_cents c)" unfolding s(2) using C by auto
  have oks: "\<forall>x ce1. dc_cents c' x = Some ce1 \<longrightarrow> cent_ok ce1" using I(5) ok unfolding s(2) by auto
  show ?thesis unfolding cache_inv_def
  proof (intro conjI)
    show "dc_cache_size c' + d = tot ce_cs (dc_cents c')" unfolding t s(5) nm(2) using I(8) by linarith
    show "dc_live c' = k + int (length ys) + int (card (dom m)) + tot (\<lambda>ce. 1 + cent_blocks ce) (dc_cents c')"
      unfolding t s(7) rep(3) nm(3) using I(10) by simp
  qed (use hr lk fr oks dm I s rep in simp_all)
qed

text \<open>The time stamps of the entries of the list together with a new one.\<close>

lemma new_stamps:
  assumes inv: "cache_inv xs m P d k c" and t: "get_rrlent_ts c e = Some t" and ne: "ne \<notin> set xs"
  shows "stamps (get_rrlent_ts c) (rl_ents (added ne e (dc_rrl c))) ((age_key c)(ne := t)) (insert ne (set xs))"
proof -
  have "stamp (get_rrlent_ts c) (rl_ents (dc_rrl c)) x = Some (age_key c x)" if "x \<in> set xs" for x
    using cache_stamps [OF inv] that by (simp add: stamps_def)
  then show ?thesis using ts_links_free t ne by (auto simp: stamps_def stamp_def added_def)
qed

lemma ts_cong: "dc_cents c' = dc_cents c \<Longrightarrow> get_rrlent_ts c' = get_rrlent_ts c"
  by (simp add: fun_eq_iff get_rrlent_ts_def le_deref_def)

text \<open>What \<open>insert_rrl\<close> does to the list.\<close>

lemma new_link:
  assumes inv: "cache_inv xs m P d k c" and t: "get_rrlent_ts c e = Some t" and e: "le_next e = None" "le_prev e = None"
  shows "\<exists>l ys. rrl_link (get_rrlent_ts c) (dc_insert_sort c) (dc_mallocs c) e (dc_rrl c) = Some l \<and> rl_rep l ys \<and>
    set ys = insert (dc_mallocs c) (set xs) \<and> length ys = Suc (length xs) \<and>
    items (rl_ents l) = (items (rl_ents (dc_rrl c)))(dc_mallocs c \<mapsto> strip e) \<and>
    put_at (dc_insert_sort c) ((age_key c)(dc_mallocs c := t)) xs (dc_mallocs c) ys"
proof -
  note I = cache_invD [OF inv]
  have "dc_mallocs c \<notin> dom (rl_ents (dc_rrl c))" using I(4) by (auto simp: fresh_ok_def)
  then have ne: "dc_mallocs c \<notin> set xs" using rl_dom [OF I(1)] by simp
  from rrl_link_ok [OF I(1) ne e new_stamps [OF inv t ne], of "dc_insert_sort c"] put_at_set show ?thesis by blast
qed

definition link_set :: "nat option \<Rightarrow> rr_set \<Rightarrow> rr_set" where
  "link_set l rs = rs\<lparr>rs_lent := l\<rparr>"

lemma link_set_simps [simp]: "rs_lent (link_set l rs) = l" "rs_addr (link_set l rs) = rs_addr rs" "rs_rrs (link_set l rs) = rs_rrs rs"
  "rs_flags (link_set l rs) = rs_flags rs" "rs_ttl (link_set l rs) = rs_ttl rs" "rs_ts (link_set l rs) = rs_ts rs"
  "local_set (link_set l rs) = local_set rs" "rs_lent rs = l \<Longrightarrow> link_set l rs = rs"
  by (auto simp: link_set_def local_set_def)

lemma frame_inv:
  assumes inv: "cache_inv xs m P d k c" and f: "frame c c1" "dc_rrl c1 = dc_rrl c" "dc_live c1 = dc_live c"
  shows "cache_inv xs m P d k c1"
proof -
  note I = cache_invD [OF inv]
  have f': "dc_cents c1 = dc_cents c" "dc_table c1 = dc_table c" "dc_cache_size c1 = dc_cache_size c" "dc_ent_num c1 = dc_ent_num c"
    "dc_mallocs c \<le> dc_mallocs c1" using f(1) by (simp_all add: frame_def)
  have "cent_name c1 = cent_name c" by (rule cent_name_eq [OF f'(1)])
  moreover have "links_ok c1" using I(3) f(2) f'(1) by (simp add: links_ok_def)
  moreover have "fresh_ok c1" by (rule fresh_mono [OF I(4) f'(5)]) (use f' f(2) in auto)
  ultimately show ?thesis using inv f' f(2,3) by (simp add: cache_inv_def)
qed

lemma link_put:
  assumes ok: "pos_ok ce ss" and ok': "pos_ok ce' (ss[i := Some rs'])" and i: "i < length ss" "ss ! i = Some rs" "rs_lent rs = None"
    and r: "rs_addr rs' = rs_addr rs" "rs_lent rs' = Some ne"
  shows "link_at ce' a le e \<longleftrightarrow> link_at ce a le e \<or> le = ne \<and> e = lent_item (Some (rs_addr rs)) a (int i)" (is "?l \<longleftrightarrow> ?r")
proof
  assume ?l
  then obtain j rs2 where j: "(if j = i then Some rs' else slot ss j) = Some rs2" "rs_lent rs2 = Some le" "e = lent_item (Some (rs_addr rs2)) a (int j)"
    unfolding link_pos [OF ok'] slot_update [OF i(1)] by blast
  show ?r
  proof (cases "j = i")
    case True
    then show ?thesis using j r by simp
  next
    case False
    then show ?thesis using j unfolding link_pos [OF ok] by auto
  qed
next
  assume ?r
  then consider j rs2 where "slot ss j = Some rs2" "rs_lent rs2 = Some le" "e = lent_item (Some (rs_addr rs2)) a (int j)"
    | "le = ne" "e = lent_item (Some (rs_addr rs)) a (int i)" unfolding link_pos [OF ok] by blast
  then show ?l
  proof cases
    case 1
    then have "j \<noteq> i" using i by (auto simp: slot_def)
    then show ?thesis using 1 unfolding link_pos [OF ok'] slot_update [OF i(1)] by (intro exI [of _ j] exI [of _ rs2]) simp
  next
    case 2
    then show ?thesis using r unfolding link_pos [OF ok'] slot_update [OF i(1)] by (intro exI [of _ i] exI [of _ rs']) simp
  qed
qed

lemma insert_set_inv:
  assumes inv: "cache_inv xs m P d k c" and C: "dc_cents c a = Some ce" and ok: "pos_ok ce ss"
    and i: "i < length ss" "ss ! i = Some rs" "rs_lent rs = None"
  shows "\<exists>b c' ce' xs' l. insert_rrl fails (Some i) a c = Some (b, c') \<and> dc_cents c' = (dc_cents c)(a \<mapsto> ce') \<and>
    pos_ok ce' (ss[i := Some (link_set l rs)]) \<and> same_head ce ce' \<and> ce_flags ce' = ce_flags ce \<and> ce_cs ce' = ce_cs ce \<and> cache_inv xs' m P d k c' \<and>
    length xs' \<le> Suc (length xs) \<and> dc_cache_size c' = dc_cache_size c \<and> dc_table c' = dc_table c \<and> dc_mallocs c \<le> dc_mallocs c' \<and>
    (b \<longrightarrow> l \<noteq> None \<or> local_set rs \<or> local_cent ce) \<and> (\<not> b \<longrightarrow> l = None) \<and> ((\<forall>n. \<not> fails n) \<longrightarrow> b)"
proof -
  note I = cache_invD [OF inv]
  have pc: "pos_cent ce ss" using ok by (simp add: pos_ok_def)
  have ix: "RRARR_INDEX ce i = Some (Some rs)" using pos_index [OF pc, of i] i by (simp add: list_at_def)
  have ss: "ss[i := Some (link_set None rs)] = ss" using i by (metis link_set_simps(8) list_update_id)
  show ?thesis
  proof (cases "local_set rs \<or> local_cent ce")
    case True
    then have "insert_rrl fails (Some i) a c = Some (True, c)" using C ix by (simp add: insert_rrl_def local_set_def local_cent_def)
    moreover have "dc_cents c = (dc_cents c)(a \<mapsto> ce)" using C by (simp add: fun_upd_idem)
    ultimately show ?thesis using True inv ok ss by (intro exI [of _ True] exI [of _ c] exI [of _ ce] exI [of _ xs] exI [of _ None]) simp
  next
    case nl: False
    show ?thesis
    proof (cases rule: cache_malloc_cases [of fails c])
      case (none c1)
      then have "insert_rrl fails (Some i) a c = Some (False, c1)"
        using nl C ix by (simp add: insert_rrl_def local_set_def local_cent_def)
      moreover have "cache_inv xs m P d k c1" by (rule frame_inv [OF inv none(2-4)])
      moreover have "dc_cents c1 = (dc_cents c)(a \<mapsto> ce)" "dc_cache_size c1 = dc_cache_size c" "dc_table c1 = dc_table c" "dc_mallocs c \<le> dc_mallocs c1"
        using C none(2) by (simp_all add: frame_def fun_upd_idem)
      moreover have "\<not> (\<forall>n. \<not> fails n)" using none(5) by blast
      ultimately show ?thesis using ok ss by (intro exI [of _ False] exI [of _ c1] exI [of _ ce] exI [of _ xs] exI [of _ None]) simp
    next
      case (some ne c1)
      have f: "dc_cents c1 = dc_cents c" "dc_table c1 = dc_table c" "dc_cache_size c1 = dc_cache_size c" "dc_ent_num c1 = dc_ent_num c"
        "dc_insert_sort c1 = dc_insert_sort c" using some(2) by (simp_all add: frame_def)
      let ?e = "\<lparr>le_next = None, le_prev = None, le_rrset = Some (rs_addr rs), le_cent = a, le_idx = int i\<rparr>"
      have it: "strip ?e = lent_item (Some (rs_addr rs)) a (int i)" by (simp add: strip_def lent_item_def)
      have e: "get_rrlent_ts c ?e = Some (rs_ts rs)" "le_next ?e = None" "le_prev ?e = None"
        using C ix by (simp_all add: get_rrlent_ts_def le_deref_def)
      obtain l ys where l: "rrl_link (get_rrlent_ts c) (dc_insert_sort c) (dc_mallocs c) ?e (dc_rrl c) = Some l" "rl_rep l ys"
        "set ys = insert (dc_mallocs c) (set xs)" "length ys = Suc (length xs)"
        "items (rl_ents l) = (items (rl_ents (dc_rrl c)))(dc_mallocs c \<mapsto> strip ?e)"
        using new_link [OF inv e] by (elim exE conjE) (rule that)
      obtain da where da: "rrarr_put ce i (Some (link_set (Some ne) rs)) = Some (ce\<lparr>ce_data := da\<rparr>)"
        "pos_ok (ce\<lparr>ce_data := da\<rparr>) (ss[i := Some (link_set (Some ne) rs)])" "cent_blocks (ce\<lparr>ce_data := da\<rparr>) = cent_blocks ce"
        using put_head_ok [OF ok i(1,2), of "link_set (Some ne) rs"] by auto
      let ?ce = "ce\<lparr>ce_data := da\<rparr>" and ?c = "c1\<lparr>dc_rrl := l, dc_cents := (dc_cents c1)(a \<mapsto> ce\<lparr>ce_data := da\<rparr>)\<rparr>"
      have h: "same_head ce ?ce" by (simp add: same_head_def)
      have r: "insert_rrl fails (Some i) a c = Some (True, ?c)"
        using nl C ix some(1,3,5) l(1) da(1) f(5) ts_cong [OF f(1)]
        by (simp add: insert_rrl_def local_set_def local_cent_def link_set_def)
      have v: "cache_inv ys m P d k ?c"
      proof (rule link_added_inv [OF inv C l(2-5)])
        show "cent_ok ?ce" by (rule pos_cent_ok [OF da(2)]) (use I(5) [OF C] same_head_named [OF h] in \<open>simp add: cent_ok_def\<close>)
        show "link_at ?ce a le e' \<longleftrightarrow> link_at ce a le e' \<or> le = dc_mallocs c \<and> e' = strip ?e" for le e'
          unfolding it some(5) [symmetric] by (rule link_put [OF ok da(2) i]) simp_all
        show "cent_blocks ?ce = cent_blocks ce" by (rule da(3))
      qed (use f some in simp_all)
      have sub: "length ys \<le> Suc (length xs)" using l(4) by simp
      have p: "dc_cents ?c = (dc_cents c)(a \<mapsto> ?ce)" "dc_cache_size ?c = dc_cache_size c" "dc_table ?c = dc_table c" "dc_mallocs c \<le> dc_mallocs ?c"
        using f some(6) by simp_all
      show ?thesis by (intro exI [of _ True] exI [of _ ?c] exI [of _ ?ce] exI [of _ ys] exI [of _ "Some ne"] conjI)
        (rule r p v sub h | (rule da(2)) | simp)+
    qed
  qed
qed


text \<open>The same for a negative entry.\<close>

lemma insert_neg_inv:
  assumes inv: "cache_inv xs m P d k c" and C: "dc_cents c a = Some ce" and n: "is_neg ce" "ce_data ce = Neg None t s"
  shows "\<exists>b c' ce' xs' l. insert_rrl fails None a c = Some (b, c') \<and> dc_cents c' = (dc_cents c)(a \<mapsto> ce') \<and>
    ce' = ce\<lparr>ce_data := Neg l t s\<rparr> \<and> cache_inv xs' m P d k c' \<and>
    length xs' \<le> Suc (length xs) \<and> dc_cache_size c' = dc_cache_size c \<and> dc_table c' = dc_table c \<and> dc_mallocs c \<le> dc_mallocs c' \<and>
    (b \<longrightarrow> l \<noteq> None \<or> local_cent ce) \<and> (\<not> b \<longrightarrow> l = None) \<and> ((\<forall>n. \<not> fails n) \<longrightarrow> b)"
proof -
  note I = cache_invD [OF inv]
  have ce: "ce\<lparr>ce_data := Neg None t s\<rparr> = ce" using n(2) by simp
  have st: "dc_cents c = (dc_cents c)(a \<mapsto> ce)" using C by (simp add: fun_upd_idem)
  show ?thesis
  proof (cases "local_cent ce")
    case True
    then have "insert_rrl fails None a c = Some (True, c)" using C by (simp add: insert_rrl_def local_cent_def)
    then show ?thesis using True inv ce st by (intro exI [of _ True] exI [of _ c] exI [of _ ce] exI [of _ xs] exI [of _ None]) simp
  next
    case nl: False
    show ?thesis
    proof (cases rule: cache_malloc_cases [of fails c])
      case (none c1)
      then have "insert_rrl fails None a c = Some (False, c1)" using nl C by (simp add: insert_rrl_def local_cent_def)
      moreover have "dc_cents c1 = (dc_cents c)(a \<mapsto> ce)" "dc_cache_size c1 = dc_cache_size c" "dc_table c1 = dc_table c" "dc_mallocs c \<le> dc_mallocs c1"
        using C none(2) by (simp_all add: frame_def fun_upd_idem)
      moreover have "\<not> (\<forall>n. \<not> fails n)" using none(5) by blast
      ultimately show ?thesis using ce frame_inv [OF inv none(2-4)]
        by (intro exI [of _ False] exI [of _ c1] exI [of _ ce] exI [of _ xs] exI [of _ None]) simp
    next
      case (some ne c1)
      have f: "dc_cents c1 = dc_cents c" "dc_table c1 = dc_table c" "dc_cache_size c1 = dc_cache_size c" "dc_ent_num c1 = dc_ent_num c"
        "dc_insert_sort c1 = dc_insert_sort c" using some(2) by (simp_all add: frame_def)
      let ?e = "\<lparr>le_next = None, le_prev = None, le_rrset = None, le_cent = a, le_idx = - 1\<rparr>"
      have it: "strip ?e = lent_item None a (- 1)" by (simp add: strip_def lent_item_def)
      have e: "get_rrlent_ts c ?e = Some s" "le_next ?e = None" "le_prev ?e = None" using C n by (simp_all add: get_rrlent_ts_def)
      obtain l ys where l: "rrl_link (get_rrlent_ts c) (dc_insert_sort c) (dc_mallocs c) ?e (dc_rrl c) = Some l" "rl_rep l ys"
        "set ys = insert (dc_mallocs c) (set xs)" "length ys = Suc (length xs)"
        "items (rl_ents l) = (items (rl_ents (dc_rrl c)))(dc_mallocs c \<mapsto> strip ?e)"
        using new_link [OF inv e] by (elim exE conjE) (rule that)
      let ?ce = "ce\<lparr>ce_data := Neg (Some ne) t s\<rparr>" and ?c = "c1\<lparr>dc_rrl := l, dc_cents := (dc_cents c1)(a \<mapsto> ce\<lparr>ce_data := Neg (Some ne) t s\<rparr>)\<rparr>"
      have h: "is_neg ?ce" using n by (simp add: is_neg_def)
      have r: "insert_rrl fails None a c = Some (True, ?c)"
        using nl C n some(1,3,5) l(1) f(5) ts_cong [OF f(1)] by (simp add: insert_rrl_def local_cent_def)
      have v: "cache_inv ys m P d k ?c"
      proof (rule link_added_inv [OF inv C l(2-5)])
        show "cent_ok ?ce" using I(5) [OF C] cent_ok_neg [OF I(5) [OF C] n(1)] h
          by (auto simp: cent_ok_def named_def neg_ok_def base_size_def)
        show "link_at ?ce a le e' \<longleftrightarrow> link_at ce a le e' \<or> le = dc_mallocs c \<and> e' = strip ?e" for le e'
          unfolding link_neg [OF h] link_neg [OF n(1)] it using n(2) some(5) by auto
        show "cent_blocks ?ce = cent_blocks ce" using n(2) by (simp add: cent_blocks_def)
      qed (use f some in simp_all)
      have sub: "length ys \<le> Suc (length xs)" using l(4) by simp
      have p: "dc_cents ?c = (dc_cents c)(a \<mapsto> ?ce)" "dc_cache_size ?c = dc_cache_size c" "dc_table ?c = dc_table c" "dc_mallocs c \<le> dc_mallocs ?c"
        using f some(6) by simp_all
      show ?thesis by (intro exI [of _ True] exI [of _ ?c] exI [of _ ?ce] exI [of _ ys] exI [of _ "Some ne"] conjI) (rule r p v sub | simp)+
    qed
  qed
qed


subsection \<open>An entry that is changed\<close>

text \<open>
  The entry at \<open>a\<close> is in the hands of an operation: \<open>ce\<close> is its current value, and its size is not part of
  \<open>cache_size\<close>.
\<close>

definition held :: "nat \<Rightarrow> nat list \<Rightarrow> (byte list list \<Rightarrow> nat option) \<Rightarrow> nat set \<Rightarrow> int \<Rightarrow> dns_cent \<Rightarrow> dcache \<Rightarrow> bool" where
  "held a xs m P k ce c \<longleftrightarrow> cache_inv xs m P (ce_cs ce) k (cent_store a ce c)"

lemma held_ok: "held a xs m P k ce c \<Longrightarrow> cent_ok ce" "held a xs m P k ce c \<Longrightarrow> rl_rep (dc_rrl c) xs"
  "held a xs m P k ce c \<Longrightarrow> set (cent_lents ce) \<subseteq> set xs" "held a xs m P k ce c \<Longrightarrow> distinct (cent_lents ce)"
  using cache_inv_links [of xs m P "ce_cs ce" k "cent_store a ce c" a ce] cache_invD(1) [of xs m P "ce_cs ce" k "cent_store a ce c"]
  by (simp_all add: held_def)

lemma held_pos: "held a xs m P k ce c \<Longrightarrow> \<not> is_neg ce \<Longrightarrow> pos_ok ce (sets0 ce)"
  using held_ok(1) cent_ok_sets0 by blast

lemma held_store [simp]: "held a xs m P k ce (cent_store a ce' c) = held a xs m P k ce c"
  by (simp add: held_def)

lemma held_size: "held a xs m P k ce c \<Longrightarrow> cache_inv xs m P 0 k ((cent_store a ce c)\<lparr>dc_cache_size := dc_cache_size c + ce_cs ce\<rparr>)"
  using sub_cache_size_inv [of xs m P "ce_cs ce" k "cent_store a ce c" "- ce_cs ce"]
  by (simp add: held_def sub_cache_size_def cent_store_def)

lemma held_update:
  assumes h: "held a xs m P k ce c" and eff: "effect xs c (cent_blocks ce' - cent_blocks ce) L c'"
    and ok: "cent_ok ce'" and nm: "ce_qname ce' = ce_qname ce"
    and LL: "\<And>le e. link_at ce' a le e \<longleftrightarrow> link_at ce a le e \<and> le \<notin> set L" and L: "set L \<subseteq> set (cent_lents ce)" "distinct L"
  shows "held a (filter (\<lambda>x. x \<notin> set L) xs) m P k ce' c'"
proof -
  have "cache_inv (filter (\<lambda>x. x \<notin> set L) xs) m P (ce_cs ce - ce_cs ce + ce_cs ce') k (cent_store a ce' (cent_store a ce c'))"
    by (rule cent_update [OF h [unfolded held_def] _ effect_store [OF eff] ok nm refl LL L]) simp
  then show ?thesis by (simp add: held_def)
qed

text \<open>Nothing happens to the links.\<close>

lemma held_same:
  assumes h: "held a xs m P k ce c" and f: "frame c c'" "dc_rrl c' = dc_rrl c" "dc_live c' = dc_live c + (cent_blocks ce' - cent_blocks ce)"
    and ok: "cent_ok ce'" and nm: "ce_qname ce' = ce_qname ce" and LL: "\<And>le e. link_at ce' a le e \<longleftrightarrow> link_at ce a le e"
  shows "held a xs m P k ce' c'"
proof -
  have "effect xs c (0 + (cent_blocks ce' - cent_blocks ce)) [] c'" by (rule effect_live [OF effect_refl [OF held_ok(2) [OF h]] f(3,2,1)])
  then have "held a (filter (\<lambda>x. x \<notin> set []) xs) m P k ce' c'" by (intro held_update [OF h _ ok nm]) (use LL in simp_all)
  then show ?thesis by simp
qed

text \<open>Only flags and references change.\<close>

lemma held_head:
  assumes h: "held a xs m P k ce c" and s: "ce_qname ce' = ce_qname ce" "ce_cs ce' = ce_cs ce" "ce_num_rrs ce' = ce_num_rrs ce"
    "ce_data ce' = ce_data ce" "is_neg ce' = is_neg ce"
  shows "held a xs m P k ce' c"
proof (rule held_same [OF h])
  have "cent_sets ce' = cent_sets ce" "base_size ce' = base_size ce" "named ce' = named ce" "pos_cent ce' = pos_cent ce"
    using s by (simp_all add: cent_sets_def base_size_def named_def pos_cent_def fun_eq_iff)
  moreover from this(1) have "cent_blocks ce' = cent_blocks ce" unfolding cent_blocks_def s(4) by (cases "ce_data ce") simp_all
  ultimately show "cent_ok ce'" "\<And>le e. link_at ce' a le e \<longleftrightarrow> link_at ce a le e" "dc_live c = dc_live c + (cent_blocks ce' - cent_blocks ce)"
    using held_ok(1) [OF h] s by (simp_all add: cent_ok_def neg_ok_def pos_ok_def link_at_def sets0_def)
qed (use s in simp_all)

lemma held_del:
  assumes h: "held a xs m P k ce c" and i: "i < NRRTOT"
  shows "\<exists>rv ce' c' xs'. del_cent_rrset_by_index ce i c = Some ((rv, ce'), c') \<and> held a xs' m P k ce' c' \<and> length xs' \<le> length xs \<and>
    same_head ce ce' \<and> is_neg ce' = is_neg ce \<and> sets0 ce' = (sets0 ce)[i := None] \<and> frame c c' \<and> (is_neg ce \<longrightarrow> ce_data ce' = ce_data ce)"
proof -
  obtain rv ce' c' where d: "del_cent_rrset_by_index ce i c = Some ((rv, ce'), c')"
    "cache_inv (filter (\<lambda>x. x \<notin> set (slot_lents (slot (sets0 ce) i))) xs) m P (ce_cs ce - rv) k (cent_store a ce' c')"
    "ce_cs ce' = ce_cs ce - rv" "same_head ce ce'" "is_neg ce' = is_neg ce" "sets0 ce' = (sets0 ce)[i := None]" "frame c c'"
    "is_neg ce \<longrightarrow> ce' = ce \<and> c' = c" using del_slot_gen [OF h [unfolded held_def] i] by (elim exE conjE) (rule that)
  let ?xs = "filter (\<lambda>x. x \<notin> set (slot_lents (slot (sets0 ce) i))) xs"
  have "held a ?xs m P k ce' c'" using d(2,3) by (simp add: held_def)
  moreover have "length ?xs \<le> length xs" by (rule length_filter_le)
  ultimately show ?thesis using d(1,4-8) by (intro exI conjI) (assumption | simp)+
qed


subsection \<open>Conflicts\<close>

text \<open>Sets of an entry gone, nothing else changed.\<close>

definition fewer_sets :: "dns_cent \<Rightarrow> dns_cent \<Rightarrow> bool" where
  "fewer_sets ce ce' \<longleftrightarrow> same_head ce ce' \<and> is_neg ce' = is_neg ce \<and> length (sets0 ce') = length (sets0 ce) \<and>
     (is_neg ce \<longrightarrow> ce_data ce' = ce_data ce) \<and> (\<forall>i. slot (sets0 ce') i = slot (sets0 ce) i \<or> slot (sets0 ce') i = None)"

lemma fewer_sets_refl [simp]: "fewer_sets ce ce"
  by (simp add: fewer_sets_def)

lemma fewer_sets_trans: "fewer_sets ce ce1 \<Longrightarrow> fewer_sets ce1 ce2 \<Longrightarrow> fewer_sets ce ce2"
  unfolding fewer_sets_def using same_head_trans by metis

lemma fewer_del: "same_head ce ce' \<Longrightarrow> is_neg ce' = is_neg ce \<Longrightarrow> sets0 ce' = (sets0 ce)[i := None] \<Longrightarrow>
    (is_neg ce \<longrightarrow> ce_data ce' = ce_data ce) \<Longrightarrow> fewer_sets ce ce'"
  by (simp add: fewer_sets_def slot_update_None)

lemma held_index:
  assumes "held a xs m P k ce c" "\<not> is_neg ce" "i < length (sets0 ce)"
  shows "RRARR_INDEX ce i = Some (slot (sets0 ce) i)" "i < NRRTOT"
proof -
  have p: "pos_cent ce (sets0 ce)" using held_pos [OF assms(1,2)] by (simp add: pos_ok_def)
  show "RRARR_INDEX ce i = Some (slot (sets0 ce) i)" using pos_index [OF p, of i] assms(3) by (simp add: list_at_def slot_def)
  show "i < NRRTOT" using p assms(3) by (auto simp: pos_cent_def less_trans [OF _ nrr_simps(1)])
qed

lemma held_len: "held a xs m P k ce c \<Longrightarrow> RRARR_LEN ce = Some (if is_neg ce then 0 else length (sets0 ce))"
  using pos_len [of ce "sets0 ce"] held_pos [of a xs m P k ce c] by (auto simp: RRARR_LEN_def pos_ok_def)

lemma held_slot_len: "slot ss i = Some rs \<Longrightarrow> i < length ss \<and> ss ! i = Some rs"
  by (simp add: slot_def split: if_splits)

lemma cr_scan_total:
  assumes "held a xs m P k ce c" "\<not> is_neg ce" "i + n \<le> length (sets0 ce)"
  shows "cr_scan now idx ce i n acc \<noteq> None"
  using assms(3)
proof (induction n arbitrary: i acc)
  case 0
  then show ?case by (cases acc) simp
next
  case (Suc n)
  have x: "RRARR_INDEX ce i = Some (slot (sets0 ce) i)" using held_index(1) [OF assms(1,2)] Suc.prems by simp
  have IH: "cr_scan now idx ce (Suc i) n acc \<noteq> None" for acc using Suc.IH [of "Suc i"] Suc.prems by simp
  obtain a b where "acc = (a, b)" by (cases acc)
  then show ?case using x IH by (auto simp: Let_def split: option.split)
qed

lemma cr_scan_local:
  assumes h: "held a xs m P k ce c" "\<not> is_neg ce" and "i + n \<le> length (sets0 ce)" "cr_scan now idx ce i n acc = Some (True, r)"
  shows "i \<le> j \<Longrightarrow> j < i + n \<Longrightarrow> slot (sets0 ce) j = Some rs \<Longrightarrow> set_conflicts idx j (Some rs) \<Longrightarrow> \<not> local_set rs"
  using assms(3,4)
proof (induction n arbitrary: i acc)
  case (Suc n)
  have x: "RRARR_INDEX ce i = Some (slot (sets0 ce) i)" using held_index(1) [OF h] Suc.prems(5) by simp
  obtain b d where acc: "acc = (b, d)" by (cases acc)
  have l: "Suc i + n \<le> length (sets0 ce)" using Suc.prems(5) by simp
  have nx: "\<exists>acc'. cr_scan now idx ce (Suc i) n acc' = Some (True, r)"
    using Suc.prems(6) x by (auto simp: acc Let_def split: option.splits if_splits)
  show ?case
  proof (cases "j = i")
    case True
    then show ?thesis using Suc.prems(3,4,6) x by (auto simp: acc local_set_def split: if_splits)
  next
    case False
    then show ?thesis using Suc.IH [of "Suc i"] nx Suc.prems(1-4) l by auto
  qed
qed simp

lemma cr_delete_held:
  assumes "held a xs m P k ce c" "\<not> is_neg ce" "i + n \<le> length (sets0 ce)"
  shows "\<exists>ce' c' xs'. cr_delete idx i n ce c = Some (ce', c') \<and> held a xs' m P k ce' c' \<and> length xs' \<le> length xs \<and> fewer_sets ce ce' \<and> frame c c' \<and>
    (\<forall>j. slot (sets0 ce') j = slot (sets0 ce) j \<or> set_conflicts idx j (slot (sets0 ce) j))"
  using assms
proof (induction n arbitrary: i ce c xs)
  case 0
  then show ?case by (intro exI [of _ ce] exI [of _ c] exI [of _ xs]) simp
next
  case (Suc n)
  have x: "RRARR_INDEX ce i = Some (slot (sets0 ce) i)" "i < NRRTOT" using held_index [OF Suc.prems(1,2)] Suc.prems(3) by simp_all
  show ?case
  proof (cases "set_conflicts idx i (slot (sets0 ce) i)")
    case True
    obtain rv ce1 c1 xs1 where d: "del_cent_rrset_by_index ce i c = Some ((rv, ce1), c1)" "held a xs1 m P k ce1 c1" "length xs1 \<le> length xs"
      "same_head ce ce1" "is_neg ce1 = is_neg ce" "sets0 ce1 = (sets0 ce)[i := None]" "frame c c1"
      "is_neg ce \<longrightarrow> ce_data ce1 = ce_data ce" using held_del [OF Suc.prems(1) x(2)] by (elim exE conjE) (rule that)
    have n: "\<not> is_neg ce1" "Suc i + n \<le> length (sets0 ce1)" using d(5,6) Suc.prems(2,3) by simp_all
    obtain ce2 c2 xs2 where R: "cr_delete idx (Suc i) n ce1 c1 = Some (ce2, c2)" "held a xs2 m P k ce2 c2" "length xs2 \<le> length xs1"
      "fewer_sets ce1 ce2" "frame c1 c2" "\<forall>j. slot (sets0 ce2) j = slot (sets0 ce1) j \<or> set_conflicts idx j (slot (sets0 ce1) j)"
      using Suc.IH [OF d(2) n] by (elim exE conjE) (rule that)
    have "cr_delete idx i (Suc n) ce c = Some (ce2, c2)" using x(1) True d(1) R(1) by simp
    moreover have "fewer_sets ce ce2" using fewer_sets_trans [OF fewer_del [OF d(4-6,8)] R(4)] .
    moreover have "slot (sets0 ce2) j = slot (sets0 ce) j \<or> set_conflicts idx j (slot (sets0 ce) j)" for j
      using R(6) [rule_format, of j] True unfolding d(6) slot_update_None by (cases "j = i") simp_all
    ultimately show ?thesis using R(2) le_trans [OF R(3) d(3)] frame_trans [OF d(7) R(5)] by (intro exI conjI allI) assumption+
  next
    case False
    have "Suc i + n \<le> length (sets0 ce)" using Suc.prems(3) by simp
    from Suc.IH [OF Suc.prems(1,2) this] show ?thesis using x(1) False by simp
  qed
qed

lemma rr_info_len: "length rr_info = NRRTOT"
  by (simp add: rr_info_def NRRTOT_def Let_def)

lemma cr_check_add_held:
  assumes h: "held a xs m P k ce c" and i: "idx < NRRTOT"
  shows "\<exists>ok ce' c' xs'. cr_check_add now ce idx ttl ts flags c = Some ((ok, ce'), c') \<and> held a xs' m P k ce' c' \<and> length xs' \<le> length xs \<and>
    fewer_sets ce ce' \<and> frame c c' \<and>
    (\<not> has_flag flags CF_LOCAL \<longrightarrow> (\<forall>j rs. slot (sets0 ce) j = Some rs \<longrightarrow> local_set rs \<longrightarrow> slot (sets0 ce') j = Some rs))"
proof -
  have same: ?thesis if "cr_check_add now ce idx ttl ts flags c = Some ((ok, ce), c)" for ok using h that by fastforce
  show ?thesis
  proof (cases "has_flag flags CF_NEGATIVE")
    case True
    then show ?thesis using same by (simp add: cr_check_add_def)
  next
    case pos: False
    note L = held_len [OF h]
    have idx: "\<not> NRRTOT \<le> idx" using i by simp
    let ?n = "if is_neg ce then 0 else length (sets0 ce)"
    let ?sc = "if has_flag flags CF_LOCAL then Some (True, - 1, 0)
           else if has_flag (ce_flags ce) DF_LOCAL then Some (False, 0, 0)
           else cr_scan now idx ce 0 ?n (0, 0)"
    have "?sc \<noteq> None" using cr_scan_total [OF h, of 0 ?n now idx "(0, 0)"] by (cases "is_neg ce") auto
    then obtain ok ncf nttl where sc: "?sc = Some (ok, ncf, nttl)" by (metis option.exhaust prod_cases3)
    have e: "cr_check_add now ce idx ttl ts flags c =
        (if \<not> ok then Some ((False, ce), c)
        else if \<not> has_flag flags CF_LOCAL \<and> ncf = 0 then Some ((True, ce), c)
        else if has_flag flags CF_LOCAL \<or> ttl > nttl div ncf then do { (ce, c) \<leftarrow> cr_delete idx 0 ?n ce c; Some ((True, ce), c) }
        else Some ((False, ce), c))"
      using pos idx L sc by (simp add: cr_check_add_def rr_info_len)
    show ?thesis
    proof (cases "is_neg ce")
      case True
      then show ?thesis using same e by (auto split: if_splits)
    next
      case False
      obtain ce' c' xs' where "cr_delete idx 0 (length (sets0 ce)) ce c = Some (ce', c')" "held a xs' m P k ce' c'" "length xs' \<le> length xs"
        "fewer_sets ce ce'" "frame c c'" "\<forall>j. slot (sets0 ce') j = slot (sets0 ce) j \<or> set_conflicts idx j (slot (sets0 ce) j)"
        using cr_delete_held [OF h False, of 0 "length (sets0 ce)" idx] by auto
      note D = this
      have del: ?thesis if e: "cr_check_add now ce idx ttl ts flags c = do { (ce, c) \<leftarrow> cr_delete idx 0 ?n ce c; Some ((True, ce), c) }" and ok: ok
      proof -
        have "slot (sets0 ce') j = Some rs" if nl: "\<not> has_flag flags CF_LOCAL" and s: "slot (sets0 ce) j = Some rs" "local_set rs" for j rs
        proof (rule ccontr)
          assume "slot (sets0 ce') j \<noteq> Some rs"
          then have cf: "set_conflicts idx j (Some rs)" using D(6) s(1) by metis
          have "cr_scan now idx ce 0 (length (sets0 ce)) (0, 0) = Some (True, ncf, nttl)"
            using sc nl ok False by (simp split: if_splits)
          from cr_scan_local [OF h False _ this, of j rs] show False using cf s held_slot_len [OF s(1)] by simp
        qed
        then show ?thesis using e D(1-5) False by (intro exI [of _ True] exI [of _ ce'] exI [of _ c'] exI [of _ xs']) simp
      qed
      consider "\<not> ok" | "ok" "\<not> has_flag flags CF_LOCAL \<and> ncf = 0" | "ok" "\<not> (\<not> has_flag flags CF_LOCAL \<and> ncf = 0)" "has_flag flags CF_LOCAL \<or> ttl > nttl div ncf"
        | "ok" "\<not> (\<not> has_flag flags CF_LOCAL \<and> ncf = 0)" "\<not> (has_flag flags CF_LOCAL \<or> ttl > nttl div ncf)" by blast
      then show ?thesis
      proof cases
        case 1
        then show ?thesis by (intro same [of False]) (simp add: e)
      next
        case 2
        then show ?thesis by (intro same [of True]) (simp add: e)
      next
        case 3
        then show ?thesis by (intro del) (simp_all only: e not_True_eq_False if_False if_True)
      next
        case 4
        then show ?thesis by (intro same [of False]) (simp add: e)
      qed
    qed
  qed
qed


subsection \<open>Sets added\<close>

text \<open>The link of the set in a slot, and the address of the set.\<close>

definition set_link :: "rr_set option list \<Rightarrow> nat \<Rightarrow> (nat \<times> nat) option" where
  "set_link ss j = (case slot ss j of None \<Rightarrow> None | Some rs \<Rightarrow> map_option (\<lambda>l. (l, rs_addr rs)) (rs_lent rs))"

lemma link_set_link: "pos_ok ce ss \<Longrightarrow> link_at ce a le e \<longleftrightarrow> (\<exists>i p. set_link ss i = Some (le, p) \<and> e = lent_item (Some p) a (int i))"
  unfolding link_pos by (auto simp: set_link_def split: option.splits)

text \<open>An entry that gets sets without links, and is no longer negative.\<close>

lemma held_sets:
  assumes h: "held a xs m P k ce c" and eff: "effect xs c (cent_blocks ce' - cent_blocks ce) (if is_neg ce then cent_lents ce else []) c'"
    and ok: "pos_ok ce' ss" "same_head ce ce'" and sl: "\<forall>j. set_link ss j = set_link (sets0 ce) j"
  shows "\<exists>xs'. held a xs' m P k ce' c' \<and> length xs' \<le> length xs"
proof -
  have o: "cent_ok ce" using held_ok(1) [OF h] .
  have ok': "cent_ok ce'" using pos_cent_ok [OF ok(1)] same_head_named [OF ok(2)] o by (simp add: cent_ok_def)
  let ?L = "if is_neg ce then cent_lents ce else []"
  have LL: "link_at ce' a le e \<longleftrightarrow> link_at ce a le e \<and> le \<notin> set ?L" for le e
  proof (cases "is_neg ce")
    case True
    have "set_link ss j = None" for j using sl slot_sets0 [OF True] by (simp add: set_link_def)
    then have "\<not> link_at ce' a le e" unfolding link_set_link [OF ok(1)] by simp
    then show ?thesis using True mem_cent_lents [OF o, of le a] by auto
  next
    case False
    then show ?thesis using link_set_link [OF ok(1)] link_set_link [OF cent_ok_sets0 [OF o False]] sl by simp
  qed
  have "held a (filter (\<lambda>x. x \<notin> set ?L) xs) m P k ce' c'"
    by (rule held_update [OF h eff ok' _ LL]) (use ok(2) held_ok(4) [OF h] in \<open>auto simp: same_head_def\<close>)
  then show ?thesis by (intro exI conjI) (assumption, rule length_filter_le)
qed

lemma sets0_length: "cent_ok ce \<Longrightarrow> length (sets0 ce) = NRRMU \<or> length (sets0 ce) = NRRTOT"
  using cent_ok_pos [of ce] by (auto simp: sets0_def pos_ok_def pos_cent_def)

lemma held_add_set:
  assumes h: "held a xs m P k ce c" and i: "i < NRRTOT" and free: "slot (sets0 ce) i = None"
  shows "\<exists>b ce' c' xs' p. add_cent_rrset_by_index fails ce i ttl ts flags c = Some ((b, ce'), c') \<and> held a xs' m P k ce' c' \<and>
    length xs' \<le> length xs \<and> same_head ce ce' \<and> \<not> is_neg ce' \<and> frame c c' \<and>
    (\<forall>j. slot (sets0 ce') j = (if b \<and> j = i then Some (new_set p ttl ts flags) else slot (sets0 ce) j)) \<and> ((\<forall>n. \<not> fails n) \<longrightarrow> b)"
proof -
  have l: "is_neg ce \<longrightarrow> set (cent_lents ce) \<subseteq> set xs" using held_ok(3) [OF h] by simp
  obtain b ce' c' p where A: "add_cent_rrset_by_index fails ce i ttl ts flags c = Some ((b, ce'), c')" "same_head ce ce'"
    "if b then pos_ok ce' ((room i (sets0 ce))[i := Some (new_set p ttl ts flags)])
     else pos_ok ce' (sets0 ce) \<or> pos_ok ce' (room i (sets0 ce))"
    "effect xs c (cent_blocks ce' - cent_blocks ce) (if is_neg ce then cent_lents ce else []) c'" "(\<forall>n. \<not> fails n) \<longrightarrow> b"
    using add_cent_rrset_ok [where fails = fails and ttl = ttl and ts = ts and flags = flags, OF held_ok(1) [OF h] i free held_ok(2) [OF h] l]
    by (elim exE conjE) (rule that)
  have len: "i < length (room i (sets0 ce))" using room_length [OF sets0_length [OF held_ok(1) [OF h]] i] .
  obtain ss where ss: "pos_ok ce' ss" "\<forall>j. slot ss j = (if b \<and> j = i then Some (new_set p ttl ts flags) else slot (sets0 ce) j)"
  proof (cases b)
    case True
    have "\<forall>j. slot ((room i (sets0 ce))[i := Some (new_set p ttl ts flags)]) j =
        (if b \<and> j = i then Some (new_set p ttl ts flags) else slot (sets0 ce) j)" using True by (simp add: slot_update [OF len])
    moreover have "pos_ok ce' ((room i (sets0 ce))[i := Some (new_set p ttl ts flags)])" using A(3) True by simp
    ultimately show ?thesis using that by blast
  next
    case False
    then have "pos_ok ce' (sets0 ce) \<or> pos_ok ce' (room i (sets0 ce))" using A(3) by simp
    then show ?thesis using that [of "sets0 ce"] that [of "room i (sets0 ce)"] False by auto
  qed
  have "set_link ss j = set_link (sets0 ce) j" for j
    unfolding set_link_def ss(2) [rule_format, of j] using free by (simp add: new_set_def)
  then obtain xs' where "held a xs' m P k ce' c'" "length xs' \<le> length xs" using held_sets [OF h A(4) ss(1) A(2)] by blast
  moreover have "\<forall>j. slot (sets0 ce') j = (if b \<and> j = i then Some (new_set p ttl ts flags) else slot (sets0 ce) j)"
    using ss(2) pos_sets0 [OF ss(1)] by simp
  ultimately show ?thesis using A(1,2,5) pos_not_neg [OF ss(1)] effect_frame [OF A(4)] by blast
qed

definition rr_tail :: "byte list list \<Rightarrow> nat option" where
  "rr_tail rrs = (if rrs = [] then None else Some (length rrs - 1))"

lemma held_add_rrs:
  assumes "held a xs m P k ce c" "\<not> is_neg ce" "i < NRRTOT" "slot (sets0 ce) i = Some rs" "rs_lent rs = None"
  shows "\<exists>b ce' c' rrs'. add_rrs fails ce i ttl ts flags rrs (rr_tail (rs_rrs rs)) c = Some ((b, ce'), c') \<and> held a xs m P k ce' c' \<and>
    same_head ce ce' \<and> \<not> is_neg ce' \<and> frame c c' \<and> sets0 ce' = (sets0 ce)[i := Some (rs\<lparr>rs_rrs := rrs'\<rparr>)] \<and>
    (b \<longrightarrow> rrs' = rs_rrs rs @ rrs) \<and> ((\<forall>n. \<not> fails n) \<longrightarrow> b)"
  using assms
proof (induction rrs arbitrary: ce c rs)
  case Nil
  have "(sets0 ce)[i := Some (rs\<lparr>rs_rrs := rs_rrs rs\<rparr>)] = sets0 ce" using held_slot_len [OF Nil.prems(4)] by (metis list_update_id rr_set.surjective rr_set.update_convs(6))
  then show ?case using Nil.prems by (intro exI [of _ True] exI [of _ ce] exI [of _ c] exI [of _ "rs_rrs rs"]) simp
next
  case (Cons rr rrs)
  have P: "pos_ok ce (sets0 ce)" using held_pos [OF Cons.prems(1,2)] .
  have il: "i < length (sets0 ce)" "sets0 ce ! i = Some rs" using held_slot_len [OF Cons.prems(4)] by simp_all
  have k: "\<forall>k. rr_tail (rs_rrs rs) = Some k \<longrightarrow> k < length (rs_rrs rs)" by (auto simp: rr_tail_def)
  let ?rs = "rs\<lparr>rs_rrs := rs_rrs rs @ [rr]\<rparr>"
  obtain b ce1 c1 rt where A: "add_cent_rr_int fails ce i ttl ts flags rr (rr_tail (rs_rrs rs)) c = Some ((b, ce1, rt), c1)" "same_head ce ce1"
    "if b then pos_ok ce1 ((sets0 ce)[i := Some (rs\<lparr>rs_rrs := rrs_added (rr_tail (rs_rrs rs)) rr (rs_rrs rs)\<rparr>)]) \<and>
       rt = Some (case rr_tail (rs_rrs rs) of None \<Rightarrow> 0 | Some k \<Rightarrow> Suc k) else ce1 = ce"
    "frame c c1" "dc_rrl c1 = dc_rrl c" "dc_live c1 = dc_live c + cent_blocks ce1 - cent_blocks ce" "(\<forall>n. \<not> fails n) \<longrightarrow> b"
    using add_rr_there [where fails = fails and ttl = ttl and ts = ts and flags = flags and rr = rr and c = c, OF P Cons.prems(3,4) k]
    by (elim exE conjE) (rule that)
  have add: "rrs_added (rr_tail (rs_rrs rs)) rr (rs_rrs rs) = rs_rrs rs @ [rr]" unfolding rr_tail_def by (rule rrs_added_end)
  show ?case
  proof (cases b)
    case False
    have "(sets0 ce)[i := Some (rs\<lparr>rs_rrs := rs_rrs rs\<rparr>)] = sets0 ce" using il by (metis list_update_id rr_set.surjective rr_set.update_convs(6))
    moreover have "held a xs m P k ce c1" by (rule held_same [OF Cons.prems(1) A(4,5)]) (use A(3,6) False held_ok(1) [OF Cons.prems(1)] in simp_all)
    ultimately show ?thesis using A False Cons.prems(2) by (intro exI [of _ False] exI [of _ ce] exI [of _ c1] exI [of _ "rs_rrs rs"]) simp
  next
    case True
    have P1: "pos_ok ce1 ((sets0 ce)[i := Some ?rs])" using A(3) True add by simp
    have s1: "sets0 ce1 = (sets0 ce)[i := Some ?rs]" by (rule pos_sets0 [OF P1])
    have sl: "set_link ((sets0 ce)[i := Some ?rs]) j = set_link (sets0 ce) j" for j
      unfolding set_link_def slot_update [OF il(1)] using Cons.prems(4) by simp
    have h1: "held a xs m P k ce1 c1"
    proof (rule held_same [OF Cons.prems(1) A(4,5)])
      show "cent_ok ce1" using pos_cent_ok [OF P1] same_head_named [OF A(2)] held_ok(1) [OF Cons.prems(1)] by (simp add: cent_ok_def)
      show "link_at ce1 a le e = link_at ce a le e" for le e unfolding link_set_link [OF P1] link_set_link [OF P] sl ..
    qed (use A(2,6) in \<open>simp_all add: same_head_def\<close>)
    have rt: "rt = rr_tail (rs_rrs ?rs)" using A(3) True by (auto simp: rr_tail_def)
    have sr: "slot (sets0 ce1) i = Some ?rs" unfolding s1 slot_update [OF il(1)] by simp
    have ln: "rs_lent ?rs = None" using Cons.prems(5) by simp
    obtain b' ce2 c2 rrs' where R: "add_rrs fails ce1 i ttl ts flags rrs (rr_tail (rs_rrs ?rs)) c1 = Some ((b', ce2), c2)" "held a xs m P k ce2 c2"
      "same_head ce1 ce2" "\<not> is_neg ce2" "frame c1 c2" "sets0 ce2 = (sets0 ce1)[i := Some (?rs\<lparr>rs_rrs := rrs'\<rparr>)]"
      "b' \<longrightarrow> rrs' = rs_rrs ?rs @ rrs" "(\<forall>n. \<not> fails n) \<longrightarrow> b'"
      using Cons.IH [OF h1 pos_not_neg [OF P1] Cons.prems(3) sr ln] by (elim exE conjE) (rule that)
    have "add_rrs fails ce i ttl ts flags (rr # rrs) (rr_tail (rs_rrs rs)) c = Some ((b', ce2), c2)" using A(1) True R(1) rt by simp
    moreover have "sets0 ce2 = (sets0 ce)[i := Some (rs\<lparr>rs_rrs := rrs'\<rparr>)]" using R(6) s1 by simp
    ultimately show ?thesis using R same_head_trans [OF A(2) R(3)] frame_trans [OF A(4) R(5)] by (intro exI conjI) (assumption | simp)+
  qed
qed


subsection \<open>One set replaced\<close>

lemma adjust_ttl_simps [simp]: "rs_rrs (adjust_ttl cf rs) = rs_rrs rs" "rs_lent (adjust_ttl cf rs) = rs_lent rs"
  "rs_addr (adjust_ttl cf rs) = rs_addr rs" "local_set (adjust_ttl cf rs) = local_set rs"
  by (simp_all add: adjust_ttl_def local_set_def)

lemma held_put:
  assumes h: "held a xs m P k ce c" and n: "\<not> is_neg ce" and s: "slot (sets0 ce) i = Some rs"
    and r: "rs_rrs rs' = rs_rrs rs" "rs_lent rs' = rs_lent rs" "rs_addr rs' = rs_addr rs"
  shows "\<exists>ce'. rrarr_put ce i (Some rs') = Some ce' \<and> held a xs m P k ce' c \<and> \<not> is_neg ce' \<and> same_head ce ce' \<and>
    sets0 ce' = (sets0 ce)[i := Some rs'] \<and> ce_flags ce' = ce_flags ce \<and> ce_cs ce' = ce_cs ce"
proof -
  have P: "pos_ok ce (sets0 ce)" using held_pos [OF h n] .
  have il: "i < length (sets0 ce)" "sets0 ce ! i = Some rs" using held_slot_len [OF s] by simp_all
  obtain d where d: "rrarr_put ce i (Some rs') = Some (ce\<lparr>ce_data := d\<rparr>)" "pos_ok (ce\<lparr>ce_data := d\<rparr>) ((sets0 ce)[i := Some rs'])"
    "cent_blocks (ce\<lparr>ce_data := d\<rparr>) = cent_blocks ce" using put_head_ok [OF P il r(1)] by blast
  have sh: "same_head ce (ce\<lparr>ce_data := d\<rparr>)" by (simp add: same_head_def)
  have sl: "set_link ((sets0 ce)[i := Some rs']) j = set_link (sets0 ce) j" for j
    unfolding set_link_def slot_update [OF il(1)] using s r by simp
  have "held a xs m P k (ce\<lparr>ce_data := d\<rparr>) c"
  proof (rule held_same [OF h frame_refl refl])
    show "cent_ok (ce\<lparr>ce_data := d\<rparr>)" using pos_cent_ok [OF d(2)] same_head_named [OF sh] held_ok(1) [OF h] by (simp add: cent_ok_def)
    show "link_at (ce\<lparr>ce_data := d\<rparr>) a le e = link_at ce a le e" for le e unfolding link_set_link [OF d(2)] link_set_link [OF P] sl ..
    show "dc_live c = dc_live c + (cent_blocks (ce\<lparr>ce_data := d\<rparr>) - cent_blocks ce)" unfolding d(3) by simp
  qed simp
  then show ?thesis using d(1) sh pos_not_neg [OF d(2)] pos_sets0 [OF d(2)] by simp
qed

lemma held_insert:
  assumes h: "held a xs m P k ce c" and n: "\<not> is_neg ce" and s: "slot (sets0 ce) i = Some rs" "rs_lent rs = None"
  shows "\<exists>b c' ce' xs' l. insert_rrl fails (Some i) a (cent_store a ce c) = Some (b, c') \<and> dc_cents c' = (dc_cents c)(a \<mapsto> ce') \<and>
    held a xs' m P k ce' c' \<and> length xs' \<le> Suc (length xs) \<and> \<not> is_neg ce' \<and> same_head ce ce' \<and>
    sets0 ce' = (sets0 ce)[i := Some (link_set l rs)] \<and> dc_cache_size c' = dc_cache_size c \<and> dc_table c' = dc_table c \<and>
    dc_mallocs c \<le> dc_mallocs c' \<and> (b \<longrightarrow> l \<noteq> None \<or> local_set rs \<or> local_cent ce) \<and> (\<not> b \<longrightarrow> l = None) \<and> ((\<forall>n. \<not> fails n) \<longrightarrow> b)"
proof -
  have P: "pos_ok ce (sets0 ce)" using held_pos [OF h n] .
  have il: "i < length (sets0 ce)" "sets0 ce ! i = Some rs" using held_slot_len [OF s(1)] by simp_all
  have C: "dc_cents (cent_store a ce c) a = Some ce" by simp
  obtain b c' ce' xs' l where A: "insert_rrl fails (Some i) a (cent_store a ce c) = Some (b, c')"
    "dc_cents c' = (dc_cents (cent_store a ce c))(a \<mapsto> ce')" "pos_ok ce' ((sets0 ce)[i := Some (link_set l rs)])" "same_head ce ce'"
    "ce_flags ce' = ce_flags ce" "ce_cs ce' = ce_cs ce" "cache_inv xs' m P (ce_cs ce) k c'" "length xs' \<le> Suc (length xs)"
    "dc_cache_size c' = dc_cache_size (cent_store a ce c)" "dc_table c' = dc_table (cent_store a ce c)" "dc_mallocs (cent_store a ce c) \<le> dc_mallocs c'"
    "b \<longrightarrow> l \<noteq> None \<or> local_set rs \<or> local_cent ce" "\<not> b \<longrightarrow> l = None" "(\<forall>n. \<not> fails n) \<longrightarrow> b"
    using insert_set_inv [OF h [unfolded held_def] C P il s(2), of fails] by (elim exE conjE) (rule that)
  have C': "dc_cents c' a = Some ce'" using A(2) by simp
  have "held a xs' m P k ce' c'" unfolding held_def cent_store_same [OF C'] A(6) by (rule A(7))
  moreover have "dc_cents c' = (dc_cents c)(a \<mapsto> ce')" using A(2) by simp
  ultimately show ?thesis using A(1,4,8-) pos_not_neg [OF A(3)] pos_sets0 [OF A(3)] by (intro exI conjI) (assumption | simp)+
qed

end
