(* ===== verification/CachePurgeCent.thy ===== *)
theory CachePurgeCent
  imports CacheAdd
begin

text \<open>
  Purging one entry: exactly the sets that are timed out go, and the entry itself when nothing is left of it.
\<close>

definition unexpired :: "int \<Rightarrow> rr_set option \<Rightarrow> rr_set option" where
  "unexpired now s = (case s of None \<Rightarrow> None | Some rs \<Rightarrow> if purgeable now rs then None else Some rs)"

lemma unexpired_simps [simp]: "unexpired now None = None" "\<not> purgeable now rs \<Longrightarrow> unexpired now (Some rs) = Some rs"
  "purgeable now rs \<Longrightarrow> unexpired now (Some rs) = None" "unexpired now (unexpired now s) = unexpired now s"
  by (simp_all add: unexpired_def split: option.splits)

lemma unexpired_Some: "unexpired now s = Some rs \<longleftrightarrow> s = Some rs \<and> \<not> purgeable now rs"
  by (auto simp: unexpired_def split: option.splits if_splits)

lemma sub_size_store:
  assumes "cache_inv xs m P (d - n) k (cent_store a ce c)"
  shows "cache_inv xs m P d k (cent_store a ce (sub_cache_size n c))"
  using sub_cache_size_inv [OF assms, of n] by simp

lemma from_Suc:
  assumes "\<forall>j. f j = (if Suc i \<le> j then g j else h j)" "g i = h i"
  shows "\<forall>j. f j = (if i \<le> j then g j else h j)"
proof
  fix j
  show "f j = (if i \<le> j then g j else h j)" using assms(2) assms(1) [rule_format, of j] by (cases j i rule: linorder_cases) simp_all
qed

lemma all_from_Suc: "P i \<Longrightarrow> (\<forall>j \<ge> Suc i. P j) \<longleftrightarrow> (\<forall>j \<ge> i. P j)"
  by (metis Suc_leD Suc_leI le_eq_less_or_eq)

lemma purge_sets_ok:
  assumes "cache_inv xs m P d k (cent_store a ce c)" "\<not> is_neg ce" "i + n = length (sets0 ce)"
  shows "\<exists>rv' nr' nx' ce' c' xs'. purge_sets now False i n (rv, nr, nx) ce c = Some (((rv', nr', nx'), ce'), c') \<and>
    cache_inv xs' m P d k (cent_store a ce' c') \<and> length xs' \<le> length xs \<and> fewer_sets ce ce' \<and> dc_cents c' = dc_cents c \<and>
    (\<forall>j. slot (sets0 ce') j = (if i \<le> j then unexpired now (slot (sets0 ce) j) else slot (sets0 ce) j)) \<and>
    rv \<le> rv' \<and> nr \<le> nr' \<and> nx \<le> nx' \<and> (nr' = nr \<longleftrightarrow> (\<forall>j \<ge> i. slot (sets0 ce') j = None)) \<and>
    (nx' = nx \<longrightarrow> (\<forall>j \<ge> i. NRRMU \<le> j \<longrightarrow> slot (sets0 ce') j = None))"
  using assms
proof (induction n arbitrary: i rv nr nx ce c xs)
  case 0
  have b: "slot (sets0 ce) j = None" if "i \<le> j" for j using 0(3) that by (simp add: slot_def)
  show ?case
    by (rule exI [of _ rv], rule exI [of _ nr], rule exI [of _ nx], rule exI [of _ ce], rule exI [of _ c], rule exI [of _ xs])
      (use 0 b in simp)
next
  case (Suc n)
  have C: "dc_cents (cent_store a ce c) a = Some ce" by simp
  have ok: "cent_ok ce" using cache_inv_links(3) [OF Suc.prems(1) C] .
  have x: "RRARR_INDEX ce i = Some (slot (sets0 ce) i)" "i < NRRTOT" using cent_ok_sets0 [OF ok Suc.prems(2)] Suc.prems(3)
      pos_index [of ce "sets0 ce" i] by (auto simp: pos_ok_def pos_cent_def list_at_def slot_def less_trans [OF _ nrr_simps(1)])
  have l: "Suc i + n = length (sets0 ce)" using Suc.prems(3) by simp
  show ?case
  proof (cases "slot (sets0 ce) i")
    case None
    obtain rv' nr' nx' ce' c' xs' where R: "purge_sets now False (Suc i) n (rv, nr, nx) ce c = Some (((rv', nr', nx'), ce'), c')"
      "cache_inv xs' m P d k (cent_store a ce' c')" "length xs' \<le> length xs" "fewer_sets ce ce'" "dc_cents c' = dc_cents c"
      "\<forall>j. slot (sets0 ce') j = (if Suc i \<le> j then unexpired now (slot (sets0 ce) j) else slot (sets0 ce) j)"
      "rv \<le> rv'" "nr \<le> nr'" "nx \<le> nx'" "nr' = nr \<longleftrightarrow> (\<forall>j \<ge> Suc i. slot (sets0 ce') j = None)"
      "nx' = nx \<longrightarrow> (\<forall>j \<ge> Suc i. NRRMU \<le> j \<longrightarrow> slot (sets0 ce') j = None)"
      using Suc.IH [where rv = rv and nr = nr and nx = nx, OF Suc.prems(1,2) l] by (elim exE conjE) (rule that)
    have s: "\<forall>j. slot (sets0 ce') j = (if i \<le> j then unexpired now (slot (sets0 ce) j) else slot (sets0 ce) j)"
      by (rule from_Suc [OF R(6)]) (simp add: None)
    have i: "slot (sets0 ce') i = None" using R(6) None by simp
    have z: "j \<ge> i \<Longrightarrow> j = i \<or> j \<ge> Suc i" for j by auto
    have "purge_sets now False i (Suc n) (rv, nr, nx) ce c = Some (((rv', nr', nx'), ce'), c')" using x(1) None R(1) by simp
    moreover have "nr' = nr \<longleftrightarrow> (\<forall>j \<ge> i. slot (sets0 ce') j = None)" "nx' = nx \<longrightarrow> (\<forall>j \<ge> i. NRRMU \<le> j \<longrightarrow> slot (sets0 ce') j = None)"
      using R(10,11) i z Suc_leD by blast+
    ultimately show ?thesis using R(2-5,7-9) s by (intro exI conjI) assumption+
  next
    case (Some rs)
    show ?thesis
    proof (cases "purgeable now rs")
      case True
      obtain sz ce1 c1 where D: "del_cent_rrset_by_index ce i c = Some ((sz, ce1), c1)"
        "cache_inv (filter (\<lambda>x. x \<notin> set (slot_lents (slot (sets0 ce) i))) xs) m P (d - sz) k (cent_store a ce1 c1)"
        "same_head ce ce1" "is_neg ce1 = is_neg ce" "sets0 ce1 = (sets0 ce)[i := None]" "frame c c1"
        "is_neg ce \<longrightarrow> ce1 = ce \<and> c1 = c" using del_slot_gen [OF Suc.prems(1) x(2)] by (elim exE conjE) (rule that)
      let ?xs = "filter (\<lambda>x. x \<notin> set (slot_lents (slot (sets0 ce) i))) xs"
      have p: "\<not> is_neg ce1" "Suc i + n = length (sets0 ce1)" using D(4,5) Suc.prems(2) l by simp_all
      obtain rv' nr' nx' ce' c' xs' where R: "purge_sets now False (Suc i) n (rv + 1, nr, nx) ce1 (sub_cache_size sz c1) = Some (((rv', nr', nx'), ce'), c')"
        "cache_inv xs' m P d k (cent_store a ce' c')" "length xs' \<le> length ?xs" "fewer_sets ce1 ce'" "dc_cents c' = dc_cents (sub_cache_size sz c1)"
        "\<forall>j. slot (sets0 ce') j = (if Suc i \<le> j then unexpired now (slot (sets0 ce1) j) else slot (sets0 ce1) j)"
        "rv + 1 \<le> rv'" "nr \<le> nr'" "nx \<le> nx'" "nr' = nr \<longleftrightarrow> (\<forall>j \<ge> Suc i. slot (sets0 ce') j = None)"
        "nx' = nx \<longrightarrow> (\<forall>j \<ge> Suc i. NRRMU \<le> j \<longrightarrow> slot (sets0 ce') j = None)"
        using Suc.IH [where rv = "rv + 1" and nr = nr and nx = nx, OF sub_size_store [OF D(2)] p] by (elim exE conjE) (rule that)
      have s: "\<forall>j. slot (sets0 ce') j = (if i \<le> j then unexpired now (slot (sets0 ce) j) else slot (sets0 ce) j)"
      proof
        fix j
        show "slot (sets0 ce') j = (if i \<le> j then unexpired now (slot (sets0 ce) j) else slot (sets0 ce) j)"
          using R(6) [rule_format, of j] Some True unfolding D(5) slot_update_None by (cases j i rule: linorder_cases) simp_all
      qed
      have i: "slot (sets0 ce') i = None" using s Some True by simp
      have z: "j \<ge> i \<Longrightarrow> j = i \<or> j \<ge> Suc i" for j by auto
      have "purge_sets now False i (Suc n) (rv, nr, nx) ce c = Some (((rv', nr', nx'), ce'), c')" using x(1) Some True R(1) D(1) by simp
      moreover have "nr' = nr \<longleftrightarrow> (\<forall>j \<ge> i. slot (sets0 ce') j = None)" "nx' = nx \<longrightarrow> (\<forall>j \<ge> i. NRRMU \<le> j \<longrightarrow> slot (sets0 ce') j = None)"
        using R(10,11) i z Suc_leD by blast+
      moreover have "dc_cents c' = dc_cents c" using R(5) D(6) by (simp add: frame_def)
      moreover have "length xs' \<le> length xs" by (rule le_trans [OF R(3) length_filter_le])
      moreover have "rv \<le> rv'" using R(7) by simp
      ultimately show ?thesis using R(2,8,9) s fewer_sets_trans [OF fewer_del [OF D(3-5)] R(4)] D(7) Suc.prems(2) by (intro exI conjI) (assumption | simp)+
    next
      case False
      obtain rv' nr' nx' ce' c' xs' where R: "purge_sets now False (Suc i) n (rv, nr + 1, if i \<ge> NRRMU then nx + 1 else nx) ce c = Some (((rv', nr', nx'), ce'), c')"
        "cache_inv xs' m P d k (cent_store a ce' c')" "length xs' \<le> length xs" "fewer_sets ce ce'" "dc_cents c' = dc_cents c"
        "\<forall>j. slot (sets0 ce') j = (if Suc i \<le> j then unexpired now (slot (sets0 ce) j) else slot (sets0 ce) j)"
        "rv \<le> rv'" "nr + 1 \<le> nr'" "(if i \<ge> NRRMU then nx + 1 else nx) \<le> nx'" "nr' = nr + 1 \<longleftrightarrow> (\<forall>j \<ge> Suc i. slot (sets0 ce') j = None)"
        "nx' = (if i \<ge> NRRMU then nx + 1 else nx) \<longrightarrow> (\<forall>j \<ge> Suc i. NRRMU \<le> j \<longrightarrow> slot (sets0 ce') j = None)"
        using Suc.IH [where rv = rv and nr = "nr + 1" and nx = "if i \<ge> NRRMU then nx + 1 else nx", OF Suc.prems(1,2) l] by (elim exE conjE) (rule that)
      have s: "\<forall>j. slot (sets0 ce') j = (if i \<le> j then unexpired now (slot (sets0 ce) j) else slot (sets0 ce) j)"
        by (rule from_Suc [OF R(6)]) (simp add: Some False)
      have "purge_sets now False i (Suc n) (rv, nr, nx) ce c = Some (((rv', nr', nx'), ce'), c')" using x(1) Some False R(1) by simp
      moreover have "nr' = nr \<longleftrightarrow> (\<forall>j \<ge> i. slot (sets0 ce') j = None)"
        using R(8) s Some False by (auto intro!: exI [of _ i])
      moreover have "nx' = nx \<longrightarrow> (\<forall>j \<ge> i. NRRMU \<le> j \<longrightarrow> slot (sets0 ce') j = None)"
      proof (cases "i \<ge> NRRMU")
        case True
        then show ?thesis using R(9) by simp
      next
        case f: False
        then have "NRRMU \<le> j \<Longrightarrow> j \<noteq> i" for j by auto
        then show ?thesis using R(11) f by (auto simp: Suc_le_eq)
      qed
      moreover have "nr \<le> nr'" "nx \<le> nx'" using R(8,9) by (simp_all split: if_splits)
      ultimately show ?thesis using R(2-5,7) s by (intro exI conjI) assumption+
    qed
  qed
qed

text \<open>With \<open>test\<close> nothing changes, and the count says whether something would.\<close>

lemma purge_sets_test:
  assumes "cent_ok ce" "\<not> is_neg ce" "i + n = length (sets0 ce)"
  shows "\<exists>rv' nr' nx'. purge_sets now True i n (rv, nr, nx) ce c = Some (((rv', nr', nx'), ce), c) \<and> rv \<le> rv' \<and> nr \<le> nr' \<and>
    (rv' = rv \<longrightarrow> (\<forall>j \<ge> i. unexpired now (slot (sets0 ce) j) = slot (sets0 ce) j)) \<and>
    (nr' = nr \<longleftrightarrow> (\<forall>j \<ge> i. unexpired now (slot (sets0 ce) j) = None))"
  using assms(3)
proof (induction n arbitrary: i rv nr nx)
  case 0
  then show ?case by (simp add: slot_def)
next
  case (Suc n)
  have x: "RRARR_INDEX ce i = Some (slot (sets0 ce) i)" using cent_ok_sets0 [OF assms(1,2)] Suc.prems
      pos_index [of ce "sets0 ce" i] by (simp add: pos_ok_def list_at_def slot_def)
  have l: "Suc i + n = length (sets0 ce)" using Suc.prems by simp
  have z: "j \<ge> i \<Longrightarrow> j = i \<or> j \<ge> Suc i" for j by auto
  show ?case
  proof (cases "\<exists>rs. slot (sets0 ce) i = Some rs \<and> purgeable now rs")
    case True
    obtain rv' nr' nx' where R: "purge_sets now True (Suc i) n (rv + 1, nr, nx) ce c = Some (((rv', nr', nx'), ce), c)" "rv + 1 \<le> rv'" "nr \<le> nr'"
      "nr' = nr \<longleftrightarrow> (\<forall>j \<ge> Suc i. unexpired now (slot (sets0 ce) j) = None)"
      using Suc.IH [where rv = "rv + 1" and nr = nr and nx = nx, OF l] by blast
    have "nr' = nr \<longleftrightarrow> (\<forall>j \<ge> i. unexpired now (slot (sets0 ce) j) = None)" unfolding R(4) by (rule all_from_Suc) (use True in auto)
    then show ?thesis using x True R(1-3) by (intro exI [of _ rv'] exI [of _ nr'] exI [of _ nx']) auto
  next
    case False
    then have u: "unexpired now (slot (sets0 ce) i) = slot (sets0 ce) i" by (cases "slot (sets0 ce) i") simp_all
    obtain nr1 nx1 where e: "purge_sets now True i (Suc n) (rv, nr, nx) ce c = purge_sets now True (Suc i) n (rv, nr1, nx1) ce c"
      "nr1 = (if slot (sets0 ce) i = None then nr else nr + 1)"
    proof (cases "slot (sets0 ce) i")
      case None
      then show ?thesis using x that [of nr nx] by simp
    next
      case (Some rs)
      then show ?thesis using x False that [of "nr + 1" "if i \<ge> NRRMU then nx + 1 else nx"] by auto
    qed
    obtain rv' nr' nx' where R: "purge_sets now True (Suc i) n (rv, nr1, nx1) ce c = Some (((rv', nr', nx'), ce), c)" "rv \<le> rv'" "nr1 \<le> nr'"
      "rv' = rv \<longrightarrow> (\<forall>j \<ge> Suc i. unexpired now (slot (sets0 ce) j) = slot (sets0 ce) j)"
      "nr' = nr1 \<longleftrightarrow> (\<forall>j \<ge> Suc i. unexpired now (slot (sets0 ce) j) = None)"
      using Suc.IH [where rv = rv and nr = nr1 and nx = nx1, OF l] by blast
    have "nr' = nr \<longleftrightarrow> (\<forall>j \<ge> i. unexpired now (slot (sets0 ce) j) = None)"
    proof (cases "slot (sets0 ce) i")
      case None
      then have "nr1 = nr" using e(2) by simp
      then show ?thesis using R(5) all_from_Suc [of "\<lambda>j. unexpired now (slot (sets0 ce) j) = None" i] None by simp
    next
      case (Some rs)
      then show ?thesis using R(3) e(2) u by (auto intro!: exI [of _ i])
    qed
    moreover have "rv' = rv \<longrightarrow> (\<forall>j \<ge> i. unexpired now (slot (sets0 ce) j) = slot (sets0 ce) j)"
      using R(4) all_from_Suc [of "\<lambda>j. unexpired now (slot (sets0 ce) j) = slot (sets0 ce) j" i] u by blast
    moreover have "nr \<le> nr'" using R(3) e(2) by (simp split: if_splits)
    ultimately show ?thesis using R(1,2) unfolding e(1) by (intro exI [of _ rv'] exI [of _ nr'] exI [of _ nx'] conjI) assumption+
  qed
qed


subsection \<open>All sets of an entry\<close>

text \<open>An entry without the sets that are timed out.\<close>

definition refreshed :: "int \<Rightarrow> dns_cent \<Rightarrow> dns_cent \<Rightarrow> bool" where
  "refreshed now ce ce' \<longleftrightarrow> ce_qname ce' = ce_qname ce \<and> local_cent ce' = local_cent ce \<and> is_neg ce' = is_neg ce \<and>
     (is_neg ce \<longrightarrow> ce_data ce' = ce_data ce) \<and> (\<forall>j. slot (sets0 ce') j = unexpired now (slot (sets0 ce) j))"

lemma refreshed_linked: "refreshed now ce ce' \<Longrightarrow> linked ce \<Longrightarrow> linked ce'"
  unfolding refreshed_def linked_def local_cent_def by (auto simp: unexpired_Some) (metis option.distinct(1))+

lemma slot_take: "\<forall>j \<ge> n. slot ss j = None \<Longrightarrow> slot (take n ss) j = slot ss j"
  by (cases "j < n") (simp_all add: slot_def split: if_splits)

lemma all_none_sums: "\<forall>j. slot ss j = None \<Longrightarrow> sets_sum f ss = 0"
proof (induction ss)
  case (Cons s ss)
  have "s = None" using Cons.prems [rule_format, of 0] by (simp add: slot_def)
  moreover have "slot ss j = None" for j using Cons.prems [rule_format, of "Suc j"] by (simp add: slot_def split: if_splits)
  ultimately show ?case using Cons.IH by simp
qed simp

lemma drop_ext_ok:
  assumes ok: "pos_ok ce ss" and l: "length ss \<noteq> NRRMU" and none: "\<forall>j \<ge> NRRMU. slot ss j = None"
  shows "pos_ok (ce\<lparr>ce_data := Rr (take NRRMU ss) None, ce_cs := ce_cs ce - sizeof_ptr * int NRREXT\<rparr>) (take NRRMU ss)"
    "cent_blocks (ce\<lparr>ce_data := Rr (take NRRMU ss) None, ce_cs := ce_cs ce - sizeof_ptr * int NRREXT\<rparr>) = cent_blocks ce - 1"
proof -
  let ?ce = "ce\<lparr>ce_data := Rr (take NRRMU ss) None, ce_cs := ce_cs ce - sizeof_ptr * int NRREXT\<rparr>"
  have len: "length ss = NRRTOT" using ok l by (simp add: pos_ok_def pos_cent_def)
  have "slot (drop NRRMU ss) j = None" for j using none [rule_format, of "NRRMU + j"] by (simp add: slot_def less_diff_conv add.commute split: if_splits)
  then have z: "sets_sum f (drop NRRMU ss) = 0" for f using all_none_sums by blast
  have s: "sets_sum f (take NRRMU ss) = sets_sum f ss" for f
    using sets_sum_simps(3) [of f "take NRRMU ss" "drop NRRMU ss"] z [of f] by simp
  have t: "length (take NRRMU ss) = NRRMU" using len nrr_simps(1) by simp
  have n: "is_neg ?ce = is_neg ce" by (simp add: is_neg_def)
  have p: "pos_cent ?ce (take NRRMU ss)" using ok t n by (simp add: pos_ok_def pos_cent_def)
  then show "pos_ok ?ce (take NRRMU ss)" using ok s t len by (simp add: pos_ok_def base_size_def ext_size_def)
  show "cent_blocks ?ce = cent_blocks ce - 1"
    using pos_blocks [OF p] pos_blocks [of ce ss] ok s t len by (simp add: pos_ok_def ext_blocks_def)
qed

lemma purge_all_ok:
  assumes inv: "cache_inv xs m P d k c" and C: "dc_cents c a = Some ce"
  shows "\<exists>np nr ce' c' xs'. purge_all_rrsets now ce False c = Some (((np, nr), ce'), c') \<and> cache_inv xs' m P d k (cent_store a ce' c') \<and>
    length xs' \<le> length xs \<and> dc_cents c' = dc_cents c \<and> refreshed now ce ce' \<and> ce_c_ns ce' = ce_c_ns ce \<and> ce_c_soa ce' = ce_c_soa ce \<and>
    0 \<le> np \<and> (nr = 0 \<longleftrightarrow> (\<forall>j. slot (sets0 ce') j = None))"
proof (cases "is_neg ce")
  case True
  then show ?thesis using inv cent_store_same [OF C] slot_sets0 [OF True]
    by (intro exI [of _ 0] exI [of _ ce] exI [of _ c] exI [of _ xs]) (simp add: purge_all_rrsets_def refreshed_def)
next
  case False
  have ok: "cent_ok ce" using cache_inv_links(3) [OF inv C] .
  have P: "pos_ok ce (sets0 ce)" by (rule cent_ok_sets0 [OF ok False])
  have inv': "cache_inv xs m P d k (cent_store a ce c)" using inv cent_store_same [OF C] by simp
  obtain rv nr nx ce1 c1 xs1 where R: "purge_sets now False 0 (length (sets0 ce)) (0, 0, 0) ce c = Some (((rv, nr, nx), ce1), c1)"
    "cache_inv xs1 m P d k (cent_store a ce1 c1)" "length xs1 \<le> length xs" "fewer_sets ce ce1" "dc_cents c1 = dc_cents c"
    "\<forall>j. slot (sets0 ce1) j = (if 0 \<le> j then unexpired now (slot (sets0 ce) j) else slot (sets0 ce) j)"
    "0 \<le> rv" "0 \<le> nr" "0 \<le> nx" "nr = 0 \<longleftrightarrow> (\<forall>j \<ge> 0. slot (sets0 ce1) j = None)"
    "nx = 0 \<longrightarrow> (\<forall>j \<ge> 0. NRRMU \<le> j \<longrightarrow> slot (sets0 ce1) j = None)"
    using purge_sets_ok [where rv = 0 and nr = 0 and nx = 0 and now = now, OF inv' False add_0] by (elim exE conjE) (rule that)
  have len: "RRARR_LEN ce = Some (length (sets0 ce))" using pos_len [of ce "sets0 ce"] P by (simp add: pos_ok_def)
  have C1: "dc_cents (cent_store a ce1 c1) a = Some ce1" by simp
  have ok1: "cent_ok ce1" using cache_inv_links(3) [OF R(2) C1] .
  have n1: "\<not> is_neg ce1" using R(4) False by (simp add: fewer_sets_def)
  have P1: "pos_ok ce1 (sets0 ce1)" by (rule cent_ok_sets0 [OF ok1 n1])
  have h1: "same_head ce ce1" using R(4) by (simp add: fewer_sets_def)
  have rf: "refreshed now ce ce'" if "same_head ce1 ce'" "\<not> is_neg ce'" "\<And>j. slot (sets0 ce') j = slot (sets0 ce1) j" for ce'
    using that R(6) False same_head_trans [OF h1 that(1)] by (simp add: refreshed_def same_head_def local_cent_def)
  have d1: "ce_data ce1 = Rr (take NRRMU (sets0 ce1)) (if length (sets0 ce1) = NRRMU then None else Some (drop NRRMU (sets0 ce1)))"
    using P1 by (simp add: pos_ok_def pos_cent_def)
  show ?thesis
  proof (cases "length (sets0 ce1) \<noteq> NRRMU \<and> nx = 0")
    case True
    let ?ce = "ce1\<lparr>ce_data := Rr (take NRRMU (sets0 ce1)) None, ce_cs := ce_cs ce1 - sizeof_ptr * int NRREXT\<rparr>"
    have none: "\<forall>j \<ge> NRRMU. slot (sets0 ce1) j = None" using R(11) True by simp
    have l: "length (sets0 ce1) \<noteq> NRRMU" using True by simp
    note D = drop_ext_ok [OF P1 l none]
    have s2: "sets0 ?ce = take NRRMU (sets0 ce1)" by (rule pos_sets0 [OF D(1)])
    have sl: "slot (sets0 ?ce) j = slot (sets0 ce1) j" for j unfolding s2 using slot_take [OF none] .
    have h2: "same_head ce1 ?ce" by (simp add: same_head_def)
    have ok2: "cent_ok ?ce" using pos_cent_ok [OF D(1)] same_head_named [OF h2] ok1 by (simp add: cent_ok_def)
    have lk: "link_at ?ce a le e \<longleftrightarrow> link_at ce1 a le e \<and> le \<notin> set []" for le e
      using link_set_link [OF D(1)] link_set_link [OF P1] slot_take [OF none] by (simp add: set_link_def)
    have e: "effect xs1 (cent_store a ce1 c1) (cent_blocks ?ce - cent_blocks ce1) [] (cache_free (cent_store a ce1 c1))"
      using effect_free [OF effect_refl [OF cache_invD(1) [OF R(2)]]] D(2) by simp
    have "cache_inv (filter (\<lambda>x. x \<notin> set []) xs1) m P (d - ce_cs ce1 + ce_cs ?ce) k (cent_store a ?ce (cache_free (cent_store a ce1 c1)))"
      by (rule cent_update [OF R(2) C1 e ok2 _ refl lk]) simp_all
    moreover have "cent_store a ?ce (cache_free (cent_store a ce1 c1)) = cent_store a ?ce (cache_free c1)" by (simp add: cent_store_def cache_free_def)
    ultimately have "cache_inv xs1 m P (d - sizeof_ptr * int NRREXT) k (cent_store a ?ce (cache_free c1))" by simp
    from sub_size_store [OF this] have v: "cache_inv xs1 m P d k (cent_store a ?ce (sub_cache_size (sizeof_ptr * int NRREXT) (cache_free c1)))" .
    have "purge_all_rrsets now ce False c = Some (((rv + 1, nr), ?ce), sub_cache_size (sizeof_ptr * int NRREXT) (cache_free c1))"
      using False len R(1) d1 True by (simp add: purge_all_rrsets_def)
    moreover have "refreshed now ce ?ce" by (rule rf [OF h2 pos_not_neg [OF D(1)] sl])
    moreover have "nr = 0 \<longleftrightarrow> (\<forall>j. slot (sets0 ?ce) j = None)" using R(10) sl by simp
    moreover have "ce_c_ns ?ce = ce_c_ns ce" "ce_c_soa ?ce = ce_c_soa ce" using h1 by (simp_all add: same_head_def)
    moreover have "dc_cents (sub_cache_size (sizeof_ptr * int NRREXT) (cache_free c1)) = dc_cents c" using R(5) by (simp add: cache_free_def)
    moreover have "0 \<le> rv + 1" using R(7) by simp
    ultimately show ?thesis using v R(3) by (intro exI conjI) assumption+
  next
    case f: False
    have "purge_all_rrsets now ce False c = Some (((rv, nr), ce1), c1)"
      using False len R(1) d1 f by (auto simp: purge_all_rrsets_def)
    moreover have "refreshed now ce ce1" by (rule rf [OF same_head_refl n1 refl])
    moreover have "nr = 0 \<longleftrightarrow> (\<forall>j. slot (sets0 ce1) j = None)" using R(10) by simp
    moreover have "ce_c_ns ce1 = ce_c_ns ce" "ce_c_soa ce1 = ce_c_soa ce" using h1 by (simp_all add: same_head_def)
    ultimately show ?thesis using R(2,3,5,7) by (intro exI conjI) assumption+
  qed
qed

lemma purge_all_test:
  assumes ok: "cent_ok ce"
  shows "\<exists>np nr. purge_all_rrsets now ce True c = Some (((np, nr), ce), c) \<and> 0 \<le> np \<and>
    (np = 0 \<longrightarrow> (\<forall>j. unexpired now (slot (sets0 ce) j) = slot (sets0 ce) j)) \<and>
    (nr = 0 \<longleftrightarrow> (\<forall>j. unexpired now (slot (sets0 ce) j) = None))"
proof (cases "is_neg ce")
  case True
  then show ?thesis using slot_sets0 [OF True] by (simp add: purge_all_rrsets_def)
next
  case False
  have P: "pos_cent ce (sets0 ce)" using cent_ok_sets0 [OF ok False] by (simp add: pos_ok_def)
  obtain rv nr nx where R: "purge_sets now True 0 (length (sets0 ce)) (0, 0, 0) ce c = Some (((rv, nr, nx), ce), c)" "0 \<le> rv"
    "rv = 0 \<longrightarrow> (\<forall>j \<ge> 0. unexpired now (slot (sets0 ce) j) = slot (sets0 ce) j)"
    "nr = 0 \<longleftrightarrow> (\<forall>j \<ge> 0. unexpired now (slot (sets0 ce) j) = None)"
    using purge_sets_test [OF ok False, of 0 "length (sets0 ce)" now 0 0 0 c] by auto
  have "ce_data ce = Rr (take NRRMU (sets0 ce)) (if length (sets0 ce) = NRRMU then None else Some (drop NRRMU (sets0 ce)))"
    using P by (simp add: pos_cent_def)
  then show ?thesis using False pos_len [OF P] R by (simp add: purge_all_rrsets_def)
qed


subsection \<open>One entry\<close>

lemma get_total:
  assumes "cent_ok ce" "get = getrrset_NS \<or> get = getrrset_SOA"
  shows "get ce \<noteq> None"
proof (cases "is_neg ce")
  case True
  then show ?thesis using assms(2) by (auto simp: getrrset_NS_def getrrset_SOA_def GET_RRSMU_def)
next
  case False
  have p: "pos_cent ce (sets0 ce)" using cent_ok_sets0 [OF assms(1) False] by (simp add: pos_ok_def)
  then have "NRRMU \<le> length (sets0 ce)" using less_imp_le [OF nrr_simps(1)] by (auto simp: pos_cent_def)
  then show ?thesis using p False assms(2)
    by (auto simp: getrrset_NS_def getrrset_SOA_def GET_RRSMU_def pos_cent_def list_at_def NRRMU_def)
qed

lemma cache_find_total:
  assumes inv: "cache_inv xs m P d k c" and ks: "list_all lab_len ks"
  shows "\<exists>loc. cache_find c (enc_name ks @ r) = Some (m (map lower ks), loc)"
  unfolding cache_find_def by (rule hash_rep_lookup [OF cache_invD(2) [OF inv] ks])

lemma found_cent:
  assumes inv: "cache_inv xs m P d k c" and "m kk = Some a"
  shows "\<exists>ce. dc_cents c a = Some ce \<and> cent_ok ce"
proof -
  have "a \<in> dom (dc_cents c)" using cache_invD(6) [OF inv] assms(2) by (auto intro: ranI)
  then show ?thesis using cache_invD(5) [OF inv] by blast
qed

lemma ref_stale_total:
  assumes inv: "cache_inv xs m P d k c" and ok: "cent_ok ce" and get: "get = getrrset_NS \<or> get = getrrset_SOA"
  shows "\<exists>b. ref_stale now c ce ref get = Some b"
proof -
  obtain ks where ks: "list_all lab_len ks" "ce_qname ce = enc_name ks" using ok name_ok_lab_len by (auto simp: cent_ok_def named_def)
  have n: "rhnsegcnt (ce_qname ce) = Some (length ks)" using rhnsegcnt_enc [OF ks(1), of "[]"] ks(2) by simp
  have sk: "skipsegs (ce_qname ce) j = Some (enc_name (drop j ks))" for j using skipsegs_enc [OF ks(1), of "[]" j] ks(2) by simp
  have g: "\<exists>s. get ce' = Some s" if "cent_ok ce'" for ce' using get_total [OF that get] by blast
  consider "ref = length ks" | "ref < length ks" | "ref > length ks" by linarith
  then show ?thesis
  proof cases
    case 1
    then show ?thesis using n g [OF ok] by (auto simp: ref_stale_def)
  next
    case 2
    have "list_all lab_len (drop (length ks - ref) ks)" using ks(1) by (metis append_take_drop_id list_all_append)
    then obtain loc where f: "cache_find c (enc_name (drop (length ks - ref) ks)) = Some (m (map lower (drop (length ks - ref) ks)), loc)"
      using cache_find_total [OF inv, of "drop (length ks - ref) ks" "[]"] by auto
    show ?thesis
    proof (cases "m (map lower (drop (length ks - ref) ks))")
      case None
      then show ?thesis using 2 n sk f by (auto simp: ref_stale_def)
    next
      case (Some a')
      obtain ce' where "dc_cents c a' = Some ce'" "cent_ok ce'" using found_cent [OF inv Some] by blast
      moreover from this(2) obtain s where "get ce' = Some s" using g by blast
      ultimately show ?thesis using 2 n sk f Some by (auto simp: ref_stale_def)
    qed
  next
    case 3
    then show ?thesis using n by (auto simp: ref_stale_def)
  qed
qed

lemma head_inv:
  assumes inv: "cache_inv xs m P d k c" and C: "dc_cents c a = Some ce"
    and s: "ce_qname ce' = ce_qname ce" "ce_cs ce' = ce_cs ce" "ce_num_rrs ce' = ce_num_rrs ce" "ce_data ce' = ce_data ce" "is_neg ce' = is_neg ce"
  shows "cache_inv xs m P d k (cent_store a ce' c)"
proof -
  have "held a xs m P k ce (sub_cache_size (ce_cs ce - d) c)"
    unfolding held_def cent_store_same [of "sub_cache_size (ce_cs ce - d) c" a ce, simplified, OF C]
    using sub_cache_size_inv [OF inv, of "ce_cs ce - d"] cent_store_same [OF C] by simp
  from held_head [OF this s] have "cache_inv xs m P (ce_cs ce) k (sub_cache_size (ce_cs ce - d) (cent_store a ce' c))"
    unfolding held_def s(2) by simp
  from sub_cache_size_inv [OF this, of "d - ce_cs ce"] have "cache_inv xs m P d k ((cent_store a ce' c)\<lparr>dc_cache_size := dc_cache_size (cent_store a ce' c)\<rparr>)" by (simp add: sub_cache_size_def)
  moreover have "(c'\<lparr>dc_cache_size := dc_cache_size c'\<rparr>) = c'" for c' :: dcache by simp
  ultimately show ?thesis by (simp only:)
qed

definition purged_to :: "int \<Rightarrow> nat \<Rightarrow> dcache \<Rightarrow> dcache \<Rightarrow> bool" where
  "purged_to now a c c' \<longleftrightarrow> (\<exists>ce ce'. dc_cents c a = Some ce \<and> dc_cents c' = (dc_cents c)(a \<mapsto> ce') \<and> refreshed now ce ce')"

lemma refreshed_head: "refreshed now ce ce1 \<Longrightarrow> ce_qname ce2 = ce_qname ce1 \<Longrightarrow> local_cent ce2 = local_cent ce1 \<Longrightarrow> is_neg ce2 = is_neg ce1 \<Longrightarrow>
    ce_data ce2 = ce_data ce1 \<Longrightarrow> refreshed now ce ce2"
  by (auto simp: refreshed_def sets0_def cent_sets_def)

definition drop_ref :: "bool \<Rightarrow> dns_cent \<Rightarrow> dns_cent \<Rightarrow> bool" where
  "drop_ref t ce ce' \<longleftrightarrow> ce_qname ce' = ce_qname ce \<and> ce_cs ce' = ce_cs ce \<and> ce_num_rrs ce' = ce_num_rrs ce \<and> ce_flags ce' = ce_flags ce \<and>
     ce_data ce' = ce_data ce \<and> (t \<longrightarrow> ce' = ce)"

lemma refs_ok:
  assumes inv: "cache_inv xs m P d k c" and C: "dc_cents c a = Some ce"
  shows "\<exists>r ce'. do {
       ns \<leftarrow> (if ce_c_ns ce \<noteq> cundef then ref_stale now c ce (ce_c_ns ce) getrrset_NS else Some False);
       let c = (if ns \<and> \<not> test then cent_store a (ce\<lparr>ce_c_ns := cundef\<rparr>) c else c);
       ce \<leftarrow> dc_cents c a;
       soa \<leftarrow> (if ce_c_soa ce \<noteq> cundef then ref_stale now c ce (ce_c_soa ce) getrrset_SOA else Some False);
       let c = (if soa \<and> \<not> test then cent_store a (ce\<lparr>ce_c_soa := cundef\<rparr>) c else c);
       Some ((npurge :: int) + (if ns then 1 else 0) + (if soa then 1 else 0), c)
     } = Some (r, cent_store a ce' c) \<and> npurge \<le> r \<and> drop_ref test ce ce'"
proof -
  have ok: "cent_ok ce" using cache_inv_links(3) [OF inv C] .
  obtain ns where ns: "(if ce_c_ns ce \<noteq> cundef then ref_stale now c ce (ce_c_ns ce) getrrset_NS else Some False) = Some ns"
    using ref_stale_total [OF inv ok, of getrrset_NS now "ce_c_ns ce"] by (cases "ce_c_ns ce \<noteq> cundef") auto
  let ?ce1 = "if ns \<and> \<not> test then ce\<lparr>ce_c_ns := cundef\<rparr> else ce"
  have c1: "(if ns \<and> \<not> test then cent_store a (ce\<lparr>ce_c_ns := cundef\<rparr>) c else c) = cent_store a ?ce1 c" using cent_store_same [OF C] by simp
  have s1: "ce_qname ?ce1 = ce_qname ce" "ce_cs ?ce1 = ce_cs ce" "ce_num_rrs ?ce1 = ce_num_rrs ce" "ce_flags ?ce1 = ce_flags ce" "ce_data ?ce1 = ce_data ce"
    "is_neg ?ce1 = is_neg ce" by (simp_all add: is_neg_def)
  have inv1: "cache_inv xs m P d k (cent_store a ?ce1 c)" by (rule head_inv [OF inv C s1(1-3,5,6)])
  have C1: "dc_cents (cent_store a ?ce1 c) a = Some ?ce1" by simp
  have ok1: "cent_ok ?ce1" using cache_inv_links(3) [OF inv1 C1] .
  obtain soa where soa: "(if ce_c_soa ?ce1 \<noteq> cundef then ref_stale now (cent_store a ?ce1 c) ?ce1 (ce_c_soa ?ce1) getrrset_SOA else Some False) = Some soa"
    using ref_stale_total [OF inv1 ok1, of getrrset_SOA now "ce_c_soa ?ce1"] by (cases "ce_c_soa ?ce1 \<noteq> cundef") auto
  let ?ce2 = "if soa \<and> \<not> test then ?ce1\<lparr>ce_c_soa := cundef\<rparr> else ?ce1"
  have c2: "(if soa \<and> \<not> test then cent_store a (?ce1\<lparr>ce_c_soa := cundef\<rparr>) (cent_store a ?ce1 c) else cent_store a ?ce1 c) = cent_store a ?ce2 c"
    by (cases "soa \<and> \<not> test") (simp_all only: if_True if_False simp_thms cent_store_twice)
  have "drop_ref test ce ?ce2" using s1 by (auto simp: drop_ref_def)
  then show ?thesis unfolding ns bind.bind_lunit Let_def c1 C1 soa c2
    by (intro exI [of _ "npurge + (if ns then 1 else 0) + (if soa then 1 else 0)"] exI [of _ ?ce2]) simp
qed


lemma drop_ref_inv:
  assumes "cache_inv xs m P d k c" "dc_cents c a = Some ce" "drop_ref t ce ce'"
  shows "cache_inv xs m P d k (cent_store a ce' c)"
  by (rule head_inv [OF assms(1,2)]) (use assms(3) in \<open>simp_all add: drop_ref_def is_neg_def\<close>)

lemma drop_ref_refreshed: "refreshed now ce ce1 \<Longrightarrow> drop_ref t ce1 ce2 \<Longrightarrow> refreshed now ce ce2"
  by (rule refreshed_head) (simp_all add: drop_ref_def local_cent_def is_neg_def)

lemma cent_expired_neg: "cent_ok ce \<Longrightarrow> is_neg ce \<Longrightarrow> \<exists>b. cent_expired now ce = Some b"
  using cent_ok_neg [of ce] by (auto simp: cent_expired_def neg_ok_def timedout_nxdom_def)

lemma cent_expired_total: "cent_ok ce \<Longrightarrow> \<exists>b. cent_expired now ce = Some b"
  using cent_expired_neg [of ce now] by (cases "is_neg ce") (auto simp: cent_expired_def)

text \<open>Nothing is left of the entry that may not go.\<close>

definition all_expired :: "int \<Rightarrow> dns_cent \<Rightarrow> bool" where
  "all_expired now ce \<longleftrightarrow> cent_expired now ce = Some True \<and> (\<forall>j. unexpired now (slot (sets0 ce) j) = None)"

lemma purge_cent_ok:
  assumes inv: "cache_inv xs m {} 0 k c" and C: "dc_cents c a = Some ce"
  shows "\<exists>r c' xs' m'. purge_cent now a delete False c = Some (r, c') \<and> cache_inv xs' m' {} 0 k c' \<and> length xs' \<le> length xs \<and>
    (all_linked c \<longrightarrow> all_linked c') \<and> m' \<subseteq>\<^sub>m m \<and>
    (if r < 0 then delete \<and> dc_cents c' = (dc_cents c)(a := None) \<and> all_expired now ce
     else m' = m \<and> purged_to now a c c' \<and> (delete \<longrightarrow> \<not> all_expired now ce))"
proof -
  obtain np nr ce1 c1 xs1 where A: "purge_all_rrsets now ce False c = Some (((np, nr), ce1), c1)" "cache_inv xs1 m {} 0 k (cent_store a ce1 c1)"
    "length xs1 \<le> length xs" "dc_cents c1 = dc_cents c" "refreshed now ce ce1" "ce_c_ns ce1 = ce_c_ns ce" "ce_c_soa ce1 = ce_c_soa ce"
    "0 \<le> np" "nr = 0 \<longleftrightarrow> (\<forall>j. slot (sets0 ce1) j = None)"
    using purge_all_ok [where now = now, OF inv C] by (elim exE conjE) (rule that)
  let ?c = "cent_store a ce1 c1"
  have C1: "dc_cents ?c a = Some ce1" by simp
  have ok1: "cent_ok ce1" using cache_inv_links(3) [OF A(2) C1] .
  obtain g where g: "cent_expired now ce1 = Some g" using cent_expired_total [OF ok1] by blast
  have g': "cent_expired now ce = Some g"
    using g A(5) by (auto simp: cent_expired_def refreshed_def local_cent_def timedout_nxdom_def split: if_splits)
  have ex: "all_expired now ce \<longleftrightarrow> nr = 0 \<and> g" using A(5,9) g' by (auto simp: all_expired_def refreshed_def)
  have al: "all_linked c \<longrightarrow> all_linked ?c" using refreshed_linked [OF A(5)] A(4) C unfolding all_linked_def by auto
  have e: "purge_cent now a delete False c = do {
     gone \<leftarrow> (if delete \<and> nr = 0 then cent_expired now ce1 else Some False);
     if gone then map_option (\<lambda>c. (- 1, c)) (del_cache_ent a None ?c)
     else if has_flag (ce_flags ce1) DF_LOCAL then Some (np, ?c)
     else do {
       ns \<leftarrow> (if ce_c_ns ce1 \<noteq> cundef then ref_stale now ?c ce1 (ce_c_ns ce1) getrrset_NS else Some False);
       let c = (if ns \<and> \<not> False then cent_store a (ce1\<lparr>ce_c_ns := cundef\<rparr>) ?c else ?c);
       ce \<leftarrow> dc_cents c a;
       soa \<leftarrow> (if ce_c_soa ce \<noteq> cundef then ref_stale now c ce (ce_c_soa ce) getrrset_SOA else Some False);
       let c = (if soa \<and> \<not> False then cent_store a (ce\<lparr>ce_c_soa := cundef\<rparr>) c else c);
       Some (np + (if ns then 1 else 0) + (if soa then 1 else 0), c)
     }
   }"
    by (simp add: purge_cent_def C A(1) Let_def)
  show ?thesis
  proof (cases "delete \<and> nr = 0 \<and> g")
    case True
    obtain c2 m2 where D: "del_cache_ent a None ?c = Some c2" "cache_inv (filter (\<lambda>x. x \<notin> set (cent_lents ce1)) xs1) m2 {} 0 k c2"
      "dc_cents c2 = (dc_cents ?c)(a := None)" "m2 \<subseteq>\<^sub>m m"
      using drop_entry [OF A(2) C1] by (elim exE conjE) (rule that)
    have "purge_cent now a delete False c = Some (- 1, c2)" unfolding e using True g D(1) by simp
    moreover have "dc_cents c2 = (dc_cents c)(a := None)" using D(3) A(4) by simp
    moreover have "all_linked c \<longrightarrow> all_linked c2" using D(3) A(4) unfolding all_linked_def by simp
    moreover have "length (filter (\<lambda>x. x \<notin> set (cent_lents ce1)) xs1) \<le> length xs" by (rule le_trans [OF length_filter_le A(3)])
    moreover have "all_expired now ce" "delete" using ex True by simp_all
    ultimately show ?thesis using D(2,4) by (intro exI [of _ "- 1"] exI conjI) (assumption | simp)+
  next
    case False
    then have go: "(if delete \<and> nr = 0 then cent_expired now ce1 else Some False) = Some False" using g by auto
    have nx: "delete \<longrightarrow> \<not> all_expired now ce" using ex False by blast
    have fin: ?thesis if r: "purge_cent now a delete False c = Some (r, cent_store a ce2 ?c)" "0 \<le> r" "drop_ref False ce1 ce2" for r ce2
    proof -
      have "purged_to now a c (cent_store a ce2 ?c)" unfolding purged_to_def
        using C A(4) drop_ref_refreshed [OF A(5) r(3)] by (intro exI [of _ ce] exI [of _ ce2]) simp
      moreover have "all_linked c \<longrightarrow> all_linked (cent_store a ce2 ?c)"
        using refreshed_linked [OF drop_ref_refreshed [OF A(5) r(3)]] A(4) C unfolding all_linked_def by auto
      moreover have "cache_inv xs1 m {} 0 k (cent_store a ce2 ?c)" by (rule drop_ref_inv [OF A(2) C1 r(3)])
      ultimately show ?thesis using r(1,2) A(3) nx by (intro exI [of _ r] exI [of _ "cent_store a ce2 ?c"] exI [of _ xs1] exI [of _ m]) simp
    qed
    show ?thesis
    proof (cases "has_flag (ce_flags ce1) DF_LOCAL")
      case True
      then have "purge_cent now a delete False c = Some (np, cent_store a ce1 ?c)" unfolding e go by simp
      then show ?thesis by (rule fin) (use A(8) in \<open>simp_all add: drop_ref_def\<close>)
    next
      case False
      obtain r ce2 where R: "do {
       ns \<leftarrow> (if ce_c_ns ce1 \<noteq> cundef then ref_stale now ?c ce1 (ce_c_ns ce1) getrrset_NS else Some False);
       let c = (if ns \<and> \<not> False then cent_store a (ce1\<lparr>ce_c_ns := cundef\<rparr>) ?c else ?c);
       ce \<leftarrow> dc_cents c a;
       soa \<leftarrow> (if ce_c_soa ce \<noteq> cundef then ref_stale now c ce (ce_c_soa ce) getrrset_SOA else Some False);
       let c = (if soa \<and> \<not> False then cent_store a (ce\<lparr>ce_c_soa := cundef\<rparr>) c else c);
       Some (np + (if ns then 1 else 0) + (if soa then 1 else 0), c)
     } = Some (r, cent_store a ce2 ?c)" "np \<le> r" "drop_ref False ce1 ce2"
        using refs_ok [where now = now and npurge = np and test = False, OF A(2) C1] by (elim exE conjE) (rule that)
      have "purge_cent now a delete False c = Some (r, cent_store a ce2 ?c)" unfolding e go bind.bind_lunit if_False using False R(1) by simp
      then show ?thesis by (rule fin) (use A(8) R(2,3) in simp_all)
    qed
  qed
qed

text \<open>With \<open>test\<close>: 0 means that nothing would change.\<close>

lemma purge_cent_test:
  assumes inv: "cache_inv xs m {} 0 k c" and C: "dc_cents c a = Some ce"
  shows "\<exists>r. purge_cent now a delete True c = Some (r, c) \<and>
    (r = 0 \<longrightarrow> (\<forall>j. unexpired now (slot (sets0 ce) j) = slot (sets0 ce) j) \<and> (delete \<longrightarrow> \<not> all_expired now ce))"
proof -
  have ok: "cent_ok ce" using cache_inv_links(3) [OF inv C] .
  obtain np nr where A: "purge_all_rrsets now ce True c = Some (((np, nr), ce), c)" "0 \<le> np"
    "np = 0 \<longrightarrow> (\<forall>j. unexpired now (slot (sets0 ce) j) = slot (sets0 ce) j)" "nr = 0 \<longleftrightarrow> (\<forall>j. unexpired now (slot (sets0 ce) j) = None)"
    using purge_all_test [where now = now and c = c, OF ok] by (elim exE conjE) (rule that)
  obtain g where g: "cent_expired now ce = Some g" using cent_expired_total [OF ok] by blast
  have ex: "all_expired now ce \<longleftrightarrow> nr = 0 \<and> g" using A(4) g by (auto simp: all_expired_def)
  have e: "purge_cent now a delete True c = do {
     gone \<leftarrow> (if delete \<and> nr = 0 then cent_expired now ce else Some False);
     if gone then Some (- 1, c)
     else if has_flag (ce_flags ce) DF_LOCAL then Some (np, c)
     else do {
       ns \<leftarrow> (if ce_c_ns ce \<noteq> cundef then ref_stale now c ce (ce_c_ns ce) getrrset_NS else Some False);
       let c = (if ns \<and> \<not> True then cent_store a (ce\<lparr>ce_c_ns := cundef\<rparr>) c else c);
       ce \<leftarrow> dc_cents c a;
       soa \<leftarrow> (if ce_c_soa ce \<noteq> cundef then ref_stale now c ce (ce_c_soa ce) getrrset_SOA else Some False);
       let c = (if soa \<and> \<not> True then cent_store a (ce\<lparr>ce_c_soa := cundef\<rparr>) c else c);
       Some (np + (if ns then 1 else 0) + (if soa then 1 else 0), c)
     }
   }"
    unfolding purge_cent_def C bind.bind_lunit A(1) prod.case Let_def cent_store_same [OF C] by simp
  obtain r ce2 where R: "do {
       ns \<leftarrow> (if ce_c_ns ce \<noteq> cundef then ref_stale now c ce (ce_c_ns ce) getrrset_NS else Some False);
       let c = (if ns \<and> \<not> True then cent_store a (ce\<lparr>ce_c_ns := cundef\<rparr>) c else c);
       ce \<leftarrow> dc_cents c a;
       soa \<leftarrow> (if ce_c_soa ce \<noteq> cundef then ref_stale now c ce (ce_c_soa ce) getrrset_SOA else Some False);
       let c = (if soa \<and> \<not> True then cent_store a (ce\<lparr>ce_c_soa := cundef\<rparr>) c else c);
       Some (np + (if ns then 1 else 0) + (if soa then 1 else 0), c)
     } = Some (r, cent_store a ce2 c)" "np \<le> r" "drop_ref True ce ce2"
    using refs_ok [where now = now and npurge = np and test = True, OF inv C] by (elim exE conjE) (rule that)
  have R1: "cent_store a ce2 c = c" using R(3) cent_store_same [OF C] by (simp add: drop_ref_def)
  have go: "(if delete \<and> nr = 0 then cent_expired now ce else Some False) = Some (delete \<and> nr = 0 \<and> g)" using g by auto
  show ?thesis
  proof (cases "delete \<and> nr = 0 \<and> g")
    case True
    then show ?thesis unfolding e go by simp
  next
    case False
    then have nx: "delete \<longrightarrow> \<not> all_expired now ce" using ex by blast
    have f: "(delete \<and> nr = 0 \<and> g) = False" using False by simp
    have "\<exists>r. purge_cent now a delete True c = Some (r, c) \<and> np \<le> r"
      unfolding e go f bind.bind_lunit if_False R(1) R1 using R(2) by (cases "has_flag (ce_flags ce) DF_LOCAL") simp_all
    then show ?thesis using nx A(2,3) by (metis antisym)
  qed
qed

end
