(* ===== verification/CacheMerge.thy ===== *)
theory CacheMerge
  imports CachePurgeCent
begin

text \<open>
  Merging an entry into one that is in the cache: set by set, with what is local or better kept and conflicts resolved.
\<close>

subsection \<open>One set\<close>

text \<open>The new set, in the list by age unless it is local.\<close>

definition new_in :: "cache_conf \<Rightarrow> rr_set \<Rightarrow> bool \<Rightarrow> rr_set option \<Rightarrow> bool" where
  "new_in cf new loc s \<longleftrightarrow>
     (\<exists>rs. s = Some rs \<and> contents rs = contents (adjust_ttl cf new) \<and> (rs_lent rs \<noteq> None \<or> local_set rs \<or> loc))"

text \<open>What filling slot \<open>i\<close> leaves.\<close>

definition filled :: "cache_conf \<Rightarrow> rr_set \<Rightarrow> nat \<Rightarrow> bool \<Rightarrow> dns_cent \<Rightarrow> dns_cent \<Rightarrow> bool" where
  "filled cf new i ok ce ce' \<longleftrightarrow> (\<forall>j. j \<noteq> i \<longrightarrow> slot (sets0 ce') j = slot (sets0 ce) j) \<and>
     (if ok then new_in cf new (local_cent ce) (slot (sets0 ce') i) else slot (sets0 ce') i = None)"

text \<open>The entry at \<open>a\<close> is changed and nothing else but the list.\<close>

definition only_at :: "nat \<Rightarrow> dcache \<Rightarrow> dcache \<Rightarrow> bool" where
  "only_at a c c' \<longleftrightarrow> (\<exists>ce. dc_cents c' = (dc_cents c)(a \<mapsto> ce)) \<and> dc_table c' = dc_table c \<and> dc_cache_size c' = dc_cache_size c \<and>
     dc_mallocs c \<le> dc_mallocs c'"

lemma only_at_cent: "only_at a c c' \<Longrightarrow> dc_cents c' a = Some ce \<Longrightarrow> dc_cents c' = (dc_cents c)(a \<mapsto> ce)"
  by (auto simp: only_at_def)

lemma only_at_refl: "dc_cents c a = Some ce \<Longrightarrow> only_at a c c"
  by (auto simp: only_at_def intro: fun_upd_idem [symmetric])

lemma only_at_trans: "only_at a c c1 \<Longrightarrow> only_at a c1 c2 \<Longrightarrow> only_at a c c2"
  by (auto simp: only_at_def)

lemma only_at_frame: "frame c c' \<Longrightarrow> only_at a c (cent_store a ce c')"
  by (auto simp: only_at_def frame_def)

lemma adjust_contents: "contents rs = contents rs' \<Longrightarrow> contents (adjust_ttl cf rs) = contents (adjust_ttl cf rs')"
  by (auto simp: contents_def adjust_ttl_def)

lemma contents_link [simp]: "contents (link_set l rs) = contents rs"
  by (simp add: contents_def)

lemma slot_upd_some: "slot ss i = Some rs \<Longrightarrow> slot (ss[i := s]) j = (if j = i then s else slot ss j)"
  using slot_update [of i ss s j] held_slot_len by blast

text \<open>The second half: the set is put in, after the first half has made room.\<close>

lemma fill_set_ok:
  assumes h: "held a xs m P k ce c" and i: "i < NRRTOT" and free: "slot (sets0 ce) i = None"
  shows "\<exists>ok c' ce' xs'. do {
       ((ok, ce), c) \<leftarrow> add_cent_rrset_by_index fails ce i (rs_ttl new) (rs_ts new) (rs_flags new) c;
       if \<not> ok then Some (False, cent_store a ce c)
       else do {
         ((ok, ce), c) \<leftarrow> add_rrs fails ce i (rs_ttl new) (rs_ts new) (rs_flags new) (rs_rrs new) None c;
         (ok, c) \<leftarrow> (if \<not> ok then Some (False, cent_store a ce c)
            else do {
              s \<leftarrow> RRARR_INDEX ce i;
              rs \<leftarrow> s;
              ce \<leftarrow> rrarr_put ce i (Some (adjust_ttl cf rs));
              insert_rrl fails (Some i) a (cent_store a ce c)
            });
         if ok then Some (True, c)
         else do {
           ce \<leftarrow> dc_cents c a;
           ((_, ce), c) \<leftarrow> del_cent_rrset_by_index ce i c;
           Some (False, cent_store a ce c)
         }
       }
     } = Some (ok, c') \<and> dc_cents c' a = Some ce' \<and> held a xs' m P k ce' c' \<and> length xs' \<le> Suc (length xs) \<and> only_at a c c' \<and>
     same_head ce ce' \<and> \<not> is_neg ce' \<and> filled cf new i ok ce ce' \<and> ((\<forall>n. \<not> fails n) \<longrightarrow> ok)"
proof -
  obtain b ce1 c1 xs1 p where A: "add_cent_rrset_by_index fails ce i (rs_ttl new) (rs_ts new) (rs_flags new) c = Some ((b, ce1), c1)"
    "held a xs1 m P k ce1 c1" "length xs1 \<le> length xs" "same_head ce ce1" "\<not> is_neg ce1" "frame c c1"
    "\<forall>j. slot (sets0 ce1) j = (if b \<and> j = i then Some (new_set p (rs_ttl new) (rs_ts new) (rs_flags new)) else slot (sets0 ce) j)"
    "(\<forall>n. \<not> fails n) \<longrightarrow> b"
    using held_add_set [where fails = fails and ttl = "rs_ttl new" and ts = "rs_ts new" and flags = "rs_flags new", OF h i free] by (elim exE conjE) (rule that)
  let ?n = "new_set p (rs_ttl new) (rs_ts new) (rs_flags new)"
  show ?thesis
  proof (cases b)
    case False
    then have "filled cf new i False ce ce1" using A(7) free by (simp add: filled_def)
    then show ?thesis using A False only_at_frame [OF A(6)]
      by (intro exI [of _ False] exI [of _ "cent_store a ce1 c1"] exI [of _ ce1] exI [of _ xs1]) simp
  next
    case True
    have s1: "slot (sets0 ce1) i = Some ?n" "rs_lent ?n = None" "rs_rrs ?n = []" using A(7) True by (simp_all add: new_set_def)
    obtain b' ce2 c2 rrs where B: "add_rrs fails ce1 i (rs_ttl new) (rs_ts new) (rs_flags new) (rs_rrs new) (rr_tail (rs_rrs ?n)) c1 = Some ((b', ce2), c2)"
      "held a xs1 m P k ce2 c2" "same_head ce1 ce2" "\<not> is_neg ce2" "frame c1 c2" "sets0 ce2 = (sets0 ce1)[i := Some (?n\<lparr>rs_rrs := rrs\<rparr>)]"
      "b' \<longrightarrow> rrs = rs_rrs ?n @ rs_rrs new" "(\<forall>n. \<not> fails n) \<longrightarrow> b'"
      using held_add_rrs [where fails = fails and ttl = "rs_ttl new" and ts = "rs_ts new" and flags = "rs_flags new" and rrs = "rs_rrs new", OF A(2,5) i s1(1,2)] by (elim exE conjE) (rule that)
    have tl: "rr_tail (rs_rrs ?n) = None" by (simp add: s1(3) rr_tail_def)
    note B1 = B(1) [unfolded tl]
    have s2: "slot (sets0 ce2) j = (if j = i then Some (?n\<lparr>rs_rrs := rrs\<rparr>) else slot (sets0 ce) j)" for j
      unfolding B(6) slot_upd_some [OF s1(1)] A(7) [rule_format] by simp
    have f2: "frame c c2" and h2: "same_head ce ce2" using frame_trans [OF A(6) B(5)] same_head_trans [OF A(4) B(3)] .
    have undo: "\<exists>c' ce' xs'. do { ce \<leftarrow> dc_cents c3 a; ((_, ce), c) \<leftarrow> del_cent_rrset_by_index ce i c3; Some (False, cent_store a ce c) } = Some (False, c') \<and>
        dc_cents c' a = Some ce' \<and> held a xs' m P k ce' c' \<and> length xs' \<le> Suc (length xs) \<and> only_at a c c' \<and> same_head ce ce' \<and>
        \<not> is_neg ce' \<and> filled cf new i False ce ce'"
      if t: "held a xs3 m P k ce3 c3" "dc_cents c3 a = Some ce3" "length xs3 \<le> Suc (length xs)" "only_at a c c3" "same_head ce ce3" "\<not> is_neg ce3"
        "\<forall>j. j \<noteq> i \<longrightarrow> slot (sets0 ce3) j = slot (sets0 ce) j" for xs3 ce3 c3
    proof -
      obtain rv ce4 c4 xs4 where D: "del_cent_rrset_by_index ce3 i c3 = Some ((rv, ce4), c4)" "held a xs4 m P k ce4 c4" "length xs4 \<le> length xs3"
        "same_head ce3 ce4" "is_neg ce4 = is_neg ce3" "sets0 ce4 = (sets0 ce3)[i := None]" "frame c3 c4"
        using held_del [OF t(1) i] by (elim exE conjE) (rule that)
      have "filled cf new i False ce ce4" using t(7) by (simp add: filled_def D(6) slot_update_None)
      then show ?thesis using D(1-3,5) t same_head_trans [OF t(5) D(4)] only_at_trans [OF t(4) only_at_frame [OF D(7), of a ce4]]
        by (intro exI [of _ "cent_store a ce4 c4"] exI [of _ ce4] exI [of _ xs4]) simp
    qed
    show ?thesis
    proof (cases b')
      case False
      have "held a xs1 m P k ce2 (cent_store a ce2 c2)" using B(2) by simp
      from undo [OF this] obtain c' ce' xs' where U: "do { ce \<leftarrow> dc_cents (cent_store a ce2 c2) a; ((_, ce), c) \<leftarrow> del_cent_rrset_by_index ce i (cent_store a ce2 c2);
          Some (False, cent_store a ce c) } = Some (False, c')" "dc_cents c' a = Some ce'" "held a xs' m P k ce' c'" "length xs' \<le> Suc (length xs)"
        "only_at a c c'" "same_head ce ce'" "\<not> is_neg ce'" "filled cf new i False ce ce'"
        using A(3) only_at_frame [OF f2] h2 s2 B(4) by auto
      show ?thesis using A(1) True B1 False U B(8) A(8)
        by (intro exI [of _ False] exI [of _ c'] exI [of _ ce'] exI [of _ xs']) simp
    next
      case b': True
      let ?r = "?n\<lparr>rs_rrs := rrs\<rparr>"
      have si: "slot (sets0 ce2) i = Some ?r" by (simp add: s2)
      have il: "i < length (sets0 ce2)" using held_slot_len [OF si] by simp
      obtain ce3 where C: "rrarr_put ce2 i (Some (adjust_ttl cf ?r)) = Some ce3" "held a xs1 m P k ce3 c2" "\<not> is_neg ce3" "same_head ce2 ce3"
        "sets0 ce3 = (sets0 ce2)[i := Some (adjust_ttl cf ?r)]"
        using held_put [OF B(2,4) si, of "adjust_ttl cf ?r"] by auto
      have s3: "slot (sets0 ce3) i = Some (adjust_ttl cf ?r)" "rs_lent (adjust_ttl cf ?r) = None"
        unfolding C(5) slot_upd_some [OF si] by (simp_all add: new_set_def)
      obtain b3 c4 ce4 xs4 l where D: "insert_rrl fails (Some i) a (cent_store a ce3 c2) = Some (b3, c4)" "dc_cents c4 = (dc_cents c2)(a \<mapsto> ce4)"
        "held a xs4 m P k ce4 c4" "length xs4 \<le> Suc (length xs1)" "\<not> is_neg ce4" "same_head ce3 ce4"
        "sets0 ce4 = (sets0 ce3)[i := Some (link_set l (adjust_ttl cf ?r))]" "dc_cache_size c4 = dc_cache_size c2" "dc_table c4 = dc_table c2"
        "dc_mallocs c2 \<le> dc_mallocs c4" "b3 \<longrightarrow> l \<noteq> None \<or> local_set (adjust_ttl cf ?r) \<or> local_cent ce3" "\<not> b3 \<longrightarrow> l = None" "(\<forall>n. \<not> fails n) \<longrightarrow> b3"
        using held_insert [where fails = fails, OF C(2,3) s3] by (elim exE conjE) (rule that)
      have s4: "slot (sets0 ce4) j = (if j = i then Some (link_set l (adjust_ttl cf ?r)) else slot (sets0 ce) j)" for j
        using s2 [of j] unfolding D(7) slot_upd_some [OF s3(1)] unfolding C(5) slot_upd_some [OF si] by simp
      have h4: "same_head ce ce4" using same_head_trans [OF same_head_trans [OF h2 C(4)] D(6)] .
      have o4: "only_at a c c4" using D(2,8-10) f2 by (auto simp: only_at_def frame_def)
      have ix: "RRARR_INDEX ce2 i = Some (Some ?r)" using held_index(1) [OF B(2,4) il] si by simp
      show ?thesis
      proof (cases b3)
        case True
        have "local_cent ce3 = local_cent ce" using same_head_trans [OF h2 C(4)] by (simp add: same_head_def local_cent_def)
        moreover have "contents ?r = contents new" using B(7) b' by (simp add: contents_def new_set_def)
        ultimately have "filled cf new i True ce ce4"
          using D(11) True adjust_contents [of ?r new cf] by (simp add: filled_def new_in_def s4)
        then show ?thesis using A(1,3) \<open>b\<close> B1 b' ix C(1) D(1-5) True h4 o4
          by (intro exI [of _ True] exI [of _ c4] exI [of _ ce4] exI [of _ xs4]) simp
      next
        case False
        have C4: "dc_cents c4 a = Some ce4" using D(2) by simp
        have "length xs4 \<le> Suc (length xs)" using D(4) A(3) by simp
        from undo [OF D(3) C4 this o4 h4] obtain c' ce' xs' where U: "do { ce \<leftarrow> dc_cents c4 a; ((_, ce), c) \<leftarrow> del_cent_rrset_by_index ce i c4;
            Some (False, cent_store a ce c) } = Some (False, c')" "dc_cents c' a = Some ce'" "held a xs' m P k ce' c'" "length xs' \<le> Suc (length xs)"
          "only_at a c c'" "same_head ce ce'" "\<not> is_neg ce'" "filled cf new i False ce ce'"
          using s4 D(5) by auto
        show ?thesis using A(1) \<open>b\<close> B1 b' ix C(1) D(1,13) False U
          by (intro exI [of _ False] exI [of _ c'] exI [of _ ce'] exI [of _ xs']) simp
      qed
    qed
  qed
qed


text \<open>What replacing the set in slot \<open>i\<close> leaves in slot \<open>j\<close>: the old set, nothing, or the new set.\<close>

definition replaced :: "cache_conf \<Rightarrow> rr_set \<Rightarrow> nat \<Rightarrow> dns_cent \<Rightarrow> dns_cent \<Rightarrow> nat \<Rightarrow> bool" where
  "replaced cf new i ce ce' j \<longleftrightarrow> slot (sets0 ce') j = None \<or> slot (sets0 ce') j = slot (sets0 ce) j \<or>
     j = i \<and> new_in cf new (local_cent ce) (slot (sets0 ce') i)"

text \<open>An entry that is negative afterwards was so before and is the same.\<close>

definition neg_same :: "dns_cent \<Rightarrow> dns_cent \<Rightarrow> bool" where
  "neg_same ce ce' \<longleftrightarrow> (is_neg ce' \<longrightarrow> is_neg ce \<and> ce_data ce' = ce_data ce)"

lemma neg_same_trans: "neg_same ce ce1 \<Longrightarrow> neg_same ce1 ce2 \<Longrightarrow> neg_same ce ce2"
  by (auto simp: neg_same_def)

definition local_kept :: "dns_cent \<Rightarrow> dns_cent \<Rightarrow> bool" where
  "local_kept ce ce' \<longleftrightarrow> (\<forall>j rs. slot (sets0 ce) j = Some rs \<longrightarrow> local_set rs \<longrightarrow> slot (sets0 ce') j = Some rs)"

lemma same_head_local: "same_head ce ce' \<Longrightarrow> local_cent ce' = local_cent ce"
  by (simp add: same_head_def local_cent_def)

lemma replace_set_ok:
  assumes h: "held a xs m P k ce c" and C: "dc_cents c a = Some ce" and i: "i < NRRTOT"
  shows "\<exists>ok c' ce' xs'. replace_set cf fails now a i new c = Some (ok, c') \<and> dc_cents c' a = Some ce' \<and> held a xs' m P k ce' c' \<and>
    length xs' \<le> Suc (length xs) \<and> only_at a c c' \<and> same_head ce ce' \<and> neg_same ce ce' \<and> (\<forall>j. replaced cf new i ce ce' j) \<and>
    (\<not> local_set new \<and> (\<forall>rs. slot (sets0 ce) i = Some rs \<longrightarrow> \<not> local_set rs) \<longrightarrow> local_kept ce ce') \<and> ((\<forall>n. \<not> fails n) \<longrightarrow> ok)"
proof -
  obtain rv ce1 c1 xs1 where D: "del_cent_rrset_by_index ce i c = Some ((rv, ce1), c1)" "held a xs1 m P k ce1 c1" "length xs1 \<le> length xs"
    "same_head ce ce1" "is_neg ce1 = is_neg ce" "sets0 ce1 = (sets0 ce)[i := None]" "frame c c1"
    "is_neg ce \<longrightarrow> ce_data ce1 = ce_data ce" using held_del [OF h i] by (elim exE conjE) (rule that)
  obtain b ce2 c2 xs2 where R: "cr_check_add now ce1 i (rs_ttl new) (rs_ts new) (rs_flags new) c1 = Some ((b, ce2), c2)" "held a xs2 m P k ce2 c2"
    "length xs2 \<le> length xs1" "fewer_sets ce1 ce2" "frame c1 c2"
    "\<not> has_flag (rs_flags new) CF_LOCAL \<longrightarrow> (\<forall>j rs. slot (sets0 ce1) j = Some rs \<longrightarrow> local_set rs \<longrightarrow> slot (sets0 ce2) j = Some rs)"
    using cr_check_add_held [where now = now and ttl = "rs_ttl new" and ts = "rs_ts new" and flags = "rs_flags new", OF D(2) i]
    by (elim exE conjE) (rule that)
  have h2: "same_head ce ce2" using same_head_trans [OF D(4)] R(4) by (simp add: fewer_sets_def)
  have n2: "neg_same ce ce2" using R(4) D(5,8) by (auto simp: neg_same_def fewer_sets_def)
  have s2: "slot (sets0 ce2) i = None" "slot (sets0 ce2) j = slot (sets0 ce) j \<or> slot (sets0 ce2) j = None" for j
    using R(4) unfolding fewer_sets_def D(6) slot_update_None by metis+
  have l2: "local_kept ce ce2" if "\<not> local_set new" "\<forall>rs. slot (sets0 ce) i = Some rs \<longrightarrow> \<not> local_set rs"
    unfolding local_kept_def
  proof (intro allI impI)
    fix j rs assume j: "slot (sets0 ce) j = Some rs" "local_set rs"
    then have "slot (sets0 ce1) j = Some rs" using that(2) unfolding D(6) slot_update_None by (cases "j = i") auto
    then show "slot (sets0 ce2) j = Some rs" using R(6) that(1) j(2) unfolding local_set_def by blast
  qed
  have f2: "only_at a c (cent_store a ce2 c2)" by (rule only_at_frame [OF frame_trans [OF D(7) R(5)]])
  show ?thesis
  proof (cases b)
    case False
    have "replace_set cf fails now a i new c = Some (True, cent_store a ce2 c2)" using C D(1) R(1) False by (simp add: replace_set_def)
    moreover have "replaced cf new i ce ce2 j" for j using s2(2) [of j] unfolding replaced_def by blast
    ultimately show ?thesis using R(2,3) D(3) h2 l2 f2 n2
      by (intro exI [of _ True] exI [of _ "cent_store a ce2 c2"] exI [of _ ce2] exI [of _ xs2]) simp
  next
    case True
    have h3: "held a xs2 m P k ce2 (cent_store a ce2 c2)" using R(2) by simp
    obtain ok c' ce' xs' where F: "do {
       ((ok, ce), c) \<leftarrow> add_cent_rrset_by_index fails ce2 i (rs_ttl new) (rs_ts new) (rs_flags new) (cent_store a ce2 c2);
       if \<not> ok then Some (False, cent_store a ce c)
       else do {
         ((ok, ce), c) \<leftarrow> add_rrs fails ce i (rs_ttl new) (rs_ts new) (rs_flags new) (rs_rrs new) None c;
         (ok, c) \<leftarrow> (if \<not> ok then Some (False, cent_store a ce c)
            else do {
              s \<leftarrow> RRARR_INDEX ce i;
              rs \<leftarrow> s;
              ce \<leftarrow> rrarr_put ce i (Some (adjust_ttl cf rs));
              insert_rrl fails (Some i) a (cent_store a ce c)
            });
         if ok then Some (True, c)
         else do {
           ce \<leftarrow> dc_cents c a;
           ((_, ce), c) \<leftarrow> del_cent_rrset_by_index ce i c;
           Some (False, cent_store a ce c)
         }
       }
     } = Some (ok, c')" "dc_cents c' a = Some ce'" "held a xs' m P k ce' c'" "length xs' \<le> Suc (length xs2)" "only_at a (cent_store a ce2 c2) c'"
      "same_head ce2 ce'" "\<not> is_neg ce'" "filled cf new i ok ce2 ce'" "(\<forall>n. \<not> fails n) \<longrightarrow> ok"
      using fill_set_ok [where fails = fails and cf = cf and new = new, OF h3 i s2(1)] by (elim exE conjE) (rule that)
    have "replace_set cf fails now a i new c = Some (ok, c')"
      unfolding replace_set_def C bind.bind_lunit D(1) R(1) prod.case Let_def using True F(1) by (simp only: not_True_eq_False if_False simp_thms)
    moreover have n3: "neg_same ce ce'" using F(7) by (simp add: neg_same_def)
    moreover have "replaced cf new i ce ce' j" for j
    proof (cases "j = i")
      case True
      then show ?thesis using F(8) same_head_local [OF h2] by (simp add: replaced_def filled_def split: if_splits)
    next
      case False
      then have "slot (sets0 ce') j = slot (sets0 ce2) j" using F(8) by (simp add: filled_def)
      then show ?thesis using s2(2) [of j] unfolding replaced_def by metis
    qed
    moreover have "local_kept ce ce'" if l: "\<not> local_set new" "\<forall>rs. slot (sets0 ce) i = Some rs \<longrightarrow> \<not> local_set rs"
      unfolding local_kept_def
    proof (intro allI impI)
      fix j rs assume j: "slot (sets0 ce) j = Some rs" "local_set rs"
      then have "j \<noteq> i" "slot (sets0 ce2) j = Some rs" using l(2) l2 [OF l] by (auto simp: local_kept_def)
      then show "slot (sets0 ce') j = Some rs" using F(8) by (simp add: filled_def)
    qed
    moreover have "length xs' \<le> Suc (length xs)" using F(4) R(3) D(3) by simp
    ultimately show ?thesis using F(2,3,9) n3 same_head_trans [OF h2 F(6)] only_at_trans [OF f2 F(5)] by (intro exI conjI) (assumption | blast)+
  qed
qed


subsection \<open>All sets\<close>

definition merged :: "cache_conf \<Rightarrow> dns_cent \<Rightarrow> dns_cent \<Rightarrow> dns_cent \<Rightarrow> nat \<Rightarrow> bool" where
  "merged cf cent ce ce' j \<longleftrightarrow> slot (sets0 ce') j = None \<or> slot (sets0 ce') j = slot (sets0 ce) j \<or>
     (\<exists>new. slot (sets0 cent) j = Some new \<and> new_in cf new (local_cent ce) (slot (sets0 ce') j))"

lemma merged_trans:
  assumes "merged cf cent ce ce1 j" "merged cf cent ce1 ce2 j" "local_cent ce1 = local_cent ce"
  shows "merged cf cent ce ce2 j"
  using assms(1,2) unfolding merged_def assms(3) by (elim disjE) simp_all

lemma local_kept_trans: "local_kept ce ce1 \<Longrightarrow> local_kept ce1 ce2 \<Longrightarrow> local_kept ce ce2"
  by (simp add: local_kept_def)

lemma index_sets0: "cent_ok ce \<Longrightarrow> \<not> is_neg ce \<Longrightarrow> i < length (sets0 ce) \<Longrightarrow> RRARR_INDEX ce i = Some (slot (sets0 ce) i) \<and> i < NRRTOT"
  using pos_index [of ce "sets0 ce" i] cent_ok_sets0 [of ce] by (auto simp: pos_ok_def pos_cent_def list_at_def slot_def less_trans [OF _ nrr_simps(1)])

lemma testext_sets0: "cent_ok ce \<Longrightarrow> i < NRRTOT \<Longrightarrow> RRARR_INDEX_TESTEXT ce i = Some (slot (sets0 ce) i)"
  using pos_testext [of ce "sets0 ce" i] cent_ok_sets0 [of ce] slot_sets0 [of ce i]
  by (cases "is_neg ce") (simp_all add: RRARR_INDEX_TESTEXT_def pos_ok_def slot_def)

lemma merge_sets_ok:
  assumes "held a xs m P k ce c" "dc_cents c a = Some ce" "i + n \<le> length (sets0 cent)" "cent_ok cent" "\<not> is_neg cent"
  shows "\<exists>ok c' ce' xs'. merge_sets cf fails now cent a i n c = Some (ok, c') \<and> dc_cents c' a = Some ce' \<and> held a xs' m P k ce' c' \<and>
    length xs' \<le> length xs + n \<and> only_at a c c' \<and> same_head ce ce' \<and> neg_same ce ce' \<and> (\<forall>j. merged cf cent ce ce' j) \<and>
    ((\<forall>j new. slot (sets0 cent) j = Some new \<longrightarrow> \<not> local_set new) \<longrightarrow> local_kept ce ce') \<and> ((\<forall>n. \<not> fails n) \<longrightarrow> ok)"
  using assms
proof (induction n arbitrary: i ce c xs)
  case 0
  then show ?case using only_at_refl [OF 0(2)]
    by (intro exI [of _ True] exI [of _ c] exI [of _ ce] exI [of _ xs]) (simp add: merged_def local_kept_def neg_same_def)
next
  case (Suc n)
  have x: "RRARR_INDEX cent i = Some (slot (sets0 cent) i)" "i < NRRTOT" using index_sets0 [OF Suc.prems(4,5)] Suc.prems(3) by simp_all
  have y: "RRARR_INDEX_TESTEXT ce i = Some (slot (sets0 ce) i)" by (rule testext_sets0 [OF held_ok(1) [OF Suc.prems(1)] x(2)])
  have len: "Suc i + n \<le> length (sets0 cent)" using Suc.prems(3) by simp
  have skip: ?case if e: "merge_sets cf fails now cent a i (Suc n) c = merge_sets cf fails now cent a (i + 1) n c"
  proof -
    obtain ok c' ce' xs' where R: "merge_sets cf fails now cent a (Suc i) n c = Some (ok, c')" "dc_cents c' a = Some ce'" "held a xs' m P k ce' c'"
      "length xs' \<le> length xs + n" "only_at a c c'" "same_head ce ce'" "neg_same ce ce'" "\<forall>j. merged cf cent ce ce' j"
      "(\<forall>j new. slot (sets0 cent) j = Some new \<longrightarrow> \<not> local_set new) \<longrightarrow> local_kept ce ce'" "(\<forall>n. \<not> fails n) \<longrightarrow> ok"
      using Suc.IH [OF Suc.prems(1,2) len Suc.prems(4,5)] by (elim exE conjE) (rule that)
    have "length xs' \<le> length xs + Suc n" using R(4) by simp
    then show ?thesis using R(1-3,5-) e by (intro exI conjI) (simp only: Suc_eq_plus1, assumption+)
  qed
  show ?case
  proof (cases "slot (sets0 cent) i")
    case None
    then show ?thesis using x(1) by (intro skip) simp
  next
    case (Some new)
    show ?thesis
    proof (cases "keeps_old now new (slot (sets0 ce) i)")
      case True
      then show ?thesis using x(1) y Some Suc.prems(2) by (intro skip) simp
    next
      case False
      obtain ok c1 ce1 xs1 where R: "replace_set cf fails now a i new c = Some (ok, c1)" "dc_cents c1 a = Some ce1" "held a xs1 m P k ce1 c1"
        "length xs1 \<le> Suc (length xs)" "only_at a c c1" "same_head ce ce1" "neg_same ce ce1" "\<forall>j. replaced cf new i ce ce1 j"
        "\<not> local_set new \<and> (\<forall>rs. slot (sets0 ce) i = Some rs \<longrightarrow> \<not> local_set rs) \<longrightarrow> local_kept ce ce1" "(\<forall>n. \<not> fails n) \<longrightarrow> ok"
        using replace_set_ok [where cf = cf and fails = fails and now = now and new = new, OF Suc.prems(1,2) x(2)] by (elim exE conjE) (rule that)
      have e: "merge_sets cf fails now cent a i (Suc n) c =
          (if ok then merge_sets cf fails now cent a (Suc i) n c1 else Some (False, c1))"
        using x(1) y Some Suc.prems(2) False R(1) by simp
      have m1: "merged cf cent ce ce1 j" for j using R(8) Some unfolding replaced_def merged_def by metis
      have l1: "(\<forall>j new. slot (sets0 cent) j = Some new \<longrightarrow> \<not> local_set new) \<longrightarrow> local_kept ce ce1"
      proof
        assume "\<forall>j new. slot (sets0 cent) j = Some new \<longrightarrow> \<not> local_set new"
        then have "\<not> local_set new" using Some by blast
        moreover from this have "\<forall>rs. slot (sets0 ce) i = Some rs \<longrightarrow> \<not> local_set rs"
          using False by (auto simp: keeps_old_def local_set_def)
        ultimately show "local_kept ce ce1" using R(9) by blast
      qed
      show ?thesis
      proof (cases ok)
        case False
        have "length xs1 \<le> length xs + Suc n" using R(4) by simp
        then show ?thesis using e False R(2,3,5-7,10) m1 l1 by (intro exI [of _ False] exI [of _ c1] exI [of _ ce1] exI [of _ xs1]) simp
      next
        case True
        obtain ok' c2 ce2 xs2 where S: "merge_sets cf fails now cent a (Suc i) n c1 = Some (ok', c2)" "dc_cents c2 a = Some ce2" "held a xs2 m P k ce2 c2"
          "length xs2 \<le> length xs1 + n" "only_at a c1 c2" "same_head ce1 ce2" "neg_same ce1 ce2" "\<forall>j. merged cf cent ce1 ce2 j"
          "(\<forall>j new. slot (sets0 cent) j = Some new \<longrightarrow> \<not> local_set new) \<longrightarrow> local_kept ce1 ce2" "(\<forall>n. \<not> fails n) \<longrightarrow> ok'"
          using Suc.IH [OF R(3,2) len Suc.prems(4,5)] by (elim exE conjE) (rule that)
        have "\<forall>j. merged cf cent ce ce2 j" using merged_trans [OF m1 _ same_head_local [OF R(6)]] S(8) by blast
        moreover have "(\<forall>j new. slot (sets0 cent) j = Some new \<longrightarrow> \<not> local_set new) \<longrightarrow> local_kept ce ce2"
          using l1 S(9) local_kept_trans by blast
        moreover have "length xs2 \<le> length xs + Suc n" using S(4) R(4) by simp
        moreover have "merge_sets cf fails now cent a i (Suc n) c = Some (ok', c2)" using e True S(1) by simp
        ultimately show ?thesis using S(2,3,10) neg_same_trans [OF R(7) S(7)] only_at_trans [OF R(5) S(5)] same_head_trans [OF R(6) S(6)]
          by (intro exI conjI) assumption+
      qed
    qed
  qed
qed


subsection \<open>The whole entry\<close>

lemma has_mask: "m AND m' = 0 \<Longrightarrow> \<not> has_flag (f AND m) m'" for m :: flags
  by (simp add: has_flag_def and.assoc)

lemma merge_flags: "has_flag (f OR (g AND (DF_AUTH OR DF_WILD))) DF_NEGATIVE = has_flag f DF_NEGATIVE"
  "has_flag (f OR (g AND (DF_AUTH OR DF_WILD))) DF_LOCAL = has_flag f DF_LOCAL"
proof -
  have "(DF_AUTH OR DF_WILD) AND DF_NEGATIVE = 0" "(DF_AUTH OR DF_WILD) AND DF_LOCAL = 0"
    by (simp_all add: DF_AUTH_def DF_WILD_def DF_NEGATIVE_def DF_LOCAL_def)
  then show "has_flag (f OR (g AND (DF_AUTH OR DF_WILD))) DF_NEGATIVE = has_flag f DF_NEGATIVE"
    "has_flag (f OR (g AND (DF_AUTH OR DF_WILD))) DF_LOCAL = has_flag f DF_LOCAL" unfolding has_or using has_mask by blast+
qed

lemma purgeable_not_local: "purgeable now rs \<Longrightarrow> \<not> local_set rs"
  by (simp add: purgeable_def local_set_def)

definition no_locals :: "dns_cent \<Rightarrow> bool" where
  "no_locals cent \<longleftrightarrow> (\<forall>j new. slot (sets0 cent) j = Some new \<longrightarrow> \<not> local_set new)"

text \<open>What a merge leaves of the entry.\<close>

definition merge_result :: "cache_conf \<Rightarrow> dns_cent \<Rightarrow> dns_cent \<Rightarrow> dns_cent \<Rightarrow> bool" where
  "merge_result cf cent ce ce' \<longleftrightarrow> ce_qname ce' = ce_qname ce \<and> local_cent ce' = local_cent ce \<and>
     (\<forall>j. merged cf cent ce ce' j) \<and> (no_locals cent \<longrightarrow> local_kept ce ce')"

lemma merge_linked:
  assumes "\<forall>j. merged cf cent ce ce' j" "neg_same ce ce'" "local_cent ce' = local_cent ce" "linked ce"
  shows "linked ce'"
proof (cases "local_cent ce \<or> is_neg ce'")
  case True
  then show ?thesis using assms(2-4) by (auto simp: linked_def local_cent_def neg_same_def)
next
  case False
  have "has_flag (rs_flags rs) CF_LOCAL \<or> rs_lent rs \<noteq> None" if s: "slot (sets0 ce') j = Some rs" for j rs
  proof -
    have "merged cf cent ce ce' j" using assms(1) by blast
    then consider "slot (sets0 ce) j = Some rs" | new where "new_in cf new (local_cent ce) (Some rs)"
      unfolding merged_def s by (elim disjE exE conjE) auto
    then show ?thesis
    proof cases
      case 1
      then have "\<not> is_neg ce" using slot_sets0 by fastforce
      then show ?thesis using assms(4) False 1 by (auto simp: linked_def local_cent_def)
    next
      case 2
      then show ?thesis using False by (auto simp: new_in_def local_set_def)
    qed
  qed
  then show ?thesis using False by (simp add: linked_def)
qed

lemma linked_cong:
  assumes "local_cent ce' = local_cent ce" "is_neg ce' = is_neg ce" "ce_data ce' = ce_data ce"
  shows "linked ce' = linked ce"
proof -
  have "sets0 ce' = sets0 ce" using assms(2,3) by (simp add: sets0_def cent_sets_def)
  then show ?thesis using assms unfolding linked_def local_cent_def by simp
qed

lemma merge_cent_ok:
  assumes inv: "cache_inv xs m {} 0 k c" and C: "dc_cents c a = Some ce" and ok: "cent_ok cent" "\<not> is_neg cent"
  shows "\<exists>b c' xs' ce'. merge_cent cf fails now cent a c = Some (b, c') \<and> cache_inv xs' m {} 0 k c' \<and> length xs' \<le> length xs + NRRTOT \<and>
    dc_cents c' = (dc_cents c)(a \<mapsto> ce') \<and> merge_result cf cent ce ce' \<and> (all_linked c \<longrightarrow> all_linked c') \<and> ((\<forall>n. \<not> fails n) \<longrightarrow> b)"
proof -
  obtain r c1 xs1 m1 where A: "purge_cent now a False False c = Some (r, c1)" "cache_inv xs1 m1 {} 0 k c1" "length xs1 \<le> length xs"
    "all_linked c \<longrightarrow> all_linked c1" "m1 \<subseteq>\<^sub>m m"
    "if r < 0 then False \<and> dc_cents c1 = (dc_cents c)(a := None) \<and> all_expired now ce
     else m1 = m \<and> purged_to now a c c1 \<and> (False \<longrightarrow> \<not> all_expired now ce)"
    using purge_cent_ok [where now = now and delete = False, OF inv C] by (elim exE conjE) (rule that)
  have m1: "m1 = m" "purged_to now a c c1" using A(6) by (simp_all split: if_splits)
  then obtain ce1 where ce1: "dc_cents c1 = (dc_cents c)(a \<mapsto> ce1)" "refreshed now ce ce1" using C by (auto simp: purged_to_def)
  have C1: "dc_cents c1 a = Some ce1" using ce1(1) by simp
  let ?c = "sub_cache_size (ce_cs ce1) c1"
  have h: "held a xs1 m {} k ce1 ?c"
    using sub_cache_size_inv [OF A(2), of "ce_cs ce1"] cent_store_same [OF C1] m1(1) by (simp add: held_def)
  have C2: "dc_cents ?c a = Some ce1" using C1 by simp
  have len: "RRARR_LEN cent = Some (length (sets0 cent))" using pos_len [of cent "sets0 cent"] cent_ok_sets0 [OF ok] by (simp add: pos_ok_def)
  obtain b c2 ce2 xs2 where M: "merge_sets cf fails now cent a 0 (length (sets0 cent)) ?c = Some (b, c2)" "dc_cents c2 a = Some ce2"
    "held a xs2 m {} k ce2 c2" "length xs2 \<le> length xs1 + length (sets0 cent)" "only_at a ?c c2" "same_head ce1 ce2" "neg_same ce1 ce2"
    "\<forall>j. merged cf cent ce1 ce2 j" "(\<forall>j new. slot (sets0 cent) j = Some new \<longrightarrow> \<not> local_set new) \<longrightarrow> local_kept ce1 ce2" "(\<forall>n. \<not> fails n) \<longrightarrow> b"
    using merge_sets_ok [where cf = cf and fails = fails and now = now, OF h C2 eq_imp_le [OF add_0] ok] by (elim exE conjE) (rule that)
  let ?ce = "if b then ce2\<lparr>ce_flags := ce_flags ce2 OR (ce_flags cent AND (DF_AUTH OR DF_WILD)),
                          ce_c_ns := min_ref (ce_c_ns cent) (ce_c_ns ce2), ce_c_soa := min_ref (ce_c_soa cent) (ce_c_soa ce2)\<rparr> else ce2"
  have s: "ce_qname ?ce = ce_qname ce2" "ce_cs ?ce = ce_cs ce2" "ce_num_rrs ?ce = ce_num_rrs ce2" "ce_data ?ce = ce_data ce2" "is_neg ?ce = is_neg ce2"
    "local_cent ?ce = local_cent ce2" using merge_flags by (simp_all add: is_neg_def local_cent_def)
  have s0: "sets0 ?ce = sets0 ce2" using s(4,5) by (simp add: sets0_def cent_sets_def)
  let ?c' = "(cent_store a ?ce c2)\<lparr>dc_cache_size := dc_cache_size c2 + ce_cs ?ce\<rparr>"
  have "cache_inv xs2 m {} 0 k ?c'" using held_size [OF held_head [OF M(3) s(1-5)]] .
  moreover have "merge_cent cf fails now cent a c = Some (b, ?c')"
    using A(1) C1 len M(1,2) by (simp add: merge_cent_def Let_def)
  moreover have "length (sets0 cent) \<le> NRRTOT" using sets0_length [OF ok(1)] less_imp_le [OF nrr_simps(1)] by auto
  then have "length xs2 \<le> length xs + NRRTOT" using M(4) A(3) by simp
  moreover have cs: "dc_cents ?c' = (dc_cents c)(a \<mapsto> ?ce)" using only_at_cent [OF M(5,2)] ce1(1) by simp
  moreover have "merge_result cf cent ce ?ce" unfolding merge_result_def
  proof (intro conjI allI impI)
    show "ce_qname ?ce = ce_qname ce" "local_cent ?ce = local_cent ce"
      using s(1,6) M(6) ce1(2) same_head_local [OF M(6)] by (simp_all add: same_head_def refreshed_def)
    fix j
    have "merged cf cent ce1 ce2 j" using M(8) by blast
    moreover have "merged cf cent ce ce1 j" using ce1(2) by (auto simp: merged_def refreshed_def unexpired_def split: option.splits)
    moreover have "local_cent ce1 = local_cent ce" using ce1(2) by (simp add: refreshed_def)
    ultimately have "merged cf cent ce ce2 j" using merged_trans by blast
    then show "merged cf cent ce ?ce j" unfolding merged_def s0 .
  next
    assume "no_locals cent"
    then have "local_kept ce1 ce2" using M(9) by (simp add: no_locals_def)
    moreover have "local_kept ce ce1" using ce1(2) by (auto simp: local_kept_def refreshed_def unexpired_Some dest: purgeable_not_local)
    ultimately have "local_kept ce ce2" using local_kept_trans by blast
    then show "local_kept ce ?ce" unfolding local_kept_def s0 .
  qed
  moreover have "all_linked c \<longrightarrow> all_linked ?c'"
  proof
    assume al: "all_linked c"
    then have "linked ce1" using A(4) C1 by (simp add: all_linked_def)
    then have "linked ce2" by (rule merge_linked [OF M(8,7) same_head_local [OF M(6)]])
    then have "linked ?ce" using linked_cong [OF s(6,5,4)] by blast
    then show "all_linked ?c'" using al unfolding all_linked_def cs by auto
  qed
  ultimately show ?thesis using M(10) by (intro exI conjI) assumption+
qed

end
