(* ===== verification/CacheInsert.thy ===== *)
theory CacheInsert
  imports CacheMerge
begin

text \<open>
  Putting an entry under a new name into the cache: the copy, its links, its place in the table; or nothing, where
  memory runs out on the way. With the merging of entries and purging this is \<open>add_cache\<close>.
\<close>

subsection \<open>An entry that is not in the table yet\<close>

lemma new_entry_inv:
  assumes inv: "cache_inv xs m P d k c" and f: "frame c c'" "dc_rrl c' = dc_rrl c" and a: "dc_mallocs c = a" "a < dc_mallocs c'"
    and l: "dc_live c' = dc_live c + 1 + cent_blocks ce" and ok: "cent_ok ce" "cent_lents ce = []"
  shows "cache_inv xs m (insert a P) (d + ce_cs ce) k (cent_store a ce c')"
proof -
  note I = cache_invD [OF inv]
  have new: "a \<notin> dom (dc_cents c)" using I(4) a(1) by (auto simp: fresh_ok_def)
  then have aC: "dc_cents c a = None" by auto
  have nR: "a \<notin> ran m" "a \<notin> P" using new I(6) by auto
  have f': "dc_cents c' = dc_cents c" "dc_table c' = dc_table c" "dc_cache_size c' = dc_cache_size c" "dc_ent_num c' = dc_ent_num c"
    "dc_mallocs c \<le> dc_mallocs c'" using f(1) by (simp_all add: frame_def)
  let ?c = "cent_store a ce c'"
  have s: "dc_rrl ?c = dc_rrl c" "dc_cents ?c = (dc_cents c)(a \<mapsto> ce)" "dc_table ?c = dc_table c" "dc_ent_num ?c = dc_ent_num c"
    "dc_live ?c = dc_live c + 1 + cent_blocks ce" "dc_mallocs ?c = dc_mallocs c'" "dc_cache_size ?c = dc_cache_size c"
    using f' f(2) l by (simp_all add: cent_store_def)
  have "hash_rep (cent_name ?c) (dc_table c) m"
    by (rule hash_rep_cong [OF I(2)]) (use nR(1) s(2) in \<open>auto simp: cent_name_def\<close>)
  moreover have "links_ok ?c" unfolding links_ok_def
  proof (intro allI)
    fix le e
    have "\<not> link_at ce a le e" using mem_cent_lents [OF ok(1), of le a] ok(2) by auto
    then have "(\<exists>b ce1. dc_cents ?c b = Some ce1 \<and> link_at ce1 b le e) \<longleftrightarrow> (\<exists>b ce1. dc_cents c b = Some ce1 \<and> link_at ce1 b le e)"
      unfolding s(2) using aC by (metis fun_upd_apply option.distinct(1) option.inject)
    then show "items (rl_ents (dc_rrl ?c)) le = Some e \<longleftrightarrow> (\<exists>b ce1. dc_cents ?c b = Some ce1 \<and> link_at ce1 b le e)"
      using I(3) unfolding links_ok_def s(1) by blast
  qed
  moreover have "fresh_ok ?c" by (rule fresh_mono [OF I(4)]) (use s f'(5) a in auto)
  moreover have t: "tot f (dc_cents ?c) = tot f (dc_cents c) + f ce" for f unfolding s(2) by (rule tot_new [OF I(11) aC])
  moreover have "dom (dc_cents ?c) = ran m \<union> insert a P" using I(6) s(2) by auto
  ultimately show ?thesis using I s ok(1) nR unfolding cache_inv_def by auto
qed

lemma pending_drop_effect:
  assumes inv: "cache_inv xs m P d k c" and C: "dc_cents c a = Some ce" and aP: "a \<in> P"
    and c1: "effect xs c (- cent_blocks ce) (cent_lents ce) c1"
  shows "cache_inv (filter (\<lambda>x. x \<notin> set (cent_lents ce)) xs) m (P - {a}) (d - ce_cs ce) k (cache_free (c1\<lparr>dc_cents := (dc_cents c1)(a := None)\<rparr>))"
proof -
  note I = cache_invD [OF inv]
  have e: "frame c c1" "dc_live c1 = dc_live c - cent_blocks ce - int (length (cent_lents ce))" using c1 by (simp_all add: effect_def)
  let ?c = "cache_free (c1\<lparr>dc_cents := (dc_cents c1)(a := None)\<rparr>)" and ?xs = "filter (\<lambda>x. x \<notin> set (cent_lents ce)) xs"
  have s: "dc_rrl ?c = dc_rrl c1" "dc_cents ?c = (dc_cents c)(a := None)" "dc_table ?c = dc_table c" "dc_mallocs c \<le> dc_mallocs ?c"
    "dc_cache_size ?c = dc_cache_size c" "dc_ent_num ?c = dc_ent_num c" "dc_live ?c = dc_live c1 - 1"
    using e(1) unfolding frame_def by (simp_all add: cache_free_def)
  have R: "links_ok ?c" "rl_rep (dc_rrl ?c) ?xs" "int (length ?xs) = int (length xs) - int (length (cent_lents ce))"
    "dom (rl_ents (dc_rrl ?c)) \<subseteq> dom (rl_ents (dc_rrl c))"
    using links_remove [OF inv C c1 s(1,2)] by blast+
  have "a \<notin> ran m" using I(7) aP by blast
  then have hr: "hash_rep (cent_name ?c) (dc_table ?c) m" unfolding s(3) by (rule hash_rep_cent_del [OF I(2) _ s(2)])
  have fr: "fresh_ok ?c" by (rule fresh_mono [OF I(4) s(4)]) (use R(4) in \<open>auto simp: s(2,3)\<close>)
  have t: "tot f (dc_cents ?c) = tot f (dc_cents c) - f ce" for f unfolding s(2) by (rule tot_del [OF I(11) C])
  have dm: "dom (dc_cents ?c) = ran m \<union> (P - {a})" unfolding s(2) using I(6) \<open>a \<notin> ran m\<close> by auto
  have oks: "\<forall>x ce1. dc_cents ?c x = Some ce1 \<longrightarrow> cent_ok ce1" using I(5) unfolding s(2) by auto
  show ?thesis unfolding cache_inv_def
  proof (intro conjI)
    show "dc_cache_size ?c + (d - ce_cs ce) = tot ce_cs (dc_cents ?c)" unfolding t s(5) using I(8) by linarith
    show "dc_live ?c = k + int (length ?xs) + int (card (dom m)) + tot (\<lambda>ce. 1 + cent_blocks ce) (dc_cents ?c)"
      unfolding t s(7) R(3) e(2) using I(10) by linarith
  qed (use R(1,2) hr fr dm oks I s in auto)
qed

lemma pending_drop:
  assumes inv: "cache_inv xs m P d k c" and C: "dc_cents c a = Some ce" and aP: "a \<in> P"
  shows "\<exists>c1. free_cent ce c = Some c1 \<and> cache_inv (filter (\<lambda>x. x \<notin> set (cent_lents ce)) xs) m (P - {a}) (d - ce_cs ce) k
      (cache_free (c1\<lparr>dc_cents := (dc_cents c1)(a := None)\<rparr>)) \<and> dc_cents c1 = dc_cents c"
proof -
  note L = cache_inv_links [OF inv C]
  obtain c1 where c1: "free_cent ce c = Some c1" "effect xs c (- cent_blocks ce) (cent_lents ce) c1"
    using free_cent_ok [OF cent_ok_shaped [OF L(3)] cache_invD(1) [OF inv] L(1,2)] by blast
  then show ?thesis using pending_drop_effect [OF inv C aP c1(2)] by (simp add: effect_def frame_def)
qed

subsection \<open>The place in the table\<close>

lemma lookup_cong:
  assumes r: "hash_rep qn h m" and q: "\<And>a. a \<in> ran m \<Longrightarrow> qn' a = qn a" and ks: "list_all lab_len ks"
  shows "dns_lookup h qn' (enc_name ks @ r) = dns_lookup h qn (enc_name ks @ r)"
proof -
  obtain T where T: "hash_ok h qn T" "m = table_map T" "\<forall>x \<in> set (concat T). m (it_key x) = Some (it_data x)"
    by (rule hash_repE [OF r])
  have "item_ok qn' i x" if "i < length T" "x \<in> set (T ! i)" "item_ok qn i x" for i x
  proof -
    have "x \<in> set (concat T)" unfolding set_bucket using that(1,2) by blast
    then have "m (it_key x) = Some (it_data x)" using T(3) by blast
    then have "it_data x \<in> ran m" by (rule ranI)
    then show ?thesis using q that(3) by (simp add: item_ok_def)
  qed
  then have T': "hash_ok h qn' T" using T(1) by (simp add: hash_ok_def)
  have u: "dns_lookup h q (enc_name ks @ r) = Some (table_map T (map lower ks),
      (slot_of (fst (name_hash ks)) (takeWhile (before (map lower ks) (snd (name_hash ks))) (T ! fst (name_hash ks))), snd (name_hash ks)))"
    if hq: "hash_ok h q T" for q
  proof -
    obtain i rh pre post where f: "name_hash ks = (i, rh)" "T ! i = pre @ post" "list_all (before (map lower ks) rh) pre"
      "case post of [] \<Rightarrow> True | x # _ \<Rightarrow> \<not> before (map lower ks) rh x"
      "dns_lookup h q (enc_name ks @ r) = Some (table_map T (map lower ks), (slot_of i pre, rh))"
      using dns_lookup_ok [OF hq ks, of r] by blast
    have "takeWhile (before (map lower ks) rh) (pre @ post) = pre"
      using f(3,4) by (cases post) (simp_all add: takeWhile_append1 list_all_iff)
    then show ?thesis using f(1,2,5) by simp
  qed
  show ?thesis using u [OF T(1)] u [OF T'] by simp
qed

lemma publish_inv:
  assumes inv: "cache_inv xs m {a} (ce_cs ce) k c" and C: "dc_cents c a = Some ce" and ks: "list_all lab_len ks" "ce_qname ce = enc_name ks"
    and new: "m (map lower ks) = None" and loc: "dns_lookup (dc_table c) (cent_name c) (enc_name ks) = Some (None, loc)"
  shows "\<exists>ok c1. (let (he, c) = cache_malloc fails c in do { (t, ok) \<leftarrow> add_dns_hash (dc_table c) he a loc; Some (ok, c\<lparr>dc_table := t\<rparr>) }) = Some (ok, c1) \<and>
    dc_cents c1 = dc_cents c \<and>
    (if ok then cache_inv xs (m(map lower ks \<mapsto> a)) {} 0 k (c1\<lparr>dc_ent_num := dc_ent_num c1 + 1, dc_cache_size := dc_cache_size c1 + ce_cs ce\<rparr>)
     else cache_inv xs m {a} (ce_cs ce) k c1) \<and> ((\<forall>n. \<not> fails n) \<longrightarrow> ok)"
proof (cases rule: cache_malloc_cases [of fails c])
  case (none c1)
  have f: "dc_table c1 = dc_table c" "dc_cents c1 = dc_cents c" using none(2) by (simp_all add: frame_def)
  have i1: "cache_inv xs m {a} (ce_cs ce) k c1" by (rule frame_inv [OF inv none(2-4)])
  have "c1\<lparr>dc_table := dc_table c\<rparr> = c1" unfolding f(1) [symmetric] by simp
  then have "cache_inv xs m {a} (ce_cs ce) k (c1\<lparr>dc_table := dc_table c\<rparr>)" using i1 by (simp only:)
  then show ?thesis using none(1,5) f
    by (intro exI [of _ False] exI [of _ "c1\<lparr>dc_table := dc_table c\<rparr>"]) (auto simp: add_dns_hash_def)
next
  case (some he c1)
  note I = cache_invD [OF inv]
  have f: "dc_table c1 = dc_table c" "dc_cents c1 = dc_cents c" "dc_cache_size c1 = dc_cache_size c" "dc_ent_num c1 = dc_ent_num c"
    using some(2) by (simp_all add: frame_def)
  have he: "hash_ents (dc_table c) he = None" using I(4) some(5) by (auto simp: fresh_ok_def)
  have q: "cent_name c a = Some (enc_name ks)" using C ks(2) by (simp add: cent_name_def)
  obtain T where T: "hash_ok (dc_table c) (cent_name c) T" "m = table_map T" using I(2) unfolding hash_rep_def by blast
  have loc': "dns_lookup (dc_table c) (cent_name c) (enc_name ks @ []) = Some (None, loc)" using loc by simp
  obtain t T' where t: "add_dns_hash (dc_table c) (Some he) a loc = Some (t, True)" "hash_ok t (cent_name c) T'" "table_map T' = m(map lower ks \<mapsto> a)"
    using add_dns_hash_ok [OF T(1) ks(1) loc' he q refl ks(1)] T(2) by blast
  let ?c = "c1\<lparr>dc_table := t, dc_ent_num := dc_ent_num c1 + 1, dc_cache_size := dc_cache_size c1 + ce_cs ce\<rparr>"
  have s: "dc_rrl ?c = dc_rrl c" "dc_cents ?c = dc_cents c" "dc_live ?c = dc_live c + 1" using some f by simp_all
  have nm: "cent_name ?c = cent_name c" by (rule cent_name_eq [OF s(2)])
  have "hash_rep (cent_name ?c) (dc_table ?c) (m(map lower ks \<mapsto> a))" unfolding nm hash_rep_def using t(2,3) by auto
  moreover have "links_ok ?c" using I(3) s(1,2) by (simp add: links_ok_def)
  moreover have "dom (hash_ents t) = insert he (dom (hash_ents (dc_table c)))" by (rule add_dns_hash_dom [OF t(1)])
  then have "fresh_ok ?c" by (intro fresh_mono [OF I(4)]) (use s some(5,6) in auto)
  moreover have rn: "ran (m(map lower ks \<mapsto> a)) = insert a (ran m)" using new by (rule ran_map_upd)
  moreover have cd: "card (dom (m(map lower ks \<mapsto> a))) = Suc (card (dom m))" using new hash_rep_card(1) [OF I(2)] by (simp add: domIff)
  moreover have "a \<notin> ran m" using I(7) by blast
  ultimately have "cache_inv xs (m(map lower ks \<mapsto> a)) {} 0 k ?c"
    unfolding cache_inv_def cd rn using I s f by (simp add: domIff)
  then show ?thesis using some(1) t(1) f(1,2) by (intro exI [of _ True] exI [of _ "c1\<lparr>dc_table := t\<rparr>"]) simp
qed


subsection \<open>The links of a new entry\<close>

text \<open>What linking the sets from slot \<open>i\<close> on makes of the entry.\<close>

definition sets_linked :: "cache_conf \<Rightarrow> nat \<Rightarrow> dns_cent \<Rightarrow> dns_cent \<Rightarrow> bool" where
  "sets_linked cf i ce ce' \<longleftrightarrow> (\<forall>j. if i \<le> j
     then (case slot (sets0 ce) j of None \<Rightarrow> slot (sets0 ce') j = None | Some rs \<Rightarrow> new_in cf rs (local_cent ce) (slot (sets0 ce') j))
     else slot (sets0 ce') j = slot (sets0 ce) j)"

lemma link_sets_ok:
  assumes "held a xs m P k ce c" "dc_cents c a = Some ce" "\<not> is_neg ce" "i + n = length (sets0 ce)"
    "\<forall>j rs. slot (sets0 ce) j = Some rs \<longrightarrow> i \<le> j \<longrightarrow> rs_lent rs = None"
  shows "\<exists>ok c' ce' xs'. link_sets cf fails a i n c = Some (ok, c') \<and> dc_cents c' a = Some ce' \<and> held a xs' m P k ce' c' \<and>
    length xs' \<le> length xs + n \<and> only_at a c c' \<and> same_head ce ce' \<and> \<not> is_neg ce' \<and> (ok \<longrightarrow> sets_linked cf i ce ce') \<and>
    ((\<forall>n. \<not> fails n) \<longrightarrow> ok)"
  using assms
proof (induction n arbitrary: i ce c xs)
  case 0
  have "sets_linked cf i ce ce" using 0(4) by (simp add: sets_linked_def slot_def)
  then show ?case using 0 only_at_refl [OF 0(2)] by (intro exI [of _ True] exI [of _ c] exI [of _ ce] exI [of _ xs]) simp
next
  case (Suc n)
  have il: "i < length (sets0 ce)" using Suc.prems(4) by simp
  have x: "RRARR_INDEX ce i = Some (slot (sets0 ce) i)" by (rule held_index(1) [OF Suc.prems(1,3) il])
  show ?case
  proof (cases "slot (sets0 ce) i")
    case None
    have l: "Suc i + n = length (sets0 ce)" "\<forall>j rs. slot (sets0 ce) j = Some rs \<longrightarrow> Suc i \<le> j \<longrightarrow> rs_lent rs = None"
      using Suc.prems(4,5) by simp_all
    obtain ok c' ce' xs' where R: "link_sets cf fails a (Suc i) n c = Some (ok, c')" "dc_cents c' a = Some ce'" "held a xs' m P k ce' c'"
      "length xs' \<le> length xs + n" "only_at a c c'" "same_head ce ce'" "\<not> is_neg ce'" "ok \<longrightarrow> sets_linked cf (Suc i) ce ce'" "(\<forall>n. \<not> fails n) \<longrightarrow> ok"
      using Suc.IH [OF Suc.prems(1-3) l] by (elim exE conjE) (rule that)
    have "ok \<longrightarrow> sets_linked cf i ce ce'"
    proof
      assume ok
      then have s: "sets_linked cf (Suc i) ce ce'" using R(8) by simp
      show "sets_linked cf i ce ce'" unfolding sets_linked_def
      proof
        fix j
        show "if i \<le> j then (case slot (sets0 ce) j of None \<Rightarrow> slot (sets0 ce') j = None | Some rs \<Rightarrow> new_in cf rs (local_cent ce) (slot (sets0 ce') j))
          else slot (sets0 ce') j = slot (sets0 ce) j"
          using s [unfolded sets_linked_def, rule_format, of j] None by (cases j i rule: linorder_cases) simp_all
      qed
    qed
    moreover have "link_sets cf fails a i (Suc n) c = Some (ok, c')" using Suc.prems(2) x None R(1) by simp
    moreover have "length xs' \<le> length xs + Suc n" using R(4) by simp
    ultimately show ?thesis using R(2,3,5-7,9) by (intro exI conjI) assumption+
  next
    case (Some rs)
    have ln: "rs_lent rs = None" using Suc.prems(5) Some by blast
    obtain ce1 where C: "rrarr_put ce i (Some (adjust_ttl cf rs)) = Some ce1" "held a xs m P k ce1 c" "\<not> is_neg ce1" "same_head ce ce1"
      "sets0 ce1 = (sets0 ce)[i := Some (adjust_ttl cf rs)]"
      using held_put [OF Suc.prems(1,3) Some, of "adjust_ttl cf rs"] by auto
    have s1: "slot (sets0 ce1) i = Some (adjust_ttl cf rs)" "rs_lent (adjust_ttl cf rs) = None"
      unfolding C(5) slot_upd_some [OF Some] using ln by simp_all
    obtain b c2 ce2 xs2 l where D: "insert_rrl fails (Some i) a (cent_store a ce1 c) = Some (b, c2)" "dc_cents c2 = (dc_cents c)(a \<mapsto> ce2)"
      "held a xs2 m P k ce2 c2" "length xs2 \<le> Suc (length xs)" "\<not> is_neg ce2" "same_head ce1 ce2"
      "sets0 ce2 = (sets0 ce1)[i := Some (link_set l (adjust_ttl cf rs))]" "dc_cache_size c2 = dc_cache_size c" "dc_table c2 = dc_table c"
      "dc_mallocs c \<le> dc_mallocs c2" "b \<longrightarrow> l \<noteq> None \<or> local_set (adjust_ttl cf rs) \<or> local_cent ce1" "\<not> b \<longrightarrow> l = None" "(\<forall>n. \<not> fails n) \<longrightarrow> b"
      using held_insert [where fails = fails, OF C(2,3) s1] by (elim exE conjE) (rule that)
    have C2: "dc_cents c2 a = Some ce2" using D(2) by simp
    have h2: "same_head ce ce2" using same_head_trans [OF C(4) D(6)] .
    have o2: "only_at a c c2" using D(2,8-10) by (auto simp: only_at_def)
    have s2: "slot (sets0 ce2) j = (if j = i then Some (link_set l (adjust_ttl cf rs)) else slot (sets0 ce) j)" for j
      unfolding D(7) slot_upd_some [OF s1(1)] C(5) using slot_upd_some [OF Some] by simp
    have e: "link_sets cf fails a i (Suc n) c = (if b then link_sets cf fails a (Suc i) n c2 else Some (False, c2))"
      using Suc.prems(2) x Some C(1) D(1) by simp
    show ?thesis
    proof (cases b)
      case False
      have "length xs2 \<le> length xs + Suc n" using D(4) by simp
      then show ?thesis using e False D(3,5,13) C2 h2 o2 by (intro exI [of _ False] exI [of _ c2] exI [of _ ce2] exI [of _ xs2]) simp
    next
      case True
      have len: "length (sets0 ce2) = length (sets0 ce)" unfolding D(7) C(5) by simp
      then have l: "Suc i + n = length (sets0 ce2)" using Suc.prems(4) by simp
      have l2: "\<forall>j rs. slot (sets0 ce2) j = Some rs \<longrightarrow> Suc i \<le> j \<longrightarrow> rs_lent rs = None" using Suc.prems(5) by (simp add: s2)
      obtain ok c' ce' xs' where R: "link_sets cf fails a (Suc i) n c2 = Some (ok, c')" "dc_cents c' a = Some ce'" "held a xs' m P k ce' c'"
        "length xs' \<le> length xs2 + n" "only_at a c2 c'" "same_head ce2 ce'" "\<not> is_neg ce'" "ok \<longrightarrow> sets_linked cf (Suc i) ce2 ce'" "(\<forall>n. \<not> fails n) \<longrightarrow> ok"
        using Suc.IH [OF D(3) C2 D(5) l l2] by (elim exE conjE) (rule that)
      have lc: "local_cent ce2 = local_cent ce" "local_cent ce1 = local_cent ce" using same_head_local h2 C(4) by blast+
      have "ok \<longrightarrow> sets_linked cf i ce ce'"
      proof
        assume ok
        then have s: "sets_linked cf (Suc i) ce2 ce'" using R(8) by simp
        show "sets_linked cf i ce ce'" unfolding sets_linked_def
        proof
          fix j
          have n: "new_in cf rs (local_cent ce) (Some (link_set l (adjust_ttl cf rs)))" using D(11) True lc by (simp add: new_in_def)
          show "if i \<le> j then (case slot (sets0 ce) j of None \<Rightarrow> slot (sets0 ce') j = None | Some rs \<Rightarrow> new_in cf rs (local_cent ce) (slot (sets0 ce') j))
            else slot (sets0 ce') j = slot (sets0 ce) j"
            using s [unfolded sets_linked_def s2 lc, rule_format, of j] Some n by (cases j i rule: linorder_cases) simp_all
        qed
      qed
      moreover have "link_sets cf fails a i (Suc n) c = Some (ok, c')" using e True R(1) by simp
      moreover have "length xs' \<le> length xs + Suc n" using R(4) D(4) by simp
      ultimately show ?thesis using R(2,3,7,9) only_at_trans [OF o2 R(5)] same_head_trans [OF h2 R(6)] by (intro exI conjI) assumption+
    qed
  qed
qed


subsection \<open>A new entry\<close>

text \<open>What is stored under a new name: the sets or the negative answer, with the times to live adjusted.\<close>

definition stored :: "cache_conf \<Rightarrow> dns_cent \<Rightarrow> dns_cent \<Rightarrow> bool" where
  "stored cf cent ce \<longleftrightarrow> ce_qname ce = ce_qname cent \<and> local_cent ce = local_cent cent \<and> is_neg ce = is_neg cent \<and>
     (if is_neg cent then (\<exists>l cx. adjust_dom_ttl cf cent = Some cx \<and> ce_data ce = Neg l (neg_ttl (ce_data cx)) (neg_ts (ce_data cx)) \<and>
        (l \<noteq> None \<or> local_cent cent))
      else (\<forall>j. case slot (sets0 cent) j of None \<Rightarrow> slot (sets0 ce) j = None | Some rs \<Rightarrow> new_in cf rs (local_cent cent) (slot (sets0 ce) j)))"

lemma stored_linked: "stored cf cent ce \<Longrightarrow> linked ce"
proof (cases "is_neg cent \<or> local_cent cent")
  case True
  assume "stored cf cent ce"
  then show ?thesis using True by (auto simp: stored_def linked_def local_cent_def)
next
  case False
  assume s: "stored cf cent ce"
  have "has_flag (rs_flags rs) CF_LOCAL \<or> rs_lent rs \<noteq> None" if "slot (sets0 ce) j = Some rs" for j rs
  proof -
    have "case slot (sets0 cent) j of None \<Rightarrow> slot (sets0 ce) j = None | Some rs \<Rightarrow> new_in cf rs (local_cent cent) (slot (sets0 ce) j)"
      using s False by (simp add: stored_def)
    then show ?thesis using that False by (auto simp: new_in_def local_set_def split: option.splits)
  qed
  then show ?thesis using s False by (simp add: linked_def stored_def)
qed

lemma copied_slot: "list_all2 copied ss ss' \<Longrightarrow> copied (slot ss j) (slot ss' j)"
  by (auto simp: slot_def list_all2_conv_all_nth)

lemma copied_new_in: "copied (Some rs) s \<Longrightarrow> new_in cf (the s) loc t \<Longrightarrow> new_in cf rs loc t"
proof -
  assume "copied (Some rs) s" and n: "new_in cf (the s) loc t"
  then obtain p where "the s = rs\<lparr>rs_addr := p, rs_lent := None\<rparr>" by (auto simp: copied_def)
  then have "contents (the s) = contents rs" by (simp add: contents_def)
  then have "contents (adjust_ttl cf (the s)) = contents (adjust_ttl cf rs)" by (rule adjust_contents)
  then show ?thesis using n by (simp add: new_in_def)
qed

text \<open>The links of a copy.\<close>

lemma copy_linked:
  assumes h: "held a xs m P k ce c" and C: "dc_cents c a = Some ce" and cp: "copied_cent cent ce" and ok: "cent_ok cent" and L: "cent_lents ce = []"
  shows "\<exists>b c' ce' xs'. (if \<not> is_neg ce then do { ilim \<leftarrow> RRARR_LEN ce; link_sets cf fails a 0 ilim c }
      else do { ce \<leftarrow> adjust_dom_ttl cf ce; insert_rrl fails None a (cent_store a ce c) }) = Some (b, c') \<and> dc_cents c' a = Some ce' \<and>
    held a xs' m P k ce' c' \<and> length xs' \<le> length xs + NRRTOT \<and> only_at a c c' \<and> ce_qname ce' = ce_qname cent \<and> (b \<longrightarrow> stored cf cent ce') \<and>
    ((\<forall>n. \<not> fails n) \<longrightarrow> b)"
proof (cases "is_neg ce")
  case False
  have n: "\<not> is_neg cent" using False cp by (simp add: copied_cent_def is_neg_def)
  have s0: "sets0 ce = cent_sets ce" "sets0 cent = cent_sets cent" using False n by (simp_all add: sets0_def)
  have a2: "list_all2 copied (sets0 cent) (sets0 ce)" using cp n by (simp add: copied_cent_def s0)
  have nl: "\<forall>j rs. slot (sets0 ce) j = Some rs \<longrightarrow> 0 \<le> j \<longrightarrow> rs_lent rs = None"
  proof (intro allI impI)
    fix j rs assume "slot (sets0 ce) j = Some rs"
    then have "copied (slot (sets0 cent) j) (Some rs)" using copied_slot [OF a2, of j] by simp
    then show "rs_lent rs = None" by (auto simp: copied_def split: option.splits)
  qed
  obtain b c' ce' xs' where R: "link_sets cf fails a 0 (length (sets0 ce)) c = Some (b, c')" "dc_cents c' a = Some ce'" "held a xs' m P k ce' c'"
    "length xs' \<le> length xs + length (sets0 ce)" "only_at a c c'" "same_head ce ce'" "\<not> is_neg ce'" "b \<longrightarrow> sets_linked cf 0 ce ce'" "(\<forall>n. \<not> fails n) \<longrightarrow> b"
    using link_sets_ok [where cf = cf and fails = fails, OF h C False add_0 nl] by (elim exE conjE) (rule that)
  have len: "RRARR_LEN ce = Some (length (sets0 ce))" "length (sets0 ce) \<le> NRRTOT"
    using held_len [OF h] False sets0_length [OF held_ok(1) [OF h]] less_imp_le [OF nrr_simps(1)] by auto
  have lc: "local_cent ce = local_cent cent" "ce_qname ce = ce_qname cent" using cp by (simp_all add: copied_cent_def local_cent_def)
  have "stored cf cent ce'" if b
  proof -
    have "case slot (sets0 cent) j of None \<Rightarrow> slot (sets0 ce') j = None | Some rs \<Rightarrow> new_in cf rs (local_cent cent) (slot (sets0 ce') j)" for j
    proof -
      have s: "case slot (sets0 ce) j of None \<Rightarrow> slot (sets0 ce') j = None | Some rs \<Rightarrow> new_in cf rs (local_cent ce) (slot (sets0 ce') j)"
        using R(8) that by (simp add: sets_linked_def)
      show ?thesis
      proof (cases "slot (sets0 cent) j")
        case None
        then have "slot (sets0 ce) j = None" using copied_slot [OF a2, of j] by simp
        then show ?thesis using s None by simp
      next
        case (Some rs)
        then have c: "copied (Some rs) (slot (sets0 ce) j)" using copied_slot [OF a2, of j] by simp
        then obtain rs' where "slot (sets0 ce) j = Some rs'" by (auto simp: copied_def)
        then show ?thesis using s copied_new_in [OF c] Some lc(1) by simp
      qed
    qed
    then show ?thesis using n R(6,7) lc same_head_local [OF R(6)] by (simp add: stored_def same_head_def)
  qed
  moreover have "length xs' \<le> length xs + NRRTOT" using R(4) len(2) by simp
  moreover have "ce_qname ce' = ce_qname cent" using R(6) lc by (simp add: same_head_def)
  ultimately show ?thesis using False len(1) R(1-3,5,9) by (intro exI [of _ b] exI [of _ c'] exI [of _ ce'] exI [of _ xs']) simp
next
  case True
  have n: "is_neg cent" using True cp by (simp add: copied_cent_def is_neg_def)
  obtain l0 t s where d: "ce_data ce = Neg None t s" "ce_data cent = Neg l0 t s"
    using cp n cent_ok_neg [OF ok n] by (auto simp: copied_cent_def neg_ok_def)
  obtain fl t' where adj: "adjust_dom_ttl cf ce = Some (ce\<lparr>ce_flags := fl, ce_data := Neg None t' s\<rparr>)"
    "\<exists>cx. adjust_dom_ttl cf cent = Some cx \<and> neg_ttl (ce_data cx) = t' \<and> neg_ts (ce_data cx) = s" "fl = ce_flags ce \<or> fl = clear_flag (ce_flags ce) DF_NOCACHE"
  proof (cases "has_flag (ce_flags ce) DF_NOCACHE")
    case True
    then have "has_flag (ce_flags cent) DF_NOCACHE" using cp by (simp add: copied_cent_def)
    then show ?thesis using True d by (intro that [of 0 "clear_flag (ce_flags ce) DF_NOCACHE"]) (simp_all add: adjust_dom_ttl_def)
  next
    case False
    then have "\<not> has_flag (ce_flags cent) DF_NOCACHE" using cp by (simp add: copied_cent_def)
    moreover have "ce\<lparr>ce_flags := ce_flags ce, ce_data := x\<rparr> = ce\<lparr>ce_data := x\<rparr>" for x by simp
    ultimately show ?thesis using False d by (intro that [of "clamp_ttl cf True t" "ce_flags ce"]) (simp_all add: adjust_dom_ttl_def)
  qed
  let ?ce = "ce\<lparr>ce_flags := fl, ce_data := Neg None t' s\<rparr>"
  have fl: "is_neg ?ce" "local_cent ?ce = local_cent ce" using adj(3) True by (auto simp: is_neg_def local_cent_def)
  have h1: "held a xs m P k ?ce c"
  proof (rule held_same [OF h frame_refl refl])
    show "cent_ok ?ce" using held_ok(1) [OF h] cent_ok_neg [OF held_ok(1) [OF h] True] fl(1) by (simp add: cent_ok_def neg_ok_def named_def base_size_def)
    show "link_at ?ce a le e = link_at ce a le e" for le e unfolding link_neg [OF fl(1)] link_neg [OF True] using d(1) by simp
    show "dc_live c = dc_live c + (cent_blocks ?ce - cent_blocks ce)" using d(1) by (simp add: cent_blocks_def)
  qed simp
  have C1: "dc_cents (cent_store a ?ce c) a = Some ?ce" by simp
  have d1: "ce_data ?ce = Neg None t' s" by simp
  obtain b c' ce' xs' l where R: "insert_rrl fails None a (cent_store a ?ce c) = Some (b, c')" "dc_cents c' = (dc_cents (cent_store a ?ce c))(a \<mapsto> ce')"
    "ce' = ?ce\<lparr>ce_data := Neg l t' s\<rparr>" "cache_inv xs' m P (ce_cs ?ce) k c'" "length xs' \<le> Suc (length xs)"
    "dc_cache_size c' = dc_cache_size (cent_store a ?ce c)" "dc_table c' = dc_table (cent_store a ?ce c)" "dc_mallocs (cent_store a ?ce c) \<le> dc_mallocs c'"
    "b \<longrightarrow> l \<noteq> None \<or> local_cent ?ce" "\<not> b \<longrightarrow> l = None" "(\<forall>n. \<not> fails n) \<longrightarrow> b"
    using insert_neg_inv [OF h1 [unfolded held_def] C1 fl(1) d1, of fails] by (elim exE conjE) (rule that)
  have C2: "dc_cents c' a = Some ce'" using R(2) by simp
  have "held a xs' m P k ce' c'" unfolding held_def cent_store_same [OF C2] using R(3,4) by simp
  moreover have "only_at a c c'" using R(2,6-8) by (auto simp: only_at_def)
  moreover have "length xs' \<le> length xs + NRRTOT" using R(5) by (simp add: NRRTOT_def)
  moreover have "b \<longrightarrow> stored cf cent ce'"
    using R(3,9) adj(2) fl cp n by (auto simp: stored_def copied_cent_def is_neg_def local_cent_def)
  moreover have "ce_qname ce' = ce_qname cent" using R(3) cp by (simp add: copied_cent_def)
  ultimately show ?thesis using True adj(1) R(1,11) C2 by (intro exI [of _ b] exI [of _ c'] exI [of _ ce'] exI [of _ xs']) simp
qed

lemma effect_inv:
  assumes inv: "cache_inv xs m P d k c" and e: "effect xs c 0 [] c1"
  shows "cache_inv xs m P d k c1"
proof -
  note I = cache_invD [OF inv]
  have f: "dc_cents c1 = dc_cents c" "dc_table c1 = dc_table c" "dc_cache_size c1 = dc_cache_size c" "dc_ent_num c1 = dc_ent_num c"
    "dc_mallocs c \<le> dc_mallocs c1" using e by (simp_all add: effect_def frame_def)
  have r: "rl_rep (dc_rrl c1) xs" "items (rl_ents (dc_rrl c1)) = items (rl_ents (dc_rrl c))" "dc_live c1 = dc_live c"
    using e by (simp_all add: effect_def)
  have "cent_name c1 = cent_name c" by (rule cent_name_eq [OF f(1)])
  moreover have "links_ok c1" using I(3) unfolding links_ok_def r(2) f(1) .
  moreover have "fresh_ok c1" by (rule fresh_mono [OF I(4) f(5)]) (use f rl_dom [OF r(1)] rl_dom [OF I(1)] in auto)
  ultimately show ?thesis using inv f r by (simp add: cache_inv_def)
qed

definition inserted ::
  "cache_conf \<Rightarrow> dns_cent \<Rightarrow> byte list list \<Rightarrow> (byte list list \<Rightarrow> nat option) \<Rightarrow> int \<Rightarrow> nat list \<Rightarrow> dcache \<Rightarrow> dcache \<Rightarrow> bool" where
  "inserted cf cent kk m k xs c c' \<longleftrightarrow> (\<exists>a ce. dc_cents c a = None \<and> dc_cents c' = (dc_cents c)(a \<mapsto> ce) \<and> stored cf cent ce \<and>
     cache_inv xs (m(kk \<mapsto> a)) {} 0 k c')"

lemma add_new_cent_ok:
  assumes inv: "cache_inv xs m {} 0 k c" and ok: "cent_ok cent" and ks: "list_all lab_len ks" "ce_qname cent = enc_name ks"
    and new: "m (map lower ks) = None" and loc: "cache_find c (ce_qname cent) = Some (None, loc)"
  shows "\<exists>b c' xs'. add_new_cent cf fails cent loc c = Some (b, c') \<and> length xs' \<le> length xs + NRRTOT \<and>
    (if b then inserted cf cent (map lower ks) m k xs' c c' else cache_inv xs' m {} 0 k c' \<and> dc_cents c' = dc_cents c) \<and>
    ((\<forall>n. \<not> fails n) \<longrightarrow> b)"
proof -
  note I = cache_invD [OF inv]
  obtain r c1 where cp: "copy_cent fails cent c = Some (r, c1)" "frame c c1" "case r of
       None \<Rightarrow> (\<exists>n. fails n) \<and> effect xs c 0 [] c1
     | Some (a, ce') \<Rightarrow> copied_cent cent ce' \<and> cent_ok ce' \<and> cent_lents ce' = [] \<and> dc_mallocs c = a \<and> a < dc_mallocs c1 \<and>
         dc_rrl c1 = dc_rrl c \<and> dc_live c1 = dc_live c + 1 + cent_blocks ce'"
    using copy_cent_ok [where fails = fails, OF ok I(1)] by (elim exE conjE) (rule that)
  show ?thesis
  proof (cases r)
    case None
    have "effect xs c 0 [] c1" "\<not> (\<forall>n. \<not> fails n)" using cp(3) None by auto
    then show ?thesis using effect_inv [OF inv] cp(1,2) None by (intro exI [of _ False] exI [of _ c1] exI [of _ xs]) (simp add: add_new_cent_def frame_def)
  next
    case (Some p)
    obtain a ce where p: "p = (a, ce)" by (cases p)
    have c1: "copied_cent cent ce" "cent_ok ce" "cent_lents ce = []" "dc_mallocs c = a" "a < dc_mallocs c1" "dc_rrl c1 = dc_rrl c"
      "dc_live c1 = dc_live c + 1 + cent_blocks ce" using cp(3) Some p by simp_all
    have aC: "dc_cents c a = None" using I(4) c1(4) by (auto simp: fresh_ok_def)
    then have aR: "a \<notin> ran m" using I(6) by auto
    have fc: "dc_cents c1 = dc_cents c" "dc_table c1 = dc_table c" using cp(2) by (simp_all add: frame_def)
    have "cache_inv xs m (insert a {}) (0 + ce_cs ce) k (cent_store a ce c1)" by (rule new_entry_inv [OF inv cp(2) c1(6,4,5,7,2,3)])
    then have h: "held a xs m {a} k ce (cent_store a ce c1)" by (simp add: held_def)
    have C1: "dc_cents (cent_store a ce c1) a = Some ce" by simp
    obtain b2 c2 ce2 xs2 where L: "(if \<not> is_neg ce then do { ilim \<leftarrow> RRARR_LEN ce; link_sets cf fails a 0 ilim (cent_store a ce c1) }
      else do { cx \<leftarrow> adjust_dom_ttl cf ce; insert_rrl fails None a (cent_store a cx (cent_store a ce c1)) }) = Some (b2, c2)" "dc_cents c2 a = Some ce2"
      "held a xs2 m {a} k ce2 c2" "length xs2 \<le> length xs + NRRTOT" "only_at a (cent_store a ce c1) c2" "ce_qname ce2 = ce_qname cent"
      "b2 \<longrightarrow> stored cf cent ce2" "(\<forall>n. \<not> fails n) \<longrightarrow> b2"
      using copy_linked [where cf = cf and fails = fails, OF h C1 c1(1) ok c1(3)] by (elim exE conjE) (rule that)
    have inv2: "cache_inv xs2 m {a} (ce_cs ce2) k c2" using L(3) cent_store_same [OF L(2)] by (simp add: held_def)
    have d2: "dc_cents c2 = (dc_cents c)(a \<mapsto> ce2)" using only_at_cent [OF L(5,2)] fc(1) by simp
    have t2: "dc_table c2 = dc_table c" using L(5) fc(2) by (simp add: only_at_def)
    have und: "(dc_cents c2)(a := None) = dc_cents c" unfolding d2 using aC by auto
    have undo: "\<exists>c4 xs4. do { c \<leftarrow> free_cent ce2 c3; Some (False, cache_free (c\<lparr>dc_cents := (dc_cents c)(a := None)\<rparr>)) } = Some (False, c4) \<and>
        length xs4 \<le> length xs + NRRTOT \<and> cache_inv xs4 m {} 0 k c4 \<and> dc_cents c4 = dc_cents c"
      if i3: "cache_inv xs2 m {a} (ce_cs ce2) k c3" and d3: "dc_cents c3 = dc_cents c2" for c3
    proof -
      have C3: "dc_cents c3 a = Some ce2" using d3 L(2) by simp
      obtain c4 where D: "free_cent ce2 c3 = Some c4" "cache_inv (filter (\<lambda>x. x \<notin> set (cent_lents ce2)) xs2) m ({a} - {a}) (ce_cs ce2 - ce_cs ce2) k
        (cache_free (c4\<lparr>dc_cents := (dc_cents c4)(a := None)\<rparr>))" "dc_cents c4 = dc_cents c3"
        using pending_drop [OF i3 C3] by blast
      have "dc_cents (cache_free (c4\<lparr>dc_cents := (dc_cents c4)(a := None)\<rparr>)) = dc_cents c" using D(3) d3 und by (simp add: cache_free_def)
      then show ?thesis using D(1,2) le_trans [OF length_filter_le L(4)] by (intro exI conjI) (simp, assumption, simp, assumption)
    qed
    have e: "add_new_cent cf fails cent loc c = do {
         (ok, c) \<leftarrow> (if \<not> b2 then Some (False, c2)
            else let (he, c) = cache_malloc fails c2 in do { (t, ok) \<leftarrow> add_dns_hash (dc_table c) he a loc; Some (ok, c\<lparr>dc_table := t\<rparr>) });
         ce \<leftarrow> dc_cents c a;
         if ok then Some (True, c\<lparr>dc_ent_num := dc_ent_num c + 1, dc_cache_size := dc_cache_size c + ce_cs ce\<rparr>)
         else do { c \<leftarrow> free_cent ce c; Some (False, cache_free (c\<lparr>dc_cents := (dc_cents c)(a := None)\<rparr>)) }
       }"
      unfolding add_new_cent_def cp(1) bind.bind_lunit prod.case Some p option.case Let_def L(1) ..
    show ?thesis
    proof (cases b2)
      case False
      obtain c4 xs4 where U: "do { c \<leftarrow> free_cent ce2 c2; Some (False, cache_free (c\<lparr>dc_cents := (dc_cents c)(a := None)\<rparr>)) } = Some (False, c4)"
        "length xs4 \<le> length xs + NRRTOT" "cache_inv xs4 m {} 0 k c4" "dc_cents c4 = dc_cents c" using undo [OF inv2 refl] by blast
      have "add_new_cent cf fails cent loc c = Some (False, c4)" unfolding e using False L(2) U(1) by simp
      then show ?thesis using U(2-4) L(8) False by (intro exI [of _ False] exI [of _ c4] exI [of _ xs4]) simp
    next
      case True
      have q: "cent_name c2 x = cent_name c x" if "x \<in> ran m" for x using aR that d2 by (auto simp: cent_name_def)
      have "dns_lookup (dc_table c2) (cent_name c2) (enc_name ks @ []) = dns_lookup (dc_table c) (cent_name c) (enc_name ks @ [])"
        unfolding t2 by (rule lookup_cong [OF I(2) q ks(1)])
      then have l2: "dns_lookup (dc_table c2) (cent_name c2) (enc_name ks) = Some (None, loc)" using loc ks(2) by (simp add: cache_find_def)
      have n2: "ce_qname ce2 = enc_name ks" using L(6) ks(2) by simp
      obtain ok c3 where P: "(let (he, c) = cache_malloc fails c2 in do { (t, ok) \<leftarrow> add_dns_hash (dc_table c) he a loc; Some (ok, c\<lparr>dc_table := t\<rparr>) }) = Some (ok, c3)"
        "dc_cents c3 = dc_cents c2"
        "if ok then cache_inv xs2 (m(map lower ks \<mapsto> a)) {} 0 k (c3\<lparr>dc_ent_num := dc_ent_num c3 + 1, dc_cache_size := dc_cache_size c3 + ce_cs ce2\<rparr>)
         else cache_inv xs2 m {a} (ce_cs ce2) k c3" "(\<forall>n. \<not> fails n) \<longrightarrow> ok"
        using publish_inv [where fails = fails, OF inv2 L(2) ks(1) n2 new l2] by (elim exE conjE) (rule that)
      have C3: "dc_cents c3 a = Some ce2" using P(2) L(2) by simp
      show ?thesis
      proof (cases ok)
        case False
        have i3: "cache_inv xs2 m {a} (ce_cs ce2) k c3" using P(3) False by simp
        obtain c4 xs4 where U: "do { c \<leftarrow> free_cent ce2 c3; Some (False, cache_free (c\<lparr>dc_cents := (dc_cents c)(a := None)\<rparr>)) } = Some (False, c4)"
          "length xs4 \<le> length xs + NRRTOT" "cache_inv xs4 m {} 0 k c4" "dc_cents c4 = dc_cents c" using undo [OF i3 P(2)] by blast
        have "add_new_cent cf fails cent loc c = Some (False, c4)" unfolding e using \<open>b2\<close> P(1) False C3 U(1) by simp
        then show ?thesis using U(2-4) P(4) False by (intro exI [of _ False] exI [of _ c4] exI [of _ xs4]) simp
      next
        case ok: True
        let ?c = "c3\<lparr>dc_ent_num := dc_ent_num c3 + 1, dc_cache_size := dc_cache_size c3 + ce_cs ce2\<rparr>"
        have "add_new_cent cf fails cent loc c = Some (True, ?c)" unfolding e using True P(1) ok C3 by simp
        moreover have "inserted cf cent (map lower ks) m k xs2 c ?c" unfolding inserted_def
          using aC d2 P(2,3) ok L(7) True by (intro exI [of _ a] exI [of _ ce2]) simp
        ultimately show ?thesis using L(4) by (intro exI [of _ True] exI [of _ ?c] exI [of _ xs2]) simp
      qed
    qed
  qed
qed

end
