(* ===== verification/CacheStoreProperties.thy ===== *)
theory CacheStoreProperties
  imports CacheInsert
begin

text \<open>
  What the operations on the whole cache promise: they always return, keep the invariant, keep local data, and bring the
  cache below its limit.
\<close>

subsection \<open>States\<close>

text \<open>The cache is consistent; \<open>k\<close> is the number of blocks outside the cache.\<close>

definition cache_ok :: "int \<Rightarrow> dcache \<Rightarrow> bool" where
  "cache_ok k c \<longleftrightarrow> (\<exists>xs m. cache_inv xs m {} 0 k c)"

text \<open>The number of items in the list by age.\<close>

definition list_len :: "dcache \<Rightarrow> nat" where
  "list_len c = card (dom (rl_ents (dc_rrl c)))"

lemma list_len_eq: "cache_inv xs m P d k c \<Longrightarrow> list_len c = length xs"
  using rl_dom [of "dc_rrl c" xs] rl_repD(1) [of "dc_rrl c" xs] cache_invD(1) [of xs m P d k c]
  by (simp add: list_len_def distinct_card)

text \<open>
  The size is within the limit, or there is nothing that \<open>purge_cache\<close> could delete: local entries, and entries
  without a set that is not local. An entry that is not local and has no set at all is among these.
\<close>

definition within :: "int \<Rightarrow> dcache \<Rightarrow> bool" where
  "within lim c \<longleftrightarrow> dc_cache_size c \<le> lim \<or> (\<forall>a ce. dc_cents c a = Some ce \<longrightarrow> unpurgeable ce)"

definition has_local :: "dns_cent \<Rightarrow> bool" where
  "has_local ce \<longleftrightarrow> (\<exists>j rs. slot (sets0 ce) j = Some rs \<and> local_set rs)"

text \<open>The entries with local sets are still there, with these sets.\<close>

definition locals_kept :: "dcache \<Rightarrow> dcache \<Rightarrow> bool" where
  "locals_kept c c' \<longleftrightarrow> (\<forall>a ce. dc_cents c a = Some ce \<longrightarrow> has_local ce \<longrightarrow>
     (\<exists>ce'. dc_cents c' a = Some ce' \<and> ce_qname ce' = ce_qname ce \<and> local_kept ce ce'))"

lemma local_kept_has: "local_kept ce ce' \<Longrightarrow> has_local ce \<Longrightarrow> has_local ce'"
  by (auto simp: local_kept_def has_local_def)

lemma locals_kept_refl [simp]: "locals_kept c c"
  by (auto simp: locals_kept_def local_kept_def)

lemma locals_keptD: "locals_kept c c' \<Longrightarrow> dc_cents c a = Some ce \<Longrightarrow> has_local ce \<Longrightarrow>
    \<exists>ce'. dc_cents c' a = Some ce' \<and> ce_qname ce' = ce_qname ce \<and> local_kept ce ce'"
  unfolding locals_kept_def by blast

lemma locals_kept_trans:
  assumes "locals_kept c c1" "locals_kept c1 c2"
  shows "locals_kept c c2"
  unfolding locals_kept_def
proof (intro allI impI)
  fix a ce assume ce: "dc_cents c a = Some ce" "has_local ce"
  obtain ce1 where 1: "dc_cents c1 a = Some ce1" "ce_qname ce1 = ce_qname ce" "local_kept ce ce1"
    using locals_keptD [OF assms(1) ce] by blast
  obtain ce2 where 2: "dc_cents c2 a = Some ce2" "ce_qname ce2 = ce_qname ce1" "local_kept ce1 ce2"
    using locals_keptD [OF assms(2) 1(1) local_kept_has [OF 1(3) ce(2)]] by blast
  show "\<exists>ce'. dc_cents c2 a = Some ce' \<and> ce_qname ce' = ce_qname ce \<and> local_kept ce ce'"
    using 1 2 local_kept_trans [OF 1(3) 2(3)] by simp
qed

lemma purged_locals: "purged c c' \<Longrightarrow> locals_kept c c'"
  unfolding locals_kept_def
proof (intro allI impI)
  fix a ce assume p: "purged c c'" and C: "dc_cents c a = Some ce" and l: "has_local ce"
  have "case dc_cents c' a of None \<Rightarrow> deletable ce | Some ce' \<Rightarrow> shrunk ce ce'" using p C by (auto simp: purged_def)
  moreover have "\<not> deletable ce" using l by (auto simp: deletable_def has_local_def)
  ultimately obtain ce' where "dc_cents c' a = Some ce'" "shrunk ce ce'" by (auto split: option.splits)
  then show "\<exists>ce'. dc_cents c' a = Some ce' \<and> ce_qname ce' = ce_qname ce \<and> local_kept ce ce'"
    unfolding shrunk_def local_kept_def by metis
qed

subsection \<open>Purging\<close>

lemma purge_within:
  assumes inv: "cache_inv xs m {} 0 k c" and l: "length xs < 2 ^ NTMPSORT"
  shows "\<exists>c' xs' m'. purge_cache now sz lazy c = Some c' \<and> cache_inv xs' m' {} 0 k c' \<and> length xs' \<le> length xs \<and> purged c c' \<and>
    (all_linked c \<longrightarrow> all_linked c' \<and> within sz c')"
proof -
  obtain c' xs' m' where P: "purge_cache now sz lazy c = Some c'" "cache_inv xs' m' {} 0 k c'" "set xs' \<subseteq> set xs" "m' \<subseteq>\<^sub>m m" "purged c c'"
    "dc_cache_size c' \<le> dc_cache_size c" "all_linked c \<longrightarrow> all_linked c'" "dc_cache_size c' \<le> sz \<or> (\<forall>x \<in> set xs'. protected c' x)"
    using purge_cache_all [where now = now and sz = sz and lazy = lazy, OF inv l] by (elim exE conjE) (rule that)
  have "length xs' \<le> length xs"
    using card_mono [OF _ P(3)] distinct_card [OF rl_repD(1) [OF cache_invD(1) [OF P(2)]]] distinct_card [OF rl_repD(1) [OF cache_invD(1) [OF inv]]]
    by simp
  moreover have "within sz c'" if "all_linked c"
    using P(7,8) that protected_unpurgeable [OF P(2)] unfolding within_def by blast
  ultimately show ?thesis using P(1,2,5,7) by (intro exI conjI impI) (assumption | blast)+
qed

subsection \<open>Adding\<close>

lemma any_local_eq:
  assumes "cent_ok ce" "i + n = (if is_neg ce then 0 else length (sets0 ce))"
  shows "any_local ce i n = Some (\<exists>j rs. i \<le> j \<and> slot (sets0 ce) j = Some rs \<and> local_set rs)"
  using assms(2)
proof (induction n arbitrary: i)
  case 0
  have "\<not> (i \<le> j \<and> slot (sets0 ce) j = Some rs)" for j rs using 0 slot_sets0 [of ce j] by (auto simp: slot_def split: if_splits)
  then show ?case by auto
next
  case (Suc n)
  have pos: "\<not> is_neg ce" using Suc.prems by (auto split: if_splits)
  have x: "RRARR_INDEX ce i = Some (slot (sets0 ce) i)" using index_sets0 [OF assms(1) pos, of i] Suc.prems pos by simp
  have IH: "any_local ce (Suc i) n = Some (\<exists>j rs. Suc i \<le> j \<and> slot (sets0 ce) j = Some rs \<and> local_set rs)" using Suc.IH [of "Suc i"] Suc.prems by simp
  have z: "i \<le> j \<longleftrightarrow> j = i \<or> Suc i \<le> j" for j by auto
  show ?case using x IH unfolding z by (cases "slot (sets0 ce) i") (auto simp: local_set_def)
qed

lemma cent_find:
  assumes inv: "cache_inv xs m P d k c" and ok: "cent_ok cent"
  shows "\<exists>ks loc. list_all lab_len ks \<and> ce_qname cent = enc_name ks \<and> cache_find c (ce_qname cent) = Some (m (map lower ks), loc)"
proof -
  obtain ks where ks: "list_all lab_len ks" "ce_qname cent = enc_name ks" using ok name_ok_lab_len by (auto simp: cent_ok_def named_def)
  then show ?thesis using cache_find_total [OF inv ks(1), of "[]"] by auto
qed

abbreviation cache_limit :: "cache_conf \<Rightarrow> int" where
  "cache_limit cf \<equiv> perm_cache cf * 1024 + MCSZ"

text \<open>What one call of \<open>add_cache\<close> does.\<close>

definition added_ok :: "cache_conf \<Rightarrow> (nat \<Rightarrow> bool) \<Rightarrow> int \<Rightarrow> dns_cent \<Rightarrow> dcache \<Rightarrow> dcache \<Rightarrow> bool" where
  "added_ok cf fails k cent c c' \<longleftrightarrow> cache_ok k c' \<and> list_len c' \<le> list_len c + NRRTOT \<and> (no_locals cent \<longrightarrow> locals_kept c c') \<and>
     (all_linked c \<longrightarrow> all_linked c') \<and>
     (all_linked c \<and> (\<forall>n. \<not> fails n) \<and> within (cache_limit cf) c \<longrightarrow> within (cache_limit cf) c')"

lemma purge_added:
  assumes inv: "cache_inv xs1 m1 {} 0 k c1" and l: "length xs1 \<le> list_len c + NRRTOT" and len: "list_len c + NRRTOT < 2 ^ NTMPSORT"
    and kept: "no_locals cent \<longrightarrow> locals_kept c c1" and al: "all_linked c \<longrightarrow> all_linked c1"
  shows "\<exists>c'. purge_cache now (cache_limit cf) True c1 = Some c' \<and> added_ok cf fails k cent c c'"
proof -
  have "length xs1 < 2 ^ NTMPSORT" using l len by simp
  from purge_within [OF inv this] obtain c' xs' m' where P: "purge_cache now (cache_limit cf) True c1 = Some c'" "cache_inv xs' m' {} 0 k c'"
    "length xs' \<le> length xs1" "purged c1 c'" "all_linked c1 \<longrightarrow> all_linked c' \<and> within (cache_limit cf) c'" by blast
  have "list_len c' \<le> list_len c + NRRTOT" using list_len_eq [OF P(2)] P(3) l by simp
  then show ?thesis using P kept al locals_kept_trans [OF _ purged_locals [OF P(4)]] unfolding added_ok_def cache_ok_def by blast
qed

lemma unchanged_added: "cache_ok k c1 \<Longrightarrow> list_len c1 \<le> list_len c + NRRTOT \<Longrightarrow> (no_locals cent \<longrightarrow> locals_kept c c1) \<Longrightarrow>
    (all_linked c \<longrightarrow> all_linked c1) \<Longrightarrow> \<not> (\<forall>n. \<not> fails n) \<or> c1 = c \<Longrightarrow> added_ok cf fails k cent c c1"
  unfolding added_ok_def by blast

lemma add_cache_new:
  assumes inv: "cache_inv xs m {} 0 k c" and ok: "cent_ok cent" and new: "cache_find c (ce_qname cent) = Some (None, loc)"
    and len: "list_len c0 + NRRTOT < 2 ^ NTMPSORT" "length xs \<le> list_len c0"
    and kept: "no_locals cent \<longrightarrow> locals_kept c0 c" and al: "all_linked c0 \<longrightarrow> all_linked c"
  shows "\<exists>c'. add_cache cf fails now cent c = Some c' \<and> added_ok cf fails k cent c0 c'"
proof -
  obtain ks where ks: "list_all lab_len ks" "ce_qname cent = enc_name ks" "m (map lower ks) = None"
    using cent_find [OF inv ok] new by auto
  show ?thesis
  proof (cases "ce_num_rrs cent = 0 \<and> \<not> is_neg cent")
    case True
    then have "add_cache cf fails now cent c = purge_cache now (cache_limit cf) True c" using new by (subst add_cache.simps) simp
    then show ?thesis using purge_added [OF inv _ len(1) kept al] len(2) by simp
  next
    case False
    obtain b c1 xs1 where A: "add_new_cent cf fails cent loc c = Some (b, c1)" "length xs1 \<le> length xs + NRRTOT"
      "if b then inserted cf cent (map lower ks) m k xs1 c c1 else cache_inv xs1 m {} 0 k c1 \<and> dc_cents c1 = dc_cents c" "(\<forall>n. \<not> fails n) \<longrightarrow> b"
      using add_new_cent_ok [where cf = cf and fails = fails, OF inv ok ks new] by (elim exE conjE) (rule that)
    have e: "add_cache cf fails now cent c = (if b then purge_cache now (cache_limit cf) True c1 else Some c1)"
      using new False A(1) by (subst add_cache.simps) auto
    show ?thesis
    proof (cases b)
      case True
      then obtain a ce where a: "dc_cents c a = None" "dc_cents c1 = (dc_cents c)(a \<mapsto> ce)" "stored cf cent ce"
        "cache_inv xs1 (m(map lower ks \<mapsto> a)) {} 0 k c1" using A(3) by (auto simp: inserted_def)
      have "locals_kept c c1" using a(1,2) by (auto simp: locals_kept_def local_kept_def)
      then have "no_locals cent \<longrightarrow> locals_kept c0 c1" using kept locals_kept_trans by blast
      moreover have "all_linked c0 \<longrightarrow> all_linked c1" using al stored_linked [OF a(3)] unfolding all_linked_def a(2) by auto
      moreover have "length xs1 \<le> list_len c0 + NRRTOT" using A(2) len(2) by simp
      ultimately show ?thesis unfolding e using purge_added [OF a(4) _ len(1)] True by simp
    next
      case False
      then have f: "cache_inv xs1 m {} 0 k c1" "dc_cents c1 = dc_cents c" "\<not> (\<forall>n. \<not> fails n)" using A(3,4) by simp_all
      have "locals_kept c c1" using f(2) by (simp add: locals_kept_def local_kept_def)
      then have "no_locals cent \<longrightarrow> locals_kept c0 c1" using kept locals_kept_trans by blast
      moreover have "all_linked c0 \<longrightarrow> all_linked c1" using al all_linked_cong [OF f(2)] by simp
      moreover have "list_len c1 \<le> list_len c0 + NRRTOT" using list_len_eq [OF f(1)] A(2) len(2) by simp
      moreover have "cache_ok k c1" using f(1) unfolding cache_ok_def by blast
      ultimately have "added_ok cf fails k cent c0 c1" using f(3) by (intro unchanged_added) simp_all
      then show ?thesis unfolding e using False by simp
    qed
  qed
qed

lemma add_cache_ok:
  assumes c: "cache_ok k c" and ok: "cent_ok cent" and len: "list_len c + NRRTOT < 2 ^ NTMPSORT"
  shows "\<exists>c'. add_cache cf fails now cent c = Some c' \<and> added_ok cf fails k cent c c'"
proof -
  obtain xs m where inv: "cache_inv xs m {} 0 k c" using c by (auto simp: cache_ok_def)
  have lx: "length xs \<le> list_len c" using list_len_eq [OF inv] by simp
  obtain ks loc where ks: "list_all lab_len ks" "ce_qname cent = enc_name ks" "cache_find c (ce_qname cent) = Some (m (map lower ks), loc)"
    using cent_find [OF inv ok] by blast
  show ?thesis
  proof (cases "m (map lower ks)")
    case None
    then show ?thesis using add_cache_new [OF inv ok _ len lx] ks(3) by simp
  next
    case (Some a)
    obtain ce where C: "dc_cents c a = Some ce" "cent_ok ce" using found_cent [OF inv Some] by blast
    have f: "cache_find c (ce_qname cent) = Some (Some a, loc)" using ks(3) Some by simp
    show ?thesis
    proof (cases "is_neg cent")
      case True
      have le: "RRARR_LEN ce = Some (if is_neg ce then 0 else length (sets0 ce))"
        using pos_len [of ce "sets0 ce"] cent_ok_sets0 [OF C(2)] by (auto simp: RRARR_LEN_def pos_ok_def)
      have al: "any_local ce 0 (if is_neg ce then 0 else length (sets0 ce)) = Some (has_local ce)"
        using any_local_eq [OF C(2), of 0] by (simp add: has_local_def)
      show ?thesis
      proof (cases "has_local ce")
        case hl: True
        have "add_cache cf fails now cent c = Some c" using f True C(1) le al hl by (subst add_cache.simps) simp
        moreover have "added_ok cf fails k cent c c" using c by (intro unchanged_added) simp_all
        ultimately show ?thesis by blast
      next
        case hl: False
        have l: "Some loc = None \<or> (\<exists>l r. Some loc = Some l \<and> cache_find c (enc_name ks @ r) = Some (Some a, l))"
          using f ks(2) by (intro disjI2 exI [of _ loc] exI [of _ "[]"]) simp
        obtain c1 ce1 where D: "dc_cents c a = Some ce1" "del_cache_ent a (Some loc) c = Some c1"
          "cache_inv (filter (\<lambda>x. x \<notin> set (cent_lents ce1)) xs) (m(map lower ks := None)) {} 0 k c1" "dc_cents c1 = (dc_cents c)(a := None)"
          using del_cache_ent_inv [OF inv Some ks(1) l] by blast
        have "locals_kept c c1" using hl C(1) D(4) by (auto simp: locals_kept_def local_kept_def)
        moreover have "all_linked c \<longrightarrow> all_linked c1" unfolding all_linked_def D(4) by simp
        moreover obtain loc1 where "cache_find c1 (ce_qname cent) = Some (None, loc1)"
          using cache_find_total [OF D(3) ks(1), of "[]"] ks(2) by auto
        moreover have "length (filter (\<lambda>x. x \<notin> set (cent_lents ce1)) xs) \<le> list_len c" using le_trans [OF length_filter_le lx] .
        ultimately obtain c' where R: "add_cache cf fails now cent c1 = Some c'" "added_ok cf fails k cent c c'"
          using add_cache_new [OF D(3) ok _ len] by blast
        have "add_cache cf fails now cent c = Some c'" using f True C(1) le al hl D(2) R(1) by (subst add_cache.simps) simp
        then show ?thesis using R(2) by blast
      qed
    next
      case False
      obtain b c1 xs1 ce1 where M: "merge_cent cf fails now cent a c = Some (b, c1)" "cache_inv xs1 m {} 0 k c1" "length xs1 \<le> length xs + NRRTOT"
        "dc_cents c1 = (dc_cents c)(a \<mapsto> ce1)" "merge_result cf cent ce ce1" "all_linked c \<longrightarrow> all_linked c1" "(\<forall>n. \<not> fails n) \<longrightarrow> b"
        using merge_cent_ok [where cf = cf and fails = fails and now = now, OF inv C(1) ok False] by (elim exE conjE) (rule that)
      have kept: "no_locals cent \<longrightarrow> locals_kept c c1" using M(4,5) C(1) by (auto simp: locals_kept_def local_kept_def merge_result_def)
      have l1: "length xs1 \<le> list_len c + NRRTOT" using M(3) lx by simp
      have e: "add_cache cf fails now cent c = (if b then purge_cache now (cache_limit cf) True c1 else Some c1)"
        using f False M(1) by (subst add_cache.simps) simp
      show ?thesis
      proof (cases b)
        case True
        then show ?thesis unfolding e using purge_added [OF M(2) l1 len kept M(6)] by simp
      next
        case False
        have "cache_ok k c1" using M(2) unfolding cache_ok_def by blast
        moreover have "list_len c1 \<le> list_len c + NRRTOT" using list_len_eq [OF M(2)] l1 by simp
        ultimately have "added_ok cf fails k cent c c1" using kept M(6,7) False by (intro unchanged_added) simp_all
        then show ?thesis unfolding e using False by simp
      qed
    qed
  qed
qed

end
