(* ===== verification/CacheEmpty.thy ===== *)
theory CacheEmpty
  imports CacheStoreProperties
begin

text \<open>
  Emptying the cache: a bucket of the table gives up the selected entries, then each of them is freed.
\<close>

subsection \<open>Entries that the table has given up\<close>

lemma counters_inv:
  assumes inv: "cache_inv xs m P d k c" and s: "dc_rrl c' = dc_rrl c" "dc_cents c' = dc_cents c" "dc_table c' = dc_table c"
    "dc_mallocs c \<le> dc_mallocs c'" "dc_cache_size c' + d' = dc_cache_size c + d" "dc_ent_num c' = dc_ent_num c" "dc_live c' - k' = dc_live c - k"
  shows "cache_inv xs m P d' k' c'"
proof -
  note I = cache_invD [OF inv]
  have "links_ok c'" using I(3) unfolding links_ok_def s(1,2) .
  moreover have "fresh_ok c'" using fresh_mono [OF I(4) s(4)] unfolding s(1-3) by blast
  moreover have "cent_name c' = cent_name c" by (rule cent_name_eq [OF s(2)])
  moreover have "dc_live c' = k' + int (length xs) + int (card (dom m)) + tot (\<lambda>ce. 1 + cent_blocks ce) (dc_cents c')"
    using I(10) s(2,7) by simp
  ultimately show ?thesis using inv s unfolding cache_inv_def by (metis (no_types, lifting))
qed

text \<open>One entry is freed; \<open>ent_num\<close> still counts those that the table has given up.\<close>

lemma pending_del:
  assumes inv: "cache_inv xs m P 0 (k + 1) (c\<lparr>dc_ent_num := n\<rparr>)" and aP: "a \<in> P"
  shows "\<exists>c' xs'. del_cent a (cache_free c) = Some c' \<and> cache_inv xs' m (P - {a}) 0 k (c'\<lparr>dc_ent_num := n\<rparr>) \<and>
    dc_cents c' = (dc_cents c)(a := None) \<and> dc_ent_num c' = dc_ent_num c - 1 \<and> dc_table c' = dc_table c \<and> length xs' \<le> length xs"
proof -
  note I = cache_invD [OF inv]
  have "a \<in> dom (dc_cents c)" using I(6) aP by auto
  then obtain ce where C: "dc_cents c a = Some ce" by blast
  let ?c0 = "sub_cache_size (ce_cs ce) (cache_free c)"
  define z where "z = sub_cache_size (ce_cs ce) (cache_free (c\<lparr>dc_ent_num := n\<rparr>))"
  have i0: "cache_inv xs m P (ce_cs ce) k z" by (rule counters_inv [OF inv]) (simp_all add: z_def sub_cache_size_def cache_free_def)
  have Cz: "dc_cents z a = Some ce" using C by (simp add: z_def sub_cache_size_def cache_free_def)
  note L = cache_inv_links [OF i0 Cz]
  have rr: "dc_rrl ?c0 = dc_rrl z" by (simp add: z_def sub_cache_size_def cache_free_def)
  obtain c1 where c1: "free_cent ce ?c0 = Some c1" "effect xs ?c0 (- cent_blocks ce) (cent_lents ce) c1"
    using free_cent_ok [OF cent_ok_shaped [OF L(3)] _ L(1,2), of ?c0] cache_invD(1) [OF i0] unfolding rr by blast
  have f: "frame ?c0 c1" using c1(2) by (simp add: effect_def)
  have "effect xs z (- cent_blocks ce) (cent_lents ce) (c1\<lparr>dc_ent_num := n\<rparr>)"
    using c1(2) unfolding effect_def rr by (simp add: frame_def z_def sub_cache_size_def cache_free_def)
  from pending_drop_effect [OF i0 Cz aP this]
  have i1: "cache_inv (filter (\<lambda>x. x \<notin> set (cent_lents ce)) xs) m (P - {a}) 0 k
      ((cache_free (c1\<lparr>dc_cents := (dc_cents c1)(a := None), dc_ent_num := dc_ent_num c1 - 1\<rparr>))\<lparr>dc_ent_num := n\<rparr>)"
    by (rule counters_inv) (simp_all add: cache_free_def)
  have "del_cent a (cache_free c) = Some (cache_free (c1\<lparr>dc_cents := (dc_cents c1)(a := None), dc_ent_num := dc_ent_num c1 - 1\<rparr>))"
    using C c1(1) by (simp add: del_cent_def cache_free_def)
  then show ?thesis using i1 f by (intro exI conjI) (assumption | simp add: frame_def cache_free_def sub_cache_size_def)+
qed

lemma del_cents_ok:
  assumes "cache_inv xs m (set as) 0 (k + int (length as)) (c\<lparr>dc_ent_num := n\<rparr>)" "distinct as" "dc_ent_num c = n + int (length as)"
  shows "\<exists>c' xs'. del_cents as c = Some c' \<and> cache_inv xs' m {} 0 k c' \<and> dc_cents c' = (\<lambda>a. if a \<in> set as then None else dc_cents c a) \<and>
    length xs' \<le> length xs"
  using assms
proof (induction as arbitrary: c xs)
  case Nil
  have "c\<lparr>dc_ent_num := dc_ent_num c\<rparr> = c" by simp
  then have "c\<lparr>dc_ent_num := n\<rparr> = c" using Nil.prems(3) by (simp only:) simp
  then show ?case using Nil.prems(1) by (intro exI [of _ c] exI [of _ xs]) simp
next
  case (Cons a as)
  have i: "cache_inv xs m (set (a # as)) 0 (k + int (length as) + 1) (c\<lparr>dc_ent_num := n\<rparr>)" using Cons.prems(1) by (simp add: ac_simps)
  obtain c1 xs1 where D: "del_cent a (cache_free c) = Some c1" "cache_inv xs1 m (set (a # as) - {a}) 0 (k + int (length as)) (c1\<lparr>dc_ent_num := n\<rparr>)"
    "dc_cents c1 = (dc_cents c)(a := None)" "dc_ent_num c1 = dc_ent_num c - 1" "length xs1 \<le> length xs"
    using pending_del [OF i, of a] by auto
  have s: "set (a # as) - {a} = set as" using Cons.prems(2) by auto
  obtain c' xs' where R: "del_cents as c1 = Some c'" "cache_inv xs' m {} 0 k c'" "dc_cents c' = (\<lambda>b. if b \<in> set as then None else dc_cents c1 b)"
    "length xs' \<le> length xs1"
    using Cons.IH [OF D(2) [unfolded s]] Cons.prems(2,3) D(4) by auto
  have "dc_cents c' = (\<lambda>b. if b \<in> set (a # as) then None else dc_cents c b)" unfolding R(3) D(3) by auto
  then show ?case using D(1,5) R(1,2,4) by (intro exI [of _ c'] exI [of _ xs']) simp
qed

lemma card_ran:
  assumes "\<And>k k' a. m k = Some a \<Longrightarrow> m k' = Some a \<Longrightarrow> k = k'"
  shows "card (ran m) = card (dom m)"
proof -
  have "ran m = (\<lambda>k. the (m k)) ` dom m" by (auto simp: ran_def image_def dom_def)
  moreover have "inj_on (\<lambda>k. the (m k)) (dom m)" using assms by (auto simp: inj_on_def)
  ultimately show ?thesis by (simp add: card_image)
qed

text \<open>The table has given up the entries \<open>as\<close>.\<close>

lemma unhash_inv:
  assumes inv: "cache_inv xs m {} 0 k c" and t: "hash_rep (cent_name c) t m'" "m' \<subseteq>\<^sub>m m" "dom (hash_ents t) \<subseteq> dom (hash_ents (dc_table c))"
    and as: "distinct as" "set as = ran m - ran m'"
  shows "cache_inv xs m' (set as) 0 (k + int (length as)) (c\<lparr>dc_table := t, dc_ent_num := int (card (dom m'))\<rparr>)"
    "dc_ent_num c = int (card (dom m')) + int (length as)"
proof -
  note I = cache_invD [OF inv]
  have u: "k = k'" if "m k = Some a" "m k' = Some a" for k k' a using cache_inv_key [OF inv that(1)] that(2) by blast
  have m': "m k = Some a" if "m' k = Some a" for k a using t(2) that by (auto simp: map_le_def dom_def)
  have r: "ran m' \<subseteq> ran m" using m' by (auto simp: ran_def)
  have "card (ran m) = card (dom m)" using u by (rule card_ran)
  moreover have "card (ran m') = card (dom m')" by (rule card_ran) (use u m' in blast)
  moreover have "card (ran m - ran m') = card (ran m) - card (ran m')" by (rule card_Diff_subset [OF hash_rep_card(2) [OF t(1)] r])
  moreover have "card (ran m') \<le> card (ran m)" by (rule card_mono [OF hash_rep_card(2) [OF I(2)] r])
  moreover have "length as = card (ran m - ran m')" using distinct_card [OF as(1)] as(2) by simp
  ultimately have cd: "card (dom m) = card (dom m') + length as" by simp
  then show "dc_ent_num c = int (card (dom m')) + int (length as)" using I(9) by simp
  let ?c = "c\<lparr>dc_table := t, dc_ent_num := int (card (dom m'))\<rparr>"
  have n: "cent_name ?c = cent_name c" by (rule cent_name_eq) simp
  have f: "fresh_ok ?c" using I(4) t(3) unfolding fresh_ok_def by (simp add: subset_trans)
  show "cache_inv xs m' (set as) 0 (k + int (length as)) ?c"
    unfolding cache_inv_def
    using I f t(1) r as(2) cd by (auto simp: n links_ok_def)
qed

subsection \<open>One bucket\<close>

lemma table_sub:
  assumes h: "hash_ok h qn T" "hash_ok h' qn T'" and s: "set (concat T') \<subseteq> set (concat T)"
  shows "table_map T' \<subseteq>\<^sub>m table_map T" "dom (hash_ents h') \<subseteq> dom (hash_ents h)"
proof -
  have d: "distinct (map fst (map (\<lambda>x. (it_key x, it_data x)) (concat T)))" "distinct (map fst (map (\<lambda>x. (it_key x, it_data x)) (concat T')))"
    using h by (simp_all add: hash_ok_def comp_def del: set_concat)
  show "table_map T' \<subseteq>\<^sub>m table_map T" unfolding map_le_def
  proof
    fix k assume "k \<in> dom (table_map T')"
    then obtain a where a: "table_map T' k = Some a" by blast
    then have "(k, a) \<in> set (map (\<lambda>x. (it_key x, it_data x)) (concat T'))" unfolding table_map_def by (rule map_of_SomeD)
    then have "(k, a) \<in> set (map (\<lambda>x. (it_key x, it_data x)) (concat T))" using s by (auto simp del: set_concat)
    then have "table_map T k = Some a" unfolding table_map_def by (rule map_of_is_SomeI [OF d(1)])
    then show "table_map T' k = table_map T k" using a by simp
  qed
  show "dom (hash_ents h') \<subseteq> dom (hash_ents h)" using h s unfolding hash_ok_def by blast
qed

lemma concat_filter_nth:
  assumes "i < length T" "distinct (concat T)"
  shows "set (concat (T[i := filter p (T ! i)])) = {x \<in> set (concat T). x \<in> set (T ! i) \<longrightarrow> p x}"
proof -
  have "concat T = concat (take i T) @ T ! i @ concat (drop (Suc i) T)" using id_take_nth_drop [OF assms(1)] by (metis concat.simps(2) concat_append)
  moreover have "concat (T[i := filter p (T ! i)]) = concat (take i T) @ filter p (T ! i) @ concat (drop (Suc i) T)"
    by (simp add: upd_conv_take_nth_drop [OF assms(1)] del: concat_append) simp
  ultimately show ?thesis using assms(2) by (auto simp del: set_concat)
qed

text \<open>
  What the code's loop over the list answers for the entry's name; \<open>name_selected\<close> in CacheSpec says it without
  the loop.
\<close>

definition cent_selected :: "slist list option \<Rightarrow> dns_cent \<Rightarrow> bool" where
  "cent_selected sla ce = (case sla of None \<Rightarrow> True | Some s \<Rightarrow> slist_selects (ce_qname ce) s = Some True)"

definition in_bucket :: "dns_cent \<Rightarrow> nat \<Rightarrow> bool" where
  "in_bucket ce i \<longleftrightarrow> (\<exists>ks. list_all lab_len ks \<and> ce_qname ce = enc_name ks \<and> fst (name_hash ks) = i)"

definition sla_ok :: "slist list option \<Rightarrow> bool" where
  "sla_ok sla \<longleftrightarrow> (case sla of None \<Rightarrow> True | Some s \<Rightarrow> \<exists>rs. list_all2 rule_of s rs)"

lemma table_data:
  assumes inv: "cache_inv xs m {} 0 k c" and T: "hash_ok (dc_table c) (cent_name c) T" "m = table_map T"
  shows "inj_on it_data (set (concat T))" "distinct (map it_data (concat T))"
proof -
  have di: "distinct (map it_addr (concat T))" "distinct (map it_key (concat T))" using T(1) by (simp_all add: hash_ok_def)
  have dk: "distinct (map fst (map (\<lambda>x. (it_key x, it_data x)) (concat T)))" using di(2) by (simp add: comp_def)
  show i: "inj_on it_data (set (concat T))" unfolding inj_on_def
  proof (intro ballI impI)
    fix x y assume xy: "x \<in> set (concat T)" "y \<in> set (concat T)" "it_data x = it_data y"
    have "m (it_key z) = Some (it_data z)" if "z \<in> set (concat T)" for z
      unfolding T(2) table_map_def by (rule map_of_is_SomeI [OF dk]) (use that in \<open>simp del: set_concat\<close>)
    then have "it_key x = it_key y" using cache_inv_key [OF inv, of "it_key x" "it_data x"] xy by metis
    then show "x = y" using di(2) xy(1,2) by (auto simp: distinct_map inj_on_def simp del: set_concat)
  qed
  then show "distinct (map it_data (concat T))" using di(1) by (simp add: distinct_map del: set_concat)
qed

lemma ran_table_map: "distinct (map it_key (concat T)) \<Longrightarrow> ran (table_map T) = it_data ` set (concat T)"
proof -
  assume "distinct (map it_key (concat T))"
  then have "distinct (map fst (map (\<lambda>x. (it_key x, it_data x)) (concat T)))" by (simp add: comp_def)
  then show ?thesis unfolding table_map_def by (simp add: ran_distinct image_image del: set_concat)
qed

text \<open>What the table gives up and keeps of one bucket.\<close>

lemma bucket_step:
  assumes inv: "cache_inv xs m {} 0 k c" and i: "i < HASH_NUM_BUCKETS" and sl: "sla_ok sla"
  shows "\<exists>t dels m'. (case sla of
        Some sla \<Rightarrow> free_dns_hash_selected (dc_table c) (cent_name c) i sla
      | None \<Rightarrow> free_dns_hash_bucket (dc_table c) i []) = Some (t, dels) \<and>
    hash_rep (cent_name c) t m' \<and> m' \<subseteq>\<^sub>m m \<and> dom (hash_ents t) \<subseteq> dom (hash_ents (dc_table c)) \<and> distinct dels \<and> set dels = ran m - ran m' \<and>
    set dels = {a. \<exists>ce. dc_cents c a = Some ce \<and> in_bucket ce i \<and> cent_selected sla ce}"
proof -
  note I = cache_invD [OF inv]
  obtain T where T: "hash_ok (dc_table c) (cent_name c) T" "m = table_map T" "\<forall>x \<in> set (concat T). m (it_key x) = Some (it_data x)"
    by (rule hash_repE [OF I(2)])
  note b = hash_okD [OF T(1) i]
  define sel where "sel x = (case sla of None \<Rightarrow> True | Some s \<Rightarrow> slist_selects (enc_name (it_name x)) s = Some True)" for x :: hitem
  have lT: "length T = HASH_NUM_BUCKETS" using T(1) by (simp add: hash_ok_def)
  have nm: "name_ok (it_name x)" if xT: "x \<in> set (concat T)" for x
  proof -
    obtain j where j: "j < HASH_NUM_BUCKETS" "x \<in> set (T ! j)" using xT unfolding set_bucket lT by blast
    have x: "list_all lab_len (it_name x)" "cent_name c (it_data x) = Some (enc_name (it_name x))"
      using hash_okD(5) [OF T(1) j] by (simp_all add: item_ok_def)
    then obtain ce where ce: "dc_cents c (it_data x) = Some ce" "ce_qname ce = enc_name (it_name x)" by (auto simp: cent_name_def)
    obtain ks where ks: "name_ok ks" "enc_name (it_name x) = enc_name ks" using I(5) [OF ce(1)] ce(2) by (auto simp: cent_ok_def named_def)
    have "it_name x = ks" using enc_name_inj [OF x(1) name_ok_lab_len [OF ks(1)] ks(2)] .
    then show ?thesis using ks(1) by simp
  qed
  have di: "distinct (map it_addr (concat T))" "distinct (map it_key (concat T))" using T(1) by (simp_all add: hash_ok_def)
  have dT: "distinct (concat T)" using di(1) by (simp add: distinct_map del: set_concat)
  obtain t where t: "(case sla of
        Some sla \<Rightarrow> free_dns_hash_selected (dc_table c) (cent_name c) i sla
      | None \<Rightarrow> free_dns_hash_bucket (dc_table c) i []) = Some (t, map it_data (filter sel (T ! i)))"
    "hash_ok t (cent_name c) (T[i := filter (\<lambda>x. \<not> sel x) (T ! i)])"
  proof (cases sla)
    case None
    then show ?thesis using that free_bucket_ok [OF T(1) i, of "[]"] by (auto simp: sel_def)
  next
    case (Some s)
    obtain rs where rs: "list_all2 rule_of s rs" using sl Some by (auto simp: sla_ok_def)
    have nb: "name_ok (it_name x)" if "x \<in> set (T ! i)" for x using nm that b(2) unfolding set_bucket by blast
    have e: "sel x = selects (it_name x) rs" if "x \<in> set (T ! i)" for x
      using slist_selects_ok [OF nb [OF that] rs] Some by (simp add: sel_def)
    have f: "filter sel (T ! i) = filter (\<lambda>x. selects (it_name x) rs) (T ! i)"
      "filter (\<lambda>x. \<not> sel x) (T ! i) = filter (\<lambda>x. \<not> selects (it_name x) rs) (T ! i)" by (auto simp: e intro: filter_cong)
    have "\<exists>h'. free_selected (dc_table c) (cent_name c) (slot_of i []) s [] = Some (h', [] @ map it_data (filter (\<lambda>x. selects (it_name x) rs) (T ! i))) \<and>
      hash_ok h' (cent_name c) (T[i := [] @ filter (\<lambda>x. \<not> selects (it_name x) rs) (T ! i)])"
      by (rule free_selected_ok [OF T(1) i _ rs]) (simp_all add: nb)
    then show ?thesis using that Some unfolding f by (auto simp: free_dns_hash_selected_def)
  qed
  let ?T = "T[i := filter (\<lambda>x. \<not> sel x) (T ! i)]" and ?d = "map it_data (filter sel (T ! i))"
  have sT: "set (concat ?T) = {x \<in> set (concat T). x \<in> set (T ! i) \<longrightarrow> \<not> sel x}" by (rule concat_filter_nth [OF b(2) dT])
  have ts: "table_map ?T \<subseteq>\<^sub>m table_map T" "dom (hash_ents t) \<subseteq> dom (hash_ents (dc_table c))"
    using table_sub [OF T(1) t(2)] sT by blast+
  have u: "x = y" if "x \<in> set (concat T)" "y \<in> set (concat T)" "it_data x = it_data y" for x y
    using table_data(1) [OF inv T(1,2)] that unfolding inj_on_def by blast
  have rm: "ran m = it_data ` set (concat T)" "ran (table_map ?T) = it_data ` set (concat ?T)"
    unfolding T(2) using ran_table_map di(2) t(2) by (simp_all add: hash_ok_def)
  have bi: "x \<in> set (concat T)" if "x \<in> set (T ! i)" for x using that b(2) unfolding set_bucket by blast
  have dd: "distinct ?d"
  proof -
    have "distinct (filter sel (T ! i))" using dT b(2) by (simp add: distinct_concat_iff)
    moreover have "inj_on it_data (set (filter sel (T ! i)))" using u bi by (auto simp: inj_on_def)
    ultimately show ?thesis by (simp add: distinct_map)
  qed
  have sd: "set ?d = ran m - ran (table_map ?T)"
  proof (intro equalityI subsetI)
    fix a assume "a \<in> set ?d"
    then obtain x where x: "x \<in> set (T ! i)" "sel x" "a = it_data x" by auto
    then show "a \<in> ran m - ran (table_map ?T)" unfolding rm sT using bi [OF x(1)] u by auto
  next
    fix a assume "a \<in> ran m - ran (table_map ?T)"
    then show "a \<in> set ?d" unfolding rm sT by auto
  qed
  have "set ?d = {a. \<exists>ce. dc_cents c a = Some ce \<and> in_bucket ce i \<and> cent_selected sla ce}"
  proof (intro equalityI subsetI)
    fix a assume "a \<in> set ?d"
    then obtain x where x: "x \<in> set (T ! i)" "sel x" "a = it_data x" by auto
    have ok: "list_all lab_len (it_name x)" "cent_name c (it_data x) = Some (enc_name (it_name x))" "fst (name_hash (it_name x)) = i"
      using b(5) [OF x(1)] by (simp_all add: item_ok_def)
    then obtain ce where ce: "dc_cents c a = Some ce" "ce_qname ce = enc_name (it_name x)" using x(3) by (auto simp: cent_name_def)
    then have "in_bucket ce i" "cent_selected sla ce" using ok x(2) by (auto simp: in_bucket_def cent_selected_def sel_def cong: option.case_cong)
    then show "a \<in> {a. \<exists>ce. dc_cents c a = Some ce \<and> in_bucket ce i \<and> cent_selected sla ce}" using ce(1) by blast
  next
    fix a assume "a \<in> {a. \<exists>ce. dc_cents c a = Some ce \<and> in_bucket ce i \<and> cent_selected sla ce}"
    then obtain ce ks where ce: "dc_cents c a = Some ce" "cent_selected sla ce" "list_all lab_len ks" "ce_qname ce = enc_name ks" "fst (name_hash ks) = i"
      by (auto simp: in_bucket_def)
    have "a \<in> ran m" using I(6) ce(1) by auto
    then obtain x where x: "x \<in> set (concat T)" "a = it_data x" unfolding rm by auto
    obtain j where j: "j < HASH_NUM_BUCKETS" "x \<in> set (T ! j)" using x(1) unfolding set_bucket lT by blast
    have ok: "list_all lab_len (it_name x)" "cent_name c (it_data x) = Some (enc_name (it_name x))" "name_hash (it_name x) = (j, it_hash x)"
      using hash_okD(5) [OF T(1) j] by (simp_all add: item_ok_def)
    have "enc_name (it_name x) = enc_name ks" using ok(2) x(2) ce(1,4) by (simp add: cent_name_def)
    then have e: "it_name x = ks" by (rule enc_name_inj [OF ok(1) ce(3)])
    then have "sel x" using ce(2,4) by (simp add: cent_selected_def sel_def cong: option.case_cong)
    moreover have "j = i" using ce(5) ok(3) e by simp
    ultimately show "a \<in> set ?d" using j(2) x(2) by auto
  qed
  then show ?thesis using t ts dd sd hash_repI [OF t(2) refl] unfolding T(2) by (intro exI conjI) assumption+
qed

subsection \<open>All buckets\<close>

text \<open>Consistent, with some number of blocks outside the cache.\<close>

definition consistent :: "dcache \<Rightarrow> bool" where
  "consistent c \<longleftrightarrow> (\<exists>k. cache_ok k c)"

definition others_ok :: "(dcache \<Rightarrow> dcache) \<Rightarrow> bool" where
  "others_ok others \<longleftrightarrow> (\<forall>c. consistent c \<longrightarrow> consistent (others c))"

text \<open>The entries that are left when those selected in the buckets from \<open>i\<close> are gone.\<close>

definition left_from :: "slist list option \<Rightarrow> nat \<Rightarrow> (nat \<Rightarrow> dns_cent option) \<Rightarrow> nat \<Rightarrow> dns_cent option" where
  "left_from sla i C a = (case C a of None \<Rightarrow> None | Some ce \<Rightarrow> if cent_selected sla ce \<and> (\<exists>j \<ge> i. in_bucket ce j) then None else Some ce)"

lemma bucket_emptied:
  assumes inv: "cache_inv xs m {} 0 k c" and i: "i < HASH_NUM_BUCKETS" and sl: "sla_ok sla"
  shows "\<exists>t dels c' xs' m'. (case sla of
        Some sla \<Rightarrow> free_dns_hash_selected (dc_table c) (cent_name c) i sla
      | None \<Rightarrow> free_dns_hash_bucket (dc_table c) i []) = Some (t, dels) \<and> del_cents dels (c\<lparr>dc_table := t\<rparr>) = Some c' \<and>
    cache_inv xs' m' {} 0 k c' \<and> left_from sla (Suc i) (dc_cents c') = left_from sla i (dc_cents c) \<and> length xs' \<le> length xs"
proof -
  obtain t dels m' where B: "(case sla of
        Some sla \<Rightarrow> free_dns_hash_selected (dc_table c) (cent_name c) i sla
      | None \<Rightarrow> free_dns_hash_bucket (dc_table c) i []) = Some (t, dels)" "hash_rep (cent_name c) t m'" "m' \<subseteq>\<^sub>m m"
    "dom (hash_ents t) \<subseteq> dom (hash_ents (dc_table c))" "distinct dels" "set dels = ran m - ran m'"
    "set dels = {a. \<exists>ce. dc_cents c a = Some ce \<and> in_bucket ce i \<and> cent_selected sla ce}"
    using bucket_step [where sla = sla, OF inv i sl] by (elim exE conjE) (rule that)
  note U = unhash_inv [OF inv B(2-6)]
  have u1: "cache_inv xs m' (set dels) 0 (k + int (length dels)) ((c\<lparr>dc_table := t\<rparr>)\<lparr>dc_ent_num := int (card (dom m'))\<rparr>)"
    by (rule counters_inv [OF U(1)]) simp_all
  have u2: "dc_ent_num (c\<lparr>dc_table := t\<rparr>) = int (card (dom m')) + int (length dels)" using U(2) by simp
  obtain c' xs' where D: "del_cents dels (c\<lparr>dc_table := t\<rparr>) = Some c'" "cache_inv xs' m' {} 0 k c'"
    "dc_cents c' = (\<lambda>a. if a \<in> set dels then None else dc_cents (c\<lparr>dc_table := t\<rparr>) a)" "length xs' \<le> length xs"
    using del_cents_ok [OF u1 B(5) u2] by blast
  have "left_from sla (Suc i) (dc_cents c') a = left_from sla i (dc_cents c) a" for a
  proof (cases "dc_cents c a")
    case (Some ce)
    define e e' where "e = (\<exists>j \<ge> i. in_bucket ce j)" and "e' = (\<exists>j \<ge> Suc i. in_bucket ce j)"
    have "left_from sla (Suc i) (dc_cents c') a = (if a \<in> set dels \<or> cent_selected sla ce \<and> e' then None else Some ce)"
      "left_from sla i (dc_cents c) a = (if cent_selected sla ce \<and> e then None else Some ce)"
      using Some by (simp_all add: left_from_def D(3) e_def e'_def)
    moreover have "e \<longleftrightarrow> in_bucket ce i \<or> e'" unfolding e_def e'_def by (metis Suc_le_eq le_less order_refl)
    moreover have "a \<in> set dels \<longleftrightarrow> in_bucket ce i \<and> cent_selected sla ce" unfolding B(7) using Some by simp
    ultimately show ?thesis by auto
  qed (simp add: left_from_def D(3))
  then have "left_from sla (Suc i) (dc_cents c') = left_from sla i (dc_cents c)" by (rule ext)
  then show ?thesis using B(1) D(1,2,4) by (intro exI conjI) assumption+
qed

lemma in_bucket_bound: "in_bucket ce j \<Longrightarrow> j < HASH_NUM_BUCKETS"
  using name_hash_bound by (auto simp: in_bucket_def)

lemma empty_buckets_ok:
  assumes "cache_inv xs m {} 0 k c" "i + n = HASH_NUM_BUCKETS" "sla_ok sla" "others_ok others"
  shows "\<exists>c'. empty_buckets others sla i n c = Some c' \<and> consistent c' \<and>
    (others = (\<lambda>c. c) \<longrightarrow> cache_ok k c' \<and> dc_cents c' = left_from sla i (dc_cents c))"
  using assms
proof (induction n arbitrary: c i xs m k)
  case 0
  have "left_from sla i (dc_cents c) a = dc_cents c a" for a
    using in_bucket_bound 0(2) by (force simp: left_from_def split: option.splits)
  then have "left_from sla i (dc_cents c) = dc_cents c" by (rule ext)
  then show ?case using 0(1) by (auto simp: consistent_def cache_ok_def)
next
  case (Suc n)
  have i: "i < HASH_NUM_BUCKETS" using Suc.prems(2) by simp
  obtain t dels c1 xs1 m1 where B: "(case sla of
        Some sla \<Rightarrow> free_dns_hash_selected (dc_table c) (cent_name c) i sla
      | None \<Rightarrow> free_dns_hash_bucket (dc_table c) i []) = Some (t, dels)" "del_cents dels (c\<lparr>dc_table := t\<rparr>) = Some c1"
    "cache_inv xs1 m1 {} 0 k c1" "left_from sla (Suc i) (dc_cents c1) = left_from sla i (dc_cents c)"
    using bucket_emptied [OF Suc.prems(1) i Suc.prems(3)] by blast
  let ?c = "if n = 0 then c1 else others c1"
  have c1: "consistent c1" using B(3) by (auto simp: consistent_def cache_ok_def)
  then have "consistent ?c" using Suc.prems(4) by (simp add: others_ok_def)
  then obtain k2 xs2 m2 where o: "cache_inv xs2 m2 {} 0 k2 ?c" by (auto simp: consistent_def cache_ok_def)
  have e: "empty_buckets others sla i (Suc n) c = empty_buckets others sla (Suc i) n ?c" using B(1,2) by simp
  have n: "Suc i + n = HASH_NUM_BUCKETS" using Suc.prems(2) by simp
  show ?case
  proof (cases "others = (\<lambda>c. c)")
    case True
    then have "?c = c1" by simp
    then show ?thesis using Suc.IH [OF B(3) n Suc.prems(3,4)] B(4) unfolding e by (simp only:)
  next
    case False
    then show ?thesis using Suc.IH [OF o n Suc.prems(3,4)] unfolding e by blast
  qed
qed

lemma empty_cache_ok:
  assumes "cache_ok k c" "sla_ok sla" "others_ok others"
  shows "\<exists>c'. empty_cache others True sla c = Some (True, c') \<and> consistent c' \<and>
    (others = (\<lambda>c. c) \<longrightarrow> cache_ok k c' \<and> dc_cents c' = (\<lambda>a. case dc_cents c a of None \<Rightarrow> None | Some ce \<Rightarrow> if cent_selected sla ce then None else Some ce))"
proof -
  obtain xs m where inv: "cache_inv xs m {} 0 k c" using assms(1) by (auto simp: cache_ok_def)
  have "left_from sla 0 (dc_cents c) a = (case dc_cents c a of None \<Rightarrow> None | Some ce \<Rightarrow> if cent_selected sla ce then None else Some ce)" for a
  proof (cases "dc_cents c a")
    case (Some ce)
    then have "cent_ok ce" using cache_invD(5) [OF inv] by blast
    then obtain ks where "name_ok ks" "ce_qname ce = enc_name ks" by (auto simp: cent_ok_def named_def)
    then have "in_bucket ce (fst (name_hash ks))" using name_ok_lab_len by (auto simp: in_bucket_def)
    then show ?thesis using Some by (auto simp: left_from_def)
  qed (simp add: left_from_def)
  then have "left_from sla 0 (dc_cents c) = (\<lambda>a. case dc_cents c a of None \<Rightarrow> None | Some ce \<Rightarrow> if cent_selected sla ce then None else Some ce)" by (rule ext)
  then show ?thesis using empty_buckets_ok [OF inv _ assms(2,3), of 0 HASH_NUM_BUCKETS] unfolding empty_cache_def by auto
qed

subsection \<open>Destroying the cache\<close>

lemma destroy_cache_ok:
  assumes "cache_ok k c"
  shows "\<exists>c'. destroy_cache True c = Some c' \<and> cache_inv [] Map.empty {} 0 k c' \<and> dc_cents c' = Map.empty \<and> dc_live c' = k"
proof -
  obtain xs m where inv: "cache_inv xs m {} 0 k c" using assms(1) by (auto simp: cache_ok_def)
  note I = cache_invD [OF inv]
  obtain T where T: "hash_ok (dc_table c) (cent_name c) T" "m = table_map T" "\<forall>x \<in> set (concat T). m (it_key x) = Some (it_data x)"
    by (rule hash_repE [OF I(2)])
  obtain t where t: "free_dns_hash (dc_table c) = Some (t, map it_data (concat T))" "hash_rep (cent_name c) t Map.empty"
    using free_dns_hash_ok [OF T(1)] by blast
  have di: "distinct (map it_addr (concat T))" "distinct (map it_key (concat T))" using T(1) by (simp_all add: hash_ok_def)
  have dd: "distinct (map it_data (concat T))" by (rule table_data(2) [OF inv T(1,2)])
  obtain T' where T': "hash_ok t (cent_name c) T'" "Map.empty = table_map T'" by (rule hash_repE [OF t(2)])
  have "it_key ` set (concat T') = {}" using dom_table_map [of T'] unfolding T'(2) [symmetric] by simp
  then have "dom (hash_ents t) = {}" using T'(1) by (simp add: hash_ok_def)
  then have ht: "dom (hash_ents t) \<subseteq> dom (hash_ents (dc_table c))" by simp
  have "ran m = it_data ` set (concat T)" unfolding T(2) by (rule ran_table_map [OF di(2)])
  then have sd: "set (map it_data (concat T)) = ran m - ran Map.empty" by (simp del: set_concat)
  let ?d = "map it_data (concat T)"
  note U = unhash_inv [OF inv t(2) _ ht dd sd]
  have u1: "cache_inv xs Map.empty (set ?d) 0 (k + int (length ?d)) ((c\<lparr>dc_table := t\<rparr>)\<lparr>dc_ent_num := 0\<rparr>)"
    by (rule counters_inv [OF U(1)]) simp_all
  have u2: "dc_ent_num (c\<lparr>dc_table := t\<rparr>) = 0 + int (length ?d)" using U(2) by simp
  obtain c' xs' where D: "del_cents ?d (c\<lparr>dc_table := t\<rparr>) = Some c'" "cache_inv xs' Map.empty {} 0 k c'"
    using del_cents_ok [OF u1 dd u2] by blast
  have e: "dc_cents c' = Map.empty" using cache_invD(6) [OF D(2)] by simp
  have "items (rl_ents (dc_rrl c')) le \<noteq> Some x" for le x using cache_invD(3) [OF D(2)] e unfolding links_ok_def by simp
  then have "items (rl_ents (dc_rrl c')) le = items Map.empty le" for le by (cases "items (rl_ents (dc_rrl c')) le") (auto simp: items_def)
  then have "items (rl_ents (dc_rrl c')) = items Map.empty" by (rule ext)
  then have "dom (rl_ents (dc_rrl c')) = {}" using items_dom by (metis dom_empty)
  then have x: "xs' = []" using rl_dom [OF cache_invD(1) [OF D(2)]] by simp
  then have "dc_live c' = k" using cache_invD(10) [OF D(2)] e by simp
  then show ?thesis using t(1) D x e by (auto simp: destroy_cache_def)
qed

end
