(* ===== verification/CacheLookup.thy ===== *)
theory CacheLookup
  imports CacheEmpty
begin

text \<open>
  Looking up names: the search up the hierarchy of domains, the copy that is handed out, and the operations that change
  an entry found by its name.
\<close>

subsection \<open>The search up the hierarchy\<close>

text \<open>Over the labels of the name, with the map of names and the entries.\<close>

fun wild_spec :: "(byte list list \<Rightarrow> nat option) \<Rightarrow> (nat \<Rightarrow> dns_cent option) \<Rightarrow> byte list list \<Rightarrow> nat option \<times> nat" where
  "wild_spec m C [] = (None, 0)"
| "wild_spec m C (k # ks) = (if ks = [] then (None, 0) else case m (map lower ks) of
     None \<Rightarrow> wild_spec m C ks
   | Some a \<Rightarrow> (case C a of
         None \<Rightarrow> (None, 0)
       | Some ce \<Rightarrow>
           if is_neg ce then (Some a, w_neg)
           else if has_flag (ce_flags ce) DF_WILD then (let r = m (map lower ([42] # ks)) in (r, if r = None then 0 else w_wild))
           else if has_flag (ce_flags ce) DF_LOCAL then (Some a, w_locnerr)
           else (None, 0)))"

fun owner_spec :: "(byte list list \<Rightarrow> nat option) \<Rightarrow> (nat \<Rightarrow> dns_cent option) \<Rightarrow> int \<Rightarrow> byte list list \<Rightarrow> byte list list option" where
  "owner_spec m C type [] = None"
| "owner_spec m C type (k # ks) = (if ks = [] then None else case m (map lower ks) of
     None \<Rightarrow> owner_spec m C type ks
   | Some a \<Rightarrow> (case C a of
         None \<Rightarrow> None
       | Some ce \<Rightarrow>
           if \<not> has_flag (ce_flags ce) DF_LOCAL then None
           else if have_rr ce type = Some True then Some ks
           else owner_spec m C type ks))"

lemma label_step:
  assumes "lab_len k"
  shows "byte_at (enc_name (k # ks) @ r) 0 = Some (word_of_nat (length k))" "word_of_nat (length k) \<noteq> (0 :: byte)"
    "drop (unat (word_of_nat (length k) :: byte) + 1) (enc_name (k # ks) @ r) = enc_name ks @ r"
proof -
  have l: "length k < 256" "0 < length k" using assms unfolding lab_len_def by linarith+
  then have u: "unat (word_of_nat (length k) :: byte) = length k" by (simp add: unat_of_nat)
  show "byte_at (enc_name (k # ks) @ r) 0 = Some (word_of_nat (length k))" by simp
  show "word_of_nat (length k) \<noteq> (0 :: byte)" using u l(2) by (metis gr_implies_not0 unat_0)
  show "drop (unat (word_of_nat (length k) :: byte) + 1) (enc_name (k # ks) @ r) = enc_name ks @ r" unfolding u by simp
qed

lemma rhncpy_enc:
  assumes "list_all lab_len ks" "length (enc_name ks) \<le> DNSNAMEBUFSIZE" "length (enc_name ks) \<le> length dst"
  shows "\<exists>r. rhncpy dst (enc_name ks @ s) = Some (length (enc_name ks), enc_name ks @ r)"
  using assms rhnlen_enc [OF assms(1), of s] by (simp add: rhncpy_def mem_write_def)

lemma wild_from_ok:
  assumes inv: "cache_inv xs m {} 0 k c"
  shows "list_all lab_len ks \<Longrightarrow> length (enc_name ks) \<le> DNSNAMEBUFSIZE \<Longrightarrow> wild_from c (enc_name ks @ r) = Some (wild_spec m (dc_cents c) ks)"
proof (induction ks)
  case Nil
  then show ?case by (subst wild_from.simps) simp
next
  case (Cons l ks)
  have l: "lab_len l" "list_all lab_len ks" using Cons.prems(1) by simp_all
  have le: "length (enc_name ks) + 2 \<le> DNSNAMEBUFSIZE" using Cons.prems l(1) by (simp add: lab_len_def)
  note s = label_step(1) [OF l(1), of ks r] label_step(2) [OF l(1)] label_step(3) [OF l(1), of ks r]
  show ?case
  proof (cases ks)
    case Nil
    then show ?thesis using s by (subst wild_from.simps) simp
  next
    case (Cons l' ks')
    have l': "lab_len l'" using l(2) Cons by simp
    note s' = label_step(1) [OF l', of ks' r, folded Cons] label_step(2) [OF l']
    obtain loc where f: "cache_find c (enc_name ks @ r) = Some (m (map lower ks), loc)" using cache_find_total [OF inv l(2)] by blast
    have e: "wild_from c (enc_name (l # ks) @ r) = (case cache_find c (enc_name ks @ r) of
        None \<Rightarrow> None
      | Some (None, _) \<Rightarrow> wild_from c (enc_name ks @ r)
      | Some (Some a, _) \<Rightarrow> do {
          ce \<leftarrow> dc_cents c a;
          if is_neg ce then Some (Some a, w_neg)
          else if has_flag (ce_flags ce) DF_WILD then do {
            (_, rest) \<leftarrow> rhncpy (replicate (DNSNAMEBUFSIZE - 2) 0) (enc_name ks @ r);
            (r, _) \<leftarrow> cache_find c (1 # 42 # rest);
            Some (r, if r = None then 0 else w_wild)
          }
          else if has_flag (ce_flags ce) DF_LOCAL then Some (Some a, w_locnerr)
          else Some (None, 0)
        })" using s s'(1,2) by (subst wild_from.simps) (simp only: option.case if_False Let_def)
    show ?thesis
    proof (cases "m (map lower ks)")
      case None
      then show ?thesis using Cons.IH [OF l(2)] le Cons unfolding e f by simp
    next
      case (Some a)
      obtain ce where C: "dc_cents c a = Some ce" using found_cent [OF inv Some] by blast
      obtain z where z: "rhncpy (replicate (DNSNAMEBUFSIZE - 2) 0) (enc_name ks @ r) = Some (length (enc_name ks), enc_name ks @ z)"
        using rhncpy_enc [OF l(2), of "replicate (DNSNAMEBUFSIZE - 2) 0" r] le by (force simp: DNSNAMEBUFSIZE_def)
      have "list_all lab_len ([42] # ks)" using l(2) by (simp add: lab_len_def)
      from cache_find_total [OF inv this, of z]
      obtain loc' where g: "cache_find c (1 # 42 # enc_name ks @ z) = Some (m (map lower ([42] # ks)), loc')" by auto
      show ?thesis unfolding e f using Some C z g Cons by (simp add: Let_def)
    qed
  qed
qed

lemma find_wild_ok:
  assumes inv: "cache_inv xs m {} 0 k c" and ks: "name_ok ks"
  shows "find_wild c (enc_name ks) wild = Some (if wild \<and> m (map lower ks) = None then wild_spec m (dc_cents c) ks else (m (map lower ks), 0))"
proof -
  have l: "list_all lab_len ks" "length (enc_name ks) \<le> DNSNAMEBUFSIZE" using ks name_ok_lab_len by (auto simp: name_ok_def)
  obtain loc where "cache_find c (enc_name ks) = Some (m (map lower ks), loc)" using cache_find_total [OF inv l(1), of "[]"] by auto
  then show ?thesis using wild_from_ok [OF inv l, of "[]"] by (simp add: find_wild_def)
qed

lemma wild_spec_ran: "wild_spec m C ks = (Some a, w) \<Longrightarrow> a \<in> ran m"
proof (induction ks)
  case (Cons k ks)
  then show ?case by (fastforce simp: ran_def Let_def split: if_splits option.splits)
qed simp

lemma find_wild_found:
  assumes inv: "cache_inv xs m {} 0 k c" and "find_wild c (enc_name ks) wild = Some (Some a, w)" "name_ok ks"
  shows "\<exists>ce. dc_cents c a = Some ce"
proof -
  have "a \<in> ran m" using find_wild_ok [OF inv assms(3), of wild] assms(2) wild_spec_ran [of m "dc_cents c" ks a w]
    by (auto simp: ran_def split: if_splits)
  then show ?thesis using found_cent [OF inv] by (auto simp: ran_def)
qed

subsection \<open>The copy\<close>

definition copy_blocks :: "(nat \<times> dns_cent) option \<Rightarrow> int" where
  "copy_blocks cp = (case cp of None \<Rightarrow> 0 | Some (a, ce) \<Rightarrow> 1 + cent_blocks ce)"

lemma copy_inv:
  assumes inv: "cache_inv xs m {} 0 k c" and C: "dc_cents c a = Some ce"
  shows "\<exists>cp c'. copy_cent fails ce c = Some (cp, c') \<and> cache_inv xs m {} 0 (k + copy_blocks cp) c' \<and> dc_cents c' = dc_cents c \<and>
    (case cp of None \<Rightarrow> \<exists>n. fails n | Some (_, ce') \<Rightarrow> copied_cent ce ce' \<and> cent_ok ce' \<and> cent_lents ce' = [])"
proof -
  note I = cache_invD [OF inv]
  obtain r c1 where cp: "copy_cent fails ce c = Some (r, c1)" "frame c c1" "case r of
       None \<Rightarrow> (\<exists>n. fails n) \<and> effect xs c 0 [] c1
     | Some (a, ce') \<Rightarrow> copied_cent ce ce' \<and> cent_ok ce' \<and> cent_lents ce' = [] \<and> dc_mallocs c = a \<and> a < dc_mallocs c1 \<and>
         dc_rrl c1 = dc_rrl c \<and> dc_live c1 = dc_live c + 1 + cent_blocks ce'"
    using copy_cent_ok [where fails = fails, OF I(5) [OF C] I(1)] by (elim exE conjE) (rule that)
  show ?thesis
  proof (cases r)
    case None
    then show ?thesis using cp effect_inv [OF inv] by (simp add: copy_blocks_def frame_def)
  next
    case (Some p)
    obtain b ce' where p: "p = (b, ce')" by (cases p)
    have "cache_inv xs m {} 0 (k + copy_blocks r) c1"
      by (rule counters_inv [OF inv]) (use cp Some p in \<open>simp_all add: frame_def copy_blocks_def\<close>)
    then show ?thesis using cp Some p by (simp add: frame_def)
  qed
qed

text \<open>
  Nothing in the entry is due to go. A set that is timed out may be there when it is local or marked not to be
  purged: \<open>purge_rrset\<close> keeps these.
\<close>

definition cent_fresh :: "int \<Rightarrow> dns_cent \<Rightarrow> bool" where
  "cent_fresh now ce \<longleftrightarrow> (\<forall>j rs. slot (sets0 ce) j = Some rs \<longrightarrow> \<not> purgeable now rs) \<and> \<not> all_expired now ce"

lemma cent_expired_cong:
  assumes "is_neg ce' = is_neg ce" "local_cent ce' = local_cent ce" "is_neg ce \<Longrightarrow> timedout_nxdom now ce' = timedout_nxdom now ce"
  shows "cent_expired now ce' = cent_expired now ce"
  using assms by (simp add: cent_expired_def local_cent_def)

lemma copied_slots:
  assumes "copied_cent ce ce'" "cent_ok ce"
  shows "copied (slot (sets0 ce) j) (slot (sets0 ce') j)"
proof (cases "is_neg ce")
  case True
  then have "is_neg ce'" using assms(1) by (simp add: copied_cent_def is_neg_def)
  then show ?thesis using True by (simp add: slot_sets0)
next
  case False
  then have "\<not> is_neg ce'" "list_all2 copied (cent_sets ce) (cent_sets ce')" using assms(1) by (simp_all add: copied_cent_def is_neg_def)
  then show ?thesis using copied_slot False by (simp add: sets0_def)
qed

lemma copied_fresh:
  assumes cp: "copied_cent ce ce'" and ok: "cent_ok ce" and f: "cent_fresh now ce"
  shows "cent_fresh now ce'"
proof -
  have u: "unexpired now (slot (sets0 ce') j) = None \<longleftrightarrow> unexpired now (slot (sets0 ce) j) = None" for j
    using copied_slots [OF cp ok, of j] by (auto simp: copied_def unexpired_def purgeable_def timedout_def split: option.splits)
  have "cent_expired now ce' = cent_expired now ce"
    by (rule cent_expired_cong)
      (use cp cent_ok_neg [OF ok] in \<open>auto simp: copied_cent_def is_neg_def local_cent_def timedout_nxdom_def neg_ok_def split: cent_data.splits\<close>)
  then have "\<not> all_expired now ce'" using f u by (simp add: cent_fresh_def all_expired_def)
  moreover have "\<not> purgeable now rs'" if s: "slot (sets0 ce') j = Some rs'" for j rs'
  proof -
    obtain rs p where "slot (sets0 ce) j = Some rs" "rs' = rs\<lparr>rs_addr := p, rs_lent := None\<rparr>"
      using copied_slots [OF cp ok, of j] s by (auto simp: copied_def split: option.splits)
    then show ?thesis using f by (auto simp: cent_fresh_def purgeable_def timedout_def)
  qed
  ultimately show ?thesis by (auto simp: cent_fresh_def)
qed

lemma refreshed_fresh:
  assumes r: "refreshed now ce ce'" and n: "\<not> all_expired now ce"
  shows "cent_fresh now ce'"
proof -
  have "cent_expired now ce' = cent_expired now ce"
    by (rule cent_expired_cong) (use r in \<open>auto simp: refreshed_def timedout_nxdom_def\<close>)
  moreover have "unexpired now (unexpired now s) = unexpired now s" for s by (cases s) (simp_all add: unexpired_def)
  ultimately have "\<not> all_expired now ce'" using r n by (simp add: all_expired_def refreshed_def)
  then show ?thesis using r by (auto simp: cent_fresh_def refreshed_def unexpired_Some)
qed

lemma tested_fresh:
  assumes "\<forall>j. unexpired now (slot (sets0 ce) j) = slot (sets0 ce) j" "\<not> all_expired now ce"
  shows "cent_fresh now ce"
  using assms unexpired_Some by (metis cent_fresh_def)

subsection \<open>\<open>lookup_cache\<close>\<close>

text \<open>
  What is handed out: a well-formed copy that nothing in the cache refers to, without any set that \<open>purge_rrset\<close>
  would delete; sets that are timed out but local or not to be purged may be in it.
\<close>

definition handed_out :: "int \<Rightarrow> (nat \<times> dns_cent) option \<Rightarrow> bool" where
  "handed_out now cp \<longleftrightarrow> (case cp of None \<Rightarrow> True | Some (_, ce) \<Rightarrow> cent_ok ce \<and> cent_lents ce = [] \<and> cent_fresh now ce)"

lemma lookup_copy:
  assumes inv: "cache_inv xs m {} 0 k c" and C: "dc_cents c a = Some ce" and f: "cent_fresh now ce"
  shows "\<exists>cp c'. copy_cent fails ce c = Some (cp, c') \<and> cache_inv xs m {} 0 (k + copy_blocks cp) c' \<and> dc_cents c' = dc_cents c \<and> handed_out now cp"
proof -
  obtain cp c' where cp: "copy_cent fails ce c = Some (cp, c')" "cache_inv xs m {} 0 (k + copy_blocks cp) c'" "dc_cents c' = dc_cents c"
    "case cp of None \<Rightarrow> \<exists>n. fails n | Some (_, ce') \<Rightarrow> copied_cent ce ce' \<and> cent_ok ce' \<and> cent_lents ce' = []"
    using copy_inv [where fails = fails, OF inv C] by (elim exE conjE) (rule that)
  have "handed_out now cp"
    using cp(4) copied_fresh [OF _ cache_invD(5) [OF inv C] f] by (auto simp: handed_out_def split: option.splits)
  then show ?thesis using cp(1-3) by blast
qed

text \<open>The second part, with exclusive access.\<close>

definition lookup_rw :: "(nat \<Rightarrow> bool) \<Rightarrow> int \<Rightarrow> byte list \<Rightarrow> bool \<Rightarrow> dcache \<Rightarrow> (((nat \<times> dns_cent) option \<times> nat) \<times> dcache) option" where
  "lookup_rw fails now name wild c = do {
     (r, w) \<leftarrow> find_wild c name wild;
     case r of
       None \<Rightarrow> Some ((None, w), c)
     | Some a \<Rightarrow> do {
         (purge, c) \<leftarrow> purge_cent now a True False c;
         if purge < 0 then Some ((None, w), c)
         else do {
           ce \<leftarrow> dc_cents c a;
           (cp, c) \<leftarrow> copy_cent fails ce c;
           Some ((cp, w), c)
         }
       }
   }"

lemma lookup_rw_ok:
  assumes c: "cache_ok k c" and ks: "name_ok ks"
  shows "\<exists>cp w c'. lookup_rw fails now (enc_name ks) wild c = Some ((cp, w), c') \<and> cache_ok (k + copy_blocks cp) c' \<and> handed_out now cp"
proof -
  obtain xs m where inv: "cache_inv xs m {} 0 k c" using c by (auto simp: cache_ok_def)
  obtain r w where f: "find_wild c (enc_name ks) wild = Some (r, w)" using find_wild_ok [OF inv ks] by (metis surj_pair)
  show ?thesis
  proof (cases r)
    case None
    then show ?thesis using f c unfolding lookup_rw_def by (intro exI [of _ None] exI [of _ w] exI [of _ c]) (simp add: handed_out_def copy_blocks_def)
  next
    case (Some a)
    obtain ce where C: "dc_cents c a = Some ce" using find_wild_found [OF inv f [unfolded Some] ks] by blast
    obtain r c1 xs1 m1 where P: "purge_cent now a True False c = Some (r, c1)" "cache_inv xs1 m1 {} 0 k c1"
      "if r < 0 then True \<and> dc_cents c1 = (dc_cents c)(a := None) \<and> all_expired now ce
       else m1 = m \<and> purged_to now a c c1 \<and> (True \<longrightarrow> \<not> all_expired now ce)"
      using purge_cent_ok [where now = now and delete = True, OF inv C] by (elim exE conjE) (rule that)
    show ?thesis
    proof (cases "r < 0")
      case True
      then show ?thesis using f P(1,2) Some unfolding lookup_rw_def
        by (intro exI [of _ None] exI [of _ w] exI [of _ c1]) (auto simp: handed_out_def copy_blocks_def cache_ok_def)
    next
      case False
      then obtain ce' where C': "dc_cents c1 a = Some ce'" "refreshed now ce ce'" "\<not> all_expired now ce"
        using P(3) C by (auto simp: purged_to_def)
      obtain cp c' where cp: "copy_cent fails ce' c1 = Some (cp, c')" "cache_inv xs1 m1 {} 0 (k + copy_blocks cp) c'" "handed_out now cp"
        using lookup_copy [OF P(2) C'(1) refreshed_fresh [OF C'(2,3)]] by blast
      then show ?thesis using f P(1) False Some C'(1) unfolding lookup_rw_def
        by (intro exI [of _ cp] exI [of _ w] exI [of _ c']) (auto simp: cache_ok_def)
    qed
  qed
qed

text \<open>The first part copies an entry that has nothing to go, and leaves everything else as it is.\<close>

definition lookup_ro :: "(nat \<Rightarrow> bool) \<Rightarrow> int \<Rightarrow> byte list \<Rightarrow> bool \<Rightarrow> dcache \<Rightarrow> (((nat \<times> dns_cent) option \<times> nat) option \<times> dcache) option" where
  "lookup_ro fails now name wild c = do {
     (r, w) \<leftarrow> find_wild c name wild;
     case r of
       None \<Rightarrow> Some (Some (None, w), c)
     | Some a \<Rightarrow> do {
         (purge, c) \<leftarrow> purge_cent now a True True c;
         if purge = 0 then do {
           ce \<leftarrow> dc_cents c a;
           (cp, c) \<leftarrow> copy_cent fails ce c;
           Some (Some (cp, w), c)
         } else Some (None, c)
       }
   }"

lemma lookup_split: "lookup_cache fails others now name wild c =
    do { (r, c) \<leftarrow> lookup_ro fails now name wild c; case r of None \<Rightarrow> lookup_rw fails now name wild (others c) | Some x \<Rightarrow> Some (x, c) }"
  unfolding lookup_cache_def lookup_ro_def lookup_rw_def Let_def
  by (auto intro!: Option.bind_cong [OF refl] simp: bind_assoc split: option.split prod.split)

lemma lookup_ro_ok:
  assumes inv: "cache_inv xs m {} 0 k c" and ks: "name_ok ks"
  shows "\<exists>r c'. lookup_ro fails now (enc_name ks) wild c = Some (r, c') \<and> dc_cents c' = dc_cents c \<and>
    (case r of None \<Rightarrow> c' = c | Some (cp, w) \<Rightarrow> cache_inv xs m {} 0 (k + copy_blocks cp) c' \<and> handed_out now cp)"
proof -
  obtain r w where f: "find_wild c (enc_name ks) wild = Some (r, w)" using find_wild_ok [OF inv ks] by (metis surj_pair)
  show ?thesis
  proof (cases r)
    case None
    then show ?thesis using f inv unfolding lookup_ro_def
      by (intro exI [of _ "Some (None, w)"] exI [of _ c]) (simp add: handed_out_def copy_blocks_def)
  next
    case (Some a)
    obtain ce where C: "dc_cents c a = Some ce" using find_wild_found [OF inv f [unfolded Some] ks] by blast
    obtain r where P: "purge_cent now a True True c = Some (r, c)"
      "r = 0 \<longrightarrow> (\<forall>j. unexpired now (slot (sets0 ce) j) = slot (sets0 ce) j) \<and> (True \<longrightarrow> \<not> all_expired now ce)"
      using purge_cent_test [where now = now and delete = True, OF inv C] by (elim exE conjE) (rule that)
    show ?thesis
    proof (cases "r = 0")
      case True
      then have "cent_fresh now ce" using tested_fresh P(2) by simp
      then obtain cp c' where cp: "copy_cent fails ce c = Some (cp, c')" "cache_inv xs m {} 0 (k + copy_blocks cp) c'" "dc_cents c' = dc_cents c"
        "handed_out now cp" using lookup_copy [OF inv C] by blast
      then show ?thesis using f P(1) True Some C unfolding lookup_ro_def
        by (intro exI [of _ "Some (cp, w)"] exI [of _ c']) simp
    next
      case False
      then show ?thesis using f P(1) Some unfolding lookup_ro_def by simp
    qed
  qed
qed

lemma lookup_cache_ok:
  assumes c: "cache_ok k c" and ks: "name_ok ks" and o: "others_ok others"
  shows "\<exists>cp w c'. lookup_cache fails others now (enc_name ks) wild c = Some ((cp, w), c') \<and> consistent c' \<and> handed_out now cp \<and>
    (others = (\<lambda>c. c) \<longrightarrow> cache_ok (k + copy_blocks cp) c')"
proof -
  obtain xs m where inv: "cache_inv xs m {} 0 k c" using c by (auto simp: cache_ok_def)
  obtain r c1 where R: "lookup_ro fails now (enc_name ks) wild c = Some (r, c1)"
    "case r of None \<Rightarrow> c1 = c | Some (cp, w) \<Rightarrow> cache_inv xs m {} 0 (k + copy_blocks cp) c1 \<and> handed_out now cp"
    using lookup_ro_ok [where fails = fails and now = now and wild = wild, OF inv ks] by (elim exE conjE) (rule that)
  show ?thesis
  proof (cases r)
    case None
    have "consistent (others c)" using o c by (auto simp: others_ok_def consistent_def)
    then obtain k1 where k1: "cache_ok k1 (others c)" by (auto simp: consistent_def)
    define k2 where "k2 = (if others = (\<lambda>c. c) then k else k1)"
    have k2: "cache_ok k2 (others c)" "others = (\<lambda>c. c) \<longrightarrow> k2 = k" using c k1 by (auto simp: k2_def)
    obtain cp w c' where W: "lookup_rw fails now (enc_name ks) wild (others c) = Some ((cp, w), c')" "cache_ok (k2 + copy_blocks cp) c'" "handed_out now cp"
      using lookup_rw_ok [where fails = fails and now = now and wild = wild, OF k2(1) ks] by (elim exE conjE) (rule that)
    have "lookup_cache fails others now (enc_name ks) wild c = Some ((cp, w), c')" unfolding lookup_split using R None W(1) by simp
    then show ?thesis using W(2,3) k2(2) by (intro exI [of _ cp] exI [of _ w] exI [of _ c']) (auto simp: consistent_def)
  next
    case (Some p)
    obtain cp w where p: "p = (cp, w)" by (cases p)
    have "lookup_cache fails others now (enc_name ks) wild c = Some ((cp, w), c1)" unfolding lookup_split using R(1) Some p by simp
    then show ?thesis using R(2) Some p by (intro exI [of _ cp] exI [of _ w] exI [of _ c1]) (auto simp: consistent_def cache_ok_def)
  qed
qed

subsection \<open>Changing an entry found by its name\<close>

lemma found_by_name:
  assumes c: "cache_ok k c" and ks: "list_all lab_len ks"
  shows "\<exists>xs m r loc. cache_inv xs m {} 0 k c \<and> cache_find c (enc_name ks) = Some (r, loc) \<and> r = m (map lower ks) \<and>
    (\<forall>a. r = Some a \<longrightarrow> (\<exists>ce. dc_cents c a = Some ce \<and> cent_ok ce))"
proof -
  obtain xs m where inv: "cache_inv xs m {} 0 k c" using c by (auto simp: cache_ok_def)
  obtain loc where "cache_find c (enc_name ks) = Some (m (map lower ks), loc)" using cache_find_total [OF inv ks, of "[]"] by auto
  then show ?thesis using inv found_cent [OF inv] by blast
qed

lemma del_cache_ok:
  assumes c: "cache_ok k c" and ks: "list_all lab_len ks"
  shows "\<exists>c' loc. del_cache (enc_name ks) c = Some c' \<and> cache_ok k c' \<and> cache_find c' (enc_name ks) = Some (None, loc)"
proof -
  obtain xs m where inv: "cache_inv xs m {} 0 k c" using c by (auto simp: cache_ok_def)
  note I = cache_invD [OF inv]
  let ?m = "m(map lower ks := None)"
  obtain t where t: "del_dns_hash (dc_table c) (cent_name c) (enc_name ks) = Some (t, m (map lower ks))" "hash_rep (cent_name c) t ?m"
    using hash_rep_del [OF I(2) ks, of "[]"] by auto
  note td = del_dns_hash_dom [OF t(1)]
  have gone: "\<exists>loc. cache_find c' (enc_name ks) = Some (None, loc)" if "cache_inv xs' ?m {} 0 k c'" for c' xs'
    using cache_find_total [OF that ks, of "[]"] by auto
  show ?thesis
  proof (cases "m (map lower ks)")
    case None
    then have m: "?m = m" by (simp add: fun_upd_idem)
    note U = unhash_inv [OF inv t(2) _ td, of "[]", unfolded m, simplified]
    have "cache_inv xs ?m {} 0 k (c\<lparr>dc_table := t\<rparr>)" unfolding m by (rule counters_inv [OF U(1)]) (use U(2) in simp_all)
    moreover have "del_cache (enc_name ks) c = Some (c\<lparr>dc_table := t\<rparr>)" using t(1) None by (simp add: del_cache_def)
    ultimately show ?thesis using gone unfolding cache_ok_def by blast
  next
    case (Some a)
    obtain ce where C: "dc_cents c a = Some ce" using found_cent [OF inv Some] by blast
    obtain c' where D: "del_cent a (cache_free (c\<lparr>dc_table := t\<rparr>)) = Some c'" "cache_inv (filter (\<lambda>x. x \<notin> set (cent_lents ce)) xs) ?m {} 0 k c'"
      using del_entry_inv [OF inv Some C t(2) td] by blast
    have "del_cache (enc_name ks) c = Some c'" using t(1) Some D(1) by (simp add: del_cache_def)
    then show ?thesis using D(2) gone [OF D(2)] unfolding cache_ok_def by blast
  qed
qed

text \<open>Flags may be set, but not that of negative entries.\<close>

lemma set_cent_flags_ok:
  assumes c: "cache_ok k c" and ks: "list_all lab_len ks" and f: "flags AND DF_NEGATIVE = 0"
  shows "\<exists>b c'. set_cent_flags (enc_name ks) flags c = Some (b, c') \<and> cache_ok k c' \<and> list_len c' = list_len c"
proof -
  obtain xs m r loc where F: "cache_inv xs m {} 0 k c" "cache_find c (enc_name ks) = Some (r, loc)"
    "\<forall>a. r = Some a \<longrightarrow> (\<exists>ce. dc_cents c a = Some ce \<and> cent_ok ce)" using found_by_name [OF c ks] by blast
  show ?thesis
  proof (cases r)
    case None
    then show ?thesis using F(2) c by (auto simp: set_cent_flags_def)
  next
    case (Some a)
    obtain ce where C: "dc_cents c a = Some ce" using F(3) Some by blast
    let ?ce = "ce\<lparr>ce_flags := ce_flags ce OR flags\<rparr>"
    have n: "is_neg ?ce = is_neg ce" using f by (simp add: is_neg_def has_flag_def bit.conj_disj_distrib2)
    have i: "cache_inv xs m {} 0 k (cent_store a ?ce c)" by (rule head_inv [OF F(1) C _ _ _ _ n]) simp_all
    then show ?thesis using F(2) C Some list_len_eq [OF i] list_len_eq [OF F(1)] by (auto simp: set_cent_flags_def cache_ok_def)
  qed
qed

lemma inv_held: "cache_inv xs m P 0 k c \<Longrightarrow> dc_cents c a = Some ce \<Longrightarrow> held a xs m P k ce (sub_cache_size (ce_cs ce) c)"
  using sub_cache_size_inv [of xs m P 0 k c "ce_cs ce"] cent_store_same [of "sub_cache_size (ce_cs ce) c" a ce] by (simp add: held_def)

lemma held_inv:
  assumes "held a xs m P k ce' (sub_cache_size n c)" "ce_cs ce' = n"
  shows "cache_inv xs m P 0 k (cent_store a ce' c)"
  by (rule counters_inv [OF assms(1) [unfolded held_def]]) (use assms(2) in \<open>simp_all add: cent_store_def sub_cache_size_def\<close>)

lemma invalidate_sets_ok:
  assumes "held a xs m P k ce c" "\<not> is_neg ce" "i + n = length (sets0 ce)"
  shows "\<exists>ce'. invalidate_sets i n ce = Some ce' \<and> held a xs m P k ce' c \<and> \<not> is_neg ce' \<and> same_head ce ce' \<and> ce_cs ce' = ce_cs ce \<and> ce_flags ce' = ce_flags ce \<and>
    (\<forall>j. slot (sets0 ce') j = (if i \<le> j then map_option invalidate_set (slot (sets0 ce) j) else slot (sets0 ce) j))"
  using assms
proof (induction n arbitrary: i ce)
  case 0
  have "slot (sets0 ce) j = None" if "i \<le> j" for j using 0(3) that by (simp add: slot_def)
  then show ?case using 0 by simp
next
  case (Suc n)
  have x: "RRARR_INDEX ce i = Some (slot (sets0 ce) i)" using index_sets0 [OF held_ok(1) [OF Suc.prems(1)] Suc.prems(2), of i] Suc.prems(3) by simp
  have "\<exists>ce1. (case slot (sets0 ce) i of None \<Rightarrow> Some ce | Some rs \<Rightarrow> rrarr_put ce i (Some (invalidate_set rs))) = Some ce1 \<and> held a xs m P k ce1 c \<and>
      \<not> is_neg ce1 \<and> same_head ce ce1 \<and> ce_cs ce1 = ce_cs ce \<and> ce_flags ce1 = ce_flags ce \<and> sets0 ce1 = (sets0 ce)[i := map_option invalidate_set (slot (sets0 ce) i)]"
  proof (cases "slot (sets0 ce) i")
    case None
    then have "sets0 ce ! i = None" using Suc.prems(3) by (simp add: slot_def)
    then have "(sets0 ce)[i := None] = sets0 ce" using list_update_id [of "sets0 ce" i] by simp
    then show ?thesis using Suc.prems None by simp
  next
    case (Some rs)
    then show ?thesis using held_put [OF Suc.prems(1,2) Some, of "invalidate_set rs"] by (auto simp: invalidate_set_def)
  qed
  then obtain ce1 where ce1: "(case slot (sets0 ce) i of None \<Rightarrow> Some ce | Some rs \<Rightarrow> rrarr_put ce i (Some (invalidate_set rs))) = Some ce1"
    "held a xs m P k ce1 c" "\<not> is_neg ce1" "same_head ce ce1" "ce_cs ce1 = ce_cs ce" "ce_flags ce1 = ce_flags ce" "sets0 ce1 = (sets0 ce)[i := map_option invalidate_set (slot (sets0 ce) i)]" by blast
  have "Suc i + n = length (sets0 ce1)" using Suc.prems(3) ce1(7) by simp
  from Suc.IH [OF ce1(2,3) this] obtain ce' where R: "invalidate_sets (Suc i) n ce1 = Some ce'" "held a xs m P k ce' c" "\<not> is_neg ce'"
    "same_head ce1 ce'" "ce_cs ce' = ce_cs ce1" "ce_flags ce' = ce_flags ce1"
    "\<forall>j. slot (sets0 ce') j = (if Suc i \<le> j then map_option invalidate_set (slot (sets0 ce1) j) else slot (sets0 ce1) j)" by blast
  have s1: "slot (sets0 ce1) j = (if j = i then map_option invalidate_set (slot (sets0 ce) i) else slot (sets0 ce) j)" for j
    unfolding ce1(7) using Suc.prems(3) by (intro slot_update) simp
  have "slot (sets0 ce') j = (if i \<le> j then map_option invalidate_set (slot (sets0 ce) j) else slot (sets0 ce) j)" for j
    using R(7) s1 by (cases j i rule: linorder_cases) simp_all
  moreover have "same_head ce ce'" using ce1(4) R(4) by (simp add: same_head_def)
  ultimately show ?case using x ce1(1,5,6) R(1-3,5,6) by (intro exI [of _ ce']) simp
qed

text \<open>An entry after \<open>invalidate_record\<close>.\<close>

definition invalidated :: "dns_cent \<Rightarrow> dns_cent \<Rightarrow> bool" where
  "invalidated ce ce' \<longleftrightarrow> ce_qname ce' = ce_qname ce \<and> is_neg ce' = is_neg ce \<and> ce_flags ce' = clear_flag (ce_flags ce) DF_AUTH \<and>
     (\<forall>j. slot (sets0 ce') j = map_option invalidate_set (slot (sets0 ce) j)) \<and>
     (is_neg ce \<longrightarrow> neg_ttl (ce_data ce') = neg_ttl (ce_data ce) \<and> neg_ts (ce_data ce') = 0)"

lemma invalidate_record_ok:
  assumes c: "cache_ok k c" and ks: "list_all lab_len ks"
  shows "\<exists>r loc c'. cache_find c (enc_name ks) = Some (r, loc) \<and> invalidate_record (enc_name ks) c = Some c' \<and> cache_ok k c' \<and>
    list_len c' = list_len c \<and> dc_cache_size c' = dc_cache_size c \<and>
    (case r of None \<Rightarrow> c' = c | Some a \<Rightarrow> \<exists>ce ce'. dc_cents c a = Some ce \<and> dc_cents c' = (dc_cents c)(a \<mapsto> ce') \<and> invalidated ce ce')"
proof -
  obtain xs m r loc where F: "cache_inv xs m {} 0 k c" "cache_find c (enc_name ks) = Some (r, loc)"
    "\<forall>a. r = Some a \<longrightarrow> (\<exists>ce. dc_cents c a = Some ce \<and> cent_ok ce)" using found_by_name [OF c ks] by blast
  show ?thesis
  proof (cases r)
    case None
    then show ?thesis using F(2) c by (simp add: invalidate_record_def)
  next
    case (Some a)
    obtain ce where C: "dc_cents c a = Some ce" "cent_ok ce" using F(3) Some by blast
    note h = inv_held [OF F(1) C(1)]
    let ?c = "sub_cache_size (ce_cs ce) c"
    have "\<exists>ce1. (if \<not> is_neg ce then do { ilim \<leftarrow> RRARR_LEN ce; invalidate_sets 0 ilim ce }
            else case ce_data ce of Neg l ttl _ \<Rightarrow> Some (ce\<lparr>ce_data := Neg l ttl 0\<rparr>) | Rr _ _ \<Rightarrow> None) = Some ce1 \<and>
        held a xs m {} k ce1 ?c \<and> ce_cs ce1 = ce_cs ce \<and> ce_flags ce1 = ce_flags ce \<and> ce_qname ce1 = ce_qname ce \<and>
        (\<forall>j. slot (sets0 ce1) j = map_option invalidate_set (slot (sets0 ce) j)) \<and>
        (is_neg ce \<longrightarrow> neg_ttl (ce_data ce1) = neg_ttl (ce_data ce) \<and> neg_ts (ce_data ce1) = 0)"
    proof (cases "is_neg ce")
      case False
      have "RRARR_LEN ce = Some (length (sets0 ce))" using held_len [OF h] False by simp
      moreover obtain ce1 where "invalidate_sets 0 (length (sets0 ce)) ce = Some ce1" "held a xs m {} k ce1 ?c" "same_head ce ce1" "ce_cs ce1 = ce_cs ce"
        "ce_flags ce1 = ce_flags ce" "\<forall>j. slot (sets0 ce1) j = map_option invalidate_set (slot (sets0 ce) j)"
        using invalidate_sets_ok [OF h False, of 0 "length (sets0 ce)"] by auto
      ultimately show ?thesis using False by (simp add: same_head_def)
    next
      case True
      obtain l ttl ts where d: "ce_data ce = Neg l ttl ts" using cent_ok_neg [OF C(2) True] by (auto simp: neg_ok_def)
      let ?ce = "ce\<lparr>ce_data := Neg l ttl 0\<rparr>"
      have n: "is_neg ?ce" using True by (simp add: is_neg_def)
      have "held a xs m {} k ?ce ?c"
      proof (rule held_same [OF h frame_refl refl])
        show "cent_ok ?ce" using C(2) cent_ok_neg [OF C(2) True] n by (simp add: cent_ok_def neg_ok_def named_def base_size_def)
        show "link_at ?ce a le e = link_at ce a le e" for le e unfolding link_neg [OF n] link_neg [OF True] using d by simp
        show "dc_live ?c = dc_live ?c + (cent_blocks ?ce - cent_blocks ce)" using d by (simp add: cent_blocks_def)
      qed simp
      then show ?thesis using True n d by (simp add: slot_sets0)
    qed
    then obtain ce1 where R: "(if \<not> is_neg ce then do { ilim \<leftarrow> RRARR_LEN ce; invalidate_sets 0 ilim ce }
            else case ce_data ce of Neg l ttl _ \<Rightarrow> Some (ce\<lparr>ce_data := Neg l ttl 0\<rparr>) | Rr _ _ \<Rightarrow> None) = Some ce1"
        "held a xs m {} k ce1 ?c" "ce_cs ce1 = ce_cs ce" "ce_flags ce1 = ce_flags ce" "ce_qname ce1 = ce_qname ce"
        "\<forall>j. slot (sets0 ce1) j = map_option invalidate_set (slot (sets0 ce) j)"
        "is_neg ce \<longrightarrow> neg_ttl (ce_data ce1) = neg_ttl (ce_data ce) \<and> neg_ts (ce_data ce1) = 0" by blast
    let ?ce = "ce1\<lparr>ce_flags := clear_flag (ce_flags ce1) DF_AUTH\<rparr>"
    have n: "is_neg ?ce = is_neg ce" "is_neg ce1 = is_neg ce" using R(4) by (simp_all add: is_neg_def)
    have h2: "held a xs m {} k ?ce ?c" by (rule held_head [OF R(2)]) (use n in simp_all)
    have i: "cache_inv xs m {} 0 k (cent_store a ?ce c)" by (rule held_inv [OF h2]) (simp add: R(3))
    have "sets0 ?ce = sets0 ce1" using n unfolding sets0_def cent_sets_def by simp
    then have "invalidated ce ?ce" using n R(4-7) by (simp add: invalidated_def)
    moreover have "invalidate_record (enc_name ks) c = Some (cent_store a ?ce c)"
      using F(2) Some C(1) R(1) by (simp add: invalidate_record_def)
    moreover have "list_len (cent_store a ?ce c) = list_len c" using list_len_eq [OF i] list_len_eq [OF F(1)] by simp
    ultimately show ?thesis using F(2) Some C(1) i unfolding cache_ok_def
      by (intro exI [of _ r] exI [of _ loc] exI [of _ "cent_store a ?ce c"]) (auto simp: cent_store_def)
  qed
qed

end
