(* ===== verification/CacheMergeSpec.thy ===== *)
theory CacheMergeSpec
  imports CacheLookup
begin

text \<open>
  What merging an answer into an entry does, as a function on the contents of the sets by type: which of two sets of a
  type is kept, which sets of other types must go, and the times to live.
\<close>

subsection \<open>The reference\<close>

type_synonym entry_sets = "nat \<Rightarrow> set_contents option"

definition conflict_at :: "nat \<Rightarrow> nat \<Rightarrow> set_contents option \<Rightarrow> bool" where
  "conflict_at idx j s \<longleftrightarrow> (case s of None \<Rightarrow> False | Some (_, _, fl, _) \<Rightarrow> \<not> has_flag fl CF_NEGATIVE \<and> rr_conflict idx j)"

definition conflicts :: "entry_sets \<Rightarrow> nat \<Rightarrow> nat list" where
  "conflicts S idx = filter (\<lambda>j. conflict_at idx j (S j)) [0..<NRRTOT]"

definition local_at :: "set_contents option \<Rightarrow> bool" where
  "local_at s \<longleftrightarrow> (case s of None \<Rightarrow> False | Some (_, _, fl, _) \<Rightarrow> has_flag fl CF_LOCAL)"

definition time_left :: "int \<Rightarrow> set_contents option \<Rightarrow> int" where
  "time_left now s = (case s of None \<Rightarrow> 0 | Some (ttl, ts, _, _) \<Rightarrow> max 0 (ttl + ts - now))"

definition without :: "entry_sets \<Rightarrow> nat list \<Rightarrow> entry_sets" where
  "without S I = (\<lambda>j. if j \<in> set I then None else S j)"

text \<open>The sets that are left when the new one is admitted; \<open>loc\<close>: the entry is local.\<close>

definition admit :: "int \<Rightarrow> bool \<Rightarrow> entry_sets \<Rightarrow> nat \<Rightarrow> set_contents \<Rightarrow> entry_sets option" where
  "admit now loc S idx new = (case new of (ttl, ts, fl, _) \<Rightarrow>
     let I = conflicts S idx in
     if has_flag fl CF_NEGATIVE then Some S
     else if has_flag fl CF_LOCAL then Some (without S I)
     else if loc \<or> (\<exists>j \<in> set I. local_at (S j)) then None
     else if I = [] then Some S
     else if ttl > sum_list (map (\<lambda>j. time_left now (S j)) I) div int (length I) then Some (without S I)
     else None)"

text \<open>Whether the old set of the type is kept.\<close>

definition older_wins :: "int \<Rightarrow> set_contents \<Rightarrow> set_contents option \<Rightarrow> bool" where
  "older_wins now new old \<longleftrightarrow> (case old of None \<Rightarrow> False | Some (ttl, ts, fo, _) \<Rightarrow> (case new of (_, _, fn, _) \<Rightarrow>
     has_flag fo CF_LOCAL \<and> \<not> has_flag fn CF_LOCAL \<or>
     has_flag fn CF_ADDITIONAL \<and> now \<le> ts + CLAT_ADJ ttl \<and>
       (has_flag fo CF_ADDITIONAL \<longrightarrow> has_flag fo CF_ROOTSERV \<and> \<not> has_flag fn CF_ROOTSERV)))"

definition in_range :: "cache_conf \<Rightarrow> set_contents \<Rightarrow> set_contents" where
  "in_range cf new = (case new of (ttl, ts, fl, rrs) \<Rightarrow>
     if has_flag fl CF_NOCACHE then (0, ts, clear_flag fl CF_NOCACHE, rrs)
     else let lo = (if has_flag fl CF_NEGATIVE then min (conf_neg_ttl cf) (min_ttl cf) else min_ttl cf)
       in (if ttl < lo then lo else min ttl (max_ttl cf), ts, fl, rrs))"

definition merge_one :: "cache_conf \<Rightarrow> int \<Rightarrow> bool \<Rightarrow> entry_sets \<Rightarrow> nat \<Rightarrow> entry_sets \<Rightarrow> entry_sets" where
  "merge_one cf now loc N i S = (case N i of
     None \<Rightarrow> S
   | Some new \<Rightarrow>
       if older_wins now new (S i) then S
       else (case admit now loc (S(i := None)) i new of
           None \<Rightarrow> S(i := None)
         | Some S' \<Rightarrow> S'(i \<mapsto> in_range cf new)))"

definition merge_spec :: "cache_conf \<Rightarrow> int \<Rightarrow> bool \<Rightarrow> entry_sets \<Rightarrow> entry_sets \<Rightarrow> entry_sets" where
  "merge_spec cf now loc N S = fold (merge_one cf now loc N) [0..<NRRTOT] S"

subsection \<open>Conflicts\<close>

lemma set_conflicts_at: "set_conflicts idx j (slot (sets0 ce) j) = conflict_at idx j (cent_contents ce j)"
  by (auto simp: set_conflicts_def conflict_at_def cent_contents_def contents_def split: option.split)

lemma local_at_slot: "local_at (map_option contents s) \<longleftrightarrow> (\<exists>rs. s = Some rs \<and> local_set rs)"
  by (auto simp: local_at_def local_set_def contents_def split: option.split)

lemma in_range_adjust: "contents (adjust_ttl cf rs) = in_range cf (contents rs)"
  by (auto simp: in_range_def adjust_ttl_def contents_def clamp_ttl_def Let_def min_def)

lemma keeps_older: "keeps_old now new s = older_wins now (contents new) (map_option contents s)"
  by (auto simp: keeps_old_def older_wins_def contents_def timedout_def split: option.split)

lemma cr_scan_exact:
  assumes h: "held a xs m P k ce c" "\<not> is_neg ce"
  shows "i + n \<le> length (sets0 ce) \<Longrightarrow> cr_scan now idx ce i n (ncf, nttl) = Some (ok, ncf', nttl') \<Longrightarrow>
    I = filter (\<lambda>j. conflict_at idx j (cent_contents ce j)) [i..<i + n] \<Longrightarrow>
    (ok \<longleftrightarrow> \<not> (\<exists>j \<in> set I. local_at (cent_contents ce j))) \<and>
    (ok \<longrightarrow> ncf' = ncf + int (length I) \<and> nttl' = nttl + sum_list (map (\<lambda>j. time_left now (cent_contents ce j)) I))"
proof (induction n arbitrary: i ncf nttl I)
  case (Suc n)
  have x: "RRARR_INDEX ce i = Some (slot (sets0 ce) i)" using held_index(1) [OF h] Suc.prems(1) by simp
  have u: "[i..<i + Suc n] = i # [Suc i..<Suc i + n]" by (simp add: upt_conv_Cons)
  let ?I = "filter (\<lambda>j. conflict_at idx j (cent_contents ce j)) [Suc i..<Suc i + n]"
  have l: "Suc i + n \<le> length (sets0 ce)" using Suc.prems(1) by simp
  note IH = Suc.IH [OF l _ refl]
  have I: "I = (if conflict_at idx i (cent_contents ce i) then i # ?I else ?I)" unfolding Suc.prems(3) u by simp
  show ?case
  proof (cases "set_conflicts idx i (slot (sets0 ce) i)")
    case False
    then have "cr_scan now idx ce (Suc i) n (ncf, nttl) = Some (ok, ncf', nttl')" using Suc.prems(2) x by (simp split: option.splits)
    then show ?thesis using IH [of ncf nttl] False I by (simp add: set_conflicts_at)
  next
    case True
    then obtain rs where rs: "slot (sets0 ce) i = Some rs" by (auto simp: set_conflicts_def split: option.splits)
    have c: "conflict_at idx i (cent_contents ce i)" "cent_contents ce i = Some (contents rs)" using True set_conflicts_at [of idx i ce] rs by (simp_all add: cent_contents_def)
    show ?thesis
    proof (cases "has_flag (rs_flags rs) CF_LOCAL")
      case lc: True
      then have "\<not> ok" using Suc.prems(2) x True rs by simp
      moreover have "local_at (cent_contents ce i)" using lc c(2) by (simp add: local_at_def contents_def)
      ultimately show ?thesis using I c(1) by auto
    next
      case nl: False
      let ?t = "time_left now (cent_contents ce i)"
      have "cr_scan now idx ce (Suc i) n (ncf + 1, nttl + ?t) = Some (ok, ncf', nttl')"
        using Suc.prems(2) x True rs nl c(2) by (auto simp: time_left_def contents_def Let_def max_def split: if_splits)
      moreover have "\<not> local_at (cent_contents ce i)" using nl c(2) by (simp add: local_at_def contents_def)
      ultimately show ?thesis using IH [of "ncf + 1" "nttl + ?t"] I c(1) by auto
    qed
  qed
qed simp

lemma cr_delete_exact:
  assumes "held a xs m P k ce c" "\<not> is_neg ce" "i + n \<le> length (sets0 ce)" "cr_delete idx i n ce c = Some (ce', c')"
  shows "slot (sets0 ce') j = (if i \<le> j \<and> j < i + n \<and> set_conflicts idx j (slot (sets0 ce) j) then None else slot (sets0 ce) j)"
  using assms
proof (induction n arbitrary: i ce c xs)
  case (Suc n)
  have x: "RRARR_INDEX ce i = Some (slot (sets0 ce) i)" "i < NRRTOT" using held_index [OF Suc.prems(1,2)] Suc.prems(3) by simp_all
  show ?case
  proof (cases "set_conflicts idx i (slot (sets0 ce) i)")
    case True
    obtain rv ce1 c1 xs1 where d: "del_cent_rrset_by_index ce i c = Some ((rv, ce1), c1)" "held a xs1 m P k ce1 c1" "length xs1 \<le> length xs"
      "same_head ce ce1" "is_neg ce1 = is_neg ce" "sets0 ce1 = (sets0 ce)[i := None]" "frame c c1"
      "is_neg ce \<longrightarrow> ce_data ce1 = ce_data ce" using held_del [OF Suc.prems(1) x(2)] by (elim exE conjE) (rule that)
    have n: "\<not> is_neg ce1" "Suc i + n \<le> length (sets0 ce1)" using d(5,6) Suc.prems(2,3) by simp_all
    have "cr_delete idx (Suc i) n ce1 c1 = Some (ce', c')" using Suc.prems(4) x(1) True d(1) by simp
    from Suc.IH [OF d(2) n this] show ?thesis using True unfolding d(6) slot_update_None
      by (cases j i rule: linorder_cases) simp_all
  next
    case False
    have l: "Suc i + n \<le> length (sets0 ce)" using Suc.prems(3) by simp
    have "cr_delete idx (Suc i) n ce c = Some (ce', c')" using Suc.prems(4) x(1) False by simp
    from Suc.IH [OF Suc.prems(1,2) l this] show ?thesis using False by (cases j i rule: linorder_cases) simp_all
  qed
qed auto

lemma conflicts_slots:
  assumes "cent_ok ce" "\<not> is_neg ce"
  shows "conflicts (cent_contents ce) idx = filter (\<lambda>j. conflict_at idx j (cent_contents ce j)) [0..<length (sets0 ce)]"
proof -
  have l: "length (sets0 ce) \<le> NRRTOT" using sets0_length [OF assms(1)] less_imp_le [OF nrr_simps(1)] by auto
  then have u: "[0..<NRRTOT] = [0..<length (sets0 ce)] @ [length (sets0 ce)..<NRRTOT]" by (metis le_add_diff_inverse plus_nat.add_0 upt_add_eq_append zero_le)
  have "filter (\<lambda>j. conflict_at idx j (cent_contents ce j)) [length (sets0 ce)..<NRRTOT] = []"
    by (simp add: filter_empty_conv cent_contents_def slot_def conflict_at_def)
  then show ?thesis unfolding conflicts_def u by simp
qed

text \<open>\<open>cr_check_add\<close> decides as the reference does.\<close>

lemma cr_check_add_exact:
  assumes h: "held a xs m P k ce c" and i: "idx < NRRTOT"
    and r: "cr_check_add now ce idx ttl ts flags c = Some ((ok, ce'), c')"
  shows "admit now (local_cent ce) (cent_contents ce) idx (ttl, ts, flags, rrs) = (if ok then Some (cent_contents ce') else None) \<and>
    (\<not> ok \<longrightarrow> ce' = ce)"
proof (cases "has_flag flags CF_NEGATIVE")
  case True
  then show ?thesis using r by (simp add: cr_check_add_def admit_def)
next
  case pos: False
  note L = held_len [OF h]
  have idx: "\<not> NRRTOT \<le> idx" using i by simp
  let ?n = "if is_neg ce then 0 else length (sets0 ce)" and ?I = "conflicts (cent_contents ce) idx"
  let ?sc = "if has_flag flags CF_LOCAL then Some (True, - 1, 0)
         else if has_flag (ce_flags ce) DF_LOCAL then Some (False, 0, 0)
         else cr_scan now idx ce 0 ?n (0, 0)"
  have "?sc \<noteq> None" using cr_scan_total [OF h, of 0 ?n now idx "(0, 0)"] by (cases "is_neg ce") auto
  then obtain ok1 ncf nttl where sc: "?sc = Some (ok1, ncf, nttl)" by (metis option.exhaust prod_cases3)
  have e: "Some ((ok, ce'), c') =
      (if \<not> ok1 then Some ((False, ce), c)
      else if \<not> has_flag flags CF_LOCAL \<and> ncf = 0 then Some ((True, ce), c)
      else if has_flag flags CF_LOCAL \<or> ttl > nttl div ncf then do { (ce, c) \<leftarrow> cr_delete idx 0 ?n ce c; Some ((True, ce), c) }
      else Some ((False, ce), c))"
    using r pos idx L sc by (simp add: cr_check_add_def rr_info_len)
  show ?thesis
  proof (cases "is_neg ce")
    case True
    have c: "cent_contents ce = (\<lambda>_. None)" using True by (simp add: cent_contents_def slot_sets0 fun_eq_iff)
    then have I: "?I = []" "without (cent_contents ce) ?I = cent_contents ce" by (simp_all add: conflicts_def conflict_at_def without_def)
    show ?thesis using e sc True pos I by (auto simp: admit_def local_cent_def Let_def split: if_splits)
  next
    case False
    have I: "?I = filter (\<lambda>j. conflict_at idx j (cent_contents ce j)) [0..<0 + length (sets0 ce)]"
      using conflicts_slots [OF held_ok(1) [OF h] False] by simp
    have sc': "ok1 \<longleftrightarrow> \<not> (\<exists>j \<in> set ?I. local_at (cent_contents ce j))"
      "ok1 \<longrightarrow> ncf = int (length ?I) \<and> nttl = sum_list (map (\<lambda>j. time_left now (cent_contents ce j)) ?I)"
      if "\<not> has_flag flags CF_LOCAL" "\<not> local_cent ce"
    proof -
      have "cr_scan now idx ce 0 (length (sets0 ce)) (0, 0) = Some (ok1, ncf, nttl)" using sc that False by (simp add: local_cent_def)
      from cr_scan_exact [OF h False _ this I] show "ok1 \<longleftrightarrow> \<not> (\<exists>j \<in> set ?I. local_at (cent_contents ce j))"
        "ok1 \<longrightarrow> ncf = int (length ?I) \<and> nttl = sum_list (map (\<lambda>j. time_left now (cent_contents ce j)) ?I)" by simp_all
    qed
    have del: "cent_contents ce1 = without (cent_contents ce) ?I" if d: "cr_delete idx 0 (length (sets0 ce)) ce c = Some (ce1, c1)" for ce1 c1
    proof
      fix j
      have "j < length (sets0 ce)" if "conflict_at idx j (cent_contents ce j)"
        using that by (auto simp: conflict_at_def cent_contents_def slot_def split: if_splits)
      then have "j \<in> set ?I \<longleftrightarrow> conflict_at idx j (cent_contents ce j)" unfolding I by auto
      moreover have "slot (sets0 ce1) j = (if j < length (sets0 ce) \<and> set_conflicts idx j (slot (sets0 ce) j) then None else slot (sets0 ce) j)"
        using cr_delete_exact [OF h False _ d, of j] by simp
      moreover have "j \<ge> length (sets0 ce) \<Longrightarrow> slot (sets0 ce) j = None" by (simp add: slot_def)
      ultimately show "cent_contents ce1 j = without (cent_contents ce) ?I j"
        unfolding without_def set_conflicts_at by (auto simp: cent_contents_def)
    qed
    obtain ce1 c1 where d: "cr_delete idx 0 (length (sets0 ce)) ce c = Some (ce1, c1)"
      using cr_delete_held [OF h False, of 0 "length (sets0 ce)" idx] by auto
    note dd = del [OF d]
    show ?thesis
    proof (cases "has_flag flags CF_LOCAL")
      case True
      then have "ok1" using sc by simp
      then show ?thesis using e True pos False d dd by (simp add: admit_def)
    next
      case nl: False
      show ?thesis
      proof (cases "local_cent ce")
        case True
        then have "\<not> ok1" using sc nl by (simp add: local_cent_def)
        then show ?thesis using e True pos nl by (simp add: admit_def Let_def)
      next
        case lc: False
        note S = sc' [OF nl lc]
        show ?thesis
        proof (cases ok1)
          case True
          then show ?thesis using e pos nl lc False d dd S by (auto simp: admit_def Let_def split: if_splits)
        next
          case no: False
          then show ?thesis using e pos nl lc S by (simp add: admit_def Let_def)
        qed
      qed
    qed
  qed
qed

subsection \<open>One set\<close>

lemma contents_del: "sets0 ce' = (sets0 ce)[i := None] \<Longrightarrow> cent_contents ce' = (cent_contents ce)(i := None)"
  by (auto simp: cent_contents_def slot_update_None fun_eq_iff)

lemma replace_set_exact:
  assumes h: "held a xs m P k ce c" and C: "dc_cents c a = Some ce" and i: "i < NRRTOT" and nf: "\<forall>n. \<not> fails n"
    and r: "replace_set cf fails now a i new c = Some (ok, c')" "dc_cents c' a = Some ce'"
  shows "cent_contents ce' = (case admit now (local_cent ce) ((cent_contents ce)(i := None)) i (contents new) of
      None \<Rightarrow> (cent_contents ce)(i := None)
    | Some S \<Rightarrow> S(i \<mapsto> in_range cf (contents new)))"
proof -
  obtain rv ce1 c1 xs1 where D: "del_cent_rrset_by_index ce i c = Some ((rv, ce1), c1)" "held a xs1 m P k ce1 c1" "length xs1 \<le> length xs"
    "same_head ce ce1" "is_neg ce1 = is_neg ce" "sets0 ce1 = (sets0 ce)[i := None]" "frame c c1"
    "is_neg ce \<longrightarrow> ce_data ce1 = ce_data ce" using held_del [OF h i] by (elim exE conjE) (rule that)
  obtain b ce2 c2 xs2 where R: "cr_check_add now ce1 i (rs_ttl new) (rs_ts new) (rs_flags new) c1 = Some ((b, ce2), c2)" "held a xs2 m P k ce2 c2"
    "length xs2 \<le> length xs1" "fewer_sets ce1 ce2" "frame c1 c2"
    "\<not> has_flag (rs_flags new) CF_LOCAL \<longrightarrow> (\<forall>j rs. slot (sets0 ce1) j = Some rs \<longrightarrow> local_set rs \<longrightarrow> slot (sets0 ce2) j = Some rs)"
    using cr_check_add_held [where now = now and ttl = "rs_ttl new" and ts = "rs_ts new" and flags = "rs_flags new", OF D(2) i]
    by (elim exE conjE) (rule that)
  have s1: "cent_contents ce1 = (cent_contents ce)(i := None)" by (rule contents_del [OF D(6)])
  have lc: "local_cent ce1 = local_cent ce" by (rule same_head_local [OF D(4)])
  have A: "admit now (local_cent ce) ((cent_contents ce)(i := None)) i (contents new) = (if b then Some (cent_contents ce2) else None)" "\<not> b \<longrightarrow> ce2 = ce1"
    using cr_check_add_exact [OF D(2) i R(1), of "rs_rrs new"] unfolding s1 lc by (simp_all add: contents_def)
  have s2: "slot (sets0 ce2) i = None"
    using R(4) unfolding fewer_sets_def D(6) slot_update_None by metis
  show ?thesis
  proof (cases b)
    case False
    have "replace_set cf fails now a i new c = Some (True, cent_store a ce2 c2)" using C D(1) R(1) False by (simp add: replace_set_def)
    then have "ce' = ce2" using r by simp
    then show ?thesis using A False s1 by simp
  next
    case True
    have h3: "held a xs2 m P k ce2 (cent_store a ce2 c2)" using R(2) by simp
    obtain ok1 c3 ce3 xs3 where F: "do {
       ((ok, ce), c) \<leftarrow> add_cent_rrset_by_index fails ce2 i (rs_ttl new) (rs_ts new) (rs_flags new) (cent_store a ce2 c2);
       if \<not> ok then Some (False, cent_store a ce c)
       else do {
         ((ok, ce), c) \<leftarrow> add_rrs fails ce i (rs_ttl new) (rs_ts new) (rs_flags new) (rs_rrs new) None c;
         (ok, c) \<leftarrow> (if \<not> ok then Some (False, cent_store a ce c)
            else do {
              s \<leftarrow> RRARR_INDEX ce i;
              rs \<leftarrow> s;
              ce \<leftarrow> rrarr_put ce i (Some (adjust_ttl cf rs));
              insert_rrl fails (Some i) a (cent_store a ce c)
            });
         if ok then Some (True, c)
         else do {
           ce \<leftarrow> dc_cents c a;
           ((_, ce), c) \<leftarrow> del_cent_rrset_by_index ce i c;
           Some (False, cent_store a ce c)
         }
       }
     } = Some (ok1, c3)" "dc_cents c3 a = Some ce3" "held a xs3 m P k ce3 c3" "length xs3 \<le> Suc (length xs2)" "only_at a (cent_store a ce2 c2) c3"
      "same_head ce2 ce3" "\<not> is_neg ce3" "filled cf new i ok1 ce2 ce3" "(\<forall>n. \<not> fails n) \<longrightarrow> ok1"
      using fill_set_ok [where fails = fails and cf = cf and new = new, OF h3 i s2] by (elim exE conjE) (rule that)
    have "replace_set cf fails now a i new c = Some (ok1, c3)"
      unfolding replace_set_def C bind.bind_lunit D(1) R(1) prod.case Let_def using True F(1) by (simp only: not_True_eq_False if_False simp_thms)
    then have e: "ce' = ce3" using r F(2) by simp
    have f: "\<forall>j. j \<noteq> i \<longrightarrow> slot (sets0 ce3) j = slot (sets0 ce2) j" "new_in cf new (local_cent ce2) (slot (sets0 ce3) i)"
      using F(8,9) nf by (simp_all add: filled_def)
    have "cent_contents ce3 j = ((cent_contents ce2)(i \<mapsto> in_range cf (contents new))) j" for j
      using f in_range_adjust [of cf new] by (cases "j = i") (auto simp: cent_contents_def new_in_def)
    then have "cent_contents ce3 = (cent_contents ce2)(i \<mapsto> in_range cf (contents new))" by (rule ext)
    then show ?thesis using A(1) True e by simp
  qed
qed

lemma merge_sets_exact:
  assumes "held a xs m P k ce c" "dc_cents c a = Some ce" "i + n \<le> length (sets0 cent)" "cent_ok cent" "\<not> is_neg cent" "\<forall>n. \<not> fails n"
    "merge_sets cf fails now cent a i n c = Some (ok, c')" "dc_cents c' a = Some ce'"
  shows "cent_contents ce' = fold (merge_one cf now (local_cent ce) (cent_contents cent)) [i..<i + n] (cent_contents ce)"
  using assms
proof (induction n arbitrary: i ce c xs)
  case (Suc n)
  have x: "RRARR_INDEX cent i = Some (slot (sets0 cent) i)" "i < NRRTOT" using index_sets0 [OF Suc.prems(4,5)] Suc.prems(3) by simp_all
  have y: "RRARR_INDEX_TESTEXT ce i = Some (slot (sets0 ce) i)" by (rule testext_sets0 [OF held_ok(1) [OF Suc.prems(1)] x(2)])
  have len: "Suc i + n \<le> length (sets0 cent)" using Suc.prems(3) by simp
  have u: "[i..<i + Suc n] = i # [Suc i..<Suc i + n]" by (simp add: upt_conv_Cons)
  let ?N = "cent_contents cent"
  have skip: ?case if e: "merge_sets cf fails now cent a i (Suc n) c = merge_sets cf fails now cent a (Suc i) n c"
    and m: "merge_one cf now (local_cent ce) ?N i (cent_contents ce) = cent_contents ce"
    using Suc.IH [OF Suc.prems(1,2) len Suc.prems(4-6) _ Suc.prems(8)] Suc.prems(7) e m unfolding u by simp
  show ?case
  proof (cases "slot (sets0 cent) i")
    case None
    then show ?thesis using x(1) by (intro skip) (simp_all add: merge_one_def cent_contents_def)
  next
    case (Some new)
    have N: "?N i = Some (contents new)" using Some by (simp add: cent_contents_def)
    have k: "keeps_old now new (slot (sets0 ce) i) = older_wins now (contents new) (cent_contents ce i)"
      unfolding keeps_older by (simp add: cent_contents_def)
    show ?thesis
    proof (cases "keeps_old now new (slot (sets0 ce) i)")
      case True
      then show ?thesis using x(1) y Some Suc.prems(2) k N by (intro skip) (simp_all add: merge_one_def)
    next
      case False
      obtain ok1 c1 ce1 xs1 where R: "replace_set cf fails now a i new c = Some (ok1, c1)" "dc_cents c1 a = Some ce1" "held a xs1 m P k ce1 c1"
        "length xs1 \<le> Suc (length xs)" "only_at a c c1" "same_head ce ce1" "neg_same ce ce1" "\<forall>j. replaced cf new i ce ce1 j"
        "\<not> local_set new \<and> (\<forall>rs. slot (sets0 ce) i = Some rs \<longrightarrow> \<not> local_set rs) \<longrightarrow> local_kept ce ce1" "(\<forall>n. \<not> fails n) \<longrightarrow> ok1"
        using replace_set_ok [where cf = cf and fails = fails and now = now and new = new, OF Suc.prems(1,2) x(2)] by (elim exE conjE) (rule that)
      have ok1: ok1 using R(10) Suc.prems(6) by blast
      have "merge_sets cf fails now cent a (Suc i) n c1 = Some (ok, c')"
        using x(1) y Some Suc.prems(2,7) False R(1) ok1 by simp
      from Suc.IH [OF R(3,2) len Suc.prems(4-6) this Suc.prems(8)]
      have "cent_contents ce' = fold (merge_one cf now (local_cent ce) ?N) [Suc i..<Suc i + n] (cent_contents ce1)"
        unfolding same_head_local [OF R(6)] .
      moreover have "merge_one cf now (local_cent ce) ?N i (cent_contents ce) = cent_contents ce1"
        using replace_set_exact [OF Suc.prems(1,2) x(2) Suc.prems(6) R(1,2)] False k N by (simp add: merge_one_def)
      ultimately show ?thesis unfolding u by simp
    qed
  qed
qed simp

lemma fold_merge_all:
  assumes "cent_ok cent" "\<not> is_neg cent"
  shows "fold (merge_one cf now loc (cent_contents cent)) [0..<length (sets0 cent)] S = merge_spec cf now loc (cent_contents cent) S"
proof -
  have l: "length (sets0 cent) \<le> NRRTOT" using sets0_length [OF assms(1)] less_imp_le [OF nrr_simps(1)] by auto
  then have u: "[0..<NRRTOT] = [0..<length (sets0 cent)] @ [length (sets0 cent)..<NRRTOT]" by (metis le_add_diff_inverse plus_nat.add_0 upt_add_eq_append zero_le)
  have "fold (merge_one cf now loc (cent_contents cent)) is S = S" if "\<forall>i \<in> set is. length (sets0 cent) \<le> i" for "is" S
    using that by (induction "is") (simp_all add: merge_one_def cent_contents_def slot_def)
  then show ?thesis unfolding merge_spec_def u by simp
qed

subsection \<open>The whole entry\<close>

definition drop_expired :: "int \<Rightarrow> entry_sets \<Rightarrow> entry_sets" where
  "drop_expired now S = (\<lambda>j. case S j of
     None \<Rightarrow> None
   | Some (ttl, ts, fl, rrs) \<Rightarrow>
       if \<not> has_flag fl CF_NOPURGE \<and> \<not> has_flag fl CF_LOCAL \<and> ts + CLAT_ADJ ttl < now then None else Some (ttl, ts, fl, rrs))"

lemma refreshed_contents: "refreshed now ce ce' \<Longrightarrow> cent_contents ce' = drop_expired now (cent_contents ce)"
  by (auto simp: fun_eq_iff refreshed_def cent_contents_def drop_expired_def unexpired_def purgeable_def timedout_def contents_def split: option.split)

lemma merge_cent_exact:
  assumes inv: "cache_inv xs m {} 0 k c" and C: "dc_cents c a = Some ce" and ok: "cent_ok cent" "\<not> is_neg cent"
  shows "\<exists>c' ce'. merge_cent cf (\<lambda>_. False) now cent a c = Some (True, c') \<and> dc_cents c' = (dc_cents c)(a \<mapsto> ce') \<and>
    cent_contents ce' = merge_spec cf now (local_cent ce) (cent_contents cent) (drop_expired now (cent_contents ce))"
proof -
  obtain r c1 xs1 m1 where A: "purge_cent now a False False c = Some (r, c1)" "cache_inv xs1 m1 {} 0 k c1"
    "if r < 0 then False \<and> dc_cents c1 = (dc_cents c)(a := None) \<and> all_expired now ce
     else m1 = m \<and> purged_to now a c c1 \<and> (False \<longrightarrow> \<not> all_expired now ce)"
    using purge_cent_ok [where now = now and delete = False, OF inv C] by (elim exE conjE) (rule that)
  have m1: "m1 = m" "purged_to now a c c1" using A(3) by (simp_all split: if_splits)
  then obtain ce1 where ce1: "dc_cents c1 = (dc_cents c)(a \<mapsto> ce1)" "refreshed now ce ce1" using C by (auto simp: purged_to_def)
  have C1: "dc_cents c1 a = Some ce1" using ce1(1) by simp
  let ?c = "sub_cache_size (ce_cs ce1) c1"
  have h: "held a xs1 m1 {} k ce1 ?c" by (rule inv_held [OF A(2) C1])
  have C2: "dc_cents ?c a = Some ce1" using C1 by simp
  have len: "RRARR_LEN cent = Some (length (sets0 cent))" using pos_len [of cent "sets0 cent"] cent_ok_sets0 [OF ok] by (simp add: pos_ok_def)
  have nf: "\<forall>n::nat. \<not> (\<lambda>_. False) n" by simp
  obtain b c2 ce2 xs2 where M: "merge_sets cf (\<lambda>_. False) now cent a 0 (length (sets0 cent)) ?c = Some (b, c2)" "dc_cents c2 a = Some ce2"
    "held a xs2 m1 {} k ce2 c2" "length xs2 \<le> length xs1 + length (sets0 cent)" "only_at a ?c c2" "same_head ce1 ce2" "neg_same ce1 ce2"
    "\<forall>j. merged cf cent ce1 ce2 j" "(\<forall>j new. slot (sets0 cent) j = Some new \<longrightarrow> \<not> local_set new) \<longrightarrow> local_kept ce1 ce2"
    "(\<forall>n. \<not> (\<lambda>_. False) (n :: nat)) \<longrightarrow> b"
    using merge_sets_ok [where cf = cf and fails = "\<lambda>_. False" and now = now, OF h C2 eq_imp_le [OF add_0] ok] by (elim exE conjE) (rule that)
  have b: b using M(10) by simp
  let ?ce = "ce2\<lparr>ce_flags := ce_flags ce2 OR (ce_flags cent AND (DF_AUTH OR DF_WILD)),
                 ce_c_ns := min_ref (ce_c_ns cent) (ce_c_ns ce2), ce_c_soa := min_ref (ce_c_soa cent) (ce_c_soa ce2)\<rparr>"
  let ?c' = "(cent_store a ?ce c2)\<lparr>dc_cache_size := dc_cache_size c2 + ce_cs ?ce\<rparr>"
  have "is_neg ?ce = is_neg ce2" using merge_flags by (simp add: is_neg_def)
  then have "sets0 ?ce = sets0 ce2" unfolding sets0_def cent_sets_def by simp
  then have "cent_contents ?ce = cent_contents ce2" by (simp add: cent_contents_def fun_eq_iff)
  moreover have "cent_contents ce2 = merge_spec cf now (local_cent ce1) (cent_contents cent) (cent_contents ce1)"
    using merge_sets_exact [OF h C2 eq_imp_le [OF add_0] ok nf M(1,2)] fold_merge_all [OF ok] by simp
  moreover have "local_cent ce1 = local_cent ce" using ce1(2) by (simp add: refreshed_def)
  ultimately have "cent_contents ?ce = merge_spec cf now (local_cent ce) (cent_contents cent) (drop_expired now (cent_contents ce))"
    using refreshed_contents [OF ce1(2)] by simp
  moreover have "merge_cent cf (\<lambda>_. False) now cent a c = Some (True, ?c')"
    using A(1) C1 len M(1,2) b by (simp add: merge_cent_def Let_def)
  moreover have "dc_cents ?c' = (dc_cents c)(a \<mapsto> ?ce)" using only_at_cent [OF M(5,2)] ce1(1) by simp
  ultimately show ?thesis by blast
qed

end
