(* ===== verification/CacheSpec.thy ===== *)
theory CacheSpec
  imports CacheMergeSpec
begin

text \<open>
  Exact results of operations on the cache: what \<open>lookup_cache\<close> hands out when no other thread runs between its two
  parts and no allocation fails (the contents of the entry that the search selects, without the sets due to go); the
  copy of a local set; the names that an include/exclude list selects; where the second loop of \<open>purge_cache\<close> stops;
  and what is in the cache after an answer for a new name was added.
\<close>

subsection \<open>What \<open>lookup_cache\<close> finds\<close>

definition search_spec :: "(byte list list \<Rightarrow> nat option) \<Rightarrow> (nat \<Rightarrow> dns_cent option) \<Rightarrow> byte list list \<Rightarrow> bool \<Rightarrow> nat option \<times> nat" where
  "search_spec m C ks wild = (if wild \<and> m (map lower ks) = None then wild_spec m C ks else (m (map lower ks), 0))"

text \<open>Nothing is left of the entry when the sets due to go are dropped; a negative answer goes when it is timed out and not local.\<close>

definition entry_gone :: "int \<Rightarrow> dns_cent \<Rightarrow> bool" where
  "entry_gone now ce \<longleftrightarrow> (\<forall>j. drop_expired now (cent_contents ce) j = None) \<and>
     (is_neg ce \<longrightarrow> \<not> local_cent ce \<and> neg_ts (ce_data ce) + CLAT_ADJ (neg_ttl (ce_data ce)) < now)"

lemma all_expired_gone:
  assumes "cent_ok ce"
  shows "all_expired now ce \<longleftrightarrow> entry_gone now ce"
proof -
  have "unexpired now (slot (sets0 ce) j) = None \<longleftrightarrow> drop_expired now (cent_contents ce) j = None" for j
    by (auto simp: unexpired_def drop_expired_def cent_contents_def contents_def purgeable_def timedout_def split: option.split)
  moreover have "cent_expired now ce = Some True \<longleftrightarrow> (is_neg ce \<longrightarrow> \<not> local_cent ce \<and> neg_ts (ce_data ce) + CLAT_ADJ (neg_ttl (ce_data ce)) < now)"
    using cent_ok_neg [OF assms] by (cases "is_neg ce") (auto simp: cent_expired_def timedout_nxdom_def local_cent_def neg_ok_def)
  ultimately show ?thesis by (auto simp: all_expired_def entry_gone_def)
qed

text \<open>The copy handed out for the entry that was found.\<close>

definition found_copy :: "int \<Rightarrow> dns_cent option \<Rightarrow> (nat \<times> dns_cent) option \<Rightarrow> bool" where
  "found_copy now r cp \<longleftrightarrow> (case r of
     None \<Rightarrow> cp = None
   | Some ce \<Rightarrow>
       if entry_gone now ce then cp = None
       else \<exists>b ce'. cp = Some (b, ce') \<and> ce_qname ce' = ce_qname ce \<and> is_neg ce' = is_neg ce \<and> local_cent ce' = local_cent ce \<and>
         (is_neg ce \<longrightarrow> neg_ttl (ce_data ce') = neg_ttl (ce_data ce) \<and> neg_ts (ce_data ce') = neg_ts (ce_data ce)) \<and>
         cent_contents ce' = drop_expired now (cent_contents ce))"

lemma copy_same_contents: "copied_cent ce ce' \<Longrightarrow> cent_ok ce \<Longrightarrow> cent_contents ce' = cent_contents ce"
proof
  fix j assume "copied_cent ce ce'" "cent_ok ce"
  from copied_slots [OF this, of j] show "cent_contents ce' j = cent_contents ce j"
    by (auto simp: cent_contents_def copied_def contents_def split: option.splits)
qed

lemma copied_found:
  assumes cp: "copied_cent ce ce'" and ok: "cent_ok ce" and r: "refreshed now ce0 ce" and n: "\<not> entry_gone now ce0"
  shows "found_copy now (Some ce0) (Some (b, ce'))"
proof -
  have "cent_contents ce' = drop_expired now (cent_contents ce0)"
    using copy_same_contents [OF cp ok] refreshed_contents [OF r] by simp
  moreover have "ce_qname ce' = ce_qname ce0" "is_neg ce' = is_neg ce0" "local_cent ce' = local_cent ce0"
    using cp r by (simp_all add: copied_cent_def refreshed_def local_cent_def is_neg_def)
  moreover have "is_neg ce0 \<longrightarrow> neg_ttl (ce_data ce') = neg_ttl (ce_data ce0) \<and> neg_ts (ce_data ce') = neg_ts (ce_data ce0)"
    using cp r by (simp add: copied_cent_def refreshed_def)
  ultimately show ?thesis using n by (simp add: found_copy_def)
qed

lemma copy_all:
  assumes inv: "cache_inv xs m {} 0 k c" and C: "dc_cents c a = Some ce"
  shows "\<exists>b ce' c'. copy_cent (\<lambda>_. False) ce c = Some (Some (b, ce'), c') \<and> copied_cent ce ce'"
  using copy_inv [where fails = "\<lambda>_. False", OF inv C] by (auto split: option.splits)

lemma lookup_rw_exact:
  assumes inv: "cache_inv xs m {} 0 k c" and ks: "name_ok ks"
  shows "\<exists>cp w c'. lookup_rw (\<lambda>_. False) now (enc_name ks) wild c = Some ((cp, w), c') \<and> w = snd (search_spec m (dc_cents c) ks wild) \<and>
    found_copy now (Option.bind (fst (search_spec m (dc_cents c) ks wild)) (dc_cents c)) cp"
proof -
  obtain r w where sw: "search_spec m (dc_cents c) ks wild = (r, w)" by (cases "search_spec m (dc_cents c) ks wild")
  have "find_wild c (enc_name ks) wild = Some (r, w)"
    using find_wild_ok [OF inv ks, of wild] sw unfolding search_spec_def by (simp only:)
  note f = this sw
  show ?thesis
  proof (cases r)
    case None
    then show ?thesis using f unfolding lookup_rw_def by (simp add: found_copy_def)
  next
    case (Some a)
    obtain ce where C: "dc_cents c a = Some ce" using find_wild_found [OF inv f(1) [unfolded Some] ks] by blast
    note g = all_expired_gone [OF cache_invD(5) [OF inv C], of now]
    obtain r c1 xs1 m1 where P: "purge_cent now a True False c = Some (r, c1)" "cache_inv xs1 m1 {} 0 k c1"
      "if r < 0 then True \<and> dc_cents c1 = (dc_cents c)(a := None) \<and> all_expired now ce
       else m1 = m \<and> purged_to now a c c1 \<and> (True \<longrightarrow> \<not> all_expired now ce)"
      using purge_cent_ok [where now = now and delete = True, OF inv C] by (elim exE conjE) (rule that)
    show ?thesis
    proof (cases "r < 0")
      case True
      then show ?thesis using f P(1,3) Some C g unfolding lookup_rw_def by (simp add: found_copy_def)
    next
      case False
      then obtain ce1 where C1: "dc_cents c1 a = Some ce1" "refreshed now ce ce1" "\<not> all_expired now ce"
        using P(3) C by (auto simp: purged_to_def)
      obtain b ce' c' where cp: "copy_cent (\<lambda>_. False) ce1 c1 = Some (Some (b, ce'), c')" "copied_cent ce1 ce'"
        using copy_all [OF P(2) C1(1)] by blast
      have "found_copy now (Some ce) (Some (b, ce'))" by (rule copied_found [OF cp(2) cache_invD(5) [OF P(2) C1(1)] C1(2)]) (use C1(3) g in simp)
      then show ?thesis using f P(1) False Some C C1(1) cp(1) unfolding lookup_rw_def by simp
    qed
  qed
qed

lemma lookup_cache_exact:
  assumes inv: "cache_inv xs m {} 0 k c" and ks: "name_ok ks"
  shows "\<exists>cp w c'. lookup_cache (\<lambda>_. False) (\<lambda>c. c) now (enc_name ks) wild c = Some ((cp, w), c') \<and>
    w = snd (search_spec m (dc_cents c) ks wild) \<and>
    found_copy now (Option.bind (fst (search_spec m (dc_cents c) ks wild)) (dc_cents c)) cp"
proof -
  obtain r w where sw: "search_spec m (dc_cents c) ks wild = (r, w)" by (cases "search_spec m (dc_cents c) ks wild")
  have "find_wild c (enc_name ks) wild = Some (r, w)"
    using find_wild_ok [OF inv ks, of wild] sw unfolding search_spec_def by (simp only:)
  note f = this sw
  show ?thesis
  proof (cases r)
    case None
    then show ?thesis using f unfolding lookup_cache_def by (simp add: found_copy_def)
  next
    case (Some a)
    obtain ce where C: "dc_cents c a = Some ce" using find_wild_found [OF inv f(1) [unfolded Some] ks] by blast
    obtain p where P: "purge_cent now a True True c = Some (p, c)"
      "p = 0 \<longrightarrow> (\<forall>j. unexpired now (slot (sets0 ce) j) = slot (sets0 ce) j) \<and> (True \<longrightarrow> \<not> all_expired now ce)"
      using purge_cent_test [where now = now and delete = True, OF inv C] by (elim exE conjE) (rule that)
    show ?thesis
    proof (cases "p = 0")
      case True
      then have r: "refreshed now ce ce" "\<not> all_expired now ce" using P(2) by (simp_all add: refreshed_def)
      obtain b ce' c' where cp: "copy_cent (\<lambda>_. False) ce c = Some (Some (b, ce'), c')" "copied_cent ce ce'"
        using copy_all [OF inv C] by blast
      have "found_copy now (Some ce) (Some (b, ce'))" by (rule copied_found [OF cp(2) cache_invD(5) [OF inv C] r(1)]) (use r(2) all_expired_gone [OF cache_invD(5) [OF inv C]] in simp)
      then show ?thesis using f P(1) True Some C cp(1) unfolding lookup_cache_def by simp
    next
      case False
      then have "lookup_ro (\<lambda>_. False) now (enc_name ks) wild c = Some (None, c)"
        using f(1) P(1) Some unfolding lookup_ro_def by simp
      then show ?thesis using lookup_rw_exact [OF inv ks, of now wild] unfolding lookup_split by simp
    qed
  qed
qed

subsection \<open>The copy of a local set\<close>

lemma lookup_table_len: "length rrlkuptab = nat T_NUM"
  by (simp add: rrlkuptab_def T_NUM_def)

lemma getrrset_total:
  assumes "cent_ok ce"
  shows "getrrset ce type \<noteq> None"
proof (cases "is_neg ce")
  case True
  then show ?thesis by (simp add: getrrset_def)
next
  case False
  have p: "pos_cent ce (sets0 ce)" using cent_ok_sets0 [OF assms False] by (simp add: pos_ok_def)
  have n: "length (take NRRMU (sets0 ce)) = NRRMU" using p less_imp_le [OF nrr_simps(1)] by (auto simp: pos_cent_def)
  have t: "list_at rrlkuptab (nat (type - T_MIN)) \<noteq> None" if "0 \<le> type - T_MIN" "type - T_MIN < T_NUM"
    using that lookup_table_len by (simp add: list_at_def)
  show ?thesis
  proof (cases "0 \<le> type - T_MIN \<and> type - T_MIN < T_NUM")
    case True
    then obtain idx where i: "list_at rrlkuptab (nat (type - T_MIN)) = Some idx" using t by auto
    have d: "ce_data ce = Rr (take NRRMU (sets0 ce)) (if length (sets0 ce) = NRRMU then None else Some (drop NRRMU (sets0 ce)))"
      "length (sets0 ce) = NRRMU \<or> length (sets0 ce) = NRRTOT"
      using p by (auto simp: pos_cent_def)
    then show ?thesis using i True False n by (auto simp: getrrset_def getrrset_eff_def list_at_def NRRTOT_def NRRMU_def NRREXT_def Let_def)
  qed (use False in \<open>auto simp: getrrset_def Let_def\<close>)
qed

lemma copy_rrset_inv:
  assumes inv: "cache_inv xs m {} 0 k c"
  shows "\<exists>r c'. copy_rrset fails rs c = Some (r, c') \<and> cache_inv xs m {} 0 (k + opt_int set_blocks r) c' \<and> dc_cents c' = dc_cents c \<and>
    copied (if r = None then None else Some rs) r \<and> (r = None \<longrightarrow> (\<exists>n. fails n))"
proof (cases rule: cache_malloc_cases [of fails c])
  case (none c1)
  have "cache_inv xs m {} 0 (k + 0) c1" by (rule counters_inv [OF inv]) (use none in \<open>simp_all add: frame_def\<close>)
  then show ?thesis using none by (intro exI [of _ None] exI [of _ c1]) (auto simp: copy_rrset_def frame_def opt_int_def)
next
  case (some p c1)
  obtain ok rrs' c2 where r: "copy_rrs fails (rs_rrs rs) c1 = ((ok, rrs'), c2)" "ok \<longrightarrow> rrs' = rs_rrs rs" "frame c1 c2"
    "dc_rrl c2 = dc_rrl c1" "dc_live c2 = dc_live c1 + int (length rrs')" "(\<forall>n. \<not> fails n) \<longrightarrow> ok" using copy_rrs_ok by blast
  let ?s = "rs\<lparr>rs_addr := p, rs_lent := None, rs_rrs := rrs'\<rparr>"
  have inv2: "cache_inv xs m {} 0 (k + set_blocks ?s) c2"
    by (rule counters_inv [OF inv]) (use some(2-4) r(3-5) in \<open>simp_all add: frame_def set_blocks_def\<close>)
  have f: "dc_cents c2 = dc_cents c" using some(2) r(3) by (simp add: frame_def)
  show ?thesis
  proof (cases ok)
    case True
    then show ?thesis using some(1) r(1,2) inv2 f
      by (intro exI [of _ "Some ?s"] exI [of _ c2]) (auto simp: copy_rrset_def opt_int_def copied_def)
  next
    case False
    obtain c3 where d: "del_rrset ?s c2 = Some (set_size ?s, c3)" "effect xs c2 (- set_blocks ?s) (rs_lents ?s) c3"
      using del_rrset_ok [OF cache_invD(1) [OF inv2], of ?s] by (auto simp: rs_lents_def)
    have e: "frame c2 c3" "dc_rrl c3 = dc_rrl c2 \<or> True" using d(2) by (simp_all add: effect_def)
    define c4 where "c4 = c3\<lparr>dc_live := dc_live c3 + set_blocks ?s\<rparr>"
    have "effect xs c2 0 [] c4" using d(2) unfolding effect_def c4_def by (simp add: frame_def rs_lents_def)
    from effect_inv [OF inv2 this] have i: "cache_inv xs m {} 0 (k + set_blocks ?s) c4" .
    have "cache_inv xs m {} 0 (k + 0) c3" by (rule counters_inv [OF i]) (simp_all add: c4_def)
    then show ?thesis using some(1) r(1,6) d(1) e(1) f False
      by (intro exI [of _ None] exI [of _ c3]) (auto simp: copy_rrset_def opt_int_def frame_def)
  qed
qed

lemma lookup_local_ok:
  assumes "cache_ok k c" "list_all lab_len ks"
  shows "\<exists>r c'. lookup_cache_local_rrset fails (enc_name ks) type c = Some (r, c') \<and> cache_ok (k + opt_int set_blocks r) c' \<and>
    dc_cents c' = dc_cents c \<and> (\<forall>rs. r = Some rs \<longrightarrow> rs_lent rs = None)"
proof -
  obtain xs m where inv: "cache_inv xs m {} 0 k c" using assms(1) by (auto simp: cache_ok_def)
  obtain loc where f: "cache_find c (enc_name ks) = Some (m (map lower ks), loc)" using cache_find_total [OF inv assms(2), of "[]"] by auto
  have z: "cache_inv xs m {} 0 (k + opt_int set_blocks None) c" using inv by (simp add: opt_int_def)
  show ?thesis
  proof (cases "m (map lower ks)")
    case None
    then show ?thesis using f z by (auto simp: lookup_cache_local_rrset_def cache_ok_def)
  next
    case (Some a)
    obtain ce where ce: "dc_cents c a = Some ce" "cent_ok ce" using found_cent [OF inv Some] by blast
    obtain s where s: "getrrset ce type = Some s" using getrrset_total [OF ce(2)] by auto
    show ?thesis
    proof (cases "\<exists>rs. s = Some rs \<and> has_flag (rs_flags rs) CF_LOCAL")
      case True
      then obtain rs where rs: "s = Some rs" "has_flag (rs_flags rs) CF_LOCAL" by blast
      obtain r c' where R: "copy_rrset fails rs c = Some (r, c')" "cache_inv xs m {} 0 (k + opt_int set_blocks r) c'" "dc_cents c' = dc_cents c"
        "copied (if r = None then None else Some rs) r" using copy_rrset_inv [OF inv, of fails rs] by blast
      have "\<forall>x. r = Some x \<longrightarrow> rs_lent x = None" using R(4) by (auto simp: copied_def)
      then show ?thesis using f Some ce(1) s rs R(1-3)
        by (intro exI [of _ r] exI [of _ c']) (auto simp: lookup_cache_local_rrset_def cache_ok_def)
    next
      case False
      then show ?thesis using f Some ce(1) s z
        by (intro exI [of _ None] exI [of _ c]) (auto simp: lookup_cache_local_rrset_def cache_ok_def split: option.splits)
    qed
  qed
qed

lemma release_set_ok:
  assumes c: "cache_ok (k + set_blocks rs) c" and l: "rs_lent rs = None"
  shows "\<exists>c'. del_rrset rs c = Some (set_size rs, c') \<and> cache_ok k c' \<and> dc_cents c' = dc_cents c \<and> dc_rrl c' = dc_rrl c"
proof -
  obtain xs m where inv: "cache_inv xs m {} 0 (k + set_blocks rs) c" using c by (auto simp: cache_ok_def)
  obtain c2 where d: "del_rrs (rs_rrs rs) sizeof_rr_set c = (sizeof_rr_set + rr_size (rs_rrs rs), c2)" "frame c c2"
    "dc_rrl c2 = dc_rrl c" "dc_live c2 = dc_live c - int (length (rs_rrs rs))" using del_rrs_ok by blast
  have "cache_inv xs m {} 0 k (cache_free c2)"
    by (rule counters_inv [OF inv]) (use d(2-4) in \<open>simp_all add: frame_def cache_free_def set_blocks_def\<close>)
  then show ?thesis using d l by (auto simp: del_rrset_def set_size_def cache_ok_def frame_def cache_free_def)
qed

subsection \<open>The names that a list of rules selects\<close>

text \<open>The first rule of the list that matches the name is one that includes.\<close>

definition name_selected :: "(byte list list \<times> bool \<times> bool) list option \<Rightarrow> byte list list \<Rightarrow> bool" where
  "name_selected rules ks \<longleftrightarrow> (case rules of
     None \<Rightarrow> True
   | Some rs \<Rightarrow> \<exists>pre ds exact post. rs = pre @ (ds, exact, True) # post \<and> rule_matches ds exact ks \<and>
       (\<forall>(d, e, i) \<in> set pre. \<not> rule_matches d e ks))"

lemma selects_first: "selects ks rs \<longleftrightarrow> name_selected (Some rs) ks"
proof (induction rs)
  case (Cons r rs)
  obtain d e i where r: "r = (d, e, i)" by (cases r)
  show ?case
  proof (cases "rule_matches d e ks")
    case True
    have "name_selected (Some (r # rs)) ks \<longleftrightarrow> i"
    proof
      assume "name_selected (Some (r # rs)) ks"
      then obtain pre ds exact post where x: "r # rs = pre @ (ds, exact, True) # post" "\<forall>(d, e, i) \<in> set pre. \<not> rule_matches d e ks"
        by (auto simp: name_selected_def)
      then show i using True r by (cases pre) auto
    next
      assume i
      then show "name_selected (Some (r # rs)) ks" using True r
        unfolding name_selected_def option.case
        by (intro exI [of _ "[]"] exI [of _ d] exI [of _ e] exI [of _ rs]) simp
    qed
    then show ?thesis using True r by simp
  next
    case False
    have "name_selected (Some (r # rs)) ks \<longleftrightarrow> name_selected (Some rs) ks"
    proof
      assume "name_selected (Some (r # rs)) ks"
      then obtain pre ds exact post where x: "r # rs = pre @ (ds, exact, True) # post" "rule_matches ds exact ks"
        "\<forall>(d, e, i) \<in> set pre. \<not> rule_matches d e ks" by (auto simp: name_selected_def)
      then obtain pre' where "pre = r # pre'" using False r by (cases pre) auto
      then show "name_selected (Some rs) ks" using x by (auto simp: name_selected_def)
    next
      assume "name_selected (Some rs) ks"
      then obtain pre ds exact post where x: "rs = pre @ (ds, exact, True) # post" "rule_matches ds exact ks"
        "\<forall>(d, e, i) \<in> set pre. \<not> rule_matches d e ks" by (auto simp: name_selected_def)
      then have "r # rs = (r # pre) @ (ds, exact, True) # post" "\<forall>(d, e, i) \<in> set (r # pre). \<not> rule_matches d e ks" using False r by auto
      then show "name_selected (Some (r # rs)) ks" 
        using x(2) unfolding name_selected_def option.case
        by (intro exI [of _ "r # pre"] exI [of _ ds] exI [of _ exact] exI [of _ post] conjI)
    qed
    then show ?thesis using False r Cons.IH by simp
  qed
qed (simp add: name_selected_def)

text \<open>The rules of the code's list.\<close>

definition rules_of :: "slist list option \<Rightarrow> (byte list list \<times> bool \<times> bool) list option \<Rightarrow> bool" where
  "rules_of sla rules \<longleftrightarrow> (case sla of None \<Rightarrow> rules = None | Some s \<Rightarrow> \<exists>rs. rules = Some rs \<and> list_all2 rule_of s rs)"

lemma rules_ok: "rules_of sla rules \<Longrightarrow> sla_ok sla"
  by (auto simp: rules_of_def sla_ok_def split: option.splits)

lemma selected_name:
  assumes "rules_of sla rules" "name_ok ks" "ce_qname ce = enc_name ks"
  shows "cent_selected sla ce \<longleftrightarrow> name_selected rules ks"
  using assms slist_selects_ok [OF assms(2)] selects_first
  by (cases sla) (auto simp: rules_of_def cent_selected_def name_selected_def)

lemma empty_cache_exact:
  assumes "cache_ok k c" "rules_of sla rules"
  shows "\<exists>c'. empty_cache (\<lambda>c. c) True sla c = Some (True, c') \<and> cache_ok k c' \<and>
    (\<forall>a ce ks. dc_cents c a = Some ce \<and> name_ok ks \<and> ce_qname ce = enc_name ks \<longrightarrow>
      dc_cents c' a = (if name_selected rules ks then None else Some ce)) \<and> (\<forall>a. dc_cents c a = None \<longrightarrow> dc_cents c' a = None)"
proof -
  obtain c' where c': "empty_cache (\<lambda>c. c) True sla c = Some (True, c')" "cache_ok k c'"
    "dc_cents c' = (\<lambda>a. case dc_cents c a of None \<Rightarrow> None | Some ce \<Rightarrow> if cent_selected sla ce then None else Some ce)"
    using empty_cache_ok [OF assms(1) rules_ok [OF assms(2)], of "\<lambda>c. c"] by (auto simp: others_ok_def)
  have "dc_cents c' a = (if name_selected rules ks then None else Some ce)"
    if "dc_cents c a = Some ce \<and> name_ok ks \<and> ce_qname ce = enc_name ks" for a ce ks
    using selected_name [OF assms(2), of ks ce] that c'(3) by simp
  moreover have "dc_cents c' a = None" if "dc_cents c a = None" for a using that c'(3) by simp
  ultimately show ?thesis using c'(1,2) by blast
qed

subsection \<open>Where purging stops\<close>

text \<open>One item of the list and several, without the test of the size.\<close>

definition purge_item :: "nat \<Rightarrow> dcache \<Rightarrow> dcache option" where
  "purge_item x c = do {
     e \<leftarrow> rl_ents (dc_rrl c) x;
     loc \<leftarrow> le_local c e;
     if loc then Some c else purge_any e c
   }"

fun purge_items :: "nat list \<Rightarrow> dcache \<Rightarrow> dcache option" where
  "purge_items [] c = Some c"
| "purge_items (x # xs) c = do { c \<leftarrow> purge_item x c; purge_items xs c }"

text \<open>The loop has gone through the first \<open>n\<close> items, and the cache was too large before each of them.\<close>

definition stops_at :: "int \<Rightarrow> nat list \<Rightarrow> nat \<Rightarrow> dcache \<Rightarrow> dcache \<Rightarrow> bool" where
  "stops_at sz xs n c c' \<longleftrightarrow> n \<le> length xs \<and> purge_items (take n xs) c = Some c' \<and>
     (\<forall>j < n. \<exists>d. purge_items (take j xs) c = Some d \<and> sz < dc_cache_size d) \<and> (dc_cache_size c' \<le> sz \<or> n = length xs)"

lemma stops_0: "dc_cache_size c \<le> sz \<or> xs = [] \<Longrightarrow> stops_at sz xs 0 c c"
  by (simp add: stops_at_def)

lemma stops_Suc:
  assumes "sz < dc_cache_size c" "purge_item x c = Some c1" "stops_at sz xs n c1 c'"
  shows "stops_at sz (x # xs) (Suc n) c c'"
proof -
  have "\<exists>d. purge_items (take j (x # xs)) c = Some d \<and> sz < dc_cache_size d" if "j < Suc n" for j
  proof (cases j)
    case (Suc i)
    then show ?thesis using assms(2,3) that by (auto simp: stops_at_def)
  qed (use assms(1) in simp)
  then show ?thesis using assms(2,3) by (auto simp: stops_at_def)
qed

lemma purge_any_stops:
  assumes "cache_inv (pre @ post) m {} 0 k c"
  shows "\<exists>c' n. purge_pass purge_any sz True (fst_of post) c = Some c' \<and> stops_at sz post n c c' \<and>
    step_ok (pre @ filter (protected c) (take n post) @ drop n post) m k c c'"
  using assms
proof (induction post arbitrary: pre m c)
  case Nil
  then show ?case using step_ok_refl [OF Nil] stops_0 [of c sz "[]"] by (intro exI [of _ c] exI [of _ 0]) simp
next
  case (Cons x post)
  obtain e where e: "rl_ents (dc_rrl c) x = Some e" "le_next e = fst_of post" using rl_next [OF cache_invD(1) [OF Cons.prems]] by blast
  note l = le_local_total [OF Cons.prems e(1)]
  show ?case
  proof (cases "dc_cache_size c > sz")
    case False
    then show ?thesis using step_ok_refl [OF Cons.prems] stops_0 [of c sz "x # post"]
      by (intro exI [of _ c] exI [of _ 0]) (simp add: pass_some)
  next
    case big: True
    show ?thesis
    proof (cases "protected c x")
      case True
      obtain c' n where c': "purge_pass purge_any sz True (fst_of post) c = Some c'" "stops_at sz post n c c'"
        "step_ok ((pre @ [x]) @ filter (protected c) (take n post) @ drop n post) m k c c'"
        using Cons.IH [of "pre @ [x]" m c] Cons.prems by auto
      have "purge_item x c = Some c" using e(1) l True by (simp add: purge_item_def)
      note st = stops_Suc [OF big this c'(2)]
      show ?thesis by (rule exI [of _ c'], rule exI [of _ "Suc n"]) (use c'(1,3) st e l True big in \<open>simp add: pass_some\<close>)
    next
      case False
      obtain c1 where c1: "purge_any e c = Some c1" "step_ok (pre @ post) m k c c1"
        using purge_any_ok [OF Cons.prems e(1)] l False by auto
      obtain m1 where m1: "cache_inv (pre @ post) m1 {} 0 k c1" "purged c c1" "\<forall>ys c2. step_ok ys m1 k c1 c2 \<longrightarrow> step_ok ys m k c c2"
        by (rule step_okE [OF c1(2)]) (rule that)
      obtain c' n where c': "purge_pass purge_any sz True (fst_of post) c1 = Some c'" "stops_at sz post n c1 c'"
        "step_ok (pre @ filter (protected c1) (take n post) @ drop n post) m1 k c1 c'"
        using Cons.IH [OF m1(1)] by blast
      have "protected c1 y = protected c y" if "y \<in> set post" for y
        using protected_step [OF Cons.prems m1(1,2), of y] that by auto
      then have f: "filter (protected c1) (take n post) = filter (protected c) (take n post)" by (intro filter_cong) (auto dest: in_set_takeD)
      have st: "step_ok (pre @ filter (protected c) (take (Suc n) (x # post)) @ drop (Suc n) (x # post)) m k c c'"
        using m1(3) [rule_format, OF c'(3)] f False by simp
      have "purge_item x c = Some c1" using e(1) l False c1(1) by (simp add: purge_item_def)
      note sp = stops_Suc [OF big this c'(2)]
      show ?thesis by (rule exI [of _ c'], rule exI [of _ "Suc n"]) (use c'(1) st sp e l False big c1(1) in \<open>simp add: pass_some\<close>)
    qed
  qed
qed

lemma purge_list_stops:
  assumes inv: "cache_inv xs m {} 0 k c"
  shows "\<exists>c' n. purge_pass purge_any sz True (rrset_l (dc_rrl c)) c = Some c' \<and> stops_at sz xs n c c' \<and>
    rl_rep (dc_rrl c') (filter (protected c) (take n xs) @ drop n xs)"
proof -
  have "rrset_l (dc_rrl c) = fst_of xs" using rl_repD(2) [OF cache_invD(1) [OF inv]] lseg_first by (cases xs) auto
  then obtain c' n where P: "purge_pass purge_any sz True (rrset_l (dc_rrl c)) c = Some c'" "stops_at sz xs n c c'"
    "step_ok (filter (protected c) (take n xs) @ drop n xs) m k c c'" using purge_any_stops [of "[]" xs m k c sz] inv by auto
  have "rl_rep (dc_rrl c') (filter (protected c) (take n xs) @ drop n xs)" using P(3) cache_invD(1) unfolding step_ok_def by blast
  then show ?thesis using P(1,2) by (intro exI conjI)
qed

subsection \<open>Adding an answer for a new name\<close>

text \<open>The answer is in the cache \<open>c1\<close>, under the name, as a new entry \<open>ce\<close> at the address \<open>a\<close>.\<close>

definition entered :: "cache_conf \<Rightarrow> dns_cent \<Rightarrow> dcache \<Rightarrow> nat \<Rightarrow> dns_cent \<Rightarrow> dcache \<Rightarrow> bool" where
  "entered cf cent c a ce c1 \<longleftrightarrow> dc_cents c a = None \<and> dc_cents c1 = (dc_cents c)(a \<mapsto> ce) \<and> stored cf cent ce \<and>
     (\<exists>loc. cache_find c1 (ce_qname cent) = Some (Some a, loc))"

text \<open>What purging leaves of it: it is all there, or less of it, or nothing; what is left is found under the name.\<close>

definition left_of :: "dns_cent \<Rightarrow> nat \<Rightarrow> dns_cent \<Rightarrow> dcache \<Rightarrow> bool" where
  "left_of cent a ce c' \<longleftrightarrow> (case dc_cents c' a of
     None \<Rightarrow> deletable ce \<and> (\<exists>loc. cache_find c' (ce_qname cent) = Some (None, loc))
   | Some ce' \<Rightarrow> shrunk ce ce' \<and> (\<exists>loc. cache_find c' (ce_qname cent) = Some (Some a, loc)))"

lemma add_new_entered:
  assumes c: "cache_ok k c" and ok: "cent_ok cent" and ne: "ce_num_rrs cent \<noteq> 0 \<or> is_neg cent"
    and f: "cache_find c (ce_qname cent) = Some (None, loc)" and len: "list_len c + NRRTOT < 2 ^ NTMPSORT"
  shows "\<exists>c1 c' a ce. add_cache cf (\<lambda>_. False) now cent c = Some c' \<and> entered cf cent c a ce c1 \<and> cache_ok k c1 \<and>
    purge_cache now (cache_limit cf) True c1 = Some c' \<and> left_of cent a ce c' \<and> (dc_cache_size c1 \<le> cache_limit cf \<longrightarrow> c' = c1)"
proof -
  obtain xs m where inv: "cache_inv xs m {} 0 k c" using c by (auto simp: cache_ok_def)
  obtain ks where ks: "list_all lab_len ks" "ce_qname cent = enc_name ks" "m (map lower ks) = None"
    using cent_find [OF inv ok] f by auto
  obtain b c1 xs1 where A: "add_new_cent cf (\<lambda>_. False) cent loc c = Some (b, c1)" "length xs1 \<le> length xs + NRRTOT"
    "if b then inserted cf cent (map lower ks) m k xs1 c c1 else cache_inv xs1 m {} 0 k c1 \<and> dc_cents c1 = dc_cents c"
    "(\<forall>n. \<not> (\<lambda>_ :: nat. False) n) \<longrightarrow> b"
    using add_new_cent_ok [where cf = cf and fails = "\<lambda>_. False", OF inv ok ks f] by (elim exE conjE) (rule that)
  obtain a ce where I: "dc_cents c a = None" "dc_cents c1 = (dc_cents c)(a \<mapsto> ce)" "stored cf cent ce" "cache_inv xs1 (m(map lower ks \<mapsto> a)) {} 0 k c1"
    using A(3,4) by (auto simp: inserted_def)
  obtain loc1 where l1: "cache_find c1 (ce_qname cent) = Some (Some a, loc1)" using cache_find_total [OF I(4) ks(1), of "[]"] ks(2) by auto
  have "length xs1 < 2 ^ NTMPSORT" using A(2) len list_len_eq [OF inv] by simp
  from purge_cache_all [OF I(4) this, of now "cache_limit cf" True] obtain c' xs' m' where P:
    "purge_cache now (cache_limit cf) True c1 = Some c'" "cache_inv xs' m' {} 0 k c'" "m' \<subseteq>\<^sub>m m(map lower ks \<mapsto> a)" "purged c1 c'" by blast
  have ad: "add_cache cf (\<lambda>_. False) now cent c = Some c'" using ne f A(1,4) P(1) by (subst add_cache.simps) auto
  have "entered cf cent c a ce c1" using I(1-3) l1 by (auto simp: entered_def)
  moreover have "left_of cent a ce c'"
  proof -
    obtain loc2 where l2: "cache_find c' (ce_qname cent) = Some (m' (map lower ks), loc2)" using cache_find_total [OF P(2) ks(1), of "[]"] ks(2) by auto
    have s: "case dc_cents c' a of None \<Rightarrow> deletable ce | Some ce' \<Rightarrow> shrunk ce ce'" using P(4) I(2) by (auto simp: purged_def)
    show ?thesis
    proof (cases "m' (map lower ks)")
      case None
      have "a \<notin> ran m'"
      proof
        assume "a \<in> ran m'"
        then obtain kk where kk: "m' kk = Some a" by (auto simp: ran_def)
        then have "(m(map lower ks \<mapsto> a)) kk = Some a" using P(3) by (auto simp: map_le_def dom_def)
        moreover have "kk \<noteq> map lower ks" using kk None by auto
        ultimately have "a \<in> ran m" by (auto intro: ranI)
        then show False using cache_invD(6) [OF inv] I(1) by auto
      qed
      then have "dc_cents c' a = None" using cache_invD(6) [OF P(2)] by auto
      then show ?thesis using s l2 None by (simp add: left_of_def)
    next
      case (Some b)
      then have "(m(map lower ks \<mapsto> a)) (map lower ks) = Some b" using P(3) by (fastforce simp: map_le_def dom_def)
      then have "b = a" by simp
      moreover obtain ce' where "dc_cents c' a = Some ce'" using found_cent [OF P(2) Some] \<open>b = a\<close> by blast
      ultimately show ?thesis using s l2 Some by (simp add: left_of_def)
    qed
  qed
  moreover have "dc_cache_size c1 \<le> cache_limit cf \<longrightarrow> c' = c1"
    using P(1) by (cases "rrset_l (dc_rrl c1)") (auto simp: purge_cache_def pass_some)
  moreover have "cache_ok k c1" using I(4) by (auto simp: cache_ok_def)
  ultimately show ?thesis using ad P(1) by (intro exI [of _ c1] exI [of _ c'] exI [of _ a] exI [of _ ce] conjI)
qed

subsection \<open>Links\<close>

text \<open>No operation leaves a set or a negative entry that is not local without its place in the list by age.\<close>

lemma linked_sub: "all_linked c \<Longrightarrow> dc_cents c' \<subseteq>\<^sub>m dc_cents c \<Longrightarrow> all_linked c'"
  unfolding all_linked_def map_le_def by (metis domI)

lemma linked_upd: "all_linked c \<Longrightarrow> dc_cents c' = (dc_cents c)(a \<mapsto> ce) \<Longrightarrow> linked ce \<Longrightarrow> all_linked c'"
  unfolding all_linked_def by (auto split: if_splits)

lemma bucket_linked:
  assumes "cache_ok k c" "i < HASH_NUM_BUCKETS" "sla_ok sla" "empty_buckets (\<lambda>c. c) sla i 1 c = Some c'" "all_linked c"
  shows "all_linked c'"
proof -
  obtain xs m where inv: "cache_inv xs m {} 0 k c" using assms(1) by (auto simp: cache_ok_def)
  obtain t dels m' where B: "(case sla of
        Some sla \<Rightarrow> free_dns_hash_selected (dc_table c) (cent_name c) i sla
      | None \<Rightarrow> free_dns_hash_bucket (dc_table c) i []) = Some (t, dels)" "hash_rep (cent_name c) t m'" "m' \<subseteq>\<^sub>m m"
    "dom (hash_ents t) \<subseteq> dom (hash_ents (dc_table c))" "distinct dels" "set dels = ran m - ran m'"
    using bucket_step [where sla = sla, OF inv assms(2,3)] by (elim exE conjE) (rule that)
  note U = unhash_inv [OF inv B(2-6)]
  have u1: "cache_inv xs m' (set dels) 0 (k + int (length dels)) ((c\<lparr>dc_table := t\<rparr>)\<lparr>dc_ent_num := int (card (dom m'))\<rparr>)"
    by (rule counters_inv [OF U(1)]) simp_all
  have u2: "dc_ent_num (c\<lparr>dc_table := t\<rparr>) = int (card (dom m')) + int (length dels)" using U(2) by simp
  obtain c1 where D: "del_cents dels (c\<lparr>dc_table := t\<rparr>) = Some c1"
    "dc_cents c1 = (\<lambda>a. if a \<in> set dels then None else dc_cents (c\<lparr>dc_table := t\<rparr>) a)" using del_cents_ok [OF u1 B(5) u2] by blast
  have "c1 = c'" using assms(4) B(1) D(1) by auto
  then have "dc_cents c' \<subseteq>\<^sub>m dc_cents c" using D(2) by (auto simp: map_le_def split: if_splits)
  then show ?thesis by (rule linked_sub [OF assms(5)])
qed

lemma del_cache_linked:
  assumes c: "cache_ok k c" and ks: "list_all lab_len ks" and d: "del_cache (enc_name ks) c = Some c'" and l: "all_linked c"
  shows "all_linked c'"
proof -
  obtain xs m where inv: "cache_inv xs m {} 0 k c" using c by (auto simp: cache_ok_def)
  obtain t where t: "del_dns_hash (dc_table c) (cent_name c) (enc_name ks) = Some (t, m (map lower ks))" "hash_rep (cent_name c) t (m(map lower ks := None))"
    using hash_rep_del [OF cache_invD(2) [OF inv] ks, of "[]"] by auto
  show ?thesis
  proof (cases "m (map lower ks)")
    case None
    then have "c' = c\<lparr>dc_table := t\<rparr>" using d t(1) by (simp add: del_cache_def)
    then show ?thesis using l by (simp add: all_linked_def)
  next
    case (Some a)
    obtain ce where C: "dc_cents c a = Some ce" using found_cent [OF inv Some] by blast
    obtain c1 where D: "del_cent a (cache_free (c\<lparr>dc_table := t\<rparr>)) = Some c1" "dc_cents c1 = (dc_cents c)(a := None)"
      using del_entry_inv [OF inv Some C t(2) del_dns_hash_dom [OF t(1)]] by blast
    have "c1 = c'" using d t(1) Some D(1) by (simp add: del_cache_def)
    then have "dc_cents c' \<subseteq>\<^sub>m dc_cents c" using D(2) by (auto simp: map_le_def split: if_splits)
    then show ?thesis by (rule linked_sub [OF l])
  qed
qed

lemma set_flags_linked:
  assumes c: "cache_ok k c" and ks: "list_all lab_len ks" and f: "flags AND DF_NEGATIVE = 0"
    and s: "set_cent_flags (enc_name ks) flags c = Some (b, c')" and l: "all_linked c"
  shows "all_linked c'"
proof -
  obtain xs m r loc where F: "cache_inv xs m {} 0 k c" "cache_find c (enc_name ks) = Some (r, loc)"
    "\<forall>a. r = Some a \<longrightarrow> (\<exists>ce. dc_cents c a = Some ce \<and> cent_ok ce)" using found_by_name [OF c ks] by blast
  show ?thesis
  proof (cases r)
    case None
    then show ?thesis using F(2) s l by (simp add: set_cent_flags_def)
  next
    case (Some a)
    obtain ce where C: "dc_cents c a = Some ce" using F(3) Some by blast
    let ?ce = "ce\<lparr>ce_flags := ce_flags ce OR flags\<rparr>"
    have n: "is_neg ?ce = is_neg ce" using f by (simp add: is_neg_def has_flag_def bit.conj_disj_distrib2)
    have "sets0 ?ce = sets0 ce" using n unfolding sets0_def cent_sets_def by simp
    moreover have "has_flag (ce_flags ?ce) DF_LOCAL" if "has_flag (ce_flags ce) DF_LOCAL"
      using that by (simp add: has_flag_def bit.conj_disj_distrib2 or_eq_0_iff)
    moreover have "linked ce" using l C by (simp add: all_linked_def)
    ultimately have "linked ?ce" unfolding linked_def by (cases "has_flag (ce_flags ce) DF_LOCAL"; cases "is_neg ce") (simp_all add: n)
    moreover have "dc_cents c' = (dc_cents c)(a \<mapsto> ?ce)" using F(2) Some C s by (auto simp: set_cent_flags_def cent_store_def)
    ultimately show ?thesis using linked_upd [OF l] by blast
  qed
qed

lemma invalidate_linked:
  assumes c: "cache_ok k c" and ks: "list_all lab_len ks" and i: "invalidate_record (enc_name ks) c = Some c'" and l: "all_linked c"
  shows "all_linked c'"
proof -
  obtain r loc where F: "cache_find c (enc_name ks) = Some (r, loc)"
    "case r of None \<Rightarrow> c' = c | Some a \<Rightarrow> \<exists>ce ce'. dc_cents c a = Some ce \<and> dc_cents c' = (dc_cents c)(a \<mapsto> ce') \<and> invalidated ce ce'"
    using invalidate_record_ok [OF c ks] i by auto
  show ?thesis
  proof (cases r)
    case None
    then show ?thesis using F l by simp
  next
    case (Some a)
    then obtain ce ce' where C: "dc_cents c a = Some ce" "dc_cents c' = (dc_cents c)(a \<mapsto> ce')" "invalidated ce ce'" using F(2) by auto
    have lc: "linked ce" using l C(1) by (simp add: all_linked_def)
    have "linked ce'"
    proof (cases "is_neg ce")
      case True
      have "neg_lent (ce_data ce') = neg_lent (ce_data ce)"
        using i F(1) Some C(1) True fun_cong [OF C(2), of a]
        by (cases "ce_data ce") (simp_all add: invalidate_record_def cent_store_def, auto)
      then show ?thesis using C(3) lc True by (simp add: linked_def invalidated_def)
    next
      case False
      have "has_flag (clear_flag f CF_AUTH) CF_LOCAL = has_flag f CF_LOCAL" for f
        by (rule has_clear_other) (simp add: CF_AUTH_def CF_LOCAL_def)
      note fl = this
      show ?thesis
      proof (cases "has_flag (ce_flags ce) DF_LOCAL")
        case nl: False
        have "has_flag (rs_flags rs) CF_LOCAL \<or> rs_lent rs \<noteq> None" if rs: "slot (sets0 ce') i = Some rs" for i rs
        proof -
          obtain z where z: "slot (sets0 ce) i = Some z" "rs = invalidate_set z" using rs C(3) by (auto simp: invalidated_def)
          then have "has_flag (rs_flags z) CF_LOCAL \<or> rs_lent z \<noteq> None" using lc nl False unfolding linked_def by simp
          then show ?thesis using z(2) fl by (simp add: invalidate_set_def)
        qed
        then show ?thesis using C(3) False by (simp add: linked_def invalidated_def)
      qed (use C(3) in \<open>simp add: linked_def invalidated_def\<close>)
    qed
    then show ?thesis using linked_upd [OF l C(2)] by blast
  qed
qed

lemma lookup_rw_linked:
  assumes c: "cache_ok k c" and ks: "name_ok ks" and r: "lookup_rw fails now (enc_name ks) wild c = Some ((cp, w), c')" and l: "all_linked c"
  shows "all_linked c'"
proof -
  obtain xs m where inv: "cache_inv xs m {} 0 k c" using c by (auto simp: cache_ok_def)
  obtain q w' where f: "find_wild c (enc_name ks) wild = Some (q, w')" using find_wild_ok [OF inv ks] by (metis surj_pair)
  show ?thesis
  proof (cases q)
    case None
    then show ?thesis using f l r unfolding lookup_rw_def by simp
  next
    case (Some a)
    obtain ce where C: "dc_cents c a = Some ce" using find_wild_found [OF inv f [unfolded Some] ks] by blast
    obtain p c1 xs1 m1 where P: "purge_cent now a True False c = Some (p, c1)" "cache_inv xs1 m1 {} 0 k c1" "all_linked c \<longrightarrow> all_linked c1"
      "if p < 0 then True \<and> dc_cents c1 = (dc_cents c)(a := None) \<and> all_expired now ce
       else m1 = m \<and> purged_to now a c c1 \<and> (True \<longrightarrow> \<not> all_expired now ce)"
      using purge_cent_ok [where now = now and delete = True, OF inv C] by (elim exE conjE) (rule that)
    show ?thesis
    proof (cases "p < 0")
      case True
      then show ?thesis using f P(1,3) Some r l unfolding lookup_rw_def by simp
    next
      case False
      then obtain ce1 where C1: "dc_cents c1 a = Some ce1" using P(4) C by (auto simp: purged_to_def)
      obtain cp' c2 where cp: "copy_cent fails ce1 c1 = Some (cp', c2)" "dc_cents c2 = dc_cents c1"
        using copy_inv [where fails = fails, OF P(2) C1] by blast
      have "c2 = c'" using r f P(1) False Some C1 cp(1) unfolding lookup_rw_def by simp
      then show ?thesis using P(3) l all_linked_cong [OF cp(2)] by simp
    qed
  qed
qed

end
