(* ===== verification/CacheHistory.thy ===== *)
theory CacheHistory
  imports CacheSpec
begin

text \<open>
  Histories of the cache: what threads do to it in any order, with the copies that callers have not freed yet. The
  lock makes each step atomic; \<open>lookup_cache\<close> and \<open>empty_cache\<close> are several steps, between which other threads run.
\<close>

declare hash_find.simps [code] find_back.simps [code] purge_pass.simps [code] add_cache.simps [code]

subsection \<open>The initial cache and a small entry\<close>

lemma init_inv: "cache_inv [] Map.empty {} 0 0 dc_init"
proof -
  have "hash_rep (cent_name dc_init) (dc_table dc_init) Map.empty" using mk_rep by (simp add: dc_init_def)
  moreover have "fresh_ok dc_init" by (simp add: fresh_ok_def dc_init_def rl_empty_def mk_dns_hash_def)
  moreover have "links_ok dc_init" by (simp add: links_ok_def dc_init_def rl_empty_def items_def)
  ultimately show ?thesis by (simp add: cache_inv_def dc_init_def rl_rep_empty)
qed

lemma init_ok: "cache_ok 0 dc_init"
  using init_inv by (auto simp: cache_ok_def)

lemma init_len: "list_len dc_init = 0" "list_len dc_init + NRRTOT < 2 ^ NTMPSORT"
  using list_len_eq [OF init_inv] by (simp_all add: NRRTOT_def NTMPSORT_def)

definition set_ex :: rr_set where
  "set_ex = \<lparr>rs_addr = 7, rs_lent = None, rs_ttl = 300, rs_ts = 1000, rs_flags = 0, rs_rrs = [[1, 2, 3, 4]]\<rparr>"

definition cent_ex :: dns_cent where
  "cent_ex = \<lparr>ce_qname = enc_name [[97]], ce_cs = 107 + set_size set_ex, ce_num_rrs = 1, ce_flags = 0,
     ce_data = Rr [Some set_ex, None, None, None, None, None, None, None] None, ce_c_ns = cundef, ce_c_soa = cundef\<rparr>"

definition conf_ex :: cache_conf where
  "conf_ex = \<lparr>perm_cache = 2048, max_ttl = 604800, min_ttl = 120, conf_neg_ttl = 900\<rparr>"

lemma name_ex: "name_ok [[97]]"
  by (simp add: name_ok_def label_ok_def DNSNAMEBUFSIZE_def)

lemma cent_ex_pos: "pos_ok cent_ex [Some set_ex, None, None, None, None, None, None, None]"
  by (simp add: pos_ok_def pos_cent_def cent_ex_def is_neg_def has_flag_def NRRMU_def ext_size_def base_size_def sizeof_dns_cent_def opt_int_def)

lemma cent_ex_ok: "cent_ok cent_ex"
proof -
  have "named cent_ex" unfolding named_def cent_ex_def using name_ex by (intro exI [of _ "[[97]]"]) simp
  then show ?thesis using cent_ex_pos by (auto simp: cent_ok_def)
qed

lemma cent_ex_simps: "\<not> is_neg cent_ex" "sets0 cent_ex = [Some set_ex, None, None, None, None, None, None, None]" "no_locals cent_ex"
  using pos_not_neg [OF cent_ex_pos] pos_sets0 [OF cent_ex_pos]
  by (auto simp: no_locals_def slot_def set_ex_def has_flag_def nth_Cons local_set_def split: nat.splits if_splits)

lemma insert_stored:
  assumes "cache_ok k c" "cent_ok cent" "ce_num_rrs cent \<noteq> 0 \<or> is_neg cent" "cache_find c (ce_qname cent) = Some (None, loc)"
    "add_new_cent cf fails cent loc c = Some (True, c1)" "dc_cache_size c1 \<le> cache_limit cf"
  shows "\<exists>c' a ce loc'. add_cache cf fails now cent c = Some c' \<and> cache_find c' (ce_qname cent) = Some (Some a, loc') \<and>
    dc_cents c' a = Some ce \<and> stored cf cent ce"
proof -
  obtain xs m where inv: "cache_inv xs m {} 0 k c" using assms(1) by (auto simp: cache_ok_def)
  obtain ks where ks: "list_all lab_len ks" "ce_qname cent = enc_name ks" "m (map lower ks) = None"
    using cent_find [OF inv assms(2)] assms(4) by auto
  obtain b c2 xs2 where A: "add_new_cent cf fails cent loc c = Some (b, c2)"
    "if b then inserted cf cent (map lower ks) m k xs2 c c2 else cache_inv xs2 m {} 0 k c2 \<and> dc_cents c2 = dc_cents c"
    using add_new_cent_ok [where cf = cf and fails = fails, OF inv assms(2) ks assms(4)] by (elim exE conjE) (rule that)
  then obtain a ce where I: "dc_cents c1 = (dc_cents c)(a \<mapsto> ce)" "stored cf cent ce" "cache_inv xs2 (m(map lower ks \<mapsto> a)) {} 0 k c1"
    using assms(5) by (auto simp: inserted_def)
  obtain loc' where "cache_find c1 (ce_qname cent) = Some (Some a, loc')" using cache_find_total [OF I(3) ks(1), of "[]"] ks(2) by auto
  moreover have "purge_cache now (cache_limit cf) True c1 = Some c1"
    using assms(6) by (cases "rrset_l (dc_rrl c1)") (simp_all add: purge_cache_def pass_some)
  then have "add_cache cf fails now cent c = Some c1" using assms(3-5) by (subst add_cache.simps) auto
  ultimately show ?thesis using I(1,2) by (intro exI [of _ c1] exI [of _ a] exI [of _ ce] exI [of _ loc']) simp
qed

text \<open>A cache with one entry.\<close>

lemma insert_ex:
  obtains loc c1 where "cache_find dc_init (ce_qname cent_ex) = Some (None, loc)" "add_new_cent conf_ex (\<lambda>_. False) cent_ex loc dc_init = Some (True, c1)"
    "dc_cache_size c1 \<le> cache_limit conf_ex"
proof -
  have "do { (r, loc) \<leftarrow> cache_find dc_init (ce_qname cent_ex); (b, c1) \<leftarrow> add_new_cent conf_ex (\<lambda>_. False) cent_ex loc dc_init;
      Some (r = None \<and> b \<and> dc_cache_size c1 \<le> cache_limit conf_ex) } = Some True" by code_simp
  then have "\<exists>loc c1. cache_find dc_init (ce_qname cent_ex) = Some (None, loc) \<and> add_new_cent conf_ex (\<lambda>_. False) cent_ex loc dc_init = Some (True, c1) \<and>
    dc_cache_size c1 \<le> cache_limit conf_ex" by (auto simp: bind_eq_Some_conv)
  then show ?thesis by (elim exE conjE) (rule that)
qed

lemma cache_ex:
  obtains c a ce loc where "add_cache conf_ex (\<lambda>_. False) 0 cent_ex dc_init = Some c" "cache_ok 0 c" "list_len c + NRRTOT < 2 ^ NTMPSORT" "all_linked c"
    "cache_find c (enc_name [[97]]) = Some (Some a, loc)" "dc_cents c a = Some ce"
proof -
  have al: "all_linked dc_init" by (simp add: all_linked_def dc_init_def)
  obtain loc c1 where e: "cache_find dc_init (ce_qname cent_ex) = Some (None, loc)" "add_new_cent conf_ex (\<lambda>_. False) cent_ex loc dc_init = Some (True, c1)"
    "dc_cache_size c1 \<le> cache_limit conf_ex" by (rule insert_ex)
  have "ce_num_rrs cent_ex \<noteq> 0 \<or> is_neg cent_ex" "ce_qname cent_ex = enc_name [[97]]" by (simp_all add: cent_ex_def)
  then obtain c a ce loc' where c: "add_cache conf_ex (\<lambda>_. False) 0 cent_ex dc_init = Some c" "cache_find c (enc_name [[97]]) = Some (Some a, loc')"
    "dc_cents c a = Some ce" using insert_stored [OF init_ok cent_ex_ok _ e, of 0] by auto
  have "cache_ok 0 c" "list_len c \<le> NRRTOT" "all_linked c"
    using add_cache_ok [OF init_ok cent_ex_ok init_len(2), of conf_ex "\<lambda>_. False" 0] c(1) al init_len(1) by (auto simp: added_ok_def)
  then show ?thesis by (intro that [OF c(1) _ _ _ c(2,3)]) (simp_all add: NRRTOT_def NTMPSORT_def)
qed

subsection \<open>Steps\<close>

text \<open>What callers hold: copies of entries, with their addresses, and copies of sets.\<close>

datatype held_copy = Held_cent nat dns_cent | Held_set rr_set

fun copy_size :: "held_copy \<Rightarrow> int" where
  "copy_size (Held_cent a ce) = 1 + cent_blocks ce"
| "copy_size (Held_set rs) = set_blocks rs"

type_synonym cache_hist = "held_copy list \<times> dcache"

fun hold_cent :: "(nat \<times> dns_cent) option \<Rightarrow> held_copy list \<Rightarrow> held_copy list" where
  "hold_cent None L = L"
| "hold_cent (Some (a, ce)) L = Held_cent a ce # L"

fun hold_set :: "rr_set option \<Rightarrow> held_copy list \<Rightarrow> held_copy list" where
  "hold_set None L = L"
| "hold_set (Some rs) L = Held_set rs # L"

text \<open>
  The callers' copies and the cache. Every operation that changes the cache is a step, but for
  \<open>add_reverse_cache\<close>, which attaches sets to an entry without counting them, and \<open>read_disk_cache\<close>. The entries added
  are well formed: what \<open>cent_ok\<close> says of an entry built by \<open>init_cent\<close> and \<open>add_cent_rr\<close>. The lookups of the domain
  that owns a name (\<open>getlocalowner\<close>) only read.
\<close>

inductive cache_step :: "cache_conf \<Rightarrow> cache_hist \<Rightarrow> cache_hist \<Rightarrow> bool" for cf where
  add: "cent_ok cent \<Longrightarrow> list_len c + NRRTOT < 2 ^ NTMPSORT \<Longrightarrow> add_cache cf fails now cent c = Some c' \<Longrightarrow> cache_step cf (L, c) (L, c')"
| purge: "list_len c < 2 ^ NTMPSORT \<Longrightarrow> purge_cache now sz lazy c = Some c' \<Longrightarrow> cache_step cf (L, c) (L, c')"
| find_hit: "name_ok ks \<Longrightarrow> lookup_ro fails now (enc_name ks) wild c = Some (Some (cp, w), c') \<Longrightarrow>
    cache_step cf (L, c) (hold_cent cp L, c')"
| find_refresh: "name_ok ks \<Longrightarrow> lookup_rw fails now (enc_name ks) wild c = Some ((cp, w), c') \<Longrightarrow>
    cache_step cf (L, c) (hold_cent cp L, c')"
| find_local: "list_all lab_len ks \<Longrightarrow> lookup_cache_local_rrset fails (enc_name ks) type c = Some (r, c') \<Longrightarrow>
    cache_step cf (L, c) (hold_set r L, c')"
| release: "free_cent ce c = Some c' \<Longrightarrow> cache_step cf (L1 @ Held_cent a ce # L2, c) (L1 @ L2, cache_free c')"
| release_set: "del_rrset rs c = Some (sz, c') \<Longrightarrow> cache_step cf (L1 @ Held_set rs # L2, c) (L1 @ L2, c')"
| delete: "list_all lab_len ks \<Longrightarrow> del_cache (enc_name ks) c = Some c' \<Longrightarrow> cache_step cf (L, c) (L, c')"
| invalidate: "list_all lab_len ks \<Longrightarrow> invalidate_record (enc_name ks) c = Some c' \<Longrightarrow> cache_step cf (L, c) (L, c')"
| set_flags: "list_all lab_len ks \<Longrightarrow> flags AND DF_NEGATIVE = 0 \<Longrightarrow> set_cent_flags (enc_name ks) flags c = Some (b, c') \<Longrightarrow>
    cache_step cf (L, c) (L, c')"
| empty_bucket: "i < HASH_NUM_BUCKETS \<Longrightarrow> sla_ok sla \<Longrightarrow> empty_buckets (\<lambda>c. c) sla i 1 c = Some c' \<Longrightarrow> cache_step cf (L, c) (L, c')"

inductive cache_reach :: "cache_conf \<Rightarrow> cache_hist \<Rightarrow> bool" for cf where
  start: "cache_reach cf ([], dc_init)"
| step: "cache_reach cf s \<Longrightarrow> cache_step cf s s' \<Longrightarrow> cache_reach cf s'"

inductive_cases cache_stepE: "cache_step cf (L, c) s'"

subsection \<open>The invariant\<close>

definition held_blocks :: "held_copy list \<Rightarrow> int" where
  "held_blocks L = sum_list (map copy_size L)"

lemma held_blocks_simps [simp]: "held_blocks [] = 0" "held_blocks (L1 @ L2) = held_blocks L1 + held_blocks L2"
  "held_blocks (x # L) = copy_size x + held_blocks L"
  by (simp_all add: held_blocks_def)

text \<open>Nothing in the cache refers to what callers hold.\<close>

fun held_ok :: "held_copy \<Rightarrow> bool" where
  "held_ok (Held_cent a ce) \<longleftrightarrow> cent_ok ce \<and> cent_lents ce = []"
| "held_ok (Held_set rs) \<longleftrightarrow> rs_lent rs = None"

definition hist_ok :: "cache_hist \<Rightarrow> bool" where
  "hist_ok s \<longleftrightarrow> cache_ok (held_blocks (fst s)) (snd s) \<and> all_linked (snd s) \<and> (\<forall>x \<in> set (fst s). held_ok x)"

lemma hist_keep: "hist_ok (L, c) \<Longrightarrow> cache_ok (held_blocks L) c' \<Longrightarrow> all_linked c' \<Longrightarrow> hist_ok (L, c')"
  by (simp add: hist_ok_def)

lemma hist_copy:
  assumes "hist_ok (L, c)" "cache_ok (held_blocks L + copy_blocks cp) c'" "all_linked c'" "handed_out now cp"
  shows "hist_ok (hold_cent cp L, c')"
proof (cases cp)
  case (Some x)
  obtain a ce where "x = (a, ce)" by (cases x)
  then show ?thesis using assms Some by (simp add: hist_ok_def handed_out_def copy_blocks_def ac_simps)
qed (use assms in \<open>simp add: hist_ok_def copy_blocks_def\<close>)

lemma hist_set:
  assumes "hist_ok (L, c)" "cache_ok (held_blocks L + opt_int set_blocks r) c'" "all_linked c'" "\<forall>rs. r = Some rs \<longrightarrow> rs_lent rs = None"
  shows "hist_ok (hold_set r L, c')"
  using assms by (cases r) (simp_all add: hist_ok_def opt_int_def ac_simps)

lemma release_ok:
  assumes c: "cache_ok (k + (1 + cent_blocks ce)) c" and ok: "cent_ok ce" "cent_lents ce = []"
  shows "\<exists>c'. free_cent ce c = Some c' \<and> cache_ok k (cache_free c') \<and> dc_cents (cache_free c') = dc_cents c"
proof -
  obtain xs m where inv: "cache_inv xs m {} 0 (k + (1 + cent_blocks ce)) c" using c by (auto simp: cache_ok_def)
  obtain c1 where f: "free_cent ce c = Some c1" "effect xs c (- cent_blocks ce) (cent_lents ce) c1"
    using free_cent_ok [OF cent_ok_shaped [OF ok(1)] cache_invD(1) [OF inv]] ok(2) by auto
  define c2 where "c2 = c1\<lparr>dc_live := dc_live c1 + cent_blocks ce\<rparr>"
  have "effect xs c 0 [] c2" using f(2) unfolding ok(2) effect_def c2_def by (simp add: frame_def)
  from effect_inv [OF inv this] have i: "cache_inv xs m {} 0 (k + (1 + cent_blocks ce)) c2" .
  have "cache_inv xs m {} 0 k (cache_free c1)" by (rule counters_inv [OF i]) (simp_all add: c2_def cache_free_def)
  moreover have "dc_cents (cache_free c1) = dc_cents c" using f(2) by (simp add: effect_def frame_def cache_free_def)
  ultimately show ?thesis using f(1) by (auto simp: cache_ok_def)
qed

lemma purge_ok:
  assumes "cache_ok k c" "list_len c < 2 ^ NTMPSORT"
  shows "\<exists>c'. purge_cache now sz lazy c = Some c' \<and> cache_ok k c' \<and> purged c c' \<and> list_len c' \<le> list_len c \<and>
    (all_linked c \<longrightarrow> all_linked c' \<and> within sz c')"
proof -
  obtain xs m where inv: "cache_inv xs m {} 0 k c" using assms(1) by (auto simp: cache_ok_def)
  have l: "length xs < 2 ^ NTMPSORT" using assms(2) list_len_eq [OF inv] by simp
  obtain c' xs' m' where P: "purge_cache now sz lazy c = Some c'" "cache_inv xs' m' {} 0 k c'" "length xs' \<le> length xs" "purged c c'"
    "all_linked c \<longrightarrow> all_linked c' \<and> within sz c'" using purge_within [OF inv l] by blast
  then show ?thesis using list_len_eq [OF P(2)] list_len_eq [OF inv] by (auto simp: cache_ok_def)
qed

lemma bucket_ok:
  assumes "cache_ok k c" "i < HASH_NUM_BUCKETS" "sla_ok sla"
  shows "\<exists>c'. empty_buckets (\<lambda>c. c) sla i 1 c = Some c' \<and> cache_ok k c'"
proof -
  obtain xs m where inv: "cache_inv xs m {} 0 k c" using assms(1) by (auto simp: cache_ok_def)
  obtain t dels c' xs' m' where B: "(case sla of
        Some sla \<Rightarrow> free_dns_hash_selected (dc_table c) (cent_name c) i sla
      | None \<Rightarrow> free_dns_hash_bucket (dc_table c) i []) = Some (t, dels)" "del_cents dels (c\<lparr>dc_table := t\<rparr>) = Some c'"
    "cache_inv xs' m' {} 0 k c'" using bucket_emptied [OF inv assms(2,3)] by blast
  then show ?thesis by (intro exI [of _ c']) (auto simp: cache_ok_def)
qed

lemma hist_okD: "hist_ok (L, c) \<Longrightarrow> cache_ok (held_blocks L) c" "hist_ok (L, c) \<Longrightarrow> all_linked c"
  by (simp_all add: hist_ok_def)

lemma step_hist_ok:
  assumes "cache_step cf s s'" "hist_ok s"
  shows "hist_ok s'"
  using assms
proof (induction rule: cache_step.induct)
  case (add cent c fails now c' L)
  note h = hist_okD [OF add.prems]
  from add_cache_ok [OF h(1) add.hyps(1,2), of cf fails now] have "cache_ok (held_blocks L) c'" "all_linked c'"
    using add.hyps(3) h(2) by (auto simp: added_ok_def)
  then show ?case by (rule hist_keep [OF add.prems])
next
  case (purge c now sz lazy c' L)
  note h = hist_okD [OF purge.prems]
  from purge_ok [OF h(1) purge.hyps(1), of now sz lazy] have "cache_ok (held_blocks L) c'" "all_linked c'"
    using purge.hyps(2) h(2) by auto
  then show ?case by (rule hist_keep [OF purge.prems])
next
  case (find_hit ks fails now wild c cp w c' L)
  note h = hist_okD [OF find_hit.prems]
  obtain xs m where inv: "cache_inv xs m {} 0 (held_blocks L) c" using h(1) by (auto simp: cache_ok_def)
  have R: "cache_inv xs m {} 0 (held_blocks L + copy_blocks cp) c'" "handed_out now cp" "dc_cents c' = dc_cents c"
    using lookup_ro_ok [OF inv find_hit.hyps(1), of fails now wild] find_hit.hyps(2) by auto
  have "cache_ok (held_blocks L + copy_blocks cp) c'" "all_linked c'" using R(1) all_linked_cong [OF R(3)] h(2) by (auto simp: cache_ok_def)
  then show ?case by (rule hist_copy [OF find_hit.prems _ _ R(2)])
next
  case (find_refresh ks fails now wild c cp w c' L)
  note h = hist_okD [OF find_refresh.prems]
  from h(1) have R: "cache_ok (held_blocks L + copy_blocks cp) c'" "handed_out now cp"
    using lookup_rw_ok [OF _ find_refresh.hyps(1), of "held_blocks L" c fails now wild] find_refresh.hyps(2) by auto
  show ?case by (rule hist_copy [OF find_refresh.prems R(1) lookup_rw_linked [OF h(1) find_refresh.hyps h(2)] R(2)])
next
  case (find_local ks fails type c r c' L)
  note h = hist_okD [OF find_local.prems]
  from lookup_local_ok [OF h(1) find_local.hyps(1), of fails type] have R: "cache_ok (held_blocks L + opt_int set_blocks r) c'"
    "dc_cents c' = dc_cents c" "\<forall>rs. r = Some rs \<longrightarrow> rs_lent rs = None" using find_local.hyps(2) by auto
  show ?case by (rule hist_set [OF find_local.prems R(1) _ R(3)]) (use all_linked_cong [OF R(2)] h(2) in simp)
next
  case (release ce c c' L1 a L2)
  have h: "cache_ok (held_blocks (L1 @ L2) + (1 + cent_blocks ce)) c" "cent_ok ce" "cent_lents ce = []" "all_linked c"
    "\<forall>x \<in> set (L1 @ L2). held_ok x" using release.prems by (simp_all add: hist_ok_def ac_simps)
  have R: "cache_ok (held_blocks (L1 @ L2)) (cache_free c')" "dc_cents (cache_free c') = dc_cents c"
    using release_ok [OF h(1-3)] release.hyps by auto
  show ?case using R(1) all_linked_cong [OF R(2)] h(4,5) by (simp add: hist_ok_def)
next
  case (release_set rs c sz c' L1 L2)
  have h: "cache_ok (held_blocks (L1 @ L2) + set_blocks rs) c" "rs_lent rs = None" "all_linked c"
    "\<forall>x \<in> set (L1 @ L2). held_ok x" using release_set.prems by (simp_all add: hist_ok_def ac_simps)
  have R: "cache_ok (held_blocks (L1 @ L2)) c'" "dc_cents c' = dc_cents c"
    using release_set_ok [OF h(1,2)] release_set.hyps by auto
  show ?case using R(1) all_linked_cong [OF R(2)] h(3,4) by (simp add: hist_ok_def)
next
  case (delete ks c c' L)
  note h = hist_okD [OF delete.prems]
  have "cache_ok (held_blocks L) c'" using del_cache_ok [OF h(1) delete.hyps(1)] delete.hyps(2) by auto
  then show ?case by (rule hist_keep [OF delete.prems _ del_cache_linked [OF h(1) delete.hyps h(2)]])
next
  case (invalidate ks c c' L)
  note h = hist_okD [OF invalidate.prems]
  have "cache_ok (held_blocks L) c'" using invalidate_record_ok [OF h(1) invalidate.hyps(1)] invalidate.hyps(2) by auto
  then show ?case by (rule hist_keep [OF invalidate.prems _ invalidate_linked [OF h(1) invalidate.hyps h(2)]])
next
  case (set_flags ks flags c b c' L)
  note h = hist_okD [OF set_flags.prems]
  have "cache_ok (held_blocks L) c'" using set_cent_flags_ok [OF h(1) set_flags.hyps(1,2)] set_flags.hyps(3) by auto
  then show ?case by (rule hist_keep [OF set_flags.prems _ set_flags_linked [OF h(1) set_flags.hyps h(2)]])
next
  case (empty_bucket i sla c c' L)
  note h = hist_okD [OF empty_bucket.prems]
  have "cache_ok (held_blocks L) c'" using bucket_ok [OF h(1) empty_bucket.hyps(1,2)] empty_bucket.hyps(3) by auto
  then show ?case by (rule hist_keep [OF empty_bucket.prems _ bucket_linked [OF h(1) empty_bucket.hyps h(2)]])
qed

lemma reach_hist_ok: "cache_reach cf s \<Longrightarrow> hist_ok s"
proof (induction rule: cache_reach.induct)
  case start
  have "all_linked dc_init" by (simp add: all_linked_def dc_init_def)
  then show ?case using init_ok by (simp add: hist_ok_def)
qed (rule step_hist_ok)

subsection \<open>Histories\<close>

lemma reach_add: "cache_reach cf (L, c) \<Longrightarrow> cent_ok cent \<Longrightarrow> list_len c + NRRTOT < 2 ^ NTMPSORT \<Longrightarrow>
    add_cache cf fails now cent c = Some c' \<Longrightarrow> cache_reach cf (L, c')"
  by (rule cache_reach.step, assumption) (rule cache_step.add)

text \<open>C27: whatever of these steps threads take, in whatever order and with memory running out at any point, the list by age,
  the table of names and the entries agree, the counters of size and entries are exact, every set and negative entry that
  is not local has its place in the list, and the blocks allocated are those of the cache and those of the copies of
  entries and sets that callers have not freed. The steps are all operations that change the cache but for
  \<open>add_reverse_cache\<close> and the reading of the cache file; the entries added are well formed.\<close>

theorem cache_history_consistent:
  assumes "cache_reach cf (L, c)"
  shows "cache_ok (held_blocks L) c \<and> all_linked c"
  using reach_hist_ok [OF assms] by (simp add: hist_ok_def)

theorem cache_history_consistent_witness:
  "\<exists>c. add_cache conf_ex (\<lambda>_. False) 0 cent_ex dc_init = Some c \<and> cache_reach conf_ex ([], c) \<and> cache_ok (held_blocks []) c \<and> all_linked c"
proof -
  obtain c where c: "add_cache conf_ex (\<lambda>_. False) 0 cent_ex dc_init = Some c" by (rule cache_ex)
  have "cache_reach conf_ex ([], c)" by (rule reach_add [OF cache_reach.start cent_ex_ok init_len(2) c])
  then show ?thesis using cache_history_consistent c by blast
qed

text \<open>C28: after any history, destroying the cache frees every block of it: what is left allocated are the copies
  that callers hold.\<close>

theorem cache_history_no_leak:
  assumes "cache_reach cf (L, c)"
  shows "\<exists>c'. destroy_cache True c = Some c' \<and> dc_live c' = held_blocks L \<and> dc_cents c' = Map.empty"
  using destroy_cache_ok [of "held_blocks L" c] reach_hist_ok [OF assms] by (auto simp: hist_ok_def)

theorem cache_history_no_leak_witness:
  "\<exists>c c'. add_cache conf_ex (\<lambda>n. n = 5) 0 cent_ex dc_init = Some c \<and> destroy_cache True c = Some c' \<and> dc_live c' = 0"
proof -
  obtain c where c: "add_cache conf_ex (\<lambda>n. n = 5) 0 cent_ex dc_init = Some c" using add_cache_ok [OF init_ok cent_ex_ok init_len(2)] by blast
  have "cache_reach conf_ex ([], c)" by (rule reach_add [OF cache_reach.start cent_ex_ok init_len(2) c])
  from cache_history_no_leak [OF this] show ?thesis using c by auto
qed

text \<open>C35: adding an entry returns in every consistent cache, whether or not memory runs out; so does the recursive
  call after a negative answer has replaced an entry.\<close>

theorem cache_add_returns:
  assumes "cache_ok k c" "cent_ok cent" "list_len c + NRRTOT < 2 ^ NTMPSORT"
  shows "\<exists>c'. add_cache cf fails now cent c = Some c'"
  using add_cache_ok [OF assms] by blast

theorem cache_add_returns_witness: "\<exists>c'. add_cache conf_ex (\<lambda>n. n = 3) 0 cent_ex dc_init = Some c'"
  by (rule cache_add_returns [OF init_ok cent_ex_ok init_len(2)])

text \<open>C29: a cache, reached by any history, that is within its limit is so after an entry was added, provided no
  allocation fails in this: the size is at most that limit, or the cache holds nothing that could be purged (local data,
  and possibly entries that have no set at all).\<close>

theorem cache_add_bounded:
  assumes "cache_reach cf (L, c)" "within (cache_limit cf) c" "cent_ok cent" "list_len c + NRRTOT < 2 ^ NTMPSORT"
  shows "\<exists>c'. add_cache cf (\<lambda>_. False) now cent c = Some c' \<and> within (cache_limit cf) c'"
proof -
  have "cache_ok (held_blocks L) c" "all_linked c" using reach_hist_ok [OF assms(1)] by (simp_all add: hist_ok_def)
  then show ?thesis using add_cache_ok [OF _ assms(3,4), of "held_blocks L" cf "\<lambda>_. False" now] assms(2) by (auto simp: added_ok_def)
qed

theorem cache_add_bounded_witness:
  "\<exists>c'. add_cache conf_ex (\<lambda>_. False) 0 cent_ex dc_init = Some c' \<and> within (cache_limit conf_ex) c'"
  by (rule cache_add_bounded [OF cache_reach.start _ cent_ex_ok init_len(2)]) (simp add: within_def dc_init_def)

text \<open>C30: an answer from outside, with no local data of its own, never touches local data: every entry with local sets
  is still there afterwards, with these sets.\<close>

theorem cache_add_keeps_local:
  assumes "cache_ok k c" "cent_ok cent" "no_locals cent" "list_len c + NRRTOT < 2 ^ NTMPSORT" "add_cache cf fails now cent c = Some c'"
  shows "locals_kept c c'"
  using add_cache_ok [OF assms(1,2,4), of cf fails now] assms(3,5) by (auto simp: added_ok_def)

theorem cache_add_keeps_local_witness:
  "\<exists>c c'. add_cache conf_ex (\<lambda>_. False) 0 cent_ex dc_init = Some c \<and> add_cache conf_ex (\<lambda>_. False) 9 cent_ex c = Some c' \<and> locals_kept c c'"
proof -
  obtain c where c: "add_cache conf_ex (\<lambda>_. False) 0 cent_ex dc_init = Some c" "cache_ok 0 c" "list_len c + NRRTOT < 2 ^ NTMPSORT" by (rule cache_ex)
  obtain c' where "add_cache conf_ex (\<lambda>_. False) 9 cent_ex c = Some c'" using add_cache_ok [OF c(2) cent_ex_ok c(3)] by blast
  then show ?thesis using cache_add_keeps_local [OF c(2) cent_ex_ok cent_ex_simps(3) c(3)] c(1) by blast
qed

subsection \<open>Purging\<close>

text \<open>C37: \<open>purge_cache\<close> deletes nothing that is local: entries with the local flag and local sets are as before,
  and what is left of the other entries was there before.\<close>

theorem cache_purge_keeps_local:
  assumes "cache_ok k c" "list_len c < 2 ^ NTMPSORT" "purge_cache now sz lazy c = Some c'"
  shows "purged c c'"
  using purge_ok [OF assms(1,2), of now sz lazy] assms(3) by auto

theorem cache_purge_keeps_local_witness:
  "\<exists>c c'. add_cache conf_ex (\<lambda>_. False) 0 cent_ex dc_init = Some c \<and> purge_cache 5000 0 False c = Some c' \<and> purged c c'"
proof -
  obtain c a ce loc where c: "add_cache conf_ex (\<lambda>_. False) 0 cent_ex dc_init = Some c" "cache_ok 0 c" "list_len c + NRRTOT < 2 ^ NTMPSORT" "all_linked c"
    "cache_find c (enc_name [[97]]) = Some (Some a, loc)" "dc_cents c a = Some ce" by (rule cache_ex)
  have l: "list_len c < 2 ^ NTMPSORT" using c(3) by simp
  obtain c' where "purge_cache 5000 0 False c = Some c'" using purge_ok [OF c(2) l] by blast
  then show ?thesis using cache_purge_keeps_local [OF c(2) l] c(1) by blast
qed

text \<open>C36: the second loop of \<open>purge_cache\<close>, for a cache that is too large, goes through the list by age from its front:
  the items up to some point are deleted unless they are local, those after it are kept. The point is the first at which
  the size is low enough: before each item up to it, with those before that deleted, the cache was still too large;
  and if it is never low enough the point is the end of the list. When the list is in the order of the time stamps, to which
  \<open>sort_rrl\<close> brings it, nothing that is deleted is newer than anything after that point.\<close>

theorem cache_purge_oldest_first:
  assumes "cache_inv xs m {} 0 k c"
  shows "\<exists>c' n. purge_pass purge_any sz True (rrset_l (dc_rrl c)) c = Some c' \<and> stops_at sz xs n c c' \<and>
    rl_rep (dc_rrl c') (filter (protected c) (take n xs) @ drop n xs) \<and>
    (sorted (map (age_key c) xs) \<longrightarrow> (\<forall>x \<in> set (take n xs). \<forall>y \<in> set (drop n xs). age_key c x \<le> age_key c y))"
proof -
  obtain c' n where P: "purge_pass purge_any sz True (rrset_l (dc_rrl c)) c = Some c'" "stops_at sz xs n c c'"
    "rl_rep (dc_rrl c') (filter (protected c) (take n xs) @ drop n xs)" using purge_list_stops [OF assms] by blast
  have "\<forall>x \<in> set (take n xs). \<forall>y \<in> set (drop n xs). age_key c x \<le> age_key c y" if "sorted (map (age_key c) xs)"
    using that sorted_append [of "map (age_key c) (take n xs)" "map (age_key c) (drop n xs)"] by (simp flip: map_append)
  then show ?thesis using P by blast
qed

theorem cache_purge_oldest_first_witness:
  "\<exists>c xs c' n. add_cache conf_ex (\<lambda>_. False) 0 cent_ex dc_init = Some c \<and> rl_rep (dc_rrl c) xs \<and>
    purge_pass purge_any 0 True (rrset_l (dc_rrl c)) c = Some c' \<and> stops_at 0 xs n c c' \<and>
    rl_rep (dc_rrl c') (filter (protected c) (take n xs) @ drop n xs)"
proof -
  obtain c a ce loc where c: "add_cache conf_ex (\<lambda>_. False) 0 cent_ex dc_init = Some c" "cache_ok 0 c" "list_len c + NRRTOT < 2 ^ NTMPSORT" "all_linked c"
    "cache_find c (enc_name [[97]]) = Some (Some a, loc)" "dc_cents c a = Some ce" by (rule cache_ex)
  obtain xs m where inv: "cache_inv xs m {} 0 0 c" using c(2) by (auto simp: cache_ok_def)
  show ?thesis using cache_purge_oldest_first [OF inv, of 0] cache_invD(1) [OF inv] c(1) by blast
qed

subsection \<open>Finding what was added\<close>



text \<open>C32: merging an answer into the entry of its name, when no allocation fails, leaves exactly the sets that the
  reference on their contents says: expired sets go first, then each set of the answer replaces the old one of its type
  unless local data or a better source prevails, is refused or removes the sets in conflict with it by comparison
  of the times left, and has its time to live brought into the configured range.\<close>

theorem cache_merge_exact:
  assumes "cache_inv xs m {} 0 k c" "dc_cents c a = Some ce" "cent_ok cent" "\<not> is_neg cent"
  shows "\<exists>c' ce'. merge_cent cf (\<lambda>_. False) now cent a c = Some (True, c') \<and> dc_cents c' = (dc_cents c)(a \<mapsto> ce') \<and>
    cent_contents ce' = merge_spec cf now (local_cent ce) (cent_contents cent) (drop_expired now (cent_contents ce))"
  by (rule merge_cent_exact [OF assms])

theorem cache_merge_exact_witness:
  "\<exists>c a ce c' ce'. add_cache conf_ex (\<lambda>_. False) 0 cent_ex dc_init = Some c \<and> dc_cents c a = Some ce \<and>
    merge_cent conf_ex (\<lambda>_. False) 1100 cent_ex a c = Some (True, c') \<and> dc_cents c' = (dc_cents c)(a \<mapsto> ce') \<and>
    cent_contents ce' = merge_spec conf_ex 1100 (local_cent ce) (cent_contents cent_ex) (drop_expired 1100 (cent_contents ce))"
proof -
  obtain c a ce loc where c: "add_cache conf_ex (\<lambda>_. False) 0 cent_ex dc_init = Some c" "cache_ok 0 c" "list_len c + NRRTOT < 2 ^ NTMPSORT" "all_linked c"
    "cache_find c (enc_name [[97]]) = Some (Some a, loc)" "dc_cents c a = Some ce" by (rule cache_ex)
  obtain xs m where inv: "cache_inv xs m {} 0 0 c" using c(2) by (auto simp: cache_ok_def)
  from cache_merge_exact [OF inv c(6) cent_ex_ok cent_ex_simps(1)] show ?thesis using c(1,6) by blast
qed

subsection \<open>Lookups\<close>

text \<open>C34: the search of \<open>lookup_cache\<close> up the hierarchy of domains, over the bytes of the name, is the search over its
  labels with the map from names to entries: the nearest enclosing domain that is in the cache decides, by its flags.\<close>

theorem cache_wild_search:
  assumes "cache_inv xs m {} 0 k c" "name_ok ks"
  shows "find_wild c (enc_name ks) wild = Some (if wild \<and> m (map lower ks) = None then wild_spec m (dc_cents c) ks else (m (map lower ks), 0))"
  by (rule find_wild_ok [OF assms])

theorem cache_wild_search_witness:
  "\<exists>c m. add_cache conf_ex (\<lambda>_. False) 0 cent_ex dc_init = Some c \<and>
    find_wild c (enc_name [[98], [97]]) True = Some (if True \<and> m (map lower [[98], [97]]) = None then wild_spec m (dc_cents c) [[98], [97]]
      else (m (map lower [[98], [97]]), 0))"
proof -
  obtain c a ce loc where c: "add_cache conf_ex (\<lambda>_. False) 0 cent_ex dc_init = Some c" "cache_ok 0 c" "list_len c + NRRTOT < 2 ^ NTMPSORT" "all_linked c"
    "cache_find c (enc_name [[97]]) = Some (Some a, loc)" "dc_cents c a = Some ce" by (rule cache_ex)
  obtain xs m where inv: "cache_inv xs m {} 0 0 c" using c(2) by (auto simp: cache_ok_def)
  have "name_ok [[98], [97]]" by (simp add: name_ok_def label_ok_def DNSNAMEBUFSIZE_def)
  from cache_wild_search [OF inv this, of True] show ?thesis using c(1) by blast
qed

text \<open>C33: what \<open>lookup_cache\<close> hands out. When no other thread runs between its two parts and no allocation fails: the
  entry that the search selects is copied without its sets that are timed out, except that local sets and those not to be
  purged stay; nothing is handed out only if the search finds nothing or nothing of the entry is left. In any case, whatever
  other threads do while the lock is free and whichever allocations fail, it returns, and what it hands out is a well-formed
  copy with no set that \<open>purge_rrset\<close> would delete, to which nothing in the cache refers.\<close>

theorem cache_lookup_exact:
  assumes "cache_inv xs m {} 0 k c" "name_ok ks" "others_ok others"
  shows "(\<exists>cp w c'. lookup_cache (\<lambda>_. False) (\<lambda>c. c) now (enc_name ks) wild c = Some ((cp, w), c') \<and>
      w = snd (search_spec m (dc_cents c) ks wild) \<and>
      found_copy now (Option.bind (fst (search_spec m (dc_cents c) ks wild)) (dc_cents c)) cp) \<and>
    (\<exists>cp w c'. lookup_cache fails others now (enc_name ks) wild c = Some ((cp, w), c') \<and> handed_out now cp)"
proof
  have "cache_ok k c" using assms(1) by (auto simp: cache_ok_def)
  from lookup_cache_ok [OF this assms(2,3), of fails now wild]
  show "\<exists>cp w c'. lookup_cache fails others now (enc_name ks) wild c = Some ((cp, w), c') \<and> handed_out now cp" by blast
qed (rule lookup_cache_exact [OF assms(1,2)])

theorem cache_lookup_exact_witness:
  "\<exists>c m cp w c'. add_cache conf_ex (\<lambda>_. False) 0 cent_ex dc_init = Some c \<and>
    lookup_cache (\<lambda>_. False) (\<lambda>c. c) 1100 (enc_name [[97]]) True c = Some ((cp, w), c') \<and>
    found_copy 1100 (Option.bind (fst (search_spec m (dc_cents c) [[97]] True)) (dc_cents c)) cp"
proof -
  obtain c a ce loc where c: "add_cache conf_ex (\<lambda>_. False) 0 cent_ex dc_init = Some c" "cache_ok 0 c" "list_len c + NRRTOT < 2 ^ NTMPSORT" "all_linked c"
    "cache_find c (enc_name [[97]]) = Some (Some a, loc)" "dc_cents c a = Some ce" by (rule cache_ex)
  obtain xs m where inv: "cache_inv xs m {} 0 0 c" using c(2) by (auto simp: cache_ok_def)
  have o: "others_ok (\<lambda>c. c)" by (simp add: others_ok_def)
  from cache_lookup_exact [OF inv name_ex o, of 1100 True] show ?thesis using c(1) by blast
qed

subsection \<open>Deleting\<close>

text \<open>C38: emptying the cache with an include/exclude list, when no other thread runs while the lock is given up between
  the buckets, deletes exactly the entries whose names the list selects: those for which the first rule that matches the
  name is one that includes; all of them when there is no list. A rule matches its domain, in any case, and unless it is exact
  the names below it. The other entries are as before and the cache is consistent. When other threads do run in between, and
  keep the cache consistent, it returns and the cache is consistent.\<close>

theorem cache_empty_exact:
  assumes "cache_ok k c" "rules_of sla rules" "others_ok others"
  shows "(\<exists>c'. empty_cache (\<lambda>c. c) True sla c = Some (True, c') \<and> cache_ok k c' \<and>
      (\<forall>a ce ks. dc_cents c a = Some ce \<and> name_ok ks \<and> ce_qname ce = enc_name ks \<longrightarrow>
        dc_cents c' a = (if name_selected rules ks then None else Some ce)) \<and> (\<forall>a. dc_cents c a = None \<longrightarrow> dc_cents c' a = None)) \<and>
    (\<exists>c'. empty_cache others True sla c = Some (True, c') \<and> consistent c')"
  using empty_cache_exact [OF assms(1,2)] empty_cache_ok [OF assms(1) rules_ok [OF assms(2)] assms(3)] by blast

definition sla_ex :: "slist list" where
  "sla_ex = [\<lparr>sl_domain = enc_name [[97]], sl_exact = False, sl_included = True\<rparr>]"

theorem cache_empty_exact_witness:
  "\<exists>c c' a. add_cache conf_ex (\<lambda>_. False) 0 cent_ex dc_init = Some c \<and> dc_cents c a \<noteq> None \<and>
    empty_cache (\<lambda>c. c) True (Some sla_ex) c = Some (True, c') \<and> dc_cents c' a = None"
proof -
  obtain c a ce loc where c: "add_cache conf_ex (\<lambda>_. False) 0 cent_ex dc_init = Some c" "cache_ok 0 c" "list_len c + NRRTOT < 2 ^ NTMPSORT" "all_linked c"
    "cache_find c (enc_name [[97]]) = Some (Some a, loc)" "dc_cents c a = Some ce" by (rule cache_ex)
  have "list_all2 rule_of sla_ex [([[97]], False, True)]" using name_ex by (simp add: sla_ex_def rule_of_def)
  then have r: "rules_of (Some sla_ex) (Some [([[97]], False, True)])" by (simp add: rules_of_def)
  have o: "others_ok (\<lambda>c. c)" by (simp add: others_ok_def)
  obtain xs m where inv: "cache_inv xs m {} 0 0 c" using c(2) by (auto simp: cache_ok_def)
  have nm: "m (map lower [[97]]) = Some a" using cache_find_total [OF inv name_ok_lab_len [OF name_ex], of "[]"] c(5) by auto
  obtain ks where ks: "name_ok ks" "ce_qname ce = enc_name ks" using cache_invD(5) [OF inv c(6)] by (auto simp: cent_ok_def named_def)
  obtain ks' where k': "ce_qname ce = enc_name ks'" "list_all lab_len ks'" "map lower ks' = map lower [[97]]"
    using cache_inv_key [OF inv nm] c(6) by (metis option.inject)
  have "ks' = ks" by (rule enc_name_inj [OF k'(2) name_ok_lab_len [OF ks(1)]]) (use k'(1) ks(2) in simp)
  note ks3 = k'(3) [unfolded this]
  have "name_selected (Some [([[97]], False, True)]) ks" unfolding name_selected_def option.case
    by (rule exI [of _ "[]"], rule exI [of _ "[[97]]"], rule exI [of _ False], rule exI [of _ "[]"]) (simp add: rule_matches_def ks3)
  then show ?thesis using cache_empty_exact [OF c(2) r o] c(1,6) ks(1,2) by fastforce
qed

text \<open>\<open>invalidate_record\<close> resets the time stamps of all sets of the name's entry, and nothing else but the flag
  of authority.\<close>

theorem cache_invalidate_exact:
  assumes "cache_ok k c" "list_all lab_len ks" "cache_find c (enc_name ks) = Some (Some a, loc)" "dc_cents c a = Some ce"
  shows "\<exists>c' ce'. invalidate_record (enc_name ks) c = Some c' \<and> dc_cents c' = (dc_cents c)(a \<mapsto> ce') \<and> invalidated ce ce'"
  using invalidate_record_ok [OF assms(1,2)] assms(3,4) by auto

theorem cache_invalidate_exact_witness:
  "\<exists>c a ce c' ce'. add_cache conf_ex (\<lambda>_. False) 0 cent_ex dc_init = Some c \<and> dc_cents c a = Some ce \<and>
    invalidate_record (enc_name [[97]]) c = Some c' \<and> dc_cents c' = (dc_cents c)(a \<mapsto> ce') \<and> invalidated ce ce'"
proof -
  obtain c a ce loc where c: "add_cache conf_ex (\<lambda>_. False) 0 cent_ex dc_init = Some c" "cache_ok 0 c" "list_len c + NRRTOT < 2 ^ NTMPSORT" "all_linked c"
    "cache_find c (enc_name [[97]]) = Some (Some a, loc)" "dc_cents c a = Some ce" by (rule cache_ex)
  from cache_invalidate_exact [OF c(2) name_ok_lab_len [OF name_ex] c(5,6)] show ?thesis using c(1,6) by blast
qed

end
