(* ===== verification/Spec2Isabelle.thy ===== *)
theory Spec2Isabelle
  imports Tun2SocksUdp TcpClient PacketProto SocksProperties UdpGwProperties DnsCompression DnsHashFree CacheLock CacheEntryBuild CacheHistory
begin

text \<open>
  \<^bold>\<open>The native data path of the Android application.\<close> The application captures the traffic of the device with a
  VPN interface. The program tun2socks (src/app/src/main/jni/badvpn) reads IP packets from that
  interface, terminates TCP with lwIP and relays each connection through a SOCKS server; UDP
  datagrams go through a SOCKS UDP relay, except DNS queries, which are readdressed to a DNS gateway
  on the device: the caching resolver pdnsd (src/app/src/main/jni/pdnsd).

  \<^bold>\<open>Conventions.\<close> Definitions carry the names of the C functions. A structure is a record of its fields,
  memory is a list of bytes, a pointer into it an offset; a pointer to an object that is shared or freed is
  an address in an explicit store. Integers keep their width as words where the code can wrap; sizes
  whose bounds are shown are natural numbers. A result \<open>None\<close> of an operation on memory is an access outside it
  or a failed assertion of the program, so that a theorem that a result is \<open>Some\<close> is one of memory
  safety. The compile-time choices are those of Android.mk: little-endian host, 64-bit \<open>size_t\<close>, \<open>NDEBUG\<close> for
  BadVPN, assertions on for pdnsd, IPv4 only for pdnsd. Calls into the outside (lwIP, the SOCKS socket,
  \<open>malloc\<close>, \<open>getaddrinfo\<close>) are parameters or steps of an environment that may do anything the
  interface allows.

  \<^bold>\<open>Parts.\<close>
  \<^item> Prelude: the machine types, byte-array helpers and shared lemmas.
  \<^item> ByteOrder, Checksum, IpProto, BAddr, BSize: misc/byteorder.h, misc/read\_write\_int.h,
    the headers and checksums of misc/ipv4\_proto.h, misc/ipv6\_proto.h, misc/udp\_proto.h,
    system/BAddr.h and misc/bsize.h. The checksums are related to RFC 1071.
  \<^item> Tun2SocksUdp: tun2socks/tun2socks.c, the handlers of a packet from and to the device, the table of
    DNS connections, the construction of UDP and ICMP packets. Uses all of the above.
  \<^item> TcpClient: tun2socks/tun2socks.c, \<open>struct tcp_client\<close> with its callbacks, as a state machine
    between lwIP and the SOCKS client; \<open>tc_reachable\<close> is its set of reachable states.
  \<^item> BSocksClient, SocksHandshake, SocksProperties: socksclient/BSocksClient.c, the SOCKS5 handshake; its
    dialogue as an invariant of the step relation; what its users may rely on. \<open>socks_run\<close> needs one step
    for each segment of input and three for connecting and the two packets that are sent, so a fuel of three
    more than the number of bytes is enough.
  \<^item> SocksUdpGw, UdpGwProperties: tun2socks/SocksUdpGwClient.c, the UDP relay with its table of connections.
  \<^item> PacketFifo: the contract of a packet queue as a locale; ChunkBuffer (structure/ChunkBuffer2.h)
    and PacketBuffer (flow/PacketBuffer.c) interpret it.
  \<^item> PacketProto: protocol/packetproto.h and the flow components that encode, send, decode and reassemble packets
    on a stream.
  \<^item> DnsName, DnsNameProperties: domain names in transport format, from pdnsd's helpers.c.
  \<^item> DnsMessage, DnsMessageProperties, DnsCompression: name compression in messages, from pdnsd's dns.c.
    A pointer may lead to any place of the message, so following pointers ends only because the code counts them
    and stops after 255, and copying labels because each label takes at least a byte of the 256-byte buffer; these
    are the measures of the model's loops.
  \<^item> NameTable: the contract of a table of names as a locale; DnsHash, DnsHashProperties and DnsHashFree
    (pdnsd's hash.c) interpret it on the chained hash table of the cache. The loops along chains are
    partial functions; that they return is part of the theorems.
  \<^item> CacheLock: the readers/writer lock of pdnsd's cache.c as a transition system of threads.
  \<^item> RrList, RrListProperties: the doubly linked list of record sets by age (\<open>rrset_l\<close> in cache.c), its
    insertion, removal and merge sort. \<open>sort_rrl\<close> uses an array of 32 partial lists, hence the bound
    \<open>2 ^ NTMPSORT\<close> on the length of the list in the theorems.
  \<^item> CacheEntry, CacheEntryOps: the structures of cache.h and the operations of cache.c on one entry \<open>dns_cent\<close>;
    CacheEntryProperties, CacheEntryCopy, CacheEntryBuild: the entry's sizes, blocks and links, copies, entries built
    record by record. Memory is a number of allocated blocks; \<open>fails\<close> says which allocations fail.
  \<^item> CacheStore: the operations of cache.c on the whole cache. CacheStoreInv has its invariant \<open>cache_inv\<close>,
    CachePurge, CachePurgeCent, CacheAdd, CacheMerge, CacheInsert, CacheStoreProperties, CacheEmpty and CacheLookup
    that each operation returns, keeps it and does what it promises; CacheMergeSpec relates the merge of an answer to
    a reference on the contents of sets, and CacheSpec says exactly what a lookup hands out, which names an
    include/exclude list selects, where purging stops and what is in the cache after an answer for a new name. CacheHistory
    has the operations as the steps of a relation on the cache and the copies of entries and sets that callers hold.

  \<^bold>\<open>What the lemmas show.\<close> For each part an invariant or representation relation (\<open>cb_rep\<close>, \<open>tc_inv\<close>,
  \<open>hash_rep\<close>, \<open>counts_ok\<close>, \<open>cache_inv\<close> and others) and its preservation by every operation; on top of it refinement of an abstract
  object (a FIFO queue, a parser of packets, a bounded table in order of use, a map), agreement with the standard
  (RFC 768, 1035, 1071, 1928), round trips between the writing and the reading side, and for the state machines
  safety (who frees what, and when) and progress (some event that is registered can come). For the cache: every
  operation returns in every consistent cache, also when memory runs out, keeps it consistent, frees what it allocated,
  respects the limit of its size (but for data that it never purges) and the precedence of local data. Where the code
  departs from these, a theorem shows the exact case: the send buffer that is two bytes short, the
  checksum \<open>0xFFFF\<close> that is refused, the buffer lost when a client is aborted, the readers that wait for a
  free lock until a writer comes by.

  \<^bold>\<open>Not modelled.\<close> The event loop (BReactor, BPending, timers, signals), sockets and the device itself are I/O:
  the models take their effects as inputs in any order. lwIP is a third-party library. BadVPN's
  other programs (client, server, udpgw, ncd) are not built for Android. Of pdnsd, the threads that talk to
  servers and clients (dns\_query.c, dns\_answer.c, servers.c, status.c), the parser of the
  configuration are not modelled; of cache.c, \<open>add_reverse_cache\<close>, which makes two entries share record sets
  (the model of an entry owns its sets) and does not count them, so that the exactness of sizes and counters holds for
  histories without it; the cache on disk and the printing of statistics.
\<close>

end
